(* ===== verification/Skynet_Prelude.thy ===== *)
theory Skynet_Prelude
  imports Main "HOL-Library.Word" "HOL-Library.Multiset"
begin

text \<open>
  Shared vocabulary of the development: the machine types of the C sources, faults (what an
  \<^verbatim>\<open>assert\<close>, a NULL dereference or an out-of-range access does to the process) with their
  monadic plumbing, array access with the bounds written out, circular buffers, the FIFO
  interface that both message queues of the program implement, and a few list lemmas.
\<close>

unbundle bit_operations_syntax

section \<open>Machine types\<close>

type_synonym u8 = "8 word"
type_synonym u16 = "16 word"
type_synonym u32 = "32 word"
type_synonym u64 = "64 word"

text \<open>A C \<^verbatim>\<open>int\<close> whose wrap-around the code depends on is an \<open>i32\<close>, read with \<open>sint\<close>.\<close>

type_synonym i32 = "32 word"

text \<open>Addresses of heap objects; a nullable pointer is an option.\<close>

type_synonym ptr = nat

section \<open>Faults\<close>

text \<open>
  What stops the C process instead of returning: a failed assertion, a NULL (or dangling)
  dereference, an access outside an array, an \<^verbatim>\<open>exit\<close>, a loop that does not end, a read of
  memory that was never written, and an error raised into Lua.
\<close>

datatype fault = Assert_Failed | Null_Deref | Out_Of_Bounds | Exit_Called | Diverges
  | Uninit_Read | Lua_Error string

type_synonym 'a res = "fault + 'a"

definition bindE :: "'e + 'a \<Rightarrow> ('a \<Rightarrow> 'e + 'b) \<Rightarrow> 'e + 'b" where
  "bindE m f = (case m of Inl e \<Rightarrow> Inl e | Inr x \<Rightarrow> f x)"

definition assertE :: "bool \<Rightarrow> unit res" where
  "assertE b = (if b then Inr () else Inl Assert_Failed)"

definition derefE :: "'a option \<Rightarrow> 'a res" where
  "derefE p = (case p of None \<Rightarrow> Inl Null_Deref | Some x \<Rightarrow> Inr x)"

definition nthE :: "'a list \<Rightarrow> nat \<Rightarrow> 'a res" where
  "nthE xs i = (if i < length xs then Inr (xs ! i) else Inl Out_Of_Bounds)"

definition updE :: "'a list \<Rightarrow> nat \<Rightarrow> 'a \<Rightarrow> 'a list res" where
  "updE xs i x = (if i < length xs then Inr (xs[i := x]) else Inl Out_Of_Bounds)"

named_theorems res_simps "evaluation of the fault plumbing"

lemma bindE_Inr [simp, res_simps]: "bindE (Inr x) f = f x"
  by (simp add: bindE_def)

lemma bindE_Inl [simp, res_simps]: "bindE (Inl e) f = Inl e"
  by (simp add: bindE_def)

lemma bindE_eq_Inr [simp]: "bindE m f = Inr y \<longleftrightarrow> (\<exists>x. m = Inr x \<and> f x = Inr y)"
  by (cases m) auto

lemma assertE_True [simp, res_simps]: "assertE True = Inr ()"
  by (simp add: assertE_def)

lemma assertE_False [simp, res_simps]: "assertE False = Inl Assert_Failed"
  by (simp add: assertE_def)

lemma assertE_eq_Inr [simp]: "assertE b = Inr u \<longleftrightarrow> b"
  by (simp add: assertE_def)

lemma derefE_Some [simp, res_simps]: "derefE (Some x) = Inr x"
  by (simp add: derefE_def)

lemma derefE_None [simp, res_simps]: "derefE None = Inl Null_Deref"
  by (simp add: derefE_def)

lemma derefE_eq_Inr [simp]: "derefE p = Inr x \<longleftrightarrow> p = Some x"
  by (cases p) auto

lemma nthE_ok [simp, res_simps]: "i < length xs \<Longrightarrow> nthE xs i = Inr (xs ! i)"
  by (simp add: nthE_def)

lemma nthE_eq_Inr [simp]: "nthE xs i = Inr x \<longleftrightarrow> i < length xs \<and> xs ! i = x"
  by (auto simp: nthE_def)

lemma updE_ok [simp, res_simps]: "i < length xs \<Longrightarrow> updE xs i x = Inr (xs[i := x])"
  by (simp add: updE_def)

lemma updE_eq_Inr [simp]: "updE xs i x = Inr ys \<longleftrightarrow> i < length xs \<and> ys = xs[i := x]"
  by (auto simp: updE_def)

text \<open>What holds of every value a call returns.\<close>

definition every :: "('a \<Rightarrow> bool) \<Rightarrow> 'a res \<Rightarrow> bool" where
  "every P m \<longleftrightarrow> (\<forall>x. m = Inr x \<longrightarrow> P x)"

lemma every_simps [simp]: "every P (Inl e)" "every P (Inr x) = P x"
  "every P (bindE m f) \<longleftrightarrow> every (\<lambda>x. every P (f x)) m"
  by (cases m; simp add: every_def)+

lemma everyD: "every P m \<Longrightarrow> m = Inr x \<Longrightarrow> P x"
  by (simp add: every_def)

lemma every_mono: "every P m \<Longrightarrow> (\<And>x. P x \<Longrightarrow> Q x) \<Longrightarrow> every Q m"
  by (simp add: every_def)

lemma every_True [simp]: "(\<And>x. P x) \<Longrightarrow> every P m"
  by (simp add: every_def)

section \<open>Lists and maps\<close>

lemma list_update_numeral [simp]: "(x # xs)[numeral k := y] = x # xs[pred_numeral k := y]"
  by (simp add: numeral_eq_Suc)

lemma map_eqI:
  assumes "\<And>k v. m k = Some v \<longleftrightarrow> m' k = Some v"
  shows "m = m'"
proof
  fix k show "m k = m' k"
    using assms [of k "the (m k)"] assms [of k "the (m' k)"] by (cases "m k"; cases "m' k") simp_all
qed

section \<open>Words and their bit fields\<close>

lemma unat_drop_bit_div: "unat (drop_bit k (x::'a::len word)) = unat x div 2 ^ k"
  by (metis unat_drop_bit_eq drop_bit_eq_div)

lemma or_mask_eq_iff:
  "(x::'a::len word) OR mask k = y OR mask k \<longleftrightarrow> unat x div 2 ^ k = unat y div 2 ^ k"
proof -
  have "x OR mask k = y OR mask k \<longleftrightarrow> drop_bit k x = drop_bit k y"
  proof
    assume *: "x OR mask k = y OR mask k"
    show "drop_bit k x = drop_bit k y"
    proof (rule bit_word_eqI)
      fix n assume "n < LENGTH('a)"
      from arg_cong [OF *, of "\<lambda>w. bit w (k + n)"] show "bit (drop_bit k x) n = bit (drop_bit k y) n"
        by (auto simp: bit_simps)
    qed
  next
    assume *: "drop_bit k x = drop_bit k y"
    show "x OR mask k = y OR mask k"
    proof (rule bit_word_eqI)
      fix n assume "n < LENGTH('a)"
      show "bit (x OR mask k) n = bit (y OR mask k) n"
        using arg_cong [OF *, of "\<lambda>w. bit w (n - k)"] \<open>n < LENGTH('a)\<close>
        by (cases "n < k") (auto simp: bit_simps)
    qed
  qed
  then show ?thesis by (metis unat_drop_bit_div word_unat_eq_iff)
qed

lemma unat_and_mask: "unat ((x::'a::len word) AND mask k) = unat x mod 2 ^ k"
  by (metis take_bit_eq_mask take_bit_eq_mod unsigned_take_bit_eq)

lemma unat_drop_bit_and_mask:
  "unat (drop_bit j (x::'a::len word) AND mask k) = unat x div 2 ^ j mod 2 ^ k"
  by (metis unat_and_mask unat_drop_bit_div)

lemma and_mask_eq_0_iff: "(x::'a::len word) AND mask k = 0 \<longleftrightarrow> 2 ^ k dvd unat x"
  by (metis unat_and_mask dvd_eq_mod_eq_0 unat_eq_zero)

text \<open>Reading a 32-bit word as a C \<^verbatim>\<open>int\<close>.\<close>

lemma sint_i32: "sint (x :: i32) = (if unat x < 2 ^ 31 then int (unat x) else int (unat x) - 2 ^ 32)"
proof -
  have "sint x = (uint x + 2 ^ 31) mod 2 ^ 32 - 2 ^ 31"
    by (simp add: sint_uint signed_take_bit_eq_take_bit_shift take_bit_eq_mod)
  also have "uint x = int (unat x)" by simp
  finally have sint: "sint x = (int (unat x) + 2 ^ 31) mod 2 ^ 32 - 2 ^ 31" .
  have lt: "unat x < 2 ^ 32" using unsigned_less [of x, where 'a = nat] by simp
  have "(int (unat x) + 2 ^ 31) mod 2 ^ 32 = (if unat x < 2 ^ 31 then int (unat x) + 2 ^ 31
      else int (unat x) - 2 ^ 31)"
    using lt by (auto simp: mod_pos_pos_trivial mod_pos_geq simp del: of_nat_unat)
  then show ?thesis unfolding sint by (simp del: of_nat_unat)
qed

lemma of_nat_word_eq_near:
  assumes "n \<le> m" "m < n + 2 ^ LENGTH('a)"
  shows "(of_nat m :: 'a::len word) = of_nat n \<longleftrightarrow> m = n"
proof
  assume "(of_nat m :: 'a word) = of_nat n"
  then have "m mod 2 ^ LENGTH('a) = n mod 2 ^ LENGTH('a)"
    by (simp add: word_of_nat_eq_iff take_bit_eq_mod)
  then have "2 ^ LENGTH('a) dvd m - n" using assms(1) by (metis mod_eq_dvd_iff_nat)
  moreover have "m - n < 2 ^ LENGTH('a)" using assms by linarith
  ultimately have "m - n = 0" using dvd_imp_le linorder_not_le by blast
  with assms(1) show "m = n" by simp
qed simp

section \<open>Circular buffers\<close>

text \<open>
  The elements of a circular buffer over the array \<open>xs\<close> that starts at index \<open>h\<close> and holds
  \<open>n\<close> of them. Both \<^verbatim>\<open>skynet_mq.c\<close> and \<^verbatim>\<open>lua-netpack.c\<close> keep their packets this way.
\<close>

definition ring :: "'a list \<Rightarrow> nat \<Rightarrow> nat \<Rightarrow> 'a list" where
  "ring xs h n = map (\<lambda>i. xs ! ((h + i) mod length xs)) [0..<n]"

definition ring_len :: "nat \<Rightarrow> nat \<Rightarrow> nat \<Rightarrow> nat" where
  "ring_len c h t = (if h \<le> t then t - h else t + c - h)"

lemma length_ring [simp]: "length (ring xs h n) = n"
  by (simp add: ring_def)

lemma ring_0 [simp]: "ring xs h 0 = []"
  by (simp add: ring_def)

lemma ring_eq_Nil [simp]: "ring xs h n = [] \<longleftrightarrow> n = 0"
  by (simp add: ring_def)

lemma ring_Suc: "ring xs h (Suc n) = ring xs h n @ [xs ! ((h + n) mod length xs)]"
  by (simp add: ring_def)

lemma ring_head: "ring xs h (Suc n) = xs ! (h mod length xs) # ring xs (Suc h) n"
  unfolding ring_def by (simp add: upt_conv_Cons map_Suc_upt [symmetric] del: upt_Suc)

lemma ring_mod: "ring xs (h mod length xs) n = ring xs h n"
  by (simp add: ring_def mod_add_left_eq)

lemma ring_update:
  assumes "h < length xs" "n < length xs"
  shows "ring (xs[(h + n) mod length xs := x]) h n = ring xs h n"
proof -
  have "(h + i) mod length xs \<noteq> (h + n) mod length xs" if "i < n" for i
  proof
    assume "(h + i) mod length xs = (h + n) mod length xs"
    then have "length xs dvd (h + n) - (h + i)"
      by (metis mod_eq_dvd_iff_nat nat_add_left_cancel_le less_imp_le_nat that)
    with that assms show False by (auto dest: dvd_imp_le)
  qed
  then have "xs[(h + n) mod length xs := x] ! ((h + i) mod length xs)
      = xs ! ((h + i) mod length xs)" if "i < n" for i
    using that by (metis nth_list_update_neq)
  then show ?thesis by (simp add: ring_def)
qed

lemma ring_snoc:
  assumes "h < length xs" "n < length xs"
  shows "ring (xs[(h + n) mod length xs := x]) h (Suc n) = ring xs h n @ [x]"
proof -
  from assms have "(h + n) mod length xs < length xs" by (intro mod_less_divisor) linarith
  with assms show ?thesis by (simp add: ring_Suc ring_update [OF assms])
qed

lemma ring_tl:
  assumes "xs \<noteq> []"
  shows "ring xs h (Suc n) = xs ! (h mod length xs) # ring xs (Suc h mod length xs) n"
  by (simp add: ring_head ring_mod)

text \<open>Copying a full ring to the front of an array of at least its size.\<close>

lemma ring_expand:
  assumes "length ys = length xs"
  shows "ring (ring xs h (length xs) @ ys) 0 (length xs) = ring xs h (length xs)"
  by (rule nth_equalityI) (auto simp: ring_def nth_append)

lemma ring_len_step_head:
  assumes "h < c" "t < c" "h \<noteq> t"
  shows "ring_len c h t = Suc (ring_len c (if Suc h \<ge> c then 0 else Suc h) t)"
  using assms by (auto simp: ring_len_def)

lemma ring_len_less: "h < c \<Longrightarrow> t < c \<Longrightarrow> ring_len c h t < c"
  by (auto simp: ring_len_def)

lemma ring_len_eq_0: "h < c \<Longrightarrow> t < c \<Longrightarrow> ring_len c h t = 0 \<longleftrightarrow> h = t"
  by (auto simp: ring_len_def)

lemma ring_len_tail: "h < c \<Longrightarrow> t < c \<Longrightarrow> (h + ring_len c h t) mod c = t"
  by (auto simp: ring_len_def)

lemma ring_len_step_tail:
  assumes "h < c" "t < c" "h \<noteq> (if Suc t \<ge> c then 0 else Suc t)"
  shows "ring_len c h (if Suc t \<ge> c then 0 else Suc t) = Suc (ring_len c h t)"
  using assms by (auto simp: ring_len_def)

lemma ring_len_full:
  assumes "h < c" "t < c" "h = (if Suc t \<ge> c then 0 else Suc t)"
  shows "Suc (ring_len c h t) = c"
  using assms by (auto simp: ring_len_def split: if_splits)

lemma wrap_index: "h < c \<Longrightarrow> (if Suc h \<ge> c then 0 else Suc h) = Suc h mod c"
  by (auto simp: mod_Suc)

section \<open>The FIFO interface\<close>

text \<open>
  Operations on a queue, and what a run of them returns: for each dequeue the element
  removed, or nothing when the queue was empty. \<open>fifo_run\<close> runs an implementation and stops
  at its first fault; \<open>fifo_spec\<close> is the same run on a plain list.
\<close>

datatype 'a fifo_op = Enq 'a | Deq

fun fifo_run :: "('q \<Rightarrow> 'a \<Rightarrow> 'q res) \<Rightarrow> ('q \<Rightarrow> ('q \<times> 'a option) res)
    \<Rightarrow> 'q \<Rightarrow> 'a fifo_op list \<Rightarrow> ('q \<times> 'a option list) res" where
  "fifo_run enq deq q [] = Inr (q, [])"
| "fifo_run enq deq q (Enq x # ops) = bindE (enq q x) (\<lambda>q'. fifo_run enq deq q' ops)"
| "fifo_run enq deq q (Deq # ops) = bindE (deq q) (\<lambda>(q', r).
     bindE (fifo_run enq deq q' ops) (\<lambda>(q'', rs). Inr (q'', r # rs)))"

fun fifo_spec :: "'a list \<Rightarrow> 'a fifo_op list \<Rightarrow> 'a list \<times> 'a option list" where
  "fifo_spec xs [] = (xs, [])"
| "fifo_spec xs (Enq x # ops) = fifo_spec (xs @ [x]) ops"
| "fifo_spec [] (Deq # ops) = (let (ys, rs) = fifo_spec [] ops in (ys, None # rs))"
| "fifo_spec (x # xs) (Deq # ops) = (let (ys, rs) = fifo_spec xs ops in (ys, Some x # rs))"

locale fifo =
  fixes inv :: "'q \<Rightarrow> bool"
    and abs :: "'q \<Rightarrow> 'a list"
    and enq :: "'q \<Rightarrow> 'a \<Rightarrow> 'q res"
    and deq :: "'q \<Rightarrow> ('q \<times> 'a option) res"
  assumes enq_law: "inv q \<Longrightarrow> \<exists>q'. enq q x = Inr q' \<and> inv q' \<and> abs q' = abs q @ [x]"
    and deq_law: "inv q \<Longrightarrow> \<exists>q' r. deq q = Inr (q', r) \<and> inv q' \<and>
      (case abs q of [] \<Rightarrow> r = None \<and> abs q' = [] | x # xs \<Rightarrow> r = Some x \<and> abs q' = xs)"
begin

lemma run_refines:
  assumes "inv q"
  shows "\<exists>q'. fifo_run enq deq q ops = Inr (q', snd (fifo_spec (abs q) ops))
    \<and> inv q' \<and> abs q' = fst (fifo_spec (abs q) ops)"
  using assms
proof (induction ops arbitrary: q)
  case Nil
  then show ?case by simp
next
  case (Cons op ops)
  show ?case
  proof (cases op)
    case (Enq x)
    from enq_law [OF Cons.prems, of x] obtain q1 where
      q1: "enq q x = Inr q1" "inv q1" "abs q1 = abs q @ [x]" by blast
    from Cons.IH [OF q1(2)] q1 show ?thesis by (auto simp: Enq)
  next
    case Deq
    from deq_law [OF Cons.prems] obtain q1 r where
      q1: "deq q = Inr (q1, r)" "inv q1"
      and r: "case abs q of [] \<Rightarrow> r = None \<and> abs q1 = [] | x # xs \<Rightarrow> r = Some x \<and> abs q1 = xs"
      by blast
    from Cons.IH [OF q1(2)] q1 r show ?thesis
      by (cases "abs q") (auto simp: Deq split: prod.splits)
  qed
qed

end

end
