(* ===== verification/Skynet_Locks.thy ===== *)
theory Skynet_Locks
  imports Skynet_Prelude
begin

text \<open>
  The locks of \<^verbatim>\<open>skynet-src/spinlock.h\<close> and \<^verbatim>\<open>skynet-src/rwlock.h\<close>, over the atomic operations of
  \<^verbatim>\<open>skynet-src/atomic.h\<close>. Threads are numbered; each is at a program point of a lock function,
  and one step is one atomic operation of one thread, so a run is an arbitrary interleaving.
  The atomic operations are sequentially consistent, which is what the \<^verbatim>\<open>__sync\<close> builtins and the
  C11 operations without an explicit order provide.

  \<^verbatim>\<open>atomic.h\<close> has two versions of the operations, chosen by \<^verbatim>\<open>__STDC_NO_ATOMICS__\<close>. They differ in
  \<^verbatim>\<open>ATOM_CAS\<close>: the \<^verbatim>\<open>__sync\<close> builtin leaves the expected value alone, the C11 operation writes the
  value it found back into it when it fails, and may fail spuriously.
\<close>

section \<open>Atomic operations\<close>

datatype atomics = Sync_Builtins | C11_Atomics

text \<open>
  \<^verbatim>\<open>ATOM_CAS(ptr, oval, nval)\<close>: the results it may have, each the value returned, the new
  contents of the location and the new value of the variable passed as \<^verbatim>\<open>oval\<close>.
\<close>

fun ATOM_CAS :: "atomics \<Rightarrow> int \<Rightarrow> int \<Rightarrow> int \<Rightarrow> (bool \<times> int \<times> int) list" where
  "ATOM_CAS Sync_Builtins val oval nval =
     (if val = oval then [(True, nval, oval)] else [(False, val, oval)])"
| "ATOM_CAS C11_Atomics val oval nval =
     (if val = oval then [(True, nval, oval), (False, val, val)] else [(False, val, val)])"

section \<open>The reader-writer lock\<close>

text \<open>Program points; \<open>W_cas c\<close> is the compare-and-swap loop with its local \<^verbatim>\<open>clear = c\<close>.\<close>

datatype rw_pc = RW_Idle | R_spin | R_inc | R_check | R_undo | R_in | W_cas int | W_wait | W_in

type_synonym tid = nat

record rwlock =
  rw_write :: int
  rw_read :: int
  rw_pcs :: "tid \<Rightarrow> rw_pc"

definition rwlock_init :: rwlock where
  "rwlock_init = \<lparr>rw_write = 0, rw_read = 0, rw_pcs = (\<lambda>_. RW_Idle)\<rparr>"

definition rw_goto :: "tid \<Rightarrow> rw_pc \<Rightarrow> rwlock \<Rightarrow> rwlock" where
  "rw_goto t pc s = s\<lparr>rw_pcs := (rw_pcs s)(t := pc)\<rparr>"

inductive rw_step :: "atomics \<Rightarrow> rwlock \<Rightarrow> rwlock \<Rightarrow> bool" for A where
  call_rlock: "rw_pcs s t = RW_Idle \<Longrightarrow> rw_step A s (rw_goto t R_spin s)"
| rlock_spin: "rw_pcs s t = R_spin \<Longrightarrow>
    rw_step A s (rw_goto t (if rw_write s \<noteq> 0 then R_spin else R_inc) s)"
| rlock_inc: "rw_pcs s t = R_inc \<Longrightarrow> rw_step A s (rw_goto t R_check (s\<lparr>rw_read := rw_read s + 1\<rparr>))"
| rlock_check: "rw_pcs s t = R_check \<Longrightarrow>
    rw_step A s (rw_goto t (if rw_write s \<noteq> 0 then R_undo else R_in) s)"
| rlock_undo: "rw_pcs s t = R_undo \<Longrightarrow> rw_step A s (rw_goto t R_spin (s\<lparr>rw_read := rw_read s - 1\<rparr>))"
| runlock: "rw_pcs s t = R_in \<Longrightarrow> rw_step A s (rw_goto t RW_Idle (s\<lparr>rw_read := rw_read s - 1\<rparr>))"
| call_wlock: "rw_pcs s t = RW_Idle \<Longrightarrow> rw_step A s (rw_goto t (W_cas 0) s)"
| wlock_cas: "rw_pcs s t = W_cas clear \<Longrightarrow>
    (ok, v, clear') \<in> set (ATOM_CAS A (rw_write s) clear 1) \<Longrightarrow>
    rw_step A s (rw_goto t (if ok then W_wait else W_cas clear') (s\<lparr>rw_write := v\<rparr>))"
| wlock_wait: "rw_pcs s t = W_wait \<Longrightarrow>
    rw_step A s (rw_goto t (if rw_read s \<noteq> 0 then W_wait else W_in) s)"
| wunlock: "rw_pcs s t = W_in \<Longrightarrow> rw_step A s (rw_goto t RW_Idle (s\<lparr>rw_write := 0\<rparr>))"

inductive rw_reachable :: "atomics \<Rightarrow> rwlock \<Rightarrow> bool" for A where
  init: "rw_reachable A rwlock_init"
| step: "rw_reachable A s \<Longrightarrow> rw_step A s s' \<Longrightarrow> rw_reachable A s'"

text \<open>The threads that the counter \<^verbatim>\<open>read\<close> counts, and those that own \<^verbatim>\<open>write\<close>.\<close>

definition rw_counted :: "rwlock \<Rightarrow> tid set" where
  "rw_counted s = {t. rw_pcs s t \<in> {R_check, R_undo, R_in}}"

definition rw_writers :: "rwlock \<Rightarrow> tid set" where
  "rw_writers s = {t. rw_pcs s t \<in> {W_wait, W_in}}"

definition rw_inv :: "rwlock \<Rightarrow> bool" where
  "rw_inv s \<longleftrightarrow> finite (rw_counted s) \<and> rw_read s = int (card (rw_counted s))
     \<and> (\<forall>t c. rw_pcs s t = W_cas c \<longrightarrow> c = 0)
     \<and> (\<forall>t u. t \<in> rw_writers s \<and> u \<in> rw_writers s \<longrightarrow> t = u)
     \<and> (rw_write s \<noteq> 0 \<longleftrightarrow> rw_writers s \<noteq> {})
     \<and> (\<forall>t u. rw_pcs s t = W_in \<longrightarrow> rw_pcs s u \<noteq> R_in)"

lemma rw_goto_simps [simp]:
  "rw_pcs (rw_goto t pc s) = (rw_pcs s)(t := pc)" "rw_write (rw_goto t pc s) = rw_write s"
  "rw_read (rw_goto t pc s) = rw_read s"
  by (simp_all add: rw_goto_def)

lemma rw_counted_goto: "rw_counted (rw_goto t pc s) =
    (if pc \<in> {R_check, R_undo, R_in} then insert t (rw_counted s) else rw_counted s - {t})"
  by (auto simp: rw_counted_def)

lemma rw_writers_goto: "rw_writers (rw_goto t pc s) =
    (if pc \<in> {W_wait, W_in} then insert t (rw_writers s) else rw_writers s - {t})"
  by (auto simp: rw_writers_def)

lemma rw_sets_upd [simp]:
  "rw_counted (s\<lparr>rw_write := v\<rparr>) = rw_counted s" "rw_counted (s\<lparr>rw_read := r\<rparr>) = rw_counted s"
  "rw_writers (s\<lparr>rw_write := v\<rparr>) = rw_writers s" "rw_writers (s\<lparr>rw_read := r\<rparr>) = rw_writers s"
  by (simp_all add: rw_counted_def rw_writers_def)

lemma rw_in_writer: "rw_pcs s t = W_in \<Longrightarrow> t \<in> rw_writers s"
  by (simp add: rw_writers_def)

lemma rw_card_remove: "finite A \<Longrightarrow> t \<in> A \<Longrightarrow> int (card A - Suc 0) = int (card A) - 1"
  by (metis card_gt_0_iff empty_iff of_nat_1 of_nat_diff One_nat_def Suc_leI)

lemma rw_empty_read: "finite (rw_counted s) \<Longrightarrow> int (card (rw_counted s)) = 0 \<Longrightarrow> rw_pcs s u \<noteq> R_in"
  by (auto simp: rw_counted_def)

lemma rw_inv_step:
  assumes "rw_step Sync_Builtins s s'" "rw_inv s"
  shows "rw_inv s'"
  using assms
proof (cases rule: rw_step.cases)
  case (rlock_inc t)
  then have "t \<notin> rw_counted s" "t \<notin> rw_writers s" by (simp_all add: rw_counted_def rw_writers_def)
  with rlock_inc assms(2) show ?thesis
    by (auto simp: rw_inv_def rw_counted_goto rw_writers_goto)
next
  case (rlock_check t)
  then have "t \<in> rw_counted s" "t \<notin> rw_writers s" by (simp_all add: rw_counted_def rw_writers_def)
  with rlock_check assms(2) show ?thesis
    by (auto simp: rw_inv_def rw_counted_goto rw_writers_goto insert_absorb dest: rw_in_writer)
next
  case (rlock_undo t)
  then have "t \<in> rw_counted s" "t \<notin> rw_writers s" by (simp_all add: rw_counted_def rw_writers_def)
  with rlock_undo assms(2) show ?thesis
    by (auto simp: rw_inv_def rw_counted_goto rw_writers_goto rw_card_remove)
next
  case (runlock t)
  then have "t \<in> rw_counted s" "t \<notin> rw_writers s" by (simp_all add: rw_counted_def rw_writers_def)
  with runlock assms(2) show ?thesis
    by (auto simp: rw_inv_def rw_counted_goto rw_writers_goto rw_card_remove)
next
  case (wlock_cas t clear ok v clear')
  then have "t \<notin> rw_counted s" "t \<notin> rw_writers s" by (simp_all add: rw_counted_def rw_writers_def)
  with wlock_cas assms(2) show ?thesis
    by (auto simp: rw_inv_def rw_counted_goto rw_writers_goto split: if_splits)
next
  case (wlock_wait t)
  then have "t \<notin> rw_counted s" "t \<in> rw_writers s" by (simp_all add: rw_counted_def rw_writers_def)
  with wlock_wait assms(2) show ?thesis
    by (auto simp: rw_inv_def rw_counted_goto rw_writers_goto rw_empty_read insert_absorb)
next
  case (wunlock t)
  then have "t \<notin> rw_counted s" "t \<in> rw_writers s" by (simp_all add: rw_counted_def rw_writers_def)
  with wunlock assms(2) show ?thesis
    by (auto simp: rw_inv_def rw_counted_goto rw_writers_goto)
next
  case (call_rlock t)
  then have "t \<notin> rw_counted s" "t \<notin> rw_writers s" by (simp_all add: rw_counted_def rw_writers_def)
  with call_rlock assms(2) show ?thesis
    by (auto simp: rw_inv_def rw_counted_goto rw_writers_goto)
next
  case (rlock_spin t)
  then have "t \<notin> rw_counted s" "t \<notin> rw_writers s" by (simp_all add: rw_counted_def rw_writers_def)
  with rlock_spin assms(2) show ?thesis
    by (auto simp: rw_inv_def rw_counted_goto rw_writers_goto)
next
  case (call_wlock t)
  then have "t \<notin> rw_counted s" "t \<notin> rw_writers s" by (simp_all add: rw_counted_def rw_writers_def)
  with call_wlock assms(2) show ?thesis
    by (auto simp: rw_inv_def rw_counted_goto rw_writers_goto)
qed

lemma rw_inv_reachable: "rw_reachable Sync_Builtins s \<Longrightarrow> rw_inv s"
proof (induction rule: rw_reachable.induct)
  case init
  show ?case by (simp add: rw_inv_def rwlock_init_def rw_counted_def rw_writers_def)
qed (rule rw_inv_step)

section \<open>The spin lock\<close>

text \<open>
  Both versions of \<^verbatim>\<open>spinlock_lock\<close>: with C11 atomics a failed exchange is followed by a loop of
  plain loads until the lock looks free, and \<^verbatim>\<open>spinlock_trylock\<close> loads before it exchanges.
\<close>

datatype spin_pc = S_Idle | S_tas | S_load | T_load | T_tas | S_in

record spinlock =
  spin_lock :: int
  spin_pcs :: "tid \<Rightarrow> spin_pc"

definition spinlock_init :: spinlock where
  "spinlock_init = \<lparr>spin_lock = 0, spin_pcs = (\<lambda>_. S_Idle)\<rparr>"

definition spin_goto :: "tid \<Rightarrow> spin_pc \<Rightarrow> spinlock \<Rightarrow> spinlock" where
  "spin_goto t pc s = s\<lparr>spin_pcs := (spin_pcs s)(t := pc)\<rparr>"

inductive spin_step :: "atomics \<Rightarrow> spinlock \<Rightarrow> spinlock \<Rightarrow> bool" for A where
  call_lock: "spin_pcs s t = S_Idle \<Longrightarrow> spin_step A s (spin_goto t S_tas s)"
| lock_tas: "spin_pcs s t = S_tas \<Longrightarrow>
    spin_step A s (spin_goto t (if spin_lock s = 0 then S_in
        else if A = C11_Atomics then S_load else S_tas) (s\<lparr>spin_lock := 1\<rparr>))"
| lock_load: "spin_pcs s t = S_load \<Longrightarrow>
    spin_step A s (spin_goto t (if spin_lock s \<noteq> 0 then S_load else S_tas) s)"
| call_trylock: "spin_pcs s t = S_Idle \<Longrightarrow>
    spin_step A s (spin_goto t (if A = C11_Atomics then T_load else T_tas) s)"
| trylock_load: "spin_pcs s t = T_load \<Longrightarrow>
    spin_step A s (spin_goto t (if spin_lock s \<noteq> 0 then S_Idle else T_tas) s)"
| trylock_tas: "spin_pcs s t = T_tas \<Longrightarrow>
    spin_step A s (spin_goto t (if spin_lock s = 0 then S_in else S_Idle) (s\<lparr>spin_lock := 1\<rparr>))"
| unlock: "spin_pcs s t = S_in \<Longrightarrow> spin_step A s (spin_goto t S_Idle (s\<lparr>spin_lock := 0\<rparr>))"

inductive spin_reachable :: "atomics \<Rightarrow> spinlock \<Rightarrow> bool" for A where
  init: "spin_reachable A spinlock_init"
| step: "spin_reachable A s \<Longrightarrow> spin_step A s s' \<Longrightarrow> spin_reachable A s'"

definition spin_inv :: "spinlock \<Rightarrow> bool" where
  "spin_inv s \<longleftrightarrow> (if spin_lock s = 0 then \<forall>t. spin_pcs s t \<noteq> S_in
     else \<exists>h. \<forall>t. spin_pcs s t = S_in \<longleftrightarrow> t = h)"

lemma spin_inv_step: "spin_step A s s' \<Longrightarrow> spin_inv s \<Longrightarrow> spin_inv s'"
  by (induction rule: spin_step.induct)
    (auto simp: spin_inv_def spin_goto_def split: if_splits; metis spin_pc.distinct)+

lemma spin_inv_reachable: "spin_reachable A s \<Longrightarrow> spin_inv s"
proof (induction rule: spin_reachable.induct)
  case init
  show ?case by (simp add: spin_inv_def spinlock_init_def)
qed (rule spin_inv_step)

section \<open>Properties\<close>

text \<open>C19: With the \<^verbatim>\<open>__sync\<close> builtins the reader-writer lock is correct under every interleaving:
  while one thread is in a write section, no other thread is in a write or a read section, and
  the reader count is the number of threads that have incremented and not yet decremented it.\<close>

theorem rwlock_exclusion_sync:
  assumes "rw_reachable Sync_Builtins s" and "rw_pcs s t = W_in"
  shows "(\<forall>u. u \<noteq> t \<longrightarrow> rw_pcs s u \<noteq> W_in \<and> rw_pcs s u \<noteq> R_in)
    \<and> rw_read s = int (card (rw_counted s))"
proof -
  from rw_inv_reachable [OF assms(1)] have inv: "rw_inv s" .
  have "t \<in> rw_writers s" using assms(2) by (simp add: rw_writers_def)
  with inv assms(2) show ?thesis by (auto simp: rw_inv_def rw_writers_def)
qed

lemmas rw_run_simps = rw_goto_def rwlock_init_def

text \<open>A run in which thread 0 takes the write lock and thread 1 tries to.\<close>

definition rw_first_writer :: rwlock where
  "rw_first_writer = \<lparr>rw_write = 1, rw_read = 0, rw_pcs = (\<lambda>_. RW_Idle)(0 := W_in, 1 := W_cas 0)\<rparr>"

lemma rw_first_writer_reachable: "rw_reachable A rw_first_writer"
proof -
  let ?s1 = "rw_goto 0 (W_cas 0) rwlock_init"
  let ?s2 = "rw_goto 0 W_wait (?s1\<lparr>rw_write := 1\<rparr>)"
  let ?s3 = "rw_goto 0 W_in ?s2"
  have "rw_step A rwlock_init ?s1"
    by (rule rw_step.call_wlock) (simp add: rwlock_init_def)
  then have 1: "rw_reachable A ?s1" by (rule rw_reachable.step [OF rw_reachable.init])
  have "rw_step A ?s1 (rw_goto 0 (if True then W_wait else W_cas 0) (?s1\<lparr>rw_write := 1\<rparr>))"
    by (rule rw_step.wlock_cas [where clear = 0]) (cases A; simp add: rwlock_init_def)+
  then have 2: "rw_reachable A ?s2" using rw_reachable.step [OF 1] by simp
  have "rw_step A ?s2 (rw_goto 0 (if rw_read ?s2 \<noteq> 0 then W_wait else W_in) ?s2)"
    by (rule rw_step.wlock_wait) simp
  then have 3: "rw_reachable A ?s3" using rw_reachable.step [OF 2] by (simp add: rwlock_init_def)
  have "rw_step A ?s3 (rw_goto 1 (W_cas 0) ?s3)"
    by (rule rw_step.call_wlock) (simp add: rwlock_init_def)
  then have "rw_reachable A (rw_goto 1 (W_cas 0) ?s3)" by (rule rw_reachable.step [OF 3])
  then show ?thesis by (simp add: rw_first_writer_def rw_run_simps)
qed

theorem rwlock_exclusion_sync_witness:
  "rw_pcs rw_first_writer 1 \<noteq> W_in \<and> rw_read rw_first_writer = 0"
  using rwlock_exclusion_sync [OF rw_first_writer_reachable, of 0]
  by (auto simp: rw_first_writer_def)

text \<open>C20: With C11 atomics (the default on a current compiler) \<^verbatim>\<open>rwlock_wlock\<close> does not exclude a
  second writer: a failed \<^verbatim>\<open>atomic_compare_exchange_weak\<close> stores the value 1 it found into the
  local \<^verbatim>\<open>clear\<close>, the retry compares 1 with 1 and succeeds, and two threads are in the write
  section at once.\<close>

theorem rwlock_c11_two_writers:
  "\<exists>s. rw_reachable C11_Atomics s \<and> rw_pcs s 0 = W_in \<and> rw_pcs s 1 = W_in"
proof -
  let ?s0 = rw_first_writer
  let ?s1 = "rw_goto 1 (W_cas 1) (?s0\<lparr>rw_write := 1\<rparr>)"
  let ?s2 = "rw_goto 1 W_wait (?s1\<lparr>rw_write := 1\<rparr>)"
  let ?s3 = "rw_goto 1 W_in ?s2"
  have "rw_step C11_Atomics ?s0 (rw_goto 1 (if False then W_wait else W_cas 1) (?s0\<lparr>rw_write := 1\<rparr>))"
    by (rule rw_step.wlock_cas [where clear = 0]) (simp_all add: rw_first_writer_def)
  then have 1: "rw_reachable C11_Atomics ?s1"
    using rw_reachable.step [OF rw_first_writer_reachable] by simp
  have "rw_step C11_Atomics ?s1 (rw_goto 1 (if True then W_wait else W_cas 1) (?s1\<lparr>rw_write := 1\<rparr>))"
    by (rule rw_step.wlock_cas [where clear = 1]) simp_all
  then have 2: "rw_reachable C11_Atomics ?s2" using rw_reachable.step [OF 1] by simp
  have "rw_step C11_Atomics ?s2 (rw_goto 1 (if rw_read ?s2 \<noteq> 0 then W_wait else W_in) ?s2)"
    by (rule rw_step.wlock_wait) simp
  then have "rw_reachable C11_Atomics ?s3"
    using rw_reachable.step [OF 2] by (simp add: rw_first_writer_def)
  then show ?thesis by (intro exI [of _ ?s3]) (simp add: rw_first_writer_def)
qed

text \<open>The spin lock, in both versions and with \<^verbatim>\<open>spinlock_trylock\<close> used beside \<^verbatim>\<open>spinlock_lock\<close>,
  admits at most one holder under every interleaving, and the lock word is non-zero exactly
  while there is a holder, so a released lock can be taken again.\<close>

theorem spinlock_exclusion:
  assumes "spin_reachable A s" and "spin_pcs s t = S_in" and "spin_pcs s u = S_in"
  shows "t = u \<and> spin_lock s \<noteq> 0"
  using spin_inv_reachable [OF assms(1)] assms(2,3)
  by (auto simp: spin_inv_def split: if_splits)

theorem spinlock_exclusion_witness:
  "spin_lock (spin_goto 3 S_in ((spin_goto 3 S_tas spinlock_init)\<lparr>spin_lock := 1\<rparr>)) \<noteq> 0"
proof -
  let ?s1 = "spin_goto 3 S_tas spinlock_init"
  let ?s2 = "spin_goto 3 S_in (?s1\<lparr>spin_lock := 1\<rparr>)"
  have "spin_step C11_Atomics spinlock_init ?s1"
    by (rule spin_step.call_lock) (simp add: spinlock_init_def)
  then have 1: "spin_reachable C11_Atomics ?s1" by (rule spin_reachable.step [OF spin_reachable.init])
  have "spin_step C11_Atomics ?s1 (spin_goto 3 (if spin_lock ?s1 = 0 then S_in
      else if C11_Atomics = C11_Atomics then S_load else S_tas) (?s1\<lparr>spin_lock := 1\<rparr>))"
    by (rule spin_step.lock_tas) (simp add: spin_goto_def)
  then have "spin_reachable C11_Atomics ?s2"
    using spin_reachable.step [OF 1] by (simp add: spin_goto_def spinlock_init_def)
  moreover have "spin_pcs ?s2 3 = S_in" by (simp add: spin_goto_def)
  ultimately show ?thesis using spinlock_exclusion [of C11_Atomics ?s2 3 3] by blast
qed

end
