(* ===== verification/Message_Queue.thy ===== *)
theory Message_Queue
  imports Skynet_Prelude
begin

text \<open>
  The message queues of \<^verbatim>\<open>skynet-src/skynet_mq.c\<close>: every service owns a \<^emph>\<open>secondary\<close> queue, a
  growing circular buffer of messages, and the queues with work to do are linked, through
  their own \<^verbatim>\<open>next\<close> pointers, into one \<^emph>\<open>global\<close> queue from which the worker threads draw.

  Queues live in a store \<open>mq_heap\<close> addressed by pointers, so that the aliasing of the linked
  list is explicit. Each C function runs under the queue's or the global queue's spin lock
  (their mutual exclusion is the subject of theory \<open>Skynet_Locks\<close>), so each is one step on
  the state. Indices and sizes are non-negative C \<^verbatim>\<open>int\<close>s and are modelled as \<open>nat\<close>; a queue
  of \<open>2 ^ 31\<close> messages, where they would overflow, is out of the model's scope.
\<close>

section \<open>Data\<close>

record skynet_message =
  msg_source :: u32
  msg_session :: i32
  msg_data :: "ptr option"
  msg_sz :: u64

text \<open>What a fresh array cell holds: C leaves it unspecified and the queue never reads it.\<close>

definition blank_message :: skynet_message where
  "blank_message = \<lparr>msg_source = 0, msg_session = 0, msg_data = None, msg_sz = 0\<rparr>"

type_synonym qptr = nat

record message_queue =
  mq_handle :: u32
  mq_cap :: nat
  mq_head :: nat
  mq_tail :: nat
  mq_release :: bool
  mq_in_global :: bool
  mq_overload :: nat
  mq_overload_threshold :: nat
  mq_queue :: "skynet_message list"
  mq_next :: "qptr option"

text \<open>
  The store of queues with the global queue \<^verbatim>\<open>Q\<close>. Later theories extend this record with the
  state of the other components, so the operations below are polymorphic in the extension.
\<close>

record mq_state =
  mq_heap :: "qptr \<Rightarrow> message_queue option"
  mq_brk :: qptr
  gq_head :: "qptr option"
  gq_tail :: "qptr option"

definition DEFAULT_QUEUE_SIZE :: nat where "DEFAULT_QUEUE_SIZE = 64"
definition MQ_OVERLOAD :: nat where "MQ_OVERLOAD = 1024"

definition set_mq :: "qptr \<Rightarrow> message_queue \<Rightarrow> 'a mq_state_scheme \<Rightarrow> 'a mq_state_scheme" where
  "set_mq p q st = st\<lparr>mq_heap := (mq_heap st)(p \<mapsto> q)\<rparr>"

section \<open>The global queue\<close>

definition skynet_mq_init :: "'a mq_state_scheme \<Rightarrow> 'a mq_state_scheme" where
  "skynet_mq_init st = st\<lparr>gq_head := None, gq_tail := None\<rparr>"

definition skynet_globalmq_push :: "'a mq_state_scheme \<Rightarrow> qptr \<Rightarrow> ('a mq_state_scheme) res" where
  "skynet_globalmq_push st p =
     bindE (derefE (mq_heap st p)) (\<lambda>queue.
     bindE (assertE (mq_next queue = None)) (\<lambda>_.
     case gq_tail st of
       Some t \<Rightarrow> bindE (derefE (mq_heap st t)) (\<lambda>tq.
         Inr ((set_mq t (tq\<lparr>mq_next := Some p\<rparr>) st)\<lparr>gq_tail := Some p\<rparr>))
     | None \<Rightarrow> Inr (st\<lparr>gq_head := Some p, gq_tail := Some p\<rparr>)))"

definition skynet_globalmq_pop :: "'a mq_state_scheme \<Rightarrow> ('a mq_state_scheme \<times> qptr option) res" where
  "skynet_globalmq_pop st =
     (case gq_head st of
        None \<Rightarrow> Inr (st, None)
      | Some p \<Rightarrow> bindE (derefE (mq_heap st p)) (\<lambda>mq.
          let st1 = st\<lparr>gq_head := mq_next mq\<rparr> in
          bindE (if mq_next mq = None
                 then bindE (assertE (Some p = gq_tail st)) (\<lambda>_. Inr (st1\<lparr>gq_tail := None\<rparr>))
                 else Inr st1) (\<lambda>st2.
          Inr (set_mq p (mq\<lparr>mq_next := None\<rparr>) st2, Some p))))"

section \<open>Secondary queues\<close>

definition mq_new :: "u32 \<Rightarrow> message_queue" where
  "mq_new handle = \<lparr>mq_handle = handle, mq_cap = DEFAULT_QUEUE_SIZE, mq_head = 0, mq_tail = 0,
     mq_release = False, mq_in_global = True, mq_overload = 0,
     mq_overload_threshold = MQ_OVERLOAD,
     mq_queue = replicate DEFAULT_QUEUE_SIZE blank_message, mq_next = None\<rparr>"

definition skynet_mq_create :: "'a mq_state_scheme \<Rightarrow> u32 \<Rightarrow> 'a mq_state_scheme \<times> qptr" where
  "skynet_mq_create st handle =
     (let p = mq_brk st in (set_mq p (mq_new handle) (st\<lparr>mq_brk := Suc p\<rparr>), p))"

text \<open>\<^verbatim>\<open>_release\<close>: the queue's memory is returned; its address is no longer mapped.\<close>

definition mq_free :: "'a mq_state_scheme \<Rightarrow> qptr \<Rightarrow> ('a mq_state_scheme) res" where
  "mq_free st p =
     bindE (derefE (mq_heap st p)) (\<lambda>q.
     bindE (assertE (mq_next q = None)) (\<lambda>_.
     Inr (st\<lparr>mq_heap := (mq_heap st)(p := None)\<rparr>)))"

definition skynet_mq_handle :: "'a mq_state_scheme \<Rightarrow> qptr \<Rightarrow> u32 res" where
  "skynet_mq_handle st p = bindE (derefE (mq_heap st p)) (\<lambda>q. Inr (mq_handle q))"

definition mq_length :: "message_queue \<Rightarrow> nat" where
  "mq_length q =
     (let head = mq_head q; tail = mq_tail q; cap = mq_cap q
      in if head \<le> tail then tail - head else tail + cap - head)"

definition skynet_mq_length :: "'a mq_state_scheme \<Rightarrow> qptr \<Rightarrow> nat res" where
  "skynet_mq_length st p = bindE (derefE (mq_heap st p)) (\<lambda>q. Inr (mq_length q))"

definition skynet_mq_overload :: "'a mq_state_scheme \<Rightarrow> qptr \<Rightarrow> ('a mq_state_scheme \<times> nat) res" where
  "skynet_mq_overload st p =
     bindE (derefE (mq_heap st p)) (\<lambda>q.
     if mq_overload q \<noteq> 0
     then Inr (set_mq p (q\<lparr>mq_overload := 0\<rparr>) st, mq_overload q)
     else Inr (st, 0))"

text \<open>
  The loop of \<^verbatim>\<open>skynet_mq_pop\<close> that records an overload and doubles the threshold until it
  covers the queue's length. From a threshold of 0 it would not end.
\<close>

partial_function (option) overload_loop :: "nat \<Rightarrow> nat \<Rightarrow> nat \<Rightarrow> (nat \<times> nat) option" where
  "overload_loop len overload threshold =
     (if len > threshold then overload_loop len len (threshold * 2)
      else Some (overload, threshold))"

definition mq_pop_q :: "message_queue \<Rightarrow> (message_queue \<times> skynet_message option) res" where
  "mq_pop_q q =
     (if mq_head q \<noteq> mq_tail q then
        bindE (nthE (mq_queue q) (mq_head q)) (\<lambda>message.
        let head = Suc (mq_head q);
            tail = mq_tail q;
            cap = mq_cap q;
            head = (if head \<ge> cap then 0 else head);
            length = int tail - int head;
            length = (if length < 0 then length + int cap else length)
        in case overload_loop (nat length) (mq_overload q) (mq_overload_threshold q) of
             None \<Rightarrow> Inl Diverges
           | Some (overload, threshold) \<Rightarrow>
               Inr (q\<lparr>mq_head := head, mq_overload := overload,
                      mq_overload_threshold := threshold\<rparr>, Some message))
      else Inr (q\<lparr>mq_overload_threshold := MQ_OVERLOAD, mq_in_global := False\<rparr>, None))"

definition skynet_mq_pop :: "'a mq_state_scheme \<Rightarrow> qptr
    \<Rightarrow> ('a mq_state_scheme \<times> skynet_message option) res" where
  "skynet_mq_pop st p =
     bindE (derefE (mq_heap st p)) (\<lambda>q.
     bindE (mq_pop_q q) (\<lambda>(q', m). Inr (set_mq p q' st, m)))"

definition expand_queue :: "message_queue \<Rightarrow> message_queue" where
  "expand_queue q =
     (let new_queue = map (\<lambda>i. mq_queue q ! ((mq_head q + i) mod mq_cap q)) [0..<mq_cap q]
            @ replicate (mq_cap q) blank_message
      in q\<lparr>mq_head := 0, mq_tail := mq_cap q, mq_cap := mq_cap q * 2, mq_queue := new_queue\<rparr>)"

definition mq_push_q :: "message_queue \<Rightarrow> skynet_message \<Rightarrow> message_queue res" where
  "mq_push_q q message =
     bindE (updE (mq_queue q) (mq_tail q) message) (\<lambda>queue.
     let tail = Suc (mq_tail q);
         tail = (if tail \<ge> mq_cap q then 0 else tail);
         q1 = q\<lparr>mq_queue := queue, mq_tail := tail\<rparr>
     in Inr (if mq_head q1 = mq_tail q1 then expand_queue q1 else q1))"

definition skynet_mq_push :: "'a mq_state_scheme \<Rightarrow> qptr \<Rightarrow> skynet_message
    \<Rightarrow> ('a mq_state_scheme) res" where
  "skynet_mq_push st p message =
     bindE (derefE (mq_heap st p)) (\<lambda>q.
     bindE (mq_push_q q message) (\<lambda>q1.
     if \<not> mq_in_global q1
     then skynet_globalmq_push (set_mq p (q1\<lparr>mq_in_global := True\<rparr>) st) p
     else Inr (set_mq p q1 st)))"

definition skynet_mq_mark_release :: "'a mq_state_scheme \<Rightarrow> qptr \<Rightarrow> ('a mq_state_scheme) res" where
  "skynet_mq_mark_release st p =
     bindE (derefE (mq_heap st p)) (\<lambda>q.
     bindE (assertE (\<not> mq_release q)) (\<lambda>_.
     let st1 = set_mq p (q\<lparr>mq_release := True\<rparr>) st in
     if \<not> mq_in_global q then skynet_globalmq_push st1 p else Inr st1))"

text \<open>
  \<^verbatim>\<open>_drop_queue\<close> pops every message, hands it to the caller's \<^verbatim>\<open>drop_func\<close>, and frees the queue.
  The loop ends only if \<^verbatim>\<open>drop_func\<close> does not keep refilling the queue; \<open>None\<close> is a loop that
  never ends.
\<close>

partial_function (option) drop_loop :: "(skynet_message \<Rightarrow> 'a mq_state_scheme \<Rightarrow> ('a mq_state_scheme) res)
    \<Rightarrow> qptr \<Rightarrow> 'a mq_state_scheme \<Rightarrow> ('a mq_state_scheme) res option" where
  "drop_loop drop_func p st =
     (case skynet_mq_pop st p of
        Inl e \<Rightarrow> Some (Inl e)
      | Inr (st1, m) \<Rightarrow>
          (case m of
             None \<Rightarrow> Some (Inr st1)
           | Some msg \<Rightarrow>
               (case drop_func msg st1 of
                  Inl e \<Rightarrow> Some (Inl e)
                | Inr st2 \<Rightarrow> drop_loop drop_func p st2)))"

definition drop_queue :: "(skynet_message \<Rightarrow> 'a mq_state_scheme \<Rightarrow> ('a mq_state_scheme) res)
    \<Rightarrow> qptr \<Rightarrow> 'a mq_state_scheme \<Rightarrow> ('a mq_state_scheme) res" where
  "drop_queue drop_func p st =
     (case drop_loop drop_func p st of
        None \<Rightarrow> Inl Diverges
      | Some r \<Rightarrow> bindE r (\<lambda>st1. mq_free st1 p))"

definition skynet_mq_release :: "(skynet_message \<Rightarrow> 'a mq_state_scheme \<Rightarrow> ('a mq_state_scheme) res)
    \<Rightarrow> 'a mq_state_scheme \<Rightarrow> qptr \<Rightarrow> ('a mq_state_scheme) res" where
  "skynet_mq_release drop_func st p =
     bindE (derefE (mq_heap st p)) (\<lambda>q.
     if mq_release q then drop_queue drop_func p st else skynet_globalmq_push st p)"

section \<open>The circular buffer is a FIFO\<close>

text \<open>The invariant of one queue, and the messages it holds, oldest first.\<close>

definition mq_wf :: "message_queue \<Rightarrow> bool" where
  "mq_wf q \<longleftrightarrow> 0 < mq_cap q \<and> length (mq_queue q) = mq_cap q \<and> mq_head q < mq_cap q
     \<and> mq_tail q < mq_cap q \<and> 0 < mq_overload_threshold q"

definition mq_contents :: "message_queue \<Rightarrow> skynet_message list" where
  "mq_contents q = ring (mq_queue q) (mq_head q) (mq_length q)"

lemma mq_length_ring_len: "mq_length q = ring_len (mq_cap q) (mq_head q) (mq_tail q)"
  by (simp add: mq_length_def ring_len_def)

lemma length_mq_contents [simp]: "length (mq_contents q) = mq_length q"
  by (simp add: mq_contents_def)

lemma overload_loop_ok:
  "0 < threshold \<Longrightarrow> \<exists>ov th. overload_loop len overload threshold = Some (ov, th)
     \<and> len \<le> th \<and> 0 < th \<and> ov = (if len > threshold then len else overload)"
proof (induction "len - threshold" arbitrary: overload threshold rule: less_induct)
  case less
  show ?case
  proof (cases "len > threshold")
    case True
    with less.prems have "len - threshold * 2 < len - threshold" by simp
    from less.hyps [OF this, of len] less.prems True show ?thesis
      by (auto simp: overload_loop.simps [of len overload threshold] split: if_splits)
  next
    case False
    with less.prems show ?thesis by (auto simp: overload_loop.simps)
  qed
qed

lemma mq_wf_new [simp]: "mq_wf (mq_new h)"
  by (simp add: mq_wf_def mq_new_def DEFAULT_QUEUE_SIZE_def MQ_OVERLOAD_def)

lemma mq_contents_new [simp]: "mq_contents (mq_new h) = []"
  by (simp add: mq_contents_def mq_new_def mq_length_def)

lemma mq_contents_expand:
  assumes "length (mq_queue q) = mq_cap q"
  shows "mq_contents (expand_queue q) = ring (mq_queue q) (mq_head q) (mq_cap q)"
proof -
  have "mq_queue (expand_queue q)
      = ring (mq_queue q) (mq_head q) (mq_cap q) @ replicate (mq_cap q) blank_message"
    using assms by (simp add: expand_queue_def ring_def Let_def)
  with assms ring_expand [of "replicate (mq_cap q) blank_message" "mq_queue q" "mq_head q"]
  show ?thesis by (simp add: mq_contents_def mq_length_def) (simp add: expand_queue_def Let_def)
qed

lemma mq_push_q_ok:
  assumes wf: "mq_wf q"
  shows "\<exists>q'. mq_push_q q m = Inr q' \<and> mq_wf q' \<and> mq_contents q' = mq_contents q @ [m]
    \<and> mq_in_global q' = mq_in_global q \<and> mq_release q' = mq_release q \<and> mq_next q' = mq_next q
    \<and> mq_handle q' = mq_handle q"
proof -
  define t where "t = (if Suc (mq_tail q) \<ge> mq_cap q then 0 else Suc (mq_tail q))"
  define q1 where "q1 = q\<lparr>mq_queue := (mq_queue q)[mq_tail q := m], mq_tail := t\<rparr>"
  let ?n = "mq_length q"
  from wf have b: "mq_head q < mq_cap q" "mq_tail q < mq_cap q" "length (mq_queue q) = mq_cap q"
    by (auto simp: mq_wf_def)
  have n: "?n < length (mq_queue q)" and tl: "(mq_head q + ?n) mod length (mq_queue q) = mq_tail q"
    using b by (auto simp: mq_length_ring_len ring_len_less ring_len_tail)
  have snoc: "ring ((mq_queue q)[mq_tail q := m]) (mq_head q) (Suc ?n) = mq_contents q @ [m]"
    using ring_snoc [of "mq_head q" "mq_queue q" ?n m] b n tl by (simp add: mq_contents_def)
  have push: "mq_push_q q m = Inr (if mq_head q1 = mq_tail q1 then expand_queue q1 else q1)"
    using b by (simp add: mq_push_q_def q1_def t_def Let_def)
  show ?thesis
  proof (cases "mq_head q = t")
    case True
    then have full: "Suc ?n = mq_cap q"
      using b by (simp add: mq_length_ring_len ring_len_full t_def)
    have "mq_contents (expand_queue q1) = mq_contents q @ [m]"
      using snoc full b mq_contents_expand [of q1] by (simp add: q1_def)
    with push True wf show ?thesis
      by (simp add: q1_def expand_queue_def mq_wf_def Let_def)
  next
    case False
    then have "mq_length q1 = Suc ?n"
      using b by (simp add: mq_length_ring_len q1_def t_def ring_len_step_tail)
    with push False wf snoc show ?thesis
      by (auto simp: q1_def mq_wf_def mq_contents_def t_def)
  qed
qed

lemma mq_pop_q_ok:
  assumes wf: "mq_wf q"
  shows "\<exists>q' r. mq_pop_q q = Inr (q', r) \<and> mq_wf q'
    \<and> (case mq_contents q of
         [] \<Rightarrow> r = None \<and> mq_contents q' = [] \<and> \<not> mq_in_global q'
       | m # ms \<Rightarrow> r = Some m \<and> mq_contents q' = ms \<and> mq_in_global q' = mq_in_global q)
    \<and> mq_release q' = mq_release q \<and> mq_next q' = mq_next q \<and> mq_handle q' = mq_handle q"
proof -
  from wf have b: "mq_head q < mq_cap q" "mq_tail q < mq_cap q" "length (mq_queue q) = mq_cap q"
    by (auto simp: mq_wf_def)
  show ?thesis
  proof (cases "mq_head q = mq_tail q")
    case True
    then have "mq_contents q = []" by (simp add: mq_contents_def mq_length_def)
    with True wf show ?thesis
      by (simp add: mq_pop_q_def mq_wf_def MQ_OVERLOAD_def mq_contents_def mq_length_def)
  next
    case False
    define h where "h = (if Suc (mq_head q) \<ge> mq_cap q then 0 else Suc (mq_head q))"
    define len where "len = ring_len (mq_cap q) h (mq_tail q)"
    have h: "h < mq_cap q" "h = Suc (mq_head q) mod mq_cap q"
      using b by (auto simp: h_def wrap_index)
    have len: "nat (if int (mq_tail q) - int h < 0 then int (mq_tail q) - int h + int (mq_cap q)
        else int (mq_tail q) - int h) = len"
      using h b by (auto simp: len_def ring_len_def)
    have n: "mq_length q = Suc len"
      using b False by (simp add: mq_length_ring_len len_def h_def ring_len_step_head)
    from wf obtain ov th where
      loop: "overload_loop len (mq_overload q) (mq_overload_threshold q) = Some (ov, th)" "0 < th"
      using overload_loop_ok [of "mq_overload_threshold q" len "mq_overload q"]
      by (auto simp: mq_wf_def)
    let ?q = "q\<lparr>mq_head := h, mq_overload := ov, mq_overload_threshold := th\<rparr>"
    have pop: "mq_pop_q q = Inr (?q, Some (mq_queue q ! mq_head q))"
      using False b unfolding mq_pop_q_def Let_def h_def [symmetric] len loop
      by simp
    have "mq_contents q = mq_queue q ! mq_head q # mq_contents ?q"
      using n b h by (simp add: mq_contents_def mq_length_ring_len len_def ring_head ring_mod
        flip: ring_mod [of _ "Suc _"])
    with pop wf loop h show ?thesis by (auto simp: mq_wf_def)
  qed
qed

interpretation mqf: fifo mq_wf mq_contents mq_push_q mq_pop_q
proof
  show "\<exists>q'. mq_push_q q x = Inr q' \<and> mq_wf q' \<and> mq_contents q' = mq_contents q @ [x]"
    if "mq_wf q" for q x
    using mq_push_q_ok [OF that] by blast
  show "\<exists>q' r. mq_pop_q q = Inr (q', r) \<and> mq_wf q' \<and>
      (case mq_contents q of [] \<Rightarrow> r = None \<and> mq_contents q' = []
       | x # xs \<Rightarrow> r = Some x \<and> mq_contents q' = xs)" if "mq_wf q" for q
    using mq_pop_q_ok [OF that] by (cases "mq_contents q") auto
qed

section \<open>The global queue is a list of distinct queues\<close>

text \<open>
  The \<^verbatim>\<open>next\<close> pointers seen as a function, the queues on a chain of them, and the list the
  global queue represents.
\<close>

definition mq_nx :: "'a mq_state_scheme \<Rightarrow> qptr \<Rightarrow> qptr option option" where
  "mq_nx st p = map_option mq_next (mq_heap st p)"

fun linked :: "(qptr \<Rightarrow> qptr option option) \<Rightarrow> qptr list \<Rightarrow> bool" where
  "linked nx [] = True"
| "linked nx [p] = (nx p = Some None)"
| "linked nx (p # p' # ps) = (nx p = Some (Some p') \<and> linked nx (p' # ps))"

definition gq_repr :: "'a mq_state_scheme \<Rightarrow> qptr list \<Rightarrow> bool" where
  "gq_repr st gl \<longleftrightarrow> distinct gl \<and> linked (mq_nx st) gl
     \<and> gq_head st = (case gl of [] \<Rightarrow> None | p # _ \<Rightarrow> Some p)
     \<and> gq_tail st = (if gl = [] then None else Some (last gl))"

lemma linked_frame: "(\<And>p. p \<in> set gl \<Longrightarrow> nx p = nx' p) \<Longrightarrow> linked nx gl = linked nx' gl"
  by (induction nx gl rule: linked.induct) auto

lemma linked_mapped: "linked nx gl \<Longrightarrow> p \<in> set gl \<Longrightarrow> nx p \<noteq> None"
  by (induction nx gl rule: linked.induct) auto

lemma linked_last: "linked nx gl \<Longrightarrow> gl \<noteq> [] \<Longrightarrow> nx (last gl) = Some None"
  by (induction nx gl rule: linked.induct) auto

lemma linked_snoc:
  "linked nx gl \<Longrightarrow> distinct gl \<Longrightarrow> gl \<noteq> [] \<Longrightarrow> p \<notin> set gl \<Longrightarrow> nx p = Some None \<Longrightarrow>
   linked (nx(last gl := Some (Some p))) (gl @ [p])"
proof (induction nx gl rule: linked.induct)
  case (3 nx a b ps)
  then have "a \<noteq> last (b # ps)" by (metis distinct.simps(2) last_in_set list.distinct(1))
  with 3 show ?case by simp
qed auto

lemma linked_tl:
  assumes "linked nx (p # ps)" "distinct (p # ps)"
  shows "linked (nx(p := v)) ps"
proof -
  from assms(1) have "linked nx ps" by (cases ps) auto
  moreover have "linked nx ps = linked (nx(p := v)) ps"
    using assms(2) by (intro linked_frame) auto
  ultimately show ?thesis by simp
qed

lemma mq_nx_set_mq: "mq_nx (set_mq p q st) = (mq_nx st)(p := Some (mq_next q))"
  by (auto simp: mq_nx_def set_mq_def)

lemma mq_heap_set_mq [simp]: "mq_heap (set_mq p q st) = (mq_heap st)(p \<mapsto> q)"
  by (simp add: set_mq_def)

lemma gq_set_mq [simp]: "gq_head (set_mq p q st) = gq_head st" "gq_tail (set_mq p q st) = gq_tail st"
    "mq_brk (set_mq p q st) = mq_brk st"
  by (simp_all add: set_mq_def)

lemma mq_nx_upd [simp]: "mq_nx (st\<lparr>mq_brk := b\<rparr>) = mq_nx st" "mq_nx (st\<lparr>gq_head := h\<rparr>) = mq_nx st"
    "mq_nx (st\<lparr>gq_tail := t\<rparr>) = mq_nx st"
  by (simp_all add: mq_nx_def fun_eq_iff)

lemma mq_wf_next [simp]: "mq_wf (q\<lparr>mq_next := n\<rparr>) = mq_wf q"
  by (simp add: mq_wf_def)

lemma mq_contents_upd [simp]: "mq_contents (q\<lparr>mq_next := n\<rparr>) = mq_contents q"
    "mq_contents (q\<lparr>mq_in_global := g\<rparr>) = mq_contents q"
    "mq_contents (q\<lparr>mq_release := r\<rparr>) = mq_contents q"
    "mq_contents (q\<lparr>mq_overload := v\<rparr>) = mq_contents q"
  by (simp_all add: mq_contents_def mq_length_def)

lemma gq_repr_set_mq:
  assumes "gq_repr st gl" "mq_heap st p = Some q0" "mq_next q = mq_next q0"
  shows "gq_repr (set_mq p q st) gl"
proof -
  have "mq_nx (set_mq p q st) = mq_nx st" using assms(2,3) by (auto simp: mq_nx_def)
  with assms(1) show ?thesis by (simp add: gq_repr_def)
qed

lemma globalmq_push_repr:
  assumes repr: "gq_repr st gl" and new: "p \<notin> set gl" and q: "mq_heap st p = Some q" "mq_next q = None"
  shows "\<exists>st'. skynet_globalmq_push st p = Inr st' \<and> gq_repr st' (gl @ [p]) \<and> mq_brk st' = mq_brk st
    \<and> (\<forall>x. mq_heap st' x = (if gl \<noteq> [] \<and> x = last gl
         then map_option (mq_next_update (\<lambda>_. Some p)) (mq_heap st x) else mq_heap st x))"
proof (cases "gl = []")
  case True
  with repr q show ?thesis
    by (auto simp: skynet_globalmq_push_def gq_repr_def mq_nx_def)
next
  case False
  from repr have l: "linked (mq_nx st) gl" "distinct gl" by (auto simp: gq_repr_def)
  from linked_last [OF l(1) False] obtain tq where tq: "mq_heap st (last gl) = Some tq"
    by (auto simp: mq_nx_def)
  let ?st = "(set_mq (last gl) (tq\<lparr>mq_next := Some p\<rparr>) st)\<lparr>gq_tail := Some p\<rparr>"
  have "mq_nx ?st = (mq_nx st)(last gl := Some (Some p))"
    by (auto simp: mq_nx_def)
  with linked_snoc [OF l False new] q have "linked (mq_nx ?st) (gl @ [p])"
    by (simp add: mq_nx_def)
  with repr new False q tq show ?thesis
    by (auto simp: skynet_globalmq_push_def gq_repr_def split: list.splits)
qed

lemma globalmq_pop_repr:
  assumes repr: "gq_repr st (p # ps)"
  shows "\<exists>st' q. mq_heap st p = Some q \<and> skynet_globalmq_pop st = Inr (st', Some p)
    \<and> gq_repr st' ps \<and> mq_heap st' = (mq_heap st)(p \<mapsto> q\<lparr>mq_next := None\<rparr>) \<and> mq_brk st' = mq_brk st"
proof -
  from repr have l: "linked (mq_nx st) (p # ps)" "distinct (p # ps)" by (auto simp: gq_repr_def)
  from linked_mapped [OF l(1), of p] obtain q where q: "mq_heap st p = Some q"
    by (auto simp: mq_nx_def)
  have nx: "mq_next q = (case ps of [] \<Rightarrow> None | p' # _ \<Rightarrow> Some p')"
    using l(1) q by (cases ps) (auto simp: mq_nx_def)
  define st' where "st' = set_mq p (q\<lparr>mq_next := None\<rparr>)
    (if ps = [] then st\<lparr>gq_head := mq_next q, gq_tail := None\<rparr> else st\<lparr>gq_head := mq_next q\<rparr>)"
  have "skynet_globalmq_pop st = Inr (st', Some p)"
    using repr q nx
    by (cases ps) (auto simp: skynet_globalmq_pop_def gq_repr_def st'_def Let_def)
  moreover have "mq_nx st' = (mq_nx st)(p := Some None)"
    by (auto simp: st'_def mq_nx_def)
  then have "linked (mq_nx st') ps" using linked_tl [OF l] by simp
  then have "gq_repr st' ps"
    using repr nx by (cases ps) (auto simp: gq_repr_def st'_def)
  ultimately show ?thesis using q by (auto simp: st'_def)
qed

lemma globalmq_push_contents:
  assumes "skynet_globalmq_push st p = Inr st'" "mq_heap st x = Some q"
  shows "\<exists>q'. mq_heap st' x = Some q' \<and> mq_contents q' = mq_contents q"
  using assms by (auto simp: skynet_globalmq_push_def split: option.splits)

lemma globalmq_pop_empty: "gq_repr st [] \<Longrightarrow> skynet_globalmq_pop st = Inr (st, None)"
  by (simp add: gq_repr_def skynet_globalmq_pop_def)

section \<open>Scheduling\<close>

text \<open>
  The clients of the queues are the worker threads, the senders and the code that creates and
  deletes services (\<^verbatim>\<open>skynet_server.c\<close>). A client that has taken a queue out of the global
  queue, or has just created one, \<^emph>\<open>holds\<close> it: the set \<open>H\<close>. Each rule is one call, with what
  the caller guarantees: it pops messages only from a queue it holds, puts back or frees only
  what it holds, and no message is pushed to a queue, nor is it marked, once it is marked for
  release (the service is then gone from the handle table and has no reference left).
\<close>

inductive mq_step :: "'a mq_state_scheme \<times> qptr set \<Rightarrow> 'a mq_state_scheme \<times> qptr set \<Rightarrow> bool" where
  create: "skynet_mq_create st h = (st', p) \<Longrightarrow> mq_step (st, H) (st', insert p H)"
| put_back: "p \<in> H \<Longrightarrow> skynet_globalmq_push st p = Inr st' \<Longrightarrow> mq_step (st, H) (st', H - {p})"
| take: "skynet_globalmq_pop st = Inr (st', Some p) \<Longrightarrow> mq_step (st, H) (st', insert p H)"
| send: "mq_heap st p = Some q \<Longrightarrow> \<not> mq_release q \<Longrightarrow> skynet_mq_push st p m = Inr st' \<Longrightarrow>
    mq_step (st, H) (st', H)"
| recv: "p \<in> H \<Longrightarrow> skynet_mq_pop st p = Inr (st', Some m) \<Longrightarrow> mq_step (st, H) (st', H)"
| idle: "p \<in> H \<Longrightarrow> skynet_mq_pop st p = Inr (st', None) \<Longrightarrow> mq_step (st, H) (st', H - {p})"
| overload: "p \<in> H \<Longrightarrow> skynet_mq_overload st p = Inr (st', n) \<Longrightarrow> mq_step (st, H) (st', H)"
| mark: "mq_heap st p = Some q \<Longrightarrow> \<not> mq_release q \<Longrightarrow> skynet_mq_mark_release st p = Inr st' \<Longrightarrow>
    mq_step (st, H) (st', H)"
| reclaim: "p \<in> H \<Longrightarrow> mq_heap st p = Some q \<Longrightarrow> mq_release q \<Longrightarrow>
    skynet_mq_pop st p = Inr (st1, None) \<Longrightarrow> mq_free st1 p = Inr st' \<Longrightarrow>
    mq_step (st, H) (st', H - {p})"

inductive mq_reachable :: "'a mq_state_scheme \<times> qptr set \<Rightarrow> bool" where
  init: "mq_heap st = Map.empty \<Longrightarrow> mq_reachable (skynet_mq_init st, {})"
| step: "mq_reachable s \<Longrightarrow> mq_step s s' \<Longrightarrow> mq_reachable s'"

text \<open>
  The invariant: the global queue is a duplicate-free list \<open>gl\<close> of queues that nobody holds;
  only queues on it have a \<^verbatim>\<open>next\<close>; a queue whose \<^verbatim>\<open>in_global\<close> flag is down (and that is
  not being released) is neither on the list nor held, so that pushing it is right; a queue
  whose flag is up is on the list or held; and a queue with messages has its flag up.
\<close>

definition sched_q :: "qptr \<Rightarrow> qptr list \<Rightarrow> qptr set \<Rightarrow> qptr \<Rightarrow> message_queue \<Rightarrow> bool" where
  "sched_q brk gl H p q \<longleftrightarrow> p < brk \<and> mq_wf q \<and> (p \<notin> set gl \<longrightarrow> mq_next q = None)
     \<and> (mq_in_global q \<or> mq_release q \<or> p \<notin> set gl \<and> p \<notin> H)
     \<and> (mq_in_global q \<longrightarrow> p \<in> set gl \<or> p \<in> H)
     \<and> (mq_in_global q \<or> mq_contents q = [])"

definition sched_inv :: "'a mq_state_scheme \<Rightarrow> qptr set \<Rightarrow> qptr list \<Rightarrow> bool" where
  "sched_inv st H gl \<longleftrightarrow> gq_repr st gl \<and> set gl \<inter> H = {}
     \<and> (\<forall>p \<in> H. mq_heap st p \<noteq> None)
     \<and> (\<forall>p q. mq_heap st p = Some q \<longrightarrow> sched_q (mq_brk st) gl H p q)"

lemma sched_invI:
  assumes "gq_repr st gl" "set gl \<inter> H = {}" "\<And>p. p \<in> H \<Longrightarrow> mq_heap st p \<noteq> None"
    and "\<And>p q. mq_heap st p = Some q \<Longrightarrow> sched_q (mq_brk st) gl H p q"
  shows "sched_inv st H gl"
  using assms by (simp add: sched_inv_def)

lemma sched_invD:
  assumes "sched_inv st H gl"
  shows "gq_repr st gl" "set gl \<inter> H = {}" "\<And>p. p \<in> H \<Longrightarrow> mq_heap st p \<noteq> None"
    "\<And>p q. mq_heap st p = Some q \<Longrightarrow> sched_q (mq_brk st) gl H p q"
    "\<And>p. p \<in> set gl \<Longrightarrow> mq_heap st p \<noteq> None" "\<And>p. p \<in> H \<Longrightarrow> p \<notin> set gl"
  using assms linked_mapped [of "mq_nx st" gl] by (auto simp: sched_inv_def gq_repr_def mq_nx_def)

lemma sched_qD:
  assumes "sched_q brk gl H p q"
  shows "p < brk" "mq_wf q" "p \<notin> set gl \<Longrightarrow> mq_next q = None"
    "\<not> mq_in_global q \<Longrightarrow> \<not> mq_release q \<Longrightarrow> p \<notin> set gl \<and> p \<notin> H"
  using assms by (auto simp: sched_q_def)

text \<open>What the invariant says of a held queue and of an idle one.\<close>

lemma sched_held:
  assumes "sched_inv st H gl" "p \<in> H"
  obtains q where "mq_heap st p = Some q" "mq_wf q" "mq_next q = None"
    "mq_in_global q \<or> mq_release q" "p \<notin> set gl"
  using sched_invD [OF assms(1)] assms(2) sched_qD [of "mq_brk st" gl H p] by blast

lemma sched_idle:
  assumes "sched_inv st H gl" "mq_heap st p = Some q" "\<not> mq_in_global q" "\<not> mq_release q"
  shows "p \<notin> set gl" "p \<notin> H"
  using sched_invD(4) [OF assms(1,2)] assms(3,4) by (simp_all add: sched_q_def)

lemma sched_create:
  assumes inv: "sched_inv st H gl"
  shows "sched_inv (fst (skynet_mq_create st h)) (insert (snd (skynet_mq_create st h)) H) gl"
proof -
  let ?p = "mq_brk st"
  have none: "mq_heap st ?p = None"
    using sched_invD(4) [OF inv, of ?p] by (cases "mq_heap st ?p") (auto simp: sched_q_def)
  then have notin: "?p \<notin> set gl" using sched_invD(5) [OF inv] by blast
  have "linked (mq_nx st) gl = linked ((mq_nx st)(?p := Some None)) gl"
    using notin by (intro linked_frame) auto
  then have "gq_repr (fst (skynet_mq_create st h)) gl"
    using sched_invD(1) [OF inv]
    by (simp add: gq_repr_def skynet_mq_create_def Let_def mq_nx_set_mq mq_new_def)
  moreover have "sched_q (Suc ?p) gl (insert ?p H) ?p (mq_new h)"
    by (simp add: sched_q_def) (simp add: mq_new_def)
  moreover have "sched_q (Suc ?p) gl (insert ?p H) p q" if "mq_heap st p = Some q" for p q
    using sched_invD(4) [OF inv that] none that by (auto simp: sched_q_def)
  ultimately show ?thesis
    using sched_invD [OF inv] notin
    by (intro sched_invI) (auto simp: skynet_mq_create_def Let_def split: if_splits)
qed

lemma sched_push:
  assumes inv: "sched_inv st H gl" and p: "p \<notin> set gl" "mq_heap st p = Some q"
    and flag: "mq_in_global q \<or> mq_release q"
  shows "\<exists>st'. skynet_globalmq_push st p = Inr st' \<and> sched_inv st' (H - {p}) (gl @ [p])"
proof -
  have "mq_next q = None" using sched_invD(4) [OF inv p(2)] p(1) by (simp add: sched_q_def)
  from globalmq_push_repr [OF sched_invD(1) [OF inv] p this] obtain st' where
    st': "skynet_globalmq_push st p = Inr st'" "gq_repr st' (gl @ [p])" "mq_brk st' = mq_brk st"
    and heap: "\<And>x. mq_heap st' x = (if gl \<noteq> [] \<and> x = last gl
         then map_option (mq_next_update (\<lambda>_. Some p)) (mq_heap st x) else mq_heap st x)" by blast
  have "sched_q (mq_brk st') (gl @ [p]) (H - {p}) x q'" if q': "mq_heap st' x = Some q'" for x q'
  proof -
    from q' obtain q0 where q0: "mq_heap st x = Some q0"
      and up: "q' = q0 \<or> (gl \<noteq> [] \<and> x = last gl \<and> q' = q0\<lparr>mq_next := Some p\<rparr>)"
      by (auto simp: heap split: if_splits)
    from sched_invD(4) [OF inv q0] up st'(3) flag p q0 show ?thesis
      unfolding sched_q_def by auto
  qed
  moreover have "mq_heap st' x \<noteq> None" if "x \<in> H" for x
    using sched_invD(3) [OF inv that] by (auto simp: heap)
  ultimately have "sched_inv st' (H - {p}) (gl @ [p])"
    using st'(2) sched_invD(2) [OF inv] by (intro sched_invI) auto
  with st' show ?thesis by blast
qed

text \<open>A change of one queue that keeps its \<^verbatim>\<open>next\<close> pointer, possibly taking or leaving hold of it.\<close>

lemma sched_set_mq:
  assumes inv: "sched_inv st H gl" and p: "mq_heap st p = Some q0" "mq_next q = mq_next q0"
    and q: "sched_q (mq_brk st) gl H' p q"
    and H': "H - {p} \<subseteq> H'" "H' \<subseteq> insert p H" "p \<in> H' \<Longrightarrow> p \<notin> set gl"
  shows "sched_inv (set_mq p q st) H' gl"
proof (rule sched_invI)
  show "gq_repr (set_mq p q st) gl" by (rule gq_repr_set_mq [OF sched_invD(1) [OF inv] p])
  show "set gl \<inter> H' = {}" using sched_invD(2) [OF inv] H' by blast
  show "mq_heap (set_mq p q st) x \<noteq> None" if "x \<in> H'" for x
    using sched_invD(3) [OF inv] H' that by auto
  show "sched_q (mq_brk (set_mq p q st)) gl H' x y" if "mq_heap (set_mq p q st) x = Some y" for x y
  proof (cases "x = p")
    case True
    with that q show ?thesis by simp
  next
    case False
    with H' have "x \<in> H' \<longleftrightarrow> x \<in> H" by auto
    with False that sched_invD(4) [OF inv, of x y] show ?thesis by (simp add: sched_q_def)
  qed
qed

lemma sched_take:
  assumes inv: "sched_inv st H (p # gl)"
  shows "\<exists>st'. skynet_globalmq_pop st = Inr (st', Some p) \<and> sched_inv st' (insert p H) gl"
proof -
  from globalmq_pop_repr [OF sched_invD(1) [OF inv]] obtain st' q where
    st': "mq_heap st p = Some q" "skynet_globalmq_pop st = Inr (st', Some p)" "gq_repr st' gl"
      "mq_heap st' = (mq_heap st)(p \<mapsto> q\<lparr>mq_next := None\<rparr>)" "mq_brk st' = mq_brk st" by blast
  have "p \<notin> set gl" using sched_invD(1) [OF inv] by (simp add: gq_repr_def)
  moreover have "sched_q (mq_brk st') gl (insert p H) x y" if "mq_heap st' x = Some y" for x y
  proof (cases "x = p")
    case True
    with that st' sched_invD(4) [OF inv st'(1)] show ?thesis by (auto simp: sched_q_def)
  next
    case False
    with that st' sched_invD(4) [OF inv, of x y] show ?thesis by (auto simp: sched_q_def)
  qed
  ultimately have "sched_inv st' (insert p H) gl"
    using st' sched_invD(2,3) [OF inv] by (intro sched_invI) auto
  with st' show ?thesis by blast
qed

lemma sched_mq_push:
  assumes inv: "sched_inv st H gl" and p: "mq_heap st p = Some q" "\<not> mq_release q"
  shows "\<exists>st' q'. skynet_mq_push st p m = Inr st'
    \<and> sched_inv st' H (if mq_in_global q then gl else gl @ [p])
    \<and> mq_heap st' p = Some q' \<and> mq_contents q' = mq_contents q @ [m]"
proof -
  note sq = sched_invD(4) [OF inv p(1)]
  from mq_push_q_ok [OF sched_qD(2) [OF sq], of m] obtain q1 where
    q1: "mq_push_q q m = Inr q1" "mq_wf q1" "mq_in_global q1 = mq_in_global q"
      "mq_release q1 = mq_release q" "mq_next q1 = mq_next q"
      "mq_contents q1 = mq_contents q @ [m]" by blast
  show ?thesis
  proof (cases "mq_in_global q")
    case True
    have "sched_inv (set_mq p q1 st) H gl"
      by (rule sched_set_mq [OF inv p(1) q1(5)])
        (use sq q1 True sched_invD(6) [OF inv] in \<open>auto simp: sched_q_def\<close>)
    with True p q1 show ?thesis by (simp add: skynet_mq_push_def)
  next
    case False
    note out = sched_idle [OF inv p(1) False p(2)]
    let ?q = "q1\<lparr>mq_in_global := True\<rparr>"
    have inv1: "sched_inv (set_mq p ?q st) (insert p H) gl"
      by (rule sched_set_mq [OF inv p(1)])
        (use sq q1 out in \<open>auto simp: sched_q_def mq_wf_def\<close>)
    then obtain st' where st': "skynet_globalmq_push (set_mq p ?q st) p = Inr st'"
      "sched_inv st' H (gl @ [p])"
      using sched_push [OF inv1 out(1), of ?q] out(2) by auto
    from globalmq_push_contents [OF st'(1), of p ?q] obtain q' where
      "mq_heap st' p = Some q'" "mq_contents q' = mq_contents ?q" by auto
    with st' False p q1 show ?thesis by (simp add: skynet_mq_push_def)
  qed
qed

lemma sched_mq_pop:
  assumes inv: "sched_inv st H gl" and p: "p \<in> H"
  shows "\<exists>r q q'. mq_heap st p = Some q \<and> skynet_mq_pop st p = Inr (set_mq p q' st, r)
    \<and> sched_inv (set_mq p q' st) (if r = None then H - {p} else H) gl
    \<and> (case mq_contents q of [] \<Rightarrow> r = None \<and> mq_contents q' = []
       | m # ms \<Rightarrow> r = Some m \<and> mq_contents q' = ms)"
proof -
  from sched_held [OF inv p] obtain q where q: "mq_heap st p = Some q" "mq_wf q"
    "mq_next q = None" "mq_in_global q \<or> mq_release q" "p \<notin> set gl" .
  from mq_pop_q_ok [OF q(2)] obtain q' r where
    q': "mq_pop_q q = Inr (q', r)" "mq_wf q'" "mq_release q' = mq_release q" "mq_next q' = mq_next q"
    and cs: "case mq_contents q of
         [] \<Rightarrow> r = None \<and> mq_contents q' = [] \<and> \<not> mq_in_global q'
       | m # ms \<Rightarrow> r = Some m \<and> mq_contents q' = ms \<and> mq_in_global q' = mq_in_global q" by blast
  have "sched_q (mq_brk st) gl (if r = None then H - {p} else H) p q'"
    using sched_invD(4) [OF inv q(1)] q' cs q(4,5) p
    by (cases "mq_contents q") (auto simp: sched_q_def)
  then have "sched_inv (set_mq p q' st) (if r = None then H - {p} else H) gl"
    by (rule sched_set_mq [OF inv q(1) q'(4)]) (use q(5) p in auto)
  with q(1) q'(1) cs show ?thesis
    by (cases "mq_contents q") (auto simp: skynet_mq_pop_def)
qed

lemma sched_mark_release:
  assumes inv: "sched_inv st H gl" and p: "mq_heap st p = Some q" "\<not> mq_release q"
  shows "\<exists>st'. skynet_mq_mark_release st p = Inr st'
    \<and> sched_inv st' H (if mq_in_global q then gl else gl @ [p])"
proof -
  let ?q = "q\<lparr>mq_release := True\<rparr>"
  have inv1: "sched_inv (set_mq p ?q st) H gl"
    by (rule sched_set_mq [OF inv p(1)])
      (use sched_invD(4) [OF inv p(1)] sched_invD(6) [OF inv] in \<open>auto simp: sched_q_def mq_wf_def\<close>)
  show ?thesis
  proof (cases "mq_in_global q")
    case True
    with inv1 p show ?thesis by (simp add: skynet_mq_mark_release_def Let_def)
  next
    case False
    note out = sched_idle [OF inv p(1) False p(2)]
    with sched_push [OF inv1 out(1), of ?q] False p show ?thesis
      by (simp add: skynet_mq_mark_release_def Let_def)
  qed
qed

lemma sched_free:
  assumes inv: "sched_inv st H gl" and p: "p \<notin> set gl" "mq_heap st p = Some q"
  shows "\<exists>st'. mq_free st p = Inr st' \<and> sched_inv st' (H - {p}) gl"
proof -
  let ?st = "st\<lparr>mq_heap := (mq_heap st)(p := None)\<rparr>"
  have nonext: "mq_next q = None" using sched_invD(4) [OF inv p(2)] p(1) by (simp add: sched_q_def)
  have "linked (mq_nx st) gl = linked ((mq_nx st)(p := None)) gl"
    using p by (intro linked_frame) auto
  moreover have "mq_nx ?st = (mq_nx st)(p := None)" by (auto simp: mq_nx_def)
  ultimately have "gq_repr ?st gl" using sched_invD(1) [OF inv] by (simp add: gq_repr_def)
  moreover have "sched_q (mq_brk ?st) gl (H - {p}) x y" if "mq_heap ?st x = Some y" for x y
    using sched_invD(4) [OF inv, of x y] that by (auto simp: sched_q_def split: if_splits)
  ultimately have "sched_inv ?st (H - {p}) gl"
    using sched_invD(2,3) [OF inv] by (intro sched_invI) auto
  with p nonext show ?thesis by (simp add: mq_free_def)
qed

lemma sched_step:
  assumes step: "mq_step s s'" and inv: "sched_inv (fst s) (snd s) gl"
  shows "\<exists>gl'. sched_inv (fst s') (snd s') gl'"
  using step inv
proof (cases rule: mq_step.cases)
  case (create st h st' p H)
  with inv sched_create [of st H gl h] show ?thesis by auto
next
  case (put_back p H st st')
  with inv have inv': "sched_inv st H gl" by simp
  from sched_held [OF inv' put_back(3)] obtain q where
    "mq_heap st p = Some q" "mq_in_global q \<or> mq_release q" "p \<notin> set gl" .
  with sched_push [OF inv', of p q] put_back show ?thesis by auto
next
  case (take st st' p H)
  with inv have inv': "sched_inv st H gl" by simp
  show ?thesis
  proof (cases gl)
    case Nil
    with inv' take globalmq_pop_empty [of st] show ?thesis by (simp add: sched_invD(1))
  next
    case (Cons p' gl')
    with inv' sched_take [of st H p' gl'] take show ?thesis by auto
  qed
next
  case (send st p q m st' H)
  with inv sched_mq_push [of st H gl p q m] show ?thesis by auto
next
  case (recv p H st st' m)
  with inv sched_mq_pop [of st H gl p] show ?thesis by auto
next
  case (idle p H st st')
  with inv sched_mq_pop [of st H gl p] show ?thesis by auto
next
  case (overload p H st st' n)
  with inv have inv': "sched_inv st H gl" by simp
  from sched_held [OF inv' overload(3)] obtain q where q: "mq_heap st p = Some q" "mq_wf q"
    "mq_in_global q \<or> mq_release q" "p \<notin> set gl" .
  then have "sched_inv (set_mq p (q\<lparr>mq_overload := 0\<rparr>) st) H gl"
    by (intro sched_set_mq [OF inv' q(1)])
      (use q sched_invD(4) [OF inv' q(1)] in \<open>auto simp: sched_q_def mq_wf_def\<close>)
  with inv' overload q show ?thesis by (auto simp: skynet_mq_overload_def split: if_splits)
next
  case (mark st p q st' H)
  with inv sched_mark_release [of st H gl p q] show ?thesis by auto
next
  case (reclaim p H st q st1 st')
  with inv have inv': "sched_inv st H gl" by simp
  from sched_mq_pop [OF inv' reclaim(3)] reclaim(6) obtain q' where
    "sched_inv st1 (H - {p}) gl" "mq_heap st1 p = Some q'" by auto
  with sched_free [of st1 "H - {p}" gl p q'] sched_invD(6) [OF inv' reclaim(3)] reclaim
  show ?thesis by auto
qed

lemma sched_reachable: "mq_reachable s \<Longrightarrow> \<exists>gl. sched_inv (fst s) (snd s) gl"
proof (induction rule: mq_reachable.induct)
  case (init st)
  then have "sched_inv (skynet_mq_init st) {} []"
    by (simp add: sched_inv_def gq_repr_def skynet_mq_init_def)
  then show ?case by auto
next
  case (step s s')
  then show ?case using sched_step by blast
qed

section \<open>What the calls leave alone\<close>

text \<open>What a service can see of the queues: owner, release mark and messages of each.\<close>

definition q_view :: "'a mq_state_scheme \<Rightarrow> qptr \<Rightarrow> (u32 \<times> bool \<times> skynet_message list) option" where
  "q_view st p = map_option (\<lambda>q. (mq_handle q, mq_release q, mq_contents q)) (mq_heap st p)"

lemma sched_inv_cong:
  assumes "mq_heap st' = mq_heap st" "mq_brk st' = mq_brk st" "gq_head st' = gq_head st" "gq_tail st' = gq_tail st"
  shows "sched_inv st' H gl = sched_inv st H gl"
proof -
  have "mq_nx st' = mq_nx st" using assms(1) by (auto simp: mq_nx_def)
  then show ?thesis using assms by (simp add: sched_inv_def gq_repr_def)
qed

lemma q_view_set_mq: "q_view (set_mq p q st) = (q_view st)(p \<mapsto> (mq_handle q, mq_release q, mq_contents q))"
  by (auto simp: q_view_def)

lemma more_set_mq [simp]: "mq_state.more (set_mq p q st) = mq_state.more st"
  by (simp add: set_mq_def)

lemma globalmq_push_frame:
  assumes "skynet_globalmq_push st p = Inr st'"
  shows "q_view st' = q_view st" "mq_state.more st' = mq_state.more st"
  using assms by (auto simp: skynet_globalmq_push_def q_view_def split: option.splits)

lemma mq_push_frame:
  assumes q: "mq_heap st p = Some q" "mq_wf q" and push: "skynet_mq_push st p m = Inr st'"
  shows "q_view st' = (q_view st)(p \<mapsto> (mq_handle q, mq_release q, mq_contents q @ [m]))"
    "mq_state.more st' = mq_state.more st"
proof -
  from mq_push_q_ok [OF q(2), of m] obtain q1 where
    q1: "mq_push_q q m = Inr q1" "mq_release q1 = mq_release q" "mq_handle q1 = mq_handle q"
      "mq_contents q1 = mq_contents q @ [m]" by blast
  show "q_view st' = (q_view st)(p \<mapsto> (mq_handle q, mq_release q, mq_contents q @ [m]))"
    using push q q1 globalmq_push_frame(1) [of "set_mq p (q1\<lparr>mq_in_global := True\<rparr>) st" p st']
    by (auto simp: skynet_mq_push_def q_view_set_mq split: if_splits)
  show "mq_state.more st' = mq_state.more st"
    using push q q1 globalmq_push_frame(2) [of "set_mq p (q1\<lparr>mq_in_global := True\<rparr>) st" p st']
    by (auto simp: skynet_mq_push_def split: if_splits)
qed

lemma mark_release_frame:
  assumes q: "mq_heap st p = Some q" and mark: "skynet_mq_mark_release st p = Inr st'"
  shows "q_view st' = (q_view st)(p \<mapsto> (mq_handle q, True, mq_contents q))" "mq_state.more st' = mq_state.more st"
  using mark q globalmq_push_frame [of "set_mq p (q\<lparr>mq_release := True\<rparr>) st" p st']
  by (auto simp: skynet_mq_mark_release_def q_view_set_mq Let_def split: if_splits)

lemma mq_create_frame:
  "q_view (fst (skynet_mq_create st h)) = (q_view st)(mq_brk st \<mapsto> (h, False, []))"
  "mq_state.more (fst (skynet_mq_create st h)) = mq_state.more st" "snd (skynet_mq_create st h) = mq_brk st"
proof -
  show "q_view (fst (skynet_mq_create st h)) = (q_view st)(mq_brk st \<mapsto> (h, False, []))"
    using mq_contents_new [of h] by (auto simp: skynet_mq_create_def Let_def q_view_def fun_eq_iff mq_new_def)
qed (simp_all add: skynet_mq_create_def Let_def)

section \<open>Properties\<close>

lemma drop_loop_drains:
  assumes "mq_heap st p = Some q" "mq_wf q"
    and drop: "\<And>m s. mq_heap s p \<noteq> None \<Longrightarrow> drop_func m s = Inr (g m s) \<and> mq_heap (g m s) p = mq_heap s p"
    and log: "\<And>m s. log (g m s) = log s @ [m]" "\<And>q s. log (set_mq p q s) = log s"
  shows "\<exists>st' q'. drop_loop drop_func p st = Some (Inr st') \<and> mq_heap st' p = Some q'
    \<and> mq_next q' = mq_next q \<and> log st' = log st @ mq_contents q"
  using assms(1,2)
proof (induction "mq_contents q" arbitrary: st q)
  case Nil
  from mq_pop_q_ok [OF Nil(3)] Nil(1) obtain q' where
    "mq_pop_q q = Inr (q', None)" "mq_next q' = mq_next q" by auto
  with Nil log show ?case by (subst drop_loop.simps) (simp add: skynet_mq_pop_def)
next
  case (Cons m ms)
  from mq_pop_q_ok [OF Cons(4)] Cons(2) [symmetric] obtain q' where
    q': "mq_pop_q q = Inr (q', Some m)" "mq_next q' = mq_next q" "mq_wf q'" "mq_contents q' = ms"
    by auto
  let ?s = "g m (set_mq p q' st)"
  have g: "drop_func m (set_mq p q' st) = Inr ?s" "mq_heap ?s p = Some q'"
    using drop [of "set_mq p q' st" m] by auto
  from Cons.hyps(1) [of q' ?s] q' g obtain st' q'' where
    "drop_loop drop_func p ?s = Some (Inr st')" "mq_heap st' p = Some q''"
    "mq_next q'' = mq_next q'" "log st' = log ?s @ ms" by auto
  with q' g Cons(2) [symmetric] Cons(3) log show ?case
    by (subst drop_loop.simps) (simp add: skynet_mq_pop_def)
qed

text \<open>C1: Whatever messages are pushed to a new service queue and however pops are interleaved
  with the pushes, the circular buffer (with its expansions) never accesses its array out of
  range and behaves as a plain FIFO list: each pop returns the oldest message not yet popped,
  or reports an empty queue.\<close>

theorem mq_behaves_as_fifo:
  "\<exists>q'. fifo_run mq_push_q mq_pop_q (mq_new handle) ops = Inr (q', snd (fifo_spec [] ops))
     \<and> mq_contents q' = fst (fifo_spec [] ops) \<and> mq_length q' = length (fst (fifo_spec [] ops))"
  using mqf.run_refines [OF mq_wf_new, of handle ops]
  by (metis length_mq_contents mq_contents_new)

text \<open>C10: In every reachable state the global queue holds each service queue at most once, no
  queue that a worker holds is in it (so no two workers ever run the same service), and every
  queue that has messages is in the global queue or in a worker's hands (no lost wake-up).\<close>

theorem mq_single_owner_no_lost_wakeup:
  assumes "mq_reachable (st, H)"
  shows "\<exists>gl. gq_repr st gl \<and> distinct gl \<and> set gl \<inter> H = {}
    \<and> (\<forall>p q. mq_heap st p = Some q \<and> mq_contents q \<noteq> [] \<longrightarrow> p \<in> set gl \<or> p \<in> H)"
proof -
  from sched_reachable [OF assms] obtain gl where inv: "sched_inv st H gl" by auto
  have "p \<in> set gl \<or> p \<in> H" if "mq_heap st p = Some q" "mq_contents q \<noteq> []" for p q
    using sched_invD(4) [OF inv that(1)] that(2) by (auto simp: sched_q_def)
  moreover have "gq_repr st gl" "set gl \<inter> H = {}" using sched_invD [OF inv] by auto
  ultimately show ?thesis by (metis gq_repr_def)
qed

theorem mq_single_owner_no_lost_wakeup_witness:
  "\<exists>gl. gq_repr (fst (skynet_mq_create (skynet_mq_init
      \<lparr>mq_heap = Map.empty, mq_brk = 7, gq_head = None, gq_tail = None\<rparr>) 1)) gl \<and> 7 \<notin> set gl"
proof -
  let ?st = "\<lparr>mq_heap = Map.empty, mq_brk = 7, gq_head = None, gq_tail = None\<rparr> :: mq_state"
  have "mq_reachable (skynet_mq_init ?st, {})" by (rule mq_reachable.init) simp
  moreover have "mq_step (skynet_mq_init ?st, {})
      (fst (skynet_mq_create (skynet_mq_init ?st) 1), insert 7 {})"
    by (rule mq_step.create [where h = 1]) (simp add: skynet_mq_create_def skynet_mq_init_def)
  ultimately have "mq_reachable (fst (skynet_mq_create (skynet_mq_init ?st) 1), {7})"
    by (rule mq_reachable.step)
  from mq_single_owner_no_lost_wakeup [OF this] show ?thesis by auto
qed

text \<open>In every reachable state the calls that the queues' clients make return: putting a held
  queue back, taking the next one, pushing to a queue that is not being released, popping from
  a held one and marking one for release hit no failed assertion (in particular \<^verbatim>\<open>next == NULL\<close>
  holds at every push to the global queue), no NULL dereference and no out-of-range access, and
  the loop that adapts the overload threshold ends.\<close>

theorem mq_calls_never_fault:
  assumes "mq_reachable (st, H)"
  shows "(p \<in> H \<longrightarrow> (\<exists>st'. skynet_globalmq_push st p = Inr st'))
    \<and> (\<exists>st' r. skynet_globalmq_pop st = Inr (st', r))
    \<and> (mq_heap st p = Some q \<and> \<not> mq_release q \<longrightarrow> (\<exists>st' q'. skynet_mq_push st p m = Inr st'
         \<and> mq_heap st' p = Some q' \<and> mq_contents q' = mq_contents q @ [m]))
    \<and> (p \<in> H \<longrightarrow> (\<exists>st' r. skynet_mq_pop st p = Inr (st', r)))
    \<and> (mq_heap st p = Some q \<and> \<not> mq_release q \<longrightarrow> (\<exists>st'. skynet_mq_mark_release st p = Inr st'))"
proof -
  from sched_reachable [OF assms] obtain gl where inv: "sched_inv st H gl" by auto
  have "\<exists>st'. skynet_globalmq_push st p = Inr st'" if "p \<in> H"
    using sched_held [OF inv that] sched_push [OF inv] by metis
  moreover have "\<exists>st' r. skynet_globalmq_pop st = Inr (st', r)"
    using sched_take [of st H] globalmq_pop_empty [of st] inv sched_invD(1) [OF inv]
    by (cases gl) blast+
  ultimately show ?thesis
    using sched_mq_push [OF inv, of p q m] sched_mq_pop [OF inv, of p] sched_mark_release [OF inv, of p q]
    by blast
qed

theorem mq_calls_never_fault_witness:
  "\<exists>st'. skynet_globalmq_push (fst (skynet_mq_create (skynet_mq_init
      \<lparr>mq_heap = Map.empty, mq_brk = 7, gq_head = None, gq_tail = None\<rparr>) 1)) 7 = Inr st'"
proof -
  let ?st = "\<lparr>mq_heap = Map.empty, mq_brk = 7, gq_head = None, gq_tail = None\<rparr> :: mq_state"
  have "mq_reachable (skynet_mq_init ?st, {})" by (rule mq_reachable.init) simp
  moreover have "mq_step (skynet_mq_init ?st, {})
      (fst (skynet_mq_create (skynet_mq_init ?st) 1), insert 7 {})"
    by (rule mq_step.create [where h = 1]) (simp add: skynet_mq_create_def skynet_mq_init_def)
  ultimately have "mq_reachable (fst (skynet_mq_create (skynet_mq_init ?st) 1), {7})"
    by (rule mq_reachable.step)
  from mq_calls_never_fault [OF this, of 7] show ?thesis by auto
qed



end
