(* ===== verification/Timer_Wheel.thy ===== *)
theory Timer_Wheel
  imports Skynet_Prelude
begin

text \<open>
  The timer of \<^verbatim>\<open>skynet-src/skynet_timer.c\<close>: a hierarchical timing wheel. Timers that expire in
  the current block of 256 ticks are in the 256 lists of \<^verbatim>\<open>near\<close>; the others are in one of four
  levels of 64 lists each, by the first 6-bit digit (from the top) in which their expiry differs
  from the current time. Each tick advances the 32-bit time and, at a block boundary, moves one
  list of one level down.

  A \<^verbatim>\<open>link_list\<close> with its tail pointer is a list to which \<^verbatim>\<open>link\<close> appends. \<^verbatim>\<open>timer_execute\<close> yields
  the nodes it takes out, in dispatch order; handing them to their services is in theory
  \<open>Skynet_Server\<close>. All times are 32-bit words that wrap around, as in the code.
\<close>

section \<open>Data\<close>

record timer_node =
  tn_expire :: u32
  tn_handle :: u32
  tn_session :: i32

record timer =
  near :: "timer_node list list"
  tv :: "timer_node list list list"
  ti_time :: u32
  ti_starttime :: u32
  ti_current :: u64
  ti_current_point :: u64

definition TIME_NEAR_SHIFT :: nat where "TIME_NEAR_SHIFT = 8"
definition TIME_LEVEL_SHIFT :: nat where "TIME_LEVEL_SHIFT = 6"
definition TIME_NEAR_MASK :: u32 where "TIME_NEAR_MASK = 255"
definition TIME_LEVEL_MASK :: u32 where "TIME_LEVEL_MASK = 63"

section \<open>Operations\<close>

definition timer_create_timer :: timer where
  "timer_create_timer = \<lparr>near = replicate 256 [], tv = replicate 4 (replicate 64 []),
     ti_time = 0, ti_starttime = 0, ti_current = 0, ti_current_point = 0\<rparr>"

definition link_near :: "nat \<Rightarrow> timer_node \<Rightarrow> timer \<Rightarrow> timer" where
  "link_near i n T = T\<lparr>near := (near T)[i := near T ! i @ [n]]\<rparr>"

definition link_level :: "nat \<Rightarrow> nat \<Rightarrow> timer_node \<Rightarrow> timer \<Rightarrow> timer" where
  "link_level l i n T = T\<lparr>tv := (tv T)[l := (tv T ! l)[i := tv T ! l ! i @ [n]]]\<rparr>"

definition link_clear_near :: "nat \<Rightarrow> timer \<Rightarrow> timer \<times> timer_node list" where
  "link_clear_near i T = (T\<lparr>near := (near T)[i := []]\<rparr>, near T ! i)"

definition link_clear_level :: "nat \<Rightarrow> nat \<Rightarrow> timer \<Rightarrow> timer \<times> timer_node list" where
  "link_clear_level l i T = (T\<lparr>tv := (tv T)[l := (tv T ! l)[i := []]]\<rparr>, tv T ! l ! i)"

text \<open>The loop of \<^verbatim>\<open>add_node\<close> that finds the level, from \<^verbatim>\<open>i\<close> and \<^verbatim>\<open>mask\<close>.\<close>

function add_level :: "u32 \<Rightarrow> u32 \<Rightarrow> nat \<Rightarrow> u32 \<Rightarrow> nat" where
  "add_level time current_time i msk =
     (if i < 3 then
        if time OR (msk - 1) = current_time OR (msk - 1) then i
        else add_level time current_time (Suc i) (push_bit TIME_LEVEL_SHIFT msk)
      else i)"
  by pat_completeness auto
termination
  by (relation "measure (\<lambda>(time, current_time, i, msk). 3 - i)") auto

declare add_level.simps [simp del]

definition add_node :: "timer_node \<Rightarrow> timer \<Rightarrow> timer" where
  "add_node node T =
     (let time = tn_expire node; current_time = ti_time T in
      if time OR TIME_NEAR_MASK = current_time OR TIME_NEAR_MASK
      then link_near (unat (time AND TIME_NEAR_MASK)) node T
      else
        let i = add_level time current_time 0 (push_bit TIME_LEVEL_SHIFT 256) in
        link_level i (unat (drop_bit (TIME_NEAR_SHIFT + i * TIME_LEVEL_SHIFT) time
          AND TIME_LEVEL_MASK)) node T)"

definition timer_add :: "timer \<Rightarrow> u32 \<Rightarrow> i32 \<Rightarrow> i32 \<Rightarrow> timer" where
  "timer_add T handle session time =
     add_node \<lparr>tn_expire = time + ti_time T, tn_handle = handle, tn_session = session\<rparr> T"

definition move_list :: "nat \<Rightarrow> nat \<Rightarrow> timer \<Rightarrow> timer" where
  "move_list level idx T =
     (let (T1, current) = link_clear_level level idx T in fold add_node current T1)"

text \<open>
  The loop of \<^verbatim>\<open>timer_shift\<close>: which level and list are to be moved at time \<open>ct\<close>, if any. It ends
  because \<open>ct\<close> is not 0, which \<^verbatim>\<open>timer_shift\<close> checks before; \<open>None\<close> is a loop that does not end.
\<close>

partial_function (option) shift_loop :: "u32 \<Rightarrow> u32 \<Rightarrow> u32 \<Rightarrow> nat \<Rightarrow> (nat \<times> nat) option option" where
  "shift_loop ct msk time i =
     (if ct AND (msk - 1) = 0 then
        let idx = unat (time AND TIME_LEVEL_MASK) in
        if idx \<noteq> 0 then Some (Some (i, idx))
        else shift_loop ct (push_bit TIME_LEVEL_SHIFT msk) (drop_bit TIME_LEVEL_SHIFT time) (Suc i)
      else Some None)"

definition timer_shift :: "timer \<Rightarrow> timer res" where
  "timer_shift T =
     (let ct = ti_time T + 1; T1 = T\<lparr>ti_time := ct\<rparr> in
      if ct = 0 then Inr (move_list 3 0 T1)
      else case shift_loop ct 256 (drop_bit TIME_NEAR_SHIFT ct) 0 of
             None \<Rightarrow> Inl Diverges
           | Some None \<Rightarrow> Inr T1
           | Some (Some (i, idx)) \<Rightarrow> Inr (move_list i idx T1))"

text \<open>
  \<^verbatim>\<open>timer_execute\<close> empties the list of the current tick; its loop then finds it empty, since
  nothing it dispatches adds a timer for the tick that is being executed.
\<close>

definition timer_execute :: "timer \<Rightarrow> timer \<times> timer_node list" where
  "timer_execute T =
     (let idx = unat (ti_time T AND TIME_NEAR_MASK) in
      if near T ! idx \<noteq> [] then link_clear_near idx T else (T, []))"

definition timer_update :: "timer \<Rightarrow> (timer \<times> timer_node list) res" where
  "timer_update T =
     (let (T1, out1) = timer_execute T in
      bindE (timer_shift T1) (\<lambda>T2.
      let (T3, out2) = timer_execute T2 in Inr (T3, out1 @ out2)))"

text \<open>The loop of \<^verbatim>\<open>skynet_updatetime\<close>: \<open>n\<close> ticks, with what each of them dispatches.\<close>

fun timer_ticks :: "nat \<Rightarrow> timer \<Rightarrow> (timer \<times> timer_node list list) res" where
  "timer_ticks 0 T = Inr (T, [])"
| "timer_ticks (Suc n) T =
     bindE (timer_update T) (\<lambda>(T1, out).
     bindE (timer_ticks n T1) (\<lambda>(T2, outs). Inr (T2, out # outs)))"

text \<open>
  \<^verbatim>\<open>skynet_updatetime\<close>, with the clock reading \<^verbatim>\<open>cp\<close> as an argument: a clock that went back only
  resets the reference point; otherwise the low 32 bits of the difference are the ticks to run.
\<close>

definition skynet_updatetime :: "u64 \<Rightarrow> timer \<Rightarrow> (timer \<times> timer_node list list) res" where
  "skynet_updatetime cp T =
     (if cp < ti_current_point T then Inr (T\<lparr>ti_current_point := cp\<rparr>, [])
      else if cp \<noteq> ti_current_point T then
        let diff = (ucast (cp - ti_current_point T) :: u32) in
        timer_ticks (unat diff) (T\<lparr>ti_current_point := cp, ti_current := ti_current T + ucast diff\<rparr>)
      else Inr (T, []))"

definition skynet_starttime :: "timer \<Rightarrow> u32" where
  "skynet_starttime T = ti_starttime T"

definition skynet_now :: "timer \<Rightarrow> u64" where
  "skynet_now T = ti_current T"

text \<open>Clock readings: seconds and nanoseconds to centiseconds (\<^verbatim>\<open>systime\<close>, \<^verbatim>\<open>gettime\<close>).\<close>

definition systime :: "nat \<Rightarrow> nat \<Rightarrow> u32 \<times> u32" where
  "systime tv_sec tv_nsec = (of_nat tv_sec, of_nat (tv_nsec div 10000000))"

definition gettime :: "nat \<Rightarrow> nat \<Rightarrow> u64" where
  "gettime tv_sec tv_nsec = of_nat tv_sec * 100 + of_nat (tv_nsec div 10000000)"

definition skynet_timer_init :: "nat \<times> nat \<Rightarrow> nat \<times> nat \<Rightarrow> timer" where
  "skynet_timer_init realtime monotonic =
     (let (sec, cs) = systime (fst realtime) (snd realtime) in
      timer_create_timer\<lparr>ti_starttime := sec, ti_current := ucast cs,
        ti_current_point := gettime (fst monotonic) (snd monotonic)\<rparr>)"

text \<open>\<^verbatim>\<open>skynet_thread_time\<close>: a thread clock reading in microseconds.\<close>

definition skynet_thread_time :: "nat \<Rightarrow> nat \<Rightarrow> u64" where
  "skynet_thread_time tv_sec tv_nsec =
     of_nat tv_sec * 1000000 + of_nat tv_nsec div (1000000000 div 1000000)"

section \<open>Where a timer is\<close>

text \<open>
  The bounds of the blocks: 256 ticks, then 64 times more at each level. \<open>same_block k e c\<close>
  says that \<open>e\<close> and \<open>c\<close> are in the same block of level \<open>k\<close>, and \<open>digit k e\<close> is the position
  of \<open>e\<close> in its block of level \<open>k + 1\<close>.
\<close>

definition block :: "nat \<Rightarrow> nat" where "block k = 2 ^ (8 + 6 * k)"

definition same_block :: "nat \<Rightarrow> u32 \<Rightarrow> u32 \<Rightarrow> bool" where
  "same_block k e c \<longleftrightarrow> unat e div block k = unat c div block k"

definition digit :: "nat \<Rightarrow> u32 \<Rightarrow> nat" where
  "digit k e = unat e div block k mod 64"

datatype place = Near nat | Level nat nat

text \<open>The list that holds the timers of expiry \<open>e\<close> at time \<open>c\<close>.\<close>

definition timer_loc :: "u32 \<Rightarrow> u32 \<Rightarrow> place" where
  "timer_loc e c =
     (if same_block 0 e c then Near (unat e mod 256)
      else if same_block 1 e c then Level 0 (digit 0 e)
      else if same_block 2 e c then Level 1 (digit 1 e)
      else if same_block 3 e c then Level 2 (digit 2 e)
      else Level 3 (digit 3 e))"

fun place_ok :: "place \<Rightarrow> bool" where
  "place_ok (Near i) = (i < 256)"
| "place_ok (Level l i) = (l < 4 \<and> i < 64)"

fun bucket :: "timer \<Rightarrow> place \<Rightarrow> timer_node list" where
  "bucket T (Near i) = near T ! i"
| "bucket T (Level l i) = tv T ! l ! i"

definition set_bucket :: "place \<Rightarrow> timer_node list \<Rightarrow> timer \<Rightarrow> timer" where
  "set_bucket p ns T = (case p of
     Near i \<Rightarrow> T\<lparr>near := (near T)[i := ns]\<rparr>
   | Level l i \<Rightarrow> T\<lparr>tv := (tv T)[l := (tv T ! l)[i := ns]]\<rparr>)"

definition timer_shape :: "timer \<Rightarrow> bool" where
  "timer_shape T \<longleftrightarrow> length (near T) = 256 \<and> length (tv T) = 4 \<and> (\<forall>l < 4. length (tv T ! l) = 64)"

lemma place_ok_timer_loc [simp]: "place_ok (timer_loc e c)"
  by (simp add: timer_loc_def digit_def)

lemma time_set_bucket [simp]: "ti_time (set_bucket p ns T) = ti_time T"
  by (cases p) (simp_all add: set_bucket_def)

lemma shape_set_bucket [simp]: "timer_shape T \<Longrightarrow> timer_shape (set_bucket p ns T)"
  by (cases p) (auto simp: set_bucket_def timer_shape_def,
    metis length_list_update nth_list_update_eq nth_list_update_neq)

lemma bucket_set_bucket:
  assumes "timer_shape T" "place_ok p" "place_ok r"
  shows "bucket (set_bucket p ns T) r = (if r = p then ns else bucket T r)"
  using assms by (cases p; cases r) (auto simp: set_bucket_def timer_shape_def nth_list_update)

lemma shape_time [simp]: "timer_shape (T\<lparr>ti_time := c\<rparr>) = timer_shape T"
  by (simp add: timer_shape_def)

lemma bucket_time [simp]: "bucket (T\<lparr>ti_time := c\<rparr>) p = bucket T p"
  by (cases p) simp_all

text \<open>\<^verbatim>\<open>add_node\<close> appends to the list that \<open>timer_loc\<close> names.\<close>

lemma or_mask_same_block: "e OR mask (8 + 6 * k) = c OR mask (8 + 6 * k) \<longleftrightarrow> same_block k e c"
  by (simp add: or_mask_eq_iff same_block_def block_def)

lemma add_level_step:
  assumes "i < 3"
  shows "add_level e c i (2 ^ (8 + 6 * Suc i)) =
    (if same_block (Suc i) e c then i else add_level e c (Suc i) (2 ^ (8 + 6 * Suc (Suc i))))"
proof -
  have "push_bit TIME_LEVEL_SHIFT (2 ^ (8 + 6 * Suc i)) = (2 ^ (8 + 6 * Suc (Suc i)) :: u32)"
    by (simp add: TIME_LEVEL_SHIFT_def push_bit_eq_mult power_add)
  then show ?thesis
    using assms by (subst add_level.simps)
      (simp add: or_mask_same_block [of _ "Suc i"] flip: mask_eq_exp_minus_1 del: mult_Suc_right)
qed

lemma add_level_eq:
  "add_level e c 0 (push_bit TIME_LEVEL_SHIFT 256) =
     (if same_block 1 e c then 0 else if same_block 2 e c then 1
      else if same_block 3 e c then 2 else 3)"
proof -
  have "push_bit TIME_LEVEL_SHIFT 256 = (2 ^ (8 + 6 * Suc 0) :: u32)"
    by (simp add: TIME_LEVEL_SHIFT_def push_bit_eq_mult)
  then show ?thesis
    using add_level_step [of 0 e c] add_level_step [of 1 e c] add_level_step [of 2 e c]
    by (simp add: numeral_2_eq_2 numeral_3_eq_3 add_level.simps [of _ _ "Suc (Suc (Suc 0))"]
      del: power_Suc mult_Suc_right)
qed

lemma add_node_eq: "add_node n T =
    set_bucket (timer_loc (tn_expire n) (ti_time T))
      (bucket T (timer_loc (tn_expire n) (ti_time T)) @ [n]) T"
proof -
  have m: "TIME_NEAR_MASK = mask (8 + 6 * 0)" "TIME_LEVEL_MASK = mask 6"
    by (simp_all add: TIME_NEAR_MASK_def TIME_LEVEL_MASK_def mask_eq_exp_minus_1)
  have d: "unat (drop_bit (TIME_NEAR_SHIFT + i * TIME_LEVEL_SHIFT) e AND mask 6) = digit i e" for i e
    by (simp add: unat_drop_bit_and_mask digit_def block_def TIME_NEAR_SHIFT_def TIME_LEVEL_SHIFT_def
      mult.commute)
  have n: "unat (e AND mask (8 + 6 * 0)) = unat e mod 256" for e :: u32
    by (simp add: unat_and_mask)
  show ?thesis
    unfolding add_node_def Let_def m or_mask_same_block d n add_level_eq timer_loc_def
    by (simp add: set_bucket_def link_near_def link_level_def)
qed

section \<open>The abstract timer\<close>

text \<open>
  What the wheel stands for: for every expiry the pending timers in the order they were added.
  The invariant: every node is where \<open>timer_loc\<close> puts it, and expires within the next
  \<open>2 ^ 31 - 1\<close> ticks.
\<close>

definition pending :: "timer \<Rightarrow> u32 \<Rightarrow> timer_node list" where
  "pending T e = filter (\<lambda>n. tn_expire n = e) (bucket T (timer_loc e (ti_time T)))"

definition in_future :: "u32 \<Rightarrow> u32 \<Rightarrow> bool" where
  "in_future c e \<longleftrightarrow> 0 < unat (e - c) \<and> unat (e - c) < 2 ^ 31"

definition timer_inv :: "timer \<Rightarrow> bool" where
  "timer_inv T \<longleftrightarrow> timer_shape T \<and> (\<forall>p. place_ok p \<longrightarrow> (\<forall>n \<in> set (bucket T p).
     timer_loc (tn_expire n) (ti_time T) = p \<and> in_future (ti_time T) (tn_expire n)))"

text \<open>The same with the expiries only bounded by a predicate, for the states inside a tick.\<close>

definition timer_at :: "(u32 \<Rightarrow> bool) \<Rightarrow> timer \<Rightarrow> bool" where
  "timer_at P T \<longleftrightarrow> timer_shape T \<and> (\<forall>p. place_ok p \<longrightarrow> (\<forall>n \<in> set (bucket T p).
     timer_loc (tn_expire n) (ti_time T) = p \<and> P (tn_expire n)))"

lemma timer_inv_at: "timer_inv T \<longleftrightarrow> timer_at (in_future (ti_time T)) T"
  by (simp add: timer_inv_def timer_at_def)

lemma timer_atD:
  assumes "timer_at P T" "place_ok p" "n \<in> set (bucket T p)"
  shows "timer_loc (tn_expire n) (ti_time T) = p" "P (tn_expire n)"
  using assms by (auto simp: timer_at_def)

lemma time_add_node [simp]: "ti_time (add_node n T) = ti_time T"
  by (simp add: add_node_eq)

lemma timer_at_shape: "timer_at P T \<Longrightarrow> timer_shape T"
  by (simp add: timer_at_def)

lemma timer_atI:
  assumes "timer_shape T" "\<And>p n. place_ok p \<Longrightarrow> n \<in> set (bucket T p) \<Longrightarrow>
      timer_loc (tn_expire n) (ti_time T) = p \<and> P (tn_expire n)"
  shows "timer_at P T"
  using assms by (auto simp: timer_at_def)

lemma add_node_at:
  assumes at: "timer_at P T" and n: "P (tn_expire n)"
  shows "timer_at P (add_node n T)"
proof (rule timer_atI)
  let ?r = "timer_loc (tn_expire n) (ti_time T)"
  show "timer_shape (add_node n T)" using timer_at_shape [OF at] by (simp add: add_node_eq)
  fix p m assume p: "place_ok p" and m: "m \<in> set (bucket (add_node n T) p)"
  have "bucket (add_node n T) p = (if p = ?r then bucket T ?r @ [n] else bucket T p)"
    using timer_at_shape [OF at] p by (simp add: add_node_eq bucket_set_bucket)
  with m have "(m = n \<and> p = ?r) \<or> m \<in> set (bucket T p)" by (auto split: if_splits)
  with timer_atD [OF at p, of m] n
  show "timer_loc (tn_expire m) (ti_time (add_node n T)) = p \<and> P (tn_expire m)" by auto
qed

lemma add_node_pending:
  assumes "timer_shape T"
  shows "pending (add_node n T) e = pending T e @ (if tn_expire n = e then [n] else [])"
  using assms by (auto simp: pending_def add_node_eq bucket_set_bucket)

lemma shape_add_node: "timer_shape T \<Longrightarrow> timer_shape (add_node n T)"
  by (simp add: add_node_eq)

lemma fold_add_node:
  assumes "timer_at P T" "\<forall>n \<in> set ns. P (tn_expire n)"
  shows "timer_at P (fold add_node ns T) \<and> ti_time (fold add_node ns T) = ti_time T
    \<and> pending (fold add_node ns T) e = pending T e @ filter (\<lambda>n. tn_expire n = e) ns"
  using assms
proof (induction ns arbitrary: T)
  case Nil
  then show ?case by simp
next
  case (Cons n ns)
  then have "timer_at P (add_node n T)" by (simp add: add_node_at)
  with Cons show ?case by (simp add: add_node_pending timer_at_shape)
qed

section \<open>Advancing the time\<close>

lemma block_dvd: "j \<le> k \<Longrightarrow> block j dvd block k"
  by (simp add: block_def le_imp_power_dvd)

lemma block_pos [simp]: "0 < block k"
  by (simp add: block_def)

lemma same_block_mono:
  assumes "same_block j e c" "j \<le> k"
  shows "same_block k e c"
proof -
  from block_dvd [OF assms(2)] obtain m where "block k = block j * m" ..
  with assms(1) show ?thesis by (simp add: same_block_def div_mult2_eq)
qed

lemma timer_loc_cong:
  assumes "\<And>k. k \<le> 3 \<Longrightarrow> same_block k e c = same_block k e c'"
  shows "timer_loc e c = timer_loc e c'"
  using assms [of 0] assms [of 1] assms [of 2] assms [of 3] by (simp add: timer_loc_def)

lemma same_block_dist:
  assumes "unat e div m = unat c div m" "0 < m"
  shows "unat c - unat e < m"
proof -
  have "unat c = unat e div m * m + unat c mod m" using assms(1) by (metis div_mult_mod_eq)
  moreover have "unat e div m * m \<le> unat e" by simp
  moreover have "unat c mod m < m" using assms(2) by simp
  ultimately show ?thesis by linarith
qed

text \<open>A pending timer in the same block of time is ahead without wrap-around.\<close>

lemma same_block_ahead:
  assumes fut: "in_future c e" and same: "same_block k e c" and k: "k \<le> 3"
  shows "unat c < unat e"
proof (rule ccontr)
  assume "\<not> unat c < unat e"
  moreover have neq: "e \<noteq> c" using fut by (auto simp: in_future_def)
  ultimately have lt: "unat e < unat c" by (metis linorder_neqE_nat word_unat_eq_iff)
  have "same_block 3 e c" using same_block_mono [OF same k] .
  then have "unat c - unat e < 2 ^ 26"
    using same_block_dist [of e "block 3" c] by (simp add: same_block_def) (simp add: block_def)
  moreover have "unat (e - c) = unat e + 2 ^ 32 - unat c" using lt by (simp add: unat_sub_if')
  ultimately show False using fut lt by (simp add: in_future_def) arith
qed

lemma same_block_Suc:
  assumes "unat ct = Suc (unat c)" "\<not> block k dvd unat ct"
  shows "same_block k e ct = same_block k e c"
  using assms by (simp add: same_block_def div_Suc dvd_eq_mod_eq_0)

lemma block_end:
  assumes fut: "in_future c e" and k: "k \<le> 3" and ct: "unat ct = Suc (unat c)" "block k dvd unat ct"
  shows "\<not> same_block k e c"
proof
  assume same: "same_block k e c"
  from ct(2) obtain q where q: "unat ct = block k * q" ..
  with ct(1) have "unat c div block k < q" by (metis div_less_iff_less_mult block_pos lessI mult.commute)
  with same have "unat e div block k < q" by (simp add: same_block_def)
  then have "unat e < block k * q" by (metis div_less_iff_less_mult block_pos mult.commute)
  with q ct(1) same_block_ahead [OF fut same k] show False by simp
qed

text \<open>
  Across a block boundary at level \<open>i\<close> only the timers in one list change their place: those of
  the list that \<^verbatim>\<open>timer_shift\<close> moves.
\<close>

lemma timer_loc_shift:
  assumes fut: "in_future c e" and ct: "unat ct = Suc (unat c)" and i: "i \<le> 3" "block i dvd unat ct"
    and above: "\<And>k. i < k \<Longrightarrow> k \<le> 3 \<Longrightarrow> \<not> block k dvd unat ct"
  shows "timer_loc e c = timer_loc e ct \<or> timer_loc e c = Level i (digit i ct)"
proof (cases "same_block i e ct")
  case True
  have lo: "\<not> same_block k e c" if "k \<le> i" for k
    using block_end [OF fut _ ct] that i block_dvd [OF that] dvd_trans by fastforce
  have hi: "same_block k e c" if "i < k" "k \<le> 3" for k
    using same_block_Suc [OF ct above [OF that], of e] same_block_mono [OF True, of k] that(1) by simp
  have "digit i e = digit i ct" using True by (simp add: digit_def same_block_def)
  moreover consider "i = 0" | "i = 1" | "i = 2" | "i = 3" using i(1) by linarith
  then have "timer_loc e c = Level i (digit i e)"
    by cases (use lo [of 0] lo [of 1] lo [of 2] lo [of 3] hi [of 1] hi [of 2] hi [of 3] in
      \<open>simp_all add: timer_loc_def\<close>)
  ultimately show ?thesis by simp
next
  case False
  have "same_block k e c = same_block k e ct" if "k \<le> 3" for k
  proof (cases "k \<le> i")
    case True
    then have "block k dvd unat ct" using block_dvd i(2) dvd_trans by blast
    then show ?thesis using block_end [OF fut that ct] False same_block_mono [of k e ct i] True by blast
  next
    case False
    then show ?thesis using same_block_Suc [OF ct above] that by simp
  qed
  then show ?thesis by (intro disjI1 timer_loc_cong)
qed

lemma timer_loc_wrap:
  assumes fut: "in_future c e" and "c + 1 = 0"
  shows "timer_loc e c = timer_loc e 0 \<or> timer_loc e c = Level 3 0"
proof -
  have "c = - 1" using assms(2) by (metis add_eq_0_iff add.commute)
  then have "\<not> unat c < unat e" by (simp flip: word_less_nat_alt)
  then have far: "\<not> same_block k e c" if "k \<le> 3" for k
    using same_block_ahead [OF fut _ that] by blast
  then have c: "timer_loc e c = Level 3 (digit 3 e)" by (simp add: timer_loc_def)
  show ?thesis
  proof (cases "same_block 3 e 0")
    case True
    then have "digit 3 e = 0" by (simp add: same_block_def digit_def)
    with c show ?thesis by simp
  next
    case False
    then have "\<not> same_block k e 0" if "k \<le> 3" for k using same_block_mono that by blast
    with c show ?thesis by (simp add: timer_loc_def)
  qed
qed

lemma digit_0_block_dvd: "block i dvd unat ct \<Longrightarrow> digit i ct = 0 \<longleftrightarrow> block (Suc i) dvd unat ct"
proof -
  assume "block i dvd unat ct"
  then obtain q where q: "unat ct = block i * q" ..
  have "block (Suc i) = block i * 64" by (simp add: block_def power_add)
  with q block_pos [of i] show ?thesis by (simp add: digit_def dvd_eq_mod_eq_0 del: block_pos)
qed

lemma shift_loop_step:
  "shift_loop ct (2 ^ (8 + 6 * i)) (drop_bit (8 + 6 * i) ct) i =
    (if block i dvd unat ct then
       if digit i ct \<noteq> 0 then Some (Some (i, digit i ct))
       else shift_loop ct (2 ^ (8 + 6 * Suc i)) (drop_bit (8 + 6 * Suc i) ct) (Suc i)
     else Some None)"
proof -
  have test: "ct AND (2 ^ (8 + 6 * i) - 1) = 0 \<longleftrightarrow> block i dvd unat ct"
    by (simp add: and_mask_eq_0_iff block_def flip: mask_eq_exp_minus_1)
  have d: "unat (drop_bit (8 + 6 * i) ct AND TIME_LEVEL_MASK) = digit i ct"
    using unat_drop_bit_and_mask [of "8 + 6 * i" ct 6]
    by (simp add: TIME_LEVEL_MASK_def mask_eq_exp_minus_1 digit_def block_def)
  have next_mask: "push_bit TIME_LEVEL_SHIFT (2 ^ (8 + 6 * i)) = (2 ^ (8 + 6 * Suc i) :: u32)"
    "drop_bit TIME_LEVEL_SHIFT (drop_bit (8 + 6 * i) ct) = drop_bit (8 + 6 * Suc i) ct"
    by (simp_all add: TIME_LEVEL_SHIFT_def push_bit_eq_mult power_add add.commute)
  show ?thesis
    unfolding shift_loop.simps [of ct "2 ^ (8 + 6 * i)" "drop_bit (8 + 6 * i) ct" i]
      test d next_mask Let_def by (rule refl)
qed

lemma digit_top:
  assumes "ct \<noteq> 0" "block 3 dvd unat ct"
  shows "digit 3 ct \<noteq> 0"
proof
  assume "digit 3 ct = 0"
  with digit_0_block_dvd [OF assms(2)] have "2 ^ 32 dvd unat ct" by (simp add: block_def)
  moreover have "unat ct < 2 ^ 32" using unsigned_less [of ct] by simp
  moreover have "0 < unat ct" using assms(1) by (simp add: unat_gt_0)
  ultimately show False using dvd_imp_le linorder_not_le by blast
qed

lemma shift_loop_ok:
  assumes "i \<le> 3" "ct \<noteq> 0"
  shows "\<exists>r. shift_loop ct (2 ^ (8 + 6 * i)) (drop_bit (8 + 6 * i) ct) i = Some r
    \<and> (case r of None \<Rightarrow> \<not> block i dvd unat ct
       | Some (j, d) \<Rightarrow> i \<le> j \<and> j \<le> 3 \<and> block j dvd unat ct \<and> d = digit j ct \<and> d \<noteq> 0)"
  using assms
proof (induction "3 - i" arbitrary: i)
  case (0 i)
  then have "i = 3" by simp
  with digit_top [OF 0(3)] have "block i dvd unat ct \<Longrightarrow> digit i ct \<noteq> 0" by simp
  then show ?case using 0(2) by (subst shift_loop_step) auto
next
  case (Suc x i)
  have i: "x = 3 - Suc i" "Suc i \<le> 3" using Suc.hyps(2) by linarith+
  from Suc.hyps(1) [OF i Suc.prems(2)] obtain r where
    r: "shift_loop ct (2 ^ (8 + 6 * Suc i)) (drop_bit (8 + 6 * Suc i) ct) (Suc i) = Some r"
      "case r of None \<Rightarrow> \<not> block (Suc i) dvd unat ct
       | Some (j, d) \<Rightarrow> Suc i \<le> j \<and> j \<le> 3 \<and> block j dvd unat ct \<and> d = digit j ct \<and> d \<noteq> 0" by blast
  show ?case
  proof (cases "block i dvd unat ct \<and> digit i ct = 0")
    case True
    with r digit_0_block_dvd [of i ct] show ?thesis
      unfolding shift_loop_step [of ct i] by (intro exI [of _ r]) (auto split: option.splits)
  next
    case False
    then show ?thesis using Suc.prems unfolding shift_loop_step [of ct i] by auto
  qed
qed

text \<open>What a tick does to the places: \<open>moved_place\<close> is the list \<^verbatim>\<open>timer_shift\<close> moves, if any.\<close>

definition moved_place :: "u32 \<Rightarrow> place option" where
  "moved_place ct =
     (if ct = 0 then Some (Level 3 0)
      else case shift_loop ct 256 (drop_bit TIME_NEAR_SHIFT ct) 0 of
        Some (Some (i, d)) \<Rightarrow> Some (Level i d) | _ \<Rightarrow> None)"

definition move_place :: "place \<Rightarrow> timer \<Rightarrow> timer" where
  "move_place p T = fold add_node (bucket T p) (set_bucket p [] T)"

lemma move_list_place: "move_list l i T = move_place (Level l i) T"
  by (simp add: move_list_def link_clear_level_def move_place_def set_bucket_def)

lemma shift_loop_start:
  assumes "ct \<noteq> 0"
  obtains "shift_loop ct 256 (drop_bit TIME_NEAR_SHIFT ct) 0 = Some None" "\<not> block 0 dvd unat ct"
  | i where "shift_loop ct 256 (drop_bit TIME_NEAR_SHIFT ct) 0 = Some (Some (i, digit i ct))"
      "i \<le> 3" "block i dvd unat ct" "digit i ct \<noteq> 0"
proof -
  from shift_loop_ok [of 0 ct] assms obtain r where
    r: "shift_loop ct 256 (drop_bit TIME_NEAR_SHIFT ct) 0 = Some r"
      "case r of None \<Rightarrow> \<not> block 0 dvd unat ct
       | Some (j, d) \<Rightarrow> 0 \<le> j \<and> j \<le> 3 \<and> block j dvd unat ct \<and> d = digit j ct \<and> d \<noteq> 0"
    unfolding TIME_NEAR_SHIFT_def by force
  then show thesis using that by (cases r) auto
qed

lemma timer_shift_eq:
  "timer_shift T = Inr (case moved_place (ti_time T + 1) of
      None \<Rightarrow> T\<lparr>ti_time := ti_time T + 1\<rparr>
    | Some p \<Rightarrow> move_place p (T\<lparr>ti_time := ti_time T + 1\<rparr>))"
proof (cases "ti_time T + 1 = 0")
  case True
  then show ?thesis by (simp add: timer_shift_def moved_place_def move_list_place Let_def)
next
  case False
  then show ?thesis
    by (rule shift_loop_start)
      (simp_all add: timer_shift_def moved_place_def move_list_place Let_def False)
qed

lemma moved_place_ok: "moved_place ct = Some p \<Longrightarrow> place_ok p"
  by (cases "ct = 0") (auto simp: moved_place_def digit_def elim!: shift_loop_start)

lemma timer_loc_tick:
  assumes fut: "in_future c e"
  shows "timer_loc e c = timer_loc e (c + 1) \<or> moved_place (c + 1) = Some (timer_loc e c)"
proof (cases "c + 1 = 0")
  case True
  with timer_loc_wrap [OF fut True] show ?thesis by (auto simp: moved_place_def)
next
  case False
  then have ct: "unat (c + 1) = Suc (unat c)" by (metis unatSuc add.commute)
  from False show ?thesis
  proof (rule shift_loop_start)
    assume "\<not> block 0 dvd unat (c + 1)"
    then have "\<not> block k dvd unat (c + 1)" for k
      using block_dvd [of 0 k] dvd_trans by blast
    then show ?thesis using same_block_Suc [OF ct] by (intro disjI1 timer_loc_cong) simp
  next
    fix i assume i: "shift_loop (c + 1) 256 (drop_bit TIME_NEAR_SHIFT (c + 1)) 0
        = Some (Some (i, digit i (c + 1)))"
      "i \<le> 3" "block i dvd unat (c + 1)" "digit i (c + 1) \<noteq> 0"
    have "\<not> block k dvd unat (c + 1)" if "i < k" for k
      using digit_0_block_dvd [OF i(3)] i(4) block_dvd [of "Suc i" k] that dvd_trans by fastforce
    from timer_loc_shift [OF fut ct i(2,3) this] i False show ?thesis
      by (auto simp: moved_place_def)
  qed
qed

lemma move_place_at:
  assumes shape: "timer_shape T" and p: "place_ok p"
    and others: "\<And>q n. place_ok q \<Longrightarrow> q \<noteq> p \<Longrightarrow> n \<in> set (bucket T q) \<Longrightarrow>
      timer_loc (tn_expire n) (ti_time T) = q \<and> P (tn_expire n)"
    and P: "\<And>n. n \<in> set (bucket T p) \<Longrightarrow> P (tn_expire n)"
  shows "timer_at P (move_place p T)" "ti_time (move_place p T) = ti_time T"
    "pending (move_place p T) e =
      (if timer_loc e (ti_time T) = p then [] else pending T e) @ filter (\<lambda>n. tn_expire n = e) (bucket T p)"
proof -
  have at: "timer_at P (set_bucket p [] T)"
    using shape p others by (intro timer_atI) (auto simp: bucket_set_bucket split: if_splits)
  from fold_add_node [OF at, of "bucket T p" e] P
  have *: "timer_at P (move_place p T) \<and> ti_time (move_place p T) = ti_time T \<and>
    pending (move_place p T) e = pending (set_bucket p [] T) e @ filter (\<lambda>n. tn_expire n = e) (bucket T p)"
    by (simp add: move_place_def)
  then show "timer_at P (move_place p T)" "ti_time (move_place p T) = ti_time T" by simp_all
  from * show "pending (move_place p T) e =
      (if timer_loc e (ti_time T) = p then [] else pending T e) @ filter (\<lambda>n. tn_expire n = e) (bucket T p)"
    using shape p by (auto simp: pending_def bucket_set_bucket)
qed

lemma filter_bucket:
  assumes "timer_at P T" "place_ok q"
  shows "filter (\<lambda>n. tn_expire n = e) (bucket T q) = (if timer_loc e (ti_time T) = q then pending T e else [])"
proof (cases "timer_loc e (ti_time T) = q")
  case False
  with timer_atD(1) [OF assms] show ?thesis by (auto simp: filter_empty_conv)
qed (simp add: pending_def)

lemma pending_empty:
  assumes "timer_at P T" "\<not> P e"
  shows "pending T e = []"
  using timer_atD(2) [OF assms(1) place_ok_timer_loc] assms(2) by (fastforce simp: pending_def filter_empty_conv)

lemma pending_time:
  "pending (T\<lparr>ti_time := ct\<rparr>) e = filter (\<lambda>n. tn_expire n = e) (bucket T (timer_loc e ct))"
  by (simp add: pending_def)

lemma timer_shift_ok:
  assumes inv: "timer_inv T"
  shows "\<exists>T'. timer_shift T = Inr T' \<and> timer_at (in_future (ti_time T)) T' \<and> ti_time T' = ti_time T + 1
    \<and> (\<forall>e. pending T' e = pending T e)"
proof -
  let ?c = "ti_time T" and ?T1 = "T\<lparr>ti_time := ti_time T + 1\<rparr>"
  have at: "timer_at (in_future ?c) T" using inv by (simp add: timer_inv_at)
  have loc: "timer_loc (tn_expire n) (?c + 1) = q \<or> moved_place (?c + 1) = Some q"
    if "place_ok q" "n \<in> set (bucket T q)" for q n
    using timer_atD [OF at that] timer_loc_tick [of ?c "tn_expire n"] by auto
  have pend: "filter (\<lambda>n. tn_expire n = e) (bucket T (timer_loc e (?c + 1))) =
     (if timer_loc e ?c = timer_loc e (?c + 1) then pending T e else [])" for e
    by (rule filter_bucket [OF at place_ok_timer_loc])
  show ?thesis
  proof (cases "moved_place (?c + 1)")
    case None
    have "pending T e = pending ?T1 e" for e
      using timer_loc_tick [of ?c e] pending_empty [OF at, of e] None pend [of e] by (auto simp: pending_time)
    moreover have "timer_at (in_future ?c) ?T1"
      using timer_at_shape [OF at] loc timer_atD(2) [OF at] None by (intro timer_atI) auto
    ultimately show ?thesis by (simp add: timer_shift_eq None)
  next
    case (Some p)
    have ok: "place_ok p" using moved_place_ok [OF Some] .
    note mv = move_place_at [of ?T1 p "in_future ?c"]
    have prems: "timer_shape ?T1" "place_ok q \<Longrightarrow> q \<noteq> p \<Longrightarrow> n \<in> set (bucket ?T1 q) \<Longrightarrow>
        timer_loc (tn_expire n) (ti_time ?T1) = q \<and> in_future ?c (tn_expire n)"
      "n \<in> set (bucket ?T1 p) \<Longrightarrow> in_future ?c (tn_expire n)" for q n
      using timer_at_shape [OF at] loc [of q n] timer_atD(2) [OF at, of q n] timer_atD(2) [OF at ok, of n] Some
      by auto
    have "pending (move_place p ?T1) e = pending T e" for e
      using mv(3) [OF prems(1) ok prems(2,3), of e] timer_loc_tick [of ?c e] pending_empty [OF at, of e] Some
        pend [of e] filter_bucket [OF at ok, of e]
      by (cases "in_future ?c e") (auto simp: pending_time split: if_splits)
    with mv(1,2) [OF prems(1) ok prems(2,3)] show ?thesis by (simp add: timer_shift_eq Some)
  qed
qed

lemma near_expire:
  assumes at: "timer_at P T" and n: "n \<in> set (bucket T (Near (unat (ti_time T) mod 256)))"
  shows "tn_expire n = ti_time T"
proof -
  have "timer_loc (tn_expire n) (ti_time T) = Near (unat (ti_time T) mod 256)"
    using timer_atD(1) [OF at _ n] by simp
  then have "unat (tn_expire n) div 256 = unat (ti_time T) div 256"
    "unat (tn_expire n) mod 256 = unat (ti_time T) mod 256"
    by (auto simp: timer_loc_def same_block_def block_def split: if_splits)
  then have "unat (tn_expire n) = unat (ti_time T)" by (metis div_mult_mod_eq)
  then show ?thesis by (simp add: word_unat_eq_iff)
qed

lemma timer_execute_ok:
  assumes at: "timer_at P T"
  shows "timer_execute T = (set_bucket (Near (unat (ti_time T) mod 256)) [] T, pending T (ti_time T))"
proof -
  let ?i = "unat (ti_time T) mod 256"
  have idx: "unat (ti_time T AND TIME_NEAR_MASK) = ?i"
    using unat_and_mask [of "ti_time T" 8] by (simp add: TIME_NEAR_MASK_def mask_eq_exp_minus_1)
  have "pending T (ti_time T) = near T ! ?i"
    using near_expire [OF at] by (simp add: pending_def timer_loc_def same_block_def filter_id_conv)
  moreover have "set_bucket (Near ?i) [] T = T" if "near T ! ?i = []"
    using that list_update_id [of "near T" ?i] by (cases T) (simp add: set_bucket_def)
  ultimately show ?thesis
    by (auto simp: timer_execute_def idx link_clear_near_def set_bucket_def Let_def)
qed

lemma in_future_step:
  assumes "in_future c e" "e \<noteq> c + 1"
  shows "in_future (c + 1) e"
proof -
  have "e - c \<noteq> 1" using assms(2) by (metis diff_add_cancel add.commute)
  moreover have "e - (c + 1) = (e - c) - 1" by simp
  moreover have "unat (e - c) \<noteq> 0" using assms(1) by (simp add: in_future_def)
  ultimately have "unat (e - (c + 1)) = unat (e - c) - 1" "unat (e - c) \<noteq> 1"
    by (metis unat_minus_one unat_eq_zero, metis unat_1 word_unat_eq_iff)
  then show ?thesis using assms(1) unfolding in_future_def by linarith
qed

lemma timer_loc_self [simp]: "timer_loc c c = Near (unat c mod 256)"
  by (simp add: timer_loc_def same_block_def)

lemma timer_execute_inv:
  assumes at: "timer_at (in_future c) T" and ct: "ti_time T = c + 1"
  shows "timer_inv (fst (timer_execute T))"
    "pending (fst (timer_execute T)) e = (if e = c + 1 then [] else pending T e)"
proof -
  let ?p = "Near (unat (ti_time T) mod 256)"
  have ok: "place_ok ?p" by simp
  have "in_future (c + 1) (tn_expire n)" if "place_ok q" "q \<noteq> ?p" "n \<in> set (bucket T q)" for q n
  proof -
    have "tn_expire n \<noteq> c + 1"
      using timer_atD(1) [OF at that(1,3)] that(2) ct by (auto simp: timer_loc_def same_block_def)
    then show ?thesis using timer_atD(2) [OF at that(1,3)] in_future_step by blast
  qed
  then show "timer_inv (fst (timer_execute T))"
    using timer_at_shape [OF at] timer_atD(1) [OF at] ok
    by (auto simp: timer_inv_at timer_execute_ok [OF at] ct bucket_set_bucket split: if_splits intro!: timer_atI)
  have "pending T e = []" if "timer_loc e (ti_time T) = ?p" "e \<noteq> c + 1"
    using near_expire [OF at] that ct by (auto simp: pending_def filter_empty_conv)
  then show "pending (fst (timer_execute T)) e = (if e = c + 1 then [] else pending T e)"
    using timer_at_shape [OF at] ok ct
    by (auto simp: timer_execute_ok [OF at] pending_def bucket_set_bucket simp del: bucket.simps)
qed

lemma timer_update_ok:
  assumes inv: "timer_inv T"
  shows "\<exists>T'. timer_update T = Inr (T', pending T (ti_time T + 1)) \<and> timer_inv T' \<and> ti_time T' = ti_time T + 1
    \<and> (\<forall>e. pending T' e = (if e = ti_time T + 1 then [] else pending T e))"
proof -
  have at: "timer_at (in_future (ti_time T)) T" using inv by (simp add: timer_inv_at)
  have "bucket T (Near (unat (ti_time T) mod 256)) = []"
  proof (rule ccontr)
    assume "bucket T (Near (unat (ti_time T) mod 256)) \<noteq> []"
    then obtain n where n: "n \<in> set (bucket T (Near (unat (ti_time T) mod 256)))" by (metis list.set_intros(1) neq_Nil_conv)
    from timer_atD(2) [OF at _ this] near_expire [OF at this] show False by (simp add: in_future_def)
  qed
  then have ex: "timer_execute T = (T, [])"
    using unat_and_mask [of "ti_time T" 8]
    by (simp add: timer_execute_def TIME_NEAR_MASK_def mask_eq_exp_minus_1)
  from timer_shift_ok [OF inv] obtain T2 where
    T2: "timer_shift T = Inr T2" "timer_at (in_future (ti_time T)) T2" "ti_time T2 = ti_time T + 1"
      "\<And>e. pending T2 e = pending T e" by blast
  have "timer_update T = Inr (timer_execute T2)" by (simp add: timer_update_def ex T2(1) Let_def)
  moreover have "snd (timer_execute T2) = pending T (ti_time T + 1)"
    by (simp add: timer_execute_ok [OF T2(2)] T2(3,4))
  moreover have "ti_time (fst (timer_execute T2)) = ti_time T + 1"
    by (simp add: timer_execute_ok [OF T2(2)] T2(3))
  ultimately show ?thesis using timer_execute_inv [OF T2(2,3)] T2(4)
    by (intro exI [of _ "fst (timer_execute T2)"]) (metis prod.collapse)
qed

section \<open>The wheel implements a list of deadlines\<close>

text \<open>
  The specification keeps the tick count as an unbounded number and the timers as one list with
  their absolute deadlines; a tick dispatches those that are due, in the order they were added.
\<close>

datatype timer_op = Add u32 i32 i32 | Tick

type_synonym deadline = "nat \<times> u32 \<times> i32"

fun deadline_run :: "timer_op list \<Rightarrow> nat \<Rightarrow> deadline list \<Rightarrow> (u32 \<times> i32) list list" where
  "deadline_run [] now ds = []"
| "deadline_run (Add handle session time # ops) now ds =
     deadline_run ops now (ds @ [(now + unat time, handle, session)])"
| "deadline_run (Tick # ops) now ds =
     map snd (filter (\<lambda>d. fst d = Suc now) ds)
     # deadline_run ops (Suc now) (filter (\<lambda>d. fst d \<noteq> Suc now) ds)"

text \<open>The same history on the wheel: what each \<^verbatim>\<open>timer_update\<close> dispatches.\<close>

fun timer_run :: "timer_op list \<Rightarrow> timer \<Rightarrow> (timer \<times> (u32 \<times> i32) list list) res" where
  "timer_run [] T = Inr (T, [])"
| "timer_run (Add handle session time # ops) T = timer_run ops (timer_add T handle session time)"
| "timer_run (Tick # ops) T =
     bindE (timer_update T) (\<lambda>(T1, out).
     bindE (timer_run ops T1) (\<lambda>(T2, outs).
       Inr (T2, map (\<lambda>n. (tn_handle n, tn_session n)) out # outs)))"

fun add_positive :: "timer_op \<Rightarrow> bool" where
  "add_positive (Add handle session time) = (0 < sint time)"
| "add_positive Tick = True"

definition deadline_node :: "deadline \<Rightarrow> timer_node" where
  "deadline_node d = \<lparr>tn_expire = of_nat (fst d), tn_handle = fst (snd d), tn_session = snd (snd d)\<rparr>"

definition timer_rel :: "timer \<Rightarrow> nat \<Rightarrow> deadline list \<Rightarrow> bool" where
  "timer_rel T now ds \<longleftrightarrow> timer_inv T \<and> ti_time T = of_nat now
     \<and> (\<forall>d \<in> set ds. now < fst d \<and> fst d < now + 2 ^ 31)
     \<and> (\<forall>e. pending T e = filter (\<lambda>n. tn_expire n = e) (map deadline_node ds))"

lemma positive_i32: "0 < sint (t :: i32) \<Longrightarrow> 0 < unat t \<and> unat t < 2 ^ 31"
  using unsigned_less [of t, where 'a = nat] by (simp add: sint_i32 split: if_splits del: of_nat_unat)

lemma timer_rel_add:
  assumes rel: "timer_rel T now ds" and time: "0 < sint time"
  shows "timer_rel (timer_add T handle session time) now (ds @ [(now + unat time, handle, session)])"
proof -
  let ?n = "\<lparr>tn_expire = time + of_nat now, tn_handle = handle, tn_session = session\<rparr>"
  have inv: "timer_at (in_future (ti_time T)) T" "ti_time T = of_nat now"
    using rel unfolding timer_rel_def timer_inv_at by blast+
  have fut: "in_future (ti_time T) (tn_expire ?n)"
    using positive_i32 [OF time] inv(2) by (simp add: in_future_def)
  have node: "deadline_node (now + unat time, handle, session) = ?n"
    by (simp add: deadline_node_def add.commute)
  have "timer_inv (add_node ?n T)" using add_node_at [OF inv(1) fut] by (simp add: timer_inv_at)
  with rel node positive_i32 [OF time] add_node_pending [OF timer_at_shape [OF inv(1)], of ?n]
  show ?thesis by (auto simp: timer_rel_def timer_add_def inv(2))
qed

lemma timer_rel_tick:
  assumes rel: "timer_rel T now ds"
  obtains T' where "timer_update T = Inr (T', map deadline_node (filter (\<lambda>d. fst d = Suc now) ds))"
    "timer_rel T' (Suc now) (filter (\<lambda>d. fst d \<noteq> Suc now) ds)"
proof -
  have inv: "timer_inv T" and now: "ti_time T = of_nat now"
    and range: "\<And>d. d \<in> set ds \<Longrightarrow> now < fst d \<and> fst d < now + 2 ^ 31"
    and pend: "\<And>e. pending T e = filter (\<lambda>n. tn_expire n = e) (map deadline_node ds)"
    using rel by (auto simp: timer_rel_def)
  have next_time: "ti_time T + 1 = of_nat (Suc now)" by (simp add: now)
  have due: "tn_expire (deadline_node d) = of_nat (Suc now) \<longleftrightarrow> fst d = Suc now" if "d \<in> set ds" for d
    using of_nat_word_eq_near [of "Suc now" "fst d", where 'a = 32] range [OF that]
    by (simp add: deadline_node_def)
  from timer_update_ok [OF inv] obtain T' where
    T': "timer_update T = Inr (T', pending T (of_nat (Suc now)))" "timer_inv T'" "ti_time T' = of_nat (Suc now)"
      "\<And>e. pending T' e = (if e = of_nat (Suc now) then [] else pending T e)"
    unfolding next_time by blast
  have "pending T (of_nat (Suc now)) = map deadline_node (filter (\<lambda>d. fst d = Suc now) ds)"
    unfolding pend filter_map o_def using due by (intro arg_cong [of _ _ "map deadline_node"] filter_cong) auto
  moreover have "pending T' e = filter (\<lambda>n. tn_expire n = e)
      (map deadline_node (filter (\<lambda>d. fst d \<noteq> Suc now) ds))" for e
    unfolding T'(4) pend filter_map o_def filter_filter using due
    by (auto simp: filter_empty_conv intro!: arg_cong [of _ _ "map deadline_node"] filter_cong)
  moreover have "Suc now < fst d \<and> fst d < Suc now + 2 ^ 31"
    if "d \<in> set (filter (\<lambda>d. fst d \<noteq> Suc now) ds)" for d
    using range [of d] that by auto
  ultimately show thesis using that [of T'] T'(1-3) unfolding timer_rel_def by simp
qed

lemma timer_run_refines:
  assumes "timer_rel T now ds" "\<forall>op \<in> set ops. add_positive op"
  shows "\<exists>T'. timer_run ops T = Inr (T', deadline_run ops now ds)"
  using assms
proof (induction ops now ds arbitrary: T rule: deadline_run.induct)
  case (1 now ds)
  then show ?case by simp
next
  case (2 handle session time ops now ds)
  then show ?case using timer_rel_add [OF 2(2), of time handle session] by simp
next
  case (3 ops now ds)
  from timer_rel_tick [OF 3(2)] obtain T1 where
    T1: "timer_update T = Inr (T1, map deadline_node (filter (\<lambda>d. fst d = Suc now) ds))"
      "timer_rel T1 (Suc now) (filter (\<lambda>d. fst d \<noteq> Suc now) ds)" .
  from 3(1) [OF T1(2)] 3(3) obtain T2 where
    T2: "timer_run ops T1 = Inr (T2, deadline_run ops (Suc now) (filter (\<lambda>d. fst d \<noteq> Suc now) ds))"
    by auto
  show ?case by (simp add: T1(1) T2 o_def deadline_node_def)
qed

lemma timer_rel_init: "timer_rel (skynet_timer_init realtime monotonic) 0 []"
proof -
  have empty: "bucket (skynet_timer_init realtime monotonic) p = []" if "place_ok p" for p
    using that by (cases p) (simp_all add: skynet_timer_init_def timer_create_timer_def systime_def)
  then have "timer_inv (skynet_timer_init realtime monotonic)"
    unfolding timer_inv_def
    by (auto simp: timer_shape_def skynet_timer_init_def timer_create_timer_def systime_def)
  then show ?thesis
    using empty by (simp add: timer_rel_def pending_def)
      (simp add: skynet_timer_init_def timer_create_timer_def systime_def)
qed

text \<open>C2: from start-up, for every history of timeouts (with a positive delay) and ticks, the wheel
  with its 32-bit time that wraps around dispatches on every tick exactly the timers that are due
  on that tick, in the order they were added, and never faults or loops.\<close>

theorem timer_wheel_refines_deadlines:
  assumes "\<forall>op \<in> set ops. add_positive op"
  shows "\<exists>T. timer_run ops (skynet_timer_init realtime monotonic) = Inr (T, deadline_run ops 0 [])"
  using timer_run_refines [OF timer_rel_init assms] .

theorem timer_wheel_refines_deadlines_witness:
  "\<exists>T. timer_run [Add 7 1 300, Tick, Add 8 2 1, Tick] (skynet_timer_init (1, 0) (2, 0))
     = Inr (T, [[], [(8, 2)]])"
  using timer_wheel_refines_deadlines [of "[Add 7 1 300, Tick, Add 8 2 1, Tick]" "(1, 0)" "(2, 0)"]
  by simp

section \<open>Catching up with the clock\<close>

text \<open>The wheel's operations leave the clock fields alone.\<close>

definition same_clock :: "timer \<Rightarrow> timer \<Rightarrow> bool" where
  "same_clock T T' \<longleftrightarrow> ti_current T' = ti_current T \<and> ti_current_point T' = ti_current_point T
     \<and> ti_starttime T' = ti_starttime T"

lemma same_clock_refl [simp]: "same_clock T T"
  by (simp add: same_clock_def)

lemma same_clock_trans: "same_clock T T1 \<Longrightarrow> same_clock T1 T2 \<Longrightarrow> same_clock T T2"
  by (simp add: same_clock_def)

lemma same_clock_set_bucket [simp]: "same_clock T (set_bucket p ns T)"
  by (cases p) (simp_all add: same_clock_def set_bucket_def)

lemma same_clock_time [simp]: "same_clock T (T\<lparr>ti_time := c\<rparr>)"
  by (simp add: same_clock_def)

lemma same_clock_fold: "same_clock T (fold add_node ns T)"
proof (induction ns arbitrary: T)
  case (Cons n ns)
  have "same_clock T (add_node n T)" by (simp add: add_node_eq)
  from same_clock_trans [OF this Cons.IH] show ?case by simp
qed simp

lemma same_clock_execute: "same_clock T (fst (timer_execute T))"
  by (simp add: timer_execute_def link_clear_near_def same_clock_def Let_def)

lemma same_clock_shift: "timer_shift T = Inr T' \<Longrightarrow> same_clock T T'"
  unfolding timer_shift_eq move_place_def
  by (auto split: option.splits intro: same_clock_trans [OF same_clock_trans [OF same_clock_time same_clock_set_bucket] same_clock_fold])

lemma same_clock_update: "timer_update T = Inr (T', out) \<Longrightarrow> same_clock T T'"
proof -
  assume upd: "timer_update T = Inr (T', out)"
  then obtain T2 where T2: "timer_shift (fst (timer_execute T)) = Inr T2" "T' = fst (timer_execute T2)"
    by (auto simp: timer_update_def case_prod_unfold Let_def)
  then show "same_clock T T'"
    using same_clock_trans [OF same_clock_trans [OF same_clock_execute same_clock_shift [OF T2(1)]]
      same_clock_execute] by simp
qed

lemma timer_ticks_ok:
  assumes "timer_inv T" "n < 2 ^ 32"
  shows "\<exists>T'. timer_ticks n T = Inr (T', map (\<lambda>i. pending T (ti_time T + of_nat (Suc i))) [0..<n])
    \<and> timer_inv T' \<and> ti_time T' = ti_time T + of_nat n \<and> same_clock T T'"
  using assms
proof (induction n arbitrary: T)
  case 0
  then show ?case by simp
next
  case (Suc n)
  from timer_update_ok [OF Suc.prems(1)] obtain T1 where
    T1: "timer_update T = Inr (T1, pending T (ti_time T + 1))" "timer_inv T1" "ti_time T1 = ti_time T + 1"
      "\<And>e. pending T1 e = (if e = ti_time T + 1 then [] else pending T e)" by blast
  from Suc.IH [OF T1(2)] Suc.prems(2) obtain T2 where
    T2: "timer_ticks n T1 = Inr (T2, map (\<lambda>i. pending T1 (ti_time T1 + of_nat (Suc i))) [0..<n])"
      "timer_inv T2" "ti_time T2 = ti_time T1 + of_nat n" "same_clock T1 T2" by auto
  have later: "pending T1 (ti_time T1 + of_nat (Suc i)) = pending T (ti_time T + of_nat (Suc (Suc i)))"
    if "i < n" for i
  proof -
    have "(of_nat (Suc i) :: u32) \<noteq> of_nat 0"
      using of_nat_word_eq_near [of 0 "Suc i", where 'a = 32] that Suc.prems(2) by simp
    then have "ti_time T1 + of_nat (Suc i) \<noteq> ti_time T + 1" by (simp add: T1(3))
    then show ?thesis unfolding T1(4) by (simp add: T1(3) add.assoc)
  qed
  have "map (\<lambda>i. pending T (ti_time T + of_nat (Suc i))) [0..<Suc n] = pending T (ti_time T + 1)
      # map (\<lambda>i. pending T (ti_time T + of_nat (Suc (Suc i)))) [0..<n]"
    by (simp add: upt_conv_Cons map_Suc_upt [symmetric] o_def del: upt_Suc)
  also have "\<dots> = pending T (ti_time T + 1) # map (\<lambda>i. pending T1 (ti_time T1 + of_nat (Suc i))) [0..<n]"
    using later by simp
  finally show ?case
    using T1(1,3) T2 same_clock_trans [OF same_clock_update [OF T1(1)] T2(4)] by (simp add: add.assoc)
qed

lemma timer_inv_clock [simp]:
  "timer_inv (T\<lparr>ti_current_point := cp, ti_current := c\<rparr>) = timer_inv T"
  "pending (T\<lparr>ti_current_point := cp, ti_current := c\<rparr>) e = pending T e"
proof -
  have "bucket (T\<lparr>ti_current_point := cp, ti_current := c\<rparr>) p = bucket T p" for p by (cases p) simp_all
  then show "timer_inv (T\<lparr>ti_current_point := cp, ti_current := c\<rparr>) = timer_inv T"
    "pending (T\<lparr>ti_current_point := cp, ti_current := c\<rparr>) e = pending T e"
    by (simp_all add: timer_inv_def timer_shape_def pending_def)
qed

lemma updatetime_ok:
  assumes "timer_inv T" "ti_current_point T \<le> cp" "cp - ti_current_point T = of_nat k" "k < 2 ^ 32"
  shows "\<exists>T'. skynet_updatetime cp T
      = Inr (T', map (\<lambda>i. pending T (ti_time T + of_nat (Suc i))) [0..<k])
    \<and> timer_inv T' \<and> ti_current_point T' = cp \<and> skynet_now T' = skynet_now T + of_nat k"
proof (cases "k = 0")
  case True
  with assms(3) have "cp = ti_current_point T" by simp
  then show ?thesis using assms(1) by (simp add: skynet_updatetime_def True)
next
  case False
  let ?T = "T\<lparr>ti_current_point := cp, ti_current := ti_current T + of_nat k\<rparr>"
  have u32: "ucast (of_nat k :: u64) = (of_nat k :: u32)"
    using assms(4) by (simp add: unsigned_of_nat take_bit_nat_eq_self)
  have "unat (of_nat k :: u32) = k" "ucast (of_nat k :: u32) = (of_nat k :: u64)"
    using assms(4) by (simp_all add: unsigned_of_nat take_bit_nat_eq_self)
  moreover have "of_nat k \<noteq> (0 :: u64)"
    using of_nat_word_eq_near [of 0 k, where 'a = 64] False assms(4) by simp
  then have "cp \<noteq> ti_current_point T" "\<not> cp < ti_current_point T"
    using assms(2,3) by auto
  ultimately have eq: "skynet_updatetime cp T = timer_ticks k ?T"
    by (simp add: skynet_updatetime_def assms(3) u32 Let_def)
  from timer_ticks_ok [of ?T k] assms(1,4) obtain T' where
    "timer_ticks k ?T = Inr (T', map (\<lambda>i. pending T (ti_time T + of_nat (Suc i))) [0..<k])"
    "timer_inv T'" "same_clock ?T T'" by auto
  then show ?thesis by (simp add: eq same_clock_def skynet_now_def)
qed

text \<open>when the clock is read \<open>k\<close> centiseconds after the last reading, \<open>0 \<le> k < 2 ^ 32\<close>,
  \<^verbatim>\<open>skynet_updatetime\<close> runs exactly \<open>k\<close> ticks: tick number \<open>i + 1\<close> dispatches the timers that
  expire \<open>i + 1\<close> ticks after the current time, no tick is skipped or run twice, and
  \<^verbatim>\<open>skynet_now\<close> advances by \<open>k\<close>.\<close>

theorem updatetime_catches_up:
  assumes "timer_inv T" "ti_current_point T \<le> cp" "cp - ti_current_point T = of_nat k" "k < 2 ^ 32"
  shows "\<exists>T'. skynet_updatetime cp T
      = Inr (T', map (\<lambda>i. pending T (ti_time T + of_nat (Suc i))) [0..<k])
    \<and> timer_inv T' \<and> ti_current_point T' = cp \<and> skynet_now T' = skynet_now T + of_nat k"
  using assms by (rule updatetime_ok)

text \<open>The wheel of a fresh node, three centiseconds after start-up.\<close>

theorem updatetime_catches_up_witness:
  "\<exists>T'. skynet_updatetime 3 (timer_add timer_create_timer 9 5 2)
      = Inr (T', [[], [\<lparr>tn_expire = 2, tn_handle = 9, tn_session = 5\<rparr>], []])
    \<and> timer_inv T' \<and> ti_current_point T' = 3 \<and> skynet_now T' = 3"
proof -
  let ?T = "timer_add timer_create_timer 9 5 2"
  have rel0: "timer_rel (skynet_timer_init (0, 0) (0, 0)) 0 []" by (rule timer_rel_init)
  have "skynet_timer_init (0, 0) (0, 0) = timer_create_timer"
    by (simp add: skynet_timer_init_def systime_def gettime_def timer_create_timer_def)
  with rel0 have "timer_rel timer_create_timer 0 []" by simp
  moreover have "unat (2 :: i32) = 2" "0 < sint (2 :: i32)" by simp_all
  ultimately have rel: "timer_rel ?T 0 [(2, 9, 5)]"
    using timer_rel_add [of timer_create_timer 0 "[]" 2 9 5] by (simp only: append_Nil add_0)
  then have "timer_inv ?T" "ti_time ?T = 0"
    "pending ?T 1 = []" "pending ?T 2 = [\<lparr>tn_expire = 2, tn_handle = 9, tn_session = 5\<rparr>]" "pending ?T 3 = []"
    by (simp_all add: timer_rel_def deadline_node_def)
  moreover have "ti_current_point ?T = 0" "ti_current ?T = 0"
    using same_clock_set_bucket [of timer_create_timer]
    by (simp_all add: timer_add_def add_node_eq same_clock_def) (simp_all add: timer_create_timer_def)
  ultimately show ?thesis using updatetime_catches_up [of ?T 3 3]
    by (simp add: upt_rec [of 0] upt_rec [of "Suc 0"] upt_rec [of "Suc (Suc 0)"] skynet_now_def numeral_3_eq_3)
qed

end
