(* ===== verification/Handle_Storage.thy ===== *)
theory Handle_Storage
  imports Skynet_Prelude "HOL-Library.List_Lexorder" "HOL-Library.Char_ord"
begin

text \<open>
  The handle table of \<^verbatim>\<open>skynet-src/skynet_handle.c\<close>. A service is known by a 32-bit handle: the
  harbor in the top 8 bits and a non-zero number in the low 24. The table hashes the handle's low
  bits into a power-of-two array of contexts, which doubles when it is full; a second array, sorted
  by name and searched by bisection, holds the local names.

  Contexts are addresses. What the table reads of them, the \<^verbatim>\<open>handle\<close> field, comes through the
  argument \<open>ch\<close>: the handle field of every live context. Every function runs under the table's
  read-write lock, so it is one step; what \<^verbatim>\<open>skynet_handle_retire\<close> and \<^verbatim>\<open>skynet_handle_grab\<close> do to the
  context's reference count is in theory \<open>Skynet_Server\<close>.
\<close>

section \<open>Data\<close>

definition HANDLE_MASK :: u32 where "HANDLE_MASK = 0xffffff"
definition HANDLE_REMOTE_SHIFT :: nat where "HANDLE_REMOTE_SHIFT = 24"
definition DEFAULT_SLOT_SIZE :: nat where "DEFAULT_SLOT_SIZE = 4"
definition MAX_SLOT_SIZE :: nat where "MAX_SLOT_SIZE = 0x40000000"

record handle_name =
  hn_name :: string
  hn_handle :: u32

text \<open>\<^verbatim>\<open>slot_size\<close> and \<^verbatim>\<open>name_cap\<close> are the lengths of the arrays \<open>slot\<close> and \<open>name\<close>.\<close>

record handle_storage =
  harbor :: u32
  handle_index :: u32
  slot :: "ptr option list"
  name :: "handle_name list"
  name_count :: nat

definition slot_size :: "handle_storage \<Rightarrow> nat" where
  "slot_size s = length (slot s)"

definition name_cap :: "handle_storage \<Rightarrow> nat" where
  "name_cap s = length (name s)"

text \<open>A cell of a fresh \<^verbatim>\<open>name\<close> array: C leaves it unspecified and it is never read.\<close>

definition blank_name :: handle_name where
  "blank_name = \<lparr>hn_name = [], hn_handle = 0\<rparr>"

definition hash_of :: "u32 \<Rightarrow> nat \<Rightarrow> nat" where
  "hash_of handle n = unat (handle AND (of_nat n - 1))"

section \<open>Operations\<close>

definition skynet_handle_init :: "i32 \<Rightarrow> handle_storage" where
  "skynet_handle_init hb = \<lparr>harbor = push_bit HANDLE_REMOTE_SHIFT (hb AND 0xff), handle_index = 1,
     slot = replicate DEFAULT_SLOT_SIZE None, name = replicate 2 blank_name, name_count = 0\<rparr>"

text \<open>
  \<^verbatim>\<open>skynet_handle_register\<close>: \<open>register_scan\<close> is the inner loop (with the number of iterations left),
  \<open>rehash\<close> the copy into the doubled array, \<open>register_loop\<close> the outer loop; \<open>None\<close> is a loop that
  does not end.
\<close>

fun register_scan :: "ptr option list \<Rightarrow> nat \<Rightarrow> u32 \<Rightarrow> u32 option" where
  "register_scan sl 0 handle = None"
| "register_scan sl (Suc k) handle =
     (let handle = (if handle > HANDLE_MASK then 1 else handle) in
      if sl ! hash_of handle (length sl) = None then Some handle
      else register_scan sl k (handle + 1))"

fun rehash :: "(ptr \<Rightarrow> u32 option) \<Rightarrow> ptr option list \<Rightarrow> ptr option list \<Rightarrow> ptr option list res" where
  "rehash ch [] new_slot = Inr new_slot"
| "rehash ch (c # cs) new_slot =
     bindE (derefE c) (\<lambda>p. bindE (derefE (ch p)) (\<lambda>h.
     let hash = hash_of h (length new_slot) in
     bindE (nthE new_slot hash) (\<lambda>old. bindE (assertE (old = None)) (\<lambda>_.
     rehash ch cs (new_slot[hash := c])))))"

partial_function (option) register_loop ::
    "(ptr \<Rightarrow> u32 option) \<Rightarrow> ptr \<Rightarrow> handle_storage \<Rightarrow> (handle_storage \<times> u32) res option" where
  "register_loop ch ctx s =
     (case register_scan (slot s) (slot_size s) (handle_index s) of
        Some handle \<Rightarrow>
          Some (Inr (s\<lparr>slot := (slot s)[hash_of handle (slot_size s) := Some ctx],
            handle_index := handle + 1\<rparr>, handle OR harbor s))
      | None \<Rightarrow>
          if slot_size s * 2 - 1 \<le> unat HANDLE_MASK then
            case rehash ch (slot s) (replicate (slot_size s * 2) None) of
              Inl e \<Rightarrow> Some (Inl e)
            | Inr new_slot \<Rightarrow> register_loop ch ctx (s\<lparr>slot := new_slot\<rparr>)
          else Some (Inl Assert_Failed))"

definition skynet_handle_register ::
    "(ptr \<Rightarrow> u32 option) \<Rightarrow> ptr \<Rightarrow> handle_storage \<Rightarrow> (handle_storage \<times> u32) res" where
  "skynet_handle_register ch ctx s =
     (case register_loop ch ctx s of None \<Rightarrow> Inl Diverges | Some r \<Rightarrow> r)"

text \<open>
  \<^verbatim>\<open>skynet_handle_retire\<close> up to the release of the lock: the table without the handle and its
  names, and the context to be released, if the handle was live. \<open>retire_names\<close> is the loop that
  drops the handle's names and closes the gaps, at \<open>i\<close> and \<open>j\<close> with \<open>k\<close> iterations left.
\<close>

fun retire_names :: "u32 \<Rightarrow> nat \<Rightarrow> nat \<Rightarrow> nat \<Rightarrow> handle_name list \<Rightarrow> (handle_name list \<times> nat) res" where
  "retire_names handle 0 i j ns = Inr (ns, j)"
| "retire_names handle (Suc k) i j ns =
     bindE (nthE ns i) (\<lambda>n.
     if hn_handle n = handle then retire_names handle k (Suc i) j ns
     else if i \<noteq> j then bindE (updE ns j n) (\<lambda>ns'. retire_names handle k (Suc i) (Suc j) ns')
     else retire_names handle k (Suc i) (Suc j) ns)"

definition handle_retire ::
    "(ptr \<Rightarrow> u32 option) \<Rightarrow> u32 \<Rightarrow> handle_storage \<Rightarrow> (handle_storage \<times> ptr option) res" where
  "handle_retire ch handle s =
     (let hash = hash_of handle (slot_size s) in
      bindE (nthE (slot s) hash) (\<lambda>ctx.
      case ctx of
        None \<Rightarrow> Inr (s, None)
      | Some p \<Rightarrow> bindE (derefE (ch p)) (\<lambda>h.
          if h = handle then
            bindE (retire_names handle (name_count s) 0 0 (name s)) (\<lambda>(ns, j).
            Inr (s\<lparr>slot := (slot s)[hash := None], name := ns, name_count := j\<rparr>, Some p))
          else Inr (s, None))))"

text \<open>\<^verbatim>\<open>skynet_handle_grab\<close>, without the increment of the reference count.\<close>

definition handle_grab :: "(ptr \<Rightarrow> u32 option) \<Rightarrow> u32 \<Rightarrow> handle_storage \<Rightarrow> ptr option res" where
  "handle_grab ch handle s =
     bindE (nthE (slot s) (hash_of handle (slot_size s))) (\<lambda>ctx.
     case ctx of
       None \<Rightarrow> Inr None
     | Some p \<Rightarrow> bindE (derefE (ch p)) (\<lambda>h. Inr (if h = handle then Some p else None)))"

text \<open>\<^verbatim>\<open>strcmp\<close>: bytes compare as unsigned numbers.\<close>

fun strcmp :: "string \<Rightarrow> string \<Rightarrow> int" where
  "strcmp [] [] = 0"
| "strcmp [] (y # ys) = -1"
| "strcmp (x # xs) [] = 1"
| "strcmp (x # xs) (y # ys) =
     (if x = y then strcmp xs ys else if (of_char x :: nat) < of_char y then -1 else 1)"

text \<open>
  The bisection that \<^verbatim>\<open>skynet_handle_findname\<close> and \<^verbatim>\<open>_insert_name\<close> share: the entry with the name,
  or else the value of \<^verbatim>\<open>begin\<close> when the loop ends.
\<close>

function name_search :: "handle_name list \<Rightarrow> string \<Rightarrow> int \<Rightarrow> int \<Rightarrow> (int + handle_name) res" where
  "name_search ns nm b e =
     (if b \<le> e then
        let mid = (b + e) div 2 in
        bindE (nthE ns (nat mid)) (\<lambda>n.
        let c = strcmp (hn_name n) nm in
        if c = 0 then Inr (Inr n)
        else if c < 0 then name_search ns nm (mid + 1) e
        else name_search ns nm b (mid - 1))
      else Inr (Inl b))"
  by pat_completeness auto
termination
  by (relation "measure (\<lambda>(ns, nm, b, e). nat (e - b + 1))") auto

declare name_search.simps [simp del]

definition skynet_handle_findname :: "string \<Rightarrow> handle_storage \<Rightarrow> u32 res" where
  "skynet_handle_findname nm s =
     bindE (name_search (name s) nm 0 (int (name_count s) - 1)) (\<lambda>r.
     Inr (case r of Inl _ \<Rightarrow> 0 | Inr n \<Rightarrow> hn_handle n))"

text \<open>
  The loop that makes room at \<open>before\<close>, from index \<open>i\<close> down; and the two copy loops into a
  doubled array: the cells before \<open>before\<close> keep their index, the others move up by one.
\<close>

fun shift_names :: "nat \<Rightarrow> nat \<Rightarrow> handle_name list \<Rightarrow> handle_name list res" where
  "shift_names before 0 ns = Inr ns"
| "shift_names before (Suc i) ns =
     (if Suc i > before then
        bindE (nthE ns i) (\<lambda>x. bindE (updE ns (Suc i) x) (\<lambda>ns'. shift_names before i ns'))
      else Inr ns)"

definition copy_names :: "nat \<Rightarrow> handle_name list \<Rightarrow> nat \<Rightarrow> nat \<Rightarrow> handle_name list" where
  "copy_names before ns cnt cap =
     take before ns @ [blank_name] @ drop before (take cnt ns) @ replicate (cap - Suc cnt) blank_name"

definition insert_name_before :: "handle_storage \<Rightarrow> string \<Rightarrow> u32 \<Rightarrow> nat \<Rightarrow> handle_storage res" where
  "insert_name_before s nm handle before =
     bindE (if name_count s \<ge> name_cap s then
              bindE (assertE (name_cap s * 2 \<le> MAX_SLOT_SIZE)) (\<lambda>_.
              Inr (copy_names before (name s) (name_count s) (name_cap s * 2)))
            else shift_names before (name_count s) (name s)) (\<lambda>ns.
     bindE (updE ns before \<lparr>hn_name = nm, hn_handle = handle\<rparr>) (\<lambda>ns'.
     Inr (s\<lparr>name := ns', name_count := Suc (name_count s)\<rparr>)))"

definition insert_name :: "handle_storage \<Rightarrow> string \<Rightarrow> u32 \<Rightarrow> (handle_storage \<times> string option) res" where
  "insert_name s nm handle =
     bindE (name_search (name s) nm 0 (int (name_count s) - 1)) (\<lambda>r.
     case r of
       Inr n \<Rightarrow> Inr (s, None)
     | Inl b \<Rightarrow> bindE (insert_name_before s nm handle (nat b)) (\<lambda>s'. Inr (s', Some nm)))"

definition skynet_handle_namehandle :: "u32 \<Rightarrow> string \<Rightarrow> handle_storage \<Rightarrow> (handle_storage \<times> string option) res" where
  "skynet_handle_namehandle handle nm s = insert_name s nm handle"

section \<open>Invariant\<close>

text \<open>The slots: a power of two of them, and every context in the slot of its handle.\<close>

definition slots_ok :: "(ptr \<Rightarrow> u32 option) \<Rightarrow> u32 \<Rightarrow> ptr option list \<Rightarrow> bool" where
  "slots_ok ch hb sl \<longleftrightarrow> (\<exists>k. 2 \<le> k \<and> k \<le> 24 \<and> length sl = 2 ^ k)
     \<and> (\<forall>i < length sl. \<forall>p. sl ! i = Some p \<longrightarrow> (\<exists>h. ch p = Some h \<and> hash_of h (length sl) = i
          \<and> h AND HANDLE_MASK \<noteq> 0 \<and> h AND NOT HANDLE_MASK = hb))"

definition names_ok :: "handle_storage \<Rightarrow> bool" where
  "names_ok s \<longleftrightarrow> 0 < name_cap s \<and> name_count s \<le> name_cap s
     \<and> sorted_wrt (<) (map hn_name (take (name_count s) (name s)))"

definition handles_ok :: "(ptr \<Rightarrow> u32 option) \<Rightarrow> handle_storage \<Rightarrow> bool" where
  "handles_ok ch s \<longleftrightarrow> slots_ok ch (harbor s) (slot s) \<and> names_ok s
     \<and> 1 \<le> unat (handle_index s) \<and> unat (handle_index s) \<le> 2 ^ 24 \<and> harbor s AND HANDLE_MASK = 0"

text \<open>What the table stands for: the live handles with their contexts, and the named handles.\<close>

definition live :: "(ptr \<Rightarrow> u32 option) \<Rightarrow> handle_storage \<Rightarrow> u32 \<Rightarrow> ptr option" where
  "live ch s h = (case slot s ! hash_of h (slot_size s) of
     None \<Rightarrow> None | Some p \<Rightarrow> if ch p = Some h then Some p else None)"

definition named :: "handle_storage \<Rightarrow> string \<Rightarrow> u32 option" where
  "named s = map_of (map (\<lambda>n. (hn_name n, hn_handle n)) (take (name_count s) (name s)))"

section \<open>Hashing\<close>

lemma hash_of_mod: "k < 32 \<Longrightarrow> hash_of h (2 ^ k) = unat h mod 2 ^ k"
  by (simp add: hash_of_def unat_and_mask flip: mask_eq_exp_minus_1)

lemma HANDLE_MASK_mask: "HANDLE_MASK = mask 24"
  by (simp add: HANDLE_MASK_def mask_eq_exp_minus_1)

lemma slots_ok_len:
  assumes "slots_ok ch hb sl"
  obtains k where "2 \<le> k" "k \<le> 24" "length sl = 2 ^ k"
  using assms by (auto simp: slots_ok_def)

lemma hash_of_less: "slots_ok ch hb sl \<Longrightarrow> hash_of h (length sl) < length sl"
  by (elim slots_ok_len) (simp add: hash_of_mod)

lemma hash_of_slots:
  assumes "slots_ok ch hb sl"
  shows "hash_of h (length sl) = unat h mod length sl"
  using assms by (elim slots_ok_len) (simp add: hash_of_mod)

lemma slots_okD:
  assumes "slots_ok ch hb sl" "i < length sl" "sl ! i = Some p"
  obtains h where "ch p = Some h" "hash_of h (length sl) = i" "h AND HANDLE_MASK \<noteq> 0"
    "h AND NOT HANDLE_MASK = hb"
  using assms by (auto simp: slots_ok_def)

lemma unat_OR_harbor:
  assumes "hb AND HANDLE_MASK = 0" "unat h < 2 ^ 24"
  shows "unat (h OR hb) mod 2 ^ 24 = unat h" "(h OR hb) AND HANDLE_MASK = h" "(h OR hb) AND NOT HANDLE_MASK = hb"
proof -
  have h: "h AND mask 24 = h"
    using assms(2) by (metis mod_less unat_and_mask word_unat_eq_iff)
  then have "(h OR hb) AND mask 24 = h"
    using assms(1) by (simp add: HANDLE_MASK_mask bit.conj_disj_distrib2)
  then show "(h OR hb) AND HANDLE_MASK = h" "unat (h OR hb) mod 2 ^ 24 = unat h"
    unfolding HANDLE_MASK_mask by (simp, metis unat_and_mask)
  have "h AND NOT (mask 24) = (h AND mask 24) AND NOT (mask 24)" using h by simp
  also have "\<dots> = 0" by (simp add: and.assoc)
  finally have "h AND NOT (mask 24) = 0" .
  moreover have "hb AND (mask 24 OR NOT (mask 24)) = (hb AND mask 24) OR (hb AND NOT (mask 24))"
    by (rule bit.conj_disj_distrib)
  then have "hb AND NOT (mask 24) = hb" using assms(1) by (simp add: HANDLE_MASK_mask)
  ultimately show "(h OR hb) AND NOT HANDLE_MASK = hb"
    by (simp add: HANDLE_MASK_mask bit.conj_disj_distrib2)
qed

lemma handle_grab_live:
  assumes "slots_ok ch (harbor s) (slot s)"
  shows "handle_grab ch h s = Inr (live ch s h)"
proof (cases "slot s ! hash_of h (length (slot s))")
  case None
  then show ?thesis using hash_of_less [OF assms, of h]
    by (simp add: handle_grab_def live_def slot_size_def)
next
  case (Some p)
  from slots_okD [OF assms hash_of_less [OF assms] Some] obtain h' where "ch p = Some h'" by metis
  with Some show ?thesis using hash_of_less [OF assms, of h]
    by (simp add: handle_grab_def live_def slot_size_def)
qed

section \<open>Registration\<close>

lemma unat_inc:
  assumes "unat (h :: u32) \<le> 2 ^ 24"
  shows "unat (h + 1) = Suc (unat h)"
  using assms unat_add_lem [of h 1] by simp

lemma handle_wrap:
  assumes "1 \<le> unat h" "unat h \<le> 2 ^ 24"
  shows "1 \<le> unat (if h > HANDLE_MASK then 1 else h)" "unat (if h > HANDLE_MASK then 1 else h) < 2 ^ 24"
  using assms by (auto simp: HANDLE_MASK_def word_less_nat_alt)

lemma register_scan_sound:
  assumes "register_scan sl k h = Some x" "1 \<le> unat h" "unat h \<le> 2 ^ 24"
  shows "1 \<le> unat x \<and> unat x < 2 ^ 24 \<and> sl ! hash_of x (length sl) = None"
  using assms
proof (induction k arbitrary: h)
  case (Suc k)
  let ?h = "if h > HANDLE_MASK then 1 else h"
  note h = handle_wrap [OF Suc.prems(2,3)]
  have inc: "1 \<le> unat (?h + 1)" "unat (?h + 1) \<le> 2 ^ 24" using h unat_inc [of ?h] by simp_all
  show ?case
  proof (cases "sl ! hash_of ?h (length sl) = None")
    case True
    then show ?thesis using Suc.prems(1) h unfolding register_scan.simps Let_def by simp
  next
    case False
    then have "register_scan sl k (?h + 1) = Some x"
      using Suc.prems(1) unfolding register_scan.simps Let_def by (simp only: if_False)
    then show ?thesis using Suc.IH inc by blast
  qed
qed simp

lemma scan_small:
  assumes "unat h < 2 ^ 24"
  shows "register_scan sl (Suc k) h =
    (if sl ! hash_of h (length sl) = None then Some h else register_scan sl k (h + 1))"
proof -
  have "\<not> h > HANDLE_MASK" using assms by (simp add: HANDLE_MASK_def word_less_nat_alt)
  then show ?thesis by (simp add: Let_def)
qed

lemma scan_nowrap:
  assumes "length sl = 2 ^ m" "m \<le> 24" "unat h + t < 2 ^ 24" "t < k" "sl ! ((unat h + t) mod 2 ^ m) = None"
  shows "register_scan sl k h \<noteq> None"
  using assms(3-5)
proof (induction t arbitrary: h k)
  case 0
  then obtain k' where "k = Suc k'" by (metis lessE)
  with 0 assms(1,2) show ?case by (simp add: scan_small hash_of_mod del: register_scan.simps)
next
  case (Suc t)
  then obtain k' where k: "k = Suc k'" by (metis lessE)
  have "unat (h + 1) = Suc (unat h)" using Suc.prems by (intro unat_inc) simp
  with Suc.IH [of "h + 1" k'] Suc.prems have "register_scan sl k' (h + 1) \<noteq> None" by (simp add: k)
  with Suc.prems show ?case by (simp add: k scan_small del: register_scan.simps)
qed

lemma scan_wrap:
  assumes "unat h + w = 2 ^ 24" "register_scan sl k 1 \<noteq> None" "0 < k"
  shows "register_scan sl (w + k) h \<noteq> None"
  using assms(1)
proof (induction w arbitrary: h)
  case 0
  then have "h > HANDLE_MASK" by (simp add: HANDLE_MASK_def word_less_nat_alt)
  moreover have "\<not> 1 > HANDLE_MASK" by (simp add: HANDLE_MASK_def)
  moreover obtain k' where "k = Suc k'" using assms(3) by (metis gr0_implies_Suc)
  ultimately show ?case using assms(2) by (simp add: Let_def)
next
  case (Suc w)
  have "unat (h + 1) = Suc (unat h)" using Suc.prems by (intro unat_inc) simp
  with Suc.IH [of "h + 1"] Suc.prems have "register_scan sl (w + k) (h + 1) \<noteq> None" by simp
  with Suc.prems show ?case by (simp add: scan_small del: register_scan.simps)
qed

text \<open>The first handle at or after \<open>h\<close> that hashes to \<open>j\<close> is less than \<open>n\<close> ahead.\<close>

lemma mod_reach:
  assumes "j < (n::nat)"
  obtains t where "t < n" "(h + t) mod n = j"
proof (cases "h mod n \<le> j")
  case True
  then have "(h + (j - h mod n)) mod n = (h mod n + (j - h mod n)) mod n" by (metis mod_add_left_eq)
  with True assms show thesis by (intro that [of "j - h mod n"]) simp_all
next
  case False
  moreover have "h mod n < n" using assms by simp
  ultimately have "(h + (j + n - h mod n)) mod n = (h mod n + (j + n - h mod n)) mod n"
    by (metis mod_add_left_eq)
  also have "\<dots> = (j + n) mod n" using \<open>h mod n < n\<close> by simp
  finally show thesis using False assms by (intro that [of "j + n - h mod n"]) simp_all
qed

lemma scan_complete:
  assumes ok: "slots_ok ch hb sl" and h: "unat h \<le> 2 ^ 24"
    and j: "j < length sl" "sl ! j = None" "j \<noteq> 0 \<or> unat h + length sl \<le> 2 ^ 24"
  shows "register_scan sl (length sl) h \<noteq> None"
proof -
  obtain m where m: "m \<le> 24" "length sl = 2 ^ m" using slots_ok_len [OF ok] .
  let ?n = "2 ^ m :: nat"
  obtain t where t: "t < ?n" "(unat h + t) mod ?n = j" using mod_reach j(1) m(2) by metis
  show ?thesis
  proof (cases "unat h + t < 2 ^ 24")
    case True
    then show ?thesis using scan_nowrap [OF m(2,1) True, of ?n] t j(2) by (simp add: m(2))
  next
    case False
    define w where "w = 2 ^ 24 - unat h"
    have hw: "unat h + w = 2 ^ 24" using h by (simp add: w_def)
    have "?n dvd 2 ^ 24" by (rule le_imp_power_dvd [OF m(1)])
    then obtain q where q: "2 ^ 24 = ?n * q" ..
    have "unat h + t = 2 ^ 24 + (t - w)" using False hw by linarith
    then have "(t - w) mod ?n = j" using t(2) unfolding q by simp
    then have tw: "t = w + j" using False hw t(1) by (simp add: less_imp_diff_less)
    have "j \<noteq> 0" using j(3) False t(1) m(2) by auto
    have "register_scan sl (?n - w) 1 \<noteq> None"
      using scan_nowrap [OF m(2,1), of 1 "j - 1" "?n - w"] tw t(1) \<open>j \<noteq> 0\<close> j(1,2) m
        power_increasing [of m 24 "2::nat"]
      by simp
    from scan_wrap [OF hw this] tw t(1) show ?thesis by (simp add: m(2))
  qed
qed

lemma live_iff:
  assumes ok: "slots_ok ch (harbor s) (slot s)"
  shows "live ch s h = Some p \<longleftrightarrow> ch p = Some h \<and> Some p \<in> set (slot s)"
proof
  assume "live ch s h = Some p"
  then show "ch p = Some h \<and> Some p \<in> set (slot s)"
    using hash_of_less [OF ok, of h] by (auto simp: live_def slot_size_def in_set_conv_nth split: option.splits if_splits)
next
  assume *: "ch p = Some h \<and> Some p \<in> set (slot s)"
  then obtain i where i: "i < length (slot s)" "slot s ! i = Some p" by (auto simp: in_set_conv_nth)
  from slots_okD [OF ok this] * have "hash_of h (length (slot s)) = i" by auto
  with i * show "live ch s h = Some p" by (simp add: live_def slot_size_def)
qed

lemma rehash_ok:
  assumes "\<forall>c \<in> set cs. \<exists>p h. c = Some p \<and> ch p = Some h \<and> hash_of h (length new) < length new
      \<and> new ! hash_of h (length new) = None"
    and "distinct (map (\<lambda>c. hash_of (the (ch (the c))) (length new)) cs)"
  shows "\<exists>new'. rehash ch cs new = Inr new' \<and> length new' = length new \<and>
    (\<forall>i < length new. \<forall>p. new' ! i = Some p \<longleftrightarrow>
      new ! i = Some p \<or> (Some p \<in> set cs \<and> (\<exists>h. ch p = Some h \<and> hash_of h (length new) = i)))"
  using assms
proof (induction cs arbitrary: new)
  case Nil
  then show ?case by simp
next
  case (Cons c cs)
  from Cons.prems(1) obtain p h where
    c: "c = Some p" "ch p = Some h" "hash_of h (length new) < length new" "new ! hash_of h (length new) = None"
    by auto
  let ?i = "hash_of h (length new)" and ?new = "new[hash_of h (length new) := Some p]"
  have dist: "hash_of h' (length new) \<noteq> ?i" if "Some q \<in> set cs" "ch q = Some h'" for q h'
    using Cons.prems(2) that c by (force simp: image_iff)
  have "\<forall>c \<in> set cs. \<exists>p h. c = Some p \<and> ch p = Some h \<and> hash_of h (length ?new) < length ?new
      \<and> ?new ! hash_of h (length ?new) = None"
  proof
    fix d assume d: "d \<in> set cs"
    with Cons.prems(1) obtain q h' where q: "d = Some q" "ch q = Some h'"
      "hash_of h' (length new) < length new" "new ! hash_of h' (length new) = None" by auto
    with dist [of q h'] d show "\<exists>p h. d = Some p \<and> ch p = Some h \<and> hash_of h (length ?new) < length ?new
      \<and> ?new ! hash_of h (length ?new) = None" by auto
  qed
  from Cons.IH [OF this] Cons.prems(2) obtain new' where
    new': "rehash ch cs ?new = Inr new'" "length new' = length new"
      "\<And>i p. i < length new \<Longrightarrow> new' ! i = Some p \<longleftrightarrow>
        ?new ! i = Some p \<or> (Some p \<in> set cs \<and> (\<exists>h. ch p = Some h \<and> hash_of h (length new) = i))"
    by auto
  have "new' ! i = Some q \<longleftrightarrow> new ! i = Some q \<or>
      (Some q \<in> set (c # cs) \<and> (\<exists>h. ch q = Some h \<and> hash_of h (length new) = i))" if "i < length new" for i q
    using new'(3) [OF that, of q] c that by (cases "i = ?i") auto
  then show ?case using new'(1,2) c by (auto simp: Let_def)
qed

lemma rehash_slots:
  assumes ok: "slots_ok ch hb sl" and full: "None \<notin> set sl" and room: "2 * length sl \<le> 2 ^ 24"
  obtains new where "rehash ch sl (replicate (length sl * 2) None) = Inr new" "slots_ok ch hb new"
    "length new = 2 * length sl" "\<And>p. Some p \<in> set new \<longleftrightarrow> Some p \<in> set sl"
    "\<exists>j. 0 < j \<and> j < length new \<and> new ! j = None"
proof -
  obtain k where k: "2 \<le> k" "k \<le> 24" "length sl = 2 ^ k" using slots_ok_len [OF ok] .
  have k': "Suc k \<le> 24" using room k(3) power_increasing_iff [of "2::nat" "Suc k" 24] by simp
  let ?n = "length sl * 2"
  have n: "?n = 2 ^ Suc k" using k(3) by simp
  have h2: "hash_of h ?n = unat h mod 2 ^ Suc k" for h
    unfolding n using k' by (intro hash_of_mod) simp
  have less: "hash_of h ?n < ?n" for h
    by (metis h2 n mod_less_divisor zero_less_power zero_less_numeral)
  have fold: "hash_of h (length sl) = hash_of h ?n mod length sl" for h
    using h2 [of h] hash_of_mod [of k h] k(2,3) by (simp add: mod_mod_cancel)
  have some: "\<exists>p h. sl ! i = Some p \<and> ch p = Some h \<and> hash_of h (length sl) = i
      \<and> h AND HANDLE_MASK \<noteq> 0 \<and> h AND NOT HANDLE_MASK = hb" if "i < length sl" for i
    using that full slots_okD [OF ok that] by (metis nth_mem option.exhaust)
  have "map (\<lambda>c. hash_of (the (ch (the c))) (length sl)) sl = [0..<length sl]"
    by (rule nth_equalityI) (use some in force)+
  then have "distinct (map ((\<lambda>m. m mod length sl) \<circ> (\<lambda>c. hash_of (the (ch (the c))) ?n)) sl)"
    by (simp add: fold o_def)
  then have dist: "distinct (map (\<lambda>c. hash_of (the (ch (the c))) ?n) sl)"
    unfolding distinct_map using inj_on_imageI2 by blast
  have "\<forall>c \<in> set sl. \<exists>p h. c = Some p \<and> ch p = Some h"
    using some by (metis in_set_conv_nth)
  then have "\<forall>c \<in> set sl. \<exists>p h. c = Some p \<and> ch p = Some h \<and> hash_of h (length (replicate ?n None)) < length (replicate ?n None)
      \<and> replicate ?n (None :: ptr option) ! hash_of h (length (replicate ?n None)) = None"
    using less by (simp add: mult.commute)
  from rehash_ok [OF this] dist obtain new where
    new: "rehash ch sl (replicate ?n None) = Inr new" "length new = ?n"
      "\<And>i p. i < ?n \<Longrightarrow> new ! i = Some p \<longleftrightarrow> Some p \<in> set sl \<and> (\<exists>h. ch p = Some h \<and> hash_of h ?n = i)"
    by auto
  have in_sl: "\<exists>h. ch p = Some h \<and> sl ! hash_of h (length sl) = Some p
      \<and> h AND HANDLE_MASK \<noteq> 0 \<and> h AND NOT HANDLE_MASK = hb" if "Some p \<in> set sl" for p
  proof -
    from that obtain i where i: "i < length sl" "sl ! i = Some p" by (auto simp: in_set_conv_nth)
    with some [OF i(1)] show ?thesis by auto
  qed
  have "slots_ok ch hb new"
    unfolding slots_ok_def
  proof (intro conjI allI impI)
    show "\<exists>k. 2 \<le> k \<and> k \<le> 24 \<and> length new = 2 ^ k" using k(1) k' n new(2) by (intro exI [of _ "Suc k"]) simp
    fix i p assume i: "i < length new" "new ! i = Some p"
    with new(2,3) obtain h where "Some p \<in> set sl" "ch p = Some h" "hash_of h ?n = i" by auto
    with in_sl [of p] show "\<exists>h. ch p = Some h \<and> hash_of h (length new) = i
        \<and> h AND HANDLE_MASK \<noteq> 0 \<and> h AND NOT HANDLE_MASK = hb" by (auto simp: new(2))
  qed
  moreover have "Some p \<in> set new \<longleftrightarrow> Some p \<in> set sl" for p
  proof
    assume "Some p \<in> set new"
    then show "Some p \<in> set sl" using new(2,3) by (auto simp: in_set_conv_nth [of _ new])
  next
    assume p: "Some p \<in> set sl"
    with in_sl obtain h where "ch p = Some h" by blast
    with p new(3) [of "hash_of h ?n" p] less have "new ! hash_of h ?n = Some p" by blast
    then show "Some p \<in> set new" using less [of h] new(2) by (metis nth_mem)
  qed
  moreover have "\<exists>j. 0 < j \<and> j < length new \<and> new ! j = None"
  proof (rule ccontr)
    assume none: "\<not> (\<exists>j. 0 < j \<and> j < length new \<and> new ! j = None)"
    have four: "4 \<le> length sl" unfolding k(3) using power_increasing [OF k(1), of "2::nat"] by simp
    then have lt: "1 < ?n" "1 + length sl < ?n" by linarith+
    from none lt new(2) have "new ! 1 \<noteq> None" "new ! (1 + length sl) \<noteq> None"
      by (metis zero_less_one, metis add_gr_0 zero_less_one)
    then obtain p q where pq: "new ! 1 = Some p" "new ! (1 + length sl) = Some q" by blast
    from new(3) [OF lt(1)] new(3) [OF lt(2)] pq obtain h h' where
      hh: "Some p \<in> set sl" "ch p = Some h" "hash_of h ?n = 1"
        "Some q \<in> set sl" "ch q = Some h'" "hash_of h' ?n = 1 + length sl" by blast
    then have "hash_of h (length sl) = 1" "hash_of h' (length sl) = 1"
      using four by (simp_all add: fold mod_Suc)
    with in_sl [OF hh(1)] in_sl [OF hh(4)] hh(2,5) have "p = q" by simp
    with hh four show False by simp
  qed
  moreover have "length new = 2 * length sl" using new(2) by simp
  ultimately show thesis using that [OF new(1)] by blast
qed

lemma set_fill_slot:
  assumes "i < length xs" "xs ! i = None"
  shows "Some q \<in> set (xs[i := Some p]) \<longleftrightarrow> q = p \<or> Some q \<in> set xs"
proof
  assume "Some q \<in> set (xs[i := Some p])"
  then show "q = p \<or> Some q \<in> set xs" using set_update_subset_insert by fastforce
next
  assume q: "q = p \<or> Some q \<in> set xs"
  have "Some q \<in> set (xs[i := Some p])" if "Some q \<in> set xs"
  proof -
    from that obtain j where j: "j < length xs" "xs ! j = Some q" by (auto simp: in_set_conv_nth)
    with assms have "xs[i := Some p] ! j = Some q" by (cases "i = j") simp_all
    with j show ?thesis by (metis length_list_update nth_mem)
  qed
  with q assms set_update_memI show "Some q \<in> set (xs[i := Some p])" by fast
qed

lemma register_found:
  assumes ok: "handles_ok ch s" and p: "Some p \<notin> set (slot s)"
    and x: "1 \<le> unat x" "unat x < 2 ^ 24" "slot s ! hash_of x (slot_size s) = None"
    and s': "s' = s\<lparr>slot := (slot s)[hash_of x (slot_size s) := Some p], handle_index := x + 1\<rparr>"
  shows "handles_ok (ch(p \<mapsto> x OR harbor s)) s'"
    "live ch s (x OR harbor s) = None"
    "live (ch(p \<mapsto> x OR harbor s)) s' = (live ch s)(x OR harbor s \<mapsto> p)"
proof -
  let ?h = "x OR harbor s" and ?i = "hash_of x (slot_size s)"
  let ?ch = "ch(p \<mapsto> ?h)"
  have slots: "slots_ok ch (harbor s) (slot s)" and hb: "harbor s AND HANDLE_MASK = 0"
    using ok by (simp_all add: handles_ok_def)
  obtain k where k: "2 \<le> k" "k \<le> 24" "length (slot s) = 2 ^ k" using slots_ok_len [OF slots] .
  note h = unat_OR_harbor [OF hb x(2)]
  have i: "hash_of ?h (slot_size s) = ?i"
  proof -
    have "unat ?h mod 2 ^ k = unat ?h mod 2 ^ 24 mod 2 ^ k"
      using k(2) by (simp only: mod_mod_cancel le_imp_power_dvd)
    then show ?thesis using k h(1) by (simp add: slot_size_def hash_of_mod)
  qed
  have lt: "?i < length (slot s)" using hash_of_less [OF slots] by (simp add: slot_size_def)
  have "x \<noteq> 0" using x(1) by auto
  have slots': "slots_ok ?ch (harbor s) ((slot s)[?i := Some p])"
    unfolding slots_ok_def
  proof (intro conjI allI impI)
    show "\<exists>k. 2 \<le> k \<and> k \<le> 24 \<and> length ((slot s)[?i := Some p]) = 2 ^ k" using k by auto
    fix j q assume j: "j < length ((slot s)[?i := Some p])" "(slot s)[?i := Some p] ! j = Some q"
    show "\<exists>h. ?ch q = Some h \<and> hash_of h (length ((slot s)[?i := Some p])) = j
        \<and> h AND HANDLE_MASK \<noteq> 0 \<and> h AND NOT HANDLE_MASK = harbor s"
    proof (cases "j = ?i")
      case True
      then show ?thesis using j h i lt \<open>x \<noteq> 0\<close> by (simp add: slot_size_def)
    next
      case False
      then have q: "slot s ! j = Some q" "j < length (slot s)" using j by simp_all
      then have "q \<noteq> p" using p by (metis nth_mem)
      with slots_okD [OF slots q(2,1)] show ?thesis by auto
    qed
  qed
  with ok x(2) s' show "handles_ok ?ch s'"
    using unat_inc [of x] by (simp add: handles_ok_def names_ok_def name_cap_def)
  show none: "live ch s ?h = None" using x(3) by (simp add: live_def i)
  have set: "Some q \<in> set ((slot s)[?i := Some p]) \<longleftrightarrow> q = p \<or> Some q \<in> set (slot s)" for q
    using set_fill_slot [OF lt] x(3) by (simp add: slot_size_def)
  have "live ?ch s' h' = Some q \<longleftrightarrow> ((live ch s)(?h \<mapsto> p)) h' = Some q" for h' q
    using live_iff [of ?ch s' h' q] live_iff [OF slots, of h' q] slots' set [of q] p none
      live_iff [OF slots, of ?h q] by (auto simp: s')
  then show "live ?ch s' = (live ch s)(?h \<mapsto> p)" by (rule map_eqI)
qed

definition can_register :: "handle_storage \<Rightarrow> bool" where
  "can_register s \<longleftrightarrow>
     (\<exists>j \<in> {..<slot_size s}. slot s ! j = None \<and> (j \<noteq> 0 \<or> unat (handle_index s) + slot_size s \<le> 2 ^ 24))
     \<or> (None \<notin> set (slot s) \<and> 2 * slot_size s \<le> 2 ^ 24)"

lemma register_free_slot:
  assumes ok: "handles_ok ch s"
    and j: "j < slot_size s" "slot s ! j = None" "j \<noteq> 0 \<or> unat (handle_index s) + slot_size s \<le> 2 ^ 24"
  obtains x where "register_scan (slot s) (slot_size s) (handle_index s) = Some x"
    "1 \<le> unat x" "unat x < 2 ^ 24" "slot s ! hash_of x (slot_size s) = None"
proof -
  have "slots_ok ch (harbor s) (slot s)" and idx: "1 \<le> unat (handle_index s)" "unat (handle_index s) \<le> 2 ^ 24"
    using ok by (simp_all add: handles_ok_def)
  from scan_complete [OF this(1,3), of j] j obtain x where
    x: "register_scan (slot s) (slot_size s) (handle_index s) = Some x" by (auto simp: slot_size_def)
  with register_scan_sound [OF x idx] that show thesis by (simp add: slot_size_def)
qed

lemma register_scan_full:
  assumes "None \<notin> set sl" "slots_ok ch hb sl"
  shows "register_scan sl k h = None"
proof (induction k arbitrary: h)
  case (Suc k)
  have "sl ! hash_of x (length sl) \<noteq> None" for x
    using assms hash_of_less by (metis nth_mem)
  with Suc show ?case by (simp add: Let_def del: split_paired_Ex)
qed simp

lemma register_into_free:
  assumes ok: "handles_ok ch s" and p: "Some p \<notin> set (slot s)"
    and j: "j < slot_size s" "slot s ! j = None" "j \<noteq> 0 \<or> unat (handle_index s) + slot_size s \<le> 2 ^ 24"
  shows "\<exists>s' h. register_loop ch p s = Some (Inr (s', h))
    \<and> h AND HANDLE_MASK \<noteq> 0 \<and> h AND NOT HANDLE_MASK = harbor s
    \<and> live ch s h = None \<and> live (ch(p \<mapsto> h)) s' = (live ch s)(h \<mapsto> p)
    \<and> named s' = named s \<and> handles_ok (ch(p \<mapsto> h)) s'"
proof -
  from register_free_slot [OF ok j] obtain x where
    x: "register_scan (slot s) (slot_size s) (handle_index s) = Some x"
      "1 \<le> unat x" "unat x < 2 ^ 24" "slot s ! hash_of x (slot_size s) = None" by blast
  have hb: "harbor s AND HANDLE_MASK = 0" using ok by (simp add: handles_ok_def)
  have "x \<noteq> 0" using x(2) by auto
  then show ?thesis
    using register_found [OF ok p x(2-4) refl] unat_OR_harbor [OF hb x(3)]
    by (simp add: register_loop.simps [of ch p s] x(1) named_def)
qed

lemma register_into_full:
  assumes ok: "handles_ok ch s" and full: "None \<notin> set (slot s)" and room: "2 * slot_size s \<le> 2 ^ 24"
  obtains s1 j where "register_loop ch p s = register_loop ch p s1" "handles_ok ch s1"
    "\<And>q. Some q \<in> set (slot s1) \<longleftrightarrow> Some q \<in> set (slot s)" "live ch s1 = live ch s" "named s1 = named s"
    "harbor s1 = harbor s" "0 < j" "j < slot_size s1" "slot s1 ! j = None"
proof -
  have slots: "slots_ok ch (harbor s) (slot s)" using ok by (simp add: handles_ok_def)
  from rehash_slots [OF slots full] room obtain new j where
    new: "rehash ch (slot s) (replicate (length (slot s) * 2) None) = Inr new"
      "slots_ok ch (harbor s) new" "\<And>p. Some p \<in> set new \<longleftrightarrow> Some p \<in> set (slot s)"
      "0 < j" "j < length new" "new ! j = None" unfolding slot_size_def by metis
  let ?s = "s\<lparr>slot := new\<rparr>"
  have ok1: "handles_ok ch ?s" using ok new(2) by (simp add: handles_ok_def names_ok_def name_cap_def)
  have "live ch ?s h = Some q \<longleftrightarrow> live ch s h = Some q" for h q
    using live_iff [OF slots, of h q] live_iff [of ch ?s h q] new(2,3) by simp
  then have same: "live ch ?s = live ch s" by (rule map_eqI)
  have "slot_size s * 2 - 1 \<le> unat HANDLE_MASK" using room by (simp add: HANDLE_MASK_def)
  then have "register_loop ch p s = register_loop ch p ?s"
    using register_scan_full [OF full slots] new(1)
    by (simp add: register_loop.simps [of ch p s] slot_size_def)
  then show thesis
    using that [of ?s j] ok1 same new(3-6) by (simp add: named_def slot_size_def)
qed

lemma register_total:
  assumes ok: "handles_ok ch s" and p: "Some p \<notin> set (slot s)" and can: "can_register s"
  shows "\<exists>s' h. skynet_handle_register ch p s = Inr (s', h)
    \<and> h AND HANDLE_MASK \<noteq> 0 \<and> h AND NOT HANDLE_MASK = harbor s
    \<and> live ch s h = None \<and> live (ch(p \<mapsto> h)) s' = (live ch s)(h \<mapsto> p)
    \<and> named s' = named s \<and> handles_ok (ch(p \<mapsto> h)) s'"
proof (cases "None \<in> set (slot s)")
  case True
  then have "\<exists>j. j < slot_size s \<and> slot s ! j = None \<and> (j \<noteq> 0 \<or> unat (handle_index s) + slot_size s \<le> 2 ^ 24)"
    using can by (auto simp: can_register_def)
  with register_into_free [OF ok p] show ?thesis by (force simp: skynet_handle_register_def)
next
  case False
  then have "2 * slot_size s \<le> 2 ^ 24"
    using can by (auto simp: can_register_def slot_size_def in_set_conv_nth)
  then obtain s1 j where
    s1: "register_loop ch p s = register_loop ch p s1" "handles_ok ch s1"
      "\<And>q. Some q \<in> set (slot s1) \<longleftrightarrow> Some q \<in> set (slot s)" "live ch s1 = live ch s" "named s1 = named s"
      "harbor s1 = harbor s" "0 < j" "j < slot_size s1" "slot s1 ! j = None"
    using register_into_full [OF ok False, of p] by metis
  with register_into_free [OF s1(2), of p j] p show ?thesis by (force simp: skynet_handle_register_def)
qed

text \<open>registering a service (not already in the table) succeeds unless the only free slot is slot
  0 and the scan wraps, or the table is full at its maximal size. Then it returns a handle with
  this node's harbor and a non-zero low part that no live service had, the new context is found
  under it, every other handle finds what it found before, the names are unchanged, and the
  table keeps its invariant. The table is doubled on the way if it was full.\<close>

theorem register_fresh_handle:
  assumes ok: "handles_ok ch s" and p: "Some p \<notin> set (slot s)" and can: "can_register s"
  shows "\<exists>s' h. skynet_handle_register ch p s = Inr (s', h)
    \<and> h AND HANDLE_MASK \<noteq> 0 \<and> h AND NOT HANDLE_MASK = harbor s
    \<and> live ch s h = None \<and> live (ch(p \<mapsto> h)) s' = (live ch s)(h \<mapsto> p)
    \<and> named s' = named s \<and> handles_ok (ch(p \<mapsto> h)) s'"
  by (rule register_total [OF ok p can])

text \<open>A fresh node's table.\<close>

lemma init_handles_ok: "handles_ok ch (skynet_handle_init hb)"
proof -
  have "push_bit 24 (hb AND 0xff) AND mask 24 = (0 :: u32)"
    by (simp add: take_bit_push_bit flip: take_bit_eq_mask)
  moreover have "slots_ok ch h (replicate 4 None)" for h
    by (auto simp: slots_ok_def intro!: exI [of _ 2])
  ultimately show ?thesis
    by (simp add: handles_ok_def names_ok_def name_cap_def skynet_handle_init_def DEFAULT_SLOT_SIZE_def
      HANDLE_REMOTE_SHIFT_def HANDLE_MASK_mask)
qed

lemma init_live: "live ch (skynet_handle_init hb) h = None"
  using live_iff [of ch "skynet_handle_init hb" h] init_handles_ok [of ch hb]
  by (cases "live ch (skynet_handle_init hb) h")
    (auto simp: handles_ok_def skynet_handle_init_def)

theorem register_fresh_handle_witness:
  "\<exists>s' h. skynet_handle_register (\<lambda>_. None) 5 (skynet_handle_init 1) = Inr (s', h)
    \<and> h AND HANDLE_MASK \<noteq> 0 \<and> h AND NOT HANDLE_MASK = 0x1000000
    \<and> live [5 \<mapsto> h] s' = [h \<mapsto> 5]"
proof -
  let ?s = "skynet_handle_init 1"
  have "can_register ?s"
    by (auto simp: can_register_def skynet_handle_init_def slot_size_def DEFAULT_SLOT_SIZE_def intro!: exI [of _ 1])
  moreover have "Some 5 \<notin> set (slot ?s)" by (simp add: skynet_handle_init_def)
  moreover have "live (\<lambda>_. None) ?s = (\<lambda>_. None)" using init_live by blast
  moreover have "harbor ?s = 0x1000000" by (simp add: skynet_handle_init_def HANDLE_REMOTE_SHIFT_def)
  ultimately show ?thesis
    using register_fresh_handle [OF init_handles_ok, of 5 1 "\<lambda>_. None"] by auto
qed

section \<open>Retirement\<close>

definition names_of :: "handle_storage \<Rightarrow> handle_name list" where
  "names_of s = take (name_count s) (name s)"

lemma names_ok_iff: "names_ok s \<longleftrightarrow> 0 < name_cap s \<and> name_count s \<le> name_cap s
    \<and> sorted_wrt (\<lambda>a b. hn_name a < hn_name b) (names_of s)"
  by (simp add: names_ok_def names_of_def sorted_wrt_map)

lemma names_distinct: "names_ok s \<Longrightarrow> distinct (map hn_name (names_of s))"
  using strict_sorted_iff [of "map hn_name (names_of s)"] by (simp add: names_ok_def names_of_def)

lemma named_iff:
  assumes "names_ok s"
  shows "named s n = Some h \<longleftrightarrow> \<lparr>hn_name = n, hn_handle = h\<rparr> \<in> set (names_of s)"
proof -
  have "distinct (map fst (map (\<lambda>n. (hn_name n, hn_handle n)) (names_of s)))"
    using names_distinct [OF assms] by (simp add: o_def)
  then have "named s n = Some h \<longleftrightarrow> (n, h) \<in> set (map (\<lambda>n. (hn_name n, hn_handle n)) (names_of s))"
    unfolding named_def names_of_def [symmetric] by (rule map_of_eq_Some_iff)
  also have "\<dots> \<longleftrightarrow> \<lparr>hn_name = n, hn_handle = h\<rparr> \<in> set (names_of s)"
  proof -
    have "(n, h) = (hn_name x, hn_handle x) \<longleftrightarrow> x = \<lparr>hn_name = n, hn_handle = h\<rparr>" for x
      by (cases x) auto
    then show ?thesis by (simp add: image_iff)
  qed
  finally show ?thesis .
qed

lemma retire_names_ok:
  assumes "i + k \<le> length ns" "j \<le> i"
  shows "\<exists>ns' j'. retire_names handle k i j ns = Inr (ns', j') \<and> length ns' = length ns \<and> j' \<le> i + k
    \<and> take j' ns' = take j ns @ filter (\<lambda>n. hn_handle n \<noteq> handle) (take k (drop i ns))"
  using assms
proof (induction k arbitrary: i j ns)
  case 0
  then show ?case by simp
next
  case (Suc k)
  have i: "i < length ns" using Suc.prems by simp
  have next_take: "take (Suc k) (drop i ns) = ns ! i # take k (drop (Suc i) ns)"
    using i by (simp add: Cons_nth_drop_Suc [symmetric])
  show ?case
  proof (cases "hn_handle (ns ! i) = handle")
    case True
    with Suc.IH [of i "ns"] Suc.IH [of "Suc i" ns j] Suc.prems i show ?thesis by (fastforce simp: next_take)
  next
    case False
    let ?ns = "ns[j := ns ! i]"
    have rest: "take (Suc j) ?ns = take j ns @ [ns ! i]" "drop (Suc i) ?ns = drop (Suc i) ns"
      using Suc.prems i by (simp_all add: take_Suc_conv_app_nth)
    have step: "retire_names handle (Suc k) i j ns = retire_names handle k (Suc i) (Suc j) ?ns"
      using False i Suc.prems by (cases "i = j") simp_all
    from Suc.IH [of "Suc i" ?ns "Suc j"] Suc.prems obtain ns' j' where
      "retire_names handle k (Suc i) (Suc j) ?ns = Inr (ns', j')" "length ns' = length ns" "j' \<le> Suc i + k"
      "take j' ns' = take (Suc j) ?ns @ filter (\<lambda>n. hn_handle n \<noteq> handle) (take k (drop (Suc i) ?ns))"
      by auto
    then show ?thesis using False unfolding step rest next_take by auto
  qed
qed

lemma retire_names_of:
  assumes "names_ok s"
  obtains ns j where "retire_names handle (name_count s) 0 0 (name s) = Inr (ns, j)"
    "take j ns = filter (\<lambda>n. hn_handle n \<noteq> handle) (names_of s)" "length ns = name_cap s" "j \<le> name_cap s"
proof -
  have "0 + name_count s \<le> length (name s)" using assms by (simp add: names_ok_def name_cap_def)
  from retire_names_ok [OF this, of 0 handle] that show thesis
    using assms by (force simp: names_of_def names_ok_def name_cap_def)
qed

text \<open>The names left when the handle \<open>h\<close> is gone.\<close>

definition drop_names :: "u32 \<Rightarrow> (string \<Rightarrow> u32 option) \<Rightarrow> string \<Rightarrow> u32 option" where
  "drop_names h m n = (if m n = Some h then None else m n)"

lemma slots_ok_clear: "slots_ok ch hb sl \<Longrightarrow> slots_ok ch hb (sl[i := None])"
  unfolding slots_ok_def length_list_update by (metis nth_list_update nth_list_update_neq option.distinct(1))

lemma handle_retire_total:
  assumes ok: "handles_ok ch s"
  shows "\<exists>s'. handle_retire ch h s = Inr (s', live ch s h) \<and> handles_ok ch s' \<and> harbor s' = harbor s
    \<and> live ch s' = (live ch s)(h := None)
    \<and> named s' = (if live ch s h = None then named s else drop_names h (named s))"
proof (cases "live ch s h")
  case None
  have slots: "slots_ok ch (harbor s) (slot s)" using ok by (simp add: handles_ok_def)
  have "handle_retire ch h s = Inr (s, None)"
  proof (cases "slot s ! hash_of h (slot_size s)")
    case (Some p)
    from slots_okD [OF slots, of "hash_of h (slot_size s)" p] Some hash_of_less [OF slots, of h]
    obtain h' where "ch p = Some h'" by (metis slot_size_def)
    then show ?thesis using None Some hash_of_less [OF slots, of h]
      by (auto simp: handle_retire_def live_def slot_size_def Let_def)
  qed (use hash_of_less [OF slots, of h] in \<open>simp add: handle_retire_def slot_size_def Let_def\<close>)
  then show ?thesis using None ok by (simp add: fun_upd_idem)
next
  case (Some p)
  let ?i = "hash_of h (slot_size s)"
  have slots: "slots_ok ch (harbor s) (slot s)" and names: "names_ok s" using ok by (simp_all add: handles_ok_def)
  have i: "?i < length (slot s)" using hash_of_less [OF slots] by (simp add: slot_size_def)
  have p: "slot s ! ?i = Some p" "ch p = Some h" using Some by (auto simp: live_def split: option.splits if_splits)
  obtain ns j where ns: "retire_names h (name_count s) 0 0 (name s) = Inr (ns, j)"
    "take j ns = filter (\<lambda>n. hn_handle n \<noteq> h) (names_of s)" "length ns = name_cap s" "j \<le> name_cap s"
    using retire_names_of [OF names, of h] .
  let ?s = "s\<lparr>slot := (slot s)[?i := None], name := ns, name_count := j\<rparr>"
  have eq: "handle_retire ch h s = Inr (?s, Some p)" using p i ns(1) by (simp add: handle_retire_def Let_def)
  have names_s: "names_of ?s = filter (\<lambda>n. hn_handle n \<noteq> h) (names_of s)" using ns(2) by (simp add: names_of_def)
  have names': "names_ok ?s"
    unfolding names_ok_iff names_s using names ns by (simp add: names_ok_iff name_cap_def sorted_wrt_filter)
  have "handles_ok ch ?s"
    using ok names' slots_ok_clear [OF slots] by (simp add: handles_ok_def)
  moreover have "live ch ?s = (live ch s)(h := None)"
  proof
    fix h' show "live ch ?s h' = ((live ch s)(h := None)) h'"
      using p i by (auto simp: live_def slot_size_def nth_list_update split: option.splits)
  qed
  moreover have "named ?s = drop_names h (named s)"
  proof (rule map_eqI)
    fix n v show "named ?s n = Some v \<longleftrightarrow> drop_names h (named s) n = Some v"
      using named_iff [OF names', of n v] named_iff [OF names, of n v]
      by (auto simp: names_s drop_names_def)
  qed
  ultimately show ?thesis using eq Some by simp
qed

section \<open>Names\<close>

lemma strcmp_iff: "strcmp a b = 0 \<longleftrightarrow> a = b" "strcmp a b < 0 \<longleftrightarrow> a < b"
  by (induction a b rule: strcmp.induct) (auto simp: less_char_def)

text \<open>Bisection: what is left of \<open>b\<close> is smaller than the name, what is right of \<open>e\<close> is larger.\<close>

definition search_inv :: "handle_name list \<Rightarrow> nat \<Rightarrow> string \<Rightarrow> int \<Rightarrow> int \<Rightarrow> bool" where
  "search_inv ns cnt nm b e \<longleftrightarrow> 0 \<le> b \<and> b \<le> e + 1 \<and> e < int cnt
     \<and> (\<forall>i < cnt. int i < b \<longrightarrow> hn_name (ns ! i) < nm) \<and> (\<forall>i < cnt. e < int i \<longrightarrow> nm < hn_name (ns ! i))"

lemma name_search_ok:
  assumes "search_inv ns cnt nm b e" "cnt \<le> length ns"
    and sorted: "\<forall>i j. i < j \<longrightarrow> j < cnt \<longrightarrow> hn_name (ns ! i) < hn_name (ns ! j)"
  shows "(\<exists>i < cnt. hn_name (ns ! i) = nm \<and> name_search ns nm b e = Inr (Inr (ns ! i))) \<or>
    (\<exists>k \<le> cnt. name_search ns nm b e = Inr (Inl (int k)) \<and> (\<forall>i < k. hn_name (ns ! i) < nm)
      \<and> (\<forall>i < cnt. k \<le> i \<longrightarrow> nm < hn_name (ns ! i)))"
  using assms(1)
proof (induction "nat (e - b + 1)" arbitrary: b e rule: less_induct)
  case less
  show ?case
  proof (cases "b \<le> e")
    case False
    with less.prems have b: "b = e + 1" "0 \<le> b" by (simp_all add: search_inv_def)
    have "name_search ns nm b e = Inr (Inl b)" using False by (simp add: name_search.simps [of ns nm b e])
    with b less.prems show ?thesis by (intro disjI2 exI [of _ "nat b"]) (auto simp: search_inv_def)
  next
    case True
    define m where "m = nat ((b + e) div 2)"
    have m: "b \<le> int m" "int m \<le> e" "m < cnt" "(b + e) div 2 = int m"
      using True less.prems by (auto simp: m_def search_inv_def)
    have step: "name_search ns nm b e = (if hn_name (ns ! m) = nm then Inr (Inr (ns ! m))
        else if hn_name (ns ! m) < nm then name_search ns nm (int m + 1) e else name_search ns nm b (int m - 1))"
      using True m assms(2) by (simp add: name_search.simps [of ns nm b e] Let_def strcmp_iff)
    have below: "hn_name (ns ! i) < nm" if "hn_name (ns ! m) < nm" "i \<le> m" for i
      using sorted [rule_format, of i m] that m(3) by (cases "i = m") auto
    have above: "nm < hn_name (ns ! i)" if "nm < hn_name (ns ! m)" "m \<le> i" "i < cnt" for i
      using sorted [rule_format, of m i] that by (cases "i = m") auto
    consider "hn_name (ns ! m) = nm" | "hn_name (ns ! m) < nm" | "nm < hn_name (ns ! m)" by force
    then show ?thesis
    proof cases
      case 1
      then show ?thesis using step m(3) by auto
    next
      case 2
      then have inv: "search_inv ns cnt nm (int m + 1) e"
        using less.prems m below by (auto simp: search_inv_def)
      have "name_search ns nm b e = name_search ns nm (int m + 1) e" using step 2 by (metis less_irrefl)
      then show ?thesis using less.hyps [OF _ inv] m True by simp
    next
      case 3
      then have inv: "search_inv ns cnt nm b (int m - 1)"
        using less.prems m above by (auto simp: search_inv_def)
      have "name_search ns nm b e = name_search ns nm b (int m - 1)" using step 3 by (metis less_irrefl less_asym)
      then show ?thesis using less.hyps [OF _ inv] m True by simp
    qed
  qed
qed

lemma names_ok_sorted:
  assumes "names_ok s" "i < j" "j < name_count s"
  shows "hn_name (name s ! i) < hn_name (name s ! j)"
proof -
  have "hn_name (names_of s ! i) < hn_name (names_of s ! j)"
    using assms by (intro sorted_wrt_nth_less [of "\<lambda>a b. hn_name a < hn_name b"])
      (auto simp: names_ok_iff names_of_def name_cap_def)
  then show ?thesis using assms by (simp add: names_of_def)
qed

lemma name_search_cases:
  assumes ok: "names_ok s"
  obtains (found) h where "name_search (name s) nm 0 (int (name_count s) - 1) = Inr (Inr \<lparr>hn_name = nm, hn_handle = h\<rparr>)"
      "named s nm = Some h"
  | (missing) k where "name_search (name s) nm 0 (int (name_count s) - 1) = Inr (Inl (int k))"
      "k \<le> name_count s" "named s nm = None" "\<forall>n \<in> set (take k (name s)). hn_name n < nm"
      "\<forall>n \<in> set (drop k (names_of s)). nm < hn_name n"
proof -
  have len: "name_count s \<le> length (name s)" using ok by (simp add: names_ok_def name_cap_def)
  have inv: "search_inv (name s) (name_count s) nm 0 (int (name_count s) - 1)" by (simp add: search_inv_def)
  have sorted: "\<forall>i j. i < j \<longrightarrow> j < name_count s \<longrightarrow> hn_name (name s ! i) < hn_name (name s ! j)"
    using names_ok_sorted [OF ok] by blast
  from name_search_ok [OF inv len sorted] show thesis
  proof (elim disjE exE conjE)
    fix i assume i: "i < name_count s" "hn_name (name s ! i) = nm"
      and res: "name_search (name s) nm 0 (int (name_count s) - 1) = Inr (Inr (name s ! i))"
    have eq: "name s ! i = \<lparr>hn_name = nm, hn_handle = hn_handle (name s ! i)\<rparr>"
      by (cases "name s ! i") (use i(2) in simp)
    moreover have "name s ! i \<in> set (names_of s)"
      using i(1) len by (auto simp: names_of_def in_set_conv_nth intro!: exI [of _ i])
    ultimately have "named s nm = Some (hn_handle (name s ! i))"
      using named_iff [OF ok] by metis
    then show thesis using res eq by (intro found) simp_all
  next
    fix k assume k: "k \<le> name_count s" "name_search (name s) nm 0 (int (name_count s) - 1) = Inr (Inl (int k))"
      and lo: "\<forall>i < k. hn_name (name s ! i) < nm" and hi: "\<forall>i < name_count s. k \<le> i \<longrightarrow> nm < hn_name (name s ! i)"
    have lo': "\<forall>n \<in> set (take k (name s)). hn_name n < nm" using lo by (auto simp: in_set_conv_nth)
    have hi': "\<forall>n \<in> set (drop k (names_of s)). nm < hn_name n"
      using hi k(1) by (auto simp: in_set_conv_nth names_of_def)
    have split: "names_of s = take k (name s) @ drop k (names_of s)"
      using k(1) by (metis append_take_drop_id min.absorb1 names_of_def take_take)
    have "hn_name n \<noteq> nm" if "n \<in> set (names_of s)" for n
      using that lo' hi' by (subst (asm) split) auto
    then have "named s nm = None" using named_iff [OF ok, of nm] by (cases "named s nm") fastforce+
    then show thesis using missing k lo' hi' by blast
  qed
qed

lemma findname_ok:
  assumes ok: "names_ok s"
  shows "skynet_handle_findname nm s = Inr (case named s nm of None \<Rightarrow> 0 | Some h \<Rightarrow> h)"
  using name_search_cases [OF ok, of nm] by cases (simp_all add: skynet_handle_findname_def)

text \<open>looking up a name by bisection gives exactly the handle the name was given, and 0 if it has none;
  the search stays within the array and ends.\<close>

theorem findname_correct:
  assumes ok: "names_ok s"
  shows "skynet_handle_findname nm s = Inr (case named s nm of None \<Rightarrow> 0 | Some h \<Rightarrow> h)"
  using assms by (rule findname_ok)

lemma shift_names_ok:
  assumes "i < length ns"
  shows "\<exists>ns'. shift_names before i ns = Inr ns' \<and> length ns' = length ns
    \<and> (\<forall>j < length ns. ns' ! j = (if before < j \<and> j \<le> i then ns ! (j - 1) else ns ! j))"
  using assms
proof (induction i arbitrary: ns)
  case (Suc i)
  show ?case
  proof (cases "Suc i > before")
    case True
    from Suc.IH [of "ns[Suc i := ns ! i]"] Suc.prems obtain ns' where
      ns': "shift_names before i (ns[Suc i := ns ! i]) = Inr ns'" "length ns' = length ns"
        "\<And>j. j < length ns \<Longrightarrow> ns' ! j = (if before < j \<and> j \<le> i then ns[Suc i := ns ! i] ! (j - 1) else ns[Suc i := ns ! i] ! j)"
      by auto
    have "ns' ! j = (if before < j \<and> j \<le> Suc i then ns ! (j - 1) else ns ! j)" if "j < length ns" for j
      using ns'(3) [OF that] that Suc.prems True by (auto simp: nth_list_update)
    then show ?thesis using ns'(1,2) True Suc.prems by simp
  qed (use Suc.prems in auto)
qed auto

lemma insert_name_before_ok:
  assumes ok: "names_ok s" and before: "before \<le> name_count s"
    and room: "name_count s < name_cap s \<or> name_cap s * 2 \<le> MAX_SLOT_SIZE"
  shows "\<exists>s'. insert_name_before s nm h before = Inr s' \<and> name_count s' = Suc (name_count s)
    \<and> name_count s' \<le> name_cap s' \<and> harbor s' = harbor s \<and> handle_index s' = handle_index s \<and> slot s' = slot s
    \<and> names_of s' = take before (name s) @ [\<lparr>hn_name = nm, hn_handle = h\<rparr>] @ drop before (names_of s)"
proof (cases "name_count s < name_cap s")
  case True
  from shift_names_ok [of "name_count s" "name s" before] True obtain ns where
    ns: "shift_names before (name_count s) (name s) = Inr ns" "length ns = name_cap s"
      "\<And>j. j < name_cap s \<Longrightarrow> ns ! j = (if before < j \<and> j \<le> name_count s then name s ! (j - 1) else name s ! j)"
    by (auto simp: name_cap_def)
  have "take (Suc (name_count s)) (ns[before := n]) = take before (name s) @ [n] @ drop before (names_of s)" for n
  proof (rule nth_equalityI)
    show "length (take (Suc (name_count s)) (ns[before := n]))
        = length (take before (name s) @ [n] @ drop before (names_of s))"
      using True before ns(2) by (simp add: names_of_def name_cap_def min_def)
    fix i assume "i < length (take (Suc (name_count s)) (ns[before := n]))"
    then have "i < Suc (name_count s)" by simp
    then show "take (Suc (name_count s)) (ns[before := n]) ! i
        = (take before (name s) @ [n] @ drop before (names_of s)) ! i"
      using True before ns(2) ns(3) [of i]
      by (auto simp: names_of_def name_cap_def nth_append nth_Cons' min_def)
  qed
  then show ?thesis using True before ns
    by (simp add: insert_name_before_def names_of_def [of "s\<lparr>name := _, name_count := _\<rparr>"] name_cap_def)
next
  case False
  then have full: "name_count s = length (name s)" using ok by (simp add: names_ok_def name_cap_def)
  have cap: "0 < length (name s)" using ok by (simp add: names_ok_def name_cap_def)
  have "take (Suc (name_count s)) ((copy_names before (name s) (name_count s) (name_cap s * 2))[before := n])
      = take before (name s) @ [n] @ drop before (names_of s)" for n
    using before full by (simp add: copy_names_def names_of_def list_update_append Suc_diff_le)
  moreover have "before < length (copy_names before (name s) (name_count s) (name_cap s * 2))"
    "length (copy_names before (name s) (name_count s) (name_cap s * 2)) = name_cap s * 2"
    using before full cap by (simp_all add: copy_names_def name_cap_def)
  ultimately show ?thesis using False room full cap
    by (simp add: insert_name_before_def names_of_def [of "s\<lparr>name := _, name_count := _\<rparr>"])
      (simp add: name_cap_def)
qed

theorem findname_correct_witness:
  "skynet_handle_findname ''b'' \<lparr>harbor = 0, handle_index = 1, slot = [], name = [\<lparr>hn_name = ''a'', hn_handle = 7\<rparr>,
     \<lparr>hn_name = ''b'', hn_handle = 8\<rparr>], name_count = 2\<rparr> = Inr 8"
  using findname_correct [of "\<lparr>harbor = 0, handle_index = 1, slot = [], name = [\<lparr>hn_name = ''a'', hn_handle = 7\<rparr>,
     \<lparr>hn_name = ''b'', hn_handle = 8\<rparr>], name_count = 2\<rparr>" "''b''"]
  by (simp add: names_ok_def name_cap_def named_def less_char_def)

lemma namehandle_ok:
  assumes ok: "names_ok s" and room: "name_count s < name_cap s \<or> name_cap s * 2 \<le> MAX_SLOT_SIZE"
  shows "\<exists>s' r. skynet_handle_namehandle h nm s = Inr (s', r) \<and> names_ok s' \<and> slot s' = slot s
    \<and> harbor s' = harbor s \<and> handle_index s' = handle_index s
    \<and> (case named s nm of
          Some _ \<Rightarrow> r = None \<and> s' = s
        | None \<Rightarrow> r = Some nm \<and> named s' = (named s)(nm \<mapsto> h))"
proof (cases rule: name_search_cases [OF ok, of nm, case_names found missing])
  case (found h')
  then show ?thesis using ok by (simp add: skynet_handle_namehandle_def insert_name_def)
next
  case (missing k)
  let ?n = "\<lparr>hn_name = nm, hn_handle = h\<rparr>"
  from insert_name_before_ok [OF ok missing(2) room, of nm h] obtain s' where
    s': "insert_name_before s nm h k = Inr s'" "name_count s' \<le> name_cap s'" "name_count s' = Suc (name_count s)"
      "slot s' = slot s" "harbor s' = harbor s" "handle_index s' = handle_index s"
      "names_of s' = take k (name s) @ [?n] @ drop k (names_of s)" by blast
  have split: "names_of s = take k (name s) @ drop k (names_of s)"
    using missing(2) by (metis append_take_drop_id min.absorb1 names_of_def take_take)
  have names': "names_ok s'"
    using ok s'(2,3) missing(4,5) unfolding names_ok_iff s'(7)
    by (subst (asm) split) (auto simp: sorted_wrt_append)
  have set': "set (names_of s') = insert ?n (set (names_of s))" unfolding s'(7) by (subst (2) split) auto
  have "named s' = (named s)(nm \<mapsto> h)"
  proof (rule map_eqI)
    fix n v show "named s' n = Some v \<longleftrightarrow> ((named s)(nm \<mapsto> h)) n = Some v"
      using named_iff [OF names', of n v] named_iff [OF ok, of n v] missing(3) by (auto simp: set')
  qed
  then show ?thesis
    using s' names' missing by (simp add: skynet_handle_namehandle_def insert_name_def)
qed

text \<open>naming a handle fails, and changes nothing, exactly when the name is taken; otherwise the name
  now means the handle, every other name means what it meant, and the array is still sorted (so that
  later searches are right), also when it had to be doubled. The slots are not touched.\<close>

theorem namehandle_correct:
  assumes ok: "names_ok s" and room: "name_count s < name_cap s \<or> name_cap s * 2 \<le> MAX_SLOT_SIZE"
  shows "\<exists>s' r. skynet_handle_namehandle h nm s = Inr (s', r) \<and> names_ok s' \<and> slot s' = slot s
    \<and> harbor s' = harbor s \<and> handle_index s' = handle_index s
    \<and> (case named s nm of
          Some _ \<Rightarrow> r = None \<and> s' = s
        | None \<Rightarrow> r = Some nm \<and> named s' = (named s)(nm \<mapsto> h))"
  using assms by (rule namehandle_ok)

theorem namehandle_correct_witness:
  "\<exists>s' r. skynet_handle_namehandle 9 ''x'' (skynet_handle_init 0) = Inr (s', r) \<and> names_ok s'
    \<and> r = Some ''x'' \<and> named s' = [''x'' \<mapsto> 9]"
proof -
  let ?s = "skynet_handle_init 0"
  have "names_ok ?s" "name_count ?s < name_cap ?s" "named ?s = (\<lambda>_. None)"
    using init_handles_ok [of "\<lambda>_. None" 0]
    by (simp_all add: handles_ok_def) (simp_all add: skynet_handle_init_def name_cap_def named_def)
  then show ?thesis using namehandle_correct [of ?s 9 "''x''"] by force
qed

section \<open>The table as a map\<close>

text \<open>
  What the rest of the node relies on: a table that hands out handles that are not in use and
  forgets them when they are retired. \<open>reg_run\<close> runs a history of registrations and retirements;
  it is \<open>None\<close> if a registration is asked for where \<open>can\<close> does not allow it. Its events are what the
  callers see, and \<open>legal\<close> says that they are those of a finite map.
\<close>

datatype reg_op = Register ptr | Retire u32
datatype reg_event = Registered u32 ptr | Retired u32 "ptr option"

fun reg_run :: "(ptr \<Rightarrow> 's \<Rightarrow> bool) \<Rightarrow> (ptr \<Rightarrow> 's \<Rightarrow> ('s \<times> u32) res) \<Rightarrow> (u32 \<Rightarrow> 's \<Rightarrow> ('s \<times> ptr option) res)
    \<Rightarrow> reg_op list \<Rightarrow> 's \<Rightarrow> ('s \<times> reg_event list) res option" where
  "reg_run can reg ret [] s = Some (Inr (s, []))"
| "reg_run can reg ret (Register p # ops) s =
     (if can p s then
        case reg p s of
          Inl e \<Rightarrow> Some (Inl e)
        | Inr (s', h) \<Rightarrow> map_option (\<lambda>r. bindE r (\<lambda>(s'', es). Inr (s'', Registered h p # es)))
            (reg_run can reg ret ops s')
      else None)"
| "reg_run can reg ret (Retire h # ops) s =
     (case ret h s of
        Inl e \<Rightarrow> Some (Inl e)
      | Inr (s', r) \<Rightarrow> map_option (\<lambda>r'. bindE r' (\<lambda>(s'', es). Inr (s'', Retired h r # es)))
          (reg_run can reg ret ops s'))"

fun legal :: "(u32 \<Rightarrow> ptr option) \<Rightarrow> reg_event list \<Rightarrow> (u32 \<Rightarrow> ptr option) \<Rightarrow> bool" where
  "legal m [] m' = (m' = m)"
| "legal m (Registered h p # es) m' = (m h = None \<and> legal (m(h \<mapsto> p)) es m')"
| "legal m (Retired h r # es) m' = (r = m h \<and> legal (m(h := None)) es m')"

locale handle_registry =
  fixes inv :: "'s \<Rightarrow> bool"
    and look :: "'s \<Rightarrow> u32 \<Rightarrow> ptr option"
    and can :: "ptr \<Rightarrow> 's \<Rightarrow> bool"
    and reg :: "ptr \<Rightarrow> 's \<Rightarrow> ('s \<times> u32) res"
    and ret :: "u32 \<Rightarrow> 's \<Rightarrow> ('s \<times> ptr option) res"
  assumes reg_law: "inv s \<Longrightarrow> can p s \<Longrightarrow>
      \<exists>s' h. reg p s = Inr (s', h) \<and> inv s' \<and> look s h = None \<and> look s' = (look s)(h \<mapsto> p)"
    and ret_law: "inv s \<Longrightarrow> \<exists>s'. ret h s = Inr (s', look s h) \<and> inv s' \<and> look s' = (look s)(h := None)"
begin

lemma run_legal:
  assumes "inv s" "reg_run can reg ret ops s = Some r"
  shows "\<exists>s' es. r = Inr (s', es) \<and> inv s' \<and> legal (look s) es (look s')"
  using assms
proof (induction ops arbitrary: s r)
  case Nil
  then show ?case by auto
next
  case (Cons op ops)
  show ?case
  proof (cases op)
    case (Register p)
    with Cons.prems(2) have can: "can p s" by (auto split: if_splits)
    from reg_law [OF Cons.prems(1) can] obtain s1 h where
      s1: "reg p s = Inr (s1, h)" "inv s1" "look s h = None" "look s1 = (look s)(h \<mapsto> p)" by blast
    with Cons.prems(2) can Register obtain r1 where r1: "reg_run can reg ret ops s1 = Some r1"
      "r = bindE r1 (\<lambda>(s'', es). Inr (s'', Registered h p # es))" by auto
    from Cons.IH [OF s1(2) r1(1)] obtain s2 es where
      "r1 = Inr (s2, es)" "inv s2" "legal (look s1) es (look s2)" by blast
    then show ?thesis using r1(2) s1(3) by (simp flip: s1(4))
  next
    case (Retire h)
    from ret_law [OF Cons.prems(1), of h] obtain s1 where
      s1: "ret h s = Inr (s1, look s h)" "inv s1" "look s1 = (look s)(h := None)" by blast
    with Cons.prems(2) Retire obtain r1 where r1: "reg_run can reg ret ops s1 = Some r1"
      "r = bindE r1 (\<lambda>(s'', es). Inr (s'', Retired h (look s h) # es))" by auto
    from Cons.IH [OF s1(2) r1(1)] obtain s2 es where
      "r1 = Inr (s2, es)" "inv s2" "legal (look s1) es (look s2)" by blast
    then show ?thesis using r1(2) by (simp flip: s1(3))
  qed
qed

end

text \<open>The model's table: the storage together with the handle fields of the contexts.\<close>

definition table_reg :: "ptr \<Rightarrow> handle_storage \<times> (ptr \<Rightarrow> u32 option)
    \<Rightarrow> ((handle_storage \<times> (ptr \<Rightarrow> u32 option)) \<times> u32) res" where
  "table_reg p t = (case t of (s, ch) \<Rightarrow>
     bindE (skynet_handle_register ch p s) (\<lambda>(s', h). Inr ((s', ch(p \<mapsto> h)), h)))"

definition table_ret :: "u32 \<Rightarrow> handle_storage \<times> (ptr \<Rightarrow> u32 option)
    \<Rightarrow> ((handle_storage \<times> (ptr \<Rightarrow> u32 option)) \<times> ptr option) res" where
  "table_ret h t = (case t of (s, ch) \<Rightarrow> bindE (handle_retire ch h s) (\<lambda>(s', r). Inr ((s', ch), r)))"

definition table_new_ctx :: "ptr \<Rightarrow> handle_storage \<times> (ptr \<Rightarrow> u32 option) \<Rightarrow> bool" where
  "table_new_ctx p t \<longleftrightarrow> Some p \<notin> set (slot (fst t))"

definition table_can :: "ptr \<Rightarrow> handle_storage \<times> (ptr \<Rightarrow> u32 option) \<Rightarrow> bool" where
  "table_can p t \<longleftrightarrow> table_new_ctx p t \<and> can_register (fst t)"

lemma table_reg_law:
  assumes "handles_ok (snd t) (fst t)" "table_can p t"
  shows "\<exists>t' h. table_reg p t = Inr (t', h) \<and> handles_ok (snd t') (fst t')
    \<and> live (snd t) (fst t) h = None \<and> live (snd t') (fst t') = (live (snd t) (fst t))(h \<mapsto> p)"
  using register_total [of "snd t" "fst t" p] assms
  by (force simp: table_reg_def table_can_def table_new_ctx_def case_prod_unfold)

lemma table_ret_law:
  assumes "handles_ok (snd t) (fst t)"
  shows "\<exists>t'. table_ret h t = Inr (t', live (snd t) (fst t) h) \<and> handles_ok (snd t') (fst t')
    \<and> live (snd t') (fst t') = (live (snd t) (fst t))(h := None)"
  using handle_retire_total [OF assms, of h] by (force simp: table_ret_def case_prod_unfold)

interpretation ht: handle_registry "\<lambda>t. handles_ok (snd t) (fst t)" "\<lambda>t. live (snd t) (fst t)"
  table_can table_reg table_ret
  by unfold_locales (rule table_reg_law, assumption+, rule table_ret_law)


lemma eval_numeral:
  "replicate (numeral k) x = x # replicate (pred_numeral k) x"
  "register_scan sl (numeral k) h = register_scan sl (Suc (pred_numeral k)) h"
  by (simp_all add: numeral_eq_Suc)

lemmas table_eval = eval_numeral skynet_handle_register_def register_loop.simps handle_retire_def handle_grab_def
  slot_size_def hash_of_def HANDLE_MASK_def Let_def

lemma init_eq: "skynet_handle_init 0 = \<lparr>harbor = 0, handle_index = 1, slot = [None, None, None, None],
    name = [blank_name, blank_name], name_count = 0\<rparr>"
  by (simp add: skynet_handle_init_def DEFAULT_SLOT_SIZE_def numeral_eq_Suc)


text \<open>the handle field of a new context is written only after \<^verbatim>\<open>skynet_handle_register\<close> has
  returned. If another thread registers a service in between and the table has to grow, the
  context is rehashed under the 0 that \<^verbatim>\<open>skynet_context_new\<close> put into the field: afterwards the
  service with the returned handle 4 is in the table but is not found under its handle.\<close>

theorem register_race_loses_service:
  "\<exists>s0 s1 s2 ch. handles_ok ch s0
    \<and> skynet_handle_register ch 4 s0 = Inr (s1, 4)
    \<and> skynet_handle_register (ch(4 \<mapsto> 0)) 5 s1 = Inr (s2, 5)
    \<and> Some 4 \<in> set (slot s2) \<and> handle_grab (ch(4 \<mapsto> 4, 5 \<mapsto> 5)) 4 s2 = Inr None"
proof -
  let ?ch = "[1 \<mapsto> 1, 2 \<mapsto> 2, 3 \<mapsto> 3] :: ptr \<Rightarrow> u32 option"
  let ?s0 = "\<lparr>harbor = 0, handle_index = 4, slot = [None, Some 1, Some 2, Some 3],
    name = [blank_name, blank_name], name_count = 0\<rparr>"
  let ?s1 = "?s0\<lparr>handle_index := 5, slot := [Some 4, Some 1, Some 2, Some 3]\<rparr>"
  let ?s2 = "?s0\<lparr>handle_index := 6, slot := [Some 4, Some 1, Some 2, Some 3, None, Some 5, None, None]\<rparr>"
  have "slots_ok ?ch 0 [None, Some 1, Some 2, Some 3]"
    unfolding slots_ok_def
    by (auto simp: All_less_Suc hash_of_def HANDLE_MASK_def intro: exI [of _ 2])
  then have "handles_ok ?ch ?s0" by (simp add: handles_ok_def names_ok_def name_cap_def HANDLE_MASK_def)
  moreover have "skynet_handle_register ?ch 4 ?s0 = Inr (?s1, 4)" by (simp add: table_eval)
  moreover have "skynet_handle_register (?ch(4 \<mapsto> 0)) 5 ?s1 = Inr (?s2, 5)" by (simp add: table_eval)
  moreover have "handle_grab (?ch(4 \<mapsto> 4, 5 \<mapsto> 5)) 4 ?s2 = Inr None" by (simp add: table_eval)
  ultimately show ?thesis by (intro exI [of _ ?s0] exI [of _ ?s1] exI [of _ ?s2] exI [of _ ?ch]) simp
qed

section \<open>The scan across the wrap\<close>

text \<open>
  When the scan passes the largest handle it continues at 1, so it skips the slot of handle 0. The
  history below keeps three services in slots 1 to 3 and registers and retires a fourth, which
  always finds slot 0, until the handles are used up.
\<close>

definition churn_state :: "nat \<Rightarrow> u32 option \<Rightarrow> handle_storage \<times> (ptr \<Rightarrow> u32 option)" where
  "churn_state k h = (\<lparr>harbor = 0, handle_index = of_nat (4 * k + 1), slot = [None, Some 1, Some 2, Some 3],
     name = [blank_name, blank_name], name_count = 0\<rparr>, [1 \<mapsto> 1, 2 \<mapsto> 2, 3 \<mapsto> 3](4 := h))"

fun churn :: "nat \<Rightarrow> nat \<Rightarrow> reg_op list" where
  "churn k 0 = [Register 4]"
| "churn k (Suc n) = Register 4 # Retire (of_nat (4 * k + 4)) # churn (Suc k) n"

lemma hash_4:
  assumes "m < 2 ^ 32"
  shows "hash_of (of_nat m) 4 = m mod 4"
  using hash_of_mod [of 2 "of_nat m"] assms by (simp add: unsigned_of_nat take_bit_nat_eq_self)

lemma scan_4:
  assumes "length sl = 4" "m < 2 ^ 24"
  shows "register_scan sl (Suc j) (of_nat m) =
    (if sl ! (m mod 4) = None then Some (of_nat m) else register_scan sl j (of_nat (Suc m)))"
proof -
  have "unat (of_nat m :: u32) < 2 ^ 24" using assms(2) by (simp add: unsigned_of_nat take_bit_nat_eq_self)
  then show ?thesis using scan_small [of "of_nat m" sl j] hash_4 [of m] assms
    by (simp add: add.commute del: register_scan.simps)
qed

lemma register_scanned:
  assumes "register_scan (slot s) (slot_size s) (handle_index s) = Some x"
  shows "skynet_handle_register ch p s = Inr (s\<lparr>slot := (slot s)[hash_of x (slot_size s) := Some p],
    handle_index := x + 1\<rparr>, x OR harbor s)"
  using assms by (simp add: skynet_handle_register_def register_loop.simps [of ch p s])

lemma churn_register:
  assumes "4 * k + 4 < 2 ^ 24"
  shows "table_reg 4 (churn_state k h) = Inr (((fst (churn_state (Suc k) h))\<lparr>slot := [Some 4, Some 1, Some 2, Some 3]\<rparr>,
      snd (churn_state k (Some (of_nat (4 * k + 4))))), of_nat (4 * k + 4))"
proof -
  let ?sl = "[None, Some 1, Some 2, Some 3] :: ptr option list"
  have m: "(4 * k + 1) mod 4 = 1" "Suc (4 * k + 1) mod 4 = 2" "Suc (Suc (4 * k + 1)) mod 4 = 3"
    "Suc (Suc (Suc (4 * k + 1))) mod 4 = 0" by presburger+
  have "register_scan ?sl (Suc (Suc (Suc (Suc 0)))) (of_nat (4 * k + 1))
      = Some (of_nat (Suc (Suc (Suc (4 * k + 1)))))"
    using assms by (subst scan_4, simp, simp)+ (simp only: m, simp)
  then have scan: "register_scan ?sl 4 (of_nat (4 * k + 1)) = Some (of_nat (4 * k + 4))"
    by (simp only: eval_numeral) (simp add: eval_nat_numeral del: of_nat_add of_nat_Suc register_scan.simps)
  let ?s = "fst (churn_state k h)" and ?h = "of_nat (4 * k + 4) :: u32"
  have size: "slot_size ?s = 4" by (simp add: slot_size_def churn_state_def)
  have "register_scan (slot ?s) (slot_size ?s) (handle_index ?s) = Some ?h"
    unfolding size using scan by (simp add: churn_state_def)
  from register_scanned [OF this, of "snd (churn_state k h)" 4]
  have reg: "skynet_handle_register (snd (churn_state k h)) 4 ?s
      = Inr (?s\<lparr>slot := (slot ?s)[hash_of ?h 4 := Some 4], handle_index := ?h + 1\<rparr>, ?h)"
    unfolding size by (simp add: churn_state_def)
  have "hash_of ?h 4 = 0" using hash_4 [of "4 * k + 4"] assms by simp
  with reg show ?thesis
    by (simp add: table_reg_def case_prod_unfold) (simp add: churn_state_def fun_upd_twist)
qed

lemma churn_retire:
  assumes "4 * k + 4 < 2 ^ 24"
  shows "table_ret (of_nat (4 * k + 4))
      ((fst (churn_state (Suc k) h))\<lparr>slot := [Some 4, Some 1, Some 2, Some 3]\<rparr>, snd (churn_state k (Some (of_nat (4 * k + 4)))))
    = Inr (churn_state (Suc k) (Some (of_nat (4 * k + 4))), Some 4)"
proof -
  have "hash_of (of_nat (4 * k + 4)) 4 = 0" using hash_4 [of "4 * k + 4"] assms by simp
  moreover have "hash_of x (Suc (Suc (Suc (Suc 0)))) = hash_of x 4" for x by (rule arg_cong) simp
  ultimately show ?thesis
    by (simp add: table_ret_def handle_retire_def churn_state_def slot_size_def Let_def)
qed

lemma churn_ends:
  assumes "k + n = 0x3fffff"
  shows "reg_run table_new_ctx table_reg table_ret (churn k n) (churn_state k h) = Some (Inl Null_Deref)"
  using assms
proof (induction n arbitrary: k h)
  case 0
  have new: "table_new_ctx 4 (churn_state k h)" by (simp add: table_new_ctx_def churn_state_def)
  have "table_reg 4 (churn_state k h) = Inl Null_Deref"
    using 0 by (simp add: churn_state_def table_reg_def table_eval)
  with new show ?case by simp
next
  case (Suc n)
  have new: "table_new_ctx 4 (churn_state k h)" by (simp add: table_new_ctx_def churn_state_def)
  have k: "4 * k + 4 < 2 ^ 24" using Suc.prems by simp
  show ?case using new churn_register [OF k, of h] churn_retire [OF k, of h] Suc.IH [of "Suc k"] Suc.prems
    by (simp del: of_nat_add of_nat_mult)
qed

text \<open>C21: there is a history of registrations (of contexts not in the table) and retirements, from
  start-up, with never more than four services alive, that ends in a NULL dereference in
  \<^verbatim>\<open>skynet_handle_register\<close>: the scan wraps from the largest handle to 1, does not look at the free
  slot 0, and the loop that doubles the table takes every slot for occupied.\<close>

theorem register_wrap_null_deref:
  "\<exists>ops. reg_run table_new_ctx table_reg table_ret ops (skynet_handle_init 0, \<lambda>_. None) = Some (Inl Null_Deref)"
proof -
  have "reg_run table_new_ctx table_reg table_ret
      (Register 1 # Register 2 # Register 3 # Register 4 # Retire 4 # churn 1 0x3ffffe)
      (skynet_handle_init 0, \<lambda>_. None) = Some (Inl Null_Deref)"
    using churn_ends [of 1 "0x3ffffe" "Some 4"] unfolding init_eq churn_state_def
    by (simp add: table_new_ctx_def table_reg_def table_ret_def table_eval)
  then show ?thesis by blast
qed

text \<open>retiring a live handle removes it and every name it had and nothing else, and returns its
  context; retiring a handle that is not live changes nothing. The table keeps its invariant.\<close>

theorem retire_removes_handle_and_names:
  assumes ok: "handles_ok ch s"
  shows "\<exists>s'. handle_retire ch h s = Inr (s', live ch s h) \<and> handles_ok ch s'
    \<and> live ch s' = (live ch s)(h := None)
    \<and> (\<forall>n. named s' n = (if live ch s h \<noteq> None \<and> named s n = Some h then None else named s n))"
  using handle_retire_total [OF ok, of h] by (auto simp: drop_names_def)

theorem retire_removes_handle_and_names_witness:
  "\<exists>s'. handle_retire [5 \<mapsto> 1] 1 \<lparr>harbor = 0, handle_index = 2, slot = [None, Some 5, None, None],
      name = [\<lparr>hn_name = ''a'', hn_handle = 1\<rparr>, \<lparr>hn_name = ''b'', hn_handle = 9\<rparr>], name_count = 2\<rparr> = Inr (s', Some 5)
    \<and> named s' ''a'' = None \<and> named s' ''b'' = Some 9"
proof -
  let ?s = "\<lparr>harbor = 0, handle_index = 2, slot = [None, Some 5, None, None],
      name = [\<lparr>hn_name = ''a'', hn_handle = 1\<rparr>, \<lparr>hn_name = ''b'', hn_handle = 9\<rparr>], name_count = 2\<rparr>"
  have "slots_ok [5 \<mapsto> 1] 0 [None, Some 5, None, None]"
    unfolding slots_ok_def by (auto simp: All_less_Suc hash_of_def HANDLE_MASK_def intro: exI [of _ 2])
  then have ok: "handles_ok [5 \<mapsto> 1] ?s"
    by (simp add: handles_ok_def names_ok_def name_cap_def HANDLE_MASK_def less_char_def)
  have "live [5 \<mapsto> 1] ?s 1 = Some 5" "named ?s ''a'' = Some 1" "named ?s ''b'' = Some 9"
    by (simp_all add: live_def slot_size_def hash_of_def named_def)
  then show ?thesis using retire_removes_handle_and_names [OF ok, of 1] by force
qed

end
