(* ===== verification/Skynet_Modules.thy ===== *)
theory Skynet_Modules
  imports Handle_Storage
begin

text \<open>
  The service modules of \<^verbatim>\<open>skynet-src/skynet_module.c\<close>: a table of at most 32 dynamically loaded
  modules, filled on demand by searching a path of the form \<^verbatim>\<open>a/?.so;b/?.so\<close>.

  The dynamic linker is outside the sources: \<open>dlopen\<close> and \<open>dlsym\<close> are arguments. The table is the
  list of the entries below \<^verbatim>\<open>count\<close>; an entry is known by its index. The table's spin lock makes
  each function one step.
\<close>

record skynet_module =
  sm_name :: string
  sm_module :: ptr
  sm_create :: "ptr option"
  sm_init :: "ptr option"
  sm_release :: "ptr option"
  sm_signal :: "ptr option"

record modules =
  mo_path :: string
  mo_m :: "skynet_module list"

definition MAX_MODULE_TYPE :: nat where "MAX_MODULE_TYPE = 32"

lemma next_entry_shorter:
  assumes "p = dropWhile (\<lambda>c. c = CHR '';'') path" "p \<noteq> []"
  shows "length (dropWhile (\<lambda>c. c \<noteq> CHR '';'') p) < length p" "length p \<le> length path"
proof -
  have "hd p \<noteq> CHR '';''" using assms hd_dropWhile [of "\<lambda>c. c = CHR '';''" path] by simp
  with assms(2) obtain x xs where x: "p = x # xs" "x \<noteq> CHR '';''" by (cases p) auto
  then show "length (dropWhile (\<lambda>c. c \<noteq> CHR '';'') p) < length p"
    using length_dropWhile_le [of "\<lambda>c. c \<noteq> CHR '';''" xs] by simp
  show "length p \<le> length path" by (simp only: assms(1) length_dropWhile_le)
qed

section \<open>Operations\<close>

definition skynet_module_init :: "string \<Rightarrow> modules" where
  "skynet_module_init path = \<lparr>mo_path = path, mo_m = []\<rparr>"

text \<open>
  \<^verbatim>\<open>_try_open\<close>: skip semicolons, take the entry up to the next one, put the name in place of its
  question mark, and try to open that; \<open>Exit_Called\<close> is the exit on an entry without a question
  mark. The buffer \<^verbatim>\<open>tmp\<close> has \<^verbatim>\<open>strlen(path) + strlen(name)\<close> bytes.
\<close>

function try_open_loop :: "(string \<Rightarrow> ptr option) \<Rightarrow> nat \<Rightarrow> string \<Rightarrow> string \<Rightarrow> ptr option res" where
  "try_open_loop dlopen sz path nm =
     (let path = dropWhile (\<lambda>c. c = CHR '';'') path in
      if path = [] then Inr None
      else
        let entry = takeWhile (\<lambda>c. c \<noteq> CHR '';'') path;
            l = dropWhile (\<lambda>c. c \<noteq> CHR '';'') path;
            i = length (takeWhile (\<lambda>c. c \<noteq> CHR ''?'') entry)
        in
        if i < length entry then
          let tmp = take i entry @ nm @ drop (Suc i) entry in
          if length tmp < sz then
            case dlopen tmp of
              Some dl \<Rightarrow> Inr (Some dl)
            | None \<Rightarrow> try_open_loop dlopen sz l nm
          else Inl Out_Of_Bounds
        else Inl Exit_Called)"
  by pat_completeness auto
termination
proof (relation "measure (\<lambda>(dlopen, sz, path, nm). length path)", goal_cases)
  case (2 dlopen sz path nm path' entry l i tmp)
  from next_entry_shorter [OF 2(1,2)] 2(4) show ?case by simp
qed simp

declare try_open_loop.simps [simp del]

definition try_open :: "(string \<Rightarrow> ptr option) \<Rightarrow> modules \<Rightarrow> string \<Rightarrow> ptr option res" where
  "try_open dlopen m nm = try_open_loop dlopen (length (mo_path m) + length nm) (mo_path m) nm"

fun query_from :: "skynet_module list \<Rightarrow> string \<Rightarrow> nat \<Rightarrow> nat option" where
  "query_from [] nm i = None"
| "query_from (m # ms) nm i = (if strcmp (sm_name m) nm = 0 then Some i else query_from ms nm (Suc i))"

definition module_query :: "modules \<Rightarrow> string \<Rightarrow> nat option" where
  "module_query M nm = query_from (mo_m M) nm 0"

text \<open>\<^verbatim>\<open>get_api\<close>: the symbol is what follows the last dot of the module's name with the suffix.\<close>

definition api_symbol :: "string \<Rightarrow> string \<Rightarrow> string" where
  "api_symbol mname api = rev (takeWhile (\<lambda>c. c \<noteq> CHR ''.'') (rev (mname @ api)))"

definition get_api :: "(ptr \<Rightarrow> string \<Rightarrow> ptr option) \<Rightarrow> skynet_module \<Rightarrow> string \<Rightarrow> ptr option" where
  "get_api dlsym md api = dlsym (sm_module md) (api_symbol (sm_name md) api)"

definition open_sym :: "(ptr \<Rightarrow> string \<Rightarrow> ptr option) \<Rightarrow> skynet_module \<Rightarrow> skynet_module \<times> bool" where
  "open_sym dlsym md =
     (let md' = md\<lparr>sm_create := get_api dlsym md ''_create'', sm_init := get_api dlsym md ''_init'',
            sm_release := get_api dlsym md ''_release'', sm_signal := get_api dlsym md ''_signal''\<rparr>
      in (md', sm_init md' = None))"

definition skynet_module_query ::
    "(string \<Rightarrow> ptr option) \<Rightarrow> (ptr \<Rightarrow> string \<Rightarrow> ptr option) \<Rightarrow> modules \<Rightarrow> string
     \<Rightarrow> (modules \<times> nat option) res" where
  "skynet_module_query dlopen dlsym M nm =
     (case module_query M nm of
        Some i \<Rightarrow> Inr (M, Some i)
      | None \<Rightarrow>
          if length (mo_m M) < MAX_MODULE_TYPE then
            bindE (try_open dlopen M nm) (\<lambda>r.
            case r of
              None \<Rightarrow> Inr (M, None)
            | Some dl \<Rightarrow>
                let (md, failed) = open_sym dlsym \<lparr>sm_name = nm, sm_module = dl, sm_create = None,
                      sm_init = None, sm_release = None, sm_signal = None\<rparr>
                in if \<not> failed then Inr (M\<lparr>mo_m := mo_m M @ [md]\<rparr>, Some (length (mo_m M)))
                   else Inr (M, None))
          else Inr (M, None))"

definition skynet_module_insert :: "skynet_module \<Rightarrow> modules \<Rightarrow> modules res" where
  "skynet_module_insert md M =
     bindE (assertE (module_query M (sm_name md) = None \<and> length (mo_m M) < MAX_MODULE_TYPE)) (\<lambda>_.
     Inr (M\<lparr>mo_m := mo_m M @ [md]\<rparr>))"

section \<open>The search path\<close>

text \<open>The entries of a path, and an entry with the name put in.\<close>

function path_entries :: "string \<Rightarrow> string list" where
  "path_entries path =
     (let path = dropWhile (\<lambda>c. c = CHR '';'') path in
      if path = [] then [] else takeWhile (\<lambda>c. c \<noteq> CHR '';'') path # path_entries (dropWhile (\<lambda>c. c \<noteq> CHR '';'') path))"
  by pat_completeness auto
termination
proof (relation "measure length", goal_cases)
  case (2 path path')
  from next_entry_shorter [OF 2(1,2)] show ?case by simp
qed simp

declare path_entries.simps [simp del]

definition expand_entry :: "string \<Rightarrow> string \<Rightarrow> string" where
  "expand_entry nm entry =
     takeWhile (\<lambda>c. c \<noteq> CHR ''?'') entry @ nm @ tl (dropWhile (\<lambda>c. c \<noteq> CHR ''?'') entry)"

text \<open>Opening the entries in turn; an entry without a question mark ends the process.\<close>

fun first_open :: "(string \<Rightarrow> ptr option) \<Rightarrow> string \<Rightarrow> string list \<Rightarrow> ptr option res" where
  "first_open dlopen nm [] = Inr None"
| "first_open dlopen nm (e # es) =
     (if CHR ''?'' \<in> set e then
        case dlopen (expand_entry nm e) of Some dl \<Rightarrow> Inr (Some dl) | None \<Rightarrow> first_open dlopen nm es
      else Inl Exit_Called)"

lemma take_drop_mark:
  "take (length (takeWhile P e)) e = takeWhile P e"
  "drop (Suc (length (takeWhile P e))) e = tl (dropWhile P e)"
  by (rule takeWhile_eq_take [symmetric], induction e) auto

lemma mark_present: "length (takeWhile (\<lambda>c. c \<noteq> CHR ''?'') e) < length e \<longleftrightarrow> CHR ''?'' \<in> set e"
  by (induction e) auto

lemma length_expand_entry:
  assumes "CHR ''?'' \<in> set e"
  shows "Suc (length (expand_entry nm e)) = length e + length nm"
proof -
  have "dropWhile (\<lambda>c. c \<noteq> CHR ''?'') e \<noteq> []" using assms by (auto simp: dropWhile_eq_Nil_conv)
  moreover have "length (takeWhile (\<lambda>c. c \<noteq> CHR ''?'') e) + length (dropWhile (\<lambda>c. c \<noteq> CHR ''?'') e) = length e"
    by (metis length_append takeWhile_dropWhile_id)
  ultimately show ?thesis by (cases "dropWhile (\<lambda>c. c \<noteq> CHR ''?'') e") (simp_all add: expand_entry_def)
qed

lemma try_open_loop_eq:
  assumes "length path + length nm \<le> sz"
  shows "try_open_loop dlopen sz path nm = first_open dlopen nm (path_entries path)"
  using assms
proof (induction path rule: path_entries.induct)
  case (1 path)
  let ?p = "dropWhile (\<lambda>c. c = CHR '';'') path"
  let ?e = "takeWhile (\<lambda>c. c \<noteq> CHR '';'') ?p" and ?l = "dropWhile (\<lambda>c. c \<noteq> CHR '';'') ?p"
  show ?case
  proof (cases "?p = []")
    case True
    then show ?thesis by (simp add: try_open_loop.simps [of _ _ path] path_entries.simps [of path])
  next
    case False
    have len: "length ?e \<le> length path"
      using length_takeWhile_le [of "\<lambda>c. c \<noteq> CHR '';''" ?p] length_dropWhile_le [of "\<lambda>c. c = CHR '';''" path]
      by linarith
    have IH: "try_open_loop dlopen sz ?l nm = first_open dlopen nm (path_entries ?l)"
      using 1(1) [OF refl False] 1(2) next_entry_shorter [OF refl False] by simp
    have fits: "length (expand_entry nm ?e) < sz" if "CHR ''?'' \<in> set ?e"
      using length_expand_entry [OF that, of nm] len 1(2) by linarith
    have "path_entries path = ?e # path_entries ?l"
      using False by (simp add: path_entries.simps [of path] Let_def)
    moreover have "try_open_loop dlopen sz path nm = (if CHR ''?'' \<in> set ?e then
        if length (expand_entry nm ?e) < sz then
          (case dlopen (expand_entry nm ?e) of Some dl \<Rightarrow> Inr (Some dl) | None \<Rightarrow> try_open_loop dlopen sz ?l nm)
        else Inl Out_Of_Bounds else Inl Exit_Called)"
      using False by (simp only: try_open_loop.simps [of _ _ path] Let_def mark_present take_drop_mark
        expand_entry_def if_False)
    ultimately show ?thesis using IH fits by (simp split: option.splits)
  qed
qed

text \<open>the search for a module's library tries exactly the entries of the search path, in their order,
  each with the module's name in place of the first question mark, and stops at the first that
  opens; the name never overflows the buffer it is built in, and the loop ends.\<close>

theorem try_open_searches_path:
  "try_open dlopen M nm = first_open dlopen nm (path_entries (mo_path M))"
  by (simp add: try_open_def try_open_loop_eq)

section \<open>The table\<close>

definition modules_ok :: "modules \<Rightarrow> bool" where
  "modules_ok M \<longleftrightarrow> length (mo_m M) \<le> MAX_MODULE_TYPE \<and> distinct (map sm_name (mo_m M))
     \<and> (\<forall>md \<in> set (mo_m M). sm_init md \<noteq> None)"

lemma query_from_Some:
  assumes "query_from ms nm i = Some j"
  shows "i \<le> j \<and> j < i + length ms \<and> sm_name (ms ! (j - i)) = nm"
  using assms
proof (induction ms arbitrary: i)
  case (Cons m ms)
  show ?case
  proof (cases "sm_name m = nm")
    case True
    then show ?thesis using Cons.prems by (simp add: strcmp_iff)
  next
    case False
    then have "query_from ms nm (Suc i) = Some j" using Cons.prems by (simp add: strcmp_iff)
    from Cons.IH [OF this] show ?thesis by (auto simp: nth_Cons' Suc_diff_le)
  qed
qed simp

lemma query_from_None: "query_from ms nm i = None \<longleftrightarrow> nm \<notin> sm_name ` set ms"
  by (induction ms arbitrary: i) (auto simp: strcmp_iff)

lemma query_from_append:
  "query_from ms nm i = None \<Longrightarrow> query_from (ms @ [md]) nm i = (if sm_name md = nm then Some (i + length ms) else None)"
  by (induction ms arbitrary: i) (auto simp: strcmp_iff split: if_splits)

lemma open_sym_name: "sm_name (fst (open_sym dlsym md)) = sm_name md"
  by (simp add: open_sym_def Let_def)

lemma open_sym_init: "snd (open_sym dlsym md) \<longleftrightarrow> sm_init (fst (open_sym dlsym md)) = None"
  by (simp add: open_sym_def Let_def)

text \<open>a query that finds or loads a module returns an entry of that name; the same query afterwards
  returns the same entry without loading anything; the entries that were there keep their index;
  and the table never holds more than 32 entries, two of one name, or one without an init function.\<close>

theorem module_query_stable:
  assumes ok: "modules_ok M" and q: "skynet_module_query dlopen dlsym M nm = Inr (M', r)"
  shows "modules_ok M' \<and> (\<exists>ms. mo_m M' = mo_m M @ ms)
    \<and> (\<forall>i. r = Some i \<longrightarrow> i < length (mo_m M') \<and> sm_name (mo_m M' ! i) = nm
        \<and> skynet_module_query dlopen dlsym M' nm = Inr (M', Some i))"
proof (cases "module_query M nm")
  case (Some i)
  with q have "M' = M" "r = Some i" by (simp_all add: skynet_module_query_def)
  with Some ok query_from_Some [of "mo_m M" nm 0 i] show ?thesis
    by (simp add: module_query_def skynet_module_query_def)
next
  case None
  define md where "md dl = fst (open_sym dlsym \<lparr>sm_name = nm, sm_module = dl, sm_create = None, sm_init = None,
      sm_release = None, sm_signal = None\<rparr>)" for dl
  from None q consider "M' = M" "r = None" | dl where "length (mo_m M) < MAX_MODULE_TYPE"
      "M' = M\<lparr>mo_m := mo_m M @ [md dl]\<rparr>" "r = Some (length (mo_m M))" "sm_init (md dl) \<noteq> None"
    by (auto simp: skynet_module_query_def case_prod_unfold open_sym_init md_def Let_def split: if_splits option.splits)
  moreover have name: "sm_name (md dl) = nm" for dl by (simp add: md_def open_sym_name)
  ultimately show ?thesis
  proof cases
    case 1
    then show ?thesis using ok by simp
  next
    case (2 dl)
    have "module_query M' nm = Some (length (mo_m M))"
      using query_from_append [of "mo_m M" nm 0 "md dl"] None 2(2) by (simp add: module_query_def name)
    moreover have "nm \<notin> sm_name ` set (mo_m M)" using None query_from_None [of "mo_m M" nm 0] by (simp add: module_query_def)
    ultimately show ?thesis using 2 ok
      by (auto simp: modules_ok_def name skynet_module_query_def)
  qed
qed

text \<open>The witness: a linker that has one library, with every symbol.\<close>

theorem module_query_stable_witness:
  "skynet_module_query (\<lambda>f. if f = ''./gate.so'' then Some 1 else None) (\<lambda>dl s. Some 2)
      (skynet_module_init ''./?.so'') ''gate''
    = Inr (\<lparr>mo_path = ''./?.so'', mo_m = [\<lparr>sm_name = ''gate'', sm_module = 1, sm_create = Some 2, sm_init = Some 2,
        sm_release = Some 2, sm_signal = Some 2\<rparr>]\<rparr>, Some 0)
    \<and> modules_ok \<lparr>mo_path = ''./?.so'', mo_m = [\<lparr>sm_name = ''gate'', sm_module = 1, sm_create = Some 2, sm_init = Some 2,
        sm_release = Some 2, sm_signal = Some 2\<rparr>]\<rparr>"
    (is "?q = Inr (?M, _) \<and> _")
proof -
  have q: "?q = Inr (?M, Some 0)"
    by (simp add: skynet_module_query_def module_query_def skynet_module_init_def MAX_MODULE_TYPE_def
      try_open_def try_open_loop_eq path_entries.simps expand_entry_def open_sym_def get_api_def Let_def)
  moreover have "modules_ok (skynet_module_init ''./?.so'')" by (simp add: modules_ok_def skynet_module_init_def)
  ultimately show ?thesis using module_query_stable [OF _ q] by blast
qed

end
