(* ===== verification/C_Text.thy ===== *)
theory C_Text
  imports Skynet_Prelude
begin

text \<open>
  The text functions of the C library that the sources use: \<^verbatim>\<open>strtoul\<close> and \<^verbatim>\<open>strtol\<close>, the number
  formats of \<^verbatim>\<open>sprintf\<close>, \<^verbatim>\<open>strsep\<close>, and the two-word \<^verbatim>\<open>sscanf\<close>. A C string is the list of its
  characters before the terminating NUL; reading position 0 of an empty string gives the NUL.
\<close>

definition char0 :: "string \<Rightarrow> char" where
  "char0 s = (case s of [] \<Rightarrow> CHR 0x00 | c # _ \<Rightarrow> c)"

definition isspace :: "char \<Rightarrow> bool" where
  "isspace c \<longleftrightarrow> c \<in> {CHR '' '', CHR 0x09, CHR 0x0A, CHR 0x0B, CHR 0x0C, CHR 0x0D}"

definition byte_of :: "char \<Rightarrow> nat" where
  "byte_of c = of_char c"

definition digit_value :: "char \<Rightarrow> nat option" where
  "digit_value c =
     (let n = byte_of c in
      if 48 \<le> n \<and> n \<le> 57 then Some (n - 48)
      else if 97 \<le> n \<and> n \<le> 122 then Some (n - 87)
      else if 65 \<le> n \<and> n \<le> 90 then Some (n - 55)
      else None)"

definition base_digit :: "nat \<Rightarrow> char \<Rightarrow> nat option" where
  "base_digit base c = (case digit_value c of None \<Rightarrow> None | Some d \<Rightarrow> if d < base then Some d else None)"

fun scan_number :: "nat \<Rightarrow> nat \<Rightarrow> string \<Rightarrow> nat" where
  "scan_number base acc [] = acc"
| "scan_number base acc (c # cs) =
     (case base_digit base c of None \<Rightarrow> acc | Some d \<Rightarrow> scan_number base (acc * base + d) cs)"

text \<open>A \<^verbatim>\<open>0x\<close> counts as a prefix only before a hexadecimal digit.\<close>

fun skip_0x :: "string \<Rightarrow> string" where
  "skip_0x (z # x # c # cs) =
     (if z = CHR ''0'' \<and> (x = CHR ''x'' \<or> x = CHR ''X'') \<and> base_digit 16 c \<noteq> None then c # cs else z # x # c # cs)"
| "skip_0x s = s"

definition parse_sign :: "string \<Rightarrow> bool \<times> string" where
  "parse_sign s = (case dropWhile isspace s of
     [] \<Rightarrow> (False, [])
   | c # cs \<Rightarrow> if c = CHR ''-'' then (True, cs) else if c = CHR ''+'' then (False, cs) else (False, c # cs))"

text \<open>Base 0 chooses the base by the prefix.\<close>

definition parse_magnitude :: "nat \<Rightarrow> string \<Rightarrow> nat" where
  "parse_magnitude base s =
     (if base = 16 then scan_number 16 0 (skip_0x s)
      else if base = 0 then
        if skip_0x s \<noteq> s then scan_number 16 0 (skip_0x s)
        else if char0 s = CHR ''0'' then scan_number 8 0 s else scan_number 10 0 s
      else scan_number base 0 s)"

text \<open>\<^verbatim>\<open>strtoul\<close> saturates at the largest \<^verbatim>\<open>unsigned long\<close>; a minus sign negates in that type.\<close>

definition strtoul :: "string \<Rightarrow> nat \<Rightarrow> u64" where
  "strtoul s base =
     (let (neg, cs) = parse_sign s; n = parse_magnitude base cs in
      if n \<ge> 2 ^ 64 then - 1 else if neg then - of_nat n else of_nat n)"

definition strtol :: "string \<Rightarrow> nat \<Rightarrow> int" where
  "strtol s base =
     (let (neg, cs) = parse_sign s; n = int (parse_magnitude base cs) in
      if neg then max (- (2 ^ 63)) (- n) else min (2 ^ 63 - 1) n)"

section \<open>Printing numbers\<close>

definition digit_lower :: "nat \<Rightarrow> char" where
  "digit_lower d = char_of (if d < 10 then 48 + d else 87 + d)"

definition digit_upper :: "nat \<Rightarrow> char" where
  "digit_upper d = char_of (if d < 10 then 48 + d else 55 + d)"

function number_digits :: "nat \<Rightarrow> nat \<Rightarrow> string" where
  "number_digits base n =
     (if base < 2 \<or> n < base then [digit_lower n] else number_digits base (n div base) @ [digit_lower (n mod base)])"
  by pat_completeness auto
termination
  by (relation "measure snd") auto

declare number_digits.simps [simp del]

text \<open>The formats \<^verbatim>\<open>%x\<close>, \<^verbatim>\<open>%08x\<close>, \<^verbatim>\<open>%u\<close> and \<^verbatim>\<open>%d\<close>.\<close>

definition fmt_x :: "u32 \<Rightarrow> string" where
  "fmt_x n = number_digits 16 (unat n)"

definition fmt_08x :: "u32 \<Rightarrow> string" where
  "fmt_08x n = (let s = fmt_x n in replicate (8 - length s) (CHR ''0'') @ s)"

definition fmt_u :: "nat \<Rightarrow> string" where
  "fmt_u n = number_digits 10 n"

definition fmt_d :: "int \<Rightarrow> string" where
  "fmt_d n = (if n < 0 then CHR ''-'' # number_digits 10 (nat (- n)) else number_digits 10 (nat n))"

section \<open>Splitting\<close>

text \<open>\<^verbatim>\<open>strsep\<close>: the token up to the first delimiter, and where the scan continues.\<close>

definition strsep :: "string \<Rightarrow> char set \<Rightarrow> string \<times> string option" where
  "strsep s ds = (takeWhile (\<lambda>c. c \<notin> ds) s,
     case dropWhile (\<lambda>c. c \<notin> ds) s of [] \<Rightarrow> None | _ # r \<Rightarrow> Some r)"

text \<open>\<^verbatim>\<open>sscanf(s, "%s %s", a, b)\<close>: \<open>None\<close> for a buffer that is not written.\<close>

definition scan_word :: "string \<Rightarrow> string option \<times> string" where
  "scan_word s =
     (let t = dropWhile isspace s in
      if t = [] then (None, []) else (Some (takeWhile (\<lambda>c. \<not> isspace c) t), dropWhile (\<lambda>c. \<not> isspace c) t))"

definition sscanf_2s :: "string \<Rightarrow> string option \<times> string option" where
  "sscanf_2s s = (let (a, r) = scan_word s in (a, fst (scan_word r)))"

section \<open>Reading back what was printed\<close>

lemma byte_of_char_of: "n < 256 \<Longrightarrow> byte_of (char_of n) = n"
  by (simp add: byte_of_def)

lemma base_digit_print:
  assumes "d < 16" "d < base"
  shows "base_digit base (digit_lower d) = Some d" "base_digit base (digit_upper d) = Some d"
  using assms by (auto simp: base_digit_def digit_value_def digit_lower_def digit_upper_def
    byte_of_char_of Let_def)

lemma scan_number_append:
  assumes "\<forall>c \<in> set xs. base_digit base c \<noteq> None"
  shows "scan_number base acc (xs @ ys) = scan_number base (scan_number base acc xs) ys"
  using assms by (induction xs arbitrary: acc) (auto split: option.splits)

lemma number_digits_valid:
  assumes "2 \<le> base" "base \<le> 16"
  shows "\<forall>c \<in> set (number_digits base n). base_digit base c \<noteq> None"
proof (induction n rule: less_induct)
  case (less n)
  show ?case
  proof (cases "n < base")
    case True
    then show ?thesis using assms by (simp add: number_digits.simps [of base n] base_digit_print)
  next
    case False
    then have "n div base < n" using assms(1) by simp
    moreover have "base_digit base (digit_lower (n mod base)) = Some (n mod base)"
      using assms by (intro base_digit_print) (simp_all add: less_le_trans [of _ base])
    ultimately show ?thesis using less.IH [of "n div base"] False assms(1)
      by (simp add: number_digits.simps [of base n])
  qed
qed

lemma scan_number_digits:
  assumes "2 \<le> base" "base \<le> 16"
  shows "scan_number base 0 (number_digits base n) = n"
proof (induction n rule: less_induct)
  case (less n)
  show ?case
  proof (cases "n < base")
    case True
    then show ?thesis using assms by (simp add: number_digits.simps [of base n] base_digit_print)
  next
    case False
    then have "n div base < n" using assms(1) by simp
    from less.IH [OF this] have "scan_number base 0 (number_digits base (n div base) @ [digit_lower (n mod base)])
        = scan_number base (n div base) [digit_lower (n mod base)]"
      using number_digits_valid [OF assms] by (simp add: scan_number_append)
    also have "base_digit base (digit_lower (n mod base)) = Some (n mod base)"
      using assms by (intro base_digit_print) (simp_all add: less_le_trans [of _ base])
    then have "scan_number base (n div base) [digit_lower (n mod base)] = n" by simp
    finally show ?thesis using False assms(1) by (simp add: number_digits.simps [of base n])
  qed
qed

lemma number_digits_nonempty [simp]: "number_digits base n \<noteq> []"
  by (simp add: number_digits.simps [of base n])

lemma hex_not_special: "base_digit 16 c \<noteq> None \<Longrightarrow> \<not> isspace c \<and> c \<noteq> CHR ''-'' \<and> c \<noteq> CHR ''+'' \<and> c \<noteq> CHR ''x'' \<and> c \<noteq> CHR ''X''"
  by (auto simp: base_digit_def digit_value_def byte_of_def isspace_def Let_def split: if_splits)

lemma parse_sign_digits:
  assumes "\<forall>c \<in> set s. base_digit 16 c \<noteq> None"
  shows "parse_sign s = (False, s)"
proof (cases s)
  case (Cons c cs)
  then show ?thesis using hex_not_special [of c] assms by (simp add: parse_sign_def)
qed (simp add: parse_sign_def)

lemma skip_0x_digits: "\<forall>c \<in> set s. base_digit 16 c \<noteq> None \<Longrightarrow> skip_0x s = s"
  using hex_not_special by (cases s rule: skip_0x.cases) fastforce+

lemma strtoul_hex:
  assumes "\<forall>c \<in> set s. base_digit 16 c \<noteq> None" "scan_number 16 0 s < 2 ^ 64"
  shows "strtoul s 16 = of_nat (scan_number 16 0 s)"
  using assms by (simp add: strtoul_def parse_sign_digits parse_magnitude_def skip_0x_digits)

lemma strtoul_fmt_x: "strtoul (fmt_x h) 16 = ucast h"
proof -
  have "unat h < 2 ^ 32" using unsigned_less [of h, where 'a = nat] by simp
  then show ?thesis
    using strtoul_hex [of "number_digits 16 (unat h)"] number_digits_valid [of 16 "unat h"]
      scan_number_digits [of 16 "unat h"] unfolding fmt_x_def by simp
qed

end
