(* ===== verification/Skynet_Server.thy ===== *)
theory Skynet_Server
  imports Message_Queue Timer_Wheel Handle_Storage Skynet_Modules C_Text
begin

text \<open>
  The node: services (\<^verbatim>\<open>struct skynet_context\<close>) with their reference counts, message sending and
  dispatch, of \<^verbatim>\<open>skynet-src/skynet_server.c\<close>, with \<^verbatim>\<open>skynet_harbor.c\<close>, \<^verbatim>\<open>skynet_monitor.c\<close>,
  \<^verbatim>\<open>skynet_error.c\<close>, \<^verbatim>\<open>skynet_env.c\<close> and the delivery side of \<^verbatim>\<open>skynet_timer.c\<close>.

  The node's state extends the state of the message queues: one record with the stores of contexts
  and of message data (both addressed), the handle table, the module table, the timer, and the
  globals of the files above. What runs inside a service (its module's functions and its message
  callback), the thread clock and the log files are not part of these sources; they are the
  fields of a record \<open>world\<close>, functions on the node's state, since a service may call back into
  the node. Every function below is one step of one thread.
\<close>

section \<open>Data\<close>

record skynet_context =
  c_instance :: ptr
  c_mod :: nat
  c_cb_ud :: "ptr option"
  c_cb :: "ptr option"
  c_queue :: qptr
  c_logfile :: "ptr option"
  c_cpu_cost :: u64
  c_cpu_start :: u64
  c_result :: string
  c_handle :: u32
  c_session_id :: i32
  c_ref :: int
  c_message_count :: i32
  c_init :: bool
  c_endless :: bool
  c_profile :: bool

text \<open>\<^verbatim>\<open>rm_name\<close> is \<open>None\<close> where the code leaves the name array unwritten.\<close>

record remote_message =
  rm_name :: "string option"
  rm_handle :: u32
  rm_message :: "ptr option"
  rm_sz :: u64
  rm_type :: i32

text \<open>A \<^verbatim>\<open>struct skynet_socket_message\<close> with the text that follows it in the same block.\<close>

record socket_block =
  sk_type :: nat
  sk_id :: int
  sk_ud :: int
  sk_buffer :: "ptr option"
  sk_text :: "u8 list"

text \<open>A block of allocated memory: bytes, a \<^verbatim>\<open>struct remote_message\<close> or a message of a socket.\<close>

datatype block = Bytes "u8 list" | Remote remote_message | Socket_block socket_block

record node = mq_state +
  ctxs :: "ptr \<Rightarrow> skynet_context option"
  ctx_brk :: ptr
  mem :: "ptr \<Rightarrow> block option"
  mem_brk :: ptr
  handles :: handle_storage
  node_modules :: modules
  node_total :: int
  node_init :: bool
  monitor_exit :: u32
  handle_key :: u32
  node_profile :: bool
  REMOTE :: "ptr option"
  HARBOR :: u32
  TI :: timer
  node_env :: "string \<Rightarrow> string option"
  logger :: u32

record world =
  w_dlopen :: "string \<Rightarrow> ptr option"
  w_dlsym :: "ptr \<Rightarrow> string \<Rightarrow> ptr option"
  w_create :: "ptr \<Rightarrow> node \<Rightarrow> (node \<times> ptr option) res"
  w_init :: "ptr \<Rightarrow> ptr \<Rightarrow> ptr \<Rightarrow> string option \<Rightarrow> node \<Rightarrow> (node \<times> int) res"
  w_release :: "ptr \<Rightarrow> ptr \<Rightarrow> node \<Rightarrow> node res"
  w_signal :: "ptr \<Rightarrow> ptr \<Rightarrow> int \<Rightarrow> node \<Rightarrow> node res"
  w_cb :: "ptr \<Rightarrow> ptr \<Rightarrow> ptr option \<Rightarrow> nat \<Rightarrow> i32 \<Rightarrow> u32 \<Rightarrow> ptr option \<Rightarrow> u64 \<Rightarrow> node \<Rightarrow> (node \<times> int) res"
  w_thread_time :: "node \<Rightarrow> u64"
  w_seconds :: "u64 \<Rightarrow> string"
  w_log_open :: "ptr \<Rightarrow> u32 \<Rightarrow> node \<Rightarrow> (node \<times> ptr option) res"
  w_log_close :: "ptr \<Rightarrow> node \<Rightarrow> node res"
  w_log_output :: "ptr \<Rightarrow> u32 \<Rightarrow> nat \<Rightarrow> i32 \<Rightarrow> ptr option \<Rightarrow> u64 \<Rightarrow> node \<Rightarrow> node res"

definition PTYPE_TEXT :: i32 where "PTYPE_TEXT = 0"
definition PTYPE_RESPONSE :: i32 where "PTYPE_RESPONSE = 1"
definition PTYPE_CLIENT :: i32 where "PTYPE_CLIENT = 3"
definition PTYPE_SYSTEM :: i32 where "PTYPE_SYSTEM = 4"
definition PTYPE_HARBOR :: i32 where "PTYPE_HARBOR = 5"
definition PTYPE_ERROR :: i32 where "PTYPE_ERROR = 7"
definition PTYPE_TAG_DONTCOPY :: i32 where "PTYPE_TAG_DONTCOPY = 0x10000"
definition PTYPE_TAG_ALLOCSESSION :: i32 where "PTYPE_TAG_ALLOCSESSION = 0x20000"
definition MESSAGE_TYPE_SHIFT :: nat where "MESSAGE_TYPE_SHIFT = 56"
definition MESSAGE_TYPE_MASK :: u64 where "MESSAGE_TYPE_MASK = drop_bit 8 (- 1)"
definition GLOBALNAME_LENGTH :: nat where "GLOBALNAME_LENGTH = 16"

text \<open>The node before start-up.\<close>

definition node0 :: node where
  "node0 = \<lparr>mq_heap = (\<lambda>_. None), mq_brk = 0, gq_head = None, gq_tail = None, ctxs = (\<lambda>_. None), ctx_brk = 0,
     mem = (\<lambda>_. None), mem_brk = 0, handles = skynet_handle_init 0, node_modules = skynet_module_init [],
     node_total = 0, node_init = False, monitor_exit = 0, handle_key = 0, node_profile = False,
     REMOTE = None, HARBOR = - 1, TI = timer_create_timer, node_env = (\<lambda>_. None), logger = 0\<rparr>"

section \<open>Memory\<close>

definition mem_alloc :: "block \<Rightarrow> node \<Rightarrow> node \<times> ptr" where
  "mem_alloc b st = (st\<lparr>mem := (mem st)(mem_brk st \<mapsto> b), mem_brk := Suc (mem_brk st)\<rparr>, mem_brk st)"

text \<open>Freeing NULL does nothing; freeing what is not allocated is a fault.\<close>

definition skynet_free :: "ptr option \<Rightarrow> node \<Rightarrow> node res" where
  "skynet_free d st = (case d of
     None \<Rightarrow> Inr st
   | Some p \<Rightarrow> bindE (derefE (mem st p)) (\<lambda>_. Inr (st\<lparr>mem := (mem st)(p := None)\<rparr>)))"

definition upd_ctx :: "ptr \<Rightarrow> (skynet_context \<Rightarrow> skynet_context) \<Rightarrow> node \<Rightarrow> node res" where
  "upd_ctx p f st = bindE (derefE (ctxs st p)) (\<lambda>c. Inr (st\<lparr>ctxs := (ctxs st)(p \<mapsto> f c)\<rparr>))"

text \<open>The handle fields of the live contexts, as the handle table reads them.\<close>

definition ctx_handles :: "node \<Rightarrow> ptr \<Rightarrow> u32 option" where
  "ctx_handles st p = map_option c_handle (ctxs st p)"

section \<open>The node's globals\<close>

definition skynet_context_total :: "node \<Rightarrow> int" where
  "skynet_context_total st = node_total st"

definition context_inc :: "node \<Rightarrow> node" where
  "context_inc st = st\<lparr>node_total := node_total st + 1\<rparr>"

definition context_dec :: "node \<Rightarrow> node" where
  "context_dec st = st\<lparr>node_total := node_total st - 1\<rparr>"

definition THREAD_MAIN :: int where "THREAD_MAIN = 1"

definition skynet_initthread :: "int \<Rightarrow> node \<Rightarrow> node" where
  "skynet_initthread m st = st\<lparr>handle_key := word_of_int (- m)\<rparr>"

definition skynet_current_handle :: "node \<Rightarrow> u32" where
  "skynet_current_handle st = (if node_init st then handle_key st else word_of_int (- THREAD_MAIN))"

definition skynet_globalinit :: "node \<Rightarrow> node" where
  "skynet_globalinit st = skynet_initthread THREAD_MAIN (st\<lparr>node_total := 0, monitor_exit := 0, node_init := True\<rparr>)"

definition skynet_profile_enable :: "int \<Rightarrow> node \<Rightarrow> node" where
  "skynet_profile_enable enable st = st\<lparr>node_profile := (enable \<noteq> 0)\<rparr>"

text \<open>\<^verbatim>\<open>id_to_hex\<close>: a colon and the eight upper-case digits of the handle.\<close>

definition id_to_hex :: "u32 \<Rightarrow> string" where
  "id_to_hex i = CHR '':'' # map (\<lambda>k. digit_upper (unat (drop_bit ((7 - k) * 4) i AND 0xf))) [0..<8]"

section \<open>Environment\<close>

definition skynet_getenv :: "string \<Rightarrow> node \<Rightarrow> string option" where
  "skynet_getenv key st = node_env st key"

definition skynet_setenv :: "string \<Rightarrow> string \<Rightarrow> node \<Rightarrow> node res" where
  "skynet_setenv key val st =
     bindE (assertE (node_env st key = None)) (\<lambda>_. Inr (st\<lparr>node_env := (node_env st)(key \<mapsto> val)\<rparr>))"

section \<open>Modules\<close>

definition node_module_query :: "world \<Rightarrow> string \<Rightarrow> node \<Rightarrow> (node \<times> nat option) res" where
  "node_module_query W nm st =
     bindE (skynet_module_query (w_dlopen W) (w_dlsym W) (node_modules st) nm) (\<lambda>(M, r).
     Inr (st\<lparr>node_modules := M\<rparr>, r))"

text \<open>The instance of a module without a create function is the pointer \<^verbatim>\<open>~0\<close>.\<close>

definition skynet_module_instance_create :: "world \<Rightarrow> nat \<Rightarrow> node \<Rightarrow> (node \<times> ptr option) res" where
  "skynet_module_instance_create W m st =
     bindE (nthE (mo_m (node_modules st)) m) (\<lambda>md.
     case sm_create md of Some f \<Rightarrow> w_create W f st | None \<Rightarrow> Inr (st, Some (2 ^ 64 - 1)))"

definition skynet_module_instance_init ::
    "world \<Rightarrow> nat \<Rightarrow> ptr \<Rightarrow> ptr \<Rightarrow> string option \<Rightarrow> node \<Rightarrow> (node \<times> int) res" where
  "skynet_module_instance_init W m inst ctx parm st =
     bindE (nthE (mo_m (node_modules st)) m) (\<lambda>md.
     bindE (derefE (sm_init md)) (\<lambda>f. w_init W f inst ctx parm st))"

definition skynet_module_instance_release :: "world \<Rightarrow> nat \<Rightarrow> ptr \<Rightarrow> node \<Rightarrow> node res" where
  "skynet_module_instance_release W m inst st =
     bindE (nthE (mo_m (node_modules st)) m) (\<lambda>md.
     case sm_release md of Some f \<Rightarrow> w_release W f inst st | None \<Rightarrow> Inr st)"

definition skynet_module_instance_signal :: "world \<Rightarrow> nat \<Rightarrow> ptr \<Rightarrow> int \<Rightarrow> node \<Rightarrow> node res" where
  "skynet_module_instance_signal W m inst sig st =
     bindE (nthE (mo_m (node_modules st)) m) (\<lambda>md.
     case sm_signal md of Some f \<Rightarrow> w_signal W f inst sig st | None \<Rightarrow> Inr st)"

section \<open>Contexts and their references\<close>

definition skynet_context_handle :: "ptr \<Rightarrow> node \<Rightarrow> u32 res" where
  "skynet_context_handle p st = bindE (derefE (ctxs st p)) (\<lambda>c. Inr (c_handle c))"

definition skynet_callback :: "ptr \<Rightarrow> ptr option \<Rightarrow> ptr option \<Rightarrow> node \<Rightarrow> node res" where
  "skynet_callback p ud cb st = upd_ctx p (\<lambda>c. c\<lparr>c_cb := cb, c_cb_ud := ud\<rparr>) st"

definition skynet_context_newsession :: "ptr \<Rightarrow> node \<Rightarrow> (node \<times> i32) res" where
  "skynet_context_newsession p st =
     bindE (derefE (ctxs st p)) (\<lambda>c.
     let session = c_session_id c + 1;
         session = (if sint session \<le> 0 then 1 else session)
     in bindE (upd_ctx p (\<lambda>c. c\<lparr>c_session_id := session\<rparr>) st) (\<lambda>st1. Inr (st1, session)))"

definition skynet_context_grab :: "ptr \<Rightarrow> node \<Rightarrow> node res" where
  "skynet_context_grab p st = upd_ctx p (\<lambda>c. c\<lparr>c_ref := c_ref c + 1\<rparr>) st"

definition skynet_context_reserve :: "ptr \<Rightarrow> node \<Rightarrow> node res" where
  "skynet_context_reserve p st = bindE (skynet_context_grab p st) (\<lambda>st1. Inr (context_dec st1))"

definition delete_context :: "world \<Rightarrow> ptr \<Rightarrow> node \<Rightarrow> node res" where
  "delete_context W p st =
     bindE (derefE (ctxs st p)) (\<lambda>c.
     bindE (case c_logfile c of None \<Rightarrow> Inr st | Some f \<Rightarrow> w_log_close W f st) (\<lambda>st1.
     bindE (skynet_module_instance_release W (c_mod c) (c_instance c) st1) (\<lambda>st2.
     bindE (derefE (ctxs st2 p)) (\<lambda>c2.
     bindE (skynet_mq_mark_release st2 (c_queue c2)) (\<lambda>st3.
     Inr (context_dec (st3\<lparr>ctxs := (ctxs st3)(p := None)\<rparr>)))))))"

definition skynet_context_release :: "world \<Rightarrow> ptr \<Rightarrow> node \<Rightarrow> (node \<times> ptr option) res" where
  "skynet_context_release W p st =
     bindE (derefE (ctxs st p)) (\<lambda>c.
     bindE (upd_ctx p (\<lambda>c. c\<lparr>c_ref := c_ref c - 1\<rparr>) st) (\<lambda>st1.
     if c_ref c = 1 then bindE (delete_context W p st1) (\<lambda>st2. Inr (st2, None))
     else Inr (st1, Some p)))"

definition skynet_handle_grab :: "u32 \<Rightarrow> node \<Rightarrow> (node \<times> ptr option) res" where
  "skynet_handle_grab h st =
     bindE (handle_grab (ctx_handles st) h (handles st)) (\<lambda>r.
     case r of
       None \<Rightarrow> Inr (st, None)
     | Some p \<Rightarrow> bindE (skynet_context_grab p st) (\<lambda>st1. Inr (st1, Some p)))"

definition skynet_handle_retire :: "world \<Rightarrow> u32 \<Rightarrow> node \<Rightarrow> (node \<times> bool) res" where
  "skynet_handle_retire W h st =
     bindE (handle_retire (ctx_handles st) h (handles st)) (\<lambda>(hs, r).
     let st1 = st\<lparr>handles := hs\<rparr> in
     case r of
       None \<Rightarrow> Inr (st1, False)
     | Some p \<Rightarrow> bindE (skynet_context_release W p st1) (\<lambda>(st2, _). Inr (st2, True)))"

text \<open>
  \<^verbatim>\<open>skynet_handle_retireall\<close>: both loops, at slot \<open>i\<close> of a pass that has retired \<open>n\<close> services; it ends
  with a pass that retires none.
\<close>

partial_function (option) retireall_loop :: "world \<Rightarrow> nat \<Rightarrow> nat \<Rightarrow> node \<Rightarrow> node res option" where
  "retireall_loop W i n st =
     (if i < slot_size (handles st) then
        case (case slot (handles st) ! i of
                None \<Rightarrow> Inr 0
              | Some p \<Rightarrow> skynet_context_handle p st) of
          Inl e \<Rightarrow> Some (Inl e)
        | Inr h \<Rightarrow>
            if h \<noteq> 0 then
              case skynet_handle_retire W h st of
                Inl e \<Rightarrow> Some (Inl e)
              | Inr (st1, ret) \<Rightarrow> retireall_loop W (Suc i) (if ret then Suc n else n) st1
            else retireall_loop W (Suc i) n st
      else if n = 0 then Some (Inr st) else retireall_loop W 0 0 st)"

definition skynet_handle_retireall :: "world \<Rightarrow> node \<Rightarrow> node res" where
  "skynet_handle_retireall W st =
     (case retireall_loop W 0 0 st of None \<Rightarrow> Inl Diverges | Some r \<Rightarrow> r)"

section \<open>Sending\<close>

definition skynet_context_push :: "world \<Rightarrow> u32 \<Rightarrow> skynet_message \<Rightarrow> node \<Rightarrow> (node \<times> i32) res" where
  "skynet_context_push W h message st =
     bindE (skynet_handle_grab h st) (\<lambda>(st1, r).
     case r of
       None \<Rightarrow> Inr (st1, - 1)
     | Some p \<Rightarrow>
         bindE (derefE (ctxs st1 p)) (\<lambda>c.
         bindE (skynet_mq_push st1 (c_queue c) message) (\<lambda>st2.
         bindE (skynet_context_release W p st2) (\<lambda>(st3, _). Inr (st3, 0)))))"

definition skynet_context_send ::
    "ptr \<Rightarrow> ptr option \<Rightarrow> u64 \<Rightarrow> u32 \<Rightarrow> i32 \<Rightarrow> i32 \<Rightarrow> node \<Rightarrow> node res" where
  "skynet_context_send p msg sz source type session st =
     bindE (derefE (ctxs st p)) (\<lambda>c.
     skynet_mq_push st (c_queue c) \<lparr>msg_source = source, msg_session = session, msg_data = msg,
       msg_sz = sz OR push_bit MESSAGE_TYPE_SHIFT (scast type)\<rparr>)"

text \<open>
  \<^verbatim>\<open>skynet_error\<close>, with the formatted message as its argument: it is sent to the service named
  \<^verbatim>\<open>logger\<close>, whose handle is looked up once.
\<close>

definition skynet_error :: "world \<Rightarrow> ptr option \<Rightarrow> string \<Rightarrow> node \<Rightarrow> node res" where
  "skynet_error W context msg st =
     bindE (if logger st = 0 then bindE (skynet_handle_findname ''logger'' (handles st)) (\<lambda>h. Inr (st\<lparr>logger := h\<rparr>))
            else Inr st) (\<lambda>st1.
     if logger st1 = 0 then Inr st1
     else
       bindE (case context of None \<Rightarrow> Inr 0 | Some p \<Rightarrow> skynet_context_handle p st1) (\<lambda>source.
       let (st2, data) = mem_alloc (Bytes (map of_char msg @ [0])) st1 in
       bindE (skynet_context_push W (logger st2) \<lparr>msg_source = source, msg_session = 0, msg_data = Some data,
         msg_sz = of_nat (length msg) OR push_bit MESSAGE_TYPE_SHIFT (ucast PTYPE_TEXT)\<rparr> st2) (\<lambda>(st3, _).
       Inr st3)))"

definition invalid_type :: "i32 \<Rightarrow> bool" where
  "invalid_type type \<longleftrightarrow> type \<noteq> PTYPE_SYSTEM \<and> type \<noteq> PTYPE_HARBOR"

text \<open>The 48 is \<^verbatim>\<open>sizeof(struct remote_message)\<close> on a 64-bit machine.\<close>

definition skynet_harbor_send :: "ptr \<Rightarrow> u32 \<Rightarrow> i32 \<Rightarrow> node \<Rightarrow> node res" where
  "skynet_harbor_send rmsg source session st =
     (case mem st rmsg of
        Some (Remote r) \<Rightarrow>
          bindE (assertE (invalid_type (rm_type r) \<and> REMOTE st \<noteq> None)) (\<lambda>_.
          bindE (derefE (REMOTE st)) (\<lambda>p. skynet_context_send p (Some rmsg) 48 source PTYPE_SYSTEM session st))
      | _ \<Rightarrow> Inl Null_Deref)"

definition skynet_harbor_message_isremote :: "u32 \<Rightarrow> node \<Rightarrow> bool res" where
  "skynet_harbor_message_isremote h st =
     bindE (assertE (HARBOR st \<noteq> - 1)) (\<lambda>_.
     let hb = h AND NOT HANDLE_MASK in Inr (hb \<noteq> HARBOR st \<and> hb \<noteq> 0))"

definition skynet_harbor_init :: "i32 \<Rightarrow> node \<Rightarrow> node" where
  "skynet_harbor_init hb st = st\<lparr>HARBOR := push_bit HANDLE_REMOTE_SHIFT hb\<rparr>"

definition skynet_harbor_start :: "ptr \<Rightarrow> node \<Rightarrow> node res" where
  "skynet_harbor_start p st = bindE (skynet_context_reserve p st) (\<lambda>st1. Inr (st1\<lparr>REMOTE := Some p\<rparr>))"

definition skynet_harbor_exit :: "world \<Rightarrow> node \<Rightarrow> node res" where
  "skynet_harbor_exit W st =
     (let st1 = st\<lparr>REMOTE := None\<rparr> in
      case REMOTE st of
        None \<Rightarrow> Inr st1
      | Some p \<Rightarrow> bindE (skynet_context_release W p st1) (\<lambda>(st2, _). Inr st2))"

definition skynet_isremote :: "u32 \<Rightarrow> node \<Rightarrow> (bool \<times> u32) res" where
  "skynet_isremote h st =
     bindE (skynet_harbor_message_isremote h st) (\<lambda>r. Inr (r, drop_bit HANDLE_REMOTE_SHIFT h))"

text \<open>
  \<^verbatim>\<open>_filter_args\<close>: allocates a session and copies the data if the type's tags ask for it, and puts
  the type into the top byte of the size.
\<close>

definition filter_args :: "ptr option \<Rightarrow> i32 \<Rightarrow> i32 \<Rightarrow> ptr option \<Rightarrow> u64 \<Rightarrow> node
    \<Rightarrow> (node \<times> i32 \<times> ptr option \<times> u64) res" where
  "filter_args context type session data sz st =
     (let needcopy = (type AND PTYPE_TAG_DONTCOPY = 0);
          allocsession = (type AND PTYPE_TAG_ALLOCSESSION \<noteq> 0);
          type = type AND 0xff in
      bindE (if allocsession then
               bindE (assertE (session = 0)) (\<lambda>_. bindE (derefE context) (\<lambda>p. skynet_context_newsession p st))
             else Inr (st, session)) (\<lambda>(st1, session).
      bindE (case data of
               Some d \<Rightarrow>
                 if needcopy then
                   (case mem st1 d of
                      Some (Bytes bs) \<Rightarrow>
                        if unat sz \<le> length bs then
                          (let (st2, p) = mem_alloc (Bytes (take (unat sz) bs @ [0])) st1 in Inr (st2, Some p))
                        else Inl Out_Of_Bounds
                    | _ \<Rightarrow> Inl Null_Deref)
                 else Inr (st1, Some d)
             | None \<Rightarrow> Inr (st1, None)) (\<lambda>(st2, data).
      Inr (st2, session, data, sz OR push_bit MESSAGE_TYPE_SHIFT (ucast type)))))"

definition source_handle :: "ptr option \<Rightarrow> u32 \<Rightarrow> node \<Rightarrow> u32 res" where
  "source_handle context source st =
     (if source = 0 then bindE (derefE context) (\<lambda>p. skynet_context_handle p st) else Inr source)"

definition free_if_dontcopy :: "i32 \<Rightarrow> ptr option \<Rightarrow> node \<Rightarrow> node res" where
  "free_if_dontcopy type data st =
     (if type AND PTYPE_TAG_DONTCOPY \<noteq> 0 then skynet_free data st else Inr st)"

definition skynet_send :: "world \<Rightarrow> ptr option \<Rightarrow> u32 \<Rightarrow> u32 \<Rightarrow> i32 \<Rightarrow> i32 \<Rightarrow> ptr option \<Rightarrow> u64 \<Rightarrow> node
    \<Rightarrow> (node \<times> i32) res" where
  "skynet_send W context source destination type session data sz st =
     (if sz AND MESSAGE_TYPE_MASK \<noteq> sz then
        bindE (skynet_error W context (''The message to '' @ fmt_x destination @ '' is too large'') st) (\<lambda>st1.
        bindE (free_if_dontcopy type data st1) (\<lambda>st2. Inr (st2, - 2)))
      else
        bindE (filter_args context type session data sz st) (\<lambda>(st1, session, data, sz).
        bindE (source_handle context source st1) (\<lambda>source.
        if destination = 0 then
          if data \<noteq> None then
            bindE (skynet_error W context ''Destination address can't be 0'' st1) (\<lambda>st2.
            bindE (skynet_free data st2) (\<lambda>st3. Inr (st3, - 1)))
          else Inr (st1, session)
        else
          bindE (skynet_harbor_message_isremote destination st1) (\<lambda>remote.
          if remote then
            (let (st2, rmsg) = mem_alloc (Remote \<lparr>rm_name = None, rm_handle = destination, rm_message = data,
                   rm_sz = sz AND MESSAGE_TYPE_MASK, rm_type = ucast (drop_bit MESSAGE_TYPE_SHIFT sz)\<rparr>) st1 in
             bindE (skynet_harbor_send rmsg source session st2) (\<lambda>st3. Inr (st3, session)))
          else
            bindE (skynet_context_push W destination \<lparr>msg_source = source, msg_session = session,
              msg_data = data, msg_sz = sz\<rparr> st1) (\<lambda>(st2, r).
            if r \<noteq> 0 then bindE (skynet_free data st2) (\<lambda>st3. Inr (st3, - 1))
            else Inr (st2, session))))))"

text \<open>\<^verbatim>\<open>copy_name\<close>: at most 16 characters, padded with NULs.\<close>

definition copy_name :: "string \<Rightarrow> string" where
  "copy_name addr = (let n = take GLOBALNAME_LENGTH addr in n @ replicate (GLOBALNAME_LENGTH - length n) (CHR 0x00))"

definition skynet_sendname :: "world \<Rightarrow> ptr option \<Rightarrow> u32 \<Rightarrow> string \<Rightarrow> i32 \<Rightarrow> i32 \<Rightarrow> ptr option \<Rightarrow> u64 \<Rightarrow> node
    \<Rightarrow> (node \<times> i32) res" where
  "skynet_sendname W context source addr type session data sz st =
     bindE (source_handle context source st) (\<lambda>source.
     if char0 addr = CHR '':'' then
       skynet_send W context source (ucast (strtoul (tl addr) 16)) type session data sz st
     else if char0 addr = CHR ''.'' then
       bindE (skynet_handle_findname (tl addr) (handles st)) (\<lambda>des.
       if des = 0 then bindE (free_if_dontcopy type data st) (\<lambda>st1. Inr (st1, - 1))
       else skynet_send W context source des type session data sz st)
     else if sz AND MESSAGE_TYPE_MASK \<noteq> sz then
       bindE (skynet_error W context (''The message to '' @ addr @ '' is too large'') st) (\<lambda>st1.
       bindE (free_if_dontcopy type data st1) (\<lambda>st2. Inr (st2, - 2)))
     else
       bindE (filter_args context type session data sz st) (\<lambda>(st1, session, data, sz).
       let (st2, rmsg) = mem_alloc (Remote \<lparr>rm_name = Some (copy_name addr), rm_handle = 0, rm_message = data,
             rm_sz = sz AND MESSAGE_TYPE_MASK, rm_type = ucast (drop_bit MESSAGE_TYPE_SHIFT sz)\<rparr>) st1 in
       bindE (skynet_harbor_send rmsg source session st2) (\<lambda>st3. Inr (st3, session))))"

text \<open>\<^verbatim>\<open>drop_message\<close>, with the handle of the queue's owner: tells the sender of an undeliverable message.\<close>

definition drop_message :: "world \<Rightarrow> u32 \<Rightarrow> skynet_message \<Rightarrow> node \<Rightarrow> node res" where
  "drop_message W handle msg st =
     bindE (skynet_free (msg_data msg) st) (\<lambda>st1.
     bindE (assertE (handle \<noteq> 0)) (\<lambda>_.
     bindE (skynet_send W None handle (msg_source msg) PTYPE_ERROR 0 None 0 st1) (\<lambda>(st2, _). Inr st2)))"

section \<open>Creating a service\<close>

definition ctx_new :: "nat \<Rightarrow> ptr \<Rightarrow> bool \<Rightarrow> skynet_context" where
  "ctx_new m inst prof = \<lparr>c_instance = inst, c_mod = m, c_cb_ud = None, c_cb = None, c_queue = 0, c_logfile = None,
     c_cpu_cost = 0, c_cpu_start = 0, c_result = [], c_handle = 0, c_session_id = 0, c_ref = 2,
     c_message_count = 0, c_init = False, c_endless = False, c_profile = prof\<rparr>"

text \<open>The part of \<^verbatim>\<open>skynet_context_new\<close> before the module's init function runs.\<close>

definition context_setup :: "nat \<Rightarrow> ptr \<Rightarrow> node \<Rightarrow> (node \<times> ptr) res" where
  "context_setup m inst st =
     (let p = ctx_brk st;
          st1 = st\<lparr>ctxs := (ctxs st)(p \<mapsto> ctx_new m inst (node_profile st)), ctx_brk := Suc p\<rparr> in
      bindE (skynet_handle_register (ctx_handles st1) p (handles st1)) (\<lambda>(hs, h).
      let st2 = st1\<lparr>handles := hs\<rparr> in
      let (st3, q) = skynet_mq_create st2 h in
      bindE (upd_ctx p (\<lambda>c. c\<lparr>c_handle := h, c_queue := q\<rparr>) st3) (\<lambda>st4.
      Inr (context_inc st4, p))))"

definition skynet_context_new :: "world \<Rightarrow> string \<Rightarrow> string option \<Rightarrow> node \<Rightarrow> (node \<times> ptr option) res" where
  "skynet_context_new W nm param st =
     bindE (node_module_query W nm st) (\<lambda>(st, r).
     case r of None \<Rightarrow> Inr (st, None) | Some m \<Rightarrow>
     bindE (skynet_module_instance_create W m st) (\<lambda>(st, r).
     case r of None \<Rightarrow> Inr (st, None) | Some inst \<Rightarrow>
     bindE (context_setup m inst st) (\<lambda>(st, p).
     bindE (derefE (ctxs st p)) (\<lambda>c.
     bindE (skynet_module_instance_init W m inst p param st) (\<lambda>(st, r).
     if r = 0 then
       bindE (skynet_context_release W p st) (\<lambda>(st, ret).
       bindE (if ret \<noteq> None then upd_ctx p (\<lambda>c. c\<lparr>c_init := True\<rparr>) st else Inr st) (\<lambda>st.
       bindE (skynet_globalmq_push st (c_queue c)) (\<lambda>st.
       bindE (if ret \<noteq> None then skynet_error W ret (''LAUNCH '' @ nm @ '' '' @ (case param of None \<Rightarrow> [] | Some a \<Rightarrow> a)) st
              else Inr st) (\<lambda>st.
       Inr (st, ret)))))
     else
       bindE (skynet_error W (Some p) (''FAILED launch '' @ nm) st) (\<lambda>st.
       bindE (skynet_context_handle p st) (\<lambda>h.
       bindE (skynet_context_release W p st) (\<lambda>(st, _).
       bindE (skynet_handle_retire W h st) (\<lambda>(st, _).
       bindE (skynet_mq_release (drop_message W h) st (c_queue c)) (\<lambda>st.
       Inr (st, None)))))))))))"

section \<open>Dispatching\<close>

definition skynet_context_endless :: "world \<Rightarrow> u32 \<Rightarrow> node \<Rightarrow> node res" where
  "skynet_context_endless W h st =
     bindE (skynet_handle_grab h st) (\<lambda>(st1, r).
     case r of
       None \<Rightarrow> Inr st1
     | Some p \<Rightarrow>
         bindE (upd_ctx p (\<lambda>c. c\<lparr>c_endless := True\<rparr>) st1) (\<lambda>st2.
         bindE (skynet_context_release W p st2) (\<lambda>(st3, _). Inr st3)))"

definition dispatch_message :: "world \<Rightarrow> ptr \<Rightarrow> skynet_message \<Rightarrow> node \<Rightarrow> node res" where
  "dispatch_message W p msg st =
     bindE (derefE (ctxs st p)) (\<lambda>c.
     bindE (assertE (c_init c)) (\<lambda>_.
     let st1 = st\<lparr>handle_key := c_handle c\<rparr>;
         type = unat (drop_bit MESSAGE_TYPE_SHIFT (msg_sz msg));
         sz = msg_sz msg AND MESSAGE_TYPE_MASK in
     bindE (case c_logfile c of
              None \<Rightarrow> Inr st1
            | Some f \<Rightarrow> w_log_output W f (msg_source msg) type (msg_session msg) (msg_data msg) sz st1) (\<lambda>st2.
     bindE (upd_ctx p (\<lambda>c. c\<lparr>c_message_count := c_message_count c + 1,
              c_cpu_start := (if c_profile c then w_thread_time W st2 else c_cpu_start c)\<rparr>) st2) (\<lambda>st3.
     bindE (derefE (c_cb c)) (\<lambda>cb.
     bindE (w_cb W cb p (c_cb_ud c) type (msg_session msg) (msg_source msg) (msg_data msg) sz st3) (\<lambda>(st4, reserve_msg).
     bindE (if c_profile c
            then upd_ctx p (\<lambda>c. c\<lparr>c_cpu_cost := c_cpu_cost c + (w_thread_time W st4 - c_cpu_start c)\<rparr>) st4
            else Inr st4) (\<lambda>st5.
     if reserve_msg = 0 then skynet_free (msg_data msg) st5 else Inr st5)))))))"

partial_function (option) dispatchall_loop :: "world \<Rightarrow> ptr \<Rightarrow> qptr \<Rightarrow> node \<Rightarrow> node res option" where
  "dispatchall_loop W p q st =
     (case skynet_mq_pop st q of
        Inl e \<Rightarrow> Some (Inl e)
      | Inr (st1, m) \<Rightarrow>
          (case m of
             None \<Rightarrow> Some (Inr st1)
           | Some msg \<Rightarrow>
               (case dispatch_message W p msg st1 of
                  Inl e \<Rightarrow> Some (Inl e)
                | Inr st2 \<Rightarrow> dispatchall_loop W p q st2)))"

definition skynet_context_dispatchall :: "world \<Rightarrow> ptr \<Rightarrow> node \<Rightarrow> node res" where
  "skynet_context_dispatchall W p st =
     bindE (derefE (ctxs st p)) (\<lambda>c.
     case dispatchall_loop W p (c_queue c) st of None \<Rightarrow> Inl Diverges | Some r \<Rightarrow> r)"

text \<open>The monitor of a worker thread (\<^verbatim>\<open>skynet_monitor.c\<close>).\<close>

record skynet_monitor =
  sm_version :: i32
  sm_check_version :: i32
  sm_source :: u32
  sm_destination :: u32

definition skynet_monitor_new :: skynet_monitor where
  "skynet_monitor_new = \<lparr>sm_version = 0, sm_check_version = 0, sm_source = 0, sm_destination = 0\<rparr>"

definition skynet_monitor_trigger :: "skynet_monitor \<Rightarrow> u32 \<Rightarrow> u32 \<Rightarrow> skynet_monitor" where
  "skynet_monitor_trigger sm source destination =
     sm\<lparr>sm_source := source, sm_destination := destination, sm_version := sm_version sm + 1\<rparr>"

definition skynet_monitor_check :: "world \<Rightarrow> skynet_monitor \<Rightarrow> node \<Rightarrow> (node \<times> skynet_monitor) res" where
  "skynet_monitor_check W sm st =
     (if sm_version sm = sm_check_version sm then
        if sm_destination sm \<noteq> 0 then
          bindE (skynet_context_endless W (sm_destination sm) st) (\<lambda>st1.
          bindE (skynet_error W None (''A message from [ :'' @ fmt_08x (sm_source sm) @ '' ] to [ :''
            @ fmt_08x (sm_destination sm) @ '' ] maybe in an endless loop (version = ''
            @ fmt_d (sint (sm_version sm)) @ '')'') st1) (\<lambda>st2. Inr (st2, sm)))
        else Inr (st, sm)
      else Inr (st, sm\<lparr>sm_check_version := sm_version sm\<rparr>))"

text \<open>
  One iteration of the loop of \<^verbatim>\<open>skynet_context_message_dispatch\<close>: \<open>None\<close> if the queue is empty, else the
  loop bound \<^verbatim>\<open>n\<close>, which the first iteration computes from the length of the queue and the weight.
\<close>

definition dispatch_one :: "world \<Rightarrow> skynet_monitor \<Rightarrow> qptr \<Rightarrow> ptr \<Rightarrow> u32 \<Rightarrow> bool \<Rightarrow> int \<Rightarrow> node
    \<Rightarrow> (node \<times> skynet_monitor \<times> nat option) res" where
  "dispatch_one W sm q p handle first weight st =
     bindE (skynet_mq_pop st q) (\<lambda>(st, m).
     case m of
       None \<Rightarrow> Inr (st, sm, None)
     | Some msg \<Rightarrow>
         bindE (if first \<and> weight \<ge> 0 then bindE (skynet_mq_length st q) (\<lambda>n. Inr (n div 2 ^ nat weight))
                else Inr 1) (\<lambda>n.
         bindE (skynet_mq_overload st q) (\<lambda>(st, overload).
         bindE (if overload \<noteq> 0
                then skynet_error W (Some p) (''May overload, message queue length = '' @ fmt_d (int overload)) st
                else Inr st) (\<lambda>st.
         let sm = skynet_monitor_trigger sm (msg_source msg) handle in
         bindE (derefE (ctxs st p)) (\<lambda>c.
         bindE (if c_cb c = None then skynet_free (msg_data msg) st else dispatch_message W p msg st) (\<lambda>st.
         Inr (st, skynet_monitor_trigger sm 0 0, Some n)))))))"

text \<open>The iterations after the first, \<open>k\<close> of them; the flag says whether they all found a message.\<close>

fun dispatch_rest :: "world \<Rightarrow> nat \<Rightarrow> skynet_monitor \<Rightarrow> qptr \<Rightarrow> ptr \<Rightarrow> u32 \<Rightarrow> int \<Rightarrow> node
    \<Rightarrow> (node \<times> skynet_monitor \<times> bool) res" where
  "dispatch_rest W 0 sm q p handle weight st = Inr (st, sm, True)"
| "dispatch_rest W (Suc k) sm q p handle weight st =
     bindE (dispatch_one W sm q p handle False weight st) (\<lambda>(st, sm, r).
     case r of
       None \<Rightarrow> Inr (st, sm, False)
     | Some _ \<Rightarrow> dispatch_rest W k sm q p handle weight st)"

definition dispatch_loop :: "world \<Rightarrow> skynet_monitor \<Rightarrow> qptr \<Rightarrow> ptr \<Rightarrow> u32 \<Rightarrow> int \<Rightarrow> node
    \<Rightarrow> (node \<times> skynet_monitor \<times> bool) res" where
  "dispatch_loop W sm q p handle weight st =
     bindE (dispatch_one W sm q p handle True weight st) (\<lambda>(st, sm, r).
     case r of
       None \<Rightarrow> Inr (st, sm, False)
     | Some n \<Rightarrow> dispatch_rest W (n - 1) sm q p handle weight st)"

definition skynet_context_message_dispatch :: "world \<Rightarrow> skynet_monitor \<Rightarrow> qptr option \<Rightarrow> int \<Rightarrow> node
    \<Rightarrow> (node \<times> skynet_monitor \<times> qptr option) res" where
  "skynet_context_message_dispatch W sm q weight st =
     bindE (if q = None then skynet_globalmq_pop st else Inr (st, q)) (\<lambda>(st, q).
     case q of None \<Rightarrow> Inr (st, sm, None) | Some q \<Rightarrow>
     bindE (skynet_mq_handle st q) (\<lambda>handle.
     bindE (skynet_handle_grab handle st) (\<lambda>(st, ctx).
     case ctx of
       None \<Rightarrow>
         bindE (skynet_mq_release (drop_message W handle) st q) (\<lambda>st.
         bindE (skynet_globalmq_pop st) (\<lambda>(st, nq). Inr (st, sm, nq)))
     | Some p \<Rightarrow>
         bindE (dispatch_loop W sm q p handle weight st) (\<lambda>(st, sm, more).
         if \<not> more then
           bindE (skynet_context_release W p st) (\<lambda>(st, _).
           bindE (skynet_globalmq_pop st) (\<lambda>(st, nq). Inr (st, sm, nq)))
         else
           bindE (derefE (ctxs st p)) (\<lambda>c.
           bindE (assertE (q = c_queue c)) (\<lambda>_.
           bindE (skynet_globalmq_pop st) (\<lambda>(st, nq).
           bindE (if nq \<noteq> None then skynet_globalmq_push st q else Inr st) (\<lambda>st.
           bindE (skynet_context_release W p st) (\<lambda>(st, _).
           Inr (st, sm, if nq \<noteq> None then nq else Some q))))))))))"

section \<open>Timeouts\<close>

definition timeout_message :: "i32 \<Rightarrow> skynet_message" where
  "timeout_message session = \<lparr>msg_source = 0, msg_session = session, msg_data = None,
     msg_sz = push_bit MESSAGE_TYPE_SHIFT (ucast PTYPE_RESPONSE)\<rparr>"

definition skynet_timeout :: "world \<Rightarrow> u32 \<Rightarrow> i32 \<Rightarrow> i32 \<Rightarrow> node \<Rightarrow> (node \<times> i32) res" where
  "skynet_timeout W handle time session st =
     (if sint time \<le> 0 then
        bindE (skynet_context_push W handle (timeout_message session) st) (\<lambda>(st1, r).
        Inr (st1, if r \<noteq> 0 then - 1 else session))
      else Inr (st\<lparr>TI := timer_add (TI st) handle session time\<rparr>, session))"

fun dispatch_list :: "world \<Rightarrow> timer_node list \<Rightarrow> node \<Rightarrow> node res" where
  "dispatch_list W [] st = Inr st"
| "dispatch_list W (n # ns) st =
     bindE (skynet_context_push W (tn_handle n) (timeout_message (tn_session n)) st) (\<lambda>(st1, _).
     dispatch_list W ns st1)"

text \<open>The timer thread's call: the ticks of \<^verbatim>\<open>skynet_updatetime\<close> with the messages they send.\<close>

definition node_updatetime :: "world \<Rightarrow> u64 \<Rightarrow> node \<Rightarrow> node res" where
  "node_updatetime W cp st =
     bindE (skynet_updatetime cp (TI st)) (\<lambda>(T, outs). dispatch_list W (concat outs) (st\<lparr>TI := T\<rparr>))"

end
