(* ===== verification/Skynet_Commands.thy ===== *)
theory Skynet_Commands
  imports Skynet_Server
begin

text \<open>
  The commands a service gives to its node as text (\<^verbatim>\<open>skynet_command\<close> and the \<^verbatim>\<open>cmd_\<close> functions of
  \<^verbatim>\<open>skynet-src/skynet_server.c\<close>). A command has the calling context, its parameter string (\<open>None\<close> is
  NULL) and returns a string or NULL; a string returned in the context's \<^verbatim>\<open>result\<close> buffer is also
  recorded there.
\<close>

type_synonym cmd_result = "(node \<times> string option) res"

definition set_result :: "ptr \<Rightarrow> string \<Rightarrow> node \<Rightarrow> cmd_result" where
  "set_result p r st = bindE (upd_ctx p (\<lambda>c. c\<lparr>c_result := r\<rparr>) st) (\<lambda>st1. Inr (st1, Some r))"

section \<open>Names and handles\<close>

definition skynet_queryname :: "world \<Rightarrow> ptr \<Rightarrow> string \<Rightarrow> node \<Rightarrow> (node \<times> u32) res" where
  "skynet_queryname W p nm st =
     (if char0 nm = CHR '':'' then Inr (st, ucast (strtoul (tl nm) 16))
      else if char0 nm = CHR ''.'' then
        bindE (skynet_handle_findname (tl nm) (handles st)) (\<lambda>h. Inr (st, h))
      else
        bindE (skynet_error W (Some p) (''Don't support query global name '' @ nm) st) (\<lambda>st1. Inr (st1, 0)))"

definition handle_exit :: "world \<Rightarrow> ptr \<Rightarrow> u32 \<Rightarrow> node \<Rightarrow> node res" where
  "handle_exit W p handle st =
     bindE (if handle = 0 then
              bindE (skynet_context_handle p st) (\<lambda>h.
              bindE (skynet_error W (Some p) ''KILL self'' st) (\<lambda>st1. Inr (st1, h)))
            else
              bindE (skynet_error W (Some p) (''KILL :'' @ fmt_x handle) st) (\<lambda>st1. Inr (st1, handle))) (\<lambda>(st1, handle).
     bindE (if monitor_exit st1 \<noteq> 0
            then skynet_send W (Some p) handle (monitor_exit st1) PTYPE_CLIENT 0 None 0 st1
            else Inr (st1, 0)) (\<lambda>(st2, _).
     bindE (skynet_handle_retire W handle st2) (\<lambda>(st3, _). Inr st3)))"

definition tohandle :: "world \<Rightarrow> ptr \<Rightarrow> string \<Rightarrow> node \<Rightarrow> (node \<times> u32) res" where
  "tohandle W p param st =
     (if char0 param = CHR '':'' then Inr (st, ucast (strtoul (tl param) 16))
      else if char0 param = CHR ''.'' then
        bindE (skynet_handle_findname (tl param) (handles st)) (\<lambda>h. Inr (st, h))
      else
        bindE (skynet_error W (Some p) (''Can't convert '' @ param @ '' to handle'') st) (\<lambda>st1. Inr (st1, 0)))"

section \<open>Commands\<close>

definition cmd_timeout :: "world \<Rightarrow> ptr \<Rightarrow> string option \<Rightarrow> node \<Rightarrow> cmd_result" where
  "cmd_timeout W p param st =
     bindE (derefE param) (\<lambda>param.
     let ti = word_of_int (strtol param 10) in
     bindE (skynet_context_newsession p st) (\<lambda>(st1, session).
     bindE (skynet_context_handle p st1) (\<lambda>h.
     bindE (skynet_timeout W h ti session st1) (\<lambda>(st2, _).
     set_result p (fmt_d (sint session)) st2))))"

definition cmd_reg :: "world \<Rightarrow> ptr \<Rightarrow> string option \<Rightarrow> node \<Rightarrow> cmd_result" where
  "cmd_reg W p param st =
     bindE (skynet_context_handle p st) (\<lambda>h.
     case param of
       None \<Rightarrow> set_result p (CHR '':'' # fmt_x h) st
     | Some param \<Rightarrow>
         if param = [] then set_result p (CHR '':'' # fmt_x h) st
         else if char0 param = CHR ''.'' then
           bindE (skynet_handle_namehandle h (tl param) (handles st)) (\<lambda>(hs, r). Inr (st\<lparr>handles := hs\<rparr>, r))
         else
           bindE (skynet_error W (Some p) (''Can't register global name '' @ param @ '' in C'') st) (\<lambda>st1.
           Inr (st1, None)))"

definition cmd_query :: "world \<Rightarrow> ptr \<Rightarrow> string option \<Rightarrow> node \<Rightarrow> cmd_result" where
  "cmd_query W p param st =
     bindE (derefE param) (\<lambda>param.
     if char0 param = CHR ''.'' then
       bindE (skynet_handle_findname (tl param) (handles st)) (\<lambda>h.
       if h \<noteq> 0 then set_result p (CHR '':'' # fmt_x h) st else Inr (st, None))
     else Inr (st, None))"

text \<open>
  \<^verbatim>\<open>cmd_name\<close> reads both words of its parameter; \<^verbatim>\<open>sscanf\<close> leaves a buffer unwritten when the word
  is missing, and the code then reads it.
\<close>

definition cmd_name :: "world \<Rightarrow> ptr \<Rightarrow> string option \<Rightarrow> node \<Rightarrow> cmd_result" where
  "cmd_name W p param st =
     bindE (derefE param) (\<lambda>param.
     let (nm, hd) = sscanf_2s param in
     case hd of
       None \<Rightarrow> Inl Uninit_Read
     | Some handle \<Rightarrow>
         if char0 handle \<noteq> CHR '':'' then Inr (st, None)
         else
           let handle_id = ucast (strtoul (tl handle) 16) in
           if handle_id = 0 then Inr (st, None)
           else
             case nm of
               None \<Rightarrow> Inl Uninit_Read
             | Some nm \<Rightarrow>
                 if char0 nm = CHR ''.'' then
                   bindE (skynet_handle_namehandle handle_id (tl nm) (handles st)) (\<lambda>(hs, r).
                   Inr (st\<lparr>handles := hs\<rparr>, r))
                 else
                   bindE (skynet_error W (Some p) (''Can't set global name '' @ nm @ '' in C'') st) (\<lambda>st1.
                   Inr (st1, None)))"

definition cmd_exit :: "world \<Rightarrow> ptr \<Rightarrow> string option \<Rightarrow> node \<Rightarrow> cmd_result" where
  "cmd_exit W p param st = bindE (handle_exit W p 0 st) (\<lambda>st1. Inr (st1, None))"

definition cmd_kill :: "world \<Rightarrow> ptr \<Rightarrow> string option \<Rightarrow> node \<Rightarrow> cmd_result" where
  "cmd_kill W p param st =
     bindE (derefE param) (\<lambda>param.
     bindE (tohandle W p param st) (\<lambda>(st1, h).
     if h \<noteq> 0 then bindE (handle_exit W p h st1) (\<lambda>st2. Inr (st2, None)) else Inr (st1, None)))"

definition cmd_launch :: "world \<Rightarrow> ptr \<Rightarrow> string option \<Rightarrow> node \<Rightarrow> cmd_result" where
  "cmd_launch W p param st =
     bindE (derefE param) (\<lambda>param.
     let (md, rest) = strsep param {CHR '' '', CHR 0x09, CHR 0x0D, CHR 0x0A};
         args = map_option (\<lambda>r. fst (strsep r {CHR 0x0D, CHR 0x0A})) rest in
     bindE (skynet_context_new W md args st) (\<lambda>(st1, inst).
     case inst of
       None \<Rightarrow> Inr (st1, None)
     | Some i \<Rightarrow> bindE (skynet_context_handle i st1) (\<lambda>h. set_result p (id_to_hex h) st1)))"

definition cmd_getenv :: "world \<Rightarrow> ptr \<Rightarrow> string option \<Rightarrow> node \<Rightarrow> cmd_result" where
  "cmd_getenv W p param st = bindE (derefE param) (\<lambda>param. Inr (st, skynet_getenv param st))"

definition cmd_setenv :: "world \<Rightarrow> ptr \<Rightarrow> string option \<Rightarrow> node \<Rightarrow> cmd_result" where
  "cmd_setenv W p param st =
     bindE (derefE param) (\<lambda>param.
     let key = takeWhile (\<lambda>c. c \<noteq> CHR '' '') param in
     case dropWhile (\<lambda>c. c \<noteq> CHR '' '') param of
       [] \<Rightarrow> Inr (st, None)
     | _ # val \<Rightarrow> bindE (skynet_setenv key val st) (\<lambda>st1. Inr (st1, None)))"

definition cmd_starttime :: "world \<Rightarrow> ptr \<Rightarrow> string option \<Rightarrow> node \<Rightarrow> cmd_result" where
  "cmd_starttime W p param st = set_result p (fmt_u (unat (skynet_starttime (TI st)))) st"

definition cmd_abort :: "world \<Rightarrow> ptr \<Rightarrow> string option \<Rightarrow> node \<Rightarrow> cmd_result" where
  "cmd_abort W p param st = bindE (skynet_handle_retireall W st) (\<lambda>st1. Inr (st1, None))"

definition cmd_monitor :: "world \<Rightarrow> ptr \<Rightarrow> string option \<Rightarrow> node \<Rightarrow> cmd_result" where
  "cmd_monitor W p param st =
     (if param = None \<or> param = Some [] then
        if monitor_exit st \<noteq> 0 then set_result p (CHR '':'' # fmt_x (monitor_exit st)) st else Inr (st, None)
      else
        bindE (derefE param) (\<lambda>param.
        bindE (tohandle W p param st) (\<lambda>(st1, h). Inr (st1\<lparr>monitor_exit := h\<rparr>, None))))"

definition cmd_stat :: "world \<Rightarrow> ptr \<Rightarrow> string option \<Rightarrow> node \<Rightarrow> cmd_result" where
  "cmd_stat W p param st =
     bindE (derefE param) (\<lambda>param.
     bindE (derefE (ctxs st p)) (\<lambda>c.
     if strcmp param ''mqlen'' = 0 then
       bindE (skynet_mq_length st (c_queue c)) (\<lambda>n. set_result p (fmt_d (int n)) st)
     else if strcmp param ''endless'' = 0 then
       if c_endless c then
         bindE (upd_ctx p (\<lambda>c. c\<lparr>c_endless := False\<rparr>) st) (\<lambda>st1. set_result p ''1'' st1)
       else set_result p ''0'' st
     else if strcmp param ''cpu'' = 0 then set_result p (w_seconds W (c_cpu_cost c)) st
     else if strcmp param ''time'' = 0 then
       if c_profile c then set_result p (w_seconds W (w_thread_time W st - c_cpu_start c)) st
       else set_result p ''0'' st
     else if strcmp param ''message'' = 0 then set_result p (fmt_d (sint (c_message_count c))) st
     else set_result p [] st))"

text \<open>The handle that a command's parameter names, and its context, grabbed.\<close>

definition grab_param :: "world \<Rightarrow> ptr \<Rightarrow> string option \<Rightarrow> node \<Rightarrow> (node \<times> u32 \<times> ptr option) res" where
  "grab_param W p param st =
     bindE (derefE param) (\<lambda>param.
     bindE (tohandle W p param st) (\<lambda>(st1, h).
     if h = 0 then Inr (st1, 0, None)
     else bindE (skynet_handle_grab h st1) (\<lambda>(st2, ctx). Inr (st2, h, ctx))))"

definition cmd_logon :: "world \<Rightarrow> ptr \<Rightarrow> string option \<Rightarrow> node \<Rightarrow> cmd_result" where
  "cmd_logon W p param st =
     bindE (grab_param W p param st) (\<lambda>(st, h, ctx).
     case ctx of
       None \<Rightarrow> Inr (st, None)
     | Some q \<Rightarrow>
         bindE (derefE (ctxs st q)) (\<lambda>c.
         bindE (if c_logfile c = None then
                  bindE (w_log_open W p h st) (\<lambda>(st, f).
                  case f of
                    None \<Rightarrow> Inr st
                  | Some f \<Rightarrow>
                      bindE (derefE (ctxs st q)) (\<lambda>c.
                      if c_logfile c = None then upd_ctx q (\<lambda>c. c\<lparr>c_logfile := Some f\<rparr>) st
                      else w_log_close W f st))
                else Inr st) (\<lambda>st.
         bindE (skynet_context_release W q st) (\<lambda>(st, _). Inr (st, None)))))"

definition cmd_logoff :: "world \<Rightarrow> ptr \<Rightarrow> string option \<Rightarrow> node \<Rightarrow> cmd_result" where
  "cmd_logoff W p param st =
     bindE (grab_param W p param st) (\<lambda>(st, h, ctx).
     case ctx of
       None \<Rightarrow> Inr (st, None)
     | Some q \<Rightarrow>
         bindE (derefE (ctxs st q)) (\<lambda>c.
         bindE (case c_logfile c of
                  None \<Rightarrow> Inr st
                | Some f \<Rightarrow>
                    bindE (upd_ctx q (\<lambda>c. c\<lparr>c_logfile := None\<rparr>) st) (\<lambda>st. w_log_close W f st)) (\<lambda>st.
         bindE (skynet_context_release W q st) (\<lambda>(st, _). Inr (st, None)))))"

definition cmd_signal :: "world \<Rightarrow> ptr \<Rightarrow> string option \<Rightarrow> node \<Rightarrow> cmd_result" where
  "cmd_signal W p param st =
     bindE (grab_param W p param st) (\<lambda>(st, h, ctx).
     case ctx of
       None \<Rightarrow> Inr (st, None)
     | Some q \<Rightarrow>
         bindE (derefE param) (\<lambda>param.
         let rest = dropWhile (\<lambda>c. c \<noteq> CHR '' '') param;
             sig = (if rest = [] then 0 else sint (word_of_int (strtol rest 0) :: i32)) in
         bindE (derefE (ctxs st q)) (\<lambda>c.
         bindE (skynet_module_instance_signal W (c_mod c) (c_instance c) sig st) (\<lambda>st.
         bindE (skynet_context_release W q st) (\<lambda>(st, _). Inr (st, None))))))"

text \<open>The command table and its linear search.\<close>

definition cmd_funcs :: "(string \<times> (world \<Rightarrow> ptr \<Rightarrow> string option \<Rightarrow> node \<Rightarrow> cmd_result)) list" where
  "cmd_funcs = [(''TIMEOUT'', cmd_timeout), (''REG'', cmd_reg), (''QUERY'', cmd_query), (''NAME'', cmd_name),
     (''EXIT'', cmd_exit), (''KILL'', cmd_kill), (''LAUNCH'', cmd_launch), (''GETENV'', cmd_getenv),
     (''SETENV'', cmd_setenv), (''STARTTIME'', cmd_starttime), (''ABORT'', cmd_abort), (''MONITOR'', cmd_monitor),
     (''STAT'', cmd_stat), (''LOGON'', cmd_logon), (''LOGOFF'', cmd_logoff), (''SIGNAL'', cmd_signal)]"

fun find_cmd :: "(string \<times> 'f) list \<Rightarrow> string \<Rightarrow> 'f option" where
  "find_cmd [] cmd = None"
| "find_cmd ((nm, f) # fs) cmd = (if strcmp cmd nm = 0 then Some f else find_cmd fs cmd)"

definition skynet_command :: "world \<Rightarrow> ptr \<Rightarrow> string \<Rightarrow> string option \<Rightarrow> node \<Rightarrow> cmd_result" where
  "skynet_command W p cmd param st =
     (case find_cmd cmd_funcs cmd of None \<Rightarrow> Inr (st, None) | Some f \<Rightarrow> f W p param st)"

end
