(* ===== verification/Skynet_Delivery.thy ===== *)
theory Skynet_Delivery
  imports Skynet_Commands
begin

text \<open>
  What the node guarantees: the invariant of its state, delivery of messages to the right queue with
  the right type, size and data, what happens to the data when a message cannot be delivered,
  reference counting, sessions, and the text form of handles.
\<close>

section \<open>Invariant of the node\<close>

text \<open>
  The handle table and the queues are in order; every context has a queue of its own, with its handle and
  not marked for release; a context in the table holds a reference of the table; nothing is
  allocated at or above the allocation pointers.
\<close>

definition own_queues :: "node \<Rightarrow> bool" where
  "own_queues st \<longleftrightarrow> (\<forall>p p' c c'. ctxs st p = Some c \<longrightarrow> ctxs st p' = Some c' \<longrightarrow> c_queue c = c_queue c' \<longrightarrow> p = p')"

definition node_ok :: "node \<Rightarrow> bool" where
  "node_ok st \<longleftrightarrow> handles_ok (ctx_handles st) (handles st) \<and> (\<exists>H gl. sched_inv st H gl)
     \<and> (\<forall>p c. ctxs st p = Some c \<longrightarrow> p < ctx_brk st \<and> (\<exists>ms. q_view st (c_queue c) = Some (c_handle c, False, ms))
          \<and> (Some p \<in> set (slot (handles st)) \<longrightarrow> 1 \<le> c_ref c))
     \<and> (\<forall>a. mem_brk st \<le> a \<longrightarrow> mem st a = None) \<and> own_queues st"

lemma node_okI:
  assumes "handles_ok (ctx_handles st) (handles st)" "sched_inv st H gl"
    and "\<And>p c. ctxs st p = Some c \<Longrightarrow> p < ctx_brk st \<and> (\<exists>ms. q_view st (c_queue c) = Some (c_handle c, False, ms))
          \<and> (Some p \<in> set (slot (handles st)) \<longrightarrow> 1 \<le> c_ref c)"
    and "\<And>a. mem_brk st \<le> a \<Longrightarrow> mem st a = None"
    and "own_queues st"
  shows "node_ok st"
  unfolding node_ok_def using assms by blast

lemma node_okD:
  assumes "node_ok st"
  shows "handles_ok (ctx_handles st) (handles st)" "slots_ok (ctx_handles st) (harbor (handles st)) (slot (handles st))"
    "\<And>p c. ctxs st p = Some c \<Longrightarrow> p < ctx_brk st"
    "\<And>p c. ctxs st p = Some c \<Longrightarrow> \<exists>ms. q_view st (c_queue c) = Some (c_handle c, False, ms)"
    "\<And>p c. ctxs st p = Some c \<Longrightarrow> Some p \<in> set (slot (handles st)) \<Longrightarrow> 1 \<le> c_ref c"
    "\<And>a. mem_brk st \<le> a \<Longrightarrow> mem st a = None"
    "own_queues st"
  using assms by (auto simp: node_ok_def handles_ok_def)

lemma own_queues_same: "ctxs st' = ctxs st \<Longrightarrow> own_queues st' = own_queues st"
  by (simp add: own_queues_def)

definition node_live :: "node \<Rightarrow> u32 \<Rightarrow> ptr option" where
  "node_live st h = live (ctx_handles st) (handles st) h"

text \<open>The messages waiting in a queue.\<close>

definition waiting :: "node \<Rightarrow> qptr \<Rightarrow> skynet_message list" where
  "waiting st q = (case q_view st q of None \<Rightarrow> [] | Some (h, r, ms) \<Rightarrow> ms)"

lemma node_live_ctx:
  assumes "node_ok st" "node_live st h = Some p"
  obtains c where "ctxs st p = Some c" "c_handle c = h" "Some p \<in> set (slot (handles st))"
    "h AND NOT HANDLE_MASK = harbor (handles st)" "h AND HANDLE_MASK \<noteq> 0"
proof -
  from live_iff [OF node_okD(2) [OF assms(1)], of h p] assms(2)
  have l: "ctx_handles st p = Some h" "Some p \<in> set (slot (handles st))" by (simp_all add: node_live_def)
  then obtain i where i: "i < length (slot (handles st))" "slot (handles st) ! i = Some p" by (auto simp: in_set_conv_nth)
  from slots_okD [OF node_okD(2) [OF assms(1)] i] l(1)
  have "h AND NOT HANDLE_MASK = harbor (handles st)" "h AND HANDLE_MASK \<noteq> 0" by auto
  with l that show thesis by (auto simp: ctx_handles_def)
qed

text \<open>The node's own fields, when an operation on the queues leaves them alone.\<close>

lemma node_more_fields:
  assumes "mq_state.more (st' :: node) = mq_state.more st"
  shows "ctxs st' = ctxs st" "ctx_brk st' = ctx_brk st" "mem st' = mem st" "mem_brk st' = mem_brk st"
    "handles st' = handles st" "HARBOR st' = HARBOR st" "REMOTE st' = REMOTE st" "logger st' = logger st"
    "node_total st' = node_total st" "monitor_exit st' = monitor_exit st" "TI st' = TI st"
    "node_modules st' = node_modules st" "node_init st' = node_init st" "handle_key st' = handle_key st"
    "node_profile st' = node_profile st" "node_env st' = node_env st"
proof -
  have eq: "st' = st\<lparr>mq_heap := mq_heap st', mq_brk := mq_brk st', gq_head := gq_head st', gq_tail := gq_tail st'\<rparr>"
    (is "_ = ?st")
    by (rule mq_state.equality) (simp_all add: assms)
  show "ctxs st' = ctxs st" "ctx_brk st' = ctx_brk st" "mem st' = mem st" "mem_brk st' = mem_brk st"
    "handles st' = handles st" "HARBOR st' = HARBOR st" "REMOTE st' = REMOTE st" "logger st' = logger st"
    "node_total st' = node_total st" "monitor_exit st' = monitor_exit st" "TI st' = TI st"
    "node_modules st' = node_modules st" "node_init st' = node_init st" "handle_key st' = handle_key st"
    "node_profile st' = node_profile st" "node_env st' = node_env st" by (subst eq, simp)+
qed

lemma q_view_upd [simp]:
  "q_view (st\<lparr>ctxs := a\<rparr> :: node) = q_view st" "q_view (st\<lparr>handles := hs\<rparr> :: node) = q_view st"
  "q_view (st\<lparr>mem := m\<rparr> :: node) = q_view st" "q_view (st\<lparr>mem_brk := b\<rparr> :: node) = q_view st"
  "q_view (st\<lparr>logger := l\<rparr> :: node) = q_view st" "q_view (st\<lparr>ctx_brk := b\<rparr> :: node) = q_view st"
  "q_view (st\<lparr>node_total := t\<rparr> :: node) = q_view st"
  by (simp_all add: q_view_def [abs_def])

lemma q_view_heap:
  assumes "q_view st q = Some (h, r, ms)" "sched_inv st H gl"
  obtains mq where "mq_heap st q = Some mq" "mq_handle mq = h" "mq_release mq = r" "mq_contents mq = ms" "mq_wf mq"
proof -
  from assms(1) obtain mq where mq: "mq_heap st q = Some mq" "mq_handle mq = h" "mq_release mq = r" "mq_contents mq = ms"
    by (auto simp: q_view_def)
  with sched_qD(2) [OF sched_invD(4) [OF assms(2) mq(1)]] that show thesis by blast
qed

lemma node_mq_push:
  assumes inv: "sched_inv st H gl" and q: "q_view st q = Some (h, False, ms)"
  obtains st' gl' where "skynet_mq_push st q m = Inr st'" "sched_inv st' H gl'"
    "q_view st' = (q_view st)(q \<mapsto> (h, False, ms @ [m]))" "mq_state.more st' = mq_state.more st"
proof -
  from q_view_heap [OF q inv] obtain mq where
    mq: "mq_heap st q = Some mq" "mq_handle mq = h" "\<not> mq_release mq" "mq_contents mq = ms" "mq_wf mq" by auto
  from sched_mq_push [OF inv mq(1,3), of m] obtain st' where
    st': "skynet_mq_push st q m = Inr st'" "sched_inv st' H (if mq_in_global mq then gl else gl @ [q])" by blast
  from mq_push_frame [OF mq(1,5) st'(1)] mq st' that show thesis by simp
qed

text \<open>Handing a message to the service of a handle: the reference taken for it is given back.\<close>

lemma context_push_live:
  assumes ok: "node_ok st" and p: "node_live st h = Some p" "ctxs st p = Some c"
  obtains st' where "skynet_context_push W h m st = Inr (st', 0)" "node_ok st'"
    "q_view st' = (q_view st)(c_queue c \<mapsto> (h, False, waiting st (c_queue c) @ [m]))"
    "mq_state.more st' = mq_state.more st"
proof -
  obtain c' where "ctxs st p = Some c'" "c_handle c' = h" "Some p \<in> set (slot (handles st))"
    using node_live_ctx [OF ok p(1)] .
  then have c: "c_handle c = h" "1 \<le> c_ref c" using p(2) node_okD(5) [OF ok p(2)] by auto
  let ?st1 = "st\<lparr>ctxs := (ctxs st)(p \<mapsto> c\<lparr>c_ref := c_ref c + 1\<rparr>)\<rparr>"
  from ok obtain H gl where inv: "sched_inv st H gl" by (auto simp: node_ok_def)
  from node_okD(4) [OF ok p(2)] c(1) obtain ms where ms: "q_view st (c_queue c) = Some (h, False, ms)" by auto
  have "sched_inv ?st1 H gl" using inv sched_inv_cong [of ?st1 st] by simp
  moreover have view1: "q_view ?st1 = q_view st" by simp
  ultimately obtain st2 gl' where st2: "skynet_mq_push ?st1 (c_queue c) m = Inr st2" "sched_inv st2 H gl'"
    "q_view st2 = (q_view st)(c_queue c \<mapsto> (h, False, ms @ [m]))" "mq_state.more st2 = mq_state.more ?st1"
    using node_mq_push [of ?st1 H gl "c_queue c" h ms m] ms by auto
  note f = node_more_fields [OF st2(4)]
  let ?st' = "st2\<lparr>ctxs := ctxs st\<rparr>"
  have "(ctxs st)(p \<mapsto> c) = ctxs st" using p(2) by auto
  then have rel: "skynet_context_release W p st2 = Inr (?st', Some p)"
    using c(2) f(1) by (simp add: skynet_context_release_def upd_ctx_def)
  have "skynet_context_push W h m st = Inr (?st', 0)"
    using p node_okD(2) [OF ok] st2(1) f(1) rel
    by (simp add: skynet_context_push_def skynet_handle_grab_def handle_grab_live node_live_def
      skynet_context_grab_def upd_ctx_def)
  moreover have more: "mq_state.more ?st' = mq_state.more st"
    using f by (cases st; cases st2) simp
  have v: "q_view ?st' = (q_view st)(c_queue c \<mapsto> (h, False, waiting st (c_queue c) @ [m]))"
    using st2(3) ms by (simp add: waiting_def)
  moreover have "node_ok ?st'"
  proof (rule node_okI)
    note f' = node_more_fields [OF more]
    show "handles_ok (ctx_handles ?st') (handles ?st')"
      using node_okD(1) [OF ok] f' by (simp add: ctx_handles_def [abs_def])
    show "sched_inv ?st' H gl'" using st2(2) sched_inv_cong [of ?st' st2] by simp
    show "q < ctx_brk ?st' \<and> (\<exists>ms. q_view ?st' (c_queue d) = Some (c_handle d, False, ms))
        \<and> (Some q \<in> set (slot (handles ?st')) \<longrightarrow> 1 \<le> c_ref d)" if "ctxs ?st' q = Some d" for q d
      using node_okD(3,4,5) [OF ok, of q d] that f' v ms by auto
    show "mem ?st' a = None" if "mem_brk ?st' \<le> a" for a using node_okD(6) [OF ok] f' that by simp
    show "own_queues ?st'" using node_okD(7) [OF ok] own_queues_same [of ?st' st] by simp
  qed
  ultimately show thesis using that more by blast
qed

lemma context_push_dead:
  assumes "node_ok st" "node_live st h = None"
  shows "skynet_context_push W h m st = Inr (st, - 1)"
  using assms node_okD(2) [OF assms(1)]
  by (simp add: skynet_context_push_def skynet_handle_grab_def handle_grab_live node_live_def)

section \<open>Sending\<close>

lemma MASK_mask: "MESSAGE_TYPE_MASK = mask 56"
  by (simp add: MESSAGE_TYPE_MASK_def mask_eq_exp_minus_1)

lemma MASK_numeral: "MESSAGE_TYPE_MASK = 0xffffffffffffff"
  by (simp add: MASK_mask mask_eq_exp_minus_1)

text \<open>The type in the top byte and the size below it do not disturb each other.\<close>

lemma size_type_codec:
  fixes type :: i32 and sz :: u64
  assumes "sz AND MESSAGE_TYPE_MASK = sz"
  shows "drop_bit MESSAGE_TYPE_SHIFT (sz OR push_bit MESSAGE_TYPE_SHIFT (ucast (type AND 0xff))) = ucast (type AND 0xff)"
    "(sz OR push_bit MESSAGE_TYPE_SHIFT (ucast (type AND 0xff))) AND MESSAGE_TYPE_MASK = sz"
proof -
  have ff: "(0xff :: i32) = mask 8" by (simp add: mask_eq_exp_minus_1)
  have sz: "\<not> bit sz n" if "56 \<le> n" for n
  proof -
    have "bit sz n = bit (sz AND mask 56) n" using assms by (simp add: MASK_mask)
    with that show ?thesis by (simp add: bit_simps)
  qed
  show "drop_bit MESSAGE_TYPE_SHIFT (sz OR push_bit MESSAGE_TYPE_SHIFT (ucast (type AND 0xff))) = ucast (type AND 0xff)"
    unfolding MESSAGE_TYPE_SHIFT_def ff by (rule bit_word_eqI) (use sz in \<open>auto simp: bit_simps\<close>)
  have "sz AND mask 56 = sz" using assms by (simp add: MASK_mask)
  then show "(sz OR push_bit MESSAGE_TYPE_SHIFT (ucast (type AND 0xff))) AND MESSAGE_TYPE_MASK = sz"
    unfolding MESSAGE_TYPE_SHIFT_def MASK_mask bit.conj_disj_distrib2 by (simp add: take_bit_push_bit flip: take_bit_eq_mask)
qed

text \<open>What a caller must give: no session to allocate, and data that can be copied if it has to be.\<close>

definition send_args :: "i32 \<Rightarrow> ptr option \<Rightarrow> u64 \<Rightarrow> node \<Rightarrow> bool" where
  "send_args type data sz st \<longleftrightarrow> sz AND MESSAGE_TYPE_MASK = sz \<and> type AND PTYPE_TAG_ALLOCSESSION = 0
     \<and> (case data of None \<Rightarrow> True | Some d \<Rightarrow>
          (case mem st d of Some (Bytes bs) \<Rightarrow> unat sz \<le> length bs | _ \<Rightarrow> False))"

text \<open>The state and data after \<^verbatim>\<open>_filter_args\<close>: the data itself, or a copy of it with a NUL.\<close>

definition passed :: "i32 \<Rightarrow> ptr option \<Rightarrow> u64 \<Rightarrow> node \<Rightarrow> node \<Rightarrow> ptr option \<Rightarrow> bool" where
  "passed type data sz st st' data' \<longleftrightarrow>
     (if data = None \<or> type AND PTYPE_TAG_DONTCOPY \<noteq> 0 then data' = data \<and> st' = st
      else \<exists>bs. mem st (the data) = Some (Bytes bs) \<and> data' = Some (mem_brk st)
        \<and> st' = st\<lparr>mem := (mem st)(mem_brk st \<mapsto> Bytes (take (unat sz) bs @ [0])), mem_brk := Suc (mem_brk st)\<rparr>)"

lemma filter_args_ok:
  assumes "send_args type data sz st"
  obtains st' data' where "filter_args context type session data sz st
      = Inr (st', session, data', sz OR push_bit MESSAGE_TYPE_SHIFT (ucast (type AND 0xff)))"
    "passed type data sz st st' data'"
proof (cases "data = None \<or> type AND PTYPE_TAG_DONTCOPY \<noteq> 0")
  case True
  then show thesis using assms that [of st data]
    by (cases data) (auto simp: filter_args_def send_args_def passed_def Let_def)
next
  case False
  then obtain d where d: "data = Some d" "type AND PTYPE_TAG_DONTCOPY = 0" by auto
  with assms obtain bs where bs: "mem st d = Some (Bytes bs)" "unat sz \<le> length bs"
    by (auto simp: send_args_def split: option.splits block.splits)
  show thesis
    using that [of "st\<lparr>mem := (mem st)(mem_brk st \<mapsto> Bytes (take (unat sz) bs @ [0])), mem_brk := Suc (mem_brk st)\<rparr>"
        "Some (mem_brk st)"] assms d bs
    by (simp add: filter_args_def send_args_def passed_def Let_def mem_alloc_def)
qed

lemma node_ok_mem:
  assumes ok: "node_ok st" and m: "\<And>a. b \<le> a \<Longrightarrow> m a = None"
  shows "node_ok (st\<lparr>mem := m, mem_brk := b\<rparr>)"
proof -
  let ?st = "st\<lparr>mem := m, mem_brk := b\<rparr>"
  from ok obtain H gl where "sched_inv st H gl" by (auto simp: node_ok_def)
  then have "sched_inv ?st H gl" using sched_inv_cong [of ?st st] by simp
  moreover have "ctx_handles ?st = ctx_handles st" by (simp add: ctx_handles_def [abs_def])
  ultimately show ?thesis using node_okD [OF ok] m own_queues_same [of ?st st] by (intro node_okI) auto
qed

lemma passed_ok:
  assumes ok: "node_ok st" and p: "passed type data sz st st' data'"
  shows "node_ok st'" "q_view st' = q_view st" "ctxs st' = ctxs st" "handles st' = handles st" "HARBOR st' = HARBOR st"
    "node_live st' = node_live st"
proof -
  show "node_ok st'"
    using p ok node_okD(6) [OF ok] by (auto simp: passed_def split: if_splits intro!: node_ok_mem)
  show "q_view st' = q_view st" "ctxs st' = ctxs st" "handles st' = handles st" "HARBOR st' = HARBOR st"
    using p by (auto simp: passed_def split: if_splits)
  then show "node_live st' = node_live st" by (auto simp: node_live_def ctx_handles_def [abs_def])
qed

definition harbor_set :: "node \<Rightarrow> bool" where
  "harbor_set st \<longleftrightarrow> HARBOR st = harbor (handles st)"

lemma isremote_local:
  assumes "node_ok st" "harbor_set st"
  shows "skynet_harbor_message_isremote h st
    = Inr (h AND NOT HANDLE_MASK \<noteq> harbor (handles st) \<and> h AND NOT HANDLE_MASK \<noteq> 0)"
proof -
  have "harbor (handles st) AND HANDLE_MASK = 0" using node_okD(1) [OF assms(1)] by (simp add: handles_ok_def)
  then have "harbor (handles st) \<noteq> - 1" by (auto simp: HANDLE_MASK_def)
  then show ?thesis using assms(2) by (simp add: skynet_harbor_message_isremote_def harbor_set_def Let_def)
qed


text \<open>C22: sending to a local handle that is not live returns -1 and changes no queue. The data does not
  leak and is not freed twice: with DONTCOPY the data, whose ownership was handed over, is freed;
  otherwise the copy that was made is freed and the caller's data is left as it was.\<close>

theorem send_to_dead_frees_data:
  assumes ok: "node_ok st" "harbor_set st" and dst: "node_live st destination = None" "destination \<noteq> 0"
      "destination AND NOT HANDLE_MASK \<in> {0, harbor (handles st)}"
    and src: "source \<noteq> 0" and args: "send_args type data sz st"
  shows "\<exists>st'. skynet_send W context source destination type session data sz st = Inr (st', - 1)
    \<and> q_view st' = q_view st \<and> ctxs st' = ctxs st
    \<and> mem st' = (case data of Some d \<Rightarrow> if type AND PTYPE_TAG_DONTCOPY \<noteq> 0 then (mem st)(d := None) else mem st
        | None \<Rightarrow> mem st)"
proof -
  let ?sz = "sz OR push_bit MESSAGE_TYPE_SHIFT (ucast (type AND 0xff)) :: u64"
  have sz: "sz AND MESSAGE_TYPE_MASK = sz" using args by (simp add: send_args_def)
  obtain st1 data' where f: "filter_args context type session data sz st = Inr (st1, session, data', ?sz)"
    "passed type data sz st st1 data'" using filter_args_ok [OF args] .
  note pok = passed_ok [OF ok(1) f(2)]
  have local: "skynet_harbor_message_isremote destination st1 = Inr False"
    using isremote_local [OF pok(1), of destination] ok(2) pok(4,5) dst(3) by (auto simp: harbor_set_def)
  let ?m = "\<lparr>msg_source = source, msg_session = session, msg_data = data', msg_sz = ?sz\<rparr>"
  have "skynet_context_push W destination ?m st1 = Inr (st1, - 1)"
    using context_push_dead [OF pok(1)] dst(1) pok(6) by simp
  then have send: "skynet_send W context source destination type session data sz st
      = bindE (skynet_free data' st1) (\<lambda>st3. Inr (st3, - 1))"
    using sz src f(1) local dst(2) by (simp add: skynet_send_def source_handle_def)
  have fresh: "mem st (mem_brk st) = None" using node_okD(6) [OF ok(1)] by simp
  show ?thesis
  proof (cases data)
    case None
    then show ?thesis using send f(2) by (simp add: passed_def skynet_free_def)
  next
    case (Some d)
    with args obtain bs where bs: "mem st d = Some (Bytes bs)"
      by (auto simp: send_args_def split: option.splits block.splits)
    have upd: "(mem st)(mem_brk st := None) = mem st" using fresh by auto
    show ?thesis
      using send f(2) Some bs fresh by (auto simp: passed_def skynet_free_def upd split: if_splits)
  qed
qed

text \<open>when the service named logger is gone, \<^verbatim>\<open>skynet_error\<close> leaks: it allocates the text of the
  message, fails to push it, and returns without freeing it; no queue refers to it.\<close>

theorem error_leaks_when_logger_dead:
  assumes ok: "node_ok st" and lg: "logger st \<noteq> 0" "node_live st (logger st) = None"
  shows "\<exists>st'. skynet_error W None msg st = Inr st' \<and> q_view st' = q_view st
    \<and> mem st' = (mem st)(mem_brk st \<mapsto> Bytes (map of_char msg @ [0])) \<and> mem st (mem_brk st) = None"
proof -
  let ?st = "st\<lparr>mem := (mem st)(mem_brk st \<mapsto> Bytes (map of_char msg @ [0])), mem_brk := Suc (mem_brk st)\<rparr>"
  have "node_ok ?st" using node_okD(6) [OF ok] by (intro node_ok_mem [OF ok]) auto
  moreover have "node_live ?st (logger st) = None" using lg(2) by (simp add: node_live_def ctx_handles_def [abs_def])
  ultimately have "skynet_context_push W (logger st) m ?st = Inr (?st, - 1)" for m by (rule context_push_dead)
  then show ?thesis using lg(1) node_okD(6) [OF ok] by (simp add: skynet_error_def mem_alloc_def)
qed

section \<open>Sessions\<close>

fun newsessions :: "nat \<Rightarrow> ptr \<Rightarrow> node \<Rightarrow> (node \<times> i32 list) res" where
  "newsessions 0 p st = Inr (st, [])"
| "newsessions (Suc n) p st =
     bindE (skynet_context_newsession p st) (\<lambda>(st1, s).
     bindE (newsessions n p st1) (\<lambda>(st2, ss). Inr (st2, s # ss)))"

text \<open>The number a context's next session has, from the last one; the largest is followed by 1.\<close>

definition next_session :: "nat \<Rightarrow> nat" where
  "next_session s = (if 1 \<le> s \<and> s < 2 ^ 31 - 1 then Suc s else 1)"

lemma newsession_eq:
  assumes "ctxs st p = Some c"
  shows "\<exists>s. skynet_context_newsession p st = Inr (st\<lparr>ctxs := (ctxs st)(p \<mapsto> c\<lparr>c_session_id := s\<rparr>)\<rparr>, s)
    \<and> unat s = next_session (unat (c_session_id c))"
proof -
  let ?i = "c_session_id c"
  have lt: "unat ?i < 2 ^ 32" using unsigned_less [of ?i, where 'a = nat] by simp
  have inc: "unat (?i + 1) = (if unat ?i = 2 ^ 32 - 1 then 0 else Suc (unat ?i))"
  proof (cases "?i + 1 = 0")
    case True
    then have "?i = - 1" by (simp add: add_eq_0_iff2)
    moreover have "unat (- 1 :: i32) = 2 ^ 32 - 1" by (simp add: unsigned_minus_1_eq_mask mask_eq_exp_minus_1)
    ultimately show ?thesis by simp
  next
    case False
    then have "unat (?i + 1) = Suc (unat ?i)" by (metis unatSuc add.commute)
    moreover have "unat (?i + 1) < 2 ^ 32" using unsigned_less [of "?i + 1", where 'a = nat] by simp
    ultimately show ?thesis by simp
  qed
  have pos: "0 < sint (x :: i32) \<longleftrightarrow> 1 \<le> unat x \<and> unat x < 2 ^ 31" for x
    using unsigned_less [of x, where 'a = nat] by (auto simp: sint_i32 simp del: of_nat_unat)
  have "unat (if sint (?i + 1) \<le> 0 then 1 else ?i + 1) = next_session (unat ?i)"
    using pos [of "?i + 1"] inc lt by (auto simp: next_session_def not_le split: if_splits)
  then show ?thesis using assms
    by (auto simp: skynet_context_newsession_def upd_ctx_def Let_def)
qed

lemma next_session_range: "1 \<le> next_session s" "next_session s < 2 ^ 31"
  by (simp_all add: next_session_def)

lemma next_session_iter:
  assumes "1 \<le> s" "s < 2 ^ 31"
  shows "(next_session ^^ n) s = Suc ((s - 1 + n) mod (2 ^ 31 - 1))"
proof (induction n)
  case (Suc n)
  define m where "m = (s - 1 + n) mod (2 ^ 31 - 1)"
  have lt: "m < 2 ^ 31 - 1" by (simp add: m_def)
  have "(s - 1 + Suc n) mod (2 ^ 31 - 1) = (if Suc m = 2 ^ 31 - 1 then 0 else Suc m)"
    unfolding m_def add_Suc_right by (rule mod_Suc)
  with lt have "next_session (Suc m) = Suc ((s - 1 + Suc n) mod (2 ^ 31 - 1))"
    by (cases "Suc m = 2 ^ 31 - 1") (simp_all add: next_session_def)
  then show ?case using Suc by (simp add: m_def)
qed (use assms in simp)

lemma newsessions_eq:
  assumes "ctxs st p = Some c"
  shows "\<exists>st' ss. newsessions n p st = Inr (st', ss)
    \<and> map unat ss = map (\<lambda>i. (next_session ^^ Suc i) (unat (c_session_id c))) [0..<n]"
  using assms
proof (induction n arbitrary: st c)
  case (Suc n)
  from newsession_eq [OF Suc.prems] obtain s where
    s: "skynet_context_newsession p st = Inr (st\<lparr>ctxs := (ctxs st)(p \<mapsto> c\<lparr>c_session_id := s\<rparr>)\<rparr>, s)"
      "unat s = next_session (unat (c_session_id c))" by blast
  from Suc.IH [of "st\<lparr>ctxs := (ctxs st)(p \<mapsto> c\<lparr>c_session_id := s\<rparr>)\<rparr>" "c\<lparr>c_session_id := s\<rparr>"] obtain st' ss where
    "newsessions n p (st\<lparr>ctxs := (ctxs st)(p \<mapsto> c\<lparr>c_session_id := s\<rparr>)\<rparr>) = Inr (st', ss)"
    "map unat ss = map (\<lambda>i. (next_session ^^ Suc i) (unat s)) [0..<n]" by auto
  moreover have "map (\<lambda>i. (next_session ^^ Suc i) (unat (c_session_id c))) [0..<Suc n]
      = unat s # map (\<lambda>i. (next_session ^^ Suc i) (unat s)) [0..<n]"
    by (simp add: upt_conv_Cons map_Suc_upt [symmetric] s(2) o_def funpow_swap1 del: upt_Suc)
  ultimately show ?case using s(1) by simp
qed simp

text \<open>C23: the sessions a context allocates are always positive, and any fewer than \<open>2 ^ 31\<close> of them in a row are
  pairwise different, also where the 32-bit counter wraps around: no request is answered with the
  reply to another until that many requests later.\<close>

theorem sessions_positive_distinct:
  assumes "ctxs st p = Some c" "n < 2 ^ 31"
  shows "\<exists>st' ss. newsessions n p st = Inr (st', ss) \<and> length ss = n \<and> distinct ss \<and> (\<forall>s \<in> set ss. 0 < sint s)"
proof -
  from newsessions_eq [OF assms(1), of n] obtain st' ss where
    ss: "newsessions n p st = Inr (st', ss)"
      "map unat ss = map (\<lambda>i. (next_session ^^ Suc i) (unat (c_session_id c))) [0..<n]" by blast
  let ?s = "next_session (unat (c_session_id c))"
  have iter: "(next_session ^^ Suc i) (unat (c_session_id c)) = Suc ((?s - 1 + i) mod (2 ^ 31 - 1))" for i
    using next_session_iter [OF next_session_range, of i "unat (c_session_id c)"] by (simp add: funpow_swap1)
  have "inj_on (\<lambda>i. (?s - 1 + i) mod (2 ^ 31 - 1)) {0..<n}"
  proof (rule inj_onI)
    fix i j assume ij: "i \<in> {0..<n}" "j \<in> {0..<n}" "(?s - 1 + i) mod (2 ^ 31 - 1) = (?s - 1 + j) mod (2 ^ 31 - 1)"
    have *: "i = j" if "(?s - 1 + i) mod (2 ^ 31 - 1) = (?s - 1 + j) mod (2 ^ 31 - 1)" "i \<le> j" "j < 2 ^ 31 - 1" for i j
    proof -
      have "2 ^ 31 - 1 dvd (?s - 1 + j) - (?s - 1 + i)" using that by (intro mod_eq_dvd_iff_nat [THEN iffD1]) auto
      then have "2 ^ 31 - 1 dvd j - i" by simp
      then show ?thesis using that dvd_imp_le [of "2 ^ 31 - 1" "j - i"] by fastforce
    qed
    from ij assms(2) * [of i j] * [of j i] show "i = j" by (cases "i \<le> j") auto
  qed
  then have "distinct (map unat ss)"
    unfolding ss(2) iter by (simp add: distinct_map inj_on_def)
  moreover have "0 < sint s" if "s \<in> set ss" for s
  proof -
    have "unat s \<in> set (map unat ss)" using that by simp
    then obtain i where "unat s = Suc ((?s - 1 + i) mod (2 ^ 31 - 1))" unfolding ss(2) iter by auto
    moreover have "(?s - 1 + i) mod (2 ^ 31 - 1) < 2 ^ 31 - 1" by simp
    ultimately have "1 \<le> unat s" "unat s < 2 ^ 31" by simp_all
    then show ?thesis by (simp add: sint_i32 del: of_nat_unat)
  qed
  moreover have "length ss = n" using arg_cong [OF ss(2), of length] by simp
  ultimately show ?thesis using ss(1) by (auto simp: distinct_map)
qed

section \<open>Creating a service\<close>

lemma slots_ok_other:
  assumes "slots_ok ch hb sl" "Some p \<notin> set sl"
  shows "slots_ok (ch(p := x)) hb sl"
proof -
  have "q \<noteq> p" if "i < length sl" "sl ! i = Some q" for i q using assms(2) that by (metis nth_mem)
  with assms(1) show ?thesis unfolding slots_ok_def by fastforce
qed

lemma live_other:
  assumes ok: "slots_ok ch (harbor s) (slot s)" and p: "Some p \<notin> set (slot s)"
  shows "live (ch(p := x)) s = live ch s"
proof (rule map_eqI)
  fix h q show "live (ch(p := x)) s h = Some q \<longleftrightarrow> live ch s h = Some q"
    using live_iff [OF ok, of h q] live_iff [of "ch(p := x)" s h q] slots_ok_other [OF ok p] p by auto
qed

lemma context_setup_ok:
  assumes ok: "node_ok st" and can: "can_register (handles st)"
  shows "\<exists>st' h c. context_setup m inst st = Inr (st', ctx_brk st) \<and> node_ok st'
    \<and> h AND HANDLE_MASK \<noteq> 0 \<and> h AND NOT HANDLE_MASK = harbor (handles st) \<and> node_live st h = None
    \<and> node_live st' = (node_live st)(h \<mapsto> ctx_brk st) \<and> ctxs st' = (ctxs st)(ctx_brk st \<mapsto> c)
    \<and> c_ref c = 2 \<and> c_handle c = h \<and> c_queue c = mq_brk st \<and> c_init c = False \<and> c_mod c = m \<and> c_logfile c = None
    \<and> TI st' = TI st \<and> node_modules st' = node_modules st \<and> q_view st' = (q_view st)(mq_brk st \<mapsto> (h, False, [])) \<and> node_total st' = node_total st + 1
    \<and> mem st' = mem st \<and> HARBOR st' = HARBOR st \<and> harbor (handles st') = harbor (handles st)"
proof -
  let ?p = "ctx_brk st"
  let ?st1 = "st\<lparr>ctxs := (ctxs st)(?p \<mapsto> ctx_new m inst (node_profile st)), ctx_brk := Suc ?p\<rparr>"
  note slots = node_okD(2) [OF ok]
  have new: "Some ?p \<notin> set (slot (handles st))"
  proof
    assume "Some ?p \<in> set (slot (handles st))"
    then obtain i where "i < length (slot (handles st))" "slot (handles st) ! i = Some ?p" by (auto simp: in_set_conv_nth)
    from slots_okD [OF slots this] obtain c where "ctxs st ?p = Some c" by (auto simp: ctx_handles_def)
    then show False using node_okD(3) [OF ok] by blast
  qed
  have ch1: "ctx_handles ?st1 = (ctx_handles st)(?p \<mapsto> 0)" by (auto simp: ctx_handles_def ctx_new_def)
  have ok1: "handles_ok (ctx_handles ?st1) (handles st)"
    using node_okD(1) [OF ok] slots_ok_other [OF slots new] by (simp add: handles_ok_def ch1)
  from register_total [OF ok1 new can] obtain hs h where
    hs: "skynet_handle_register (ctx_handles ?st1) ?p (handles st) = Inr (hs, h)"
      "h AND HANDLE_MASK \<noteq> 0" "h AND NOT HANDLE_MASK = harbor (handles st)"
      "live (ctx_handles ?st1) (handles st) h = None"
      "live ((ctx_handles ?st1)(?p \<mapsto> h)) hs = (live (ctx_handles ?st1) (handles st))(h \<mapsto> ?p)"
      "handles_ok ((ctx_handles ?st1)(?p \<mapsto> h)) hs" by blast
  let ?st2 = "?st1\<lparr>handles := hs\<rparr>" and ?c = "(ctx_new m inst (node_profile st))\<lparr>c_handle := h, c_queue := mq_brk st\<rparr>"
  define st3 where "st3 = fst (skynet_mq_create ?st2 h)"
  note f3 = mq_create_frame(1,2) [of ?st2 h, folded st3_def]
  note ff = node_more_fields [OF f3(2)]
  define st' where "st' = context_inc (st3\<lparr>ctxs := (ctxs st)(?p \<mapsto> ?c)\<rparr>)"
  have eq: "context_setup m inst st = Inr (st', ?p)"
    using hs(1) mq_create_frame(3) [of ?st2 h] ff(1)
    by (simp add: context_setup_def Let_def case_prod_unfold upd_ctx_def st'_def st3_def [symmetric])
  have fields: "ctxs st' = (ctxs st)(?p \<mapsto> ?c)" "handles st' = hs" "ctx_brk st' = Suc ?p" "mem st' = mem st"
    "mem_brk st' = mem_brk st" "HARBOR st' = HARBOR st" "node_total st' = node_total st + 1"
    "TI st' = TI st" "node_modules st' = node_modules st"
    using ff by (simp_all add: st'_def context_inc_def)
  have view: "q_view st' = (q_view st)(mq_brk st \<mapsto> (h, False, []))"
    using f3(1) by (simp add: st'_def context_inc_def)
  have ch': "ctx_handles st' = (ctx_handles ?st1)(?p \<mapsto> h)" unfolding ch1 by (auto simp: ctx_handles_def fields(1))
  from ok obtain H gl where "sched_inv st H gl" by (auto simp: node_ok_def)
  then have "sched_inv ?st2 H gl" using sched_inv_cong [of ?st2 st] by simp
  from sched_create [OF this, of h] have "sched_inv st3 (insert (mq_brk st) H) gl"
    using mq_create_frame(3) [of ?st2 h] by (simp add: st3_def)
  then have sched: "sched_inv st' (insert (mq_brk st) H) gl"
    using sched_inv_cong [of st' st3] by (simp add: st'_def context_inc_def)
  have none: "q_view st (mq_brk st) = None"
  proof (cases "mq_heap st (mq_brk st)")
    case (Some mq)
    from sched_qD(1) [OF sched_invD(4) [OF \<open>sched_inv st H gl\<close> Some]] show ?thesis by simp
  qed (simp add: q_view_def)
  have lv: "live (ctx_handles ?st1) (handles st) = live (ctx_handles st) (handles st)"
    unfolding ch1 by (rule live_other [OF slots new])
  then have liv: "node_live st' = (node_live st)(h \<mapsto> ?p)" "node_live st h = None"
    using hs(4,5) by (simp_all add: node_live_def [abs_def] ch' fields(2))
  have slots': "slots_ok ((ctx_handles ?st1)(?p \<mapsto> h)) (harbor hs) (slot hs)" using hs(6) by (simp add: handles_ok_def)
  have in_hs: "((ctx_handles ?st1)(?p \<mapsto> h)) q = Some h' \<and> Some q \<in> set (slot hs)
      \<longleftrightarrow> ((live (ctx_handles ?st1) (handles st))(h \<mapsto> ?p)) h' = Some q" for q h'
    using live_iff [OF slots', of h' q] hs(5) by simp
  have "Some ?p \<in> set (slot hs)" using in_hs [of ?p h] by simp
  then obtain i where i: "i < length (slot hs)" "slot hs ! i = Some ?p" by (auto simp: in_set_conv_nth)
  have hb: "harbor hs = harbor (handles st)" using slots_okD [OF slots' i] hs(3) by (metis fun_upd_same option.inject)
  have "node_ok st'"
  proof (rule node_okI [OF _ sched])
    show "handles_ok (ctx_handles st') (handles st')" using hs(6) by (simp add: ch' fields(2))
    show "q < ctx_brk st' \<and> (\<exists>ms. q_view st' (c_queue d) = Some (c_handle d, False, ms))
        \<and> (Some q \<in> set (slot (handles st')) \<longrightarrow> 1 \<le> c_ref d)" if "ctxs st' q = Some d" for q d
    proof (cases "q = ?p")
      case True
      with that show ?thesis by (auto simp: fields view ctx_new_def)
    next
      case False
      then have d: "ctxs st q = Some d" using that by (simp add: fields(1))
      have "Some q \<in> set (slot (handles st))" if "Some q \<in> set (slot hs)"
      proof -
        have "((ctx_handles ?st1)(?p \<mapsto> h)) q = Some (c_handle d)" using d False by (simp add: ctx_handles_def)
        then have "((live (ctx_handles ?st1) (handles st))(h \<mapsto> ?p)) (c_handle d) = Some q" using in_hs that by blast
        then have "live (ctx_handles ?st1) (handles st) (c_handle d) = Some q" using False by (simp split: if_splits)
        then have "node_live st (c_handle d) = Some q" using lv by (simp add: node_live_def)
        then show ?thesis using live_iff [OF slots] by (simp add: node_live_def)
      qed
      then show ?thesis using node_okD(3-5) [OF ok d] none by (auto simp: fields view)
    qed
    show "mem st' a = None" if "mem_brk st' \<le> a" for a using node_okD(6) [OF ok] that by (simp add: fields)
    have "ctxs st q = Some d \<Longrightarrow> c_queue d \<noteq> mq_brk st" for q d using node_okD(4) [OF ok, of q d] none by auto
    then show "own_queues st'" using node_okD(7) [OF ok] unfolding own_queues_def fields(1)
      by (auto simp: ctx_new_def split: if_splits) fastforce
  qed
  then show ?thesis using eq hs(2,3) liv view fields hb
    by (intro exI [of _ st'] exI [of _ h] exI [of _ ?c]) (simp add: ctx_new_def)
qed

text \<open>creating a service gives it a handle of this node that no live service had, a queue of its own
  that is empty, and two references (the handle table's and the creator's); it is found under its
  handle, every other handle finds what it found before, the node counts one more service and
  keeps its invariant.\<close>

theorem context_setup_registers:
  assumes "node_ok st" "can_register (handles st)"
  shows "\<exists>st' h c. context_setup m inst st = Inr (st', ctx_brk st) \<and> node_ok st'
    \<and> h AND HANDLE_MASK \<noteq> 0 \<and> h AND NOT HANDLE_MASK = harbor (handles st) \<and> node_live st h = None
    \<and> node_live st' = (node_live st)(h \<mapsto> ctx_brk st) \<and> ctxs st' = (ctxs st)(ctx_brk st \<mapsto> c)
    \<and> c_ref c = 2 \<and> c_handle c = h \<and> waiting st' (c_queue c) = []
    \<and> skynet_context_total st' = skynet_context_total st + 1"
proof -
  from context_setup_ok [OF assms, of m inst] obtain st' h c where
    *: "context_setup m inst st = Inr (st', ctx_brk st)" "node_ok st'" "h AND HANDLE_MASK \<noteq> 0"
      "h AND NOT HANDLE_MASK = harbor (handles st)" "node_live st h = None"
      "node_live st' = (node_live st)(h \<mapsto> ctx_brk st)" "ctxs st' = (ctxs st)(ctx_brk st \<mapsto> c)"
      "c_ref c = 2" "c_handle c = h" "c_queue c = mq_brk st"
      "q_view st' = (q_view st)(mq_brk st \<mapsto> (h, False, []))" "node_total st' = node_total st + 1" by blast
  then have "waiting st' (c_queue c) = []" by (simp add: waiting_def)
  with * show ?thesis by (intro exI [of _ st'] exI [of _ h] exI [of _ c]) (simp add: skynet_context_total_def)
qed

section \<open>A small node\<close>

text \<open>A world in which services do nothing, and a node with two bytes allocated.\<close>

definition idle_world :: world where
  "idle_world = \<lparr>w_dlopen = (\<lambda>_. None), w_dlsym = (\<lambda>_ _. None), w_create = (\<lambda>_ st. Inr (st, None)),
     w_init = (\<lambda>_ _ _ _ st. Inr (st, 0)), w_release = (\<lambda>_ _ st. Inr st), w_signal = (\<lambda>_ _ _ st. Inr st),
     w_cb = (\<lambda>_ _ _ _ _ _ _ _ st. Inr (st, 0)), w_thread_time = (\<lambda>_. 0), w_seconds = (\<lambda>_. ''0''),
     w_log_open = (\<lambda>_ _ st. Inr (st, None)), w_log_close = (\<lambda>_ st. Inr st), w_log_output = (\<lambda>_ _ _ _ _ _ st. Inr st)\<rparr>"

definition node1 :: node where
  "node1 = skynet_harbor_init 0 (node0\<lparr>mem := [0 \<mapsto> Bytes [7, 8]], mem_brk := 1\<rparr>)"

lemma node1_ok: "node_ok node1" "harbor_set node1" "can_register (handles node1)" "node_live node1 h = None"
  "mem node1 0 = Some (Bytes [7, 8])"
proof -
  have "sched_inv node1 {} []"
    by (simp add: sched_inv_def gq_repr_def node1_def node0_def skynet_harbor_init_def)
  moreover have hs: "handles node1 = skynet_handle_init 0" by (simp add: node1_def node0_def skynet_harbor_init_def)
  moreover have "ctxs node1 = (\<lambda>_. None)" "mem node1 = [0 \<mapsto> Bytes [7, 8]]" "mem_brk node1 = 1"
    by (simp_all add: node1_def node0_def skynet_harbor_init_def)
  ultimately show "node_ok node1"
    using init_handles_ok [of "ctx_handles node1" 0] by (intro node_okI [of _ "{}" "[]"]) (auto simp: own_queues_def)
  show "node_live node1 h = None" "can_register (handles node1)"
    using init_live [of "ctx_handles node1" 0 h] unfolding can_register_def node_live_def
    by (simp_all add: hs) (intro disjI1 bexI [of _ 1],
      simp_all add: skynet_handle_init_def slot_size_def DEFAULT_SLOT_SIZE_def)
  show "harbor_set node1" "mem node1 0 = Some (Bytes [7, 8])"
    by (simp_all add: harbor_set_def node1_def node0_def skynet_harbor_init_def skynet_handle_init_def HANDLE_REMOTE_SHIFT_def)
qed

lemma node1_service:
  obtains st h c where "context_setup 0 0 node1 = Inr (st, ctx_brk node1)" "node_ok st" "harbor_set st"
    "node_live st h = Some (ctx_brk node1)" "ctxs st (ctx_brk node1) = Some c" "mem st 0 = Some (Bytes [7, 8])"
    "waiting st (c_queue c) = []" "c_ref c = 2" "c_mod c = 0" "c_logfile c = None" "TI st = timer_create_timer"
proof -
  from context_setup_ok [OF node1_ok(1,3), of 0 0] obtain st h c where
    "context_setup 0 0 node1 = Inr (st, ctx_brk node1)" "node_ok st"
    "node_live st = (node_live node1)(h \<mapsto> ctx_brk node1)" "ctxs st = (ctxs node1)(ctx_brk node1 \<mapsto> c)"
    "c_queue c = mq_brk node1" "q_view st = (q_view node1)(mq_brk node1 \<mapsto> (h, False, []))"
    "mem st = mem node1" "HARBOR st = HARBOR node1" "harbor (handles st) = harbor (handles node1)"
    "c_ref c = 2" "c_mod c = 0" "c_logfile c = None" "TI st = TI node1" by blast
  moreover have "TI node1 = timer_create_timer" by (simp add: node1_def node0_def skynet_harbor_init_def)
  ultimately show thesis using node1_ok(2,5) by (intro that [of st h c]) (simp_all add: harbor_set_def waiting_def)
qed

theorem context_setup_registers_witness:
  "\<exists>st' c. context_setup 0 0 node1 = Inr (st', ctx_brk node1) \<and> ctxs st' (ctx_brk node1) = Some c \<and> c_ref c = 2
    \<and> node_live st' (c_handle c) = Some (ctx_brk node1)"
proof -
  from context_setup_registers [OF node1_ok(1,3), of 0 0] obtain st' h c where
    "context_setup 0 0 node1 = Inr (st', ctx_brk node1)" "node_live st' = (node_live node1)(h \<mapsto> ctx_brk node1)"
    "ctxs st' = (ctxs node1)(ctx_brk node1 \<mapsto> c)" "c_ref c = 2" "c_handle c = h" by blast
  then show ?thesis by (intro exI [of _ st'] exI [of _ c]) simp
qed


theorem send_to_dead_frees_data_witness:
  "\<exists>st'. skynet_send idle_world None 9 0x55 PTYPE_TAG_DONTCOPY 5 (Some 0) 2 node1 = Inr (st', - 1) \<and> mem st' 0 = None"
proof -
  have "send_args PTYPE_TAG_DONTCOPY (Some 0) 2 node1"
    using node1_ok(5) by (simp add: send_args_def PTYPE_TAG_DONTCOPY_def PTYPE_TAG_ALLOCSESSION_def MASK_numeral)
  from send_to_dead_frees_data [OF node1_ok(1,2) node1_ok(4) [of "0x55"] _ _ _ this, of 9 idle_world None 5]
  show ?thesis by (force simp: HANDLE_MASK_def PTYPE_TAG_DONTCOPY_def)
qed

theorem error_leaks_when_logger_dead_witness:
  "\<exists>st'. skynet_error idle_world None ''x'' (node1\<lparr>logger := 3\<rparr>) = Inr st' \<and> mem st' 1 = Some (Bytes [120, 0]) \<and> q_view st' = q_view node1"
proof -
  let ?st = "node1\<lparr>logger := 3\<rparr>"
  have ch: "ctx_handles ?st = ctx_handles node1" by (simp add: ctx_handles_def [abs_def])
  have "sched_inv ?st H gl = sched_inv node1 H gl" for H gl by (rule sched_inv_cong) simp_all
  then have "node_ok ?st" using node1_ok(1) by (simp add: node_ok_def ch own_queues_def)
  moreover have "node_live ?st 3 = None" using node1_ok(4) [of 3] by (simp add: node_live_def ch)
  moreover have "mem_brk ?st = 1" by (simp add: node1_def skynet_harbor_init_def)
  ultimately show ?thesis using error_leaks_when_logger_dead [of ?st idle_world "''x''"] by force
qed

theorem sessions_positive_distinct_witness:
  "\<exists>st' ss. newsessions 3 0 (node1\<lparr>ctxs := [0 \<mapsto> (ctx_new 0 0 False)\<lparr>c_session_id := 0x7ffffffe\<rparr>]\<rparr>) = Inr (st', ss)
    \<and> length ss = 3 \<and> distinct ss \<and> (\<forall>s \<in> set ss. 0 < sint s)"
  by (rule sessions_positive_distinct) simp_all

section \<open>Handles as text\<close>

definition hex_digits :: "nat \<Rightarrow> nat \<Rightarrow> string" where
  "hex_digits n x = map (\<lambda>k. digit_upper (x div 16 ^ (n - 1 - k) mod 16)) [0..<n]"

lemma hex_digits_Suc: "hex_digits (Suc n) x = hex_digits n (x div 16) @ [digit_upper (x mod 16)]"
proof -
  have "x div 16 ^ (n - k) = x div 16 div 16 ^ (n - 1 - k)" if "k < n" for k
  proof -
    have "n - k = Suc (n - 1 - k)" using that by simp
    then show ?thesis by (simp add: div_mult2_eq)
  qed
  then show ?thesis by (simp add: hex_digits_def)
qed

lemma hex_digits_valid: "\<forall>c \<in> set (hex_digits n x). base_digit 16 c \<noteq> None"
  by (auto simp: hex_digits_def base_digit_print)

lemma scan_hex_digits: "scan_number 16 0 (hex_digits n x) = x mod 16 ^ n"
proof (induction n arbitrary: x)
  case (Suc n)
  have "scan_number 16 0 (hex_digits (Suc n) x) = scan_number 16 (x div 16 mod 16 ^ n) [digit_upper (x mod 16)]"
    unfolding hex_digits_Suc scan_number_append [OF hex_digits_valid] Suc.IH ..
  also have "\<dots> = x div 16 mod 16 ^ n * 16 + x mod 16" by (simp add: base_digit_print)
  also have "\<dots> = x mod 16 ^ Suc n" by (simp add: mod_mult2_eq)
  finally show ?case .
qed (simp add: hex_digits_def)

lemma id_to_hex_digits: "id_to_hex h = CHR '':'' # hex_digits 8 (unat h)"
proof -
  have "unat (drop_bit ((7 - k) * 4) h AND 0xf) = unat h div 16 ^ (8 - 1 - k) mod 16" for k
    using unat_drop_bit_and_mask [of "(7 - k) * 4" h 4]
    by (simp add: mask_eq_exp_minus_1 power_mult [symmetric, of 2 4] mult.commute) (simp add: power_mult)
  then show ?thesis unfolding id_to_hex_def hex_digits_def by simp
qed

lemma strtoul_id_to_hex: "strtoul (tl (id_to_hex h)) 16 = ucast h"
proof -
  have "unat h < 16 ^ 8" using unsigned_less [of h, where 'a = nat] by simp
  then show ?thesis
    using strtoul_hex [OF hex_digits_valid, of 8 "unat h"] by (simp add: id_to_hex_digits scan_hex_digits)
qed

text \<open>the text forms in which a node hands out handles (the eight digits that \<^verbatim>\<open>LAUNCH\<close> returns, and the
  shorter form that \<^verbatim>\<open>REG\<close> and \<^verbatim>\<open>QUERY\<close> return) are read back, by every function that takes a handle as
  text, as the same handle.\<close>

theorem handle_text_roundtrip:
  "skynet_queryname W p (id_to_hex h) st = Inr (st, h) \<and> skynet_queryname W p (CHR '':'' # fmt_x h) st = Inr (st, h)
    \<and> tohandle W p (id_to_hex h) st = Inr (st, h) \<and> tohandle W p (CHR '':'' # fmt_x h) st = Inr (st, h)"
proof -
  have c: "char0 (id_to_hex h) = CHR '':''" by (simp add: id_to_hex_def char0_def)
  have u: "ucast (ucast h :: u64) = h" by (rule bit_word_eqI) (simp add: bit_simps)
  show ?thesis
    by (simp add: skynet_queryname_def tohandle_def c strtoul_id_to_hex u) (simp add: char0_def strtoul_fmt_x u)
qed

end
