(* ===== verification/Skynet_Lifecycle.thy ===== *)
theory Skynet_Lifecycle
  imports Skynet_Delivery
begin

text \<open>
  Services over time: timeouts that come back as messages, retiring a service and giving up its last
  reference, the dispatch of messages by weight, and the text commands for names.
\<close>

section \<open>Timeouts\<close>

text \<open>What the timer thread sends: one message for every timer, to the service of its handle.\<close>

lemma queue_of_handle:
  assumes "node_ok st" "ctxs st p = Some c" "ctxs st p' = Some c'" "c_queue c = c_queue c'"
  shows "c_handle c = c_handle c'"
  using node_okD(4) [OF assms(1,2)] node_okD(4) [OF assms(1,3)] assms(4) by auto

lemma dispatch_list_delivers:
  assumes ok: "node_ok st" and p: "node_live st h = Some p" "ctxs st p = Some c"
  shows "\<exists>st'. dispatch_list W ns st = Inr st' \<and> node_ok st' \<and> mq_state.more st' = mq_state.more st
    \<and> waiting st' (c_queue c) = waiting st (c_queue c)
        @ map (\<lambda>n. timeout_message (tn_session n)) (filter (\<lambda>n. tn_handle n = h) ns)"
  using assms
proof (induction ns arbitrary: st)
  case Nil
  then show ?case by simp
next
  case (Cons n ns)
  let ?m = "timeout_message (tn_session n)"
  obtain c0 where h: "ctxs st p = Some c0" "c_handle c0 = h" using node_live_ctx [OF Cons(2,3)] .
  show ?case
  proof (cases "node_live st (tn_handle n)")
    case None
    then have "tn_handle n \<noteq> h" using Cons(3) by auto
    moreover have "skynet_context_push W (tn_handle n) ?m st = Inr (st, - 1)" using context_push_dead [OF Cons(2) None] .
    ultimately show ?thesis using Cons.IH [OF Cons(2-4)] by simp
  next
    case (Some p')
    obtain c' where c': "ctxs st p' = Some c'" "c_handle c' = tn_handle n" using node_live_ctx [OF Cons(2) Some] .
    obtain st1 where st1: "skynet_context_push W (tn_handle n) ?m st = Inr (st1, 0)" "node_ok st1"
      "q_view st1 = (q_view st)(c_queue c' \<mapsto> (tn_handle n, False, waiting st (c_queue c') @ [?m]))"
      "mq_state.more st1 = mq_state.more st"
      using context_push_live [OF Cons(2) Some c'(1)] .
    note f = node_more_fields [OF st1(4)]
    have live: "node_live st1 h = Some p" "ctxs st1 p = Some c"
      using Cons(3,4) f(1,5) by (simp_all add: node_live_def ctx_handles_def [abs_def])
    have same: "c_queue c = c_queue c' \<longleftrightarrow> tn_handle n = h"
      using queue_of_handle [OF Cons(2) Cons(4) c'(1)] h c' Cons(3,4) Some by auto
    have "waiting st1 (c_queue c) = waiting st (c_queue c) @ (if tn_handle n = h then [?m] else [])"
      using st1(3) same by (auto simp: waiting_def)
    with Cons.IH [OF st1(2) live] st1(1,4) show ?thesis by (cases "tn_handle n = h") auto
  qed
qed

lemma node_ok_timer: "node_ok (st\<lparr>TI := T\<rparr>) = node_ok st" "waiting (st\<lparr>TI := T\<rparr>) = waiting st"
  "node_live (st\<lparr>TI := T\<rparr>) = node_live st"
proof -
  have q: "q_view (st\<lparr>TI := T\<rparr>) = q_view st" by (simp add: q_view_def [abs_def])
  have s: "sched_inv (st\<lparr>TI := T\<rparr>) H gl = sched_inv st H gl" for H gl by (rule sched_inv_cong) simp_all
  have c: "ctx_handles (st\<lparr>TI := T\<rparr>) = ctx_handles st" by (simp add: ctx_handles_def [abs_def])
  show "node_ok (st\<lparr>TI := T\<rparr>) = node_ok st" by (simp add: node_ok_def own_queues_def q s c)
  show "waiting (st\<lparr>TI := T\<rparr>) = waiting st" by (simp add: waiting_def [abs_def] q)
  show "node_live (st\<lparr>TI := T\<rparr>) = node_live st" by (simp add: node_live_def [abs_def] c)
qed

text \<open>C11: a timeout comes back: after \<^verbatim>\<open>skynet_timeout\<close> with a positive delay for a live service, which sends
  nothing at once, the timer thread's next reading of the clock, at any time from the delay on,
  appends a response message with that session to the queue of the service, and keeps the node's
  invariant.\<close>

theorem timeout_arrives:
  assumes ok: "node_ok st" "timer_inv (TI st)" and p: "node_live st h = Some p" "ctxs st p = Some c"
    and t: "0 < sint t" and clock: "ti_current_point (TI st) \<le> cp" "cp - ti_current_point (TI st) = of_nat k"
      "unat t \<le> k" "k < 2 ^ 32"
  shows "\<exists>st1 st2. skynet_timeout W h t session st = Inr (st1, session) \<and> waiting st1 = waiting st
    \<and> node_updatetime W cp st1 = Inr st2 \<and> node_ok st2
    \<and> (\<exists>before after. waiting st2 (c_queue c) = waiting st (c_queue c) @ before @ timeout_message session # after)"
proof -
  let ?n = "\<lparr>tn_expire = t + ti_time (TI st), tn_handle = h, tn_session = session\<rparr>"
  define T where "T = add_node ?n (TI st)"
  let ?st1 = "st\<lparr>TI := T\<rparr>"
  have step: "skynet_timeout W h t session st = Inr (?st1, session)"
    using t by (simp add: skynet_timeout_def timer_add_def T_def)
  have at: "timer_at (in_future (ti_time (TI st))) (TI st)" using ok(2) by (simp add: timer_inv_at)
  have tpos: "0 < unat t" "unat t < 2 ^ 31" using positive_i32 [OF t] by simp_all
  have "in_future (ti_time (TI st)) (tn_expire ?n)" using tpos by (simp add: in_future_def)
  from add_node_at [OF at this] have inv: "timer_inv T" by (simp add: timer_inv_at T_def)
  have clk: "ti_current_point T = ti_current_point (TI st)" "ti_time T = ti_time (TI st)"
    using same_clock_set_bucket [of "TI st"] by (simp_all add: T_def add_node_eq same_clock_def)
  have pend: "?n \<in> set (pending T (ti_time T + of_nat (Suc (unat t - 1))))"
    using add_node_pending [OF timer_at_shape [OF at], of ?n "ti_time T + of_nat (Suc (unat t - 1))"] tpos(1) clk(2)
    by (simp add: T_def add.commute)
  from updatetime_ok [of T cp k] inv clock clk obtain T' where
    T': "skynet_updatetime cp T = Inr (T', map (\<lambda>i. pending T (ti_time T + of_nat (Suc i))) [0..<k])" by auto
  define ns where "ns = concat (map (\<lambda>i. pending T (ti_time T + of_nat (Suc i))) [0..<k])"
  have "unat t - 1 < k" using tpos(1) clock(3) by linarith
  then have "?n \<in> set ns" using pend unfolding ns_def by force
  then obtain xs ys where ns: "ns = xs @ ?n # ys" by (meson split_list)
  have "node_ok (st\<lparr>TI := T'\<rparr>)" "node_live (st\<lparr>TI := T'\<rparr>) h = Some p" "ctxs (st\<lparr>TI := T'\<rparr>) p = Some c"
    using ok p by (simp_all add: node_ok_timer)
  from dispatch_list_delivers [OF this, of W ns] obtain st2 where
    st2: "dispatch_list W ns (st\<lparr>TI := T'\<rparr>) = Inr st2" "node_ok st2" "waiting st2 (c_queue c) = waiting st (c_queue c)
      @ map (\<lambda>n. timeout_message (tn_session n)) (filter (\<lambda>n. tn_handle n = h) ns)"
    by (auto simp: node_ok_timer)
  have "node_updatetime W cp ?st1 = Inr st2" using T' st2(1) by (simp add: node_updatetime_def ns_def)
  with step st2(2,3) ns show ?thesis by (auto simp: node_ok_timer)
qed

section \<open>The end of a service\<close>

text \<open>The handle table reads the handles only of the contexts that are in it.\<close>

lemma handles_ok_cong:
  assumes "\<And>p. Some p \<in> set (slot s) \<Longrightarrow> ch' p = ch p"
  shows "handles_ok ch' s = handles_ok ch s"
proof -
  have "\<And>i p. i < length (slot s) \<Longrightarrow> slot s ! i = Some p \<Longrightarrow> ch' p = ch p" using assms by (metis nth_mem)
  then show ?thesis unfolding handles_ok_def slots_ok_def by metis
qed

lemma live_cong:
  assumes "handles_ok ch s" "\<And>p. Some p \<in> set (slot s) \<Longrightarrow> ch' p = ch p"
  shows "live ch' s = live ch s"
proof
  fix h
  have ok: "slots_ok ch (harbor s) (slot s)" using assms(1) by (simp add: handles_ok_def)
  show "live ch' s h = live ch s h"
  proof (cases "slot s ! hash_of h (slot_size s)")
    case (Some p)
    then have "Some p \<in> set (slot s)" using hash_of_less [OF ok, of h] unfolding slot_size_def by (metis nth_mem)
    with Some show ?thesis using assms(2) by (simp add: live_def)
  qed (simp add: live_def)
qed

text \<open>A world whose release functions leave the node alone.\<close>

definition quiet_release :: "world \<Rightarrow> bool" where
  "quiet_release W \<longleftrightarrow> (\<forall>f i st. w_release W f i st = Inr st)"

text \<open>A service that can be deleted: no log file, and a module that is in the table.\<close>

definition deletable :: "node \<Rightarrow> skynet_context \<Rightarrow> bool" where
  "deletable st c \<longleftrightarrow> c_logfile c = None \<and> c_mod c < length (mo_m (node_modules st))"

lemma delete_context_quiet:
  assumes inv: "sched_inv st H gl" and c: "ctxs st p = Some c" "q_view st (c_queue c) = Some (h, False, ms)"
    and W: "quiet_release W" "deletable st c"
  obtains st' gl' where "delete_context W p st = Inr st'" "sched_inv st' H gl'"
    "q_view st' = (q_view st)(c_queue c \<mapsto> (h, True, ms))" "ctxs st' = (ctxs st)(p := None)"
    "node_total st' = node_total st - 1" "handles st' = handles st" "mem st' = mem st" "mem_brk st' = mem_brk st"
    "ctx_brk st' = ctx_brk st"
proof -
  from q_view_heap [OF c(2) inv] obtain mq where
    mq: "mq_heap st (c_queue c) = Some mq" "mq_handle mq = h" "\<not> mq_release mq" "mq_contents mq = ms" by auto
  from sched_mark_release [OF inv mq(1,3)] obtain st1 where
    st1: "skynet_mq_mark_release st (c_queue c) = Inr st1"
      "sched_inv st1 H (if mq_in_global mq then gl else gl @ [c_queue c])" by blast
  note fr = mark_release_frame [OF mq(1) st1(1)]
  note f = node_more_fields [OF fr(2)]
  have "skynet_module_instance_release W (c_mod c) (c_instance c) st = Inr st"
    using W by (simp add: skynet_module_instance_release_def quiet_release_def deletable_def split: option.split)
  then have del: "delete_context W p st = Inr (context_dec (st1\<lparr>ctxs := (ctxs st1)(p := None)\<rparr>))"
    using c(1) st1(1) W(2) by (simp add: delete_context_def deletable_def)
  let ?st' = "context_dec (st1\<lparr>ctxs := (ctxs st1)(p := None)\<rparr>)"
  have "sched_inv ?st' H gl' = sched_inv st1 H gl'" for gl' by (rule sched_inv_cong) (simp_all add: context_dec_def)
  then show thesis using that [OF del] st1(2) fr(1) mq f by (simp add: context_dec_def)
qed

lemma retire_gone:
  assumes "handles_ok ch s'" "live ch s' h = None" "ch p = Some h"
  shows "Some p \<notin> set (slot s')"
  using live_iff [of ch s' h p] assms by (auto simp: handles_ok_def)

text \<open>The invariant after a handle has been taken out of the table and its context freed or released.\<close>

lemma node_ok_retired:
  assumes ok: "node_ok st" and p: "ctxs st p = Some c" and hs: "handles_ok (ctx_handles st) hs" "Some p \<notin> set (slot hs)"
      "\<And>r. Some r \<in> set (slot hs) \<Longrightarrow> Some r \<in> set (slot (handles st))"
    and st': "sched_inv st' H gl" "handles st' = hs" "mem st' = mem st" "mem_brk st' = mem_brk st" "ctx_brk st' = ctx_brk st"
    and c': "ctxs st' = (ctxs st)(p := c')"
    and qs: "\<And>q. q \<noteq> c_queue c \<or> c' \<noteq> None \<Longrightarrow> q_view st' q = q_view st q"
    and keep: "\<And>d. c' = Some d \<Longrightarrow> c_queue d = c_queue c \<and> c_handle d = c_handle c"
  shows "node_ok st'" "live (ctx_handles st') hs = live (ctx_handles st) hs"
proof -
  have chs: "Some r \<in> set (slot hs) \<Longrightarrow> ctx_handles st' r = ctx_handles st r" for r
    using hs(2) c' by (auto simp: ctx_handles_def)
  show "live (ctx_handles st') hs = live (ctx_handles st) hs" by (rule live_cong [OF hs(1) chs])
  have old: "\<exists>d'. ctxs st r = Some d' \<and> c_queue d' = c_queue d" if "ctxs st' r = Some d" for r d
    using that c' p keep [of d] by (cases "r = p") auto
  show "node_ok st'"
  proof (rule node_okI [OF _ st'(1)])
    show "handles_ok (ctx_handles st') (handles st')" using hs(1) handles_ok_cong [OF chs] st'(2) by simp
    show "mem st' a = None" if "mem_brk st' \<le> a" for a using node_okD(6) [OF ok] st'(3,4) that by simp
    show "own_queues st'" unfolding own_queues_def using old node_okD(7) [OF ok, unfolded own_queues_def] by metis
    fix r d assume d: "ctxs st' r = Some d"
    show "r < ctx_brk st' \<and> (\<exists>ms. q_view st' (c_queue d) = Some (c_handle d, False, ms))
        \<and> (Some r \<in> set (slot (handles st')) \<longrightarrow> 1 \<le> c_ref d)"
    proof (cases "r = p")
      case True
      then have "c' = Some d" using d c' by simp
      then show ?thesis using True keep [of d] qs node_okD(3,4) [OF ok p] hs(2) st'(2,5) by auto
    next
      case False
      then have dr: "ctxs st r = Some d" using d c' by simp
      then have "c_queue d \<noteq> c_queue c" using node_okD(7) [OF ok] p False unfolding own_queues_def by blast
      then show ?thesis using node_okD(3,4,5) [OF ok dr] qs st'(2,5) hs(3) by auto
    qed
  qed
qed

text \<open>C16: retiring a live handle (of a service whose release function leaves the node alone) ends its life in
  the table and gives up the table's reference: no handle but this one changes; if the reference was
  the last, the context is freed, its queue is marked for release with the messages it holds, and
  the node counts one service less; otherwise the service keeps its queue until the other references
  are given up. The node keeps its invariant.\<close>

theorem retire_ends_service:
  assumes ok: "node_ok st" and p: "node_live st h = Some p" "ctxs st p = Some c" and W: "quiet_release W" "deletable st c"
  shows "\<exists>st'. skynet_handle_retire W h st = Inr (st', True) \<and> node_ok st'
    \<and> node_live st' = (node_live st)(h := None)
    \<and> (if c_ref c = 1 then ctxs st' = (ctxs st)(p := None)
         \<and> q_view st' = (q_view st)(c_queue c \<mapsto> (h, True, waiting st (c_queue c)))
         \<and> skynet_context_total st' = skynet_context_total st - 1
       else ctxs st' = (ctxs st)(p \<mapsto> c\<lparr>c_ref := c_ref c - 1\<rparr>) \<and> q_view st' = q_view st
         \<and> skynet_context_total st' = skynet_context_total st)"
proof -
  obtain c0 where c0: "ctxs st p = Some c0" "c_handle c0 = h" using node_live_ctx [OF ok p(1)] .
  then have ch: "c_handle c = h" "ctx_handles st p = Some h" using p(2) by (auto simp: ctx_handles_def)
  from handle_retire_total [OF node_okD(1) [OF ok], of h] p(1) obtain hs where
    hs: "handle_retire (ctx_handles st) h (handles st) = Inr (hs, Some p)" "handles_ok (ctx_handles st) hs"
      "live (ctx_handles st) hs = (live (ctx_handles st) (handles st))(h := None)" by (auto simp: node_live_def)
  have gone: "Some p \<notin> set (slot hs)" using retire_gone [OF hs(2) _ ch(2)] hs(3) by simp
  have sub: "Some r \<in> set (slot hs) \<Longrightarrow> Some r \<in> set (slot (handles st))" for r
    using live_iff [of "ctx_handles st" hs _ r] live_iff [of "ctx_handles st" "handles st" _ r] hs(2,3) node_okD(1) [OF ok]
    by (metis fun_upd_apply handles_ok_def in_set_conv_nth option.simps(3) slots_okD)
  from ok obtain H gl where inv: "sched_inv st H gl" by (auto simp: node_ok_def)
  from node_okD(4) [OF ok p(2)] ch(1) obtain ms where ms: "q_view st (c_queue c) = Some (h, False, ms)" by auto
  let ?st2 = "st\<lparr>handles := hs, ctxs := (ctxs st)(p \<mapsto> c\<lparr>c_ref := c_ref c - 1\<rparr>)\<rparr>"
  have inv2: "sched_inv ?st2 H gl" using inv sched_inv_cong [of ?st2 st] by simp
  let ?c = "c\<lparr>c_ref := c_ref c - 1\<rparr>"
  show ?thesis
  proof (cases "c_ref c = 1")
    case True
    have "deletable ?st2 ?c" using W(2) by (simp add: deletable_def)
    from delete_context_quiet [OF inv2 _ _ W(1) this, of p h ms] ms obtain st' gl' where
      st': "delete_context W p ?st2 = Inr st'" "sched_inv st' H gl'" "q_view st' = (q_view st)(c_queue c \<mapsto> (h, True, ms))"
        "ctxs st' = (ctxs st)(p := None)" "node_total st' = node_total st - 1" "handles st' = hs" "mem st' = mem st"
        "mem_brk st' = mem_brk st" "ctx_brk st' = ctx_brk st" by auto
    have "skynet_handle_retire W h st = Inr (st', True)"
      using hs(1) st'(1) True p(2)
      by (simp add: skynet_handle_retire_def skynet_context_release_def upd_ctx_def Let_def)
    moreover have "node_ok st'" "live (ctx_handles st') hs = live (ctx_handles st) hs"
      by (rule node_ok_retired [OF ok p(2) hs(2) gone sub st'(2,6-9) st'(4)]; use st'(3) in simp)+
    ultimately show ?thesis using True st' hs(3) ms
      by (intro exI [of _ st']) (simp add: node_live_def [abs_def] waiting_def skynet_context_total_def)
  next
    case False
    have "skynet_handle_retire W h st = Inr (?st2, True)"
      using hs(1) False p(2)
      by (simp add: skynet_handle_retire_def skynet_context_release_def upd_ctx_def Let_def)
    moreover have "node_ok ?st2" "live (ctx_handles ?st2) hs = live (ctx_handles st) hs"
      by (rule node_ok_retired [OF ok p(2) hs(2) gone sub inv2, where c' = "Some ?c"]; simp)+
    ultimately show ?thesis using False hs(3)
      by (intro exI [of _ ?st2]) (simp add: node_live_def [abs_def] skynet_context_total_def)
  qed
qed

lemma timer_inv_create: "timer_inv timer_create_timer"
proof -
  have "skynet_timer_init (0, 0) (0, 0) = timer_create_timer"
    by (simp add: skynet_timer_init_def systime_def gettime_def timer_create_timer_def)
  then show ?thesis using timer_rel_init [of "(0, 0)" "(0, 0)"] by (simp add: timer_rel_def)
qed

text \<open>A service of a fresh node asks for a message in two centiseconds; the clock is read after three.\<close>

theorem timeout_arrives_witness:
  "\<exists>st h c st1 st2 before after. context_setup 0 0 node1 = Inr (st, ctx_brk node1) \<and> ctxs st (ctx_brk node1) = Some c
    \<and> skynet_timeout idle_world h 2 5 st = Inr (st1, 5) \<and> node_updatetime idle_world 3 st1 = Inr st2
    \<and> waiting st2 (c_queue c) = before @ timeout_message 5 # after"
proof -
  obtain st h c where st: "context_setup 0 0 node1 = Inr (st, ctx_brk node1)" "node_ok st"
    "node_live st h = Some (ctx_brk node1)" "ctxs st (ctx_brk node1) = Some c"
    "waiting st (c_queue c) = []" "TI st = timer_create_timer" using node1_service .
  have "ti_current_point (TI st) = 0" by (simp add: st(6) timer_create_timer_def)
  moreover have "timer_inv (TI st)" using st(6) timer_inv_create by simp
  ultimately show ?thesis
    using timeout_arrives [OF st(2) _ st(3,4), of 2 3 3 idle_world 5] st(1,4,5) by fastforce
qed

text \<open>The same service, with its module in the table, is retired; its creator still holds a reference.\<close>

theorem retire_ends_service_witness:
  "\<exists>st h c st'. context_setup 0 0 node1 = Inr (st, ctx_brk node1) \<and> ctxs st (ctx_brk node1) = Some c \<and> c_ref c = 2
    \<and> skynet_handle_retire idle_world h (st\<lparr>node_modules := \<lparr>mo_path = [], mo_m = [\<lparr>sm_name = [], sm_module = 0,
        sm_create = None, sm_init = None, sm_release = None, sm_signal = None\<rparr>]\<rparr>\<rparr>) = Inr (st', True)
    \<and> node_live st' h = None \<and> ctxs st' (ctx_brk node1) = Some (c\<lparr>c_ref := 1\<rparr>)"
proof -
  obtain st h c where st: "context_setup 0 0 node1 = Inr (st, ctx_brk node1)" "node_ok st"
    "node_live st h = Some (ctx_brk node1)" "ctxs st (ctx_brk node1) = Some c" "c_ref c = 2" "c_mod c = 0" "c_logfile c = None"
    using node1_service .
  let ?st = "st\<lparr>node_modules := \<lparr>mo_path = [], mo_m = [\<lparr>sm_name = [], sm_module = 0,
        sm_create = None, sm_init = None, sm_release = None, sm_signal = None\<rparr>]\<rparr>\<rparr>"
  have same: "q_view ?st = q_view st" "ctx_handles ?st = ctx_handles st"
    by (simp_all add: q_view_def [abs_def] ctx_handles_def [abs_def])
  have "sched_inv ?st H gl = sched_inv st H gl" for H gl by (rule sched_inv_cong) simp_all
  then have ok: "node_ok ?st" using st(2) by (simp add: node_ok_def own_queues_def same)
  have "node_live ?st h = Some (ctx_brk node1)" "ctxs ?st (ctx_brk node1) = Some c"
    using st(3,4) by (simp_all add: node_live_def same)
  from retire_ends_service [OF ok this, of idle_world] st(5-7) obtain st' where
    "skynet_handle_retire idle_world h ?st = Inr (st', True)" "node_live st' = (node_live ?st)(h := None)"
    "ctxs st' = (ctxs ?st)(ctx_brk node1 \<mapsto> c\<lparr>c_ref := 1\<rparr>)"
    by (auto simp: quiet_release_def idle_world_def deletable_def)
  then show ?thesis using st(1,4,5) by (intro exI [of _ st] exI [of _ h] exI [of _ c] exI [of _ st']) simp
qed

section \<open>Commands for names\<close>

lemma takeWhile_word: "\<forall>c \<in> set w. \<not> isspace c \<Longrightarrow> takeWhile (\<lambda>c. \<not> isspace c) (w @ CHR '' '' # s) = w
    \<and> dropWhile (\<lambda>c. \<not> isspace c) (w @ CHR '' '' # s) = CHR '' '' # s"
  by (induction w) (auto simp: isspace_def byte_of_def)

lemma scan_word_first:
  assumes "w \<noteq> []" "\<forall>c \<in> set w. \<not> isspace c"
  shows "scan_word (w @ CHR '' '' # s) = (Some w, CHR '' '' # s)"
proof -
  have "dropWhile isspace (w @ CHR '' '' # s) = w @ CHR '' '' # s" using assms by (cases w) auto
  then show ?thesis using assms takeWhile_word [OF assms(2)] by (simp add: scan_word_def)
qed

lemma scan_word_last:
  assumes "w \<noteq> []" "\<forall>c \<in> set w. \<not> isspace c"
  shows "scan_word w = (Some w, [])" "fst (scan_word (CHR '' '' # w)) = Some w"
proof -
  have "dropWhile isspace w = w" using assms by (cases w) auto
  moreover have "takeWhile (\<lambda>c. \<not> isspace c) w = w" "dropWhile (\<lambda>c. \<not> isspace c) w = []"
    using assms(2) by (auto simp: takeWhile_eq_all_conv dropWhile_eq_Nil_conv)
  moreover have "isspace (CHR '' '')" by (simp add: isspace_def byte_of_def)
  ultimately show "scan_word w = (Some w, [])" "fst (scan_word (CHR '' '' # w)) = Some w"
    using assms(1) by (simp_all add: scan_word_def)
qed

lemma sscanf_two:
  assumes "a \<noteq> []" "\<forall>c \<in> set a. \<not> isspace c" "b \<noteq> []" "\<forall>c \<in> set b. \<not> isspace c"
  shows "sscanf_2s (a @ CHR '' '' # b) = (Some a, Some b)"
  using scan_word_first [OF assms(1,2)] scan_word_last(2) [OF assms(3,4)] by (simp add: sscanf_2s_def)

lemma find_NAME: "find_cmd cmd_funcs ''NAME'' = Some cmd_name"
  by (simp add: cmd_funcs_def)

lemma find_QUERY: "find_cmd cmd_funcs ''QUERY'' = Some cmd_query"
  by (simp add: cmd_funcs_def)

lemma fmt_x_word: "fmt_x h \<noteq> []" "\<forall>c \<in> set (fmt_x h). \<not> isspace c"
  using number_digits_valid [of 16 "unat h"] hex_not_special by (auto simp: fmt_x_def)

lemma strtoul_handle: "ucast (strtoul (fmt_x h) 16) = h"
  unfolding strtoul_fmt_x by (rule bit_word_eqI) (simp add: bit_simps)

text \<open>the commands for names agree: after \<^verbatim>\<open>NAME .nm :h\<close> with a name that is not taken, which returns the name,
  \<^verbatim>\<open>QUERY .nm\<close> returns the handle as text; every other name means what it meant before.\<close>

theorem name_then_query:
  assumes ok: "names_ok (handles st)" and room: "name_count (handles st) < name_cap (handles st) \<or> name_cap (handles st) * 2 \<le> MAX_SLOT_SIZE"
    and nm: "\<forall>c \<in> set nm. \<not> isspace c" "named (handles st) nm = None" and h: "h \<noteq> 0" and p: "ctxs st p = Some c"
  shows "\<exists>st1 st2. skynet_command W p ''NAME'' (Some ((CHR ''.'' # nm) @ CHR '' '' # CHR '':'' # fmt_x h)) st = Inr (st1, Some nm)
    \<and> skynet_command W p ''QUERY'' (Some (CHR ''.'' # nm)) st1 = Inr (st2, Some (CHR '':'' # fmt_x h))
    \<and> named (handles st2) = (named (handles st))(nm \<mapsto> h)"
proof -
  from namehandle_ok [OF ok room, of h nm] nm(2) obtain hs where
    hs: "skynet_handle_namehandle h nm (handles st) = Inr (hs, Some nm)" "names_ok hs" "named hs = (named (handles st))(nm \<mapsto> h)"
    by auto
  have "\<forall>c \<in> set (CHR ''.'' # nm). \<not> isspace c" "\<forall>c \<in> set (CHR '':'' # fmt_x h). \<not> isspace c"
    using nm(1) fmt_x_word(2) [of h] by (auto simp: isspace_def byte_of_def)
  from sscanf_two [OF _ this(1) _ this(2)]
  have scan: "sscanf_2s ((CHR ''.'' # nm) @ CHR '' '' # CHR '':'' # fmt_x h) = (Some (CHR ''.'' # nm), Some (CHR '':'' # fmt_x h))"
    by simp
  have "cmd_name W p (Some ((CHR ''.'' # nm) @ CHR '' '' # CHR '':'' # fmt_x h)) st = Inr (st\<lparr>handles := hs\<rparr>, Some nm)"
    using hs(1) h unfolding cmd_name_def by (simp del: append_Cons add: scan strtoul_handle char0_def)
  moreover have "skynet_handle_findname nm hs = Inr h" using findname_ok [OF hs(2), of nm] hs(3) by simp
  then have "cmd_query W p (Some (CHR ''.'' # nm)) (st\<lparr>handles := hs\<rparr>)
      = Inr (st\<lparr>handles := hs, ctxs := (ctxs st)(p \<mapsto> c\<lparr>c_result := CHR '':'' # fmt_x h\<rparr>)\<rparr>, Some (CHR '':'' # fmt_x h))"
    using h p by (simp add: cmd_query_def char0_def set_result_def upd_ctx_def)
  ultimately show ?thesis using hs(3) by (simp del: append_Cons add: skynet_command_def find_NAME find_QUERY)
qed

theorem name_then_query_witness:
  "\<exists>st1 st2. skynet_command idle_world 0 ''NAME'' (Some ((CHR ''.'' # ''db'') @ CHR '' '' # CHR '':'' # fmt_x 9))
      (node1\<lparr>ctxs := [0 \<mapsto> ctx_new 0 0 False]\<rparr>) = Inr (st1, Some ''db'')
    \<and> skynet_command idle_world 0 ''QUERY'' (Some (CHR ''.'' # ''db'')) st1 = Inr (st2, Some (CHR '':'' # fmt_x 9))"
proof -
  let ?st = "node1\<lparr>ctxs := [0 \<mapsto> ctx_new 0 0 False]\<rparr>"
  have "handles ?st = skynet_handle_init 0" by (simp add: node1_def node0_def skynet_harbor_init_def)
  moreover have "names_ok (skynet_handle_init 0)" "name_count (skynet_handle_init 0) < name_cap (skynet_handle_init 0)"
    "named (skynet_handle_init 0) = (\<lambda>_. None)"
    using init_handles_ok [of "\<lambda>_. None" 0]
    by (simp_all add: handles_ok_def) (simp_all add: skynet_handle_init_def name_cap_def named_def)
  moreover have "\<forall>c \<in> set ''db''. \<not> isspace c" by (simp add: isspace_def byte_of_def)
  ultimately show ?thesis using name_then_query [of ?st "''db''" 9 0 "ctx_new 0 0 False" idle_world] by fastforce
qed

text \<open>\<^verbatim>\<open>NAME\<close> with a single word as its parameter reads the buffer for the second word, which \<^verbatim>\<open>sscanf\<close> has
  not written.\<close>

theorem name_one_word_uninit:
  assumes "w \<noteq> []" "\<forall>c \<in> set w. \<not> isspace c"
  shows "skynet_command W p ''NAME'' (Some w) st = Inl Uninit_Read"
  using scan_word_last(1) [OF assms]
  by (simp add: skynet_command_def find_NAME cmd_name_def sscanf_2s_def scan_word_def [of "[]"])

theorem name_one_word_uninit_witness: "skynet_command idle_world 0 ''NAME'' (Some ''.db'') node1 = Inl Uninit_Read"
  by (rule name_one_word_uninit) (simp_all add: isspace_def byte_of_def)

section \<open>Dispatch by weight\<close>

text \<open>A callback that keeps its messages and leaves the node alone, and a service with it.\<close>

definition keeping_cb :: "world \<Rightarrow> ptr \<Rightarrow> bool" where
  "keeping_cb W cb \<longleftrightarrow> (\<forall>p ud type session source data sz st. w_cb W cb p ud type session source data sz st = Inr (st, 1))"

definition plain_service :: "world \<Rightarrow> skynet_context \<Rightarrow> bool" where
  "plain_service W c \<longleftrightarrow> c_init c \<and> c_logfile c = None \<and> \<not> c_profile c \<and> (\<exists>cb. c_cb c = Some cb \<and> keeping_cb W cb)"

text \<open>A queue that has not been reported as overloaded and is below its threshold.\<close>

definition calm :: "message_queue \<Rightarrow> bool" where
  "calm mq \<longleftrightarrow> mq_overload mq = 0 \<and> length (mq_contents mq) \<le> mq_overload_threshold mq"

definition dispatched :: "qptr \<Rightarrow> message_queue \<Rightarrow> ptr \<Rightarrow> skynet_context \<Rightarrow> nat \<Rightarrow> node \<Rightarrow> node" where
  "dispatched q mq p c k st = (set_mq q mq st)\<lparr>handle_key := c_handle c,
     ctxs := (ctxs st)(p \<mapsto> c\<lparr>c_message_count := c_message_count c + of_nat k\<rparr>)\<rparr>"

lemma mq_pop_calm:
  assumes "mq_wf mq" "mq_contents mq = m # ms" "calm mq"
  obtains mq' where "mq_pop_q mq = Inr (mq', Some m)" "mq_wf mq'" "mq_contents mq' = ms" "calm mq'"
    "mq_release mq' = mq_release mq" "mq_next mq' = mq_next mq" "mq_handle mq' = mq_handle mq" "mq_in_global mq' = mq_in_global mq"
proof -
  from mq_pop_q_ok [OF assms(1)] assms(2) obtain mq' where
    mq': "mq_pop_q mq = Inr (mq', Some m)" "mq_wf mq'" "mq_contents mq' = ms" "mq_release mq' = mq_release mq"
      "mq_next mq' = mq_next mq" "mq_handle mq' = mq_handle mq" "mq_in_global mq' = mq_in_global mq" by auto
  define len where "len = (let head = (if Suc (mq_head mq) \<ge> mq_cap mq then 0 else Suc (mq_head mq));
    l = int (mq_tail mq) - int head in nat (if l < 0 then l + int (mq_cap mq) else l))"
  have "len = mq_length mq'"
    using mq'(1) unfolding mq_pop_q_def len_def Let_def mq_length_def nthE_def
    by (auto split: if_splits option.splits)
  then have "len = length ms" using mq'(3) length_mq_contents [of mq'] by simp
  then have "overload_loop len (mq_overload mq) (mq_overload_threshold mq) = Some (0, mq_overload_threshold mq)"
    using assms(2,3) by (subst overload_loop.simps) (simp add: calm_def)
  then have "mq_overload mq' = 0" "mq_overload_threshold mq' = mq_overload_threshold mq"
    using mq'(1) unfolding mq_pop_q_def len_def Let_def nthE_def by (auto split: if_splits)
  with that mq' assms(2,3) show thesis by (simp add: calm_def)
qed

lemma dispatch_message_plain:
  assumes "plain_service W c" "ctxs st p = Some c"
  shows "dispatch_message W p msg st
    = Inr (st\<lparr>handle_key := c_handle c, ctxs := (ctxs st)(p \<mapsto> c\<lparr>c_message_count := c_message_count c + 1\<rparr>)\<rparr>)"
proof -
  have "c\<lparr>c_message_count := n, c_cpu_start := c_cpu_start c\<rparr> = c\<lparr>c_message_count := n\<rparr>" for n by (cases c) simp
  moreover obtain cb where "c_cb c = Some cb" "keeping_cb W cb" using assms(1) by (auto simp: plain_service_def)
  ultimately show ?thesis using assms
    by (simp add: dispatch_message_def plain_service_def keeping_cb_def upd_ctx_def Let_def)
qed

lemma dispatch_one_plain:
  assumes q: "mq_heap st q = Some mq" "mq_wf mq" "mq_contents mq = m # ms" "calm mq"
    and p: "ctxs st p = Some c" "plain_service W c"
  obtains mq' sm' where "dispatch_one W sm q p h first weight st
      = Inr (dispatched q mq' p c 1 st, sm', Some (if first \<and> weight \<ge> 0 then length ms div 2 ^ nat weight else 1))"
    "mq_wf mq'" "mq_contents mq' = ms" "calm mq'" "mq_release mq' = mq_release mq" "mq_next mq' = mq_next mq"
    "mq_handle mq' = mq_handle mq" "mq_in_global mq' = mq_in_global mq"
proof -
  obtain mq' where mq': "mq_pop_q mq = Inr (mq', Some m)" "mq_wf mq'" "mq_contents mq' = ms" "calm mq'"
    "mq_release mq' = mq_release mq" "mq_next mq' = mq_next mq" "mq_handle mq' = mq_handle mq" "mq_in_global mq' = mq_in_global mq"
    using mq_pop_calm [OF q(2-4)] .
  have pop: "skynet_mq_pop st q = Inr (set_mq q mq' st, Some m)" using q(1) mq'(1) by (simp add: skynet_mq_pop_def)
  have len: "skynet_mq_length (set_mq q mq' st) q = Inr (length ms)"
    using mq'(3) length_mq_contents [of mq'] by (simp add: skynet_mq_length_def)
  have ov: "skynet_mq_overload (set_mq q mq' st) q = Inr (set_mq q mq' st, 0)"
    using mq'(4) by (simp add: skynet_mq_overload_def calm_def)
  have c: "ctxs (set_mq q mq' st) = ctxs st" by (simp add: set_mq_def)
  obtain cb where "c_cb c = Some cb" using p(2) by (auto simp: plain_service_def)
  then have "\<exists>sm'. dispatch_one W sm q p h first weight st
      = Inr (dispatched q mq' p c 1 st, sm', Some (if first \<and> weight \<ge> 0 then length ms div 2 ^ nat weight else 1))"
    using dispatch_message_plain [OF p(2), of "set_mq q mq' st" p m] p(1) c
    by (simp add: dispatch_one_def pop len ov dispatched_def Let_def)
  with that mq' show thesis by blast
qed

lemma dispatched_dispatched:
  "dispatched q mq2 p (c\<lparr>c_message_count := c_message_count c + of_nat j\<rparr>) k (dispatched q mq1 p c j st)
     = dispatched q mq2 p c (j + k) st"
  by (simp add: dispatched_def set_mq_def add.assoc)

lemma dispatch_rest_plain:
  assumes "mq_heap st q = Some mq" "mq_wf mq" "calm mq" "k \<le> length (mq_contents mq)"
    and "ctxs st p = Some c" "plain_service W c"
  shows "\<exists>mq' sm'. dispatch_rest W k sm q p h weight st = Inr (if k = 0 then st else dispatched q mq' p c k st, sm', True)
    \<and> (k = 0 \<longrightarrow> mq' = mq) \<and> mq_wf mq' \<and> mq_contents mq' = drop k (mq_contents mq) \<and> mq_release mq' = mq_release mq
    \<and> mq_next mq' = mq_next mq \<and> mq_handle mq' = mq_handle mq \<and> mq_in_global mq' = mq_in_global mq"
  using assms
proof (induction k arbitrary: st mq c sm)
  case 0
  then show ?case by (intro exI [of _ mq]) simp
next
  case (Suc k)
  then obtain m ms where ms: "mq_contents mq = m # ms" by (cases "mq_contents mq") auto
  obtain mq1 sm1 where one: "dispatch_one W sm q p h False weight st = Inr (dispatched q mq1 p c 1 st, sm1, Some 1)"
    "mq_wf mq1" "mq_contents mq1 = ms" "calm mq1" "mq_release mq1 = mq_release mq" "mq_next mq1 = mq_next mq"
    "mq_handle mq1 = mq_handle mq" "mq_in_global mq1 = mq_in_global mq"
    using dispatch_one_plain [OF Suc.prems(1,2) ms Suc.prems(3,5,6), where first = False and weight = weight and sm = sm and h = h] by auto
  let ?c = "c\<lparr>c_message_count := c_message_count c + of_nat 1\<rparr>" and ?st = "dispatched q mq1 p c 1 st"
  have "mq_heap ?st q = Some mq1" "ctxs ?st p = Some ?c" "plain_service W ?c"
    using Suc.prems(6) by (simp_all add: dispatched_def plain_service_def)
  from Suc.IH [OF this(1) one(2,4) _ this(2,3), of sm1] Suc.prems(4) one(3) ms obtain mq' sm' where
    rest: "dispatch_rest W k sm1 q p h weight ?st = Inr (if k = 0 then ?st else dispatched q mq' p ?c k ?st, sm', True)"
      "k = 0 \<longrightarrow> mq' = mq1" "mq_wf mq'" "mq_contents mq' = drop k ms" "mq_release mq' = mq_release mq1"
      "mq_next mq' = mq_next mq1" "mq_handle mq' = mq_handle mq1" "mq_in_global mq' = mq_in_global mq1" by auto
  have "(if k = 0 then ?st else dispatched q mq' p ?c k ?st) = dispatched q mq' p c (Suc k) st"
    using rest(2) dispatched_dispatched [of q mq' p c 1 k mq1 st] by auto
  with rest one(1,5-8) ms show ?case by (intro exI [of _ mq']) simp
qed

text \<open>How many of \<open>n\<close> waiting messages one turn of a worker handles.\<close>

definition turn :: "int \<Rightarrow> nat \<Rightarrow> nat" where
  "turn weight n = (if weight < 0 then 1 else max 1 ((n - 1) div 2 ^ nat weight))"

lemma turn_le: "0 < n \<Longrightarrow> turn weight n \<le> n" "0 < turn weight n"
proof -
  have "(n - 1) div 2 ^ nat weight \<le> n" using div_le_dividend [of "n - 1" "2 ^ nat weight"] by linarith
  then show "0 < n \<Longrightarrow> turn weight n \<le> n" "0 < turn weight n" by (auto simp: turn_def)
qed

lemma dispatch_loop_plain:
  assumes q: "mq_heap st q = Some mq" "mq_wf mq" "calm mq" "mq_contents mq \<noteq> []"
    and p: "ctxs st p = Some c" "plain_service W c"
  shows "\<exists>mq' sm'. dispatch_loop W sm q p h weight st
      = Inr (dispatched q mq' p c (turn weight (length (mq_contents mq))) st, sm', True)
    \<and> mq_wf mq' \<and> mq_contents mq' = drop (turn weight (length (mq_contents mq))) (mq_contents mq)
    \<and> mq_release mq' = mq_release mq \<and> mq_next mq' = mq_next mq \<and> mq_handle mq' = mq_handle mq
    \<and> mq_in_global mq' = mq_in_global mq"
proof -
  obtain m ms where ms: "mq_contents mq = m # ms" using q(4) by (cases "mq_contents mq") auto
  define n where "n = (if weight \<ge> 0 then length ms div 2 ^ nat weight else 1)"
  obtain mq1 sm1 where one: "dispatch_one W sm q p h True weight st = Inr (dispatched q mq1 p c 1 st, sm1, Some n)"
    "mq_wf mq1" "mq_contents mq1 = ms" "calm mq1" "mq_release mq1 = mq_release mq" "mq_next mq1 = mq_next mq"
    "mq_handle mq1 = mq_handle mq" "mq_in_global mq1 = mq_in_global mq"
    using dispatch_one_plain [OF q(1,2) ms q(3) p, where first = True and weight = weight and sm = sm and h = h]
    by (auto simp: n_def)
  let ?c = "c\<lparr>c_message_count := c_message_count c + of_nat 1\<rparr>" and ?st = "dispatched q mq1 p c 1 st"
  have t: "turn weight (length (mq_contents mq)) = Suc (n - 1)" using ms by (auto simp: turn_def n_def)
  then have "n - 1 \<le> length (mq_contents mq1)" using turn_le(1) [of "length (mq_contents mq)" weight] ms one(3) by simp
  moreover have "mq_heap ?st q = Some mq1" "ctxs ?st p = Some ?c" "plain_service W ?c"
    using p(2) by (simp_all add: dispatched_def plain_service_def)
  ultimately obtain mq' sm' where
    rest: "dispatch_rest W (n - 1) sm1 q p h weight ?st = Inr (if n - 1 = 0 then ?st else dispatched q mq' p ?c (n - 1) ?st, sm', True)"
      "n - 1 = 0 \<longrightarrow> mq' = mq1" "mq_wf mq'" "mq_contents mq' = drop (n - 1) ms" "mq_release mq' = mq_release mq1"
      "mq_next mq' = mq_next mq1" "mq_handle mq' = mq_handle mq1" "mq_in_global mq' = mq_in_global mq1"
    using dispatch_rest_plain [of ?st q mq1 "n - 1" p ?c W sm1 h weight] one(2,4,3) by auto
  have "(if n - 1 = 0 then ?st else dispatched q mq' p ?c (n - 1) ?st) = dispatched q mq' p c (Suc (n - 1)) st"
    using rest(2) dispatched_dispatched [of q mq' p c 1 "n - 1" mq1 st] by auto
  with rest one(1,5-8) ms t show ?thesis by (intro exI [of _ mq']) (simp add: dispatch_loop_def)
qed

lemma sched_dispatched:
  assumes inv: "sched_inv st H gl" and q: "mq_heap st q = Some mq" "q \<in> H" "mq_contents mq \<noteq> []"
    and mq': "mq_wf mq'" "mq_release mq' = mq_release mq" "mq_next mq' = mq_next mq" "mq_in_global mq' = mq_in_global mq"
  shows "sched_inv (dispatched q mq' p c k st) H gl"
proof -
  have "sched_q (mq_brk st) gl H q mq'" using sched_invD(4) [OF inv q(1)] q(2,3) mq' by (auto simp: sched_q_def)
  then have "sched_inv (set_mq q mq' st) H gl"
    by (rule sched_set_mq [OF inv q(1) mq'(3)]) (use sched_invD(6) [OF inv q(2)] q(2) in auto)
  moreover have "sched_inv (dispatched q mq' p c k st) H gl = sched_inv (set_mq q mq' st) H gl"
    by (rule sched_inv_cong) (simp_all add: dispatched_def)
  ultimately show ?thesis by simp
qed

lemma globalmq_pop_frame:
  assumes "skynet_globalmq_pop st = Inr (st', r)"
  shows "q_view st' = q_view st" "mq_state.more st' = mq_state.more st"
  using assms by (auto simp: skynet_globalmq_pop_def q_view_def Let_def split: option.splits if_splits)

text \<open>The end of a turn: the worker takes the next queue, if there is one, and puts its own behind the others.\<close>

lemma next_queue:
  assumes inv: "sched_inv st H gl" and q: "q \<in> H"
  shows "\<exists>st1 nq st'. skynet_globalmq_pop st = Inr (st1, nq)
    \<and> (if nq \<noteq> None then skynet_globalmq_push st1 q else Inr st1) = Inr st'
    \<and> (if nq \<noteq> None then nq else Some q) = Some (hd (gl @ [q]))
    \<and> sched_inv st' (insert (hd (gl @ [q])) (H - {q})) (tl (gl @ [q])) \<and> q_view st' = q_view st
    \<and> mq_state.more st' = mq_state.more st"
proof (cases gl)
  case Nil
  then have "skynet_globalmq_pop st = Inr (st, None)" using globalmq_pop_empty sched_invD(1) [OF inv] by blast
  then show ?thesis using inv q Nil by (simp add: insert_absorb)
next
  case (Cons g gs)
  from sched_take [of st H g gs] inv Cons obtain st1 where
    st1: "skynet_globalmq_pop st = Inr (st1, Some g)" "sched_inv st1 (insert g H) gs" by auto
  have "g \<noteq> q" using sched_invD(6) [OF inv q] Cons by auto
  have "q \<in> insert g H" using q by simp
  from sched_held [OF st1(2) this] obtain mq where mq: "mq_heap st1 q = Some mq" "mq_in_global mq \<or> mq_release mq" "q \<notin> set gs"
    by blast
  from sched_push [OF st1(2) mq(3,1,2)] obtain st' where
    st': "skynet_globalmq_push st1 q = Inr st'" "sched_inv st' (insert g H - {q}) (gs @ [q])" by blast
  then show ?thesis
    using st1 Cons \<open>g \<noteq> q\<close> globalmq_pop_frame [OF st1(1)] globalmq_push_frame [OF st'(1)] by (simp add: insert_Diff_if)
qed


text \<open>A node with one service, with handle 1 and three messages in a queue that a worker holds.\<close>

definition keeping_world :: world where
  "keeping_world = idle_world\<lparr>w_cb := (\<lambda>_ _ _ _ _ _ _ _ st. Inr (st, 1))\<rparr>"

definition busy_queue :: message_queue where
  "busy_queue = (mq_new 1)\<lparr>mq_tail := 3\<rparr>"

definition busy_context :: skynet_context where
  "busy_context = (ctx_new 0 0 False)\<lparr>c_handle := 1, c_cb := Some 0, c_init := True\<rparr>"

definition busy_node :: node where
  "busy_node = node1\<lparr>ctxs := [0 \<mapsto> busy_context], ctx_brk := 1, mq_heap := [0 \<mapsto> busy_queue], mq_brk := 1,
     handles := (skynet_handle_init 0)\<lparr>slot := [None, Some 0, None, None]\<rparr>\<rparr>"

lemma busy_node_ok:
  "node_ok busy_node" "sched_inv busy_node {0} []" "node_live busy_node 1 = Some 0" "waiting busy_node 0 = replicate 3 blank_message"
  "mq_heap busy_node 0 = Some busy_queue" "ctxs busy_node 0 = Some busy_context"
proof -
  have c: "mq_contents busy_queue = replicate 3 blank_message"
  proof (rule nth_equalityI)
    have len: "mq_length busy_queue = 3" by (simp add: mq_length_def busy_queue_def mq_new_def)
    then show "length (mq_contents busy_queue) = length (replicate 3 blank_message)" by simp
    fix i assume "i < length (mq_contents busy_queue)"
    then show "mq_contents busy_queue ! i = replicate 3 blank_message ! i"
      using len by (simp add: mq_contents_def ring_def) (simp add: busy_queue_def mq_new_def DEFAULT_QUEUE_SIZE_def)
  qed
  have wf: "mq_wf busy_queue" "mq_in_global busy_queue" "mq_next busy_queue = None" "mq_handle busy_queue = 1" "\<not> mq_release busy_queue"
    by (simp_all add: busy_queue_def mq_wf_def mq_new_def DEFAULT_QUEUE_SIZE_def MQ_OVERLOAD_def)
  show heap: "mq_heap busy_node 0 = Some busy_queue" "ctxs busy_node 0 = Some busy_context" by (simp_all add: busy_node_def)
  show sched: "sched_inv busy_node {0} []"
    using wf by (simp add: sched_inv_def gq_repr_def busy_node_def node1_def node0_def skynet_harbor_init_def sched_q_def)
  have view: "q_view busy_node 0 = Some (1, False, replicate 3 blank_message)" using wf c by (simp add: q_view_def heap)
  then show "waiting busy_node 0 = replicate 3 blank_message" by (simp add: waiting_def)
  have ch: "ctx_handles busy_node 0 = Some 1" by (simp add: ctx_handles_def heap busy_context_def)
  have hs: "handles busy_node = (skynet_handle_init 0)\<lparr>slot := [None, Some 0, None, None]\<rparr>" by (simp add: busy_node_def)
  have h1: "hash_of 1 4 = 1" by (simp add: hash_of_def)
  have "slots_ok (ctx_handles busy_node) 0 [None, Some 0, None, None]"
    using ch h1 unfolding slots_ok_def
    by (auto simp: less_Suc_eq numeral_eq_Suc HANDLE_MASK_def intro: exI [of _ "Suc (Suc 0)"])
  then have hok: "handles_ok (ctx_handles busy_node) (handles busy_node)"
    using init_handles_ok [of "\<lambda>_. None" 0] unfolding hs
    by (simp add: handles_ok_def names_ok_def name_cap_def) (simp add: skynet_handle_init_def)
  show "node_live busy_node 1 = Some 0"
    using ch h1 by (simp add: node_live_def live_def hs slot_size_def numeral_eq_Suc)
  have cs: "ctxs busy_node = [0 \<mapsto> busy_context]" "ctx_brk busy_node = 1" "mem busy_node = [0 \<mapsto> Bytes [7, 8]]" "mem_brk busy_node = 1"
    by (simp_all add: busy_node_def node1_def node0_def skynet_harbor_init_def)
  have c: "c_queue busy_context = 0" "c_handle busy_context = 1" "c_ref busy_context = 2" by (simp_all add: busy_context_def ctx_new_def)
  show "node_ok busy_node"
    by (rule node_okI [OF hok sched]) (use view c in \<open>auto simp: cs own_queues_def split: if_splits\<close>)
qed


end
