(* ===== verification/Netpack.thy ===== *)
theory Netpack
  imports Skynet_Prelude
begin

text \<open>
  The packet splitter of the gate services, \<^verbatim>\<open>lualib-src/lua-netpack.c\<close>. A stream of bytes arrives
  from each socket in pieces of any size; every packet in it is a two-byte length (high byte first)
  and that many bytes. The splitter keeps what is left of an unfinished packet per socket in a hash
  table, and puts packets into a growing circular buffer when one piece finishes several of them.

  The Lua stack slot that holds the queue is an \<open>npqueue option\<close>, as \<^verbatim>\<open>lua_touserdata\<close> reads it
  (\<open>None\<close> is nil). Byte buffers are values; \<^verbatim>\<open>memcpy\<close> checks both sides for their length, so that
  an access outside a buffer is a fault. Freeing a buffer has no effect in the model. Socket ids are
  32-bit words. The last section is the loop of \<^verbatim>\<open>lualib/snax/gateserver.lua\<close> that takes every
  packet.
\<close>

section \<open>Data\<close>

definition QUEUESIZE :: nat where "QUEUESIZE = 1024"
definition HASHSIZE :: nat where "HASHSIZE = 4096"

record netpack =
  np_id :: i32
  np_size :: nat
  np_buffer :: "u8 list"

text \<open>\<^verbatim>\<open>read\<close> is \<open>-1\<close> when only the first byte of the length has been seen, in \<^verbatim>\<open>header\<close>.\<close>

record uncomplete =
  uc_id :: i32
  uc_size :: nat
  uc_buffer :: "u8 list"
  uc_read :: int
  uc_header :: u8

text \<open>A hash bucket is the list of its \<^verbatim>\<open>next\<close> chain.\<close>

record npqueue =
  npq_cap :: nat
  npq_head :: nat
  npq_tail :: nat
  npq_hash :: "uncomplete list list"
  npq_queue :: "netpack list"

text \<open>What a fresh cell or byte holds; C leaves it unspecified.\<close>

definition blank_pack :: netpack where
  "blank_pack = \<lparr>np_id = 0, np_size = 0, np_buffer = []\<rparr>"

definition malloc_bytes :: "nat \<Rightarrow> u8 list" where
  "malloc_bytes n = replicate n 0"

text \<open>\<^verbatim>\<open>memcpy(dst + off, src, n)\<close> on a buffer \<open>dst\<close>.\<close>

definition memcpy_at :: "u8 list \<Rightarrow> nat \<Rightarrow> u8 list \<Rightarrow> nat \<Rightarrow> u8 list res" where
  "memcpy_at dst off src n =
     (if n \<le> length src \<and> off + n \<le> length dst
      then Inr (take off dst @ take n src @ drop (off + n) dst) else Inl Out_Of_Bounds)"

section \<open>The queue\<close>

definition lclear :: "npqueue option \<Rightarrow> npqueue option" where
  "lclear slot = (case slot of None \<Rightarrow> None
     | Some q \<Rightarrow> Some (q\<lparr>npq_hash := replicate HASHSIZE [], npq_head := 0, npq_tail := 0\<rparr>))"

text \<open>The sum is a signed one that the code converts to \<^verbatim>\<open>uint32_t\<close>; it wraps here.\<close>

definition hash_fd :: "i32 \<Rightarrow> nat" where
  "hash_fd fd =
     (let a = signed_drop_bit 24 fd; b = signed_drop_bit 12 fd; c = fd
      in unat (a + b + c) mod HASHSIZE)"

text \<open>Unlinks the first record of the socket from a chain.\<close>

fun unlink_uc :: "i32 \<Rightarrow> uncomplete list \<Rightarrow> (uncomplete \<times> uncomplete list) option" where
  "unlink_uc fd [] = None"
| "unlink_uc fd (uc # rest) =
     (if uc_id uc = fd then Some (uc, rest)
      else map_option (\<lambda>(u, rest'). (u, uc # rest')) (unlink_uc fd rest))"

definition find_uncomplete :: "npqueue option \<Rightarrow> i32 \<Rightarrow> (npqueue option \<times> uncomplete option) res" where
  "find_uncomplete slot fd =
     (case slot of None \<Rightarrow> Inr (None, None)
      | Some q \<Rightarrow>
          let h = hash_fd fd in
          bindE (nthE (npq_hash q) h) (\<lambda>chain.
          case unlink_uc fd chain of
            None \<Rightarrow> Inr (Some q, None)
          | Some (uc, chain') \<Rightarrow> Inr (Some (q\<lparr>npq_hash := (npq_hash q)[h := chain']\<rparr>), Some uc)))"

definition npqueue_new :: npqueue where
  "npqueue_new = \<lparr>npq_cap = QUEUESIZE, npq_head = 0, npq_tail = 0,
     npq_hash = replicate HASHSIZE [], npq_queue = replicate QUEUESIZE blank_pack\<rparr>"

definition get_queue :: "npqueue option \<Rightarrow> npqueue" where
  "get_queue slot = (case slot of None \<Rightarrow> npqueue_new | Some q \<Rightarrow> q)"

text \<open>The new queue that replaces the old one in the slot, and what the old one is left as.\<close>

definition np_expand_queue :: "npqueue \<Rightarrow> npqueue \<times> npqueue" where
  "np_expand_queue q =
     (let nq = \<lparr>npq_cap = npq_cap q + QUEUESIZE, npq_head = 0, npq_tail = npq_cap q,
            npq_hash = npq_hash q,
            npq_queue = map (\<lambda>i. npq_queue q ! ((npq_head q + i) mod npq_cap q)) [0..<npq_cap q]
              @ replicate QUEUESIZE blank_pack\<rparr>
      in (nq, q\<lparr>npq_hash := replicate HASHSIZE [], npq_head := 0, npq_tail := 0\<rparr>))"

definition push_data :: "npqueue option \<Rightarrow> i32 \<Rightarrow> u8 list \<Rightarrow> nat \<Rightarrow> bool \<Rightarrow> (npqueue option) res" where
  "push_data slot fd buffer sz clone =
     bindE (if clone then memcpy_at (malloc_bytes sz) 0 buffer sz else Inr buffer) (\<lambda>buffer.
     let q = get_queue slot in
     bindE (updE (npq_queue q) (npq_tail q) \<lparr>np_id = fd, np_size = sz, np_buffer = buffer\<rparr>) (\<lambda>queue.
     let tail = Suc (npq_tail q);
         tail = (if tail \<ge> npq_cap q then tail - npq_cap q else tail);
         q = q\<lparr>npq_queue := queue, npq_tail := tail\<rparr>
     in Inr (Some (if npq_head q = npq_tail q then fst (np_expand_queue q) else q))))"

text \<open>The new record is passed as the caller fills it in; its id is set here.\<close>

definition save_uncomplete :: "npqueue option \<Rightarrow> i32 \<Rightarrow> (uncomplete \<Rightarrow> uncomplete) \<Rightarrow> (npqueue option) res" where
  "save_uncomplete slot fd fill =
     (let q = get_queue slot; h = hash_fd fd;
          uc = fill \<lparr>uc_id = fd, uc_size = 0, uc_buffer = [], uc_read = 0, uc_header = 0\<rparr>
      in bindE (nthE (npq_hash q) h) (\<lambda>chain.
         Inr (Some (q\<lparr>npq_hash := (npq_hash q)[h := uc # chain]\<rparr>))))"

definition read_size :: "u8 list \<Rightarrow> nat res" where
  "read_size buffer =
     bindE (nthE buffer 0) (\<lambda>b0. bindE (nthE buffer 1) (\<lambda>b1.
     Inr (push_bit 8 (unat b0) OR unat b1)))"

section \<open>Splitting a piece of a stream\<close>

lemma bindE_cong [fundef_cong]:
  "m = m' \<Longrightarrow> (\<And>x. m' = Inr x \<Longrightarrow> f x = f' x) \<Longrightarrow> bindE m f = bindE m' f'"
  by (cases m) auto

function push_more :: "npqueue option \<Rightarrow> i32 \<Rightarrow> u8 list \<Rightarrow> (npqueue option) res" where
  "push_more slot fd buffer =
     (if length buffer = 1
      then save_uncomplete slot fd (\<lambda>uc. uc\<lparr>uc_read := -1, uc_header := hd buffer\<rparr>)
      else bindE (read_size buffer) (\<lambda>pack_size.
        let buffer = drop 2 buffer in
        if length buffer < pack_size
        then bindE (memcpy_at (malloc_bytes pack_size) 0 buffer (length buffer)) (\<lambda>b.
          save_uncomplete slot fd (\<lambda>uc. uc\<lparr>uc_read := int (length buffer), uc_size := pack_size,
            uc_buffer := b\<rparr>))
        else bindE (push_data slot fd buffer pack_size True) (\<lambda>slot.
          let buffer = drop pack_size buffer in
          if length buffer > 0 then push_more slot fd buffer else Inr slot)))"
  by pat_completeness auto
termination
  by (relation "measure (\<lambda>(slot, fd, buffer). length buffer)") (auto simp: read_size_def)

declare push_more.simps [simp del]

definition close_uncomplete :: "npqueue option \<Rightarrow> i32 \<Rightarrow> (npqueue option) res" where
  "close_uncomplete slot fd = bindE (find_uncomplete slot fd) (\<lambda>(slot, uc). Inr slot)"

text \<open>What \<^verbatim>\<open>filter\<close> returns to Lua after the queue.\<close>

datatype np_ret = Ret_none | Ret_data i32 "u8 list" nat | Ret_more | Ret_error i32 "u8 list"
  | Ret_open int "u8 list" | Ret_close i32 | Ret_warning i32 int

definition link_uc :: "npqueue option \<Rightarrow> i32 \<Rightarrow> uncomplete \<Rightarrow> (npqueue option) res" where
  "link_uc slot fd uc =
     bindE (derefE slot) (\<lambda>q.
     let h = hash_fd fd in
     bindE (nthE (npq_hash q) h) (\<lambda>chain.
     Inr (Some (q\<lparr>npq_hash := (npq_hash q)[h := uc # chain]\<rparr>))))"

text \<open>The first branch: the socket has an unfinished packet.\<close>

definition fill_uncomplete :: "npqueue option \<Rightarrow> i32 \<Rightarrow> uncomplete \<Rightarrow> u8 list
    \<Rightarrow> (npqueue option \<times> np_ret) res" where
  "fill_uncomplete slot fd uc buffer =
     bindE (if uc_read uc < 0
       then bindE (assertE (uc_read uc = -1)) (\<lambda>_.
            bindE (nthE buffer 0) (\<lambda>b.
            let pack_size = unat b OR push_bit 8 (unat (uc_header uc)) in
            Inr (uc\<lparr>uc_size := pack_size, uc_buffer := malloc_bytes pack_size, uc_read := 0\<rparr>,
              drop 1 buffer)))
       else Inr (uc, buffer)) (\<lambda>(uc, buffer).
     let need = int (uc_size uc) - uc_read uc in
     if int (length buffer) < need
     then bindE (memcpy_at (uc_buffer uc) (nat (uc_read uc)) buffer (length buffer)) (\<lambda>b.
          bindE (link_uc slot fd (uc\<lparr>uc_buffer := b, uc_read := uc_read uc + int (length buffer)\<rparr>)) (\<lambda>slot.
          Inr (slot, Ret_none)))
     else bindE (memcpy_at (uc_buffer uc) (nat (uc_read uc)) buffer (nat need)) (\<lambda>b.
          let buffer = drop (nat need) buffer in
          if length buffer = 0 then Inr (slot, Ret_data fd b (uc_size uc))
          else bindE (push_data slot fd b (uc_size uc) False) (\<lambda>slot.
               bindE (push_more slot fd buffer) (\<lambda>slot.
               Inr (slot, Ret_more)))))"

text \<open>The second branch: the piece starts a packet.\<close>

definition start_packet :: "npqueue option \<Rightarrow> i32 \<Rightarrow> u8 list \<Rightarrow> (npqueue option \<times> np_ret) res" where
  "start_packet slot fd buffer =
     (if length buffer = 1
      then bindE (save_uncomplete slot fd (\<lambda>uc. uc\<lparr>uc_read := -1, uc_header := hd buffer\<rparr>)) (\<lambda>slot.
           Inr (slot, Ret_none))
      else bindE (read_size buffer) (\<lambda>pack_size.
        let buffer = drop 2 buffer in
        if length buffer < pack_size
        then bindE (memcpy_at (malloc_bytes pack_size) 0 buffer (length buffer)) (\<lambda>b.
             bindE (save_uncomplete slot fd (\<lambda>uc. uc\<lparr>uc_read := int (length buffer),
               uc_size := pack_size, uc_buffer := b\<rparr>)) (\<lambda>slot.
             Inr (slot, Ret_none)))
        else if length buffer = pack_size
        then bindE (memcpy_at (malloc_bytes pack_size) 0 buffer (length buffer)) (\<lambda>b.
             Inr (slot, Ret_data fd b (length buffer)))
        else bindE (push_data slot fd buffer pack_size True) (\<lambda>slot.
             bindE (push_more slot fd (drop pack_size buffer)) (\<lambda>slot.
             Inr (slot, Ret_more)))))"

definition filter_data :: "npqueue option \<Rightarrow> i32 \<Rightarrow> u8 list \<Rightarrow> (npqueue option \<times> np_ret) res" where
  "filter_data slot fd buffer =
     bindE (find_uncomplete slot fd) (\<lambda>(slot, uc).
     case uc of
       Some u \<Rightarrow> fill_uncomplete slot fd u buffer
     | None \<Rightarrow> start_packet slot fd buffer)"

section \<open>The interface to Lua\<close>

text \<open>
  A message of \<^verbatim>\<open>skynet_socket.h\<close>. Without a buffer of its own the text follows the structure
  (\<open>sm_pad\<close>); the size handed to \<^verbatim>\<open>filter\<close> is that of the structure and the text.
\<close>

record skynet_socket_message =
  sm_type :: nat
  sm_id :: i32
  sm_ud :: int
  sm_buffer :: "u8 list option"
  sm_pad :: "u8 list"

definition SIZEOF_SOCKET_MESSAGE :: int where "SIZEOF_SOCKET_MESSAGE = 24"
definition SKYNET_SOCKET_TYPE_DATA :: nat where "SKYNET_SOCKET_TYPE_DATA = 1"
definition SKYNET_SOCKET_TYPE_CONNECT :: nat where "SKYNET_SOCKET_TYPE_CONNECT = 2"
definition SKYNET_SOCKET_TYPE_CLOSE :: nat where "SKYNET_SOCKET_TYPE_CLOSE = 3"
definition SKYNET_SOCKET_TYPE_ACCEPT :: nat where "SKYNET_SOCKET_TYPE_ACCEPT = 4"
definition SKYNET_SOCKET_TYPE_ERROR :: nat where "SKYNET_SOCKET_TYPE_ERROR = 5"
definition SKYNET_SOCKET_TYPE_WARNING :: nat where "SKYNET_SOCKET_TYPE_WARNING = 7"

lemmas socket_type_defs = SKYNET_SOCKET_TYPE_DATA_def SKYNET_SOCKET_TYPE_CONNECT_def
  SKYNET_SOCKET_TYPE_CLOSE_def SKYNET_SOCKET_TYPE_ACCEPT_def SKYNET_SOCKET_TYPE_ERROR_def
  SKYNET_SOCKET_TYPE_WARNING_def

text \<open>The first \<open>sz\<close> bytes of a buffer; a size beyond it, or a negative one, reads outside.\<close>

definition bytes_of :: "u8 list \<Rightarrow> int \<Rightarrow> u8 list res" where
  "bytes_of buffer sz =
     (if 0 \<le> sz \<and> sz \<le> int (length buffer) then Inr (take (nat sz) buffer) else Inl Out_Of_Bounds)"

definition lfilter :: "npqueue option \<Rightarrow> skynet_socket_message \<Rightarrow> int \<Rightarrow> (npqueue option \<times> np_ret) res" where
  "lfilter slot message sz =
     (let (buffer, sz) = (case sm_buffer message of
            None \<Rightarrow> (sm_pad message, sz - SIZEOF_SOCKET_MESSAGE)
          | Some b \<Rightarrow> (b, -1))
      in if sm_type message = SKYNET_SOCKET_TYPE_DATA then
           bindE (assertE (sz = -1)) (\<lambda>_.
           bindE (bytes_of buffer (sm_ud message)) (\<lambda>b.
           filter_data slot (sm_id message) b))
         else if sm_type message = SKYNET_SOCKET_TYPE_CONNECT then Inr (slot, Ret_none)
         else if sm_type message = SKYNET_SOCKET_TYPE_CLOSE then
           bindE (close_uncomplete slot (sm_id message)) (\<lambda>slot.
           Inr (slot, Ret_close (sm_id message)))
         else if sm_type message = SKYNET_SOCKET_TYPE_ACCEPT then
           bindE (bytes_of buffer sz) (\<lambda>b. Inr (slot, Ret_open (sm_ud message) b))
         else if sm_type message = SKYNET_SOCKET_TYPE_ERROR then
           bindE (close_uncomplete slot (sm_id message)) (\<lambda>slot.
           bindE (bytes_of buffer sz) (\<lambda>b. Inr (slot, Ret_error (sm_id message) b)))
         else if sm_type message = SKYNET_SOCKET_TYPE_WARNING then
           Inr (slot, Ret_warning (sm_id message) (sm_ud message))
         else Inr (slot, Ret_none))"

definition lpop :: "npqueue option \<Rightarrow> (npqueue option \<times> netpack option) res" where
  "lpop slot =
     (case slot of None \<Rightarrow> Inr (None, None)
      | Some q \<Rightarrow>
          if npq_head q = npq_tail q then Inr (slot, None)
          else bindE (nthE (npq_queue q) (npq_head q)) (\<lambda>np.
               let head = Suc (npq_head q);
                   head = (if head \<ge> npq_cap q then 0 else head)
               in Inr (Some (q\<lparr>npq_head := head\<rparr>), Some np)))"

definition write_size :: "int \<Rightarrow> u8 list" where
  "write_size len = [word_of_int (drop_bit 8 len AND 0xff), word_of_int (len AND 0xff)]"

text \<open>The packet to send for a text, given as a string or as an address and a size.\<close>

definition lpack :: "u8 list \<Rightarrow> u8 list res" where
  "lpack s =
     (let len = length s in
      if len \<ge> 0x10000 then Inl (Lua_Error ''Invalid size (too long) of data'')
      else bindE (memcpy_at (malloc_bytes (len + 2)) 0 (write_size (int len)) 2) (\<lambda>buffer.
           memcpy_at buffer 2 s len))"

definition ltostring :: "(u8 list) option \<Rightarrow> int \<Rightarrow> u8 list res" where
  "ltostring p sz = (case p of None \<Rightarrow> Inr [] | Some b \<Rightarrow> bytes_of b sz)"

section \<open>The packets of a stream\<close>

text \<open>
  The reference: the packets of a stream that is read from its start, and the bytes left over.
\<close>

function parse_packs :: "u8 list \<Rightarrow> u8 list list \<times> u8 list" where
  "parse_packs [] = ([], [])"
| "parse_packs [b] = ([], [b])"
| "parse_packs (b0 # b1 # rest) =
     (let n = 256 * unat b0 + unat b1 in
      if n \<le> length rest
      then (let (ps, r) = parse_packs (drop n rest) in (take n rest # ps, r))
      else ([], b0 # b1 # rest))"
  by pat_completeness auto
termination
  by (relation "measure length") auto

lemma u8_less: "unat (b :: u8) < 256"
  using unsigned_less [of b, where 'a = nat] by simp

lemma or_push_bit_8: "unat (c :: u8) OR push_bit 8 (unat (b :: u8)) = 256 * unat b + unat c"
proof -
  have "take_bit 8 (unat c) = unat c"
    using u8_less [of c] by (simp add: take_bit_nat_eq_self_iff)
  then have "unat c OR push_bit 8 (unat b) = unat c + push_bit 8 (unat b)"
    by (intro disjunctive_add_eq_or [symmetric] bit_eqI)
      (metis bit_0_eq bit_and_iff bit_push_bit_iff bit_take_bit_iff bot_apply bot_bool_def not_less)
  then show ?thesis by (simp add: push_bit_eq_mult)
qed

lemma read_size_Cons [simp]: "read_size (b0 # b1 # rest) = Inr (256 * unat b0 + unat b1)"
  by (simp add: read_size_def or_push_bit_8 or.commute [of "push_bit _ _"])

lemma write_size_eq: "write_size (int n) = [word_of_nat (n div 256 mod 256), word_of_nat (n mod 256)]"
proof -
  have "(x :: int) AND 255 = x mod 256" for x
    using take_bit_eq_mask [of 8 x] by (simp add: mask_eq_exp_minus_1 take_bit_eq_mod)
  then show ?thesis
    by (simp add: write_size_def drop_bit_eq_div zdiv_int zmod_int del: of_int_of_nat_eq)
       (metis of_int_of_nat_eq of_nat_mod of_nat_numeral zdiv_int zmod_int)
qed

lemma size_of_write_size:
  assumes "n < 65536"
  shows "256 * unat (word_of_nat (n div 256 mod 256) :: u8) + unat (word_of_nat (n mod 256) :: u8) = n"
proof -
  have "unat (word_of_nat (n div 256 mod 256) :: u8) = n div 256" "unat (word_of_nat (n mod 256) :: u8) = n mod 256"
    using assms by (simp_all add: unat_of_nat less_mult_imp_div_less)
  then show ?thesis by simp
qed

lemma write_size_unat [simp]: "write_size (256 * uint b0 + uint b1) = [b0, b1]"
  using u8_less [of b0] u8_less [of b1] write_size_eq [of "256 * unat b0 + unat b1"] by simp

lemma parse_packs_write_size:
  assumes "n < 65536"
  shows "parse_packs (write_size (int n) @ rest) =
    (if n \<le> length rest then (take n rest # fst (parse_packs (drop n rest)), snd (parse_packs (drop n rest)))
     else ([], write_size (int n) @ rest))"
  using size_of_write_size [OF assms] by (simp add: write_size_eq case_prod_beta Let_def)

lemma parse_packs_append:
  "parse_packs (a @ b) = (fst (parse_packs a) @ fst (parse_packs (snd (parse_packs a) @ b)),
     snd (parse_packs (snd (parse_packs a) @ b)))"
proof (induction a rule: parse_packs.induct)
  case (3 b0 b1 rest)
  let ?n = "256 * unat b0 + unat b1"
  show ?case
  proof (cases "?n \<le> length rest")
    case True
    from 3 [OF refl True] True show ?thesis
      by (simp add: Let_def case_prod_beta)
  qed (simp add: Let_def)
qed simp_all

text \<open>Less than a whole packet is left over.\<close>

lemma parse_packs_rest: "parse_packs (snd (parse_packs a)) = ([], snd (parse_packs a))"
  by (induction a rule: parse_packs.induct) (auto simp: Let_def case_prod_beta)

section \<open>The invariant\<close>

definition uc_ok :: "uncomplete \<Rightarrow> bool" where
  "uc_ok uc \<longleftrightarrow> uc_read uc = -1
     \<or> 0 \<le> uc_read uc \<and> uc_read uc < int (uc_size uc) \<and> uc_size uc < 65536
       \<and> length (uc_buffer uc) = uc_size uc"

definition chain_ok :: "nat \<Rightarrow> uncomplete list \<Rightarrow> bool" where
  "chain_ok h chain \<longleftrightarrow> distinct (map uc_id chain)
     \<and> (\<forall>uc \<in> set chain. uc_ok uc \<and> hash_fd (uc_id uc) = h)"

definition np_wf :: "npqueue \<Rightarrow> bool" where
  "np_wf q \<longleftrightarrow> 0 < npq_cap q \<and> length (npq_queue q) = npq_cap q \<and> npq_head q < npq_cap q
     \<and> npq_tail q < npq_cap q \<and> length (npq_hash q) = HASHSIZE
     \<and> (\<forall>h < HASHSIZE. chain_ok h (npq_hash q ! h))"

text \<open>The bytes of the stream that a record stands for, and those kept for a socket.\<close>

definition uc_bytes :: "uncomplete \<Rightarrow> u8 list" where
  "uc_bytes uc = (if uc_read uc < 0 then [uc_header uc]
     else write_size (int (uc_size uc)) @ take (nat (uc_read uc)) (uc_buffer uc))"

definition pending :: "npqueue option \<Rightarrow> i32 \<Rightarrow> u8 list" where
  "pending slot fd = (case unlink_uc fd (npq_hash (get_queue slot) ! hash_fd fd) of
     None \<Rightarrow> [] | Some (uc, _) \<Rightarrow> uc_bytes uc)"

definition slot_wf :: "npqueue option \<Rightarrow> bool" where
  "slot_wf slot = np_wf (get_queue slot)"

definition npq_length :: "npqueue \<Rightarrow> nat" where
  "npq_length q = ring_len (npq_cap q) (npq_head q) (npq_tail q)"

definition npq_contents :: "npqueue \<Rightarrow> netpack list" where
  "npq_contents q = ring (npq_queue q) (npq_head q) (npq_length q)"

definition contents :: "npqueue option \<Rightarrow> netpack list" where
  "contents slot = npq_contents (get_queue slot)"

lemma hash_fd_less [simp]: "hash_fd fd < HASHSIZE"
  by (simp add: hash_fd_def HASHSIZE_def)

lemma get_queue_simps [simp]: "get_queue None = npqueue_new" "get_queue (Some q) = q"
  by (simp_all add: get_queue_def)

lemma uc_bytes_not_Nil [simp]: "uc_bytes uc \<noteq> []"
  by (simp add: uc_bytes_def write_size_def)

lemma slot_wf_None [simp]: "slot_wf None" "contents None = []" "pending None fd = []"
  by (simp_all add: slot_wf_def contents_def pending_def npq_contents_def npq_length_def ring_len_def
    np_wf_def npqueue_new_def QUEUESIZE_def chain_ok_def)

lemma unlink_uc_None: "unlink_uc fd chain = None \<longleftrightarrow> fd \<notin> uc_id ` set chain"
  by (induction chain) auto

lemma unlink_uc_Some:
  "unlink_uc fd chain = Some (uc, chain') \<Longrightarrow> uc_id uc = fd
     \<and> (\<exists>us vs. chain = us @ uc # vs \<and> chain' = us @ vs \<and> fd \<notin> uc_id ` set us)"
proof (induction chain arbitrary: chain')
  case (Cons c cs)
  show ?case
  proof (cases "uc_id c = fd")
    case False
    with Cons.prems obtain cs' where "unlink_uc fd cs = Some (uc, cs')" "chain' = c # cs'" by auto
    with Cons.IH obtain us vs where "uc_id uc = fd" "cs = us @ uc # vs" "cs' = us @ vs"
      "fd \<notin> uc_id ` set us" by blast
    with False \<open>chain' = c # cs'\<close> show ?thesis by (intro conjI exI [of _ "c # us"] exI [of _ vs]) auto
  qed (use Cons.prems in \<open>auto intro: exI [of _ "[]"]\<close>)
qed simp

lemma unlink_uc_other:
  "fd' \<noteq> fd \<Longrightarrow> unlink_uc fd chain = Some (uc, chain') \<Longrightarrow>
     map_option fst (unlink_uc fd' chain') = map_option fst (unlink_uc fd' chain)"
  by (induction chain arbitrary: chain') (auto simp: option.map_comp comp_def case_prod_beta split: if_splits)

text \<open>The hash table is only read through the chain of the socket's own bucket.\<close>

lemma pending_alt: "pending slot fd =
    (case map_option fst (unlink_uc fd (npq_hash (get_queue slot) ! hash_fd fd)) of
       None \<Rightarrow> [] | Some uc \<Rightarrow> uc_bytes uc)"
  by (auto simp: pending_def split: option.splits prod.splits)

lemma pending_cong: "npq_hash (get_queue slot) = npq_hash (get_queue slot') \<Longrightarrow> pending slot = pending slot'"
  by (simp add: pending_def fun_eq_iff)

lemma pending_Nil: "pending slot fd = [] \<longleftrightarrow> fd \<notin> uc_id ` set (npq_hash (get_queue slot) ! hash_fd fd)"
  unfolding unlink_uc_None [symmetric] by (auto simp: pending_def split: option.splits)

lemma np_wf_hash:
  assumes "np_wf q" "h < HASHSIZE" "chain_ok h chain"
  shows "np_wf (q\<lparr>npq_hash := (npq_hash q)[h := chain]\<rparr>)"
  using assms by (auto simp: np_wf_def nth_list_update)

lemma contents_hash [simp]: "contents (Some (q\<lparr>npq_hash := x\<rparr>)) = contents (Some q)"
  by (simp add: contents_def npq_contents_def npq_length_def)

lemma find_uncomplete_ok:
  assumes wf: "slot_wf slot"
  shows "\<exists>slot' uo. find_uncomplete slot fd = Inr (slot', uo) \<and> slot_wf slot' \<and> contents slot' = contents slot
    \<and> pending slot' = (pending slot)(fd := [])
    \<and> (case uo of None \<Rightarrow> pending slot fd = []
       | Some uc \<Rightarrow> slot' \<noteq> None \<and> uc_ok uc \<and> uc_id uc = fd \<and> pending slot fd = uc_bytes uc)"
proof (cases slot)
  case None
  then show ?thesis by (auto simp: find_uncomplete_def fun_eq_iff)
next
  case (Some q)
  let ?h = "hash_fd fd" and ?c = "npq_hash q ! hash_fd fd"
  from wf Some have q: "np_wf q" "?h < length (npq_hash q)" "chain_ok ?h ?c"
    by (auto simp: slot_wf_def np_wf_def)
  show ?thesis
  proof (cases "unlink_uc fd ?c")
    case None
    with Some q have "find_uncomplete slot fd = Inr (slot, None)" "pending slot fd = []"
      by (simp_all add: find_uncomplete_def pending_def)
    with wf show ?thesis by (auto simp: fun_eq_iff)
  next
    case (Some r)
    obtain uc c' where r: "r = (uc, c')" by (cases r)
    let ?s = "Some (q\<lparr>npq_hash := (npq_hash q)[?h := c']\<rparr>)"
    from unlink_uc_Some [OF Some [unfolded r]] obtain us vs where
      u: "uc_id uc = fd" "?c = us @ uc # vs" "c' = us @ vs" by blast
    with q have ok: "chain_ok ?h c'" "uc_ok uc" "fd \<notin> uc_id ` set c'"
      by (auto simp: chain_ok_def)
    have "pending ?s fd' = ((pending slot)(fd := [])) fd'" for fd'
    proof (cases "fd' = fd")
      case True
      with ok q show ?thesis by (simp add: pending_Nil)
    next
      case False
      with q unlink_uc_other [OF False Some [unfolded r]] show ?thesis
        by (cases "hash_fd fd' = hash_fd fd") (auto simp: pending_alt \<open>slot = Some q\<close>)
    qed
    moreover have "find_uncomplete slot fd = Inr (?s, Some uc)" "pending slot fd = uc_bytes uc"
      using Some q r \<open>slot = Some q\<close> by (auto simp: find_uncomplete_def pending_def)
    ultimately show ?thesis
      using np_wf_hash [OF q(1) _ ok(1)] ok u \<open>slot = Some q\<close> by (auto simp: slot_wf_def)
  qed
qed

lemma link_ok:
  assumes wf: "slot_wf slot" and none: "pending slot fd = []" and uc: "uc_ok uc" "uc_id uc = fd"
    and slot': "slot' = Some ((get_queue slot)\<lparr>npq_hash :=
      (npq_hash (get_queue slot))[hash_fd fd := uc # npq_hash (get_queue slot) ! hash_fd fd]\<rparr>)"
  shows "slot_wf slot' \<and> contents slot' = contents slot \<and> pending slot' = (pending slot)(fd := uc_bytes uc)"
proof -
  let ?q = "get_queue slot" and ?h = "hash_fd fd"
  from wf have q: "np_wf ?q" "?h < length (npq_hash ?q)" "chain_ok ?h (npq_hash ?q ! ?h)"
    by (auto simp: slot_wf_def np_wf_def)
  with none uc have "chain_ok ?h (uc # npq_hash ?q ! ?h)" by (auto simp: chain_ok_def pending_Nil)
  from np_wf_hash [OF q(1) _ this] have "slot_wf slot'" by (simp add: slot_wf_def slot')
  moreover have "pending slot' fd' = ((pending slot)(fd := uc_bytes uc)) fd'" for fd'
    using q uc by (cases "hash_fd fd' = hash_fd fd"; cases "fd' = fd")
      (auto simp: pending_alt slot' option.map_comp comp_def case_prod_beta)
  ultimately show ?thesis by (auto simp: slot' contents_def npq_contents_def npq_length_def)
qed

section \<open>The circular buffer\<close>

lemma memcpy_malloc [simp]:
  "n \<le> length src \<Longrightarrow> memcpy_at (malloc_bytes n) 0 src n = Inr (take n src)"
  by (simp add: memcpy_at_def malloc_bytes_def)

lemma npq_contents_expand:
  assumes "length (npq_queue q) = npq_cap q"
  shows "npq_contents (fst (np_expand_queue q)) = ring (npq_queue q) (npq_head q) (npq_cap q)"
proof -
  have "map (\<lambda>i. npq_queue q ! ((npq_head q + i) mod npq_cap q)) [0..<npq_cap q]
      = ring (npq_queue q) (npq_head q) (npq_cap q)"
    using assms by (simp add: ring_def)
  then have *: "npq_queue (fst (np_expand_queue q))
      = ring (npq_queue q) (npq_head q) (npq_cap q) @ replicate QUEUESIZE blank_pack"
    by (simp add: np_expand_queue_def Let_def)
  have "npq_length (fst (np_expand_queue q)) = npq_cap q" "npq_head (fst (np_expand_queue q)) = 0"
    by (simp_all add: npq_length_def np_expand_queue_def Let_def ring_len_def)
  then show ?thesis unfolding npq_contents_def *
    by (intro nth_equalityI) (auto simp: ring_def nth_append)
qed

lemma push_data_ok:
  assumes wf: "slot_wf slot" and clone: "clone \<longrightarrow> sz \<le> length buffer"
  shows "\<exists>slot'. push_data slot fd buffer sz clone = Inr slot' \<and> slot_wf slot'
    \<and> contents slot' = contents slot @ [\<lparr>np_id = fd, np_size = sz,
        np_buffer = (if clone then take sz buffer else buffer)\<rparr>]
    \<and> pending slot' = pending slot \<and> slot' \<noteq> None"
proof -
  let ?m = "\<lparr>np_id = fd, np_size = sz, np_buffer = (if clone then take sz buffer else buffer)\<rparr>"
  define q where "q = get_queue slot"
  define t where "t = (if Suc (npq_tail q) \<ge> npq_cap q then 0 else Suc (npq_tail q))"
  define q1 where "q1 = q\<lparr>npq_queue := (npq_queue q)[npq_tail q := ?m], npq_tail := t\<rparr>"
  let ?n = "npq_length q"
  from wf have wf: "np_wf q" by (simp add: slot_wf_def q_def)
  then have b: "npq_head q < npq_cap q" "npq_tail q < npq_cap q" "length (npq_queue q) = npq_cap q"
    by (auto simp: np_wf_def)
  have n: "?n < length (npq_queue q)" and tl: "(npq_head q + ?n) mod length (npq_queue q) = npq_tail q"
    using b by (auto simp: npq_length_def ring_len_less ring_len_tail)
  have snoc: "ring ((npq_queue q)[npq_tail q := ?m]) (npq_head q) (Suc ?n) = npq_contents q @ [?m]"
    using ring_snoc [of "npq_head q" "npq_queue q" ?n ?m] b n tl by (simp add: npq_contents_def)
  have "(if Suc (npq_tail q) \<ge> npq_cap q then Suc (npq_tail q) - npq_cap q else Suc (npq_tail q)) = t"
    using b by (auto simp: t_def)
  then have push: "push_data slot fd buffer sz clone
      = Inr (Some (if npq_head q1 = npq_tail q1 then fst (np_expand_queue q1) else q1))"
    using b clone by (cases clone) (simp_all add: push_data_def q1_def Let_def flip: q_def)
  show ?thesis
  proof (cases "npq_head q = t")
    case True
    let ?s = "Some (fst (np_expand_queue q1))"
    have full: "Suc ?n = npq_cap q"
      using b True by (simp add: npq_length_def ring_len_full t_def)
    have "contents ?s = contents slot @ [?m]"
      using snoc full b npq_contents_expand [of q1] by (simp add: q1_def contents_def q_def)
    moreover have "pending ?s = pending slot"
      by (rule pending_cong) (simp add: q1_def np_expand_queue_def Let_def q_def)
    moreover have "slot_wf ?s"
      using wf by (simp add: slot_wf_def q1_def np_expand_queue_def np_wf_def Let_def QUEUESIZE_def)
    ultimately show ?thesis using push True by (simp add: q1_def)
  next
    case False
    then have "npq_length q1 = Suc ?n"
      using b by (simp add: npq_length_def q1_def t_def ring_len_step_tail)
    with snoc have "contents (Some q1) = contents slot @ [?m]"
      by (simp add: contents_def npq_contents_def q1_def q_def)
    moreover have "pending (Some q1) = pending slot"
      by (rule pending_cong) (simp add: q1_def q_def)
    moreover have "slot_wf (Some q1)" using wf b by (auto simp: slot_wf_def q1_def np_wf_def t_def)
    ultimately show ?thesis using push False by (simp add: q1_def)
  qed
qed

lemma lpop_ok:
  assumes wf: "slot_wf slot"
  shows "\<exists>slot' r. lpop slot = Inr (slot', r) \<and> slot_wf slot' \<and> pending slot' = pending slot
    \<and> (case contents slot of [] \<Rightarrow> r = None \<and> contents slot' = []
       | np # nps \<Rightarrow> r = Some np \<and> contents slot' = nps)"
proof (cases slot)
  case (Some q)
  from wf Some have wf: "np_wf q" by (simp add: slot_wf_def)
  then have b: "npq_head q < npq_cap q" "npq_tail q < npq_cap q" "length (npq_queue q) = npq_cap q"
    by (auto simp: np_wf_def)
  show ?thesis
  proof (cases "npq_head q = npq_tail q")
    case True
    then have "contents slot = []" by (simp add: contents_def npq_contents_def npq_length_def ring_len_def Some)
    with True wf Some show ?thesis by (simp add: lpop_def slot_wf_def)
  next
    case False
    define h where "h = (if Suc (npq_head q) \<ge> npq_cap q then 0 else Suc (npq_head q))"
    let ?s = "Some (q\<lparr>npq_head := h\<rparr>)"
    have h: "h < npq_cap q" "h = Suc (npq_head q) mod npq_cap q" using b by (auto simp: h_def wrap_index)
    have "contents slot = npq_queue q ! npq_head q # contents ?s"
      using b h False by (simp add: Some contents_def npq_contents_def npq_length_def h_def
        ring_len_step_head ring_head ring_mod flip: ring_mod [of _ "Suc _"])
    moreover have "lpop slot = Inr (?s, Some (npq_queue q ! npq_head q))"
      using Some False b by (simp add: lpop_def h_def Let_def)
    moreover have "slot_wf ?s" "pending ?s = pending slot"
      using wf h by (auto simp: slot_wf_def np_wf_def Some intro: pending_cong)
    ultimately show ?thesis by simp
  qed
qed (simp add: lpop_def)

text \<open>The splitter's queue is a second implementation of the FIFO interface.\<close>

definition np_enq :: "npqueue option \<Rightarrow> netpack \<Rightarrow> (npqueue option) res" where
  "np_enq slot np = push_data slot (np_id np) (np_buffer np) (np_size np) False"

interpretation npf: fifo slot_wf contents np_enq lpop
proof
  show "\<exists>q'. np_enq q x = Inr q' \<and> slot_wf q' \<and> contents q' = contents q @ [x]" if "slot_wf q" for q x
    using push_data_ok [OF that, of False "np_size x" "np_buffer x" "np_id x"] by (auto simp: np_enq_def)
  show "\<exists>q' r. lpop q = Inr (q', r) \<and> slot_wf q' \<and>
      (case contents q of [] \<Rightarrow> r = None \<and> contents q' = [] | x # xs \<Rightarrow> r = Some x \<and> contents q' = xs)"
    if "slot_wf q" for q
    using lpop_ok [OF that] by (cases "contents q") auto
qed

section \<open>Splitting\<close>

definition mk_pack :: "i32 \<Rightarrow> u8 list \<Rightarrow> netpack" where
  "mk_pack fd b = \<lparr>np_id = fd, np_size = length b, np_buffer = b\<rparr>"

lemma save_uncomplete_ok:
  assumes "slot_wf slot" "pending slot fd = []"
    and "uc_ok (fill \<lparr>uc_id = fd, uc_size = 0, uc_buffer = [], uc_read = 0, uc_header = 0\<rparr>)"
    and "uc_id (fill \<lparr>uc_id = fd, uc_size = 0, uc_buffer = [], uc_read = 0, uc_header = 0\<rparr>) = fd"
  shows "\<exists>slot'. save_uncomplete slot fd fill = Inr slot' \<and> slot_wf slot' \<and> contents slot' = contents slot
    \<and> pending slot' = (pending slot)(fd := uc_bytes (fill \<lparr>uc_id = fd, uc_size = 0, uc_buffer = [],
        uc_read = 0, uc_header = 0\<rparr>))"
proof -
  from assms(1) have "hash_fd fd < length (npq_hash (get_queue slot))"
    by (simp add: slot_wf_def np_wf_def)
  with link_ok [OF assms refl] show ?thesis by (simp add: save_uncomplete_def Let_def)
qed

text \<open>The two ways in which a piece ends in the middle of a packet.\<close>

lemma save_header_ok:
  assumes "slot_wf slot" "pending slot fd = []"
  shows "\<exists>slot'. save_uncomplete slot fd (\<lambda>uc. uc\<lparr>uc_read := -1, uc_header := b\<rparr>) = Inr slot'
    \<and> slot_wf slot' \<and> contents slot' = contents slot \<and> pending slot' = (pending slot)(fd := [b])"
  using save_uncomplete_ok [OF assms, of "\<lambda>uc. uc\<lparr>uc_read := -1, uc_header := b\<rparr>"]
  by (simp add: uc_ok_def uc_bytes_def)

lemma save_body_ok:
  assumes "slot_wf slot" "pending slot fd = []" "length body < n" "n < 65536"
  shows "\<exists>slot' buf. memcpy_at (malloc_bytes n) 0 body (length body) = Inr buf
    \<and> save_uncomplete slot fd (\<lambda>uc. uc\<lparr>uc_read := int (length body), uc_size := n, uc_buffer := buf\<rparr>)
      = Inr slot'
    \<and> slot_wf slot' \<and> contents slot' = contents slot
    \<and> pending slot' = (pending slot)(fd := write_size (int n) @ body)"
proof -
  let ?buf = "body @ replicate (n - length body) 0"
  have "memcpy_at (malloc_bytes n) 0 body (length body) = Inr ?buf"
    using assms(3) by (simp add: memcpy_at_def malloc_bytes_def)
  with save_uncomplete_ok [OF assms(1,2),
      of "\<lambda>uc. uc\<lparr>uc_read := int (length body), uc_size := n, uc_buffer := ?buf\<rparr>"] assms(3,4)
  show ?thesis by (simp add: uc_ok_def uc_bytes_def)
qed

lemma pack_size_less: "256 * unat (b0 :: u8) + unat (b1 :: u8) < 65536"
  using u8_less [of b0] u8_less [of b1] by simp

lemma push_more_ok:
  assumes "slot_wf slot" "pending slot fd = []" "buffer \<noteq> []"
  shows "\<exists>slot'. push_more slot fd buffer = Inr slot' \<and> slot_wf slot'
    \<and> contents slot' = contents slot @ map (mk_pack fd) (fst (parse_packs buffer))
    \<and> pending slot' = (pending slot)(fd := snd (parse_packs buffer))"
  using assms
proof (induction buffer arbitrary: slot rule: parse_packs.induct)
  case (2 b)
  with save_header_ok [of slot fd b] show ?case
    by (simp add: push_more.simps [of _ _ "[b]"] fun_upd_def)
next
  case (3 b0 b1 rest)
  let ?n = "256 * unat b0 + unat b1"
  note simps = push_more.simps [of _ _ "b0 # b1 # rest"] Let_def case_prod_beta
  show ?case
  proof (cases "?n \<le> length rest")
    case False
    with save_body_ok [OF 3(2,3), of rest ?n] pack_size_less [of b0 b1] show ?thesis
      by (auto simp: simps)
  next
    case True
    from push_data_ok [OF 3(2), of True ?n rest fd] True obtain s where
      s: "push_data slot fd rest ?n True = Inr s" "slot_wf s" "pending s = pending slot"
        "contents s = contents slot @ [mk_pack fd (take ?n rest)]"
      by (auto simp: mk_pack_def)
    show ?thesis
    proof (cases "?n < length rest")
      case less: True
      from 3(1) [OF refl True s(2)] s(3) 3(3) less obtain s' where
        "push_more s fd (drop ?n rest) = Inr s'" "slot_wf s'"
        "contents s' = contents s @ map (mk_pack fd) (fst (parse_packs (drop ?n rest)))"
        "pending s' = (pending s)(fd := snd (parse_packs (drop ?n rest)))" by fastforce
      with s less show ?thesis by (simp add: simps fun_upd_def)
    next
      case False
      with True s 3(3) show ?thesis by (auto simp: simps)
    qed
  qed
qed simp

text \<open>
  What one piece does, when \<open>stream\<close> is what was kept for the socket followed by the piece: the
  packets that it finishes go to Lua, one directly or all of them through the queue, and the bytes
  left over are kept.
\<close>

definition filter_post :: "npqueue option \<Rightarrow> i32 \<Rightarrow> u8 list \<Rightarrow> npqueue option \<Rightarrow> np_ret \<Rightarrow> bool" where
  "filter_post slot fd stream slot' r \<longleftrightarrow>
     slot_wf slot' \<and> pending slot' = (pending slot)(fd := snd (parse_packs stream))
     \<and> (case r of
          Ret_none \<Rightarrow> contents slot' = contents slot \<and> fst (parse_packs stream) = []
        | Ret_data fd' b n \<Rightarrow> contents slot' = contents slot \<and> fst (parse_packs stream) = [b]
            \<and> fd' = fd \<and> n = length b
        | Ret_more \<Rightarrow> contents slot' = contents slot @ map (mk_pack fd) (fst (parse_packs stream))
        | _ \<Rightarrow> False)"

lemma memcpy_at_ok:
  "n \<le> length src \<Longrightarrow> off + n \<le> length dst \<Longrightarrow>
     memcpy_at dst off src n = Inr (take off dst @ take n src @ drop (off + n) dst)"
  by (simp add: memcpy_at_def)

lemma fill_body_ok:
  assumes slot: "slot = Some q" "slot_wf slot" "pending slot fd = []"
    and uc: "uc_id uc = fd" "uc_read uc = int r" "r \<le> uc_size uc" "uc_size uc < 65536"
      "length (uc_buffer uc) = uc_size uc"
  shows "\<exists>slot' ret. fill_uncomplete slot fd uc buffer = Inr (slot', ret)
    \<and> filter_post slot fd (write_size (int (uc_size uc)) @ take r (uc_buffer uc) @ buffer) slot' ret"
proof -
  let ?n = "uc_size uc" and ?need = "uc_size uc - r" and ?buf = "uc_buffer uc"
  note parse = parse_packs_write_size [OF uc(4), of "take r ?buf @ buffer"]
  have need: "nat (int ?n - int r) = ?need" "int (length buffer) < int ?n - int r \<longleftrightarrow> length buffer < ?need"
    using uc(3) by auto
  show ?thesis
  proof (cases "length buffer < ?need")
    case True
    let ?b = "take r ?buf @ buffer @ drop (r + length buffer) ?buf"
    let ?uc = "uc\<lparr>uc_buffer := ?b, uc_read := int r + int (length buffer)\<rparr>"
    have ok: "uc_ok ?uc" "uc_id ?uc = fd" using uc True by (auto simp: uc_ok_def)
    have bytes: "uc_bytes ?uc = write_size (int ?n) @ take r ?buf @ buffer"
      using uc True by (simp add: uc_bytes_def nat_add_distrib min_def)
    have h: "hash_fd fd < length (npq_hash q)" using slot by (simp add: slot_wf_def np_wf_def)
    from link_ok [OF slot(2,3) ok refl] bytes obtain s where
      s: "link_uc slot fd ?uc = Inr s" "slot_wf s" "contents s = contents slot"
        "pending s = (pending slot)(fd := write_size (int ?n) @ take r ?buf @ buffer)"
      using slot(1) h by (simp add: link_uc_def Let_def)
    have "fill_uncomplete slot fd uc buffer = Inr (s, Ret_none)"
      using True uc s(1) need(2) memcpy_at_ok [of "length buffer" buffer r ?buf]
      by (simp add: fill_uncomplete_def Let_def)
    moreover have "parse_packs (write_size (int ?n) @ take r ?buf @ buffer)
        = ([], write_size (int ?n) @ take r ?buf @ buffer)"
      using True uc parse by auto
    ultimately show ?thesis using s by (simp add: filter_post_def)
  next
    case False
    let ?b = "take r ?buf @ take ?need buffer" and ?rest = "drop ?need buffer"
    let ?stream = "write_size (int ?n) @ take r ?buf @ buffer"
    have b: "memcpy_at ?buf r buffer ?need = Inr ?b" "length ?b = ?n"
      using False uc memcpy_at_ok [of ?need buffer r ?buf] by auto
    have p: "parse_packs ?stream = (?b # fst (parse_packs ?rest), snd (parse_packs ?rest))"
      using False uc by (simp add: parse)
    show ?thesis
    proof (cases "?rest = []")
      case True
      with False uc need b have "fill_uncomplete slot fd uc buffer = Inr (slot, Ret_data fd ?b ?n)"
        by (simp add: fill_uncomplete_def Let_def)
      with True p slot b show ?thesis by (auto simp: filter_post_def)
    next
      case more: False
      from push_data_ok [OF slot(2), of False ?n ?b fd] b(2) obtain s where
        s: "push_data slot fd ?b ?n False = Inr s" "slot_wf s" "pending s = pending slot"
          "contents s = contents slot @ [mk_pack fd ?b]" by (auto simp: mk_pack_def)
      from push_more_ok [OF s(2) _ more] s(3) slot(3) obtain s' where
        s': "push_more s fd ?rest = Inr s'" "slot_wf s'"
          "contents s' = contents s @ map (mk_pack fd) (fst (parse_packs ?rest))"
          "pending s' = (pending s)(fd := snd (parse_packs ?rest))" by auto
      have "fill_uncomplete slot fd uc buffer = Inr (s', Ret_more)"
        using False more uc need b s(1) s'(1) by (simp add: fill_uncomplete_def Let_def)
      with s s' p show ?thesis by (simp add: filter_post_def)
    qed
  qed
qed

lemma fill_uncomplete_ok:
  assumes slot: "slot = Some q" "slot_wf slot" "pending slot fd = []"
    and uc: "uc_ok uc" "uc_id uc = fd" and buffer: "buffer \<noteq> []"
  shows "\<exists>slot' r. fill_uncomplete slot fd uc buffer = Inr (slot', r)
    \<and> filter_post slot fd (uc_bytes uc @ buffer) slot' r"
proof (cases "uc_read uc = -1")
  case True
  obtain b rest where b: "buffer = b # rest" using buffer by (cases buffer) auto
  let ?n = "256 * unat (uc_header uc) + unat b"
  let ?uc = "uc\<lparr>uc_size := ?n, uc_buffer := malloc_bytes ?n, uc_read := 0\<rparr>"
  have "fill_uncomplete slot fd uc buffer = fill_uncomplete slot fd ?uc rest"
    using True by (simp add: fill_uncomplete_def b or_push_bit_8 Let_def)
  moreover have "uc_bytes uc @ buffer = write_size (int ?n) @ rest"
    using True by (simp add: uc_bytes_def b)
  ultimately show ?thesis
    using fill_body_ok [OF slot, of ?uc 0 rest] uc pack_size_less [of "uc_header uc" b]
    by (simp add: malloc_bytes_def)
next
  case False
  with uc have "uc_read uc = int (nat (uc_read uc))" "nat (uc_read uc) \<le> uc_size uc"
    "uc_size uc < 65536" "length (uc_buffer uc) = uc_size uc" "\<not> uc_read uc < 0"
    by (auto simp: uc_ok_def)
  with fill_body_ok [OF slot uc(2), of "nat (uc_read uc)" buffer] show ?thesis
    by (simp add: uc_bytes_def)
qed

lemma start_packet_ok:
  assumes slot: "slot_wf slot" "pending slot fd = []" and buffer: "buffer \<noteq> []"
  shows "\<exists>slot' r. start_packet slot fd buffer = Inr (slot', r) \<and> filter_post slot fd buffer slot' r"
  using buffer
proof (cases buffer rule: parse_packs.cases)
  case (2 b)
  with save_header_ok [OF slot, of b] show ?thesis
    by (auto simp: start_packet_def filter_post_def)
next
  case (3 b0 b1 rest)
  let ?n = "256 * unat b0 + unat b1"
  consider (less) "length rest < ?n" | (one) "length rest = ?n" | (more) "?n < length rest" by linarith
  then show ?thesis
  proof cases
    case less
    with save_body_ok [OF slot, of rest ?n] pack_size_less [of b0 b1] 3 show ?thesis
      by (auto simp: start_packet_def filter_post_def Let_def)
  next
    case one
    then have [simp]: "?n = length rest" ..
    from slot show ?thesis
      by (simp add: 3 start_packet_def filter_post_def Let_def fun_upd_idem)
  next
    case more
    from push_data_ok [OF slot(1), of True ?n rest fd] more obtain s where
      s: "push_data slot fd rest ?n True = Inr s" "slot_wf s" "pending s = pending slot"
        "contents s = contents slot @ [mk_pack fd (take ?n rest)]" by (auto simp: mk_pack_def)
    from push_more_ok [OF s(2), of fd "drop ?n rest"] s(3) slot(2) more obtain s' where
      "push_more s fd (drop ?n rest) = Inr s'" "slot_wf s'"
        "contents s' = contents s @ map (mk_pack fd) (fst (parse_packs (drop ?n rest)))"
        "pending s' = (pending s)(fd := snd (parse_packs (drop ?n rest)))" by auto
    with s more 3 show ?thesis
      by (simp add: start_packet_def filter_post_def Let_def case_prod_beta)
  qed
qed simp

lemma filter_data_ok:
  assumes "slot_wf slot" "buffer \<noteq> []"
  shows "\<exists>slot' r. filter_data slot fd buffer = Inr (slot', r)
    \<and> filter_post slot fd (pending slot fd @ buffer) slot' r"
proof -
  from find_uncomplete_ok [OF assms(1), of fd] obtain s uo where
    s: "find_uncomplete slot fd = Inr (s, uo)" "slot_wf s" "contents s = contents slot"
      "pending s = (pending slot)(fd := [])"
    and uo: "case uo of None \<Rightarrow> pending slot fd = []
       | Some uc \<Rightarrow> s \<noteq> None \<and> uc_ok uc \<and> uc_id uc = fd \<and> pending slot fd = uc_bytes uc" by blast
  have post: "filter_post s fd stream s' r \<longleftrightarrow> filter_post slot fd stream s' r" for stream s' r
    using s by (cases r) (simp_all add: filter_post_def)
  show ?thesis
  proof (cases uo)
    case None
    with uo s start_packet_ok [OF s(2), of fd buffer] assms(2) show ?thesis
      by (auto simp: filter_data_def post)
  next
    case (Some uc)
    with uo obtain q where "s = Some q" by auto
    with Some uo s fill_uncomplete_ok [OF _ s(2), of q fd uc buffer, unfolded post] assms(2)
    show ?thesis by (simp add: filter_data_def)
  qed
qed

lemma close_uncomplete_ok:
  assumes "slot_wf slot"
  shows "\<exists>slot'. close_uncomplete slot fd = Inr slot' \<and> slot_wf slot' \<and> contents slot' = contents slot
    \<and> pending slot' = (pending slot)(fd := [])"
  using find_uncomplete_ok [OF assms, of fd] by (auto simp: close_uncomplete_def)

section \<open>The gate's loop\<close>

text \<open>
  What \<^verbatim>\<open>gateserver.lua\<close> does with the results: a single packet goes to \<^verbatim>\<open>dispatch_msg\<close> at once, and
  after \<^verbatim>\<open>more\<close> the loop of \<^verbatim>\<open>dispatch_queue\<close> pops until nothing is returned. The model's output is
  the list of packets handed to \<^verbatim>\<open>dispatch_msg\<close>, in order.
\<close>

partial_function (option) dispatch_queue :: "npqueue option \<Rightarrow> netpack list
    \<Rightarrow> (npqueue option \<times> netpack list) res option" where
  "dispatch_queue slot acc =
     (case lpop slot of
        Inl e \<Rightarrow> Some (Inl e)
      | Inr (slot, r) \<Rightarrow>
          (case r of None \<Rightarrow> Some (Inr (slot, acc))
           | Some np \<Rightarrow> dispatch_queue slot (acc @ [np])))"

definition gateserver_dispatch :: "npqueue option \<Rightarrow> np_ret \<Rightarrow> (npqueue option \<times> netpack list) res" where
  "gateserver_dispatch slot r =
     (case r of
        Ret_data fd b n \<Rightarrow> Inr (slot, [\<lparr>np_id = fd, np_size = n, np_buffer = b\<rparr>])
      | Ret_more \<Rightarrow> (case dispatch_queue slot [] of None \<Rightarrow> Inl Diverges | Some x \<Rightarrow> x)
      | _ \<Rightarrow> Inr (slot, []))"

text \<open>A run of the gate on the messages of the socket thread, each with the size it comes with.\<close>

fun gateserver_run :: "npqueue option \<Rightarrow> (skynet_socket_message \<times> int) list
    \<Rightarrow> (npqueue option \<times> netpack list) res" where
  "gateserver_run slot [] = Inr (slot, [])"
| "gateserver_run slot ((message, sz) # ms) =
     bindE (lfilter slot message sz) (\<lambda>(slot, r).
     bindE (gateserver_dispatch slot r) (\<lambda>(slot, out).
     bindE (gateserver_run slot ms) (\<lambda>(slot, outs). Inr (slot, out @ outs))))"

text \<open>The messages for a piece of a stream and for the end of a connection.\<close>

datatype np_event = Chunk i32 "u8 list" | Closed i32

fun event_message :: "np_event \<Rightarrow> skynet_socket_message \<times> int" where
  "event_message (Chunk fd b) = (\<lparr>sm_type = SKYNET_SOCKET_TYPE_DATA, sm_id = fd, sm_ud = int (length b),
     sm_buffer = Some b, sm_pad = []\<rparr>, SIZEOF_SOCKET_MESSAGE)"
| "event_message (Closed fd) = (\<lparr>sm_type = SKYNET_SOCKET_TYPE_CLOSE, sm_id = fd, sm_ud = 0,
     sm_buffer = None, sm_pad = []\<rparr>, SIZEOF_SOCKET_MESSAGE)"

text \<open>The streams that arrive on a socket id: one per connection, in order.\<close>

fun streams :: "i32 \<Rightarrow> u8 list \<Rightarrow> np_event list \<Rightarrow> u8 list list" where
  "streams fd acc [] = [acc]"
| "streams fd acc (Chunk fd' b # evs) = streams fd (if fd' = fd then acc @ b else acc) evs"
| "streams fd acc (Closed fd' # evs) =
     (if fd' = fd then acc # streams fd [] evs else streams fd acc evs)"

definition packs_of :: "i32 \<Rightarrow> netpack list \<Rightarrow> u8 list list" where
  "packs_of fd nps = map np_buffer (filter (\<lambda>np. np_id np = fd) nps)"

lemma packs_of_simps [simp]:
  "packs_of fd [] = []" "packs_of fd (xs @ ys) = packs_of fd xs @ packs_of fd ys"
  "packs_of fd (map (mk_pack fd') ps) = (if fd' = fd then ps else [])"
  by (induction ps) (auto simp: packs_of_def mk_pack_def)

lemma dispatch_queue_ok:
  assumes "slot_wf slot"
  shows "\<exists>slot'. dispatch_queue slot acc = Some (Inr (slot', acc @ contents slot)) \<and> slot_wf slot'
    \<and> contents slot' = [] \<and> pending slot' = pending slot"
  using assms
proof (induction "contents slot" arbitrary: slot acc)
  case Nil
  with lpop_ok [OF Nil(2)] show ?case by (subst dispatch_queue.simps) (auto split: list.splits)
next
  case (Cons np nps)
  from lpop_ok [OF Cons(3)] obtain s where
    s: "lpop slot = Inr (s, Some np)" "slot_wf s" "contents s = nps" "pending s = pending slot"
    unfolding Cons(2) [symmetric] by auto
  from Cons(1) [OF s(3) [symmetric] s(2), of "acc @ [np]"] s Cons(2) [symmetric] show ?case
    by (subst dispatch_queue.simps) simp
qed

text \<open>One message: the packets it finishes are dispatched, and the queue is left empty.\<close>

lemma gate_chunk_ok:
  assumes "slot_wf slot" "contents slot = []" "b \<noteq> []"
  shows "\<exists>slot1 r slot'. lfilter slot (fst (event_message (Chunk fd b))) (snd (event_message (Chunk fd b)))
      = Inr (slot1, r)
    \<and> gateserver_dispatch slot1 r = Inr (slot', map (mk_pack fd) (fst (parse_packs (pending slot fd @ b))))
    \<and> slot_wf slot' \<and> contents slot' = []
    \<and> pending slot' = (pending slot)(fd := snd (parse_packs (pending slot fd @ b)))"
proof -
  from filter_data_ok [OF assms(1,3), of fd] obtain s r where
    s: "filter_data slot fd b = Inr (s, r)" "filter_post slot fd (pending slot fd @ b) s r" by blast
  have "lfilter slot (fst (event_message (Chunk fd b))) (snd (event_message (Chunk fd b))) = Inr (s, r)"
    using s(1) by (simp add: lfilter_def bytes_of_def)
  with s(2) assms(2) dispatch_queue_ok [of s "[]"] show ?thesis
    by (cases r) (auto simp: filter_post_def gateserver_dispatch_def mk_pack_def)
qed

lemma gate_close_ok:
  assumes "slot_wf slot"
  shows "\<exists>slot1 r. lfilter slot (fst (event_message (Closed fd))) (snd (event_message (Closed fd)))
      = Inr (slot1, r)
    \<and> gateserver_dispatch slot1 r = Inr (slot1, []) \<and> slot_wf slot1 \<and> contents slot1 = contents slot
    \<and> pending slot1 = (pending slot)(fd := [])"
  using close_uncomplete_ok [OF assms, of fd]
  by (auto simp: lfilter_def socket_type_defs gateserver_dispatch_def)

lemma streams_head: "\<exists>s ss. streams fd acc evs = (acc @ s) # ss \<and> (\<forall>acc'. streams fd acc' evs = (acc' @ s) # ss)"
proof (induction evs arbitrary: acc)
  case (Cons ev evs)
  show ?case
  proof (cases ev)
    case (Chunk fd' b)
    from Cons.IH [of b] obtain s ss where "\<forall>acc'. streams fd acc' evs = (acc' @ s) # ss" by blast
    with Chunk show ?thesis by (cases "fd' = fd") (auto intro: exI [of _ "b @ s"])
  next
    case (Closed fd')
    from Cons.IH [of "[]"] obtain s ss where "\<forall>acc'. streams fd acc' evs = (acc' @ s) # ss" by blast
    with Closed show ?thesis by (cases "fd' = fd") auto
  qed
qed simp

text \<open>Taking the packets that are complete out of the first stream.\<close>

lemma streams_parse:
  "concat (map (fst \<circ> parse_packs) (streams fd acc evs))
     = fst (parse_packs acc) @ concat (map (fst \<circ> parse_packs) (streams fd (snd (parse_packs acc)) evs))"
proof -
  from streams_head [of fd acc evs] obtain s ss where
    "\<And>acc'. streams fd acc' evs = (acc' @ s) # ss" by blast
  then show ?thesis by (simp add: parse_packs_append [of acc s])
qed

lemma gateserver_run_ok:
  assumes "slot_wf slot" "contents slot = []" "\<forall>fd. Chunk fd [] \<notin> set evs"
    and "\<And>fd. fst (parse_packs (pending slot fd)) = []"
  shows "\<exists>slot' out. gateserver_run slot (map event_message evs) = Inr (slot', out) \<and> slot_wf slot'
    \<and> contents slot' = []
    \<and> (\<forall>fd. packs_of fd out = concat (map (fst \<circ> parse_packs) (streams fd (pending slot fd) evs)))
    \<and> (\<forall>np \<in> set out. np_size np = length (np_buffer np))"
  using assms
proof (induction evs arbitrary: slot)
  case Nil
  then show ?case by simp
next
  case (Cons ev evs)
  have pre: "\<forall>fd. Chunk fd [] \<notin> set evs" using Cons.prems(3) by simp
  show ?case
  proof (cases ev)
    case (Chunk fd b)
    let ?p = "parse_packs (pending slot fd @ b)"
    from Cons.prems(3) Chunk have "b \<noteq> []" by auto
    from gate_chunk_ok [OF Cons.prems(1,2) this, of fd] obtain s1 r s where
      s: "lfilter slot (fst (event_message ev)) (snd (event_message ev)) = Inr (s1, r)"
        "gateserver_dispatch s1 r = Inr (s, map (mk_pack fd) (fst ?p))" "slot_wf s" "contents s = []"
        "pending s = (pending slot)(fd := snd ?p)" unfolding Chunk by blast
    have "fst (parse_packs (pending s f)) = []" for f
      using s(5) Cons.prems(4) parse_packs_rest by simp
    from Cons.IH [OF s(3,4) pre this] obtain s' out where
      s': "gateserver_run s (map event_message evs) = Inr (s', out)" "slot_wf s'" "contents s' = []"
        "\<forall>fd. packs_of fd out = concat (map (fst \<circ> parse_packs) (streams fd (pending s fd) evs))"
        "\<forall>np \<in> set out. np_size np = length (np_buffer np)" by blast
    have "gateserver_run slot (map event_message (ev # evs)) = Inr (s', map (mk_pack fd) (fst ?p) @ out)"
      using s(1,2) s'(1) by (cases "event_message ev") simp
    moreover have "packs_of fd' (map (mk_pack fd) (fst ?p) @ out)
        = concat (map (fst \<circ> parse_packs) (streams fd' (pending slot fd') (ev # evs)))" for fd'
      using s'(4) s(5) streams_parse [of fd "pending slot fd @ b" evs] by (auto simp: Chunk)
    ultimately show ?thesis using s' by (auto simp: mk_pack_def comp_def)
  next
    case (Closed fd)
    from gate_close_ok [OF Cons.prems(1), of fd] obtain s r where
      s: "lfilter slot (fst (event_message ev)) (snd (event_message ev)) = Inr (s, r)"
        "gateserver_dispatch s r = Inr (s, [])" "slot_wf s" "contents s = contents slot"
        "pending s = (pending slot)(fd := [])" unfolding Closed by blast
    have "fst (parse_packs (pending s f)) = []" "contents s = []" for f
      using s(4,5) Cons.prems(2,4) by auto
    from Cons.IH [OF s(3) this(2) pre this(1)] obtain s' out where
      s': "gateserver_run s (map event_message evs) = Inr (s', out)" "slot_wf s'" "contents s' = []"
        "\<forall>fd. packs_of fd out = concat (map (fst \<circ> parse_packs) (streams fd (pending s fd) evs))"
        "\<forall>np \<in> set out. np_size np = length (np_buffer np)" by blast
    have "gateserver_run slot (map event_message (ev # evs)) = Inr (s', out)"
      using s(1,2) s'(1) by (cases "event_message ev") simp
    moreover have "packs_of fd' out
        = concat (map (fst \<circ> parse_packs) (streams fd' (pending slot fd') (ev # evs)))" for fd'
      using s'(4) s(5) Cons.prems(4) by (auto simp: Closed)
    ultimately show ?thesis using s' by (auto simp: comp_def)
  qed
qed

section \<open>Properties\<close>

lemma lpack_eq: "length s < 65536 \<Longrightarrow> lpack s = Inr (write_size (int (length s)) @ s)"
  by (simp add: lpack_def Let_def memcpy_at_def malloc_bytes_def write_size_def)

lemma parse_packs_lpack:
  "\<forall>m \<in> set ms. length m < 65536 \<Longrightarrow>
     parse_packs (concat (map (\<lambda>m. write_size (int (length m)) @ m) ms)) = (ms, [])"
  by (induction ms) (simp_all add: parse_packs_write_size)

text \<open>C6: The splitter reassembles the packets of every connection. However the streams of the
  sockets are cut into non-empty pieces, and however these arrive interleaved with each other and
  with the ends of connections, the gate's loop hits no fault and ends, and what is dispatched for a
  socket is exactly the sequence of the packets of its streams, each stream read from its start to
  the end of its connection; nothing of a packet cut off by the end of a connection leaks into the
  next one.\<close>

theorem netpack_reassembles:
  assumes "\<forall>fd. Chunk fd [] \<notin> set evs"
  shows "\<exists>slot out. gateserver_run None (map event_message evs) = Inr (slot, out)
    \<and> packs_of fd out = concat (map (fst \<circ> parse_packs) (streams fd [] evs))"
  using gateserver_run_ok [of None evs] assms by auto

theorem netpack_reassembles_witness:
  "\<exists>slot out. gateserver_run None (map event_message [Chunk 7 [0], Chunk 8 [0, 1], Chunk 7 [2, 65],
      Closed 8, Chunk 7 [66, 0, 0, 0], Chunk 8 [0, 1, 67]]) = Inr (slot, out)
    \<and> packs_of 7 out = [[65, 66], []] \<and> packs_of 8 out = [[67]]"
proof -
  let ?evs = "[Chunk 7 [0], Chunk 8 [0, 1], Chunk 7 [2, 65], Closed 8, Chunk 7 [66, 0, 0, 0],
      Chunk 8 [0, 1, 67]]"
  have "\<forall>fd. Chunk fd [] \<notin> set ?evs" by simp
  from netpack_reassembles [OF this, of 7] netpack_reassembles [OF this, of 8] show ?thesis by auto
qed

text \<open>C29: Packing and splitting are inverse over the network. If on every socket the bytes that arrive
  are those of packed messages, in order, then the gate dispatches on every socket exactly the
  messages, whatever the pieces and their interleaving; \<^verbatim>\<open>pack\<close> succeeds for every message below
  64 KB and raises an error for a longer one.\<close>

theorem netpack_roundtrip:
  assumes "\<forall>fd. Chunk fd [] \<notin> set evs" "\<And>fd. streams fd [] evs = [concat (map (\<lambda>m. projr (lpack m)) (msgs fd))]"
    and "\<And>fd. \<forall>m \<in> set (msgs fd). length m < 0x10000"
  shows "\<exists>slot out. gateserver_run None (map event_message evs) = Inr (slot, out) \<and> (\<forall>fd. packs_of fd out = msgs fd)
    \<and> (\<forall>s. (\<exists>b. lpack s = Inr b) \<longleftrightarrow> length s < 0x10000)"
proof -
  have eq: "map (\<lambda>m. projr (lpack m)) (msgs fd) = map (\<lambda>m. write_size (int (length m)) @ m) (msgs fd)" for fd
    using assms(3) by (auto simp: lpack_eq)
  then have "fst (parse_packs (concat (map (\<lambda>m. projr (lpack m)) (msgs fd)))) = msgs fd" for fd
    unfolding eq using parse_packs_lpack [of "msgs fd"] assms(3) by auto
  moreover have "(\<exists>b. lpack s = Inr b) \<longleftrightarrow> length s < 0x10000" for s
    using lpack_eq [of s] by (cases "length s < 65536") (auto simp: lpack_def)
  ultimately show ?thesis using gateserver_run_ok [of None evs] assms(1,2) by auto
qed

theorem netpack_roundtrip_witness:
  "\<exists>slot out. gateserver_run None (map event_message [Chunk 7 [0], Chunk 8 [0], Chunk 7 [2, 65], Chunk 8 [0],
      Chunk 7 [66, 0, 0]]) = Inr (slot, out) \<and> packs_of 7 out = [[65, 66], []] \<and> packs_of 8 out = [[]]"
proof -
  let ?evs = "[Chunk 7 [0], Chunk 8 [0], Chunk 7 [2, 65], Chunk 8 [0], Chunk 7 [66, 0, 0]]"
  let ?msgs = "\<lambda>fd :: i32. if fd = 7 then [[65, 66], []] else if fd = 8 then [[]] else []"
  have evs: "\<forall>fd. Chunk fd [] \<notin> set ?evs" by simp
  have str: "streams fd [] ?evs = [concat (map (\<lambda>m. projr (lpack m)) (?msgs fd))]" for fd
    by (simp add: lpack_eq write_size_def)
  have "\<forall>m \<in> set (?msgs fd). length m < 0x10000" for fd by simp
  from netpack_roundtrip [of ?evs ?msgs, OF evs str this] obtain slot out where
    "gateserver_run None (map event_message ?evs) = Inr (slot, out)" "\<forall>fd. packs_of fd out = ?msgs fd" by blast
  then show ?thesis by (intro exI [of _ slot] exI [of _ out]) simp
qed

end
