(* ===== verification/Linked_Chain.thy ===== *)
theory Linked_Chain
  imports Skynet_Prelude
begin

text \<open>
  Chains of \<^verbatim>\<open>next\<close> pointers that end in NULL, for the components that keep their records in linked
  lists: the successor is a function on addresses, and \<open>chain nx s ps\<close> says that the addresses met
  from \<open>s\<close> are \<open>ps\<close>. Also the 32-bit wrap-around of C \<^verbatim>\<open>int\<close>s kept as \<open>int\<close>, and the result of a
  loop that may not end.
\<close>

definition wrap32 :: "int \<Rightarrow> int" where
  "wrap32 x = (x + 2 ^ 31) mod 2 ^ 32 - 2 ^ 31"

definition loopE :: "'a res option \<Rightarrow> 'a res" where
  "loopE r = (case r of None \<Rightarrow> Inl Diverges | Some x \<Rightarrow> x)"

primrec chain :: "('p \<Rightarrow> 'p option) \<Rightarrow> 'p option \<Rightarrow> 'p list \<Rightarrow> bool" where
  "chain nx s [] \<longleftrightarrow> s = None"
| "chain nx s (p # ps) \<longleftrightarrow> s = Some p \<and> chain nx (nx p) ps"

lemma loopE_Some [simp]: "loopE (Some r) = r"
  by (simp add: loopE_def)

lemma wrap32_id [simp]: "- (2 ^ 31) \<le> x \<Longrightarrow> x < 2 ^ 31 \<Longrightarrow> wrap32 x = x"
  by (simp add: wrap32_def)

lemma wrap32_bounds: "- (2 ^ 31) \<le> wrap32 x \<and> wrap32 x < 2 ^ 31"
proof -
  have "0 \<le> (x + 2 ^ 31) mod 2 ^ 32" "(x + 2 ^ 31) mod 2 ^ 32 < 2 ^ 32" by simp_all
  then show ?thesis by (simp add: wrap32_def)
qed

lemma chain_NULL [simp]: "chain nx None ps \<longleftrightarrow> ps = []"
  by (cases ps) auto

lemma chain_from: "chain nx (Some p) ps \<longleftrightarrow> (\<exists>qs. ps = p # qs \<and> chain nx (nx p) qs)"
  by (cases ps) auto

lemma chain_frame: "(\<And>p. p \<in> set ps \<Longrightarrow> nx' p = nx p) \<Longrightarrow> chain nx' s ps \<longleftrightarrow> chain nx s ps"
  by (induction ps arbitrary: s) auto

lemma chain_upd [simp]: "p \<notin> set ps \<Longrightarrow> chain (nx(p := x)) s ps \<longleftrightarrow> chain nx s ps"
  by (rule chain_frame) auto

text \<open>Appending behind the last record, and taking out the one that follows another.\<close>

lemma chain_append_tail:
  assumes "chain nx s ps" "ps \<noteq> []" "distinct ps" "p \<notin> set ps"
  shows "chain (nx(last ps := Some p, p := None)) s (ps @ [p])"
  using assms
proof (induction ps arbitrary: s)
  case (Cons q qs)
  show ?case
  proof (cases "qs = []")
    case False
    with Cons have "last qs \<noteq> q" by (metis distinct.simps(2) last_in_set)
    with False Cons show ?thesis by auto
  qed (use Cons in auto)
qed simp

lemma chain_take_out:
  assumes "chain nx s (us @ p # q # vs)" "distinct (us @ p # q # vs)"
  shows "chain (nx(p := nx q)) s (us @ p # vs)"
  using assms
proof (induction us arbitrary: s)
  case Nil
  then show ?case by (simp del: fun_upd_apply add: fun_upd_same)
next
  case (Cons u us)
  then show ?case by (simp del: fun_upd_apply add: fun_upd_other)
qed

end
