(* ===== verification/Socket_Server.thy ===== *)
theory Socket_Server
  imports Linked_Chain
begin

text \<open>
  The socket server of a node (\<^verbatim>\<open>skynet-src/socket_server.c\<close>): a table of sockets, a pipe through
  which the workers send commands to the socket thread, and the loop of the socket thread that handles
  the commands and the events of the operating system.

  What the operating system answers is a function \<open>os\<close> of the calls made so far with their answers and
  of the call made now; the state records the calls in \<open>ss_io\<close>. So a statement for every \<open>os\<close> holds
  for every behaviour of network and peers. A blocking call that never returns is not modelled.
  The pipe is a queue of requests: the writes to it are shorter than \<^verbatim>\<open>PIPE_BUF\<close> and hence atomic. A
  block of memory that is sent is its bytes; a user object is the bytes that the object interface
  gives for it, and whether they lie at the address of the object itself. What is freed is
  recorded in \<open>ss_freed\<close>.
\<close>

section \<open>Constants and data\<close>

definition MAX_SOCKET :: nat where "MAX_SOCKET = 65536"
definition MIN_READ_BUFFER :: int where "MIN_READ_BUFFER = 64"
definition WARNING_SIZE :: int where "WARNING_SIZE = 1048576"
definition UDP_ADDRESS_SIZE :: nat where "UDP_ADDRESS_SIZE = 19"
definition FD_SETSIZE :: int where "FD_SETSIZE = 1024"

datatype socket_type = SOCKET_TYPE_INVALID | SOCKET_TYPE_RESERVE | SOCKET_TYPE_PLISTEN | SOCKET_TYPE_LISTEN
  | SOCKET_TYPE_CONNECTING | SOCKET_TYPE_CONNECTED | SOCKET_TYPE_HALFCLOSE_READ
  | SOCKET_TYPE_HALFCLOSE_WRITE | SOCKET_TYPE_PACCEPT | SOCKET_TYPE_BIND

datatype protocol = PROTOCOL_TCP | PROTOCOL_UDP | PROTOCOL_UDPv6 | PROTOCOL_UNKNOWN

datatype priority = PRIORITY_HIGH | PRIORITY_LOW

datatype socket_event = SOCKET_DATA | SOCKET_CLOSE | SOCKET_OPEN | SOCKET_ACCEPT | SOCKET_ERR | SOCKET_EXIT
  | SOCKET_UDP | SOCKET_WARNING | SOCKET_RST | SOCKET_MORE

definition protocol_byte :: "protocol \<Rightarrow> u8" where
  "protocol_byte p = (case p of PROTOCOL_TCP \<Rightarrow> 0 | PROTOCOL_UDP \<Rightarrow> 1 | PROTOCOL_UDPv6 \<Rightarrow> 2 | PROTOCOL_UNKNOWN \<Rightarrow> 255)"

definition HASH_ID :: "int \<Rightarrow> nat" where
  "HASH_ID i = nat (i mod 2 ^ 32 mod int MAX_SOCKET)"

definition ID_TAG16 :: "int \<Rightarrow> nat" where
  "ID_TAG16 i = nat (i div 65536 mod 65536)"

text \<open>What is sent: \<open>User inner bs\<close> is an object; \<open>inner\<close> tells that its bytes start at its address.\<close>

datatype payload = Memory "u8 list" | User bool "u8 list"

record write_buffer =
  wb_buffer :: payload
  wb_ptr :: nat
  wb_sz :: nat
  wb_userobject :: bool
  wb_udp_address :: "u8 list option"

text \<open>
  The list from \<^verbatim>\<open>head\<close> on. A \<^verbatim>\<open>tail\<close> that is not NULL is the last buffer of the list: the code
  assigns it nothing else.
\<close>

record wb_list =
  wl_head :: "write_buffer list"
  wl_tail :: bool

record socket_stat =
  st_rtime :: u64
  st_wtime :: u64
  st_read :: u64
  st_write :: u64

text \<open>The members of the union \<^verbatim>\<open>p\<close> are two fields; the protocol decides which one is used.\<close>

record socket =
  s_opaque :: u64
  s_high :: wb_list
  s_low :: wb_list
  s_wb_size :: int
  s_stat :: socket_stat
  s_sending :: nat
  s_fd :: int
  s_id :: int
  s_type :: socket_type
  s_protocol :: protocol
  s_reading :: bool
  s_writing :: bool
  s_closing :: bool
  s_udpconnecting :: int
  s_warn_size :: int
  s_size :: int
  s_udp_address :: "u8 list"
  s_dw_lock :: bool
  s_dw_offset :: nat
  s_dw_buffer :: "payload option"

text \<open>An event of the poll: the slot of the socket, if it is not the pipe, and what happened.\<close>

record event =
  e_s :: "nat option"
  e_read :: bool
  e_write :: bool
  e_error :: bool
  e_eof :: bool

section \<open>Calls of the operating system\<close>

datatype errno = EINTR | EAGAIN | EINPROGRESS | EMFILE | ENFILE | EOTHER nat

datatype family = AF_INET | AF_INET6 | AF_OTHER

datatype sys =
    Sys_write int "u8 list" | Sys_sendto int "u8 list" "u8 list" | Sys_read int int | Sys_recvfrom int
  | Sys_close int | Sys_shutdown_wr int | Sys_shutdown_rd int
  | Sys_accept int | Sys_getsockopt_error int | Sys_setsockopt int string int | Sys_getpeername int
  | Sys_getsockname int | Sys_getaddrinfo string int bool | Sys_socket family bool
  | Sys_connect int "u8 list" | Sys_bind int "u8 list" | Sys_listen int int
  | Sys_pipe | Sp_create | Sp_release | Sp_add int "nat option" | Sp_del int | Sp_enable int nat bool bool
  | Sp_wait | Sp_nonblocking int | Sys_log string

text \<open>
  An answer: the returned number, the read end of a new pipe, \<^verbatim>\<open>errno\<close>, data read, the address of the peer (port and IP address),
  its text, the events, the resolved addresses, the error of the socket.
\<close>

record sysret =
  sr_n :: int
  sr_fd :: int
  sr_errno :: errno
  sr_data :: "u8 list"
  sr_addr :: "u8 list"
  sr_text :: "string option"
  sr_events :: "event list"
  sr_addrs :: "(family \<times> u8 list) list"
  sr_sockerr :: "errno option"

type_synonym oscall = "(sys \<times> sysret) list \<Rightarrow> sys \<Rightarrow> sysret"

text \<open>The commands in the pipe, by their letter.\<close>

datatype request =
    Req_resume int u64                  \<comment> \<open>R\<close>
  | Req_pause int u64                   \<comment> \<open>S\<close>
  | Req_bind int int u64                \<comment> \<open>B\<close>
  | Req_listen int int u64              \<comment> \<open>L\<close>
  | Req_close int bool u64              \<comment> \<open>K\<close>
  | Req_open int int u64 string         \<comment> \<open>O\<close>
  | Req_exit                            \<comment> \<open>X\<close>
  | Req_trigger int                     \<comment> \<open>W\<close>
  | Req_send priority int payload       \<comment> \<open>D and P\<close>
  | Req_send_udp int payload "u8 list"  \<comment> \<open>A\<close>
  | Req_set_udp int "u8 list"           \<comment> \<open>C\<close>
  | Req_setopt int string int           \<comment> \<open>T\<close>
  | Req_udp int int family u64          \<comment> \<open>U\<close>

record socket_server =
  ss_time :: u64
  ss_checkctrl :: bool
  ss_alloc_id :: i32
  ss_event_n :: nat
  ss_event_index :: nat
  ss_soi :: bool
  ss_ev :: "event list"
  ss_slot :: "nat \<Rightarrow> socket"
  ss_pipe :: "request list"
  ss_io :: "(sys \<times> sysret) list"
  ss_freed :: "payload list"

text \<open>What a message of the server carries: nothing, a text, the text of an error, received bytes.\<close>

datatype mdata = No_data | Text string | Strerror errno | Data "u8 list"

record socket_message =
  m_id :: int
  m_opaque :: u64
  m_ud :: int
  m_data :: mdata

type_synonym ret = "(socket_event \<times> socket_message) option"

definition sys :: "oscall \<Rightarrow> sys \<Rightarrow> socket_server \<Rightarrow> socket_server \<times> sysret" where
  "sys os c ss = (let r = os (ss_io ss) c in (ss\<lparr>ss_io := ss_io ss @ [(c, r)]\<rparr>, r))"

definition do_sys :: "oscall \<Rightarrow> sys \<Rightarrow> socket_server \<Rightarrow> socket_server" where
  "do_sys os c ss = fst (sys os c ss)"

definition set_slot :: "nat \<Rightarrow> socket \<Rightarrow> socket_server \<Rightarrow> socket_server" where
  "set_slot k s ss = ss\<lparr>ss_slot := (ss_slot ss)(k := s)\<rparr>"

definition upd_slot :: "nat \<Rightarrow> (socket \<Rightarrow> socket) \<Rightarrow> socket_server \<Rightarrow> socket_server" where
  "upd_slot k f ss = set_slot k (f (ss_slot ss k)) ss"

section \<open>Locks\<close>

text \<open>
  The lock of a socket, with the nesting count of its holder. A lock that another thread holds is
  waited for; here, where a call is one step, that shows as \<open>Diverges\<close>.
\<close>

definition socket_lock :: "nat \<Rightarrow> nat \<Rightarrow> socket_server \<Rightarrow> (socket_server \<times> nat) res" where
  "socket_lock k n ss =
     (if n = 0
      then if s_dw_lock (ss_slot ss k) then Inl Diverges
           else Inr (upd_slot k (\<lambda>s. s\<lparr>s_dw_lock := True\<rparr>) ss, 1)
      else Inr (ss, n + 1))"

definition socket_trylock :: "nat \<Rightarrow> nat \<Rightarrow> socket_server \<Rightarrow> (socket_server \<times> nat) option" where
  "socket_trylock k n ss =
     (if n = 0
      then if s_dw_lock (ss_slot ss k) then None
           else Some (upd_slot k (\<lambda>s. s\<lparr>s_dw_lock := True\<rparr>) ss, 1)
      else Some (ss, n + 1))"

definition socket_unlock :: "nat \<Rightarrow> nat \<Rightarrow> socket_server \<Rightarrow> (socket_server \<times> nat) res" where
  "socket_unlock k n ss =
     (if n \<le> 1
      then bindE (assertE (n = 1)) (\<lambda>_. Inr (upd_slot k (\<lambda>s. s\<lparr>s_dw_lock := False\<rparr>) ss, 0))
      else Inr (ss, n - 1))"

definition socket_invalid :: "socket \<Rightarrow> int \<Rightarrow> bool" where
  "socket_invalid s i \<longleftrightarrow> s_id s \<noteq> i \<or> s_type s = SOCKET_TYPE_INVALID"

section \<open>Buffers\<close>

text \<open>The bytes of what is sent, and whether it is a user object; \<^verbatim>\<open>soi\<close> is NULL until it is set.\<close>

definition send_object_init :: "socket_server \<Rightarrow> payload \<Rightarrow> (u8 list \<times> bool) res" where
  "send_object_init ss p =
     (case p of Memory bs \<Rightarrow> Inr (bs, False)
      | User _ bs \<Rightarrow> if ss_soi ss then Inr (bs, True) else Inl Null_Deref)"

definition free_payload :: "payload \<Rightarrow> socket_server \<Rightarrow> socket_server res" where
  "free_payload p ss =
     (case p of Memory bs \<Rightarrow> Inr (ss\<lparr>ss_freed := ss_freed ss @ [p]\<rparr>)
      | User _ bs \<Rightarrow> if ss_soi ss then Inr (ss\<lparr>ss_freed := ss_freed ss @ [p]\<rparr>) else Inl Null_Deref)"

datatype sendbuffer_type = SOCKET_BUFFER_MEMORY | SOCKET_BUFFER_OBJECT | SOCKET_BUFFER_RAWPOINTER

record socket_sendbuffer =
  sb_id :: int
  sb_type :: sendbuffer_type
  sb_inner :: bool
  sb_bytes :: "u8 list"

definition send_object_init_from_sendbuffer :: "socket_server \<Rightarrow> socket_sendbuffer \<Rightarrow> u8 list res" where
  "send_object_init_from_sendbuffer ss buf =
     (case sb_type buf of
        SOCKET_BUFFER_MEMORY \<Rightarrow> Inr (sb_bytes buf)
      | SOCKET_BUFFER_OBJECT \<Rightarrow> if ss_soi ss then Inr (sb_bytes buf) else Inl Null_Deref
      | SOCKET_BUFFER_RAWPOINTER \<Rightarrow> Inr (sb_bytes buf))"

definition write_buffer_free :: "write_buffer \<Rightarrow> socket_server \<Rightarrow> socket_server res" where
  "write_buffer_free wb ss =
     (if wb_userobject wb \<and> \<not> ss_soi ss then Inl Null_Deref
      else Inr (ss\<lparr>ss_freed := ss_freed ss @ [wb_buffer wb]\<rparr>))"

fun free_wb_list :: "write_buffer list \<Rightarrow> socket_server \<Rightarrow> socket_server res" where
  "free_wb_list [] ss = Inr ss"
| "free_wb_list (wb # wbs) ss = bindE (write_buffer_free wb ss) (free_wb_list wbs)"

definition clear_wb_list :: wb_list where
  "clear_wb_list = \<lparr>wl_head = [], wl_tail = False\<rparr>"

definition free_buffer :: "socket_sendbuffer \<Rightarrow> socket_server \<Rightarrow> socket_server res" where
  "free_buffer buf ss =
     (case sb_type buf of
        SOCKET_BUFFER_MEMORY \<Rightarrow> free_payload (Memory (sb_bytes buf)) ss
      | SOCKET_BUFFER_OBJECT \<Rightarrow> free_payload (User (sb_inner buf) (sb_bytes buf)) ss
      | SOCKET_BUFFER_RAWPOINTER \<Rightarrow> Inr ss)"

text \<open>A raw pointer is copied.\<close>

definition clone_buffer :: "socket_sendbuffer \<Rightarrow> payload" where
  "clone_buffer buf =
     (case sb_type buf of
        SOCKET_BUFFER_MEMORY \<Rightarrow> Memory (sb_bytes buf)
      | SOCKET_BUFFER_OBJECT \<Rightarrow> User (sb_inner buf) (sb_bytes buf)
      | SOCKET_BUFFER_RAWPOINTER \<Rightarrow> Memory (sb_bytes buf))"

section \<open>Ids\<close>

definition socket_keepalive :: "oscall \<Rightarrow> int \<Rightarrow> socket_server \<Rightarrow> socket_server" where
  "socket_keepalive os fd ss = do_sys os (Sys_setsockopt fd ''SO_KEEPALIVE'' 1) ss"

definition next_id :: "i32 \<Rightarrow> i32 \<times> int" where
  "next_id alloc =
     (let alloc' = alloc + 1 in
      if sint alloc' < 0 then (alloc' AND 0x7fffffff, sint (alloc' AND 0x7fffffff)) else (alloc', sint alloc'))"

function reserve_loop :: "nat \<Rightarrow> socket_server \<Rightarrow> socket_server \<times> int" where
  "reserve_loop i ss =
     (if i < MAX_SOCKET
      then let (alloc, sid) = next_id (ss_alloc_id ss);
               ss = ss\<lparr>ss_alloc_id := alloc\<rparr>;
               s = ss_slot ss (HASH_ID sid)
           in if s_type s = SOCKET_TYPE_INVALID
              then (set_slot (HASH_ID sid) (s\<lparr>s_type := SOCKET_TYPE_RESERVE, s_id := sid,
                      s_protocol := PROTOCOL_UNKNOWN, s_udpconnecting := 0, s_fd := -1\<rparr>) ss, sid)
              else reserve_loop (i + 1) ss
      else (ss, -1))"
  by pat_completeness auto
termination
  by (relation "measure (\<lambda>(i, ss). MAX_SOCKET - i)") auto

declare reserve_loop.simps [simp del]

definition reserve_id :: "socket_server \<Rightarrow> socket_server \<times> int" where
  "reserve_id ss = reserve_loop 0 ss"

section \<open>Creation\<close>

text \<open>\<open>junk\<close> is what the allocated slots contain.\<close>

definition socket_server_create :: "oscall \<Rightarrow> (nat \<Rightarrow> socket) \<Rightarrow> u64 \<Rightarrow> socket_server option res" where
  "socket_server_create os junk time =
     (let ss = \<lparr>ss_time = time, ss_checkctrl = True, ss_alloc_id = 0, ss_event_n = 0, ss_event_index = 0,
            ss_soi = False, ss_ev = [],
            ss_slot = (\<lambda>i. (junk i)\<lparr>s_type := SOCKET_TYPE_INVALID, s_high := clear_wb_list, s_low := clear_wb_list,
              s_dw_lock := False\<rparr>),
            ss_pipe = [], ss_io = [], ss_freed = []\<rparr>;
          (ss, efd) = sys os Sp_create ss
      in if sr_n efd = -1 then Inr None
         else let (ss, p) = sys os Sys_pipe ss in
           if sr_n p \<noteq> 0 then Inr None
           else let (ss, a) = sys os (Sp_add (sr_fd p) None) ss in
             if sr_n a = -1 then Inr None
             else bindE (assertE (sr_fd p < FD_SETSIZE)) (\<lambda>_. Inr (Some ss)))"

definition socket_server_updatetime :: "u64 \<Rightarrow> socket_server \<Rightarrow> socket_server" where
  "socket_server_updatetime time ss = ss\<lparr>ss_time := time\<rparr>"

section \<open>Closing\<close>

text \<open>\<open>l\<close> is the nesting count of the caller for the lock of the socket.\<close>

definition force_close :: "oscall \<Rightarrow> nat \<Rightarrow> nat \<Rightarrow> socket_server \<Rightarrow> (socket_server \<times> nat \<times> socket_message) res" where
  "force_close os k l ss =
     (let s = ss_slot ss k;
          result = \<lparr>m_id = s_id s, m_opaque = s_opaque s, m_ud = 0, m_data = No_data\<rparr>
      in if s_type s = SOCKET_TYPE_INVALID then Inr (ss, l, result)
         else
         bindE (assertE (s_type s \<noteq> SOCKET_TYPE_RESERVE)) (\<lambda>_.
         bindE (free_wb_list (wl_head (s_high s)) ss) (\<lambda>ss.
         bindE (free_wb_list (wl_head (s_low s)) ss) (\<lambda>ss.
         let ss = upd_slot k (\<lambda>s. s\<lparr>s_high := clear_wb_list, s_low := clear_wb_list\<rparr>) ss;
             ss = do_sys os (Sp_del (s_fd s)) ss
         in bindE (socket_lock k l ss) (\<lambda>(ss, l).
         let ss = (if s_type s \<noteq> SOCKET_TYPE_BIND then do_sys os (Sys_close (s_fd s)) ss else ss);
             ss = upd_slot k (\<lambda>s. s\<lparr>s_type := SOCKET_TYPE_INVALID\<rparr>) ss
         in bindE (case s_dw_buffer s of None \<Rightarrow> Inr ss
              | Some p \<Rightarrow> bindE (free_payload p ss) (\<lambda>ss. Inr (upd_slot k (\<lambda>s. s\<lparr>s_dw_buffer := None\<rparr>) ss))) (\<lambda>ss.
         bindE (socket_unlock k l ss) (\<lambda>(ss, l). Inr (ss, l, result))))))))"

definition check_wb_list :: "wb_list \<Rightarrow> unit res" where
  "check_wb_list wl = bindE (assertE (wl_head wl = [])) (\<lambda>_. assertE (\<not> wl_tail wl))"

definition enable_write :: "oscall \<Rightarrow> nat \<Rightarrow> bool \<Rightarrow> socket_server \<Rightarrow> socket_server \<times> bool" where
  "enable_write os k enable ss =
     (let s = ss_slot ss k in
      if s_writing s \<noteq> enable
      then let (ss, r) = sys os (Sp_enable (s_fd s) k (s_reading s) enable) (set_slot k (s\<lparr>s_writing := enable\<rparr>) ss)
           in (ss, sr_n r = -1)
      else (ss, False))"

definition enable_read :: "oscall \<Rightarrow> nat \<Rightarrow> bool \<Rightarrow> socket_server \<Rightarrow> socket_server \<times> bool" where
  "enable_read os k enable ss =
     (let s = ss_slot ss k in
      if s_reading s \<noteq> enable
      then let (ss, r) = sys os (Sp_enable (s_fd s) k enable (s_writing s)) (set_slot k (s\<lparr>s_reading := enable\<rparr>) ss)
           in (ss, sr_n r = -1)
      else (ss, False))"

definition set_type :: "nat \<Rightarrow> socket_type \<Rightarrow> socket_server \<Rightarrow> socket_server" where
  "set_type k t ss = upd_slot k (\<lambda>s. s\<lparr>s_type := t\<rparr>) ss"

definition socket_server_release :: "oscall \<Rightarrow> socket_server \<Rightarrow> socket_server res" where
  "socket_server_release os ss =
     bindE (fold (\<lambda>i r. bindE r (\<lambda>ss.
         if s_type (ss_slot ss i) \<noteq> SOCKET_TYPE_RESERVE
         then bindE (force_close os i 0 ss) (\<lambda>(ss, l, dummy). Inr ss) else Inr ss)) [0..<MAX_SOCKET] (Inr ss))
       (\<lambda>ss. Inr (do_sys os Sp_release ss))"

section \<open>New sockets\<close>

text \<open>The result tells whether the socket was added.\<close>

definition new_fd :: "oscall \<Rightarrow> int \<Rightarrow> int \<Rightarrow> protocol \<Rightarrow> u64 \<Rightarrow> bool \<Rightarrow> socket_server
    \<Rightarrow> (socket_server \<times> bool) res" where
  "new_fd os sid fd proto opaque reading ss =
     (let k = HASH_ID sid in
      bindE (assertE (s_type (ss_slot ss k) = SOCKET_TYPE_RESERVE)) (\<lambda>_.
      let (ss, r) = sys os (Sp_add fd (Some k)) ss in
      if sr_n r = -1 then Inr (set_type k SOCKET_TYPE_INVALID ss, False)
      else
        let s = ss_slot ss k;
            ss = set_slot k (s\<lparr>s_id := sid, s_fd := fd, s_reading := True, s_writing := False, s_closing := False,
              s_sending := ID_TAG16 sid * 65536, s_protocol := proto, s_size := MIN_READ_BUFFER,
              s_opaque := opaque, s_wb_size := 0, s_warn_size := 0\<rparr>) ss
        in bindE (check_wb_list (s_high s)) (\<lambda>_.
           bindE (check_wb_list (s_low s)) (\<lambda>_.
           let ss = upd_slot k (\<lambda>s. s\<lparr>s_dw_buffer := None,
                 s_stat := \<lparr>st_rtime = 0, st_wtime = 0, st_read = 0, st_write = 0\<rparr>\<rparr>) ss;
               (ss, err) = enable_read os k reading ss
           in if err then Inr (set_type k SOCKET_TYPE_INVALID ss, False) else Inr (ss, True)))))"

definition stat_read :: "nat \<Rightarrow> int \<Rightarrow> socket_server \<Rightarrow> socket_server" where
  "stat_read k n ss = upd_slot k (\<lambda>s. s\<lparr>s_stat := (s_stat s)\<lparr>st_read := st_read (s_stat s) + word_of_int n,
     st_rtime := ss_time ss\<rparr>\<rparr>) ss"

definition stat_write :: "nat \<Rightarrow> int \<Rightarrow> socket_server \<Rightarrow> socket_server" where
  "stat_write k n ss = upd_slot k (\<lambda>s. s\<lparr>s_stat := (s_stat s)\<lparr>st_write := st_write (s_stat s) + word_of_int n,
     st_wtime := ss_time ss\<rparr>\<rparr>) ss"

text \<open>
  The loop over the addresses that a name resolves to: the descriptor with the result of
  \<^verbatim>\<open>connect\<close> (0 or in progress) and the address as text, or the last error.
\<close>

fun connect_loop :: "oscall \<Rightarrow> (family \<times> u8 list) list \<Rightarrow> errno \<Rightarrow> socket_server
    \<Rightarrow> socket_server \<times> (errno + int \<times> bool \<times> string option)" where
  "connect_loop os [] e ss = (ss, Inl e)"
| "connect_loop os ((fam, addr) # ais) e ss =
     (let (ss, r) = sys os (Sys_socket fam True) ss; sock = sr_n r in
      if sock < 0 then connect_loop os ais (sr_errno r) ss
      else
        let ss = do_sys os (Sp_nonblocking sock) (socket_keepalive os sock ss);
            (ss, c) = sys os (Sys_connect sock addr) ss
        in if sr_n c \<noteq> 0 \<and> sr_errno c \<noteq> EINPROGRESS
           then connect_loop os ais (sr_errno c) (do_sys os (Sys_close sock) ss)
           else (ss, Inr (sock, sr_n c = 0, sr_text c)))"

definition open_socket :: "oscall \<Rightarrow> int \<Rightarrow> int \<Rightarrow> u64 \<Rightarrow> string \<Rightarrow> socket_server \<Rightarrow> (socket_server \<times> ret) res" where
  "open_socket os sid port opaque host ss =
     (let result = \<lparr>m_id = sid, m_opaque = opaque, m_ud = 0, m_data = No_data\<rparr>;
          k = HASH_ID sid;
          failed = (\<lambda>ss data. Inr (set_type k SOCKET_TYPE_INVALID ss, Some (SOCKET_ERR, result\<lparr>m_data := data\<rparr>)));
          (ss, ai) = sys os (Sys_getaddrinfo host port True) ss
      in if sr_n ai \<noteq> 0 then failed ss (Strerror (sr_errno ai))
         else
           let (ss, c) = connect_loop os (sr_addrs ai) (sr_errno ai) ss in
           case c of
             Inl e \<Rightarrow> failed ss (Strerror e)
           | Inr (sock, connected, name) \<Rightarrow>
               bindE (new_fd os sid sock PROTOCOL_TCP opaque True ss) (\<lambda>(ss, ok).
               if \<not> ok then failed (do_sys os (Sys_close sock) ss) (Text ''reach skynet socket number limit'')
               else if connected then
                 Inr (set_type k SOCKET_TYPE_CONNECTED ss,
                   Some (SOCKET_OPEN, result\<lparr>m_data := (case name of None \<Rightarrow> No_data | Some t \<Rightarrow> Text t)\<rparr>))
               else
                 let (ss, err) = enable_write os k True (set_type k SOCKET_TYPE_CONNECTING ss)
                 in if err then failed ss (Text ''enable write failed'') else Inr (ss, None)))"

definition report_error :: "nat \<Rightarrow> mdata \<Rightarrow> socket_server \<Rightarrow> ret" where
  "report_error k err ss =
     (let s = ss_slot ss k in Some (SOCKET_ERR, \<lparr>m_id = s_id s, m_opaque = s_opaque s, m_ud = 0, m_data = err\<rparr>))"

text \<open>
  Closing the write side after the error \<open>e\<close> of a \<^verbatim>\<open>write\<close>; the message is for the error that was
  set last.
\<close>

definition close_write :: "oscall \<Rightarrow> nat \<Rightarrow> nat \<Rightarrow> errno \<Rightarrow> socket_server \<Rightarrow> (socket_server \<times> nat \<times> ret) res" where
  "close_write os k l e ss =
     (let s = ss_slot ss k in
      if s_closing s \<or> s_type s = SOCKET_TYPE_HALFCLOSE_READ
      then bindE (force_close os k l ss) (\<lambda>(ss, l, result). Inr (ss, l, Some (SOCKET_RST, result)))
      else if s_type s = SOCKET_TYPE_HALFCLOSE_WRITE
      then Inr (ss, l, Some (SOCKET_RST, \<lparr>m_id = s_id s, m_opaque = s_opaque s, m_ud = 0, m_data = No_data\<rparr>))
      else
        let (ss, r) = sys os (Sys_shutdown_wr (s_fd s)) (set_type k SOCKET_TYPE_HALFCLOSE_WRITE ss);
            e = (if sr_n r < 0 then sr_errno r else e);
            (ss, err) = enable_write os k False ss;
            e = (if err then sr_errno (snd (last (ss_io ss))) else e)
        in Inr (ss, l, report_error k (Strerror e) ss))"

section \<open>Sending\<close>

text \<open>The list a pointer to a \<^verbatim>\<open>wb_list\<close> of the socket stands for.\<close>

definition get_list :: "priority \<Rightarrow> socket \<Rightarrow> wb_list" where
  "get_list pr s = (case pr of PRIORITY_HIGH \<Rightarrow> s_high s | PRIORITY_LOW \<Rightarrow> s_low s)"

definition set_list :: "priority \<Rightarrow> wb_list \<Rightarrow> socket \<Rightarrow> socket" where
  "set_list pr wl s = (case pr of PRIORITY_HIGH \<Rightarrow> s\<lparr>s_high := wl\<rparr> | PRIORITY_LOW \<Rightarrow> s\<lparr>s_low := wl\<rparr>)"

definition payload_bytes :: "payload \<Rightarrow> u8 list" where
  "payload_bytes p = (case p of Memory bs \<Rightarrow> bs | User _ bs \<Rightarrow> bs)"

definition wb_data :: "write_buffer \<Rightarrow> u8 list" where
  "wb_data wb = take (wb_sz wb) (drop (wb_ptr wb) (payload_bytes (wb_buffer wb)))"

text \<open>A \<^verbatim>\<open>write\<close> that is repeated when it is interrupted.\<close>

partial_function (option) write_retry :: "oscall \<Rightarrow> int \<Rightarrow> u8 list \<Rightarrow> socket_server \<Rightarrow> (socket_server \<times> sysret) option" where
  "write_retry os fd data ss =
     (let (ss, r) = sys os (Sys_write fd data) ss in
      if sr_n r < 0 \<and> sr_errno r = EINTR then write_retry os fd data ss else Some (ss, r))"

fun send_tcp_loop :: "oscall \<Rightarrow> nat \<Rightarrow> priority \<Rightarrow> nat \<Rightarrow> write_buffer list \<Rightarrow> socket_server
    \<Rightarrow> (socket_server \<times> nat \<times> ret) res" where
  "send_tcp_loop os k pr l [] ss = Inr (upd_slot k (\<lambda>s. set_list pr ((get_list pr s)\<lparr>wl_tail := False\<rparr>) s) ss, l, None)"
| "send_tcp_loop os k pr l (wb # wbs) ss =
     (case write_retry os (s_fd (ss_slot ss k)) (wb_data wb) ss of
        None \<Rightarrow> Inl Diverges
      | Some (ss, r) \<Rightarrow>
          if sr_n r < 0
          then if sr_errno r = EAGAIN then Inr (ss, l, None) else close_write os k l (sr_errno r) ss
          else
            let ss = upd_slot k (\<lambda>s. s\<lparr>s_wb_size := s_wb_size s - sr_n r\<rparr>) (stat_write k (sr_n r) ss) in
            if sr_n r \<noteq> int (wb_sz wb)
            then Inr (upd_slot k (\<lambda>s. set_list pr ((get_list pr s)\<lparr>wl_head :=
                   wb\<lparr>wb_ptr := wb_ptr wb + nat (sr_n r), wb_sz := wb_sz wb - nat (sr_n r)\<rparr> # wbs\<rparr>) s) ss, l, None)
            else
              let ss = upd_slot k (\<lambda>s. set_list pr ((get_list pr s)\<lparr>wl_head := wbs\<rparr>) s) ss in
              bindE (write_buffer_free wb ss) (send_tcp_loop os k pr l wbs))"

definition send_list_tcp :: "oscall \<Rightarrow> nat \<Rightarrow> priority \<Rightarrow> nat \<Rightarrow> socket_server \<Rightarrow> (socket_server \<times> nat \<times> ret) res" where
  "send_list_tcp os k pr l ss = send_tcp_loop os k pr l (wl_head (get_list pr (ss_slot ss k))) ss"

text \<open>The address to send to (port and IP address), or None where the code returns 0.\<close>

definition udp_socket_address :: "socket \<Rightarrow> u8 list \<Rightarrow> u8 list option" where
  "udp_socket_address s addr =
     (if addr ! 0 \<noteq> protocol_byte (s_protocol s) then None
      else case s_protocol s of
          PROTOCOL_UDP \<Rightarrow> Some (take 6 (drop 1 addr))
        | PROTOCOL_UDPv6 \<Rightarrow> Some (take 18 (drop 1 addr))
        | _ \<Rightarrow> None)"

definition drop_udp :: "nat \<Rightarrow> priority \<Rightarrow> write_buffer \<Rightarrow> write_buffer list \<Rightarrow> socket_server \<Rightarrow> socket_server res" where
  "drop_udp k pr tmp rest ss =
     write_buffer_free tmp (upd_slot k (\<lambda>s. set_list pr
       ((get_list pr s)\<lparr>wl_head := rest, wl_tail := (if rest = [] then False else wl_tail (get_list pr s))\<rparr>)
       (s\<lparr>s_wb_size := s_wb_size s - int (wb_sz tmp)\<rparr>)) ss)"

text \<open>A buffer without room for an address (\<^verbatim>\<open>SIZEOF_TCPBUFFER\<close>) is read behind its end.\<close>

fun send_udp_loop :: "oscall \<Rightarrow> nat \<Rightarrow> priority \<Rightarrow> write_buffer list \<Rightarrow> socket_server \<Rightarrow> socket_server res" where
  "send_udp_loop os k pr [] ss = Inr (upd_slot k (\<lambda>s. set_list pr ((get_list pr s)\<lparr>wl_tail := False\<rparr>) s) ss)"
| "send_udp_loop os k pr (tmp # rest) ss =
     (case wb_udp_address tmp of None \<Rightarrow> Inl Out_Of_Bounds
      | Some addr \<Rightarrow>
          (case udp_socket_address (ss_slot ss k) addr of
             None \<Rightarrow> drop_udp k pr tmp rest (do_sys os (Sys_log ''udp type mismatch'') ss)
           | Some sa \<Rightarrow>
               let (ss, r) = sys os (Sys_sendto (s_fd (ss_slot ss k)) (wb_data tmp) sa) ss in
               if sr_n r < 0
               then if sr_errno r = EINTR \<or> sr_errno r = EAGAIN then Inr ss
                    else drop_udp k pr tmp rest (do_sys os (Sys_log ''udp sendto error'') ss)
               else
                 let ss = stat_write k (int (wb_sz tmp)) ss;
                     ss = upd_slot k (\<lambda>s. set_list pr ((get_list pr s)\<lparr>wl_head := rest\<rparr>)
                       (s\<lparr>s_wb_size := s_wb_size s - int (wb_sz tmp)\<rparr>)) ss
                 in bindE (write_buffer_free tmp ss) (send_udp_loop os k pr rest)))"

definition send_list_udp :: "oscall \<Rightarrow> nat \<Rightarrow> priority \<Rightarrow> socket_server \<Rightarrow> socket_server res" where
  "send_list_udp os k pr ss = send_udp_loop os k pr (wl_head (get_list pr (ss_slot ss k))) ss"

definition send_list :: "oscall \<Rightarrow> nat \<Rightarrow> priority \<Rightarrow> nat \<Rightarrow> socket_server \<Rightarrow> (socket_server \<times> nat \<times> ret) res" where
  "send_list os k pr l ss =
     (if s_protocol (ss_slot ss k) = PROTOCOL_TCP then send_list_tcp os k pr l ss
      else bindE (send_list_udp os k pr ss) (\<lambda>ss. Inr (ss, l, None)))"

text \<open>
  Whether \<^verbatim>\<open>ptr\<close> differs from \<^verbatim>\<open>buffer\<close>. For a user object \<^verbatim>\<open>buffer\<close> is the object, \<^verbatim>\<open>ptr\<close> points
  to its bytes.
\<close>

definition wb_moved :: "write_buffer \<Rightarrow> bool" where
  "wb_moved wb \<longleftrightarrow> (case wb_buffer wb of Memory _ \<Rightarrow> wb_ptr wb \<noteq> 0 | User inner _ \<Rightarrow> wb_ptr wb \<noteq> 0 \<or> \<not> inner)"

definition list_uncomplete :: "wb_list \<Rightarrow> bool" where
  "list_uncomplete wl \<longleftrightarrow> (case wl_head wl of [] \<Rightarrow> False | wb # _ \<Rightarrow> wb_moved wb)"

definition raise_uncomplete :: "socket \<Rightarrow> socket res" where
  "raise_uncomplete s =
     (case wl_head (s_low s) of [] \<Rightarrow> Inl Null_Deref
      | tmp # rest \<Rightarrow>
          bindE (assertE (wl_head (s_high s) = [])) (\<lambda>_.
          Inr (s\<lparr>s_low := (s_low s)\<lparr>wl_head := rest, wl_tail := (if rest = [] then False else wl_tail (s_low s))\<rparr>,
            s_high := \<lparr>wl_head = [tmp], wl_tail = True\<rparr>\<rparr>)))"

definition send_buffer_empty :: "socket \<Rightarrow> bool" where
  "send_buffer_empty s \<longleftrightarrow> wl_head (s_high s) = [] \<and> wl_head (s_low s) = []"

text \<open>Step 4 of \<^verbatim>\<open>send_buffer_\<close>, when both lists are empty.\<close>

definition send_done :: "oscall \<Rightarrow> nat \<Rightarrow> nat \<Rightarrow> socket_server \<Rightarrow> (socket_server \<times> nat \<times> ret) res" where
  "send_done os k l ss =
     (let s = ss_slot ss k in
      bindE (assertE (send_buffer_empty s \<and> s_wb_size s = 0)) (\<lambda>_.
      if s_closing s then bindE (force_close os k l ss) (\<lambda>(ss, l, result). Inr (ss, l, None))
      else
        let (ss, err) = enable_write os k False ss; s = ss_slot ss k in
        if err then Inr (ss, l, report_error k (Text ''disable write failed'') ss)
        else if s_warn_size s > 0
        then Inr (upd_slot k (\<lambda>s. s\<lparr>s_warn_size := 0\<rparr>) ss, l,
          Some (SOCKET_WARNING, \<lparr>m_id = s_id s, m_opaque = s_opaque s, m_ud = 0, m_data = No_data\<rparr>))
        else Inr (ss, l, None)))"

text \<open>What a result of \<^verbatim>\<open>send_list\<close> other than -1 becomes: an error is returned, a reset ignored.\<close>

definition only_err :: "ret \<Rightarrow> ret" where
  "only_err r = (case r of Some (SOCKET_ERR, m) \<Rightarrow> Some (SOCKET_ERR, m) | _ \<Rightarrow> None)"

definition send_buffer_locked :: "oscall \<Rightarrow> nat \<Rightarrow> nat \<Rightarrow> socket_server \<Rightarrow> (socket_server \<times> nat \<times> ret) res" where
  "send_buffer_locked os k l ss =
     bindE (assertE (\<not> list_uncomplete (s_low (ss_slot ss k)))) (\<lambda>_.
     bindE (send_list os k PRIORITY_HIGH l ss) (\<lambda>(ss, l, ret).
     if ret \<noteq> None then Inr (ss, l, only_err ret)
     else if wl_head (s_high (ss_slot ss k)) \<noteq> [] then Inr (ss, l, None)
     else if wl_head (s_low (ss_slot ss k)) \<noteq> [] then
       bindE (send_list os k PRIORITY_LOW l ss) (\<lambda>(ss, l, ret).
       if ret \<noteq> None then Inr (ss, l, only_err ret)
       else if list_uncomplete (s_low (ss_slot ss k))
       then bindE (raise_uncomplete (ss_slot ss k)) (\<lambda>s. Inr (set_slot k s ss, l, None))
       else if wl_head (s_low (ss_slot ss k)) \<noteq> [] then Inr (ss, l, None)
       else send_done os k l ss)
     else send_done os k l ss))"

text \<open>The buffer of a direct write that was not finished goes before the other buffers.\<close>

definition take_direct :: "nat \<Rightarrow> socket_server \<Rightarrow> socket_server res" where
  "take_direct k ss =
     (let s = ss_slot ss k in
      case s_dw_buffer s of None \<Rightarrow> Inr ss
      | Some p \<Rightarrow>
          bindE (send_object_init ss p) (\<lambda>(bs, userobject).
          let buf = \<lparr>wb_buffer = p, wb_ptr = s_dw_offset s, wb_sz = length bs - s_dw_offset s,
                wb_userobject = userobject, wb_udp_address = None\<rparr>
          in Inr (set_slot k (s\<lparr>s_wb_size := s_wb_size s + int (wb_sz buf),
               s_high := (s_high s)\<lparr>wl_head := buf # wl_head (s_high s),
                 wl_tail := (if wl_head (s_high s) = [] then True else wl_tail (s_high s))\<rparr>,
               s_dw_buffer := None\<rparr>) ss)))"

definition send_buffer :: "oscall \<Rightarrow> nat \<Rightarrow> nat \<Rightarrow> socket_server \<Rightarrow> (socket_server \<times> nat \<times> ret) res" where
  "send_buffer os k l ss =
     (case socket_trylock k l ss of None \<Rightarrow> Inr (ss, l, None)
      | Some (ss, l) \<Rightarrow>
          bindE (take_direct k ss) (\<lambda>ss.
          bindE (send_buffer_locked os k l ss) (\<lambda>(ss, l, r).
          bindE (socket_unlock k l ss) (\<lambda>(ss, l). Inr (ss, l, r)))))"

definition append_sendbuffer_to :: "socket_server \<Rightarrow> payload \<Rightarrow> u8 list option \<Rightarrow> wb_list \<Rightarrow> (wb_list \<times> nat) res" where
  "append_sendbuffer_to ss p addr wl =
     bindE (send_object_init ss p) (\<lambda>(bs, userobject).
     let buf = \<lparr>wb_buffer = p, wb_ptr = 0, wb_sz = length bs, wb_userobject = userobject, wb_udp_address = addr\<rparr> in
     if wl_head wl = [] then Inr (\<lparr>wl_head = [buf], wl_tail = True\<rparr>, wb_sz buf)
     else bindE (assertE (wl_tail wl)) (\<lambda>_. Inr (wl\<lparr>wl_head := wl_head wl @ [buf]\<rparr>, wb_sz buf)))"

text \<open>\<^verbatim>\<open>append_sendbuffer\<close>, \<^verbatim>\<open>append_sendbuffer_low\<close> and \<^verbatim>\<open>append_sendbuffer_udp\<close>.\<close>

definition append_sendbuffer :: "nat \<Rightarrow> priority \<Rightarrow> payload \<Rightarrow> u8 list option \<Rightarrow> socket_server \<Rightarrow> socket_server res" where
  "append_sendbuffer k pr p addr ss =
     bindE (append_sendbuffer_to ss p addr (get_list pr (ss_slot ss k))) (\<lambda>(wl, n).
     Inr (upd_slot k (\<lambda>s. set_list pr wl (s\<lparr>s_wb_size := s_wb_size s + int n\<rparr>)) ss))"

definition trigger_write :: "oscall \<Rightarrow> int \<Rightarrow> socket_server \<Rightarrow> (socket_server \<times> ret) res" where
  "trigger_write os sid ss =
     (let k = HASH_ID sid in
      if socket_invalid (ss_slot ss k) sid then Inr (ss, None)
      else let (ss, err) = enable_write os k True ss in
        Inr (ss, if err then report_error k (Text ''enable write failed'') ss else None))"

text \<open>The warning at the end of \<^verbatim>\<open>send_socket\<close>; the size is divided as a positive number.\<close>

definition send_warning :: "nat \<Rightarrow> socket_server \<Rightarrow> socket_server \<times> ret" where
  "send_warning k ss =
     (let s = ss_slot ss k in
      if s_wb_size s \<ge> WARNING_SIZE \<and> s_wb_size s \<ge> s_warn_size s
      then (upd_slot k (\<lambda>s. s\<lparr>s_warn_size := (if s_warn_size s = 0 then WARNING_SIZE * 2 else s_warn_size s * 2)\<rparr>) ss,
        Some (SOCKET_WARNING, \<lparr>m_id = s_id s, m_opaque = s_opaque s,
          m_ud = (if s_wb_size s mod 1024 = 0 then s_wb_size s div 1024 else s_wb_size s div 1024 + 1),
          m_data = No_data\<rparr>))
      else (ss, None))"

definition send_socket :: "oscall \<Rightarrow> int \<Rightarrow> payload \<Rightarrow> priority \<Rightarrow> u8 list option \<Rightarrow> socket_server
    \<Rightarrow> (socket_server \<times> ret) res" where
  "send_socket os sid p pr udp_address ss =
     (let k = HASH_ID sid; s = ss_slot ss k; type = s_type s in
      bindE (send_object_init ss p) (\<lambda>(bs, userobject).
      if type = SOCKET_TYPE_INVALID \<or> s_id s \<noteq> sid \<or> type = SOCKET_TYPE_HALFCLOSE_WRITE
        \<or> type = SOCKET_TYPE_PACCEPT \<or> s_closing s
      then bindE (free_payload p ss) (\<lambda>ss. Inr (ss, None))
      else if type = SOCKET_TYPE_PLISTEN \<or> type = SOCKET_TYPE_LISTEN
      then bindE (free_payload p (do_sys os (Sys_log ''write to listen fd'') ss)) (\<lambda>ss. Inr (ss, None))
      else
        let addr = (case udp_address of None \<Rightarrow> s_udp_address s | Some a \<Rightarrow> a);
            start = (\<lambda>ss. let (ss, err) = enable_write os k True ss in
              if err then Inr (ss, report_error k (Text ''enable write failed'') ss) else Inr (send_warning k ss))
        in if send_buffer_empty s then
             if s_protocol s = PROTOCOL_TCP
             then bindE (append_sendbuffer k PRIORITY_HIGH p None ss) start
             else
               case udp_socket_address s addr of
                 None \<Rightarrow> bindE (free_payload p (do_sys os (Sys_log ''udp socket type mismatch'') ss)) (\<lambda>ss. Inr (ss, None))
               | Some sa \<Rightarrow>
                   let (ss, r) = sys os (Sys_sendto (s_fd s) bs sa) ss in
                   if sr_n r \<noteq> int (length bs)
                   then bindE (append_sendbuffer k pr p (Some addr) ss) start
                   else bindE (free_payload p (stat_write k (sr_n r) ss)) (\<lambda>ss. Inr (ss, None))
           else if s_protocol s = PROTOCOL_TCP
           then bindE (append_sendbuffer k pr p None ss) (\<lambda>ss. Inr (send_warning k ss))
           else bindE (append_sendbuffer k pr p (Some addr) ss) (\<lambda>ss. Inr (send_warning k ss))))"

section \<open>Commands\<close>

definition listen_socket :: "oscall \<Rightarrow> int \<Rightarrow> int \<Rightarrow> u64 \<Rightarrow> socket_server \<Rightarrow> (socket_server \<times> ret) res" where
  "listen_socket os sid listen_fd opaque ss =
     bindE (new_fd os sid listen_fd PROTOCOL_TCP opaque False ss) (\<lambda>(ss, ok).
     if ok then Inr (set_type (HASH_ID sid) SOCKET_TYPE_PLISTEN ss, None)
     else Inr (set_type (HASH_ID sid) SOCKET_TYPE_INVALID (do_sys os (Sys_close listen_fd) ss),
       Some (SOCKET_ERR, \<lparr>m_id = sid, m_opaque = opaque, m_ud = 0, m_data = Text ''reach skynet socket number limit''\<rparr>)))"

definition nomore_sending_data :: "socket \<Rightarrow> bool" where
  "nomore_sending_data s \<longleftrightarrow> send_buffer_empty s \<and> s_dw_buffer s = None \<and> s_sending s mod 65536 = 0
     \<or> s_type s = SOCKET_TYPE_HALFCLOSE_WRITE"

definition close_read :: "oscall \<Rightarrow> nat \<Rightarrow> socket_server \<Rightarrow> socket_server \<times> socket_message" where
  "close_read os k ss =
     (let (ss, err) = enable_read os k False (set_type k SOCKET_TYPE_HALFCLOSE_READ ss);
          s = ss_slot ss k
      in (do_sys os (Sys_shutdown_rd (s_fd s)) ss,
          \<lparr>m_id = s_id s, m_opaque = s_opaque s, m_ud = 0, m_data = No_data\<rparr>))"

definition halfclose_read :: "socket \<Rightarrow> bool" where
  "halfclose_read s \<longleftrightarrow> s_type s = SOCKET_TYPE_HALFCLOSE_READ"

definition close_socket :: "oscall \<Rightarrow> int \<Rightarrow> bool \<Rightarrow> socket_server \<Rightarrow> (socket_server \<times> ret) res" where
  "close_socket os sid shutdown ss =
     (let k = HASH_ID sid; s = ss_slot ss k in
      if socket_invalid s sid then Inr (ss, None)
      else
        let shutdown_read = halfclose_read s in
        if shutdown \<or> nomore_sending_data s
        then bindE (force_close os k 0 ss) (\<lambda>(ss, l, result).
          Inr (ss, if shutdown_read then None else Some (SOCKET_CLOSE, result)))
        else
          let ss = upd_slot k (\<lambda>s. s\<lparr>s_closing := True\<rparr>) ss in
          if \<not> shutdown_read then let (ss, result) = close_read os k ss in Inr (ss, Some (SOCKET_CLOSE, result))
          else Inr (ss, None))"

definition bind_socket :: "oscall \<Rightarrow> int \<Rightarrow> int \<Rightarrow> u64 \<Rightarrow> socket_server \<Rightarrow> (socket_server \<times> ret) res" where
  "bind_socket os sid fd opaque ss =
     (let result = \<lparr>m_id = sid, m_opaque = opaque, m_ud = 0, m_data = No_data\<rparr> in
      bindE (new_fd os sid fd PROTOCOL_TCP opaque True ss) (\<lambda>(ss, ok).
      if ok then Inr (set_type (HASH_ID sid) SOCKET_TYPE_BIND (do_sys os (Sp_nonblocking fd) ss),
        Some (SOCKET_OPEN, result\<lparr>m_data := Text ''binding''\<rparr>))
      else Inr (ss, Some (SOCKET_ERR, result\<lparr>m_data := Text ''reach skynet socket number limit''\<rparr>))))"

definition resume_socket :: "oscall \<Rightarrow> int \<Rightarrow> u64 \<Rightarrow> socket_server \<Rightarrow> socket_server \<times> ret" where
  "resume_socket os sid opaque ss =
     (let k = HASH_ID sid; s = ss_slot ss k;
          result = (\<lambda>t. \<lparr>m_id = sid, m_opaque = opaque, m_ud = 0, m_data = Text t\<rparr>)
      in if socket_invalid s sid then (ss, Some (SOCKET_ERR, result ''invalid socket''))
         else if halfclose_read s then (ss, Some (SOCKET_ERR, result ''socket closed''))
         else
           let (ss, err) = enable_read os k True ss; type = s_type (ss_slot ss k) in
           if err then (ss, Some (SOCKET_ERR, result ''enable read failed''))
           else if type = SOCKET_TYPE_PACCEPT \<or> type = SOCKET_TYPE_PLISTEN
           then (upd_slot k (\<lambda>s. s\<lparr>s_type := (if type = SOCKET_TYPE_PACCEPT then SOCKET_TYPE_CONNECTED else SOCKET_TYPE_LISTEN),
                   s_opaque := opaque\<rparr>) ss, Some (SOCKET_OPEN, result ''start''))
           else if type = SOCKET_TYPE_CONNECTED
           then (upd_slot k (\<lambda>s. s\<lparr>s_opaque := opaque\<rparr>) ss, Some (SOCKET_OPEN, result ''transfer''))
           else (ss, None))"

definition pause_socket :: "oscall \<Rightarrow> int \<Rightarrow> socket_server \<Rightarrow> socket_server \<times> ret" where
  "pause_socket os sid ss =
     (let k = HASH_ID sid in
      if socket_invalid (ss_slot ss k) sid then (ss, None)
      else let (ss, err) = enable_read os k False ss in
        (ss, if err then report_error k (Text ''enable read failed'') ss else None))"

definition setopt_socket :: "oscall \<Rightarrow> int \<Rightarrow> string \<Rightarrow> int \<Rightarrow> socket_server \<Rightarrow> socket_server" where
  "setopt_socket os sid what v ss =
     (let s = ss_slot ss (HASH_ID sid) in
      if socket_invalid s sid then ss else do_sys os (Sys_setsockopt (s_fd s) what v) ss)"

definition has_cmd :: "socket_server \<Rightarrow> bool" where
  "has_cmd ss \<longleftrightarrow> ss_pipe ss \<noteq> []"

definition add_udp_socket :: "oscall \<Rightarrow> int \<Rightarrow> int \<Rightarrow> family \<Rightarrow> u64 \<Rightarrow> socket_server \<Rightarrow> socket_server res" where
  "add_udp_socket os sid fd fam opaque ss =
     (let proto = (if fam = AF_INET6 then PROTOCOL_UDPv6 else PROTOCOL_UDP); k = HASH_ID sid in
      bindE (new_fd os sid fd proto opaque True ss) (\<lambda>(ss, ok).
      if ok then Inr (upd_slot k (\<lambda>s. s\<lparr>s_type := SOCKET_TYPE_CONNECTED,
        s_udp_address := replicate UDP_ADDRESS_SIZE 0\<rparr>) ss)
      else Inr (set_type k SOCKET_TYPE_INVALID (do_sys os (Sys_close fd) ss))))"

definition set_udp_address :: "int \<Rightarrow> u8 list \<Rightarrow> socket_server \<Rightarrow> socket_server \<times> ret" where
  "set_udp_address sid addr ss =
     (let k = HASH_ID sid; s = ss_slot ss k in
      if socket_invalid s sid then (ss, None)
      else if addr ! 0 \<noteq> protocol_byte (s_protocol s) then (ss, report_error k (Text ''protocol mismatch'') ss)
      else
        let n = (if addr ! 0 = protocol_byte PROTOCOL_UDP then 1 + 2 + 4 else 1 + 2 + 16) in
        (set_slot k (s\<lparr>s_udp_address := take n addr @ drop n (s_udp_address s),
           s_udpconnecting := s_udpconnecting s - 1\<rparr>) ss, None))"

text \<open>With a full count the caller waits until the socket thread decreases it.\<close>

definition inc_sending_ref :: "nat \<Rightarrow> int \<Rightarrow> socket_server \<Rightarrow> socket_server res" where
  "inc_sending_ref k sid ss =
     (let s = ss_slot ss k in
      if s_protocol s \<noteq> PROTOCOL_TCP then Inr ss
      else if s_sending s div 65536 = ID_TAG16 sid
      then if s_sending s mod 65536 = 0xffff then Inl Diverges
           else Inr (set_slot k (s\<lparr>s_sending := s_sending s + 1\<rparr>) ss)
      else Inr ss)"

definition dec_sending_ref :: "int \<Rightarrow> socket_server \<Rightarrow> socket_server res" where
  "dec_sending_ref sid ss =
     (let k = HASH_ID sid; s = ss_slot ss k in
      if s_id s = sid \<and> s_protocol s = PROTOCOL_TCP
      then bindE (assertE (s_sending s mod 65536 \<noteq> 0)) (\<lambda>_. Inr (set_slot k (s\<lparr>s_sending := s_sending s - 1\<rparr>) ss))
      else Inr ss)"

definition run_request :: "oscall \<Rightarrow> request \<Rightarrow> socket_server \<Rightarrow> (socket_server \<times> ret) res" where
  "run_request os req ss =
     (case req of
        Req_resume sid opaque \<Rightarrow> Inr (resume_socket os sid opaque ss)
      | Req_pause sid opaque \<Rightarrow> Inr (pause_socket os sid ss)
      | Req_bind sid fd opaque \<Rightarrow> bind_socket os sid fd opaque ss
      | Req_listen sid fd opaque \<Rightarrow> listen_socket os sid fd opaque ss
      | Req_close sid shutdown opaque \<Rightarrow> close_socket os sid shutdown ss
      | Req_open sid port opaque host \<Rightarrow> open_socket os sid port opaque host ss
      | Req_exit \<Rightarrow> Inr (ss, Some (SOCKET_EXIT, \<lparr>m_id = 0, m_opaque = 0, m_ud = 0, m_data = No_data\<rparr>))
      | Req_trigger sid \<Rightarrow> trigger_write os sid ss
      | Req_send pr sid p \<Rightarrow>
          bindE (send_socket os sid p pr None ss) (\<lambda>(ss, ret).
          bindE (dec_sending_ref sid ss) (\<lambda>ss. Inr (ss, ret)))
      | Req_send_udp sid p addr \<Rightarrow> send_socket os sid p PRIORITY_HIGH (Some addr) ss
      | Req_set_udp sid addr \<Rightarrow> Inr (set_udp_address sid addr ss)
      | Req_setopt sid what v \<Rightarrow> Inr (setopt_socket os sid what v ss, None)
      | Req_udp sid fd fam opaque \<Rightarrow> bindE (add_udp_socket os sid fd fam opaque ss) (\<lambda>ss. Inr (ss, None)))"

text \<open>Only called when the pipe is not empty; otherwise the read would block.\<close>

definition ctrl_cmd :: "oscall \<Rightarrow> socket_server \<Rightarrow> (socket_server \<times> ret) res" where
  "ctrl_cmd os ss =
     (case ss_pipe ss of [] \<Rightarrow> Inl Diverges
      | req # reqs \<Rightarrow> run_request os req (ss\<lparr>ss_pipe := reqs\<rparr>))"

section \<open>Receiving\<close>

definition forward_message_tcp :: "oscall \<Rightarrow> nat \<Rightarrow> nat \<Rightarrow> socket_server \<Rightarrow> (socket_server \<times> nat \<times> ret) res" where
  "forward_message_tcp os k l ss =
     (let s = ss_slot ss k; sz = s_size s;
          (ss, r) = sys os (Sys_read (s_fd s) sz) ss; n = sr_n r
      in if n < 0
         then Inr (ss, l, if sr_errno r = EINTR \<or> sr_errno r = EAGAIN then None else report_error k (Strerror (sr_errno r)) ss)
         else if n = 0 then
           if s_closing s then
             if nomore_sending_data s
             then bindE (force_close os k l ss) (\<lambda>(ss, l, result). Inr (ss, l, None))
             else Inr (ss, l, None)
           else if s_type s = SOCKET_TYPE_HALFCLOSE_READ then Inr (ss, l, None)
           else if s_type s = SOCKET_TYPE_HALFCLOSE_WRITE
           then bindE (force_close os k l ss) (\<lambda>(ss, l, result). Inr (ss, l, Some (SOCKET_CLOSE, result)))
           else let (ss, result) = close_read os k ss in Inr (ss, l, Some (SOCKET_CLOSE, result))
         else if halfclose_read s then Inr (ss, l, None)
         else
           let ss = stat_read k n ss;
               result = \<lparr>m_id = s_id s, m_opaque = s_opaque s, m_ud = n, m_data = Data (sr_data r)\<rparr>
           in if n = sz then Inr (upd_slot k (\<lambda>s. s\<lparr>s_size := wrap32 (s_size s * 2)\<rparr>) ss, l, Some (SOCKET_MORE, result))
              else if sz > MIN_READ_BUFFER \<and> n * 2 < sz
              then Inr (upd_slot k (\<lambda>s. s\<lparr>s_size := s_size s div 2\<rparr>) ss, l, Some (SOCKET_DATA, result))
              else Inr (ss, l, Some (SOCKET_DATA, result)))"

definition gen_udp_address :: "protocol \<Rightarrow> u8 list \<Rightarrow> u8 list" where
  "gen_udp_address proto sa = protocol_byte proto # take (if proto = PROTOCOL_UDP then 6 else 18) sa"

text \<open>The length of the address tells IPv4 from IPv6. The address follows the data.\<close>

definition forward_message_udp :: "oscall \<Rightarrow> nat \<Rightarrow> nat \<Rightarrow> socket_server \<Rightarrow> (socket_server \<times> nat \<times> ret) res" where
  "forward_message_udp os k l ss =
     (let s = ss_slot ss k; (ss, r) = sys os (Sys_recvfrom (s_fd s)) ss; n = sr_n r in
      if n < 0
      then if sr_errno r = EINTR \<or> sr_errno r = EAGAIN then Inr (ss, l, None)
           else bindE (force_close os k l ss) (\<lambda>(ss, l, result).
             Inr (ss, l, Some (SOCKET_ERR, result\<lparr>m_data := Strerror (sr_errno r)\<rparr>)))
      else
        let ss = stat_read k n ss; proto = (if length (sr_addr r) = 6 then PROTOCOL_UDP else PROTOCOL_UDPv6) in
        if s_protocol s \<noteq> proto then Inr (ss, l, None)
        else Inr (ss, l, Some (SOCKET_UDP, \<lparr>m_id = s_id s, m_opaque = s_opaque s, m_ud = n,
          m_data = Data (sr_data r @ gen_udp_address proto (sr_addr r))\<rparr>)))"

definition report_connect :: "oscall \<Rightarrow> nat \<Rightarrow> nat \<Rightarrow> socket_server \<Rightarrow> (socket_server \<times> nat \<times> ret) res" where
  "report_connect os k l ss =
     (let (ss, r) = sys os (Sys_getsockopt_error (s_fd (ss_slot ss k))) ss in
      if sr_n r < 0 \<or> sr_sockerr r \<noteq> None
      then bindE (force_close os k l ss) (\<lambda>(ss, l, result). Inr (ss, l, Some (SOCKET_ERR, result\<lparr>m_data :=
        Strerror (if sr_n r < 0 then sr_errno r else the (sr_sockerr r))\<rparr>)))
      else
        let ss = set_type k SOCKET_TYPE_CONNECTED ss; s = ss_slot ss k;
            result = \<lparr>m_id = s_id s, m_opaque = s_opaque s, m_ud = 0, m_data = No_data\<rparr>;
            (ss, err) = (if nomore_sending_data s then enable_write os k False ss else (ss, False))
        in if err
           then bindE (force_close os k l ss) (\<lambda>(ss, l, result).
             Inr (ss, l, Some (SOCKET_ERR, result\<lparr>m_data := Text ''disable write failed''\<rparr>)))
           else
             let (ss, p) = sys os (Sys_getpeername (s_fd s)) ss in
             Inr (ss, l, Some (SOCKET_OPEN, case sr_text p of
                 Some name \<Rightarrow> if sr_n p = 0 then result\<lparr>m_data := Text name\<rparr> else result
               | None \<Rightarrow> result)))"

text \<open>The result is a message, nothing (0) or the message of an error (-1).\<close>

definition report_accept :: "oscall \<Rightarrow> nat \<Rightarrow> socket_server \<Rightarrow> (socket_server \<times> ret) res" where
  "report_accept os k ss =
     (let s = ss_slot ss k; (ss, r) = sys os (Sys_accept (s_fd s)) ss; client_fd = sr_n r;
          result = \<lparr>m_id = s_id s, m_opaque = s_opaque s, m_ud = 0, m_data = No_data\<rparr>
      in if client_fd < 0
         then Inr (ss, if sr_errno r = EMFILE \<or> sr_errno r = ENFILE
                then Some (SOCKET_ERR, result\<lparr>m_data := Strerror (sr_errno r)\<rparr>) else None)
         else
           let (ss, sid) = reserve_id ss in
           if sid < 0 then Inr (do_sys os (Sys_close client_fd) ss, None)
           else
             let ss = do_sys os (Sp_nonblocking client_fd) (socket_keepalive os client_fd ss) in
             bindE (new_fd os sid client_fd PROTOCOL_TCP (s_opaque s) False ss) (\<lambda>(ss, ok).
             if \<not> ok then Inr (do_sys os (Sys_close client_fd) ss, None)
             else
               let ss = set_type (HASH_ID sid) SOCKET_TYPE_PACCEPT (stat_read k 1 ss) in
               Inr (ss, Some (SOCKET_ACCEPT, result\<lparr>m_ud := sid,
                 m_data := (case sr_text r of None \<Rightarrow> No_data | Some t \<Rightarrow> Text t)\<rparr>))))"

section \<open>The loop of the socket thread\<close>

fun clear_event :: "socket_server \<Rightarrow> int \<Rightarrow> event list \<Rightarrow> event list" where
  "clear_event ss sid [] = []"
| "clear_event ss sid (e # es) =
     (case e_s e of
        Some k \<Rightarrow>
          if socket_invalid (ss_slot ss k) sid \<and> s_id (ss_slot ss k) = sid
          then e\<lparr>e_s := None\<rparr> # es else e # clear_event ss sid es
      | None \<Rightarrow> e # clear_event ss sid es)"

definition clear_closed_event :: "socket_event \<Rightarrow> socket_message \<Rightarrow> socket_server \<Rightarrow> socket_server" where
  "clear_closed_event type result ss =
     (if type = SOCKET_CLOSE \<or> type = SOCKET_ERR
      then ss\<lparr>ss_ev := take (ss_event_index ss) (ss_ev ss)
             @ clear_event ss (m_id result) (take (ss_event_n ss - ss_event_index ss) (drop (ss_event_index ss) (ss_ev ss)))
             @ drop (ss_event_n ss) (ss_ev ss)\<rparr>
      else ss)"

text \<open>Handling one event; \<open>e\<close> is the event at index \<^verbatim>\<open>event_index\<close> - 1.\<close>

definition again :: "socket_server \<Rightarrow> socket_server" where
  "again ss = ss\<lparr>ss_event_index := ss_event_index ss - 1\<rparr>"

definition on_event :: "oscall \<Rightarrow> event \<Rightarrow> nat \<Rightarrow> socket_server \<Rightarrow> (socket_server \<times> ret) res" where
  "on_event os e k ss =
     (if e_read e then
        bindE (if s_protocol (ss_slot ss k) = PROTOCOL_TCP then forward_message_tcp os k 0 ss
               else forward_message_udp os k 0 ss) (\<lambda>(ss, l, ret).
        case ret of
          Some (SOCKET_MORE, m) \<Rightarrow> Inr (again ss, Some (SOCKET_DATA, m))
        | Some (SOCKET_UDP, m) \<Rightarrow> Inr (again ss, Some (SOCKET_UDP, m))
        | _ \<Rightarrow>
            let closed = (case ret of Some (t, _) \<Rightarrow> t = SOCKET_CLOSE \<or> t = SOCKET_ERR | None \<Rightarrow> False) in
            if e_write e \<and> \<not> closed
            then Inr (again (ss\<lparr>ss_ev := (ss_ev ss)[ss_event_index ss - 1 := e\<lparr>e_read := False\<rparr>]\<rparr>), ret)
            else Inr (ss, ret))
      else if e_write e then bindE (send_buffer os k 0 ss) (\<lambda>(ss, l, ret). Inr (ss, ret))
      else if e_error e then
        let (ss, r) = sys os (Sys_getsockopt_error (s_fd (ss_slot ss k))) ss in
        Inr (ss, report_error k (if sr_n r < 0 then Strerror (sr_errno r)
          else case sr_sockerr r of Some err \<Rightarrow> Strerror err | None \<Rightarrow> Text ''Unknown error'') ss)
      else if e_eof e then
        let halfclose = halfclose_read (ss_slot ss k) in
        bindE (force_close os k 0 ss) (\<lambda>(ss, l, result).
        Inr (ss, if halfclose then None else Some (SOCKET_CLOSE, result)))
      else Inr (ss, None))"

definition dispatch_event :: "oscall \<Rightarrow> socket_server \<Rightarrow> (socket_server \<times> ret) res" where
  "dispatch_event os ss =
     bindE (nthE (ss_ev ss) (ss_event_index ss)) (\<lambda>e.
     let ss = ss\<lparr>ss_event_index := ss_event_index ss + 1\<rparr> in
     case e_s e of None \<Rightarrow> Inr (ss, None)
     | Some k \<Rightarrow>
         (case s_type (ss_slot ss k) of
            SOCKET_TYPE_CONNECTING \<Rightarrow> bindE (report_connect os k 0 ss) (\<lambda>(ss, l, ret). Inr (ss, ret))
          | SOCKET_TYPE_LISTEN \<Rightarrow> report_accept os k ss
          | SOCKET_TYPE_INVALID \<Rightarrow> Inr (do_sys os (Sys_log ''invalid socket'') ss, None)
          | _ \<Rightarrow> on_event os e k ss))"

text \<open>
  One round of the loop: the result is the message to return, if any, and whether the thread waited
  for events (\<^verbatim>\<open>*more = 0\<close>).
\<close>

definition poll_round :: "oscall \<Rightarrow> socket_server \<Rightarrow> (socket_server \<times> ret \<times> bool) res" where
  "poll_round os ss =
     (if ss_checkctrl ss \<and> has_cmd ss
      then bindE (ctrl_cmd os ss) (\<lambda>(ss, ret).
        Inr (case ret of Some (type, result) \<Rightarrow> clear_closed_event type result ss | None \<Rightarrow> ss, ret, False))
      else
        let ss = ss\<lparr>ss_checkctrl := False\<rparr> in
        if ss_event_index ss = ss_event_n ss
        then
          let (ss, r) = sys os Sp_wait ss;
              ss = ss\<lparr>ss_event_n := length (sr_events r), ss_ev := sr_events r, ss_checkctrl := True, ss_event_index := 0\<rparr>
          in if sr_n r \<le> 0
             then Inr (let ss = ss\<lparr>ss_event_n := 0, ss_ev := []\<rparr> in
                  if sr_errno r \<noteq> EINTR then do_sys os (Sys_log ''poll error'') ss else ss, None, True)
             else bindE (dispatch_event os ss) (\<lambda>(ss, ret). Inr (ss, ret, True))
        else bindE (dispatch_event os ss) (\<lambda>(ss, ret). Inr (ss, ret, False)))"

partial_function (option) socket_server_poll :: "oscall \<Rightarrow> bool \<Rightarrow> socket_server
    \<Rightarrow> (socket_server \<times> socket_event \<times> socket_message \<times> bool) res option" where
  "socket_server_poll os m ss =
     (case poll_round os ss of
        Inl e \<Rightarrow> Some (Inl e)
      | Inr (ss, ret, waited) \<Rightarrow>
          let m = m \<and> \<not> waited in
          (case ret of Some (type, result) \<Rightarrow> Some (Inr (ss, type, result, m))
           | None \<Rightarrow> socket_server_poll os m ss))"

section \<open>Requests of the workers\<close>

definition send_request :: "request \<Rightarrow> socket_server \<Rightarrow> socket_server" where
  "send_request req ss = ss\<lparr>ss_pipe := ss_pipe ss @ [req]\<rparr>"

text \<open>An address is refused when it does not fit a request of 255 bytes; the structure has 24.\<close>

definition open_request :: "oscall \<Rightarrow> string \<Rightarrow> socket_server \<Rightarrow> socket_server \<times> int" where
  "open_request os addr ss =
     (if length addr + 24 \<ge> 256 then (do_sys os (Sys_log ''Invalid addr'') ss, -1) else reserve_id ss)"

definition socket_server_connect :: "oscall \<Rightarrow> u64 \<Rightarrow> string \<Rightarrow> int \<Rightarrow> socket_server \<Rightarrow> socket_server \<times> int" where
  "socket_server_connect os opaque addr port ss =
     (let (ss, sid) = open_request os addr ss in
      if sid < 0 then (ss, -1) else (send_request (Req_open sid port opaque addr) ss, sid))"

definition can_direct_write :: "socket \<Rightarrow> int \<Rightarrow> bool" where
  "can_direct_write s sid \<longleftrightarrow> s_id s = sid \<and> nomore_sending_data s \<and> s_type s = SOCKET_TYPE_CONNECTED
     \<and> s_udpconnecting s = 0"

text \<open>Sending through the pipe, with the reference that keeps later sends from overtaking.\<close>

definition send_by_pipe :: "priority \<Rightarrow> socket_sendbuffer \<Rightarrow> socket_server \<Rightarrow> (socket_server \<times> int) res" where
  "send_by_pipe pr buf ss =
     bindE (inc_sending_ref (HASH_ID (sb_id buf)) (sb_id buf) ss) (\<lambda>ss.
     Inr (send_request (Req_send pr (sb_id buf) (clone_buffer buf)) ss, 0))"

text \<open>
  The condition for writing directly is checked before and again after taking the lock; a call being
  one step, the second check gives the same as the first.
\<close>

definition socket_server_send :: "oscall \<Rightarrow> socket_sendbuffer \<Rightarrow> socket_server \<Rightarrow> (socket_server \<times> int) res" where
  "socket_server_send os buf ss =
     (let sid = sb_id buf; k = HASH_ID sid; s = ss_slot ss k in
      if socket_invalid s sid \<or> s_closing s
      then bindE (free_buffer buf ss) (\<lambda>ss. Inr (ss, -1))
      else case (if can_direct_write s sid then socket_trylock k 0 ss else None) of
          None \<Rightarrow> send_by_pipe PRIORITY_HIGH buf ss
        | Some (ss, l) \<Rightarrow>
            bindE (send_object_init_from_sendbuffer ss buf) (\<lambda>bs.
            let finish = (\<lambda>(ss, r).
              let n = max 0 (sr_n r); ss = stat_write k n ss in
              if n = int (length bs)
              then bindE (socket_unlock k l ss) (\<lambda>(ss, l). bindE (free_buffer buf ss) (\<lambda>ss. Inr (ss, 0)))
              else
                let ss = upd_slot k (\<lambda>s. s\<lparr>s_dw_buffer := Some (clone_buffer buf), s_dw_offset := nat n\<rparr>) ss in
                bindE (socket_unlock k l ss) (\<lambda>(ss, l).
                bindE (inc_sending_ref k sid ss) (\<lambda>ss. Inr (send_request (Req_trigger sid) ss, 0))))
            in if s_protocol s = PROTOCOL_TCP then finish (sys os (Sys_write (s_fd s) bs) ss)
               else case udp_socket_address s (s_udp_address s) of
                   None \<Rightarrow>
                     bindE (socket_unlock k l (do_sys os (Sys_log ''set udp address first'') ss)) (\<lambda>(ss, l).
                     bindE (free_buffer buf ss) (\<lambda>ss. Inr (ss, -1)))
                 | Some sa \<Rightarrow> finish (sys os (Sys_sendto (s_fd s) bs sa) ss)))"

definition socket_server_send_lowpriority :: "socket_sendbuffer \<Rightarrow> socket_server \<Rightarrow> (socket_server \<times> int) res" where
  "socket_server_send_lowpriority buf ss =
     (if socket_invalid (ss_slot ss (HASH_ID (sb_id buf))) (sb_id buf)
      then bindE (free_buffer buf ss) (\<lambda>ss. Inr (ss, -1))
      else send_by_pipe PRIORITY_LOW buf ss)"

definition socket_server_exit :: "socket_server \<Rightarrow> socket_server" where
  "socket_server_exit ss = send_request Req_exit ss"

definition socket_server_close :: "u64 \<Rightarrow> int \<Rightarrow> socket_server \<Rightarrow> socket_server" where
  "socket_server_close opaque sid ss = send_request (Req_close sid False opaque) ss"

definition socket_server_shutdown :: "u64 \<Rightarrow> int \<Rightarrow> socket_server \<Rightarrow> socket_server" where
  "socket_server_shutdown opaque sid ss = send_request (Req_close sid True opaque) ss"

text \<open>The descriptor and the family, or None on failure.\<close>

definition do_bind :: "oscall \<Rightarrow> string \<Rightarrow> int \<Rightarrow> bool \<Rightarrow> socket_server \<Rightarrow> socket_server \<times> (int \<times> family) option" where
  "do_bind os host port tcp ss =
     (let host = (if host = [] then ''0.0.0.0'' else host);
          (ss, ai) = sys os (Sys_getaddrinfo host port tcp) ss
      in case (if sr_n ai \<noteq> 0 then [] else sr_addrs ai) of
           [] \<Rightarrow> (ss, None)
         | (fam, addr) # _ \<Rightarrow>
             let (ss, r) = sys os (Sys_socket fam tcp) ss; fd = sr_n r in
             if fd < 0 then (ss, None)
             else
               let (ss, opt) = sys os (Sys_setsockopt fd ''SO_REUSEADDR'' 1) ss in
               if sr_n opt = -1 then (do_sys os (Sys_close fd) ss, None)
               else
                 let (ss, b) = sys os (Sys_bind fd addr) ss in
                 if sr_n b \<noteq> 0 then (do_sys os (Sys_close fd) ss, None) else (ss, Some (fd, fam)))"

definition do_listen :: "oscall \<Rightarrow> string \<Rightarrow> int \<Rightarrow> int \<Rightarrow> socket_server \<Rightarrow> socket_server \<times> int" where
  "do_listen os host port backlog ss =
     (let (ss, b) = do_bind os host port True ss in
      case b of None \<Rightarrow> (ss, -1)
      | Some (listen_fd, fam) \<Rightarrow>
          let (ss, r) = sys os (Sys_listen listen_fd backlog) ss in
          if sr_n r = -1 then (do_sys os (Sys_close listen_fd) ss, -1) else (ss, listen_fd))"

definition socket_server_listen :: "oscall \<Rightarrow> u64 \<Rightarrow> string \<Rightarrow> int \<Rightarrow> int \<Rightarrow> socket_server \<Rightarrow> socket_server \<times> int" where
  "socket_server_listen os opaque addr port backlog ss =
     (let (ss, fd) = do_listen os addr port backlog ss in
      if fd < 0 then (ss, -1)
      else
        let (ss, sid) = reserve_id ss in
        if sid < 0 then (do_sys os (Sys_close fd) ss, sid)
        else (send_request (Req_listen sid fd opaque) ss, sid))"

definition socket_server_bind :: "u64 \<Rightarrow> int \<Rightarrow> socket_server \<Rightarrow> socket_server \<times> int" where
  "socket_server_bind opaque fd ss =
     (let (ss, sid) = reserve_id ss in
      if sid < 0 then (ss, -1) else (send_request (Req_bind sid fd opaque) ss, sid))"

definition socket_server_start :: "u64 \<Rightarrow> int \<Rightarrow> socket_server \<Rightarrow> socket_server" where
  "socket_server_start opaque sid ss = send_request (Req_resume sid opaque) ss"

definition socket_server_pause :: "u64 \<Rightarrow> int \<Rightarrow> socket_server \<Rightarrow> socket_server" where
  "socket_server_pause opaque sid ss = send_request (Req_pause sid opaque) ss"

definition socket_server_nodelay :: "int \<Rightarrow> socket_server \<Rightarrow> socket_server" where
  "socket_server_nodelay sid ss = send_request (Req_setopt sid ''TCP_NODELAY'' 1) ss"

definition socket_server_userobject :: "socket_server \<Rightarrow> socket_server" where
  "socket_server_userobject ss = ss\<lparr>ss_soi := True\<rparr>"

text \<open>The address is None for NULL.\<close>

definition socket_server_udp :: "oscall \<Rightarrow> u64 \<Rightarrow> string option \<Rightarrow> int \<Rightarrow> socket_server \<Rightarrow> socket_server \<times> int" where
  "socket_server_udp os opaque addr port ss =
     (let (ss, f) = (if port \<noteq> 0 \<or> addr \<noteq> None
            then do_bind os (case addr of None \<Rightarrow> [] | Some a \<Rightarrow> a) port False ss
            else let (ss, r) = sys os (Sys_socket AF_INET False) ss in
              (ss, if sr_n r < 0 then None else Some (sr_n r, AF_INET)))
      in case f of None \<Rightarrow> (ss, -1)
         | Some (fd, fam) \<Rightarrow>
             if fd < 0 then (ss, -1)
             else
               let ss = do_sys os (Sp_nonblocking fd) ss; (ss, sid) = reserve_id ss in
               if sid < 0 then (do_sys os (Sys_close fd) ss, -1)
               else (send_request (Req_udp sid fd fam opaque) ss, sid))"

definition socket_server_udp_send :: "oscall \<Rightarrow> u8 list \<Rightarrow> socket_sendbuffer \<Rightarrow> socket_server \<Rightarrow> (socket_server \<times> int) res" where
  "socket_server_udp_send os addr buf ss =
     (let sid = sb_id buf; k = HASH_ID sid; s = ss_slot ss k;
          pipe = (\<lambda>ss. Inr (send_request (Req_send_udp sid (clone_buffer buf)
            (take (if addr ! 0 = protocol_byte PROTOCOL_UDP then 1 + 2 + 4 else 1 + 2 + 16) addr)) ss, 0))
      in if socket_invalid s sid \<or> addr ! 0 \<noteq> protocol_byte PROTOCOL_UDP \<and> addr ! 0 \<noteq> protocol_byte PROTOCOL_UDPv6
         then bindE (free_buffer buf ss) (\<lambda>ss. Inr (ss, -1))
         else case (if can_direct_write s sid then socket_trylock k 0 ss else None) of
             None \<Rightarrow> pipe ss
           | Some (ss, l) \<Rightarrow>
               bindE (send_object_init_from_sendbuffer ss buf) (\<lambda>bs.
               case udp_socket_address s addr of
                 None \<Rightarrow> bindE (socket_unlock k l ss) (\<lambda>(ss, l). bindE (free_buffer buf ss) (\<lambda>ss. Inr (ss, -1)))
               | Some sa \<Rightarrow>
                   let (ss, r) = sys os (Sys_sendto (s_fd s) bs sa) ss in
                   if sr_n r \<ge> 0
                   then bindE (socket_unlock k l (stat_write k (sr_n r) ss)) (\<lambda>(ss, l).
                     bindE (free_buffer buf ss) (\<lambda>ss. Inr (ss, 0)))
                   else bindE (socket_unlock k l ss) (\<lambda>(ss, l). pipe ss)))"

definition socket_server_udp_connect :: "oscall \<Rightarrow> int \<Rightarrow> string \<Rightarrow> int \<Rightarrow> socket_server \<Rightarrow> (socket_server \<times> int) res" where
  "socket_server_udp_connect os sid addr port ss =
     (let k = HASH_ID sid in
      if socket_invalid (ss_slot ss k) sid then Inr (ss, -1)
      else
        bindE (socket_lock k 0 ss) (\<lambda>(ss, l).
        let ss = upd_slot k (\<lambda>s. s\<lparr>s_udpconnecting := s_udpconnecting s + 1\<rparr>) ss in
        bindE (socket_unlock k l ss) (\<lambda>(ss, l).
        let (ss, ai) = sys os (Sys_getaddrinfo addr port False) ss in
        case (if sr_n ai \<noteq> 0 then [] else sr_addrs ai) of
          [] \<Rightarrow> Inr (ss, -1)
        | (fam, sa) # _ \<Rightarrow>
            (case fam of
               AF_INET \<Rightarrow> Inr (send_request (Req_set_udp sid (gen_udp_address PROTOCOL_UDP sa)) ss, 0)
             | AF_INET6 \<Rightarrow> Inr (send_request (Req_set_udp sid (gen_udp_address PROTOCOL_UDPv6 sa)) ss, 0)
             | AF_OTHER \<Rightarrow> Inr (ss, -1)))))"

text \<open>The address behind the data of a message and its length.\<close>

definition socket_server_udp_address :: "u8 list \<Rightarrow> nat \<Rightarrow> (u8 list \<times> int) option res" where
  "socket_server_udp_address data ud =
     bindE (nthE data ud) (\<lambda>type.
     Inr (if type = protocol_byte PROTOCOL_UDP then Some (drop ud data, 1 + 2 + 4)
          else if type = protocol_byte PROTOCOL_UDPv6 then Some (drop ud data, 1 + 2 + 16)
          else None))"

section \<open>Information about the sockets\<close>

datatype info_type = SOCKET_INFO_UNKNOWN | SOCKET_INFO_LISTEN | SOCKET_INFO_TCP | SOCKET_INFO_UDP
  | SOCKET_INFO_BIND | SOCKET_INFO_CLOSING

text \<open>
  The name is what the operating system and \<^verbatim>\<open>getname\<close> give for the address, if they give one; for
  a UDP socket it is the text of the address \<open>si_addr\<close>.
\<close>

record socket_info =
  si_id :: int
  si_type :: info_type
  si_opaque :: u64
  si_stat :: socket_stat
  si_wbuffer :: int
  si_reading :: bool
  si_writing :: bool
  si_name :: "string option"
  si_addr :: "u8 list option"

definition query_info :: "oscall \<Rightarrow> nat \<Rightarrow> socket_server \<Rightarrow> socket_server \<times> socket_info option" where
  "query_info os k ss =
     (let s = ss_slot ss k;
          info = (\<lambda>t name addr. Some \<lparr>si_id = s_id s, si_type = t, si_opaque = s_opaque s, si_stat = s_stat s,
            si_wbuffer = s_wb_size s, si_reading = s_reading s, si_writing = s_writing s, si_name = name, si_addr = addr\<rparr>);
          ask = (\<lambda>c t. let (ss, r) = sys os c ss in (ss, info t (if sr_n r = 0 then sr_text r else None) None));
          connected = (\<lambda>closing.
            if s_protocol s = PROTOCOL_TCP
            then ask (Sys_getpeername (s_fd s)) (if closing then SOCKET_INFO_CLOSING else SOCKET_INFO_TCP)
            else (ss, info SOCKET_INFO_UDP None (udp_socket_address s (s_udp_address s))))
      in case s_type s of
           SOCKET_TYPE_BIND \<Rightarrow> (ss, info SOCKET_INFO_BIND (Some []) None)
         | SOCKET_TYPE_LISTEN \<Rightarrow> ask (Sys_getsockname (s_fd s)) SOCKET_INFO_LISTEN
         | SOCKET_TYPE_HALFCLOSE_READ \<Rightarrow> connected True
         | SOCKET_TYPE_HALFCLOSE_WRITE \<Rightarrow> connected True
         | SOCKET_TYPE_CONNECTED \<Rightarrow> connected False
         | _ \<Rightarrow> (ss, None))"

text \<open>The newest entry is the first.\<close>

definition socket_server_info :: "oscall \<Rightarrow> socket_server \<Rightarrow> socket_server \<times> socket_info list" where
  "socket_server_info os ss =
     fold (\<lambda>i (ss, si). let (ss, q) = query_info os i ss in (ss, case q of None \<Rightarrow> si | Some temp \<Rightarrow> temp # si))
       [0..<MAX_SOCKET] (ss, [])"

end
