(* ===== verification/Socket_Handlers.thy ===== *)
theory Socket_Handlers
  imports Socket_Server
begin

text \<open>
  What the functions of \<^verbatim>\<open>socket_server.c\<close> that handle one socket do to it: well-formedness of a
  socket in use, the frame of the handlers, and that each of them returns and keeps both. For the TCP
  write lists also that the bytes written and the bytes left are the bytes that were there.
\<close>

section \<open>Frames\<close>

text \<open>What handling slot \<open>k\<close> leaves alone.\<close>

definition frame :: "nat \<Rightarrow> socket_server \<Rightarrow> socket_server \<Rightarrow> bool" where
  "frame k ss ss' \<longleftrightarrow> ss_pipe ss' = ss_pipe ss \<and> ss_alloc_id ss' = ss_alloc_id ss \<and> ss_event_n ss' = ss_event_n ss
     \<and> ss_event_index ss' = ss_event_index ss \<and> ss_ev ss' = ss_ev ss \<and> ss_soi ss' = ss_soi ss
     \<and> ss_checkctrl ss' = ss_checkctrl ss \<and> (\<forall>j. j \<noteq> k \<longrightarrow> ss_slot ss' j = ss_slot ss j)
     \<and> s_id (ss_slot ss' k) = s_id (ss_slot ss k) \<and> s_protocol (ss_slot ss' k) = s_protocol (ss_slot ss k)
     \<and> s_sending (ss_slot ss' k) = s_sending (ss_slot ss k) \<and> s_dw_lock (ss_slot ss' k) = s_dw_lock (ss_slot ss k)"

lemma frame_refl [simp]: "frame k ss ss"
  by (simp add: frame_def)

lemma frame_trans: "frame k ss ss' \<Longrightarrow> frame k ss' ss'' \<Longrightarrow> frame k ss ss''"
  by (simp add: frame_def)

named_theorems srv "unfolding of calls and slot updates"

lemmas [srv] = sys_def do_sys_def set_slot_def upd_slot_def Let_def set_type_def

section \<open>Well-formed sockets\<close>

definition wl_ok :: "wb_list \<Rightarrow> bool" where
  "wl_ok wl \<longleftrightarrow> (wl_tail wl \<longleftrightarrow> wl_head wl \<noteq> [])"

definition wb_ok :: "protocol \<Rightarrow> write_buffer \<Rightarrow> bool" where
  "wb_ok proto wb \<longleftrightarrow> (\<exists>bs. wb_buffer wb = Memory bs \<and> wb_ptr wb + wb_sz wb = length bs) \<and> \<not> wb_userobject wb
     \<and> (proto \<noteq> PROTOCOL_TCP \<longrightarrow> wb_udp_address wb \<noteq> None)"

definition wb_total :: "write_buffer list \<Rightarrow> int" where
  "wb_total wbs = (\<Sum>wb\<leftarrow>wbs. int (wb_sz wb))"

definition live :: "socket \<Rightarrow> bool" where
  "live s \<longleftrightarrow> s_type s \<noteq> SOCKET_TYPE_INVALID \<and> s_type s \<noteq> SOCKET_TYPE_RESERVE"

text \<open>The buffers of a socket in use.\<close>

definition bufs_ok :: "socket \<Rightarrow> bool" where
  "bufs_ok s \<longleftrightarrow> wl_ok (s_high s) \<and> wl_ok (s_low s)
     \<and> (\<forall>wb \<in> set (wl_head (s_high s)). wb_ok (s_protocol s) wb)
     \<and> (\<forall>wb \<in> set (wl_head (s_low s)). wb_ok (s_protocol s) wb \<and> wb_ptr wb = 0)
     \<and> s_wb_size s = wb_total (wl_head (s_high s)) + wb_total (wl_head (s_low s))
     \<and> (\<forall>p. s_dw_buffer s = Some p \<longrightarrow> s_protocol s = PROTOCOL_TCP \<and> (\<exists>bs. p = Memory bs \<and> s_dw_offset s \<le> length bs))
     \<and> s_protocol s \<noteq> PROTOCOL_UNKNOWN"

definition cleared :: "socket \<Rightarrow> bool" where
  "cleared s \<longleftrightarrow> s_high s = clear_wb_list \<and> s_low s = clear_wb_list"

definition sock_ok :: "socket \<Rightarrow> bool" where
  "sock_ok s \<longleftrightarrow> (if live s then bufs_ok s else cleared s)
     \<and> (s_type s = SOCKET_TYPE_RESERVE \<longrightarrow> s_protocol s = PROTOCOL_UNKNOWN)"

lemma wb_total_simps [simp]: "wb_total [] = 0" "wb_total (wb # wbs) = int (wb_sz wb) + wb_total wbs"
  "wb_total (xs @ ys) = wb_total xs + wb_total ys"
  by (simp_all add: wb_total_def)

lemma free_wb_list_ok:
  "(\<forall>wb \<in> set wbs. \<not> wb_userobject wb) \<Longrightarrow> free_wb_list wbs ss = Inr (ss\<lparr>ss_freed := ss_freed ss @ map wb_buffer wbs\<rparr>)"
  by (induction wbs arbitrary: ss) (auto simp: write_buffer_free_def)

text \<open>
  What handling a socket in use at slot \<open>k\<close> gives: a state that differs in this slot only, whose
  socket is well-formed and not reserved.
\<close>

definition handled :: "nat \<Rightarrow> socket_server \<Rightarrow> socket_server \<Rightarrow> bool" where
  "handled k ss ss' \<longleftrightarrow> frame k ss ss' \<and> sock_ok (ss_slot ss' k) \<and> s_type (ss_slot ss' k) \<noteq> SOCKET_TYPE_RESERVE"

lemma handled_trans: "frame k ss ss' \<Longrightarrow> handled k ss' ss'' \<Longrightarrow> handled k ss ss''"
  by (auto simp: handled_def intro: frame_trans)

lemma force_close_ok:
  assumes "live (ss_slot ss k)" "bufs_ok (ss_slot ss k)" "s_dw_lock (ss_slot ss k) \<longleftrightarrow> l > 0"
  shows "\<exists>ss' r. force_close os k l ss = Inr (ss', l, r) \<and> handled k ss ss'
    \<and> s_type (ss_slot ss' k) = SOCKET_TYPE_INVALID \<and> m_id r = s_id (ss_slot ss k)"
proof -
  let ?s = "ss_slot ss k"
  have users: "\<forall>wb \<in> set (wl_head (s_high ?s)). \<not> wb_userobject wb" "\<forall>wb \<in> set (wl_head (s_low ?s)). \<not> wb_userobject wb"
    using assms(2) by (auto simp: bufs_ok_def wb_ok_def)
  have types: "s_type ?s \<noteq> SOCKET_TYPE_INVALID" "s_type ?s \<noteq> SOCKET_TYPE_RESERVE" using assms(1) by (auto simp: live_def)
  show ?thesis
  proof (cases "s_dw_buffer ?s")
    case None
    with types users assms(3) show ?thesis
      by (auto simp: force_close_def free_wb_list_ok srv socket_lock_def socket_unlock_def handled_def frame_def
        sock_ok_def live_def cleared_def clear_wb_list_def)
  next
    case (Some p)
    then obtain bs where "p = Memory bs" using assms(2) by (auto simp: bufs_ok_def)
    with Some types users assms(3) show ?thesis
      by (auto simp: force_close_def free_wb_list_ok srv socket_lock_def socket_unlock_def handled_def frame_def
        sock_ok_def live_def cleared_def clear_wb_list_def free_payload_def)
  qed
qed

lemma bufs_ok_fields [simp]:
  "bufs_ok (s\<lparr>s_writing := b\<rparr>) = bufs_ok s" "bufs_ok (s\<lparr>s_reading := b\<rparr>) = bufs_ok s"
  "bufs_ok (s\<lparr>s_type := t\<rparr>) = bufs_ok s" "bufs_ok (s\<lparr>s_closing := b\<rparr>) = bufs_ok s"
  "bufs_ok (s\<lparr>s_stat := x\<rparr>) = bufs_ok s" "bufs_ok (s\<lparr>s_warn_size := n\<rparr>) = bufs_ok s"
  "bufs_ok (s\<lparr>s_size := n\<rparr>) = bufs_ok s" "bufs_ok (s\<lparr>s_opaque := opq\<rparr>) = bufs_ok s"
  "bufs_ok (s\<lparr>s_udp_address := a\<rparr>) = bufs_ok s" "bufs_ok (s\<lparr>s_udpconnecting := n\<rparr>) = bufs_ok s"
  "bufs_ok (s\<lparr>s_sending := m\<rparr>) = bufs_ok s" "bufs_ok (s\<lparr>s_dw_lock := b\<rparr>) = bufs_ok s"
  by (simp_all add: bufs_ok_def)

lemma live_type [simp]: "live (s\<lparr>s_type := t\<rparr>) \<longleftrightarrow> t \<noteq> SOCKET_TYPE_INVALID \<and> t \<noteq> SOCKET_TYPE_RESERVE"
  by (simp add: live_def)

text \<open>A socket in use, seen by a holder of its lock with nesting count \<open>l\<close>.\<close>

definition busy :: "nat \<Rightarrow> nat \<Rightarrow> socket_server \<Rightarrow> bool" where
  "busy k l ss \<longleftrightarrow> live (ss_slot ss k) \<and> bufs_ok (ss_slot ss k) \<and> (s_dw_lock (ss_slot ss k) \<longleftrightarrow> l > 0)"

lemma busy_handled: "busy k l ss \<Longrightarrow> handled k ss ss"
  by (auto simp: busy_def handled_def sock_ok_def live_def)

lemma handledI: "frame k ss ss' \<Longrightarrow> live (ss_slot ss' k) \<Longrightarrow> bufs_ok (ss_slot ss' k) \<Longrightarrow> handled k ss ss'"
  by (auto simp: handled_def sock_ok_def live_def)

lemma force_close_busy:
  assumes "busy k l ss"
  obtains ss' r where "force_close os k l ss = Inr (ss', l, r)" "handled k ss ss'"
    "s_type (ss_slot ss' k) = SOCKET_TYPE_INVALID" "m_id r = s_id (ss_slot ss k)"
  using force_close_ok [of ss k l os] assms that by (auto simp: busy_def)

lemma enable_cases:
  obtains ss' err where "enable_write os k b ss = (ss', err)" "frame k ss ss'"
    "ss_slot ss' k = (ss_slot ss k)\<lparr>s_writing := b\<rparr>"
proof (cases "s_writing (ss_slot ss k) = b")
  case True
  then have "ss_slot ss k = (ss_slot ss k)\<lparr>s_writing := b\<rparr>" by simp
  with True show ?thesis by (intro that [of ss False]) (simp_all add: enable_write_def)
next
  case False
  then show ?thesis by (intro that) (auto simp: enable_write_def srv frame_def)
qed

lemma enable_read_cases:
  obtains ss' err where "enable_read os k b ss = (ss', err)" "frame k ss ss'"
    "ss_slot ss' k = (ss_slot ss k)\<lparr>s_reading := b\<rparr>"
proof (cases "s_reading (ss_slot ss k) = b")
  case True
  then have "ss_slot ss k = (ss_slot ss k)\<lparr>s_reading := b\<rparr>" by simp
  with True show ?thesis by (intro that [of ss False]) (simp_all add: enable_read_def)
next
  case False
  then show ?thesis by (intro that) (auto simp: enable_read_def srv frame_def)
qed

lemma frame_sys [simp]: "frame k ss (fst (sys os c ss))" "frame k ss (do_sys os c ss)"
  "frame k ss (ss\<lparr>ss_freed := f\<rparr>)" "ss_slot (fst (sys os c ss)) = ss_slot ss" "ss_slot (do_sys os c ss) = ss_slot ss"
  by (simp_all add: srv frame_def)

lemma frame_slot:
  "s_id s = s_id (ss_slot ss k) \<Longrightarrow> s_protocol s = s_protocol (ss_slot ss k) \<Longrightarrow> s_sending s = s_sending (ss_slot ss k)
    \<Longrightarrow> s_dw_lock s = s_dw_lock (ss_slot ss k) \<Longrightarrow> frame k ss (set_slot k s ss)"
  by (simp add: frame_def set_slot_def)

lemma slot_set [simp]: "ss_slot (set_slot k s ss) k = s" "ss_slot (upd_slot k f ss) k = f (ss_slot ss k)"
  "ss_slot (set_type k t ss) k = (ss_slot ss k)\<lparr>s_type := t\<rparr>"
  by (simp_all add: srv)

lemma frame_upd:
  assumes "\<And>s. s_id (f s) = s_id s \<and> s_protocol (f s) = s_protocol s \<and> s_sending (f s) = s_sending s \<and> s_dw_lock (f s) = s_dw_lock s"
  shows "frame k ss (upd_slot k f ss)"
  using assms by (simp add: upd_slot_def frame_slot)

lemma frame_type [simp]: "frame k ss (set_type k t ss)"
  by (simp add: set_type_def frame_upd)

lemma close_write_ok:
  assumes "busy k l ss"
  shows "\<exists>ss' r. close_write os k l e ss = Inr (ss', l, Some r) \<and> handled k ss ss'"
proof (cases "s_closing (ss_slot ss k) \<or> s_type (ss_slot ss k) = SOCKET_TYPE_HALFCLOSE_READ")
  case True
  from force_close_busy [OF assms, of os] obtain ss' r where
    "force_close os k l ss = Inr (ss', l, r)" "handled k ss ss'" by metis
  with True show ?thesis by (simp add: close_write_def)
next
  case False
  show ?thesis
  proof (cases "s_type (ss_slot ss k) = SOCKET_TYPE_HALFCLOSE_WRITE")
    case True
    with False busy_handled [OF assms] show ?thesis by (auto simp: close_write_def Let_def)
  next
    case other: False
    let ?ss = "fst (sys os (Sys_shutdown_wr (s_fd (ss_slot ss k))) (set_type k SOCKET_TYPE_HALFCLOSE_WRITE ss))"
    obtain ss' err where ew: "enable_write os k False ?ss = (ss', err)" "frame k ?ss ss'"
      "ss_slot ss' k = (ss_slot ?ss k)\<lparr>s_writing := False\<rparr>" by (rule enable_cases)
    have "handled k ss ss'"
    proof (rule handledI)
      show "frame k ss ss'" by (rule frame_trans [OF frame_trans [OF frame_type frame_sys(1)] ew(2)])
      show "live (ss_slot ss' k)" "bufs_ok (ss_slot ss' k)" using ew(3) assms by (auto simp: busy_def live_def)
    qed
    with False other ew(1) show ?thesis by (simp add: close_write_def split_beta Let_def report_error_def)
  qed
qed

section \<open>What is asked of the operating system\<close>

text \<open>The answers to a call that is repeated \<open>n\<close> times.\<close>

primrec repeated :: "oscall \<Rightarrow> sys \<Rightarrow> nat \<Rightarrow> (sys \<times> sysret) list \<Rightarrow> (sys \<times> sysret) list" where
  "repeated os c 0 io = io"
| "repeated os c (Suc n) io = repeated os c n (io @ [(c, os io c)])"

text \<open>
  A \<^verbatim>\<open>write\<close> writes at most what it is given and is not interrupted for ever; a wait for events that
  succeeds returns events.
\<close>

definition os_ok :: "oscall \<Rightarrow> bool" where
  "os_ok os \<longleftrightarrow> (\<forall>io fd d. sr_n (os io (Sys_write fd d)) \<le> int (length d)
       \<and> (\<exists>n. let r = os (repeated os (Sys_write fd d) n io) (Sys_write fd d) in \<not> (sr_n r < 0 \<and> sr_errno r = EINTR)))
     \<and> (\<forall>io. sr_n (os io Sp_wait) > 0 \<longrightarrow> sr_events (os io Sp_wait) \<noteq> [])"

text \<open>The bytes that went to a descriptor.\<close>

fun written1 :: "int \<Rightarrow> sys \<times> sysret \<Rightarrow> u8 list" where
  "written1 fd (Sys_write fd' d, r) = (if fd = fd' then take (nat (sr_n r)) d else [])"
| "written1 fd (_, r) = []"

definition written :: "int \<Rightarrow> (sys \<times> sysret) list \<Rightarrow> u8 list" where
  "written fd io = concat (map (written1 fd) io)"

lemma written_simps [simp]: "written fd [] = []" "written fd (c # io) = written1 fd c @ written fd io"
  "written fd (io @ io') = written fd io @ written fd io'"
  by (simp_all add: written_def)

lemma write_retry_ok:
  assumes "os_ok os"
  shows "\<exists>io r. write_retry os fd d ss = Some (ss\<lparr>ss_io := ss_io ss @ io\<rparr>, r) \<and> \<not> (sr_n r < 0 \<and> sr_errno r = EINTR)
    \<and> sr_n r \<le> int (length d) \<and> written fd io = take (nat (sr_n r)) d"
proof -
  have "\<exists>n. let r = os (repeated os (Sys_write fd d) n (ss_io ss)) (Sys_write fd d) in \<not> (sr_n r < 0 \<and> sr_errno r = EINTR)"
    using assms by (simp add: os_ok_def)
  then obtain n where "let r = os (repeated os (Sys_write fd d) n (ss_io ss)) (Sys_write fd d) in \<not> (sr_n r < 0 \<and> sr_errno r = EINTR)" ..
  then show ?thesis
  proof (induction n arbitrary: ss)
    case 0
    then show ?case using assms
      by (intro exI [of _ "[(Sys_write fd d, os (ss_io ss) (Sys_write fd d))]"] exI [of _ "os (ss_io ss) (Sys_write fd d)"])
        (auto simp: write_retry.simps [of os fd d ss] srv os_ok_def)
  next
    case (Suc n)
    let ?c = "Sys_write fd d" and ?r = "os (ss_io ss) (Sys_write fd d)"
    let ?ss = "ss\<lparr>ss_io := ss_io ss @ [(?c, ?r)]\<rparr>"
    show ?case
    proof (cases "sr_n ?r < 0 \<and> sr_errno ?r = EINTR")
      case True
      then have step: "write_retry os fd d ss = write_retry os fd d ?ss"
        by (subst write_retry.simps) (simp add: srv)
      from Suc.IH [of ?ss] Suc.prems obtain io r where
        "write_retry os fd d ?ss = Some (?ss\<lparr>ss_io := ss_io ?ss @ io\<rparr>, r)" "\<not> (sr_n r < 0 \<and> sr_errno r = EINTR)"
        "sr_n r \<le> int (length d)" "written fd io = take (nat (sr_n r)) d" by auto
      with step True show ?thesis by (intro exI [of _ "(?c, ?r) # io"] exI [of _ r]) auto
    next
      case False
      then show ?thesis using assms
        by (intro exI [of _ "[(?c, ?r)]"] exI [of _ ?r])
          (auto simp: write_retry.simps [of os fd d ss] srv os_ok_def)
    qed
  qed
qed

section \<open>Sending\<close>

lemma get_set_list [simp]:
  "get_list pr (set_list pr wl s) = wl" "pr \<noteq> pr' \<Longrightarrow> get_list pr (set_list pr' wl s) = get_list pr s"
  "set_list pr wl (set_list pr wl' s) = set_list pr wl s"
  "s_id (set_list pr wl s) = s_id s" "s_protocol (set_list pr wl s) = s_protocol s" "s_sending (set_list pr wl s) = s_sending s"
  "s_dw_lock (set_list pr wl s) = s_dw_lock s" "s_fd (set_list pr wl s) = s_fd s" "s_type (set_list pr wl s) = s_type s"
  "s_wb_size (set_list pr wl s) = s_wb_size s" "s_dw_buffer (set_list pr wl s) = s_dw_buffer s"
  "s_dw_offset (set_list pr wl s) = s_dw_offset s" "live (set_list pr wl s) = live s" "s_closing (set_list pr wl s) = s_closing s"
  "s_stat (set_list pr wl s) = s_stat s"
  "(set_list pr wl s)\<lparr>s_wb_size := n\<rparr> = set_list pr wl (s\<lparr>s_wb_size := n\<rparr>)"
  "(set_list pr wl s)\<lparr>s_stat := st\<rparr> = set_list pr wl (s\<lparr>s_stat := st\<rparr>)"
  by (cases pr; cases pr'; simp add: get_list_def set_list_def live_def)+

lemma get_list_fields [simp]: "get_list pr (s\<lparr>s_wb_size := n\<rparr>) = get_list pr s" "get_list pr (s\<lparr>s_stat := st\<rparr>) = get_list pr s"
  by (cases pr; simp add: get_list_def)+

text \<open>What sending one of the lists does when it does not close the socket.\<close>

definition pending_bytes :: "write_buffer list \<Rightarrow> u8 list" where
  "pending_bytes wbs = concat (map wb_data wbs)"

definition list_sent :: "nat \<Rightarrow> priority \<Rightarrow> socket_server \<Rightarrow> socket_server \<Rightarrow> bool" where
  "list_sent k pr ss ss' \<longleftrightarrow> frame k ss ss' \<and>
     (\<exists>wl st io. ss_io ss' = ss_io ss @ io
        \<and> ss_slot ss' k = set_list pr wl ((ss_slot ss k)\<lparr>s_wb_size := s_wb_size (ss_slot ss k)
            - wb_total (wl_head (get_list pr (ss_slot ss k))) + wb_total (wl_head wl), s_stat := st\<rparr>)
        \<and> wl_ok wl \<and> (\<forall>wb \<in> set (wl_head wl). wb_ok (s_protocol (ss_slot ss k)) wb)
        \<and> set (tl (wl_head wl)) \<subseteq> set (wl_head (get_list pr (ss_slot ss k)))
        \<and> (s_protocol (ss_slot ss k) \<noteq> PROTOCOL_TCP \<longrightarrow> set (wl_head wl) \<subseteq> set (wl_head (get_list pr (ss_slot ss k))))
        \<and> (s_protocol (ss_slot ss k) = PROTOCOL_TCP \<longrightarrow> pending_bytes (wl_head (get_list pr (ss_slot ss k)))
             = written (s_fd (ss_slot ss k)) io @ pending_bytes (wl_head wl)))"

lemma wb_data_moved:
  assumes "wb_ok proto wb" "n \<le> wb_sz wb"
  shows "wb_data wb = take n (wb_data wb) @ wb_data (wb\<lparr>wb_ptr := wb_ptr wb + n, wb_sz := wb_sz wb - n\<rparr>)"
    "wb_ok proto (wb\<lparr>wb_ptr := wb_ptr wb + n, wb_sz := wb_sz wb - n\<rparr>)" "length (wb_data wb) = wb_sz wb"
proof -
  obtain bs where bs: "wb_buffer wb = Memory bs" "wb_ptr wb + wb_sz wb = length bs" using assms(1) by (auto simp: wb_ok_def)
  then have "wb_data wb = drop (wb_ptr wb) bs" by (simp add: wb_data_def payload_bytes_def)
  moreover from bs assms(2) have "wb_data (wb\<lparr>wb_ptr := wb_ptr wb + n, wb_sz := wb_sz wb - n\<rparr>) = drop n (drop (wb_ptr wb) bs)"
    by (simp add: wb_data_def payload_bytes_def add.commute)

  ultimately show "wb_data wb = take n (wb_data wb) @ wb_data (wb\<lparr>wb_ptr := wb_ptr wb + n, wb_sz := wb_sz wb - n\<rparr>)"
    "length (wb_data wb) = wb_sz wb" using bs(2) by (simp_all flip: drop_drop)
  show "wb_ok proto (wb\<lparr>wb_ptr := wb_ptr wb + n, wb_sz := wb_sz wb - n\<rparr>)" using assms bs by (auto simp: wb_ok_def)
qed

lemma list_sent_step:
  assumes "frame k ss ss1" "ss_io ss1 = ss_io ss @ io"
    and "ss_slot ss1 k = set_list pr wl ((ss_slot ss k)\<lparr>s_wb_size := s_wb_size (ss_slot ss k)
       - wb_total (wl_head (get_list pr (ss_slot ss k))) + wb_total (wl_head wl), s_stat := st\<rparr>)"
    and "set (wl_head wl) \<subseteq> set (wl_head (get_list pr (ss_slot ss k)))"
    and "s_protocol (ss_slot ss k) = PROTOCOL_TCP \<Longrightarrow>
      pending_bytes (wl_head (get_list pr (ss_slot ss k))) = written (s_fd (ss_slot ss k)) io @ pending_bytes (wl_head wl)"
    and sent: "list_sent k pr ss1 ss'"
  shows "list_sent k pr ss ss'"
proof -
  from sent obtain wl' st' io' where
    *: "frame k ss1 ss'" "ss_io ss' = ss_io ss1 @ io'"
      "ss_slot ss' k = set_list pr wl' ((ss_slot ss1 k)\<lparr>s_wb_size := s_wb_size (ss_slot ss1 k)
         - wb_total (wl_head (get_list pr (ss_slot ss1 k))) + wb_total (wl_head wl'), s_stat := st'\<rparr>)"
      "wl_ok wl'" "\<forall>wb \<in> set (wl_head wl'). wb_ok (s_protocol (ss_slot ss1 k)) wb"
      "set (tl (wl_head wl')) \<subseteq> set (wl_head (get_list pr (ss_slot ss1 k)))"
      "s_protocol (ss_slot ss1 k) \<noteq> PROTOCOL_TCP \<longrightarrow> set (wl_head wl') \<subseteq> set (wl_head (get_list pr (ss_slot ss1 k)))"
      "s_protocol (ss_slot ss1 k) = PROTOCOL_TCP \<longrightarrow> pending_bytes (wl_head (get_list pr (ss_slot ss1 k)))
         = written (s_fd (ss_slot ss1 k)) io' @ pending_bytes (wl_head wl')"
    unfolding list_sent_def by blast
  have "s_protocol (ss_slot ss1 k) = s_protocol (ss_slot ss k)" using assms(1) by (simp add: frame_def)
  moreover have "s_fd (ss_slot ss1 k) = s_fd (ss_slot ss k)" "get_list pr (ss_slot ss1 k) = wl" using assms(3) by simp_all
  ultimately show ?thesis unfolding list_sent_def
    using frame_trans [OF assms(1) *(1)] * assms(2-5)
    by (intro conjI exI [of _ wl'] exI [of _ st'] exI [of _ "io @ io'"]) auto
qed

lemma busy_list:
  assumes "busy k l ss"
  shows "\<forall>wb \<in> set (wl_head (get_list pr (ss_slot ss k))). wb_ok (s_protocol (ss_slot ss k)) wb"
    "wl_ok (get_list pr (ss_slot ss k))"
    "pr = PRIORITY_LOW \<Longrightarrow> \<forall>wb \<in> set (wl_head (get_list pr (ss_slot ss k))). wb_ptr wb = 0"
  using assms by (cases pr; auto simp: busy_def bufs_ok_def get_list_def)+

lemma busy_set_list:
  assumes "busy k l ss" "frame k ss ss1"
    and "ss_slot ss1 k = set_list pr wl ((ss_slot ss k)\<lparr>s_wb_size := s_wb_size (ss_slot ss k)
       - wb_total (wl_head (get_list pr (ss_slot ss k))) + wb_total (wl_head wl), s_stat := st\<rparr>)"
    and "wl_ok wl" "\<forall>wb \<in> set (wl_head wl). wb_ok (s_protocol (ss_slot ss k)) wb"
    and "pr = PRIORITY_LOW \<Longrightarrow> \<forall>wb \<in> set (wl_head wl). wb_ptr wb = 0"
  shows "busy k l ss1"
  using assms by (cases pr) (auto simp: busy_def bufs_ok_def get_list_def set_list_def live_def frame_def)

lemma send_tcp_loop_ok:
  assumes "os_ok os" "busy k l ss" "wl_head (get_list pr (ss_slot ss k)) = wbs" "s_protocol (ss_slot ss k) = PROTOCOL_TCP"
  shows "(\<exists>ss' r. send_tcp_loop os k pr l wbs ss = Inr (ss', l, Some r) \<and> handled k ss ss')
    \<or> (\<exists>ss'. send_tcp_loop os k pr l wbs ss = Inr (ss', l, None) \<and> list_sent k pr ss ss')"
  using assms(2-4)
proof (induction wbs arbitrary: ss)
  case Nil
  let ?s = "ss_slot ss k"
  have "list_sent k pr ss (upd_slot k (\<lambda>s. set_list pr ((get_list pr s)\<lparr>wl_tail := False\<rparr>) s) ss)"
    unfolding list_sent_def using Nil
    by (intro conjI exI [of _ "(get_list pr ?s)\<lparr>wl_tail := False\<rparr>"] exI [of _ "s_stat ?s"] exI [of _ "[]"])
      (simp_all add: frame_upd wl_ok_def, simp_all add: srv)
  then show ?case by simp
next
  case (Cons wb wbs)
  let ?s = "ss_slot ss k"
  note list = busy_list [OF Cons.prems(1), of pr]
  have wb: "wb_ok PROTOCOL_TCP wb" "\<forall>wb \<in> set wbs. wb_ok PROTOCOL_TCP wb" using list(1) Cons.prems(2,3) by auto
  from write_retry_ok [OF assms(1), of "s_fd ?s" "wb_data wb" ss] obtain io r where
    w: "write_retry os (s_fd ?s) (wb_data wb) ss = Some (ss\<lparr>ss_io := ss_io ss @ io\<rparr>, r)"
      "sr_n r \<le> int (wb_sz wb)" "written (s_fd ?s) io = take (nat (sr_n r)) (wb_data wb)"
      "\<not> (sr_n r < 0 \<and> sr_errno r = EINTR)" using wb_data_moved(3) [OF wb(1), of 0] by auto
  let ?ss = "ss\<lparr>ss_io := ss_io ss @ io\<rparr>"
  have frame0: "frame k ss ?ss" by (simp add: frame_def)
  show ?case
  proof (cases "sr_n r < 0")
    case True
    show ?thesis
    proof (cases "sr_errno r = EAGAIN")
      case again: True
      have "list_sent k pr ss ?ss" unfolding list_sent_def using frame0 list Cons.prems w(3) True
        by (intro conjI exI [of _ "get_list pr ?s"] exI [of _ "s_stat ?s"] exI [of _ io])
          (auto simp: set_list_def get_list_def dest: list.set_sel(2) [rotated] split: priority.splits)
      then show ?thesis using w(1) True again by simp
    next
      case False
      have "busy k l ?ss" using Cons.prems(1) by (simp add: busy_def)
      from close_write_ok [OF this, of os "sr_errno r"] obtain ss' r' where
        "close_write os k l (sr_errno r) ?ss = Inr (ss', l, Some r')" "handled k ?ss ss'" by blast
      with w(1) True False handled_trans [OF frame0] show ?thesis by auto
    qed
  next
    case False
    define n where "n = nat (sr_n r)"
    have n: "sr_n r = int n" "n \<le> wb_sz wb" using False w(2) by (simp_all add: n_def)
    obtain st where st: "stat_write k (sr_n r) ?ss = upd_slot k (\<lambda>s. s\<lparr>s_stat := st\<rparr>) ?ss"
      unfolding stat_write_def upd_slot_def by metis
    let ?mid = "upd_slot k (\<lambda>s. s\<lparr>s_wb_size := s_wb_size s - sr_n r\<rparr>) (stat_write k (sr_n r) ?ss)"
    have mid: "frame k ss ?mid" "ss_slot ?mid k = ?s\<lparr>s_wb_size := s_wb_size ?s - int n, s_stat := st\<rparr>"
      "ss_io ?mid = ss_io ss @ io" unfolding st by (simp_all add: upd_slot_def set_slot_def frame_def n(1))
    show ?thesis
    proof (cases "n = wb_sz wb")
      case part: False
      let ?wb = "wb\<lparr>wb_ptr := wb_ptr wb + n, wb_sz := wb_sz wb - n\<rparr>"
      let ?f = "\<lambda>s. set_list pr ((get_list pr s)\<lparr>wl_head := ?wb # wbs\<rparr>) s"
      have "list_sent k pr ss (upd_slot k ?f ?mid)" unfolding list_sent_def
      proof (intro conjI exI [of _ "(get_list pr ?s)\<lparr>wl_head := ?wb # wbs\<rparr>"] exI [of _ st] exI [of _ io])
        show "frame k ss (upd_slot k ?f ?mid)" using frame_trans [OF mid(1) frame_upd] by simp
        show "ss_io (upd_slot k ?f ?mid) = ss_io ss @ io" using mid(3) by (simp add: srv)
        show "ss_slot (upd_slot k ?f ?mid) k = set_list pr ((get_list pr ?s)\<lparr>wl_head := ?wb # wbs\<rparr>) (?s\<lparr>s_wb_size :=
            s_wb_size ?s - wb_total (wl_head (get_list pr ?s)) + wb_total (wl_head ((get_list pr ?s)\<lparr>wl_head := ?wb # wbs\<rparr>)), s_stat := st\<rparr>)"
          using mid(2) n(2) Cons.prems(2) by (simp add: of_nat_diff)
        show "s_protocol ?s = PROTOCOL_TCP \<longrightarrow> pending_bytes (wl_head (get_list pr ?s))
            = written (s_fd ?s) io @ pending_bytes (wl_head ((get_list pr ?s)\<lparr>wl_head := ?wb # wbs\<rparr>))"
          using wb_data_moved(1) [OF wb(1) n(2)] w(3) Cons.prems(2) by (simp add: pending_bytes_def flip: n_def)
      qed (use list Cons.prems wb wb_data_moved(2) [OF wb(1) n(2)] in \<open>auto simp: wl_ok_def\<close>)
      then show ?thesis using w(1) False part n(1) by (simp add: Let_def)
    next
      case full: True
      let ?wl = "(get_list pr ?s)\<lparr>wl_head := wbs\<rparr>"
      let ?f = "\<lambda>s. set_list pr ((get_list pr s)\<lparr>wl_head := wbs\<rparr>) s"
      let ?ss1 = "(upd_slot k ?f ?mid)\<lparr>ss_freed := ss_freed (upd_slot k ?f ?mid) @ [wb_buffer wb]\<rparr>"
      have free: "write_buffer_free wb (upd_slot k ?f ?mid) = Inr ?ss1" using wb(1) by (simp add: write_buffer_free_def wb_ok_def)
      have fr1: "frame k ss ?ss1" using frame_trans [OF mid(1) frame_trans [OF frame_upd frame_sys(3)]] by simp
      have io1: "ss_io ?ss1 = ss_io ss @ io" using mid(3) by (simp add: srv)
      have slot1: "ss_slot ?ss1 k = set_list pr ?wl (?s\<lparr>s_wb_size := s_wb_size ?s
          - wb_total (wl_head (get_list pr ?s)) + wb_total (wl_head ?wl), s_stat := st\<rparr>)"
        using mid(2) Cons.prems(2) full by (simp add: srv)
      have pend: "pending_bytes (wl_head (get_list pr ?s)) = written (s_fd ?s) io @ pending_bytes (wl_head ?wl)"
        using w(3) Cons.prems(2) full wb_data_moved(3) [OF wb(1), of 0] by (simp add: pending_bytes_def flip: n_def)
      have run: "send_tcp_loop os k pr l (wb # wbs) ss = send_tcp_loop os k pr l wbs ?ss1"
        using w(1) False full n(1) free by (simp add: Let_def)
      show ?thesis
      proof (cases "wbs = []")
        case True
        let ?wl' = "?wl\<lparr>wl_tail := False\<rparr>"
        have "list_sent k pr ss (upd_slot k (\<lambda>s. set_list pr ((get_list pr s)\<lparr>wl_tail := False\<rparr>) s) ?ss1)" unfolding list_sent_def
        proof (intro conjI exI [of _ ?wl'] exI [of _ st] exI [of _ io])
          show "frame k ss (upd_slot k (\<lambda>s. set_list pr ((get_list pr s)\<lparr>wl_tail := False\<rparr>) s) ?ss1)"
            using frame_trans [OF fr1 frame_upd] by simp
        qed (use True io1 slot1 pend in \<open>simp_all add: wl_ok_def pending_bytes_def, simp_all add: srv\<close>)
        then show ?thesis using run True by simp
      next
        case rest: False
        have "busy k l ?ss1"
        proof (rule busy_set_list [OF Cons.prems(1) fr1 slot1])
          show "\<forall>wb \<in> set (wl_head ?wl). wb_ptr wb = 0" if "pr = PRIORITY_LOW" using list(3) [OF that] Cons.prems(2) by simp
        qed (use list(2) rest wb(2) Cons.prems(2,3) in \<open>auto simp: wl_ok_def\<close>)
        moreover have "wl_head (get_list pr (ss_slot ?ss1 k)) = wbs" "s_protocol (ss_slot ?ss1 k) = PROTOCOL_TCP"
          using slot1 Cons.prems(3) by simp_all
        ultimately have ih: "(\<exists>ss' r. send_tcp_loop os k pr l wbs ?ss1 = Inr (ss', l, Some r) \<and> handled k ?ss1 ss')
            \<or> (\<exists>ss'. send_tcp_loop os k pr l wbs ?ss1 = Inr (ss', l, None) \<and> list_sent k pr ?ss1 ss')"
          by (rule Cons.IH)
        have "list_sent k pr ?ss1 ss' \<Longrightarrow> list_sent k pr ss ss'" for ss'
          using list_sent_step [OF fr1 io1 slot1] pend Cons.prems(2) by auto
        then show ?thesis unfolding run using ih handled_trans [OF fr1] by blast
      qed
    qed
  qed
qed

lemma record_eqs [simp]:
  "wl\<lparr>wl_head := h, wl_tail := t\<rparr> = \<lparr>wl_head = h, wl_tail = t\<rparr>"
  "s\<lparr>s_stat := st, s_wb_size := n\<rparr> = s\<lparr>s_wb_size := n, s_stat := st\<rparr>"
  by (cases wl; simp) (cases s; simp)

lemma set_tl: "x \<in> set (tl xs) \<Longrightarrow> x \<in> set xs"
  by (cases xs) auto

lemma stat_write_ex: "\<exists>st. stat_write k n ss = upd_slot k (\<lambda>s. s\<lparr>s_stat := st\<rparr>) ss"
  unfolding stat_write_def upd_slot_def by metis

text \<open>One buffer taken from the front of a list.\<close>

lemma list_sent_drop:
  assumes "busy k l ss" "wl_head (get_list pr (ss_slot ss k)) = wb # wbs" "s_protocol (ss_slot ss k) \<noteq> PROTOCOL_TCP"
    and "frame k ss ss'" "ss_io ss' = ss_io ss @ io"
    and "ss_slot ss' k = set_list pr \<lparr>wl_head = wbs, wl_tail = (wbs \<noteq> [])\<rparr>
      ((ss_slot ss k)\<lparr>s_wb_size := s_wb_size (ss_slot ss k) - int (wb_sz wb), s_stat := st\<rparr>)"
  shows "list_sent k pr ss ss'"
  unfolding list_sent_def using assms busy_list [OF assms(1), of pr]
  by (intro conjI exI [of _ "\<lparr>wl_head = wbs, wl_tail = (wbs \<noteq> [])\<rparr>"] exI [of _ st] exI [of _ io])
    (auto simp: wl_ok_def dest: set_tl)

lemma drop_udp_ok:
  assumes "busy k l ss" "wl_head (get_list pr (ss_slot ss k)) = wb # wbs" "s_protocol (ss_slot ss k) \<noteq> PROTOCOL_TCP"
  shows "\<exists>ss'. drop_udp k pr wb wbs (ss\<lparr>ss_io := ss_io ss @ io\<rparr>) = Inr ss' \<and> list_sent k pr ss ss'"
proof -
  note list = busy_list [OF assms(1), of pr]
  have "wl_tail (get_list pr (ss_slot ss k))" "\<not> wb_userobject wb" using list assms(2) by (auto simp: wl_ok_def wb_ok_def)
  then obtain ss' where d: "drop_udp k pr wb wbs (ss\<lparr>ss_io := ss_io ss @ io\<rparr>) = Inr ss'" "frame k ss ss'"
    "ss_io ss' = ss_io ss @ io" "ss_slot ss' k = set_list pr \<lparr>wl_head = wbs, wl_tail = (wbs \<noteq> [])\<rparr>
      ((ss_slot ss k)\<lparr>s_wb_size := s_wb_size (ss_slot ss k) - int (wb_sz wb), s_stat := s_stat (ss_slot ss k)\<rparr>)"
    by (auto simp: drop_udp_def write_buffer_free_def srv frame_def)
  with list_sent_drop [OF assms d(2-4)] show ?thesis by blast
qed

lemma list_sent_io:
  assumes "busy k l ss" "s_protocol (ss_slot ss k) \<noteq> PROTOCOL_TCP"
  shows "list_sent k pr ss (ss\<lparr>ss_io := ss_io ss @ io\<rparr>)"
proof -
  have "ss_slot ss k = set_list pr (get_list pr (ss_slot ss k)) (ss_slot ss k)"
    by (cases pr) (simp_all add: set_list_def get_list_def)
  then show ?thesis unfolding list_sent_def
    using assms(2) busy_list [OF assms(1), of pr]
    by (intro conjI exI [of _ "get_list pr (ss_slot ss k)"] exI [of _ "s_stat (ss_slot ss k)"] exI [of _ io])
      (auto simp: frame_def dest: set_tl)
qed

lemma send_udp_loop_ok:
  assumes "busy k l ss" "wl_head (get_list pr (ss_slot ss k)) = wbs" "s_protocol (ss_slot ss k) \<noteq> PROTOCOL_TCP"
  shows "\<exists>ss'. send_udp_loop os k pr wbs ss = Inr ss' \<and> list_sent k pr ss ss'"
  using assms
proof (induction wbs arbitrary: ss)
  case Nil
  let ?s = "ss_slot ss k"
  have "list_sent k pr ss (upd_slot k (\<lambda>s. set_list pr ((get_list pr s)\<lparr>wl_tail := False\<rparr>) s) ss)"
    unfolding list_sent_def using Nil
    by (intro conjI exI [of _ "(get_list pr ?s)\<lparr>wl_tail := False\<rparr>"] exI [of _ "s_stat ?s"] exI [of _ "[]"])
      (simp_all add: frame_upd wl_ok_def, simp_all add: srv)
  then show ?case by simp
next
  case (Cons wb wbs)
  let ?s = "ss_slot ss k"
  note list = busy_list [OF Cons.prems(1), of pr]
  have wb: "wb_ok (s_protocol ?s) wb" using list(1) Cons.prems(2) by simp
  then obtain addr where addr: "wb_udp_address wb = Some addr" using Cons.prems(3) by (auto simp: wb_ok_def)
  show ?case
  proof (cases "udp_socket_address ?s addr")
    case None
    with addr drop_udp_ok [OF Cons.prems] show ?thesis by (simp add: srv)
  next
    case (Some sa)
    let ?c = "Sys_sendto (s_fd ?s) (wb_data wb) sa"
    let ?r = "os (ss_io ss) ?c" and ?ss = "ss\<lparr>ss_io := ss_io ss @ [(?c, os (ss_io ss) ?c)]\<rparr>"
    consider (again) "sr_n ?r < 0" "sr_errno ?r = EINTR \<or> sr_errno ?r = EAGAIN"
      | (fail) "sr_n ?r < 0" "\<not> (sr_errno ?r = EINTR \<or> sr_errno ?r = EAGAIN)" | (sent) "sr_n ?r \<ge> 0" by linarith
    then show ?thesis
    proof cases
      case again
      with addr Some list_sent_io [OF Cons.prems(1,3)] show ?thesis by (simp add: srv)
    next
      case fail
      with addr Some drop_udp_ok [OF Cons.prems] show ?thesis by (simp add: srv)
    next
      case sent
      obtain st where st: "stat_write k (int (wb_sz wb)) ?ss = upd_slot k (\<lambda>s. s\<lparr>s_stat := st\<rparr>) ?ss" using stat_write_ex by blast
      let ?f = "\<lambda>s. set_list pr ((get_list pr s)\<lparr>wl_head := wbs\<rparr>) (s\<lparr>s_wb_size := s_wb_size s - int (wb_sz wb)\<rparr>)"
      let ?mid = "upd_slot k ?f (upd_slot k (\<lambda>s. s\<lparr>s_stat := st\<rparr>) ?ss)"
      let ?ss1 = "?mid\<lparr>ss_freed := ss_freed ?mid @ [wb_buffer wb]\<rparr>"
      have run: "send_udp_loop os k pr (wb # wbs) ss = send_udp_loop os k pr wbs ?ss1"
        using addr Some sent st wb by (simp add: sys_def Let_def write_buffer_free_def wb_ok_def)
      let ?wl = "(get_list pr ?s)\<lparr>wl_head := wbs\<rparr>"
      have fr1: "frame k ss ?ss1" and io1: "ss_io ?ss1 = ss_io ss @ [(?c, ?r)]"
        and slot1: "ss_slot ?ss1 k = set_list pr ?wl (?s\<lparr>s_wb_size := s_wb_size ?s
          - wb_total (wl_head (get_list pr ?s)) + wb_total (wl_head ?wl), s_stat := st\<rparr>)"
        using Cons.prems(2) by (simp_all add: srv frame_def)
      show ?thesis
      proof (cases "wbs = []")
        case True
        let ?fin = "upd_slot k (\<lambda>s. set_list pr ((get_list pr s)\<lparr>wl_tail := False\<rparr>) s) ?ss1"
        have "list_sent k pr ss ?fin"
          using True fr1 io1 slot1 Cons.prems(2)
          by (intro list_sent_drop [OF Cons.prems(1-3), of _ "[(?c, ?r)]" st] frame_trans [OF fr1 frame_upd]) (simp_all, simp add: srv)
        then show ?thesis using run True by simp
      next
        case rest: False
        have "busy k l ?ss1"
        proof (rule busy_set_list [OF Cons.prems(1) fr1 slot1])
          show "\<forall>wb \<in> set (wl_head ?wl). wb_ptr wb = 0" if "pr = PRIORITY_LOW" using list(3) [OF that] Cons.prems(2) by simp
        qed (use list(1,2) rest Cons.prems(2,3) in \<open>auto simp: wl_ok_def\<close>)
        from Cons.IH [OF this] slot1 Cons.prems(3) obtain ss' where
          "send_udp_loop os k pr wbs ?ss1 = Inr ss'" "list_sent k pr ?ss1 ss'" by auto
        with run list_sent_step [OF fr1 io1 slot1] Cons.prems(2,3) show ?thesis by auto
      qed
    qed
  qed
qed

lemma send_list_ok:
  assumes "os_ok os" "busy k l ss"
  shows "(\<exists>ss' r. send_list os k pr l ss = Inr (ss', l, Some r) \<and> handled k ss ss')
    \<or> (\<exists>ss'. send_list os k pr l ss = Inr (ss', l, None) \<and> list_sent k pr ss ss')"
  using send_tcp_loop_ok [OF assms] send_udp_loop_ok [OF assms(2)]
  by (cases "s_protocol (ss_slot ss k) = PROTOCOL_TCP") (auto simp: send_list_def send_list_tcp_def send_list_udp_def)

lemma send_done_ok:
  assumes "busy k l ss" "send_buffer_empty (ss_slot ss k)"
  shows "\<exists>ss' r. send_done os k l ss = Inr (ss', l, r) \<and> handled k ss ss'"
proof -
  have size: "s_wb_size (ss_slot ss k) = 0" using assms by (simp add: busy_def bufs_ok_def send_buffer_empty_def)
  show ?thesis
  proof (cases "s_closing (ss_slot ss k)")
    case True
    from force_close_busy [OF assms(1), of os] obtain ss' r where "force_close os k l ss = Inr (ss', l, r)" "handled k ss ss'" by metis
    with True size assms(2) show ?thesis by (simp add: send_done_def)
  next
    case False
    obtain ss' err where ew: "enable_write os k False ss = (ss', err)" "frame k ss ss'"
      "ss_slot ss' k = (ss_slot ss k)\<lparr>s_writing := False\<rparr>" by (rule enable_cases)
    have "handled k ss ss'" "handled k ss (upd_slot k (\<lambda>s. s\<lparr>s_warn_size := 0\<rparr>) ss')"
      using ew(3) assms(1) by (auto intro!: handledI frame_trans [OF ew(2)] frame_upd simp: busy_def live_def)
    with ew(1) False size assms(2) show ?thesis by (auto simp: send_done_def Let_def)
  qed
qed

lemma list_sent_busy:
  assumes "busy k l ss" "list_sent k pr ss ss'"
    and low: "pr = PRIORITY_LOW \<Longrightarrow> \<not> list_uncomplete (s_low (ss_slot ss' k))"
  shows "busy k l ss'" "frame k ss ss'"
proof -
  from assms(2) obtain wl st where
    *: "frame k ss ss'" "ss_slot ss' k = set_list pr wl ((ss_slot ss k)\<lparr>s_wb_size := s_wb_size (ss_slot ss k)
         - wb_total (wl_head (get_list pr (ss_slot ss k))) + wb_total (wl_head wl), s_stat := st\<rparr>)"
      "wl_ok wl" "\<forall>wb \<in> set (wl_head wl). wb_ok (s_protocol (ss_slot ss k)) wb"
      "set (tl (wl_head wl)) \<subseteq> set (wl_head (get_list pr (ss_slot ss k)))" unfolding list_sent_def by blast
  have "\<forall>wb \<in> set (wl_head wl). wb_ptr wb = 0" if "pr = PRIORITY_LOW"
  proof (cases "wl_head wl")
    case (Cons wb wbs)
    have "\<not> wb_moved wb" using low [OF that] *(2) that Cons by (simp add: set_list_def list_uncomplete_def)
    then have "wb_ptr wb = 0" by (auto simp: wb_moved_def split: payload.splits)
    moreover have "\<forall>wb \<in> set wbs. wb_ptr wb = 0" using busy_list(3) [OF assms(1) that] *(5) Cons by auto
    ultimately show ?thesis using Cons by simp
  qed simp
  then show "busy k l ss'" "frame k ss ss'" using busy_set_list [OF assms(1) *(1-4)] *(1) by auto
qed

lemma raise_ok:
  assumes "busy k l ss" "list_sent k PRIORITY_LOW ss ss'" "wl_head (s_high (ss_slot ss k)) = []"
    and "list_uncomplete (s_low (ss_slot ss' k))"
  shows "\<exists>s. raise_uncomplete (ss_slot ss' k) = Inr s \<and> handled k ss (set_slot k s ss')"
proof -
  let ?s = "ss_slot ss k"
  from assms(2) obtain wl st where
    *: "frame k ss ss'" "ss_slot ss' k = set_list PRIORITY_LOW wl (?s\<lparr>s_wb_size := s_wb_size ?s
         - wb_total (wl_head (get_list PRIORITY_LOW ?s)) + wb_total (wl_head wl), s_stat := st\<rparr>)"
      "wl_ok wl" "\<forall>wb \<in> set (wl_head wl). wb_ok (s_protocol ?s) wb"
      "set (tl (wl_head wl)) \<subseteq> set (wl_head (get_list PRIORITY_LOW ?s))" unfolding list_sent_def by blast
  obtain wb wbs where wl: "wl_head wl = wb # wbs"
    using assms(4) *(2) by (cases "wl_head wl") (auto simp: list_uncomplete_def set_list_def)
  have rest: "\<forall>wb \<in> set wbs. wb_ptr wb = 0" using busy_list(3) [OF assms(1), of PRIORITY_LOW] *(5) wl by auto
  let ?s' = "(ss_slot ss' k)\<lparr>s_low := (s_low (ss_slot ss' k))\<lparr>wl_head := wbs, wl_tail := (if wbs = [] then False else wl_tail (s_low (ss_slot ss' k)))\<rparr>,
    s_high := \<lparr>wl_head = [wb], wl_tail = True\<rparr>\<rparr>"
  have r: "raise_uncomplete (ss_slot ss' k) = Inr ?s'"
    using *(2) wl assms(3) by (simp add: raise_uncomplete_def set_list_def)
  have "handled k ss (set_slot k ?s' ss')"
  proof (rule handledI)
    show "frame k ss (set_slot k ?s' ss')" by (intro frame_trans [OF *(1)] frame_slot) simp_all
    show "live (ss_slot (set_slot k ?s' ss') k)" using *(2) assms(1) by (auto simp: busy_def live_def set_list_def)
    show "bufs_ok (ss_slot (set_slot k ?s' ss') k)" using *(2-4) wl rest assms(1,3)
      by (auto simp: bufs_ok_def busy_def set_list_def get_list_def wl_ok_def)
  qed
  with r show ?thesis by blast
qed

lemma not_moved: "busy k l ss \<Longrightarrow> \<not> list_uncomplete (s_low (ss_slot ss k))"
  by (auto simp: busy_def bufs_ok_def list_uncomplete_def wb_moved_def wb_ok_def split: list.splits)

lemma send_buffer_locked_ok:
  assumes os: "os_ok os" and busy: "busy k l ss"
  shows "\<exists>ss' r. send_buffer_locked os k l ss = Inr (ss', l, r) \<and> handled k ss ss'"
  using send_list_ok [OF os busy, of PRIORITY_HIGH]
proof (elim disjE exE conjE)
  fix ss' r assume "send_list os k PRIORITY_HIGH l ss = Inr (ss', l, Some r)" "handled k ss ss'"
  then show ?thesis using not_moved [OF busy] by (simp add: send_buffer_locked_def)
next
  fix ss1 assume high: "send_list os k PRIORITY_HIGH l ss = Inr (ss1, l, None)" "list_sent k PRIORITY_HIGH ss ss1"
  note b1 = list_sent_busy [OF busy high(2), simplified]
  have run1: "send_buffer_locked os k l ss = (if wl_head (s_high (ss_slot ss1 k)) \<noteq> [] then Inr (ss1, l, None)
     else if wl_head (s_low (ss_slot ss1 k)) \<noteq> [] then
       bindE (send_list os k PRIORITY_LOW l ss1) (\<lambda>(ss, l, ret).
       if ret \<noteq> None then Inr (ss, l, only_err ret)
       else if list_uncomplete (s_low (ss_slot ss k))
       then bindE (raise_uncomplete (ss_slot ss k)) (\<lambda>s. Inr (set_slot k s ss, l, None))
       else if wl_head (s_low (ss_slot ss k)) \<noteq> [] then Inr (ss, l, None)
       else send_done os k l ss)
     else send_done os k l ss1)"
    using high(1) not_moved [OF busy] by (simp add: send_buffer_locked_def)
  show ?thesis
  proof (cases "wl_head (s_high (ss_slot ss1 k)) = []")
    case False
    with run1 handled_trans [OF b1(2) busy_handled [OF b1(1)]] show ?thesis by simp
  next
    case h: True
    show ?thesis
    proof (cases "wl_head (s_low (ss_slot ss1 k)) = []")
      case True
      with send_done_ok [OF b1(1), of os] h run1 handled_trans [OF b1(2)] show ?thesis by (auto simp: send_buffer_empty_def)
    next
      case False
      from send_list_ok [OF os b1(1), of PRIORITY_LOW] show ?thesis
      proof (elim disjE exE conjE)
        fix ss' r assume "send_list os k PRIORITY_LOW l ss1 = Inr (ss', l, Some r)" "handled k ss1 ss'"
        with run1 h False handled_trans [OF b1(2)] show ?thesis by auto
      next
        fix ss2 assume low: "send_list os k PRIORITY_LOW l ss1 = Inr (ss2, l, None)" "list_sent k PRIORITY_LOW ss1 ss2"
        show ?thesis
        proof (cases "list_uncomplete (s_low (ss_slot ss2 k))")
          case True
          from raise_ok [OF b1(1) low(2) h True] run1 h False low(1) True handled_trans [OF b1(2)] show ?thesis by auto
        next
          case comp: False
          note b2 = list_sent_busy [OF b1(1) low(2) comp]
          have h2: "wl_head (s_high (ss_slot ss2 k)) = []" using low(2) h by (auto simp: list_sent_def set_list_def)
          show ?thesis
          proof (cases "wl_head (s_low (ss_slot ss2 k)) = []")
            case True
            with send_done_ok [OF b2(1), of os] h2 obtain ss' r where
              "send_done os k l ss2 = Inr (ss', l, r)" "handled k ss2 ss'" by (auto simp: send_buffer_empty_def)
            with run1 h False low(1) comp True handled_trans [OF frame_trans [OF b1(2) b2(2)]] show ?thesis by auto
          next
            case more: False
            with run1 h False low(1) comp handled_trans [OF frame_trans [OF b1(2) b2(2)] busy_handled [OF b2(1)]]
            show ?thesis by simp
          qed
        qed
      qed
    qed
  qed
qed

lemma take_direct_ok:
  assumes "busy k l ss"
  shows "\<exists>ss'. take_direct k ss = Inr ss' \<and> frame k ss ss' \<and> busy k l ss'"
proof (cases "s_dw_buffer (ss_slot ss k)")
  case None
  with assms show ?thesis by (simp add: take_direct_def)
next
  case (Some p)
  with assms obtain bs where "p = Memory bs" "s_dw_offset (ss_slot ss k) \<le> length bs" "s_protocol (ss_slot ss k) = PROTOCOL_TCP"
    by (auto simp: busy_def bufs_ok_def)
  with Some assms show ?thesis
    by (auto simp: take_direct_def send_object_init_def busy_def bufs_ok_def wl_ok_def wb_ok_def live_def srv frame_def)
qed

text \<open>Taking and releasing the lock around what keeps the frame.\<close>

lemma locked_frame:
  assumes "\<not> s_dw_lock (ss_slot ss k)" "handled k (upd_slot k (\<lambda>s. s\<lparr>s_dw_lock := True\<rparr>) ss) ss'"
  shows "handled k ss (upd_slot k (\<lambda>s. s\<lparr>s_dw_lock := False\<rparr>) ss')"
  using assms by (auto simp: handled_def frame_def srv sock_ok_def live_def cleared_def)

lemma send_buffer_ok:
  assumes os: "os_ok os" and busy: "busy k 0 ss"
  shows "\<exists>ss' r. send_buffer os k 0 ss = Inr (ss', 0, r) \<and> handled k ss ss'"
proof -
  have lock: "\<not> s_dw_lock (ss_slot ss k)" using busy by (simp add: busy_def)
  let ?ss = "upd_slot k (\<lambda>s. s\<lparr>s_dw_lock := True\<rparr>) ss"
  have got: "socket_trylock k 0 ss = Some (?ss, 1)" using lock by (simp add: socket_trylock_def)
  have b1: "busy k 1 ?ss" using busy by (simp add: busy_def live_def)
  from take_direct_ok [OF b1] obtain ss1 where t: "take_direct k ?ss = Inr ss1" "frame k ?ss ss1" "busy k 1 ss1" by blast
  from send_buffer_locked_ok [OF os t(3)] obtain ss2 r where
    s: "send_buffer_locked os k 1 ss1 = Inr (ss2, 1, r)" "handled k ss1 ss2" by blast
  from locked_frame [OF lock handled_trans [OF t(2) s(2)]] got t(1) s(1) show ?thesis
    by (simp add: send_buffer_def socket_unlock_def)
qed

section \<open>Receiving\<close>

lemma close_read_ok:
  assumes "busy k l ss"
  obtains ss' m where "close_read os k ss = (ss', m)" "handled k ss ss'" "m_id m = s_id (ss_slot ss k)"
    "s_type (ss_slot ss' k) = SOCKET_TYPE_HALFCLOSE_READ"
proof -
  let ?ss = "set_type k SOCKET_TYPE_HALFCLOSE_READ ss"
  obtain ss1 err where er: "enable_read os k False ?ss = (ss1, err)" "frame k ?ss ss1"
    "ss_slot ss1 k = (ss_slot ?ss k)\<lparr>s_reading := False\<rparr>" by (rule enable_read_cases)
  have fr: "frame k ss (do_sys os (Sys_shutdown_rd (s_fd (ss_slot ss1 k))) ss1)"
    by (rule frame_trans [OF frame_trans [OF frame_type er(2)] frame_sys(2)])
  have "handled k ss (do_sys os (Sys_shutdown_rd (s_fd (ss_slot ss1 k))) ss1)"
    using er(3) assms by (intro handledI [OF fr]) (auto simp: busy_def live_def)
  with er(1,3) show ?thesis by (intro that) (auto simp: close_read_def Let_def)
qed

lemma busy_io: "busy k l ss \<Longrightarrow> busy k l (fst (sys os c ss))"
  by (simp add: busy_def)

lemma busy_upd:
  assumes "busy k l ss" "\<And>s. live (f s) = live s \<and> bufs_ok (f s) = bufs_ok s \<and> s_dw_lock (f s) = s_dw_lock s"
  shows "busy k l (upd_slot k f ss)"
  using assms by (simp add: busy_def)

lemma live_fields [simp]: "live (s\<lparr>s_stat := x\<rparr>) = live s" "live (s\<lparr>s_size := n\<rparr>) = live s" "live (s\<lparr>s_writing := b\<rparr>) = live s"
  "live (s\<lparr>s_reading := b\<rparr>) = live s" "live (s\<lparr>s_closing := b\<rparr>) = live s" "live (s\<lparr>s_warn_size := n\<rparr>) = live s"
  "live (s\<lparr>s_opaque := opq\<rparr>) = live s" "live (s\<lparr>s_udp_address := a\<rparr>) = live s" "live (s\<lparr>s_udpconnecting := n\<rparr>) = live s"
  "live (s\<lparr>s_sending := m\<rparr>) = live s"
  by (simp_all add: live_def)

lemma stat_read_ok:
  assumes "busy k l ss"
  shows "handled k ss (stat_read k n ss)" "handled k ss (upd_slot k (\<lambda>s. s\<lparr>s_size := f (s_size s)\<rparr>) (stat_read k n ss))"
  using assms unfolding stat_read_def
  by (auto intro!: handledI frame_trans [OF frame_upd frame_upd] frame_upd simp: busy_def)

lemma forward_message_tcp_ok:
  assumes busy: "busy k 0 ss"
  shows "\<exists>ss' r. forward_message_tcp os k 0 ss = Inr (ss', 0, r) \<and> handled k ss ss'"
proof -
  let ?s = "ss_slot ss k" and ?c = "Sys_read (s_fd (ss_slot ss k)) (s_size (ss_slot ss k))"
  let ?ss = "fst (sys os ?c ss)"
  have b: "busy k 0 ?ss" using busy by (rule busy_io)
  have io: "handled k ?ss ss' \<Longrightarrow> handled k ss ss'" for ss' by (rule handled_trans [OF frame_sys(1)])
  obtain ss1 r1 where close: "force_close os k 0 ?ss = Inr (ss1, 0, r1)" "handled k ss ss1"
    using force_close_busy [OF b, of os] io by metis
  obtain ss2 r2 where half: "close_read os k ?ss = (ss2, r2)" "handled k ss ss2"
    using close_read_ok [OF b, of os] io by metis
  show ?thesis
    using close half io [OF busy_handled [OF b]] io [OF stat_read_ok(1) [OF b]] io [OF stat_read_ok(2) [OF b]]
    by (auto simp: forward_message_tcp_def Let_def split_beta)
qed

lemma forward_message_udp_ok:
  assumes busy: "busy k 0 ss"
  shows "\<exists>ss' r. forward_message_udp os k 0 ss = Inr (ss', 0, r) \<and> handled k ss ss'"
proof -
  let ?c = "Sys_recvfrom (s_fd (ss_slot ss k))"
  let ?ss = "fst (sys os ?c ss)"
  have b: "busy k 0 ?ss" using busy by (rule busy_io)
  have io: "handled k ?ss ss' \<Longrightarrow> handled k ss ss'" for ss' by (rule handled_trans [OF frame_sys(1)])
  obtain ss1 r1 where close: "force_close os k 0 ?ss = Inr (ss1, 0, r1)" "handled k ss ss1"
    using force_close_busy [OF b, of os] io by metis
  show ?thesis
    using close io [OF busy_handled [OF b]] io [OF stat_read_ok(1) [OF b]]
    by (auto simp: forward_message_udp_def Let_def split_beta)
qed

lemma report_connect_ok:
  assumes busy: "busy k 0 ss"
  shows "\<exists>ss' r. report_connect os k 0 ss = Inr (ss', 0, r) \<and> handled k ss ss'"
proof -
  let ?ss = "fst (sys os (Sys_getsockopt_error (s_fd (ss_slot ss k))) ss)"
  let ?con = "set_type k SOCKET_TYPE_CONNECTED ?ss"
  have b: "busy k 0 ?ss" using busy by (rule busy_io)
  have bc: "busy k 0 ?con" using b by (simp add: busy_def live_def)
  have io: "handled k ?ss ss' \<Longrightarrow> handled k ss ss'" for ss' by (rule handled_trans [OF frame_sys(1)])
  have ioc: "handled k ?con ss' \<Longrightarrow> handled k ss ss'" for ss' by (rule handled_trans [OF frame_trans [OF frame_sys(1) frame_type]])
  obtain ss1 r1 where close: "force_close os k 0 ?ss = Inr (ss1, 0, r1)" "handled k ss ss1"
    using force_close_busy [OF b, of os] io by metis
  obtain ss2 err where ew: "enable_write os k False ?con = (ss2, err)" "frame k ?con ss2"
    "ss_slot ss2 k = (ss_slot ?con k)\<lparr>s_writing := False\<rparr>" by (rule enable_cases)
  have b2: "busy k 0 ss2" using ew(3) bc by (simp add: busy_def)
  have io2: "handled k ss2 ss' \<Longrightarrow> handled k ss ss'" for ss' by (rule ioc, rule handled_trans [OF ew(2)])
  obtain ss3 r3 where close2: "force_close os k 0 ss2 = Inr (ss3, 0, r3)" "handled k ss ss3"
    using force_close_busy [OF b2, of os] io2 by metis
  have name: "handled k ss (fst (sys os c ss2))" "handled k ss (fst (sys os c ?con))" for c
    using io2 [OF handled_trans [OF frame_sys(1) busy_handled [OF busy_io [OF b2]]]]
      ioc [OF handled_trans [OF frame_sys(1) busy_handled [OF busy_io [OF bc]]]] by auto
  show ?thesis
    using close close2 ew(1) name by (auto simp: report_connect_def Let_def split_beta)
qed

end
