(* ===== verification/Socket_Invariant.thy ===== *)
theory Socket_Invariant
  imports Socket_Handlers
begin

text \<open>
  The invariant of the table of sockets, the pipe and the pending events, and that every round of the
  socket thread keeps it.
\<close>

section \<open>The invariant\<close>

text \<open>The id a request is about, and the id it opens.\<close>

fun req_id :: "request \<Rightarrow> int option" where
  "req_id (Req_resume i _) = Some i"
| "req_id (Req_pause i _) = Some i"
| "req_id (Req_bind i _ _) = Some i"
| "req_id (Req_listen i _ _) = Some i"
| "req_id (Req_close i _ _) = Some i"
| "req_id (Req_open i _ _ _) = Some i"
| "req_id Req_exit = None"
| "req_id (Req_trigger i) = Some i"
| "req_id (Req_send _ i _) = Some i"
| "req_id (Req_send_udp i _ _) = Some i"
| "req_id (Req_set_udp i _) = Some i"
| "req_id (Req_setopt i _ _) = Some i"
| "req_id (Req_udp i _ _ _) = Some i"

definition opens :: "request \<Rightarrow> int option" where
  "opens r = (case r of Req_bind i _ _ \<Rightarrow> Some i | Req_listen i _ _ \<Rightarrow> Some i | Req_open i _ _ _ \<Rightarrow> Some i
     | Req_udp i _ _ _ \<Rightarrow> Some i | _ \<Rightarrow> None)"

text \<open>A send that holds a reference (D or P).\<close>

definition is_send :: "int \<Rightarrow> request \<Rightarrow> bool" where
  "is_send i r = (case r of Req_send _ j _ \<Rightarrow> j = i | _ \<Rightarrow> False)"

definition sends :: "int \<Rightarrow> request list \<Rightarrow> nat" where
  "sends i rs = length (filter (is_send i) rs)"

definition plain :: "request \<Rightarrow> bool" where
  "plain r = (case r of Req_send _ _ p \<Rightarrow> \<exists>bs. p = Memory bs | Req_send_udp _ p _ \<Rightarrow> \<exists>bs. p = Memory bs | _ \<Rightarrow> True)"

definition slots_ok :: "(nat \<Rightarrow> socket) \<Rightarrow> bool" where
  "slots_ok slot \<longleftrightarrow> (\<forall>k. sock_ok (slot k) \<and> \<not> s_dw_lock (slot k)
     \<and> (s_type (slot k) \<noteq> SOCKET_TYPE_INVALID \<longrightarrow> HASH_ID (s_id (slot k)) = k)
     \<and> (live (slot k) \<longrightarrow> s_sending (slot k) div 65536 = ID_TAG16 (s_id (slot k))))"

definition refs_ok :: "(nat \<Rightarrow> socket) \<Rightarrow> request list \<Rightarrow> bool" where
  "refs_ok slot pipe \<longleftrightarrow> (\<forall>k. HASH_ID (s_id (slot k)) = k \<longrightarrow> s_protocol (slot k) = PROTOCOL_TCP \<longrightarrow>
     sends (s_id (slot k)) pipe \<le> s_sending (slot k) mod 65536)"

text \<open>A reserved slot waits for the request that opens it, before which no request is about its id.\<close>

definition pipe_ok :: "(nat \<Rightarrow> socket) \<Rightarrow> request list \<Rightarrow> bool" where
  "pipe_ok slot pipe \<longleftrightarrow> (\<forall>r \<in> set pipe. plain r)
     \<and> (\<forall>k. s_type (slot k) = SOCKET_TYPE_RESERVE \<longrightarrow>
          sends (s_id (slot k)) pipe = 0 \<and> (\<exists>r \<in> set pipe. opens r = Some (s_id (slot k))))
     \<and> (\<forall>pre r post i. pipe = pre @ r # post \<longrightarrow> opens r = Some i \<longrightarrow>
          s_type (slot (HASH_ID i)) = SOCKET_TYPE_RESERVE \<and> s_id (slot (HASH_ID i)) = i
          \<and> (\<forall>q \<in> set pre. req_id q \<noteq> Some i))"

definition events_ok :: "socket_server \<Rightarrow> bool" where
  "events_ok ss \<longleftrightarrow> ss_event_n ss = length (ss_ev ss) \<and> ss_event_index ss \<le> ss_event_n ss
     \<and> (\<forall>j k. ss_event_index ss \<le> j \<longrightarrow> j < ss_event_n ss \<longrightarrow> e_s (ss_ev ss ! j) = Some k \<longrightarrow>
          s_type (ss_slot ss k) \<noteq> SOCKET_TYPE_RESERVE)"

definition server_ok :: "socket_server \<Rightarrow> bool" where
  "server_ok ss \<longleftrightarrow> slots_ok (ss_slot ss) \<and> refs_ok (ss_slot ss) (ss_pipe ss) \<and> pipe_ok (ss_slot ss) (ss_pipe ss)
     \<and> events_ok ss"

lemma sends_simps [simp]: "sends i [] = 0" "sends i (r # rs) = (if is_send i r then 1 else 0) + sends i rs"
  "sends i (rs @ rs') = sends i rs + sends i rs'"
  by (simp_all add: sends_def)

lemma sends_req_id: "(\<forall>r \<in> set rs. req_id r \<noteq> Some i) \<Longrightarrow> sends i rs = 0"
  by (induction rs) (auto simp: is_send_def split: request.splits)

text \<open>Steps on one slot that neither reserve nor open it.\<close>

definition kept :: "nat \<Rightarrow> socket_server \<Rightarrow> socket_server \<Rightarrow> bool" where
  "kept k ss ss' \<longleftrightarrow> frame k ss ss' \<and> sock_ok (ss_slot ss' k)
     \<and> (s_type (ss_slot ss' k) = SOCKET_TYPE_RESERVE \<longleftrightarrow> s_type (ss_slot ss k) = SOCKET_TYPE_RESERVE)
     \<and> (live (ss_slot ss' k) \<longrightarrow> live (ss_slot ss k))"

lemma kept_refl: "server_ok ss \<Longrightarrow> frame k ss ss' \<Longrightarrow> ss_slot ss' k = ss_slot ss k \<Longrightarrow> kept k ss ss'"
  by (simp add: kept_def server_ok_def slots_ok_def)

lemma handled_kept: "busy k l ss \<Longrightarrow> handled k ss ss' \<Longrightarrow> kept k ss ss'"
  by (auto simp: handled_def kept_def busy_def live_def)

text \<open>Slots before and after such a step.\<close>

lemma kept_slot:
  assumes "kept k ss ss'"
  shows "s_id (ss_slot ss' j) = s_id (ss_slot ss j)" "s_protocol (ss_slot ss' j) = s_protocol (ss_slot ss j)"
    "s_sending (ss_slot ss' j) = s_sending (ss_slot ss j)" "s_dw_lock (ss_slot ss' j) = s_dw_lock (ss_slot ss j)"
    "s_type (ss_slot ss' j) = SOCKET_TYPE_RESERVE \<longleftrightarrow> s_type (ss_slot ss j) = SOCKET_TYPE_RESERVE"
    "live (ss_slot ss' j) \<Longrightarrow> live (ss_slot ss j)"
    "s_type (ss_slot ss' j) \<noteq> SOCKET_TYPE_INVALID \<Longrightarrow> s_type (ss_slot ss j) \<noteq> SOCKET_TYPE_INVALID"
  using assms by (cases "j = k"; auto simp: kept_def frame_def live_def)+

lemma server_ok_kept:
  assumes "server_ok ss" "kept k ss ss'"
  shows "server_ok ss'"
proof -
  note s = kept_slot [OF assms(2)]
  have same: "ss_pipe ss' = ss_pipe ss" "ss_ev ss' = ss_ev ss" "ss_event_n ss' = ss_event_n ss" "ss_event_index ss' = ss_event_index ss"
    using assms(2) by (simp_all add: kept_def frame_def)
  have "sock_ok (ss_slot ss' j)" for j
    using assms by (cases "j = k") (auto simp: kept_def frame_def server_ok_def slots_ok_def)
  then have "slots_ok (ss_slot ss')" using assms(1) s by (auto simp: server_ok_def slots_ok_def)
  moreover have "refs_ok (ss_slot ss') (ss_pipe ss')" using assms(1) by (simp add: server_ok_def refs_ok_def s same)
  moreover have "pipe_ok (ss_slot ss') (ss_pipe ss')" using assms(1) by (simp add: server_ok_def pipe_ok_def s same)
  moreover have "events_ok ss'" using assms(1) by (simp add: server_ok_def events_ok_def s same)
  ultimately show ?thesis by (simp add: server_ok_def)
qed

lemma server_ok_busy: "server_ok ss \<Longrightarrow> live (ss_slot ss k) \<Longrightarrow> busy k 0 ss"
  by (auto simp: server_ok_def slots_ok_def busy_def sock_ok_def split: if_splits)

section \<open>Requests about sockets in use\<close>

lemma kept_live:
  assumes "frame k ss ss'" "live (ss_slot ss k)" "live (ss_slot ss' k)" "bufs_ok (ss_slot ss' k)"
  shows "kept k ss ss'"
  using assms by (auto simp: kept_def sock_ok_def live_def)

lemma kept_trans: "kept k ss ss' \<Longrightarrow> kept k ss' ss'' \<Longrightarrow> kept k ss ss''"
  using frame_trans by (auto simp: kept_def)

lemma close_socket_ok:
  assumes ok: "server_ok ss" and use: "socket_invalid (ss_slot ss (HASH_ID i)) i \<or> live (ss_slot ss (HASH_ID i))"
  shows "\<exists>ss' r. close_socket os i sd ss = Inr (ss', r) \<and> kept (HASH_ID i) ss ss'"
proof (cases "socket_invalid (ss_slot ss (HASH_ID i)) i")
  case True
  with kept_refl [OF ok] show ?thesis by (simp add: close_socket_def)
next
  case False
  let ?k = "HASH_ID i"
  have busy: "busy ?k 0 ss" using use False server_ok_busy [OF ok] by simp
  obtain ss1 r1 where close: "force_close os ?k 0 ss = Inr (ss1, 0, r1)" "kept ?k ss ss1"
    using force_close_busy [OF busy, of os] handled_kept [OF busy] by metis
  let ?ss = "upd_slot ?k (\<lambda>s. s\<lparr>s_closing := True\<rparr>) ss"
  have b2: "busy ?k 0 ?ss" using busy by (simp add: busy_def)
  have k2: "kept ?k ss ?ss" using busy by (intro kept_live frame_upd) (auto simp: busy_def)
  obtain ss2 r2 where half: "close_read os ?k ?ss = (ss2, r2)" "kept ?k ss ss2"
    using close_read_ok [OF b2, of os] handled_kept [OF b2] kept_trans [OF k2] by metis
  show ?thesis using False close half k2 by (auto simp: close_socket_def Let_def)
qed

lemma enable_kept:
  assumes "busy k 0 ss"
  obtains ss' err where "enable_write os k b ss = (ss', err)" "kept k ss ss'" "busy k 0 ss'"
    "ss_slot ss' k = (ss_slot ss k)\<lparr>s_writing := b\<rparr>"
proof -
  obtain ss' err where e: "enable_write os k b ss = (ss', err)" "frame k ss ss'"
    "ss_slot ss' k = (ss_slot ss k)\<lparr>s_writing := b\<rparr>" by (rule enable_cases)
  with assms show ?thesis by (intro that [OF e(1)] kept_live) (auto simp: busy_def)
qed

lemma enable_read_kept:
  assumes "busy k 0 ss"
  obtains ss' err where "enable_read os k b ss = (ss', err)" "kept k ss ss'" "busy k 0 ss'"
    "ss_slot ss' k = (ss_slot ss k)\<lparr>s_reading := b\<rparr>"
proof -
  obtain ss' err where e: "enable_read os k b ss = (ss', err)" "frame k ss ss'"
    "ss_slot ss' k = (ss_slot ss k)\<lparr>s_reading := b\<rparr>" by (rule enable_read_cases)
  with assms show ?thesis by (intro that [OF e(1)] kept_live) (auto simp: busy_def)
qed

lemma kept_upd:
  assumes "busy k 0 ss" "\<And>s. s_id (f s) = s_id s \<and> s_protocol (f s) = s_protocol s \<and> s_sending (f s) = s_sending s \<and> s_dw_lock (f s) = s_dw_lock s"
    and "live (f (ss_slot ss k))" "bufs_ok (f (ss_slot ss k))"
  shows "kept k ss (upd_slot k f ss)"
  using assms by (intro kept_live frame_upd) (auto simp: busy_def)

lemma resume_socket_ok:
  assumes ok: "server_ok ss" and use: "socket_invalid (ss_slot ss (HASH_ID i)) i \<or> live (ss_slot ss (HASH_ID i))"
  shows "kept (HASH_ID i) ss (fst (resume_socket os i opq ss))"
proof (cases "socket_invalid (ss_slot ss (HASH_ID i)) i")
  case True
  with kept_refl [OF ok] show ?thesis by (simp add: resume_socket_def Let_def)
next
  case False
  let ?k = "HASH_ID i"
  have busy: "busy ?k 0 ss" using use False server_ok_busy [OF ok] by simp
  obtain ss' err where e: "enable_read os ?k True ss = (ss', err)" "kept ?k ss ss'" "busy ?k 0 ss'"
    by (rule enable_read_kept [OF busy])
  have "kept ?k ss' (upd_slot ?k (\<lambda>s. s\<lparr>s_type := t, s_opaque := opq\<rparr>) ss')" if "t = SOCKET_TYPE_CONNECTED \<or> t = SOCKET_TYPE_LISTEN" for t
    using that e(3) by (intro kept_upd) (auto simp: busy_def)
  moreover have "kept ?k ss' (upd_slot ?k (\<lambda>s. s\<lparr>s_opaque := opq\<rparr>) ss')"
    using e(3) by (intro kept_upd) (auto simp: busy_def)
  ultimately show ?thesis using False e(1,2) kept_trans [OF e(2)] kept_refl [OF ok, of ?k ss]
    by (auto simp: resume_socket_def Let_def)
qed

lemma pause_socket_ok:
  assumes ok: "server_ok ss" and use: "socket_invalid (ss_slot ss (HASH_ID i)) i \<or> live (ss_slot ss (HASH_ID i))"
  shows "kept (HASH_ID i) ss (fst (pause_socket os i ss))"
proof (cases "socket_invalid (ss_slot ss (HASH_ID i)) i")
  case True
  with kept_refl [OF ok] show ?thesis by (simp add: pause_socket_def)
next
  case False
  then have busy: "busy (HASH_ID i) 0 ss" using use server_ok_busy [OF ok] by simp
  obtain ss' err where "enable_read os (HASH_ID i) False ss = (ss', err)" "kept (HASH_ID i) ss ss'"
    by (rule enable_read_kept [OF busy])
  with False show ?thesis by (simp add: pause_socket_def)
qed

lemma trigger_write_ok:
  assumes ok: "server_ok ss" and use: "socket_invalid (ss_slot ss (HASH_ID i)) i \<or> live (ss_slot ss (HASH_ID i))"
  shows "\<exists>ss' r. trigger_write os i ss = Inr (ss', r) \<and> kept (HASH_ID i) ss ss'"
proof (cases "socket_invalid (ss_slot ss (HASH_ID i)) i")
  case True
  with kept_refl [OF ok] show ?thesis by (simp add: trigger_write_def)
next
  case False
  then have busy: "busy (HASH_ID i) 0 ss" using use server_ok_busy [OF ok] by simp
  obtain ss' err where "enable_write os (HASH_ID i) True ss = (ss', err)" "kept (HASH_ID i) ss ss'"
    by (rule enable_kept [OF busy])
  with False show ?thesis by (simp add: trigger_write_def)
qed

lemma set_udp_address_ok:
  assumes ok: "server_ok ss" and use: "socket_invalid (ss_slot ss (HASH_ID i)) i \<or> live (ss_slot ss (HASH_ID i))"
  shows "kept (HASH_ID i) ss (fst (set_udp_address i addr ss))"
proof (cases "socket_invalid (ss_slot ss (HASH_ID i)) i")
  case True
  with kept_refl [OF ok] show ?thesis by (simp add: set_udp_address_def Let_def)
next
  case False
  let ?k = "HASH_ID i"
  have busy: "busy ?k 0 ss" using False use server_ok_busy [OF ok] by simp
  have "kept ?k ss (set_slot ?k ((ss_slot ss ?k)\<lparr>s_udp_address := a, s_udpconnecting := n\<rparr>) ss)" for a n
    using busy by (intro kept_live frame_slot) (auto simp: busy_def)
  with kept_refl [OF ok, of ?k ss] show ?thesis by (simp add: set_udp_address_def Let_def)
qed

lemma append_sendbuffer_ok:
  assumes busy: "busy k 0 ss" and addr: "s_protocol (ss_slot ss k) \<noteq> PROTOCOL_TCP \<Longrightarrow> addr \<noteq> None"
  shows "\<exists>ss'. append_sendbuffer k pr (Memory bs) addr ss = Inr ss' \<and> kept k ss ss' \<and> busy k 0 ss'"
proof -
  let ?buf = "\<lparr>wb_buffer = Memory bs, wb_ptr = 0, wb_sz = length bs, wb_userobject = False, wb_udp_address = addr\<rparr>"
  let ?wl = "\<lparr>wl_head = wl_head (get_list pr (ss_slot ss k)) @ [?buf], wl_tail = True\<rparr>"
  let ?f = "\<lambda>s. set_list pr ?wl (s\<lparr>s_wb_size := s_wb_size s + int (length bs)\<rparr>)"
  have "wl_tail (get_list pr (ss_slot ss k)) \<longleftrightarrow> wl_head (get_list pr (ss_slot ss k)) \<noteq> []"
    using busy_list(2) [OF busy] by (simp add: wl_ok_def)
  then have wl: "wl_head (get_list pr (ss_slot ss k)) \<noteq> [] \<Longrightarrow>
      (get_list pr (ss_slot ss k))\<lparr>wl_head := wl_head (get_list pr (ss_slot ss k)) @ [?buf]\<rparr> = ?wl"
    by (cases "get_list pr (ss_slot ss k)") simp
  have app: "append_sendbuffer k pr (Memory bs) addr ss = Inr (upd_slot k ?f ss)"
    using busy_list(2) [OF busy, of pr]
    by (cases "wl_head (get_list pr (ss_slot ss k)) = []")
      (simp_all add: append_sendbuffer_def append_sendbuffer_to_def send_object_init_def wl_ok_def wl)
  have "live (?f (ss_slot ss k))" "bufs_ok (?f (ss_slot ss k))" "s_dw_lock (?f (ss_slot ss k)) = s_dw_lock (ss_slot ss k)"
    using busy addr by (cases pr; auto simp: busy_def bufs_ok_def wb_ok_def wl_ok_def set_list_def get_list_def live_def)+
  moreover from this have "kept k ss (upd_slot k ?f ss)" using busy by (intro kept_upd) auto
  ultimately show ?thesis using app busy by (auto simp: busy_def)
qed

lemma kept_io:
  assumes "server_ok ss"
  shows "kept k ss (do_sys os c ss)" "kept k ss (fst (sys os c ss))" "kept k ss (ss\<lparr>ss_freed := f\<rparr>)"
    "kept k ss ((do_sys os c ss)\<lparr>ss_freed := f\<rparr>)"
  by (rule kept_refl [OF assms]; simp add: frame_trans [OF frame_sys(2) frame_sys(3)])+

lemma stat_write_kept:
  assumes "busy k 0 ss"
  shows "kept k ss (stat_write k n ss)"
  unfolding stat_write_def using assms by (intro kept_upd) (auto simp: busy_def)

lemma send_warning_kept: "busy k 0 ss \<Longrightarrow> kept k ss (fst (send_warning k ss))"
  unfolding send_warning_def Let_def by (auto intro!: kept_live frame_upd simp: busy_def)

lemma send_socket_ok:
  assumes ok: "server_ok ss" and use: "socket_invalid (ss_slot ss (HASH_ID i)) i \<or> live (ss_slot ss (HASH_ID i))"
  shows "\<exists>ss' r. send_socket os i (Memory bs) pr a ss = Inr (ss', r) \<and> kept (HASH_ID i) ss ss'"
proof -
  let ?k = "HASH_ID i" let ?s = "ss_slot ss ?k"
  note io = kept_io [OF ok, of ?k]
  show ?thesis
  proof (cases "s_type ?s = SOCKET_TYPE_INVALID \<or> s_id ?s \<noteq> i \<or> s_type ?s = SOCKET_TYPE_HALFCLOSE_WRITE
      \<or> s_type ?s = SOCKET_TYPE_PACCEPT \<or> s_closing ?s \<or> s_type ?s = SOCKET_TYPE_PLISTEN \<or> s_type ?s = SOCKET_TYPE_LISTEN")
    case True
    then show ?thesis using io by (auto simp: send_socket_def send_object_init_def free_payload_def Let_def)
  next
    case False
    have busy: "busy ?k 0 ss" using False use server_ok_busy [OF ok] by (auto simp: socket_invalid_def)
    have start: "\<exists>ss' r. (let (ss, err) = enable_write os ?k True ss1 in
        if err then Inr (ss, report_error ?k (Text ''enable write failed'') ss) else Inr (send_warning ?k ss)) = (Inr (ss', r) :: (socket_server \<times> ret) res)
        \<and> kept ?k ss ss'" if b1: "busy ?k 0 ss1" and k1: "kept ?k ss ss1" for ss1
    proof -
      obtain ss2 err where e: "enable_write os ?k True ss1 = (ss2, err)" "kept ?k ss1 ss2" "busy ?k 0 ss2"
        by (rule enable_kept [OF b1])
      obtain ss3 r where w: "send_warning ?k ss2 = (ss3, r)" by fastforce
      with send_warning_kept [OF e(3)] e(1,2) k1 show ?thesis by (auto intro: kept_trans)
    qed
    have more: "\<exists>ss' r. bindE (append_sendbuffer ?k pr' (Memory bs) addr ss) (\<lambda>ss. Inr (send_warning ?k ss)) = (Inr (ss', r) :: (socket_server \<times> ret) res)
        \<and> kept ?k ss ss'" if a: "s_protocol ?s \<noteq> PROTOCOL_TCP \<Longrightarrow> addr \<noteq> None" for addr pr'
    proof -
      from append_sendbuffer_ok [OF busy a] obtain ss1 where
        s1: "append_sendbuffer ?k pr' (Memory bs) addr ss = Inr ss1" "kept ?k ss ss1" "busy ?k 0 ss1" by blast
      obtain ss3 r where w: "send_warning ?k ss1 = (ss3, r)" by fastforce
      with send_warning_kept [OF s1(3)] s1 show ?thesis by (auto intro: kept_trans)
    qed
    have first: "\<exists>ss' r. bindE (append_sendbuffer ?k pr' (Memory bs) addr ss1) (\<lambda>ss. let (ss, err) = enable_write os ?k True ss in
        if err then Inr (ss, report_error ?k (Text ''enable write failed'') ss) else Inr (send_warning ?k ss)) = (Inr (ss', r) :: (socket_server \<times> ret) res)
        \<and> kept ?k ss ss'" if a: "s_protocol ?s \<noteq> PROTOCOL_TCP \<Longrightarrow> addr \<noteq> None" and k1: "kept ?k ss ss1"
        and s1: "ss_slot ss1 ?k = ?s" for addr pr' ss1
    proof -
      have "busy ?k 0 ss1" using busy s1 by (simp add: busy_def)
      from append_sendbuffer_ok [OF this, of addr pr' bs] a s1 obtain ss2 where
        s2: "append_sendbuffer ?k pr' (Memory bs) addr ss1 = Inr ss2" "kept ?k ss1 ss2" "busy ?k 0 ss2" by auto
      show ?thesis using start [OF s2(3) kept_trans [OF k1 s2(2)]] s2(1) by simp
    qed
    show ?thesis
    proof (cases "s_protocol ?s = PROTOCOL_TCP")
      case True
      then show ?thesis using False first [OF _ kept_refl [OF ok frame_refl], of None PRIORITY_HIGH] more [of None pr]
        by (auto simp: send_socket_def send_object_init_def Let_def)
    next
      case udp: False
      let ?addr = "case a of None \<Rightarrow> s_udp_address ?s | Some b \<Rightarrow> b"
      show ?thesis
      proof (cases "send_buffer_empty ?s")
        case True
        show ?thesis
        proof (cases "udp_socket_address ?s ?addr")
          case None
          with True udp False io show ?thesis by (auto simp: send_socket_def send_object_init_def free_payload_def Let_def)
        next
          case (Some sa)
          let ?c = "Sys_sendto (s_fd ?s) bs sa"
          have b: "busy ?k 0 (fst (sys os ?c ss))" using busy by (rule busy_io)
          have "kept ?k ss ((stat_write ?k n (fst (sys os ?c ss)))\<lparr>ss_freed := f\<rparr>)" for n f
            using kept_trans [OF io(2) stat_write_kept [OF b]] by (auto simp: kept_def frame_def)
          then show ?thesis using first [of "Some ?addr" "fst (sys os ?c ss)" pr] io(2) Some True udp False
            by (auto simp: send_socket_def send_object_init_def free_payload_def Let_def split_beta)
        qed
      next
        case False': False
        then show ?thesis using False udp more [of "Some ?addr" pr] by (auto simp: send_socket_def send_object_init_def Let_def)
      qed
    qed
  qed
qed

section \<open>Requests that open a socket\<close>

definition outer :: "nat \<Rightarrow> socket_server \<Rightarrow> socket_server \<Rightarrow> bool" where
  "outer k ss ss' \<longleftrightarrow> ss_pipe ss' = ss_pipe ss \<and> ss_event_n ss' = ss_event_n ss
     \<and> ss_event_index ss' = ss_event_index ss \<and> ss_ev ss' = ss_ev ss \<and> ss_checkctrl ss' = ss_checkctrl ss
     \<and> (\<forall>j. j \<noteq> k \<longrightarrow> ss_slot ss' j = ss_slot ss j)"

lemma outer_trans: "outer k ss ss' \<Longrightarrow> outer k ss' ss'' \<Longrightarrow> outer k ss ss''"
  by (simp add: outer_def)

lemma outer_simps [simp]: "outer k ss (do_sys os c ss)" "outer k ss (fst (sys os c ss))" "outer k ss (set_type k t ss)"
  "outer k ss (set_slot k s ss)" "outer k ss (upd_slot k f ss)" "outer k ss ss" "outer k ss (ss\<lparr>ss_io := io\<rparr>)"
  "outer k ss (ss\<lparr>ss_alloc_id := a\<rparr>)"
  by (simp_all add: outer_def srv)

lemma frame_outer: "frame k ss ss' \<Longrightarrow> outer k ss ss'"
  by (simp add: frame_def outer_def)

definition reserved :: "nat \<Rightarrow> int \<Rightarrow> socket_server \<Rightarrow> bool" where
  "reserved k i ss \<longleftrightarrow> k = HASH_ID i \<and> s_type (ss_slot ss k) = SOCKET_TYPE_RESERVE \<and> s_id (ss_slot ss k) = i
     \<and> cleared (ss_slot ss k) \<and> \<not> s_dw_lock (ss_slot ss k)"

definition opened :: "nat \<Rightarrow> int \<Rightarrow> socket_server \<Rightarrow> socket_server \<Rightarrow> bool" where
  "opened k i ss ss' \<longleftrightarrow> outer k ss ss' \<and> sock_ok (ss_slot ss' k) \<and> s_type (ss_slot ss' k) \<noteq> SOCKET_TYPE_RESERVE
     \<and> \<not> s_dw_lock (ss_slot ss' k) \<and> s_id (ss_slot ss' k) = i
     \<and> (live (ss_slot ss' k) \<longrightarrow> s_sending (ss_slot ss' k) = ID_TAG16 i * 65536)"

text \<open>A slot that \<^verbatim>\<open>new_fd\<close> has filled and whose type is still to be set.\<close>

definition ready :: "nat \<Rightarrow> int \<Rightarrow> socket_server \<Rightarrow> bool" where
  "ready k i ss \<longleftrightarrow> bufs_ok (ss_slot ss k) \<and> cleared (ss_slot ss k) \<and> s_id (ss_slot ss k) = i \<and> \<not> s_dw_lock (ss_slot ss k)
     \<and> s_sending (ss_slot ss k) = ID_TAG16 i * 65536"

lemma opened_live:
  assumes "outer k ss ss'" "ready k i ss'" "t \<noteq> SOCKET_TYPE_INVALID" "t \<noteq> SOCKET_TYPE_RESERVE"
  shows "opened k i ss (set_type k t ss')" "opened k i ss (set_type k t (do_sys os c ss'))"
  using assms outer_trans [OF assms(1) outer_simps(3)]
    outer_trans [OF assms(1) outer_trans [OF outer_simps(1) outer_simps(3)]] unfolding opened_def
  by (auto simp: ready_def sock_ok_def live_def)

lemma opened_failed:
  assumes "outer k ss ss'" "cleared (ss_slot ss' k)" "\<not> s_dw_lock (ss_slot ss' k)" "s_id (ss_slot ss' k) = i"
  shows "opened k i ss (set_type k SOCKET_TYPE_INVALID ss')"
  using assms outer_trans [OF assms(1)] unfolding opened_def
  by (auto simp: sock_ok_def live_def cleared_def)

lemma new_fd_ok:
  assumes res: "reserved k i ss" and proto: "proto \<noteq> PROTOCOL_UNKNOWN"
  obtains ss' where "new_fd os i fd proto opq rd ss = Inr (ss', True)" "outer k ss ss'" "ready k i ss'"
  | ss' where "new_fd os i fd proto opq rd ss = Inr (ss', False)" "outer k ss ss'" "s_type (ss_slot ss' k) = SOCKET_TYPE_INVALID"
      "cleared (ss_slot ss' k)" "\<not> s_dw_lock (ss_slot ss' k)" "s_id (ss_slot ss' k) = i"
proof -
  have k: "HASH_ID i = k" and s: "s_type (ss_slot ss k) = SOCKET_TYPE_RESERVE" "s_id (ss_slot ss k) = i"
    "cleared (ss_slot ss k)" "\<not> s_dw_lock (ss_slot ss k)" using res by (auto simp: reserved_def)
  let ?add = "Sp_add fd (Some k)"
  let ?r = "os (ss_io ss) ?add"
  let ?ss = "ss\<lparr>ss_io := ss_io ss @ [(?add, ?r)]\<rparr>"
  have r: "sys os ?add ss = (?ss, ?r)" by (simp add: sys_def Let_def)
  show ?thesis
  proof (cases "sr_n ?r = -1")
    case True
    show ?thesis
    proof (rule that(2))
      show "new_fd os i fd proto opq rd ss = Inr (set_type k SOCKET_TYPE_INVALID ?ss, False)"
        using True s(1) by (simp add: new_fd_def k r Let_def)
      show "outer k ss (set_type k SOCKET_TYPE_INVALID ?ss)" by (rule outer_trans [OF outer_simps(7) outer_simps(3)])
    qed (use s in \<open>simp_all add: cleared_def\<close>)
  next
    case False
    let ?s = "(ss_slot ss k)\<lparr>s_id := i, s_fd := fd, s_reading := True, s_writing := False, s_closing := False,
        s_sending := ID_TAG16 i * 65536, s_protocol := proto, s_size := MIN_READ_BUFFER, s_opaque := opq,
        s_wb_size := 0, s_warn_size := 0, s_dw_buffer := None,
        s_stat := \<lparr>st_rtime = 0, st_wtime = 0, st_read = 0, st_write = 0\<rparr>\<rparr>"
    let ?mid = "set_slot k ?s ?ss"
    obtain ss' err where er: "enable_read os k rd ?mid = (ss', err)" "frame k ?mid ss'"
      "ss_slot ss' k = ?s\<lparr>s_reading := rd\<rparr>" using enable_read_cases [of os k rd ?mid] by auto
    have run: "new_fd os i fd proto opq rd ss = (if err then Inr (set_type k SOCKET_TYPE_INVALID ss', False) else Inr (ss', True))"
    proof -
      have "upd_slot k (\<lambda>s. s\<lparr>s_dw_buffer := None, s_stat := st\<rparr>) (set_slot k x y)
          = set_slot k (x\<lparr>s_dw_buffer := None, s_stat := st\<rparr>) y" for x y st by (simp add: srv)
      with False s er(1) show ?thesis by (simp add: new_fd_def k r Let_def check_wb_list_def cleared_def clear_wb_list_def)
    qed
    have out: "outer k ss ss'"
      by (rule outer_trans [OF outer_trans [OF outer_simps(7) outer_simps(4)] frame_outer [OF er(2)]])
    have rdy: "ready k i ss'" using er(3) s proto
      by (auto simp: ready_def bufs_ok_def cleared_def clear_wb_list_def wl_ok_def)
    show ?thesis
    proof (cases err)
      case True
      show ?thesis
      proof (rule that(2))
        show "new_fd os i fd proto opq rd ss = Inr (set_type k SOCKET_TYPE_INVALID ss', False)" using run True by simp
        show "outer k ss (set_type k SOCKET_TYPE_INVALID ss')" by (rule outer_trans [OF out outer_simps(3)])
      qed (use rdy in \<open>simp_all add: ready_def cleared_def\<close>)
    qed (use that(1) run out rdy in auto)
  qed
qed

lemma cleared_fields [simp]: "cleared (s\<lparr>s_type := t\<rparr>) = cleared s" "cleared (s\<lparr>s_writing := b\<rparr>) = cleared s"
  by (simp_all add: cleared_def)

lemma reserved_io:
  "reserved k i ss \<Longrightarrow> reserved k i (do_sys os c ss)" "reserved k i ss \<Longrightarrow> reserved k i (fst (sys os c ss))"
  "reserved k i ss \<Longrightarrow> reserved k i (ss\<lparr>ss_io := io\<rparr>)"
  by (auto simp: reserved_def)

lemma listen_socket_ok:
  assumes res: "reserved k i ss"
  shows "\<exists>ss' r. listen_socket os i fd opq ss = Inr (ss', r) \<and> opened k i ss ss'"
proof -
  have k: "HASH_ID i = k" using res by (simp add: reserved_def)
  show ?thesis
  proof (rule new_fd_ok [OF res, of PROTOCOL_TCP os fd opq False])
    fix ss' assume "new_fd os i fd PROTOCOL_TCP opq False ss = Inr (ss', True)" "outer k ss ss'" "ready k i ss'"
    then show ?thesis using opened_live(1) by (auto simp: listen_socket_def k)
  next
    fix ss' assume n: "new_fd os i fd PROTOCOL_TCP opq False ss = Inr (ss', False)" "outer k ss ss'"
      "cleared (ss_slot ss' k)" "\<not> s_dw_lock (ss_slot ss' k)" "s_id (ss_slot ss' k) = i"
    from opened_failed [of k ss "do_sys os (Sys_close fd) ss'" i] n outer_trans [OF n(2) outer_simps(1)]
    show ?thesis by (simp add: listen_socket_def k)
  qed simp
qed

lemma bind_socket_ok:
  assumes res: "reserved k i ss"
  shows "\<exists>ss' r. bind_socket os i fd opq ss = Inr (ss', r) \<and> opened k i ss ss'"
proof -
  have k: "HASH_ID i = k" using res by (simp add: reserved_def)
  show ?thesis
  proof (rule new_fd_ok [OF res, of PROTOCOL_TCP os fd opq True])
    fix ss' assume "new_fd os i fd PROTOCOL_TCP opq True ss = Inr (ss', True)" "outer k ss ss'" "ready k i ss'"
    then show ?thesis using opened_live(2) by (auto simp: bind_socket_def k)
  next
    fix ss' assume n: "new_fd os i fd PROTOCOL_TCP opq True ss = Inr (ss', False)" "outer k ss ss'" "s_type (ss_slot ss' k) = SOCKET_TYPE_INVALID"
      "cleared (ss_slot ss' k)" "\<not> s_dw_lock (ss_slot ss' k)" "s_id (ss_slot ss' k) = i"
    then have "opened k i ss ss'" by (simp add: opened_def sock_ok_def live_def)
    with n(1) show ?thesis by (simp add: bind_socket_def)
  qed simp
qed

lemma add_udp_socket_ok:
  assumes res: "reserved k i ss"
  shows "\<exists>ss'. add_udp_socket os i fd fam opq ss = Inr ss' \<and> opened k i ss ss'"
proof -
  have k: "HASH_ID i = k" using res by (simp add: reserved_def)
  let ?p = "if fam = AF_INET6 then PROTOCOL_UDPv6 else PROTOCOL_UDP"
  show ?thesis
  proof (rule new_fd_ok [OF res, of ?p os fd opq True])
    fix ss' assume n: "new_fd os i fd ?p opq True ss = Inr (ss', True)" "outer k ss ss'" "ready k i ss'"
    have "opened k i ss (upd_slot k (\<lambda>s. s\<lparr>s_type := SOCKET_TYPE_CONNECTED, s_udp_address := a\<rparr>) ss')" for a
      using n(3) outer_trans [OF n(2) outer_simps(5)] by (auto simp: opened_def ready_def sock_ok_def live_def)
    with n(1) show ?thesis by (simp add: add_udp_socket_def k)
  next
    fix ss' assume n: "new_fd os i fd ?p opq True ss = Inr (ss', False)" "outer k ss ss'"
      "cleared (ss_slot ss' k)" "\<not> s_dw_lock (ss_slot ss' k)" "s_id (ss_slot ss' k) = i"
    from opened_failed [of k ss "do_sys os (Sys_close fd) ss'" i] n outer_trans [OF n(2) outer_simps(1)]
    show ?thesis by (simp add: add_udp_socket_def k)
  qed simp
qed

lemma connect_loop_io: "\<exists>io. fst (connect_loop os ais e ss) = ss\<lparr>ss_io := io\<rparr>"
proof (induction os ais e ss rule: connect_loop.induct)
  case (1 os e ss)
  then show ?case by (intro exI [of _ "ss_io ss"]) simp
next
  case (2 os fam addr ais e ss)
  then show ?case
    by (auto simp: Let_def split_beta sys_def do_sys_def socket_keepalive_def)
qed

lemma open_socket_ok:
  assumes res: "reserved k i ss"
  shows "\<exists>ss' r. open_socket os i port opq host ss = Inr (ss', r) \<and> opened k i ss ss'"
proof -
  have k: "HASH_ID i = k" using res by (simp add: reserved_def)
  let ?c = "Sys_getaddrinfo host port True"
  obtain ss0 r0 where sys0: "sys os ?c ss = (ss0, r0)" by fastforce
  then have res0: "reserved k i ss0" and out0: "outer k ss ss0"
    using reserved_io(2) [OF res, of os ?c] outer_simps(2) [of k ss os ?c] by simp_all
  have failed: "opened k i ss (set_type k SOCKET_TYPE_INVALID ss')" if "reserved k i ss'" "outer k ss ss'" for ss'
    using that by (intro opened_failed) (auto simp: reserved_def)
  show ?thesis
  proof (cases "sr_n r0 = 0")
    case False
    with failed [OF res0 out0] show ?thesis by (simp add: open_socket_def Let_def sys0 k)
  next
    case True
    obtain io where io: "fst (connect_loop os (sr_addrs r0) (sr_errno r0) ss0) = ss0\<lparr>ss_io := io\<rparr>" using connect_loop_io by blast
    let ?ss1 = "ss0\<lparr>ss_io := io\<rparr>"
    have res1: "reserved k i ?ss1" and out1: "outer k ss ?ss1"
      by (auto intro: reserved_io(3) [OF res0] outer_trans [OF out0 outer_simps(7)])
    show ?thesis
    proof (cases "snd (connect_loop os (sr_addrs r0) (sr_errno r0) ss0)")
      case (Inl e)
      then have "connect_loop os (sr_addrs r0) (sr_errno r0) ss0 = (?ss1, Inl e)" using io by (metis prod.collapse)
      with True failed [OF res1 out1] show ?thesis by (simp add: open_socket_def Let_def sys0 k)
    next
      case (Inr c)
      obtain sock con name where c: "c = (sock, con, name)" by (cases c) auto
      have run: "open_socket os i port opq host ss =
          bindE (new_fd os i sock PROTOCOL_TCP opq True ?ss1) (\<lambda>(ss, ok).
               let result = \<lparr>m_id = i, m_opaque = opq, m_ud = 0, m_data = No_data\<rparr>;
                 failed = (\<lambda>ss data. Inr (set_type k SOCKET_TYPE_INVALID ss, Some (SOCKET_ERR, result\<lparr>m_data := data\<rparr>))) in
               if \<not> ok then failed (do_sys os (Sys_close sock) ss) (Text ''reach skynet socket number limit'')
               else if con then
                 Inr (set_type k SOCKET_TYPE_CONNECTED ss,
                   Some (SOCKET_OPEN, result\<lparr>m_data := (case name of None \<Rightarrow> No_data | Some t \<Rightarrow> Text t)\<rparr>))
               else
                 let (ss, err) = enable_write os k True (set_type k SOCKET_TYPE_CONNECTING ss)
                 in if err then failed ss (Text ''enable write failed'') else Inr (ss, None))"
      proof -
        have "connect_loop os (sr_addrs r0) (sr_errno r0) ss0 = (?ss1, Inr (sock, con, name))" using Inr c io by (metis prod.collapse)
        with True show ?thesis by (simp add: open_socket_def Let_def sys0 k)
      qed
      show ?thesis
      proof (rule new_fd_ok [OF res1, of PROTOCOL_TCP os sock opq True])
        fix ss' assume n: "new_fd os i sock PROTOCOL_TCP opq True ?ss1 = Inr (ss', True)" "outer k ?ss1 ss'" "ready k i ss'"
        note out = outer_trans [OF out1 n(2)]
        show ?thesis
        proof (cases con)
          case True
          with n(1) opened_live(1) [OF out n(3)] show ?thesis by (simp add: run)
        next
          case False
          obtain ss2 err where e: "enable_write os k True (set_type k SOCKET_TYPE_CONNECTING ss') = (ss2, err)"
            "frame k (set_type k SOCKET_TYPE_CONNECTING ss') ss2"
            "ss_slot ss2 k = (ss_slot (set_type k SOCKET_TYPE_CONNECTING ss') k)\<lparr>s_writing := True\<rparr>" by (rule enable_cases)
          have out2: "outer k ss ss2" by (rule outer_trans [OF outer_trans [OF out outer_simps(3)] frame_outer [OF e(2)]])
          have "opened k i ss ss2" using e(3) n(3) out2 by (auto simp: opened_def ready_def sock_ok_def live_def)
          moreover have "opened k i ss (set_type k SOCKET_TYPE_INVALID ss2)"
            using e(3) n(3) by (intro opened_failed [OF out2]) (auto simp: ready_def)
          ultimately show ?thesis using n(1) False e(1) by (auto simp: run)
        qed
      next
        fix ss' assume n: "new_fd os i sock PROTOCOL_TCP opq True ?ss1 = Inr (ss', False)" "outer k ?ss1 ss'"
          "cleared (ss_slot ss' k)" "\<not> s_dw_lock (ss_slot ss' k)" "s_id (ss_slot ss' k) = i"
        from opened_failed [of k ss "do_sys os (Sys_close sock) ss'" i] n outer_trans [OF outer_trans [OF out1 n(2)] outer_simps(1)]
        show ?thesis by (simp add: run)
      qed simp
    qed
  qed
qed

text \<open>What the pipe must be like, but for the slot \<open>k\<close>.\<close>

definition others_ok :: "nat \<Rightarrow> socket_server \<Rightarrow> request list \<Rightarrow> bool" where
  "others_ok k ss rs \<longleftrightarrow> (\<forall>r \<in> set rs. plain r)
     \<and> (\<forall>j. j \<noteq> k \<longrightarrow> s_type (ss_slot ss j) = SOCKET_TYPE_RESERVE \<longrightarrow>
          sends (s_id (ss_slot ss j)) rs = 0 \<and> (\<exists>r \<in> set rs. opens r = Some (s_id (ss_slot ss j))))
     \<and> (\<forall>pre r post i. rs = pre @ r # post \<longrightarrow> opens r = Some i \<longrightarrow> HASH_ID i \<noteq> k \<and>
          s_type (ss_slot ss (HASH_ID i)) = SOCKET_TYPE_RESERVE \<and> s_id (ss_slot ss (HASH_ID i)) = i
          \<and> (\<forall>q \<in> set pre. req_id q \<noteq> Some i))
     \<and> (\<forall>j. j \<noteq> k \<longrightarrow> HASH_ID (s_id (ss_slot ss j)) = j \<longrightarrow> s_protocol (ss_slot ss j) = PROTOCOL_TCP \<longrightarrow>
          sends (s_id (ss_slot ss j)) rs \<le> s_sending (ss_slot ss j) mod 65536)"

lemma server_ok_opened:
  assumes ok: "server_ok ss" and k: "k = HASH_ID i" and others: "others_ok k ss (ss_pipe ss0)" and none: "sends i (ss_pipe ss0) = 0"
    and same: "\<And>j. j \<noteq> k \<Longrightarrow> ss_slot ss0 j = ss_slot ss j"
    and ev: "ss_event_n ss0 = ss_event_n ss" "ss_event_index ss0 = ss_event_index ss" "ss_ev ss0 = ss_ev ss"
    and opened: "opened k i ss0 ss'"
  shows "server_ok ss'"
proof -
  have o: "ss_pipe ss' = ss_pipe ss0" "ss_event_n ss' = ss_event_n ss" "ss_event_index ss' = ss_event_index ss" "ss_ev ss' = ss_ev ss"
    "\<And>j. j \<noteq> k \<Longrightarrow> ss_slot ss' j = ss_slot ss j" using opened ev same by (auto simp: opened_def outer_def)
  have s: "sock_ok (ss_slot ss' k)" "s_type (ss_slot ss' k) \<noteq> SOCKET_TYPE_RESERVE" "\<not> s_dw_lock (ss_slot ss' k)"
    "s_id (ss_slot ss' k) = i" "live (ss_slot ss' k) \<Longrightarrow> s_sending (ss_slot ss' k) = ID_TAG16 i * 65536"
    using opened by (auto simp: opened_def)
  have "slots_ok (ss_slot ss')" unfolding slots_ok_def
  proof (intro allI)
    fix j
    show "sock_ok (ss_slot ss' j) \<and> \<not> s_dw_lock (ss_slot ss' j) \<and> (s_type (ss_slot ss' j) \<noteq> SOCKET_TYPE_INVALID \<longrightarrow> HASH_ID (s_id (ss_slot ss' j)) = j)
      \<and> (live (ss_slot ss' j) \<longrightarrow> s_sending (ss_slot ss' j) div 65536 = ID_TAG16 (s_id (ss_slot ss' j)))"
      using s k o(5) ok by (cases "j = k") (auto simp: server_ok_def slots_ok_def)
  qed
  moreover have "refs_ok (ss_slot ss') (ss_pipe ss')" unfolding refs_ok_def
  proof (intro allI impI)
    fix j assume "HASH_ID (s_id (ss_slot ss' j)) = j" "s_protocol (ss_slot ss' j) = PROTOCOL_TCP"
    then show "sends (s_id (ss_slot ss' j)) (ss_pipe ss') \<le> s_sending (ss_slot ss' j) mod 65536"
      using s(4) none o(1,5) others by (cases "j = k") (auto simp: others_ok_def)
  qed
  moreover have "pipe_ok (ss_slot ss') (ss_pipe ss')" unfolding pipe_ok_def o(1)
  proof (intro conjI allI impI)
    fix j assume j: "s_type (ss_slot ss' j) = SOCKET_TYPE_RESERVE"
    then have "j \<noteq> k" using s(2) by auto
    with j o(5) others show "sends (s_id (ss_slot ss' j)) (ss_pipe ss0) = 0"
      "\<exists>r \<in> set (ss_pipe ss0). opens r = Some (s_id (ss_slot ss' j))" by (auto simp: others_ok_def)
  next
    fix pre r post i' assume "ss_pipe ss0 = pre @ r # post" "opens r = Some i'"
    with others have "HASH_ID i' \<noteq> k" "s_type (ss_slot ss (HASH_ID i')) = SOCKET_TYPE_RESERVE" "s_id (ss_slot ss (HASH_ID i')) = i'"
      "\<forall>q \<in> set pre. req_id q \<noteq> Some i'" unfolding others_ok_def by blast+
    then show "s_type (ss_slot ss' (HASH_ID i')) = SOCKET_TYPE_RESERVE" "s_id (ss_slot ss' (HASH_ID i')) = i'"
      "\<forall>q \<in> set pre. req_id q \<noteq> Some i'" using o(5) by auto
  qed (use others in \<open>simp add: others_ok_def\<close>)
  moreover have "events_ok ss'" unfolding events_ok_def o(2-4)
  proof (intro conjI allI impI)
    fix j m assume e: "ss_event_index ss \<le> j" "j < ss_event_n ss" "e_s (ss_ev ss ! j) = Some m"
    then show "s_type (ss_slot ss' m) \<noteq> SOCKET_TYPE_RESERVE"
      using ok s(2) o(5) by (cases "m = k") (auto simp: server_ok_def events_ok_def)
  qed (use ok in \<open>simp_all add: server_ok_def events_ok_def\<close>)
  ultimately show ?thesis by (simp add: server_ok_def)
qed

lemma opens_req_id: "opens r = Some i \<Longrightarrow> req_id r = Some i" "opens r = Some i \<Longrightarrow> \<not> is_send j r"
  by (auto simp: opens_def is_send_def split: request.splits)

lemma pipe_okD:
  assumes "pipe_ok slot pipe"
  shows "r \<in> set pipe \<Longrightarrow> plain r"
    and "s_type (slot k) = SOCKET_TYPE_RESERVE \<Longrightarrow> sends (s_id (slot k)) pipe = 0"
    and "s_type (slot k) = SOCKET_TYPE_RESERVE \<Longrightarrow> \<exists>r \<in> set pipe. opens r = Some (s_id (slot k))"
    and "pipe = pre @ r # post \<Longrightarrow> opens r = Some i \<Longrightarrow> s_type (slot (HASH_ID i)) = SOCKET_TYPE_RESERVE"
    and "pipe = pre @ r # post \<Longrightarrow> opens r = Some i \<Longrightarrow> s_id (slot (HASH_ID i)) = i"
    and "pipe = pre @ r # post \<Longrightarrow> opens r = Some i \<Longrightarrow> q \<in> set pre \<Longrightarrow> req_id q \<noteq> Some i"
  using assms [unfolded pipe_ok_def, THEN conjunct1, rule_format, of r]
    assms [unfolded pipe_ok_def, THEN conjunct2, THEN conjunct1, rule_format, of k]
    assms [unfolded pipe_ok_def, THEN conjunct2, THEN conjunct2, rule_format, of pre r post i] by blast+

lemma server_ok_pop_open:
  assumes ok: "server_ok ss" and pipe: "ss_pipe ss = r # rs" and r: "opens r = Some i"
  shows "reserved (HASH_ID i) i (ss\<lparr>ss_pipe := rs\<rparr>)" "others_ok (HASH_ID i) ss rs" "sends i rs = 0"
proof -
  let ?k = "HASH_ID i"
  have p: "pipe_ok (ss_slot ss) (r # rs)" "refs_ok (ss_slot ss) (r # rs)" "slots_ok (ss_slot ss)" using ok pipe by (simp_all add: server_ok_def)
  have k: "s_type (ss_slot ss ?k) = SOCKET_TYPE_RESERVE" "s_id (ss_slot ss ?k) = i"
    using pipe_okD(4,5) [OF p(1), of "[]" r rs] r by simp_all
  then show "reserved ?k i (ss\<lparr>ss_pipe := rs\<rparr>)"
    using p(3) by (auto simp: reserved_def slots_ok_def sock_ok_def live_def split: if_splits)
  have ns: "sends j (r # rs) = sends j rs" for j using opens_req_id(2) [OF r] by simp
  show "sends i rs = 0" using pipe_okD(2) [OF p(1) k(1)] ns k(2) by simp
  have "\<exists>q \<in> set rs. opens q = Some (s_id (ss_slot ss j))" if "j \<noteq> ?k" "s_type (ss_slot ss j) = SOCKET_TYPE_RESERVE" for j
  proof -
    from pipe_okD(3) [OF p(1) that(2)] obtain q where q: "q \<in> set (r # rs)" "opens q = Some (s_id (ss_slot ss j))" by blast
    have "HASH_ID (s_id (ss_slot ss j)) = j" using p(3) that(2) by (simp add: slots_ok_def)
    with q r that(1) have "q \<noteq> r" by auto
    with q show ?thesis by auto
  qed
  moreover have "HASH_ID i' \<noteq> ?k \<and> s_type (ss_slot ss (HASH_ID i')) = SOCKET_TYPE_RESERVE \<and> s_id (ss_slot ss (HASH_ID i')) = i'
      \<and> (\<forall>q \<in> set pre. req_id q \<noteq> Some i')" if "rs = pre @ q # post" "opens q = Some i'" for pre q post i'
  proof -
    from that(1) have split: "r # rs = (r # pre) @ q # post" by simp
    note * = pipe_okD(4-6) [OF p(1) split that(2)]
    have "i' \<noteq> i" using opens_req_id(1) [OF r] *(3) [of r] by auto
    with * k(2) show ?thesis by auto
  qed
  moreover have "sends (s_id (ss_slot ss j)) rs = 0" if "s_type (ss_slot ss j) = SOCKET_TYPE_RESERVE" for j
    using pipe_okD(2) [OF p(1) that] ns by simp
  ultimately show "others_ok ?k ss rs"
    using p(2) pipe_okD(1) [OF p(1)] ns unfolding others_ok_def refs_ok_def by simp
qed

lemma server_ok_pop:
  assumes ok: "server_ok ss" and pipe: "ss_pipe ss = r # rs" and r: "opens r = None"
  shows "server_ok (ss\<lparr>ss_pipe := rs\<rparr>)"
    "req_id r = Some i \<Longrightarrow> socket_invalid (ss_slot ss (HASH_ID i)) i \<or> live (ss_slot ss (HASH_ID i))"
proof -
  have p: "pipe_ok (ss_slot ss) (r # rs)" "refs_ok (ss_slot ss) (r # rs)" "slots_ok (ss_slot ss)" using ok pipe by (simp_all add: server_ok_def)
  have "pipe_ok (ss_slot ss) rs" unfolding pipe_ok_def
  proof (intro conjI allI impI)
    fix pre q post i assume "rs = pre @ q # post" "opens q = Some i"
    then have split: "r # rs = (r # pre) @ q # post" and q: "opens q = Some i" by simp_all
    from pipe_okD(4-6) [OF p(1) split q] show "s_type (ss_slot ss (HASH_ID i)) = SOCKET_TYPE_RESERVE" "s_id (ss_slot ss (HASH_ID i)) = i"
        "\<forall>q \<in> set pre. req_id q \<noteq> Some i" by auto
  next
    fix k assume k: "s_type (ss_slot ss k) = SOCKET_TYPE_RESERVE"
    from pipe_okD(2,3) [OF p(1) k] r show "sends (s_id (ss_slot ss k)) rs = 0" "\<exists>q \<in> set rs. opens q = Some (s_id (ss_slot ss k))"
      by auto
  qed (use pipe_okD(1) [OF p(1)] in simp)
  moreover have "refs_ok (ss_slot ss) rs" unfolding refs_ok_def
  proof (intro allI impI)
    fix k assume "HASH_ID (s_id (ss_slot ss k)) = k" "s_protocol (ss_slot ss k) = PROTOCOL_TCP"
    with p(2) have "sends (s_id (ss_slot ss k)) (r # rs) \<le> s_sending (ss_slot ss k) mod 65536" unfolding refs_ok_def by blast
    then show "sends (s_id (ss_slot ss k)) rs \<le> s_sending (ss_slot ss k) mod 65536" by simp
  qed
  moreover have "events_ok (ss\<lparr>ss_pipe := rs\<rparr>)" using ok by (simp add: server_ok_def events_ok_def)
  ultimately show "server_ok (ss\<lparr>ss_pipe := rs\<rparr>)" using ok by (simp add: server_ok_def)
  assume i: "req_id r = Some i"
  show "socket_invalid (ss_slot ss (HASH_ID i)) i \<or> live (ss_slot ss (HASH_ID i))"
  proof (rule ccontr)
    assume "\<not> ?thesis"
    then have k: "s_id (ss_slot ss (HASH_ID i)) = i" "s_type (ss_slot ss (HASH_ID i)) = SOCKET_TYPE_RESERVE"
      by (auto simp: socket_invalid_def live_def)
    from pipe_okD(3) [OF p(1) k(2)] k(1) obtain q where q: "q \<in> set (r # rs)" "opens q = Some i" by auto
    with r have "q \<in> set rs" by auto
    then obtain pre post where "rs = pre @ q # post" by (meson split_list)
    then have "r # rs = (r # pre) @ q # post" by simp
    from pipe_okD(6) [OF p(1) this q(2), of r] i show False by simp
  qed
qed

section \<open>Handling a request\<close>

lemma pred_divmod:
  assumes "0 < x mod n"
  shows "(x - 1) mod n = x mod n - 1" "(x - 1) div n = x div (n :: nat)"
proof -
  obtain y where "x = Suc y" using assms by (cases x) auto
  with assms show "(x - 1) mod n = x mod n - 1" "(x - 1) div n = x div n"
    by (simp_all add: mod_Suc div_Suc split: if_splits)
qed

text \<open>The reference count of one slot changed.\<close>

lemma server_ok_sending:
  assumes ok: "server_ok ss" and tag: "n div 65536 = s_sending (ss_slot ss k) div 65536"
    and refs: "HASH_ID (s_id (ss_slot ss k)) = k \<Longrightarrow> s_protocol (ss_slot ss k) = PROTOCOL_TCP \<Longrightarrow>
      sends (s_id (ss_slot ss k)) (ss_pipe ss) \<le> n mod 65536"
  shows "server_ok (set_slot k ((ss_slot ss k)\<lparr>s_sending := n\<rparr>) ss)"
proof -
  let ?ss = "set_slot k ((ss_slot ss k)\<lparr>s_sending := n\<rparr>) ss"
  have same: "s_type (ss_slot ?ss j) = s_type (ss_slot ss j)" "s_id (ss_slot ?ss j) = s_id (ss_slot ss j)"
    "s_protocol (ss_slot ?ss j) = s_protocol (ss_slot ss j)" "s_dw_lock (ss_slot ?ss j) = s_dw_lock (ss_slot ss j)"
    "live (ss_slot ?ss j) = live (ss_slot ss j)" "sock_ok (ss_slot ?ss j) = sock_ok (ss_slot ss j)"
    "s_sending (ss_slot ?ss j) = (if j = k then n else s_sending (ss_slot ss j))" for j
    by (simp_all add: set_slot_def sock_ok_def cleared_def)
  have rest: "ss_pipe ?ss = ss_pipe ss" "ss_event_n ?ss = ss_event_n ss" "ss_event_index ?ss = ss_event_index ss" "ss_ev ?ss = ss_ev ss"
    by (simp_all add: set_slot_def)
  show ?thesis using ok tag refs
    by (simp add: server_ok_def slots_ok_def refs_ok_def pipe_ok_def events_ok_def same rest)
qed

lemma dec_sending_ok:
  assumes ok: "server_ok ss" and pipe: "ss_pipe ss = Req_send pr i p # rs"
    and ss': "kept (HASH_ID i) (ss\<lparr>ss_pipe := rs\<rparr>) ss'"
  shows "\<exists>ss''. dec_sending_ref i ss' = Inr ss'' \<and> server_ok ss''"
proof -
  let ?k = "HASH_ID i" and ?ss = "ss\<lparr>ss_pipe := rs\<rparr>"
  have ok0: "server_ok ?ss" by (rule server_ok_pop [OF ok pipe]) (simp add: opens_def)
  note ok' = server_ok_kept [OF ok0 ss']
  have pipe': "ss_pipe ss' = rs" using ss' by (simp add: kept_def frame_def)
  have s: "s_id (ss_slot ss' ?k) = s_id (ss_slot ss ?k)" "s_protocol (ss_slot ss' ?k) = s_protocol (ss_slot ss ?k)"
    "s_sending (ss_slot ss' ?k) = s_sending (ss_slot ss ?k)" using kept_slot [OF ss'] by simp_all
  show ?thesis
  proof (cases "s_id (ss_slot ss' ?k) = i \<and> s_protocol (ss_slot ss' ?k) = PROTOCOL_TCP")
    case False
    with ok' show ?thesis by (auto simp: dec_sending_ref_def)
  next
    case True
    let ?s = "ss_slot ss' ?k"
    let ?ss' = "set_slot ?k (?s\<lparr>s_sending := s_sending ?s - 1\<rparr>) ss'"
    have "refs_ok (ss_slot ss) (ss_pipe ss)" using ok by (simp add: server_ok_def)
    with True s have "sends i (ss_pipe ss) \<le> s_sending ?s mod 65536" unfolding refs_ok_def by metis
    then have cnt: "Suc (sends i rs) \<le> s_sending ?s mod 65536" by (simp add: pipe is_send_def)
    then have divmod: "(s_sending ?s - 1) mod 65536 = s_sending ?s mod 65536 - 1" "(s_sending ?s - 1) div 65536 = s_sending ?s div 65536"
      using pred_divmod [of "s_sending ?s" 65536] by linarith+
    have "server_ok ?ss'" using cnt divmod True pipe' by (intro server_ok_sending [OF ok']) (simp_all, linarith)
    with True cnt show ?thesis by (simp add: dec_sending_ref_def Let_def)
  qed
qed

lemma ctrl_cmd_ok:
  assumes ok: "server_ok ss" and cmd: "has_cmd ss"
  shows "\<exists>ss' r. ctrl_cmd os ss = Inr (ss', r) \<and> server_ok ss'"
proof -
  obtain r rs where pipe: "ss_pipe ss = r # rs" using cmd by (cases "ss_pipe ss") (auto simp: has_cmd_def)
  let ?ss = "ss\<lparr>ss_pipe := rs\<rparr>"
  have run: "ctrl_cmd os ss = run_request os r ?ss" by (simp add: ctrl_cmd_def pipe)
  have plain: "plain r" using pipe_okD(1) [of "ss_slot ss" "ss_pipe ss" r] ok pipe by (simp add: server_ok_def)
  show ?thesis
  proof (cases "opens r")
    case (Some i)
    note pop = server_ok_pop_open [OF ok pipe Some]
    have opened: "opened (HASH_ID i) i ?ss ss' \<Longrightarrow> server_ok ss'" for ss'
      using server_ok_opened [OF ok refl, of i ?ss ss'] pop(2,3) by simp
    show ?thesis
    proof (cases r)
      case (Req_bind j fd opq)
      with Some have "j = i" by (simp add: opens_def)
      with bind_socket_ok [OF pop(1), of os fd opq] opened Req_bind show ?thesis by (auto simp: run run_request_def)
    next
      case (Req_listen j fd opq)
      with Some have "j = i" by (simp add: opens_def)
      with listen_socket_ok [OF pop(1), of os fd opq] opened Req_listen show ?thesis by (auto simp: run run_request_def)
    next
      case (Req_open j port opq host)
      with Some have "j = i" by (simp add: opens_def)
      with open_socket_ok [OF pop(1), of os port opq host] opened Req_open show ?thesis by (auto simp: run run_request_def)
    next
      case (Req_udp j fd fam opq)
      with Some have "j = i" by (simp add: opens_def)
      with add_udp_socket_ok [OF pop(1), of os fd fam opq] opened Req_udp show ?thesis by (auto simp: run run_request_def)
    qed (use Some in \<open>simp_all add: opens_def\<close>)
  next
    case None
    have ok0: "server_ok ?ss" by (rule server_ok_pop(1) [OF ok pipe None])
    have use: "req_id r = Some i \<Longrightarrow> socket_invalid (ss_slot ?ss (HASH_ID i)) i \<or> live (ss_slot ?ss (HASH_ID i))" for i
      using server_ok_pop(2) [OF ok pipe None] by simp
    note kept = server_ok_kept [OF ok0]
    show ?thesis
    proof (cases r)
      case (Req_send pr i p)
      with plain obtain bs where "p = Memory bs" by (auto simp: plain_def)
      with send_socket_ok [OF ok0 use, of i os bs pr None] Req_send obtain ss' ret where
        s: "send_socket os i p pr None ?ss = Inr (ss', ret)" "kept (HASH_ID i) ?ss ss'" by auto
      with dec_sending_ok [OF ok pipe [unfolded Req_send] s(2)] Req_send show ?thesis by (auto simp: run run_request_def)
    next
      case (Req_send_udp i p a)
      with plain obtain bs where "p = Memory bs" by (auto simp: plain_def)
      with send_socket_ok [OF ok0 use, of i os bs PRIORITY_HIGH "Some a"] Req_send_udp kept show ?thesis
        by (auto simp: run run_request_def)
    next
      case (Req_close i sd opq)
      with close_socket_ok [OF ok0 use, of i os sd] kept show ?thesis by (auto simp: run run_request_def)
    next
      case (Req_resume i opq)
      with kept [OF resume_socket_ok [OF ok0 use, of i os opq]] show ?thesis by (cases "resume_socket os i opq ?ss") (auto simp: run run_request_def)
    next
      case (Req_pause i opq)
      with kept [OF pause_socket_ok [OF ok0 use, of i os]] show ?thesis by (cases "pause_socket os i ?ss") (auto simp: run run_request_def)
    next
      case (Req_trigger i)
      with trigger_write_ok [OF ok0 use, of i os] kept show ?thesis by (auto simp: run run_request_def)
    next
      case (Req_set_udp i a)
      with kept [OF set_udp_address_ok [OF ok0 use, of i a]] show ?thesis by (cases "set_udp_address i a ?ss") (auto simp: run run_request_def)
    next
      case (Req_setopt i what v)
      with ok0 kept [OF kept_io(1) [OF ok0]] show ?thesis by (auto simp: run run_request_def setopt_socket_def Let_def)
    qed (use None ok0 in \<open>auto simp: opens_def run run_request_def\<close>)
  qed
qed

section \<open>Accepting\<close>

lemma next_id_nonneg: "0 \<le> snd (next_id a)"
proof -
  have "(0x7fffffff :: i32) = mask 31" by (simp add: mask_eq_exp_minus_1)
  then have "\<not> bit (x AND 0x7fffffff) 31" for x :: i32 by (simp add: bit_simps)
  then have "0 \<le> sint (x AND 0x7fffffff)" for x :: i32
    using bit_last_iff [of "x AND 0x7fffffff"] by (simp add: not_less)
  then show ?thesis by (auto simp: next_id_def Let_def)
qed

lemma reserve_loop_ok:
  "(\<exists>a. reserve_loop n ss = (ss\<lparr>ss_alloc_id := a\<rparr>, -1)) \<or>
   (\<exists>a i. reserve_loop n ss = (set_slot (HASH_ID i) ((ss_slot ss (HASH_ID i))\<lparr>s_type := SOCKET_TYPE_RESERVE, s_id := i,
       s_protocol := PROTOCOL_UNKNOWN, s_udpconnecting := 0, s_fd := -1\<rparr>) (ss\<lparr>ss_alloc_id := a\<rparr>), i)
     \<and> 0 \<le> i \<and> s_type (ss_slot ss (HASH_ID i)) = SOCKET_TYPE_INVALID)"
proof (induction n ss rule: reserve_loop.induct)
  case (1 n ss)
  show ?case
  proof (cases "n < MAX_SOCKET")
    case False
    then have "reserve_loop n ss = (ss\<lparr>ss_alloc_id := ss_alloc_id ss\<rparr>, -1)" by (subst reserve_loop.simps) simp
    then show ?thesis by blast
  next
    case True
    obtain a i where ai: "next_id (ss_alloc_id ss) = (a, i)" by fastforce
    then have i: "0 \<le> i" using next_id_nonneg [of "ss_alloc_id ss"] by simp
    show ?thesis
    proof (cases "s_type (ss_slot ss (HASH_ID i)) = SOCKET_TYPE_INVALID")
      case inv: True
      then have "reserve_loop n ss = (set_slot (HASH_ID i) ((ss_slot ss (HASH_ID i))\<lparr>s_type := SOCKET_TYPE_RESERVE, s_id := i,
          s_protocol := PROTOCOL_UNKNOWN, s_udpconnecting := 0, s_fd := -1\<rparr>) (ss\<lparr>ss_alloc_id := a\<rparr>), i)"
        using True ai by (subst reserve_loop.simps) (simp add: Let_def)
      with i inv show ?thesis by blast
    next
      case False
      then have run: "reserve_loop n ss = reserve_loop (n + 1) (ss\<lparr>ss_alloc_id := a\<rparr>)"
        using True ai by (subst reserve_loop.simps) (simp add: Let_def)
      from 1 [OF True ai [symmetric] refl refl refl] False show ?thesis unfolding run by simp
    qed
  qed
qed

text \<open>The id that would be handed out next depends on the table only.\<close>

lemma reserve_loop_cong:
  "ss_slot ss' = ss_slot ss \<Longrightarrow> ss_alloc_id ss' = ss_alloc_id ss \<Longrightarrow> snd (reserve_loop n ss') = snd (reserve_loop n ss)"
proof (induction n ss arbitrary: ss' rule: reserve_loop.induct)
  case (1 n ss)
  obtain a i where ai: "next_id (ss_alloc_id ss) = (a, i)" by fastforce
  show ?case
  proof (cases "n < MAX_SOCKET \<and> s_type (ss_slot ss (HASH_ID i)) \<noteq> SOCKET_TYPE_INVALID")
    case True
    then have "snd (reserve_loop (n + 1) (ss'\<lparr>ss_alloc_id := a\<rparr>)) = snd (reserve_loop (n + 1) (ss\<lparr>ss_alloc_id := a\<rparr>))"
      using 1(1) [OF _ ai [symmetric] refl refl refl, of "ss'\<lparr>ss_alloc_id := a\<rparr>"] 1(2) by simp
    with True 1(2,3) ai show ?thesis
      by (simp add: reserve_loop.simps [of n ss] reserve_loop.simps [of n ss'] Let_def)
  next
    case False
    with 1(2,3) ai show ?thesis
      by (auto simp: reserve_loop.simps [of n ss] reserve_loop.simps [of n ss'] Let_def)
  qed
qed

definition next_reserved :: "socket_server \<Rightarrow> int" where
  "next_reserved ss = snd (reserve_id ss)"

text \<open>The id that would be handed out next is not the id of a request that still waits.\<close>

definition fresh_id :: "socket_server \<Rightarrow> bool" where
  "fresh_id ss \<longleftrightarrow> (\<forall>r \<in> set (ss_pipe ss). req_id r \<noteq> Some (next_reserved ss))"

lemma reserve_id_ok:
  assumes ok: "server_ok ss"
  obtains a where "reserve_id ss = (ss\<lparr>ss_alloc_id := a\<rparr>, -1)"
  | ss' i where "reserve_id ss = (ss', i)" "0 \<le> i" "next_reserved ss = i" "s_type (ss_slot ss (HASH_ID i)) = SOCKET_TYPE_INVALID"
      "reserved (HASH_ID i) i ss'" "outer (HASH_ID i) ss ss'" "s_protocol (ss_slot ss' (HASH_ID i)) = PROTOCOL_UNKNOWN"
proof -
  from reserve_loop_ok [of 0 ss] show ?thesis
  proof (elim disjE exE conjE)
    fix a assume "reserve_loop 0 ss = (ss\<lparr>ss_alloc_id := a\<rparr>, -1)"
    then show ?thesis by (intro that(1)) (simp add: reserve_id_def)
  next
    fix a i
    let ?k = "HASH_ID i"
    let ?ss = "set_slot ?k ((ss_slot ss ?k)\<lparr>s_type := SOCKET_TYPE_RESERVE, s_id := i, s_protocol := PROTOCOL_UNKNOWN,
      s_udpconnecting := 0, s_fd := -1\<rparr>) (ss\<lparr>ss_alloc_id := a\<rparr>)"
    assume r: "reserve_loop 0 ss = (?ss, i)" "0 \<le> i" "s_type (ss_slot ss ?k) = SOCKET_TYPE_INVALID"
    have "sock_ok (ss_slot ss ?k)" "\<not> s_dw_lock (ss_slot ss ?k)" using ok by (auto simp: server_ok_def slots_ok_def)
    with r show ?thesis
      by (intro that(2) [of ?ss i]) (auto simp: reserve_id_def next_reserved_def reserved_def sock_ok_def live_def cleared_def outer_def set_slot_def)
  qed
qed

lemma others_ok_fresh:
  assumes ok: "server_ok ss" and inv: "s_type (ss_slot ss k) = SOCKET_TYPE_INVALID"
  shows "others_ok k ss (ss_pipe ss)"
proof -
  have p: "pipe_ok (ss_slot ss) (ss_pipe ss)" "refs_ok (ss_slot ss) (ss_pipe ss)" using ok by (simp_all add: server_ok_def)
  have "HASH_ID i \<noteq> k" if "ss_pipe ss = pre @ r # post" "opens r = Some i" for pre r post i
    using pipe_okD(4) [OF p(1) that] inv by auto
  then show ?thesis unfolding others_ok_def
    using pipe_okD [OF p(1)] p(2) [unfolded refs_ok_def, rule_format] by simp
qed

lemma set_type_stat_read: "j \<noteq> k \<Longrightarrow> set_type j t (stat_read k n ss) = stat_read k n (set_type j t ss)"
  by (simp add: srv stat_read_def fun_upd_twist)

lemma report_accept_ok:
  assumes ok: "server_ok ss" and k: "live (ss_slot ss k)" and fresh: "fresh_id ss"
  shows "\<exists>ss' r. report_accept os k ss = Inr (ss', r) \<and> server_ok ss'"
proof -
  let ?c = "Sys_accept (s_fd (ss_slot ss k))"
  obtain ss1 r where sys1: "sys os ?c ss = (ss1, r)" by fastforce
  have ok1: "server_ok ss1" using server_ok_kept [OF ok kept_io(2) [OF ok, of k os ?c]] sys1 by simp
  have same1: "ss_slot ss1 = ss_slot ss" "ss_alloc_id ss1 = ss_alloc_id ss" "ss_pipe ss1 = ss_pipe ss"
    using sys1 by (auto simp: sys_def Let_def)
  have io: "server_ok (do_sys os c ss')" if "server_ok ss'" for ss' c using server_ok_kept [OF that kept_io(1) [OF that]] .
  show ?thesis
  proof (cases "sr_n r < 0")
    case True
    with ok1 sys1 show ?thesis by (auto simp: report_accept_def Let_def)
  next
    case False
    show ?thesis
    proof (rule reserve_id_ok [OF ok1])
      fix a assume res: "reserve_id ss1 = (ss1\<lparr>ss_alloc_id := a\<rparr>, -1)"
      have "server_ok (ss1\<lparr>ss_alloc_id := a\<rparr>)" using ok1 by (simp add: server_ok_def events_ok_def)
      with False sys1 res io show ?thesis by (auto simp: report_accept_def Let_def)
    next
      fix ss2 i assume res: "reserve_id ss1 = (ss2, i)" "0 \<le> i" "next_reserved ss1 = i" "s_type (ss_slot ss1 (HASH_ID i)) = SOCKET_TYPE_INVALID"
        "reserved (HASH_ID i) i ss2" "outer (HASH_ID i) ss1 ss2"
      let ?j = "HASH_ID i"
      let ?ss3 = "do_sys os (Sp_nonblocking (sr_n r)) (socket_keepalive os (sr_n r) ss2)"
      have res3: "reserved ?j i ?ss3" unfolding socket_keepalive_def by (intro reserved_io(1) res(5))
      have out3: "outer ?j ss1 ?ss3" unfolding socket_keepalive_def
        by (rule outer_trans [OF outer_trans [OF res(6) outer_simps(1)] outer_simps(1)])
      have "next_reserved ss1 = next_reserved ss"
        unfolding next_reserved_def reserve_id_def by (rule reserve_loop_cong [OF same1(1,2)])
      with fresh res(3) same1 have none: "sends i (ss_pipe ss1) = 0" by (intro sends_req_id) (auto simp: fresh_id_def)
      have opened: "server_ok ss'" if "opened ?j i ss1 ss'" for ss'
        using server_ok_opened [OF ok1 refl others_ok_fresh [OF ok1 res(4)] none _ _ _ _ that] by simp
      have jk: "?j \<noteq> k" using k res(4) same1(1) by (auto simp: live_def)
      show ?thesis
      proof (rule new_fd_ok [OF res3, of PROTOCOL_TCP os "sr_n r" "s_opaque (ss_slot ss k)" False])
        fix ss' assume n: "new_fd os i (sr_n r) PROTOCOL_TCP (s_opaque (ss_slot ss k)) False ?ss3 = Inr (ss', True)"
          "outer ?j ?ss3 ss'" "ready ?j i ss'"
        have op: "server_ok (set_type ?j SOCKET_TYPE_PACCEPT ss')"
          by (intro opened opened_live(1) outer_trans [OF out3 n(2)] n(3)) simp_all
        have "ss_slot (set_type ?j SOCKET_TYPE_PACCEPT ss') k = ss_slot ss k"
          using n(2) out3 jk same1(1) by (simp add: outer_def srv)
        then have "busy k 0 (set_type ?j SOCKET_TYPE_PACCEPT ss')" using server_ok_busy [OF op] k by simp
        from server_ok_kept [OF op handled_kept [OF this stat_read_ok(1) [OF this]]] set_type_stat_read [OF jk]
        have "server_ok (set_type ?j SOCKET_TYPE_PACCEPT (stat_read k 1 ss'))" by simp
        with False sys1 res(1,2) n(1) show ?thesis by (auto simp: report_accept_def Let_def)
      next
        fix ss' assume n: "new_fd os i (sr_n r) PROTOCOL_TCP (s_opaque (ss_slot ss k)) False ?ss3 = Inr (ss', False)"
          "outer ?j ?ss3 ss'" "s_type (ss_slot ss' ?j) = SOCKET_TYPE_INVALID"
          "cleared (ss_slot ss' ?j)" "\<not> s_dw_lock (ss_slot ss' ?j)" "s_id (ss_slot ss' ?j) = i"
        have "opened ?j i ss1 ss'" using n outer_trans [OF out3 n(2)] by (simp add: opened_def sock_ok_def live_def)
        with False sys1 res(1,2) n(1) io opened show ?thesis by (auto simp: report_accept_def Let_def)
      qed simp
    qed
  qed
qed

section \<open>A round of the socket thread\<close>

lemma server_ok_index:
  assumes "server_ok ss" "ss_event_index ss < ss_event_n ss"
  shows "server_ok (ss\<lparr>ss_event_index := ss_event_index ss + 1\<rparr>)"
  using assms Suc_leD by (fastforce simp: server_ok_def events_ok_def)

lemma server_ok_again:
  assumes ok: "server_ok ss" and j: "ss_event_index ss = Suc j" "j < length (ss_ev ss)" "e_s (ss_ev ss ! j) = Some k"
    and k: "s_type (ss_slot ss k) \<noteq> SOCKET_TYPE_RESERVE"
  shows "server_ok (again ss)" "server_ok (again (ss\<lparr>ss_ev := (ss_ev ss)[j := (ss_ev ss ! j)\<lparr>e_read := False\<rparr>]\<rparr>))"
proof -
  have ev: "ss_event_n ss = length (ss_ev ss)" "Suc j \<le> ss_event_n ss"
    "\<And>m k'. Suc j \<le> m \<Longrightarrow> m < ss_event_n ss \<Longrightarrow> e_s (ss_ev ss ! m) = Some k' \<Longrightarrow> s_type (ss_slot ss k') \<noteq> SOCKET_TYPE_RESERVE"
    using ok j(1) unfolding server_ok_def events_ok_def by auto
  have "s_type (ss_slot ss k') \<noteq> SOCKET_TYPE_RESERVE" if "j \<le> m" "m < ss_event_n ss" "e_s (ss_ev ss ! m) = Some k'" for m k'
    using ev(3) [of m k'] that j(3) k by (cases "m = j") auto
  moreover from this have "s_type (ss_slot ss k') \<noteq> SOCKET_TYPE_RESERVE"
    if "j \<le> m" "m < ss_event_n ss" "e_s ((ss_ev ss)[j := (ss_ev ss ! j)\<lparr>e_read := False\<rparr>] ! m) = Some k'" for m k'
    using that j(2) by (cases "m = j") auto
  ultimately show "server_ok (again ss)" "server_ok (again (ss\<lparr>ss_ev := (ss_ev ss)[j := (ss_ev ss ! j)\<lparr>e_read := False\<rparr>]\<rparr>))"
    using ok ev(1,2) j(1) unfolding server_ok_def events_ok_def again_def by auto
qed

lemma on_event_ok:
  assumes os: "os_ok os" and ok: "server_ok ss" and live: "live (ss_slot ss k)"
    and j: "ss_event_index ss = Suc j" "j < length (ss_ev ss)" "ss_ev ss ! j = e" "e_s e = Some k"
  shows "\<exists>ss' r. on_event os e k ss = Inr (ss', r) \<and> server_ok ss'"
proof -
  have busy: "busy k 0 ss" using ok live by (rule server_ok_busy)
  have kept: "server_ok ss'" if "handled k ss ss'" for ss' using server_ok_kept [OF ok handled_kept [OF busy that]] .
  show ?thesis
  proof (cases "e_read e")
    case True
    obtain ss1 r1 where f: "(if s_protocol (ss_slot ss k) = PROTOCOL_TCP then forward_message_tcp os k 0 ss
        else forward_message_udp os k 0 ss) = Inr (ss1, 0, r1)" "handled k ss ss1"
      using forward_message_tcp_ok [OF busy, of os] forward_message_udp_ok [OF busy, of os] by metis
    have ok1: "server_ok ss1" using kept f(2) by blast
    have ev: "ss_event_index ss1 = Suc j" "ss_ev ss1 = ss_ev ss" "s_type (ss_slot ss1 k) \<noteq> SOCKET_TYPE_RESERVE"
      using f(2) j(1) by (simp_all add: handled_def frame_def)
    note again = server_ok_again [OF ok1 ev(1) _ _ ev(3), unfolded ev(2), OF j(2) j(4) [folded j(3)]]
    have "\<exists>ss' r. (case r1 of
          Some (SOCKET_MORE, m) \<Rightarrow> Inr (again ss1, Some (SOCKET_DATA, m))
        | Some (SOCKET_UDP, m) \<Rightarrow> Inr (again ss1, Some (SOCKET_UDP, m))
        | _ \<Rightarrow>
            let closed = (case r1 of Some (t, _) \<Rightarrow> t = SOCKET_CLOSE \<or> t = SOCKET_ERR | None \<Rightarrow> False) in
            if e_write e \<and> \<not> closed
            then Inr (again (ss1\<lparr>ss_ev := (ss_ev ss1)[ss_event_index ss1 - 1 := e\<lparr>e_read := False\<rparr>]\<rparr>), r1)
            else Inr (ss1, r1)) = (Inr (ss', r) :: (socket_server \<times> ret) res) \<and> server_ok ss'"
      using again ok1 ev j(3) by (auto simp: Let_def split: option.split prod.split socket_event.split)
    then show ?thesis using True f(1) by (simp add: on_event_def)
  next
    case False
    obtain ss1 r1 where w: "send_buffer os k 0 ss = Inr (ss1, 0, r1)" "server_ok ss1"
      using send_buffer_ok [OF os busy] kept by blast
    obtain ss2 r2 where c: "force_close os k 0 ss = Inr (ss2, 0, r2)" "server_ok ss2"
      using force_close_busy [OF busy, of os] kept by metis
    show ?thesis using False w c ok server_ok_kept [OF ok kept_io(2) [OF ok]] by (auto simp: on_event_def Let_def split_beta)
  qed
qed

lemma dispatch_event_ok:
  assumes os: "os_ok os" and ok: "server_ok ss" and idx: "ss_event_index ss < ss_event_n ss" and fresh: "fresh_id ss"
  shows "\<exists>ss' r. dispatch_event os ss = Inr (ss', r) \<and> server_ok ss'"
proof -
  let ?j = "ss_event_index ss" and ?ss = "ss\<lparr>ss_event_index := ss_event_index ss + 1\<rparr>"
  have n: "ss_event_n ss = length (ss_ev ss)" using ok by (simp add: server_ok_def events_ok_def)
  have ok1: "server_ok ?ss" using server_ok_index [OF ok idx] .
  have fresh1: "fresh_id ?ss" using fresh reserve_loop_cong [of ?ss ss 0] by (simp add: fresh_id_def next_reserved_def reserve_id_def)
  show ?thesis
  proof (cases "e_s (ss_ev ss ! ?j)")
    case None
    with ok1 idx n show ?thesis by (auto simp: dispatch_event_def)
  next
    case (Some k)
    have res: "s_type (ss_slot ss k) \<noteq> SOCKET_TYPE_RESERVE" using ok idx Some by (auto simp: server_ok_def events_ok_def)
    have run: "dispatch_event os ss = (case s_type (ss_slot ss k) of
            SOCKET_TYPE_CONNECTING \<Rightarrow> bindE (report_connect os k 0 ?ss) (\<lambda>(ss, l, ret). Inr (ss, ret))
          | SOCKET_TYPE_LISTEN \<Rightarrow> report_accept os k ?ss
          | SOCKET_TYPE_INVALID \<Rightarrow> Inr (do_sys os (Sys_log ''invalid socket'') ?ss, None)
          | _ \<Rightarrow> on_event os (ss_ev ss ! ?j) k ?ss)"
      using idx n Some by (cases "s_type (ss_slot ss k)") (simp_all add: dispatch_event_def Let_def)
    show ?thesis
    proof (cases "live (ss_slot ss k)")
      case False
      then have "s_type (ss_slot ss k) = SOCKET_TYPE_INVALID" using res by (simp add: live_def)
      with run server_ok_kept [OF ok1 kept_io(1) [OF ok1]] show ?thesis by auto
    next
      case True
      have live1: "live (ss_slot ?ss k)" using True by simp
      note busy = server_ok_busy [OF ok1 live1]
      have con: "\<exists>ss' r. bindE (report_connect os k 0 ?ss) (\<lambda>(ss, l, ret). Inr (ss, ret)) = (Inr (ss', r) :: (socket_server \<times> ret) res) \<and> server_ok ss'"
        using report_connect_ok [OF busy, of os] server_ok_kept [OF ok1 handled_kept [OF busy]] by auto
      have acc: "\<exists>ss' r. report_accept os k ?ss = Inr (ss', r) \<and> server_ok ss'"
        using report_accept_ok [OF ok1 live1 fresh1] .
      have ev: "\<exists>ss' r. on_event os (ss_ev ss ! ?j) k ?ss = Inr (ss', r) \<and> server_ok ss'"
        using on_event_ok [OF os ok1 live1, of ?j "ss_ev ss ! ?j"] idx n Some by simp
      show ?thesis unfolding run using con acc ev True by (cases "s_type (ss_slot ss k)") (simp_all add: live_def)
    qed
  qed
qed

lemma clear_event_ok:
  "length (clear_event ss i es) = length es"
  "j < length es \<Longrightarrow> e_s (clear_event ss i es ! j) = Some k \<Longrightarrow> e_s (es ! j) = Some k"
proof -
  show "length (clear_event ss i es) = length es" by (induction es) (auto split: option.splits)
  show "j < length es \<Longrightarrow> e_s (clear_event ss i es ! j) = Some k \<Longrightarrow> e_s (es ! j) = Some k"
    by (induction es arbitrary: j) (auto simp: nth_Cons' split: option.splits if_splits)
qed

lemma clear_closed_event_ok:
  assumes "server_ok ss"
  shows "server_ok (clear_closed_event t m ss)"
proof (cases "t = SOCKET_CLOSE \<or> t = SOCKET_ERR")
  case False
  with assms show ?thesis by (simp add: clear_closed_event_def)
next
  case True
  let ?n = "ss_event_index ss" and ?ev = "ss_ev ss"
  have ev: "ss_event_n ss = length ?ev" "?n \<le> length ?ev"
    "\<And>j k. ?n \<le> j \<Longrightarrow> j < length ?ev \<Longrightarrow> e_s (?ev ! j) = Some k \<Longrightarrow> s_type (ss_slot ss k) \<noteq> SOCKET_TYPE_RESERVE"
    using assms by (auto simp: server_ok_def events_ok_def)
  let ?es = "take ?n ?ev @ clear_event ss (m_id m) (drop ?n ?ev)"
  have run: "clear_closed_event t m ss = ss\<lparr>ss_ev := ?es\<rparr>" using True ev(1) by (simp add: clear_closed_event_def)
  have len: "length ?es = length ?ev" using ev(2) by (simp add: clear_event_ok)
  have "s_type (ss_slot ss k) \<noteq> SOCKET_TYPE_RESERVE" if "?n \<le> j" "j < length ?ev" "e_s (?es ! j) = Some k" for j k
  proof -
    have "?es ! j = clear_event ss (m_id m) (drop ?n ?ev) ! (j - ?n)" using that(1) ev(2) by (simp add: nth_append min_absorb2)
    with that clear_event_ok(2) [of "j - ?n" "drop ?n ?ev" ss "m_id m" k] have "e_s (?ev ! j) = Some k" by simp
    with ev(3) that show ?thesis by blast
  qed
  then show ?thesis unfolding run using assms len ev by (auto simp: server_ok_def events_ok_def)
qed

text \<open>
  What a round relies on beside \<open>os_ok\<close>: ids are not handed out again while requests for them wait,
  and the poll reports only sockets that were added to it, which reserved slots are not.
\<close>

definition round_ok :: "oscall \<Rightarrow> socket_server \<Rightarrow> bool" where
  "round_ok os ss \<longleftrightarrow> fresh_id ss \<and> (\<forall>e \<in> set (sr_events (os (ss_io ss) Sp_wait)). \<forall>k. e_s e = Some k \<longrightarrow>
     s_type (ss_slot ss k) \<noteq> SOCKET_TYPE_RESERVE)"

lemma poll_round_ok:
  assumes os: "os_ok os" and ok: "server_ok ss" and round: "round_ok os ss"
  shows "\<exists>ss' r w. poll_round os ss = Inr (ss', r, w) \<and> server_ok ss'"
proof (cases "ss_checkctrl ss \<and> has_cmd ss")
  case True
  with ctrl_cmd_ok [OF ok, of os] obtain ss' r where "ctrl_cmd os ss = Inr (ss', r)" "server_ok ss'" by blast
  with True clear_closed_event_ok show ?thesis by (auto simp: poll_round_def split: option.splits)
next
  case False
  let ?ss = "ss\<lparr>ss_checkctrl := False\<rparr>"
  have fresh: "fresh_id ss'" if "ss_slot ss' = ss_slot ss" "ss_alloc_id ss' = ss_alloc_id ss" "ss_pipe ss' = ss_pipe ss" for ss'
    using round reserve_loop_cong [OF that(1,2), of 0] that(3) by (simp add: fresh_id_def round_ok_def next_reserved_def reserve_id_def)
  have ok1: "server_ok ?ss" using ok by (simp add: server_ok_def events_ok_def)
  show ?thesis
  proof (cases "ss_event_index ss = ss_event_n ss")
    case idx: False
    then have "ss_event_index ?ss < ss_event_n ?ss" using ok by (simp add: server_ok_def events_ok_def)
    from dispatch_event_ok [OF os ok1 this fresh] obtain ss' r where
      "dispatch_event os ?ss = Inr (ss', r)" "server_ok ss'" by auto
    with False idx show ?thesis by (auto simp: poll_round_def)
  next
    case wait: True
    let ?r = "os (ss_io ss) Sp_wait"
    let ?ss2 = "?ss\<lparr>ss_io := ss_io ss @ [(Sp_wait, ?r)], ss_event_n := length (sr_events ?r), ss_ev := sr_events ?r,
      ss_checkctrl := True, ss_event_index := 0\<rparr>"
    have slots: "slots_ok (ss_slot ss)" "refs_ok (ss_slot ss) (ss_pipe ss)" "pipe_ok (ss_slot ss) (ss_pipe ss)"
      using ok by (simp_all add: server_ok_def)
    show ?thesis
    proof (cases "sr_n ?r \<le> 0")
      case True
      have "server_ok (?ss2\<lparr>ss_event_n := 0, ss_ev := []\<rparr>)" using slots by (simp add: server_ok_def events_ok_def)
      with kept_io(1) [OF this] server_ok_kept [OF this] False wait True show ?thesis
        by (auto simp: poll_round_def sys_def Let_def)
    next
      case some: False
      have ok2: "server_ok ?ss2" using slots round by (auto simp: server_ok_def events_ok_def round_ok_def)
      have "sr_events ?r \<noteq> []" using os some by (simp add: os_ok_def)
      then have "ss_event_index ?ss2 < ss_event_n ?ss2" by simp
      from dispatch_event_ok [OF os ok2 this fresh] obtain ss' r where
        "dispatch_event os ?ss2 = Inr (ss', r)" "server_ok ss'" by auto
      with False wait some show ?thesis by (auto simp: poll_round_def sys_def Let_def)
    qed
  qed
qed

end
