(* ===== verification/Socket_Safety.thy ===== *)
theory Socket_Safety
  imports Socket_Invariant
begin

text \<open>
  The calls of the workers keep the invariant of theory \<open>Socket_Invariant\<close>, so it holds in every
  reachable state; with it no assertion of \<^verbatim>\<open>socket_server.c\<close> fails, no NULL is dereferenced and no
  lock is waited for.
\<close>

section \<open>Calls of the workers\<close>

lemma snoc_split:
  "xs @ [r] = pre @ q # post \<Longrightarrow> (post = [] \<and> q = r \<and> pre = xs) \<or> (\<exists>post'. xs = pre @ q # post')"
  by (cases post rule: rev_cases) auto

text \<open>A request that opens nothing, appended to the pipe.\<close>

lemma pipe_ok_append:
  assumes p: "pipe_ok slot pipe" and r: "plain r" "opens r = None"
    and send: "\<And>k. s_type (slot k) = SOCKET_TYPE_RESERVE \<Longrightarrow> \<not> is_send (s_id (slot k)) r"
  shows "pipe_ok slot (pipe @ [r])"
  unfolding pipe_ok_def
proof (intro conjI allI impI)
  fix pre q post i assume q: "pipe @ [r] = pre @ q # post" "opens q = Some i"
  with snoc_split [OF q(1)] r(2) obtain post' where "pipe = pre @ q # post'" by auto
  from pipe_okD(4-6) [OF p this q(2)] show "s_type (slot (HASH_ID i)) = SOCKET_TYPE_RESERVE" "s_id (slot (HASH_ID i)) = i"
    "\<forall>q \<in> set pre. req_id q \<noteq> Some i" by auto
next
  fix k assume k: "s_type (slot k) = SOCKET_TYPE_RESERVE"
  from pipe_okD(2,3) [OF p k] send [OF k] show "sends (s_id (slot k)) (pipe @ [r]) = 0"
    "\<exists>q \<in> set (pipe @ [r]). opens q = Some (s_id (slot k))" by auto
qed (use pipe_okD(1) [OF p] r(1) in auto)

lemma send_request_ok:
  assumes ok: "server_ok ss" and r: "plain r" "opens r = None" "\<And>i. \<not> is_send i r"
  shows "server_ok (send_request r ss)"
proof -
  have "pipe_ok (ss_slot ss) (ss_pipe ss @ [r])" using ok r by (intro pipe_ok_append) (simp_all add: server_ok_def)
  then show ?thesis using ok r(3) by (simp add: server_ok_def send_request_def refs_ok_def events_ok_def)
qed

lemma send_by_pipe_ok:
  assumes ok: "server_ok ss" and live: "live (ss_slot ss (HASH_ID (sb_id buf)))" "s_id (ss_slot ss (HASH_ID (sb_id buf))) = sb_id buf"
    and mem: "sb_type buf \<noteq> SOCKET_BUFFER_OBJECT"
    and room: "s_sending (ss_slot ss (HASH_ID (sb_id buf))) mod 65536 \<noteq> 0xffff"
  shows "\<exists>ss'. send_by_pipe pr buf ss = Inr (ss', 0) \<and> server_ok ss'"
proof -
  let ?i = "sb_id buf" let ?k = "HASH_ID ?i" let ?s = "ss_slot ss ?k" let ?r = "Req_send pr ?i (clone_buffer buf)"
  have plain: "plain ?r" "opens ?r = None" "is_send j ?r \<longleftrightarrow> j = ?i" for j
    using mem by (cases "sb_type buf"; auto simp: plain_def opens_def is_send_def clone_buffer_def)+
  have append: "server_ok (send_request ?r ss')"
    if ss': "server_ok ss'" "live (ss_slot ss' ?k)" "s_protocol (ss_slot ss' ?k) = PROTOCOL_TCP \<Longrightarrow>
        sends ?i (ss_pipe ss') < s_sending (ss_slot ss' ?k) mod 65536" for ss'
  proof -
    have slots: "slots_ok (ss_slot ss')" "refs_ok (ss_slot ss') (ss_pipe ss')" "pipe_ok (ss_slot ss') (ss_pipe ss')" "events_ok ss'"
      using ss'(1) by (simp_all add: server_ok_def)
    have "pipe_ok (ss_slot ss') (ss_pipe ss' @ [?r])"
    proof (intro pipe_ok_append [OF slots(3)] plain(1,2))
      fix k assume k: "s_type (ss_slot ss' k) = SOCKET_TYPE_RESERVE"
      then have "HASH_ID (s_id (ss_slot ss' k)) = k" using slots(1) by (simp add: slots_ok_def)
      with k ss'(2) show "\<not> is_send (s_id (ss_slot ss' k)) ?r" by (auto simp: plain(3) live_def)
    qed
    moreover have "refs_ok (ss_slot ss') (ss_pipe ss' @ [?r])" unfolding refs_ok_def
    proof (intro allI impI)
      fix k assume k: "HASH_ID (s_id (ss_slot ss' k)) = k" "s_protocol (ss_slot ss' k) = PROTOCOL_TCP"
      show "sends (s_id (ss_slot ss' k)) (ss_pipe ss' @ [?r]) \<le> s_sending (ss_slot ss' k) mod 65536"
        using k ss'(3) slots(2) plain(3) by (cases "s_id (ss_slot ss' k) = ?i") (auto simp: refs_ok_def)
    qed
    ultimately show ?thesis using slots by (simp add: server_ok_def send_request_def events_ok_def)
  qed
  show ?thesis
  proof (cases "s_protocol ?s = PROTOCOL_TCP")
    case False
    with append [OF ok live(1)] show ?thesis by (simp add: send_by_pipe_def inc_sending_ref_def Let_def)
  next
    case True
    have tag: "s_sending ?s div 65536 = ID_TAG16 ?i" using ok live by (simp add: server_ok_def slots_ok_def)
    have cnt: "sends ?i (ss_pipe ss) \<le> s_sending ?s mod 65536"
      using ok True live(2) unfolding server_ok_def refs_ok_def by metis
    have sm: "Suc (s_sending ?s) div 65536 = s_sending ?s div 65536" "Suc (s_sending ?s) mod 65536 = Suc (s_sending ?s mod 65536)"
      using room by (simp_all add: div_Suc mod_Suc)
    let ?ss = "set_slot ?k (?s\<lparr>s_sending := s_sending ?s + 1\<rparr>) ss"
    have ok1: "server_ok ?ss" using cnt live(2) sm by (intro server_ok_sending [OF ok]) simp_all
    have "server_ok (send_request ?r ?ss)"
      using append [OF ok1] live(1) cnt sm(2) by (simp add: set_slot_def)
    with True tag room show ?thesis by (simp add: send_by_pipe_def inc_sending_ref_def Let_def)
  qed
qed

text \<open>Who sends with \<^verbatim>\<open>socket_server_send\<close>: to an open TCP socket, if to an existing one, and no user object.\<close>

definition send_ok :: "socket_sendbuffer \<Rightarrow> socket_server \<Rightarrow> bool" where
  "send_ok buf ss \<longleftrightarrow> sb_type buf \<noteq> SOCKET_BUFFER_OBJECT \<and>
     (let s = ss_slot ss (HASH_ID (sb_id buf)) in
      socket_invalid s (sb_id buf) \<or> s_type s \<noteq> SOCKET_TYPE_RESERVE \<and> s_protocol s = PROTOCOL_TCP)"

lemma free_buffer_ok:
  assumes "server_ok ss" "sb_type buf \<noteq> SOCKET_BUFFER_OBJECT"
  shows "\<exists>f. free_buffer buf ss = Inr (ss\<lparr>ss_freed := f\<rparr>)" "server_ok (ss\<lparr>ss_freed := f\<rparr>)"
proof -
  show "\<exists>f. free_buffer buf ss = Inr (ss\<lparr>ss_freed := f\<rparr>)"
  proof (cases "sb_type buf")
    case SOCKET_BUFFER_RAWPOINTER
    then show ?thesis by (intro exI [of _ "ss_freed ss"]) (simp add: free_buffer_def)
  qed (use assms(2) in \<open>auto simp: free_buffer_def free_payload_def\<close>)
  show "server_ok (ss\<lparr>ss_freed := f\<rparr>)" using assms(1) by (simp add: server_ok_def events_ok_def)
qed

lemma socket_server_send_ok:
  assumes os: "os_ok os" and ok: "server_ok ss" and buf: "send_ok buf ss"
    and room: "s_sending (ss_slot ss (HASH_ID (sb_id buf))) mod 65536 \<noteq> 0xffff"
  shows "\<exists>ss' n. socket_server_send os buf ss = Inr (ss', n) \<and> server_ok ss'"
proof -
  let ?i = "sb_id buf" let ?k = "HASH_ID ?i" let ?s = "ss_slot ss ?k"
  have mem: "sb_type buf \<noteq> SOCKET_BUFFER_OBJECT" using buf by (simp add: send_ok_def)
  obtain f where free: "free_buffer buf ss = Inr (ss\<lparr>ss_freed := f\<rparr>)" using free_buffer_ok(1) [OF ok mem] by blast
  show ?thesis
  proof (cases "socket_invalid ?s ?i \<or> s_closing ?s")
    case True
    with free free_buffer_ok(2) [OF ok mem] show ?thesis by (auto simp: socket_server_send_def)
  next
    case False
    then have i: "s_id ?s = ?i" "live ?s" "s_protocol ?s = PROTOCOL_TCP"
      using buf by (auto simp: send_ok_def socket_invalid_def live_def Let_def)
    note busy = server_ok_busy [OF ok i(2)]
    have lock: "\<not> s_dw_lock ?s" using busy by (simp add: busy_def)
    show ?thesis
    proof (cases "can_direct_write ?s ?i")
      case pipe: False
      with send_by_pipe_ok [OF ok i(2,1) mem room, of PRIORITY_HIGH] False show ?thesis by (auto simp: socket_server_send_def Let_def)
    next
      case direct: True
      let ?bs = "sb_bytes buf" and ?lock = "upd_slot ?k (\<lambda>s. s\<lparr>s_dw_lock := True\<rparr>) ss"
      let ?c = "Sys_write (s_fd ?s) ?bs"
      obtain ss1 r where sys1: "sys os ?c ?lock = (ss1, r)" by fastforce
      have r: "sr_n r \<le> int (length ?bs)" using sys1 os by (auto simp: sys_def Let_def os_ok_def)
      let ?n = "max 0 (sr_n r)"
      obtain st where st: "stat_write ?k ?n ss1 = upd_slot ?k (\<lambda>s. s\<lparr>s_stat := st\<rparr>) ss1" using stat_write_ex by blast
      have ss1: "ss1 = ?lock\<lparr>ss_io := ss_io ss @ [(?c, r)]\<rparr>" using sys1 by (auto simp: sys_def Let_def srv)
      note st1 = st [unfolded ss1]
      let ?done = "upd_slot ?k (\<lambda>s. s\<lparr>s_dw_lock := False\<rparr>) (stat_write ?k ?n ss1)"
      have done_slot: "ss_slot ?done = (ss_slot ss)(?k := ?s\<lparr>s_stat := st\<rparr>)"
        unfolding ss1 st1 using lock by (auto simp: srv fun_eq_iff)
      have done_kept: "kept ?k ss ?done" unfolding ss1 st1 using busy lock
        by (intro kept_live) (auto simp: frame_def srv busy_def live_def)
      have done_ok: "server_ok ?done" by (rule server_ok_kept [OF ok done_kept])
      have obj: "send_object_init_from_sendbuffer ss' buf = Inr ?bs" for ss'
        using mem by (cases "sb_type buf") (auto simp: send_object_init_from_sendbuffer_def)
      have got: "socket_trylock ?k 0 ss = Some (?lock, 1)" using lock by (simp add: socket_trylock_def)
      let ?dw = "\<lambda>s. s\<lparr>s_dw_buffer := Some (clone_buffer buf), s_dw_offset := nat ?n\<rparr>"
      have run: "socket_server_send os buf ss =
          (if ?n = int (length ?bs)
           then bindE (free_buffer buf ?done) (\<lambda>ss. Inr (ss, 0))
           else bindE (inc_sending_ref ?k ?i (upd_slot ?k (\<lambda>s. s\<lparr>s_dw_lock := False\<rparr>) (upd_slot ?k ?dw (stat_write ?k ?n ss1))))
             (\<lambda>ss. Inr (send_request (Req_trigger ?i) ss, 0)))"
        using False direct i(3) got obj sys1 by (simp add: socket_server_send_def Let_def socket_unlock_def)
      show ?thesis
      proof (cases "?n = int (length ?bs)")
        case True
        obtain f where f: "free_buffer buf ?done = Inr (?done\<lparr>ss_freed := f\<rparr>)" using free_buffer_ok(1) [OF done_ok mem] by blast
        have "socket_server_send os buf ss = Inr (?done\<lparr>ss_freed := f\<rparr>, 0)" unfolding run using True f by simp
        with free_buffer_ok(2) [OF done_ok mem] show ?thesis by blast
      next
        case part: False
        let ?ss2 = "upd_slot ?k (\<lambda>s. s\<lparr>s_dw_lock := False\<rparr>) (upd_slot ?k ?dw (stat_write ?k ?n ss1))"
        obtain bs where bs: "clone_buffer buf = Memory bs" "length bs = length ?bs"
          using mem by (cases "sb_type buf") (auto simp: clone_buffer_def)
        have slot2: "ss_slot ?ss2 ?k = ?s\<lparr>s_stat := st, s_dw_buffer := Some (Memory bs), s_dw_offset := nat ?n\<rparr>"
          unfolding ss1 st1 using lock bs(1) by (simp add: srv)
        have "kept ?k ss ?ss2"
        proof (intro kept_live)
          show "frame ?k ss ?ss2" unfolding ss1 st1 using lock by (auto simp: frame_def srv)
          show "bufs_ok (ss_slot ?ss2 ?k)" unfolding slot2 using busy i(3) bs(2) r by (auto simp: bufs_ok_def busy_def)
        qed (use i(2) slot2 in \<open>auto simp: live_def\<close>)
        then have ok2: "server_ok ?ss2" by (rule server_ok_kept [OF ok])
        let ?ss3 = "set_slot ?k ((ss_slot ?ss2 ?k)\<lparr>s_sending := Suc (s_sending (ss_slot ?ss2 ?k))\<rparr>) ?ss2"
        have tag: "s_sending ?s div 65536 = ID_TAG16 ?i" using ok i by (simp add: server_ok_def slots_ok_def)
        have zero: "s_sending ?s mod 65536 = 0" using direct by (auto simp: can_direct_write_def nomore_sending_data_def)
        have sm: "Suc (s_sending ?s) div 65536 = s_sending ?s div 65536" "Suc (s_sending ?s) mod 65536 = Suc (s_sending ?s mod 65536)"
          using room by (simp_all add: div_Suc mod_Suc)
        have inc: "inc_sending_ref ?k ?i ?ss2 = Inr ?ss3" using slot2 i(3) tag zero by (simp add: inc_sending_ref_def Let_def)
        have pipe2: "ss_pipe ?ss2 = ss_pipe ss" unfolding ss1 st1 by (simp add: srv)
        have "sends ?i (ss_pipe ss) \<le> s_sending ?s mod 65536" using ok i unfolding server_ok_def refs_ok_def by metis
        then have "server_ok ?ss3" using slot2 sm i(1) pipe2 by (intro server_ok_sending [OF ok2]) simp_all
        then have "server_ok (send_request (Req_trigger ?i) ?ss3)"
          by (rule send_request_ok) (simp_all add: plain_def opens_def is_send_def)
        then show ?thesis unfolding run using part inc by simp
      qed
    qed
  qed
qed

text \<open>The slot that would be reserved next has no pending event, and its id no waiting request.\<close>

definition may_reserve :: "socket_server \<Rightarrow> bool" where
  "may_reserve ss \<longleftrightarrow> fresh_id ss \<and> (\<forall>j. ss_event_index ss \<le> j \<longrightarrow> j < ss_event_n ss \<longrightarrow>
     e_s (ss_ev ss ! j) \<noteq> Some (HASH_ID (next_reserved ss)))"

lemma server_ok_reserve:
  assumes ok: "server_ok ss" and may: "may_reserve ss" and res: "reserve_id ss = (ss', i)" "0 \<le> i"
    and r: "opens r = Some i" "plain r"
  shows "server_ok (send_request r ss')"
proof (rule reserve_id_ok [OF ok])
  fix a assume "reserve_id ss = (ss\<lparr>ss_alloc_id := a\<rparr>, - 1)"
  with res show ?thesis by simp
next
  fix ss1 i1 assume "reserve_id ss = (ss1, i1)" "0 \<le> i1" "next_reserved ss = i1" "s_type (ss_slot ss (HASH_ID i1)) = SOCKET_TYPE_INVALID"
    "reserved (HASH_ID i1) i1 ss1" "outer (HASH_ID i1) ss ss1" "s_protocol (ss_slot ss1 (HASH_ID i1)) = PROTOCOL_UNKNOWN"
  with res(1) have next_i: "next_reserved ss = i" and inv: "s_type (ss_slot ss (HASH_ID i)) = SOCKET_TYPE_INVALID"
    and rsv: "reserved (HASH_ID i) i ss'" and out: "outer (HASH_ID i) ss ss'" and unk: "s_protocol (ss_slot ss' (HASH_ID i)) = PROTOCOL_UNKNOWN" by auto
  let ?k = "HASH_ID i"
  have p: "slots_ok (ss_slot ss)" "refs_ok (ss_slot ss) (ss_pipe ss)" "pipe_ok (ss_slot ss) (ss_pipe ss)" "events_ok ss"
    using ok by (simp_all add: server_ok_def)
  have fresh: "\<forall>q \<in> set (ss_pipe ss). req_id q \<noteq> Some i" using may next_i by (auto simp: may_reserve_def fresh_id_def)
  have o: "ss_pipe ss' = ss_pipe ss" "ss_event_n ss' = ss_event_n ss" "ss_event_index ss' = ss_event_index ss" "ss_ev ss' = ss_ev ss"
    "\<And>j. j \<noteq> ?k \<Longrightarrow> ss_slot ss' j = ss_slot ss j" using out by (auto simp: outer_def)
  have k: "s_type (ss_slot ss' ?k) = SOCKET_TYPE_RESERVE" "s_id (ss_slot ss' ?k) = i" "cleared (ss_slot ss' ?k)" "\<not> s_dw_lock (ss_slot ss' ?k)"
    using rsv by (auto simp: reserved_def)
  have none: "sends i (ss_pipe ss) = 0" using fresh by (rule sends_req_id)
  have "slots_ok (ss_slot ss')" unfolding slots_ok_def
  proof
    fix j show "sock_ok (ss_slot ss' j) \<and> \<not> s_dw_lock (ss_slot ss' j)
       \<and> (s_type (ss_slot ss' j) \<noteq> SOCKET_TYPE_INVALID \<longrightarrow> HASH_ID (s_id (ss_slot ss' j)) = j)
       \<and> (live (ss_slot ss' j) \<longrightarrow> s_sending (ss_slot ss' j) div 65536 = ID_TAG16 (s_id (ss_slot ss' j)))"
      using p(1) o(5) k unk by (cases "j = ?k") (auto simp: slots_ok_def sock_ok_def live_def)
  qed
  moreover have "refs_ok (ss_slot ss') (ss_pipe ss @ [r])" unfolding refs_ok_def
  proof (intro allI impI)
    fix j assume "HASH_ID (s_id (ss_slot ss' j)) = j" "s_protocol (ss_slot ss' j) = PROTOCOL_TCP"
    then show "sends (s_id (ss_slot ss' j)) (ss_pipe ss @ [r]) \<le> s_sending (ss_slot ss' j) mod 65536"
      using unk o(5) p(2) opens_req_id(2) [OF r(1)] by (cases "j = ?k") (auto simp: refs_ok_def)
  qed
  moreover have "pipe_ok (ss_slot ss') (ss_pipe ss @ [r])" unfolding pipe_ok_def
  proof (intro conjI allI impI)
    show "\<forall>q \<in> set (ss_pipe ss @ [r]). plain q" using pipe_okD(1) [OF p(3)] r(2) by auto
  next
    fix j assume j: "s_type (ss_slot ss' j) = SOCKET_TYPE_RESERVE"
    show "sends (s_id (ss_slot ss' j)) (ss_pipe ss @ [r]) = 0" "\<exists>q \<in> set (ss_pipe ss @ [r]). opens q = Some (s_id (ss_slot ss' j))"
      using j k(2) none r(1) opens_req_id(2) [OF r(1)] o(5) pipe_okD(2,3) [OF p(3), of j] by (cases "j = ?k"; auto)+
  next
    fix pre q post i' assume q: "ss_pipe ss @ [r] = pre @ q # post" "opens q = Some i'"
    from snoc_split [OF q(1)] have "s_type (ss_slot ss' (HASH_ID i')) = SOCKET_TYPE_RESERVE \<and> s_id (ss_slot ss' (HASH_ID i')) = i'
        \<and> (\<forall>q \<in> set pre. req_id q \<noteq> Some i')"
    proof (elim disjE conjE exE)
      assume "q = r" "pre = ss_pipe ss"
      with q(2) r(1) k fresh show ?thesis by auto
    next
      fix post' assume "ss_pipe ss = pre @ q # post'"
      note * = pipe_okD(4-6) [OF p(3) this q(2)]
      then have "HASH_ID i' \<noteq> ?k" using inv by auto
      with * o(5) show ?thesis by auto
    qed
    then show "s_type (ss_slot ss' (HASH_ID i')) = SOCKET_TYPE_RESERVE" "s_id (ss_slot ss' (HASH_ID i')) = i'"
      "\<forall>q \<in> set pre. req_id q \<noteq> Some i'" by auto
  qed
  moreover have "events_ok ss'" unfolding events_ok_def o(2-4)
  proof (intro conjI allI impI)
    fix j m assume e: "ss_event_index ss \<le> j" "j < ss_event_n ss" "e_s (ss_ev ss ! j) = Some m"
    with may next_i have "m \<noteq> ?k" by (auto simp: may_reserve_def)
    with e p(4) o(5) show "s_type (ss_slot ss' m) \<noteq> SOCKET_TYPE_RESERVE" by (auto simp: events_ok_def)
  qed (use p(4) in \<open>simp_all add: events_ok_def\<close>)
  ultimately show ?thesis by (simp add: server_ok_def send_request_def o(1) events_ok_def)
qed

lemma may_reserve_io: "may_reserve (ss\<lparr>ss_io := io\<rparr>) = may_reserve ss"
proof -
  have "next_reserved (ss\<lparr>ss_io := io\<rparr>) = next_reserved ss"
    unfolding next_reserved_def reserve_id_def by (rule reserve_loop_cong) simp_all
  then show ?thesis by (simp add: may_reserve_def fresh_id_def)
qed

lemma server_ok_io: "server_ok (ss\<lparr>ss_io := io\<rparr>) = server_ok ss" "server_ok (ss\<lparr>ss_alloc_id := a\<rparr>) = server_ok ss"
  "server_ok (do_sys os c ss) = server_ok ss"
  by (simp_all add: server_ok_def events_ok_def do_sys_def sys_def Let_def)

text \<open>Reserving an id and sending the request that opens it, after calls of the operating system.\<close>

lemma reserve_then:
  assumes ok: "server_ok ss" and may: "may_reserve ss" and res: "reserve_id (ss\<lparr>ss_io := io\<rparr>) = (ss1, i)"
    and ss': "ss' = (if i < 0 then f ss1 else send_request r ss1)" and f: "f = (\<lambda>ss. ss) \<or> (\<exists>os c. f = do_sys os c)"
    and r: "opens r = Some i" "plain r"
  shows "server_ok ss'"
proof (cases "i < 0")
  case False
  with server_ok_reserve [OF _ _ res _ r] ok may ss' show ?thesis by (simp add: server_ok_io may_reserve_io)
next
  case True
  have ok1: "server_ok (ss\<lparr>ss_io := io\<rparr>)" using ok by (simp add: server_ok_io)
  have "server_ok ss1"
  proof (rule reserve_id_ok [OF ok1])
    fix a assume "reserve_id (ss\<lparr>ss_io := io\<rparr>) = (ss\<lparr>ss_io := io\<rparr>\<lparr>ss_alloc_id := a\<rparr>, - 1)"
    with res have "ss1 = ss\<lparr>ss_io := io\<rparr>\<lparr>ss_alloc_id := a\<rparr>" by simp
    then show ?thesis using ok by (simp only: server_ok_io)
  qed (use res True in simp)
  with ss' f True show ?thesis by (auto simp: server_ok_io)
qed

text \<open>Only calls of the operating system.\<close>

definition only_io :: "socket_server \<Rightarrow> socket_server \<Rightarrow> bool" where
  "only_io ss ss' \<longleftrightarrow> (\<exists>io. ss' = ss\<lparr>ss_io := io\<rparr>)"

lemma only_io_intros:
  "only_io ss ss' \<Longrightarrow> only_io ss (do_sys os c ss')" "only_io ss ss' \<Longrightarrow> sys os c ss' = (ss'', r) \<Longrightarrow> only_io ss ss''" "only_io ss ss"
proof -
  show "only_io ss ss" unfolding only_io_def by (rule exI [of _ "ss_io ss"]) simp
qed (auto simp: only_io_def do_sys_def sys_def Let_def)

lemma do_bind_io: "\<exists>io. fst (do_bind os host port tcp ss) = ss\<lparr>ss_io := io\<rparr>"
proof -
  obtain ss1 ai where 1: "sys os (Sys_getaddrinfo (if host = [] then ''0.0.0.0'' else host) port tcp) ss = (ss1, ai)" by fastforce
  have io1: "only_io ss ss1" using only_io_intros(2) [OF only_io_intros(3) 1] .
  have "only_io ss (fst (do_bind os host port tcp ss))"
  proof (cases "if sr_n ai \<noteq> 0 then [] else sr_addrs ai")
    case Nil
    with 1 io1 show ?thesis by (simp add: do_bind_def Let_def)
  next
    case (Cons a as)
    obtain fam addr where a: "a = (fam, addr)" by fastforce
    obtain ss2 r where 2: "sys os (Sys_socket fam tcp) ss1 = (ss2, r)" by fastforce
    obtain ss3 opt where 3: "sys os (Sys_setsockopt (sr_n r) ''SO_REUSEADDR'' 1) ss2 = (ss3, opt)" by fastforce
    obtain ss4 b where 4: "sys os (Sys_bind (sr_n r) addr) ss3 = (ss4, b)" by fastforce
    note io2 = only_io_intros(2) [OF io1 2]
    note io3 = only_io_intros(2) [OF io2 3]
    note io4 = only_io_intros(2) [OF io3 4]
    have "do_bind os host port tcp ss = (if sr_n r < 0 then (ss2, None)
        else if sr_n opt = -1 then (do_sys os (Sys_close (sr_n r)) ss3, None)
        else if sr_n b \<noteq> 0 then (do_sys os (Sys_close (sr_n r)) ss4, None) else (ss4, Some (sr_n r, fam)))"
      unfolding do_bind_def Let_def 1 prod.case Cons list.case a 2 3 4 by simp
    then show ?thesis using io2 io3 io4 only_io_intros(1) by auto
  qed
  then show ?thesis by (simp add: only_io_def)
qed

lemma do_listen_io: "\<exists>io. fst (do_listen os host port backlog ss) = ss\<lparr>ss_io := io\<rparr>"
proof -
  obtain ss1 b where b: "do_bind os host port True ss = (ss1, b)" by fastforce
  then have io1: "only_io ss ss1" using do_bind_io [of os host port True ss] by (simp add: only_io_def)
  have "only_io ss (fst (do_listen os host port backlog ss))"
  proof (cases b)
    case None
    with b io1 show ?thesis by (simp add: do_listen_def)
  next
    case (Some x)
    obtain fd fam where x: "x = (fd, fam)" by fastforce
    obtain ss2 r where 2: "sys os (Sys_listen fd backlog) ss1 = (ss2, r)" by fastforce
    note io2 = only_io_intros(2) [OF io1 2]
    from b Some x 2 io2 only_io_intros(1) [OF io2] show ?thesis by (simp add: do_listen_def)
  qed
  then show ?thesis by (simp add: only_io_def)
qed

lemma socket_server_connect_ok:
  assumes "server_ok ss" "may_reserve ss"
  shows "server_ok (fst (socket_server_connect os opq addr port ss))"
proof (cases "length addr + 24 \<ge> 256")
  case True
  with assms show ?thesis by (simp add: socket_server_connect_def open_request_def server_ok_io)
next
  case False
  obtain ss1 i where res: "reserve_id ss = (ss1, i)" by fastforce
  then have "server_ok (if i < 0 then ss1 else send_request (Req_open i port opq addr) ss1)"
    by (intro reserve_then [OF assms, of "ss_io ss" ss1 i _ "\<lambda>ss. ss" "Req_open i port opq addr"]) (simp_all add: opens_def plain_def)
  with False res show ?thesis by (simp add: socket_server_connect_def open_request_def split: if_splits)
qed

lemma socket_server_bind_ok:
  assumes "server_ok ss" "may_reserve ss"
  shows "server_ok (fst (socket_server_bind opq fd ss))"
proof -
  obtain ss1 i where res: "reserve_id ss = (ss1, i)" by fastforce
  then have "server_ok (if i < 0 then ss1 else send_request (Req_bind i fd opq) ss1)"
    by (intro reserve_then [OF assms, of "ss_io ss" ss1 i _ "\<lambda>ss. ss" "Req_bind i fd opq"]) (simp_all add: opens_def plain_def)
  with res show ?thesis by (simp add: socket_server_bind_def split: if_splits)
qed

lemma socket_server_listen_ok:
  assumes "server_ok ss" "may_reserve ss"
  shows "server_ok (fst (socket_server_listen os opq addr port backlog ss))"
proof -
  obtain io where io: "fst (do_listen os addr port backlog ss) = ss\<lparr>ss_io := io\<rparr>" using do_listen_io by blast
  then obtain fd where fd: "do_listen os addr port backlog ss = (ss\<lparr>ss_io := io\<rparr>, fd)" by (metis prod.collapse)
  obtain ss1 i where res: "reserve_id (ss\<lparr>ss_io := io\<rparr>) = (ss1, i)" by fastforce
  have "server_ok (if i < 0 then do_sys os (Sys_close fd) ss1 else send_request (Req_listen i fd opq) ss1)"
    by (intro reserve_then [OF assms res, of _ "do_sys os (Sys_close fd)" "Req_listen i fd opq"]) (auto simp: opens_def plain_def)
  with fd res assms(1) show ?thesis by (simp add: socket_server_listen_def server_ok_io split: if_splits)
qed

lemma socket_server_udp_ok:
  assumes "server_ok ss" "may_reserve ss"
  shows "server_ok (fst (socket_server_udp os opq addr port ss))"
proof -
  define b where "b = (if port \<noteq> 0 \<or> addr \<noteq> None then do_bind os (case addr of None \<Rightarrow> [] | Some a \<Rightarrow> a) port False ss
            else let (ss, r) = sys os (Sys_socket AF_INET False) ss in
              (ss, if sr_n r < 0 then None else Some (sr_n r, AF_INET)))"
  have "\<exists>io. fst b = ss\<lparr>ss_io := io\<rparr>"
    using do_bind_io by (auto simp: b_def sys_def Let_def)
  then obtain io f where b: "b = (ss\<lparr>ss_io := io\<rparr>, f)" by (metis prod.collapse)
  have run: "socket_server_udp os opq addr port ss = (case f of None \<Rightarrow> (ss\<lparr>ss_io := io\<rparr>, -1)
         | Some (fd, fam) \<Rightarrow>
             if fd < 0 then (ss\<lparr>ss_io := io\<rparr>, -1)
             else
               let ss = do_sys os (Sp_nonblocking fd) (ss\<lparr>ss_io := io\<rparr>); (ss, sid) = reserve_id ss in
               if sid < 0 then (do_sys os (Sys_close fd) ss, -1)
               else (send_request (Req_udp sid fd fam opq) ss, sid))"
    unfolding socket_server_udp_def unfolding b_def [symmetric] b by simp
  show ?thesis
  proof (cases f)
    case None
    with run assms(1) show ?thesis by (simp add: server_ok_io)
  next
    case (Some x)
    obtain fd fam where x: "x = (fd, fam)" by fastforce
    show ?thesis
    proof (cases "fd < 0")
      case True
      with run Some x assms(1) show ?thesis by (simp add: server_ok_io)
    next
      case False
      obtain io' where io': "do_sys os (Sp_nonblocking fd) (ss\<lparr>ss_io := io\<rparr>) = ss\<lparr>ss_io := io'\<rparr>"
        by (simp add: do_sys_def sys_def Let_def)
      obtain ss1 i where res: "reserve_id (ss\<lparr>ss_io := io'\<rparr>) = (ss1, i)" by fastforce
      have "server_ok (if i < 0 then do_sys os (Sys_close fd) ss1 else send_request (Req_udp i fd fam opq) ss1)"
        by (intro reserve_then [OF assms res, of _ "do_sys os (Sys_close fd)" "Req_udp i fd fam opq"]) (auto simp: opens_def plain_def)
      with run Some x False io' res show ?thesis by (simp split: if_splits)
    qed
  qed
qed

lemma simple_requests_ok:
  assumes "server_ok ss"
  shows "server_ok (socket_server_close opq i ss)" "server_ok (socket_server_shutdown opq i ss)" "server_ok (socket_server_start opq i ss)"
    "server_ok (socket_server_pause opq i ss)" "server_ok (socket_server_nodelay i ss)" "server_ok (socket_server_exit ss)"
    "server_ok (socket_server_updatetime t ss)" "server_ok (socket_server_userobject ss)"
  unfolding socket_server_close_def socket_server_shutdown_def socket_server_start_def socket_server_pause_def
    socket_server_nodelay_def socket_server_exit_def
  by (rule send_request_ok [OF assms]; simp add: plain_def opens_def is_send_def)+
    (use assms in \<open>simp_all add: socket_server_updatetime_def socket_server_userobject_def server_ok_def events_ok_def\<close>)

definition low_ok :: "socket_sendbuffer \<Rightarrow> socket_server \<Rightarrow> bool" where
  "low_ok buf ss \<longleftrightarrow> sb_type buf \<noteq> SOCKET_BUFFER_OBJECT \<and>
     (let s = ss_slot ss (HASH_ID (sb_id buf)) in socket_invalid s (sb_id buf) \<or> s_type s \<noteq> SOCKET_TYPE_RESERVE)"

lemma socket_server_send_lowpriority_ok:
  assumes ok: "server_ok ss" and buf: "low_ok buf ss" and room: "s_sending (ss_slot ss (HASH_ID (sb_id buf))) mod 65536 \<noteq> 0xffff"
  shows "\<exists>ss' n. socket_server_send_lowpriority buf ss = Inr (ss', n) \<and> server_ok ss'"
proof (cases "socket_invalid (ss_slot ss (HASH_ID (sb_id buf))) (sb_id buf)")
  case True
  have mem: "sb_type buf \<noteq> SOCKET_BUFFER_OBJECT" using buf by (simp add: low_ok_def)
  with True free_buffer_ok [OF ok mem] show ?thesis by (auto simp: socket_server_send_lowpriority_def)
next
  case False
  then have "live (ss_slot ss (HASH_ID (sb_id buf)))" "s_id (ss_slot ss (HASH_ID (sb_id buf))) = sb_id buf"
    using buf by (auto simp: low_ok_def socket_invalid_def live_def Let_def)
  with send_by_pipe_ok [OF ok this _ room, of PRIORITY_LOW] buf False show ?thesis
    by (auto simp: socket_server_send_lowpriority_def low_ok_def)
qed

lemma socket_server_udp_send_ok:
  assumes ok: "server_ok ss" and mem: "sb_type buf \<noteq> SOCKET_BUFFER_OBJECT"
  shows "\<exists>ss' n. socket_server_udp_send os addr buf ss = Inr (ss', n) \<and> server_ok ss'"
proof -
  let ?i = "sb_id buf" let ?k = "HASH_ID ?i" let ?s = "ss_slot ss ?k"
  let ?pipe = "\<lambda>ss. send_request (Req_send_udp ?i (clone_buffer buf)
            (take (if addr ! 0 = protocol_byte PROTOCOL_UDP then 1 + 2 + 4 else 1 + 2 + 16) addr)) ss"
  have plain: "\<exists>bs. clone_buffer buf = Memory bs" using mem by (cases "sb_type buf") (auto simp: clone_buffer_def)
  have pipe: "server_ok (?pipe ss')" if "server_ok ss'" for ss'
    by (rule send_request_ok [OF that]) (use plain in \<open>simp_all add: plain_def opens_def is_send_def\<close>)
  have free: "\<exists>ss''. free_buffer buf ss' = Inr ss'' \<and> server_ok ss''" if "server_ok ss'" for ss'
    using free_buffer_ok [OF that mem] by auto
  show ?thesis
  proof (cases "socket_invalid ?s ?i \<or> addr ! 0 \<noteq> protocol_byte PROTOCOL_UDP \<and> addr ! 0 \<noteq> protocol_byte PROTOCOL_UDPv6")
    case True
    with free [OF ok] show ?thesis by (auto simp: socket_server_udp_send_def Let_def)
  next
    case False
    show ?thesis
    proof (cases "can_direct_write ?s ?i")
      case no: False
      with False pipe [OF ok] show ?thesis by (auto simp: socket_server_udp_send_def Let_def)
    next
      case True
      then have "live ?s" by (simp add: can_direct_write_def live_def)
      note busy = server_ok_busy [OF ok this]
      have lock: "\<not> s_dw_lock ?s" using busy by (simp add: busy_def)
      let ?lock = "upd_slot ?k (\<lambda>s. s\<lparr>s_dw_lock := True\<rparr>) ss" and ?un = "upd_slot ?k (\<lambda>s. s\<lparr>s_dw_lock := False\<rparr>)"
      have got: "socket_trylock ?k 0 ss = Some (?lock, 1)" using lock by (simp add: socket_trylock_def)
      have obj: "send_object_init_from_sendbuffer ss' buf = Inr (sb_bytes buf)" for ss'
        using mem by (cases "sb_type buf") (auto simp: send_object_init_from_sendbuffer_def)
      have b1: "busy ?k 1 ?lock" using busy by (simp add: busy_def live_def)
      have b2: "busy ?k 1 (fst (sys os c ?lock))" for c using b1 by (simp add: busy_def)
      have unlock: "server_ok (?un ss')" if "handled ?k ?lock ss'" for ss'
        by (rule server_ok_kept [OF ok handled_kept [OF busy locked_frame [OF lock that]]])
      have st: "handled ?k ?lock (stat_write ?k n (fst (sys os c ?lock)))" for n c
        using b2 [of c] unfolding stat_write_def by (intro handledI frame_trans [OF frame_sys(1) frame_upd]) (auto simp: busy_def)
      have u: "server_ok (?un ?lock)" "server_ok (?un (fst (sys os c ?lock)))" "server_ok (?un (stat_write ?k n (fst (sys os c ?lock))))" for n c
        by (rule unlock, rule busy_handled [OF b1], rule unlock, rule handled_trans [OF frame_sys(1) busy_handled [OF b2]], rule unlock, rule st)
      show ?thesis
      proof (cases "udp_socket_address ?s addr")
        case None
        with False True got obj free [OF u(1)] show ?thesis by (auto simp: socket_server_udp_send_def Let_def socket_unlock_def)
      next
        case (Some sa)
        let ?c = "Sys_sendto (s_fd ?s) (sb_bytes buf) sa"
        show ?thesis
        proof (cases "sr_n (snd (sys os ?c ?lock)) \<ge> 0")
          case sent: True
          with False True got obj Some free [OF u(3)] show ?thesis
            by (auto simp: socket_server_udp_send_def Let_def socket_unlock_def split_beta)
        next
          case sent: False
          with False True got obj Some pipe [OF u(2)] show ?thesis
            by (auto simp: socket_server_udp_send_def Let_def socket_unlock_def split_beta)
        qed
      qed
    qed
  qed
qed

lemma socket_server_udp_connect_ok:
  assumes ok: "server_ok ss"
  shows "\<exists>ss' n. socket_server_udp_connect os i addr port ss = Inr (ss', n) \<and> server_ok ss'"
proof (cases "socket_invalid (ss_slot ss (HASH_ID i)) i")
  case True
  with ok show ?thesis by (simp add: socket_server_udp_connect_def)
next
  case False
  let ?k = "HASH_ID i" let ?s = "ss_slot ss ?k"
  let ?ss = "set_slot ?k (?s\<lparr>s_udpconnecting := s_udpconnecting ?s + 1\<rparr>) ss"
  have lock: "\<not> s_dw_lock ?s" and sok: "sock_ok ?s" using ok by (auto simp: server_ok_def slots_ok_def)
  have "upd_slot ?k (\<lambda>s. s\<lparr>s_dw_lock := False\<rparr>) (upd_slot ?k (\<lambda>s. s\<lparr>s_udpconnecting := s_udpconnecting s + 1\<rparr>)
      (upd_slot ?k (\<lambda>s. s\<lparr>s_dw_lock := True\<rparr>) ss)) = ?ss" using lock by (cases ?s) (simp add: srv)
  moreover have "kept ?k ss ?ss" using sok by (auto simp: kept_def frame_def set_slot_def sock_ok_def cleared_def split: if_splits)
  note ok1 = server_ok_kept [OF ok this]
  have io: "server_ok (fst (sys os c ?ss))" for c using server_ok_kept [OF ok1 kept_io(2) [OF ok1]] .
  have "server_ok (send_request (Req_set_udp i a) (fst (sys os c ?ss)))" for a c
    by (rule send_request_ok [OF io]) (simp_all add: plain_def opens_def is_send_def)
  ultimately show ?thesis using False lock io
    by (auto simp: socket_server_udp_connect_def Let_def socket_lock_def socket_unlock_def split_beta split: list.splits family.splits)
qed

lemma query_info_io: "only_io ss (fst (query_info os k ss))"
proof -
  have "only_io ss (fst (sys os c ss))" for c by (metis only_io_intros(2,3) prod.collapse)
  then show ?thesis using only_io_intros(3)
    by (cases "s_type (ss_slot ss k)") (simp_all add: query_info_def Let_def split_beta)
qed

lemma socket_server_info_ok:
  assumes "server_ok ss"
  shows "server_ok (fst (socket_server_info os ss))"
proof -
  have "only_io ss (fst (fold (\<lambda>i (ss, si). let (ss, q) = query_info os i ss in (ss, case q of None \<Rightarrow> si | Some temp \<Rightarrow> temp # si)) is (ss1, si)))"
    if "only_io ss ss1" for "is" ss1 si
    using that
  proof (induction "is" arbitrary: ss1 si)
    case (Cons i "is")
    obtain ss2 q where q: "query_info os i ss1 = (ss2, q)" by fastforce
    have "only_io ss ss2" using Cons.prems query_info_io [of ss1 os i] q by (auto simp: only_io_def)
    from Cons.IH [OF this] q show ?case by simp
  qed simp
  from this [OF only_io_intros(3), of "[0..<MAX_SOCKET]" "[]"] obtain io where
    "fst (socket_server_info os ss) = ss\<lparr>ss_io := io\<rparr>" unfolding socket_server_info_def only_io_def by blast
  with assms show ?thesis by (simp add: server_ok_io)
qed

section \<open>Reachable states\<close>

text \<open>
  The calls of the worker threads, with what their callers keep to: data is sent with
  \<^verbatim>\<open>socket_server_send\<close> to TCP sockets whose opening is finished, not as user objects, and the slot
  that is reserved has no event or request left of its last use.
\<close>

inductive worker :: "oscall \<Rightarrow> socket_server \<Rightarrow> socket_server \<Rightarrow> bool" for os where
  connect: "may_reserve ss \<Longrightarrow> worker os ss (fst (socket_server_connect os opq addr port ss))"
| listen: "may_reserve ss \<Longrightarrow> worker os ss (fst (socket_server_listen os opq addr port backlog ss))"
| bind: "may_reserve ss \<Longrightarrow> worker os ss (fst (socket_server_bind opq fd ss))"
| udp: "may_reserve ss \<Longrightarrow> worker os ss (fst (socket_server_udp os opq uaddr port ss))"
| close: "worker os ss (socket_server_close opq i ss)"
| shutdown: "worker os ss (socket_server_shutdown opq i ss)"
| start: "worker os ss (socket_server_start opq i ss)"
| pause: "worker os ss (socket_server_pause opq i ss)"
| nodelay: "worker os ss (socket_server_nodelay i ss)"
| exit: "worker os ss (socket_server_exit ss)"
| updatetime: "worker os ss (socket_server_updatetime t ss)"
| info: "worker os ss (fst (socket_server_info os ss))"
| send: "send_ok buf ss \<Longrightarrow> socket_server_send os buf ss = Inr (ss', n) \<Longrightarrow> worker os ss ss'"
| send_low: "low_ok buf ss \<Longrightarrow> socket_server_send_lowpriority buf ss = Inr (ss', n) \<Longrightarrow> worker os ss ss'"
| udp_send: "sb_type buf \<noteq> SOCKET_BUFFER_OBJECT \<Longrightarrow> socket_server_udp_send os uaddr2 buf ss = Inr (ss', n) \<Longrightarrow> worker os ss ss'"
| udp_connect: "socket_server_udp_connect os i addr port ss = Inr (ss', n) \<Longrightarrow> worker os ss ss'"

inductive server_reach :: "oscall \<Rightarrow> socket_server \<Rightarrow> bool" for os where
  create: "socket_server_create os junk t = Inr (Some ss) \<Longrightarrow> server_reach os ss"
| worker: "server_reach os ss \<Longrightarrow> worker os ss ss' \<Longrightarrow> server_reach os ss'"
| round: "server_reach os ss \<Longrightarrow> round_ok os ss \<Longrightarrow> poll_round os ss = Inr (ss', ret, waited) \<Longrightarrow> server_reach os ss'"

lemma create_ok: "socket_server_create os junk t = Inr (Some ss) \<Longrightarrow> server_ok ss"
  by (auto simp: socket_server_create_def Let_def split_beta sys_def server_ok_def slots_ok_def refs_ok_def pipe_ok_def
    events_ok_def sock_ok_def live_def cleared_def split: if_splits)

lemma inc_full:
  assumes "inc_sending_ref k i ss = Inr ss'" "live (ss_slot ss k)" "s_protocol (ss_slot ss k) = PROTOCOL_TCP"
    "server_ok ss" "s_id (ss_slot ss k) = i"
  shows "s_sending (ss_slot ss k) mod 65536 \<noteq> 0xffff"
  using assms by (auto simp: inc_sending_ref_def Let_def server_ok_def slots_ok_def split: if_splits)

text \<open>A send that returns had room in the count, or did not need it.\<close>

lemma send_by_pipe_returns:
  assumes ok: "server_ok ss" and live: "live (ss_slot ss (HASH_ID (sb_id buf)))" "s_id (ss_slot ss (HASH_ID (sb_id buf))) = sb_id buf"
    and mem: "sb_type buf \<noteq> SOCKET_BUFFER_OBJECT" and run: "send_by_pipe pr buf ss = Inr (ss', n)"
  shows "server_ok ss'"
proof (cases "s_sending (ss_slot ss (HASH_ID (sb_id buf))) mod 65536 = 0xffff")
  case False
  from send_by_pipe_ok [OF ok live mem False, of pr] run show ?thesis by auto
next
  case True
  have "s_protocol (ss_slot ss (HASH_ID (sb_id buf))) \<noteq> PROTOCOL_TCP"
    using inc_full [OF _ live(1) _ ok live(2)] run True by (auto simp: send_by_pipe_def)
  then have eq: "ss' = send_request (Req_send pr (sb_id buf) (clone_buffer buf)) ss"
    using run by (simp add: send_by_pipe_def inc_sending_ref_def Let_def)
  obtain bs where bs: "clone_buffer buf = Memory bs" using mem by (cases "sb_type buf") (auto simp: clone_buffer_def)
  let ?r = "Req_send pr (sb_id buf) (clone_buffer buf)"
  have p: "slots_ok (ss_slot ss)" "refs_ok (ss_slot ss) (ss_pipe ss)" "pipe_ok (ss_slot ss) (ss_pipe ss)" "events_ok ss"
    using ok by (simp_all add: server_ok_def)
  have "pipe_ok (ss_slot ss) (ss_pipe ss @ [?r])"
  proof (intro pipe_ok_append [OF p(3)])
    fix k assume k: "s_type (ss_slot ss k) = SOCKET_TYPE_RESERVE"
    then have "HASH_ID (s_id (ss_slot ss k)) = k" using p(1) by (simp add: slots_ok_def)
    with k live(1) show "\<not> is_send (s_id (ss_slot ss k)) ?r" by (auto simp: is_send_def live_def)
  qed (simp_all add: plain_def opens_def bs)
  moreover have "refs_ok (ss_slot ss) (ss_pipe ss @ [?r])"
    using p(2) \<open>s_protocol (ss_slot ss (HASH_ID (sb_id buf))) \<noteq> PROTOCOL_TCP\<close> by (auto simp: refs_ok_def is_send_def)
  ultimately show ?thesis using p by (simp add: eq server_ok_def send_request_def events_ok_def)
qed

lemma send_returns:
  assumes os: "os_ok os" and ok: "server_ok ss" and buf: "send_ok buf ss" and run: "socket_server_send os buf ss = Inr (ss', n)"
  shows "server_ok ss'"
proof (cases "s_sending (ss_slot ss (HASH_ID (sb_id buf))) mod 65536 = 0xffff")
  case False
  from socket_server_send_ok [OF os ok buf False] run show ?thesis by auto
next
  case True
  let ?s = "ss_slot ss (HASH_ID (sb_id buf))"
  have mem: "sb_type buf \<noteq> SOCKET_BUFFER_OBJECT" using buf by (simp add: send_ok_def)
  show ?thesis
  proof (cases "socket_invalid ?s (sb_id buf) \<or> s_closing ?s")
    case True
    with free_buffer_ok [OF ok mem] run show ?thesis by (auto simp: socket_server_send_def)
  next
    case False
    then have i: "s_id ?s = sb_id buf" "live ?s" using buf by (auto simp: send_ok_def socket_invalid_def live_def Let_def)
    have "s_type ?s \<noteq> SOCKET_TYPE_CONNECTED \<or> \<not> can_direct_write ?s (sb_id buf)"
      using True by (auto simp: can_direct_write_def nomore_sending_data_def)
    then have "\<not> can_direct_write ?s (sb_id buf)" by (auto simp: can_direct_write_def)
    with False run have "send_by_pipe PRIORITY_HIGH buf ss = Inr (ss', n)" by (simp add: socket_server_send_def Let_def)
    with send_by_pipe_returns [OF ok i(2,1) mem] show ?thesis by blast
  qed
qed

lemma send_low_returns:
  assumes ok: "server_ok ss" and buf: "low_ok buf ss" and run: "socket_server_send_lowpriority buf ss = Inr (ss', n)"
  shows "server_ok ss'"
proof (cases "socket_invalid (ss_slot ss (HASH_ID (sb_id buf))) (sb_id buf)")
  case True
  have "sb_type buf \<noteq> SOCKET_BUFFER_OBJECT" using buf by (simp add: low_ok_def)
  from True free_buffer_ok [OF ok this] run show ?thesis by (auto simp: socket_server_send_lowpriority_def)
next
  case False
  then have i: "live (ss_slot ss (HASH_ID (sb_id buf)))" "s_id (ss_slot ss (HASH_ID (sb_id buf))) = sb_id buf"
    using buf by (auto simp: low_ok_def socket_invalid_def live_def Let_def)
  with send_by_pipe_returns [OF ok i, of PRIORITY_LOW ss' n] buf False run show ?thesis
    by (simp add: socket_server_send_lowpriority_def low_ok_def)
qed

lemma worker_ok:
  assumes "os_ok os" "worker os ss ss'" "server_ok ss"
  shows "server_ok ss'"
  using assms(2,3)
proof (cases rule: worker.cases)
  case (send buf n)
  with send_returns [OF assms(1,3)] show ?thesis by blast
next
  case (send_low buf n)
  with send_low_returns [OF assms(3)] show ?thesis by blast
next
  case (udp_send buf addr n)
  with socket_server_udp_send_ok [OF assms(3), of buf os addr] show ?thesis by auto
next
  case (udp_connect i addr port n)
  with socket_server_udp_connect_ok [OF assms(3), of os i addr port] show ?thesis by auto
qed (use assms(3) socket_server_connect_ok socket_server_listen_ok socket_server_bind_ok socket_server_udp_ok
    simple_requests_ok socket_server_info_ok in auto)

lemma server_reach_ok: "server_reach os ss \<Longrightarrow> os_ok os \<Longrightarrow> server_ok ss"
proof (induction rule: server_reach.induct)
  case (create junk t ss)
  then show ?case by (simp add: create_ok)
next
  case (worker ss ss')
  then show ?case using worker_ok by blast
next
  case (round ss ss' ret waited)
  then show ?case using poll_round_ok [of os ss] by auto
qed

section \<open>Properties\<close>

text \<open>C7: The socket thread never fails. In every state that the workers and the socket thread reach, from
  any contents of the freshly allocated table and for every behaviour of network and peers, a round of
  the loop of the socket thread returns: no assertion about the states of sockets, their buffer lists,
  buffer sizes and reference counts fails, nothing is read out of bounds, and no lock is waited for.
  A worker's send returns as well, unless the reference count of the socket is full.\<close>

theorem socket_thread_never_fails:
  assumes "os_ok os" "server_reach os ss"
  shows "(round_ok os ss \<longrightarrow> (\<exists>ss' ret waited. poll_round os ss = Inr (ss', ret, waited)))
    \<and> (send_ok buf ss \<longrightarrow> s_sending (ss_slot ss (HASH_ID (sb_id buf))) mod 65536 \<noteq> 0xffff \<longrightarrow>
      (\<exists>ss' n. socket_server_send os buf ss = Inr (ss', n)))"
  using poll_round_ok [OF assms(1) server_reach_ok [OF assms(2,1)]]
    socket_server_send_ok [OF assms(1) server_reach_ok [OF assms(2,1)]] by blast

text \<open>C8: In every reachable state each slot is well-formed: the tail of a write list is set exactly when
  the list is not empty, a slot in use has an id of this slot (so no two have the same id), a count of sends with the
  tag of the id and a size that is the number of bytes in its buffers, no buffer of the low list is begun, a slot that
  is free or reserved has no buffers, and no lock is held between calls.\<close>

theorem socket_slots_well_formed:
  assumes "os_ok os" "server_reach os ss"
  shows "(wl_tail (s_high (ss_slot ss k)) \<longleftrightarrow> wl_head (s_high (ss_slot ss k)) \<noteq> [])
    \<and> (wl_tail (s_low (ss_slot ss k)) \<longleftrightarrow> wl_head (s_low (ss_slot ss k)) \<noteq> [])
    \<and> (if live (ss_slot ss k)
       then HASH_ID (s_id (ss_slot ss k)) = k \<and> s_sending (ss_slot ss k) div 65536 = ID_TAG16 (s_id (ss_slot ss k))
         \<and> s_wb_size (ss_slot ss k) = wb_total (wl_head (s_high (ss_slot ss k))) + wb_total (wl_head (s_low (ss_slot ss k)))
         \<and> \<not> list_uncomplete (s_low (ss_slot ss k))
       else send_buffer_empty (ss_slot ss k))
    \<and> \<not> s_dw_lock (ss_slot ss k)"
proof -
  have ok: "sock_ok (ss_slot ss k)" "\<not> s_dw_lock (ss_slot ss k)"
    "s_type (ss_slot ss k) \<noteq> SOCKET_TYPE_INVALID \<Longrightarrow> HASH_ID (s_id (ss_slot ss k)) = k"
    "live (ss_slot ss k) \<Longrightarrow> s_sending (ss_slot ss k) div 65536 = ID_TAG16 (s_id (ss_slot ss k))"
    using server_reach_ok [OF assms(2,1)] by (simp_all add: server_ok_def slots_ok_def)
  show ?thesis
  proof (cases "live (ss_slot ss k)")
    case True
    with ok have b: "bufs_ok (ss_slot ss k)" by (simp add: sock_ok_def)
    then have "busy k 0 ss" using ok(2) True by (simp add: busy_def)
    with b ok True not_moved show ?thesis by (auto simp: bufs_ok_def wl_ok_def live_def)
  next
    case False
    with ok show ?thesis by (simp add: sock_ok_def cleared_def clear_wb_list_def send_buffer_empty_def)
  qed
qed

text \<open>An operating system that has no events and writes nothing, and a server with one bound descriptor.\<close>

definition calm_os :: oscall where
  "calm_os io c = \<lparr>sr_n = 0, sr_fd = 3, sr_errno = EAGAIN, sr_data = [], sr_addr = [], sr_text = None, sr_events = [],
     sr_addrs = [], sr_sockerr = None\<rparr>"

lemma calm_os_ok: "os_ok calm_os"
  by (simp add: os_ok_def calm_os_def)

definition blank_socket :: socket where
  "blank_socket = \<lparr>s_opaque = 0, s_high = clear_wb_list, s_low = clear_wb_list, s_wb_size = 0,
     s_stat = \<lparr>st_rtime = 0, st_wtime = 0, st_read = 0, st_write = 0\<rparr>, s_sending = 0, s_fd = 0, s_id = 0,
     s_type = SOCKET_TYPE_INVALID, s_protocol = PROTOCOL_TCP, s_reading = False, s_writing = False, s_closing = False,
     s_udpconnecting = 0, s_warn_size = 0, s_size = 0, s_udp_address = replicate 19 0, s_dw_lock = False, s_dw_offset = 0,
     s_dw_buffer = None\<rparr>"

definition calm_server :: socket_server where
  "calm_server = the (projr (socket_server_create calm_os (\<lambda>_. blank_socket) 0))"

lemma calm_reach: "server_reach calm_os calm_server" "ss_pipe calm_server = []" "ss_event_n calm_server = 0"
proof -
  have "\<exists>ss. socket_server_create calm_os (\<lambda>_. blank_socket) 0 = Inr (Some ss) \<and> ss_pipe ss = [] \<and> ss_event_n ss = 0"
    by (simp add: socket_server_create_def Let_def sys_def calm_os_def FD_SETSIZE_def)
  then obtain ss where ss: "socket_server_create calm_os (\<lambda>_. blank_socket) 0 = Inr (Some ss)" "ss_pipe ss = []" "ss_event_n ss = 0" by blast
  then have "calm_server = ss" by (simp add: calm_server_def)
  with server_reach.create [OF ss(1)] ss show "server_reach calm_os calm_server" "ss_pipe calm_server = []" "ss_event_n calm_server = 0" by auto
qed

theorem socket_thread_never_fails_witness:
  "(\<exists>ss' ret waited. poll_round calm_os (socket_server_exit (fst (socket_server_bind 7 5 calm_server))) = Inr (ss', ret, waited))
   \<and> (\<exists>ss' n. socket_server_send calm_os \<lparr>sb_id = 9, sb_type = SOCKET_BUFFER_MEMORY, sb_inner = False, sb_bytes = [1, 2]\<rparr>
        calm_server = Inr (ss', n))"
proof -
  let ?ss = "fst (socket_server_bind 7 5 calm_server)"
  have c: "ss_event_index calm_server = 0" "ss_alloc_id calm_server = 0"
    "ss_slot calm_server = (\<lambda>i. blank_socket\<lparr>s_type := SOCKET_TYPE_INVALID, s_high := clear_wb_list, s_low := clear_wb_list, s_dw_lock := False\<rparr>)"
    by (simp_all add: calm_server_def socket_server_create_def Let_def sys_def calm_os_def FD_SETSIZE_def)
  have may: "may_reserve calm_server" using calm_reach by (simp add: may_reserve_def fresh_id_def)
  have id1: "next_id 0 = (1, 1)" "next_id 1 = (2, 2)" by (simp_all add: next_id_def)
  have ss: "ss_pipe ?ss = [Req_bind 1 5 7]" "ss_alloc_id ?ss = 1" "ss_slot ?ss (HASH_ID 2) = ss_slot calm_server (HASH_ID 2)"
    using calm_reach(2) c id1(1)
    by (simp_all add: socket_server_bind_def reserve_id_def reserve_loop.simps [of 0 calm_server] MAX_SOCKET_def send_request_def
      set_slot_def blank_socket_def HASH_ID_def)
  let ?ss2 = "socket_server_exit ?ss"
  have r: "server_reach calm_os ?ss2"
    using server_reach.worker [OF server_reach.worker [OF calm_reach(1) worker.bind [OF may]] worker.exit] .
  have ss2: "ss_alloc_id ?ss2 = 1" "s_type (ss_slot ?ss2 (HASH_ID 2)) = SOCKET_TYPE_INVALID"
    using ss c(3) by (simp_all add: socket_server_exit_def send_request_def)
  have "next_reserved ?ss2 = 2"
    unfolding next_reserved_def reserve_id_def by (subst reserve_loop.simps) (simp add: ss2 id1(2) MAX_SOCKET_def Let_def)
  then have "round_ok calm_os ?ss2" using ss(1)
    by (simp add: round_ok_def fresh_id_def socket_server_exit_def send_request_def calm_os_def)
  moreover have "send_ok \<lparr>sb_id = 9, sb_type = SOCKET_BUFFER_MEMORY, sb_inner = False, sb_bytes = [1, 2]\<rparr> calm_server"
    "s_sending (ss_slot calm_server (HASH_ID 9)) mod 65536 \<noteq> 0xffff"
    by (simp_all add: send_ok_def c(3) socket_invalid_def blank_socket_def)
  ultimately show ?thesis
    using socket_thread_never_fails [OF calm_os_ok r] socket_thread_never_fails [OF calm_os_ok calm_reach(1),
      of "\<lparr>sb_id = 9, sb_type = SOCKET_BUFFER_MEMORY, sb_inner = False, sb_bytes = [1, 2]\<rparr>"] by simp
qed

theorem socket_slots_well_formed_witness:
  "send_buffer_empty (ss_slot (socket_server_exit calm_server) 5) \<and> \<not> s_dw_lock (ss_slot (socket_server_exit calm_server) 5)"
proof -
  have "\<not> live (ss_slot (socket_server_exit calm_server) 5)"
    by (simp add: calm_server_def socket_server_create_def Let_def sys_def calm_os_def FD_SETSIZE_def socket_server_exit_def send_request_def live_def)
  with socket_slots_well_formed [OF calm_os_ok server_reach.worker [OF calm_reach(1) worker.exit], of 5] show ?thesis by simp
qed

end
