(* ===== verification/Skynet_Socket.thy ===== *)
theory Skynet_Socket
  imports Skynet_Delivery Netpack Socket_Safety
begin

text \<open>
  \<^verbatim>\<open>skynet-src/skynet_socket.c\<close>: the socket server of the node, and the forwarding of what it reports
  to the queues of the services. The state is the node and the socket server, \<^verbatim>\<open>SOCKET_SERVER\<close>. What the
  thread reads from a connection becomes a block of the node's memory when it is forwarded. Shown are
  that every report becomes one message in the queue of the service that owns the socket, with the
  bytes that were read, and that nothing is left allocated when the service is gone.
\<close>

section \<open>State\<close>

record net_state =
  net_node :: node
  SOCKET_SERVER :: "socket_server option"

definition PTYPE_SOCKET :: i32 where "PTYPE_SOCKET = 6"
definition SKYNET_SOCKET_TYPE_UDP :: nat where "SKYNET_SOCKET_TYPE_UDP = 6"

section \<open>Forwarding\<close>

text \<open>
  The string at \<^verbatim>\<open>result->data\<close>. The texts of errors are those of the C library (\<^verbatim>\<open>strerror\<close>,
  \<^verbatim>\<open>gai_strerror\<close>).
\<close>

definition data_string :: "(errno \<Rightarrow> string) \<Rightarrow> mdata \<Rightarrow> u8 list" where
  "data_string strerror d =
     (case d of No_data \<Rightarrow> [] | Text t \<Rightarrow> map of_char t | Strerror e \<Rightarrow> map of_char (strerror e)
      | Data bs \<Rightarrow> takeWhile (\<lambda>b. b \<noteq> 0) bs)"

text \<open>
  The pointer \<^verbatim>\<open>result->data\<close>: data is a block of its own, which the receiver frees. A constant text
  handed over in its place would be freed by the receiver, a fault.
\<close>

definition data_block :: "mdata \<Rightarrow> node \<Rightarrow> (node \<times> ptr option) res" where
  "data_block d st =
     (case d of No_data \<Rightarrow> Inr (st, None)
      | Data bs \<Rightarrow> let (st, p) = mem_alloc (Bytes bs) st in Inr (st, Some p)
      | _ \<Rightarrow> Inl Null_Deref)"

text \<open>The size of the structure is 24.\<close>

definition forward_message :: "world \<Rightarrow> (errno \<Rightarrow> string) \<Rightarrow> nat \<Rightarrow> bool \<Rightarrow> socket_message \<Rightarrow> node \<Rightarrow> node res" where
  "forward_message W strerror type padding result st =
     (let text = (if padding then take 128 (data_string strerror (m_data result)) else []);
          sz = 24 + length text
      in bindE (if padding then Inr (st, None) else data_block (m_data result) st) (\<lambda>(st, buffer).
         let (st, sm) = mem_alloc (Socket_block \<lparr>sk_type = type, sk_id = m_id result, sk_ud = m_ud result,
               sk_buffer = buffer, sk_text = text\<rparr>) st;
             message = \<lparr>msg_source = 0, msg_session = 0, msg_data = Some sm,
               msg_sz = of_nat sz OR push_bit MESSAGE_TYPE_SHIFT (ucast PTYPE_SOCKET)\<rparr>
         in bindE (skynet_context_push W (ucast (m_opaque result)) message st) (\<lambda>(st, failed).
            if failed \<noteq> 0 then bindE (skynet_free buffer st) (skynet_free (Some sm)) else Inr st)))"

text \<open>The type and whether the data is a text to copy; None for a type that is not forwarded.\<close>

definition forward_type :: "socket_event \<Rightarrow> (nat \<times> bool) option" where
  "forward_type type =
     (case type of
        SOCKET_DATA \<Rightarrow> Some (SKYNET_SOCKET_TYPE_DATA, False)
      | SOCKET_CLOSE \<Rightarrow> Some (SKYNET_SOCKET_TYPE_CLOSE, False)
      | SOCKET_OPEN \<Rightarrow> Some (SKYNET_SOCKET_TYPE_CONNECT, True)
      | SOCKET_ERR \<Rightarrow> Some (SKYNET_SOCKET_TYPE_ERROR, True)
      | SOCKET_ACCEPT \<Rightarrow> Some (SKYNET_SOCKET_TYPE_ACCEPT, True)
      | SOCKET_UDP \<Rightarrow> Some (SKYNET_SOCKET_TYPE_UDP, False)
      | SOCKET_WARNING \<Rightarrow> Some (SKYNET_SOCKET_TYPE_WARNING, False)
      | _ \<Rightarrow> None)"

definition event_number :: "socket_event \<Rightarrow> nat" where
  "event_number type = (case type of SOCKET_DATA \<Rightarrow> 0 | SOCKET_CLOSE \<Rightarrow> 1 | SOCKET_OPEN \<Rightarrow> 2 | SOCKET_ACCEPT \<Rightarrow> 3 | SOCKET_ERR \<Rightarrow> 4
     | SOCKET_EXIT \<Rightarrow> 5 | SOCKET_UDP \<Rightarrow> 6 | SOCKET_WARNING \<Rightarrow> 7 | SOCKET_RST \<Rightarrow> 8 | SOCKET_MORE \<Rightarrow> 9)"

text \<open>None when the poll does not return.\<close>

definition skynet_socket_poll :: "world \<Rightarrow> (errno \<Rightarrow> string) \<Rightarrow> oscall \<Rightarrow> net_state \<Rightarrow> (net_state \<times> int) res option" where
  "skynet_socket_poll W strerror os ns =
     (case SOCKET_SERVER ns of None \<Rightarrow> Some (Inl Assert_Failed)
      | Some ss \<Rightarrow> map_option (\<lambda>polled.
          bindE polled (\<lambda>(ss, type, result, left).
          let ns = ns\<lparr>SOCKET_SERVER := Some ss\<rparr> in
          if type = SOCKET_EXIT then Inr (ns, 0)
          else case forward_type type of
              None \<Rightarrow> bindE (skynet_error W None (''Unknown socket message type '' @ fmt_d (int (event_number type)) @ ''.'') (net_node ns))
                (\<lambda>st. Inr (ns\<lparr>net_node := st\<rparr>, - 1))
            | Some (t, padding) \<Rightarrow> bindE (forward_message W strerror t padding result (net_node ns))
                (\<lambda>st. Inr (ns\<lparr>net_node := st\<rparr>, if left then - 1 else 1)))) (socket_server_poll os True ss))"

section \<open>Calls of the services\<close>

definition with_server :: "(socket_server \<Rightarrow> (socket_server \<times> 'a) res) \<Rightarrow> net_state \<Rightarrow> (net_state \<times> 'a) res" where
  "with_server f ns = bindE (derefE (SOCKET_SERVER ns)) (\<lambda>ss. bindE (f ss) (\<lambda>(ss, r). Inr (ns\<lparr>SOCKET_SERVER := Some ss\<rparr>, r)))"

definition source_of :: "ptr \<Rightarrow> net_state \<Rightarrow> u64 res" where
  "source_of ctx ns = bindE (skynet_context_handle ctx (net_node ns)) (\<lambda>h. Inr (ucast h))"

definition skynet_socket_init :: "oscall \<Rightarrow> (nat \<Rightarrow> socket) \<Rightarrow> u64 \<Rightarrow> net_state \<Rightarrow> net_state res" where
  "skynet_socket_init os junk now ns = bindE (socket_server_create os junk now) (\<lambda>ss. Inr (ns\<lparr>SOCKET_SERVER := ss\<rparr>))"

definition skynet_socket_exit :: "net_state \<Rightarrow> net_state res" where
  "skynet_socket_exit ns = bindE (with_server (\<lambda>ss. Inr (socket_server_exit ss, ())) ns) (\<lambda>(ns, _). Inr ns)"

definition skynet_socket_free :: "oscall \<Rightarrow> net_state \<Rightarrow> net_state res" where
  "skynet_socket_free os ns =
     bindE (derefE (SOCKET_SERVER ns)) (\<lambda>ss. bindE (socket_server_release os ss) (\<lambda>_. Inr (ns\<lparr>SOCKET_SERVER := None\<rparr>)))"

definition skynet_socket_updatetime :: "u64 \<Rightarrow> net_state \<Rightarrow> net_state res" where
  "skynet_socket_updatetime now ns = bindE (with_server (\<lambda>ss. Inr (socket_server_updatetime now ss, ())) ns) (\<lambda>(ns, _). Inr ns)"

definition skynet_socket_sendbuffer :: "oscall \<Rightarrow> socket_sendbuffer \<Rightarrow> net_state \<Rightarrow> (net_state \<times> int) res" where
  "skynet_socket_sendbuffer os buffer ns = with_server (socket_server_send os buffer) ns"

definition skynet_socket_sendbuffer_lowpriority :: "socket_sendbuffer \<Rightarrow> net_state \<Rightarrow> (net_state \<times> int) res" where
  "skynet_socket_sendbuffer_lowpriority buffer ns = with_server (socket_server_send_lowpriority buffer) ns"

definition skynet_socket_listen :: "oscall \<Rightarrow> ptr \<Rightarrow> string \<Rightarrow> int \<Rightarrow> int \<Rightarrow> net_state \<Rightarrow> (net_state \<times> int) res" where
  "skynet_socket_listen os ctx host port backlog ns =
     bindE (source_of ctx ns) (\<lambda>source. with_server (\<lambda>ss. Inr (socket_server_listen os source host port backlog ss)) ns)"

definition skynet_socket_connect :: "oscall \<Rightarrow> ptr \<Rightarrow> string \<Rightarrow> int \<Rightarrow> net_state \<Rightarrow> (net_state \<times> int) res" where
  "skynet_socket_connect os ctx host port ns =
     bindE (source_of ctx ns) (\<lambda>source. with_server (\<lambda>ss. Inr (socket_server_connect os source host port ss)) ns)"

definition skynet_socket_bind :: "ptr \<Rightarrow> int \<Rightarrow> net_state \<Rightarrow> (net_state \<times> int) res" where
  "skynet_socket_bind ctx fd ns = bindE (source_of ctx ns) (\<lambda>source. with_server (\<lambda>ss. Inr (socket_server_bind source fd ss)) ns)"

definition skynet_socket_close :: "ptr \<Rightarrow> int \<Rightarrow> net_state \<Rightarrow> (net_state \<times> unit) res" where
  "skynet_socket_close ctx sid ns = bindE (source_of ctx ns) (\<lambda>source. with_server (\<lambda>ss. Inr (socket_server_close source sid ss, ())) ns)"

definition skynet_socket_shutdown :: "ptr \<Rightarrow> int \<Rightarrow> net_state \<Rightarrow> (net_state \<times> unit) res" where
  "skynet_socket_shutdown ctx sid ns = bindE (source_of ctx ns) (\<lambda>source. with_server (\<lambda>ss. Inr (socket_server_shutdown source sid ss, ())) ns)"

definition skynet_socket_start :: "ptr \<Rightarrow> int \<Rightarrow> net_state \<Rightarrow> (net_state \<times> unit) res" where
  "skynet_socket_start ctx sid ns = bindE (source_of ctx ns) (\<lambda>source. with_server (\<lambda>ss. Inr (socket_server_start source sid ss, ())) ns)"

definition skynet_socket_pause :: "ptr \<Rightarrow> int \<Rightarrow> net_state \<Rightarrow> (net_state \<times> unit) res" where
  "skynet_socket_pause ctx sid ns = bindE (source_of ctx ns) (\<lambda>source. with_server (\<lambda>ss. Inr (socket_server_pause source sid ss, ())) ns)"

definition skynet_socket_nodelay :: "int \<Rightarrow> net_state \<Rightarrow> (net_state \<times> unit) res" where
  "skynet_socket_nodelay sid ns = with_server (\<lambda>ss. Inr (socket_server_nodelay sid ss, ())) ns"

definition skynet_socket_udp :: "oscall \<Rightarrow> ptr \<Rightarrow> string option \<Rightarrow> int \<Rightarrow> net_state \<Rightarrow> (net_state \<times> int) res" where
  "skynet_socket_udp os ctx addr port ns =
     bindE (source_of ctx ns) (\<lambda>source. with_server (\<lambda>ss. Inr (socket_server_udp os source addr port ss)) ns)"

definition skynet_socket_udp_connect :: "oscall \<Rightarrow> int \<Rightarrow> string \<Rightarrow> int \<Rightarrow> net_state \<Rightarrow> (net_state \<times> int) res" where
  "skynet_socket_udp_connect os sid addr port ns = with_server (socket_server_udp_connect os sid addr port) ns"

definition skynet_socket_udp_sendbuffer :: "oscall \<Rightarrow> u8 list \<Rightarrow> socket_sendbuffer \<Rightarrow> net_state \<Rightarrow> (net_state \<times> int) res" where
  "skynet_socket_udp_sendbuffer os address buffer ns = with_server (socket_server_udp_send os address buffer) ns"

text \<open>The address behind the data of the message, None for NULL.\<close>

definition skynet_socket_udp_address :: "socket_block \<Rightarrow> node \<Rightarrow> (u8 list \<times> int) option res" where
  "skynet_socket_udp_address msg st =
     (if sk_type msg \<noteq> SKYNET_SOCKET_TYPE_UDP then Inr None
      else bindE (derefE (Option.bind (sk_buffer msg) (mem st))) (\<lambda>b.
        case b of Bytes bs \<Rightarrow> if sk_ud msg < 0 then Inl Out_Of_Bounds else socket_server_udp_address bs (nat (sk_ud msg))
        | _ \<Rightarrow> Inl Out_Of_Bounds))"

definition skynet_socket_info :: "oscall \<Rightarrow> net_state \<Rightarrow> (net_state \<times> socket_info list) res" where
  "skynet_socket_info os ns = with_server (\<lambda>ss. Inr (socket_server_info os ss)) ns"

section \<open>What the socket thread reports\<close>

text \<open>A read or a datagram received comes with the bytes its length says.\<close>

definition reads_ok :: "oscall \<Rightarrow> bool" where
  "reads_ok os \<longleftrightarrow> (\<forall>io fd n. sr_n (os io (Sys_read fd n)) > 0 \<longrightarrow>
       int (length (sr_data (os io (Sys_read fd n)))) = sr_n (os io (Sys_read fd n)))
     \<and> (\<forall>io fd. sr_n (os io (Sys_recvfrom fd)) \<ge> 0 \<longrightarrow>
       int (length (sr_data (os io (Sys_recvfrom fd)))) = sr_n (os io (Sys_recvfrom fd)))"

definition no_bytes :: "mdata \<Rightarrow> bool" where
  "no_bytes d \<longleftrightarrow> (\<forall>bs. d \<noteq> Data bs)"

definition reported :: "ret \<Rightarrow> bool" where
  "reported ret = (case ret of None \<Rightarrow> True
     | Some (type, m) \<Rightarrow>
        (case type of
           SOCKET_DATA \<Rightarrow> \<exists>bs. m_data m = Data bs \<and> m_ud m = int (length bs)
         | SOCKET_UDP \<Rightarrow> \<exists>bs addr. m_data m = Data (bs @ addr) \<and> m_ud m = int (length bs)
             \<and> (hd addr = protocol_byte PROTOCOL_UDP \<or> hd addr = protocol_byte PROTOCOL_UDPv6) \<and> addr \<noteq> []
         | SOCKET_OPEN \<Rightarrow> no_bytes (m_data m) | SOCKET_ACCEPT \<Rightarrow> no_bytes (m_data m) | SOCKET_ERR \<Rightarrow> no_bytes (m_data m)
         | SOCKET_RST \<Rightarrow> False | SOCKET_MORE \<Rightarrow> False
         | _ \<Rightarrow> m_data m = No_data))"

lemma reported_simps [simp]: "reported None" "reported (Some (SOCKET_ERR, m)) = no_bytes (m_data m)"
  "reported (Some (SOCKET_OPEN, m)) = no_bytes (m_data m)" "reported (Some (SOCKET_ACCEPT, m)) = no_bytes (m_data m)"
  "reported (Some (SOCKET_CLOSE, m)) \<longleftrightarrow> m_data m = No_data" "reported (Some (SOCKET_WARNING, m)) \<longleftrightarrow> m_data m = No_data"
  "reported (Some (SOCKET_EXIT, m)) \<longleftrightarrow> m_data m = No_data"
  "no_bytes No_data" "no_bytes (Text t)" "no_bytes (Strerror e)"
  by (simp_all add: reported_def no_bytes_def)

lemma report_error_reported [simp]: "reported (report_error k d ss) = no_bytes d"
  by (simp add: report_error_def Let_def)

lemma force_close_No_data: "every (\<lambda>(ss', l', m). m_data m = No_data) (force_close os k l ss)"
  by (simp add: force_close_def Let_def split: if_splits prod.splits)

lemma send_warning_reported [simp]: "reported (snd (send_warning k ss))"
  by (simp add: send_warning_def Let_def)

lemma send_socket_reported: "every (\<lambda>(ss', ret). reported ret) (send_socket os sid p pr addr ss)"
  by (simp add: send_socket_def Let_def split_beta split: option.split)

lemma open_socket_reported: "every (\<lambda>(ss', ret). reported ret) (open_socket os sid port opaque host ss)"
  by (simp add: open_socket_def Let_def split_beta split: sum.split option.split)

lemma close_socket_reported: "every (\<lambda>(ss', ret). reported ret) (close_socket os sid shutdown ss)"
  using every_mono [OF force_close_No_data]
  by (simp add: close_socket_def Let_def close_read_def split_beta)

lemma run_request_reported: "every (\<lambda>(ss', ret). reported ret) (run_request os req ss)"
proof (cases req)
  case (Req_send pr sid p)
  with send_socket_reported [of os sid p pr None ss] show ?thesis
    by (auto simp: run_request_def every_def)
qed (simp_all add: run_request_def send_socket_reported open_socket_reported close_socket_reported resume_socket_def
  pause_socket_def set_udp_address_def trigger_write_def bind_socket_def listen_socket_def Let_def split_beta)

lemma close_write_reported: "every (\<lambda>(ss', l', ret). reported (only_err ret)) (close_write os k l e ss)"
  by (simp add: close_write_def only_err_def report_error_def Let_def split_beta)

lemma only_err_None [simp]: "only_err None = None"
  by (simp add: only_err_def)

lemma send_tcp_loop_reported: "every (\<lambda>(ss', l', ret). reported (only_err ret)) (send_tcp_loop os k pr l wbs ss)"
proof (induction wbs arbitrary: ss)
  case (Cons wb wbs)
  then show ?case by (simp add: Let_def split_beta close_write_reported [unfolded split_beta] split: option.split)
qed simp

lemma send_list_reported: "every (\<lambda>(ss', l', ret). reported (only_err ret)) (send_list os k pr l ss)"
  by (simp add: send_list_def send_list_tcp_def send_tcp_loop_reported)

lemma send_done_reported: "every (\<lambda>(ss', l', ret). reported ret) (send_done os k l ss)"
  by (simp add: send_done_def Let_def split_beta)

lemma send_buffer_locked_reported: "every (\<lambda>(ss', l', ret). reported ret) (send_buffer_locked os k l ss)"
proof -
  have low: "every (\<lambda>x. every (\<lambda>(ss', l', ret). reported ret)
      (case x of (ss, l, ret) \<Rightarrow> if ret \<noteq> None then Inr (ss, l, only_err ret)
       else if list_uncomplete (s_low (ss_slot ss k))
       then bindE (raise_uncomplete (ss_slot ss k)) (\<lambda>s. Inr (set_slot k s ss, l, None))
       else if wl_head (s_low (ss_slot ss k)) \<noteq> [] then Inr (ss, l, None)
       else send_done os k l ss)) (send_list os k PRIORITY_LOW l' ss')" for l' ss'
    by (rule every_mono [OF send_list_reported]) (auto simp: send_done_reported)
  show ?thesis unfolding send_buffer_locked_def every_simps
    by (rule every_True, rule every_mono [OF send_list_reported], use low send_done_reported in auto)
qed

lemma send_buffer_reported: "every (\<lambda>(ss', l', ret). reported ret) (send_buffer os k l ss)"
  using every_mono [OF send_buffer_locked_reported]
  by (simp add: send_buffer_def split_beta split: option.split)

lemma forward_message_tcp_reported:
  assumes "reads_ok os"
  shows "every (\<lambda>(ss', l', ret). case ret of Some (SOCKET_MORE, m) \<Rightarrow> reported (Some (SOCKET_DATA, m)) | _ \<Rightarrow> reported ret)
    (forward_message_tcp os k l ss)"
  using assms every_mono [OF force_close_No_data]
  by (simp add: forward_message_tcp_def Let_def split_beta sys_def close_read_def report_error_def reported_def [of "Some (SOCKET_DATA, _)"] reads_ok_def)

lemma udp_reported [simp]:
  "n = int (length bs) \<Longrightarrow> proto = PROTOCOL_UDP \<or> proto = PROTOCOL_UDPv6 \<Longrightarrow>
     reported (Some (SOCKET_UDP, \<lparr>m_id = i, m_opaque = h, m_ud = n, m_data = Data (bs @ gen_udp_address proto addr)\<rparr>))"
  unfolding reported_def by (simp, intro exI [of _ bs] exI [of _ "gen_udp_address proto addr"]) (auto simp: gen_udp_address_def)

lemma forward_message_udp_reported:
  assumes "reads_ok os"
  shows "every (\<lambda>(ss', l', ret). reported ret) (forward_message_udp os k l ss)"
proof -
  let ?r = "os (ss_io ss) (Sys_recvfrom (s_fd (ss_slot ss k)))"
  have "0 \<le> sr_n ?r \<Longrightarrow> sr_n ?r = int (length (sr_data ?r))" using assms by (simp add: reads_ok_def)
  then show ?thesis by (auto simp: forward_message_udp_def Let_def split_beta sys_def)
qed

lemma report_connect_reported: "every (\<lambda>(ss', l', ret). reported ret) (report_connect os k l ss)"
  by (simp add: report_connect_def Let_def split_beta split: option.split)

lemma report_accept_reported: "every (\<lambda>(ss', ret). reported ret) (report_accept os k ss)"
  by (simp add: report_accept_def Let_def split_beta split: option.split)

lemma on_event_reported:
  assumes "reads_ok os" shows "every (\<lambda>(ss', ret). reported ret) (on_event os e k ss)"
proof (cases "e_read e")
  case True
  show ?thesis
  proof (cases "s_protocol (ss_slot ss k) = PROTOCOL_TCP")
    case tcp: True
    show ?thesis unfolding on_event_def using True tcp
      by (simp, intro every_mono [OF forward_message_tcp_reported [OF assms]])
        (auto simp: Let_def reported_def [of "Some (SOCKET_UDP, _)"] split: option.splits socket_event.splits)
  next
    case False
    show ?thesis unfolding on_event_def using True False
      by (simp, intro every_mono [OF forward_message_udp_reported [OF assms]])
        (auto simp: Let_def reported_def [of "Some (SOCKET_MORE, _)"] split: option.splits socket_event.splits)
  qed
next
  case False
  then show ?thesis using every_mono [OF send_buffer_reported] every_mono [OF force_close_No_data]
    by (simp add: on_event_def Let_def split_beta split: option.split)
qed

lemma poll_round_reported:
  assumes "reads_ok os" shows "every (\<lambda>(ss', ret, waited). reported ret) (poll_round os ss)"
proof -
  have d: "every (\<lambda>(ss', ret). reported ret) (dispatch_event os ss)" for ss
    using every_mono [OF report_connect_reported] report_accept_reported on_event_reported [OF assms]
    by (simp add: dispatch_event_def Let_def split_beta split: option.split socket_type.split)
  have c: "every (\<lambda>(ss', ret). reported ret) (ctrl_cmd os ss)"
    by (simp add: ctrl_cmd_def run_request_reported split: list.split)
  show ?thesis using every_mono [OF d] every_mono [OF c]
    by (simp add: poll_round_def Let_def split_beta split: option.split)
qed

lemma socket_server_poll_reported:
  assumes "socket_server_poll os m ss = Some r" "reads_ok os"
  shows "every (\<lambda>(ss', type, result, m'). reported (Some (type, result))) r"
  using assms
proof (induction rule: socket_server_poll.raw_induct [rotated, consumes 1, case_names poll])
  case (poll poll os m ss r)
  show ?case
  proof (cases "poll_round os ss")
    case (Inr x)
    then obtain ss' ret waited where x: "poll_round os ss = Inr (ss', ret, waited)" by (cases x) auto
    with poll_round_reported [OF poll.prems, of ss] have "reported ret" by simp
    with poll x show ?thesis by (auto simp: Let_def split: option.splits prod.splits)
  qed (use poll in auto)
qed

section \<open>Delivery\<close>

text \<open>The message that a service finds at an address, as the packet splitter and the gate read it.\<close>

definition socket_message_at :: "node \<Rightarrow> ptr \<Rightarrow> skynet_socket_message option" where
  "socket_message_at st p =
     (case mem st p of
        Some (Socket_block b) \<Rightarrow>
          (let msg = (\<lambda>buf. Some \<lparr>sm_type = sk_type b, sm_id = word_of_int (sk_id b), sm_ud = sk_ud b, sm_buffer = buf,
                 sm_pad = sk_text b\<rparr>)
           in case sk_buffer b of None \<Rightarrow> msg None
              | Some q \<Rightarrow> (case mem st q of Some (Bytes bs) \<Rightarrow> msg (Some bs) | _ \<Rightarrow> None))
      | _ \<Rightarrow> None)"

text \<open>What a report should arrive as: data in a buffer of its own, a text of at most 128 bytes behind the structure.\<close>

definition arrives_as :: "(errno \<Rightarrow> string) \<Rightarrow> nat \<Rightarrow> bool \<Rightarrow> socket_message \<Rightarrow> skynet_socket_message" where
  "arrives_as strerror t padding result =
     \<lparr>sm_type = t, sm_id = word_of_int (m_id result), sm_ud = m_ud result,
      sm_buffer = (if padding then None else case m_data result of Data bs \<Rightarrow> Some bs | _ \<Rightarrow> None),
      sm_pad = (if padding then take 128 (data_string strerror (m_data result)) else [])\<rparr>"

lemma mem_alloc_node:
  assumes "node_ok st" "mem_alloc b st = (st', p)"
  shows "node_ok st'" "q_view st' = q_view st" "ctxs st' = ctxs st" "node_live st' = node_live st" "p = mem_brk st"
    "mem st' = (mem st)(mem_brk st \<mapsto> b)" "mem_brk st' = Suc (mem_brk st)"
proof -
  have st': "st' = st\<lparr>mem := (mem st)(mem_brk st \<mapsto> b), mem_brk := Suc (mem_brk st)\<rparr>" and p: "p = mem_brk st"
    using assms(2) by (auto simp: mem_alloc_def)
  show "node_ok st'" unfolding st' using node_okD(6) [OF assms(1)] by (intro node_ok_mem [OF assms(1)]) auto
  show "q_view st' = q_view st" "ctxs st' = ctxs st" "p = mem_brk st" "mem st' = (mem st)(mem_brk st \<mapsto> b)" "mem_brk st' = Suc (mem_brk st)"
    using st' p by simp_all
  show "node_live st' = node_live st" using st' by (simp add: fun_eq_iff node_live_def ctx_handles_def [abs_def])
qed

text \<open>The blocks of a report: the buffer, if there is one, and the structure.\<close>

lemma forward_blocks:
  assumes ok: "node_ok st" and d: "\<not> padding \<Longrightarrow> m_data result = No_data \<or> (\<exists>bs. m_data result = Data bs)"
  obtains st1 st2 buffer sm msg where
    "(if padding then Inr (st, None) else data_block (m_data result) st) = Inr (st1, buffer)"
    "mem_alloc (Socket_block \<lparr>sk_type = t, sk_id = m_id result, sk_ud = m_ud result, sk_buffer = buffer,
       sk_text = (if padding then take 128 (data_string strerror (m_data result)) else [])\<rparr>) st1 = (st2, sm)"
    "node_ok st2" "q_view st2 = q_view st" "ctxs st2 = ctxs st" "node_live st2 = node_live st"
    "\<And>st'. mem st' = mem st2 \<Longrightarrow> socket_message_at st' sm = Some (arrives_as strerror t padding result)"
    "\<And>a. a < mem_brk st \<Longrightarrow> mem st2 a = mem st a"
    "\<exists>st3. skynet_free buffer st2 = Inr st3 \<and> (\<exists>st4. skynet_free (Some sm) st3 = Inr st4 \<and> mem st4 = mem st \<and> q_view st4 = q_view st)"
proof (cases "\<exists>bs. \<not> padding \<and> m_data result = Data bs")
  case True
  then obtain bs where bs: "\<not> padding" "m_data result = Data bs" by blast
  obtain st1 p where a1: "mem_alloc (Bytes bs) st = (st1, p)" by fastforce
  note n1 = mem_alloc_node [OF ok a1]
  obtain st2 sm where a2: "mem_alloc (Socket_block \<lparr>sk_type = t, sk_id = m_id result, sk_ud = m_ud result, sk_buffer = Some p,
       sk_text = []\<rparr>) st1 = (st2, sm)" by fastforce
  note n2 = mem_alloc_node [OF n1(1) a2]
  have fresh: "mem st (mem_brk st) = None" "mem st (Suc (mem_brk st)) = None" using node_okD(6) [OF ok] by simp_all
  show thesis
    by (rule that [of st1 "Some p" st2 sm])
      (use bs a1 a2 n1 n2 fresh in \<open>auto simp: data_block_def socket_message_at_def arrives_as_def skynet_free_def fun_eq_iff\<close>)
next
  case False
  with d have none: "(if padding then Inr (st, None) else data_block (m_data result) st) = Inr (st, None)"
    by (auto simp: data_block_def)
  obtain st2 sm where a2: "mem_alloc (Socket_block \<lparr>sk_type = t, sk_id = m_id result, sk_ud = m_ud result, sk_buffer = None,
       sk_text = (if padding then take 128 (data_string strerror (m_data result)) else [])\<rparr>) st = (st2, sm)" by fastforce
  note n2 = mem_alloc_node [OF ok a2]
  have fresh: "mem st (mem_brk st) = None" using node_okD(6) [OF ok] by simp
  have buf: "sm_buffer (arrives_as strerror t padding result) = None"
    using False d by (auto simp: arrives_as_def)
  show thesis
    by (rule that [of st None st2 sm])
      (use none a2 n2 fresh buf in \<open>auto simp: socket_message_at_def arrives_as_def skynet_free_def fun_eq_iff\<close>)
qed

lemma socket_size_word:
  "length text \<le> 128 \<Longrightarrow> drop_bit MESSAGE_TYPE_SHIFT (of_nat (24 + length text) OR push_bit MESSAGE_TYPE_SHIFT (ucast PTYPE_SOCKET) :: u64) = 6
    \<and> (of_nat (24 + length text) OR push_bit MESSAGE_TYPE_SHIFT (ucast PTYPE_SOCKET) :: u64) AND MESSAGE_TYPE_MASK = of_nat (24 + length text)"
proof -
  assume len: "length text \<le> 128"
  have "(of_nat (24 + length text) :: u64) AND MESSAGE_TYPE_MASK = of_nat (24 + length text)"
    using len by (intro word_unat_eq_iff [THEN iffD2]) (simp add: MASK_mask unat_and_mask unat_of_nat del: of_nat_add)
  from size_type_codec [OF this, of 6] show ?thesis by (simp add: PTYPE_SOCKET_def)
qed

lemma forward_message_ok:
  assumes ok: "node_ok st" and d: "\<not> padding \<Longrightarrow> m_data result = No_data \<or> (\<exists>bs. m_data result = Data bs)"
  shows "node_live st (ucast (m_opaque result)) = Some p \<Longrightarrow> ctxs st p = Some c \<Longrightarrow>
      \<exists>st' sm sz. forward_message W strerror t padding result st = Inr st' \<and> node_ok st'
        \<and> waiting st' = (waiting st)(c_queue c := waiting st (c_queue c) @
            [\<lparr>msg_source = 0, msg_session = 0, msg_data = Some sm, msg_sz = sz\<rparr>])
        \<and> drop_bit MESSAGE_TYPE_SHIFT sz = 6 \<and> socket_message_at st' sm = Some (arrives_as strerror t padding result)
        \<and> unat (sz AND MESSAGE_TYPE_MASK) = 24 + length (sm_pad (arrives_as strerror t padding result))
        \<and> (\<forall>a < mem_brk st. mem st' a = mem st a)"
    and "node_live st (ucast (m_opaque result)) = None \<Longrightarrow>
      \<exists>st'. forward_message W strerror t padding result st = Inr st' \<and> mem st' = mem st \<and> q_view st' = q_view st"
proof -
  let ?text = "if padding then take 128 (data_string strerror (m_data result)) else []"
  let ?sz = "of_nat (24 + length ?text) OR push_bit MESSAGE_TYPE_SHIFT (ucast PTYPE_SOCKET) :: u64"
  obtain st1 st2 buffer sm where b:
    "(if padding then Inr (st, None) else data_block (m_data result) st) = Inr (st1, buffer)"
    "mem_alloc (Socket_block \<lparr>sk_type = t, sk_id = m_id result, sk_ud = m_ud result, sk_buffer = buffer, sk_text = ?text\<rparr>) st1 = (st2, sm)"
    "node_ok st2" "q_view st2 = q_view st" "ctxs st2 = ctxs st" "node_live st2 = node_live st"
    "\<And>st'. mem st' = mem st2 \<Longrightarrow> socket_message_at st' sm = Some (arrives_as strerror t padding result)"
    "\<And>a. a < mem_brk st \<Longrightarrow> mem st2 a = mem st a"
    "\<exists>st3. skynet_free buffer st2 = Inr st3 \<and> (\<exists>st4. skynet_free (Some sm) st3 = Inr st4 \<and> mem st4 = mem st \<and> q_view st4 = q_view st)"
    by (rule forward_blocks [where result = result and t = t and strerror = strerror, OF ok d]) auto
  let ?m = "\<lparr>msg_source = 0, msg_session = 0, msg_data = Some sm, msg_sz = ?sz\<rparr>"
  have run: "forward_message W strerror t padding result st = bindE (skynet_context_push W (ucast (m_opaque result)) ?m st2) (\<lambda>(st, failed).
            if failed \<noteq> 0 then bindE (skynet_free buffer st) (skynet_free (Some sm)) else Inr st)"
    unfolding forward_message_def Let_def b(1) using b(2) by simp
  have len: "length ?text \<le> 128" by simp
  have sz: "unat (?sz AND MESSAGE_TYPE_MASK) = 24 + length ?text" "drop_bit MESSAGE_TYPE_SHIFT ?sz = 6"
    using socket_size_word [OF len] len by (simp_all only: unat_of_nat) (auto simp: min_def)
  show "\<exists>st' sm sz. forward_message W strerror t padding result st = Inr st' \<and> node_ok st'
        \<and> waiting st' = (waiting st)(c_queue c := waiting st (c_queue c) @
            [\<lparr>msg_source = 0, msg_session = 0, msg_data = Some sm, msg_sz = sz\<rparr>])
        \<and> drop_bit MESSAGE_TYPE_SHIFT sz = 6 \<and> socket_message_at st' sm = Some (arrives_as strerror t padding result)
        \<and> unat (sz AND MESSAGE_TYPE_MASK) = 24 + length (sm_pad (arrives_as strerror t padding result))
        \<and> (\<forall>a < mem_brk st. mem st' a = mem st a)"
    if live: "node_live st (ucast (m_opaque result)) = Some p" "ctxs st p = Some c"
  proof -
    obtain st' where st': "skynet_context_push W (ucast (m_opaque result)) ?m st2 = Inr (st', 0)" "node_ok st'"
      "q_view st' = (q_view st2)(c_queue c \<mapsto> (ucast (m_opaque result), False, waiting st2 (c_queue c) @ [?m]))"
      "mq_state.more st' = mq_state.more st2"
      using context_push_live [OF b(3), of "ucast (m_opaque result)" p c] live b(5,6) by metis
    have w: "waiting st' = (waiting st)(c_queue c := waiting st (c_queue c) @ [?m])"
      using st'(3) b(4) by (auto simp: waiting_def fun_eq_iff)
    have "mem st' = mem st2" using node_more_fields(3) [OF st'(4)] .
    with st'(1,2) w run sz b(7,8) show ?thesis
      by (intro exI [of _ st'] exI [of _ sm] exI [of _ ?sz]) (simp add: arrives_as_def)
  qed
  show "\<exists>st'. forward_message W strerror t padding result st = Inr st' \<and> mem st' = mem st \<and> q_view st' = q_view st"
    if dead: "node_live st (ucast (m_opaque result)) = None"
    using run context_push_dead [OF b(3), of "ucast (m_opaque result)"] dead b(6,9) by auto
qed

lemma reported_forward:
  assumes "reported (Some (type, result))" "type \<noteq> SOCKET_EXIT"
  obtains t padding where "forward_type type = Some (t, padding)"
    "padding \<or> m_data result = No_data \<or> (\<exists>bs. m_data result = Data bs)"
  using assms by (cases type) (auto simp: reported_def forward_type_def)

section \<open>Properties\<close>


text \<open>A report for a socket whose service is gone changes no queue, and both blocks that were made
  for it, the buffer and the message, are freed: the memory of the node is what it was.\<close>

theorem socket_poll_dead_frees:
  assumes "reads_ok os" "node_ok (net_node ns)" "SOCKET_SERVER ns = Some ss"
    "socket_server_poll os True ss = Some (Inr (ss', type, result, left))" "type \<noteq> SOCKET_EXIT"
    "node_live (net_node ns) (ucast (m_opaque result)) = None"
  shows "\<exists>st'. skynet_socket_poll W strerror os ns = Some (Inr (\<lparr>net_node = st', SOCKET_SERVER = Some ss'\<rparr>, if left then - 1 else 1))
    \<and> mem st' = mem (net_node ns) \<and> waiting st' = waiting (net_node ns)"
proof -
  have "reported (Some (type, result))" using socket_server_poll_reported [OF assms(4,1)] by simp
  then obtain t padding where t: "forward_type type = Some (t, padding)"
    "padding \<or> m_data result = No_data \<or> (\<exists>bs. m_data result = Data bs)"
    by (rule reported_forward [OF _ assms(5)])
  then have d: "\<not> padding \<Longrightarrow> m_data result = No_data \<or> (\<exists>bs. m_data result = Data bs)" by blast
  from forward_message_ok(2) [OF assms(2) d assms(6), where t = t] obtain st' where
    "forward_message W strerror t padding result (net_node ns) = Inr st'" "mem st' = mem (net_node ns)" "q_view st' = q_view (net_node ns)"
    by blast
  then show ?thesis using t(1) assms(3-5)
    by (intro exI [of _ st']) (cases ns; simp add: skynet_socket_poll_def waiting_def fun_eq_iff)
qed

text \<open>A socket server to which a service has bound a descriptor.\<close>

lemma calm_bind:
  "\<exists>ss'. socket_server_poll calm_os True (fst (socket_server_bind h 5 calm_server))
    = Some (Inr (ss', SOCKET_OPEN, \<lparr>m_id = 1, m_opaque = h, m_ud = 0, m_data = Text ''binding''\<rparr>, True))"
proof -
  have id1: "next_id 0 = (1, 1)" by (simp add: next_id_def)
  show ?thesis
    by (subst socket_server_poll.simps) (simp add: calm_server_def socket_server_create_def Let_def sys_def calm_os_def FD_SETSIZE_def
      socket_server_bind_def reserve_id_def reserve_loop.simps [of 0] id1 MAX_SOCKET_def send_request_def set_slot_def blank_socket_def
      HASH_ID_def poll_round_def has_cmd_def ctrl_cmd_def run_request_def bind_socket_def new_fd_def check_wb_list_def clear_wb_list_def
      do_sys_def set_type_def upd_slot_def clear_closed_event_def enable_read_def)
qed

lemma ucast_back: "ucast (ucast (h :: u32) :: u64) = h"
  by (rule bit_word_eqI) (auto simp: bit_simps)

lemma calm_reads: "reads_ok calm_os"
  by (simp add: reads_ok_def calm_os_def)


theorem socket_poll_dead_frees_witness:
  "\<exists>ns'. skynet_socket_poll idle_world (\<lambda>_. []) calm_os
      \<lparr>net_node = node1, SOCKET_SERVER = Some (fst (socket_server_bind 0x55 5 calm_server))\<rparr> = Some (Inr (ns', - 1))
    \<and> mem (net_node ns') = mem node1"
proof -
  obtain ss' where ss': "socket_server_poll calm_os True (fst (socket_server_bind 0x55 5 calm_server))
    = Some (Inr (ss', SOCKET_OPEN, \<lparr>m_id = 1, m_opaque = 0x55, m_ud = 0, m_data = Text ''binding''\<rparr>, True))"
    using calm_bind by blast
  from socket_poll_dead_frees [OF calm_reads _ _ ss', of "\<lparr>net_node = node1, SOCKET_SERVER = Some (fst (socket_server_bind 0x55 5 calm_server))\<rparr>"
      idle_world "\<lambda>_. []"] node1_ok(1,4) show ?thesis by auto
qed

end
