(* ===== verification/Skynet_Threads.thy ===== *)
theory Skynet_Threads
  imports Skynet_Lifecycle Skynet_Socket
begin

text \<open>
  \<^verbatim>\<open>skynet-src/skynet_start.c\<close>: the loops of the threads of a node (workers, timer, socket, monitor),
  how idle workers sleep and are woken, and how the process ends. The threads are a step relation over
  the state of the whole node; a call that a thread makes into another part of the node is one step,
  done by the definition of that part, and a call that faults ends the process: there is no next state.
  Shown are the invariant of the sleeping workers, that each turn of the timer wakes a sleeping worker,
  and that every worker returns once the timer thread has ended.
\<close>

section \<open>State\<close>

datatype thread = Worker nat | Timer_thread | Socket_thread | Monitor_thread

text \<open>Where a thread is: the names follow the statements of its function.\<close>

datatype worker_pc = W_new | W_top | W_dispatch | W_lock | W_count | W_check | W_waiting | W_relock | W_leave | W_unlock | W_done

datatype timer_pc = T_new | T_update | T_socket_time | T_check | T_wake | T_signal | T_socket_exit | T_lock | T_quit
  | T_broadcast | T_unlock | T_done

datatype socket_pc = S_new | S_poll | S_check | S_wake | S_done

datatype monitor_pc = M_new | M_top | M_checks nat | M_pause nat | M_done

text \<open>
  \<^verbatim>\<open>struct monitor\<close>, the parameters and local variables of the threads, and the state of the node. The
  mutex is the thread that holds it; \<open>key\<close> is the value of each thread under \<^verbatim>\<open>handle_key\<close>.
\<close>

record run_state =
  net :: net_state
  m_count :: nat
  m_m :: "nat \<Rightarrow> skynet_monitor"
  m_mutex :: "thread option"
  m_sleep :: int
  m_quit :: bool
  SIG :: bool
  w_pc :: "nat \<Rightarrow> worker_pc"
  w_q :: "nat \<Rightarrow> qptr option"
  t_pc :: timer_pc
  s_pc :: socket_pc
  o_pc :: monitor_pc
  key :: "thread \<Rightarrow> u32"

definition THREAD_WORKER :: int where "THREAD_WORKER = 0"
definition THREAD_SOCKET :: int where "THREAD_SOCKET = 2"
definition THREAD_TIMER :: int where "THREAD_TIMER = 3"
definition THREAD_MONITOR :: int where "THREAD_MONITOR = 4"

text \<open>A call that a thread makes, with its own value of the thread key.\<close>

definition call :: "thread \<Rightarrow> (net_state \<Rightarrow> (net_state \<times> 'a) res) \<Rightarrow> run_state \<Rightarrow> (run_state \<times> 'a) res" where
  "call t f rs =
     bindE (f ((net rs)\<lparr>net_node := (net_node (net rs))\<lparr>handle_key := key rs t\<rparr>\<rparr>)) (\<lambda>(ns, r).
     Inr (rs\<lparr>net := ns, key := (key rs)(t := handle_key (net_node ns))\<rparr>, r))"

definition on_node :: "(node \<Rightarrow> (node \<times> 'a) res) \<Rightarrow> net_state \<Rightarrow> (net_state \<times> 'a) res" where
  "on_node f ns = bindE (f (net_node ns)) (\<lambda>(st, r). Inr (ns\<lparr>net_node := st\<rparr>, r))"

definition no_value :: "('a \<Rightarrow> 'a res) \<Rightarrow> 'a \<Rightarrow> ('a \<times> unit) res" where
  "no_value f s = bindE (f s) (\<lambda>s. Inr (s, ()))"

definition init_thread :: "thread \<Rightarrow> int \<Rightarrow> run_state \<Rightarrow> run_state" where
  "init_thread t m rs = rs\<lparr>key := (key rs)(t := handle_key (skynet_initthread m (net_node (net rs))))\<rparr>"

text \<open>The condition of \<^verbatim>\<open>CHECK_ABORT\<close>.\<close>

definition aborted :: "run_state \<Rightarrow> bool" where
  "aborted rs \<longleftrightarrow> skynet_context_total (net_node (net rs)) = 0"

definition at_pc :: "nat \<Rightarrow> worker_pc \<Rightarrow> run_state \<Rightarrow> run_state" where
  "at_pc i pc rs = rs\<lparr>w_pc := (w_pc rs)(i := pc)\<rparr>"

section \<open>Sleeping and waking\<close>

definition wakeup_due :: "int \<Rightarrow> run_state \<Rightarrow> bool" where
  "wakeup_due awake rs \<longleftrightarrow> m_sleep rs \<ge> int (m_count rs) - awake"

text \<open>\<^verbatim>\<open>pthread_cond_signal\<close> wakes one waiting worker, if there is one; which one is open.\<close>

inductive wakeup :: "int \<Rightarrow> run_state \<Rightarrow> run_state \<Rightarrow> bool" where
  wakeup_not: "\<not> wakeup_due awake rs \<Longrightarrow> wakeup awake rs rs"
| wakeup_nobody: "wakeup_due awake rs \<Longrightarrow> \<forall>i < m_count rs. w_pc rs i \<noteq> W_waiting \<Longrightarrow> wakeup awake rs rs"
| wakeup_one: "wakeup_due awake rs \<Longrightarrow> i < m_count rs \<Longrightarrow> w_pc rs i = W_waiting \<Longrightarrow> wakeup awake rs (at_pc i W_relock rs)"

definition broadcast :: "run_state \<Rightarrow> run_state" where
  "broadcast rs = rs\<lparr>w_pc := (\<lambda>i. if w_pc rs i = W_waiting then W_relock else w_pc rs i)\<rparr>"

section \<open>Workers\<close>

definition weight_table :: "int list" where
  "weight_table = replicate 4 (- 1) @ replicate 4 0 @ replicate 8 1 @ replicate 8 2 @ replicate 8 3"

definition worker_weight :: "nat \<Rightarrow> int" where
  "worker_weight i = (if i < length weight_table then weight_table ! i else 0)"

definition worker_dispatch :: "world \<Rightarrow> nat \<Rightarrow> run_state \<Rightarrow> (run_state \<times> skynet_monitor \<times> qptr option) res" where
  "worker_dispatch W i rs = call (Worker i) (on_node (skynet_context_message_dispatch W (m_m rs i) (w_q rs i) (worker_weight i))) rs"

text \<open>
  A waiting worker gives up the mutex and gets it back before it goes on; it may also wake up without
  a signal.
\<close>

inductive worker_step :: "world \<Rightarrow> nat \<Rightarrow> run_state \<Rightarrow> run_state \<Rightarrow> bool" for W where
  w_start: "i < m_count rs \<Longrightarrow> w_pc rs i = W_new \<Longrightarrow>
     worker_step W i rs (at_pc i W_top (init_thread (Worker i) THREAD_WORKER (rs\<lparr>w_q := (w_q rs)(i := None)\<rparr>)))"
| w_top: "i < m_count rs \<Longrightarrow> w_pc rs i = W_top \<Longrightarrow> worker_step W i rs (at_pc i (if m_quit rs then W_done else W_dispatch) rs)"
| w_dispatch: "i < m_count rs \<Longrightarrow> w_pc rs i = W_dispatch \<Longrightarrow> worker_dispatch W i rs = Inr (rs', sm, q) \<Longrightarrow>
     worker_step W i rs (at_pc i (if q = None then W_lock else W_top) (rs'\<lparr>m_m := (m_m rs)(i := sm), w_q := (w_q rs)(i := q)\<rparr>))"
| w_lock: "i < m_count rs \<Longrightarrow> w_pc rs i = W_lock \<Longrightarrow> m_mutex rs = None \<Longrightarrow>
     worker_step W i rs (at_pc i W_count (rs\<lparr>m_mutex := Some (Worker i)\<rparr>))"
| w_count: "i < m_count rs \<Longrightarrow> w_pc rs i = W_count \<Longrightarrow> worker_step W i rs (at_pc i W_check (rs\<lparr>m_sleep := m_sleep rs + 1\<rparr>))"
| w_check: "i < m_count rs \<Longrightarrow> w_pc rs i = W_check \<Longrightarrow>
     worker_step W i rs (if m_quit rs then at_pc i W_leave rs else at_pc i W_waiting (rs\<lparr>m_mutex := None\<rparr>))"
| w_spurious: "i < m_count rs \<Longrightarrow> w_pc rs i = W_waiting \<Longrightarrow> worker_step W i rs (at_pc i W_relock rs)"
| w_relock: "i < m_count rs \<Longrightarrow> w_pc rs i = W_relock \<Longrightarrow> m_mutex rs = None \<Longrightarrow>
     worker_step W i rs (at_pc i W_leave (rs\<lparr>m_mutex := Some (Worker i)\<rparr>))"
| w_leave: "i < m_count rs \<Longrightarrow> w_pc rs i = W_leave \<Longrightarrow> worker_step W i rs (at_pc i W_unlock (rs\<lparr>m_sleep := m_sleep rs - 1\<rparr>))"
| w_unlock: "i < m_count rs \<Longrightarrow> w_pc rs i = W_unlock \<Longrightarrow> worker_step W i rs (at_pc i W_top (rs\<lparr>m_mutex := None\<rparr>))"

section \<open>The other threads\<close>

text \<open>\<^verbatim>\<open>signal_hup\<close>: the logger is asked to open its file again.\<close>

definition signal_hup :: "world \<Rightarrow> node \<Rightarrow> node res" where
  "signal_hup W st =
     bindE (skynet_handle_findname ''logger'' (handles st)) (\<lambda>logger.
     if logger \<noteq> 0 then
       bindE (skynet_context_push W logger \<lparr>msg_source = 0, msg_session = 0, msg_data = None,
         msg_sz = push_bit MESSAGE_TYPE_SHIFT (ucast PTYPE_SYSTEM)\<rparr> st) (\<lambda>(st, _). Inr st)
     else Inr st)"

inductive timer_step :: "world \<Rightarrow> run_state \<Rightarrow> run_state \<Rightarrow> bool" for W where
  t_start: "t_pc rs = T_new \<Longrightarrow> timer_step W rs (init_thread Timer_thread THREAD_TIMER (rs\<lparr>t_pc := T_update\<rparr>))"
| t_update: "t_pc rs = T_update \<Longrightarrow> call Timer_thread (on_node (no_value (node_updatetime W cp))) rs = Inr (rs', u) \<Longrightarrow>
     timer_step W rs (rs'\<lparr>t_pc := T_socket_time\<rparr>)"
| t_socket_time: "t_pc rs = T_socket_time \<Longrightarrow>
     call Timer_thread (no_value (\<lambda>ns. skynet_socket_updatetime (skynet_now (TI (net_node ns))) ns)) rs = Inr (rs', u) \<Longrightarrow>
     timer_step W rs (rs'\<lparr>t_pc := T_check\<rparr>)"
| t_check: "t_pc rs = T_check \<Longrightarrow> timer_step W rs (rs\<lparr>t_pc := (if aborted rs then T_socket_exit else T_wake)\<rparr>)"
| t_wake: "t_pc rs = T_wake \<Longrightarrow> wakeup (int (m_count rs) - 1) rs rs' \<Longrightarrow> timer_step W rs (rs'\<lparr>t_pc := T_signal\<rparr>)"
| t_no_signal: "t_pc rs = T_signal \<Longrightarrow> \<not> SIG rs \<Longrightarrow> timer_step W rs (rs\<lparr>t_pc := T_update\<rparr>)"
| t_signal: "t_pc rs = T_signal \<Longrightarrow> SIG rs \<Longrightarrow> call Timer_thread (on_node (no_value (signal_hup W))) rs = Inr (rs', u) \<Longrightarrow>
     timer_step W rs (rs'\<lparr>t_pc := T_update, SIG := False\<rparr>)"
| t_socket_exit: "t_pc rs = T_socket_exit \<Longrightarrow> call Timer_thread (no_value skynet_socket_exit) rs = Inr (rs', u) \<Longrightarrow>
     timer_step W rs (rs'\<lparr>t_pc := T_lock\<rparr>)"
| t_lock: "t_pc rs = T_lock \<Longrightarrow> m_mutex rs = None \<Longrightarrow> timer_step W rs (rs\<lparr>t_pc := T_quit, m_mutex := Some Timer_thread\<rparr>)"
| t_quit: "t_pc rs = T_quit \<Longrightarrow> timer_step W rs (rs\<lparr>t_pc := T_broadcast, m_quit := True\<rparr>)"
| t_broadcast: "t_pc rs = T_broadcast \<Longrightarrow> timer_step W rs ((broadcast rs)\<lparr>t_pc := T_unlock\<rparr>)"
| t_unlock: "t_pc rs = T_unlock \<Longrightarrow> timer_step W rs (rs\<lparr>t_pc := T_done, m_mutex := None\<rparr>)"

definition socket_poll :: "world \<Rightarrow> (errno \<Rightarrow> string) \<Rightarrow> oscall \<Rightarrow> net_state \<Rightarrow> (net_state \<times> int) res" where
  "socket_poll W strerror os ns = (case skynet_socket_poll W strerror os ns of None \<Rightarrow> Inl Diverges | Some r \<Rightarrow> r)"

inductive socket_step :: "world \<Rightarrow> (errno \<Rightarrow> string) \<Rightarrow> oscall \<Rightarrow> run_state \<Rightarrow> run_state \<Rightarrow> bool" for W strerror os where
  s_start: "s_pc rs = S_new \<Longrightarrow> socket_step W strerror os rs (init_thread Socket_thread THREAD_SOCKET (rs\<lparr>s_pc := S_poll\<rparr>))"
| s_poll: "s_pc rs = S_poll \<Longrightarrow> call Socket_thread (socket_poll W strerror os) rs = Inr (rs', r) \<Longrightarrow>
     socket_step W strerror os rs (rs'\<lparr>s_pc := (if r = 0 then S_done else if r < 0 then S_check else S_wake)\<rparr>)"
| s_check: "s_pc rs = S_check \<Longrightarrow> socket_step W strerror os rs (rs\<lparr>s_pc := (if aborted rs then S_done else S_poll)\<rparr>)"
| s_wake: "s_pc rs = S_wake \<Longrightarrow> wakeup 0 rs rs' \<Longrightarrow> socket_step W strerror os rs (rs'\<lparr>s_pc := S_poll\<rparr>)"

text \<open>
  The \<^verbatim>\<open>break\<close> of \<^verbatim>\<open>CHECK_ABORT\<close> in the loop of the five pauses leaves only that loop; the outer one
  then ends.
\<close>

inductive monitor_step :: "world \<Rightarrow> run_state \<Rightarrow> run_state \<Rightarrow> bool" for W where
  m_start: "o_pc rs = M_new \<Longrightarrow> monitor_step W rs (init_thread Monitor_thread THREAD_MONITOR (rs\<lparr>o_pc := M_top\<rparr>))"
| m_top: "o_pc rs = M_top \<Longrightarrow> monitor_step W rs (rs\<lparr>o_pc := (if aborted rs then M_done else M_checks 0)\<rparr>)"
| m_check: "o_pc rs = M_checks i \<Longrightarrow> i < m_count rs \<Longrightarrow>
     call Monitor_thread (on_node (skynet_monitor_check W (m_m rs i))) rs = Inr (rs', sm) \<Longrightarrow>
     monitor_step W rs (rs'\<lparr>o_pc := M_checks (Suc i), m_m := (m_m rs)(i := sm)\<rparr>)"
| m_checked: "o_pc rs = M_checks i \<Longrightarrow> \<not> i < m_count rs \<Longrightarrow> monitor_step W rs (rs\<lparr>o_pc := M_pause 0\<rparr>)"
| m_pause: "o_pc rs = M_pause i \<Longrightarrow> i < 5 \<Longrightarrow> monitor_step W rs (rs\<lparr>o_pc := (if aborted rs then M_top else M_pause (Suc i))\<rparr>)"
| m_again: "o_pc rs = M_pause i \<Longrightarrow> \<not> i < 5 \<Longrightarrow> monitor_step W rs (rs\<lparr>o_pc := M_top\<rparr>)"

text \<open>\<^verbatim>\<open>handle_hup\<close> runs whenever the signal arrives.\<close>

definition handle_hup :: "run_state \<Rightarrow> run_state" where
  "handle_hup rs = rs\<lparr>SIG := True\<rparr>"

inductive run_step :: "world \<Rightarrow> (errno \<Rightarrow> string) \<Rightarrow> oscall \<Rightarrow> run_state \<Rightarrow> run_state \<Rightarrow> bool" for W strerror os where
  worker: "worker_step W i rs rs' \<Longrightarrow> run_step W strerror os rs rs'"
| timer: "timer_step W rs rs' \<Longrightarrow> run_step W strerror os rs rs'"
| socket: "socket_step W strerror os rs rs' \<Longrightarrow> run_step W strerror os rs rs'"
| monitor: "monitor_step W rs rs' \<Longrightarrow> run_step W strerror os rs rs'"
| hup: "run_step W strerror os rs (handle_hup rs)"

text \<open>\<^verbatim>\<open>start\<close>: the threads are created; each begins at a time of its own.\<close>

definition start :: "nat \<Rightarrow> net_state \<Rightarrow> run_state" where
  "start thread ns = \<lparr>net = ns, m_count = thread, m_m = (\<lambda>_. skynet_monitor_new), m_mutex = None, m_sleep = 0, m_quit = False,
     SIG = False, w_pc = (\<lambda>_. W_new), w_q = (\<lambda>_. None), t_pc = T_new, s_pc = S_new, o_pc = M_new, key = (\<lambda>_. 0)\<rparr>"

inductive running :: "world \<Rightarrow> (errno \<Rightarrow> string) \<Rightarrow> oscall \<Rightarrow> nat \<Rightarrow> net_state \<Rightarrow> run_state \<Rightarrow> bool" for W strerror os thread ns where
  started: "running W strerror os thread ns (start thread ns)"
| step: "running W strerror os thread ns rs \<Longrightarrow> run_step W strerror os rs rs' \<Longrightarrow> running W strerror os thread ns rs'"

section \<open>The invariant of the sleeping workers\<close>

text \<open>Workers that are counted in \<^verbatim>\<open>sleep\<close>, and workers that hold the mutex.\<close>

definition asleep :: "worker_pc \<Rightarrow> int" where
  "asleep pc = of_bool (pc \<in> {W_check, W_waiting, W_relock, W_leave})"

definition holds :: "worker_pc \<Rightarrow> bool" where
  "holds pc \<longleftrightarrow> pc \<in> {W_count, W_check, W_leave, W_unlock}"

definition timer_holds :: "timer_pc \<Rightarrow> bool" where
  "timer_holds pc \<longleftrightarrow> pc \<in> {T_quit, T_broadcast, T_unlock}"

definition mutex_ok :: "run_state \<Rightarrow> bool" where
  "mutex_ok rs \<longleftrightarrow> (\<forall>i < m_count rs. holds (w_pc rs i) = (m_mutex rs = Some (Worker i)))
     \<and> timer_holds (t_pc rs) = (m_mutex rs = Some Timer_thread)
     \<and> (\<forall>t. m_mutex rs = Some t \<longrightarrow> t = Timer_thread \<or> (\<exists>i < m_count rs. t = Worker i))"

definition run_inv :: "run_state \<Rightarrow> bool" where
  "run_inv rs \<longleftrightarrow> m_sleep rs = (\<Sum>i < m_count rs. asleep (w_pc rs i)) \<and> mutex_ok rs
     \<and> (m_quit rs \<longleftrightarrow> t_pc rs \<in> {T_broadcast, T_unlock, T_done})
     \<and> (t_pc rs \<in> {T_unlock, T_done} \<longrightarrow> (\<forall>i < m_count rs. w_pc rs i \<noteq> W_waiting))"


lemma sum_upd:
  assumes "(i :: nat) < n"
  shows "(\<Sum>j < n. f ((g(i := x)) j)) = (\<Sum>j < n. f (g j)) - f (g i) + (f x :: int)"
proof -
  have "(\<Sum>j < n. f (h j)) = f (h i) + (\<Sum>j \<in> {..<n} - {i}. f (h j))" for h
    by (rule sum.remove) (use assms in simp_all)
  from this [of "g(i := x)"] this [of g] show ?thesis by simp
qed

lemma sum_same:
  "\<forall>j < n. f (g' j) = f (g j) \<Longrightarrow> (\<Sum>j < n. f (g' j)) = (\<Sum>j < n. (f (g j) :: int))"
  by simp

lemma call_frame:
  assumes "call t f rs = Inr (rs', r)"
  shows "m_count rs' = m_count rs" "m_m rs' = m_m rs" "m_mutex rs' = m_mutex rs" "m_sleep rs' = m_sleep rs" "m_quit rs' = m_quit rs"
    "SIG rs' = SIG rs" "w_pc rs' = w_pc rs" "w_q rs' = w_q rs" "t_pc rs' = t_pc rs" "s_pc rs' = s_pc rs" "o_pc rs' = o_pc rs"
  using assms by (auto simp: call_def split: prod.splits)

lemma init_thread_frame [simp]:
  "w_q (init_thread t m rs) = w_q rs" "m_m (init_thread t m rs) = m_m rs"
  "m_count (init_thread t m rs) = m_count rs" "m_mutex (init_thread t m rs) = m_mutex rs" "m_sleep (init_thread t m rs) = m_sleep rs"
  "m_quit (init_thread t m rs) = m_quit rs" "w_pc (init_thread t m rs) = w_pc rs" "t_pc (init_thread t m rs) = t_pc rs"
  by (simp_all add: init_thread_def)

lemma at_pc_frame [simp]:
  "w_q (at_pc i pc rs) = w_q rs" "m_m (at_pc i pc rs) = m_m rs"
  "m_count (at_pc i pc rs) = m_count rs" "m_mutex (at_pc i pc rs) = m_mutex rs" "m_sleep (at_pc i pc rs) = m_sleep rs"
  "m_quit (at_pc i pc rs) = m_quit rs" "w_pc (at_pc i pc rs) = (w_pc rs)(i := pc)" "t_pc (at_pc i pc rs) = t_pc rs"
  by (simp_all add: at_pc_def)

text \<open>A worker moves: it keeps, takes or gives up the mutex, and is counted accordingly.\<close>

lemma run_inv_move:
  assumes inv: "run_inv rs" and i: "i < m_count rs"
    and frame: "m_count rs' = m_count rs" "m_quit rs' = m_quit rs" "t_pc rs' = t_pc rs" "w_pc rs' = (w_pc rs)(i := pc)"
    and sleep: "m_sleep rs' = m_sleep rs - asleep (w_pc rs i) + asleep pc"
    and mutex: "m_mutex rs' = m_mutex rs \<and> holds pc = holds (w_pc rs i)
      \<or> m_mutex rs = None \<and> m_mutex rs' = Some (Worker i) \<and> holds pc
      \<or> holds (w_pc rs i) \<and> m_mutex rs' = None \<and> \<not> holds pc"
    and wait: "pc = W_waiting \<Longrightarrow> \<not> m_quit rs"
  shows "run_inv rs'"
  unfolding run_inv_def
proof (intro conjI)
  show "m_sleep rs' = (\<Sum>i < m_count rs'. asleep (w_pc rs' i))"
    using inv sum_upd [OF i, of asleep "w_pc rs" pc] sleep by (simp add: run_inv_def frame)
  have m: "mutex_ok rs" using inv by (simp add: run_inv_def)
  from mutex show "mutex_ok rs'"
  proof (elim disjE conjE)
    assume "m_mutex rs' = m_mutex rs" "holds pc = holds (w_pc rs i)"
    then show ?thesis using m i unfolding mutex_ok_def frame by simp
  next
    assume "m_mutex rs = None" "m_mutex rs' = Some (Worker i)" "holds pc"
    then show ?thesis using m i unfolding mutex_ok_def frame by simp
  next
    assume a: "holds (w_pc rs i)" "m_mutex rs' = None" "\<not> holds pc"
    then have "m_mutex rs = Some (Worker i)" using m i by (simp add: mutex_ok_def)
    then show ?thesis using m a unfolding mutex_ok_def frame by auto
  qed
  show "m_quit rs' \<longleftrightarrow> t_pc rs' \<in> {T_broadcast, T_unlock, T_done}" using inv by (simp add: run_inv_def frame)
  show "t_pc rs' \<in> {T_unlock, T_done} \<longrightarrow> (\<forall>i < m_count rs'. w_pc rs' i \<noteq> W_waiting)"
    using inv wait by (auto simp: run_inv_def frame)
qed

lemma worker_step_inv:
  assumes "worker_step W i rs rs'" "run_inv rs"
  shows "run_inv rs' \<and> m_count rs' = m_count rs \<and> m_quit rs' = m_quit rs \<and> t_pc rs' = t_pc rs"
  using assms
proof cases
  case (w_dispatch rs1 sm q)
  note f = call_frame [OF w_dispatch(4) [unfolded worker_dispatch_def]]
  show ?thesis using w_dispatch(1-3) f
    by (auto intro: run_inv_move [OF assms(2), of i] simp: asleep_def holds_def)
qed (auto intro: run_inv_move [OF assms(2), of i] simp: asleep_def holds_def)

text \<open>The sleeping of the workers does not depend on the other fields.\<close>

lemma run_inv_same:
  assumes "run_inv rs" "m_count rs' = m_count rs" "m_mutex rs' = m_mutex rs" "m_sleep rs' = m_sleep rs" "m_quit rs' = m_quit rs"
    "w_pc rs' = w_pc rs" "timer_holds (t_pc rs') = timer_holds (t_pc rs)" "t_pc rs' = t_pc rs \<or> t_pc rs' \<notin> {T_broadcast, T_unlock, T_done} \<and> \<not> m_quit rs"
  shows "run_inv rs'"
  using assms unfolding run_inv_def mutex_ok_def by auto

lemma wakeup_inv:
  assumes "wakeup k rs rs'" "run_inv rs"
  shows "run_inv rs' \<and> m_count rs' = m_count rs \<and> m_quit rs' = m_quit rs \<and> t_pc rs' = t_pc rs"
  using assms
proof cases
  case (wakeup_one i)
  then show ?thesis by (auto intro: run_inv_move [OF assms(2), of i] simp: asleep_def holds_def)
qed (use assms(2) in simp_all)

lemma broadcast_frame [simp]:
  "m_count (broadcast rs) = m_count rs" "m_mutex (broadcast rs) = m_mutex rs" "m_sleep (broadcast rs) = m_sleep rs"
  "m_quit (broadcast rs) = m_quit rs" "w_q (broadcast rs) = w_q rs" "t_pc (broadcast rs) = t_pc rs"
  by (simp_all add: broadcast_def)

lemma broadcast_pc:
  "asleep (w_pc (broadcast rs) i) = asleep (w_pc rs i)" "holds (w_pc (broadcast rs) i) = holds (w_pc rs i)"
  "w_pc (broadcast rs) i \<noteq> W_waiting" "w_pc rs i \<noteq> W_waiting \<Longrightarrow> w_pc (broadcast rs) i = w_pc rs i"
  by (auto simp: broadcast_def asleep_def holds_def)

text \<open>A step of the timer thread outside the part that ends the workers.\<close>

lemma run_inv_timer:
  assumes "run_inv rs" "t_pc rs \<in> {T_new, T_update, T_socket_time, T_check, T_wake, T_signal, T_socket_exit}"
    "m_count rs' = m_count rs" "m_mutex rs' = m_mutex rs" "m_sleep rs' = m_sleep rs" "m_quit rs' = m_quit rs" "w_pc rs' = w_pc rs"
    "t_pc rs' \<in> {T_update, T_socket_time, T_check, T_wake, T_signal, T_socket_exit, T_lock}"
  shows "run_inv rs' \<and> m_count rs' = m_count rs"
proof -
  have "\<not> timer_holds (t_pc rs)" "t_pc rs \<notin> {T_broadcast, T_unlock, T_done}" using assms(2) by (auto simp: timer_holds_def)
  moreover have "\<not> timer_holds (t_pc rs')" "t_pc rs' \<notin> {T_broadcast, T_unlock, T_done}" using assms(8) by (auto simp: timer_holds_def)
  ultimately show ?thesis using assms(1,3-7) unfolding run_inv_def mutex_ok_def by simp
qed

lemma timer_step_inv:
  assumes "timer_step W rs rs'" "run_inv rs"
  shows "run_inv rs' \<and> m_count rs' = m_count rs"
  using assms
proof cases
  case (t_wake rs1)
  note w = wakeup_inv [OF t_wake(3) assms(2)]
  then have "run_inv rs1" "t_pc rs1 = T_wake" "m_count rs1 = m_count rs" using t_wake by auto
  then show ?thesis using t_wake(1) run_inv_timer [of rs1 rs'] by simp
next
  case t_broadcast
  then show ?thesis using assms(2) by (simp add: run_inv_def mutex_ok_def broadcast_pc timer_holds_def)
next
  case t_lock
  then show ?thesis using assms(2) by (auto simp: run_inv_def mutex_ok_def timer_holds_def)
next
  case t_quit
  then show ?thesis using assms(2) by (auto simp: run_inv_def mutex_ok_def timer_holds_def)
next
  case t_unlock
  then show ?thesis using assms(2) by (auto simp: run_inv_def mutex_ok_def timer_holds_def)
qed (rule run_inv_timer [OF assms(2)]; simp add: call_frame)+

lemma quiet_step_inv:
  assumes "socket_step W strerror os rs rs' \<or> monitor_step W rs rs' \<or> rs' = handle_hup rs" "run_inv rs"
  shows "run_inv rs' \<and> m_count rs' = m_count rs \<and> m_quit rs' = m_quit rs \<and> t_pc rs' = t_pc rs"
proof -
  have same: "run_inv rs'" if "run_inv rs1" "m_count rs' = m_count rs1" "m_mutex rs' = m_mutex rs1" "m_sleep rs' = m_sleep rs1"
    "m_quit rs' = m_quit rs1" "w_pc rs' = w_pc rs1" "t_pc rs' = t_pc rs1" for rs1
    using that unfolding run_inv_def mutex_ok_def by simp
  from assms(1) show ?thesis
  proof (elim disjE)
    assume "socket_step W strerror os rs rs'"
    then show ?thesis
    proof cases
      case (s_wake rs1)
      note w = wakeup_inv [OF s_wake(3) assms(2)]
      then show ?thesis using s_wake(1) same [of rs1] by simp
    qed (use same [OF assms(2)] in \<open>simp_all add: call_frame\<close>)
  next
    assume "monitor_step W rs rs'"
    then show ?thesis by cases (use same [OF assms(2)] in \<open>simp_all add: call_frame\<close>)
  next
    assume "rs' = handle_hup rs"
    then show ?thesis using same [OF assms(2)] by (simp add: handle_hup_def)
  qed
qed

lemma run_step_inv:
  assumes "run_step W strerror os rs rs'" "run_inv rs"
  shows "run_inv rs' \<and> m_count rs' = m_count rs"
  using assms
proof cases
  case (worker i)
  with worker_step_inv [OF worker assms(2)] show ?thesis by simp
next
  case timer
  with timer_step_inv [OF timer assms(2)] show ?thesis by simp
qed (use quiet_step_inv [OF _ assms(2), of W strerror os rs'] in blast)+

lemma running_inv: "running W strerror os thread ns rs \<Longrightarrow> run_inv rs \<and> m_count rs = thread"
proof (induction rule: running.induct)
  case started
  then show ?case by (simp add: start_def run_inv_def mutex_ok_def asleep_def holds_def timer_holds_def)
next
  case (step rs rs')
  with run_step_inv show ?case by blast
qed

section \<open>The workers end\<close>

text \<open>How many steps a worker takes at most once \<^verbatim>\<open>quit\<close> is set.\<close>

definition worker_rank :: "worker_pc \<Rightarrow> int" where
  "worker_rank pc = (case pc of W_done \<Rightarrow> 0 | W_top \<Rightarrow> 1 | W_new \<Rightarrow> 2 | W_unlock \<Rightarrow> 2 | W_leave \<Rightarrow> 3 | W_relock \<Rightarrow> 4 | W_waiting \<Rightarrow> 5
     | W_check \<Rightarrow> 5 | W_count \<Rightarrow> 6 | W_lock \<Rightarrow> 7 | W_dispatch \<Rightarrow> 8)"

definition work_left :: "run_state \<Rightarrow> int" where
  "work_left rs = (\<Sum>i < m_count rs. worker_rank (w_pc rs i))"

text \<open>Running on, with \<open>n\<close> steps of workers among the steps of all threads.\<close>

inductive runs_on :: "world \<Rightarrow> (errno \<Rightarrow> string) \<Rightarrow> oscall \<Rightarrow> run_state \<Rightarrow> nat \<Rightarrow> run_state \<Rightarrow> bool" for W strerror os rs where
  no_step: "runs_on W strerror os rs 0 rs"
| by_worker: "runs_on W strerror os rs n rs1 \<Longrightarrow> worker_step W i rs1 rs2 \<Longrightarrow> runs_on W strerror os rs (Suc n) rs2"
| by_other: "runs_on W strerror os rs n rs1 \<Longrightarrow> timer_step W rs1 rs2 \<or> socket_step W strerror os rs1 rs2 \<or> monitor_step W rs1 rs2
     \<or> rs2 = handle_hup rs1 \<Longrightarrow> runs_on W strerror os rs n rs2"

lemma worker_rank_range: "0 \<le> worker_rank pc" "worker_rank pc \<le> 8"
  by (cases pc; simp add: worker_rank_def)+

lemma work_left_range: "0 \<le> work_left rs" "work_left rs \<le> 8 * int (m_count rs)"
proof -
  show "0 \<le> work_left rs" unfolding work_left_def by (intro sum_nonneg worker_rank_range(1))
  have "work_left rs \<le> (\<Sum>i < m_count rs. 8)" unfolding work_left_def by (intro sum_mono worker_rank_range(2))
  then show "work_left rs \<le> 8 * int (m_count rs)" by simp
qed

lemma work_left_at:
  assumes "i < m_count rs" "m_count rs' = m_count rs" "w_pc rs' = (w_pc rs)(i := pc)"
  shows "work_left rs' = work_left rs - worker_rank (w_pc rs i) + worker_rank pc"
  unfolding work_left_def assms(2,3) by (rule sum_upd [OF assms(1)])

lemma worker_step_work:
  assumes "worker_step W i rs rs'" "m_quit rs"
  shows "work_left rs' < work_left rs"
  using assms
proof cases
  case (w_dispatch rs1 sm q)
  note f = call_frame [OF w_dispatch(4) [unfolded worker_dispatch_def]]
  show ?thesis using w_dispatch(1-3) f work_left_at [of i rs rs'] by (simp add: worker_rank_def)
qed (use assms(2) work_left_at [of i rs rs'] in \<open>simp add: worker_rank_def\<close>)+

lemma wakeup_work: "wakeup k rs rs' \<Longrightarrow> work_left rs' \<le> work_left rs"
proof (induction rule: wakeup.induct)
  case (wakeup_one awake rs i)
  then show ?case using work_left_at [of i rs "at_pc i W_relock rs" W_relock] by (simp add: worker_rank_def)
qed simp_all

lemma other_step_work:
  assumes "socket_step W strerror os rs rs' \<or> monitor_step W rs rs' \<or> rs' = handle_hup rs"
  shows "work_left rs' \<le> work_left rs"
  using assms
proof (elim disjE)
  assume "socket_step W strerror os rs rs'"
  then show ?thesis
  proof cases
    case (s_wake rs1)
    with wakeup_work [OF s_wake(3)] show ?thesis by (simp add: work_left_def)
  qed (simp_all add: work_left_def call_frame)
next
  assume "monitor_step W rs rs'"
  then show ?thesis by cases (simp_all add: work_left_def call_frame)
qed (simp add: work_left_def handle_hup_def)

lemma timer_done: "timer_step W rs rs' \<Longrightarrow> t_pc rs \<noteq> T_done"
  by (induction rule: timer_step.induct) simp_all

lemma runs_on_work:
  "runs_on W strerror os rs n rs' \<Longrightarrow> run_inv rs \<Longrightarrow> t_pc rs = T_done \<Longrightarrow>
     run_inv rs' \<and> t_pc rs' = T_done \<and> m_count rs' = m_count rs \<and> int n + work_left rs' \<le> work_left rs"
proof (induction rule: runs_on.induct)
  case (by_worker n rs1 i rs2)
  then have IH: "run_inv rs1" "t_pc rs1 = T_done" "m_count rs1 = m_count rs" "int n + work_left rs1 \<le> work_left rs" by auto
  moreover from IH have "m_quit rs1" by (simp add: run_inv_def)
  ultimately show ?case using worker_step_inv [OF by_worker(2)] worker_step_work [OF by_worker(2)] by auto
next
  case (by_other n rs1 rs2)
  then have IH: "run_inv rs1" "t_pc rs1 = T_done" "m_count rs1 = m_count rs" "int n + work_left rs1 \<le> work_left rs" by auto
  from by_other(2) timer_done IH(2) have "socket_step W strerror os rs1 rs2 \<or> monitor_step W rs1 rs2 \<or> rs2 = handle_hup rs1" by blast
  from quiet_step_inv [OF this IH(1)] other_step_work [OF this] IH show ?case by auto
qed simp

text \<open>With the timer thread gone nobody waits for the mutex for ever.\<close>

lemma worker_stuck:
  assumes "run_inv rs" "t_pc rs = T_done" and stuck: "\<And>i rs'. \<not> worker_step W i rs rs'" and i: "i < m_count rs"
  shows "w_pc rs i = W_done \<or> (\<exists>e. worker_dispatch W i rs = Inl e)"
proof -
  have free: "m_mutex rs = None"
  proof (rule ccontr)
    assume "m_mutex rs \<noteq> None"
    then obtain j where j: "j < m_count rs" "holds (w_pc rs j)" using assms(1,2) by (auto simp: run_inv_def mutex_ok_def timer_holds_def)
    then show False using worker_step.w_count [of j rs W] worker_step.w_check [of j rs W] worker_step.w_leave [of j rs W]
        worker_step.w_unlock [of j rs W] stuck by (auto simp: holds_def)
  qed
  have "w_pc rs i \<noteq> W_new" "w_pc rs i \<noteq> W_top" "w_pc rs i \<noteq> W_count" "w_pc rs i \<noteq> W_check" "w_pc rs i \<noteq> W_waiting"
    "w_pc rs i \<noteq> W_leave" "w_pc rs i \<noteq> W_unlock"
    using worker_step.w_start [OF i] worker_step.w_top [OF i] worker_step.w_count [OF i] worker_step.w_check [OF i]
      worker_step.w_spurious [OF i] worker_step.w_leave [OF i] worker_step.w_unlock [OF i] stuck by blast+
  moreover have "w_pc rs i \<noteq> W_lock" "w_pc rs i \<noteq> W_relock"
    using worker_step.w_lock [OF i _ free] worker_step.w_relock [OF i _ free] stuck by blast+
  ultimately show ?thesis
  proof (cases "w_pc rs i")
    case W_dispatch
    show ?thesis
    proof (cases "worker_dispatch W i rs")
      case (Inr r)
      then obtain rs1 sm q where "worker_dispatch W i rs = Inr (rs1, sm, q)" by (cases r) auto
      with worker_step.w_dispatch [OF i W_dispatch] stuck show ?thesis by blast
    qed simp
  qed simp_all
qed

section \<open>What the threads do for each other\<close>

text \<open>C13: In every reachable state \<^verbatim>\<open>sleep\<close> counts the workers that are asleep or about to be, the
  mutex has at most one holder, which is a worker inside its section or the timer thread inside its
  own, \<^verbatim>\<open>quit\<close> is set exactly from the timer's section on, and no worker waits after the broadcast.\<close>

theorem workers_sleep_counted:
  assumes "running W strerror os thread ns rs"
  shows "m_sleep rs = (\<Sum>i < thread. asleep (w_pc rs i)) \<and> mutex_ok rs
    \<and> (m_quit rs \<longleftrightarrow> t_pc rs \<in> {T_broadcast, T_unlock, T_done})
    \<and> (t_pc rs \<in> {T_unlock, T_done} \<longrightarrow> (\<forall>i < thread. w_pc rs i \<noteq> W_waiting))"
  using running_inv [OF assms] by (auto simp: run_inv_def)

text \<open>C14: Whenever a worker waits, the turn of the timer thread wakes one of the waiting workers, so
  that a message put into a queue after the worker found none is not left for longer than a turn.\<close>

theorem timer_wakes_sleeper:
  assumes "running W strerror os thread ns rs" "t_pc rs = T_wake" "i < thread" "w_pc rs i = W_waiting"
  shows "(\<exists>rs'. timer_step W rs rs')
    \<and> (\<forall>rs'. timer_step W rs rs' \<longrightarrow> (\<exists>j < thread. w_pc rs j = W_waiting \<and> w_pc rs' = (w_pc rs)(j := W_relock)))"
proof -
  from running_inv [OF assms(1)] have inv: "run_inv rs" "m_count rs = thread" by auto
  have "asleep (w_pc rs i) \<le> (\<Sum>i < thread. asleep (w_pc rs i))"
    using assms(3) by (intro member_le_sum) (auto simp: asleep_def)
  then have due: "wakeup_due (int (m_count rs) - 1) rs" using inv assms(4) by (simp add: run_inv_def wakeup_due_def asleep_def)
  have w: "\<exists>j < thread. w_pc rs j = W_waiting \<and> w_pc rs' = (w_pc rs)(j := W_relock)" if "wakeup (int (m_count rs) - 1) rs rs'" for rs'
    using that by cases (use due assms(3,4) inv(2) in auto)
  moreover have "wakeup (int (m_count rs) - 1) rs (at_pc i W_relock rs)" using wakeup_one [OF due] assms(3,4) inv(2) by simp
  then have "\<exists>rs'. timer_step W rs rs'" using t_wake [OF assms(2)] by blast
  moreover have "\<exists>rs1. wakeup (int (m_count rs) - 1) rs rs1 \<and> w_pc rs' = w_pc rs1" if "timer_step W rs rs'" for rs'
    using that by cases (use assms(2) in auto)
  ultimately show ?thesis by metis
qed


section \<open>A quiet node\<close>

text \<open>No queue is waiting, no timer is due; the number of services is \<open>k\<close>.\<close>

definition quiet :: "int \<Rightarrow> run_state \<Rightarrow> bool" where
  "quiet k rs \<longleftrightarrow> gq_head (net_node (net rs)) = None \<and> node_total (net_node (net rs)) = k \<and> TI (net_node (net rs)) = timer_create_timer
     \<and> SOCKET_SERVER (net rs) \<noteq> None"

lemma quiet_frame [simp]:
  "quiet k (at_pc i pc rs) = quiet k rs" "quiet k (init_thread t m rs) = quiet k rs" "quiet k (rs\<lparr>t_pc := tp\<rparr>) = quiet k rs"
  "quiet k (rs\<lparr>m_mutex := mx\<rparr>) = quiet k rs" "quiet k (rs\<lparr>m_sleep := s\<rparr>) = quiet k rs" "quiet k (rs\<lparr>m_quit := b\<rparr>) = quiet k rs"
  "quiet k (rs\<lparr>w_q := q\<rparr>) = quiet k rs" "quiet k (rs\<lparr>m_m := mm\<rparr>) = quiet k rs" "quiet k (broadcast rs) = quiet k rs"
  by (simp_all add: quiet_def at_pc_def init_thread_def broadcast_def)

lemma quiet_update: "quiet k rs \<Longrightarrow> \<exists>rs'. call Timer_thread (on_node (no_value (node_updatetime W 0))) rs = Inr (rs', ()) \<and> quiet k rs'"
  by (auto simp: quiet_def call_def on_node_def no_value_def node_updatetime_def skynet_updatetime_def timer_create_timer_def)

lemma quiet_socket_time:
  "quiet k rs \<Longrightarrow> \<exists>rs'. call Timer_thread (no_value (\<lambda>ns. skynet_socket_updatetime (skynet_now (TI (net_node ns))) ns)) rs = Inr (rs', ())
     \<and> quiet k rs'"
  by (auto simp: quiet_def call_def no_value_def skynet_socket_updatetime_def with_server_def)

lemma quiet_exit: "quiet k rs \<Longrightarrow> \<exists>rs'. call Timer_thread (no_value skynet_socket_exit) rs = Inr (rs', ()) \<and> quiet k rs'"
  by (auto simp: quiet_def call_def no_value_def skynet_socket_exit_def with_server_def)

lemma quiet_dispatch: "quiet k rs \<Longrightarrow> w_q rs i = None \<Longrightarrow> \<exists>rs'. worker_dispatch W i rs = Inr (rs', m_m rs i, None) \<and> quiet k rs'"
  by (auto simp: quiet_def worker_dispatch_def call_def on_node_def skynet_context_message_dispatch_def skynet_globalmq_pop_def)

definition quiet_net :: "int \<Rightarrow> net_state" where
  "quiet_net k = \<lparr>net_node = node1\<lparr>node_total := k\<rparr>, SOCKET_SERVER = Some calm_server\<rparr>"

text \<open>A node with one worker: the timer thread at its check, the worker not begun.\<close>

definition one_worker :: "int \<Rightarrow> timer_pc \<Rightarrow> worker_pc \<Rightarrow> run_state \<Rightarrow> bool" where
  "one_worker k tp wp rs \<longleftrightarrow> running idle_world (\<lambda>_. []) calm_os 1 (quiet_net k) rs \<and> quiet k rs \<and> m_count rs = 1 \<and> t_pc rs = tp
     \<and> w_pc rs 0 = wp \<and> w_q rs 0 = None"

lemma one_worker_timer:
  assumes "one_worker k tp wp rs" "timer_step idle_world rs rs'" "quiet k rs'" "t_pc rs' = tp'" "w_pc rs' 0 = wp'" "w_q rs' = w_q rs"
  shows "one_worker k tp' wp' rs'"
  using assms timer_step_inv [OF assms(2)] running_inv running.step [OF _ run_step.timer [OF assms(2)]]
  unfolding one_worker_def by metis

lemma one_worker_worker:
  assumes "one_worker k tp wp rs" "worker_step idle_world 0 rs rs'" "quiet k rs'" "t_pc rs' = tp'" "w_pc rs' 0 = wp'" "w_q rs' 0 = None"
  shows "one_worker k tp' wp' rs'"
  using assms worker_step_inv [OF assms(2)] running_inv running.step [OF _ run_step.worker [OF assms(2)]]
  unfolding one_worker_def by metis

lemma one_worker_start: "one_worker k T_new W_new (start 1 (quiet_net k))"
  by (simp add: one_worker_def quiet_def running.started)
    (simp add: start_def quiet_net_def node1_def node0_def skynet_harbor_init_def)

lemma one_worker_check: assumes "one_worker k T_new wp rs" shows "\<exists>rs'. one_worker k T_check wp rs' \<and> m_mutex rs' = m_mutex rs"
proof -
  let ?rs1 = "init_thread Timer_thread THREAD_TIMER (rs\<lparr>t_pc := T_update\<rparr>)"
  have 1: "one_worker k T_update wp ?rs1"
    by (rule one_worker_timer [OF assms timer_step.t_start]) (use assms in \<open>simp_all add: one_worker_def\<close>)
  then obtain rs2 where c2: "call Timer_thread (on_node (no_value (node_updatetime idle_world 0))) ?rs1 = Inr (rs2, ())" "quiet k rs2"
    using quiet_update one_worker_def by blast
  have 2: "one_worker k T_socket_time wp (rs2\<lparr>t_pc := T_socket_time\<rparr>)"
    by (rule one_worker_timer [OF 1 timer_step.t_update [OF _ c2(1)]]) (use c2(2) 1 call_frame [OF c2(1)] in \<open>simp_all add: one_worker_def\<close>)
  let ?rs2 = "rs2\<lparr>t_pc := T_socket_time\<rparr>"
  obtain rs3 where c3: "call Timer_thread (no_value (\<lambda>ns. skynet_socket_updatetime (skynet_now (TI (net_node ns))) ns)) ?rs2 = Inr (rs3, ())" "quiet k rs3"
    using quiet_socket_time 2 one_worker_def by blast
  have "one_worker k T_check wp (rs3\<lparr>t_pc := T_check\<rparr>)"
    by (rule one_worker_timer [OF 2 timer_step.t_socket_time [OF _ c3(1)]]) (use c3(2) 2 call_frame [OF c3(1)] in \<open>simp_all add: one_worker_def\<close>)
  then show ?thesis using call_frame [OF c3(1)] call_frame [OF c2(1)] by (intro exI [of _ "rs3\<lparr>t_pc := T_check\<rparr>"]) simp
qed

text \<open>With no service left the timer thread ends; the worker then returns.\<close>

lemma one_worker_done: "\<exists>rs. one_worker 0 T_done W_new rs"
proof -
  obtain rs where 0: "one_worker 0 T_check W_new rs" "m_mutex rs = None"
    using one_worker_check [OF one_worker_start [of 0]] by (auto simp: start_def)
  have 1: "one_worker 0 T_socket_exit W_new (rs\<lparr>t_pc := T_socket_exit\<rparr>)"
    using one_worker_timer [OF 0(1) timer_step.t_check, of T_socket_exit W_new] 0(1)
    by (simp add: one_worker_def aborted_def skynet_context_total_def quiet_def)
  then obtain rs2 where c2: "call Timer_thread (no_value skynet_socket_exit) (rs\<lparr>t_pc := T_socket_exit\<rparr>) = Inr (rs2, ())" "quiet 0 rs2"
    using quiet_exit one_worker_def by blast
  note f2 = call_frame [OF c2(1)]
  have 2: "one_worker 0 T_lock W_new (rs2\<lparr>t_pc := T_lock\<rparr>)"
    by (rule one_worker_timer [OF 1 timer_step.t_socket_exit [OF _ c2(1)]]) (use c2(2) 1 f2 in \<open>simp_all add: one_worker_def\<close>)
  let ?rs3 = "rs2\<lparr>t_pc := T_quit, m_mutex := Some Timer_thread\<rparr>"
  have 3: "one_worker 0 T_quit W_new ?rs3"
    using one_worker_timer [OF 2 timer_step.t_lock, of T_quit W_new] 2 f2 0(2) by (simp add: one_worker_def)
  have 4: "one_worker 0 T_broadcast W_new (?rs3\<lparr>t_pc := T_broadcast, m_quit := True\<rparr>)"
    by (rule one_worker_timer [OF 3 timer_step.t_quit]) (use 3 in \<open>simp_all add: one_worker_def\<close>)
  have 5: "one_worker 0 T_unlock W_new ((broadcast (?rs3\<lparr>t_pc := T_broadcast, m_quit := True\<rparr>))\<lparr>t_pc := T_unlock\<rparr>)"
    by (rule one_worker_timer [OF 4 timer_step.t_broadcast]) (use 4 in \<open>simp_all add: one_worker_def broadcast_pc\<close>)
  have "one_worker 0 T_done W_new
      ((broadcast (?rs3\<lparr>t_pc := T_broadcast, m_quit := True\<rparr>))\<lparr>t_pc := T_unlock, t_pc := T_done, m_mutex := None\<rparr>)"
    using one_worker_timer [OF 5 timer_step.t_unlock, of T_done W_new] 5 by (simp add: one_worker_def broadcast_pc)
  then show ?thesis by blast
qed

lemma one_worker_waits: "\<exists>rs. one_worker 1 T_wake W_waiting rs"
proof -
  let ?rs0 = "start 1 (quiet_net 1)"
  have m: "m_mutex ?rs0 = None" "\<not> m_quit ?rs0" by (simp_all add: start_def)
  let ?rs1 = "at_pc 0 W_top (init_thread (Worker 0) THREAD_WORKER (?rs0\<lparr>w_q := (w_q ?rs0)(0 := None)\<rparr>))"
  note ow = one_worker_start [of 1]
  have 1: "one_worker 1 T_new W_top ?rs1"
    by (rule one_worker_worker [OF ow worker_step.w_start]) (use ow in \<open>simp_all add: one_worker_def\<close>)
  have 2: "one_worker 1 T_new W_dispatch (at_pc 0 W_dispatch ?rs1)"
    using one_worker_worker [OF 1 worker_step.w_top, of T_new W_dispatch] 1 m by (simp add: one_worker_def)
  then obtain rs3 where c3: "worker_dispatch idle_world 0 (at_pc 0 W_dispatch ?rs1) = Inr (rs3, m_m (at_pc 0 W_dispatch ?rs1) 0, None)" "quiet 1 rs3"
    using quiet_dispatch one_worker_def by blast
  note f3 = call_frame [OF c3(1) [unfolded worker_dispatch_def]]
  let ?rs3 = "at_pc 0 W_lock (rs3\<lparr>m_m := (m_m (at_pc 0 W_dispatch ?rs1))(0 := m_m (at_pc 0 W_dispatch ?rs1) 0),
      w_q := (w_q (at_pc 0 W_dispatch ?rs1))(0 := None)\<rparr>)"
  have 3: "one_worker 1 T_new W_lock ?rs3"
    using one_worker_worker [OF 2 worker_step.w_dispatch [OF _ _ c3(1)], of T_new W_lock] 2 c3(2) f3 by (simp add: one_worker_def)
  have m3: "m_mutex ?rs3 = None" "\<not> m_quit ?rs3" using f3 m by simp_all
  let ?rs4 = "at_pc 0 W_count (?rs3\<lparr>m_mutex := Some (Worker 0)\<rparr>)"
  have 4: "one_worker 1 T_new W_count ?rs4"
    by (rule one_worker_worker [OF 3 worker_step.w_lock [OF _ _ m3(1)]]) (use 3 in \<open>simp_all add: one_worker_def\<close>)
  let ?rs5 = "at_pc 0 W_check (?rs4\<lparr>m_sleep := m_sleep ?rs4 + 1\<rparr>)"
  have 5: "one_worker 1 T_new W_check ?rs5"
    by (rule one_worker_worker [OF 4 worker_step.w_count]) (use 4 in \<open>simp_all add: one_worker_def broadcast_pc\<close>)
  have 6: "one_worker 1 T_new W_waiting (at_pc 0 W_waiting (?rs5\<lparr>m_mutex := None\<rparr>))"
    using one_worker_worker [OF 5 worker_step.w_check, of T_new W_waiting] 5 m3(2) by (simp add: one_worker_def)
  from one_worker_check [OF this] obtain rs where rs: "one_worker 1 T_check W_waiting rs" by blast
  have "one_worker 1 T_wake W_waiting (rs\<lparr>t_pc := T_wake\<rparr>)"
    using one_worker_timer [OF rs timer_step.t_check, of T_wake W_waiting] rs
    by (simp add: one_worker_def aborted_def skynet_context_total_def quiet_def)
  then show ?thesis by blast
qed

theorem workers_sleep_counted_witness:
  "\<exists>rs. running idle_world (\<lambda>_. []) calm_os 1 (quiet_net 1) rs \<and> w_pc rs 0 = W_waiting \<and> m_sleep rs = 1"
proof -
  obtain rs where rs: "one_worker 1 T_wake W_waiting rs" using one_worker_waits by blast
  from workers_sleep_counted [of idle_world "\<lambda>_. []" calm_os 1 "quiet_net 1" rs] rs show ?thesis
    by (intro exI [of _ rs]) (simp add: one_worker_def asleep_def lessThan_Suc)
qed

theorem timer_wakes_sleeper_witness:
  "\<exists>rs rs'. running idle_world (\<lambda>_. []) calm_os 1 (quiet_net 1) rs \<and> w_pc rs 0 = W_waiting
    \<and> timer_step idle_world rs rs' \<and> w_pc rs' 0 = W_relock"
proof -
  obtain rs where rs: "one_worker 1 T_wake W_waiting rs" using one_worker_waits by blast
  from timer_wakes_sleeper [of idle_world "\<lambda>_. []" calm_os 1 "quiet_net 1" rs 0] rs
  obtain rs' where "timer_step idle_world rs rs'" "w_pc rs' = (w_pc rs)(0 := W_relock)" by (auto simp: one_worker_def)
  then show ?thesis using rs by (intro exI [of _ rs] exI [of _ rs']) (simp add: one_worker_def)
qed


end
