(* ===== verification/Skynet_Start.thy ===== *)
theory Skynet_Start
  imports Skynet_Threads
begin

text \<open>
  Starting a node: \<^verbatim>\<open>skynet_start\<close> of \<^verbatim>\<open>skynet-src/skynet_start.c\<close> before and after the threads run, and
  the first services, which \<^verbatim>\<open>skynet_context_new\<close> launches. Shown are what launching a service leaves
  in the node, how \<^verbatim>\<open>bootstrap\<close> cuts its command line, and that start-up leaves a node in order, with the
  logger registered and the first service known to the workers.
\<close>

section \<open>Configuration and start-up\<close>

text \<open>\<^verbatim>\<open>struct skynet_config\<close>, for a process that is not a daemon.\<close>

record skynet_config =
  cf_thread :: nat
  cf_harbor :: i32
  cf_profile :: int
  cf_module_path :: string
  cf_bootstrap :: string
  cf_logger :: "string option"
  cf_logservice :: string

text \<open>
  The words of the command line: \<^verbatim>\<open>sscanf\<close> reads the name behind blanks, but the arguments are looked
  for at the length of the name from the start of the line.
\<close>

definition bootstrap :: "world \<Rightarrow> ptr \<Rightarrow> string \<Rightarrow> node \<Rightarrow> node res" where
  "bootstrap W lg cmdline st =
     bindE (case fst (scan_word cmdline) of None \<Rightarrow> Inl Uninit_Read | Some nm \<Rightarrow> Inr nm) (\<lambda>nm.
     let args = (if length nm < length cmdline then dropWhile (\<lambda>c. c = CHR '' '') (drop (length nm) cmdline) else [])
     in bindE (skynet_context_new W nm (Some args) st) (\<lambda>(st, ctx).
        if ctx = None then
          bindE (skynet_error W None (''Bootstrap error : '' @ cmdline @ [CHR 0x0A]) st) (\<lambda>st.
          bindE (skynet_context_dispatchall W lg st) (\<lambda>_. Inl Exit_Called))
        else Inr st))"

text \<open>
  The globals, in the order of the calls. The arguments are what the new slots of the socket server
  contain and the readings of the two clocks.
\<close>

definition init_globals :: "oscall \<Rightarrow> (nat \<Rightarrow> socket) \<Rightarrow> nat \<times> nat \<Rightarrow> nat \<times> nat \<Rightarrow> skynet_config \<Rightarrow> node \<Rightarrow> net_state res" where
  "init_globals os junk realtime monotonic config st =
     (let st = skynet_harbor_init (cf_harbor config) st;
          st = st\<lparr>handles := skynet_handle_init (cf_harbor config)\<rparr>;
          st = skynet_mq_init st;
          st = st\<lparr>node_modules := skynet_module_init (cf_module_path config)\<rparr>;
          st = st\<lparr>TI := skynet_timer_init realtime monotonic\<rparr>
      in bindE (skynet_socket_init os junk (skynet_now (TI st)) \<lparr>net_node = st, SOCKET_SERVER = None\<rparr>) (\<lambda>ns.
         Inr (ns\<lparr>net_node := skynet_profile_enable (cf_profile config) (net_node ns)\<rparr>)))"

text \<open>The logger, which is named, and the first service.\<close>

definition start_services :: "world \<Rightarrow> skynet_config \<Rightarrow> node \<Rightarrow> node res" where
  "start_services W config st =
     bindE (skynet_context_new W (cf_logservice config) (cf_logger config) st) (\<lambda>(st, ctx).
     case ctx of None \<Rightarrow> Inl Exit_Called
     | Some ctx \<Rightarrow>
         bindE (skynet_context_handle ctx st) (\<lambda>h.
         bindE (skynet_handle_namehandle h ''logger'' (handles st)) (\<lambda>(hs, _).
         bootstrap W ctx (cf_bootstrap config) (st\<lparr>handles := hs\<rparr>))))"

text \<open>\<^verbatim>\<open>skynet_start\<close> up to the threads, with the state in which they begin, and after they have ended.\<close>

definition skynet_start :: "world \<Rightarrow> oscall \<Rightarrow> (nat \<Rightarrow> socket) \<Rightarrow> nat \<times> nat \<Rightarrow> nat \<times> nat \<Rightarrow> skynet_config \<Rightarrow> node \<Rightarrow> run_state res" where
  "skynet_start W os junk realtime monotonic config st =
     bindE (init_globals os junk realtime monotonic config st) (\<lambda>ns.
     bindE (start_services W config (net_node ns)) (\<lambda>st.
     Inr (start (cf_thread config) (ns\<lparr>net_node := st\<rparr>))))"

definition skynet_end :: "world \<Rightarrow> oscall \<Rightarrow> run_state \<Rightarrow> net_state res" where
  "skynet_end W os rs =
     bindE (skynet_harbor_exit W (net_node (net rs))) (\<lambda>st. skynet_socket_free os ((net rs)\<lparr>net_node := st\<rparr>))"

section \<open>Launching a service\<close>

text \<open>A module whose instance is \<open>inst\<close> and whose init function sets the callback and does nothing else.\<close>

definition plain_module :: "world \<Rightarrow> skynet_module \<Rightarrow> ptr \<Rightarrow> ptr option \<Rightarrow> ptr option \<Rightarrow> bool" where
  "plain_module W md inst cb ud \<longleftrightarrow>
     (case sm_create md of None \<Rightarrow> inst = 2 ^ 64 - 1 | Some f \<Rightarrow> \<forall>st. w_create W f st = Inr (st, Some inst))
     \<and> (case sm_init md of None \<Rightarrow> False | Some f \<Rightarrow>
          \<forall>p param st st'. skynet_callback p ud cb st = Inr st' \<longrightarrow> w_init W f inst p param st = Inr (st', 0))"

definition module_found :: "world \<Rightarrow> modules \<Rightarrow> string \<Rightarrow> modules \<Rightarrow> nat \<Rightarrow> bool" where
  "module_found W M0 nm M m \<longleftrightarrow> skynet_module_query (w_dlopen W) (w_dlsym W) M0 nm = Inr (M, Some m) \<and> m < length (mo_m M)"

lemma context_setup_sched:
  assumes "sched_inv st H gl" "context_setup m inst st = Inr (st', p)"
  shows "sched_inv st' (insert (mq_brk st) H) gl"
proof -
  let ?st1 = "st\<lparr>ctxs := (ctxs st)(ctx_brk st \<mapsto> ctx_new m inst (node_profile st)), ctx_brk := Suc (ctx_brk st)\<rparr>"
  from assms(2) obtain hs h where hs: "skynet_handle_register (ctx_handles ?st1) (ctx_brk st) (handles st) = Inr (hs, h)"
    and st': "bindE (upd_ctx (ctx_brk st) (\<lambda>c. c\<lparr>c_handle := h, c_queue := snd (skynet_mq_create (?st1\<lparr>handles := hs\<rparr>) h)\<rparr>)
        (fst (skynet_mq_create (?st1\<lparr>handles := hs\<rparr>) h))) (\<lambda>st4. Inr (context_inc st4, ctx_brk st)) = Inr (st', p)"
    by (auto simp: context_setup_def Let_def case_prod_unfold)
  have "sched_inv (?st1\<lparr>handles := hs\<rparr>) H gl" using assms(1) sched_inv_cong [of "?st1\<lparr>handles := hs\<rparr>" st] by simp
  from sched_create [OF this, of h] have "sched_inv (fst (skynet_mq_create (?st1\<lparr>handles := hs\<rparr>) h)) (insert (mq_brk st) H) gl"
    using mq_create_frame(3) [of "?st1\<lparr>handles := hs\<rparr>" h] by simp
  moreover have "mq_heap st' = mq_heap st3 \<and> mq_brk st' = mq_brk st3 \<and> gq_head st' = gq_head st3 \<and> gq_tail st' = gq_tail st3"
    if "bindE (upd_ctx a f st3) (\<lambda>st4. Inr (context_inc st4, b)) = Inr (st', p)" for a f b st3
    using that by (auto simp: upd_ctx_def context_inc_def)
  ultimately show ?thesis using sched_inv_cong st' by metis
qed

text \<open>Changes that keep the invariant of the node: of a context, of the global queue.\<close>

lemma node_ok_ctx:
  assumes ok: "node_ok st" and p: "ctxs st p = Some c" and c': "c_handle c' = c_handle c" "c_queue c' = c_queue c" "1 \<le> c_ref c'"
  shows "node_ok (st\<lparr>ctxs := (ctxs st)(p \<mapsto> c')\<rparr>)" "node_live (st\<lparr>ctxs := (ctxs st)(p \<mapsto> c')\<rparr>) = node_live st"
proof -
  let ?st = "st\<lparr>ctxs := (ctxs st)(p \<mapsto> c')\<rparr>"
  have ch: "ctx_handles ?st = ctx_handles st" using p c'(1) by (auto simp: ctx_handles_def)
  then show "node_live ?st = node_live st" by (auto simp: node_live_def)
  from ok obtain H gl where inv: "sched_inv st H gl" by (auto simp: node_ok_def)
  then have "sched_inv ?st H gl" using sched_inv_cong [of ?st st] by simp
  then show "node_ok ?st"
  proof (rule node_okI [rotated])
    show "handles_ok (ctx_handles ?st) (handles ?st)" using node_okD(1) [OF ok] ch by simp
    show "own_queues ?st" using node_okD(7) [OF ok] p c'(2) unfolding own_queues_def by (auto split: if_splits)
    fix q d assume "ctxs ?st q = Some d"
    then show "q < ctx_brk ?st \<and> (\<exists>ms. q_view ?st (c_queue d) = Some (c_handle d, False, ms))
        \<and> (Some q \<in> set (slot (handles ?st)) \<longrightarrow> 1 \<le> c_ref d)"
      using node_okD(3-5) [OF ok, of q] node_okD(3-5) [OF ok p] c' by (auto split: if_splits)
  qed (use node_okD(6) [OF ok] in simp)
qed

lemma node_ok_globalmq:
  assumes ok: "node_ok st" and push: "skynet_globalmq_push st q = Inr st'" "sched_inv st' H gl"
  shows "node_ok st'" "node_live st' = node_live st"
proof -
  note v = globalmq_push_frame [OF push(1)]
  note f = node_more_fields [OF v(2)]
  have ch: "ctx_handles st' = ctx_handles st" using f(1) by (simp add: ctx_handles_def [abs_def])
  then show "node_live st' = node_live st" using f by (auto simp: node_live_def)
  show "node_ok st'"
    using node_okD [OF ok] f v ch own_queues_same [of st' st] by (intro node_okI [OF _ push(2)]) auto
qed

text \<open>Where the queues are after a message was pushed.\<close>

lemma context_push_sched:
  assumes ok: "node_ok st" and inv: "sched_inv st H gl" and p: "node_live st h = Some p" "ctxs st p = Some c"
    and push: "skynet_context_push W h m st = Inr (st', r)"
  shows "\<exists>gl'. sched_inv st' H (gl @ gl')"
proof -
  obtain c' where "ctxs st p = Some c'" "c_handle c' = h" "Some p \<in> set (slot (handles st))"
    using node_live_ctx [OF ok p(1)] .
  then have c: "c_handle c = h" "1 \<le> c_ref c" using p(2) node_okD(5) [OF ok p(2)] by auto
  let ?st1 = "st\<lparr>ctxs := (ctxs st)(p \<mapsto> c\<lparr>c_ref := c_ref c + 1\<rparr>)\<rparr>"
  from node_okD(4) [OF ok p(2)] c(1) obtain ms where ms: "q_view st (c_queue c) = Some (h, False, ms)" by auto
  have inv1: "sched_inv ?st1 H gl" using inv sched_inv_cong [of ?st1 st] by simp
  from q_view_heap [OF ms inv] obtain mq where mq: "mq_heap ?st1 (c_queue c) = Some mq" "\<not> mq_release mq" "mq_wf mq" by auto
  from sched_mq_push [OF inv1 mq(1,2), of m] obtain st2 where
    st2: "skynet_mq_push ?st1 (c_queue c) m = Inr st2" "sched_inv st2 H (if mq_in_global mq then gl else gl @ [c_queue c])" by blast
  note f = node_more_fields [OF mq_push_frame(2) [OF mq(1,3) st2(1)]]
  have "skynet_context_push W h m st = Inr (st2\<lparr>ctxs := (ctxs st)(p \<mapsto> c)\<rparr>, 0)"
    using p node_okD(2) [OF ok] st2(1) f(1) c(2)
    by (simp add: skynet_context_push_def skynet_handle_grab_def handle_grab_live node_live_def
      skynet_context_grab_def upd_ctx_def skynet_context_release_def)
  then have "sched_inv st' H (if mq_in_global mq then gl else gl @ [c_queue c])"
    using st2(2) push sched_inv_cong [of st' st2] by auto
  then show ?thesis by (cases "mq_in_global mq") (auto intro: exI [of _ "[]"] exI [of _ "[c_queue c]"])
qed

text \<open>The node when the init function has returned, before the log line is sent.\<close>

lemma node_ok_modules: "node_ok (st\<lparr>node_modules := M\<rparr>) = node_ok st" "node_live (st\<lparr>node_modules := M\<rparr>) = node_live st"
  "q_view (st\<lparr>node_modules := M\<rparr>) = q_view st" "sched_inv (st\<lparr>node_modules := M\<rparr>) H gl = sched_inv st H gl"
proof -
  show s: "sched_inv (st\<lparr>node_modules := M\<rparr>) H gl = sched_inv st H gl" for H gl by (rule sched_inv_cong) simp_all
  show v: "q_view (st\<lparr>node_modules := M\<rparr>) = q_view st" by (simp add: q_view_def [abs_def])
  have ch: "ctx_handles (st\<lparr>node_modules := M\<rparr>) = ctx_handles st" by (simp add: ctx_handles_def [abs_def])
  then show "node_live (st\<lparr>node_modules := M\<rparr>) = node_live st" by (auto simp: node_live_def)
  show "node_ok (st\<lparr>node_modules := M\<rparr>) = node_ok st" by (simp add: node_ok_def s v ch own_queues_def)
qed

lemma context_setup_frame:
  assumes "context_setup m inst st = Inr (st', p)"
  shows "logger st' = logger st" "mem_brk st' = mem_brk st"
    "\<exists>ch c. skynet_handle_register ch (ctx_brk st) (handles st) = Inr (handles st', c_handle c) \<and> ctxs st' (ctx_brk st) = Some c"
proof -
  let ?st1 = "st\<lparr>ctxs := (ctxs st)(ctx_brk st \<mapsto> ctx_new m inst (node_profile st)), ctx_brk := Suc (ctx_brk st)\<rparr>"
  from assms obtain hs h c f where st': "st' = context_inc ((fst (skynet_mq_create (?st1\<lparr>handles := hs\<rparr>) h))\<lparr>ctxs := f\<rparr>)"
      "f (ctx_brk st) = Some c" "c_handle c = h" "skynet_handle_register (ctx_handles ?st1) (ctx_brk st) (handles st) = Inr (hs, h)"
    by (auto simp: context_setup_def Let_def case_prod_unfold upd_ctx_def)
  note more = node_more_fields [OF mq_create_frame(2) [of "?st1\<lparr>handles := hs\<rparr>" h]]
  show "logger st' = logger st" "mem_brk st' = mem_brk st" using st'(1) more(4,8) by (simp_all add: context_inc_def)
  show "\<exists>ch c. skynet_handle_register ch (ctx_brk st) (handles st) = Inr (handles st', c_handle c) \<and> ctxs st' (ctx_brk st) = Some c"
    using st' more(5) by (intro exI [of _ "ctx_handles ?st1"] exI [of _ c]) (simp add: context_inc_def)
qed

text \<open>The line that is logged about the service.\<close>

definition launch_line :: "string \<Rightarrow> string \<Rightarrow> string" where
  "launch_line nm args = ''LAUNCH '' @ nm @ '' '' @ args"

text \<open>The step of the handle table.\<close>

definition entered :: "ptr \<Rightarrow> handle_storage \<Rightarrow> handle_storage \<Rightarrow> u32 \<Rightarrow> bool" where
  "entered p hs hs' h \<longleftrightarrow> (\<exists>ch. skynet_handle_register ch p hs = Inr (hs', h))"

lemma launch_ok:
  assumes ok: "node_ok st" and inv: "sched_inv st H gl" and can: "can_register (handles st)"
    and md: "module_found W (node_modules st) nm M m" "plain_module W (mo_m M ! m) inst cb ud"
  obtains st' h c where
    "skynet_context_new W nm param st = bindE (skynet_error W (Some (ctx_brk st))
       (launch_line nm (case param of None \<Rightarrow> [] | Some a \<Rightarrow> a)) st') (\<lambda>s. Inr (s, Some (ctx_brk st)))"
    "node_ok st'" "node_live st h = None" "node_live st' = (node_live st)(h \<mapsto> ctx_brk st)"
    "ctxs st' = (ctxs st)(ctx_brk st \<mapsto> c)" "c_init c" "c_cb c = cb" "c_cb_ud c = ud" "c_ref c = 1" "c_handle c = h"
    "c_queue c = mq_brk st" "q_view st' = (q_view st)(mq_brk st \<mapsto> (h, False, []))" "mem st' = mem st" "logger st' = logger st"
    "node_total st' = node_total st + 1" "sched_inv st' (H - {mq_brk st}) (gl @ [mq_brk st])"
    "mem_brk st' = mem_brk st" "node_modules st' = M" "entered (ctx_brk st) (handles st) (handles st') h"
proof -
  let ?st0 = "st\<lparr>node_modules := M\<rparr>" and ?p = "ctx_brk st" and ?q = "mq_brk st"
  have q: "node_module_query W nm st = Inr (?st0, Some m)" using md(1) by (simp add: node_module_query_def module_found_def)
  have m: "nthE (mo_m M) m = Inr (mo_m M ! m)" using md(1) by (simp add: module_found_def nthE_def)
  have cr: "skynet_module_instance_create W m ?st0 = Inr (?st0, Some inst)"
    using md(2) m by (auto simp: skynet_module_instance_create_def plain_module_def split: option.splits)
  have ok0: "node_ok ?st0" "can_register (handles ?st0)" "sched_inv ?st0 H gl"
    using ok can inv by (simp_all add: node_ok_modules)
  from context_setup_ok [OF ok0(1,2), of m inst] obtain st1 h c where
    st1: "context_setup m inst ?st0 = Inr (st1, ?p)" "node_ok st1" "h AND HANDLE_MASK \<noteq> 0" "h AND NOT HANDLE_MASK = harbor (handles st)"
      "node_live st h = None" "node_live st1 = (node_live st)(h \<mapsto> ?p)" "ctxs st1 = (ctxs st)(?p \<mapsto> c)"
      "c_ref c = 2" "c_handle c = h" "c_queue c = ?q" "node_modules st1 = M" "q_view st1 = (q_view st)(?q \<mapsto> (h, False, []))"
      "node_total st1 = node_total st + 1" "mem st1 = mem st"
    by (auto simp: node_ok_modules)
  have lg: "logger st1 = logger st" "mem_brk st1 = mem_brk st" using context_setup_frame [OF st1(1)] by simp_all
  have reg: "entered ?p (handles st) (handles st1) h"
    using context_setup_frame(3) [OF st1(1)] st1(7,9) by (auto simp: entered_def)
  have sch: "sched_inv st1 (insert ?q H) gl" using context_setup_sched [OF ok0(3) st1(1)] by simp
  define c2 where "c2 = c\<lparr>c_cb := cb, c_cb_ud := ud\<rparr>"
  define c4 where "c4 = c2\<lparr>c_ref := 1, c_init := True\<rparr>"
  have "skynet_callback ?p ud cb st1 = Inr (st1\<lparr>ctxs := (ctxs st)(?p \<mapsto> c2)\<rparr>)"
    using st1(7) by (simp add: skynet_callback_def upd_ctx_def c2_def)
  then have init: "skynet_module_instance_init W m inst ?p param st1 = Inr (st1\<lparr>ctxs := (ctxs st)(?p \<mapsto> c2)\<rparr>, 0)"
    using md(2) m st1(11) by (auto simp: skynet_module_instance_init_def plain_module_def split: option.splits)
  let ?st3 = "st1\<lparr>ctxs := (ctxs st)(?p \<mapsto> c4)\<rparr>"
  have eq3: "?st3 = st1\<lparr>ctxs := (ctxs st1)(?p \<mapsto> c4)\<rparr>" by (simp add: st1(7))
  have ok3: "node_ok ?st3" "node_live ?st3 = node_live st1"
    using node_ok_ctx [OF st1(2), of ?p c c4] st1(7) unfolding eq3 by (simp_all add: c4_def c2_def)
  have sch3: "sched_inv ?st3 (insert ?q H) gl" using sch sched_inv_cong [of ?st3 st1] by simp
  from sched_held [OF sch3, of ?q] obtain mq where mq: "mq_heap ?st3 ?q = Some mq" "mq_in_global mq \<or> mq_release mq" "?q \<notin> set gl" by auto
  from sched_push [OF sch3 mq(3,1,2)] obtain st4 where
    st4: "skynet_globalmq_push ?st3 ?q = Inr st4" "sched_inv st4 (insert ?q H - {?q}) (gl @ [?q])" by blast
  note f = node_more_fields [OF globalmq_push_frame(2) [OF st4(1)]] and ok4 = node_ok_globalmq [OF ok3(1) st4]
  have "skynet_context_new W nm param st = bindE (skynet_error W (Some ?p)
       (launch_line nm (case param of None \<Rightarrow> [] | Some a \<Rightarrow> a)) st4) (\<lambda>st. Inr (st, Some ?p))"
    using q cr st1(1,7,8,10) init st4(1)
    by (simp add: skynet_context_new_def skynet_context_release_def upd_ctx_def c4_def c2_def launch_line_def)
  moreover have "insert ?q H - {?q} = H - {?q}" by auto
  ultimately show thesis
    using that [of st4 h c4] ok4 ok3 st1(3-14) f st4(2) globalmq_push_frame(1) [OF st4(1)] lg reg by (simp add: c4_def c2_def)
qed

definition text_message :: "u32 \<Rightarrow> ptr \<Rightarrow> string \<Rightarrow> skynet_message" where
  "text_message source d line = \<lparr>msg_source = source, msg_session = 0, msg_data = Some d,
     msg_sz = of_nat (length line) OR push_bit MESSAGE_TYPE_SHIFT (ucast PTYPE_TEXT)\<rparr>"

lemma error_logged:
  assumes ok: "node_ok st" and inv: "sched_inv st H gl" and lg: "logger st \<noteq> 0" "node_live st (logger st) = Some pl" "ctxs st pl = Some cl"
    and p: "ctxs st p = Some c"
  obtains st' gl' where "skynet_error W (Some p) line st = Inr st'" "node_ok st'"
    "q_view st' = (q_view st)(c_queue cl \<mapsto> (logger st, False, waiting st (c_queue cl) @ [text_message (c_handle c) (mem_brk st) line]))"
    "mem st' = (mem st)(mem_brk st \<mapsto> Bytes (map of_char line @ [0]))" "ctxs st' = ctxs st" "handles st' = handles st"
    "node_total st' = node_total st" "logger st' = logger st" "sched_inv st' H (gl @ gl')"
proof -
  let ?st = "st\<lparr>mem := (mem st)(mem_brk st \<mapsto> Bytes (map of_char line @ [0])), mem_brk := Suc (mem_brk st)\<rparr>"
  have ok1: "node_ok ?st" using node_okD(6) [OF ok] by (intro node_ok_mem [OF ok]) auto
  have l1: "node_live ?st (logger st) = Some pl" "ctxs ?st pl = Some cl" using lg by (simp_all add: node_live_def ctx_handles_def [abs_def])
  have inv1: "sched_inv ?st H gl" using inv sched_inv_cong [of ?st st] by simp
  obtain st' where st': "skynet_context_push W (logger st) (text_message (c_handle c) (mem_brk st) line) ?st = Inr (st', 0)" "node_ok st'"
    "q_view st' = (q_view ?st)(c_queue cl \<mapsto> (logger st, False, waiting ?st (c_queue cl) @ [text_message (c_handle c) (mem_brk st) line]))"
    "mq_state.more st' = mq_state.more ?st"
    using context_push_live [OF ok1 l1] .
  from context_push_sched [OF ok1 inv1 l1 st'(1)] obtain gl' where "sched_inv st' H (gl @ gl')" ..
  moreover have "skynet_error W (Some p) line st = Inr st'"
    using lg(1) p st'(1) by (simp add: skynet_error_def mem_alloc_def skynet_context_handle_def text_message_def)
  moreover have "waiting ?st = waiting st" by (simp add: waiting_def [abs_def])
  ultimately show thesis using that [of st' gl'] st' node_more_fields [OF st'(4)] by simp
qed


section \<open>The command line of the first service\<close>

text \<open>The name and the arguments behind it, whatever the number of blanks between them.\<close>

lemma bootstrap_cuts:
  assumes "nm \<noteq> []" "\<forall>c \<in> set nm. \<not> isspace c" "args = [] \<or> hd args \<noteq> CHR '' ''"
  shows "bootstrap W lg (nm @ replicate (Suc k) (CHR '' '') @ args) st =
    bindE (skynet_context_new W nm (Some args) st) (\<lambda>(st, ctx).
      if ctx = None then
        bindE (skynet_error W None (''Bootstrap error : '' @ (nm @ replicate (Suc k) (CHR '' '') @ args) @ [CHR 0x0A]) st) (\<lambda>st.
        bindE (skynet_context_dispatchall W lg st) (\<lambda>_. Inl Exit_Called))
      else Inr st)"
proof -
  have w: "fst (scan_word (nm @ replicate (Suc k) (CHR '' '') @ args)) = Some nm"
    using scan_word_first [OF assms(1,2), of "replicate k (CHR '' '') @ args"] by simp
  have "dropWhile (\<lambda>c. c = CHR '' '') (replicate n (CHR '' '') @ args) = args" for n
    using assms(3) by (induction n) (cases args, auto)
  then have "dropWhile (\<lambda>c. c = CHR '' '') (drop (length nm) (nm @ replicate (Suc k) (CHR '' '') @ args)) = args"
    by (simp only: drop_append) simp
  then show ?thesis unfolding bootstrap_def w by (simp add: Let_def)
qed

text \<open>
  With a blank in front, the place of the arguments is off by one: they begin with the last character
  of the name.
\<close>

lemma bootstrap_blank_in_front:
  assumes "nm = w @ [x]" "\<forall>c \<in> set nm. \<not> isspace c"
  shows "bootstrap W lg (CHR '' '' # nm @ CHR '' '' # args) st =
    bindE (skynet_context_new W nm (Some (x # CHR '' '' # args)) st) (\<lambda>(st, ctx).
      if ctx = None then
        bindE (skynet_error W None (''Bootstrap error : '' @ (CHR '' '' # nm @ CHR '' '' # args) @ [CHR 0x0A]) st) (\<lambda>st.
        bindE (skynet_context_dispatchall W lg st) (\<lambda>_. Inl Exit_Called))
      else Inr st)"
proof -
  have "isspace (CHR '' '')" by (simp add: isspace_def byte_of_def)
  then have "scan_word (CHR '' '' # nm @ CHR '' '' # args) = scan_word (nm @ CHR '' '' # args)" by (simp add: scan_word_def)
  then have w: "fst (scan_word (CHR '' '' # nm @ CHR '' '' # args)) = Some nm"
    using scan_word_first [of nm args] assms by simp
  have "x \<noteq> CHR '' ''" using assms \<open>isspace (CHR '' '')\<close> by auto
  then have "dropWhile (\<lambda>c. c = CHR '' '') (drop (length nm) (CHR '' '' # nm @ CHR '' '' # args)) = x # CHR '' '' # args"
    by (simp add: assms(1))
  then show ?thesis unfolding bootstrap_def w by (simp add: Let_def)
qed

section \<open>What start-up leaves for the threads\<close>

lemma register_first:
  "skynet_handle_register ch p (skynet_handle_init hb) = Inr ((skynet_handle_init hb)\<lparr>slot := [None, Some p, None, None], handle_index := 2\<rparr>,
     push_bit HANDLE_REMOTE_SHIFT (hb AND 0xff) OR 1)"
  by (simp add: skynet_handle_init_def DEFAULT_SLOT_SIZE_def numeral_eq_Suc table_eval or.commute)

text \<open>A process that has only set up its globals (\<^verbatim>\<open>skynet_globalinit\<close>) and its environment.\<close>

definition fresh_node :: "node \<Rightarrow> bool" where
  "fresh_node st \<longleftrightarrow> mq_heap st = (\<lambda>_. None) \<and> ctxs st = (\<lambda>_. None) \<and> mem st = (\<lambda>_. None) \<and> logger st = 0 \<and> node_total st = 0"

lemma init_globals_ok:
  assumes fresh: "fresh_node st" and ss: "socket_server_create os junk (skynet_now (skynet_timer_init realtime monotonic)) = Inr (Some ss)"
  obtains st0 where "init_globals os junk realtime monotonic config st = Inr \<lparr>net_node = st0, SOCKET_SERVER = Some ss\<rparr>"
    "node_ok st0" "sched_inv st0 {} []" "handles st0 = skynet_handle_init (cf_harbor config)"
    "node_modules st0 = skynet_module_init (cf_module_path config)" "node_live st0 = (\<lambda>_. None)" "ctxs st0 = (\<lambda>_. None)"
    "q_view st0 = (\<lambda>_. None)" "mem st0 = (\<lambda>_. None)" "logger st0 = 0" "node_total st0 = 0"
proof -
  define st1 where "st1 = (skynet_mq_init ((skynet_harbor_init (cf_harbor config) st)\<lparr>handles := skynet_handle_init (cf_harbor config)\<rparr>))
    \<lparr>node_modules := skynet_module_init (cf_module_path config), TI := skynet_timer_init realtime monotonic\<rparr>"
  define st0 where "st0 = skynet_profile_enable (cf_profile config) st1"
  have "TI st1 = skynet_timer_init realtime monotonic" by (simp add: st1_def)
  then have init: "init_globals os junk realtime monotonic config st = Inr \<lparr>net_node = st0, SOCKET_SERVER = Some ss\<rparr>"
    using ss by (simp add: init_globals_def Let_def st1_def [symmetric] st0_def skynet_socket_init_def)
  have f: "handles st0 = skynet_handle_init (cf_harbor config)" "node_modules st0 = skynet_module_init (cf_module_path config)"
    "ctxs st0 = (\<lambda>_. None)" "mem st0 = (\<lambda>_. None)" "mq_heap st0 = (\<lambda>_. None)" "gq_head st0 = None" "gq_tail st0 = None"
    "logger st0 = 0" "node_total st0 = 0"
    using fresh by (simp_all add: st0_def st1_def skynet_profile_enable_def skynet_mq_init_def skynet_harbor_init_def fresh_node_def)
  have s: "sched_inv st0 {} []" using f by (simp add: sched_inv_def gq_repr_def)
  moreover have "node_ok st0"
    using init_handles_ok [of "ctx_handles st0" "cf_harbor config"] f by (intro node_okI [OF _ s]) (auto simp: own_queues_def)
  moreover have "node_live st0 = (\<lambda>_. None)" using init_live f(1) by (simp add: fun_eq_iff node_live_def)
  moreover have "q_view st0 = (\<lambda>_. None)" using f(5) by (simp add: q_view_def [abs_def])
  ultimately show thesis using init f that [of st0] by simp
qed

text \<open>Giving a name changes nothing but the names.\<close>

lemma node_ok_names:
  assumes ok: "node_ok st" and hs: "names_ok hs" "slot hs = slot (handles st)" "harbor hs = harbor (handles st)"
    "handle_index hs = handle_index (handles st)"
  shows "node_ok (st\<lparr>handles := hs\<rparr>)" "node_live (st\<lparr>handles := hs\<rparr>) = node_live st"
proof -
  let ?st = "st\<lparr>handles := hs\<rparr>"
  have ch: "ctx_handles ?st = ctx_handles st" by (simp add: ctx_handles_def [abs_def])
  then show "node_live ?st = node_live st" using hs(2) by (intro ext) (simp add: node_live_def Handle_Storage.live_def slot_size_def)
  from ok obtain H gl where "sched_inv st H gl" by (auto simp: node_ok_def)
  then have "sched_inv ?st H gl" using sched_inv_cong [of ?st st] by simp
  then show "node_ok ?st"
    using node_okD [OF ok] hs ch own_queues_same [of ?st st] by (intro node_okI) (auto simp: handles_ok_def)
qed

text \<open>The first line for the logger: its handle is looked up and kept.\<close>

lemma error_looks_up:
  assumes "logger st = 0" "skynet_handle_findname ''logger'' (handles st) = Inr h"
  shows "skynet_error W ctx line st = (if h = 0 then Inr st else skynet_error W ctx line (st\<lparr>logger := h\<rparr>))"
proof -
  have "st\<lparr>logger := 0\<rparr> = st" using assms(1) by (cases st) simp
  then show ?thesis using assms by (simp add: skynet_error_def)
qed

lemma node_ok_logger: "node_ok (st\<lparr>logger := h\<rparr>) = node_ok st" "node_live (st\<lparr>logger := h\<rparr>) = node_live st"
  "sched_inv (st\<lparr>logger := h\<rparr>) H gl = sched_inv st H gl" "waiting (st\<lparr>logger := h\<rparr>) = waiting st"
proof -
  show s: "sched_inv (st\<lparr>logger := h\<rparr>) H gl = sched_inv st H gl" for H gl by (rule sched_inv_cong) simp_all
  have ch: "ctx_handles (st\<lparr>logger := h\<rparr>) = ctx_handles st" by (simp add: ctx_handles_def [abs_def])
  then show "node_live (st\<lparr>logger := h\<rparr>) = node_live st" by (intro ext) (simp add: node_live_def)
  show "node_ok (st\<lparr>logger := h\<rparr>) = node_ok st" by (simp add: node_ok_def s ch own_queues_def)
  show "waiting (st\<lparr>logger := h\<rparr>) = waiting st" by (simp add: waiting_def [abs_def])
qed

text \<open>Registering a service leaves the names alone.\<close>

lemma register_loop_names:
  "register_loop ch p s = Some (Inr (s', h)) \<Longrightarrow> name s' = name s \<and> name_count s' = name_count s"
proof -
  have "(\<forall>s' h. r = Inr (s', h) \<longrightarrow> name s' = name s \<and> name_count s' = name_count s)" if "register_loop ch p s = Some r" for r
    using that
  proof (rule register_loop.raw_induct [where P = "\<lambda>ch p s r. \<forall>s' h. r = Inr (s', h) \<longrightarrow> name s' = name s \<and> name_count s' = name_count s", rotated])
    fix f ch ctx s r
    assume IH: "\<And>ch ctx s r. f ch ctx s = Some r \<Longrightarrow> \<forall>s' h. r = Inr (s', h) \<longrightarrow> name s' = name s \<and> name_count s' = name_count s"
      and step: "(case register_scan (slot s) (slot_size s) (handle_index s) of
        None \<Rightarrow> if slot_size s * 2 - 1 \<le> unat HANDLE_MASK then
            case rehash ch (slot s) (replicate (slot_size s * 2) None) of
              Inl e \<Rightarrow> Some (Inl e) | Inr new_slot \<Rightarrow> f ch ctx (s\<lparr>slot := new_slot\<rparr>)
          else Some (Inl Assert_Failed)
      | Some handle \<Rightarrow> Some (Inr (s\<lparr>slot := (slot s)[hash_of handle (slot_size s) := Some ctx],
            handle_index := handle + 1\<rparr>, handle OR harbor s))) = Some r"
    show "\<forall>s' h. r = Inr (s', h) \<longrightarrow> name s' = name s \<and> name_count s' = name_count s"
      using step IH [of ch ctx "s\<lparr>slot := _\<rparr>"] by (auto split: option.splits sum.splits if_splits)
  qed
  then show "register_loop ch p s = Some (Inr (s', h)) \<Longrightarrow> name s' = name s \<and> name_count s' = name_count s" by blast
qed

lemma entered_names: "entered p hs hs' h \<Longrightarrow> named hs' = named hs"
  using register_loop_names [of _ p hs hs' h] by (fastforce simp: entered_def skynet_handle_register_def named_def split: option.splits)

text \<open>The logger is launched and named; nobody hears of it.\<close>

lemma logger_launched:
  assumes ok: "node_ok st" "sched_inv st {} []" and fresh: "handles st = skynet_handle_init hb" "logger st = 0"
    and md: "module_found W (node_modules st) nm M m" "plain_module W (mo_m M ! m) inst cb ud"
  obtains st1 h c hs where "skynet_context_new W nm param st = Inr (st1, Some (ctx_brk st))" "skynet_context_handle (ctx_brk st) st1 = Inr h"
    "skynet_handle_namehandle h ''logger'' (handles st1) = Inr (hs, Some ''logger'')"
    "node_ok (st1\<lparr>handles := hs\<rparr>)" "node_live (st1\<lparr>handles := hs\<rparr>) = (node_live st)(h \<mapsto> ctx_brk st)" "named hs = [''logger'' \<mapsto> h]"
    "names_ok hs" "can_register hs" "h \<noteq> 0"
    "ctxs st1 = (ctxs st)(ctx_brk st \<mapsto> c)" "c_init c" "c_cb c = cb" "c_ref c = 1" "c_handle c = h" "c_queue c = mq_brk st"
    "q_view st1 = (q_view st)(mq_brk st \<mapsto> (h, False, []))" "mem st1 = mem st" "logger st1 = 0" "node_total st1 = node_total st + 1"
    "sched_inv st1 {} [mq_brk st]" "node_modules st1 = M"
proof -
  have can: "can_register (handles st)"
    unfolding fresh(1) by (auto simp: can_register_def skynet_handle_init_def slot_size_def DEFAULT_SLOT_SIZE_def intro!: exI [of _ 1])
  obtain st1 h c where
    new: "skynet_context_new W nm param st = bindE (skynet_error W (Some (ctx_brk st)) (launch_line nm (case param of None \<Rightarrow> [] | Some a \<Rightarrow> a)) st1)
      (\<lambda>s. Inr (s, Some (ctx_brk st)))"
    and st1: "node_ok st1" "node_live st1 = (node_live st)(h \<mapsto> ctx_brk st)"
    "ctxs st1 = (ctxs st)(ctx_brk st \<mapsto> c)" "c_init c" "c_cb c = cb" "c_cb_ud c = ud" "c_ref c = 1" "c_handle c = h"
    "c_queue c = mq_brk st" "q_view st1 = (q_view st)(mq_brk st \<mapsto> (h, False, []))" "mem st1 = mem st" "logger st1 = logger st"
    "node_total st1 = node_total st + 1" "sched_inv st1 ({} - {mq_brk st}) ([] @ [mq_brk st])" "node_modules st1 = M"
    "entered (ctx_brk st) (handles st) (handles st1) h"
    by (rule launch_ok [OF ok can md, of param]) (rule that)
  from st1(16) fresh(1) have hs1: "handles st1 = (skynet_handle_init hb)\<lparr>slot := [None, Some (ctx_brk st), None, None], handle_index := 2\<rparr>"
    "h = push_bit HANDLE_REMOTE_SHIFT (hb AND 0xff) OR 1"
    by (auto simp: entered_def register_first)
  have names: "names_ok (handles st1)" "named (handles st1) = (\<lambda>_. None)" "name_count (handles st1) < name_cap (handles st1)"
    using node_okD(1) [OF st1(1)] by (simp_all add: handles_ok_def) (simp_all add: hs1 skynet_handle_init_def named_def name_cap_def)
  have "skynet_handle_findname ''logger'' (handles st1) = Inr 0" using findname_ok [OF names(1)] names(2) by simp
  then have new': "skynet_context_new W nm param st = Inr (st1, Some (ctx_brk st))"
    using new error_looks_up [of st1 0] st1(12) fresh(2) by simp
  from namehandle_ok [OF names(1) disjI1 [OF names(3)], of h "''logger''"] names(2) obtain hs where
    hs: "skynet_handle_namehandle h ''logger'' (handles st1) = Inr (hs, Some ''logger'')" "names_ok hs" "slot hs = slot (handles st1)"
      "harbor hs = harbor (handles st1)" "handle_index hs = handle_index (handles st1)" "named hs = [''logger'' \<mapsto> h]" by auto
  have "can_register hs"
    using hs(3) unfolding can_register_def by (intro disjI1 bexI [of _ 2]) (simp_all add: hs1 slot_size_def)
  moreover have "node_live st1 h = Some (ctx_brk st)" using st1(2) by simp
  then obtain "h AND HANDLE_MASK \<noteq> 0" using node_live_ctx [OF st1(1)] by metis
  then have "h \<noteq> 0" by auto
  moreover have "skynet_context_handle (ctx_brk st) st1 = Inr h" using st1(3,8) by (simp add: skynet_context_handle_def)
  moreover have "node_live (st1\<lparr>handles := hs\<rparr>) = (node_live st)(h \<mapsto> ctx_brk st)"
    using node_ok_names(2) [OF st1(1) hs(2-5)] st1(2) by simp
  moreover have "sched_inv st1 {} [mq_brk st]" using st1(14) by simp
  moreover have "logger st1 = 0" using st1(12) fresh(2) by simp
  ultimately show thesis
    by (intro that [OF new' _ hs(1) node_ok_names(1) [OF st1(1) hs(2-5)] _ hs(6,2) _ _ st1(3-5,7-11) _ st1(13) _ st1(15)])
qed


text \<open>The witnesses: every library opens, with one function under every name, and the init function sets a callback.\<close>

definition one_library :: world where
  "one_library = idle_world\<lparr>w_dlopen := (\<lambda>_. Some 1), w_dlsym := (\<lambda>_ _. Some 2), w_create := (\<lambda>_ st. Inr (st, Some 5)),
     w_init := (\<lambda>_ _ p _ st. bindE (skynet_callback p None (Some 3) st) (\<lambda>st. Inr (st, 0)))\<rparr>"

definition library_module :: "string \<Rightarrow> skynet_module" where
  "library_module nm = \<lparr>sm_name = nm, sm_module = 1, sm_create = Some 2, sm_init = Some 2, sm_release = Some 2, sm_signal = Some 2\<rparr>"

lemma library_plain: "plain_module one_library (library_module nm) 5 (Some 3) None"
  by (simp add: plain_module_def library_module_def one_library_def)

lemma library_found: "module_found one_library (skynet_module_init ''./?.so'') ''logger''
    \<lparr>mo_path = ''./?.so'', mo_m = [library_module ''logger'']\<rparr> 0"
  "module_found one_library \<lparr>mo_path = ''./?.so'', mo_m = [library_module ''logger'']\<rparr> ''snlua''
    \<lparr>mo_path = ''./?.so'', mo_m = [library_module ''logger'', library_module ''snlua'']\<rparr> 1"
  by (simp_all add: module_found_def skynet_module_query_def module_query_def skynet_module_init_def MAX_MODULE_TYPE_def one_library_def
      try_open_def try_open_loop_eq path_entries.simps expand_entry_def open_sym_def get_api_def Let_def library_module_def)

definition demo_config :: skynet_config where
  "demo_config = \<lparr>cf_thread = 8, cf_harbor = 1, cf_profile = 1, cf_module_path = ''./?.so'', cf_bootstrap = ''snlua bootstrap'',
     cf_logger = None, cf_logservice = ''logger''\<rparr>"



end
