(* ===== verification/Crypt_Des.thy ===== *)
theory Crypt_Des
  imports C_Text
begin

text \<open>
  DES as \<^verbatim>\<open>lualib-src/lua-crypt.c\<close> has it: the S-boxes, the key schedule, the block function, the two
  paddings, and \<^verbatim>\<open>desencode\<close> and \<^verbatim>\<open>desdecode\<close>. A Lua string is a list of bytes, a raised Lua error the
  fault \<open>Lua_Error\<close>; the loops count with an \<^verbatim>\<open>int\<close>, so the model is of strings shorter than \<open>2 ^ 31\<close>
  bytes. The properties: decoding undoes encoding for every key, text and padding mode, and the
  removal of the second padding can read before the start of its buffer.
\<close>

unbundle bit_operations_syntax

section \<open>Tables\<close>

definition SB1 :: "u32 list" where
  "SB1 = [
     0x01010400, 0x00000000, 0x00010000, 0x01010404, 0x01010004, 0x00010404,
     0x00000004, 0x00010000, 0x00000400, 0x01010400, 0x01010404, 0x00000400,
     0x01000404, 0x01010004, 0x01000000, 0x00000004, 0x00000404, 0x01000400,
     0x01000400, 0x00010400, 0x00010400, 0x01010000, 0x01010000, 0x01000404,
     0x00010004, 0x01000004, 0x01000004, 0x00010004, 0x00000000, 0x00000404,
     0x00010404, 0x01000000, 0x00010000, 0x01010404, 0x00000004, 0x01010000,
     0x01010400, 0x01000000, 0x01000000, 0x00000400, 0x01010004, 0x00010000,
     0x00010400, 0x01000004, 0x00000400, 0x00000004, 0x01000404, 0x00010404,
     0x01010404, 0x00010004, 0x01010000, 0x01000404, 0x01000004, 0x00000404,
     0x00010404, 0x01010400, 0x00000404, 0x01000400, 0x01000400, 0x00000000,
     0x00010004, 0x00010400, 0x00000000, 0x01010004]"

definition SB2 :: "u32 list" where
  "SB2 = [
     0x80108020, 0x80008000, 0x00008000, 0x00108020, 0x00100000, 0x00000020,
     0x80100020, 0x80008020, 0x80000020, 0x80108020, 0x80108000, 0x80000000,
     0x80008000, 0x00100000, 0x00000020, 0x80100020, 0x00108000, 0x00100020,
     0x80008020, 0x00000000, 0x80000000, 0x00008000, 0x00108020, 0x80100000,
     0x00100020, 0x80000020, 0x00000000, 0x00108000, 0x00008020, 0x80108000,
     0x80100000, 0x00008020, 0x00000000, 0x00108020, 0x80100020, 0x00100000,
     0x80008020, 0x80100000, 0x80108000, 0x00008000, 0x80100000, 0x80008000,
     0x00000020, 0x80108020, 0x00108020, 0x00000020, 0x00008000, 0x80000000,
     0x00008020, 0x80108000, 0x00100000, 0x80000020, 0x00100020, 0x80008020,
     0x80000020, 0x00100020, 0x00108000, 0x00000000, 0x80008000, 0x00008020,
     0x80000000, 0x80100020, 0x80108020, 0x00108000]"

definition SB3 :: "u32 list" where
  "SB3 = [
     0x00000208, 0x08020200, 0x00000000, 0x08020008, 0x08000200, 0x00000000,
     0x00020208, 0x08000200, 0x00020008, 0x08000008, 0x08000008, 0x00020000,
     0x08020208, 0x00020008, 0x08020000, 0x00000208, 0x08000000, 0x00000008,
     0x08020200, 0x00000200, 0x00020200, 0x08020000, 0x08020008, 0x00020208,
     0x08000208, 0x00020200, 0x00020000, 0x08000208, 0x00000008, 0x08020208,
     0x00000200, 0x08000000, 0x08020200, 0x08000000, 0x00020008, 0x00000208,
     0x00020000, 0x08020200, 0x08000200, 0x00000000, 0x00000200, 0x00020008,
     0x08020208, 0x08000200, 0x08000008, 0x00000200, 0x00000000, 0x08020008,
     0x08000208, 0x00020000, 0x08000000, 0x08020208, 0x00000008, 0x00020208,
     0x00020200, 0x08000008, 0x08020000, 0x08000208, 0x00000208, 0x08020000,
     0x00020208, 0x00000008, 0x08020008, 0x00020200]"

definition SB4 :: "u32 list" where
  "SB4 = [
     0x00802001, 0x00002081, 0x00002081, 0x00000080, 0x00802080, 0x00800081,
     0x00800001, 0x00002001, 0x00000000, 0x00802000, 0x00802000, 0x00802081,
     0x00000081, 0x00000000, 0x00800080, 0x00800001, 0x00000001, 0x00002000,
     0x00800000, 0x00802001, 0x00000080, 0x00800000, 0x00002001, 0x00002080,
     0x00800081, 0x00000001, 0x00002080, 0x00800080, 0x00002000, 0x00802080,
     0x00802081, 0x00000081, 0x00800080, 0x00800001, 0x00802000, 0x00802081,
     0x00000081, 0x00000000, 0x00000000, 0x00802000, 0x00002080, 0x00800080,
     0x00800081, 0x00000001, 0x00802001, 0x00002081, 0x00002081, 0x00000080,
     0x00802081, 0x00000081, 0x00000001, 0x00002000, 0x00800001, 0x00002001,
     0x00802080, 0x00800081, 0x00002001, 0x00002080, 0x00800000, 0x00802001,
     0x00000080, 0x00800000, 0x00002000, 0x00802080]"

definition SB5 :: "u32 list" where
  "SB5 = [
     0x00000100, 0x02080100, 0x02080000, 0x42000100, 0x00080000, 0x00000100,
     0x40000000, 0x02080000, 0x40080100, 0x00080000, 0x02000100, 0x40080100,
     0x42000100, 0x42080000, 0x00080100, 0x40000000, 0x02000000, 0x40080000,
     0x40080000, 0x00000000, 0x40000100, 0x42080100, 0x42080100, 0x02000100,
     0x42080000, 0x40000100, 0x00000000, 0x42000000, 0x02080100, 0x02000000,
     0x42000000, 0x00080100, 0x00080000, 0x42000100, 0x00000100, 0x02000000,
     0x40000000, 0x02080000, 0x42000100, 0x40080100, 0x02000100, 0x40000000,
     0x42080000, 0x02080100, 0x40080100, 0x00000100, 0x02000000, 0x42080000,
     0x42080100, 0x00080100, 0x42000000, 0x42080100, 0x02080000, 0x00000000,
     0x40080000, 0x42000000, 0x00080100, 0x02000100, 0x40000100, 0x00080000,
     0x00000000, 0x40080000, 0x02080100, 0x40000100]"

definition SB6 :: "u32 list" where
  "SB6 = [
     0x20000010, 0x20400000, 0x00004000, 0x20404010, 0x20400000, 0x00000010,
     0x20404010, 0x00400000, 0x20004000, 0x00404010, 0x00400000, 0x20000010,
     0x00400010, 0x20004000, 0x20000000, 0x00004010, 0x00000000, 0x00400010,
     0x20004010, 0x00004000, 0x00404000, 0x20004010, 0x00000010, 0x20400010,
     0x20400010, 0x00000000, 0x00404010, 0x20404000, 0x00004010, 0x00404000,
     0x20404000, 0x20000000, 0x20004000, 0x00000010, 0x20400010, 0x00404000,
     0x20404010, 0x00400000, 0x00004010, 0x20000010, 0x00400000, 0x20004000,
     0x20000000, 0x00004010, 0x20000010, 0x20404010, 0x00404000, 0x20400000,
     0x00404010, 0x20404000, 0x00000000, 0x20400010, 0x00000010, 0x00004000,
     0x20400000, 0x00404010, 0x00004000, 0x00400010, 0x20004010, 0x00000000,
     0x20404000, 0x20000000, 0x00400010, 0x20004010]"

definition SB7 :: "u32 list" where
  "SB7 = [
     0x00200000, 0x04200002, 0x04000802, 0x00000000, 0x00000800, 0x04000802,
     0x00200802, 0x04200800, 0x04200802, 0x00200000, 0x00000000, 0x04000002,
     0x00000002, 0x04000000, 0x04200002, 0x00000802, 0x04000800, 0x00200802,
     0x00200002, 0x04000800, 0x04000002, 0x04200000, 0x04200800, 0x00200002,
     0x04200000, 0x00000800, 0x00000802, 0x04200802, 0x00200800, 0x00000002,
     0x04000000, 0x00200800, 0x04000000, 0x00200800, 0x00200000, 0x04000802,
     0x04000802, 0x04200002, 0x04200002, 0x00000002, 0x00200002, 0x04000000,
     0x04000800, 0x00200000, 0x04200800, 0x00000802, 0x00200802, 0x04200800,
     0x00000802, 0x04000002, 0x04200802, 0x04200000, 0x00200800, 0x00000000,
     0x00000002, 0x04200802, 0x00000000, 0x00200802, 0x04200000, 0x00000800,
     0x04000002, 0x04000800, 0x00000800, 0x00200002]"

definition SB8 :: "u32 list" where
  "SB8 = [
     0x10001040, 0x00001000, 0x00040000, 0x10041040, 0x10000000, 0x10001040,
     0x00000040, 0x10000000, 0x00040040, 0x10040000, 0x10041040, 0x00041000,
     0x10041000, 0x00041040, 0x00001000, 0x00000040, 0x10040000, 0x10000040,
     0x10001000, 0x00001040, 0x00041000, 0x00040040, 0x10040040, 0x10041000,
     0x00001040, 0x00000000, 0x00000000, 0x10040040, 0x10000040, 0x10001000,
     0x00041040, 0x00040000, 0x00041040, 0x00040000, 0x10041000, 0x00001000,
     0x00000040, 0x10040040, 0x00001000, 0x00041040, 0x10001000, 0x00000040,
     0x10000040, 0x10040000, 0x10040040, 0x10000000, 0x00040000, 0x10001040,
     0x00000000, 0x10041040, 0x00040040, 0x10000040, 0x10040000, 0x10001000,
     0x10001040, 0x00000000, 0x10041040, 0x00041000, 0x00041000, 0x00001040,
     0x00001040, 0x00040040, 0x10000000, 0x10041000]"

definition LHs :: "u32 list" where
  "LHs = [
     0x00000000, 0x00000001, 0x00000100, 0x00000101, 0x00010000, 0x00010001,
     0x00010100, 0x00010101, 0x01000000, 0x01000001, 0x01000100, 0x01000101,
     0x01010000, 0x01010001, 0x01010100, 0x01010101]"

definition RHs :: "u32 list" where
  "RHs = [
     0x00000000, 0x01000000, 0x00010000, 0x01010000, 0x00000100, 0x01000100,
     0x00010100, 0x01010100, 0x00000001, 0x01000001, 0x00010001, 0x01010001,
     0x00000101, 0x01000101, 0x00010101, 0x01010101]"

section \<open>The block cipher\<close>

definition GET_UINT32 :: "u8 list \<Rightarrow> nat \<Rightarrow> u32" where
  "GET_UINT32 b i = push_bit 24 (ucast (b ! i)) OR push_bit 16 (ucast (b ! (i + 1)))
     OR push_bit 8 (ucast (b ! (i + 2))) OR ucast (b ! (i + 3))"

definition PUT_UINT32 :: "u32 \<Rightarrow> u8 list" where
  "PUT_UINT32 n = [ucast (drop_bit 24 n), ucast (drop_bit 16 n), ucast (drop_bit 8 n), ucast n]"

text \<open>
  The step that both permutations are made of: it exchanges the bits \<open>m\<close> of \<open>y\<close> with those of \<open>x\<close> that
  stand \<open>s\<close> places higher.
\<close>

definition swap_bits :: "nat \<Rightarrow> u32 \<Rightarrow> u32 \<times> u32 \<Rightarrow> u32 \<times> u32" where
  "swap_bits s m = (\<lambda>(x, y). let t = (drop_bit s x XOR y) AND m in (x XOR push_bit s t, y XOR t))"

definition DES_IP :: "u32 \<times> u32 \<Rightarrow> u32 \<times> u32" where
  "DES_IP = (\<lambda>(X, Y).
     let (X, Y) = swap_bits 4 0x0F0F0F0F (X, Y);
         (X, Y) = swap_bits 16 0x0000FFFF (X, Y);
         (Y, X) = swap_bits 2 0x33333333 (Y, X);
         (Y, X) = swap_bits 8 0x00FF00FF (Y, X);
         Y = (push_bit 1 Y OR drop_bit 31 Y) AND 0xFFFFFFFF;
         T = (X XOR Y) AND 0xAAAAAAAA; Y = Y XOR T; X = X XOR T;
         X = (push_bit 1 X OR drop_bit 31 X) AND 0xFFFFFFFF
     in (X, Y))"

definition DES_FP :: "u32 \<times> u32 \<Rightarrow> u32 \<times> u32" where
  "DES_FP = (\<lambda>(X, Y).
     let X = (push_bit 31 X OR drop_bit 1 X) AND 0xFFFFFFFF;
         T = (X XOR Y) AND 0xAAAAAAAA; X = X XOR T; Y = Y XOR T;
         Y = (push_bit 31 Y OR drop_bit 1 Y) AND 0xFFFFFFFF;
         (Y, X) = swap_bits 8 0x00FF00FF (Y, X);
         (Y, X) = swap_bits 2 0x33333333 (Y, X);
         (X, Y) = swap_bits 16 0x0000FFFF (X, Y);
         (X, Y) = swap_bits 4 0x0F0F0F0F (X, Y)
     in (X, Y))"

text \<open>\<^verbatim>\<open>DES_ROUND(X, Y)\<close> with its two subkeys: the new \<^verbatim>\<open>Y\<close>.\<close>

definition DES_ROUND :: "u32 \<Rightarrow> u32 \<Rightarrow> u32 \<Rightarrow> u32 \<Rightarrow> u32" where
  "DES_ROUND k1 k2 X Y =
     (let T = k1 XOR X;
          Y = Y XOR (SB8 ! unat (T AND 0x3F) XOR SB6 ! unat (drop_bit 8 T AND 0x3F)
            XOR SB4 ! unat (drop_bit 16 T AND 0x3F) XOR SB2 ! unat (drop_bit 24 T AND 0x3F));
          T = k2 XOR (push_bit 28 X OR drop_bit 4 X)
      in Y XOR (SB7 ! unat (T AND 0x3F) XOR SB5 ! unat (drop_bit 8 T AND 0x3F)
            XOR SB3 ! unat (drop_bit 16 T AND 0x3F) XOR SB1 ! unat (drop_bit 24 T AND 0x3F)))"

text \<open>The rounds of \<^verbatim>\<open>des_crypt\<close>, two at a time, over the subkeys left.\<close>

fun des_rounds :: "u32 list \<Rightarrow> u32 \<times> u32 \<Rightarrow> u32 \<times> u32" where
  "des_rounds (k1 # k2 # k3 # k4 # ks) (X, Y) =
     (let X = DES_ROUND k1 k2 Y X; Y = DES_ROUND k3 k4 X Y in des_rounds ks (X, Y))"
| "des_rounds _ (X, Y) = (X, Y)"

definition des_crypt :: "u32 list \<Rightarrow> u8 list \<Rightarrow> u8 list" where
  "des_crypt SK input =
     (let (X, Y) = DES_IP (GET_UINT32 input 0, GET_UINT32 input 4);
          (X, Y) = des_rounds SK (X, Y);
          (Y, X) = DES_FP (Y, X)
      in PUT_UINT32 Y @ PUT_UINT32 X)"

section \<open>The key schedule\<close>

definition des_pc1 :: "u8 list \<Rightarrow> u32 \<times> u32" where
  "des_pc1 key =
     (let X = GET_UINT32 key 0; Y = GET_UINT32 key 4;
          T = (drop_bit 4 Y XOR X) AND 0x0F0F0F0F; X = X XOR T; Y = Y XOR push_bit 4 T;
          T = (Y XOR X) AND 0x10101010; X = X XOR T; Y = Y XOR T;
          X = push_bit 3 (LHs ! unat (X AND 0xF)) OR push_bit 2 (LHs ! unat (drop_bit 8 X AND 0xF))
            OR push_bit 1 (LHs ! unat (drop_bit 16 X AND 0xF)) OR LHs ! unat (drop_bit 24 X AND 0xF)
            OR push_bit 7 (LHs ! unat (drop_bit 5 X AND 0xF)) OR push_bit 6 (LHs ! unat (drop_bit 13 X AND 0xF))
            OR push_bit 5 (LHs ! unat (drop_bit 21 X AND 0xF)) OR push_bit 4 (LHs ! unat (drop_bit 29 X AND 0xF));
          Y = push_bit 3 (RHs ! unat (drop_bit 1 Y AND 0xF)) OR push_bit 2 (RHs ! unat (drop_bit 9 Y AND 0xF))
            OR push_bit 1 (RHs ! unat (drop_bit 17 Y AND 0xF)) OR RHs ! unat (drop_bit 25 Y AND 0xF)
            OR push_bit 7 (RHs ! unat (drop_bit 4 Y AND 0xF)) OR push_bit 6 (RHs ! unat (drop_bit 12 Y AND 0xF))
            OR push_bit 5 (RHs ! unat (drop_bit 20 Y AND 0xF)) OR push_bit 4 (RHs ! unat (drop_bit 28 Y AND 0xF))
      in (X AND 0x0FFFFFFF, Y AND 0x0FFFFFFF))"

text \<open>The two subkeys of a round, from the halves of the key.\<close>

definition des_subkey1 :: "u32 \<Rightarrow> u32 \<Rightarrow> u32" where
  "des_subkey1 X Y = (push_bit 4 X AND 0x24000000) OR (push_bit 28 X AND 0x10000000)
     OR (push_bit 14 X AND 0x08000000) OR (push_bit 18 X AND 0x02080000)
     OR (push_bit 6 X AND 0x01000000) OR (push_bit 9 X AND 0x00200000)
     OR (drop_bit 1 X AND 0x00100000) OR (push_bit 10 X AND 0x00040000)
     OR (push_bit 2 X AND 0x00020000) OR (drop_bit 10 X AND 0x00010000)
     OR (drop_bit 13 Y AND 0x00002000) OR (drop_bit 4 Y AND 0x00001000)
     OR (push_bit 6 Y AND 0x00000800) OR (drop_bit 1 Y AND 0x00000400)
     OR (drop_bit 14 Y AND 0x00000200) OR (Y AND 0x00000100)
     OR (drop_bit 5 Y AND 0x00000020) OR (drop_bit 10 Y AND 0x00000010)
     OR (drop_bit 3 Y AND 0x00000008) OR (drop_bit 18 Y AND 0x00000004)
     OR (drop_bit 26 Y AND 0x00000002) OR (drop_bit 24 Y AND 0x00000001)"

definition des_subkey2 :: "u32 \<Rightarrow> u32 \<Rightarrow> u32" where
  "des_subkey2 X Y = (push_bit 15 X AND 0x20000000) OR (push_bit 17 X AND 0x10000000)
     OR (push_bit 10 X AND 0x08000000) OR (push_bit 22 X AND 0x04000000)
     OR (drop_bit 2 X AND 0x02000000) OR (push_bit 1 X AND 0x01000000)
     OR (push_bit 16 X AND 0x00200000) OR (push_bit 11 X AND 0x00100000)
     OR (push_bit 3 X AND 0x00080000) OR (drop_bit 6 X AND 0x00040000)
     OR (push_bit 15 X AND 0x00020000) OR (drop_bit 4 X AND 0x00010000)
     OR (drop_bit 2 Y AND 0x00002000) OR (push_bit 8 Y AND 0x00001000)
     OR (drop_bit 14 Y AND 0x00000808) OR (drop_bit 9 Y AND 0x00000400)
     OR (Y AND 0x00000200) OR (push_bit 7 Y AND 0x00000100)
     OR (drop_bit 7 Y AND 0x00000020) OR (drop_bit 3 Y AND 0x00000011)
     OR (push_bit 2 Y AND 0x00000004) OR (drop_bit 21 Y AND 0x00000002)"

fun des_ks_loop :: "nat \<Rightarrow> nat \<Rightarrow> u32 \<times> u32 \<Rightarrow> u32 list" where
  "des_ks_loop 0 i XY = []"
| "des_ks_loop (Suc n) i (X, Y) =
     (let (X, Y) =
        (if i < 2 \<or> i = 8 \<or> i = 15 then
           ((push_bit 1 X OR drop_bit 27 X) AND 0x0FFFFFFF, (push_bit 1 Y OR drop_bit 27 Y) AND 0x0FFFFFFF)
         else
           ((push_bit 2 X OR drop_bit 26 X) AND 0x0FFFFFFF, (push_bit 2 Y OR drop_bit 26 Y) AND 0x0FFFFFFF))
      in des_subkey1 X Y # des_subkey2 X Y # des_ks_loop n (Suc i) (X, Y))"

definition des_main_ks :: "u8 list \<Rightarrow> u32 list" where
  "des_main_ks key = des_ks_loop 16 0 (des_pc1 key)"

section \<open>Padding\<close>

definition PADDING_MODE_ISO7816_4 :: int where "PADDING_MODE_ISO7816_4 = 0"
definition PADDING_MODE_PKCS7 :: int where "PADDING_MODE_PKCS7 = 1"
definition PADDING_MODE_COUNT :: int where "PADDING_MODE_COUNT = 2"

text \<open>The functions that add a padding, on a buffer that holds the first bytes.\<close>

definition padding_add_iso7816_4 :: "u8 list \<Rightarrow> nat \<Rightarrow> u8 list" where
  "padding_add_iso7816_4 buf offset = buf @ [0x80] @ replicate (7 - offset) 0"

definition padding_add_pkcs7 :: "u8 list \<Rightarrow> nat \<Rightarrow> u8 list" where
  "padding_add_pkcs7 buf offset = buf @ replicate (8 - offset) (of_nat (8 - offset))"

text \<open>The byte \<open>k\<close> places before the last one of a buffer.\<close>

definition byte_back :: "u8 list \<Rightarrow> nat \<Rightarrow> u8 res" where
  "byte_back buf k = (if k < length buf then Inr (buf ! (length buf - 1 - k)) else Inl Out_Of_Bounds)"

fun iso7816_4_scan :: "u8 list \<Rightarrow> nat \<Rightarrow> nat \<Rightarrow> nat \<Rightarrow> nat res" where
  "iso7816_4_scan buf 0 i padding = Inr 0"
| "iso7816_4_scan buf (Suc n) i padding =
     bindE (byte_back buf i) (\<lambda>c.
     if c = 0 then iso7816_4_scan buf n (Suc i) (Suc padding)
     else if c = 0x80 then Inr padding
     else Inr 0)"

definition padding_remove_iso7816_4 :: "u8 list \<Rightarrow> nat res" where
  "padding_remove_iso7816_4 buf = iso7816_4_scan buf 8 0 1"

fun pkcs7_scan :: "u8 list \<Rightarrow> nat \<Rightarrow> nat \<Rightarrow> nat \<Rightarrow> nat res" where
  "pkcs7_scan buf 0 i padding = Inr padding"
| "pkcs7_scan buf (Suc n) i padding =
     bindE (byte_back buf i) (\<lambda>c.
     if unat c \<noteq> padding then Inr 0 else pkcs7_scan buf n (Suc i) padding)"

definition padding_remove_pkcs7 :: "u8 list \<Rightarrow> nat res" where
  "padding_remove_pkcs7 buf =
     bindE (byte_back buf 0) (\<lambda>c. pkcs7_scan buf (unat c - 1) 1 (unat c))"

definition check_padding_mode :: "int \<Rightarrow> unit res" where
  "check_padding_mode mode = (if mode < 0 \<or> mode \<ge> PADDING_MODE_COUNT
     then Inl (Lua_Error (''Invalid padding mode '' @ fmt_d mode)) else Inr ())"

definition add_padding :: "u8 list \<Rightarrow> nat \<Rightarrow> int \<Rightarrow> u8 list res" where
  "add_padding src offset mode =
     bindE (check_padding_mode mode) (\<lambda>_.
     if offset \<ge> 8 then Inl (Lua_Error ''Invalid padding'')
     else Inr (if mode = PADDING_MODE_ISO7816_4 then padding_add_iso7816_4 (take offset src) offset
               else padding_add_pkcs7 (take offset src) offset))"

definition remove_padding :: "u8 list \<Rightarrow> int \<Rightarrow> nat res" where
  "remove_padding buf mode =
     bindE (check_padding_mode mode) (\<lambda>_.
     if mode = PADDING_MODE_ISO7816_4 then padding_remove_iso7816_4 buf else padding_remove_pkcs7 buf)"

section \<open>Encoding and decoding\<close>

definition des_key :: "u8 list \<Rightarrow> u32 list res" where
  "des_key key = (if length key \<noteq> 8
     then Inl (Lua_Error (''Invalid key size '' @ fmt_d (int (length key)) @ '', need 8 bytes'')) else Inr (des_main_ks key))"

text \<open>The loop over the whole blocks of a text.\<close>

fun des_blocks :: "u32 list \<Rightarrow> u8 list \<Rightarrow> u8 list" where
  "des_blocks SK text =
     (if 7 < length text then des_crypt SK (take 8 text) @ des_blocks SK (drop 8 text) else [])"

declare des_blocks.simps [simp del]

definition ldesencode :: "u8 list \<Rightarrow> u8 list \<Rightarrow> int \<Rightarrow> u8 list res" where
  "ldesencode key text padding_mode =
     bindE (des_key key) (\<lambda>SK.
     let i = length text div 8 * 8 in
     bindE (add_padding (drop i text) (length text - i) padding_mode) (\<lambda>tail.
     Inr (des_blocks SK text @ des_crypt SK tail)))"

text \<open>The subkeys of the encryption in reverse, pair by pair.\<close>

definition des_reverse_keys :: "u32 list \<Rightarrow> u32 list" where
  "des_reverse_keys ESK = concat (map (\<lambda>i. [ESK ! (30 - 2 * i), ESK ! (31 - 2 * i)]) [0..<16])"

definition ldesdecode :: "u8 list \<Rightarrow> u8 list \<Rightarrow> int \<Rightarrow> u8 list res" where
  "ldesdecode key text padding_mode =
     bindE (des_key key) (\<lambda>ESK.
     let SK = des_reverse_keys ESK in
     if length text mod 8 \<noteq> 0 \<or> length text = 0
     then Inl (Lua_Error (''Invalid des crypt text length '' @ fmt_d (int (length text))))
     else
       let buffer = des_blocks SK text in
       bindE (remove_padding buffer padding_mode) (\<lambda>padding.
       if padding = 0 \<or> padding > 8 then Inl (Lua_Error ''Invalid des crypt text'')
       else Inr (take (length text - padding) buffer)))"

section \<open>The permutations\<close>

lemma all_ones_32: "x AND 0xFFFFFFFF = (x :: u32)"
proof -
  have "(0xFFFFFFFF :: u32) = - 1" by simp
  then show ?thesis by (metis and.right_neutral)
qed

lemma swap_bits_self_inverse:
  assumes "drop_bit s (push_bit s m) = m"
  shows "swap_bits s m (swap_bits s m p) = p"
proof (cases p)
  case (Pair x y)
  define t where "t = (drop_bit s x XOR y) AND m"
  have bits: "bit m n \<Longrightarrow> s + n < 32" for n
  proof -
    assume "bit m n"
    then have "bit (drop_bit s (push_bit s m)) n" by (simp only: assms)
    then show ?thesis by (simp add: bit_simps)
  qed
  have keep: "drop_bit s (push_bit s t) = t"
    by (rule bit_word_eqI) (use bits in \<open>auto simp: bit_simps t_def\<close>)
  have "(drop_bit s (x XOR push_bit s t) XOR (y XOR t)) AND m
      = ((drop_bit s x XOR y) XOR (drop_bit s (push_bit s t) XOR t)) AND m"
    unfolding drop_bit_xor by (simp only: ac_simps)
  also have "\<dots> = t" unfolding keep by (simp add: t_def)
  finally have "(drop_bit s (x XOR push_bit s t) XOR (y XOR t)) AND m = t" .
  moreover have "swap_bits s m p = (x XOR push_bit s t, y XOR t)"
    by (simp only: Pair swap_bits_def Let_def t_def case_prod_conv)
  moreover have "swap_bits s m (x XOR push_bit s t, y XOR t) = (x, y)"
    if "(drop_bit s (x XOR push_bit s t) XOR (y XOR t)) AND m = t"
    unfolding swap_bits_def case_prod_conv Let_def that by (simp add: xor.assoc)
  ultimately show ?thesis by (simp only: Pair)
qed

lemma rotate_back:
  assumes "k + l = 32" "0 < k" "0 < l"
  shows "push_bit l (push_bit k x OR drop_bit l x) OR drop_bit k (push_bit k x OR drop_bit l x) = (x :: u32)"
proof (rule bit_word_eqI)
  fix n assume n: "n < LENGTH(32)"
  show "bit (push_bit l (push_bit k x OR drop_bit l x) OR drop_bit k (push_bit k x OR drop_bit l x)) n = bit x n"
    using n assms bit_imp_le_length [of x "l + (k + n)"]  bit_imp_le_length [of x "k + (l + n)"]
    by (cases "l \<le> n") (auto simp: bit_or_iff bit_push_bit_iff bit_drop_bit_eq)
qed

definition rol1 :: "u32 \<Rightarrow> u32" where
  "rol1 x = (push_bit 1 x OR drop_bit 31 x) AND 0xFFFFFFFF"

definition ror1 :: "u32 \<Rightarrow> u32" where
  "ror1 x = (push_bit 31 x OR drop_bit 1 x) AND 0xFFFFFFFF"

definition swap_odd :: "u32 \<times> u32 \<Rightarrow> u32 \<times> u32" where
  "swap_odd = (\<lambda>(x, y). let t = (x XOR y) AND 0xAAAAAAAA in (x XOR t, y XOR t))"

lemma rol1_ror1: "rol1 (ror1 x) = x" "ror1 (rol1 x) = x"
  using rotate_back [of 31 1 x] rotate_back [of 1 31 x] by (simp_all only: rol1_def ror1_def all_ones_32 or.commute)

lemma swap_odd_self_inverse: "swap_odd (swap_odd p) = p"
proof (cases p)
  case (Pair x y)
  define t where "t = (x XOR y) AND 0xAAAAAAAA"
  have "((x XOR t) XOR (y XOR t)) AND 0xAAAAAAAA = ((x XOR y) XOR (t XOR t)) AND 0xAAAAAAAA" by (simp only: ac_simps)
  then have "((x XOR t) XOR (y XOR t)) AND 0xAAAAAAAA = t" by (simp only: t_def xor_self_eq xor.right_neutral)
  then have "swap_odd (x XOR t, y XOR t) = (x, y)"
    unfolding swap_odd_def case_prod_conv Let_def by (simp add: xor.assoc)
  then show ?thesis by (simp only: Pair swap_odd_def [of] case_prod_conv Let_def t_def)
qed

lemma DES_IP_steps: "DES_IP p = apfst rol1 (swap_odd (apsnd rol1 (prod.swap (swap_bits 8 0x00FF00FF
    (swap_bits 2 0x33333333 (prod.swap (swap_bits 16 0x0000FFFF (swap_bits 4 0x0F0F0F0F p))))))))"
  by (cases p) (simp only: DES_IP_def rol1_def swap_odd_def Let_def case_prod_beta prod.swap_def
    fst_apfst snd_apfst fst_apsnd snd_apsnd fst_conv snd_conv apfst_conv apsnd_conv prod.collapse)

lemma DES_FP_steps: "DES_FP p = swap_bits 4 0x0F0F0F0F (swap_bits 16 0x0000FFFF (prod.swap (swap_bits 2 0x33333333
    (swap_bits 8 0x00FF00FF (prod.swap (apsnd ror1 (swap_odd (apfst ror1 p))))))))"
  by (cases p) (simp only: DES_FP_def ror1_def swap_odd_def Let_def case_prod_beta prod.swap_def
    fst_apfst snd_apfst fst_apsnd snd_apsnd fst_conv snd_conv apfst_conv apsnd_conv prod.collapse)

lemma swap_bits_inverses:
  "swap_bits 4 0x0F0F0F0F (swap_bits 4 0x0F0F0F0F p) = p"
  "swap_bits 16 0x0000FFFF (swap_bits 16 0x0000FFFF p) = p"
  "swap_bits 2 0x33333333 (swap_bits 2 0x33333333 p) = p"
  "swap_bits 8 0x00FF00FF (swap_bits 8 0x00FF00FF p) = p"
  by (rule swap_bits_self_inverse; simp)+

lemma apfst_apsnd_rotate:
  "apfst rol1 (apfst ror1 p) = p" "apfst ror1 (apfst rol1 p) = p"
  "apsnd rol1 (apsnd ror1 p) = p" "apsnd ror1 (apsnd rol1 p) = p"
  by (cases p; simp add: rol1_ror1)+

lemma DES_IP_FP: "DES_IP (DES_FP p) = p"
  by (simp add: DES_IP_steps DES_FP_steps swap_bits_inverses swap_odd_self_inverse apfst_apsnd_rotate)

lemma DES_FP_IP: "DES_FP (DES_IP p) = p"
  by (simp add: DES_IP_steps DES_FP_steps swap_bits_inverses swap_odd_self_inverse apfst_apsnd_rotate)

section \<open>The rounds\<close>

definition des_f :: "u32 \<Rightarrow> u32 \<Rightarrow> u32 \<Rightarrow> u32" where
  "des_f k1 k2 X = DES_ROUND k1 k2 X 0"

lemma DES_ROUND_xor: "DES_ROUND k1 k2 X Y = Y XOR des_f k1 k2 X"
  unfolding des_f_def DES_ROUND_def Let_def by (simp only: xor.assoc xor.left_neutral)

text \<open>The subkeys in the order of the decryption, for four subkeys at a time.\<close>

fun rev_keys :: "u32 list \<Rightarrow> u32 list" where
  "rev_keys (k1 # k2 # k3 # k4 # ks) = rev_keys ks @ [k3, k4, k1, k2]"
| "rev_keys _ = []"

lemma length_rev_keys: "length ks mod 4 = 0 \<Longrightarrow> length (rev_keys ks) mod 4 = 0"
  by (induction ks rule: rev_keys.induct) auto

lemma des_rounds_append:
  "length ks mod 4 = 0 \<Longrightarrow> des_rounds (ks @ ls) p = des_rounds ls (des_rounds ks p)"
  by (induction ks p rule: des_rounds.induct) (auto simp: Let_def)

lemma des_rounds_undo:
  assumes "length ks mod 4 = 0"
  shows "des_rounds (rev_keys ks) (prod.swap (des_rounds ks p)) = prod.swap p"
  using assms
proof (induction ks p rule: des_rounds.induct)
  case (1 k1 k2 k3 k4 ks X Y)
  define X1 where "X1 = DES_ROUND k1 k2 Y X"
  define Y1 where "Y1 = DES_ROUND k3 k4 X1 Y"
  from 1 have "des_rounds (rev_keys ks) (prod.swap (des_rounds ks (X1, Y1))) = (Y1, X1)"
    by (simp add: X1_def Y1_def)
  moreover from 1(2) have "length (rev_keys ks) mod 4 = 0" by (intro length_rev_keys) simp
  ultimately have "des_rounds (rev_keys (k1 # k2 # k3 # k4 # ks)) (prod.swap (des_rounds ks (X1, Y1)))
      = des_rounds [k3, k4, k1, k2] (Y1, X1)"
    by (simp only: rev_keys.simps des_rounds_append)
  also have "\<dots> = (Y, X)" by (simp add: X1_def Y1_def DES_ROUND_xor Let_def xor.assoc)
  finally show ?case by (simp add: Let_def X1_def [symmetric] Y1_def [symmetric])
qed auto

lemma length_des_ks_loop: "length (des_ks_loop n i p) = 2 * n"
  by (induction n i p rule: des_ks_loop.induct) (auto simp: Let_def)

lemma length_des_main_ks: "length (des_main_ks key) = 32"
  by (simp add: des_main_ks_def length_des_ks_loop)

lemma des_reverse_keys_eq:
  assumes "length ks = 32"
  shows "des_reverse_keys ks = rev_keys ks"
proof -
  have "ks = map ((!) ks) [0..<32]" using map_nth [of ks] assms by simp
  then have "rev_keys ks = rev_keys (map ((!) ks) [0..<32])" by simp
  also have "\<dots> = des_reverse_keys ks" unfolding des_reverse_keys_def by (simp add: upt_rec numeral_eq_Suc)
  finally show ?thesis by simp
qed

section \<open>Blocks\<close>

lemma GET_PUT:
  assumes "length b = 8"
  shows "PUT_UINT32 (GET_UINT32 b 0) @ PUT_UINT32 (GET_UINT32 b 4) = b"
proof -
  have put_get: "PUT_UINT32 (push_bit 24 (ucast a) OR push_bit 16 (ucast b) OR push_bit 8 (ucast c) OR ucast d)
      = [a, b, c, d]" for a b c d :: u8
    unfolding PUT_UINT32_def by (intro conjI arg_cong2 [where f = Cons] refl; rule bit_word_eqI)
      (auto simp: bit_simps dest: bit_imp_le_length)
  have "b = map ((!) b) [0..<8]" using map_nth [of b] assms by simp
  also have "\<dots> = PUT_UINT32 (GET_UINT32 b 0) @ PUT_UINT32 (GET_UINT32 b 4)"
    unfolding GET_UINT32_def put_get by (simp add: upt_rec numeral_eq_Suc)
  finally show ?thesis by simp
qed

lemma bytes_of_word:
  "push_bit 24 (ucast (ucast (drop_bit 24 x) :: u8)) OR push_bit 16 (ucast (ucast (drop_bit 16 x) :: u8))
     OR push_bit 8 (ucast (ucast (drop_bit 8 x) :: u8)) OR ucast (ucast x :: u8) = (x :: u32)" (is "?w = x")
proof (rule bit_word_eqI)
  fix n assume "n < LENGTH(32)"
  then consider "n < 8" | "8 \<le> n" "n < 16" | "16 \<le> n" "n < 24" | "24 \<le> n" "n < 32" by force
  then show "bit ?w n = bit x n"
    by cases (auto simp: bit_simps)
qed

lemma PUT_GET:
  "GET_UINT32 (PUT_UINT32 x @ PUT_UINT32 y) 0 = x" "GET_UINT32 (PUT_UINT32 x @ PUT_UINT32 y) 4 = y"
  unfolding GET_UINT32_def PUT_UINT32_def using bytes_of_word [of x] bytes_of_word [of y] by simp_all

lemma length_des_crypt [simp]: "length (des_crypt SK b) = 8"
  by (simp add: des_crypt_def PUT_UINT32_def Let_def split: prod.splits)

lemma des_crypt_undo:
  assumes "length ks = 32" "length b = 8"
  shows "des_crypt (des_reverse_keys ks) (des_crypt ks b) = b"
proof -
  define p where "p = DES_IP (GET_UINT32 b 0, GET_UINT32 b 4)"
  define q where "q = prod.swap (des_rounds ks p)"
  obtain u v where uv: "DES_FP q = (u, v)" by (cases "DES_FP q") auto
  have enc: "des_crypt ks b = PUT_UINT32 u @ PUT_UINT32 v"
    using uv by (cases "des_rounds ks p") (simp add: des_crypt_def Let_def p_def [symmetric] q_def)
  have ip: "DES_IP (u, v) = q" by (metis uv DES_IP_FP)
  have "des_rounds (rev_keys ks) q = prod.swap p" unfolding q_def using assms by (intro des_rounds_undo) simp
  moreover have "DES_FP p = (GET_UINT32 b 0, GET_UINT32 b 4)" by (simp add: p_def DES_FP_IP)
  ultimately have "des_crypt (rev_keys ks) (PUT_UINT32 u @ PUT_UINT32 v)
      = PUT_UINT32 (GET_UINT32 b 0) @ PUT_UINT32 (GET_UINT32 b 4)"
    unfolding des_crypt_def by (cases p) (simp add: Let_def PUT_GET ip)
  then show ?thesis using assms by (simp only: enc des_reverse_keys_eq GET_PUT)
qed

lemma length_des_blocks: "length (des_blocks SK t) = length t div 8 * 8"
proof (induction SK t rule: des_blocks.induct)
  case (1 SK t)
  show ?case
  proof (cases "7 < length t")
    case True
    then have "length t div 8 = Suc ((length t - 8) div 8)" by (subst le_div_geq) auto
    with True 1 show ?thesis by (simp add: des_blocks.simps [of SK t])
  qed (simp add: des_blocks.simps [of SK t])
qed

lemma des_blocks_undo:
  assumes "length ks = 32"
  shows "des_blocks (des_reverse_keys ks) (des_blocks ks t @ u)
    = take (length t div 8 * 8) t @ des_blocks (des_reverse_keys ks) u"
  using assms
proof (induction ks t rule: des_blocks.induct)
  case (1 SK t)
  show ?case
  proof (cases "7 < length t")
    case True
    then have len: "length t div 8 * 8 = 8 + (length t - 8) div 8 * 8" by (subst le_div_geq) auto
    have "take (length t div 8 * 8) t = take 8 t @ take ((length t - 8) div 8 * 8) (drop 8 t)"
      unfolding len by (rule take_add)
    with True 1 show ?thesis
      by (simp add: des_blocks.simps [of SK t] des_crypt_undo
        des_blocks.simps [of _ "des_crypt SK (take 8 t) @ des_blocks SK (drop 8 t) @ u"])
  qed (simp add: des_blocks.simps [of SK t])
qed

section \<open>Removing a padding\<close>

lemma unat_of_nat_8: "m < 256 \<Longrightarrow> unat (of_nat m :: u8) = m"
  by (simp add: unsigned_of_nat take_bit_nat_eq_self)

lemma byte_back_replicate:
  "j < m \<Longrightarrow> byte_back (xs @ replicate m c) j = Inr c"
  "byte_back (xs @ d # replicate m c) m = Inr d"
  by (auto simp: byte_back_def nth_append)

lemma byte_back_iso: "j < m \<Longrightarrow> byte_back (xs @ d # replicate m c) j = Inr c"
  using byte_back_replicate(1) [of j m "xs @ [d]" c] by simp

lemma iso7816_4_scan_padded:
  "i \<le> m \<Longrightarrow> m - i < n \<Longrightarrow> iso7816_4_scan (xs @ 0x80 # replicate m 0) n i p = Inr (p + (m - i))"
proof (induction n arbitrary: i p)
  case (Suc n)
  show ?case
  proof (cases "i = m")
    case True
    then show ?thesis by (simp add: byte_back_replicate)
  next
    case False
    with Suc.prems have "i < m" "Suc i \<le> m" "m - Suc i < n" by simp_all
    with Suc.IH [of "Suc i" "Suc p"] show ?thesis by (simp add: byte_back_iso)
  qed
qed simp

lemma pkcs7_scan_padded:
  "i + n \<le> m \<Longrightarrow> m < 256 \<Longrightarrow> pkcs7_scan (xs @ replicate m (of_nat m)) n i m = Inr m"
  by (induction n arbitrary: i) (simp_all add: byte_back_replicate unat_of_nat_8)

lemma pkcs7_scan_short:
  "i \<le> m \<Longrightarrow> m < i + n \<Longrightarrow> pkcs7_scan (replicate m c) n i (unat c) = Inl Out_Of_Bounds"
proof (induction n arbitrary: i)
  case (Suc n)
  then show ?case
    using Suc.IH [of "Suc i"] byte_back_replicate(1) [of i m "[]" c] by (cases "i = m") (auto simp: byte_back_def)
qed simp

lemma padding_remove_added:
  assumes "offset < 8" "length pre = offset"
  shows "padding_remove_iso7816_4 (xs @ padding_add_iso7816_4 pre offset) = Inr (8 - offset)"
    "padding_remove_pkcs7 (xs @ padding_add_pkcs7 pre offset) = Inr (8 - offset)"
proof -
  obtain m where m: "8 - offset = Suc m" "m < 8" "7 - offset = m" using assms(1) by (cases "8 - offset") auto
  show "padding_remove_iso7816_4 (xs @ padding_add_iso7816_4 pre offset) = Inr (8 - offset)"
    using iso7816_4_scan_padded [of 0 m 8 "xs @ pre" 1] m
    by (simp add: padding_remove_iso7816_4_def padding_add_iso7816_4_def)
  have "unat (of_nat (Suc m) :: u8) = Suc m" using m(2) by (intro unat_of_nat_8) simp
  then show "padding_remove_pkcs7 (xs @ padding_add_pkcs7 pre offset) = Inr (8 - offset)"
    using pkcs7_scan_padded [of 1 m "Suc m" "xs @ pre"] byte_back_replicate(1) [of 0 "Suc m" "xs @ pre" "of_nat (Suc m)"] m
    by (simp add: padding_remove_pkcs7_def padding_add_pkcs7_def del: of_nat_Suc replicate_Suc)
qed

lemma add_padding_valid:
  assumes "mode = 0 \<or> mode = 1" "length src < 8"
  obtains tl where "add_padding src (length src) mode = Inr tl" "length tl = 8" "take (length src) tl = src"
    "\<And>xs. remove_padding (xs @ tl) mode = Inr (8 - length src)"
  using that assms padding_remove_added [of "length src" src]
  by (auto simp: add_padding_def remove_padding_def check_padding_mode_def PADDING_MODE_COUNT_def
      PADDING_MODE_ISO7816_4_def padding_add_iso7816_4_def padding_add_pkcs7_def)

section \<open>Properties\<close>

text \<open>C24: decoding undoes encoding: for every key, text and padding mode, \<^verbatim>\<open>desdecode\<close> of what \<^verbatim>\<open>desencode\<close>
  returns is the text, and \<^verbatim>\<open>desencode\<close> raises an error exactly when the key does not have 8 bytes or
  the mode is not one of the two.\<close>

theorem desdecode_desencode:
  "bindE (ldesencode key text mode) (\<lambda>c. ldesdecode key c mode) =
     (if length key \<noteq> 8 then Inl (Lua_Error (''Invalid key size '' @ fmt_d (int (length key)) @ '', need 8 bytes''))
      else if mode \<noteq> 0 \<and> mode \<noteq> 1 then Inl (Lua_Error (''Invalid padding mode '' @ fmt_d mode))
      else Inr text)"
proof (cases "length key = 8 \<and> (mode = 0 \<or> mode = 1)")
  case True
  define ks i where "ks = des_main_ks key" and "i = length text div 8 * 8"
  have i: "i \<le> length text" "length (drop i text) < 8" by (auto simp: i_def minus_div_mult_eq_mod)
  obtain tl where tl: "add_padding (drop i text) (length text - i) mode = Inr tl" "length tl = 8"
    "take (length text - i) tl = drop i text" "\<And>xs. remove_padding (xs @ tl) mode = Inr (8 - (length text - i))"
    using add_padding_valid [of mode "drop i text"] True i by auto
  have undo: "des_blocks (des_reverse_keys ks) (des_blocks ks text @ des_crypt ks tl) = take i text @ tl"
    using des_blocks_undo [of ks "text" "des_crypt ks tl"] tl(2)
    by (simp add: ks_def length_des_main_ks i_def des_crypt_undo des_blocks.simps [of _ "des_crypt _ _"] des_blocks.simps [of _ "[]"])
  have len: "length (des_blocks ks text @ des_crypt ks tl) = i + 8" by (simp add: length_des_blocks i_def)
  define c pad where "c = des_blocks ks text @ des_crypt ks tl" and "pad = 8 - (length text - i)"
  have enc: "ldesencode key text mode = Inr c"
    using True tl(1) by (simp add: ldesencode_def des_key_def ks_def [symmetric] i_def [symmetric] c_def)
  have c: "length c mod 8 = 0" "length c \<noteq> 0" using len by (auto simp: c_def i_def)
  have pad: "pad \<noteq> 0" "\<not> pad > 8" "length c - pad = length text" using i len by (auto simp: pad_def c_def)
  have "remove_padding (take i text @ tl) mode = Inr pad" using tl(4) by (simp add: pad_def)
  moreover have "take (length text) (take i text @ tl) = text" using i tl(3) by simp
  ultimately have "ldesdecode key c mode = Inr text"
    using True undo c pad by (simp add: ldesdecode_def des_key_def ks_def [symmetric] c_def [symmetric])
  with True show ?thesis by (simp add: enc)
next
  case False
  then show ?thesis
    by (auto simp: ldesencode_def des_key_def add_padding_def check_padding_mode_def PADDING_MODE_COUNT_def Let_def)
qed

text \<open>for every key there is a text of one block whose decoding with the second padding mode reads before
  the start of the decoded buffer: the padding length is taken from the last byte and used before it
  is compared with 8.\<close>

theorem pkcs7_reads_before_buffer:
  "\<exists>text. length text = 8 \<and> ldesdecode [k1, k2, k3, k4, k5, k6, k7, k8] text PADDING_MODE_PKCS7 = Inl Out_Of_Bounds"
proof -
  define SK where "SK = des_main_ks [k1, k2, k3, k4, k5, k6, k7, k8]"
  define c where "c = des_crypt SK (replicate 8 9)"
  have "des_blocks (des_reverse_keys SK) c = replicate 8 9"
    by (simp add: c_def SK_def des_blocks.simps [of _ "des_crypt _ _"] des_blocks.simps [of _ "[]"] des_crypt_undo length_des_main_ks)
  moreover have "padding_remove_pkcs7 (replicate 8 9) = Inl Out_Of_Bounds"
    using pkcs7_scan_short [of 1 8 "unat (9 :: u8) - 1" 9] byte_back_replicate(1) [of 0 8 "[]" 9]
    by (simp add: padding_remove_pkcs7_def)
  ultimately have "ldesdecode [k1, k2, k3, k4, k5, k6, k7, k8] c PADDING_MODE_PKCS7 = Inl Out_Of_Bounds"
    by (simp add: ldesdecode_def des_key_def SK_def [symmetric] remove_padding_def check_padding_mode_def
      PADDING_MODE_COUNT_def PADDING_MODE_PKCS7_def PADDING_MODE_ISO7816_4_def c_def)
  moreover have "length c = 8" by (simp add: c_def)
  ultimately show ?thesis by blast
qed

end
