(* ===== verification/Crypt_Codec.thy ===== *)
theory Crypt_Codec
  imports C_Text
begin

text \<open>
  The codecs of \<^verbatim>\<open>lualib-src/lua-crypt.c\<close>: the key hash, hexadecimal, base64, the exclusive or of strings,
  the MD5 based authentication codes and the Diffie-Hellman exchange over the biggest 64-bit prime. A
  Lua string is a list of bytes, a raised Lua error the fault \<open>Lua_Error\<close>; the loops count with an
  \<^verbatim>\<open>int\<close>, so the model is of strings shorter than \<open>2 ^ 31\<close> bytes. The properties: hexadecimal and base64
  text decodes to what was encoded, the arithmetic is exponentiation modulo the prime, and the two
  sides of an exchange compute the same secret.
\<close>

unbundle bit_operations_syntax

section \<open>The key hash\<close>

text \<open>Words as little-endian bytes.\<close>

definition bytes_le32 :: "u32 \<Rightarrow> u8 list" where
  "bytes_le32 w = [ucast w, ucast (drop_bit 8 w), ucast (drop_bit 16 w), ucast (drop_bit 24 w)]"

definition get_le32 :: "u8 list \<Rightarrow> nat \<Rightarrow> u32" where
  "get_le32 x i = ucast (x ! i) OR push_bit 8 (ucast (x ! (i + 1))) OR push_bit 16 (ucast (x ! (i + 2)))
     OR push_bit 24 (ucast (x ! (i + 3)))"

fun hash_loop :: "u8 list \<Rightarrow> u32 \<Rightarrow> u32 \<Rightarrow> u32 \<times> u32" where
  "hash_loop [] djb_hash js_hash = (djb_hash, js_hash)"
| "hash_loop (c # cs) djb_hash js_hash =
     hash_loop cs (djb_hash + (push_bit 5 djb_hash + ucast c))
       (js_hash XOR (push_bit 5 js_hash + ucast c + drop_bit 2 js_hash))"

definition Hash :: "u8 list \<Rightarrow> u8 list" where
  "Hash str = (let (djb_hash, js_hash) = hash_loop str 5381 1315423911 in bytes_le32 djb_hash @ bytes_le32 js_hash)"

definition lhashkey :: "u8 list \<Rightarrow> u8 list" where
  "lhashkey key = Hash key"

text \<open>\<^verbatim>\<open>randomkey\<close>, with the eight numbers that \<^verbatim>\<open>random\<close> returns: never a key whose bytes cancel out.\<close>

definition lrandomkey :: "u8 list \<Rightarrow> u8 list" where
  "lrandomkey tmp = (if fold (XOR) tmp 0 = 0 then tmp[0 := tmp ! 0 OR 1] else tmp)"

section \<open>Hexadecimal\<close>

definition hex_table :: "u8 list" where
  "hex_table = map of_char ''0123456789abcdef''"

fun ltohex :: "u8 list \<Rightarrow> u8 list" where
  "ltohex [] = []"
| "ltohex (t # ts) = hex_table ! unat (drop_bit 4 t) # hex_table ! unat (t AND 0xf) # ltohex ts"

text \<open>\<^verbatim>\<open>HEX\<close>: the value of a digit; the subtraction is truncated to a byte.\<close>

definition HEX :: "u8 \<Rightarrow> u8" where
  "HEX c = (if c \<ge> of_char (CHR ''0'') \<and> c \<le> of_char (CHR ''9'') then c - of_char (CHR ''0'')
     else c - of_char (CHR ''a'') + 10)"

fun fromhex_loop :: "u8 list \<Rightarrow> u8 list res" where
  "fromhex_loop (a # b # ts) =
     (let hi = HEX a; low = HEX b in
      if hi > 16 \<or> low > 16 then Inl (Lua_Error ''Invalid hex text'')
      else bindE (fromhex_loop ts) (\<lambda>r. Inr ((push_bit 4 hi OR low) # r)))"
| "fromhex_loop _ = Inr []"

definition lfromhex :: "u8 list \<Rightarrow> u8 list res" where
  "lfromhex text = (if odd (length text) then Inl (Lua_Error (''Invalid hex text size '' @ fmt_d (int (length text))))
     else fromhex_loop text)"

section \<open>Authentication codes\<close>

definition md5_k :: "u32 list" where
  "md5_k = [
     0xd76aa478, 0xe8c7b756, 0x242070db, 0xc1bdceee, 0xf57c0faf, 0x4787c62a,
     0xa8304613, 0xfd469501, 0x698098d8, 0x8b44f7af, 0xffff5bb1, 0x895cd7be,
     0x6b901122, 0xfd987193, 0xa679438e, 0x49b40821, 0xf61e2562, 0xc040b340,
     0x265e5a51, 0xe9b6c7aa, 0xd62f105d, 0x02441453, 0xd8a1e681, 0xe7d3fbc8,
     0x21e1cde6, 0xc33707d6, 0xf4d50d87, 0x455a14ed, 0xa9e3e905, 0xfcefa3f8,
     0x676f02d9, 0x8d2a4c8a, 0xfffa3942, 0x8771f681, 0x6d9d6122, 0xfde5380c,
     0xa4beea44, 0x4bdecfa9, 0xf6bb4b60, 0xbebfbc70, 0x289b7ec6, 0xeaa127fa,
     0xd4ef3085, 0x04881d05, 0xd9d4d039, 0xe6db99e5, 0x1fa27cf8, 0xc4ac5665,
     0xf4292244, 0x432aff97, 0xab9423a7, 0xfc93a039, 0x655b59c3, 0x8f0ccc92,
     0xffeff47d, 0x85845dd1, 0x6fa87e4f, 0xfe2ce6e0, 0xa3014314, 0x4e0811a1,
     0xf7537e82, 0xbd3af235, 0x2ad7d2bb, 0xeb86d391]"

definition md5_r :: "nat list" where
  "md5_r = [
     7, 12, 17, 22, 7, 12, 17, 22, 7, 12, 17, 22, 7, 12, 17, 22,
     5, 9, 14, 20, 5, 9, 14, 20, 5, 9, 14, 20, 5, 9, 14, 20,
     4, 11, 16, 23, 4, 11, 16, 23, 4, 11, 16, 23, 4, 11, 16, 23,
     6, 10, 15, 21, 6, 10, 15, 21, 6, 10, 15, 21, 6, 10, 15, 21]"

definition LEFTROTATE :: "u32 \<Rightarrow> nat \<Rightarrow> u32" where
  "LEFTROTATE x c = push_bit c x OR drop_bit (32 - c) x"

fun md5_step :: "u32 list \<Rightarrow> nat \<Rightarrow> u32 \<times> u32 \<times> u32 \<times> u32 \<Rightarrow> u32 \<times> u32 \<times> u32 \<times> u32" where
  "md5_step w i (a, b, c, d) =
     (let (f, g) =
        (if i < 16 then ((b AND c) OR (NOT b AND d), i)
         else if i < 32 then ((d AND b) OR (NOT d AND c), (5 * i + 1) mod 16)
         else if i < 48 then (b XOR c XOR d, (3 * i + 5) mod 16)
         else (c XOR (b OR NOT d), (7 * i) mod 16))
      in (d, b + LEFTROTATE (a + f + md5_k ! i + w ! g) (md5_r ! i), b, c))"

definition digest_md5 :: "u32 list \<Rightarrow> u32 \<times> u32 \<times> u32 \<times> u32" where
  "digest_md5 w = fold (md5_step w) [0..<64] (0x67452301, 0xefcdab89, 0x98badcfe, 0x10325476)"

definition hmac :: "u32 \<times> u32 \<Rightarrow> u32 \<times> u32 \<Rightarrow> u32 \<times> u32" where
  "hmac = (\<lambda>(x0, x1) (y0, y1).
     let w = concat (replicate 4 [x1, x0, y1, y0]); (r0, r1, r2, r3) = digest_md5 w
     in (r2 XOR r3, r0 XOR r1))"

definition hmac_md5 :: "u32 \<times> u32 \<Rightarrow> u32 \<times> u32 \<Rightarrow> u32 \<times> u32" where
  "hmac_md5 = (\<lambda>(x0, x1) (y0, y1).
     let w = concat (replicate 3 [x0, x1, y0, y1]) @ [0x80, 0, 384, 0]; (r0, r1, r2, r3) = digest_md5 w
     in ((r0 + 0x67452301) XOR (r2 + 0x98badcfe), (r1 + 0xefcdab89) XOR (r3 + 0x10325476)))"

definition read64 :: "u8 list \<Rightarrow> u8 list \<Rightarrow> ((u32 \<times> u32) \<times> (u32 \<times> u32)) res" where
  "read64 x y =
     (if length x \<noteq> 8 then Inl (Lua_Error ''Invalid uint64 x'')
      else if length y \<noteq> 8 then Inl (Lua_Error ''Invalid uint64 y'')
      else Inr ((get_le32 x 0, get_le32 x 4), (get_le32 y 0, get_le32 y 4)))"

definition pushqword :: "u32 \<times> u32 \<Rightarrow> u8 list" where
  "pushqword = (\<lambda>(r0, r1). bytes_le32 r0 @ bytes_le32 r1)"

definition lhmac64 :: "u8 list \<Rightarrow> u8 list \<Rightarrow> u8 list res" where
  "lhmac64 a b = bindE (read64 a b) (\<lambda>(x, y). Inr (pushqword (hmac x y)))"

definition lhmac64_md5 :: "u8 list \<Rightarrow> u8 list \<Rightarrow> u8 list res" where
  "lhmac64_md5 a b = bindE (read64 a b) (\<lambda>(x, y). Inr (pushqword (hmac_md5 x y)))"

definition lhmac_hash :: "u8 list \<Rightarrow> u8 list \<Rightarrow> u8 list res" where
  "lhmac_hash x text =
     (if length x \<noteq> 8 then Inl (Lua_Error ''Invalid uint64 key'')
      else let h = Hash text in
        Inr (pushqword (hmac (get_le32 h 0, get_le32 h 4) (get_le32 x 0, get_le32 x 4))))"

section \<open>The key exchange\<close>

definition DH_P :: u64 where "DH_P = 0xffffffffffffffc5"
definition DH_G :: u64 where "DH_G = 5"

lemma half_smaller: "b \<noteq> 0 \<Longrightarrow> unat (drop_bit 1 b) < unat (b :: u64)"
  by (simp add: drop_bit_eq_div unat_div unat_gt_0)

function mul_loop :: "u64 \<Rightarrow> u64 \<Rightarrow> u64 \<Rightarrow> u64" where
  "mul_loop m a b =
     (if b = 0 then m
      else
        let m = (if b AND 1 \<noteq> 0 then (let t = DH_P - a in if m \<ge> t then m - t else m + a) else m);
            a = (if a \<ge> DH_P - a then a * 2 - DH_P else a * 2)
        in mul_loop m a (drop_bit 1 b))"
  by pat_completeness auto
termination
  by (relation "measure (\<lambda>(m, a, b). unat b)") (simp_all add: half_smaller del: One_nat_def)

declare mul_loop.simps [simp del]

definition mul_mod_p :: "u64 \<Rightarrow> u64 \<Rightarrow> u64" where
  "mul_mod_p a b = mul_loop 0 a b"

text \<open>The recursion does not end for the exponent 0, which the callers exclude.\<close>

partial_function (option) pow_mod_p :: "u64 \<Rightarrow> u64 \<Rightarrow> u64 option" where
  "pow_mod_p a b =
     (if b = 1 then Some a
      else Option.bind (pow_mod_p a (drop_bit 1 b)) (\<lambda>t.
        let t = mul_mod_p t t in Some (if b mod 2 \<noteq> 0 then mul_mod_p t a else t)))"

definition powmodp :: "u64 \<Rightarrow> u64 \<Rightarrow> u64 res" where
  "powmodp a b =
     (let a = (if a > DH_P then a mod DH_P else a) in
      case pow_mod_p a b of None \<Rightarrow> Inl Diverges | Some r \<Rightarrow> Inr r)"

definition push64 :: "u64 \<Rightarrow> u8 list" where
  "push64 r = map (\<lambda>i. ucast (drop_bit (8 * i) r)) [0..<8]"

definition get_le64 :: "u32 \<times> u32 \<Rightarrow> u64" where
  "get_le64 = (\<lambda>(x0, x1). ucast x0 OR push_bit 32 (ucast x1))"

definition ldhsecret :: "u8 list \<Rightarrow> u8 list \<Rightarrow> u8 list res" where
  "ldhsecret a b =
     bindE (read64 a b) (\<lambda>(x, y).
     let xx = get_le64 x; yy = get_le64 y in
     if xx = 0 \<or> yy = 0 then Inl (Lua_Error ''Can't be 0'')
     else bindE (powmodp xx yy) (\<lambda>r. Inr (push64 r)))"

definition ldhexchange :: "u8 list \<Rightarrow> u8 list res" where
  "ldhexchange x =
     (if length x \<noteq> 8 then Inl (Lua_Error ''Invalid dh uint64 key'')
      else
        let x64 = get_le64 (get_le32 x 0, get_le32 x 4) in
        if x64 = 0 then Inl (Lua_Error ''Can't be 0'')
        else bindE (powmodp DH_G x64) (\<lambda>r. Inr (push64 r)))"

section \<open>Base64\<close>

definition b64_encoding :: "u8 list" where
  "b64_encoding = map of_char ''ABCDEFGHIJKLMNOPQRSTUVWXYZabcdefghijklmnopqrstuvwxyz0123456789+/''"

definition b64_char :: "u32 \<Rightarrow> u8" where
  "b64_char v = b64_encoding ! unat v"

fun lb64encode :: "u8 list \<Rightarrow> u8 list" where
  "lb64encode (a # b # c # ts) =
     (let v = push_bit 16 (ucast a) OR push_bit 8 (ucast b) OR ucast c in
      b64_char (drop_bit 18 v) # b64_char (drop_bit 12 v AND 0x3f) # b64_char (drop_bit 6 v AND 0x3f)
        # b64_char (v AND 0x3f) # lb64encode ts)"
| "lb64encode [a, b] =
     (let v = push_bit 8 (ucast a) OR ucast b in
      [b64_char (drop_bit 10 v), b64_char (drop_bit 4 v AND 0x3f), b64_char (push_bit 2 (v AND 0xf)), of_char (CHR ''='')])"
| "lb64encode [a] =
     (let v = ucast a in
      [b64_char (drop_bit 2 v), b64_char (push_bit 4 (v AND 3)), of_char (CHR ''=''), of_char (CHR ''='')])"
| "lb64encode [] = []"

definition b64_decoding :: "int list" where
  "b64_decoding = [
     62, - 1, - 1, - 1, 63, 52, 53, 54, 55, 56, 57, 58, 59, 60, 61, - 1, - 1, - 1, - 2, - 1,
     - 1, - 1, 0, 1, 2, 3, 4, 5, 6, 7, 8, 9, 10, 11, 12, 13, 14, 15, 16, 17,
     18, 19, 20, 21, 22, 23, 24, 25, - 1, - 1, - 1, - 1, - 1, - 1, 26, 27, 28, 29, 30, 31,
     32, 33, 34, 35, 36, 37, 38, 39, 40, 41, 42, 43, 44, 45, 46, 47, 48, 49, 50, 51]"

definition b64index :: "u8 \<Rightarrow> int" where
  "b64index c =
     (if c < 43 then - 1
      else let c = c - 43 in if unat c \<ge> length b64_decoding then - 1 else b64_decoding ! unat c)"

text \<open>The loop that collects four digits, skipping what is not one; with the number of \<^verbatim>\<open>=\<close> among them.\<close>

fun b64_quad :: "nat \<Rightarrow> u8 list \<Rightarrow> (int list \<times> nat \<times> u8 list) res" where
  "b64_quad 0 text = Inr ([], 0, text)"
| "b64_quad (Suc n) [] = Inl (Lua_Error ''Invalid base64 text'')"
| "b64_quad (Suc n) (t # ts) =
     (let c = b64index t in
      if c = - 1 then b64_quad (Suc n) ts
      else bindE (b64_quad n ts) (\<lambda>(cs, padding, rest). Inr (c # cs, if c = - 2 then Suc padding else padding, rest)))"

definition b64_out :: "int list \<Rightarrow> nat \<Rightarrow> u8 list res" where
  "b64_out c padding =
     (let c0 = word_of_int (c ! 0) :: u32; c1 = word_of_int (c ! 1); c2 = word_of_int (c ! 2); c3 = word_of_int (c ! 3) in
      if padding = 0 then
        let v = push_bit 18 c0 OR push_bit 12 c1 OR push_bit 6 c2 OR c3 in
        Inr [ucast (drop_bit 16 v), ucast (drop_bit 8 v AND 0xff), ucast (v AND 0xff)]
      else if padding = 1 then
        if c ! 3 \<noteq> - 2 \<or> c2 AND 3 \<noteq> 0 then Inl (Lua_Error ''Invalid base64 text'')
        else let v = push_bit 10 c0 OR push_bit 4 c1 OR drop_bit 2 c2 in Inr [ucast (drop_bit 8 v), ucast (v AND 0xff)]
      else if padding = 2 then
        if c ! 3 \<noteq> - 2 \<or> c ! 2 \<noteq> - 2 \<or> c1 AND 0xf \<noteq> 0 then Inl (Lua_Error ''Invalid base64 text'')
        else let v = push_bit 2 c0 OR drop_bit 4 c1 in Inr [ucast v]
      else Inl (Lua_Error ''Invalid base64 text''))"

lemma b64_quad_rest: "b64_quad n t = Inr (cs, padding, rest) \<Longrightarrow> length rest + n \<le> length t"
proof (induction n t arbitrary: cs padding rest rule: b64_quad.induct)
  case (3 n t ts)
  then show ?case by (force simp: bindE_def Let_def split: if_splits sum.splits)
qed (auto simp: bindE_def)

function lb64decode :: "u8 list \<Rightarrow> u8 list res" where
  "lb64decode text =
     (if text = [] then Inr []
      else case b64_quad 4 text of
        Inl e \<Rightarrow> Inl e
      | Inr (c, padding, rest) \<Rightarrow>
          bindE (b64_out c padding) (\<lambda>out. bindE (lb64decode rest) (\<lambda>r. Inr (out @ r))))"
  by pat_completeness auto
termination
proof (relation "measure length", goal_cases)
  case (2 t p a b c)
  then show ?case using b64_quad_rest [of 4 t] by force
qed simp

declare lb64decode.simps [simp del]

section \<open>Exclusive or\<close>

definition lxor_str :: "u8 list \<Rightarrow> u8 list \<Rightarrow> u8 list res" where
  "lxor_str s1 s2 =
     (if length s2 = 0 then Inl (Lua_Error ''Can't xor empty string'')
      else Inr (map (\<lambda>i. s1 ! i XOR s2 ! (i mod length s2)) [0..<length s1]))"

section \<open>Hexadecimal text\<close>

lemma HEX_hex_table:
  assumes "k < 16"
  shows "HEX (hex_table ! k) = of_nat k"
proof -
  have "k \<in> set [0..<16]" using assms by simp
  then show ?thesis by (auto simp: upt_rec HEX_def hex_table_def of_char_def)
qed

lemma nibbles:
  fixes t :: u8
  shows "unat (drop_bit 4 t) < 16" "unat (t AND 0xf) < 16" "push_bit 4 (drop_bit 4 t) OR (t AND 0xf) = t"
proof -
  show "unat (drop_bit 4 t) < 16" using unsigned_less [of t, where 'a = nat]
    by (simp add: drop_bit_eq_div unat_div less_mult_imp_div_less)
  have "t AND 0xf = take_bit 4 t" by (simp add: take_bit_eq_mask mask_eq_exp_minus_1)
  then show "unat (t AND 0xf) < 16" "push_bit 4 (drop_bit 4 t) OR (t AND 0xf) = t"
    by (auto simp: unsigned_take_bit_eq take_bit_nat_less_exp [of 4, simplified] intro!: bit_word_eqI simp: bit_simps)
qed

lemma lfromhex_ltohex_loop: "fromhex_loop (ltohex bs) = Inr bs"
  by (induction bs) (simp_all add: HEX_hex_table nibbles word_le_nat_alt word_less_nat_alt Let_def not_less less_imp_le)

lemma length_ltohex: "length (ltohex bs) = 2 * length bs"
  by (induction bs) simp_all

text \<open>hexadecimal text decodes to what was encoded.\<close>

theorem hexdecode_hexencode: "lfromhex (ltohex bs) = Inr bs"
  by (simp add: lfromhex_def length_ltohex lfromhex_ltohex_loop)

lemma HEX_le_16: "HEX c \<le> 16 \<longleftrightarrow> c \<in> {48..57} \<union> {87..103}"
  using unsigned_less [of c, where 'a = nat]
  by (auto simp: HEX_def of_char_def word_le_nat_alt unat_sub_if' unat_plus_if')

text \<open>\<^verbatim>\<open>hexdecode\<close> takes more than hexadecimal digits: besides \<^verbatim>\<open>0\<close> to \<^verbatim>\<open>9\<close> it accepts the characters with the
  codes 87 to 103, from \<^verbatim>\<open>W\<close> to \<^verbatim>\<open>g\<close>, and no others; a pair of characters is accepted exactly when both are
  among these.\<close>

theorem hexdecode_accepts:
  "(\<exists>r. lfromhex [a, b] = Inr r) \<longleftrightarrow> {a, b} \<subseteq> {48..57} \<union> {87..103}"
proof -
  have "lfromhex [a, b] = (if HEX a \<le> 16 \<and> HEX b \<le> 16 then Inr [push_bit 4 (HEX a) OR HEX b]
      else Inl (Lua_Error ''Invalid hex text''))"
    by (auto simp: lfromhex_def Let_def not_le)
  then show ?thesis using HEX_le_16 [of a] HEX_le_16 [of b] by simp
qed

section \<open>Arithmetic modulo the prime\<close>

lemma unat_DH_P: "unat DH_P = 2 ^ 64 - 59"
  by (simp add: DH_P_def)

lemma DH_P_cong: "a mod DH_P = of_nat (unat a mod unat DH_P)"
  by (simp add: word_arith_nat_mod)

text \<open>One step of the multiplication: an addition and a doubling modulo the prime.\<close>

lemma add_step:
  assumes "unat m < unat DH_P" "unat a \<le> unat DH_P"
  shows "unat (if m \<ge> DH_P - a then m - (DH_P - a) else m + a) = (unat m + unat a) mod unat DH_P"
proof -
  have t: "unat (DH_P - a) = unat DH_P - unat a" using assms(2) by (intro unat_sub) (simp add: word_le_nat_alt)
  show ?thesis
  proof (cases "m \<ge> DH_P - a")
    case True
    then have le: "unat DH_P - unat a \<le> unat m" by (simp add: word_le_nat_alt t)
    have "unat (m - (DH_P - a)) = unat m - (unat DH_P - unat a)" using True t by (simp add: unat_sub)
    also have "\<dots> = unat m + unat a - unat DH_P" using le assms(2) by simp
    also have "\<dots> = (unat m + unat a) mod unat DH_P" using le assms by (subst le_mod_geq) auto
    finally show ?thesis using True by simp
  next
    case False
    then have lt: "unat m + unat a < unat DH_P" using assms(2) by (simp add: word_le_nat_alt t not_le)
    then have "unat (m + a) = unat m + unat a" by (simp add: unat_plus_if' unat_DH_P)
    with False lt show ?thesis by simp
  qed
qed

lemma double_step:
  assumes "unat a \<le> unat DH_P"
  shows "unat (if a \<ge> DH_P - a then a * 2 - DH_P else a * 2) \<le> unat DH_P
    \<and> unat (if a \<ge> DH_P - a then a * 2 - DH_P else a * 2) mod unat DH_P = (2 * unat a) mod unat DH_P"
proof -
  have t: "unat (DH_P - a) = unat DH_P - unat a" using assms by (intro unat_sub) (simp add: word_le_nat_alt)
  show ?thesis
  proof (cases "a \<ge> DH_P - a")
    case True
    then have le: "unat DH_P \<le> 2 * unat a" by (simp add: word_le_nat_alt t)
    have "a * 2 - DH_P = a - (DH_P - a)" by (simp only: mult_2_right diff_diff_eq2)
    then have "unat (a * 2 - DH_P) = unat a - (unat DH_P - unat a)" by (simp only: unat_sub [OF True] t)
    also have "\<dots> = 2 * unat a - unat DH_P" using assms le by simp
    finally show ?thesis using True assms le by (simp add: le_mod_geq)
  next
    case False
    then have lt: "2 * unat a < unat DH_P" by (simp add: word_le_nat_alt t not_le)
    then have "unat (a * 2) = 2 * unat a" by (subst unat_mult_lem [THEN iffD1]) (auto simp: unat_DH_P)
    with False lt show ?thesis by simp
  qed
qed

lemma odd_and_1: "b AND 1 \<noteq> 0 \<longleftrightarrow> odd (unat (b :: u64))"
proof -
  have "unat (b AND 1) = unat b mod 2" by (simp add: and_one_eq unat_mod)
  then show ?thesis by (metis unat_eq_zero odd_iff_mod_2_eq_one zero_neq_one not_mod_2_eq_0_eq_1)
qed

lemma mul_loop_correct:
  "unat m < unat DH_P \<Longrightarrow> unat a \<le> unat DH_P \<Longrightarrow>
     unat (mul_loop m a b) = (unat m + unat a * unat b) mod unat DH_P"
proof (induction m a b rule: mul_loop.induct)
  case (1 m a b)
  define q where "q = unat DH_P"
  define m1 where "m1 = (if b AND 1 \<noteq> 0 then if m \<ge> DH_P - a then m - (DH_P - a) else m + a else m)"
  define a1 where "a1 = (if a \<ge> DH_P - a then a * 2 - DH_P else a * 2)"
  show ?case
  proof (cases "b = 0")
    case True
    then show ?thesis using 1(2) by (simp add: mul_loop.simps [of m a 0])
  next
    case False
    have b1: "b AND 1 \<noteq> 0 \<longleftrightarrow> odd (unat b)" by (rule odd_and_1)
    have m1: "unat m1 = (unat m + (unat b mod 2) * unat a) mod q"
      using add_step [OF 1(2,3)] 1(2) b1 by (simp add: m1_def q_def mod_2_eq_odd)
    have a1: "unat a1 \<le> q" "unat a1 mod q = (2 * unat a) mod q" using double_step [OF 1(3)] by (simp_all add: a1_def q_def)
    have "0 < q" by (simp add: q_def unat_DH_P)
    then have "unat m1 < q" by (simp add: m1)
    have "mul_loop m a b = mul_loop m1 a1 (drop_bit 1 b)"
      using False by (subst mul_loop.simps) (simp only: m1_def a1_def Let_def if_False)
    then have "unat (mul_loop m a b) = (unat m1 + unat a1 * unat (drop_bit 1 b)) mod q"
      using 1(1) [OF False refl refl, unfolded Let_def, folded m1_def a1_def q_def] \<open>unat m1 < q\<close> a1(1) by simp
    also have "\<dots> = ((unat m + (unat b mod 2) * unat a) + 2 * unat a * (unat b div 2)) mod q"
    proof (rule mod_add_cong)
      show "unat m1 mod q = (unat m + (unat b mod 2) * unat a) mod q" by (simp add: m1)
      have "unat (drop_bit 1 b) = unat b div 2" by (simp add: drop_bit_eq_div unat_div)
      then show "(unat a1 * unat (drop_bit 1 b)) mod q = (2 * unat a * (unat b div 2)) mod q"
        using a1(2) by (metis mod_mult_left_eq)
    qed
    also have "(unat m + (unat b mod 2) * unat a) + 2 * unat a * (unat b div 2) = unat m + unat a * (unat b mod 2 + 2 * (unat b div 2))"
      by (simp only: distrib_left ac_simps)
    finally show ?thesis by (simp add: q_def)
  qed
qed

lemma mul_mod_p_correct: "unat a \<le> unat DH_P \<Longrightarrow> unat (mul_mod_p a b) = unat a * unat b mod unat DH_P"
  by (simp add: mul_mod_p_def mul_loop_correct unat_DH_P)

lemma half_nonzero:
  assumes "b \<noteq> 1" "b \<noteq> (0 :: u64)"
  shows "drop_bit 1 b \<noteq> 0"
proof -
  have "unat b \<noteq> 0" "unat b \<noteq> 1" using assms by (metis unat_eq_zero, metis unat_1 word_unat_eq_iff)
  then have "unat b div 2 \<noteq> 0" by linarith
  moreover have "unat (drop_bit 1 b) = unat b div 2" by (simp add: drop_bit_eq_div unat_div)
  ultimately show ?thesis by (intro notI) (simp only: unat_0)
qed

lemma pow_mod_p_correct:
  assumes "unat a < unat DH_P" "b \<noteq> 0"
  shows "\<exists>r. pow_mod_p a b = Some r \<and> unat r = unat a ^ unat b mod unat DH_P"
  using assms(2)
proof (induction "unat b" arbitrary: b rule: less_induct)
  case less
  define q where "q = unat DH_P"
  show ?case
  proof (cases "b = 1")
    case True
    then show ?thesis using assms(1) by (simp add: pow_mod_p.simps [of a 1])
  next
    case False
    have div2: "unat (drop_bit 1 b) = unat b div 2" by (simp add: drop_bit_eq_div unat_div)
    have "drop_bit 1 b \<noteq> 0" using False less.prems by (rule half_nonzero)
    then obtain t where t: "pow_mod_p a (drop_bit 1 b) = Some t" "unat t = unat a ^ (unat b div 2) mod q"
      using less.hyps [of "drop_bit 1 b"] half_smaller [OF less.prems] div2 by (auto simp: q_def)
    have q0: "0 < q" by (simp add: q_def unat_DH_P)
    have tt: "unat (mul_mod_p t t) = unat a ^ (2 * (unat b div 2)) mod q"
      using mul_mod_p_correct [of t t] t(2) q0 by (simp add: q_def less_imp_le mod_mult_eq mult_2 power_add)
    have "b mod 2 \<noteq> 0 \<longleftrightarrow> odd (unat b)" using odd_and_1 [of b] by (simp add: and_one_eq)
    moreover have "unat (mul_mod_p (mul_mod_p t t) a) = unat a ^ (2 * (unat b div 2) + 1) mod q"
      using mul_mod_p_correct [of "mul_mod_p t t" a] tt q0 by (simp add: q_def less_imp_le mod_mult_right_eq mult.commute)
    ultimately show ?thesis
      using False t(1) tt by (cases "odd (unat b)") (simp_all add: pow_mod_p.simps [of a b] Let_def q_def)
  qed
qed

lemma pow_mod_p_prime:
  assumes "b \<noteq> 0"
  shows "\<exists>r. pow_mod_p DH_P b = Some r \<and> unat r = (if b = 1 then unat DH_P else 0)"
  using assms
proof (induction "unat b" arbitrary: b rule: less_induct)
  case less
  show ?case
  proof (cases "b = 1")
    case True
    then show ?thesis by (simp add: pow_mod_p.simps [of DH_P 1])
  next
    case False
    then have "drop_bit 1 b \<noteq> 0" using less.prems by (rule half_nonzero)
    then obtain t where t: "pow_mod_p DH_P (drop_bit 1 b) = Some t" "unat t \<le> unat DH_P" "unat t mod unat DH_P = 0"
      using less.hyps [of "drop_bit 1 b"] half_smaller [OF less.prems] by fastforce
    have tt: "unat (mul_mod_p t t) = 0" using mul_mod_p_correct [of t t] t by (metis mod_mult_left_eq mult_zero_left mod_0)
    then have "unat (mul_mod_p (mul_mod_p t t) DH_P) = 0" using mul_mod_p_correct [of "mul_mod_p t t" DH_P] by simp
    with False t(1) tt show ?thesis by (simp add: pow_mod_p.simps [of DH_P b] Let_def)
  qed
qed

text \<open>for a positive exponent and any base but the prime itself, \<^verbatim>\<open>powmodp\<close> ends and computes the power modulo
  the prime. For the prime itself, which is not reduced, the first power comes out as the prime and
  not as 0.\<close>

theorem powmodp_correct:
  assumes "b \<noteq> 0"
  shows "\<exists>r. powmodp a b = Inr r \<and>
    unat r = (if a = DH_P \<and> b = 1 then unat DH_P else unat a ^ unat b mod unat DH_P)"
proof -
  consider "a = DH_P" | "unat a < unat DH_P" | "unat DH_P < unat a" by (metis linorder_neqE_nat word_unat_eq_iff)
  then show ?thesis
  proof cases
    case 1
    have "unat DH_P ^ unat b mod unat DH_P = 0" using assms by (cases "unat b") (auto simp: unat_eq_zero)
    with 1 show ?thesis using pow_mod_p_prime [OF assms] by (auto simp: powmodp_def)
  next
    case 2
    then show ?thesis using pow_mod_p_correct [OF 2 assms] by (auto simp: powmodp_def word_less_nat_alt)
  next
    case 3
    define a1 where "a1 = a mod DH_P"
    have a1: "unat a1 = unat a mod unat DH_P" by (simp add: a1_def unat_mod)
    then have "unat a1 < unat DH_P" by (simp add: unat_DH_P)
    from pow_mod_p_correct [OF this assms] obtain r
      where "pow_mod_p a1 b = Some r" "unat r = unat a1 ^ unat b mod unat DH_P" by blast
    then show ?thesis using 3 by (auto simp: powmodp_def word_less_nat_alt a1 power_mod a1_def [symmetric])
  qed
qed

section \<open>The exchange\<close>

abbreviation le64 :: "u8 list \<Rightarrow> u64" where
  "le64 x \<equiv> get_le64 (get_le32 x 0, get_le32 x 4)"

lemma length_push64 [simp]: "length (push64 r) = 8"
  by (simp add: push64_def)

lemma le64_push64: "le64 (push64 r) = r"
proof (rule bit_word_eqI)
  fix n assume "n < LENGTH(64)"
  then consider "n < 8" | "8 \<le> n" "n < 16" | "16 \<le> n" "n < 24" | "24 \<le> n" "n < 32" | "32 \<le> n" "n < 40"
    | "40 \<le> n" "n < 48" | "48 \<le> n" "n < 56" | "56 \<le> n" "n < 64" by force
  then show "bit (le64 (push64 r)) n = bit r n"
    by cases (auto simp: get_le64_def get_le32_def push64_def bit_simps)
qed

lemma powmodp_below:
  assumes "unat a < unat DH_P" "b \<noteq> 0"
  obtains r where "powmodp a b = Inr r" "unat r = unat a ^ unat b mod unat DH_P"
  using pow_mod_p_correct [OF assms] assms(1) by (auto simp: powmodp_def word_less_nat_alt)

lemma coprime_5_DH_P: "coprime (5 :: nat) (2 ^ 64 - 59)"
proof (rule coprimeI)
  fix c :: nat
  assume c: "c dvd 5" "c dvd 2 ^ 64 - 59"
  have "(2 ^ 64 - 59 :: nat) = 5 * 3689348814741910311 + 2" by simp
  with c(2) have "c dvd 5 * 3689348814741910311 + 2" by simp
  then have "c dvd 2" using c(1) by (metis dvd_add_right_iff dvd_mult2)
  then have "c dvd 5 - 2 * 2" using c(1) by (metis dvd_diff_nat dvd_mult2)
  then show "is_unit c" by simp
qed

lemma exchange_value:
  assumes "length x = 8" "le64 x \<noteq> 0"
  obtains r where "ldhexchange x = Inr (push64 r)" "unat r = 5 ^ unat (le64 x) mod unat DH_P" "r \<noteq> 0"
proof -
  have G: "unat DH_G < unat DH_P" by (simp add: DH_G_def unat_DH_P)
  obtain r where r: "powmodp DH_G (le64 x) = Inr r" "unat r = unat DH_G ^ unat (le64 x) mod unat DH_P"
    using powmodp_below [OF G assms(2)] .
  have five: "unat DH_G = 5" by (simp add: DH_G_def)
  have "coprime (5 :: nat) (2 ^ 64 - 59)" by (rule coprime_5_DH_P)
  then have "coprime 5 (unat DH_P)" by (simp only: unat_DH_P)
  then have "coprime (5 ^ unat (le64 x)) (unat DH_P)" by (simp only: coprime_power_left_iff) simp
  moreover have "\<not> is_unit (unat DH_P)" by (simp add: unat_DH_P)
  ultimately have "\<not> unat DH_P dvd 5 ^ unat (le64 x)"
    using coprime_absorb_right [of "unat DH_P" "5 ^ unat (le64 x)"] by blast
  then have "5 ^ unat (le64 x) mod unat DH_P \<noteq> 0" by (simp only: dvd_eq_mod_eq_0 not_False_eq_True)
  then have "r \<noteq> 0" using r(2) five by (metis unat_0)
  then show thesis using that [of r] assms r five by (simp add: ldhexchange_def)
qed

lemma secret_value:
  assumes "length x = 8" "le64 x \<noteq> 0" "unat r = 5 ^ n mod unat DH_P" "r \<noteq> 0"
  obtains s where "ldhsecret (push64 r) x = Inr (push64 s)" "unat s = 5 ^ (n * unat (le64 x)) mod unat DH_P"
proof -
  have "unat r < unat DH_P" by (simp add: assms(3) unat_DH_P)
  from powmodp_below [OF this assms(2)] obtain s
    where s: "powmodp r (le64 x) = Inr s" "unat s = unat r ^ unat (le64 x) mod unat DH_P" .
  have "unat s = 5 ^ (n * unat (le64 x)) mod unat DH_P" using s(2) assms(3) by (simp add: power_mod power_mult)
  then show thesis
    using that [of s] s(1) assms by (simp add: ldhsecret_def read64_def le64_push64)
qed

text \<open>C25: two sides that exchange what \<^verbatim>\<open>dhexchange\<close> makes of their keys (eight bytes each, not all zero)
  compute the same secret, the power of the generator to the product of the keys modulo the prime.\<close>

theorem dh_agreement:
  assumes "length a = 8" "length b = 8" "le64 a \<noteq> 0" "le64 b \<noteq> 0"
  shows "\<exists>A B s. ldhexchange a = Inr A \<and> ldhexchange b = Inr B \<and>
    ldhsecret A b = Inr (push64 s) \<and> ldhsecret B a = Inr (push64 s) \<and>
    unat s = 5 ^ (unat (le64 a) * unat (le64 b)) mod unat DH_P"
proof -
  obtain ra where ra: "ldhexchange a = Inr (push64 ra)" "unat ra = 5 ^ unat (le64 a) mod unat DH_P" "ra \<noteq> 0"
    using exchange_value [OF assms(1,3)] .
  obtain rb where rb: "ldhexchange b = Inr (push64 rb)" "unat rb = 5 ^ unat (le64 b) mod unat DH_P" "rb \<noteq> 0"
    using exchange_value [OF assms(2,4)] .
  obtain s where s: "ldhsecret (push64 ra) b = Inr (push64 s)" "unat s = 5 ^ (unat (le64 a) * unat (le64 b)) mod unat DH_P"
    using secret_value [OF assms(2,4) ra(2,3)] .
  obtain s' where s': "ldhsecret (push64 rb) a = Inr (push64 s')" "unat s' = 5 ^ (unat (le64 b) * unat (le64 a)) mod unat DH_P"
    using secret_value [OF assms(1,3) rb(2,3)] .
  have "unat s' = unat s" using s(2) s'(2) by (simp only: mult.commute)
  then have "s' = s" by (simp only: word_unat_eq_iff)
  with ra rb s s' show ?thesis by blast
qed

theorem powmodp_correct_witness: "(3 :: u64) \<noteq> 0 \<and> (\<exists>r. powmodp 5 3 = Inr r \<and> unat r = 125)"
  using powmodp_correct [of 3 5] by (simp add: DH_P_def)

theorem dh_agreement_witness:
  "\<exists>A B s. ldhexchange [2, 0, 0, 0, 0, 0, 0, 0] = Inr A \<and> ldhexchange [3, 0, 0, 0, 0, 0, 0, 0] = Inr B \<and>
    ldhsecret A [3, 0, 0, 0, 0, 0, 0, 0] = Inr (push64 s) \<and> ldhsecret B [2, 0, 0, 0, 0, 0, 0, 0] = Inr (push64 s) \<and>
    unat s = 15625"
  using dh_agreement [of "[2, 0, 0, 0, 0, 0, 0, 0]" "[3, 0, 0, 0, 0, 0, 0, 0]"]
  by (simp add: get_le64_def get_le32_def unat_DH_P)

section \<open>Base64 text\<close>

lemma b64_encoding_codes: "b64_encoding = [65, 66, 67, 68, 69, 70, 71, 72, 73, 74, 75, 76, 77, 78, 79, 80, 81, 82, 83, 84, 85, 86, 87, 88, 89, 90, 97, 98, 99, 100, 101, 102, 103, 104, 105, 106, 107, 108, 109, 110, 111, 112, 113, 114, 115, 116, 117, 118, 119, 120, 121, 122, 48, 49, 50, 51, 52, 53, 54, 55, 56, 57, 43, 47]"
  by (simp add: b64_encoding_def of_char_def)

lemma b64index_codes: "map b64index [65, 66, 67, 68, 69, 70, 71, 72, 73, 74, 75, 76, 77, 78, 79, 80, 81, 82, 83, 84, 85, 86, 87, 88, 89, 90, 97, 98, 99, 100, 101, 102, 103, 104, 105, 106, 107, 108, 109, 110, 111, 112, 113, 114, 115, 116, 117, 118, 119, 120, 121, 122, 48, 49, 50, 51, 52, 53, 54, 55, 56, 57, 43, 47] = map int [0..<64]"
  by (simp add: upt_rec b64index_def b64_decoding_def)

lemma b64index_char: "unat v < 64 \<Longrightarrow> b64index (b64_char v) = uint v"
proof -
  assume v: "unat v < 64"
  have len: "length b64_encoding = 64" by (simp add: b64_encoding_def)
  have "b64index (b64_char v) = map b64index b64_encoding ! unat v"
    unfolding b64_char_def by (rule nth_map [symmetric]) (simp only: len v)
  also have "\<dots> = map int [0..<64] ! unat v" by (simp only: b64_encoding_codes b64index_codes)
  also have "\<dots> = uint v" using v by simp
  finally show ?thesis .
qed

lemma b64index_pad: "b64index (of_char (CHR ''='')) = - 2" "b64index 61 = - 2"
  by (simp_all add: b64index_def b64_decoding_def of_char_def)

lemma uint_not_code: "uint v \<noteq> - 1" "uint v \<noteq> - 2"
  by (metis neg_0_le_iff_le not_one_le_zero unsigned_greater_eq) (metis neg_0_le_iff_le not_numeral_le_zero unsigned_greater_eq)

lemma b64_quad_chars:
  assumes "unat a < 64" "unat b < 64" "unat c < 64" "unat d < 64"
  shows "b64_quad 4 (b64_char a # b64_char b # b64_char c # b64_char d # ts)
      = Inr ([uint a, uint b, uint c, uint d], 0, ts)"
    "b64_quad 4 (b64_char a # b64_char b # b64_char c # of_char (CHR ''='') # ts)
      = Inr ([uint a, uint b, uint c, - 2], 1, ts)"
    "b64_quad 4 (b64_char a # b64_char b # of_char (CHR ''='') # of_char (CHR ''='') # ts)
      = Inr ([uint a, uint b, - 2, - 2], 2, ts)"
proof -
  have four: "(4 :: nat) = Suc (Suc (Suc (Suc 0)))" by simp
  show "b64_quad 4 (b64_char a # b64_char b # b64_char c # b64_char d # ts)
      = Inr ([uint a, uint b, uint c, uint d], 0, ts)"
    "b64_quad 4 (b64_char a # b64_char b # b64_char c # of_char (CHR ''='') # ts)
      = Inr ([uint a, uint b, uint c, - 2], 1, ts)"
    "b64_quad 4 (b64_char a # b64_char b # of_char (CHR ''='') # of_char (CHR ''='') # ts)
      = Inr ([uint a, uint b, - 2, - 2], 2, ts)"
    unfolding four using assms by (simp_all add: b64index_char b64index_pad uint_not_code Let_def)
qed

lemma six_bits: "unat (v AND 0x3f) < 64" for v :: u32
proof -
  have "v AND 0x3f = take_bit 6 v" by (simp add: take_bit_eq_mask mask_eq_exp_minus_1)
  then show ?thesis using take_bit_nat_less_exp [of 6 "unat v"] by (simp add: unsigned_take_bit_eq)
qed

lemma sextets:
  "push_bit 18 (drop_bit 18 v) OR push_bit 12 (take_bit 6 (drop_bit 12 v)) OR push_bit 6 (take_bit 6 (drop_bit 6 v))
     OR take_bit 6 v = (v :: u32)" (is "?w = v")
proof (rule bit_word_eqI)
  fix n assume "n < LENGTH(32)"
  then consider "n < 6" | "6 \<le> n" "n < 12" | "12 \<le> n" "n < 18" | "18 \<le> n" "n < 32" by force
  then show "bit ?w n = bit v n" by cases (auto simp: bit_simps)
qed

lemma b64_out_three:
  fixes a b c :: u8
  defines "v \<equiv> push_bit 16 (ucast a) OR push_bit 8 (ucast b) OR ucast c :: u32"
  shows "b64_out [uint (drop_bit 18 v), uint (drop_bit 12 v AND 0x3f), uint (drop_bit 6 v AND 0x3f), uint (v AND 0x3f)] 0
      = Inr [a, b, c]"
    "unat (drop_bit 18 v) < 64"
proof -
  have m: "x AND 0x3f = take_bit 6 x" "x AND 0xff = take_bit 8 x" for x :: u32
    by (simp_all add: take_bit_eq_mask mask_eq_exp_minus_1)
  have top: "drop_bit 18 v = take_bit 6 (drop_bit 18 v)"
    by (rule bit_word_eqI) (auto simp: v_def bit_simps dest: bit_imp_le_length)
  then show "unat (drop_bit 18 v) < 64" using six_bits [of "drop_bit 18 v"] by (simp only: m)
  have "b64_out [uint c0, uint c1, uint c2, uint c3] 0 =
      (let v = push_bit 18 c0 OR push_bit 12 c1 OR push_bit 6 c2 OR c3
       in Inr [ucast (drop_bit 16 v), ucast (drop_bit 8 v AND 0xff), ucast (v AND 0xff)])" for c0 c1 c2 c3 :: u32
    by (simp add: b64_out_def)
  then have "b64_out [uint (drop_bit 18 v), uint (drop_bit 12 v AND 0x3f), uint (drop_bit 6 v AND 0x3f), uint (v AND 0x3f)] 0
      = Inr [ucast (drop_bit 16 v), ucast (drop_bit 8 v AND 0xff), ucast (v AND 0xff)]"
    by (simp only: Let_def m sextets)
  also have "\<dots> = Inr [a, b, c]"
  proof -
    have "\<not> bit b (8 + n)" "\<not> bit c (8 + n)" "\<not> bit c (16 + n)" for n by (auto dest: bit_imp_le_length)
    then show ?thesis unfolding m v_def by (auto intro!: bit_word_eqI simp: bit_simps)
  qed
  finally show "b64_out [uint (drop_bit 18 v), uint (drop_bit 12 v AND 0x3f), uint (drop_bit 6 v AND 0x3f), uint (v AND 0x3f)] 0
      = Inr [a, b, c]" .
qed

lemma b64_out_two:
  fixes a b :: u8
  defines "v \<equiv> push_bit 8 (ucast a) OR ucast b :: u32"
  shows "b64_out [uint (drop_bit 10 v), uint (drop_bit 4 v AND 0x3f), uint (push_bit 2 (v AND 0xf)), - 2] 1 = Inr [a, b]"
    "unat (drop_bit 10 v) < 64" "unat (push_bit 2 (v AND 0xf)) < 64"
proof -
  have m: "x AND 0x3f = take_bit 6 x" "x AND 0xff = take_bit 8 x" "x AND 0xf = take_bit 4 x" "x AND 3 = take_bit 2 x" for x :: u32
    by (simp_all add: take_bit_eq_mask mask_eq_exp_minus_1)
  have "drop_bit 10 v = take_bit 6 (drop_bit 10 v)"
    by (rule bit_word_eqI) (auto simp: v_def bit_simps dest: bit_imp_le_length)
  then show "unat (drop_bit 10 v) < 64" using six_bits [of "drop_bit 10 v"] by (simp only: m)
  have "push_bit 2 (take_bit 4 v) = take_bit 6 (push_bit 2 (take_bit 4 v))"
    by (rule bit_word_eqI) (auto simp: bit_simps)
  then show "unat (push_bit 2 (v AND 0xf)) < 64" using six_bits [of "push_bit 2 (v AND 0xf)"] by (simp only: m)
  have "take_bit 2 (push_bit 2 (take_bit 4 v)) = 0" by (rule bit_word_eqI) (auto simp: bit_simps)
  moreover have "push_bit 10 (drop_bit 10 v) OR push_bit 4 (take_bit 6 (drop_bit 4 v)) OR drop_bit 2 (push_bit 2 (take_bit 4 v)) = v"
    (is "?w = v")
  proof (rule bit_word_eqI)
    fix n assume "n < LENGTH(32)"
    then consider "n < 4" | "4 \<le> n" "n < 10" | "10 \<le> n" "n < 32" by force
    then show "bit ?w n = bit v n" by cases (auto simp: bit_simps)
  qed
  ultimately have "b64_out [uint (drop_bit 10 v), uint (drop_bit 4 v AND 0x3f), uint (push_bit 2 (v AND 0xf)), - 2] 1
      = Inr [ucast (drop_bit 8 v), ucast (v AND 0xff)]"
    unfolding b64_out_def Let_def m by simp
  also have "\<dots> = Inr [a, b]"
  proof -
    have "\<not> bit b (8 + n)" for n by (auto dest: bit_imp_le_length)
    then show ?thesis unfolding m v_def by (auto intro!: bit_word_eqI simp: bit_simps)
  qed
  finally show "b64_out [uint (drop_bit 10 v), uint (drop_bit 4 v AND 0x3f), uint (push_bit 2 (v AND 0xf)), - 2] 1 = Inr [a, b]" .
qed

lemma b64_out_one:
  fixes a :: u8
  defines "v \<equiv> ucast a :: u32"
  shows "b64_out [uint (drop_bit 2 v), uint (push_bit 4 (v AND 3)), - 2, - 2] 2 = Inr [a]"
    "unat (drop_bit 2 v) < 64" "unat (push_bit 4 (v AND 3)) < 64"
proof -
  have m: "x AND 0x3f = take_bit 6 x" "x AND 0xf = take_bit 4 x" "x AND 3 = take_bit 2 x" for x :: u32
    by (simp_all add: take_bit_eq_mask mask_eq_exp_minus_1)
  have "drop_bit 2 v = take_bit 6 (drop_bit 2 v)"
    by (rule bit_word_eqI) (auto simp: v_def bit_simps dest: bit_imp_le_length)
  then show "unat (drop_bit 2 v) < 64" using six_bits [of "drop_bit 2 v"] by (simp only: m)
  have "push_bit 4 (take_bit 2 v) = take_bit 6 (push_bit 4 (take_bit 2 v))"
    by (rule bit_word_eqI) (auto simp: bit_simps)
  then show "unat (push_bit 4 (v AND 3)) < 64" using six_bits [of "push_bit 4 (v AND 3)"] by (simp only: m)
  have "take_bit 4 (push_bit 4 (take_bit 2 v)) = 0" by (rule bit_word_eqI) (auto simp: bit_simps)
  moreover have "push_bit 2 (drop_bit 2 v) OR drop_bit 4 (push_bit 4 (take_bit 2 v)) = v" (is "?w = v")
  proof (rule bit_word_eqI)
    fix n assume "n < LENGTH(32)"
    then consider "n < 2" | "2 \<le> n" "n < 32" by force
    then show "bit ?w n = bit v n" by cases (auto simp: bit_simps simp del: add_2_eq_Suc add_2_eq_Suc')
  qed
  ultimately have "b64_out [uint (drop_bit 2 v), uint (push_bit 4 (v AND 3)), - 2, - 2] 2 = Inr [ucast v]"
    unfolding b64_out_def Let_def m by simp
  also have "\<dots> = Inr [a]" unfolding v_def by (auto intro!: bit_word_eqI simp: bit_simps)
  finally show "b64_out [uint (drop_bit 2 v), uint (push_bit 4 (v AND 3)), - 2, - 2] 2 = Inr [a]" .
qed

lemma lb64decode_group:
  assumes "b64_quad 4 t = Inr (c, p, r)" "b64_out c p = Inr out" "lb64decode r = Inr bs"
  shows "lb64decode t = Inr (out @ bs)"
proof -
  have "t \<noteq> []" using assms(1) b64_quad_rest [of 4 t] by auto
  with assms show ?thesis by (simp add: lb64decode.simps [of t])
qed

text \<open>base64 text decodes to what was encoded, for every length modulo three.\<close>

theorem base64decode_base64encode: "lb64decode (lb64encode bs) = Inr bs"
proof (induction bs rule: lb64encode.induct)
  case (1 a b c ts)
  define v :: u32 where "v = push_bit 16 (ucast a) OR push_bit 8 (ucast b) OR ucast c"
  have "lb64encode (a # b # c # ts) = b64_char (drop_bit 18 v) # b64_char (drop_bit 12 v AND 0x3f)
      # b64_char (drop_bit 6 v AND 0x3f) # b64_char (v AND 0x3f) # lb64encode ts"
    by (simp only: lb64encode.simps Let_def v_def)
  then show ?case
    using lb64decode_group [OF b64_quad_chars(1) [OF _ six_bits six_bits six_bits] _ 1] b64_out_three [of a b c, folded v_def]
    by simp
next
  case (2 a b)
  define v :: u32 where "v = push_bit 8 (ucast a) OR ucast b"
  have enc: "lb64encode [a, b] = [b64_char (drop_bit 10 v), b64_char (drop_bit 4 v AND 0x3f),
      b64_char (push_bit 2 (v AND 0xf)), of_char (CHR ''='')]"
    by (simp only: lb64encode.simps Let_def v_def)
  show ?case unfolding enc
    using lb64decode_group [OF b64_quad_chars(2) [OF _ six_bits _ six_bits]] b64_out_two [of a b, folded v_def]
    by (simp add: lb64decode.simps [of "[]"])
next
  case (3 a)
  define v :: u32 where "v = ucast a"
  have enc: "lb64encode [a] = [b64_char (drop_bit 2 v), b64_char (push_bit 4 (v AND 3)), of_char (CHR ''=''), of_char (CHR ''='')]"
    by (simp only: lb64encode.simps Let_def v_def)
  show ?case unfolding enc
    using lb64decode_group [OF b64_quad_chars(3) [OF _ _ six_bits six_bits]] b64_out_one [of a, folded v_def]
    by (simp add: lb64decode.simps [of "[]"])
qed (simp add: lb64decode.simps)

end
