(* ===== verification/Crypt_Md5.thy ===== *)
theory Crypt_Md5
  imports Crypt_Codec
begin

text \<open>
  MD5 as \<^verbatim>\<open>3rd/lua-md5/md5.c\<close> has it, the library that the comment on \<^verbatim>\<open>hmac64_md5\<close> in
  \<^verbatim>\<open>lualib-src/lua-crypt.c\<close> compares the authentication code with, and the equivalence that the comment
  states: the code is the exclusive or of the two halves of the MD5 sum of three copies of key and text.
  The two files write the digest differently, as unrolled passes over an array and as one loop.
\<close>

unbundle bit_operations_syntax

section \<open>The digest\<close>

definition md5_T :: "u32 list" where
  "md5_T = [
     0xd76aa478, 0xe8c7b756, 0x242070db, 0xc1bdceee, 0xf57c0faf, 0x4787c62a,
     0xa8304613, 0xfd469501, 0x698098d8, 0x8b44f7af, 0xffff5bb1, 0x895cd7be,
     0x6b901122, 0xfd987193, 0xa679438e, 0x49b40821, 0xf61e2562, 0xc040b340,
     0x265e5a51, 0xe9b6c7aa, 0xd62f105d, 0x02441453, 0xd8a1e681, 0xe7d3fbc8,
     0x21e1cde6, 0xc33707d6, 0xf4d50d87, 0x455a14ed, 0xa9e3e905, 0xfcefa3f8,
     0x676f02d9, 0x8d2a4c8a, 0xfffa3942, 0x8771f681, 0x6d9d6122, 0xfde5380c,
     0xa4beea44, 0x4bdecfa9, 0xf6bb4b60, 0xbebfbc70, 0x289b7ec6, 0xeaa127fa,
     0xd4ef3085, 0x04881d05, 0xd9d4d039, 0xe6db99e5, 0x1fa27cf8, 0xc4ac5665,
     0xf4292244, 0x432aff97, 0xab9423a7, 0xfc93a039, 0x655b59c3, 0x8f0ccc92,
     0xffeff47d, 0x85845dd1, 0x6fa87e4f, 0xfe2ce6e0, 0xa3014314, 0x4e0811a1,
     0xf7537e82, 0xbd3af235, 0x2ad7d2bb, 0xeb86d391]"

definition md5_rotate :: "u32 \<Rightarrow> nat \<Rightarrow> u32" where
  "md5_rotate D num = push_bit num D OR drop_bit (32 - num) D"

definition md5_F :: "u32 \<Rightarrow> u32 \<Rightarrow> u32 \<Rightarrow> u32" where "md5_F x y z = (x AND y) OR (NOT x AND z)"
definition md5_G :: "u32 \<Rightarrow> u32 \<Rightarrow> u32 \<Rightarrow> u32" where "md5_G x y z = (x AND z) OR (y AND NOT z)"
definition md5_H :: "u32 \<Rightarrow> u32 \<Rightarrow> u32 \<Rightarrow> u32" where "md5_H x y z = x XOR y XOR z"
definition md5_I :: "u32 \<Rightarrow> u32 \<Rightarrow> u32 \<Rightarrow> u32" where "md5_I x y z = y XOR (x OR NOT z)"

text \<open>One assignment group of the digest: \<open>a\<close> is the word that it changes.\<close>

definition md5_op :: "(u32 \<Rightarrow> u32 \<Rightarrow> u32 \<Rightarrow> u32) \<Rightarrow> u32 \<Rightarrow> u32 \<Rightarrow> u32 \<Rightarrow> u32 \<Rightarrow> u32 \<Rightarrow> u32 \<Rightarrow> nat \<Rightarrow> u32" where
  "md5_op f a b c d m t num = md5_rotate (a + f b c d + m + t) num + b"

text \<open>The bodies of the four loops.\<close>

definition md5_passo1 :: "u32 list \<Rightarrow> nat \<Rightarrow> u32 \<times> u32 \<times> u32 \<times> u32 \<Rightarrow> u32 \<times> u32 \<times> u32 \<times> u32" where
  "md5_passo1 m j = (\<lambda>(d0, d1, d2, d3).
     let d0 = md5_op md5_F d0 d1 d2 d3 (m ! j) (md5_T ! j) 7;
         d3 = md5_op md5_F d3 d0 d1 d2 (m ! (j + 1)) (md5_T ! (j + 1)) 12;
         d2 = md5_op md5_F d2 d3 d0 d1 (m ! (j + 2)) (md5_T ! (j + 2)) 17;
         d1 = md5_op md5_F d1 d2 d3 d0 (m ! (j + 3)) (md5_T ! (j + 3)) 22
     in (d0, d1, d2, d3))"

definition md5_passo2 :: "u32 list \<Rightarrow> nat \<Rightarrow> u32 \<times> u32 \<times> u32 \<times> u32 \<Rightarrow> u32 \<times> u32 \<times> u32 \<times> u32" where
  "md5_passo2 m j = (\<lambda>(d0, d1, d2, d3).
     let d0 = md5_op md5_G d0 d1 d2 d3 (m ! ((5 * j + 1) mod 16)) (md5_T ! (j + 16)) 5;
         d3 = md5_op md5_G d3 d0 d1 d2 (m ! ((5 * (j + 1) + 1) mod 16)) (md5_T ! (j + 17)) 9;
         d2 = md5_op md5_G d2 d3 d0 d1 (m ! ((5 * (j + 2) + 1) mod 16)) (md5_T ! (j + 18)) 14;
         d1 = md5_op md5_G d1 d2 d3 d0 (m ! ((5 * (j + 3) + 1) mod 16)) (md5_T ! (j + 19)) 20
     in (d0, d1, d2, d3))"

definition md5_passo3 :: "u32 list \<Rightarrow> nat \<Rightarrow> u32 \<times> u32 \<times> u32 \<times> u32 \<Rightarrow> u32 \<times> u32 \<times> u32 \<times> u32" where
  "md5_passo3 m j = (\<lambda>(d0, d1, d2, d3).
     let d0 = md5_op md5_H d0 d1 d2 d3 (m ! ((3 * j + 5) mod 16)) (md5_T ! (j + 32)) 4;
         d3 = md5_op md5_H d3 d0 d1 d2 (m ! ((3 * (j + 1) + 5) mod 16)) (md5_T ! (j + 33)) 11;
         d2 = md5_op md5_H d2 d3 d0 d1 (m ! ((3 * (j + 2) + 5) mod 16)) (md5_T ! (j + 34)) 16;
         d1 = md5_op md5_H d1 d2 d3 d0 (m ! ((3 * (j + 3) + 5) mod 16)) (md5_T ! (j + 35)) 23
     in (d0, d1, d2, d3))"

definition md5_passo4 :: "u32 list \<Rightarrow> nat \<Rightarrow> u32 \<times> u32 \<times> u32 \<times> u32 \<Rightarrow> u32 \<times> u32 \<times> u32 \<times> u32" where
  "md5_passo4 m j = (\<lambda>(d0, d1, d2, d3).
     let d0 = md5_op md5_I d0 d1 d2 d3 (m ! ((7 * j) mod 16)) (md5_T ! (j + 48)) 6;
         d3 = md5_op md5_I d3 d0 d1 d2 (m ! ((7 * (j + 1)) mod 16)) (md5_T ! (j + 49)) 10;
         d2 = md5_op md5_I d2 d3 d0 d1 (m ! ((7 * (j + 2)) mod 16)) (md5_T ! (j + 50)) 15;
         d1 = md5_op md5_I d1 d2 d3 d0 (m ! ((7 * (j + 3)) mod 16)) (md5_T ! (j + 51)) 21
     in (d0, d1, d2, d3))"

definition md5_digest :: "u32 list \<Rightarrow> u32 \<times> u32 \<times> u32 \<times> u32 \<Rightarrow> u32 \<times> u32 \<times> u32 \<times> u32" where
  "md5_digest m d = fold (md5_passo4 m) [0, 4, 8, 12] (fold (md5_passo3 m) [0, 4, 8, 12]
     (fold (md5_passo2 m) [0, 4, 8, 12] (fold (md5_passo1 m) [0, 4, 8, 12] d)))"

section \<open>Messages\<close>

definition inic_digest :: "u32 \<times> u32 \<times> u32 \<times> u32" where
  "inic_digest = (0x67452301, 0xEFCDAB89, 0x98BADCFE, 0x10325476)"

definition word32tobytes :: "u32 \<times> u32 \<times> u32 \<times> u32 \<Rightarrow> u8 list" where
  "word32tobytes = (\<lambda>(d0, d1, d2, d3). concat (map (\<lambda>v.
     [ucast (v AND 0xff), ucast (drop_bit 8 v AND 0xff), ucast (drop_bit 16 v AND 0xff), ucast (drop_bit 24 v AND 0xff)])
     [d0, d1, d2, d3]))"

definition bytestoword32 :: "u8 list \<Rightarrow> u32 list" where
  "bytestoword32 pt = map (\<lambda>i. let j = i * 4 in
     push_bit 8 (push_bit 8 (push_bit 8 (ucast (pt ! (j + 3))) OR ucast (pt ! (j + 2))) OR ucast (pt ! (j + 1)))
     OR ucast (pt ! j)) [0..<16]"

text \<open>The length in bits, in the last two words.\<close>

definition put_length :: "u32 list \<Rightarrow> u64 \<Rightarrow> u32 list" where
  "put_length x len = x[14 := ucast (push_bit 3 len), 15 := ucast (drop_bit 29 len AND 0x7)]"

definition converte :: "u8 list \<Rightarrow> nat \<Rightarrow> nat \<Rightarrow> u32 list \<times> nat" where
  "converte pt num old_status =
     (let (pt, new_status) =
        (if num < 64 then
           let buff = take num pt @ replicate (64 - num) 0 in
           (if old_status = 0 then buff[num := 0x80] else buff, 1)
         else (pt, 0))
      in (bytestoword32 pt, if num \<le> 64 - 9 then 2 else new_status))"

text \<open>The loop of \<^verbatim>\<open>md5\<close> at the rest of the message; it ends with the block that takes the length.\<close>

function md5_loop :: "u64 \<Rightarrow> nat \<Rightarrow> u8 list \<Rightarrow> u32 \<times> u32 \<times> u32 \<times> u32 \<Rightarrow> u32 \<times> u32 \<times> u32 \<times> u32" where
  "md5_loop len status rest d =
     (let numbytes = (if length rest \<ge> 64 then 64 else length rest);
          (wbuff, status) = converte rest numbytes status;
          wbuff = (if status = 2 then put_length wbuff len else wbuff);
          (o0, o1, o2, o3) = d;
          (d0, d1, d2, d3) = md5_digest wbuff d;
          d = (d0 + o0, d1 + o1, d2 + o2, d3 + o3)
      in if status \<noteq> 2 then md5_loop len status (drop numbytes rest) d else d)"
  by pat_completeness auto
termination
proof (relation "measure (\<lambda>(len, status, rest, d). length rest)", goal_cases)
  case (2 len status rest d numbytes p wbuff status' wbuff' _ _ _ _ _ _ _ _ _ _ _ _ _ _ _)
  then show ?case by (cases rest) (auto simp: converte_def Let_def split: if_splits)
qed simp

declare md5_loop.simps [simp del]

definition md5 :: "u8 list \<Rightarrow> u8 list" where
  "md5 message = word32tobytes (md5_loop (of_nat (length message)) 0 message inic_digest)"

section \<open>The two digests\<close>

lemma md5_k_T: "md5_k = md5_T"
  by (simp only: md5_k_def md5_T_def)

lemma md5_step_op:
  "i < 16 \<Longrightarrow> md5_step w i (a, b, c, d) = (d, md5_op md5_F a b c d (w ! i) (md5_T ! i) (md5_r ! i), b, c)"
  "16 \<le> i \<Longrightarrow> i < 32 \<Longrightarrow>
     md5_step w i (a, b, c, d) = (d, md5_op md5_G a b c d (w ! ((5 * i + 1) mod 16)) (md5_T ! i) (md5_r ! i), b, c)"
  "32 \<le> i \<Longrightarrow> i < 48 \<Longrightarrow>
     md5_step w i (a, b, c, d) = (d, md5_op md5_H a b c d (w ! ((3 * i + 5) mod 16)) (md5_T ! i) (md5_r ! i), b, c)"
  "48 \<le> i \<Longrightarrow>
     md5_step w i (a, b, c, d) = (d, md5_op md5_I a b c d (w ! ((7 * i) mod 16)) (md5_T ! i) (md5_r ! i), b, c)"
  by (simp_all add: md5_op_def md5_F_def md5_G_def md5_H_def md5_I_def md5_k_T LEFTROTATE_def md5_rotate_def ac_simps)

lemma md5_passes:
  assumes j: "j \<in> {0, 4, 8, 12}"
  shows "md5_passo1 w j p = fold (md5_step w) [j, j + 1, j + 2, j + 3] p"
    "md5_passo2 w j p = fold (md5_step w) [j + 16, j + 17, j + 18, j + 19] p"
    "md5_passo3 w j p = fold (md5_step w) [j + 32, j + 33, j + 34, j + 35] p"
    "md5_passo4 w j p = fold (md5_step w) [j + 48, j + 49, j + 50, j + 51] p"
proof -
  obtain a b c d where p: "p = (a, b, c, d)" by (cases p)
  show "md5_passo1 w j p = fold (md5_step w) [j, j + 1, j + 2, j + 3] p"
    using j by (elim insertE emptyE; simp add: p md5_passo1_def Let_def md5_step_op md5_r_def del: md5_step.simps)
  show "md5_passo2 w j p = fold (md5_step w) [j + 16, j + 17, j + 18, j + 19] p"
    using j by (elim insertE emptyE; simp add: p md5_passo2_def Let_def md5_step_op md5_r_def del: md5_step.simps)
  show "md5_passo3 w j p = fold (md5_step w) [j + 32, j + 33, j + 34, j + 35] p"
    using j by (elim insertE emptyE; simp add: p md5_passo3_def Let_def md5_step_op md5_r_def del: md5_step.simps)
  show "md5_passo4 w j p = fold (md5_step w) [j + 48, j + 49, j + 50, j + 51] p"
    using j by (elim insertE emptyE; simp add: p md5_passo4_def Let_def md5_step_op md5_r_def del: md5_step.simps)
qed

lemma md5_digest_loop: "md5_digest w p = fold (md5_step w) [0..<64] p"
proof -
  have eq: "[0..<64 :: nat] = [0, 1, 2, 3] @ [4, 5, 6, 7] @ [8, 9, 10, 11] @ [12, 13, 14, 15]
      @ [16, 17, 18, 19] @ [20, 21, 22, 23] @ [24, 25, 26, 27] @ [28, 29, 30, 31]
      @ [32, 33, 34, 35] @ [36, 37, 38, 39] @ [40, 41, 42, 43] @ [44, 45, 46, 47]
      @ [48, 49, 50, 51] @ [52, 53, 54, 55] @ [56, 57, 58, 59] @ [60, 61, 62, 63]"
    by (simp add: upt_rec)
  show ?thesis unfolding md5_digest_def eq by (simp add: md5_passes numeral_2_eq_2 del: md5_step.simps)
qed

section \<open>The authentication code\<close>

lemma le_bytes:
  "push_bit 8 (push_bit 8 (push_bit 8 d OR c) OR b) OR a
     = a OR push_bit 8 b OR push_bit 16 c OR push_bit 24 (d :: u32)"
  by (simp add: push_bit_or or.assoc or.commute or.left_commute)

lemma bytestoword32_get: "i < 16 \<Longrightarrow> bytestoword32 pt ! i = get_le32 pt (4 * i)"
  unfolding bytestoword32_def get_le32_def Let_def by (simp add: le_bytes mult.commute del: push_bit_or)

lemma get_le32_append: "i + 3 < length x \<Longrightarrow> get_le32 (x @ y) i = get_le32 x i"
  "i = length x + j \<Longrightarrow> get_le32 (x @ y) i = get_le32 y j"
  by (simp_all add: get_le32_def nth_append add.assoc)

lemma hmac_blocks:
  assumes "length a = 8" "length b = 8"
  shows "put_length (bytestoword32 (a @ b @ a @ b @ a @ b @ 0x80 # replicate 15 0)) 48
    = concat (replicate 3 [get_le32 a 0, get_le32 a 4, get_le32 b 0, get_le32 b 4]) @ [0x80, 0, 384, 0]"
    (is "?l = ?r")
proof (rule nth_equalityI)
  have len: "length (bytestoword32 pt) = 16" for pt by (simp add: bytestoword32_def)
  then show "length ?l = length ?r" by (simp add: put_length_def numeral_3_eq_3)
  define m where "m = a @ b @ a @ b @ a @ b @ (0x80 :: u8) # replicate 15 0"
  have zero: "get_le32 (0x80 # replicate 15 0) 0 = 0x80" "get_le32 (0x80 # replicate 15 0) 4 = 0"
    by (simp_all add: get_le32_def)
  have m: "get_le32 m 0 = get_le32 a 0" "get_le32 m 4 = get_le32 a 4" "get_le32 m 8 = get_le32 b 0" "get_le32 m 12 = get_le32 b 4"
    "get_le32 m 16 = get_le32 a 0" "get_le32 m 20 = get_le32 a 4" "get_le32 m 24 = get_le32 b 0" "get_le32 m 28 = get_le32 b 4"
    "get_le32 m 32 = get_le32 a 0" "get_le32 m 36 = get_le32 a 4" "get_le32 m 40 = get_le32 b 0" "get_le32 m 44 = get_le32 b 4"
    "get_le32 m 48 = 0x80" "get_le32 m 52 = 0"
    using assms zero by (simp_all add: m_def get_le32_def nth_append) (simp_all add: numeral_2_eq_2)
  fix i assume "i < length ?l"
  then have "i \<in> set [0..<16]" by (simp add: len put_length_def)
  then show "?l ! i = ?r ! i"
    unfolding m_def [symmetric] put_length_def numeral_3_eq_3
    by (auto simp: upt_rec nth_list_update len bytestoword32_get m)
qed

lemma md5_one_block:
  assumes "length x = 48" "md5_digest (put_length (bytestoword32 (x @ 0x80 # replicate 15 0)) 48) inic_digest = (r0, r1, r2, r3)"
  shows "md5 x = bytes_le32 (r0 + 0x67452301) @ bytes_le32 (r1 + 0xefcdab89) @ bytes_le32 (r2 + 0x98badcfe)
    @ bytes_le32 (r3 + 0x10325476)"
proof -
  have "(x @ replicate 16 0)[48 := (0x80 :: u8)] = x @ 0x80 # replicate 15 0"
    using assms(1) by (simp add: list_update_append numeral_eq_Suc)
  then have "converte x 48 0 = (bytestoword32 (x @ 0x80 # replicate 15 0), 2)" using assms(1) by (simp add: converte_def)
  then have "md5_loop 48 0 x inic_digest = (r0 + 0x67452301, r1 + 0xefcdab89, r2 + 0x98badcfe, r3 + 0x10325476)"
    using assms by (simp add: md5_loop.simps [of 48 0 x] inic_digest_def)
  moreover have "v AND 0xff = take_bit 8 v" for v :: u32 by (simp add: take_bit_eq_mask mask_eq_exp_minus_1)
  then have "ucast (v AND 0xff) = (ucast v :: u8)" for v :: u32 by (auto intro!: bit_word_eqI simp: bit_simps)
  ultimately show ?thesis using assms(1) by (simp add: md5_def word32tobytes_def bytes_le32_def)
qed

lemma xor_bytes_le32:
  "bytes_le32 (x XOR y) = map2 (XOR) (bytes_le32 x) (bytes_le32 y)"
proof -
  have "ucast (u XOR v) = (ucast u XOR ucast v :: u8)" for u v :: u32 by (auto intro!: bit_word_eqI simp: bit_simps)
  then show ?thesis by (simp add: bytes_le32_def)
qed

lemma length_bytes_le32 [simp]: "length (bytes_le32 x) = 4" "bytes_le32 x \<noteq> []"
  by (simp_all add: bytes_le32_def)

lemma lxor_str_same_length:
  assumes "length s = length k" "k \<noteq> []"
  shows "lxor_str s k = Inr (map2 (XOR) s k)"
  using assms by (auto simp: lxor_str_def intro!: nth_equalityI)

text \<open>C26: the code that \<^verbatim>\<open>hmac64_md5\<close> computes for two strings of eight bytes is, as the comment on it says,
  the exclusive or of the two halves of the MD5 sum of three copies of the strings.\<close>

theorem hmac64_md5_is_md5:
  assumes "length a = 8" "length b = 8"
  shows "lhmac64_md5 a b =
    lxor_str (take 8 (md5 (concat (replicate 3 (a @ b))))) (drop 8 (md5 (concat (replicate 3 (a @ b)))))"
proof -
  define w where "w = concat (replicate 3 [get_le32 a 0, get_le32 a 4, get_le32 b 0, get_le32 b 4]) @ [0x80, 0, 384, 0]"
  define x where "x = concat (replicate 3 (a @ b))"
  obtain r0 r1 r2 r3 where r: "digest_md5 w = (r0, r1, r2, r3)" by (cases "digest_md5 w")
  have x: "x = a @ b @ a @ b @ a @ b" "length x = 48" using assms by (simp_all add: x_def numeral_3_eq_3)
  have "put_length (bytestoword32 (x @ 0x80 # replicate 15 0)) 48 = w"
    using hmac_blocks [OF assms] by (simp only: x(1) w_def append_assoc)
  then have "md5 x = bytes_le32 (r0 + 0x67452301) @ bytes_le32 (r1 + 0xefcdab89) @ bytes_le32 (r2 + 0x98badcfe)
      @ bytes_le32 (r3 + 0x10325476)"
    using md5_one_block [OF x(2)] r by (simp add: md5_digest_loop digest_md5_def inic_digest_def)
  then have "lxor_str (take 8 (md5 x)) (drop 8 (md5 x)) =
      Inr (bytes_le32 ((r0 + 0x67452301) XOR (r2 + 0x98badcfe)) @ bytes_le32 ((r1 + 0xefcdab89) XOR (r3 + 0x10325476)))"
    by (simp add: lxor_str_same_length xor_bytes_le32)
  moreover have "lhmac64_md5 a b =
      Inr (bytes_le32 ((r0 + 0x67452301) XOR (r2 + 0x98badcfe)) @ bytes_le32 ((r1 + 0xefcdab89) XOR (r3 + 0x10325476)))"
    using assms r by (simp add: lhmac64_md5_def read64_def hmac_md5_def pushqword_def w_def [symmetric])
  ultimately show ?thesis by (simp only: x_def)
qed

theorem hmac64_md5_is_md5_witness:
  "lhmac64_md5 [1, 2, 3, 4, 5, 6, 7, 8] [9, 10, 11, 12, 13, 14, 15, 16] =
     lxor_str (take 8 (md5 (concat (replicate 3 [1, 2, 3, 4, 5, 6, 7, 8, 9, 10, 11, 12, 13, 14, 15, 16]))))
       (drop 8 (md5 (concat (replicate 3 [1, 2, 3, 4, 5, 6, 7, 8, 9, 10, 11, 12, 13, 14, 15, 16]))))"
  using hmac64_md5_is_md5 [of "[1, 2, 3, 4, 5, 6, 7, 8]" "[9, 10, 11, 12, 13, 14, 15, 16]"] by simp

end
