(* ===== verification/Hash_Id.thy ===== *)
theory Hash_Id
  imports Linked_Chain "HOL-Library.Signed_Division"
begin

text \<open>
  The table of connection ids of the gate service, \<^verbatim>\<open>service-src/hashid.h\<close>: a fixed array of nodes,
  whose index is the number under which the gate keeps a connection, linked into hash buckets by key.

  Ids and \<^verbatim>\<open>hashmod\<close> are \<open>int\<close>s with the 32-bit wrap-around of the code's sums written out; a node
  pointer is the node's index. The loops over a bucket are \<^theory_text>\<open>partial_function\<close>s: a cyclic chain
  would not end.
\<close>

section \<open>Data and operations\<close>

record hashid_node =
  hn_id :: int
  hn_next :: "nat option"

record hashid =
  hi_hashmod :: int
  hi_cap :: nat
  hi_count :: int
  hi_id :: "hashid_node list"
  hi_hash :: "nat option list"

function grow_hashcap :: "nat \<Rightarrow> nat \<Rightarrow> nat" where
  "grow_hashcap hashcap m = (if 0 < hashcap \<and> hashcap < m then grow_hashcap (hashcap * 2) m else hashcap)"
  by pat_completeness auto
termination
  by (relation "measure (\<lambda>(c, m). m - c)") auto

definition hashid_init :: "nat \<Rightarrow> hashid" where
  "hashid_init m =
     (let hashcap = grow_hashcap 16 m
      in \<lparr>hi_hashmod = int hashcap - 1, hi_cap = m, hi_count = 0,
          hi_id = replicate m \<lparr>hn_id = -1, hn_next = None\<rparr>, hi_hash = replicate hashcap None\<rparr>)"

definition hashid_clear :: "hashid \<Rightarrow> hashid" where
  "hashid_clear hi = hi\<lparr>hi_id := [], hi_hash := [], hi_hashmod := 1, hi_cap := 0, hi_count := 0\<rparr>"

partial_function (option) lookup_loop :: "hashid_node list \<Rightarrow> nat option \<Rightarrow> int \<Rightarrow> int res option" where
  "lookup_loop nodes c key =
     (case c of None \<Rightarrow> Some (Inr (-1))
      | Some i \<Rightarrow>
          (case nthE nodes i of Inl e \<Rightarrow> Some (Inl e)
           | Inr node \<Rightarrow> if hn_id node = key then Some (Inr (int i))
               else lookup_loop nodes (hn_next node) key))"

definition hashid_lookup :: "hashid \<Rightarrow> int \<Rightarrow> int res" where
  "hashid_lookup hi key =
     (let h = nat (key AND hi_hashmod hi) in
      bindE (nthE (hi_hash hi) h) (\<lambda>c. loopE (lookup_loop (hi_id hi) c key)))"

text \<open>The loop of \<^verbatim>\<open>hashid_remove\<close>: the node before the one searched for, and that one.\<close>

partial_function (option) remove_loop :: "hashid_node list \<Rightarrow> nat \<Rightarrow> int \<Rightarrow> (nat \<times> nat) option res option" where
  "remove_loop nodes c key =
     (case nthE nodes c of Inl e \<Rightarrow> Some (Inl e)
      | Inr node \<Rightarrow>
          (case hn_next node of None \<Rightarrow> Some (Inr None)
           | Some temp \<Rightarrow>
               (case nthE nodes temp of Inl e \<Rightarrow> Some (Inl e)
                | Inr tnode \<Rightarrow> if hn_id tnode = key then Some (Inr (Some (c, temp)))
                    else remove_loop nodes temp key)))"

text \<open>The label \<^verbatim>\<open>_clear\<close>.\<close>

definition clear_node :: "hashid \<Rightarrow> nat \<Rightarrow> hashid \<times> int" where
  "clear_node hi c = (hi\<lparr>hi_id := (hi_id hi)[c := \<lparr>hn_id = -1, hn_next = None\<rparr>],
     hi_count := hi_count hi - 1\<rparr>, int c)"

definition hashid_remove :: "hashid \<Rightarrow> int \<Rightarrow> (hashid \<times> int) res" where
  "hashid_remove hi key =
     (let h = nat (key AND hi_hashmod hi) in
      bindE (nthE (hi_hash hi) h) (\<lambda>p.
      case p of None \<Rightarrow> Inr (hi, -1)
      | Some c \<Rightarrow>
          bindE (nthE (hi_id hi) c) (\<lambda>node.
          if hn_id node = key
          then Inr (clear_node (hi\<lparr>hi_hash := (hi_hash hi)[h := hn_next node]\<rparr>) c)
          else bindE (loopE (remove_loop (hi_id hi) c key)) (\<lambda>r.
               case r of None \<Rightarrow> Inr (hi, -1)
               | Some (c, temp) \<Rightarrow>
                   bindE (nthE (hi_id hi) c) (\<lambda>node.
                   bindE (nthE (hi_id hi) temp) (\<lambda>tnode.
                   Inr (clear_node (hi\<lparr>hi_id := (hi_id hi)[c := node\<lparr>hn_next := hn_next tnode\<rparr>]\<rparr>) temp)))))))"

text \<open>
  The loop of \<^verbatim>\<open>hashid_insert\<close> over \<open>i\<close>. The remainder of a negative sum is negative in C, an index
  before the array.
\<close>

fun insert_scan :: "hashid \<Rightarrow> int \<Rightarrow> nat list \<Rightarrow> nat option res" where
  "insert_scan hi key [] = Inr None"
| "insert_scan hi key (i # is) =
     (let index = wrap32 (int i + key) smod int (hi_cap hi) in
      if index < 0 then Inl Out_Of_Bounds
      else bindE (nthE (hi_id hi) (nat index)) (\<lambda>node.
        if hn_id node = -1 then Inr (Some (nat index)) else insert_scan hi key is))"

definition hashid_insert :: "hashid \<Rightarrow> int \<Rightarrow> (hashid \<times> int) res" where
  "hashid_insert hi key =
     bindE (insert_scan hi key [0..<hi_cap hi]) (\<lambda>p.
     bindE (assertE (p \<noteq> None)) (\<lambda>_.
     bindE (derefE p) (\<lambda>c.
     bindE (nthE (hi_id hi) c) (\<lambda>node.
     bindE (assertE (hn_next node = None)) (\<lambda>_.
     let h = nat (key AND hi_hashmod hi) in
     bindE (nthE (hi_hash hi) h) (\<lambda>b.
     let node = (case b of None \<Rightarrow> node\<lparr>hn_id := key\<rparr> | Some _ \<Rightarrow> node\<lparr>hn_id := key, hn_next := b\<rparr>)
     in Inr (hi\<lparr>hi_count := hi_count hi + 1, hi_id := (hi_id hi)[c := node],
          hi_hash := (hi_hash hi)[h := Some c]\<rparr>, int c)))))))"

definition hashid_full :: "hashid \<Rightarrow> bool" where
  "hashid_full hi \<longleftrightarrow> hi_count hi = int (hi_cap hi)"

section \<open>The table as a map from ids to indices\<close>

definition node_next :: "hashid_node list \<Rightarrow> nat \<Rightarrow> nat option" where
  "node_next nodes i = hn_next (nodes ! i)"

definition hid_used :: "hashid \<Rightarrow> nat set" where
  "hid_used hi = {i. i < hi_cap hi \<and> hn_id (hi_id hi ! i) \<noteq> -1}"

definition hid_bucket :: "hashid \<Rightarrow> nat \<Rightarrow> nat set" where
  "hid_bucket hi h = {i \<in> hid_used hi. nat (hn_id (hi_id hi ! i) AND hi_hashmod hi) = h}"

definition hashid_wf :: "hashid \<Rightarrow> bool" where
  "hashid_wf hi \<longleftrightarrow> length (hi_id hi) = hi_cap hi
     \<and> hi_hash hi \<noteq> [] \<and> hi_hashmod hi = int (length (hi_hash hi)) - 1
     \<and> (\<forall>h < length (hi_hash hi). \<exists>ps. chain (node_next (hi_id hi)) (hi_hash hi ! h) ps
          \<and> distinct ps \<and> set ps = hid_bucket hi h)
     \<and> inj_on (\<lambda>i. hn_id (hi_id hi ! i)) (hid_used hi)
     \<and> (\<forall>i < hi_cap hi. hn_id (hi_id hi ! i) = -1 \<longrightarrow> hn_next (hi_id hi ! i) = None)
     \<and> hi_count hi = int (card (hid_used hi))"

definition hashid_index :: "hashid \<Rightarrow> int \<Rightarrow> nat option" where
  "hashid_index hi key = (if key = -1 then None
     else find (\<lambda>i. hn_id (hi_id hi ! i) = key) [0..<hi_cap hi])"

lemma finite_hid_used [simp]: "finite (hid_used hi)"
  by (simp add: hid_used_def)

lemma hashid_wfD:
  assumes "hashid_wf hi"
  shows "length (hi_id hi) = hi_cap hi" "hi_hash hi \<noteq> []" "hi_hashmod hi = int (length (hi_hash hi)) - 1"
    "inj_on (\<lambda>i. hn_id (hi_id hi ! i)) (hid_used hi)" "hi_count hi = int (card (hid_used hi))"
    "i < hi_cap hi \<Longrightarrow> hn_id (hi_id hi ! i) = -1 \<Longrightarrow> hn_next (hi_id hi ! i) = None"
  using assms by (auto simp: hashid_wf_def)

lemma bucket_less:
  assumes "hashid_wf hi"
  shows "nat (key AND hi_hashmod hi) < length (hi_hash hi)"
proof -
  from hashid_wfD(2,3) [OF assms] have "0 \<le> hi_hashmod hi" "hi_hashmod hi < int (length (hi_hash hi))"
    by (cases "hi_hash hi"; simp)+
  then show ?thesis using AND_upper2 [of "hi_hashmod hi" key] by linarith
qed

lemma bucket_chain:
  assumes "hashid_wf hi" "h < length (hi_hash hi)"
  obtains ps where "chain (node_next (hi_id hi)) (hi_hash hi ! h) ps" "distinct ps" "set ps = hid_bucket hi h"
  using assms unfolding hashid_wf_def by blast

lemma hashid_index_Some:
  assumes "hashid_wf hi"
  shows "hashid_index hi key = Some i \<longleftrightarrow> i \<in> hid_used hi \<and> hn_id (hi_id hi ! i) = key"
proof -
  have "hn_id (hi_id hi ! j) \<noteq> key" if "j < i" "i \<in> hid_used hi" "hn_id (hi_id hi ! i) = key" for j
  proof
    assume "hn_id (hi_id hi ! j) = key"
    with that have "j \<in> hid_used hi" by (auto simp: hid_used_def)
    with inj_onD [OF hashid_wfD(4) [OF assms], of i j] that \<open>hn_id (hi_id hi ! j) = key\<close> show False by simp
  qed
  moreover have "hashid_index hi key = Some i \<longleftrightarrow> key \<noteq> -1 \<and> i < hi_cap hi
      \<and> hn_id (hi_id hi ! i) = key \<and> (\<forall>j < i. hn_id (hi_id hi ! j) \<noteq> key)" for i
    by (auto simp: hashid_index_def find_Some_iff)
  ultimately show ?thesis by (auto simp: hid_used_def)
qed

lemma dom_hashid_index: "hashid_wf hi \<Longrightarrow> dom (hashid_index hi) = (\<lambda>i. hn_id (hi_id hi ! i)) ` hid_used hi"
  using hashid_index_Some by (auto simp: dom_def image_iff)

lemma ran_hashid_index: "hashid_wf hi \<Longrightarrow> ran (hashid_index hi) = hid_used hi"
  using hashid_index_Some by (auto simp: ran_def)

lemma hashid_index_inj:
  "hashid_wf hi \<Longrightarrow> hashid_index hi k = Some i \<Longrightarrow> hashid_index hi k' = Some i \<Longrightarrow> k = k'"
  by (simp add: hashid_index_Some)

lemma card_dom_hashid_index: "hashid_wf hi \<Longrightarrow> int (card (dom (hashid_index hi))) = hi_count hi"
  by (simp add: dom_hashid_index card_image hashid_wfD)

section \<open>Lookup\<close>

lemma lookup_loop_ok:
  assumes "chain (node_next nodes) c ps" "set ps \<subseteq> {..<length nodes}"
  shows "lookup_loop nodes c key = Some (Inr (case find (\<lambda>i. hn_id (nodes ! i) = key) ps of
     None \<Rightarrow> -1 | Some i \<Rightarrow> int i))"
  using assms
proof (induction ps arbitrary: c)
  case Nil
  then show ?case by (subst lookup_loop.simps) simp
next
  case (Cons i ps)
  then show ?case by (subst lookup_loop.simps) (simp add: node_next_def)
qed

lemma bucket_index:
  assumes wf: "hashid_wf hi" and ps: "set ps = hid_bucket hi (nat (key AND hi_hashmod hi))"
  shows "find (\<lambda>i. hn_id (hi_id hi ! i) = key) ps = hashid_index hi key"
proof (cases "hashid_index hi key")
  case None
  then have "i \<notin> set ps" if "hn_id (hi_id hi ! i) = key" for i
    using that hashid_index_Some [OF wf, of key i] by (auto simp: ps hid_bucket_def)
  with None show ?thesis unfolding None find_None_iff by blast
next
  case (Some i)
  then have i: "i \<in> set ps" "hn_id (hi_id hi ! i) = key"
    using hashid_index_Some [OF wf, of key i] by (auto simp: ps hid_bucket_def)
  then obtain j where j: "find (\<lambda>i. hn_id (hi_id hi ! i) = key) ps = Some j"
    using find_None_iff [of _ ps] by (cases "find (\<lambda>i. hn_id (hi_id hi ! i) = key) ps") auto
  then have "j \<in> set ps" "hn_id (hi_id hi ! j) = key" unfolding find_Some_iff by auto
  with i hashid_wfD(4) [OF wf] have "j = i" by (auto simp: ps hid_bucket_def inj_on_def)
  with j Some show ?thesis by simp
qed

lemma hid_bucket_bound: "hashid_wf hi \<Longrightarrow> hid_bucket hi h \<subseteq> {..<length (hi_id hi)}"
  by (auto simp: hid_bucket_def hid_used_def hashid_wfD)

lemma hashid_lookup_ok:
  assumes wf: "hashid_wf hi"
  shows "hashid_lookup hi key = Inr (case hashid_index hi key of None \<Rightarrow> -1 | Some i \<Rightarrow> int i)"
proof -
  let ?h = "nat (key AND hi_hashmod hi)"
  from bucket_chain [OF wf bucket_less [OF wf, of key]] obtain ps where
    ps: "chain (node_next (hi_id hi)) (hi_hash hi ! ?h) ps" "set ps = hid_bucket hi ?h" .
  with lookup_loop_ok [OF ps(1)] hid_bucket_bound [OF wf] bucket_index [OF wf ps(2)]
    bucket_less [OF wf, of key]
  show ?thesis by (simp add: hashid_lookup_def Let_def)
qed

section \<open>Removal and insertion\<close>

text \<open>A change that touches the chain of one bucket keeps the others.\<close>

lemma hashid_wf_change:
  assumes wf: "hashid_wf hi"
    and same: "hi_cap hi' = hi_cap hi" "hi_hashmod hi' = hi_hashmod hi" "length (hi_id hi') = length (hi_id hi)"
      "hi_hash hi' = (hi_hash hi)[h := b]"
    and others: "\<And>h'. h' \<noteq> h \<Longrightarrow> hid_bucket hi' h' = hid_bucket hi h'"
      "\<And>h' i. h' \<noteq> h \<Longrightarrow> i \<in> hid_bucket hi h' \<Longrightarrow> hi_id hi' ! i = hi_id hi ! i"
    and this_one: "chain (node_next (hi_id hi')) b ps" "distinct ps" "set ps = hid_bucket hi' h"
    and ids: "inj_on (\<lambda>i. hn_id (hi_id hi' ! i)) (hid_used hi')" "hi_count hi' = int (card (hid_used hi'))"
    and free: "\<And>i. i < hi_cap hi \<Longrightarrow> hn_id (hi_id hi' ! i) = -1 \<Longrightarrow> hn_next (hi_id hi' ! i) = None"
  shows "hashid_wf hi'"
proof -
  have "\<exists>qs. chain (node_next (hi_id hi')) (hi_hash hi' ! h') qs \<and> distinct qs \<and> set qs = hid_bucket hi' h'"
    if h': "h' < length (hi_hash hi')" for h'
  proof (cases "h' = h")
    case True
    with this_one h' show ?thesis by (auto simp: same)
  next
    case False
    from h' obtain qs where qs: "chain (node_next (hi_id hi)) (hi_hash hi ! h') qs" "distinct qs"
      "set qs = hid_bucket hi h'"
      using bucket_chain [OF wf, of h'] by (auto simp: same)
    have "chain (node_next (hi_id hi')) (hi_hash hi ! h') qs"
      using qs(1) by (rule chain_frame [THEN iffD2, rotated]) (use others(2) False qs(3) in \<open>simp add: node_next_def\<close>)
    with qs False others(1) show ?thesis by (auto simp: same)
  qed
  with wf ids free show ?thesis by (simp add: hashid_wf_def same)
qed

fun find_pred :: "hashid_node list \<Rightarrow> int \<Rightarrow> nat \<Rightarrow> nat list \<Rightarrow> (nat \<times> nat) option" where
  "find_pred nodes key c [] = None"
| "find_pred nodes key c (p # ps) = (if hn_id (nodes ! p) = key then Some (c, p) else find_pred nodes key p ps)"

lemma remove_loop_ok:
  assumes "chain (node_next nodes) (node_next nodes c) ps" "set (c # ps) \<subseteq> {..<length nodes}"
  shows "remove_loop nodes c key = Some (Inr (find_pred nodes key c ps))"
  using assms
proof (induction ps arbitrary: c)
  case Nil
  then show ?case by (subst remove_loop.simps) (simp add: node_next_def)
next
  case (Cons p ps)
  then show ?case by (subst remove_loop.simps) (simp add: node_next_def)
qed

lemma find_pred_None: "find_pred nodes key c ps = None \<longleftrightarrow> (\<forall>p \<in> set ps. hn_id (nodes ! p) \<noteq> key)"
  by (induction ps arbitrary: c) auto

lemma find_pred_Some:
  "find_pred nodes key c ps = Some (d, t) \<Longrightarrow> hn_id (nodes ! c) \<noteq> key \<Longrightarrow>
     \<exists>us vs. c # ps = us @ d # t # vs \<and> hn_id (nodes ! t) = key"
proof (induction ps arbitrary: c)
  case (Cons p ps)
  show ?case
  proof (cases "hn_id (nodes ! p) = key")
    case False
    with Cons.prems Cons.IH [of p] obtain us vs where "p # ps = us @ d # t # vs" "hn_id (nodes ! t) = key" by auto
    then show ?thesis by (intro exI [of _ "c # us"] exI [of _ vs]) simp
  qed (use Cons.prems in \<open>auto intro: exI [of _ "[]"]\<close>)
qed simp

text \<open>What unlinking the node \<open>t\<close> of an id from its chain does to the map.\<close>

lemma clear_node_ok:
  assumes wf: "hashid_wf hi" and t: "hashid_index hi key = Some t" and h: "h = nat (key AND hi_hashmod hi)"
    and sz: "length nodes = hi_cap hi"
    and nodes: "\<And>i. hn_id (nodes ! i) = hn_id (hi_id hi ! i)"
      "\<And>i. i \<notin> hid_bucket hi h \<Longrightarrow> nodes ! i = hi_id hi ! i"
    and chain: "chain (node_next nodes) b ps" "distinct ps" "set ps = hid_bucket hi h - {t}"
  shows "hashid_wf (fst (clear_node (hi\<lparr>hi_id := nodes, hi_hash := (hi_hash hi)[h := b]\<rparr>) t))
    \<and> hashid_index (fst (clear_node (hi\<lparr>hi_id := nodes, hi_hash := (hi_hash hi)[h := b]\<rparr>) t))
      = (hashid_index hi)(key := None)"
proof -
  define hi' where "hi' = fst (clear_node (hi\<lparr>hi_id := nodes, hi_hash := (hi_hash hi)[h := b]\<rparr>) t)"
  let ?blank = "\<lparr>hn_id = -1, hn_next = None\<rparr>"
  from t hashid_index_Some [OF wf] have t': "t \<in> hid_used hi" "hn_id (hi_id hi ! t) = key" by auto
  then have lt: "t < length nodes" "t \<in> hid_bucket hi h" by (auto simp: sz hid_used_def hid_bucket_def h)
  have id_hi: "hi_id hi' = nodes[t := ?blank]" "hi_cap hi' = hi_cap hi" "hi_hashmod hi' = hi_hashmod hi"
    "hi_hash hi' = (hi_hash hi)[h := b]" "hi_count hi' = hi_count hi - 1"
    by (simp_all add: clear_node_def hi'_def)
  have ids: "hn_id (nodes[t := ?blank] ! i) = (if i = t then -1 else hn_id (hi_id hi ! i))" for i
    using lt nodes by (simp add: nth_list_update)
  have used: "hid_used hi' = hid_used hi - {t}" using t' by (auto simp: hid_used_def ids id_hi)
  have bucket: "hid_bucket hi' h' = hid_bucket hi h' - {t}" for h'
    by (auto simp: hid_bucket_def used ids id_hi)
  have other: "t \<notin> hid_bucket hi h'" if "h' \<noteq> h" for h' using that t' h by (simp add: hid_bucket_def)
  have wf': "hashid_wf hi'"
  proof (rule hashid_wf_change [OF wf])
    show "hid_bucket hi' h' = hid_bucket hi h'" if "h' \<noteq> h" for h'
      using other [OF that] by (simp add: bucket)
    show "hi_id hi' ! i = hi_id hi ! i" if "h' \<noteq> h" "i \<in> hid_bucket hi h'" for h' i
    proof -
      from that have "i \<notin> hid_bucket hi h" by (auto simp: hid_bucket_def)
      with nodes(2) [of i] other [OF that(1)] that(2) show ?thesis by (cases "i = t") (auto simp: id_hi)
    qed
    show "chain (node_next (hi_id hi')) b ps"
      using chain(1) by (rule chain_frame [THEN iffD2, rotated]) (use chain(3) in \<open>auto simp: id_hi node_next_def\<close>)
    show "inj_on (\<lambda>i. hn_id (hi_id hi' ! i)) (hid_used hi')"
      using hashid_wfD(4) [OF wf] by (auto simp: inj_on_def used ids id_hi)
    show "hi_count hi' = int (card (hid_used hi'))"
      using hashid_wfD(5) [OF wf] t' card_gt_0_iff [of "hid_used hi"]
      by (auto simp: used id_hi of_nat_diff card_Diff_singleton Suc_le_eq)
    show "hn_next (hi_id hi' ! i) = None" if "i < hi_cap hi" "hn_id (hi_id hi' ! i) = -1" for i
      using that hashid_wfD(6) [OF wf, of i] nodes(1,2) [of i] lt
      by (cases "i = t") (auto simp: ids id_hi hid_bucket_def hid_used_def)
  qed (use chain sz hashid_wfD(1) [OF wf] in \<open>auto simp: id_hi bucket\<close>)
  moreover have "hashid_index hi' = (hashid_index hi)(key := None)"
    by (rule map_eqI) (use t' hashid_wfD(4) [OF wf] in \<open>auto simp: hashid_index_Some wf wf' used ids id_hi inj_on_def\<close>)
  ultimately show ?thesis by (simp add: hi'_def)
qed

text \<open>Unlinking a node from behind another one of its chain.\<close>

lemma unlink_mid_ok:
  assumes wf: "hashid_wf hi" and h: "h = nat (key AND hi_hashmod hi)"
    and ps: "chain (node_next (hi_id hi)) (hi_hash hi ! h) ps" "distinct ps" "set ps = hid_bucket hi h"
    and us: "ps = us @ d # t # vs" "hn_id (hi_id hi ! t) = key"
    and nodes: "nodes = (hi_id hi)[d := (hi_id hi ! d)\<lparr>hn_next := hn_next (hi_id hi ! t)\<rparr>]"
  shows "hashid_index hi key = Some t" "hashid_wf (fst (clear_node (hi\<lparr>hi_id := nodes\<rparr>) t))"
    "hashid_index (fst (clear_node (hi\<lparr>hi_id := nodes\<rparr>) t)) = (hashid_index hi)(key := None)"
proof -
  have mem: "d \<in> set ps" "t \<in> set ps" "d \<noteq> t" using ps(2) by (auto simp: us)
  then have lt: "d < length (hi_id hi)" using ps(3) hid_bucket_bound [OF wf] by auto
  show t: "hashid_index hi key = Some t"
    using hashid_index_Some [OF wf, of key t] us(2) ps(3) mem by (auto simp: hid_bucket_def)
  have "node_next nodes i = ((node_next (hi_id hi))(d := node_next (hi_id hi) t)) i" for i
    using lt by (auto simp: node_next_def nth_list_update nodes)
  then have nx: "node_next nodes = (node_next (hi_id hi))(d := node_next (hi_id hi) t)" by blast
  have chain: "chain (node_next nodes) (hi_hash hi ! h) (us @ d # vs)"
    unfolding nx by (rule chain_take_out) (use ps us in auto)
  have "hashid_wf (fst (clear_node (hi\<lparr>hi_id := nodes, hi_hash := (hi_hash hi)[h := hi_hash hi ! h]\<rparr>) t))
    \<and> hashid_index (fst (clear_node (hi\<lparr>hi_id := nodes, hi_hash := (hi_hash hi)[h := hi_hash hi ! h]\<rparr>) t))
      = (hashid_index hi)(key := None)"
  proof (rule clear_node_ok [OF wf t h _ _ _ chain])
    show "nodes ! i = hi_id hi ! i" if "i \<notin> hid_bucket hi h" for i
      using that mem(1) ps(3) by (cases "i = d") (auto simp: nodes)
    show "hn_id (nodes ! i) = hn_id (hi_id hi ! i)" for i
      using lt by (simp add: nth_list_update nodes)
    show "set (us @ d # vs) = hid_bucket hi h - {t}"
      using ps(2) by (auto simp: us(1) simp flip: ps(3))
  qed (use ps(2) us hashid_wfD(1) [OF wf] in \<open>auto simp: nodes\<close>)
  moreover have "hi\<lparr>hi_id := nodes, hi_hash := (hi_hash hi)[h := hi_hash hi ! h]\<rparr> = hi\<lparr>hi_id := nodes\<rparr>"
    by simp
  ultimately show "hashid_wf (fst (clear_node (hi\<lparr>hi_id := nodes\<rparr>) t))"
    "hashid_index (fst (clear_node (hi\<lparr>hi_id := nodes\<rparr>) t)) = (hashid_index hi)(key := None)" by metis+
qed

lemma hashid_remove_ok:
  assumes wf: "hashid_wf hi"
  shows "\<exists>hi'. hashid_remove hi key = Inr (hi', case hashid_index hi key of None \<Rightarrow> -1 | Some i \<Rightarrow> int i)
    \<and> hashid_wf hi' \<and> hashid_index hi' = (hashid_index hi)(key := None) \<and> hi_cap hi' = hi_cap hi"
proof -
  let ?h = "nat (key AND hi_hashmod hi)"
  from bucket_chain [OF wf bucket_less [OF wf, of key]] obtain ps where
    ps: "chain (node_next (hi_id hi)) (hi_hash hi ! ?h) ps" "distinct ps" "set ps = hid_bucket hi ?h" .
  note len = hashid_wfD(1) [OF wf]
  have lt: "i < length (hi_id hi)" if "i \<in> set ps" for i using that ps(3) hid_bucket_bound [OF wf] by auto
  note h = bucket_less [OF wf, of key]
  note index = bucket_index [OF wf ps(3), symmetric]
  show ?thesis
  proof (cases ps)
    case Nil
    with ps h index wf show ?thesis by (auto simp: hashid_remove_def Let_def fun_upd_idem)
  next
    case (Cons c cs)
    with ps(1) have c: "hi_hash hi ! ?h = Some c" "chain (node_next (hi_id hi)) (node_next (hi_id hi) c) cs" by auto
    show ?thesis
    proof (cases "hn_id (hi_id hi ! c) = key")
      case True
      then have t: "hashid_index hi key = Some c" by (simp add: index Cons)
      have "hashid_remove hi key = Inr (clear_node (hi\<lparr>hi_id := hi_id hi, hi_hash :=
          (hi_hash hi)[?h := node_next (hi_id hi) c]\<rparr>) c)"
        using True c h lt [of c] by (simp add: hashid_remove_def Let_def Cons node_next_def)
      moreover have "set cs = hid_bucket hi ?h - {c}" using ps(2,3) by (auto simp: Cons)
      ultimately show ?thesis
        using clear_node_ok [OF wf t refl len refl refl c(2)] ps(2) t
        by (auto simp: Cons clear_node_def)
    next
      case False
      have loop: "remove_loop (hi_id hi) c key = Some (Inr (find_pred (hi_id hi) key c cs))"
        using remove_loop_ok [OF c(2)] lt by (auto simp: Cons)
      show ?thesis
      proof (cases "find_pred (hi_id hi) key c cs")
        case None
        then have "hashid_index hi key = None"
          using False by (auto simp: index find_None_iff Cons find_pred_None)
        with False None loop c h lt [of c] wf show ?thesis
          by (auto simp: hashid_remove_def Let_def Cons fun_upd_idem)
      next
        case (Some dt)
        obtain d t where dt: "dt = (d, t)" by (cases dt)
        from find_pred_Some [OF Some [unfolded dt] False] obtain us vs where
          us: "ps = us @ d # t # vs" "hn_id (hi_id hi ! t) = key" by (auto simp: Cons)
        let ?nodes = "(hi_id hi)[d := (hi_id hi ! d)\<lparr>hn_next := hn_next (hi_id hi ! t)\<rparr>]"
        have "d < length (hi_id hi)" "t < length (hi_id hi)" using lt by (auto simp: us(1))
        then have "hashid_remove hi key = Inr (clear_node (hi\<lparr>hi_id := ?nodes\<rparr>) t)"
          using False c h lt [of c] loop
          by (simp add: hashid_remove_def Let_def Cons Some dt)
        with unlink_mid_ok [OF wf refl ps us refl] show ?thesis by (auto simp: clear_node_def)
      qed
    qed
  qed
qed

text \<open>
  The scan for a free node visits every index once, as long as the sum does not leave the range of
  an \<^verbatim>\<open>int\<close>.
\<close>

lemma insert_scan_ok:
  assumes "0 \<le> key" "\<forall>i \<in> set is. int i + key < 2 ^ 31" "0 < hi_cap hi" "length (hi_id hi) = hi_cap hi"
  shows "insert_scan hi key is
    = Inr (find (\<lambda>c. hn_id (hi_id hi ! c) = -1) (map (\<lambda>i. (i + nat key) mod hi_cap hi) is))"
  using assms
proof (induction "is")
  case (Cons i "is")
  have "wrap32 (int i + key) = int (i + nat key)" using Cons.prems by simp
  then have index: "wrap32 (int i + key) smod int (hi_cap hi) = int ((i + nat key) mod hi_cap hi)"
    using Cons.prems(3) by (simp add: smod_mod_positive zmod_int)
  have "insert_scan hi key (i # is) = bindE (nthE (hi_id hi) ((i + nat key) mod hi_cap hi)) (\<lambda>node.
      if hn_id node = -1 then Inr (Some ((i + nat key) mod hi_cap hi)) else insert_scan hi key is)"
    unfolding insert_scan.simps index Let_def nat_int by simp
  then show ?case using Cons by simp
qed simp

lemma shifted_indices: "0 < c \<Longrightarrow> set (map (\<lambda>i. (i + k) mod c) [0..<c]) = {..<c}"
proof -
  assume c: "0 < c"
  have "\<exists>i < c. (i + k) mod c = j" if "j < c" for j
  proof (intro exI conjI)
    show "(j + (c - k mod c)) mod c < c" using c by simp
    have "((j + (c - k mod c)) mod c + k) mod c = (j + (c - k mod c) + k mod c) mod c"
      by (metis mod_add_left_eq mod_add_right_eq)
    also have "j + (c - k mod c) + k mod c = j + c" using mod_less_divisor [OF c, of k] by linarith
    finally show "((j + (c - k mod c)) mod c + k) mod c = j" using that by simp
  qed
  then show ?thesis using c by (fastforce simp: image_iff)
qed

lemma not_full_free:
  assumes wf: "hashid_wf hi" and "\<not> hashid_full hi"
  shows "0 < hi_cap hi" "\<exists>c < hi_cap hi. hn_id (hi_id hi ! c) = -1"
proof -
  have sub: "hid_used hi \<subseteq> {..<hi_cap hi}" by (auto simp: hid_used_def)
  with assms have "hid_used hi \<noteq> {..<hi_cap hi}" by (auto simp: hashid_full_def hashid_wfD)
  with sub obtain c where "c < hi_cap hi" "c \<notin> hid_used hi" by auto
  then show "0 < hi_cap hi" "\<exists>c < hi_cap hi. hn_id (hi_id hi ! c) = -1" by (auto simp: hid_used_def)
qed

text \<open>The node that becomes the head of the bucket of its id.\<close>

definition link_head :: "hashid \<Rightarrow> int \<Rightarrow> nat \<Rightarrow> hashid" where
  "link_head hi key c =
     (let h = nat (key AND hi_hashmod hi)
      in hi\<lparr>hi_count := hi_count hi + 1, hi_id := (hi_id hi)[c := \<lparr>hn_id = key, hn_next = hi_hash hi ! h\<rparr>],
           hi_hash := (hi_hash hi)[h := Some c]\<rparr>)"

lemma link_head_ok:
  assumes wf: "hashid_wf hi" and c: "c < hi_cap hi" "hn_id (hi_id hi ! c) = -1"
    and key: "key \<noteq> -1" "hashid_index hi key = None"
  shows "hashid_wf (link_head hi key c)" "hashid_index (link_head hi key c) = (hashid_index hi)(key \<mapsto> c)"
proof -
  let ?h = "nat (key AND hi_hashmod hi)" and ?node = "\<lparr>hn_id = key, hn_next = hi_hash hi ! nat (key AND hi_hashmod hi)\<rparr>"
  define hi' where "hi' = link_head hi key c"
  note h = bucket_less [OF wf, of key] and len = hashid_wfD(1) [OF wf]
  have hi': "hi_id hi' = (hi_id hi)[c := ?node]" "hi_cap hi' = hi_cap hi" "hi_hashmod hi' = hi_hashmod hi"
    "hi_hash hi' = (hi_hash hi)[?h := Some c]" "hi_count hi' = hi_count hi + 1"
    by (simp_all add: hi'_def link_head_def Let_def)
  have ids: "hn_id ((hi_id hi)[c := ?node] ! i) = (if i = c then key else hn_id (hi_id hi ! i))" for i
    using c len by (simp add: nth_list_update)
  have fresh: "c \<notin> hid_used hi" using c by (simp add: hid_used_def)
  have used: "hid_used hi' = insert c (hid_used hi)" using c key by (auto simp: hid_used_def hi' ids)
  have bucket: "hid_bucket hi' h' = (if h' = ?h then insert c (hid_bucket hi h') else hid_bucket hi h')" for h'
    using fresh by (auto simp: hid_bucket_def used hi' ids)
  have new: "hn_id (hi_id hi ! i) \<noteq> key" if "i \<in> hid_used hi" for i
    using that key(2) hashid_index_Some [OF wf, of key i] by auto
  from bucket_chain [OF wf h] obtain ps where
    ps: "chain (node_next (hi_id hi)) (hi_hash hi ! ?h) ps" "distinct ps" "set ps = hid_bucket hi ?h" .
  have "c \<notin> set ps" using fresh ps(3) by (auto simp: hid_bucket_def)
  have wf': "hashid_wf hi'"
  proof (rule hashid_wf_change [OF wf])
    have "chain (node_next (hi_id hi')) (hi_hash hi ! ?h) ps"
      using ps(1) by (rule chain_frame [THEN iffD2, rotated]) (use \<open>c \<notin> set ps\<close> in \<open>metis hi'(1) node_next_def nth_list_update_neq\<close>)
    then show "chain (node_next (hi_id hi')) (Some c) (c # ps)"
      using c len by (simp add: node_next_def hi')
    show "hi_id hi' ! i = hi_id hi ! i" if "h' \<noteq> ?h" "i \<in> hid_bucket hi h'" for h' i
      using that fresh by (cases "i = c") (auto simp: hi' hid_bucket_def)
    show "inj_on (\<lambda>i. hn_id (hi_id hi' ! i)) (hid_used hi')"
      using hashid_wfD(4) [OF wf] new fresh by (auto simp: inj_on_def used hi' ids)
    show "hn_next (hi_id hi' ! i) = None" if "i < hi_cap hi" "hn_id (hi_id hi' ! i) = -1" for i
      using that hashid_wfD(6) [OF wf, of i] key by (cases "i = c") (auto simp: hi' ids)
  qed (use ps \<open>c \<notin> set ps\<close> fresh hashid_wfD(5) [OF wf] in \<open>auto simp: hi' bucket used\<close>)
  then show "hashid_wf (link_head hi key c)" by (simp add: hi'_def)
  have "hashid_index hi' = (hashid_index hi)(key \<mapsto> c)"
    by (rule map_eqI) (use new fresh in \<open>auto simp: hashid_index_Some wf wf' used hi' ids\<close>)
  then show "hashid_index (link_head hi key c) = (hashid_index hi)(key \<mapsto> c)" by (simp add: hi'_def)
qed

lemma hashid_insert_ok:
  assumes wf: "hashid_wf hi" and full: "\<not> hashid_full hi"
    and key: "0 \<le> key" "key + int (hi_cap hi) \<le> 2 ^ 31" "hashid_index hi key = None"
  shows "\<exists>hi' i. hashid_insert hi key = Inr (hi', int i) \<and> i < hi_cap hi \<and> i \<notin> ran (hashid_index hi)
    \<and> hashid_wf hi' \<and> hashid_index hi' = (hashid_index hi)(key \<mapsto> i) \<and> hi_cap hi' = hi_cap hi"
proof -
  note free = not_full_free [OF wf full] and len = hashid_wfD(1) [OF wf]
  let ?scan = "find (\<lambda>c. hn_id (hi_id hi ! c) = -1) (map (\<lambda>i. (i + nat key) mod hi_cap hi) [0..<hi_cap hi])"
  have scan: "insert_scan hi key [0..<hi_cap hi] = Inr ?scan"
    using key free(1) len by (intro insert_scan_ok) auto
  from free(2) obtain c where c: "?scan = Some c"
    using shifted_indices [OF free(1), of "nat key"] find_None_iff [of "\<lambda>c. hn_id (hi_id hi ! c) = -1"]
    by (cases ?scan) auto
  then have c': "c < hi_cap hi" "hn_id (hi_id hi ! c) = -1"
    using shifted_indices [OF free(1), of "nat key"] unfolding find_Some_iff by auto
  have nx: "hn_next (hi_id hi ! c) = None" using hashid_wfD(6) [OF wf c'] .
  have upd: "(hi_id hi ! c)\<lparr>hn_id := key\<rparr> = \<lparr>hn_id = key, hn_next = None\<rparr>"
    "(hi_id hi ! c)\<lparr>hn_id := key, hn_next := x\<rparr> = \<lparr>hn_id = key, hn_next = x\<rparr>" for x
    using nx by simp_all
  have "hashid_insert hi key = Inr (link_head hi key c, int c)"
    using scan c c' len bucket_less [OF wf, of key] nx
    by (cases "hi_hash hi ! nat (key AND hi_hashmod hi)")
      (simp_all add: hashid_insert_def link_head_def Let_def upd)
  moreover have "c \<notin> ran (hashid_index hi)" using c'(2) by (simp add: ran_hashid_index wf hid_used_def)
  moreover have "hi_cap (link_head hi key c) = hi_cap hi" by (simp add: link_head_def Let_def)
  ultimately show ?thesis using link_head_ok [OF wf c' _ key(3)] key(1) c'(1) by auto
qed

section \<open>The interface\<close>

text \<open>
  What a client may rely on, whatever the table is made of: ids have indices below the capacity, no
  two of them the same, and they keep them until they are removed. \<open>table_run\<close> runs a sequence of
  calls, in which an id is only added if the table is not full; \<open>table_spec\<close> says which results are
  right for it.
\<close>

datatype id_op = Add int | Drop int | Find int

definition index_result :: "nat option \<Rightarrow> int" where
  "index_result r = (case r of None \<Rightarrow> -1 | Some i \<Rightarrow> int i)"

fun table_run :: "('t \<Rightarrow> bool) \<Rightarrow> ('t \<Rightarrow> int \<Rightarrow> ('t \<times> int) res) \<Rightarrow> ('t \<Rightarrow> int \<Rightarrow> ('t \<times> int) res)
    \<Rightarrow> ('t \<Rightarrow> int \<Rightarrow> int res) \<Rightarrow> 't \<Rightarrow> id_op list \<Rightarrow> (int list) res" where
  "table_run full ins rem look t [] = Inr []"
| "table_run full ins rem look t (op # ops) =
     bindE (case op of
        Add k \<Rightarrow> if full t then Inr (t, -1) else ins t k
      | Drop k \<Rightarrow> rem t k
      | Find k \<Rightarrow> bindE (look t k) (\<lambda>r. Inr (t, r))) (\<lambda>(t, r).
     bindE (table_run full ins rem look t ops) (\<lambda>rs. Inr (r # rs)))"

fun table_spec :: "nat \<Rightarrow> (int \<rightharpoonup> nat) \<Rightarrow> id_op list \<Rightarrow> int list \<Rightarrow> bool" where
  "table_spec cap m [] rs \<longleftrightarrow> rs = []"
| "table_spec cap m (Add k # ops) rs \<longleftrightarrow>
     (if card (dom m) = cap then rs \<noteq> [] \<and> hd rs = -1 \<and> table_spec cap m ops (tl rs)
      else \<exists>i < cap. rs \<noteq> [] \<and> hd rs = int i \<and> i \<notin> ran m \<and> table_spec cap (m(k \<mapsto> i)) ops (tl rs))"
| "table_spec cap m (Drop k # ops) rs \<longleftrightarrow>
     rs \<noteq> [] \<and> hd rs = index_result (m k) \<and> table_spec cap (m(k := None)) ops (tl rs)"
| "table_spec cap m (Find k # ops) rs \<longleftrightarrow> rs \<noteq> [] \<and> hd rs = index_result (m k) \<and> table_spec cap m ops (tl rs)"

text \<open>The ids added are new ones and \<open>ok\<close>.\<close>

fun fresh_ids :: "(int \<Rightarrow> bool) \<Rightarrow> nat \<Rightarrow> int set \<Rightarrow> id_op list \<Rightarrow> bool" where
  "fresh_ids ok cap S [] \<longleftrightarrow> True"
| "fresh_ids ok cap S (Add k # ops) \<longleftrightarrow>
     k \<notin> S \<and> ok k \<and> fresh_ids ok cap (if card S = cap then S else insert k S) ops"
| "fresh_ids ok cap S (Drop k # ops) \<longleftrightarrow> fresh_ids ok cap (S - {k}) ops"
| "fresh_ids ok cap S (Find k # ops) \<longleftrightarrow> fresh_ids ok cap S ops"

locale id_table =
  fixes inv :: "'t \<Rightarrow> bool"
    and index :: "'t \<Rightarrow> int \<Rightarrow> nat option"
    and cap :: nat
    and ok :: "int \<Rightarrow> bool"
    and full :: "'t \<Rightarrow> bool"
    and ins :: "'t \<Rightarrow> int \<Rightarrow> ('t \<times> int) res"
    and rem :: "'t \<Rightarrow> int \<Rightarrow> ('t \<times> int) res"
    and look :: "'t \<Rightarrow> int \<Rightarrow> int res"
  assumes full_law: "inv t \<Longrightarrow> full t \<longleftrightarrow> card (dom (index t)) = cap"
    and look_law: "inv t \<Longrightarrow> look t k = Inr (index_result (index t k))"
    and rem_law: "inv t \<Longrightarrow> \<exists>t'. rem t k = Inr (t', index_result (index t k)) \<and> inv t'
      \<and> index t' = (index t)(k := None)"
    and ins_law: "inv t \<Longrightarrow> \<not> full t \<Longrightarrow> ok k \<Longrightarrow> index t k = None \<Longrightarrow>
      \<exists>t' i. ins t k = Inr (t', int i) \<and> i < cap \<and> i \<notin> ran (index t) \<and> inv t' \<and> index t' = (index t)(k \<mapsto> i)"
begin

lemma run_correct:
  assumes "inv t" "fresh_ids ok cap (dom (index t)) ops"
  shows "\<exists>rs. table_run full ins rem look t ops = Inr rs \<and> table_spec cap (index t) ops rs"
  using assms
proof (induction ops arbitrary: t)
  case (Cons op ops)
  show ?case
  proof (cases op)
    case (Add k)
    show ?thesis
    proof (cases "full t")
      case True
      with Cons.IH [of t] Cons.prems full_law show ?thesis by (fastforce simp: Add)
    next
      case False
      from Cons.prems have "index t k = None" "ok k" by (auto simp: Add)
      with ins_law [OF Cons.prems(1) False] obtain t' i where
        t': "ins t k = Inr (t', int i)" "i < cap" "i \<notin> ran (index t)" "inv t'" "index t' = (index t)(k \<mapsto> i)"
        by blast
      with Cons.IH [of t'] Cons.prems False full_law [of t] show ?thesis by (fastforce simp: Add)
    qed
  next
    case (Drop k)
    from rem_law [OF Cons.prems(1), of k] obtain t' where
      "rem t k = Inr (t', index_result (index t k))" "inv t'" "index t' = (index t)(k := None)" by blast
    with Cons.IH [of t'] Cons.prems show ?thesis by (fastforce simp: Drop)
  next
    case (Find k)
    with Cons.IH [of t] Cons.prems look_law [of t k] show ?thesis by fastforce
  qed
qed simp

end

interpretation hid: id_table "\<lambda>hi. hashid_wf hi \<and> hi_cap hi = cap" hashid_index cap
  "\<lambda>key. 0 \<le> key \<and> key + int cap \<le> 2 ^ 31" hashid_full hashid_insert hashid_remove hashid_lookup
  for cap
proof
  fix hi key assume inv: "hashid_wf hi \<and> hi_cap hi = cap"
  then show "hashid_full hi \<longleftrightarrow> card (dom (hashid_index hi)) = cap"
    using card_dom_hashid_index [of hi] by (auto simp: hashid_full_def)
  show "hashid_lookup hi key = Inr (index_result (hashid_index hi key))"
    using inv by (simp add: hashid_lookup_ok index_result_def)
  show "\<exists>t'. hashid_remove hi key = Inr (t', index_result (hashid_index hi key))
      \<and> (hashid_wf t' \<and> hi_cap t' = cap) \<and> hashid_index t' = (hashid_index hi)(key := None)"
    using hashid_remove_ok [of hi key] inv by (auto simp: index_result_def)
  assume "\<not> hashid_full hi" "0 \<le> key \<and> key + int cap \<le> 2 ^ 31" "hashid_index hi key = None"
  then show "\<exists>t' i. hashid_insert hi key = Inr (t', int i) \<and> i < cap \<and> i \<notin> ran (hashid_index hi)
      \<and> (hashid_wf t' \<and> hi_cap t' = cap) \<and> hashid_index t' = (hashid_index hi)(key \<mapsto> i)"
    using hashid_insert_ok [of hi key] inv by auto
qed

lemma grow_hashcap_pos: "0 < c \<Longrightarrow> 0 < grow_hashcap c m"
  by (induction c m rule: grow_hashcap.induct) (subst grow_hashcap.simps, auto)

lemma hashid_init_ok: "hashid_wf (hashid_init cap) \<and> hi_cap (hashid_init cap) = cap"
  "hashid_index (hashid_init cap) = Map.empty"
proof -
  have 0: "0 < grow_hashcap 16 cap" by (rule grow_hashcap_pos) simp
  have used: "hid_used (hashid_init cap) = {}" by (auto simp: hid_used_def hashid_init_def Let_def)
  then have "hid_bucket (hashid_init cap) h = {}" for h by (simp add: hid_bucket_def)
  then show wf: "hashid_wf (hashid_init cap) \<and> hi_cap (hashid_init cap) = cap"
    using 0 used by (auto simp: hashid_wf_def) (auto simp: hashid_init_def Let_def)
  show "hashid_index (hashid_init cap) = Map.empty"
    using wf used by (intro map_eqI) (simp add: hashid_index_Some)
qed

section \<open>Properties\<close>



text \<open>With an id close to the largest \<^verbatim>\<open>int\<close>, which the socket server gives out before its counter
  wraps, \<^verbatim>\<open>hashid_insert\<close> can compute a negative index and access the node array out of range: a table
  of three nodes with the id 1 in it does so for the id \<open>2 ^ 31 - 1\<close>.\<close>

theorem hashid_insert_overflows:
  "\<exists>hi. hashid_insert (hashid_init 3) 1 = Inr (hi, 1) \<and> \<not> hashid_full hi \<and> hashid_lookup hi (2 ^ 31 - 1) = Inr (-1)
    \<and> hashid_insert hi (2 ^ 31 - 1) = Inl Out_Of_Bounds"
proof -
  let ?free = "\<lparr>hn_id = -1, hn_next = None\<rparr>"
  have "replicate 3 ?free = [?free, ?free, ?free]" by (simp add: numeral_3_eq_3)
  then have init: "hashid_init 3 = \<lparr>hi_hashmod = 15, hi_cap = 3, hi_count = 0,
      hi_id = [?free, ?free, ?free], hi_hash = replicate 16 None\<rparr>"
    by (simp add: hashid_init_def grow_hashcap.simps [of 16])
  let ?hi = "\<lparr>hi_hashmod = 15, hi_cap = 3, hi_count = 1,
      hi_id = [?free, \<lparr>hn_id = 1, hn_next = None\<rparr>, ?free], hi_hash = (replicate 16 None)[1 := Some 1]\<rparr>"
  have "insert_scan (hashid_init 3) 1 [0..<3] = Inr (Some 1)"
    unfolding init by (simp add: upt_rec [of 0] Let_def smod_mod_positive)
  then have "hashid_insert (hashid_init 3) 1 = Inr (?hi, 1)"
    unfolding init by (simp add: hashid_insert_def Let_def)
  moreover have "hashid_lookup ?hi (2 ^ 31 - 1) = Inr (-1)"
    by (simp add: hashid_lookup_def Let_def lookup_loop.simps)
  moreover have "hashid_insert ?hi (2 ^ 31 - 1) = Inl Out_Of_Bounds"
    by (simp add: hashid_insert_def upt_rec [of 0] upt_rec [of "Suc 0"] wrap32_def Let_def
      smod_int_alt_def)
  ultimately show ?thesis by (auto simp: hashid_full_def)
qed

end
