(* ===== verification/Data_Buffer.thy ===== *)
theory Data_Buffer
  imports Linked_Chain
begin

text \<open>
  The receive buffer of a connection of the gate service, \<^verbatim>\<open>service-src/databuffer.h\<close>: the data of
  each socket message is kept in a chain of records, read from the front across record boundaries,
  and the records come from a pool that all connections share.

  Records live in a store addressed by pointers, so that what the chains and the free list share is
  explicit. Sizes are \<open>int\<close>s; a buffer of \<open>2 ^ 31\<close> bytes is out of the model's scope, except that the
  four-byte length is computed with the wrap-around of the code. Freeing a data block has no effect
  in the model.
\<close>

section \<open>Data\<close>

definition MESSAGEPOOL :: nat where "MESSAGEPOOL = 1023"

record db_message =
  m_buffer :: "u8 list option"
  m_size :: int
  m_next :: "ptr option"

record databuffer =
  db_header :: int
  db_offset :: int
  db_size :: int
  db_head :: "ptr option"
  db_tail :: "ptr option"

text \<open>The pool: the blocks of \<^verbatim>\<open>MESSAGEPOOL\<close> records, by their first addresses, and the free list.\<close>

record messagepool =
  mp_heap :: "ptr \<Rightarrow> db_message option"
  mp_brk :: ptr
  mp_pool :: "ptr list"
  mp_freelist :: "ptr option"

definition databuffer_zero :: databuffer where
  "databuffer_zero = \<lparr>db_header = 0, db_offset = 0, db_size = 0, db_head = None, db_tail = None\<rparr>"

definition messagepool_zero :: messagepool where
  "messagepool_zero = \<lparr>mp_heap = Map.empty, mp_brk = 1, mp_pool = [], mp_freelist = None\<rparr>"

section \<open>Operations\<close>

definition messagepool_free :: "messagepool \<Rightarrow> messagepool" where
  "messagepool_free mp = mp\<lparr>mp_heap := (\<lambda>p. if \<exists>b \<in> set (mp_pool mp). b \<le> p \<and> p < b + MESSAGEPOOL
       then None else mp_heap mp p), mp_pool := [], mp_freelist := None\<rparr>"

definition return_message :: "databuffer \<Rightarrow> messagepool \<Rightarrow> (databuffer \<times> messagepool) res" where
  "return_message db mp =
     bindE (derefE (db_head db)) (\<lambda>m.
     bindE (derefE (mp_heap mp m)) (\<lambda>msg.
     bindE (case m_next msg of
              None \<Rightarrow> bindE (assertE (db_tail db = Some m)) (\<lambda>_. Inr (db\<lparr>db_head := None, db_tail := None\<rparr>))
            | Some n \<Rightarrow> Inr (db\<lparr>db_head := Some n\<rparr>)) (\<lambda>db.
     Inr (db, mp\<lparr>mp_heap := (mp_heap mp)(m \<mapsto> \<lparr>m_buffer = None, m_size = 0, m_next = mp_freelist mp\<rparr>),
       mp_freelist := Some m\<rparr>))))"

text \<open>\<^verbatim>\<open>memcpy(..., buffer + off, n)\<close>: the bytes copied.\<close>

definition mem_read :: "u8 list option \<Rightarrow> int \<Rightarrow> int \<Rightarrow> u8 list res" where
  "mem_read buffer off n =
     bindE (derefE buffer) (\<lambda>b.
     if 0 \<le> off \<and> 0 \<le> n \<and> off + n \<le> int (length b) then Inr (take (nat n) (drop (nat off) b))
     else Inl Out_Of_Bounds)"

text \<open>The loop of \<^verbatim>\<open>databuffer_read\<close>; \<open>out\<close> is what has been copied so far.\<close>

partial_function (option) read_loop :: "databuffer \<Rightarrow> messagepool \<Rightarrow> u8 list \<Rightarrow> int
    \<Rightarrow> (databuffer \<times> messagepool \<times> u8 list) res option" where
  "read_loop db mp out sz =
     (case bindE (derefE (db_head db)) (\<lambda>p. derefE (mp_heap mp p)) of
        Inl e \<Rightarrow> Some (Inl e)
      | Inr current \<Rightarrow>
          let bsz = m_size current - db_offset db in
          if bsz > sz then
            Some (bindE (mem_read (m_buffer current) (db_offset db) sz) (\<lambda>b.
              Inr (db\<lparr>db_offset := db_offset db + sz\<rparr>, mp, out @ b)))
          else if bsz = sz then
            Some (bindE (mem_read (m_buffer current) (db_offset db) sz) (\<lambda>b.
              bindE (return_message (db\<lparr>db_offset := 0\<rparr>) mp) (\<lambda>(db, mp). Inr (db, mp, out @ b))))
          else
            (case bindE (mem_read (m_buffer current) (db_offset db) bsz) (\<lambda>b.
                bindE (return_message db mp) (\<lambda>(db, mp). Inr (db, mp, b))) of
               Inl e \<Rightarrow> Some (Inl e)
             | Inr (db, mp, b) \<Rightarrow> read_loop (db\<lparr>db_offset := 0\<rparr>) mp (out @ b) (sz - bsz)))"

definition databuffer_read :: "databuffer \<Rightarrow> messagepool \<Rightarrow> int \<Rightarrow> (databuffer \<times> messagepool \<times> u8 list) res" where
  "databuffer_read db mp sz =
     bindE (assertE (db_size db \<ge> sz)) (\<lambda>_.
     loopE (read_loop (db\<lparr>db_size := db_size db - sz\<rparr>) mp [] sz))"

text \<open>
  A new block: its first record is used at once, the others are linked into the free list.
\<close>

definition new_pool :: "messagepool \<Rightarrow> messagepool \<times> ptr" where
  "new_pool mp =
     (let temp = mp_brk mp
      in (mp\<lparr>mp_heap := (\<lambda>p. if temp < p \<and> p < temp + MESSAGEPOOL
               then Some \<lparr>m_buffer = None, m_size = 0,
                 m_next = (if p = temp + MESSAGEPOOL - 1 then None else Some (p + 1))\<rparr>
               else mp_heap mp p),
             mp_brk := temp + MESSAGEPOOL, mp_pool := temp # mp_pool mp, mp_freelist := Some (temp + 1)\<rparr>, temp))"

definition databuffer_push :: "databuffer \<Rightarrow> messagepool \<Rightarrow> u8 list option \<Rightarrow> int \<Rightarrow> (databuffer \<times> messagepool) res" where
  "databuffer_push db mp data sz =
     bindE (case mp_freelist mp of
              Some m \<Rightarrow> bindE (derefE (mp_heap mp m)) (\<lambda>msg. Inr (mp\<lparr>mp_freelist := m_next msg\<rparr>, m))
            | None \<Rightarrow> Inr (new_pool mp)) (\<lambda>(mp, m).
     let mp = mp\<lparr>mp_heap := (mp_heap mp)(m \<mapsto> \<lparr>m_buffer = data, m_size = sz, m_next = None\<rparr>)\<rparr>;
         db = db\<lparr>db_size := db_size db + sz\<rparr>
     in case db_head db of
          None \<Rightarrow> bindE (assertE (db_tail db = None)) (\<lambda>_.
            Inr (db\<lparr>db_head := Some m, db_tail := Some m\<rparr>, mp))
        | Some _ \<Rightarrow> bindE (derefE (db_tail db)) (\<lambda>t.
            bindE (derefE (mp_heap mp t)) (\<lambda>tmsg.
            Inr (db\<lparr>db_tail := Some m\<rparr>, mp\<lparr>mp_heap := (mp_heap mp)(t \<mapsto> tmsg\<lparr>m_next := Some m\<rparr>)\<rparr>))))"

text \<open>The length of the next packet, in two or four bytes; the sum is converted to an \<^verbatim>\<open>int\<close>.\<close>

definition header_value :: "int \<Rightarrow> u8 list \<Rightarrow> int res" where
  "header_value header_size plen =
     (if header_size = 2
      then bindE (nthE plen 0) (\<lambda>a. bindE (nthE plen 1) (\<lambda>b.
        Inr (push_bit 8 (uint a) OR uint b)))
      else bindE (nthE plen 0) (\<lambda>a. bindE (nthE plen 1) (\<lambda>b. bindE (nthE plen 2) (\<lambda>c. bindE (nthE plen 3) (\<lambda>d.
        Inr (wrap32 (push_bit 24 (uint a) OR push_bit 16 (uint b) OR push_bit 8 (uint c) OR uint d)))))))"

definition databuffer_readheader :: "databuffer \<Rightarrow> messagepool \<Rightarrow> int \<Rightarrow> (databuffer \<times> messagepool \<times> int) res" where
  "databuffer_readheader db mp header_size =
     bindE (if db_header db = 0 then
              if db_size db < header_size then Inr (db, mp, True)
              else bindE (databuffer_read db mp header_size) (\<lambda>(db, mp, plen).
                   bindE (header_value header_size plen) (\<lambda>h. Inr (db\<lparr>db_header := h\<rparr>, mp, False)))
            else Inr (db, mp, False)) (\<lambda>(db, mp, short).
     Inr (db, mp, if short \<or> db_size db < db_header db then -1 else db_header db))"

definition databuffer_reset :: "databuffer \<Rightarrow> databuffer" where
  "databuffer_reset db = db\<lparr>db_header := 0\<rparr>"

partial_function (option) clear_loop :: "databuffer \<Rightarrow> messagepool \<Rightarrow> messagepool res option" where
  "clear_loop db mp =
     (case db_head db of None \<Rightarrow> Some (Inr mp)
      | Some _ \<Rightarrow> (case return_message db mp of Inl e \<Rightarrow> Some (Inl e) | Inr (db, mp) \<Rightarrow> clear_loop db mp))"

definition databuffer_clear :: "databuffer \<Rightarrow> messagepool \<Rightarrow> (databuffer \<times> messagepool) res" where
  "databuffer_clear db mp = bindE (loopE (clear_loop db mp)) (\<lambda>mp. Inr (databuffer_zero, mp))"

section \<open>The bytes of a buffer\<close>

definition mp_nx :: "messagepool \<Rightarrow> ptr \<Rightarrow> ptr option" where
  "mp_nx mp p = Option.bind (mp_heap mp p) m_next"

definition mp_wf :: "messagepool \<Rightarrow> ptr list \<Rightarrow> bool" where
  "mp_wf mp fs \<longleftrightarrow> chain (mp_nx mp) (mp_freelist mp) fs \<and> distinct fs \<and> set fs \<subseteq> dom (mp_heap mp)
     \<and> dom (mp_heap mp) \<subseteq> {..<mp_brk mp}"

definition cell_ok :: "messagepool \<Rightarrow> ptr \<Rightarrow> bool" where
  "cell_ok mp p \<longleftrightarrow> (\<exists>b nx. mp_heap mp p = Some \<lparr>m_buffer = Some b, m_size = int (length b), m_next = nx\<rparr>)"

definition cell_bytes :: "messagepool \<Rightarrow> ptr \<Rightarrow> u8 list" where
  "cell_bytes mp p = the (m_buffer (the (mp_heap mp p)))"

text \<open>
  \<open>db_rep mp db fs ps bs\<close>: the free list is \<open>fs\<close>, the chain of the buffer is \<open>ps\<close>, disjoint from it,
  and the bytes not yet read are \<open>bs\<close>.
\<close>

definition db_rep :: "messagepool \<Rightarrow> databuffer \<Rightarrow> ptr list \<Rightarrow> ptr list \<Rightarrow> u8 list \<Rightarrow> bool" where
  "db_rep mp db fs ps bs \<longleftrightarrow> mp_wf mp fs \<and> chain (mp_nx mp) (db_head db) ps \<and> distinct ps
     \<and> set fs \<inter> set ps = {} \<and> db_tail db = (if ps = [] then None else Some (last ps))
     \<and> (\<forall>p \<in> set ps. cell_ok mp p)
     \<and> 0 \<le> db_offset db \<and> db_offset db \<le> (case ps of [] \<Rightarrow> 0 | p # _ \<Rightarrow> int (length (cell_bytes mp p)))
     \<and> bs = drop (nat (db_offset db)) (concat (map (cell_bytes mp) ps))"

text \<open>The records that belong to neither list are left alone.\<close>

definition db_frame :: "messagepool \<Rightarrow> ptr list \<Rightarrow> ptr list \<Rightarrow> messagepool \<Rightarrow> ptr list \<Rightarrow> ptr list \<Rightarrow> bool" where
  "db_frame mp fs ps mp' fs' ps' \<longleftrightarrow> (\<forall>p m. mp_heap mp p = Some m \<and> p \<notin> set fs \<union> set ps \<longrightarrow>
     mp_heap mp' p = Some m \<and> p \<notin> set fs' \<union> set ps')"

lemma db_frame_refl [simp]: "db_frame mp fs ps mp fs ps"
  by (simp add: db_frame_def)

lemma db_frame_trans: "db_frame mp fs ps mp' fs' ps' \<Longrightarrow> db_frame mp' fs' ps' mp'' fs'' ps'' \<Longrightarrow>
    db_frame mp fs ps mp'' fs'' ps''"
  by (simp add: db_frame_def)

lemma mp_nx_upd [simp]: "mp_nx (mp\<lparr>mp_heap := h(p \<mapsto> m)\<rparr>) = (mp_nx (mp\<lparr>mp_heap := h\<rparr>))(p := m_next m)"
  by (auto simp: mp_nx_def fun_eq_iff)

lemma mp_nx_simps [simp]: "mp_nx (mp\<lparr>mp_freelist := f\<rparr>) = mp_nx mp" "mp_nx (mp\<lparr>mp_heap := h, mp_freelist := f\<rparr>) = mp_nx (mp\<lparr>mp_heap := h\<rparr>)"
  by (auto simp: mp_nx_def)

lemma cell_bytes_other: "mp_heap mp' p = mp_heap mp p \<Longrightarrow> cell_bytes mp' p = cell_bytes mp p"
  by (simp add: cell_bytes_def)

lemma cell_ok_other: "mp_heap mp' p = mp_heap mp p \<Longrightarrow> cell_ok mp' p = cell_ok mp p"
  by (simp add: cell_ok_def)

lemma db_rep_zero: "db_rep messagepool_zero databuffer_zero [] [] []"
  by (simp add: db_rep_def mp_wf_def messagepool_zero_def databuffer_zero_def)

lemma return_message_ok:
  assumes rep: "db_rep mp db fs (p # ps) bs"
  shows "\<exists>db' mp'. return_message (db\<lparr>db_offset := k\<rparr>) mp = Inr (db', mp')
    \<and> db_rep mp' (db'\<lparr>db_offset := 0\<rparr>) (p # fs) ps (concat (map (cell_bytes mp) ps))
    \<and> db_offset db' = k \<and> db_header db' = db_header db \<and> db_size db' = db_size db
    \<and> db_frame mp fs (p # ps) mp' (p # fs) ps"
proof -
  from rep have c: "db_head db = Some p" "chain (mp_nx mp) (mp_nx mp p) ps" "p \<notin> set ps" "distinct ps"
      "p \<notin> set fs" "db_tail db = Some (last (p # ps))" "mp_wf mp fs" "set fs \<inter> set ps = {}"
    and ok: "cell_ok mp p" "\<And>q. q \<in> set ps \<Longrightarrow> cell_ok mp q"
    by (auto simp: db_rep_def)
  from ok(1) obtain b nx where
    b: "mp_heap mp p = Some \<lparr>m_buffer = Some b, m_size = int (length b), m_next = nx\<rparr>" by (auto simp: cell_ok_def)
  then have nx: "mp_nx mp p = nx" by (simp add: mp_nx_def)
  let ?m = "\<lparr>m_buffer = None, m_size = 0, m_next = mp_freelist mp\<rparr>"
  define mp' where "mp' = mp\<lparr>mp_heap := (mp_heap mp)(p \<mapsto> ?m), mp_freelist := Some p\<rparr>"
  have mp': "mp_heap mp' = (mp_heap mp)(p \<mapsto> ?m)" "mp_nx mp' = (mp_nx mp)(p := mp_freelist mp)"
    "mp_freelist mp' = Some p" "mp_brk mp' = mp_brk mp" by (auto simp: mp'_def)
  have other: "cell_bytes mp' q = cell_bytes mp q" "cell_ok mp' q = cell_ok mp q" if "q \<in> set ps" for q
    using that c(3) by (auto simp: mp' intro!: cell_bytes_other cell_ok_other)
  have wf: "mp_wf mp' (p # fs)"
    using c(5,7) b by (auto simp: mp_wf_def mp' simp del: fun_upd_apply) (auto simp: fun_upd_same)
  define db' where "db' = (if ps = [] then db\<lparr>db_offset := k, db_head := None, db_tail := None\<rparr>
    else db\<lparr>db_offset := k, db_head := nx\<rparr>)"
  have "return_message (db\<lparr>db_offset := k\<rparr>) mp = Inr (db', mp')"
    using c(1,2,6) b nx by (cases ps) (auto simp: return_message_def mp'_def db'_def)
  moreover have "db_rep mp' (db'\<lparr>db_offset := 0\<rparr>) (p # fs) ps (concat (map (cell_bytes mp) ps))"
  proof -
    have bytes: "map (cell_bytes mp) ps = map (cell_bytes mp') ps" using other by simp
    have "chain (mp_nx mp') (db_head db') ps"
      using c(2,3) nx by (cases "ps = []") (auto simp: mp' db'_def simp del: fun_upd_apply)
    then show ?thesis
      unfolding bytes using wf c ok other by (auto simp: db_rep_def db'_def split: list.splits)
  qed
  moreover have "db_frame mp fs (p # ps) mp' (p # fs) ps" by (auto simp: db_frame_def mp')
  ultimately show ?thesis by (auto simp: db'_def)
qed

lemma read_loop_ok:
  assumes "db_rep mp db fs ps bs" "0 < sz" "sz \<le> int (length bs)"
  shows "\<exists>db' mp' fs' ps'. read_loop db mp out sz = Some (Inr (db', mp', out @ take (nat sz) bs))
    \<and> db_rep mp' db' fs' ps' (drop (nat sz) bs) \<and> db_header db' = db_header db \<and> db_size db' = db_size db
    \<and> db_frame mp fs ps mp' fs' ps'"
  using assms
proof (induction ps arbitrary: mp db fs bs sz out)
  case Nil
  then show ?case by (simp add: db_rep_def)
next
  case (Cons p ps)
  from Cons.prems(1) have head: "db_head db = Some p" and ok: "cell_ok mp p"
    and off: "0 \<le> db_offset db" "db_offset db \<le> int (length (cell_bytes mp p))"
    and bs: "bs = drop (nat (db_offset db)) (cell_bytes mp p) @ concat (map (cell_bytes mp) ps)"
    by (auto simp: db_rep_def)
  from ok obtain nx where cell: "mp_heap mp p = Some \<lparr>m_buffer = Some (cell_bytes mp p),
      m_size = int (length (cell_bytes mp p)), m_next = nx\<rparr>"
    by (auto simp: cell_ok_def cell_bytes_def)
  let ?bsz = "int (length (cell_bytes mp p)) - db_offset db"
  have mem: "mem_read (Some (cell_bytes mp p)) (db_offset db) n
      = Inr (take (nat n) (drop (nat (db_offset db)) (cell_bytes mp p)))" if "0 \<le> n" "n \<le> ?bsz" for n
    using that off by (simp add: mem_read_def)
  have take_bs: "take (nat n) bs = take (nat n) (drop (nat (db_offset db)) (cell_bytes mp p))"
    if "n \<le> ?bsz" for n
    using that off by (simp add: bs nat_le_iff)
  consider (more) "?bsz > sz" | (eq) "?bsz = sz" | (less) "?bsz < sz" by linarith
  then show ?case
  proof cases
    case more
    let ?db = "db\<lparr>db_offset := db_offset db + sz\<rparr>"
    have "read_loop db mp out sz = Some (Inr (?db, mp, out @ take (nat sz) bs))"
      using more head cell mem [of sz] take_bs [of sz] Cons.prems(2)
      by (subst read_loop.simps) (simp add: Let_def)
    moreover have "db_rep mp ?db fs (p # ps) (drop (nat sz) bs)"
      using Cons.prems(1,2) more off by (auto simp: db_rep_def nat_add_distrib add.commute)
    ultimately show ?thesis by fastforce
  next
    case eq
    from return_message_ok [OF Cons.prems(1), of 0] obtain db' mp' where
      ret: "return_message (db\<lparr>db_offset := 0\<rparr>) mp = Inr (db', mp')" "db_offset db' = 0"
        "db_rep mp' (db'\<lparr>db_offset := 0\<rparr>) (p # fs) ps (concat (map (cell_bytes mp) ps))"
        "db_header db' = db_header db" "db_size db' = db_size db" "db_frame mp fs (p # ps) mp' (p # fs) ps" by blast
    have "read_loop db mp out sz = Some (Inr (db', mp', out @ take (nat sz) bs))"
      using eq head cell mem [of sz] take_bs [of sz] Cons.prems(2) ret(1)
      by (subst read_loop.simps) (simp add: Let_def)
    moreover have "drop (nat sz) bs = concat (map (cell_bytes mp) ps)"
      using eq off by (auto simp: bs)
    moreover have "db'\<lparr>db_offset := 0\<rparr> = db'" using ret(2) by simp
    ultimately show ?thesis using ret by (metis)
  next
    case less
    from return_message_ok [OF Cons.prems(1), of "db_offset db"] obtain db' mp' where
      ret: "return_message db mp = Inr (db', mp')"
        "db_rep mp' (db'\<lparr>db_offset := 0\<rparr>) (p # fs) ps (concat (map (cell_bytes mp) ps))"
        "db_header db' = db_header db" "db_size db' = db_size db" "db_frame mp fs (p # ps) mp' (p # fs) ps"
      by auto
    let ?b = "drop (nat (db_offset db)) (cell_bytes mp p)"
    have step: "read_loop db mp out sz = read_loop (db'\<lparr>db_offset := 0\<rparr>) mp' (out @ ?b) (sz - ?bsz)"
      using less head cell mem [of ?bsz] ret(1) off by (subst read_loop.simps) (simp add: Let_def)
    have lens: "length ?b = nat ?bsz" "nat (sz - ?bsz) = nat sz - length ?b" "length ?b \<le> nat sz"
      using less off by auto
    have "0 < sz - ?bsz" "sz - ?bsz \<le> int (length (concat (map (cell_bytes mp) ps)))"
      using less Cons.prems(3) lens(1) off by (auto simp: bs)
    from Cons.IH [OF ret(2) this, of "out @ ?b"] obtain db2 mp2 fs2 ps2 where
      r: "read_loop (db'\<lparr>db_offset := 0\<rparr>) mp' (out @ ?b) (sz - ?bsz)
          = Some (Inr (db2, mp2, (out @ ?b) @ take (nat (sz - ?bsz)) (concat (map (cell_bytes mp) ps))))"
        "db_rep mp2 db2 fs2 ps2 (drop (nat (sz - ?bsz)) (concat (map (cell_bytes mp) ps)))"
        "db_header db2 = db_header db'" "db_size db2 = db_size db'" "db_frame mp' (p # fs) ps mp2 fs2 ps2" by auto
    have "take (nat sz) bs = ?b @ take (nat (sz - ?bsz)) (concat (map (cell_bytes mp) ps))"
      "drop (nat sz) bs = drop (nat (sz - ?bsz)) (concat (map (cell_bytes mp) ps))"
      unfolding lens(2) bs using lens(3) by simp_all
    with r ret step show ?thesis by (metis append.assoc db_frame_trans)
  qed
qed

lemma databuffer_read_ok:
  assumes "db_rep mp db fs ps bs" "db_size db = int (length bs)" "0 < sz" "sz \<le> int (length bs)"
  shows "\<exists>db' mp' fs' ps'. databuffer_read db mp sz = Inr (db', mp', take (nat sz) bs)
    \<and> db_rep mp' db' fs' ps' (drop (nat sz) bs) \<and> db_size db' = int (length (drop (nat sz) bs))
    \<and> db_header db' = db_header db \<and> db_frame mp fs ps mp' fs' ps'"
proof -
  have "db_rep mp (db\<lparr>db_size := db_size db - sz\<rparr>) fs ps bs" using assms(1) by (simp add: db_rep_def)
  from read_loop_ok [OF this assms(3,4), of "[]"] assms show ?thesis
    by (fastforce simp: databuffer_read_def of_nat_diff)
qed

text \<open>Where the record for new data comes from.\<close>

lemma chain_upto:
  "m \<le> n \<Longrightarrow> (\<And>p. m \<le> p \<Longrightarrow> p < n \<Longrightarrow> nx p = (if p = n - 1 then None else Some (Suc p))) \<Longrightarrow>
     chain nx (if m = n then None else Some m) [m..<n]"
proof (induction "n - m" arbitrary: m)
  case (Suc k)
  from Suc(2) have lt: "m < n" by simp
  have "chain nx (if Suc m = n then None else Some (Suc m)) [Suc m..<n]"
    using Suc(2,4) lt by (intro Suc(1)) auto
  with lt Suc(4) [of m] show ?case by (auto simp: upt_conv_Cons split: if_splits)
qed simp

definition record_taken :: "messagepool \<Rightarrow> ptr list \<Rightarrow> messagepool \<Rightarrow> ptr \<Rightarrow> ptr list \<Rightarrow> bool" where
  "record_taken mp fs mp1 m fs1 \<longleftrightarrow>
     chain (mp_nx mp1) (mp_freelist mp1) fs1 \<and> distinct (m # fs1) \<and> set fs1 \<subseteq> dom (mp_heap mp1)
     \<and> dom (mp_heap mp1) \<subseteq> {..<mp_brk mp1} \<and> m < mp_brk mp1
     \<and> (\<forall>p \<in> dom (mp_heap mp). mp_heap mp1 p = mp_heap mp p)
     \<and> set (m # fs1) \<inter> (dom (mp_heap mp) - set fs) = {}"

lemma take_record_ok:
  assumes wf: "mp_wf mp fs"
  shows "\<exists>mp1 m fs1. (case mp_freelist mp of
        Some m \<Rightarrow> bindE (derefE (mp_heap mp m)) (\<lambda>msg. Inr (mp\<lparr>mp_freelist := m_next msg\<rparr>, m))
      | None \<Rightarrow> Inr (new_pool mp)) = Inr (mp1, m) \<and> record_taken mp fs mp1 m fs1"
proof (cases fs)
  case (Cons m fs1)
  with wf obtain msg where "mp_freelist mp = Some m" "mp_heap mp m = Some msg"
    "chain (mp_nx mp) (m_next msg) fs1" by (auto simp: mp_wf_def mp_nx_def)
  moreover from this have "record_taken mp fs (mp\<lparr>mp_freelist := m_next msg\<rparr>) m fs1"
    using wf Cons by (auto simp: mp_wf_def record_taken_def)
  ultimately show ?thesis by auto
next
  case Nil
  let ?b = "mp_brk mp" and ?mp = "fst (new_pool mp)"
  have free: "mp_freelist mp = None" using wf by (simp add: mp_wf_def Nil)
  have dom: "dom (mp_heap mp) \<subseteq> {..<?b}" using wf by (simp add: mp_wf_def)
  have "chain (mp_nx ?mp) (if ?b + 1 = ?b + MESSAGEPOOL then None else Some (?b + 1)) [?b + 1..<?b + MESSAGEPOOL]"
    by (rule chain_upto) (auto simp: MESSAGEPOOL_def new_pool_def mp_nx_def Let_def)
  then have "chain (mp_nx ?mp) (mp_freelist ?mp) [?b + 1..<?b + MESSAGEPOOL]"
    by (simp add: MESSAGEPOOL_def new_pool_def Let_def)
  moreover have "set [?b + 1..<?b + MESSAGEPOOL] \<subseteq> dom (mp_heap ?mp)" "dom (mp_heap ?mp) \<subseteq> {..<mp_brk ?mp}"
    using dom by (auto simp: new_pool_def Let_def MESSAGEPOOL_def split: if_splits) (fastforce simp: dom_def)+
  moreover have "mp_heap ?mp p = mp_heap mp p" if "p \<in> dom (mp_heap mp)" for p
    using that dom by (auto simp: new_pool_def Let_def)
  moreover have "new_pool mp = (?mp, ?b)" "?b < mp_brk ?mp"
    by (simp_all add: new_pool_def Let_def MESSAGEPOOL_def)
  ultimately show ?thesis
    using free dom Nil
    by (intro exI [of _ ?mp] exI [of _ ?b] exI [of _ "[?b + 1..<?b + MESSAGEPOOL]"])
      (auto simp: record_taken_def)
qed

lemma db_repD:
  assumes "db_rep mp db fs ps bs"
  shows "mp_wf mp fs" "chain (mp_nx mp) (db_head db) ps" "distinct ps" "set fs \<inter> set ps = {}"
    "db_tail db = (if ps = [] then None else Some (last ps))" "\<And>q. q \<in> set ps \<Longrightarrow> cell_ok mp q"
    "0 \<le> db_offset db" "bs = drop (nat (db_offset db)) (concat (map (cell_bytes mp) ps))"
    "db_offset db \<le> (case ps of [] \<Rightarrow> 0 | p # _ \<Rightarrow> int (length (cell_bytes mp p)))"
    "\<And>q. q \<in> set ps \<Longrightarrow> q \<in> dom (mp_heap mp)"
  using assms by (auto simp: db_rep_def cell_ok_def)

text \<open>The store after \<^verbatim>\<open>m\<close> has been filled, for an empty buffer and behind the last record \<open>t\<close>.\<close>

abbreviation filled :: "u8 list \<Rightarrow> db_message" where
  "filled data \<equiv> \<lparr>m_buffer = Some data, m_size = int (length data), m_next = None\<rparr>"

lemma push_first_ok:
  assumes rep: "db_rep mp db fs [] bs" and m: "record_taken mp fs mp1 m fs1"
    and mp2: "mp2 = mp1\<lparr>mp_heap := (mp_heap mp1)(m \<mapsto> filled data)\<rparr>"
  shows "db_rep mp2 (db\<lparr>db_size := sz, db_head := Some m, db_tail := Some m\<rparr>) fs1 [m] (bs @ data)"
    "db_frame mp fs [] mp2 fs1 [m]"
proof -
  have "mp_wf mp2 fs1" using m by (auto simp: mp_wf_def mp2 record_taken_def simp del: fun_upd_apply)
  moreover have "bs = []" "db_offset db = 0" using db_repD [OF rep] by auto
  ultimately show "db_rep mp2 (db\<lparr>db_size := sz, db_head := Some m, db_tail := Some m\<rparr>) fs1 [m] (bs @ data)"
    using m by (auto simp: db_rep_def mp2 cell_ok_def cell_bytes_def record_taken_def)
  show "db_frame mp fs [] mp2 fs1 [m]"
    using m by (auto simp: db_frame_def mp2 dom_def record_taken_def)
qed

lemma push_last_ok:
  assumes rep: "db_rep mp db fs ps bs" "ps \<noteq> []" and m: "record_taken mp fs mp1 m fs1"
    and mp2: "mp2 = mp1\<lparr>mp_heap := (mp_heap mp1)(m \<mapsto> filled data)\<rparr>"
    and t: "t = last ps" "mp_heap mp2 t = Some tmsg"
    and mp3: "mp3 = mp2\<lparr>mp_heap := (mp_heap mp2)(t \<mapsto> tmsg\<lparr>m_next := Some m\<rparr>)\<rparr>"
  shows "db_rep mp3 (db\<lparr>db_size := sz, db_tail := Some m\<rparr>) fs1 (ps @ [m]) (bs @ data)"
    "db_frame mp fs ps mp3 fs1 (ps @ [m])"
proof -
  note c = db_repD [OF rep(1)]
  have t': "t \<in> set ps" using rep(2) by (simp add: t)
  from m have free: "chain (mp_nx mp1) (mp_freelist mp1) fs1" "m \<notin> set fs1" "set fs1 \<subseteq> dom (mp_heap mp1)"
      "distinct fs1" "dom (mp_heap mp1) \<subseteq> {..<mp_brk mp1}" "m < mp_brk mp1"
    and same: "\<And>p. p \<in> dom (mp_heap mp) \<Longrightarrow> mp_heap mp1 p = mp_heap mp p"
    and sep: "set (m # fs1) \<inter> (dom (mp_heap mp) - set fs) = {}" by (auto simp: record_taken_def)
  from sep c(4,10) have new: "m \<notin> set ps" "set fs1 \<inter> set ps = {}" unfolding list.set by blast+
  have tm: "t \<noteq> m" "t \<notin> set fs1" using t' new by auto
  have heap3: "mp_heap mp3 q = mp_heap mp q" if "q \<in> dom (mp_heap mp)" "q \<noteq> t" "q \<noteq> m" for q
    using that same by (simp add: mp3 mp2)
  have nx3: "mp_nx mp3 = (mp_nx mp1)(m := None, t := Some m)" by (simp add: mp3 mp2)
  have "chain (mp_nx mp1) (db_head db) ps"
    using c(2) by (rule chain_frame [THEN iffD2, rotated]) (use same c(10) in \<open>auto simp: mp_nx_def\<close>)
  then have chain3: "chain (mp_nx mp3) (db_head db) (ps @ [m])"
    using chain_append_tail [of "mp_nx mp1" "db_head db" ps m] rep(2) c(3) new(1) tm(1)
    unfolding nx3 t(1) by (metis fun_upd_twist)
  have "t \<in> dom (mp_heap mp1)" using c(10) [OF t'] same [of t] by (simp add: dom_def)
  moreover have "chain (mp_nx mp3) (mp_freelist mp3) fs1"
    unfolding nx3 using free(1,2) tm by (simp add: mp3 mp2 del: fun_upd_apply)
  ultimately have wf: "mp_wf mp3 fs1" using free by (auto simp: mp_wf_def mp3 mp2)
  have t_mp: "mp_heap mp t = Some tmsg" using t(2) tm(1) same [OF c(10) [OF t']] by (simp add: mp2)
  have cells: "cell_bytes mp3 q = cell_bytes mp q" "cell_ok mp3 q" if "q \<in> set ps" for q
  proof -
    have "q \<noteq> m" using that new(1) by auto
    note q = heap3 [OF c(10) [OF that] _ this]
    show "cell_bytes mp3 q = cell_bytes mp q" "cell_ok mp3 q"
      using q t_mp c(6) [OF that] by (cases "q = t"; auto simp: cell_bytes_def cell_ok_def mp3)+
  qed
  have new_cell: "cell_bytes mp3 m = data" "cell_ok mp3 m"
    using tm(1) by (auto simp: mp3 mp2 cell_bytes_def cell_ok_def)
  have cm: "map (cell_bytes mp3) ps = map (cell_bytes mp) ps" using cells by simp
  have "nat (db_offset db) \<le> length (concat (map (cell_bytes mp) ps))"
    using c(7,9) rep(2) by (cases ps) auto
  then have "bs @ data = drop (nat (db_offset db)) (concat (map (cell_bytes mp3) (ps @ [m])))"
    unfolding map_append concat_append cm c(8) by (simp add: new_cell)
  moreover have "db_offset db \<le> (case ps @ [m] of [] \<Rightarrow> 0 | p # _ \<Rightarrow> int (length (cell_bytes mp3 p)))"
    using c(9) rep(2) cells by (cases ps) auto
  ultimately show "db_rep mp3 (db\<lparr>db_size := sz, db_tail := Some m\<rparr>) fs1 (ps @ [m]) (bs @ data)"
    using chain3 wf c(3,7) new new_cell cells free(2) by (simp add: db_rep_def ball_Un)
  show "db_frame mp fs ps mp3 fs1 (ps @ [m])"
    unfolding db_frame_def
  proof (intro allI impI)
    fix p msg assume p: "mp_heap mp p = Some msg \<and> p \<notin> set fs \<union> set ps"
    then have "p \<noteq> m" "p \<notin> set fs1" using sep by auto
    moreover have "p \<noteq> t" using p t' by auto
    ultimately show "mp_heap mp3 p = Some msg \<and> p \<notin> set fs1 \<union> set (ps @ [m])"
      using p heap3 [of p] by auto
  qed
qed

lemma databuffer_push_ok:
  assumes rep: "db_rep mp db fs ps bs" "db_size db = int (length bs)"
  shows "\<exists>db' mp' fs' ps'. databuffer_push db mp (Some data) (int (length data)) = Inr (db', mp')
    \<and> db_rep mp' db' fs' ps' (bs @ data) \<and> db_size db' = int (length (bs @ data))
    \<and> db_header db' = db_header db \<and> db_frame mp fs ps mp' fs' ps'"
proof -
  note c = db_repD [OF rep(1)]
  from take_record_ok [OF c(1)] obtain mp1 m fs1 where
    take: "(case mp_freelist mp of
        Some m \<Rightarrow> bindE (derefE (mp_heap mp m)) (\<lambda>msg. Inr (mp\<lparr>mp_freelist := m_next msg\<rparr>, m))
      | None \<Rightarrow> Inr (new_pool mp)) = Inr (mp1, m)"
    and m: "record_taken mp fs mp1 m fs1" by auto
  let ?mp2 = "mp1\<lparr>mp_heap := (mp_heap mp1)(m \<mapsto> filled data)\<rparr>" and ?sz = "db_size db + int (length data)"
  show ?thesis
  proof (cases "ps = []")
    case True
    with c(2,5) have "databuffer_push db mp (Some data) (int (length data))
        = Inr (db\<lparr>db_size := ?sz, db_head := Some m, db_tail := Some m\<rparr>, ?mp2)"
      unfolding databuffer_push_def take by (simp add: Let_def)
    with push_first_ok(1) [OF rep(1) [unfolded True] m refl, of data ?sz]
      push_first_ok(2) [OF rep(1) [unfolded True] m refl, of data] True rep(2) show ?thesis by fastforce
  next
    case False
    then have t: "last ps \<in> set ps" by simp
    with c(4,10) m have "last ps \<noteq> m" "mp_heap mp1 (last ps) = mp_heap mp (last ps)"
      by (auto simp: record_taken_def)
    with c(10) [OF t] obtain tmsg where tmsg: "mp_heap ?mp2 (last ps) = Some tmsg" by auto
    from False c(2,5) obtain h where "db_head db = Some h" "db_tail db = Some (last ps)" by (cases ps) auto
    with tmsg have "databuffer_push db mp (Some data) (int (length data)) = Inr (db\<lparr>db_size := ?sz, db_tail := Some m\<rparr>,
        ?mp2\<lparr>mp_heap := (mp_heap ?mp2)(last ps \<mapsto> tmsg\<lparr>m_next := Some m\<rparr>)\<rparr>)"
      unfolding databuffer_push_def take by (simp add: Let_def)
    with push_last_ok(1) [OF rep(1) False m refl refl tmsg refl, of ?sz]
      push_last_ok(2) [OF rep(1) False m refl refl tmsg refl] rep(2) show ?thesis by fastforce
  qed
qed

lemma clear_loop_ok:
  assumes "db_rep mp (db\<lparr>db_offset := 0\<rparr>) fs ps bs"
  shows "\<exists>mp' fs'. clear_loop db mp = Some (Inr mp') \<and> mp_wf mp' fs' \<and> db_frame mp fs ps mp' fs' []"
  using assms
proof (induction ps arbitrary: mp db fs bs)
  case Nil
  then show ?case by (subst clear_loop.simps) (auto simp: db_rep_def)
next
  case (Cons p ps)
  from return_message_ok [OF Cons.prems, of "db_offset db"] obtain db' mp' where
    ret: "return_message db mp = Inr (db', mp')" "db_frame mp fs (p # ps) mp' (p # fs) ps"
      "db_rep mp' (db'\<lparr>db_offset := 0\<rparr>) (p # fs) ps (concat (map (cell_bytes mp) ps))" by auto
  from Cons.IH [OF ret(3)] obtain mp2 fs2 where
    "clear_loop db' mp' = Some (Inr mp2)" "mp_wf mp2 fs2" "db_frame mp' (p # fs) ps mp2 fs2 []" by blast
  moreover have "db_head db = Some p" using Cons.prems by (simp add: db_rep_def)
  ultimately show ?case
    using ret db_frame_trans [OF ret(2)] by (subst clear_loop.simps) auto
qed

lemma databuffer_clear_ok:
  assumes "db_rep mp db fs ps bs"
  shows "\<exists>mp' fs'. databuffer_clear db mp = Inr (databuffer_zero, mp')
    \<and> db_rep mp' databuffer_zero fs' [] [] \<and> db_frame mp fs ps mp' fs' []"
proof -
  have "db_rep mp (db\<lparr>db_offset := 0\<rparr>) fs ps (concat (map (cell_bytes mp) ps))"
    using assms by (auto simp: db_rep_def split: list.splits)
  from clear_loop_ok [OF this] show ?thesis
    by (auto simp: databuffer_clear_def db_rep_def databuffer_zero_def)
qed

text \<open>A length as a number.\<close>

definition be_value :: "u8 list \<Rightarrow> int" where
  "be_value bs = foldl (\<lambda>n b. n * 256 + uint b) 0 bs"

lemma or_push_bit: "0 \<le> y \<Longrightarrow> y < 2 ^ n \<Longrightarrow> push_bit n x OR y = x * 2 ^ n + (y :: int)"
proof -
  assume y: "0 \<le> y" "y < 2 ^ n"
  then have "take_bit n y = y" by (simp add: take_bit_int_eq_self)
  then have "push_bit n x OR y = push_bit n x + y"
    by (intro disjunctive_add_eq_or [symmetric] bit_eqI)
      (metis bit_0_eq bit_and_iff bit_push_bit_iff bit_take_bit_iff bot_apply bot_bool_def not_less)
  then show ?thesis by (simp add: push_bit_eq_mult)
qed

lemma uint_u8: "0 \<le> uint (b :: u8)" "uint b < 2 ^ 8"
  using uint_lt2p [of b] by simp_all

lemma header_value_ok:
  assumes "length plen = nat hs" "hs = 2 \<or> hs = 4"
  shows "header_value hs plen = Inr (if hs = 2 then be_value plen else wrap32 (be_value plen))"
proof -
  have two: "push_bit 8 (uint a) OR uint b = uint a * 256 + uint b" for a b :: u8
    using or_push_bit [of "uint b" 8 "uint a"] uint_u8 [of b] by simp
  have four: "push_bit 24 (uint a) OR push_bit 16 (uint b) OR push_bit 8 (uint c) OR uint d
      = ((uint a * 256 + uint b) * 256 + uint c) * 256 + uint d" for a b c d :: u8
  proof -
    have "push_bit 24 (uint a) OR push_bit 16 (uint b) OR push_bit 8 (uint c) OR uint d
        = push_bit 8 (push_bit 8 (push_bit 8 (uint a) OR uint b) OR uint c) OR uint d"
      by (simp add: push_bit_or ac_simps)
    also have "\<dots> = ((uint a * 256 + uint b) * 256 + uint c) * 256 + uint d"
      using or_push_bit [of "uint b" 8 "uint a"] or_push_bit [of "uint c" 8 "uint a * 256 + uint b"]
        or_push_bit [of "uint d" 8 "(uint a * 256 + uint b) * 256 + uint c"] uint_u8 [of b] uint_u8 [of c]
        uint_u8 [of d] by simp
    finally show ?thesis .
  qed
  from assms(2) show ?thesis
  proof
    assume "hs = 2"
    with assms(1) obtain a b where "plen = [a, b]" by (auto simp: numeral_2_eq_2 length_Suc_conv)
    with \<open>hs = 2\<close> two show ?thesis by (simp add: header_value_def be_value_def)
  next
    assume "hs = 4"
    with assms(1) obtain a b c d where "plen = [a, b, c, d]" by (auto simp: eval_nat_numeral length_Suc_conv)
    with \<open>hs = 4\<close> four show ?thesis by (simp add: header_value_def be_value_def)
  qed
qed

section \<open>The interface\<close>

text \<open>
  A stream of bytes: what is pushed is read back in order, in pieces of any size.
\<close>

datatype stream_op = Push_bytes "u8 list" | Read_bytes nat

fun stream_run :: "('s \<Rightarrow> u8 list \<Rightarrow> 's res) \<Rightarrow> ('s \<Rightarrow> nat \<Rightarrow> ('s \<times> u8 list) res) \<Rightarrow> 's \<Rightarrow> stream_op list
    \<Rightarrow> ('s \<times> u8 list list) res" where
  "stream_run push read s [] = Inr (s, [])"
| "stream_run push read s (Push_bytes d # ops) = bindE (push s d) (\<lambda>s. stream_run push read s ops)"
| "stream_run push read s (Read_bytes n # ops) = bindE (read s n) (\<lambda>(s, b).
     bindE (stream_run push read s ops) (\<lambda>(s, bs). Inr (s, b # bs)))"

text \<open>The reference on a plain list, for reads of at least one byte and at most what is there.\<close>

fun stream_spec :: "u8 list \<Rightarrow> stream_op list \<Rightarrow> u8 list list option" where
  "stream_spec bs [] = Some []"
| "stream_spec bs (Push_bytes d # ops) = stream_spec (bs @ d) ops"
| "stream_spec bs (Read_bytes n # ops) =
     (if 0 < n \<and> n \<le> length bs then map_option (Cons (take n bs)) (stream_spec (drop n bs) ops) else None)"

locale byte_stream =
  fixes rep :: "'s \<Rightarrow> u8 list \<Rightarrow> bool"
    and push :: "'s \<Rightarrow> u8 list \<Rightarrow> 's res"
    and read :: "'s \<Rightarrow> nat \<Rightarrow> ('s \<times> u8 list) res"
  assumes push_law: "rep s bs \<Longrightarrow> \<exists>s'. push s d = Inr s' \<and> rep s' (bs @ d)"
    and read_law: "rep s bs \<Longrightarrow> 0 < n \<Longrightarrow> n \<le> length bs \<Longrightarrow>
      \<exists>s'. read s n = Inr (s', take n bs) \<and> rep s' (drop n bs)"
begin

lemma run_reads:
  assumes "rep s bs" "stream_spec bs ops = Some out"
  shows "\<exists>s'. stream_run push read s ops = Inr (s', out)"
  using assms
proof (induction bs ops arbitrary: s out rule: stream_spec.induct)
  case (2 bs d ops)
  then show ?case using push_law [of s bs d] by fastforce
next
  case (3 bs n ops)
  from 3(3) have n: "0 < n" "n \<le> length bs" by (auto split: if_splits)
  with 3 read_law [of s bs n] show ?case by fastforce
qed simp

end

text \<open>A buffer with its pool.\<close>

type_synonym pooled = "databuffer \<times> messagepool"

definition pooled_rep :: "pooled \<Rightarrow> u8 list \<Rightarrow> bool" where
  "pooled_rep = (\<lambda>(db, mp) bs. db_size db = int (length bs) \<and> (\<exists>fs ps. db_rep mp db fs ps bs))"

definition pooled_push :: "pooled \<Rightarrow> u8 list \<Rightarrow> pooled res" where
  "pooled_push = (\<lambda>(db, mp) d. databuffer_push db mp (Some d) (int (length d)))"

definition pooled_read :: "pooled \<Rightarrow> nat \<Rightarrow> (pooled \<times> u8 list) res" where
  "pooled_read = (\<lambda>(db, mp) n. bindE (databuffer_read db mp (int n)) (\<lambda>(db, mp, b). Inr ((db, mp), b)))"

interpretation dbs: byte_stream pooled_rep pooled_push pooled_read
proof
  fix s :: pooled and bs d assume "pooled_rep s bs"
  then show "\<exists>s'. pooled_push s d = Inr s' \<and> pooled_rep s' (bs @ d)"
    using databuffer_push_ok [of "snd s" "fst s" _ _ bs d]
    by (fastforce simp: pooled_rep_def pooled_push_def case_prod_beta)
next
  fix s :: pooled and bs and n :: nat assume "pooled_rep s bs" "0 < n" "n \<le> length bs"
  then show "\<exists>s'. pooled_read s n = Inr (s', take n bs) \<and> pooled_rep s' (drop n bs)"
    using databuffer_read_ok [of "snd s" "fst s" _ _ bs "int n"]
    by (fastforce simp: pooled_rep_def pooled_read_def case_prod_beta)
qed

section \<open>Properties\<close>

text \<open>C31: A receive buffer is a stream of bytes. Whatever blocks are pushed and whatever sizes are read,
  as long as no more is read than is there, no assertion fails, no record is used after it was
  returned to the pool, the loop over the records ends, and the bytes read are the bytes pushed, in
  order, across the boundaries of the blocks and the refills of the pool.\<close>

theorem databuffer_is_stream:
  assumes "stream_spec [] ops = Some out"
  shows "\<exists>s. stream_run pooled_push pooled_read (databuffer_zero, messagepool_zero) ops = Inr (s, out)"
proof -
  have "pooled_rep (databuffer_zero, messagepool_zero) []"
    using db_rep_zero by (auto simp: pooled_rep_def databuffer_zero_def)
  from dbs.run_reads [OF this assms] show ?thesis .
qed

theorem databuffer_is_stream_witness:
  "\<exists>s. stream_run pooled_push pooled_read (databuffer_zero, messagepool_zero)
      [Push_bytes [1, 2, 3], Push_bytes [], Read_bytes 2, Push_bytes [4, 5], Read_bytes 2, Read_bytes 1]
    = Inr (s, [[1, 2], [3, 4], [5]])"
  by (rule databuffer_is_stream) simp

end
