(* ===== verification/Gate_Service.thy ===== *)
theory Gate_Service
  imports Skynet_Server Hash_Id Data_Buffer Netpack
begin

text \<open>
  The gate service in C, \<^verbatim>\<open>service-src/service_gate.c\<close>: it accepts connections, splits what arrives on
  them into packets by a two- or four-byte length, and forwards the packets to an agent, a broker or
  its watchdog.

  The state is the record \<open>gate\<close>, built on the tables of theories \<open>Hash_Id\<close> and \<open>Data_Buffer\<close>. The
  calls that the service makes (sending to services, closing, starting and writing to sockets, the
  error log) are recorded in order in the field \<open>g_trace\<close>; the answers of \<^verbatim>\<open>skynet_queryname\<close> and
  \<^verbatim>\<open>skynet_socket_listen\<close> are arguments. Text buffers that the code changes in place are lists of
  characters with their terminating NUL, so that reads behind it are visible.
\<close>

section \<open>Data\<close>

record connection =
  cn_id :: int
  cn_agent :: u32
  cn_client :: u32
  cn_remote_name :: "u8 list"
  cn_buffer :: databuffer

datatype gate_call = Send u32 u32 i32 int "u8 list" | Socket_close int | Socket_start int
  | Socket_send int "u8 list" | Log "u8 list"

record gate =
  g_listen_id :: int
  g_watchdog :: u32
  g_broker :: u32
  g_client_tag :: i32
  g_header_size :: int
  g_max_connection :: nat
  g_hash :: hashid
  g_conn :: "connection list"
  g_mp :: messagepool
  g_trace :: "gate_call list"

definition call :: "gate_call \<Rightarrow> gate \<Rightarrow> gate" where
  "call a g = g\<lparr>g_trace := g_trace g @ [a]\<rparr>"

text \<open>Texts as bytes, and the formats used.\<close>

definition bytes :: "string \<Rightarrow> u8 list" where
  "bytes s = map of_char s"

definition set_conn :: "nat \<Rightarrow> connection \<Rightarrow> gate \<Rightarrow> gate" where
  "set_conn i c g = g\<lparr>g_conn := (g_conn g)[i := c]\<rparr>"

definition connection_zero :: connection where
  "connection_zero = \<lparr>cn_id = 0, cn_agent = 0, cn_client = 0, cn_remote_name = replicate 32 0,
     cn_buffer = databuffer_zero\<rparr>"

definition gate_create :: gate where
  "gate_create = \<lparr>g_listen_id = -1, g_watchdog = 0, g_broker = 0, g_client_tag = 0, g_header_size = 0,
     g_max_connection = 0,
     g_hash = \<lparr>hi_hashmod = 0, hi_cap = 0, hi_count = 0, hi_id = [], hi_hash = []\<rparr>,
     g_conn = [], g_mp = messagepool_zero, g_trace = []\<rparr>"

text \<open>The calls of \<^verbatim>\<open>gate_release\<close>; what it frees is not used afterwards.\<close>

definition gate_release :: "gate \<Rightarrow> gate" where
  "gate_release g =
     (let g = fold (\<lambda>c g. if cn_id c \<ge> 0 then call (Socket_close (cn_id c)) g else g)
            (take (g_max_connection g) (g_conn g)) g;
          g = (if g_listen_id g \<ge> 0 then call (Socket_close (g_listen_id g)) g else g)
      in g\<lparr>g_mp := messagepool_free (g_mp g), g_hash := hashid_clear (g_hash g), g_conn := []\<rparr>)"

section \<open>Text commands\<close>

text \<open>The string that starts at an offset of a buffer.\<close>

definition str_at :: "string \<Rightarrow> nat \<Rightarrow> string res" where
  "str_at buf off =
     (let s = drop off buf in
      if CHR 0x00 \<in> set s then Inr (takeWhile (\<lambda>c. c \<noteq> CHR 0x00) s) else Inl Out_Of_Bounds)"

text \<open>
  \<^verbatim>\<open>_parm\<close> moves the text behind the command, without leading blanks, to the front of the buffer and
  terminates it; what follows the new NUL is left as it was.
\<close>

definition parm :: "string \<Rightarrow> nat \<Rightarrow> nat \<Rightarrow> string" where
  "parm msg sz command_sz =
     (let arg = dropWhile (\<lambda>c. c = CHR '' '') (take (sz - command_sz) (drop command_sz msg))
      in arg @ CHR 0x00 # drop (Suc (length arg)) msg)"

text \<open>\<^verbatim>\<open>memcmp(a, b, n) == 0\<close>; a difference ends the comparison.\<close>

fun memcmp_eq :: "string \<Rightarrow> string \<Rightarrow> nat \<Rightarrow> bool res" where
  "memcmp_eq a b 0 = Inr True"
| "memcmp_eq (x # a) (y # b) (Suc n) = (if x = y then memcmp_eq a b n else Inr False)"
| "memcmp_eq a b (Suc n) = Inl Out_Of_Bounds"

text \<open>\<^verbatim>\<open>strsep(&p, " ")\<close> on a buffer: the buffer with the blank overwritten, and the next position.\<close>

definition strsep_at :: "string \<Rightarrow> nat \<Rightarrow> (string \<times> nat option) res" where
  "strsep_at buf off =
     bindE (str_at buf off) (\<lambda>s.
     let n = length (takeWhile (\<lambda>c. c \<noteq> CHR '' '') s) in
     Inr (if n < length s then (buf[off + n := CHR 0x00], Some (off + n + 1)) else (buf, None)))"

definition gate_forward_agent :: "gate \<Rightarrow> int \<Rightarrow> u32 \<Rightarrow> u32 \<Rightarrow> gate res" where
  "gate_forward_agent g fd agentaddr clientaddr =
     bindE (hashid_lookup (g_hash g) fd) (\<lambda>i.
     if i \<ge> 0
     then bindE (nthE (g_conn g) (nat i)) (\<lambda>agent.
       Inr (set_conn (nat i) (agent\<lparr>cn_agent := agentaddr, cn_client := clientaddr\<rparr>) g))
     else Inr g)"

text \<open>The command \<^verbatim>\<open>forward\<close>, from the buffer that \<^verbatim>\<open>_parm\<close> leaves.\<close>

definition ctrl_forward :: "gate \<Rightarrow> string \<Rightarrow> gate res" where
  "ctrl_forward g tmp =
     bindE (strsep_at tmp 0) (\<lambda>(tmp, client).
     case client of None \<Rightarrow> Inr g
     | Some agent \<Rightarrow>
         bindE (str_at tmp 0) (\<lambda>idstr.
         bindE (strsep_at tmp agent) (\<lambda>(tmp, client).
         case client of None \<Rightarrow> Inr g
         | Some client \<Rightarrow>
             bindE (str_at tmp (agent + 1)) (\<lambda>a.
             bindE (str_at tmp (client + 1)) (\<lambda>c.
             gate_forward_agent g (wrap32 (strtol idstr 10)) (ucast (strtoul a 16)) (ucast (strtoul c 16)))))))"

definition ctrl_socket :: "gate \<Rightarrow> string \<Rightarrow> (int \<Rightarrow> gate_call) \<Rightarrow> gate res" where
  "ctrl_socket g tmp act =
     bindE (str_at tmp 0) (\<lambda>s.
     let uid = wrap32 (strtol s 10) in
     bindE (hashid_lookup (g_hash g) uid) (\<lambda>i.
     Inr (if i \<ge> 0 then call (act uid) g else g)))"

definition ctrl_close :: "gate \<Rightarrow> gate" where
  "ctrl_close g = (if g_listen_id g \<ge> 0
     then (call (Socket_close (g_listen_id g)) g)\<lparr>g_listen_id := -1\<rparr> else g)"

text \<open>\<open>queryname\<close> is what \<^verbatim>\<open>skynet_queryname\<close> answers.\<close>

definition gate_ctrl :: "(string \<Rightarrow> u32) \<Rightarrow> gate \<Rightarrow> string \<Rightarrow> gate res" where
  "gate_ctrl queryname g msg =
     (let sz = length msg; tmp = msg @ [CHR 0x00] in
      if sz = 0 then Inr g else
      let i = length (takeWhile (\<lambda>c. c \<noteq> CHR '' '') msg) in
      bindE (memcmp_eq tmp (''kick'' @ [CHR 0x00]) i) (\<lambda>kick.
      if kick then ctrl_socket g (parm tmp sz i) Socket_close else
      bindE (memcmp_eq tmp (''forward'' @ [CHR 0x00]) i) (\<lambda>forward.
      if forward then ctrl_forward g (parm tmp sz i) else
      bindE (memcmp_eq tmp (''broker'' @ [CHR 0x00]) i) (\<lambda>broker.
      if broker then bindE (str_at (parm tmp sz i) 0) (\<lambda>name. Inr (g\<lparr>g_broker := queryname name\<rparr>)) else
      bindE (memcmp_eq tmp (''start'' @ [CHR 0x00]) i) (\<lambda>start.
      if start then ctrl_socket g (parm tmp sz i) Socket_start else
      bindE (memcmp_eq tmp (''close'' @ [CHR 0x00]) i) (\<lambda>close.
      if close then Inr (ctrl_close g) else
      bindE (str_at tmp 0) (\<lambda>command.
      Inr (call (Log (bytes (''[gate] Unkown command : '' @ command))) g))))))))"

section \<open>Data from the sockets\<close>

text \<open>The formatted text is an argument; it is shorter than the 1024 bytes the code allows.\<close>

definition gate_report :: "gate \<Rightarrow> u8 list \<Rightarrow> gate" where
  "gate_report g data = (if g_watchdog g = 0 then g else call (Send 0 (g_watchdog g) PTYPE_TEXT 0 data) g)"

text \<open>Reading from the buffer of the connection at index \<open>i\<close>.\<close>

definition conn_read :: "gate \<Rightarrow> nat \<Rightarrow> connection \<Rightarrow> int \<Rightarrow> (gate \<times> u8 list) res" where
  "conn_read g i c sz =
     bindE (databuffer_read (cn_buffer c) (g_mp g) sz) (\<lambda>(db, mp, temp).
     Inr ((set_conn i (c\<lparr>cn_buffer := db\<rparr>) g)\<lparr>g_mp := mp\<rparr>, temp))"

definition gate_forward :: "gate \<Rightarrow> nat \<Rightarrow> int \<Rightarrow> gate res" where
  "gate_forward g i sz =
     bindE (nthE (g_conn g) i) (\<lambda>c.
     let fd = cn_id c in
     if fd \<le> 0 then Inr g
     else if g_broker g \<noteq> 0 then
       bindE (conn_read g i c sz) (\<lambda>(g, temp).
       Inr (call (Send 0 (g_broker g) (g_client_tag g OR PTYPE_TAG_DONTCOPY) fd temp) g))
     else if cn_agent c \<noteq> 0 then
       bindE (conn_read g i c sz) (\<lambda>(g, temp).
       Inr (call (Send (cn_client c) (cn_agent c) (g_client_tag g OR PTYPE_TAG_DONTCOPY) fd temp) g))
     else if g_watchdog g \<noteq> 0 then
       bindE (conn_read g i c sz) (\<lambda>(g, temp).
       Inr (call (Send 0 (g_watchdog g) (PTYPE_TEXT OR PTYPE_TAG_DONTCOPY) fd
         (bytes (fmt_d fd @ '' data '') @ temp)) g))
     else Inr g)"

partial_function (option) gate_split_loop :: "gate \<Rightarrow> nat \<Rightarrow> int \<Rightarrow> gate res option" where
  "gate_split_loop g i fd =
     (case bindE (nthE (g_conn g) i) (\<lambda>c.
         bindE (databuffer_readheader (cn_buffer c) (g_mp g) (g_header_size g)) (\<lambda>(db, mp, sz).
         Inr ((set_conn i (c\<lparr>cn_buffer := db\<rparr>) g)\<lparr>g_mp := mp\<rparr>, c\<lparr>cn_buffer := db\<rparr>, sz))) of
        Inl e \<Rightarrow> Some (Inl e)
      | Inr (g, c, sz) \<Rightarrow>
          if sz < 0 then Some (Inr g)
          else if sz > 0 then
            if sz \<ge> 0x1000000 then
              Some (bindE (databuffer_clear (cn_buffer c) (g_mp g)) (\<lambda>(db, mp).
                Inr (call (Log (bytes ''Recv socket message > 16M'')) (call (Socket_close fd)
                  ((set_conn i (c\<lparr>cn_buffer := db\<rparr>) g)\<lparr>g_mp := mp\<rparr>)))))
            else
              (case bindE (gate_forward g i sz) (\<lambda>g.
                  bindE (nthE (g_conn g) i) (\<lambda>c.
                  Inr (set_conn i (c\<lparr>cn_buffer := databuffer_reset (cn_buffer c)\<rparr>) g))) of
                 Inl e \<Rightarrow> Some (Inl e)
               | Inr g \<Rightarrow> gate_split_loop g i fd)
          else gate_split_loop g i fd)"

definition gate_dispatch_message :: "gate \<Rightarrow> nat \<Rightarrow> int \<Rightarrow> u8 list option \<Rightarrow> int \<Rightarrow> gate res" where
  "gate_dispatch_message g i fd data sz =
     bindE (nthE (g_conn g) i) (\<lambda>c.
     bindE (databuffer_push (cn_buffer c) (g_mp g) data sz) (\<lambda>(db, mp).
     loopE (gate_split_loop ((set_conn i (c\<lparr>cn_buffer := db\<rparr>) g)\<lparr>g_mp := mp\<rparr>) i fd)))"

section \<open>Messages of the socket thread\<close>

definition on_data :: "gate \<Rightarrow> skynet_socket_message \<Rightarrow> gate res" where
  "on_data g message =
     (let mid = sint (sm_id message) in
      bindE (hashid_lookup (g_hash g) mid) (\<lambda>i.
      if i \<ge> 0 then gate_dispatch_message g (nat i) mid (sm_buffer message) (sm_ud message)
      else Inr (call (Socket_close mid)
        (call (Log (bytes (''Drop unknown connection '' @ fmt_d mid @ '' message''))) g))))"

definition on_connect :: "gate \<Rightarrow> skynet_socket_message \<Rightarrow> gate res" where
  "on_connect g message =
     (let mid = sint (sm_id message) in
      if mid = g_listen_id g then Inr g
      else bindE (hashid_lookup (g_hash g) mid) (\<lambda>i.
        Inr (if i < 0 then call (Socket_close mid)
               (call (Log (bytes (''Close unknown connection '' @ fmt_d mid))) g) else g)))"

definition on_close :: "gate \<Rightarrow> skynet_socket_message \<Rightarrow> gate res" where
  "on_close g message =
     (let mid = sint (sm_id message) in
      bindE (hashid_remove (g_hash g) mid) (\<lambda>(hash, i).
      let g = g\<lparr>g_hash := hash\<rparr> in
      if i \<ge> 0 then
        bindE (nthE (g_conn g) (nat i)) (\<lambda>c.
        bindE (databuffer_clear (cn_buffer c) (g_mp g)) (\<lambda>(db, mp).
        Inr (gate_report ((set_conn (nat i) (connection_zero\<lparr>cn_id := -1\<rparr>) g)\<lparr>g_mp := mp\<rparr>)
          (bytes (fmt_d mid @ '' close'')))))
      else Inr g))"

definition on_accept :: "gate \<Rightarrow> skynet_socket_message \<Rightarrow> int \<Rightarrow> gate res" where
  "on_accept g message sz =
     bindE (assertE (g_listen_id g = sint (sm_id message))) (\<lambda>_.
     if hashid_full (g_hash g) then Inr (call (Socket_close (sm_ud message)) g)
     else bindE (hashid_insert (g_hash g) (sm_ud message)) (\<lambda>(hash, i).
       bindE (nthE (g_conn g) (nat i)) (\<lambda>c.
       let sz = (if sz < 0 \<or> sz \<ge> 32 then 31 else sz) in
       bindE (bytes_of (sm_pad message) sz) (\<lambda>name.
       let c = c\<lparr>cn_id := sm_ud message,
             cn_remote_name := name @ 0 # drop (Suc (length name)) (cn_remote_name c)\<rparr>;
           g = set_conn (nat i) c (g\<lparr>g_hash := hash\<rparr>);
           g = gate_report g (bytes (fmt_d (cn_id c) @ '' open '' @ fmt_d (cn_id c) @ '' '')
                 @ takeWhile (\<lambda>b. b \<noteq> 0) name @ bytes '':0'')
       in Inr (call (Log (bytes (''socket open: '' @ fmt_x (word_of_int (cn_id c))))) g)))))"

definition dispatch_socket_message :: "gate \<Rightarrow> skynet_socket_message \<Rightarrow> int \<Rightarrow> gate res" where
  "dispatch_socket_message g message sz =
     (if sm_type message = SKYNET_SOCKET_TYPE_DATA then on_data g message
      else if sm_type message = SKYNET_SOCKET_TYPE_CONNECT then on_connect g message
      else if sm_type message = SKYNET_SOCKET_TYPE_CLOSE \<or> sm_type message = SKYNET_SOCKET_TYPE_ERROR
      then on_close g message
      else if sm_type message = SKYNET_SOCKET_TYPE_ACCEPT then on_accept g message sz
      else if sm_type message = SKYNET_SOCKET_TYPE_WARNING
      then Inr (call (Log (bytes (''fd ('' @ fmt_d (sint (sm_id message)) @ '') send buffer (''
        @ fmt_d (sm_ud message) @ '')K''))) g)
      else Inr g)"

text \<open>What the message data is, by its type; the last four bytes of a client message are a socket id.\<close>

datatype gate_msg = Text_msg string | Client_msg "u8 list" | Socket_msg skynet_socket_message int | Other_msg

definition client_uid :: "u8 list \<Rightarrow> u32" where
  "client_uid idbuf = ucast (idbuf ! 0) OR push_bit 8 (ucast (idbuf ! 1)) OR push_bit 16 (ucast (idbuf ! 2))
     OR push_bit 24 (ucast (idbuf ! 3))"

text \<open>The result 1 keeps the message data from being freed.\<close>

definition gate_cb :: "(string \<Rightarrow> u32) \<Rightarrow> gate \<Rightarrow> u32 \<Rightarrow> gate_msg \<Rightarrow> (gate \<times> int) res" where
  "gate_cb queryname g source msg =
     (case msg of
        Text_msg s \<Rightarrow> bindE (gate_ctrl queryname g s) (\<lambda>g. Inr (g, 0))
      | Client_msg b \<Rightarrow>
          if length b \<le> 4
          then Inr (call (Log (bytes (''Invalid client message from '' @ fmt_x source))) g, 0)
          else let uid = sint (client_uid (drop (length b - 4) b)) in
            bindE (hashid_lookup (g_hash g) uid) (\<lambda>i.
            if i \<ge> 0 then Inr (call (Socket_send uid (take (length b - 4) b)) g, 1)
            else Inr (call (Log (bytes (''Invalid client id '' @ fmt_d uid @ '' from '' @ fmt_x source))) g, 0))
      | Socket_msg message sz \<Rightarrow>
          bindE (dispatch_socket_message g message (sz - SIZEOF_SOCKET_MESSAGE)) (\<lambda>g. Inr (g, 0))
      | Other_msg \<Rightarrow> Inr (g, 0))"

section \<open>Start\<close>

text \<open>\<^verbatim>\<open>strrchr(s, ':')\<close>: the text before and after the last colon.\<close>

definition split_last_colon :: "string \<Rightarrow> (string \<times> string) option" where
  "split_last_colon s =
     (if CHR '':'' \<in> set s
      then let port = rev (takeWhile (\<lambda>c. c \<noteq> CHR '':'') (rev s))
           in Some (take (length s - length port - 1) s, port)
      else None)"

definition BACKLOG :: int where "BACKLOG = 128"

text \<open>\<open>listen\<close> is what \<^verbatim>\<open>skynet_socket_listen\<close> answers for a host, a port and a backlog.\<close>

definition start_listen :: "(string \<Rightarrow> int \<Rightarrow> int \<Rightarrow> int) \<Rightarrow> gate \<Rightarrow> string \<Rightarrow> gate \<times> int" where
  "start_listen listen g listen_addr =
     (let (host, port) = (case split_last_colon listen_addr of
            None \<Rightarrow> ([], wrap32 (strtol listen_addr 10))
          | Some (host, portstr) \<Rightarrow> (host, wrap32 (strtol portstr 10)))
      in if port \<le> 0 then (call (Log (bytes (''Invalid gate address '' @ listen_addr))) g, 1)
         else let lid = listen host port BACKLOG; g = g\<lparr>g_listen_id := lid\<rparr> in
           if lid < 0 then (g, 1) else (call (Socket_start lid) g, 0))"

text \<open>
  \<^verbatim>\<open>sscanf(parm, "%c %s %s %d %d", ...)\<close>: the number of fields read and their values; a conversion
  that fails ends the scan.
\<close>

definition scan_int :: "string \<Rightarrow> (int \<times> string) option" where
  "scan_int s =
     (let t = dropWhile isspace s;
          (sign, ds) = (case t of c # cs \<Rightarrow> if c = CHR ''-'' \<or> c = CHR ''+'' then ([c], cs) else ([], t)
                        | [] \<Rightarrow> ([], []));
          digits = takeWhile (\<lambda>c. base_digit 10 c \<noteq> None) ds
      in if digits = [] then None else Some (wrap32 (strtol (sign @ digits) 10), drop (length digits) ds))"

definition sscanf_gate :: "string \<Rightarrow> nat \<times> char \<times> string \<times> string \<times> int \<times> int" where
  "sscanf_gate s =
     (case s of [] \<Rightarrow> (0, CHR 0x00, [], [], 0, 0)
      | h # r \<Rightarrow>
          (case scan_word r of (None, _) \<Rightarrow> (1, h, [], [], 0, 0)
           | (Some w, r) \<Rightarrow>
               (case scan_word r of (None, _) \<Rightarrow> (2, h, w, [], 0, 0)
                | (Some b, r) \<Rightarrow>
                    (case scan_int r of None \<Rightarrow> (3, h, w, b, 0, 0)
                     | Some (tag, r) \<Rightarrow>
                         (case scan_int r of None \<Rightarrow> (4, h, w, b, tag, 0)
                          | Some (m, _) \<Rightarrow> (5, h, w, b, tag, m))))))"

definition gate_init :: "(string \<Rightarrow> u32) \<Rightarrow> (string \<Rightarrow> int \<Rightarrow> int \<Rightarrow> int) \<Rightarrow> gate \<Rightarrow> string option
    \<Rightarrow> gate \<times> int" where
  "gate_init queryname listen g p =
     (case p of None \<Rightarrow> (g, 1)
      | Some args \<Rightarrow>
          let (n, header, watchdog, binding, client_tag, m) = sscanf_gate args in
          if n < 4 then (call (Log (bytes (''Invalid gate parm '' @ args))) g, 1)
          else if m \<le> 0 then (call (Log (bytes ''Need max connection'')) g, 1)
          else if header \<noteq> CHR ''S'' \<and> header \<noteq> CHR ''L''
          then (call (Log (bytes ''Invalid data header style'')) g, 1)
          else
            let tag = (if client_tag = 0 then PTYPE_CLIENT else word_of_int client_tag);
                w = (if char0 watchdog = CHR ''!'' then 0 else queryname watchdog);
                g = g\<lparr>g_watchdog := w\<rparr>
            in if char0 watchdog \<noteq> CHR ''!'' \<and> w = 0
               then (call (Log (bytes (''Invalid watchdog '' @ watchdog))) g, 1)
               else start_listen listen (g\<lparr>g_hash := hashid_init (nat m),
                 g_conn := replicate (nat m) (connection_zero\<lparr>cn_id := -1\<rparr>), g_max_connection := nat m,
                 g_client_tag := tag, g_header_size := (if header = CHR ''S'' then 2 else 4)\<rparr>) binding)"

section \<open>The buffers of all connections\<close>

text \<open>
  \<open>conns_rep mp fs cs css bss\<close>: the chains \<open>css\<close> of the connections are disjoint, and the bytes that
  the connections hold are \<open>bss\<close>.
\<close>

definition conns_rep :: "messagepool \<Rightarrow> ptr list \<Rightarrow> connection list \<Rightarrow> ptr list list \<Rightarrow> u8 list list \<Rightarrow> bool" where
  "conns_rep mp fs cs css bss \<longleftrightarrow> length css = length cs \<and> length bss = length cs
     \<and> (\<forall>i < length cs. db_rep mp (cn_buffer (cs ! i)) fs (css ! i) (bss ! i)
          \<and> db_size (cn_buffer (cs ! i)) = int (length (bss ! i)))
     \<and> (\<forall>i < length cs. \<forall>j < length cs. i \<noteq> j \<longrightarrow> set (css ! i) \<inter> set (css ! j) = {})"

lemma db_rep_frame:
  assumes rep: "db_rep mp db fs qs bs" and fr: "db_frame mp fs ps mp' fs' ps'" and wf: "mp_wf mp' fs'"
    and disj: "set ps \<inter> set qs = {}"
  shows "db_rep mp' db fs' qs bs" "set ps' \<inter> set qs = {}"
proof -
  note c = db_repD [OF rep]
  have same: "mp_heap mp' q = mp_heap mp q" "q \<notin> set fs' \<union> set ps'" if "q \<in> set qs" for q
  proof -
    note mem = that
    from mem c(4) disj have "q \<notin> set fs \<union> set ps" by auto
    moreover obtain m where "mp_heap mp q = Some m" using c(10) [OF mem] by auto
    ultimately show "mp_heap mp' q = mp_heap mp q" "q \<notin> set fs' \<union> set ps'"
      using fr by (auto simp: db_frame_def)
  qed
  then show "set ps' \<inter> set qs = {}" by auto
  have "chain (mp_nx mp') (db_head db) qs"
    using c(2) by (rule chain_frame [THEN iffD2, rotated]) (simp add: mp_nx_def same(1))
  moreover have "map (cell_bytes mp) qs = map (cell_bytes mp') qs"
    using same(1) by (simp add: cell_bytes_def)
  note bytes = c(8) [unfolded this]
  moreover have "cell_ok mp' q" if "q \<in> set qs" for q
    using cell_ok_other [of mp' q mp] same(1) [OF that] c(6) [OF that] by simp
  moreover have "db_offset db \<le> (case qs of [] \<Rightarrow> 0 | q # _ \<Rightarrow> int (length (cell_bytes mp' q)))"
    using c(9) same(1) by (cases qs) (auto simp: cell_bytes_def)
  ultimately show "db_rep mp' db fs' qs bs"
    using c(3,5,7) same(2) wf unfolding db_rep_def bytes [symmetric] by auto
qed

lemma conns_rep_update:
  assumes rep: "conns_rep mp fs cs css bss" and i: "i < length cs"
    and new: "db_rep mp' (cn_buffer c) fs' ps' bs'" "db_size (cn_buffer c) = int (length bs')"
      "db_frame mp fs (css ! i) mp' fs' ps'"
  shows "conns_rep mp' fs' (cs[i := c]) (css[i := ps']) (bss[i := bs'])"
proof -
  have wf: "mp_wf mp' fs'" using db_repD(1) [OF new(1)] .
  have other: "db_rep mp' (cn_buffer (cs ! j)) fs' (css ! j) (bss ! j)" "set ps' \<inter> set (css ! j) = {}"
    if "j < length cs" "j \<noteq> i" for j
    using rep i that db_rep_frame [OF _ new(3) wf, of "cn_buffer (cs ! j)" "css ! j" "bss ! j"]
    by (auto simp: conns_rep_def)
  have len: "length css = length cs" "length bss = length cs" using rep by (auto simp: conns_rep_def)
  have "set (css[i := ps'] ! j) \<inter> set (css[i := ps'] ! k) = {}"
    if "j < length cs" "k < length cs" "j \<noteq> k" for j k
    using that rep other len by (cases "j = i"; cases "k = i") (auto simp: conns_rep_def)
  moreover have "db_rep mp' (cn_buffer (cs[i := c] ! j)) fs' (css[i := ps'] ! j) (bss[i := bs'] ! j)
      \<and> db_size (cn_buffer (cs[i := c] ! j)) = int (length (bss[i := bs'] ! j))" if "j < length cs" for j
    using that rep other len new by (cases "j = i") (auto simp: conns_rep_def)
  ultimately show ?thesis using len by (simp add: conns_rep_def)
qed

lemma conns_rep_conn:
  "conns_rep mp fs (cs[i := c]) css bss \<Longrightarrow> cn_buffer c' = cn_buffer c \<Longrightarrow> conns_rep mp fs (cs[i := c']) css bss"
  by (cases "i < length cs") (auto simp: conns_rep_def nth_list_update split: if_splits)

definition gate_rep :: "gate \<Rightarrow> u8 list list \<Rightarrow> bool" where
  "gate_rep g bss \<longleftrightarrow> (\<exists>fs css. conns_rep (g_mp g) fs (g_conn g) css bss)"

definition buf_at :: "gate \<Rightarrow> nat \<Rightarrow> databuffer" where
  "buf_at g i = cn_buffer (g_conn g ! i)"

text \<open>The state after the buffer of one connection has changed.\<close>

definition with_buf :: "nat \<Rightarrow> databuffer \<Rightarrow> messagepool \<Rightarrow> gate \<Rightarrow> gate" where
  "with_buf i db mp g = (set_conn i ((g_conn g ! i)\<lparr>cn_buffer := db\<rparr>) g)\<lparr>g_mp := mp\<rparr>"

lemma gate_rep_length: "gate_rep g bss \<Longrightarrow> length bss = length (g_conn g)"
  by (auto simp: gate_rep_def conns_rep_def)

lemma gate_rep_update:
  assumes "gate_rep g bss" "i < length (g_conn g)"
  obtains fs ps where "db_rep (g_mp g) (buf_at g i) fs ps (bss ! i)" "db_size (buf_at g i) = int (length (bss ! i))"
    "\<And>db mp fs' ps' bs. db_rep mp db fs' ps' bs \<Longrightarrow> db_size db = int (length bs) \<Longrightarrow>
       db_frame (g_mp g) fs ps mp fs' ps' \<Longrightarrow> gate_rep (with_buf i db mp g) (bss[i := bs])"
proof -
  from assms(1) obtain fs css where rep: "conns_rep (g_mp g) fs (g_conn g) css bss" by (auto simp: gate_rep_def)
  show ?thesis
  proof (rule that)
    show "db_rep (g_mp g) (buf_at g i) fs (css ! i) (bss ! i)" "db_size (buf_at g i) = int (length (bss ! i))"
      using rep assms(2) by (auto simp: conns_rep_def buf_at_def)
    fix db mp fs' ps' bs
    assume "db_rep mp db fs' ps' bs" "db_size db = int (length bs)" "db_frame (g_mp g) fs (css ! i) mp fs' ps'"
    with conns_rep_update [OF rep assms(2), of mp "(g_conn g ! i)\<lparr>cn_buffer := db\<rparr>" fs' ps' bs]
    show "gate_rep (with_buf i db mp g) (bss[i := bs])"
      by (auto simp: gate_rep_def with_buf_def set_conn_def)
  qed
qed

section \<open>Splitting into packets\<close>

text \<open>
  The reference: the packets of a stream with lengths of \<open>hs\<close> bytes, empty ones left out, and what is
  left over. \<open>lengths_ok\<close>: no length met is 16 MB or more.
\<close>

function gate_packs :: "nat \<Rightarrow> u8 list \<Rightarrow> u8 list list \<times> u8 list" where
  "gate_packs hs s =
     (if hs = 0 \<or> length s < hs then ([], s)
      else let n = nat (be_value (take hs s)); r = drop hs s in
        if n = 0 then gate_packs hs r
        else if n \<le> length r then (let (ps, q) = gate_packs hs (drop n r) in (take n r # ps, q))
        else ([], s))"
  by pat_completeness auto
termination
  by (relation "measure (\<lambda>(hs, s). length s)") auto

function lengths_ok :: "nat \<Rightarrow> u8 list \<Rightarrow> bool" where
  "lengths_ok hs s =
     (if hs = 0 \<or> length s < hs then True
      else let n = nat (be_value (take hs s)) in
        n < 0x1000000 \<and> (if length (drop hs s) < n then True else lengths_ok hs (drop n (drop hs s))))"
  by pat_completeness auto
termination
  by (relation "measure (\<lambda>(hs, s). length s)") auto

declare gate_packs.simps [simp del] lengths_ok.simps [simp del]

lemma foldl_be_bound:
  "0 \<le> n \<Longrightarrow> 0 \<le> foldl (\<lambda>n b. n * 256 + uint (b :: u8)) n bs
     \<and> foldl (\<lambda>n b. n * 256 + uint b) n bs < (n + 1) * 256 ^ length bs"
proof (induction bs arbitrary: n)
  case (Cons b bs)
  have "(n * 256 + uint b + 1) * 256 ^ length bs \<le> ((n + 1) * 256) * 256 ^ length bs"
    using uint_u8 [of b] Cons.prems by (intro mult_right_mono) auto
  moreover have "0 \<le> n * 256 + uint b" using Cons.prems uint_u8 [of b] by simp
  ultimately show ?case
    using Cons.IH [of "n * 256 + uint b"] order.strict_trans2 by (fastforce simp: mult.assoc)
qed simp

lemma be_value_bounds: "0 \<le> be_value bs" "be_value bs < 256 ^ length bs"
  using foldl_be_bound [of 0 bs] by (simp_all add: be_value_def)

lemma lengths_ok_short: "lengths_ok 2 s"
proof (induction "length s" arbitrary: s rule: less_induct)
  case less
  show ?case
  proof (cases "length s < 2")
    case False
    have "be_value (take 2 s) < 256 ^ 2" using be_value_bounds(2) [of "take 2 s"] False by simp
    moreover have "lengths_ok 2 (drop (nat (be_value (take 2 s))) (drop 2 s))"
      using False by (intro less) auto
    ultimately show ?thesis by (subst lengths_ok.simps) (auto simp: Let_def nat_less_iff)
  qed (simp add: lengths_ok.simps)
qed

text \<open>A length read earlier, and the bytes behind it.\<close>

definition conn_stream :: "nat \<Rightarrow> int \<Rightarrow> u8 list \<Rightarrow> u8 list \<Rightarrow> bool" where
  "conn_stream hs header bs s \<longleftrightarrow> header = 0 \<and> s = bs
     \<or> header \<noteq> 0 \<and> (\<exists>len. length len = hs \<and> be_value len = header \<and> s = len @ bs)"

section \<open>One round of the loop\<close>

definition header_size_ok :: "gate \<Rightarrow> nat \<Rightarrow> bool" where
  "header_size_ok g hs \<longleftrightarrow> g_header_size g = int hs \<and> (hs = 2 \<or> hs = 4)"

lemma with_buf_simps [simp]:
  "g_header_size (with_buf i db mp g) = g_header_size g" "length (g_conn (with_buf i db mp g)) = length (g_conn g)"
  "g_mp (with_buf i db mp g) = mp" "g_trace (with_buf i db mp g) = g_trace g"
  "header_size_ok (with_buf i db mp g) hs = header_size_ok g hs"
  by (simp_all add: with_buf_def set_conn_def header_size_ok_def)

lemma buf_at_with_buf [simp]: "i < length (g_conn g) \<Longrightarrow> buf_at (with_buf i db mp g) i = db"
  by (simp add: with_buf_def set_conn_def buf_at_def)

lemma with_buf_twice [simp]:
  "i < length (g_conn g) \<Longrightarrow> with_buf i db' mp' (with_buf i db mp g) = with_buf i db' mp' g"
  by (simp add: with_buf_def set_conn_def)

lemma with_buf_id [simp]: "with_buf i (buf_at g i) (g_mp g) g = g"
  by (simp add: with_buf_def set_conn_def buf_at_def)

lemma split_loop_step:
  assumes "i < length (g_conn g)"
    and "databuffer_readheader (buf_at g i) (g_mp g) (g_header_size g) = Inr (db, mp, sz)"
  shows "bindE (nthE (g_conn g) i) (\<lambda>c.
      bindE (databuffer_readheader (cn_buffer c) (g_mp g) (g_header_size g)) (\<lambda>(db, mp, sz).
      Inr ((set_conn i (c\<lparr>cn_buffer := db\<rparr>) g)\<lparr>g_mp := mp\<rparr>, c\<lparr>cn_buffer := db\<rparr>, sz)))
    = Inr (with_buf i db mp g, (g_conn g ! i)\<lparr>cn_buffer := db\<rparr>, sz)"
  using assms by (simp add: buf_at_def with_buf_def)

text \<open>Two states whose first step has the same outcome go on alike.\<close>

lemma split_loop_same:
  assumes i: "i < length (g_conn g)"
    and read: "databuffer_readheader (buf_at g i) (g_mp g) (g_header_size g) = Inr (db, mp, sz)"
    and again: "databuffer_readheader db mp (g_header_size g) = Inr (db, mp, sz)"
  shows "gate_split_loop g i fd = gate_split_loop (with_buf i db mp g) i fd"
proof -
  let ?g = "with_buf i db mp g"
  have "bindE (nthE (g_conn ?g) i) (\<lambda>c.
      bindE (databuffer_readheader (cn_buffer c) (g_mp ?g) (g_header_size ?g)) (\<lambda>(db, mp, sz).
      Inr ((set_conn i (c\<lparr>cn_buffer := db\<rparr>) ?g)\<lparr>g_mp := mp\<rparr>, c\<lparr>cn_buffer := db\<rparr>, sz)))
    = Inr (?g, (g_conn g ! i)\<lparr>cn_buffer := db\<rparr>, sz)"
    using i again by (subst split_loop_step [of i ?g db mp sz]) (auto simp: with_buf_def set_conn_def buf_at_def)
  from trans [OF gate_split_loop.simps [of g i fd, unfolded split_loop_step [OF i read]]
      gate_split_loop.simps [of ?g i fd, unfolded this, symmetric]]
  show ?thesis .
qed

text \<open>The four ways in which a round goes on after the length is known.\<close>

lemma split_loop_cases:
  assumes i: "i < length (g_conn g)"
    and read: "databuffer_readheader (buf_at g i) (g_mp g) (g_header_size g) = Inr (db, mp, sz)"
  shows "sz < 0 \<Longrightarrow> gate_split_loop g i fd = Some (Inr (with_buf i db mp g))"
    "sz = 0 \<Longrightarrow> gate_split_loop g i fd = gate_split_loop (with_buf i db mp g) i fd"
    "0 < sz \<Longrightarrow> sz < 0x1000000 \<Longrightarrow> gate_forward (with_buf i db mp g) i sz = Inr g2 \<Longrightarrow> i < length (g_conn g2) \<Longrightarrow>
       gate_split_loop g i fd = gate_split_loop (with_buf i (databuffer_reset (buf_at g2 i)) (g_mp g2) g2) i fd"
    "sz \<ge> 0x1000000 \<Longrightarrow> databuffer_clear db mp = Inr (db', mp') \<Longrightarrow>
       gate_split_loop g i fd = Some (Inr (call (Log (bytes ''Recv socket message > 16M''))
         (call (Socket_close fd) (with_buf i db' mp' g))))"
proof -
  note simps = gate_split_loop.simps [of g i fd, unfolded split_loop_step [OF i read]]
  show "sz < 0 \<Longrightarrow> gate_split_loop g i fd = Some (Inr (with_buf i db mp g))" by (simp add: simps)
  show "sz = 0 \<Longrightarrow> gate_split_loop g i fd = gate_split_loop (with_buf i db mp g) i fd"
    by (subst simps) simp
  show "0 < sz \<Longrightarrow> sz < 0x1000000 \<Longrightarrow> gate_forward (with_buf i db mp g) i sz = Inr g2 \<Longrightarrow> i < length (g_conn g2) \<Longrightarrow>
     gate_split_loop g i fd = gate_split_loop (with_buf i (databuffer_reset (buf_at g2 i)) (g_mp g2) g2) i fd"
    by (subst simps) (simp add: with_buf_def buf_at_def set_conn_def)
  show "sz \<ge> 0x1000000 \<Longrightarrow> databuffer_clear db mp = Inr (db', mp') \<Longrightarrow>
     gate_split_loop g i fd = Some (Inr (call (Log (bytes ''Recv socket message > 16M''))
       (call (Socket_close fd) (with_buf i db' mp' g))))"
    using i by (subst simps) (simp add: with_buf_def set_conn_def)
qed

text \<open>Reading the length.\<close>

lemma readheader_old:
  "db_header db \<noteq> 0 \<Longrightarrow> databuffer_readheader db mp hs
     = Inr (db, mp, if db_size db < db_header db then -1 else db_header db)"
  by (simp add: databuffer_readheader_def)

lemma readheader_short:
  "db_header db = 0 \<Longrightarrow> db_size db < hs \<Longrightarrow> databuffer_readheader db mp hs = Inr (db, mp, -1)"
  by (simp add: databuffer_readheader_def)

lemma readheader_new:
  assumes "databuffer_read db mp hs = Inr (db1, mp1, plen)" "header_value hs plen = Inr h" "db_header db = 0"
    "hs \<le> db_size db"
  shows "databuffer_readheader db mp hs = Inr (db1\<lparr>db_header := h\<rparr>, mp1, if db_size db1 < h then -1 else h)"
  using assms by (simp add: databuffer_readheader_def)

lemma db_rep_header [simp]: "db_rep mp (db\<lparr>db_header := h\<rparr>) fs ps bs = db_rep mp db fs ps bs"
  by (simp add: db_rep_def)

lemma gate_rep_header [simp]:
  "gate_rep (with_buf i (db\<lparr>db_header := h\<rparr>) mp g) bss = gate_rep (with_buf i db mp g) bss"
proof -
  have "conns_rep mp fs (cs[i := c\<lparr>cn_buffer := db\<lparr>db_header := h\<rparr>\<rparr>]) css bss
      \<longleftrightarrow> conns_rep mp fs (cs[i := c\<lparr>cn_buffer := db\<rparr>]) css bss" for fs cs c css
    unfolding conns_rep_def by (cases "i < length cs") (auto simp: nth_list_update)
  then show ?thesis by (simp add: gate_rep_def with_buf_def set_conn_def)
qed

text \<open>A length is read: the round starts over with it in the header, on the bytes behind it.\<close>

definition length_value :: "nat \<Rightarrow> u8 list \<Rightarrow> int" where
  "length_value hs len = (if hs = 2 then be_value len else wrap32 (be_value len))"

lemma length_value_small: "be_value len < 0x1000000 \<Longrightarrow> length_value hs len = be_value len"
  using be_value_bounds(1) [of len] by (simp add: length_value_def)

lemma split_loop_header:
  assumes rep: "gate_rep g bss" and i: "i < length (g_conn g)" and hs: "header_size_ok g hs"
    and hdr: "db_header (buf_at g i) = 0" and len: "hs \<le> length (bss ! i)"
  shows "\<exists>db mp. gate_split_loop g i fd = gate_split_loop (with_buf i db mp g) i fd
    \<and> gate_rep (with_buf i db mp g) (bss[i := drop hs (bss ! i)])
    \<and> db_header db = length_value hs (take hs (bss ! i))"
proof -
  let ?bs = "bss ! i" and ?h = "length_value hs (take hs (bss ! i))"
  from gate_rep_update [OF rep i] obtain fs ps where
    db: "db_rep (g_mp g) (buf_at g i) fs ps ?bs" "db_size (buf_at g i) = int (length ?bs)"
    and upd: "\<And>db mp fs' ps' bs. db_rep mp db fs' ps' bs \<Longrightarrow> db_size db = int (length bs) \<Longrightarrow>
       db_frame (g_mp g) fs ps mp fs' ps' \<Longrightarrow> gate_rep (with_buf i db mp g) (bss[i := bs])" by blast
  have hs': "hs = 2 \<or> hs = 4" "g_header_size g = int hs" "0 < hs" using hs by (auto simp: header_size_ok_def)
  from databuffer_read_ok [OF db, of "int hs"] hs'(3) len obtain db1 mp1 fs1 ps1 where
    r: "databuffer_read (buf_at g i) (g_mp g) (int hs) = Inr (db1, mp1, take hs ?bs)"
      "db_rep mp1 db1 fs1 ps1 (drop hs ?bs)" "db_size db1 = int (length (drop hs ?bs))"
      "db_frame (g_mp g) fs ps mp1 fs1 ps1" by auto
  let ?db = "db1\<lparr>db_header := ?h\<rparr>" and ?sz = "if db_size db1 < ?h then -1 else ?h"
  have val: "header_value (int hs) (take hs ?bs) = Inr ?h"
    using hs'(1) len header_value_ok [of "take hs ?bs" "int hs"] by (auto simp: length_value_def)
  have read: "databuffer_readheader (buf_at g i) (g_mp g) (g_header_size g) = Inr (?db, mp1, ?sz)"
    unfolding hs'(2) using readheader_new [OF r(1) val hdr] db(2) len by simp
  let ?g = "with_buf i ?db mp1 g"
  have "gate_split_loop g i fd = gate_split_loop ?g i fd"
  proof (cases "?h = 0")
    case True
    then have "?sz = 0" using r(3) by simp
    then show ?thesis using split_loop_cases(2) [OF i read] by simp
  next
    case False
    then show ?thesis by (intro split_loop_same [OF i read]) (simp add: readheader_old)
  qed
  moreover have "gate_rep ?g (bss[i := drop hs ?bs])" using upd [of mp1 ?db fs1 ps1 "drop hs ?bs"] r by simp
  ultimately show ?thesis by (intro exI [of _ ?db] exI [of _ mp1]) simp
qed

text \<open>Where a packet goes, and the call that sends it.\<close>

definition can_forward :: "gate \<Rightarrow> nat \<Rightarrow> bool" where
  "can_forward g i \<longleftrightarrow> cn_id (g_conn g ! i) > 0
     \<and> (g_broker g \<noteq> 0 \<or> cn_agent (g_conn g ! i) \<noteq> 0 \<or> g_watchdog g \<noteq> 0)"

definition forward_call :: "gate \<Rightarrow> nat \<Rightarrow> u8 list \<Rightarrow> gate_call" where
  "forward_call g i pack =
     (let c = g_conn g ! i; fd = cn_id c in
      if g_broker g \<noteq> 0 then Send 0 (g_broker g) (g_client_tag g OR PTYPE_TAG_DONTCOPY) fd pack
      else if cn_agent c \<noteq> 0 then Send (cn_client c) (cn_agent c) (g_client_tag g OR PTYPE_TAG_DONTCOPY) fd pack
      else Send 0 (g_watchdog g) (PTYPE_TEXT OR PTYPE_TAG_DONTCOPY) fd (bytes (fmt_d fd @ '' data '') @ pack))"

lemma call_simps [simp]:
  "gate_rep (call a g) bss = gate_rep g bss" "g_conn (call a g) = g_conn g" "g_mp (call a g) = g_mp g"
  "buf_at (call a g) i = buf_at g i" "with_buf i db mp (call a g) = call a (with_buf i db mp g)"
  "header_size_ok (call a g) hs = header_size_ok g hs" "g_header_size (call a g) = g_header_size g"
  by (simp_all add: call_def gate_rep_def buf_at_def with_buf_def set_conn_def header_size_ok_def)

lemma forward_same [simp]:
  "i < length (g_conn g) \<Longrightarrow> can_forward (with_buf i db mp g) i = can_forward g i"
  "i < length (g_conn g) \<Longrightarrow> forward_call (with_buf i db mp g) i = forward_call g i"
  "can_forward (call a g) i = can_forward g i" "forward_call (call a g) i = forward_call g i"
  by (simp_all add: can_forward_def forward_call_def with_buf_def set_conn_def call_def fun_eq_iff Let_def)

lemma gate_forward_ok:
  assumes rep: "gate_rep g bss" and i: "i < length (g_conn g)" and to: "can_forward g i"
    and n: "0 < n" "n \<le> length (bss ! i)"
  shows "\<exists>db mp. gate_forward g i (int n) = Inr (call (forward_call g i (take n (bss ! i))) (with_buf i db mp g))
    \<and> gate_rep (with_buf i db mp g) (bss[i := drop n (bss ! i)])"
proof -
  let ?bs = "bss ! i"
  from gate_rep_update [OF rep i] obtain fs ps where
    db: "db_rep (g_mp g) (buf_at g i) fs ps ?bs" "db_size (buf_at g i) = int (length ?bs)"
    and upd: "\<And>db mp fs' ps' bs. db_rep mp db fs' ps' bs \<Longrightarrow> db_size db = int (length bs) \<Longrightarrow>
       db_frame (g_mp g) fs ps mp fs' ps' \<Longrightarrow> gate_rep (with_buf i db mp g) (bss[i := bs])" by blast
  from databuffer_read_ok [OF db, of "int n"] n obtain db1 mp1 fs1 ps1 where
    r: "databuffer_read (buf_at g i) (g_mp g) (int n) = Inr (db1, mp1, take n ?bs)"
      "db_rep mp1 db1 fs1 ps1 (drop n ?bs)" "db_size db1 = int (length (drop n ?bs))"
      "db_frame (g_mp g) fs ps mp1 fs1 ps1" by auto
  have "conn_read g i (g_conn g ! i) (int n) = Inr (with_buf i db1 mp1 g, take n ?bs)"
    using r(1) by (simp add: conn_read_def buf_at_def with_buf_def)
  moreover have "g_broker (with_buf i db1 mp1 g) = g_broker g" "g_watchdog (with_buf i db1 mp1 g) = g_watchdog g"
    "g_client_tag (with_buf i db1 mp1 g) = g_client_tag g" by (simp_all add: with_buf_def set_conn_def)
  ultimately have "gate_forward g i (int n) = Inr (call (forward_call g i (take n ?bs)) (with_buf i db1 mp1 g))"
    using i to by (auto simp: gate_forward_def can_forward_def forward_call_def Let_def)
  with upd [OF r(2,3,4)] show ?thesis by blast
qed

text \<open>The whole loop.\<close>

definition split_done :: "gate \<Rightarrow> u8 list list \<Rightarrow> nat \<Rightarrow> nat \<Rightarrow> u8 list \<Rightarrow> int \<Rightarrow> bool" where
  "split_done g bss i hs s fd \<longleftrightarrow> (\<exists>db mp bs. gate_split_loop g i fd = Some (Inr
       ((with_buf i db mp g)\<lparr>g_trace := g_trace g @ map (forward_call g i) (fst (gate_packs hs s))\<rparr>))
     \<and> gate_rep (with_buf i db mp g) (bss[i := bs]) \<and> conn_stream hs (db_header db) bs (snd (gate_packs hs s)))"

lemma trace_simps [simp]:
  "gate_rep (g\<lparr>g_trace := t\<rparr>) bss = gate_rep g bss"
  "with_buf i db mp (g\<lparr>g_trace := t\<rparr>) = (with_buf i db mp g)\<lparr>g_trace := t\<rparr>"
  "forward_call (g\<lparr>g_trace := t\<rparr>) i = forward_call g i" "can_forward (g\<lparr>g_trace := t\<rparr>) i = can_forward g i"
  "buf_at (g\<lparr>g_trace := t\<rparr>) i = buf_at g i" "header_size_ok (g\<lparr>g_trace := t\<rparr>) hs = header_size_ok g hs"
  by (simp_all add: gate_rep_def with_buf_def set_conn_def forward_call_def can_forward_def buf_at_def
    header_size_ok_def fun_eq_iff Let_def)

lemma split_done_step:
  assumes i: "i < length (g_conn g)" and len: "i < length bss"
    and loop: "gate_split_loop g i fd = gate_split_loop g1 i fd"
      "g1 = (with_buf i db1 mp1 g)\<lparr>g_trace := g_trace g @ map (forward_call g i) ps\<rparr>"
    and packs: "gate_packs hs s = (ps @ fst (gate_packs hs s1), snd (gate_packs hs s1))"
    and fin: "split_done g1 (bss[i := bs1]) i hs s1 fd"
  shows "split_done g bss i hs s fd"
  using fin i len unfolding split_done_def loop packs by auto

lemma gate_packs_unfold:
  assumes "hs \<noteq> 0" "length len = hs"
  shows "gate_packs hs (len @ r) = (if be_value len = 0 then gate_packs hs r
    else if be_value len \<le> int (length r)
    then (take (nat (be_value len)) r # fst (gate_packs hs (drop (nat (be_value len)) r)),
      snd (gate_packs hs (drop (nat (be_value len)) r)))
    else ([], len @ r))"
  using assms be_value_bounds(1) [of len]
  by (subst gate_packs.simps) (auto simp: Let_def case_prod_beta)

lemma lengths_ok_unfold:
  assumes "hs \<noteq> 0" "length len = hs" "lengths_ok hs (len @ r)"
  shows "be_value len < 0x1000000"
    "be_value len \<le> int (length r) \<Longrightarrow> lengths_ok hs (drop (nat (be_value len)) r)"
proof -
  have *: "nat (be_value len) < 0x1000000 \<and>
      (if length r < nat (be_value len) then True else lengths_ok hs (drop (nat (be_value len)) r))"
    using assms lengths_ok.simps [of hs "len @ r"] by (auto simp: Let_def split: if_splits)
  then show "be_value len < 0x1000000" by linarith
  show "be_value len \<le> int (length r) \<Longrightarrow> lengths_ok hs (drop (nat (be_value len)) r)"
    using * by (simp split: if_splits)
qed

text \<open>A round for a packet whose length is known.\<close>

lemma split_loop_packet:
  assumes rep: "gate_rep g bss" and i: "i < length (g_conn g)" and hs: "header_size_ok g hs" and to: "can_forward g i"
    and hdr: "db_header (buf_at g i) = be_value len" "be_value len \<noteq> 0" "length len = hs"
    and small: "be_value len < 0x1000000"
    and next_ok: "\<And>g1 bss1. gate_rep g1 bss1 \<Longrightarrow> i < length (g_conn g1) \<Longrightarrow> header_size_ok g1 hs \<Longrightarrow> can_forward g1 i \<Longrightarrow>
       db_header (buf_at g1 i) = 0 \<Longrightarrow> bss1 ! i = drop (nat (be_value len)) (bss ! i) \<Longrightarrow>
       be_value len \<le> int (length (bss ! i)) \<Longrightarrow> split_done g1 bss1 i hs (bss1 ! i) fd"
  shows "split_done g bss i hs (len @ bss ! i) fd"
proof -
  let ?n = "be_value len" and ?bs = "bss ! i"
  have hs0: "hs \<noteq> 0" using hs by (auto simp: header_size_ok_def)
  have i': "i < length bss" using gate_rep_length [OF rep] i by simp
  have size: "db_size (buf_at g i) = int (length ?bs)" using gate_rep_update [OF rep i] by blast
  have read: "databuffer_readheader (buf_at g i) (g_mp g) (g_header_size g)
      = Inr (buf_at g i, g_mp g, if int (length ?bs) < ?n then -1 else ?n)"
    using hdr size by (simp add: readheader_old)
  show ?thesis
  proof (cases "int (length ?bs) < ?n")
    case True
    with read have "gate_split_loop g i fd = Some (Inr g)"
      using split_loop_cases(1) [OF i, of "buf_at g i" "g_mp g" "-1"] by simp
    moreover have "gate_packs hs (len @ ?bs) = ([], len @ ?bs)"
      using True hdr hs0 by (simp add: gate_packs_unfold)
    moreover have "conn_stream hs (db_header (buf_at g i)) ?bs (len @ ?bs)" using hdr by (auto simp: conn_stream_def)
    ultimately show ?thesis unfolding split_done_def
      using rep i' by (intro exI [of _ "buf_at g i"] exI [of _ "g_mp g"] exI [of _ ?bs]) simp
  next
    case False
    have n: "0 < nat ?n" "nat ?n \<le> length ?bs" "?n > 0" using False hdr(2) be_value_bounds(1) [of len] by auto
    from gate_forward_ok [OF rep i to n(1,2)] obtain db mp where
      fwd: "gate_forward g i ?n = Inr (call (forward_call g i (take (nat ?n) ?bs)) (with_buf i db mp g))"
        "gate_rep (with_buf i db mp g) (bss[i := drop (nat ?n) ?bs])" using n(3) by auto
    let ?db = "databuffer_reset db"
    let ?g = "(with_buf i ?db mp g)\<lparr>g_trace := g_trace g @ map (forward_call g i) [take (nat ?n) ?bs]\<rparr>"
    have "gate_split_loop g i fd = gate_split_loop ?g i fd"
      using split_loop_cases(3) [OF i read] False n(3) small fwd(1) i by (simp add: call_def)
    moreover have rep1: "gate_rep (with_buf i ?db mp g) (bss[i := drop (nat ?n) ?bs])"
      using fwd(2) by (simp add: databuffer_reset_def)
    moreover have "split_done ?g (bss[i := drop (nat ?n) ?bs]) i hs (drop (nat ?n) ?bs) fd"
      using next_ok [of ?g "bss[i := drop (nat ?n) ?bs]"] rep1 i i' hs to False by (simp add: databuffer_reset_def)
    ultimately show ?thesis
      using False hdr hs0 by (intro split_done_step [OF i i']) (auto simp: gate_packs_unfold)
  qed
qed

lemma split_loop_ok:
  assumes "gate_rep g bss" "i < length (g_conn g)" "header_size_ok g hs" "can_forward g i"
    "conn_stream hs (db_header (buf_at g i)) (bss ! i) s" "lengths_ok hs s"
  shows "split_done g bss i hs s fd"
  using assms
proof (induction "length s" arbitrary: g bss s rule: less_induct)
  case less
  have hs0: "hs \<noteq> 0" using less.prems(3) by (auto simp: header_size_ok_def)
  have i': "i < length bss" using gate_rep_length [OF less.prems(1)] less.prems(2) by simp
  have packet: "split_done g1 bss1 i hs s fd"
    if g1: "gate_rep g1 bss1" "i < length (g_conn g1)" "header_size_ok g1 hs" "can_forward g1 i"
      and s: "s = len @ bss1 ! i" "db_header (buf_at g1 i) = be_value len" "be_value len \<noteq> 0" "length len = hs"
    for g1 bss1 len
    unfolding s(1)
  proof (rule split_loop_packet [OF g1 s(2,3,4)])
    show "be_value len < 0x1000000"
      using lengths_ok_unfold(1) [OF hs0 s(4)] less.prems(6) s(1) by simp
    fix g2 bss2
    assume g2: "gate_rep g2 bss2" "i < length (g_conn g2)" "header_size_ok g2 hs" "can_forward g2 i"
      "db_header (buf_at g2 i) = 0" "bss2 ! i = drop (nat (be_value len)) (bss1 ! i)"
      "be_value len \<le> int (length (bss1 ! i))"
    show "split_done g2 bss2 i hs (bss2 ! i) fd"
    proof (rule less.hyps [OF _ g2(1-4)])
      show "length (bss2 ! i) < length s" using s hs0 by (simp add: g2(6))
      show "lengths_ok hs (bss2 ! i)"
        using lengths_ok_unfold(2) [OF hs0 s(4)] less.prems(6) s(1) g2(6,7) by simp
    qed (simp add: conn_stream_def g2(5))
  qed
  show ?case
  proof (cases "db_header (buf_at g i) = 0")
    case False
    with less.prems(5) obtain len where "length len = hs" "be_value len = db_header (buf_at g i)" "s = len @ bss ! i"
      by (auto simp: conn_stream_def)
    with packet [OF less.prems(1-4), of len] False show ?thesis by simp
  next
    case True
    then have s: "s = bss ! i" using less.prems(5) by (simp add: conn_stream_def)
    have size: "db_size (buf_at g i) = int (length s)" using gate_rep_update [OF less.prems(1,2)] s by blast
    show ?thesis
    proof (cases "length s < hs")
      case short: True
      with size True less.prems(3) have "databuffer_readheader (buf_at g i) (g_mp g) (g_header_size g)
          = Inr (buf_at g i, g_mp g, -1)" by (simp add: readheader_short header_size_ok_def)
      then have "gate_split_loop g i fd = Some (Inr g)"
        using split_loop_cases(1) [OF less.prems(2)] by simp
      moreover have "gate_packs hs s = ([], s)" using short by (simp add: gate_packs.simps)
      ultimately show ?thesis unfolding split_done_def using less.prems(1,5) i' s
        by (intro exI [of _ "buf_at g i"] exI [of _ "g_mp g"] exI [of _ s]) simp
    next
      case long: False
      let ?len = "take hs s" and ?r = "drop hs s"
      have len: "length ?len = hs" "s = ?len @ ?r" using long by simp_all
      have small: "be_value ?len < 0x1000000" using lengths_ok_unfold(1) [OF hs0 len(1)] less.prems(6) len(2) by metis
      from split_loop_header [OF less.prems(1,2,3) True, of fd] long length_value_small [OF small] obtain db mp where
        g1: "gate_split_loop g i fd = gate_split_loop (with_buf i db mp g) i fd"
          "gate_rep (with_buf i db mp g) (bss[i := ?r])" "db_header db = be_value ?len" by (auto simp: s)
      let ?g = "with_buf i db mp g" and ?bss = "bss[i := ?r]"
      have g: "i < length (g_conn ?g)" "header_size_ok ?g hs" "can_forward ?g i" "?bss ! i = ?r"
        "buf_at ?g i = db" using less.prems(2-4) i' by simp_all
      define s1 where "s1 = (if be_value ?len = 0 then ?r else s)"
      have fin: "split_done ?g ?bss i hs s1 fd"
      proof (cases "be_value ?len = 0")
        case False
        with packet [OF g1(2) g(1-3), of ?len] g len g1(3) show ?thesis by (simp add: s1_def)
      next
        case zero: True
        have "lengths_ok hs ?r" using lengths_ok_unfold(2) [OF hs0 len(1), of ?r] less.prems(6) len(2) zero by simp
        with zero less.hyps [of ?r ?g ?bss] g1 g hs0 long show ?thesis
          by (simp add: conn_stream_def s1_def)
      qed
      have packs: "gate_packs hs s = ([] @ fst (gate_packs hs s1), snd (gate_packs hs s1))"
        using gate_packs_unfold [OF hs0 len(1), of ?r] len(2) by (simp add: s1_def)
      have "?g = ?g\<lparr>g_trace := g_trace g @ map (forward_call g i) []\<rparr>"
        by (simp add: with_buf_def set_conn_def)
      from split_done_step [OF less.prems(2) i' g1(1) this packs fin] show ?thesis .
    qed
  qed
qed

section \<open>A connection's stream\<close>

lemma gate_packs_append:
  "gate_packs hs (a @ b) = (fst (gate_packs hs a) @ fst (gate_packs hs (snd (gate_packs hs a) @ b)),
     snd (gate_packs hs (snd (gate_packs hs a) @ b)))"
proof (induction "length a" arbitrary: a rule: less_induct)
  case less
  show ?case
  proof (cases "hs = 0 \<or> length a < hs")
    case True
    then have "gate_packs hs a = ([], a)" by (auto simp: gate_packs.simps)
    then show ?thesis by simp
  next
    case False
    let ?len = "take hs a" and ?r = "drop hs a"
    have len: "hs \<noteq> 0" "length ?len = hs" "a = ?len @ ?r" using False by auto
    then have ab: "gate_packs hs (a @ b) = gate_packs hs (?len @ ?r @ b)" by (metis append.assoc)
    note unfold = gate_packs_unfold [OF len(1,2)]
    have sub: "length (drop n ?r) < length a" for n using False by auto
    show ?thesis
    proof (cases "be_value ?len = 0")
      case True
      with unfold [of ?r] unfold [of "?r @ b"] less [OF sub [of 0]] len(3) ab show ?thesis by simp
    next
      case False
      let ?n = "be_value ?len"
      show ?thesis
      proof (cases "?n \<le> int (length ?r)")
        case True
        then have "nat ?n \<le> length ?r" by simp
        with True False unfold [of ?r] unfold [of "?r @ b"] less [OF sub [of "nat ?n"]] len(3) ab show ?thesis by simp
      next
        case wait: False
        with False unfold [of ?r] len(3) have "gate_packs hs a = ([], a)" by simp
        then show ?thesis by simp
      qed
    qed
  qed
qed

lemma lengths_ok_intro:
  assumes "length len = hs" "be_value len < 0x1000000"
    "be_value len \<le> int (length r) \<Longrightarrow> lengths_ok hs (drop (nat (be_value len)) r)"
  shows "lengths_ok hs (len @ r)"
  using assms by (subst lengths_ok.simps) (auto simp: Let_def nat_less_iff)

lemma lengths_ok_append:
  "lengths_ok hs (a @ b) \<Longrightarrow> lengths_ok hs a \<and> lengths_ok hs (snd (gate_packs hs a) @ b)"
proof (induction "length a" arbitrary: a rule: less_induct)
  case less
  show ?case
  proof (cases "hs = 0 \<or> length a < hs")
    case True
    then have "gate_packs hs a = ([], a)" "lengths_ok hs a"
      by (auto simp: gate_packs.simps lengths_ok.simps)
    with less.prems show ?thesis by simp
  next
    case False
    let ?len = "take hs a" and ?r = "drop hs a" and ?n = "be_value (take hs a)"
    have len: "hs \<noteq> 0" "length ?len = hs" "a = ?len @ ?r" using False by auto
    then have ok: "lengths_ok hs (?len @ ?r @ b)" using less.prems by (metis append.assoc)
    note small = lengths_ok_unfold(1) [OF len(1,2) ok]
    show ?thesis
    proof (cases "?n \<le> int (length ?r)")
      case True
      then have "lengths_ok hs (drop (nat ?n) ?r @ b)"
        using lengths_ok_unfold(2) [OF len(1,2) ok] by simp
      moreover have "length (drop (nat ?n) ?r) < length a" using False by auto
      ultimately have IH: "lengths_ok hs (drop (nat ?n) ?r)"
        "lengths_ok hs (snd (gate_packs hs (drop (nat ?n) ?r)) @ b)" using less.hyps by blast+
      moreover have "snd (gate_packs hs a) = snd (gate_packs hs (drop (nat ?n) ?r))"
        using gate_packs_unfold [OF len(1,2), of ?r] True len(3) by (simp split: if_splits)
      moreover have "lengths_ok hs a" using lengths_ok_intro [OF len(2) small IH(1)] len(3) by simp
      ultimately show ?thesis by simp
    next
      case wait: False
      then have "gate_packs hs a = ([], a)"
        using gate_packs_unfold [OF len(1,2), of ?r] len(3) be_value_bounds(1) [of ?len] by simp
      moreover have "lengths_ok hs a" using lengths_ok_intro [OF len(2) small, of ?r] len(3) wait by simp
      ultimately show ?thesis using less.prems by simp
    qed
  qed
qed

text \<open>
  The state of a running gate: its tables agree, and the connection of an id is the one at its index.
\<close>

definition gate_ok :: "gate \<Rightarrow> u8 list list \<Rightarrow> bool" where
  "gate_ok g bss \<longleftrightarrow> gate_rep g bss \<and> hashid_wf (g_hash g) \<and> hi_cap (g_hash g) = length (g_conn g)
     \<and> (\<forall>fd i. hashid_index (g_hash g) fd = Some i \<longrightarrow> cn_id (g_conn g ! i) = fd)"

lemma gate_ok_index:
  assumes "gate_ok g bss" "hashid_index (g_hash g) fd = Some i"
  shows "i < length (g_conn g)" "cn_id (g_conn g ! i) = fd" "gate_rep g bss"
  using assms hashid_index_Some [of "g_hash g" fd i] by (auto simp: gate_ok_def hid_used_def)

lemma gate_lookup_ok:
  "gate_ok g bss \<Longrightarrow> hashid_lookup (g_hash g) k = Inr (case hashid_index (g_hash g) k of None \<Rightarrow> -1 | Some i \<Rightarrow> int i)"
  by (simp add: gate_ok_def hashid_lookup_ok)

text \<open>Pieces of the stream of one socket, as the socket thread delivers them.\<close>

definition data_message :: "i32 \<Rightarrow> u8 list \<Rightarrow> gate_msg" where
  "data_message fd b = Socket_msg \<lparr>sm_type = SKYNET_SOCKET_TYPE_DATA, sm_id = fd, sm_ud = int (length b),
     sm_buffer = Some b, sm_pad = []\<rparr> SIZEOF_SOCKET_MESSAGE"

fun gate_feed :: "(string \<Rightarrow> u32) \<Rightarrow> gate \<Rightarrow> i32 \<Rightarrow> u8 list list \<Rightarrow> gate res" where
  "gate_feed queryname g fd [] = Inr g"
| "gate_feed queryname g fd (b # bs) =
     bindE (gate_cb queryname g 0 (data_message fd b)) (\<lambda>(g, _). gate_feed queryname g fd bs)"

lemma gate_cb_data:
  assumes ok: "gate_ok g bss" and fd: "hashid_index (g_hash g) (sint fd) = Some i"
  shows "gate_cb queryname g 0 (data_message fd b)
    = bindE (gate_dispatch_message g i (sint fd) (Some b) (int (length b))) (\<lambda>g. Inr (g, 0))"
  using assms by (simp add: gate_cb_def data_message_def dispatch_socket_message_def socket_type_defs on_data_def
    hashid_lookup_ok gate_ok_def)

text \<open>The data is appended to the connection's bytes before the loop starts.\<close>

lemma gate_push_ok:
  assumes rep: "gate_rep g bss" and i: "i < length (g_conn g)"
  shows "\<exists>db mp. gate_dispatch_message g i fd (Some b) (int (length b))
      = loopE (gate_split_loop (with_buf i db mp g) i fd)
    \<and> gate_rep (with_buf i db mp g) (bss[i := bss ! i @ b]) \<and> db_header db = db_header (buf_at g i)"
proof -
  from gate_rep_update [OF rep i] obtain fs ps where
    db: "db_rep (g_mp g) (buf_at g i) fs ps (bss ! i)" "db_size (buf_at g i) = int (length (bss ! i))"
    and upd: "\<And>db mp fs' ps' bs. db_rep mp db fs' ps' bs \<Longrightarrow> db_size db = int (length bs) \<Longrightarrow>
       db_frame (g_mp g) fs ps mp fs' ps' \<Longrightarrow> gate_rep (with_buf i db mp g) (bss[i := bs])" by blast
  from databuffer_push_ok [OF db, of b] obtain db1 mp1 fs1 ps1 where
    r: "databuffer_push (buf_at g i) (g_mp g) (Some b) (int (length b)) = Inr (db1, mp1)"
      "db_rep mp1 db1 fs1 ps1 (bss ! i @ b)" "db_size db1 = int (length (bss ! i @ b))"
      "db_frame (g_mp g) fs ps mp1 fs1 ps1" "db_header db1 = db_header (buf_at g i)" by blast
  with i upd [OF r(2,3,4)] show ?thesis
    by (auto simp: gate_dispatch_message_def buf_at_def with_buf_def)
qed

lemma gate_ok_with_buf:
  assumes "gate_ok g bss" "i < length (g_conn g)" "gate_rep (with_buf i db mp g) bss'"
  shows "gate_ok ((with_buf i db mp g)\<lparr>g_trace := t\<rparr>) bss'"
    "g_hash ((with_buf i db mp g)\<lparr>g_trace := t\<rparr>) = g_hash g"
  using assms by (auto simp: gate_ok_def with_buf_def set_conn_def nth_list_update gate_rep_def)

lemma gate_packs_rest: "fst (gate_packs hs (snd (gate_packs hs a))) = []"
  using gate_packs_append [of hs a "[]"] by (metis append.right_neutral append_self_conv fst_conv)

lemma gate_feed_ok:
  assumes "gate_ok g bss" "hashid_index (g_hash g) (sint fd) = Some i" "header_size_ok g hs" "can_forward g i"
    "conn_stream hs (db_header (buf_at g i)) (bss ! i) s" "fst (gate_packs hs s) = []"
    "lengths_ok hs (s @ concat bs)"
  shows "\<exists>g'. gate_feed queryname g fd bs = Inr g'
    \<and> g_trace g' = g_trace g @ map (forward_call g i) (fst (gate_packs hs (s @ concat bs)))"
  using assms
proof (induction bs arbitrary: g bss s)
  case Nil
  then show ?case by simp
next
  case (Cons b bs)
  note idx = gate_ok_index [OF Cons.prems(1,2)]
  have len: "i < length bss" using gate_rep_length [OF idx(3)] idx(1) by simp
  have ok: "lengths_ok hs (s @ b)" "lengths_ok hs (snd (gate_packs hs (s @ b)) @ concat bs)"
    using lengths_ok_append [of hs "s @ b" "concat bs"] Cons.prems(7) by simp_all
  from gate_push_ok [OF idx(3,1), of "sint fd" b] obtain db mp where
    push: "gate_dispatch_message g i (sint fd) (Some b) (int (length b))
        = loopE (gate_split_loop (with_buf i db mp g) i (sint fd))"
      "gate_rep (with_buf i db mp g) (bss[i := bss ! i @ b])" "db_header db = db_header (buf_at g i)" by blast
  have "conn_stream hs (db_header db) (bss ! i @ b) (s @ b)"
    using Cons.prems(5) push(3) by (auto simp: conn_stream_def)
  with split_loop_ok [OF push(2), of i hs "s @ b" "sint fd"] ok(1) idx(1) len Cons.prems(3,4)
  have "split_done (with_buf i db mp g) (bss[i := bss ! i @ b]) i hs (s @ b) (sint fd)" by simp
  then obtain db1 mp1 bs1 where
    loop: "gate_split_loop (with_buf i db mp g) i (sint fd) = Some (Inr ((with_buf i db1 mp1 g)\<lparr>g_trace :=
        g_trace g @ map (forward_call g i) (fst (gate_packs hs (s @ b)))\<rparr>))"
      "gate_rep (with_buf i db1 mp1 g) (bss[i := bs1])" "conn_stream hs (db_header db1) bs1 (snd (gate_packs hs (s @ b)))"
    using idx(1) len by (auto simp: split_done_def)
  let ?g = "(with_buf i db1 mp1 g)\<lparr>g_trace := g_trace g @ map (forward_call g i) (fst (gate_packs hs (s @ b)))\<rparr>"
  have "\<exists>g'. gate_feed queryname ?g fd bs = Inr g' \<and> g_trace g' = g_trace ?g @ map (forward_call ?g i)
      (fst (gate_packs hs (snd (gate_packs hs (s @ b)) @ concat bs)))"
  proof (rule Cons.IH)
    show "gate_ok ?g (bss[i := bs1])" using gate_ok_with_buf(1) [OF Cons.prems(1) idx(1) loop(2)] .
    show "hashid_index (g_hash ?g) (sint fd) = Some i" using gate_ok_with_buf(2) [OF Cons.prems(1) idx(1) loop(2)] Cons.prems(2) by simp
    show "conn_stream hs (db_header (buf_at ?g i)) (bss[i := bs1] ! i) (snd (gate_packs hs (s @ b)))"
      using loop(3) idx(1) len by simp
  qed (use Cons.prems(3,4) ok(2) gate_packs_rest idx(1) in simp_all)
  then show ?case
    using push(1) loop(1) gate_cb_data [OF Cons.prems(1,2), of queryname b] idx(1)
      gate_packs_append [of hs "s @ b" "concat bs"] by auto
qed

section \<open>Every message is handled\<close>

text \<open>The result of the loop in any state: it ends, and only one buffer, the pool and the trace change.\<close>

definition loop_returns :: "gate \<Rightarrow> nat \<Rightarrow> int \<Rightarrow> u8 list list \<Rightarrow> bool" where
  "loop_returns g i fd bss \<longleftrightarrow> (\<exists>db mp t bs. gate_split_loop g i fd = Some (Inr ((with_buf i db mp g)\<lparr>g_trace := t\<rparr>))
     \<and> gate_rep (with_buf i db mp g) (bss[i := bs]))"

lemma loop_returns_step:
  assumes "i < length (g_conn g)" "i < length bss"
    "gate_split_loop g i fd = gate_split_loop ((with_buf i db mp g)\<lparr>g_trace := t\<rparr>) i fd"
    "loop_returns ((with_buf i db mp g)\<lparr>g_trace := t\<rparr>) i fd (bss[i := bs])"
  shows "loop_returns g i fd bss"
  using assms unfolding loop_returns_def by auto

lemma with_buf_self: "(with_buf i (buf_at g i) (g_mp g) g)\<lparr>g_trace := g_trace g\<rparr> = g"
  by simp

lemma loop_returns_now:
  assumes "gate_split_loop g i fd = Some (Inr g)" "gate_rep g bss"
  shows "loop_returns g i fd bss"
  unfolding loop_returns_def using assms with_buf_self [where i = i and g = g]
  by (metis list_update_id with_buf_id)

text \<open>Without anybody to send to, a packet is not taken out of the buffer.\<close>

lemma split_loop_no_target:
  assumes i: "i < length (g_conn g)" and none: "\<not> can_forward g i"
    and h: "0 < db_header (buf_at g i)" "db_header (buf_at g i) < 0x1000000" "db_header (buf_at g i) \<le> db_size (buf_at g i)"
  shows "gate_split_loop g i fd = gate_split_loop (with_buf i (databuffer_reset (buf_at g i)) (g_mp g) g) i fd"
proof -
  have "gate_forward g i (db_header (buf_at g i)) = Inr g"
    using i none by (auto simp: gate_forward_def can_forward_def Let_def)
  moreover have "databuffer_readheader (buf_at g i) (g_mp g) (g_header_size g)
      = Inr (buf_at g i, g_mp g, db_header (buf_at g i))" using h by (simp add: readheader_old)
  ultimately show ?thesis using split_loop_cases(3) [OF i] h i by simp
qed

lemma loop_returns_known:
  assumes rep: "gate_rep g bss" and i: "i < length (g_conn g)" and hs: "header_size_ok g hs"
    and hdr: "db_header (buf_at g i) \<noteq> 0"
    and next_ok: "\<And>g1 bss1. gate_rep g1 bss1 \<Longrightarrow> i < length (g_conn g1) \<Longrightarrow> header_size_ok g1 hs \<Longrightarrow>
       db_header (buf_at g1 i) = 0 \<Longrightarrow> length (bss1 ! i) \<le> length (bss ! i) \<Longrightarrow> loop_returns g1 i fd bss1"
  shows "loop_returns g i fd bss"
proof -
  let ?bs = "bss ! i" and ?h = "db_header (buf_at g i)"
  have i': "i < length bss" using gate_rep_length [OF rep] i by simp
  have size: "db_size (buf_at g i) = int (length ?bs)" using gate_rep_update [OF rep i] by blast
  from hdr have read: "databuffer_readheader (buf_at g i) (g_mp g) (g_header_size g)
      = Inr (buf_at g i, g_mp g, if int (length ?bs) < ?h then -1 else ?h)"
    using size by (simp add: readheader_old)
  consider (wait) "int (length ?bs) < ?h \<or> ?h < 0" | (long) "?h \<ge> 0x1000000" "?h \<le> int (length ?bs)"
    | (packet) "0 < ?h" "?h < 0x1000000" "?h \<le> int (length ?bs)" using hdr by linarith
  then show ?thesis
  proof cases
    case wait
    then show ?thesis
      using split_loop_cases(1) [OF i read] rep by (intro loop_returns_now) (auto split: if_splits)
  next
    case long
    from gate_rep_update [OF rep i] obtain fs ps where
      db: "db_rep (g_mp g) (buf_at g i) fs ps ?bs" "db_size (buf_at g i) = int (length ?bs)"
      and upd: "\<And>db mp fs' ps' bs. db_rep mp db fs' ps' bs \<Longrightarrow> db_size db = int (length bs) \<Longrightarrow>
         db_frame (g_mp g) fs ps mp fs' ps' \<Longrightarrow> gate_rep (with_buf i db mp g) (bss[i := bs])" by blast
    from databuffer_clear_ok [OF db(1)] obtain mp' fs' where
      clear: "databuffer_clear (buf_at g i) (g_mp g) = Inr (databuffer_zero, mp')"
        "db_rep mp' databuffer_zero fs' [] []" "db_frame (g_mp g) fs ps mp' fs' []" by blast
    have "gate_split_loop g i fd = Some (Inr (call (Log (bytes ''Recv socket message > 16M''))
       (call (Socket_close fd) (with_buf i databuffer_zero mp' g))))"
      using split_loop_cases(4) [OF i read] long clear(1) by simp
    then show ?thesis unfolding loop_returns_def
      using upd [OF clear(2) _ clear(3)]
      by (intro exI [of _ databuffer_zero] exI [of _ mp'] exI [of _ "[]"] exI
        [of _ "g_trace g @ [Socket_close fd, Log (bytes ''Recv socket message > 16M'')]"])
        (simp add: call_def databuffer_zero_def)
  next
    case packet
    show ?thesis
    proof (cases "can_forward g i")
      case True
      have n: "0 < nat ?h" "nat ?h \<le> length ?bs" using packet by auto
      from gate_forward_ok [OF rep i True n] packet(1) obtain db mp where
        fwd: "gate_forward g i ?h = Inr (call (forward_call g i (take (nat ?h) ?bs)) (with_buf i db mp g))"
          "gate_rep (with_buf i db mp g) (bss[i := drop (nat ?h) ?bs])" by auto
      let ?t = "g_trace g @ [forward_call g i (take (nat ?h) ?bs)]"
      let ?g = "(with_buf i (databuffer_reset db) mp g)\<lparr>g_trace := ?t\<rparr>"
      have "gate_split_loop g i fd = gate_split_loop ?g i fd"
        using split_loop_cases(3) [OF i read] packet fwd(1) i by (simp add: call_def)
      moreover have "loop_returns ?g i fd (bss[i := drop (nat ?h) ?bs])"
        using fwd(2) packet i i' hs by (intro next_ok) (auto simp: databuffer_reset_def)
      ultimately show ?thesis by (rule loop_returns_step [OF i i'])
    next
      case none: False
      let ?g = "(with_buf i (databuffer_reset (buf_at g i)) (g_mp g) g)\<lparr>g_trace := g_trace g\<rparr>"
      have eq: "?g = with_buf i (databuffer_reset (buf_at g i)) (g_mp g) g"
        by (simp add: with_buf_def set_conn_def)
      have "gate_split_loop g i fd = gate_split_loop ?g i fd"
        unfolding eq using packet size by (intro split_loop_no_target [OF i none]) simp_all
      moreover have "loop_returns ?g i fd (bss[i := ?bs])"
        using rep hs i i' by (intro next_ok) (auto simp: databuffer_reset_def)
      ultimately show ?thesis by (rule loop_returns_step [OF i i'])
    qed
  qed
qed

lemma split_loop_total:
  assumes "gate_rep g bss" "i < length (g_conn g)" "header_size_ok g hs"
  shows "loop_returns g i fd bss"
  using assms
proof (induction "2 * length (bss ! i) + (if db_header (buf_at g i) \<noteq> 0 then 1 else 0)"
    arbitrary: g bss rule: less_induct)
  case less
  let ?bs = "bss ! i" and ?h = "db_header (buf_at g i)"
  note i = less.prems(2)
  have i': "i < length bss" using gate_rep_length [OF less.prems(1)] i by simp
  have hs: "2 \<le> hs" "g_header_size g = int hs" using less.prems(3) by (auto simp: header_size_ok_def)
  have size: "db_size (buf_at g i) = int (length ?bs)" using gate_rep_update [OF less.prems(1) i] by blast
  show ?case
  proof (cases "?h = 0")
    case True
    show ?thesis
    proof (cases "length ?bs < hs")
      case short: True
      with size True hs have "databuffer_readheader (buf_at g i) (g_mp g) (g_header_size g)
          = Inr (buf_at g i, g_mp g, -1)" by (simp add: readheader_short)
      then show ?thesis using split_loop_cases(1) [OF i] less.prems(1) by (intro loop_returns_now) simp_all
    next
      case False
      with split_loop_header [OF less.prems True, of fd] obtain db mp where
        g1: "gate_split_loop g i fd = gate_split_loop (with_buf i db mp g) i fd"
          "gate_rep (with_buf i db mp g) (bss[i := drop hs ?bs])" by auto
      have eq: "(with_buf i db mp g)\<lparr>g_trace := g_trace g\<rparr> = with_buf i db mp g"
        by (simp add: with_buf_def set_conn_def)
      have "loop_returns (with_buf i db mp g) i fd (bss[i := drop hs ?bs])"
        using False hs i i' True less.prems(3) by (intro less.hyps [OF _ g1(2)]) auto
      then show ?thesis using g1(1) by (intro loop_returns_step [OF i i', where db = db and mp = mp and t = "g_trace g"]) (simp_all add: eq)
    qed
  next
    case False
    then show ?thesis by (intro loop_returns_known [OF less.prems] less.hyps) auto
  qed
qed

lemma on_data_ok:
  assumes ok: "gate_ok g bss" and hs: "header_size_ok g hs"
    and data: "sm_buffer m = Some b" "sm_ud m = int (length b)"
  shows "\<exists>g' bss'. on_data g m = Inr g' \<and> gate_ok g' bss' \<and> header_size_ok g' hs"
proof (cases "hashid_index (g_hash g) (sint (sm_id m))")
  case None
  with ok hs show ?thesis
    by (auto simp: on_data_def hashid_lookup_ok gate_ok_def Let_def call_def intro!: exI [of _ bss])
next
  case (Some i)
  note idx = gate_ok_index [OF ok Some]
  have len: "i < length bss" using gate_rep_length [OF idx(3)] idx(1) by simp
  from gate_push_ok [OF idx(3,1), of "sint (sm_id m)" b] obtain db mp where
    push: "gate_dispatch_message g i (sint (sm_id m)) (Some b) (int (length b))
        = loopE (gate_split_loop (with_buf i db mp g) i (sint (sm_id m)))"
      "gate_rep (with_buf i db mp g) (bss[i := bss ! i @ b])" by blast
  have "loop_returns (with_buf i db mp g) i (sint (sm_id m)) (bss[i := bss ! i @ b])"
    using split_loop_total [OF push(2), of i hs] idx(1) hs by simp
  then obtain db1 mp1 t bs1 where
    "gate_split_loop (with_buf i db mp g) i (sint (sm_id m)) = Some (Inr ((with_buf i db1 mp1 g)\<lparr>g_trace := t\<rparr>))"
    "gate_rep (with_buf i db1 mp1 g) (bss[i := bs1])" using idx(1) len by (auto simp: loop_returns_def)
  with gate_ok_with_buf(1) [OF ok idx(1), of db1 mp1 "bss[i := bs1]" t] push(1) ok Some data hs show ?thesis
    by (auto simp: on_data_def hashid_lookup_ok gate_ok_def Let_def)
qed

lemma on_connect_ok:
  assumes "gate_ok g bss" "header_size_ok g hs"
  shows "\<exists>g'. on_connect g m = Inr g' \<and> gate_ok g' bss \<and> header_size_ok g' hs"
  using assms by (auto simp: on_connect_def hashid_lookup_ok gate_ok_def Let_def call_def split: option.splits)

text \<open>A call and a report leave the tables alone.\<close>

lemma gate_ok_call [simp]: "gate_ok (call a g) bss = gate_ok g bss" "gate_ok (g\<lparr>g_trace := t\<rparr>) bss = gate_ok g bss"
  by (simp_all add: gate_ok_def call_def)

lemma gate_ok_report [simp]: "gate_ok (gate_report g d) bss = gate_ok g bss"
  "header_size_ok (gate_report g d) hs = header_size_ok g hs"
  by (simp_all add: gate_report_def)

lemma on_close_ok:
  assumes ok: "gate_ok g bss" and hs: "header_size_ok g hs"
  shows "\<exists>g' bss'. on_close g m = Inr g' \<and> gate_ok g' bss' \<and> header_size_ok g' hs"
proof -
  let ?fd = "sint (sm_id m)"
  have wf: "hashid_wf (g_hash g)" using ok by (simp add: gate_ok_def)
  from hashid_remove_ok [OF wf, of ?fd] obtain hash where
    rem: "hashid_remove (g_hash g) ?fd = Inr (hash, case hashid_index (g_hash g) ?fd of None \<Rightarrow> -1 | Some i \<Rightarrow> int i)"
      "hashid_wf hash" "hashid_index hash = (hashid_index (g_hash g))(?fd := None)" "hi_cap hash = hi_cap (g_hash g)" by blast
  show ?thesis
  proof (cases "hashid_index (g_hash g) ?fd")
    case None
    have "gate_ok (g\<lparr>g_hash := hash\<rparr>) bss" using ok rem by (auto simp: gate_ok_def gate_rep_def)
    with None rem hs show ?thesis by (auto simp: on_close_def Let_def header_size_ok_def)
  next
    case (Some i)
    note idx = gate_ok_index [OF ok Some]
    from gate_rep_update [OF idx(3,1)] obtain fs ps where
      db: "db_rep (g_mp g) (buf_at g i) fs ps (bss ! i)" "db_size (buf_at g i) = int (length (bss ! i))"
      and upd: "\<And>db mp fs' ps' bs. db_rep mp db fs' ps' bs \<Longrightarrow> db_size db = int (length bs) \<Longrightarrow>
         db_frame (g_mp g) fs ps mp fs' ps' \<Longrightarrow> gate_rep (with_buf i db mp g) (bss[i := bs])" by blast
    from databuffer_clear_ok [OF db(1)] obtain mp' fs' where
      clear: "databuffer_clear (buf_at g i) (g_mp g) = Inr (databuffer_zero, mp')"
        "db_rep mp' databuffer_zero fs' [] []" "db_frame (g_mp g) fs ps mp' fs' []" by blast
    let ?g = "(set_conn i (connection_zero\<lparr>cn_id := -1\<rparr>) (g\<lparr>g_hash := hash\<rparr>))\<lparr>g_mp := mp'\<rparr>"
    have "gate_rep (with_buf i databuffer_zero mp' g) (bss[i := []])"
      using upd [OF clear(2) _ clear(3)] by (simp add: databuffer_zero_def)
    then have "gate_rep ?g (bss[i := []])"
      using conns_rep_conn [of mp' _ "g_conn g" i "(g_conn g ! i)\<lparr>cn_buffer := databuffer_zero\<rparr>" _ "bss[i := []]"
        "connection_zero\<lparr>cn_id := -1\<rparr>"]
      by (auto simp: gate_rep_def with_buf_def set_conn_def connection_zero_def)
    moreover have "cn_id (g_conn ?g ! j) = k" if "hashid_index hash k = Some j" for j k
    proof -
      from that rem(3) have k: "hashid_index (g_hash g) k = Some j" "k \<noteq> ?fd" by (auto split: if_splits)
      then have "j \<noteq> i" using hashid_index_inj [OF wf Some] by auto
      with gate_ok_index(2) [OF ok k(1)] show ?thesis by (simp add: set_conn_def)
    qed
    ultimately have "gate_ok ?g (bss[i := []])" using ok rem(2,4) by (simp add: gate_ok_def set_conn_def)
    moreover have "on_close g m = Inr (gate_report ?g (bytes (fmt_d ?fd @ '' close'')))"
      using Some rem(1) idx(1) clear(1) by (simp add: on_close_def Let_def buf_at_def set_conn_def)
    moreover have "header_size_ok ?g hs" using hs by (simp add: header_size_ok_def set_conn_def)
    ultimately show ?thesis by auto
  qed
qed

lemma on_accept_ok:
  assumes ok: "gate_ok g bss" and hs: "header_size_ok g hs" and m: "sint (sm_id m) = g_listen_id g"
    and id: "0 \<le> sm_ud m" "sm_ud m + int (length (g_conn g)) \<le> 2 ^ 31" "hashid_index (g_hash g) (sm_ud m) = None"
    and pad: "0 \<le> sz" "sz \<le> int (length (sm_pad m))"
  shows "\<exists>g'. on_accept g m sz = Inr g' \<and> gate_ok g' bss \<and> header_size_ok g' hs"
proof (cases "hashid_full (g_hash g)")
  case True
  with ok hs m show ?thesis by (simp add: on_accept_def)
next
  case False
  have wf: "hashid_wf (g_hash g)" "hi_cap (g_hash g) = length (g_conn g)" using ok by (auto simp: gate_ok_def)
  from hashid_insert_ok [OF wf(1) False id(1) _ id(3)] id(2) wf(2) obtain hash i where
    ins: "hashid_insert (g_hash g) (sm_ud m) = Inr (hash, int i)" "i < length (g_conn g)"
      "i \<notin> ran (hashid_index (g_hash g))" "hashid_wf hash" "hi_cap hash = length (g_conn g)"
      "hashid_index hash = (hashid_index (g_hash g))(sm_ud m \<mapsto> i)" by auto
  let ?sz = "if sz < 0 \<or> sz \<ge> 32 then 31 else sz"
  have "bytes_of (sm_pad m) ?sz = Inr (take (nat ?sz) (sm_pad m))" using pad by (auto simp: bytes_of_def)
  then obtain name where name: "bytes_of (sm_pad m) ?sz = Inr name" ..
  let ?c = "(g_conn g ! i)\<lparr>cn_id := sm_ud m,
    cn_remote_name := name @ 0 # drop (Suc (length name)) (cn_remote_name (g_conn g ! i))\<rparr>"
  let ?g = "set_conn i ?c (g\<lparr>g_hash := hash\<rparr>)"
  have "gate_rep ?g bss"
    using ok conns_rep_conn [of "g_mp g" _ "g_conn g" i "g_conn g ! i" _ bss ?c]
    by (auto simp: gate_rep_def gate_ok_def set_conn_def)
  moreover have "cn_id (g_conn ?g ! j) = k" if "hashid_index hash k = Some j" for j k
  proof (cases "k = sm_ud m")
    case True
    with that ins(2,6) show ?thesis by (simp add: set_conn_def)
  next
    case False
    with that ins(6) have k: "hashid_index (g_hash g) k = Some j" by simp
    then have "j \<noteq> i" using ins(3) by (auto simp: ran_def)
    with gate_ok_index(2) [OF ok k] show ?thesis by (simp add: set_conn_def)
  qed
  ultimately have "gate_ok ?g bss" using ins(4,5) by (simp add: gate_ok_def set_conn_def)
  moreover have "header_size_ok ?g hs" using hs by (simp add: header_size_ok_def set_conn_def)
  ultimately show ?thesis
    using False m ins(1,2) name by (auto simp: on_accept_def Let_def)
qed

text \<open>Text commands. A text has no NUL in it.\<close>

lemma memcmp_eq_total:
  "n \<le> length a \<Longrightarrow> CHR 0x00 \<notin> set (take n a) \<Longrightarrow> CHR 0x00 \<in> set b \<Longrightarrow> \<exists>r. memcmp_eq a b n = Inr r"
proof (induction a b n rule: memcmp_eq.induct)
  case (2 x a y b n)
  then show ?case by auto
qed auto

lemma str_at_ok: "CHR 0x00 \<in> set (drop off buf) \<Longrightarrow> \<exists>s. str_at buf off = Inr s"
  by (simp add: str_at_def Let_def)

lemma str_at_front: "\<exists>s. str_at (arg @ CHR 0x00 # rest) 0 = Inr s"
  by (rule str_at_ok) simp

lemma parm_form: "\<exists>arg rest. parm msg sz i = arg @ CHR 0x00 # rest"
  by (auto simp: parm_def Let_def)

lemma ctrl_socket_ok:
  assumes "gate_ok g bss" "header_size_ok g hs"
  shows "\<exists>g'. ctrl_socket g (parm msg sz i) act = Inr g' \<and> gate_ok g' bss \<and> header_size_ok g' hs"
proof -
  from parm_form [of msg sz i] str_at_front obtain s where "str_at (parm msg sz i) 0 = Inr s" by metis
  with assms show ?thesis by (simp add: ctrl_socket_def gate_lookup_ok Let_def)
qed

lemma forward_agent_ok:
  assumes ok: "gate_ok g bss" "header_size_ok g hs"
  shows "\<exists>g'. gate_forward_agent g fd a c = Inr g' \<and> gate_ok g' bss \<and> header_size_ok g' hs"
proof (cases "hashid_index (g_hash g) fd")
  case None
  with ok show ?thesis by (simp add: gate_forward_agent_def gate_lookup_ok)
next
  case (Some i)
  note idx = gate_ok_index [OF ok(1) Some]
  let ?c = "(g_conn g ! i)\<lparr>cn_agent := a, cn_client := c\<rparr>"
  have "gate_rep (set_conn i ?c g) bss"
    using idx(3) conns_rep_conn [of "g_mp g" _ "g_conn g" i "g_conn g ! i" _ bss ?c]
    by (auto simp: gate_rep_def set_conn_def)
  then have "gate_ok (set_conn i ?c g) bss"
    using ok(1) idx(1) by (auto simp: gate_ok_def set_conn_def nth_list_update)
  moreover have "header_size_ok (set_conn i ?c g) hs" using ok(2) by (simp add: header_size_ok_def set_conn_def)
  ultimately show ?thesis using Some ok idx(1) by (simp add: gate_forward_agent_def gate_lookup_ok)
qed

text \<open>
  In \<^verbatim>\<open>forward\<close> the positions of the words stay before the NUL that ends the copy of the message, so the
  reads one character further stay inside it.
\<close>

lemma length_takeWhile_le_nth: "i < length xs \<Longrightarrow> \<not> P (xs ! i) \<Longrightarrow> length (takeWhile P xs) \<le> i"
proof (induction xs arbitrary: i)
  case (Cons x xs)
  then show ?case by (cases i) auto
qed simp

definition text_buf :: "string \<Rightarrow> nat \<Rightarrow> bool" where
  "text_buf buf a \<longleftrightarrow> a + 1 < length buf \<and> buf ! a = CHR 0x00 \<and> buf ! (length buf - 1) = CHR 0x00"

lemma text_buf_str:
  assumes "text_buf buf a" "off < length buf"
  shows "str_at buf off = Inr (takeWhile (\<lambda>c. c \<noteq> CHR 0x00) (drop off buf))"
proof -
  have "drop off buf ! (length buf - 1 - off) = CHR 0x00" "length buf - 1 - off < length (drop off buf)"
    using assms by (auto simp: text_buf_def)
  then have "CHR 0x00 \<in> set (drop off buf)" using nth_mem [of "length buf - 1 - off" "drop off buf"] by simp
  then show ?thesis by (simp add: str_at_def Let_def)
qed

lemma strsep_at_ok:
  assumes buf: "text_buf buf a" and off: "off \<le> a"
  shows "\<exists>buf' p. strsep_at buf off = Inr (buf', p) \<and> text_buf buf' a \<and> length buf' = length buf
    \<and> (\<forall>q. p = Some q \<longrightarrow> q \<le> a)"
proof -
  let ?s = "takeWhile (\<lambda>c. c \<noteq> CHR 0x00) (drop off buf)"
  have s: "str_at buf off = Inr ?s" using buf off by (intro text_buf_str [OF buf]) (auto simp: text_buf_def)
  have "length ?s \<le> a - off" using buf off by (intro length_takeWhile_le_nth) (auto simp: text_buf_def)
  moreover have "text_buf (buf[k := CHR 0x00]) a" for k
    using buf by (cases "k < length buf") (auto simp: text_buf_def nth_list_update)
  ultimately show ?thesis using s buf off by (auto simp: strsep_at_def Let_def)
qed

lemma ctrl_forward_ok:
  assumes ok: "gate_ok g bss" "header_size_ok g hs" and tmp: "text_buf tmp a"
  shows "\<exists>g'. ctrl_forward g tmp = Inr g' \<and> gate_ok g' bss \<and> header_size_ok g' hs"
proof -
  from strsep_at_ok [OF tmp, of 0] obtain tmp1 p1 where
    1: "strsep_at tmp 0 = Inr (tmp1, p1)" "text_buf tmp1 a" "\<And>q. p1 = Some q \<Longrightarrow> q \<le> a" by auto
  show ?thesis
  proof (cases p1)
    case None
    with 1 ok show ?thesis by (simp add: ctrl_forward_def)
  next
    case (Some agent)
    from strsep_at_ok [OF 1(2) 1(3) [OF Some]] obtain tmp2 p2 where
      2: "strsep_at tmp1 agent = Inr (tmp2, p2)" "text_buf tmp2 a" "\<And>q. p2 = Some q \<Longrightarrow> q \<le> a" by auto
    have str: "\<exists>s. str_at tmp1 0 = Inr s" "\<exists>s. str_at tmp2 (agent + 1) = Inr s"
      "\<And>q. p2 = Some q \<Longrightarrow> \<exists>s. str_at tmp2 (q + 1) = Inr s"
      by (intro exI, rule text_buf_str, rule 1 2, use 1(2) 2(2) 1(3) [OF Some] 2(3) in
        \<open>fastforce simp: text_buf_def\<close>)+
    then show ?thesis
      using 1(1) 2(1) Some ok forward_agent_ok [OF ok]
      by (cases p2) (auto simp: ctrl_forward_def)
  qed
qed

lemma parm_text_buf:
  assumes msg: "0 < i" "i \<le> length msg"
  shows "\<exists>a. text_buf (parm (msg @ [CHR 0x00]) (length msg) i) a"
proof -
  let ?arg = "dropWhile (\<lambda>c. c = CHR '' '') (take (length msg - i) (drop i (msg @ [CHR 0x00])))"
  let ?buf = "parm (msg @ [CHR 0x00]) (length msg) i"
  have len: "length ?arg < length msg"
    using msg length_dropWhile_le [of "\<lambda>c. c = CHR '' ''" "take (length msg - i) (drop i (msg @ [CHR 0x00]))"] by auto
  have buf: "?buf = ?arg @ CHR 0x00 # drop (Suc (length ?arg)) (msg @ [CHR 0x00])" by (simp add: parm_def Let_def)
  have "length ?buf = Suc (length msg)" unfolding buf using len by simp
  moreover have "?buf ! length ?arg = CHR 0x00" unfolding buf by (rule nth_append_length)
  moreover have "?buf ! length msg = CHR 0x00"
    unfolding buf using len by (auto simp: nth_append nth_Cons' )
  ultimately show ?thesis using len by (auto simp: text_buf_def)
qed

lemma gate_ctrl_ok:
  assumes ok: "gate_ok g bss" "header_size_ok g hs" and msg: "CHR 0x00 \<notin> set msg"
  shows "\<exists>g'. gate_ctrl queryname g msg = Inr g' \<and> gate_ok g' bss \<and> header_size_ok g' hs"
proof (cases "msg = []")
  case True
  with ok show ?thesis by (simp add: gate_ctrl_def)
next
  case False
  let ?tmp = "msg @ [CHR 0x00]" and ?i = "length (takeWhile (\<lambda>c. c \<noteq> CHR '' '') msg)"
  let ?buf = "parm ?tmp (length msg) ?i"
  have i: "?i \<le> length msg" by (rule length_takeWhile_le)
  have cmp: "\<exists>r. memcmp_eq ?tmp (lit @ [CHR 0x00]) ?i = Inr r" for lit
    using msg i by (intro memcmp_eq_total) (auto dest: in_set_takeD)
  obtain r1 r2 r3 r4 r5 where
    r: "memcmp_eq ?tmp (''kick'' @ [CHR 0x00]) ?i = Inr r1" "memcmp_eq ?tmp (''forward'' @ [CHR 0x00]) ?i = Inr r2"
      "memcmp_eq ?tmp (''broker'' @ [CHR 0x00]) ?i = Inr r3" "memcmp_eq ?tmp (''start'' @ [CHR 0x00]) ?i = Inr r4"
      "memcmp_eq ?tmp (''close'' @ [CHR 0x00]) ?i = Inr r5" using cmp by metis
  obtain s where s: "str_at ?buf 0 = Inr s" using parm_form [of ?tmp "length msg" ?i] str_at_front by metis
  obtain c where c: "str_at ?tmp 0 = Inr c" using str_at_ok [of 0 ?tmp] by auto
  have fwd: "\<exists>g'. ctrl_forward g ?buf = Inr g' \<and> gate_ok g' bss \<and> header_size_ok g' hs" if "\<not> r1"
  proof -
    have "0 < ?i" using r(1) that by (cases ?i) auto
    from parm_text_buf [OF this i] ctrl_forward_ok [OF ok] show ?thesis by blast
  qed
  have broker: "gate_ok (g\<lparr>g_broker := b\<rparr>) bss \<and> header_size_ok (g\<lparr>g_broker := b\<rparr>) hs" for b
    using ok by (simp add: gate_ok_def gate_rep_def header_size_ok_def)
  have close: "gate_ok (ctrl_close g) bss \<and> header_size_ok (ctrl_close g) hs"
    using ok by (simp add: ctrl_close_def gate_ok_def gate_rep_def header_size_ok_def call_def)
  have "gate_ctrl queryname g msg = (if r1 then ctrl_socket g ?buf Socket_close
      else if r2 then ctrl_forward g ?buf else if r3 then Inr (g\<lparr>g_broker := queryname s\<rparr>)
      else if r4 then ctrl_socket g ?buf Socket_start else if r5 then Inr (ctrl_close g)
      else Inr (call (Log (bytes (''[gate] Unkown command : '' @ c))) g))"
    using False r s c unfolding gate_ctrl_def Let_def by simp
  then show ?thesis using ctrl_socket_ok [OF ok] fwd broker close ok by simp
qed

section \<open>Reachable states\<close>

text \<open>
  What the other parts of the node guarantee for a message: texts end at their NUL, data messages
  carry as many bytes as they say, and an accepted connection comes from the listening socket with a
  new id and its address as text.
\<close>

definition gate_msg_ok :: "gate \<Rightarrow> gate_msg \<Rightarrow> bool" where
  "gate_msg_ok g msg =
     (case msg of
        Text_msg s \<Rightarrow> CHR 0x00 \<notin> set s
      | Socket_msg m sz \<Rightarrow>
          if sm_type m = SKYNET_SOCKET_TYPE_DATA then \<exists>b. sm_buffer m = Some b \<and> sm_ud m = int (length b)
          else if sm_type m = SKYNET_SOCKET_TYPE_ACCEPT then
            sint (sm_id m) = g_listen_id g \<and> hashid_index (g_hash g) (sm_ud m) = None \<and> 0 \<le> sm_ud m
            \<and> sm_ud m + int (length (g_conn g)) \<le> 2 ^ 31
            \<and> SIZEOF_SOCKET_MESSAGE \<le> sz \<and> sz \<le> SIZEOF_SOCKET_MESSAGE + int (length (sm_pad m))
          else True
      | _ \<Rightarrow> True)"

inductive gate_reach :: "(string \<Rightarrow> u32) \<Rightarrow> gate \<Rightarrow> bool" for queryname where
  init: "gate_init queryname listen gate_create (Some p) = (g, 0) \<Longrightarrow> gate_reach queryname g"
| step: "gate_reach queryname g \<Longrightarrow> gate_msg_ok g msg \<Longrightarrow> gate_cb queryname g source msg = Inr (g', r) \<Longrightarrow>
    gate_reach queryname g'"

lemma gate_cb_ok:
  assumes ok: "gate_ok g bss" "header_size_ok g hs" and msg: "gate_msg_ok g msg"
  shows "\<exists>g' r bss'. gate_cb queryname g source msg = Inr (g', r) \<and> gate_ok g' bss' \<and> header_size_ok g' hs"
proof (cases msg)
  case (Text_msg s)
  with gate_ctrl_ok [OF ok, of s queryname] msg show ?thesis by (auto simp: gate_cb_def gate_msg_ok_def)
next
  case (Client_msg b)
  with ok show ?thesis
    by (cases "hashid_index (g_hash g) (sint (client_uid (drop (length b - 4) b)))")
      (auto simp: gate_cb_def gate_lookup_ok Let_def)
next
  case (Socket_msg m sz)
  have "\<exists>g' bss'. dispatch_socket_message g m (sz - SIZEOF_SOCKET_MESSAGE) = Inr g' \<and> gate_ok g' bss' \<and> header_size_ok g' hs"
  proof (cases "sm_type m = SKYNET_SOCKET_TYPE_DATA")
    case True
    with on_data_ok [OF ok, of m] msg show ?thesis
      by (auto simp: Socket_msg gate_msg_ok_def dispatch_socket_message_def)
  next
    case False
    show ?thesis
    proof (cases "sm_type m = SKYNET_SOCKET_TYPE_ACCEPT")
      case True
      with on_accept_ok [OF ok, of m "sz - SIZEOF_SOCKET_MESSAGE"] msg show ?thesis
        by (auto simp: Socket_msg gate_msg_ok_def dispatch_socket_message_def socket_type_defs)
    next
      case other: False
      with False ok on_connect_ok [OF ok, of m] on_close_ok [OF ok, of m] show ?thesis
        by (auto simp: dispatch_socket_message_def)
    qed
  qed
  then show ?thesis by (auto simp: gate_cb_def Socket_msg)
next
  case Other_msg
  with ok show ?thesis by (auto simp: gate_cb_def)
qed

lemma gate_init_ok:
  assumes "gate_init queryname listen gate_create p = (g, 0)"
  shows "\<exists>bss hs. gate_ok g bss \<and> header_size_ok g hs"
proof -
  obtain n header watchdog binding tag m where
    scan: "sscanf_gate (the p) = (n, header, watchdog, binding, tag, m)" by (metis prod_cases6)
  let ?c = "connection_zero\<lparr>cn_id := -1\<rparr>" and ?hs = "if header = CHR ''S'' then 2 else 4 :: nat"
  let ?g = "\<lambda>w t. gate_create\<lparr>g_watchdog := w, g_hash := hashid_init (nat m), g_conn := replicate (nat m) ?c,
    g_max_connection := nat m, g_client_tag := t, g_header_size := int ?hs\<rparr>"
  from assms scan obtain w t where g: "start_listen listen (?g w t) binding = (g, 0)"
    by (auto simp: gate_init_def Let_def split: option.splits if_splits)
  then obtain l tr where g_eq: "g = (?g w t)\<lparr>g_listen_id := l, g_trace := tr\<rparr>"
    by (auto simp: start_listen_def Let_def call_def split: option.splits prod.splits if_splits)
  have "conns_rep messagepool_zero [] (replicate (nat m) ?c) (replicate (nat m) []) (replicate (nat m) [])"
    using db_rep_zero by (auto simp: conns_rep_def connection_zero_def databuffer_zero_def)
  then have "gate_rep g (replicate (nat m) [])" by (auto simp: gate_rep_def g_eq gate_create_def)
  moreover have "header_size_ok g ?hs" by (simp add: header_size_ok_def g_eq)
  ultimately show ?thesis
    using hashid_init_ok [of "nat m"] by (auto simp: gate_ok_def g_eq)
qed

lemma gate_reach_ok: "gate_reach queryname g \<Longrightarrow> \<exists>bss hs. gate_ok g bss \<and> header_size_ok g hs"
proof (induction rule: gate_reach.induct)
  case (step g msg source g' r)
  with gate_cb_ok [of g _ _ msg queryname source] show ?case by fastforce
qed (rule gate_init_ok)

section \<open>A gate with one connection\<close>

text \<open>A gate for two connections, started with a length of two or four bytes, with or without a watchdog.\<close>

definition demo_parm :: "char \<Rightarrow> char \<Rightarrow> string" where
  "demo_parm header watchdog = [header, CHR '' '', watchdog, CHR '' '', CHR ''8'', CHR '' '', CHR ''3'', CHR '' '', CHR ''2'']"

definition demo_gate :: "char \<Rightarrow> char \<Rightarrow> gate" where
  "demo_gate header watchdog = fst (gate_init (\<lambda>_. 9) (\<lambda>_ _ _. 3) gate_create (Some (demo_parm header watchdog)))"

lemma demo_gate_eq:
  assumes "header = CHR ''S'' \<or> header = CHR ''L''" "w = CHR ''!'' \<or> w = CHR ''w''"
  shows "gate_init (\<lambda>_. 9) (\<lambda>_ _ _. 3) gate_create (Some (demo_parm header w)) = (\<lparr>g_listen_id = 3,
     g_watchdog = (if w = CHR ''!'' then 0 else 9), g_broker = 0, g_client_tag = 3,
     g_header_size = (if header = CHR ''S'' then 2 else 4), g_max_connection = 2,
     g_hash = hashid_init 2, g_conn = replicate 2 (connection_zero\<lparr>cn_id := -1\<rparr>), g_mp = messagepool_zero,
     g_trace = [Socket_start 3]\<rparr>, 0)"
proof -
  have sp: "isspace (CHR '' '')" "\<not> isspace (CHR ''8'')" "\<not> isspace (CHR ''3'')" "\<not> isspace (CHR ''2'')" "\<not> isspace w"
    using assms(2) by (auto simp: isspace_def)
  have dg: "base_digit 10 (CHR ''8'') = Some 8" "base_digit 10 (CHR ''3'') = Some 3" "base_digit 10 (CHR ''2'') = Some 2"
    "base_digit 10 (CHR '' '') = None"
    by (simp_all add: base_digit_def digit_value_def byte_of_def)
  have num: "strtol ''8'' 10 = 8" "strtol ''3'' 10 = 3" "strtol ''2'' 10 = 2"
    using sp dg by (simp_all add: strtol_def parse_sign_def parse_magnitude_def)
  have word: "scan_word (CHR '' '' # w # CHR '' '' # r) = (Some [w], CHR '' '' # r)"
    "scan_word (CHR '' '' # CHR ''8'' # CHR '' '' # r) = (Some ''8'', CHR '' '' # r)" for r
    using sp by (simp_all add: scan_word_def)
  have int: "scan_int (CHR '' '' # CHR ''3'' # CHR '' '' # r) = Some (3, CHR '' '' # r)"
    "scan_int [CHR '' '', CHR ''2''] = Some (2, [])" for r
    using sp dg num by (simp_all add: scan_int_def)
  have scan: "sscanf_gate (demo_parm header w) = (5, header, [w], ''8'', 3, 2)"
    by (simp add: sscanf_gate_def demo_parm_def word int)
  have port: "split_last_colon ''8'' = None" by (simp add: split_last_colon_def)
  show ?thesis
    using assms by (auto simp: gate_init_def scan start_listen_def port num call_def gate_create_def char0_def PTYPE_CLIENT_def)
qed

definition demo_accept :: gate_msg where
  "demo_accept = Socket_msg \<lparr>sm_type = SKYNET_SOCKET_TYPE_ACCEPT, sm_id = 3, sm_ud = 7, sm_buffer = None, sm_pad = []\<rparr>
     SIZEOF_SOCKET_MESSAGE"

lemma demo_connected:
  assumes "header = CHR ''S'' \<or> header = CHR ''L''" "w = CHR ''!'' \<or> w = CHR ''w''"
  obtains g i where "gate_reach (\<lambda>_. 9) g" "hashid_lookup (g_hash g) 7 = Inr (int i)" "g_broker g = 0"
    "g_watchdog g = (if w = CHR ''!'' then 0 else 9)" "g_header_size g = (if header = CHR ''S'' then 2 else 4)"
    "cn_id (g_conn g ! i) = 7" "cn_agent (g_conn g ! i) = 0" "cn_buffer (g_conn g ! i) = databuffer_zero"
proof -
  let ?g = "demo_gate header w"
  have g: "?g = fst (gate_init (\<lambda>_. 9) (\<lambda>_ _ _. 3) gate_create (Some (demo_parm header w)))" by (simp add: demo_gate_def)
  note g = g [unfolded demo_gate_eq [OF assms] fst_conv]
  have reach: "gate_reach (\<lambda>_. 9) ?g"
    using demo_gate_eq [OF assms] by (intro gate_reach.init) (simp_all add: demo_gate_def)
  have ok: "gate_msg_ok ?g demo_accept"
    by (simp add: gate_msg_ok_def demo_accept_def socket_type_defs g hashid_init_ok)
  have free: "\<not> hashid_full (hashid_init 2)" by (simp add: hashid_full_def hashid_init_def Let_def)
  from hashid_insert_ok [OF hashid_init_ok(1) [THEN conjunct1] free, of 7] obtain hash i where
    ins: "hashid_insert (hashid_init 2) 7 = Inr (hash, int i)" "i < 2" "hashid_wf hash"
      "hashid_index hash = (hashid_index (hashid_init 2))(7 \<mapsto> i)" by (auto simp: hashid_init_ok)
  let ?c = "connection_zero\<lparr>cn_id := 7, cn_remote_name := 0 # drop (Suc 0) (replicate 32 0)\<rparr>"
  have "\<exists>t. gate_cb (\<lambda>_. 9) ?g 0 demo_accept = Inr ((set_conn i ?c (?g\<lparr>g_hash := hash\<rparr>))\<lparr>g_trace := t\<rparr>, 0)"
  proof -
    have "\<exists>t. on_accept ?g \<lparr>sm_type = SKYNET_SOCKET_TYPE_ACCEPT, sm_id = 3, sm_ud = 7, sm_buffer = None, sm_pad = []\<rparr> 0
        = Inr ((set_conn i ?c (?g\<lparr>g_hash := hash\<rparr>))\<lparr>g_trace := t\<rparr>)"
      using free ins(1,2) unfolding on_accept_def g
      by (simp add: bytes_of_def gate_report_def call_def set_conn_def connection_zero_def Let_def)
    then show ?thesis
      by (auto simp: gate_cb_def demo_accept_def dispatch_socket_message_def socket_type_defs)
  qed
  then obtain t where "gate_cb (\<lambda>_. 9) ?g 0 demo_accept = Inr ((set_conn i ?c (?g\<lparr>g_hash := hash\<rparr>))\<lparr>g_trace := t\<rparr>, 0)" ..
  from gate_reach.step [OF reach ok this] show ?thesis
    by (rule that [of _ i]) (use ins in \<open>simp_all add: set_conn_def g connection_zero_def hashid_lookup_ok\<close>)
qed

section \<open>Lengths that read as negative\<close>

lemma gate_ok_loop_returns:
  assumes "gate_ok g bss" "hashid_index (g_hash g) (sint fd) = Some i"
    and "gate_dispatch_message g i (sint fd) (Some b) (int (length b)) = Inr g'"
  shows "gate_feed queryname g fd (b # bs) = gate_feed queryname g' fd bs"
  using gate_cb_data [OF assms(1,2), of queryname b] assms(3) by simp

text \<open>With a negative length in the header every round ends at once, and the data is only kept.\<close>

lemma negative_feed:
  assumes "gate_ok g bss" "hashid_index (g_hash g) (sint fd) = Some i" "db_header (buf_at g i) < 0"
  shows "\<exists>g'. gate_feed queryname g fd bs = Inr g' \<and> g_trace g' = g_trace g
    \<and> db_size (buf_at g' i) = int (length (bss ! i) + length (concat bs))"
  using assms
proof (induction bs arbitrary: g bss)
  case Nil
  note at = gate_ok_index [OF Nil.prems(1,2)]
  from gate_rep_update [OF at(3,1)] have "db_size (buf_at g i) = int (length (bss ! i))" by blast
  then show ?case by simp
next
  case (Cons b bs)
  note at = gate_ok_index [OF Cons.prems(1,2)]
  have len: "i < length bss" using gate_rep_length [OF at(3)] at(1) by simp
  from gate_push_ok [OF at(3,1), of "sint fd" b] obtain db mp where
    push: "gate_dispatch_message g i (sint fd) (Some b) (int (length b))
        = loopE (gate_split_loop (with_buf i db mp g) i (sint fd))"
      "gate_rep (with_buf i db mp g) (bss[i := bss ! i @ b])" "db_header db = db_header (buf_at g i)" by blast
  let ?g = "with_buf i db mp g"
  have i: "i < length (g_conn ?g)" using at(1) by simp
  from gate_rep_update [OF push(2) i] have size: "db_size db = int (length (bss ! i @ b))"
    using at(1) len by (metis buf_at_with_buf nth_list_update_eq)
  have "databuffer_readheader (buf_at ?g i) (g_mp ?g) (g_header_size ?g) = Inr (db, mp, db_header db)"
    using Cons.prems(3) push(3) size at(1) by (simp add: readheader_old)
  from split_loop_cases(1) [OF i this] have "gate_split_loop ?g i (sint fd) = Some (Inr ?g)"
    using Cons.prems(3) push(3) at(1) by simp
  with push(1) have step: "gate_feed queryname g fd (b # bs) = gate_feed queryname ?g fd bs"
    using gate_ok_loop_returns [OF Cons.prems(1,2)] by simp
  have eq: "?g\<lparr>g_trace := g_trace g\<rparr> = ?g" by (simp add: with_buf_def set_conn_def)
  have "gate_ok ?g (bss[i := bss ! i @ b])" "g_hash ?g = g_hash g"
    using gate_ok_with_buf [OF Cons.prems(1) at(1) push(2), of "g_trace g"] eq by simp_all
  with Cons.IH [of ?g "bss[i := bss ! i @ b]"] Cons.prems(2,3) push(3) at(1) len step show ?case
    by (simp add: add.assoc)
qed

lemma wrap32_high: "2 ^ 31 \<le> x \<Longrightarrow> x < 2 ^ 32 \<Longrightarrow> wrap32 x = x - 2 ^ 32"
proof -
  assume x: "2 ^ 31 \<le> x" "x < 2 ^ 32"
  then have "(x + 2 ^ 31) mod 2 ^ 32 = x + 2 ^ 31 - 2 ^ 32" by (simp add: mod_pos_geq)
  then show ?thesis by (simp add: wrap32_def)
qed

section \<open>Properties\<close>



text \<open>C33: The packets of a connection are forwarded unchanged and in order. For a connection with nothing
  received yet and a service to send to, whatever pieces its stream arrives in, the calls that the
  gate makes are one send per non-empty packet of the stream, with the socket id as session and the
  packet as data (to the broker, the agent or the watchdog, in this order of preference), provided
  every length in the stream is below 16 MB.\<close>

theorem gate_forwards_packets:
  assumes "gate_reach queryname g" "hashid_lookup (g_hash g) (sint fd) = Inr (int i)" "0 < sint fd"
    and "g_broker g \<noteq> 0 \<or> cn_agent (g_conn g ! i) \<noteq> 0 \<or> g_watchdog g \<noteq> 0"
    and "db_size (cn_buffer (g_conn g ! i)) = 0" "db_header (cn_buffer (g_conn g ! i)) = 0"
    and "g_header_size g = int hs" "lengths_ok hs (concat pieces)"
  shows "\<exists>g'. gate_feed queryname g fd pieces = Inr g'
    \<and> g_trace g' = g_trace g @ map (forward_call g i) (fst (gate_packs hs (concat pieces)))"
proof -
  from gate_reach_ok [OF assms(1)] obtain bss hs' where ok: "gate_ok g bss" "header_size_ok g hs'" by blast
  then have hs: "header_size_ok g hs" using assms(7) by (simp add: header_size_ok_def)
  have idx: "hashid_index (g_hash g) (sint fd) = Some i"
    using assms(2) gate_lookup_ok [OF ok(1)] by (simp split: option.splits)
  note at = gate_ok_index [OF ok(1) idx]
  have "bss ! i = []" using gate_rep_update [OF at(3,1)] assms(5) by (metis buf_at_def length_0_conv of_nat_eq_0_iff)
  then have "conn_stream hs (db_header (buf_at g i)) (bss ! i) []" using assms(6) by (simp add: conn_stream_def buf_at_def)
  moreover have "fst (gate_packs hs []) = []" by (simp add: gate_packs.simps)
  moreover have "can_forward g i" using assms(3,4) at(2) by (simp add: can_forward_def)
  ultimately show ?thesis using gate_feed_ok [OF ok(1) idx hs, of "[]" pieces] assms(8) by simp
qed

theorem gate_forwards_packets_witness:
  "\<exists>g g'. gate_reach (\<lambda>_. 9) g \<and> gate_feed (\<lambda>_. 9) g 7 [[0], [2, 65], [66, 0, 0, 0, 1, 67, 0]] = Inr g'
    \<and> g_trace g' = g_trace g @ [Send 0 9 0x10000 7 (bytes ''7 data AB''), Send 0 9 0x10000 7 (bytes ''7 data C'')]"
proof -
  from demo_connected [of "CHR ''S''" "CHR ''w''"] obtain g i where
    g: "gate_reach (\<lambda>_. 9) g" "hashid_lookup (g_hash g) 7 = Inr (int i)" "g_broker g = 0" "g_watchdog g = 9"
      "g_header_size g = int 2" "cn_id (g_conn g ! i) = 7" "cn_agent (g_conn g ! i) = 0"
      "cn_buffer (g_conn g ! i) = databuffer_zero" by auto
  have packs: "gate_packs 2 (concat [[0], [2, 65], [66, 0, 0, 0, 1, 67, 0]]) = ([[65, 66], [67]], [0])"
    by (simp add: gate_packs.simps be_value_def)
  have "fmt_d 7 = ''7''" by (simp add: fmt_d_def number_digits.simps digit_lower_def char_of_def bit_Suc_0_iff)
  then have "map (forward_call g i) [[65, 66], [67]]
      = [Send 0 9 0x10000 7 (bytes ''7 data AB''), Send 0 9 0x10000 7 (bytes ''7 data C'')]"
    using g by (simp add: forward_call_def Let_def bytes_def PTYPE_TEXT_def PTYPE_TAG_DONTCOPY_def)
  with gate_forwards_packets [of "\<lambda>_. 9" g 7 i 2 "[[0], [2, 65], [66, 0, 0, 0, 1, 67, 0]]"] g packs
    lengths_ok_short show ?thesis by (auto simp: databuffer_zero_def)
qed

text \<open>The limit of 16 MB does not cover lengths from \<open>2 ^ 31\<close> on. With lengths of four bytes, such a
  length is computed as a negative \<^verbatim>\<open>int\<close>: the gate neither closes the connection nor reports an
  error, forwards nothing that comes after it, and keeps all of it in the connection's buffer.\<close>

theorem gate_huge_length_stalls:
  assumes "gate_reach queryname g" "hashid_lookup (g_hash g) (sint fd) = Inr (int i)" "g_header_size g = 4"
    and "db_size (cn_buffer (g_conn g ! i)) = 0" "db_header (cn_buffer (g_conn g ! i)) = 0"
    and "4 \<le> length piece" "be_value (take 4 piece) \<ge> 2 ^ 31"
  shows "\<exists>g'. gate_feed queryname g fd (piece # pieces) = Inr g' \<and> g_trace g' = g_trace g
    \<and> db_size (cn_buffer (g_conn g' ! i)) = int (length (concat (piece # pieces))) - 4"
proof -
  from gate_reach_ok [OF assms(1)] obtain bss hs where ok: "gate_ok g bss" "header_size_ok g hs" by blast
  then have hs: "hs = 4" using assms(3) by (auto simp: header_size_ok_def)
  have idx: "hashid_index (g_hash g) (sint fd) = Some i"
    using assms(2) gate_lookup_ok [OF ok(1)] by (simp split: option.splits)
  note at = gate_ok_index [OF ok(1) idx]
  have len: "i < length bss" using gate_rep_length [OF at(3)] at(1) by simp
  have nil: "bss ! i = []" using gate_rep_update [OF at(3,1)] assms(4) by (metis buf_at_def length_0_conv of_nat_eq_0_iff)
  from gate_push_ok [OF at(3,1), of "sint fd" piece] nil obtain db mp where
    push: "gate_dispatch_message g i (sint fd) (Some piece) (int (length piece))
        = loopE (gate_split_loop (with_buf i db mp g) i (sint fd))"
      "gate_rep (with_buf i db mp g) (bss[i := piece])" "db_header db = 0" using assms(5) by (auto simp: buf_at_def)
  let ?g = "with_buf i db mp g"
  from split_loop_header [OF push(2), of i hs "sint fd"] ok(2) at(1) len push(3) assms(6) hs obtain db1 mp1 where
    hdr: "gate_split_loop ?g i (sint fd) = gate_split_loop (with_buf i db1 mp1 g) i (sint fd)"
      "gate_rep (with_buf i db1 mp1 g) (bss[i := drop 4 piece])" "db_header db1 = length_value 4 (take 4 piece)" by auto
  have "be_value (take 4 piece) < 2 ^ 32" using be_value_bounds(2) [of "take 4 piece"] assms(6) by (simp add: min_absorb2)
  with assms(7) have neg: "db_header db1 < 0" by (simp add: hdr(3) length_value_def wrap32_high)
  let ?g1 = "with_buf i db1 mp1 g"
  have i1: "i < length (g_conn ?g1)" using at(1) by simp
  from gate_rep_update [OF hdr(2) i1] have size: "db_size db1 = int (length (drop 4 piece))"
    using at(1) len by (metis buf_at_with_buf nth_list_update_eq)
  have "databuffer_readheader (buf_at ?g1 i) (g_mp ?g1) (g_header_size ?g1) = Inr (db1, mp1, db_header db1)"
    using neg size at(1) by (simp add: readheader_old)
  from split_loop_cases(1) [OF i1 this neg] at(1) have "gate_split_loop ?g i (sint fd) = Some (Inr ?g1)"
    by (simp add: hdr(1))
  with push(1) have step: "gate_feed queryname g fd (piece # pieces) = gate_feed queryname ?g1 fd pieces"
    using gate_ok_loop_returns [OF ok(1) idx] by simp
  have eq: "?g1\<lparr>g_trace := g_trace g\<rparr> = ?g1" by (simp add: with_buf_def set_conn_def)
  have "gate_ok ?g1 (bss[i := drop 4 piece])" "g_hash ?g1 = g_hash g"
    using gate_ok_with_buf [OF ok(1) at(1) hdr(2), of "g_trace g"] eq by simp_all
  with negative_feed [of ?g1 "bss[i := drop 4 piece]" fd i queryname pieces] idx neg at(1) len obtain g' where
    "gate_feed queryname ?g1 fd pieces = Inr g'" "g_trace g' = g_trace g"
    "db_size (buf_at g' i) = int (length (drop 4 piece) + length (concat pieces))" by auto
  with step assms(6) show ?thesis by (auto simp: buf_at_def of_nat_diff)
qed

theorem gate_huge_length_stalls_witness:
  "\<exists>g g' i. gate_reach (\<lambda>_. 9) g \<and> gate_feed (\<lambda>_. 9) g 7 [[128, 0, 0, 0, 1], [2, 3]] = Inr g' \<and> g_trace g' = g_trace g
    \<and> db_size (cn_buffer (g_conn g' ! i)) = 3"
proof -
  from demo_connected [of "CHR ''L''" "CHR ''w''"] obtain g i where
    g: "gate_reach (\<lambda>_. 9) g" "hashid_lookup (g_hash g) 7 = Inr (int i)" "g_broker g = 0" "g_watchdog g = 9"
      "g_header_size g = 4" "cn_id (g_conn g ! i) = 7" "cn_agent (g_conn g ! i) = 0"
      "cn_buffer (g_conn g ! i) = databuffer_zero" by auto
  have "be_value (take 4 [128, 0, 0, 0, 1]) \<ge> 2 ^ 31" by (simp add: be_value_def)
  with gate_huge_length_stalls [of "\<lambda>_. 9" g 7 i "[128, 0, 0, 0, 1]" "[[2, 3]]"] g show ?thesis
    by (force simp: databuffer_zero_def)
qed

text \<open>While a connection has nobody to send to (no broker, no agent and no watchdog), a packet that
  arrives is not taken out of the buffer but its length is forgotten, so that its bytes are read as
  the lengths of further packets. After an agent has been set, the packets that follow are cut at the
  wrong places: here the packet with the byte 65 that arrives after a first packet is not forwarded.\<close>

theorem gate_no_target_desync:
  "\<exists>g i g1 g2 g3. gate_reach (\<lambda>_. 9) g \<and> g_header_size g = 2 \<and> cn_id (g_conn g ! i) = 7
    \<and> gate_feed (\<lambda>_. 9) g 7 [[0, 1, 0]] = Inr g1
    \<and> gate_forward_agent g1 7 11 12 = Inr g2 \<and> cn_agent (g_conn g2 ! i) = 11
    \<and> gate_feed (\<lambda>_. 9) g2 7 [[0, 1, 65]] = Inr g3 \<and> g_trace g3 = g_trace g
    \<and> fst (gate_packs 2 [0, 1, 65]) = [[65]]"
proof -
  from demo_connected [of "CHR ''S''" "CHR ''!''"] obtain g i where
    g: "gate_reach (\<lambda>_. 9) g" "hashid_lookup (g_hash g) 7 = Inr (int i)" "g_broker g = 0" "g_watchdog g = 0"
      "g_header_size g = 2" "cn_id (g_conn g ! i) = 7" "cn_agent (g_conn g ! i) = 0"
      "cn_buffer (g_conn g ! i) = databuffer_zero" by auto
  from gate_reach_ok [OF g(1)] obtain bss hs where ok: "gate_ok g bss" "header_size_ok g hs" by blast
  have hs: "header_size_ok g 2" using g(5) by (simp add: header_size_ok_def)
  have idx: "hashid_index (g_hash g) 7 = Some i" using g(2) gate_lookup_ok [OF ok(1)] by (simp split: option.splits)
  note at = gate_ok_index [OF ok(1) idx]
  have len: "i < length bss" using gate_rep_length [OF at(3)] at(1) by simp
  have nil: "bss ! i = []" using gate_rep_update [OF at(3,1)] g(8)
    by (metis buf_at_def databuffer.select_convs(3) databuffer_zero_def length_0_conv of_nat_eq_0_iff)
  let ?g = "\<lambda>db mp. with_buf i db mp g"
  have none: "\<not> can_forward g i" using g(3,4,7) by (simp add: can_forward_def)
  from gate_push_ok [OF at(3,1), of "sint (7 :: i32)" "[0, 1, 0]"] nil g(8) obtain db mp where
    a: "gate_dispatch_message g i (sint (7 :: i32)) (Some [0, 1, 0]) (int (length [0, 1, 0 :: u8]))
        = loopE (gate_split_loop (?g db mp) i (sint (7 :: i32)))"
      "gate_rep (?g db mp) (bss[i := [0, 1, 0]])" "db_header db = 0" by (auto simp: buf_at_def databuffer_zero_def)
  from split_loop_header [OF a(2), of i 2 "sint (7 :: i32)"] hs at(1) len a(3) obtain db1 mp1 where
    b: "gate_split_loop (?g db mp) i (sint (7 :: i32)) = gate_split_loop (?g db1 mp1) i (sint (7 :: i32))"
      "gate_rep (?g db1 mp1) (bss[i := [0]])" "db_header db1 = 1" by (auto simp: length_value_def be_value_def)
  have i1: "i < length (g_conn (?g x y))" for x y using at(1) by simp
  have size: "db_size db1 = 1"
    using gate_rep_update [OF b(2) i1] at(1) len
    by (metis buf_at_with_buf length_Cons list.size(3) nth_list_update_eq of_nat_1 One_nat_def)
  let ?db = "databuffer_reset db1"
  have c: "gate_split_loop (?g db1 mp1) i (sint (7 :: i32)) = gate_split_loop (?g ?db mp1) i (sint (7 :: i32))"
    using split_loop_no_target [OF i1, of db1 mp1] none b(3) size at(1) by simp
  have "databuffer_readheader (buf_at (?g ?db mp1) i) (g_mp (?g ?db mp1)) (g_header_size (?g ?db mp1)) = Inr (?db, mp1, -1)"
    using size at(1) g(5) by (simp add: readheader_short databuffer_reset_def)
  from split_loop_cases(1) [OF i1 this] at(1)
  have feed1: "gate_feed (\<lambda>_. 9) g 7 [[0, 1, 0]] = Inr (?g ?db mp1)"
    using gate_ok_loop_returns [OF ok(1), of 7 i "[0, 1, 0]" "?g ?db mp1" "\<lambda>_. 9" "[]"] a(1) b(1) c idx by simp
  have rep1: "gate_rep (?g ?db mp1) (bss[i := [0]])" using b(2) by (simp add: databuffer_reset_def)
  have "(?g ?db mp1)\<lparr>g_trace := g_trace g\<rparr> = ?g ?db mp1" by (simp add: with_buf_def set_conn_def)
  with gate_ok_with_buf [OF ok(1) at(1) rep1, of "g_trace g"]
  have ok1: "gate_ok (?g ?db mp1) (bss[i := [0]])" "g_hash (?g ?db mp1) = g_hash g" by simp_all
  let ?g1 = "?g ?db mp1"
  let ?g2 = "set_conn i ((g_conn ?g1 ! i)\<lparr>cn_agent := 11, cn_client := 12\<rparr>) ?g1"
  have idx1: "hashid_index (g_hash ?g1) 7 = Some i" using idx ok1(2) by simp
  have agent: "gate_forward_agent ?g1 7 11 12 = Inr ?g2"
    using gate_lookup_ok [OF ok1(1), of 7] idx1 i1 by (simp add: gate_forward_agent_def nthE_def)
  with forward_agent_ok [OF ok1(1), of 2 7 11 12] hs have ok2: "gate_ok ?g2 (bss[i := [0]])" "header_size_ok ?g2 2" by auto
  have g2: "can_forward ?g2 i" "hashid_index (g_hash ?g2) (sint (7 :: i32)) = Some i" "g_trace ?g2 = g_trace g"
    "buf_at ?g2 i = ?db" "cn_agent (g_conn ?g2 ! i) = 11"
    using at(1,2) idx by (auto simp: can_forward_def set_conn_def with_buf_def buf_at_def)
  have stream: "conn_stream 2 (db_header (buf_at ?g2 i)) (bss[i := [0]] ! i) [0]"
    using len g2(4) by (simp add: conn_stream_def databuffer_reset_def)
  have packs: "fst (gate_packs 2 [0]) = []" "fst (gate_packs 2 ([0] @ concat [[0, 1, 65]])) = []" "fst (gate_packs 2 [0, 1, 65]) = [[65]]"
    by (simp_all add: gate_packs.simps be_value_def)
  from gate_feed_ok [OF ok2(1) g2(2) ok2(2) g2(1) stream packs(1) lengths_ok_short, of "\<lambda>_. 9" "[[0, 1, 65]]"] obtain g3 where
    "gate_feed (\<lambda>_. 9) ?g2 7 [[0, 1, 65]] = Inr g3" "g_trace g3 = g_trace g" using packs(2) g2(3) by auto
  with g(1,5,6) feed1 agent g2(5) packs(3) show ?thesis by blast
qed

end
