(* ===== verification/Socket_Faults.thy ===== *)
theory Socket_Faults
  imports Socket_Safety
begin

text \<open>
  Runs of the socket server that the conditions of theory \<open>Socket_Safety\<close> exclude, or after which a
  socket is not closed. Each is a sequence of calls of workers and rounds of the socket thread from the
  creation of the server, with an operating system given as a function.
\<close>

section \<open>Steps\<close>

datatype step = Do_connect | Do_udp | Do_udp_connect int | Do_send int "u8 list" | Do_close int | Do_round

definition run_step :: "oscall \<Rightarrow> step \<Rightarrow> socket_server \<Rightarrow> socket_server res" where
  "run_step os st ss =
     (case st of
        Do_connect \<Rightarrow> Inr (fst (socket_server_connect os 7 ''host'' 80 ss))
      | Do_udp \<Rightarrow> Inr (fst (socket_server_udp os 7 None 0 ss))
      | Do_udp_connect i \<Rightarrow> bindE (socket_server_udp_connect os i ''host'' 80 ss) (\<lambda>(ss, n). Inr ss)
      | Do_send i bs \<Rightarrow> bindE (socket_server_send os \<lparr>sb_id = i, sb_type = SOCKET_BUFFER_MEMORY, sb_inner = False, sb_bytes = bs\<rparr> ss)
          (\<lambda>(ss, n). Inr ss)
      | Do_close i \<Rightarrow> Inr (socket_server_close 7 i ss)
      | Do_round \<Rightarrow> bindE (poll_round os ss) (\<lambda>(ss, r, w). Inr ss))"

fun run_steps :: "oscall \<Rightarrow> step list \<Rightarrow> socket_server \<Rightarrow> socket_server res" where
  "run_steps os [] ss = Inr ss"
| "run_steps os (st # sts) ss = bindE (run_step os st ss) (run_steps os sts)"

definition answer :: "int \<Rightarrow> errno \<Rightarrow> sysret" where
  "answer n e = \<lparr>sr_n = n, sr_fd = 3, sr_errno = e, sr_data = [], sr_addr = [], sr_text = None, sr_events = [],
     sr_addrs = [], sr_sockerr = None\<rparr>"

text \<open>
  One descriptor, 5; names resolve to one address; connections succeed at once. The first byte of a
  message of three is written, other data as a whole. UDP data is not sent at first. Slot 1 becomes
  writable.
\<close>

definition slow_os :: oscall where
  "slow_os io c =
     (case c of
        Sys_getaddrinfo host port tcp \<Rightarrow> (answer 0 EAGAIN)\<lparr>sr_addrs := [(AF_INET, [0, 80, 127, 0, 0, 1])]\<rparr>
      | Sys_socket fam tcp \<Rightarrow> answer 5 EAGAIN
      | Sys_write fd d \<Rightarrow> answer (if length d = 3 then 1 else int (length d)) EAGAIN
      | Sys_sendto fd d sa \<Rightarrow> answer (-1) EAGAIN
      | Sp_wait \<Rightarrow> (answer 1 EAGAIN)\<lparr>sr_events := [\<lparr>e_s = Some 1, e_read = False, e_write = True, e_error = False, e_eof = False\<rparr>]\<rparr>
      | _ \<Rightarrow> answer 0 EAGAIN)"

definition slow_server :: socket_server where
  "slow_server = the (projr (socket_server_create slow_os (\<lambda>_. blank_socket) 0))"

lemmas run_defs = run_step_def slow_os_def answer_def sys_def do_sys_def set_slot_def upd_slot_def set_type_def Let_def

lemma slow_server_eq: "slow_server = \<lparr>ss_time = 0, ss_checkctrl = True, ss_alloc_id = 0, ss_event_n = 0, ss_event_index = 0,
   ss_soi = False, ss_ev = [], ss_slot = (\<lambda>i. blank_socket), ss_pipe = [],
   ss_io = [(Sp_create, answer 0 EAGAIN), (Sys_pipe, answer 0 EAGAIN), (Sp_add 3 None, answer 0 EAGAIN)], ss_freed = []\<rparr>"
  by (simp add: slow_server_def socket_server_create_def run_defs FD_SETSIZE_def blank_socket_def)

lemma next_id0: "next_id 0 = (1, 1)" by (simp add: next_id_def)

lemma slot1 [simp]: "HASH_ID 1 = 1" "ID_TAG16 1 = 0" by (simp_all add: HASH_ID_def ID_TAG16_def MAX_SOCKET_def)

lemmas step_defs = run_step_def slow_os_def answer_def sys_def do_sys_def set_slot_def upd_slot_def set_type_def Let_def
  slow_server_eq blank_socket_def next_id0 MAX_SOCKET_def FD_SETSIZE_def

lemmas request_defs = socket_server_connect_def open_request_def reserve_id_def reserve_loop.simps [of 0] send_request_def
  socket_server_send_def socket_invalid_def can_direct_write_def send_by_pipe_def inc_sending_ref_def clone_buffer_def
  socket_server_close_def

lemmas round_defs = poll_round_def has_cmd_def ctrl_cmd_def run_request_def open_socket_def connect_loop.simps new_fd_def
  clear_closed_event_def socket_keepalive_def check_wb_list_def clear_wb_list_def enable_read_def

lemmas send_defs = send_socket_def send_warning_def append_sendbuffer_def append_sendbuffer_to_def send_object_init_def
  enable_write_def get_list_def set_list_def dec_sending_ref_def send_buffer_empty_def trigger_write_def free_payload_def free_buffer_def
  WARNING_SIZE_def send_object_init_from_sendbuffer_def

lemmas event_defs = dispatch_event_def on_event_def send_buffer_def take_direct_def socket_trylock_def socket_lock_def socket_unlock_def
  send_buffer_locked_def list_uncomplete_def wb_moved_def send_list_def send_list_tcp_def send_list_udp_def send_tcp_loop.simps
  send_udp_loop.simps write_retry.simps wb_data_def payload_bytes_def write_buffer_free_def stat_write_def send_done_def
  only_err_def nomore_sending_data_def close_socket_def halfclose_read_def close_read_def report_error_def raise_uncomplete_def
  socket_server_udp_def socket_server_udp_connect_def add_udp_socket_def set_udp_address_def gen_udp_address_def
  udp_socket_address_def protocol_byte_def again_def

section \<open>Faults\<close>

text \<open>A message sent to a socket whose connection the socket thread has not opened yet stops the
  server: the socket is reserved and its protocol unknown, so \<^verbatim>\<open>inc_sending_ref\<close> counts nothing, and when
  the thread has opened the connection and handles the message, the assertion of \<^verbatim>\<open>dec_sending_ref\<close> that the
  count is positive fails.\<close>

theorem send_before_open_asserts:
  "run_steps slow_os [Do_connect, Do_send 1 [10], Do_round, Do_round] slow_server = Inl Assert_Failed"
  by (simp add: step_defs request_defs round_defs send_defs)


text \<open>A direct send on a connected UDP socket whose datagram the system does not take at once makes
  the socket thread read past the end of a buffer: \<^verbatim>\<open>send_buffer\<close> queues the datagram in a buffer of
  \<^verbatim>\<open>SIZEOF_TCPBUFFER\<close> bytes, which has no address, and \<^verbatim>\<open>send_list_udp\<close> reads the address behind it.\<close>

theorem udp_direct_send_overread:
  "run_steps slow_os [Do_udp, Do_round, Do_udp_connect 1, Do_round, Do_send 1 [10, 20], Do_round, Do_round] slow_server = Inl Out_Of_Bounds"
  by (simp add: step_defs request_defs round_defs send_defs event_defs)

end
