(* ===== verification/Lua_Seri.thy ===== *)
theory Lua_Seri
  imports Linked_Chain "HOL-Library.AList"
begin

unbundle bit_operations_syntax

text \<open>
  \<^verbatim>\<open>lualib-src/lua-seri.c\<close>: the serializer for the values that services send to each other. Values are
  written into a chain of blocks of 128 bytes, which is then copied into one buffer; the reader takes
  a buffer of any bytes. Shown are that the chain holds what was pushed, that the reader returns on
  every input and reads only inside the buffer, and that it gives back the values that were written.
\<close>

type_synonym i64 = "64 word"

section \<open>Values\<close>

text \<open>
  A Lua value: numbers as 64-bit words (a float by its bits), light userdata by its address, a table by
  its entries in the order of \<^verbatim>\<open>lua_next\<close>, a table with a metamethod \<^verbatim>\<open>__pairs\<close> by the pairs that its
  iterator yields, and values of the other types by the name of the type. Tables that contain each other
  are their unfolding; the writer refuses them by depth.
\<close>

datatype lval = Lua_nil | Boolean bool | Integer i64 | Number u64 | String "u8 list" | Lightuserdata u64
  | Table "(lval \<times> lval) list" | Metapairs "(lval \<times> lval) list" | Unsupported string

text \<open>
  What the code takes from Lua: \<^verbatim>\<open>lua_rawlen\<close>, and the key that a float is stored under (None for NaN,
  the integer for a float with an integer value).
\<close>

record lua =
  rawlen :: "(lval \<times> lval) list \<Rightarrow> nat"
  float_key :: "u64 \<Rightarrow> lval option"

definition rawget :: "(lval \<times> lval) list \<Rightarrow> lval \<Rightarrow> lval" where
  "rawget es k = (case map_of es k of None \<Rightarrow> Lua_nil | Some v \<Rightarrow> v)"

text \<open>Setting a field: a key that is a table read just now is a new object.\<close>

definition fresh_key :: "lval \<Rightarrow> bool" where
  "fresh_key k = (case k of Table _ \<Rightarrow> True | Metapairs _ \<Rightarrow> True | _ \<Rightarrow> False)"

definition set_field :: "(lval \<times> lval) list \<Rightarrow> lval \<Rightarrow> lval \<Rightarrow> (lval \<times> lval) list" where
  "set_field es k v = (if v = Lua_nil then filter (\<lambda>e. fst e \<noteq> k \<or> fresh_key k) es
     else if fresh_key k then es @ [(k, v)] else AList.update k v es)"

definition lua_rawset :: "lua \<Rightarrow> (lval \<times> lval) list \<Rightarrow> lval \<Rightarrow> lval \<Rightarrow> (lval \<times> lval) list res" where
  "lua_rawset L es k v =
     (case k of
        Lua_nil \<Rightarrow> Inl (Lua_Error ''table index is nil'')
      | Number d \<Rightarrow> (case float_key L d of None \<Rightarrow> Inl (Lua_Error ''table index is NaN'') | Some k' \<Rightarrow> Inr (set_field es k' v))
      | _ \<Rightarrow> Inr (set_field es k v))"

section \<open>Constants\<close>

definition TYPE_NIL :: u8 where "TYPE_NIL = 0"
definition TYPE_BOOLEAN :: u8 where "TYPE_BOOLEAN = 1"
definition TYPE_NUMBER :: u8 where "TYPE_NUMBER = 2"
definition TYPE_NUMBER_ZERO :: int where "TYPE_NUMBER_ZERO = 0"
definition TYPE_NUMBER_BYTE :: int where "TYPE_NUMBER_BYTE = 1"
definition TYPE_NUMBER_WORD :: int where "TYPE_NUMBER_WORD = 2"
definition TYPE_NUMBER_DWORD :: int where "TYPE_NUMBER_DWORD = 4"
definition TYPE_NUMBER_QWORD :: int where "TYPE_NUMBER_QWORD = 6"
definition TYPE_NUMBER_REAL :: int where "TYPE_NUMBER_REAL = 8"
definition TYPE_USERDATA :: u8 where "TYPE_USERDATA = 3"
definition TYPE_SHORT_STRING :: u8 where "TYPE_SHORT_STRING = 4"
definition TYPE_LONG_STRING :: u8 where "TYPE_LONG_STRING = 5"
definition TYPE_TABLE :: u8 where "TYPE_TABLE = 6"
definition MAX_COOKIE :: int where "MAX_COOKIE = 32"
definition BLOCK_SIZE :: nat where "BLOCK_SIZE = 128"
definition MAX_DEPTH :: nat where "MAX_DEPTH = 32"

definition COMBINE_TYPE :: "u8 \<Rightarrow> int \<Rightarrow> u8" where
  "COMBINE_TYPE t v = t OR push_bit 3 (word_of_int v)"

lemmas type_defs = TYPE_NIL_def TYPE_BOOLEAN_def TYPE_NUMBER_def TYPE_NUMBER_ZERO_def TYPE_NUMBER_BYTE_def
  TYPE_NUMBER_WORD_def TYPE_NUMBER_DWORD_def TYPE_NUMBER_QWORD_def TYPE_NUMBER_REAL_def TYPE_USERDATA_def
  TYPE_SHORT_STRING_def TYPE_LONG_STRING_def TYPE_TABLE_def MAX_COOKIE_def

text \<open>The bytes of a word as they are copied, the lowest first.\<close>

definition le_bytes :: "nat \<Rightarrow> 'a::len word \<Rightarrow> u8 list" where
  "le_bytes n w = map (\<lambda>i. ucast (drop_bit (8 * i) w)) [0..<n]"

fun le_word :: "u8 list \<Rightarrow> 'a::len word" where
  "le_word [] = 0"
| "le_word (b # bs) = ucast b OR push_bit 8 (le_word bs)"

section \<open>Writing\<close>

text \<open>
  The counters of bytes are natural numbers: a message stays below 2 GB, where the code's \<^verbatim>\<open>int\<close> is exact.
  The length of one string is cut to an \<^verbatim>\<open>int\<close> before it is counted, as in the code.
\<close>

text \<open>
  The blocks from \<^verbatim>\<open>head\<close> to \<^verbatim>\<open>current\<close>, which is the last one. \<open>blank\<close> is what a new block contains.
\<close>

record write_block =
  wb_blocks :: "u8 list list"
  wb_len :: nat
  wb_ptr :: nat

definition blank :: "u8 list" where "blank = replicate 128 0"

definition blk_alloc :: "write_block \<Rightarrow> write_block" where
  "blk_alloc b = b\<lparr>wb_blocks := wb_blocks b @ [blank], wb_ptr := 0\<rparr>"

text \<open>Copying to the place \<^verbatim>\<open>ptr\<close> of the current block.\<close>

definition blk_copy :: "u8 list \<Rightarrow> write_block \<Rightarrow> write_block" where
  "blk_copy bs b = b\<lparr>wb_blocks := butlast (wb_blocks b) @
     [take (wb_ptr b) (last (wb_blocks b)) @ bs @ drop (wb_ptr b + length bs) (last (wb_blocks b))],
     wb_ptr := wb_ptr b + length bs, wb_len := wb_len b + length bs\<rparr>"

function wb_push_again :: "u8 list \<Rightarrow> write_block \<Rightarrow> write_block" where
  "wb_push_again buffer b =
     (let b = blk_alloc b in
      if length buffer \<le> BLOCK_SIZE then blk_copy buffer b
      else wb_push_again (drop BLOCK_SIZE buffer) (blk_copy (take BLOCK_SIZE buffer) b))"
  by pat_completeness auto
termination
  by (relation "measure (\<lambda>(buffer, b). length buffer)") (auto simp: BLOCK_SIZE_def)

declare wb_push_again.simps [simp del]

definition wb_push :: "u8 list \<Rightarrow> write_block \<Rightarrow> write_block" where
  "wb_push buffer b =
     (if wb_ptr b = BLOCK_SIZE then wb_push_again buffer b
      else if wb_ptr b + length buffer \<le> BLOCK_SIZE then blk_copy buffer b
      else let copy = BLOCK_SIZE - wb_ptr b in wb_push_again (drop copy buffer) (blk_copy (take copy buffer) b))"

definition wb_init :: write_block where
  "wb_init = \<lparr>wb_blocks = [blank], wb_len = 0, wb_ptr = 0\<rparr>"

definition wb_nil :: "write_block \<Rightarrow> write_block" where
  "wb_nil wb = wb_push [TYPE_NIL] wb"

definition wb_boolean :: "bool \<Rightarrow> write_block \<Rightarrow> write_block" where
  "wb_boolean b wb = wb_push [COMBINE_TYPE TYPE_BOOLEAN (if b then 1 else 0)] wb"

definition wb_integer :: "i64 \<Rightarrow> write_block \<Rightarrow> write_block" where
  "wb_integer v wb =
     (if v = 0 then wb_push [COMBINE_TYPE TYPE_NUMBER TYPE_NUMBER_ZERO] wb
      else if v \<noteq> scast (ucast v :: i32)
      then wb_push (le_bytes 8 v) (wb_push [COMBINE_TYPE TYPE_NUMBER TYPE_NUMBER_QWORD] wb)
      else if sint v < 0
      then wb_push (le_bytes 4 (ucast v :: i32)) (wb_push [COMBINE_TYPE TYPE_NUMBER TYPE_NUMBER_DWORD] wb)
      else if sint v < 0x100
      then wb_push [ucast v] (wb_push [COMBINE_TYPE TYPE_NUMBER TYPE_NUMBER_BYTE] wb)
      else if sint v < 0x10000
      then wb_push (le_bytes 2 (ucast v :: 16 word)) (wb_push [COMBINE_TYPE TYPE_NUMBER TYPE_NUMBER_WORD] wb)
      else wb_push (le_bytes 4 (ucast v :: u32)) (wb_push [COMBINE_TYPE TYPE_NUMBER TYPE_NUMBER_DWORD] wb))"

definition wb_real :: "u64 \<Rightarrow> write_block \<Rightarrow> write_block" where
  "wb_real v wb = wb_push (le_bytes 8 v) (wb_push [COMBINE_TYPE TYPE_NUMBER TYPE_NUMBER_REAL] wb)"

definition wb_pointer :: "u64 \<Rightarrow> write_block \<Rightarrow> write_block" where
  "wb_pointer v wb = wb_push (le_bytes 8 v) (wb_push [TYPE_USERDATA] wb)"

text \<open>The length is a C \<^verbatim>\<open>int\<close>.\<close>

definition wb_string :: "u8 list \<Rightarrow> write_block \<Rightarrow> write_block" where
  "wb_string str wb =
     (let len = wrap32 (int (length str)) in
      if len < MAX_COOKIE then
        let wb = wb_push [COMBINE_TYPE TYPE_SHORT_STRING len] wb in if len > 0 then wb_push str wb else wb
      else
        let wb = (if len < 0x10000
              then wb_push (le_bytes 2 (word_of_int len :: 16 word)) (wb_push [COMBINE_TYPE TYPE_LONG_STRING 2] wb)
              else wb_push (le_bytes 4 (word_of_int len :: u32)) (wb_push [COMBINE_TYPE TYPE_LONG_STRING 4] wb))
        in wb_push str wb)"

text \<open>The byte, and the number if there are too many elements for it, before the elements of an array.\<close>

definition wb_array_size :: "nat \<Rightarrow> write_block \<Rightarrow> write_block" where
  "wb_array_size n wb =
     (if int n \<ge> MAX_COOKIE - 1
      then wb_integer (of_nat n) (wb_push [COMBINE_TYPE TYPE_TABLE (MAX_COOKIE - 1)] wb)
      else wb_push [COMBINE_TYPE TYPE_TABLE (int n)] wb)"

definition array_values :: "lua \<Rightarrow> (lval \<times> lval) list \<Rightarrow> lval list" where
  "array_values L es = map (\<lambda>i. rawget es (Integer (of_nat i))) [1..<Suc (rawlen L es)]"

text \<open>A key that the array part has written.\<close>

definition in_array :: "nat \<Rightarrow> lval \<Rightarrow> bool" where
  "in_array n k = (case k of Integer x \<Rightarrow> sint x > 0 \<and> sint x \<le> int n | _ \<Rightarrow> False)"

function pack_one :: "lua \<Rightarrow> nat \<Rightarrow> lval \<Rightarrow> write_block \<Rightarrow> write_block res"
  and wb_elements :: "lua \<Rightarrow> nat \<Rightarrow> lval list \<Rightarrow> write_block \<Rightarrow> write_block res"
  and wb_pairs :: "lua \<Rightarrow> nat \<Rightarrow> nat \<Rightarrow> (lval \<times> lval) list \<Rightarrow> write_block \<Rightarrow> write_block res" where
  "pack_one L depth v b =
     (if depth > MAX_DEPTH then Inl (Lua_Error ''serialize can't pack too depth table'')
      else case v of
          Lua_nil \<Rightarrow> Inr (wb_nil b)
        | Boolean x \<Rightarrow> Inr (wb_boolean x b)
        | Integer x \<Rightarrow> Inr (wb_integer x b)
        | Number x \<Rightarrow> Inr (wb_real x b)
        | String str \<Rightarrow> Inr (wb_string str b)
        | Lightuserdata p \<Rightarrow> Inr (wb_pointer p b)
        | Table es \<Rightarrow>
            bindE (wb_elements L (depth + 1) (array_values L es) (wb_array_size (rawlen L es) b)) (\<lambda>b.
            wb_pairs L (depth + 1) (rawlen L es) es b)
        | Metapairs ps \<Rightarrow> wb_pairs L (depth + 1) 0 (takeWhile (\<lambda>p. fst p \<noteq> Lua_nil) ps) (wb_push [COMBINE_TYPE TYPE_TABLE 0] b)
        | Unsupported t \<Rightarrow> Inl (Lua_Error (''Unsupport type '' @ t @ '' to serialize'')))"
| "wb_elements L depth [] b = Inr b"
| "wb_elements L depth (v # vs) b = bindE (pack_one L depth v b) (wb_elements L depth vs)"
| "wb_pairs L depth n [] b = Inr (wb_nil b)"
| "wb_pairs L depth n ((k, v) # es) b =
     (if in_array n k then wb_pairs L depth n es b
      else bindE (pack_one L depth k b) (\<lambda>b. bindE (pack_one L depth v b) (wb_pairs L depth n es)))"
  by pat_completeness auto
termination
  by (relation "measures [\<lambda>x. case x of Inl (L, d, _) \<Rightarrow> MAX_DEPTH + 1 - d
        | Inr (Inl (L, d, _)) \<Rightarrow> MAX_DEPTH + 1 - d | Inr (Inr (L, d, _)) \<Rightarrow> MAX_DEPTH + 1 - d,
      \<lambda>x. case x of Inl _ \<Rightarrow> 0 | Inr (Inl (_, _, vs, _)) \<Rightarrow> Suc (length vs) | Inr (Inr (_, _, _, es, _)) \<Rightarrow> Suc (length es)]")
    (auto simp: MAX_DEPTH_def)

declare pack_one.simps [simp del]

text \<open>\<^verbatim>\<open>pack_from\<close>: the arguments one after the other.\<close>

definition pack_from :: "lua \<Rightarrow> lval list \<Rightarrow> write_block \<Rightarrow> write_block res" where
  "pack_from L vs b = wb_elements L 0 vs b"

text \<open>Copying the blocks; a missing block would be NULL.\<close>

fun seri :: "u8 list list \<Rightarrow> nat \<Rightarrow> u8 list res" where
  "seri [] len = (if len > 0 then Inl Null_Deref else Inr [])"
| "seri (b # bs) len =
     (if len \<ge> BLOCK_SIZE then bindE (seri bs (len - BLOCK_SIZE)) (\<lambda>rest. Inr (take BLOCK_SIZE b @ rest))
      else Inr (take len b))"

definition luaseri_pack :: "lua \<Rightarrow> lval list \<Rightarrow> u8 list res" where
  "luaseri_pack L vs = bindE (pack_from L vs wb_init) (\<lambda>wb. seri (wb_blocks wb) (wb_len wb))"

section \<open>Reading\<close>

record read_block =
  rb_buffer :: "u8 list"
  rb_len :: int
  rb_ptr :: int

definition rball_init :: "u8 list \<Rightarrow> read_block" where
  "rball_init buffer = \<lparr>rb_buffer = buffer, rb_len = int (length buffer), rb_ptr = 0\<rparr>"

text \<open>The new state and the offset of the bytes, or None for NULL.\<close>

definition rb_read :: "read_block \<Rightarrow> int \<Rightarrow> (read_block \<times> int) option" where
  "rb_read rb sz = (if rb_len rb < sz then None
     else Some (rb\<lparr>rb_ptr := rb_ptr rb + sz, rb_len := rb_len rb - sz\<rparr>, rb_ptr rb))"

text \<open>The error, without the two numbers that the code puts behind it.\<close>

definition invalid_stream :: "'a res" where
  "invalid_stream = Inl (Lua_Error ''Invalid serialize stream'')"

text \<open>The bytes at an offset of the buffer.\<close>

definition bytes_at :: "u8 list \<Rightarrow> int \<Rightarrow> int \<Rightarrow> u8 list res" where
  "bytes_at buffer p sz =
     (if 0 \<le> p \<and> 0 \<le> sz \<and> p + sz \<le> int (length buffer) then Inr (take (nat sz) (drop (nat p) buffer)) else Inl Out_Of_Bounds)"

definition rb_bytes :: "read_block \<Rightarrow> int \<Rightarrow> (read_block \<times> u8 list) res" where
  "rb_bytes rb sz = (case rb_read rb sz of None \<Rightarrow> invalid_stream
     | Some (rb, p) \<Rightarrow> bindE (bytes_at (rb_buffer rb) p sz) (\<lambda>bs. Inr (rb, bs)))"

definition get_integer :: "read_block \<Rightarrow> int \<Rightarrow> (read_block \<times> i64) res" where
  "get_integer rb cookie =
     (if cookie = TYPE_NUMBER_ZERO then Inr (rb, 0)
      else if cookie = TYPE_NUMBER_BYTE then bindE (rb_bytes rb 1) (\<lambda>(rb, bs). Inr (rb, le_word bs))
      else if cookie = TYPE_NUMBER_WORD then bindE (rb_bytes rb 2) (\<lambda>(rb, bs). Inr (rb, le_word bs))
      else if cookie = TYPE_NUMBER_DWORD then bindE (rb_bytes rb 4) (\<lambda>(rb, bs). Inr (rb, scast (le_word bs :: i32)))
      else if cookie = TYPE_NUMBER_QWORD then bindE (rb_bytes rb 8) (\<lambda>(rb, bs). Inr (rb, le_word bs))
      else invalid_stream)"

definition get_real :: "read_block \<Rightarrow> (read_block \<times> u64) res" where
  "get_real rb = bindE (rb_bytes rb 8) (\<lambda>(rb, bs). Inr (rb, le_word bs))"

definition get_pointer :: "read_block \<Rightarrow> (read_block \<times> u64) res" where
  "get_pointer rb = bindE (rb_bytes rb 8) (\<lambda>(rb, bs). Inr (rb, le_word bs))"

text \<open>
  A negative length passes the check of \<^verbatim>\<open>rb_read\<close>; as the size of a string it is beyond the limit of
  \<^verbatim>\<open>lua_pushlstring\<close>, which raises an error before it reads.
\<close>

definition get_buffer :: "read_block \<Rightarrow> int \<Rightarrow> (read_block \<times> lval) res" where
  "get_buffer rb len = (case rb_read rb len of None \<Rightarrow> invalid_stream
     | Some (rb, p) \<Rightarrow> if len < 0 then Inl (Lua_Error ''memory allocation error: block too big'')
         else bindE (bytes_at (rb_buffer rb) p len) (\<lambda>bs. Inr (rb, String bs)))"

text \<open>The values that are not tables.\<close>

definition push_value :: "read_block \<Rightarrow> u8 \<Rightarrow> int \<Rightarrow> (read_block \<times> lval) res" where
  "push_value rb type cookie =
     (if type = TYPE_NIL then Inr (rb, Lua_nil)
      else if type = TYPE_BOOLEAN then Inr (rb, Boolean (cookie \<noteq> 0))
      else if type = TYPE_NUMBER then
        if cookie = TYPE_NUMBER_REAL then bindE (get_real rb) (\<lambda>(rb, x). Inr (rb, Number x))
        else bindE (get_integer rb cookie) (\<lambda>(rb, x). Inr (rb, Integer x))
      else if type = TYPE_USERDATA then bindE (get_pointer rb) (\<lambda>(rb, p). Inr (rb, Lightuserdata p))
      else if type = TYPE_SHORT_STRING then get_buffer rb cookie
      else if type = TYPE_LONG_STRING then
        if cookie = 2 then bindE (rb_bytes rb 2) (\<lambda>(rb, bs). get_buffer rb (uint (le_word bs :: 16 word)))
        else if cookie = 4 then bindE (rb_bytes rb 4) (\<lambda>(rb, bs). get_buffer rb (wrap32 (uint (le_word bs :: u32))))
        else invalid_stream
      else invalid_stream)"

text \<open>The number of elements at the start of \<^verbatim>\<open>unpack_table\<close>, a C \<^verbatim>\<open>int\<close>.\<close>

definition array_size :: "read_block \<Rightarrow> int \<Rightarrow> (read_block \<times> int) res" where
  "array_size rb cookie =
     (if cookie = MAX_COOKIE - 1 then
        bindE (rb_bytes rb 1) (\<lambda>(rb, bs). bindE (nthE bs 0) (\<lambda>type.
        let cookie = uint (drop_bit 3 type) in
        if type AND 7 \<noteq> TYPE_NUMBER \<or> cookie = TYPE_NUMBER_REAL then invalid_stream
        else bindE (get_integer rb cookie) (\<lambda>(rb, x). Inr (rb, wrap32 (sint x)))))
      else Inr (rb, cookie))"

text \<open>
  \<^verbatim>\<open>unpack_one\<close> and the two loops of \<^verbatim>\<open>unpack_table\<close>, which call each other: reading one value, the
  elements from number \<open>i\<close> to \<open>n\<close> of an array, and pairs up to nil.
\<close>

datatype job = Job_one | Job_value u8 int | Job_array int int "(lval \<times> lval) list" | Job_hash "(lval \<times> lval) list"

partial_function (option) unpack :: "lua \<Rightarrow> job \<Rightarrow> read_block \<Rightarrow> (read_block \<times> lval) res option" where
  "unpack L j rb = (case j of
     Job_one \<Rightarrow> (case bindE (rb_bytes rb 1) (\<lambda>(rb, bs). bindE (nthE bs 0) (\<lambda>t. Inr (rb, t))) of
         Inl e \<Rightarrow> Some (Inl e)
       | Inr (rb, t) \<Rightarrow> unpack L (Job_value (t AND 7) (uint (drop_bit 3 t))) rb)
   | Job_value type cookie \<Rightarrow>
       if type = TYPE_TABLE then (case array_size rb cookie of
           Inl e \<Rightarrow> Some (Inl e)
         | Inr (rb, n) \<Rightarrow> unpack L (Job_array 1 n []) rb)
       else Some (push_value rb type cookie)
   | Job_array i n es \<Rightarrow>
       if i \<le> n then Option.bind (unpack L Job_one rb) (\<lambda>r. case r of
           Inl e \<Rightarrow> Some (Inl e)
         | Inr (rb, v) \<Rightarrow> unpack L (Job_array (i + 1) n (set_field es (Integer (word_of_int i)) v)) rb)
       else unpack L (Job_hash es) rb
   | Job_hash es \<Rightarrow> Option.bind (unpack L Job_one rb) (\<lambda>r. case r of
         Inl e \<Rightarrow> Some (Inl e)
       | Inr (rb, k) \<Rightarrow> if k = Lua_nil then Some (Inr (rb, Table es))
           else Option.bind (unpack L Job_one rb) (\<lambda>r. case r of
               Inl e \<Rightarrow> Some (Inl e)
             | Inr (rb, v) \<Rightarrow> (case lua_rawset L es k v of Inl e \<Rightarrow> Some (Inl e)
                 | Inr es \<Rightarrow> unpack L (Job_hash es) rb))))"

partial_function (option) unpack_all :: "lua \<Rightarrow> lval list \<Rightarrow> read_block \<Rightarrow> lval list res option" where
  "unpack_all L vs rb = (case rb_read rb 1 of
     None \<Rightarrow> Some (Inr vs)
   | Some (rb', p) \<Rightarrow> (case bytes_at (rb_buffer rb) p 1 of
         Inl e \<Rightarrow> Some (Inl e)
       | Inr bs \<Rightarrow> Option.bind (unpack L (Job_value (hd bs AND 7) (uint (drop_bit 3 (hd bs)))) rb') (\<lambda>r. case r of
             Inl e \<Rightarrow> Some (Inl e)
           | Inr (rb, v) \<Rightarrow> unpack_all L (vs @ [v]) rb)))"

text \<open>The values, for a buffer that is not NULL.\<close>

definition luaseri_unpack :: "lua \<Rightarrow> u8 list \<Rightarrow> lval list res option" where
  "luaseri_unpack L buffer = (if buffer = [] then Some (Inr []) else unpack_all L [] (rball_init buffer))"

section \<open>Words and bytes\<close>

lemma le_bytes_Suc: "le_bytes (Suc n) w = ucast w # le_bytes n (drop_bit 8 w)"
proof -
  have "[0..<Suc n] = 0 # map Suc [0..<n]" by (simp only: upt_conv_Cons zero_less_Suc map_Suc_upt)
  then show ?thesis by (simp add: le_bytes_def comp_def add.commute)
qed

lemma length_le_bytes [simp]: "length (le_bytes n w) = n"
  by (simp add: le_bytes_def)

lemma le_bytes_0 [simp]: "le_bytes 0 w = []"
  by (simp add: le_bytes_def)

lemma le_word_le_bytes: "le_word (le_bytes n w) = take_bit (8 * n) (w :: 'a::len word)"
proof (induction n arbitrary: w)
  case (Suc n)
  show ?case unfolding le_bytes_Suc le_word.simps Suc
    by (rule bit_word_eqI) (auto simp: bit_simps)
qed simp

lemma le_word_wide: "LENGTH('b) \<le> 8 * n \<Longrightarrow> LENGTH('b) \<le> LENGTH('a) \<Longrightarrow>
    le_word (le_bytes n (w :: 'b::len word)) = (ucast w :: 'a::len word)"
proof -
  assume a: "LENGTH('b) \<le> 8 * n" "LENGTH('b) \<le> LENGTH('a)"
  have "le_word (le_bytes n w) = take_bit (8 * n) (ucast w :: 'a word)" using a(2)
  proof (induction n arbitrary: w)
    case (Suc n)
    have "ucast (drop_bit 8 w) = (drop_bit 8 (ucast w) :: 'a word)" using Suc.prems by (intro bit_word_eqI) (use bit_imp_le_length [of w] in \<open>auto simp: bit_simps dest: bit_imp_le_length intro: less_le_trans\<close>)
    with Suc show ?case unfolding le_bytes_Suc le_word.simps
      by (intro bit_word_eqI) (auto simp: bit_simps dest: bit_imp_le_length)
  qed simp
  then show ?thesis using a by (intro bit_word_eqI) (auto simp: bit_simps dest: bit_imp_le_length)
qed

lemma COMBINE_TYPE_parts:
  assumes "0 \<le> v" "v < 32" "t < 8"
  shows "COMBINE_TYPE t v AND 7 = t" "uint (drop_bit 3 (COMBINE_TYPE t v)) = v"
proof -
  have m7: "(7 :: u8) = mask 3" by (simp add: mask_eq_exp_minus_1)
  have "uint t < 8" using assms(3) by (simp add: word_less_def)
  then have "take_bit 3 (uint t) = uint t" by (simp add: take_bit_int_eq_self)
  then have "bit (uint t) n \<Longrightarrow> n < 3" for n by (metis bit_take_bit_iff)
  then have bt: "bit t n \<Longrightarrow> n < 3" for n using bit_imp_le_length [of t n] by (auto simp: bit_uint_iff)
  have "take_bit 5 v = v" using assms(1,2) by (simp add: take_bit_int_eq_self)
  then have bv: "bit v n \<Longrightarrow> n < 5" for n by (metis bit_take_bit_iff)
  show "COMBINE_TYPE t v AND 7 = t" unfolding COMBINE_TYPE_def m7
    by (rule bit_word_eqI) (use bt in \<open>auto simp: bit_simps\<close>)
  have "drop_bit 3 (COMBINE_TYPE t v) = (word_of_int v :: u8)" unfolding COMBINE_TYPE_def
    by (rule bit_word_eqI) (use bt bv in \<open>force simp: bit_simps\<close>)
  then show "uint (drop_bit 3 (COMBINE_TYPE t v)) = v" using assms(1,2) by (simp add: uint_word_of_int)
qed

section \<open>The chain of blocks\<close>

definition wb_ok :: "write_block \<Rightarrow> bool" where
  "wb_ok b \<longleftrightarrow> wb_blocks b \<noteq> [] \<and> (\<forall>x \<in> set (wb_blocks b). length x = BLOCK_SIZE) \<and> wb_ptr b \<le> BLOCK_SIZE
     \<and> wb_len b = BLOCK_SIZE * (length (wb_blocks b) - 1) + wb_ptr b"

definition wb_bytes :: "write_block \<Rightarrow> u8 list" where
  "wb_bytes b = concat (butlast (wb_blocks b)) @ take (wb_ptr b) (last (wb_blocks b))"

lemma blk_copy_ok:
  assumes "wb_ok b" "wb_ptr b + length bs \<le> BLOCK_SIZE"
  shows "wb_ok (blk_copy bs b)" "wb_bytes (blk_copy bs b) = wb_bytes b @ bs" "wb_ptr (blk_copy bs b) = wb_ptr b + length bs"
proof -
  have "length (last (wb_blocks b)) = BLOCK_SIZE" using assms(1) by (auto simp: wb_ok_def)
  then show "wb_ok (blk_copy bs b)" "wb_bytes (blk_copy bs b) = wb_bytes b @ bs" "wb_ptr (blk_copy bs b) = wb_ptr b + length bs"
    using assms by (auto simp: wb_ok_def blk_copy_def wb_bytes_def dest: in_set_butlastD)
qed

lemma blk_alloc_ok:
  assumes "wb_ok b" "wb_ptr b = BLOCK_SIZE"
  shows "wb_ok (blk_alloc b)" "wb_bytes (blk_alloc b) = wb_bytes b" "wb_ptr (blk_alloc b) = 0"
proof -
  have l: "length (last (wb_blocks b)) = BLOCK_SIZE" and ne: "wb_blocks b \<noteq> []" using assms(1) by (auto simp: wb_ok_def)
  have "concat (wb_blocks b) = concat (butlast (wb_blocks b)) @ last (wb_blocks b)"
    using ne by (metis append_butlast_last_id concat.simps concat_append append_Nil2)
  then show "wb_ok (blk_alloc b)" "wb_bytes (blk_alloc b) = wb_bytes b" "wb_ptr (blk_alloc b) = 0"
    using assms l ne by (auto simp: wb_ok_def blk_alloc_def wb_bytes_def blank_def BLOCK_SIZE_def neq_Nil_conv)
qed

lemma wb_push_again_ok:
  "wb_ok b \<Longrightarrow> wb_ptr b = BLOCK_SIZE \<Longrightarrow> wb_ok (wb_push_again bs b) \<and> wb_bytes (wb_push_again bs b) = wb_bytes b @ bs"
proof (induction bs b rule: wb_push_again.induct)
  case (1 buffer b)
  note a = blk_alloc_ok [OF 1(2,3)]
  show ?case
  proof (cases "length buffer \<le> BLOCK_SIZE")
    case True
    then show ?thesis using a blk_copy_ok [OF a(1)] by (simp add: wb_push_again.simps [of buffer b])
  next
    case False
    then have c: "wb_ok (blk_copy (take BLOCK_SIZE buffer) (blk_alloc b))"
      "wb_bytes (blk_copy (take BLOCK_SIZE buffer) (blk_alloc b)) = wb_bytes b @ take BLOCK_SIZE buffer"
      "wb_ptr (blk_copy (take BLOCK_SIZE buffer) (blk_alloc b)) = BLOCK_SIZE"
      using a blk_copy_ok [OF a(1), of "take BLOCK_SIZE buffer"] by simp_all
    with 1(1) [OF refl False] c show ?thesis using False by (simp add: wb_push_again.simps [of buffer b] Let_def)
  qed
qed

lemma wb_push_ok [simp]:
  assumes "wb_ok b"
  shows "wb_ok (wb_push bs b)" "wb_bytes (wb_push bs b) = wb_bytes b @ bs"
proof -
  have "wb_ok (wb_push bs b) \<and> wb_bytes (wb_push bs b) = wb_bytes b @ bs"
  proof (cases "wb_ptr b = BLOCK_SIZE \<or> wb_ptr b + length bs \<le> BLOCK_SIZE")
    case True
    then show ?thesis using assms wb_push_again_ok blk_copy_ok [OF assms] by (auto simp: wb_push_def)
  next
    case False
    let ?c = "BLOCK_SIZE - wb_ptr b"
    have p: "wb_ptr b + length (take ?c bs) = BLOCK_SIZE" using False assms by (auto simp: wb_ok_def)
    note c = blk_copy_ok [OF assms, of "take ?c bs"]
    show ?thesis using wb_push_again_ok [of "blk_copy (take ?c bs) b" "drop ?c bs"] c p False
      by (simp add: wb_push_def Let_def)
  qed
  then show "wb_ok (wb_push bs b)" "wb_bytes (wb_push bs b) = wb_bytes b @ bs" by simp_all
qed

lemma wb_init_ok [simp]: "wb_ok wb_init" "wb_bytes wb_init = []"
  by (simp_all add: wb_init_def wb_ok_def blank_def wb_bytes_def BLOCK_SIZE_def)

lemma seri_blocks:
  "(\<forall>x \<in> set bs. length x = BLOCK_SIZE) \<Longrightarrow> n \<le> BLOCK_SIZE * length bs \<Longrightarrow> seri bs n = Inr (take n (concat bs))"
proof (induction bs arbitrary: n)
  case (Cons b bs)
  show ?case using Cons.IH [of "n - BLOCK_SIZE"] Cons.prems by (auto simp: not_le)
qed simp

lemma seri_ok: "wb_ok b \<Longrightarrow> seri (wb_blocks b) (wb_len b) = Inr (wb_bytes b)"
proof -
  assume ok: "wb_ok b"
  then obtain xs x where x: "wb_blocks b = xs @ [x]" by (metis wb_ok_def append_butlast_last_id)
  have "\<forall>y \<in> set xs. length y = BLOCK_SIZE" using ok x by (simp add: wb_ok_def)
  then have "length (concat xs) = BLOCK_SIZE * length xs" by (induction xs) auto
  then show ?thesis using ok x seri_blocks [of "wb_blocks b" "wb_len b"] by (simp add: wb_ok_def wb_bytes_def)
qed

section \<open>Reading what was written\<close>

definition rb_at :: "u8 list \<Rightarrow> nat \<Rightarrow> read_block" where
  "rb_at buffer p = \<lparr>rb_buffer = buffer, rb_len = int (length buffer) - int p, rb_ptr = int p\<rparr>"

lemma rball_init_at: "rball_init buffer = rb_at buffer 0"
  by (simp add: rball_init_def rb_at_def)

lemma rb_read_at:
  "rb_read (rb_at (pre @ bs @ rest) (length pre)) (int (length bs)) = Some (rb_at (pre @ bs @ rest) (length pre + length bs), int (length pre))"
  by (simp add: rb_read_def rb_at_def)

lemma bytes_at_here: "bytes_at (pre @ bs @ rest) (int (length pre)) (int (length bs)) = Inr bs"
  by (simp add: bytes_at_def)

lemma rb_bytes_at:
  "n = int (length bs) \<Longrightarrow> rb_bytes (rb_at (pre @ bs @ rest) (length pre)) n = Inr (rb_at (pre @ bs @ rest) (length (pre @ bs)), bs)"
  using rb_read_at [of pre bs rest] bytes_at_here [of pre bs rest] by (simp add: rb_bytes_def) (simp add: rb_at_def)

lemma get_buffer_at:
  "n = int (length bs) \<Longrightarrow> get_buffer (rb_at (pre @ bs @ rest) (length pre)) n = Inr (rb_at (pre @ bs @ rest) (length (pre @ bs)), String bs)"
  using rb_read_at [of pre bs rest] bytes_at_here [of pre bs rest] by (simp add: get_buffer_def) (simp add: rb_at_def)

text \<open>The bytes of an integer.\<close>

definition integer_bytes :: "i64 \<Rightarrow> u8 list" where
  "integer_bytes v = wb_bytes (wb_integer v wb_init)"

lemma wb_integer_ok [simp]:
  assumes "wb_ok b" shows "wb_ok (wb_integer v b)" "wb_bytes (wb_integer v b) = wb_bytes b @ integer_bytes v"
  using assms by (auto simp: wb_integer_def integer_bytes_def)

lemma type_parts [simp]:
  "TYPE_NIL < 8" "TYPE_BOOLEAN < 8" "TYPE_NUMBER < 8" "TYPE_USERDATA < 8" "TYPE_SHORT_STRING < 8" "TYPE_LONG_STRING < 8" "TYPE_TABLE < 8"
  by (simp_all add: type_defs)

lemma narrow_back:
  fixes v :: i64
  assumes "0 \<le> sint v" "sint v < 2 ^ LENGTH('b::len)" "LENGTH('b) < 64"
  shows "ucast (ucast v :: 'b word) = v"
proof -
  have "(2::int) ^ LENGTH('b) \<le> 2 ^ 64" using assms(3) by (intro power_increasing) auto
  then have "sint v < 2 ^ 64" using assms(2) by linarith
  then have u: "uint v = sint v" using assms(1) by (simp add: uint_sint take_bit_int_eq_self)
  have "uint (ucast v :: 'b word) = take_bit LENGTH('b) (uint v)" by (rule unsigned_ucast_eq [THEN trans]) (simp add: unsigned_take_bit_eq)
  also have "\<dots> = uint v" using u assms(1,2) by (simp add: take_bit_int_eq_self)
  finally show ?thesis by (metis word_of_int_uint ucast_eq)
qed

lemma integer_read:
  obtains t ps where "integer_bytes v = t # ps" "t AND 7 = TYPE_NUMBER" "uint (drop_bit 3 t) \<noteq> TYPE_NUMBER_REAL"
    "\<And>pre rest. get_integer (rb_at (pre @ ps @ rest) (length pre)) (uint (drop_bit 3 t)) = Inr (rb_at (pre @ ps @ rest) (length (pre @ ps)), v)"
proof -
  note parts = COMBINE_TYPE_parts [of _ TYPE_NUMBER]
  consider (zero) "v = 0" | (qword) "v \<noteq> 0" "v \<noteq> scast (ucast v :: i32)"
    | (neg) "v \<noteq> 0" "v = scast (ucast v :: i32)" "sint v < 0"
    | (byte) "v \<noteq> 0" "v = scast (ucast v :: i32)" "0 \<le> sint v" "sint v < 0x100"
    | (word) "v \<noteq> 0" "v = scast (ucast v :: i32)" "0x100 \<le> sint v" "sint v < 0x10000"
    | (dword) "v \<noteq> 0" "v = scast (ucast v :: i32)" "0x10000 \<le> sint v" by linarith
  then show thesis
  proof cases
    case zero
    then show thesis using parts [of 0]
      by (intro that [of "COMBINE_TYPE TYPE_NUMBER 0" "[]"]) (simp_all add: integer_bytes_def wb_integer_def get_integer_def type_defs)
  next
    case qword
    have "le_word (le_bytes 8 v) = v" by (simp add: le_word_wide)
    then show thesis using qword parts [of 6] rb_bytes_at [of 8 "le_bytes 8 v"]
      by (intro that [of "COMBINE_TYPE TYPE_NUMBER 6" "le_bytes 8 v"]) (simp_all add: integer_bytes_def wb_integer_def get_integer_def type_defs)
  next
    case neg
    have "le_word (le_bytes 4 (ucast v :: i32)) = (ucast v :: i32)" by (simp add: le_word_wide)
    then show thesis using neg parts [of 4] rb_bytes_at [of 4 "le_bytes 4 (ucast v :: i32)"]
      by (intro that [of "COMBINE_TYPE TYPE_NUMBER 4" "le_bytes 4 (ucast v :: i32)"]) (simp_all add: integer_bytes_def wb_integer_def get_integer_def type_defs)
  next
    case byte
    have "ucast (ucast v :: u8) = v" using byte by (intro narrow_back) simp_all
    then show thesis using byte parts [of 1] rb_bytes_at [of 1 "[ucast v :: u8]"]
      by (intro that [of "COMBINE_TYPE TYPE_NUMBER 1" "[ucast v]"]) (simp_all add: integer_bytes_def wb_integer_def get_integer_def type_defs)
  next
    case word
    have "le_word (le_bytes 2 (ucast v :: u16)) = v"
      using word narrow_back [of v, where 'b = 16] le_word_wide [of 2 "ucast v :: u16", where 'a = 64] by simp
    then show thesis using word parts [of 2] rb_bytes_at [of 2 "le_bytes 2 (ucast v :: u16)"]
      by (intro that [of "COMBINE_TYPE TYPE_NUMBER 2" "le_bytes 2 (ucast v :: u16)"]) (simp_all add: integer_bytes_def wb_integer_def get_integer_def type_defs)
  next
    case dword
    have "le_word (le_bytes 4 (ucast v :: i32)) = (ucast v :: i32)" by (simp add: le_word_wide)
    then show thesis using dword parts [of 4] rb_bytes_at [of 4 "le_bytes 4 (ucast v :: i32)"]
      by (intro that [of "COMBINE_TYPE TYPE_NUMBER 4" "le_bytes 4 (ucast v :: i32)"]) (simp_all add: integer_bytes_def wb_integer_def get_integer_def type_defs)
  qed
qed

text \<open>Bytes that are read as a value, wherever they stand.\<close>

definition reads :: "lua \<Rightarrow> u8 list \<Rightarrow> lval \<Rightarrow> bool" where
  "reads L bs w \<longleftrightarrow> (\<exists>t ps. bs = t # ps \<and> (\<forall>pre rest.
     unpack L (Job_value (t AND 7) (uint (drop_bit 3 t))) (rb_at (pre @ ps @ rest) (length pre))
       = Some (Inr (rb_at (pre @ ps @ rest) (length (pre @ ps)), w))))"

lemma reads_one:
  assumes "reads L bs w"
  shows "unpack L Job_one (rb_at (pre @ bs @ rest) (length pre)) = Some (Inr (rb_at (pre @ bs @ rest) (length (pre @ bs)), w))"
proof -
  from assms obtain t ps where bs: "bs = t # ps" and r: "\<And>pre rest.
     unpack L (Job_value (t AND 7) (uint (drop_bit 3 t))) (rb_at (pre @ ps @ rest) (length pre))
       = Some (Inr (rb_at (pre @ ps @ rest) (length (pre @ ps)), w))" unfolding reads_def by blast
  have "rb_bytes (rb_at (pre @ bs @ rest) (length pre)) 1 = Inr (rb_at (pre @ bs @ rest) (length (pre @ [t])), [t])"
    using rb_bytes_at [of 1 "[t]" pre "ps @ rest"] bs by simp
  then have "unpack L Job_one (rb_at (pre @ bs @ rest) (length pre))
      = unpack L (Job_value (t AND 7) (uint (drop_bit 3 t))) (rb_at (pre @ bs @ rest) (length (pre @ [t])))"
    by (subst unpack.simps) simp
  with r [of "pre @ [t]" rest] bs show ?thesis by simp
qed

lemma reads_value:
  assumes "t AND 7 \<noteq> TYPE_TABLE"
    "\<And>pre rest. push_value (rb_at (pre @ ps @ rest) (length pre)) (t AND 7) (uint (drop_bit 3 t))
       = Inr (rb_at (pre @ ps @ rest) (length (pre @ ps)), w)"
  shows "reads L (t # ps) w"
  unfolding reads_def using assms by (subst unpack.simps) auto

lemma type_distinct [simp]:
  "TYPE_NIL \<noteq> TYPE_TABLE" "TYPE_BOOLEAN \<noteq> TYPE_TABLE" "TYPE_NUMBER \<noteq> TYPE_TABLE" "TYPE_USERDATA \<noteq> TYPE_TABLE"
  "TYPE_SHORT_STRING \<noteq> TYPE_TABLE" "TYPE_LONG_STRING \<noteq> TYPE_TABLE"
  by (simp_all add: type_defs)

lemma simple_types: "TYPE_NIL AND 7 = TYPE_NIL" "TYPE_USERDATA AND 7 = TYPE_USERDATA"
  by (simp_all add: type_defs)

lemma reads_nil: "reads L [TYPE_NIL] Lua_nil"
  by (rule reads_value) (simp_all add: simple_types push_value_def)

lemma reads_boolean: "reads L [COMBINE_TYPE TYPE_BOOLEAN (if x then 1 else 0)] (Boolean x)"
  using COMBINE_TYPE_parts [of "if x then 1 else 0" TYPE_BOOLEAN]
  by (intro reads_value) (auto simp: push_value_def type_defs)

lemma reads_integer: "reads L (integer_bytes v) (Integer v)"
proof -
  obtain t ps where "integer_bytes v = t # ps" "t AND 7 = TYPE_NUMBER" "uint (drop_bit 3 t) \<noteq> TYPE_NUMBER_REAL"
    "\<And>pre rest. get_integer (rb_at (pre @ ps @ rest) (length pre)) (uint (drop_bit 3 t)) = Inr (rb_at (pre @ ps @ rest) (length (pre @ ps)), v)"
    using integer_read [of v] by blast
  then show ?thesis using reads_value [of t ps "Integer v" L] by (simp add: push_value_def type_defs)
qed

lemma reads_real: "reads L (COMBINE_TYPE TYPE_NUMBER TYPE_NUMBER_REAL # le_bytes 8 d) (Number d)"
proof -
  have "le_word (le_bytes 8 d) = d" by (simp add: le_word_wide)
  then show ?thesis using COMBINE_TYPE_parts [of TYPE_NUMBER_REAL TYPE_NUMBER] rb_bytes_at [of 8 "le_bytes 8 d"]
    by (intro reads_value) (auto simp: push_value_def get_real_def type_defs)
qed

lemma reads_pointer: "reads L (TYPE_USERDATA # le_bytes 8 p) (Lightuserdata p)"
proof -
  have c: "le_word (le_bytes 8 p) = p" by (simp add: le_word_wide)
  show ?thesis using rb_bytes_at [of 8 "le_bytes 8 p"]
    by (intro reads_value) (auto simp: simple_types push_value_def get_pointer_def c type_defs)
qed

text \<open>The bytes of a string.\<close>

definition string_bytes :: "u8 list \<Rightarrow> u8 list" where
  "string_bytes str = wb_bytes (wb_string str wb_init)"

lemma wb_string_ok [simp]:
  assumes "wb_ok b" shows "wb_ok (wb_string str b)" "wb_bytes (wb_string str b) = wb_bytes b @ string_bytes str"
  using assms by (auto simp: wb_string_def string_bytes_def Let_def)

lemma reads_string:
  assumes "length str < 2 ^ 31" shows "reads L (string_bytes str) (String str)"
proof -
  have len: "wrap32 (int (length str)) = int (length str)" using assms by (simp add: wrap32_id)
  consider (short) "length str < 32" | (word) "32 \<le> length str" "length str < 0x10000" | (dword) "0x10000 \<le> length str" by linarith
  then show ?thesis
  proof cases
    case short
    then have "string_bytes str = COMBINE_TYPE TYPE_SHORT_STRING (int (length str)) # str"
      by (simp add: string_bytes_def wb_string_def len MAX_COOKIE_def Let_def)
    then show ?thesis using COMBINE_TYPE_parts [of "int (length str)" TYPE_SHORT_STRING] short get_buffer_at [OF refl, where bs = str]
      by (simp, intro reads_value) (simp_all add: push_value_def type_defs)
  next
    case word
    then have s: "string_bytes str = COMBINE_TYPE TYPE_LONG_STRING 2 # le_bytes 2 (word_of_int (int (length str)) :: u16) @ str"
      by (simp add: string_bytes_def wb_string_def len MAX_COOKIE_def Let_def)
    have w: "uint (le_word (le_bytes 2 (word_of_int (int (length str)) :: u16)) :: u16) = int (length str)"
      using word by (simp add: le_word_wide uint_word_of_int del: of_int_of_nat_eq)
    show ?thesis unfolding s
    proof (rule reads_value)
      fix pre rest
      let ?x = "le_bytes 2 (word_of_int (int (length str)) :: u16)"
      show "push_value (rb_at (pre @ (?x @ str) @ rest) (length pre)) (COMBINE_TYPE TYPE_LONG_STRING 2 AND 7) (uint (drop_bit 3 (COMBINE_TYPE TYPE_LONG_STRING 2)))
          = Inr (rb_at (pre @ (?x @ str) @ rest) (length (pre @ ?x @ str)), String str)"
        using COMBINE_TYPE_parts [of 2 TYPE_LONG_STRING] w rb_bytes_at [of 2 ?x pre "str @ rest"] get_buffer_at [OF refl, where bs = str and pre = "pre @ ?x" and rest = rest]
        by (simp add: push_value_def type_defs)
    qed (use COMBINE_TYPE_parts [of 2 TYPE_LONG_STRING] in \<open>simp add: type_defs\<close>)
  next
    case dword
    then have s: "string_bytes str = COMBINE_TYPE TYPE_LONG_STRING 4 # le_bytes 4 (word_of_int (int (length str)) :: u32) @ str"
      by (simp add: string_bytes_def wb_string_def len MAX_COOKIE_def Let_def)
    have w: "wrap32 (uint (le_word (le_bytes 4 (word_of_int (int (length str)) :: u32)) :: u32)) = int (length str)"
      using assms len by (simp add: le_word_wide uint_word_of_int del: of_int_of_nat_eq)
    show ?thesis unfolding s
    proof (rule reads_value)
      fix pre rest
      let ?x = "le_bytes 4 (word_of_int (int (length str)) :: u32)"
      show "push_value (rb_at (pre @ (?x @ str) @ rest) (length pre)) (COMBINE_TYPE TYPE_LONG_STRING 4 AND 7) (uint (drop_bit 3 (COMBINE_TYPE TYPE_LONG_STRING 4)))
          = Inr (rb_at (pre @ (?x @ str) @ rest) (length (pre @ ?x @ str)), String str)"
        using COMBINE_TYPE_parts [of 4 TYPE_LONG_STRING] w rb_bytes_at [of 4 ?x pre "str @ rest"] get_buffer_at [OF refl, where bs = str and pre = "pre @ ?x" and rest = rest]
        by (simp add: push_value_def type_defs)
    qed (use COMBINE_TYPE_parts [of 4 TYPE_LONG_STRING] in \<open>simp add: type_defs\<close>)
  qed
qed

section \<open>Tables\<close>

lemma rawget_filter: "rawget (filter (\<lambda>e. fst e \<noteq> k) es) k' = (if k' = k then Lua_nil else rawget es k')"
  by (induction es) (auto simp: rawget_def)

lemma rawget_set_field: "\<not> fresh_key k \<Longrightarrow> rawget (set_field es k v) k' = (if k' = k then v else rawget es k')"
  by (auto simp: set_field_def rawget_filter) (auto simp: rawget_def update_conv')

definition set_fields :: "(lval \<times> lval) list \<Rightarrow> (lval \<times> lval) list \<Rightarrow> (lval \<times> lval) list" where
  "set_fields es kvs = foldl (\<lambda>es (k, v). set_field es k v) es kvs"

lemma set_fields_simps [simp]: "set_fields es [] = es" "set_fields es ((k, v) # kvs) = set_fields (set_field es k v) kvs"
  "set_fields es (xs @ ys) = set_fields (set_fields es xs) ys"
  by (simp_all add: set_fields_def)

lemma rawget_set_fields:
  "distinct (map fst kvs) \<Longrightarrow> (\<forall>k \<in> fst ` set kvs. \<not> fresh_key k) \<Longrightarrow>
     rawget (set_fields es kvs) k = (case map_of kvs k of None \<Rightarrow> rawget es k | Some v \<Rightarrow> v)"
proof (induction kvs arbitrary: es)
  case (Cons kv kvs)
  then have "map_of kvs (fst kv) = None" by (simp add: map_of_eq_None_iff)
  with Cons show ?case by (cases kv) (auto simp: rawget_set_field split: option.split)
qed simp

text \<open>Reading the elements of an array.\<close>

definition element_keys :: "int \<Rightarrow> nat \<Rightarrow> lval list" where
  "element_keys i n = map (\<lambda>j. Integer (word_of_int (i + int j))) [0..<n]"

lemma element_keys_Suc: "element_keys i (Suc n) = Integer (word_of_int i) # element_keys (i + 1) n"
proof -
  have "[0..<Suc n] = 0 # map Suc [0..<n]" by (simp only: upt_conv_Cons zero_less_Suc map_Suc_upt)
  then show ?thesis by (simp add: element_keys_def comp_def algebra_simps)
qed

lemma unpack_elements:
  assumes "list_all2 (reads L) bss ws"
  shows "unpack L (Job_array i (i + int (length bss) - 1) es) (rb_at (pre @ concat bss @ rest) (length pre))
    = unpack L (Job_hash (set_fields es (zip (element_keys i (length bss)) ws))) (rb_at (pre @ concat bss @ rest) (length (pre @ concat bss)))"
  using assms
proof (induction bss ws arbitrary: i es pre rule: list_all2_induct)
  case Nil
  show ?case by (subst unpack.simps) simp
next
  case (Cons bs bss w ws)
  have "unpack L (Job_array i (i + int (length (bs # bss)) - 1) es) (rb_at (pre @ concat (bs # bss) @ rest) (length pre))
      = unpack L (Job_array (i + 1) (i + 1 + int (length bss) - 1) (set_field es (Integer (word_of_int i)) w))
          (rb_at ((pre @ bs) @ concat bss @ rest) (length (pre @ bs)))"
    using reads_one [OF Cons(1), of pre "concat bss @ rest"] by (subst unpack.simps) (simp add: algebra_simps)
  also note Cons.IH
  finally show ?case by (simp add: element_keys_Suc)
qed

text \<open>Reading pairs up to nil.\<close>

lemma unpack_pairs:
  assumes "list_all2 (\<lambda>(kb, vb) (k, w). reads L kb k \<and> reads L vb w) bps kws" "\<And>es k w. (k, w) \<in> set kws \<Longrightarrow> k \<noteq> Lua_nil \<and> lua_rawset L es k w = Inr (set_field es k w)"
    and bs: "bs = concat (map (\<lambda>(kb, vb). kb @ vb) bps) @ [TYPE_NIL]"
  shows "unpack L (Job_hash es) (rb_at (pre @ bs @ rest) (length pre))
    = Some (Inr (rb_at (pre @ bs @ rest) (length (pre @ bs)), Table (set_fields es kws)))"
  using assms
proof (induction bps kws arbitrary: es pre bs rule: list_all2_induct)
  case Nil
  then show ?case using reads_one [OF reads_nil, of L pre rest] by (subst unpack.simps) simp
next
  case (Cons bp bps kw kws)
  obtain kb vb k w where p: "bp = (kb, vb)" "kw = (k, w)" by (cases bp, cases kw)
  let ?bs = "concat (map (\<lambda>(kb, vb). kb @ vb) bps) @ [TYPE_NIL]"
  have k: "k \<noteq> Lua_nil" "lua_rawset L es k w = Inr (set_field es k w)" using Cons.prems(1) p by auto
  have r: "reads L kb k" "reads L vb w" using Cons(1) p by auto
  have "unpack L (Job_hash es) (rb_at (pre @ bs @ rest) (length pre))
      = unpack L (Job_hash (set_field es k w)) (rb_at ((pre @ kb @ vb) @ ?bs @ rest) (length (pre @ kb @ vb)))"
    using reads_one [OF r(1), of pre "vb @ ?bs @ rest"] reads_one [OF r(2), of "pre @ kb" "?bs @ rest"] k Cons.prems(2) p
    by (subst unpack.simps) simp
  also have "\<dots> = Some (Inr (rb_at ((pre @ kb @ vb) @ ?bs @ rest) (length ((pre @ kb @ vb) @ ?bs)), Table (set_fields (set_field es k w) kws)))"
    by (rule Cons.IH) (use Cons.prems(1) in auto)
  finally show ?case using p Cons.prems(2) by simp
qed

text \<open>The size in front of a table.\<close>

lemma array_size_read:
  assumes "n < 2 ^ 31" "wb_ok b"
  obtains t ps where "wb_ok (wb_array_size n b)" "wb_bytes (wb_array_size n b) = wb_bytes b @ t # ps" "t AND 7 = TYPE_TABLE"
    "\<And>pre rest. array_size (rb_at (pre @ ps @ rest) (length pre)) (uint (drop_bit 3 t)) = Inr (rb_at (pre @ ps @ rest) (length (pre @ ps)), int n)"
proof (cases "int n \<ge> MAX_COOKIE - 1")
  case False
  then show thesis using assms(2) COMBINE_TYPE_parts [of "int n" TYPE_TABLE]
    by (intro that [of "COMBINE_TYPE TYPE_TABLE (int n)" "[]"]) (simp_all add: wb_array_size_def array_size_def type_defs)
next
  case True
  obtain t ps where i: "integer_bytes (of_nat n) = t # ps" "t AND 7 = TYPE_NUMBER" "uint (drop_bit 3 t) \<noteq> TYPE_NUMBER_REAL"
    "\<And>pre rest. get_integer (rb_at (pre @ ps @ rest) (length pre)) (uint (drop_bit 3 t)) = Inr (rb_at (pre @ ps @ rest) (length (pre @ ps)), of_nat n)"
    using integer_read [of "of_nat n"] by blast
  have "sint (word_of_int (int n) :: i64) = int n"
    using assms(1) by (simp add: signed_of_int signed_take_bit_int_eq_self del: of_int_of_nat_eq)
  then have sint: "wrap32 (sint (of_nat n :: i64)) = int n" using assms(1) by (simp add: wrap32_id)
  have "array_size (rb_at (pre @ (t # ps) @ rest) (length pre)) 31 = Inr (rb_at (pre @ (t # ps) @ rest) (length (pre @ t # ps)), int n)" for pre rest
    using rb_bytes_at [of 1 "[t]" pre "ps @ rest"] i(2,3) i(4) [of "pre @ [t]" rest] sint
    by (simp add: array_size_def MAX_COOKIE_def)
  then show thesis using True assms(2) i(1) COMBINE_TYPE_parts [of 31 TYPE_TABLE]
    by (intro that [of "COMBINE_TYPE TYPE_TABLE 31" "t # ps"]) (simp_all add: wb_array_size_def MAX_COOKIE_def)
qed

section \<open>The round trip\<close>

definition scalar :: "lval \<Rightarrow> bool" where
  "scalar v = (case v of Table _ \<Rightarrow> False | Metapairs _ \<Rightarrow> False | Unsupported _ \<Rightarrow> False | _ \<Rightarrow> True)"

text \<open>The pairs that the iterator yields before its first key nil.\<close>

abbreviation yielded :: "(lval \<times> lval) list \<Rightarrow> (lval \<times> lval) list" where
  "yielded ps \<equiv> takeWhile (\<lambda>p. fst p \<noteq> Lua_nil) ps"

text \<open>A key that the table has under itself: no table, not nil, and a float only if Lua keeps it.\<close>

definition key_ok :: "lua \<Rightarrow> lval \<Rightarrow> bool" where
  "key_ok L k \<longleftrightarrow> scalar k \<and> k \<noteq> Lua_nil \<and> (\<forall>d. k = Number d \<longrightarrow> float_key L d = Some k)
     \<and> (\<forall>str. k = String str \<longrightarrow> length str < 2 ^ 31)"

text \<open>
  The values of which the reader gives back the same: strings and arrays whose sizes are a C \<^verbatim>\<open>int\<close>,
  tables with distinct keys that are no tables.
\<close>

inductive portable :: "lua \<Rightarrow> lval \<Rightarrow> bool" for L where
  scalar: "scalar v \<Longrightarrow> \<forall>str. v = String str \<longrightarrow> length str < 2 ^ 31 \<Longrightarrow> portable L v"
| table: "distinct (map fst es) \<Longrightarrow> \<forall>k \<in> fst ` set es. key_ok L k \<Longrightarrow> \<forall>v \<in> snd ` set es. portable L v \<Longrightarrow>
    rawlen L es < 2 ^ 31 \<Longrightarrow> portable L (Table es)"
| metapairs: "distinct (map fst (yielded ps)) \<Longrightarrow> \<forall>k \<in> fst ` set (yielded ps). key_ok L k \<Longrightarrow>
    \<forall>v \<in> snd ` set (yielded ps). portable L v \<Longrightarrow> portable L (Metapairs ps)"

inductive_cases portable_tableE: "portable L (Table es)"
inductive_cases portable_metapairsE: "portable L (Metapairs ps)"

text \<open>Two values that a Lua program cannot tell apart but by the identity and the order of tables.\<close>

inductive same :: "lval \<Rightarrow> lval \<Rightarrow> bool" where
  scalar: "scalar v \<Longrightarrow> same v v"
| table: "(\<And>k. same (rawget es k) (rawget es' k)) \<Longrightarrow> same (Table es) (Table es')"
| metapairs: "(\<And>k. same (rawget (yielded ps) k) (rawget es' k)) \<Longrightarrow> same (Metapairs ps) (Table es')"

lemma scalar_cases: "scalar v \<Longrightarrow> same v w \<Longrightarrow> w = v"
  by (auto simp: scalar_def elim: same.cases)

lemma same_nil: "same Lua_nil Lua_nil"
  by (rule same.scalar) (simp add: scalar_def)

lemma key_rawset: "key_ok L k \<Longrightarrow> k \<noteq> Lua_nil \<and> lua_rawset L es k w = Inr (set_field es k w)"
  by (auto simp: key_ok_def lua_rawset_def scalar_def split: lval.splits)

lemma key_fresh: "key_ok L k \<Longrightarrow> \<not> fresh_key k"
  by (auto simp: key_ok_def scalar_def fresh_key_def split: lval.splits)

lemma key_portable: "key_ok L k \<Longrightarrow> portable L k"
  by (auto simp: key_ok_def intro: portable.scalar)

lemma in_array_iff:
  assumes "n < 2 ^ 31" shows "in_array n k \<longleftrightarrow> (\<exists>j < n. k = Integer (word_of_int (1 + int j)))"
proof
  assume "in_array n k"
  then obtain x where x: "k = Integer x" "0 < sint x" "sint x \<le> int n" by (auto simp: in_array_def split: lval.splits)
  then have "k = Integer (word_of_int (1 + int (nat (sint x - 1))))" "nat (sint x - 1) < n" by auto
  then show "\<exists>j < n. k = Integer (word_of_int (1 + int j))" by blast
next
  assume "\<exists>j < n. k = Integer (word_of_int (1 + int j))"
  then obtain j where j: "j < n" "k = Integer (word_of_int (1 + int j))" by blast
  have "sint (word_of_int (1 + int j) :: i64) = 1 + int j"
    using j(1) assms by (simp only: signed_of_int) (simp add: signed_take_bit_int_eq_self)
  with j show "in_array n k" by (simp add: in_array_def del: of_int_add)
qed

lemma element_keys_in: "n < 2 ^ 31 \<Longrightarrow> k \<in> set (element_keys 1 n) \<longleftrightarrow> in_array n k"
  by (auto simp: in_array_iff element_keys_def simp del: of_int_add)

lemma element_keys_distinct: "n < 2 ^ 31 \<Longrightarrow> distinct (element_keys 1 n)"
proof -
  assume n: "n < 2 ^ 31"
  have "inj_on (\<lambda>j. Integer (word_of_int (1 + int j))) {0..<n}"
  proof (rule inj_onI)
    fix x y assume xy: "x \<in> {0..<n}" "y \<in> {0..<n}" "Integer (word_of_int (1 + int x)) = Integer (word_of_int (1 + int y))"
    have "uint (word_of_int (1 + int z) :: i64) = 1 + int z" if "z < n" for z
      using that n by (simp only: uint_word_of_int) simp
    with xy show "x = y" by (metis add_left_cancel atLeastLessThan_iff lval.inject(2) of_nat_eq_iff)
  qed
  then show ?thesis by (simp add: element_keys_def distinct_map)
qed

lemma array_values_keys: "array_values L es = map (rawget es) (element_keys 1 (rawlen L es))"
proof -
  have "[1..<Suc n] = map Suc [0..<n]" for n by (simp add: map_Suc_upt)
  then show ?thesis by (simp add: array_values_def element_keys_def)
qed

lemma map_of_zip_same:
  assumes "list_all2 same (map f ks) ws" "k \<in> set ks"
  shows "\<exists>w. map_of (zip ks ws) k = Some w \<and> same (f k) w"
  using assms
proof (induction ks arbitrary: ws)
  case (Cons a ks)
  then obtain w ws' where "ws = w # ws'" "same (f a) w" "list_all2 same (map f ks) ws'" by (auto simp: list_all2_Cons1)
  with Cons show ?case by auto
qed simp

lemma rebuilt_same:
  assumes "distinct (map fst es)" "\<forall>k \<in> fst ` set es. key_ok L k" "n < 2 ^ 31"
    and rest: "rest = filter (\<lambda>e. \<not> in_array n (fst e)) es"
    and ws: "list_all2 same (map (rawget es) (element_keys 1 n)) ws" "list_all2 same (map snd rest) ws'"
  shows "same (rawget es k) (rawget (set_fields [] (zip (element_keys 1 n) ws @ zip (map fst rest) ws')) k)"
proof -
  let ?kvs = "zip (element_keys 1 n) ws @ zip (map fst rest) ws'"
  have len: "length ws = n" "length ws' = length rest" using ws by (auto dest!: list_all2_lengthD simp: element_keys_def)
  have fst: "map fst ?kvs = element_keys 1 n @ map fst rest" using len by (simp add: element_keys_def)
  have dr: "distinct (map fst rest)" using assms(1) rest by (simp add: distinct_map_filter)
  have "distinct (map fst ?kvs)"
    unfolding fst using element_keys_distinct [OF assms(3)] dr rest by (auto simp: element_keys_in [OF assms(3)])
  moreover have "\<not> fresh_key k" if "k \<in> fst ` set ?kvs" for k
  proof -
    have "k \<in> set (element_keys 1 n @ map fst rest)" using that fst by (metis list.set_map)
    then show ?thesis using assms(2) rest key_fresh by (auto simp: element_keys_def fresh_key_def)
  qed
  ultimately have get: "rawget (set_fields [] ?kvs) k = (case map_of ?kvs k of None \<Rightarrow> Lua_nil | Some v \<Rightarrow> v)"
    by (subst rawget_set_fields) (auto simp: rawget_def [of "[]"] split: option.split)
  have rest_get: "rawget es a = v" if "(a, v) \<in> set rest" for a v
    using that rest assms(1) by (auto simp: rawget_def map_of_eq_Some_iff)
  have "map (rawget es) (map fst rest) = map snd rest" using rest_get by auto
  then have ws2: "list_all2 same (map (rawget es) (map fst rest)) ws'" using ws(2) by (simp only:)
  consider (array) "k \<in> set (element_keys 1 n)" | (hash) "k \<notin> set (element_keys 1 n)" "k \<in> set (map fst rest)"
    | (no) "k \<notin> set (element_keys 1 n)" "k \<notin> set (map fst rest)" by blast
  then show ?thesis
  proof cases
    case array
    with map_of_zip_same [OF ws(1)] obtain w where w: "map_of (zip (element_keys 1 n) ws) k = Some w" "same (rawget es k) w" by blast
    then show ?thesis using get by (simp add: map_add_def)
  next
    case hash
    with map_of_zip_same [OF ws2] obtain w where "map_of (zip (map fst rest) ws') k = Some w" "same (rawget es k) w" by blast
    moreover have "map_of (zip (element_keys 1 n) ws) k = None" using hash by (auto simp: map_of_eq_None_iff dest: set_zip_leftD)
    ultimately show ?thesis using get by (simp add: map_add_def)
  next
    case no
    have "map_of (zip (element_keys 1 n) ws) k = None" "map_of (zip (map fst rest) ws') k = None"
      using no set_zip_leftD by (fastforce simp: map_of_eq_None_iff)+
    then have "map_of ?kvs k = None" by (simp add: map_add_def)
    moreover have "rawget es k = Lua_nil"
      using no rest by (force simp: rawget_def element_keys_in [OF assms(3)] split: option.split dest!: map_of_SomeD)
    ultimately show ?thesis using get same_nil by (simp add: map_add_def)
  qed
qed

text \<open>What writing a value, values and pairs adds to the chain, and what is read from it.\<close>

abbreviation packed :: "lua \<Rightarrow> lval \<Rightarrow> write_block \<Rightarrow> write_block \<Rightarrow> bool" where
  "packed L v b b' \<equiv> wb_ok b' \<and> (\<exists>bs w. wb_bytes b' = wb_bytes b @ bs \<and> reads L bs w \<and> same v w)"

lemma packed_scalar:
  assumes "scalar v" "wb_ok b" "wb_ok b'" "wb_bytes b' = wb_bytes b @ bs" "reads L bs v" shows "packed L v b b'"
  using assms same.scalar by blast

lemma reads_table:
  assumes "t AND 7 = TYPE_TABLE"
    "\<And>pre rest. array_size (rb_at (pre @ ps @ rest) (length pre)) (uint (drop_bit 3 t)) = Inr (rb_at (pre @ ps @ rest) (length (pre @ ps)), int (length bss))"
    "list_all2 (reads L) bss ws" "list_all2 (\<lambda>(kb, vb) (k, w). reads L kb k \<and> reads L vb w) bps kws"
    "\<And>es k w. (k, w) \<in> set kws \<Longrightarrow> k \<noteq> Lua_nil \<and> lua_rawset L es k w = Inr (set_field es k w)"
  shows "reads L (t # ps @ concat bss @ concat (map (\<lambda>(kb, vb). kb @ vb) bps) @ [TYPE_NIL])
    (Table (set_fields [] (zip (element_keys 1 (length bss)) ws @ kws)))"
proof -
  let ?hash = "concat (map (\<lambda>(kb, vb). kb @ vb) bps) @ [TYPE_NIL]"
  have "unpack L (Job_value (t AND 7) (uint (drop_bit 3 t))) (rb_at (pre @ (ps @ concat bss @ ?hash) @ rest) (length pre))
      = Some (Inr (rb_at (pre @ (ps @ concat bss @ ?hash) @ rest) (length (pre @ ps @ concat bss @ ?hash)),
          Table (set_fields [] (zip (element_keys 1 (length bss)) ws @ kws))))" for pre rest
  proof -
    have "unpack L (Job_value (t AND 7) (uint (drop_bit 3 t))) (rb_at (pre @ (ps @ concat bss @ ?hash) @ rest) (length pre))
        = unpack L (Job_array 1 (1 + int (length bss) - 1) []) (rb_at ((pre @ ps) @ concat bss @ ?hash @ rest) (length (pre @ ps)))"
      using assms(1) assms(2) [of pre "concat bss @ ?hash @ rest"] by (subst unpack.simps) simp
    also note unpack_elements [OF assms(3)]
    also have "unpack L (Job_hash (set_fields [] (zip (element_keys 1 (length bss)) ws)))
          (rb_at ((pre @ ps) @ concat bss @ ?hash @ rest) (length ((pre @ ps) @ concat bss)))
        = Some (Inr (rb_at ((pre @ ps @ concat bss) @ ?hash @ rest) (length ((pre @ ps @ concat bss) @ ?hash)),
          Table (set_fields (set_fields [] (zip (element_keys 1 (length bss)) ws)) kws)))"
      using unpack_pairs [OF assms(4,5) refl, of _ "pre @ ps @ concat bss" rest] by simp
    finally show ?thesis by simp
  qed
  then show ?thesis unfolding reads_def by auto
qed

lemma in_array_0 [simp]: "\<not> in_array 0 k"
  by (auto simp: in_array_def split: lval.split)

lemma pack_reads:
  "pack_one L d v b = Inr b' \<Longrightarrow> wb_ok b \<Longrightarrow> portable L v \<Longrightarrow> packed L v b b'"
  "wb_elements L d vs b = Inr b' \<Longrightarrow> wb_ok b \<Longrightarrow> (\<forall>v \<in> set vs. portable L v) \<Longrightarrow>
     wb_ok b' \<and> (\<exists>bss ws. wb_bytes b' = wb_bytes b @ concat bss \<and> list_all2 (reads L) bss ws \<and> list_all2 same vs ws)"
  "wb_pairs L d n es b = Inr b' \<Longrightarrow> wb_ok b \<Longrightarrow> (\<forall>k \<in> fst ` set es. key_ok L k) \<Longrightarrow> (\<forall>v \<in> snd ` set es. portable L v) \<Longrightarrow>
     wb_ok b' \<and> (\<exists>bps ws. wb_bytes b' = wb_bytes b @ concat (map (\<lambda>(kb, vb). kb @ vb) bps) @ [TYPE_NIL]
       \<and> list_all2 (\<lambda>(kb, vb) (k, w). reads L kb k \<and> reads L vb w) bps (zip (map fst (filter (\<lambda>e. \<not> in_array n (fst e)) es)) ws)
       \<and> list_all2 same (map snd (filter (\<lambda>e. \<not> in_array n (fst e)) es)) ws)"
proof (induction L d v b and L d vs b and L d n es b arbitrary: b' and b' and b' rule: pack_one_wb_elements_wb_pairs.induct)
  case (1 L d v b)
  have depth: "\<not> d > MAX_DEPTH" using "1.prems"(1) by (auto simp: pack_one.simps)
  show ?case
  proof (cases v)
    case (Table es)
    let ?n = "rawlen L es" and ?rest = "filter (\<lambda>e. \<not> in_array (rawlen L es) (fst e)) es"
    from "1.prems"(3) Table have es: "distinct (map fst es)" "\<forall>k \<in> fst ` set es. key_ok L k" "\<forall>v \<in> snd ` set es. portable L v" "?n < 2 ^ 31"
      by (auto elim!: portable_tableE simp: scalar_def)
    from "1.prems"(1) Table depth obtain b1 where b1: "wb_elements L (d + 1) (array_values L es) (wb_array_size ?n b) = Inr b1"
      "wb_pairs L (d + 1) ?n es b1 = Inr b'" by (auto simp: pack_one.simps)
    obtain t ps where t: "wb_ok (wb_array_size ?n b)" "wb_bytes (wb_array_size ?n b) = wb_bytes b @ t # ps" "t AND 7 = TYPE_TABLE"
      "\<And>pre rest. array_size (rb_at (pre @ ps @ rest) (length pre)) (uint (drop_bit 3 t)) = Inr (rb_at (pre @ ps @ rest) (length (pre @ ps)), int ?n)"
      using array_size_read [OF es(4) "1.prems"(2)] by blast
    have "\<forall>v \<in> set (array_values L es). portable L v"
      using es(3) by (auto simp: array_values_def rawget_def image_iff intro: portable.scalar simp: scalar_def split: option.split dest!: map_of_SomeD)
    with "1.IH"(1) [OF depth Table b1(1) t(1)] obtain bss ws where e: "wb_ok b1" "wb_bytes b1 = (wb_bytes b @ t # ps) @ concat bss"
      "list_all2 (reads L) bss ws" "list_all2 same (array_values L es) ws" using t(2) by auto
    from "1.IH"(2) [OF depth Table b1(2) e(1) es(2,3)] obtain bps ws' where p: "wb_ok b'"
      "wb_bytes b' = wb_bytes b1 @ concat (map (\<lambda>(kb, vb). kb @ vb) bps) @ [TYPE_NIL]"
      "list_all2 (\<lambda>(kb, vb) (k, w). reads L kb k \<and> reads L vb w) bps (zip (map fst ?rest) ws')" "list_all2 same (map snd ?rest) ws'" by auto
    have n: "length bss = ?n" using e(3,4) by (auto dest!: list_all2_lengthD simp: array_values_keys element_keys_def)
    have raw: "k \<noteq> Lua_nil \<and> lua_rawset L es' k w = Inr (set_field es' k w)" if "(k, w) \<in> set (zip (map fst ?rest) ws')" for es' k w
      using es(2) that by (intro key_rawset) (auto dest!: set_zip_leftD)
    have "reads L (t # ps @ concat bss @ concat (map (\<lambda>(kb, vb). kb @ vb) bps) @ [TYPE_NIL])
      (Table (set_fields [] (zip (element_keys 1 ?n) ws @ zip (map fst ?rest) ws')))"
      using reads_table [OF t(3) t(4) [folded n] e(3) p(3) raw] n by simp
    moreover have "same v (Table (set_fields [] (zip (element_keys 1 ?n) ws @ zip (map fst ?rest) ws')))"
      unfolding Table by (intro same.table rebuilt_same [OF es(1,2,4) refl _ p(4)]) (use e(4) in \<open>simp add: array_values_keys\<close>)
    ultimately show ?thesis using p(1,2) e(2) by auto
  next
    case (Metapairs prs)
    let ?es = "yielded prs" and ?t = "COMBINE_TYPE TYPE_TABLE 0"
    from "1.prems"(3) Metapairs have es: "distinct (map fst ?es)" "\<forall>k \<in> fst ` set ?es. key_ok L k" "\<forall>v \<in> snd ` set ?es. portable L v"
      by (auto elim!: portable_metapairsE simp: scalar_def)
    from "1.prems"(1) Metapairs depth have b1: "wb_pairs L (d + 1) 0 ?es (wb_push [?t] b) = Inr b'" by (auto simp: pack_one.simps)
    have t: "?t AND 7 = TYPE_TABLE" "uint (drop_bit 3 ?t) = 0" using COMBINE_TYPE_parts [of 0 TYPE_TABLE] by simp_all
    have sz: "array_size (rb_at (pre @ [] @ rest) (length pre)) (uint (drop_bit 3 ?t)) = Inr (rb_at (pre @ [] @ rest) (length (pre @ [])), int (length ([] :: u8 list list)))" for pre rest
      using t(2) by (simp add: array_size_def MAX_COOKIE_def)
    from "1.IH"(3) [OF depth Metapairs b1 _ es(2,3)] "1.prems"(2) obtain bps ws' where p: "wb_ok b'"
      "wb_bytes b' = (wb_bytes b @ [?t]) @ concat (map (\<lambda>(kb, vb). kb @ vb) bps) @ [TYPE_NIL]"
      "list_all2 (\<lambda>(kb, vb) (k, w). reads L kb k \<and> reads L vb w) bps (zip (map fst ?es) ws')" "list_all2 same (map snd ?es) ws'" by auto
    have raw: "k \<noteq> Lua_nil \<and> lua_rawset L es' k w = Inr (set_field es' k w)" if "(k, w) \<in> set (zip (map fst ?es) ws')" for es' k w
      using es(2) that by (intro key_rawset) (auto dest!: set_zip_leftD)
    have "reads L (?t # [] @ concat ([] :: u8 list list) @ concat (map (\<lambda>(kb, vb). kb @ vb) bps) @ [TYPE_NIL])
      (Table (set_fields [] (zip (element_keys 1 (length ([] :: u8 list list))) [] @ zip (map fst ?es) ws')))"
      by (rule reads_table [OF t(1) sz _ p(3) raw]) simp_all
    moreover have "same v (Table (set_fields [] (zip (element_keys 1 0) [] @ zip (map fst ?es) ws')))"
      unfolding Metapairs by (intro same.metapairs rebuilt_same [OF es(1,2) _ _ _ p(4)]) (simp_all add: element_keys_def)
    ultimately show ?thesis using p(1,2) by auto
  qed (use "1.prems" depth in \<open>auto simp: pack_one.simps wb_nil_def wb_boolean_def wb_real_def wb_pointer_def scalar_def
      elim!: portable.cases intro!: packed_scalar exI conjI same.scalar reads_nil reads_boolean reads_integer reads_real reads_pointer reads_string\<close>)
next
  case (3 L d v vs b)
  from "3.prems"(1) obtain b1 where b1: "pack_one L d v b = Inr b1" "wb_elements L d vs b1 = Inr b'" by auto
  with "3.IH"(1) "3.prems" obtain bs w where 1: "wb_ok b1" "wb_bytes b1 = wb_bytes b @ bs" "reads L bs w" "same v w" by fastforce
  with "3.IH"(2) b1 "3.prems" obtain bss ws where "wb_ok b'" "wb_bytes b' = wb_bytes b1 @ concat bss" "list_all2 (reads L) bss ws" "list_all2 same vs ws"
    by fastforce
  with 1 show ?case by (intro conjI exI [of _ "bs # bss"] exI [of _ "w # ws"]) auto
next
  case (5 L d n k v es b)
  show ?case
  proof (cases "in_array n k")
    case True
    with "5.IH"(1) "5.prems" show ?thesis by auto
  next
    case False
    with "5.prems"(1) obtain b1 b2 where b: "pack_one L d k b = Inr b1" "pack_one L d v b1 = Inr b2" "wb_pairs L d n es b2 = Inr b'" by auto
    have k: "key_ok L k" using "5.prems"(3) by simp
    from "5.IH"(2) [OF False b(1) "5.prems"(2) key_portable [OF k]] obtain kb k' where 1: "wb_ok b1" "wb_bytes b1 = wb_bytes b @ kb" "reads L kb k'" "same k k'" by auto
    have "k' = k" using k 1(4) scalar_cases by (auto simp: key_ok_def)
    from "5.IH"(3) [OF False b(2) 1(1)] "5.prems"(4) obtain vb w where 2: "wb_ok b2" "wb_bytes b2 = wb_bytes b1 @ vb" "reads L vb w" "same v w" by auto
    from "5.IH"(4) [OF False b(3) 2(1)] "5.prems"(3,4) obtain bps ws where 3: "wb_ok b'"
      "wb_bytes b' = wb_bytes b2 @ concat (map (\<lambda>(kb, vb). kb @ vb) bps) @ [TYPE_NIL]"
      "list_all2 (\<lambda>(kb, vb) (k, w). reads L kb k \<and> reads L vb w) bps (zip (map fst (filter (\<lambda>e. \<not> in_array n (fst e)) es)) ws)"
      "list_all2 same (map snd (filter (\<lambda>e. \<not> in_array n (fst e)) es)) ws" by auto
    with 1 2 \<open>k' = k\<close> False show ?thesis by (intro conjI exI [of _ "(kb, vb) # bps"] exI [of _ "w # ws"]) auto
  qed
qed (auto simp: wb_nil_def)

section \<open>Any input\<close>

definition rb_ok :: "read_block \<Rightarrow> bool" where
  "rb_ok rb \<longleftrightarrow> 0 \<le> rb_len rb \<and> 0 \<le> rb_ptr rb \<and> rb_ptr rb + rb_len rb = int (length (rb_buffer rb))"

text \<open>An outcome: an error raised into Lua, or a value with at least \<open>k\<close> bytes read.\<close>

definition outcome :: "int \<Rightarrow> read_block \<Rightarrow> (read_block \<times> 'a) res \<Rightarrow> bool" where
  "outcome k rb r = (case r of Inl e \<Rightarrow> (\<exists>msg. e = Lua_Error msg) | Inr (rb', x) \<Rightarrow> rb_ok rb' \<and> rb_len rb' + k \<le> rb_len rb)"

lemma outcome_simps [simp]: "outcome k rb (Inr (rb', x)) \<longleftrightarrow> rb_ok rb' \<and> rb_len rb' + k \<le> rb_len rb"
  "outcome k rb (Inl e) \<longleftrightarrow> (\<exists>msg. e = Lua_Error msg)" "outcome k rb invalid_stream"
  by (simp_all add: outcome_def invalid_stream_def)

lemma outcome_bind:
  assumes "outcome k rb m" "\<And>rb' x. m = Inr (rb', x) \<Longrightarrow> rb_ok rb' \<Longrightarrow> rb_len rb' + k \<le> rb_len rb \<Longrightarrow> outcome j rb (f (rb', x))"
  shows "outcome j rb (bindE m f)"
  using assms by (cases m) (auto simp: outcome_def)

lemma rb_bytes_outcome: "rb_ok rb \<Longrightarrow> 0 \<le> n \<Longrightarrow> outcome n rb (rb_bytes rb n)"
  by (auto simp: rb_bytes_def rb_read_def bytes_at_def rb_ok_def)

lemma rb_bytes_length: "rb_bytes rb n = Inr (rb', bs) \<Longrightarrow> length bs = nat n"
  by (auto simp: rb_bytes_def rb_read_def bytes_at_def bindE_eq_Inr invalid_stream_def split: option.splits if_splits)

lemma outcome_weak: "outcome k rb r \<Longrightarrow> j \<le> k \<Longrightarrow> outcome j rb r"
  by (auto simp: outcome_def split: sum.splits)

lemma get_integer_outcome: "rb_ok rb \<Longrightarrow> outcome 0 rb (get_integer rb cookie)"
  unfolding get_integer_def by (auto intro!: outcome_bind [OF rb_bytes_outcome])

lemma get_buffer_outcome: "rb_ok rb \<Longrightarrow> outcome 0 rb (get_buffer rb n)"
  by (auto simp: get_buffer_def rb_read_def bytes_at_def rb_ok_def)

lemma outcome_at: "outcome 0 rb' r \<Longrightarrow> rb_len rb' + k \<le> rb_len rb \<Longrightarrow> outcome k rb r"
  by (auto simp: outcome_def split: sum.splits)

lemma get_word_outcome: "rb_ok rb \<Longrightarrow> outcome 0 rb (get_real rb)" "rb_ok rb \<Longrightarrow> outcome 0 rb (get_pointer rb)"
  unfolding get_real_def get_pointer_def by (auto intro!: outcome_bind [OF rb_bytes_outcome])

lemma push_value_outcome:
  assumes "rb_ok rb" shows "outcome 0 rb (push_value rb type cookie)"
proof -
  note get = get_word_outcome [OF assms] get_integer_outcome [OF assms] get_buffer_outcome [OF assms]
  have long: "outcome 0 rb (bindE (rb_bytes rb n) (\<lambda>(rb, bs). get_buffer rb (f bs)))" if "0 \<le> n" for n f
    by (rule outcome_bind [OF rb_bytes_outcome [OF assms that]]) (use that in \<open>auto intro!: outcome_at [OF get_buffer_outcome]\<close>)
  have map: "outcome 0 rb m \<Longrightarrow> outcome 0 rb (bindE m (\<lambda>(rb, x). Inr (rb, g x)))" for m :: "(read_block \<times> 'b) res" and g :: "'b \<Rightarrow> lval"
    by (rule outcome_bind) auto
  show ?thesis unfolding push_value_def using assms get(1-3) [THEN map] get(4) long by simp
qed

lemma array_size_outcome:
  assumes "rb_ok rb" shows "outcome 0 rb (array_size rb cookie)"
proof (cases "cookie = MAX_COOKIE - 1")
  case True
  show ?thesis unfolding array_size_def if_P [OF True]
  proof (rule outcome_bind [OF rb_bytes_outcome [OF assms]])
    fix rb' bs assume b: "rb_bytes rb 1 = Inr (rb', bs)" "rb_ok rb'" "rb_len rb' + 1 \<le> rb_len rb"
    then obtain t where "bs = [t]" using rb_bytes_length [OF b(1)] by (cases bs) auto
    then show "outcome 0 rb (case (rb', bs) of (rb, bs) \<Rightarrow> bindE (nthE bs 0) (\<lambda>type. let cookie = uint (drop_bit 3 type) in
        if type AND 7 \<noteq> TYPE_NUMBER \<or> cookie = TYPE_NUMBER_REAL then invalid_stream
        else bindE (get_integer rb cookie) (\<lambda>(rb, x). Inr (rb, wrap32 (sint x)))))"
      using b by (auto simp: Let_def intro!: outcome_at [OF outcome_bind [OF get_integer_outcome]])
  qed simp
qed (use assms in \<open>simp add: array_size_def\<close>)

definition job_rank :: "job \<Rightarrow> nat" where
  "job_rank j = (case j of Job_one \<Rightarrow> 0 | Job_hash _ \<Rightarrow> 1 | Job_array _ _ _ \<Rightarrow> 2 | Job_value _ _ \<Rightarrow> 3)"

lemma rawset_outcome: "lua_rawset L es k v = Inl e \<Longrightarrow> \<exists>msg. e = Lua_Error msg"
  by (auto simp: lua_rawset_def split: lval.splits option.splits)

lemma unpack_total:
  "rb_ok rb \<Longrightarrow> \<exists>r. unpack L j rb = Some r \<and> outcome (if j = Job_one then 1 else 0) rb r"
proof (induction "4 * nat (rb_len rb) + job_rank j" arbitrary: rb j rule: less_induct)
  case (less rb j)
  note 1 = less
  have IH: "\<exists>r. unpack L j' rb' = Some r \<and> outcome (if j' = Job_one then 1 else 0) rb' r"
    if "rb_ok rb'" "rb_len rb' < rb_len rb \<or> rb_len rb' = rb_len rb \<and> job_rank j' < job_rank j" for rb' j'
  proof (rule 1(1) [OF _ that(1)])
    have "job_rank j' \<le> 3" by (simp add: job_rank_def split: job.split)
    then show "4 * nat (rb_len rb') + job_rank j' < 4 * nat (rb_len rb) + job_rank j"
      using that 1(2) by (auto simp: rb_ok_def)
  qed
  show ?case
  proof (cases j)
    case Job_one
    show ?thesis
    proof (cases "rb_bytes rb 1")
      case (Inl e)
      then show ?thesis using rb_bytes_outcome [OF 1(2), of 1] Job_one by (subst unpack.simps) (auto simp: outcome_def)
    next
      case (Inr x)
      then obtain rb' t where x: "rb_bytes rb 1 = Inr (rb', [t])" using rb_bytes_length [of rb 1] by (cases x; cases "snd x") auto
      then have b: "rb_ok rb'" "rb_len rb' + 1 \<le> rb_len rb" using rb_bytes_outcome [OF 1(2), of 1] by auto
      have "rb_len rb' < rb_len rb" using b(2) by simp
      with IH [OF b(1), of "Job_value (t AND 7) (uint (drop_bit 3 t))"] obtain r where
        "unpack L (Job_value (t AND 7) (uint (drop_bit 3 t))) rb' = Some r" "outcome 0 rb' r" by auto
      then show ?thesis using x b(2) Job_one by (subst unpack.simps) (auto intro: outcome_at)
    qed
  next
    case (Job_value type cookie)
    show ?thesis
    proof (cases "type = TYPE_TABLE")
      case False
      then show ?thesis using push_value_outcome [OF 1(2)] Job_value by (subst unpack.simps) simp
    next
      case True
      show ?thesis
      proof (cases "array_size rb cookie")
        case (Inl e)
        then show ?thesis using array_size_outcome [OF 1(2), of cookie] True Job_value by (subst unpack.simps) (auto simp: outcome_def)
      next
        case (Inr x)
        then obtain rb' n where x: "array_size rb cookie = Inr (rb', n)" by (cases x) auto
        then have b: "rb_ok rb'" "rb_len rb' \<le> rb_len rb" using array_size_outcome [OF 1(2), of cookie] by auto
        have "rb_len rb' < rb_len rb \<or> rb_len rb' = rb_len rb \<and> job_rank (Job_array 1 n []) < job_rank j"
          using b(2) Job_value by (auto simp: job_rank_def)
        from IH [OF b(1) this] obtain r where "unpack L (Job_array 1 n []) rb' = Some r" "outcome 0 rb' r" by auto
        then show ?thesis using x b(2) True Job_value by (subst unpack.simps) (auto intro: outcome_at)
      qed
    qed
  next
    case (Job_array i n es)
    show ?thesis
    proof (cases "i \<le> n")
      case False
      from IH [OF 1(2), of "Job_hash es"] Job_array obtain r where "unpack L (Job_hash es) rb = Some r" "outcome 0 rb r"
        by (auto simp: job_rank_def)
      then show ?thesis using False Job_array by (subst unpack.simps) simp
    next
      case True
      from IH [OF 1(2), of Job_one] Job_array obtain r where r: "unpack L Job_one rb = Some r" "outcome 1 rb r"
        by (auto simp: job_rank_def)
      show ?thesis
      proof (cases r)
        case (Inl e)
        then show ?thesis using r True Job_array by (subst unpack.simps) simp
      next
        case (Inr x)
        then obtain rb' v where x: "r = Inr (rb', v)" "rb_ok rb'" "rb_len rb' < rb_len rb" using r(2) by (cases x) auto
        from IH [OF x(2), of "Job_array (i + 1) n (set_field es (Integer (word_of_int i)) v)"] x(3) obtain r' where
          "unpack L (Job_array (i + 1) n (set_field es (Integer (word_of_int i)) v)) rb' = Some r'" "outcome 0 rb' r'" by auto
        then show ?thesis using r(1) x True Job_array by (subst unpack.simps) (auto intro: outcome_at)
      qed
    qed
  next
    case (Job_hash es)
    from IH [OF 1(2), of Job_one] Job_hash obtain r where r: "unpack L Job_one rb = Some r" "outcome 1 rb r"
      by (auto simp: job_rank_def)
    show ?thesis
    proof (cases r)
      case (Inl e)
      then show ?thesis using r Job_hash by (subst unpack.simps) simp
    next
      case (Inr x)
      then obtain rb1 k where x: "r = Inr (rb1, k)" "rb_ok rb1" "rb_len rb1 < rb_len rb" using r(2) by (cases x) auto
      from IH [OF x(2), of Job_one] x(3) obtain r' where r': "unpack L Job_one rb1 = Some r'" "outcome 1 rb1 r'" by auto
      show ?thesis
      proof (cases "k = Lua_nil")
        case True
        then show ?thesis using r(1) x Job_hash by (subst unpack.simps) simp
      next
        case False
        show ?thesis
        proof (cases r')
          case (Inl e)
          then show ?thesis using r(1) r' x False Job_hash by (subst unpack.simps) simp
        next
          case (Inr y)
          then obtain rb2 v where y: "r' = Inr (rb2, v)" "rb_ok rb2" "rb_len rb2 < rb_len rb" using r'(2) x(3) by (cases y) auto
          show ?thesis
          proof (cases "lua_rawset L es k v")
            case (Inl e)
            then show ?thesis using r(1) r'(1) x y False Job_hash rawset_outcome [OF Inl] by (subst unpack.simps) simp
          next
            case (Inr es')
            from IH [OF y(2), of "Job_hash es'"] y(3) obtain q where "unpack L (Job_hash es') rb2 = Some q" "outcome 0 rb2 q" by auto
            then show ?thesis using r(1) r'(1) x y False Job_hash Inr by (subst unpack.simps) (auto intro: outcome_at)
          qed
        qed
      qed
    qed
  qed
qed

lemma unpack_all_reads:
  assumes "list_all2 (reads L) bss ws"
  shows "unpack_all L vs (rb_at (pre @ concat bss) (length pre)) = Some (Inr (vs @ ws))"
  using assms
proof (induction bss ws arbitrary: vs pre rule: list_all2_induct)
  case Nil
  show ?case by (subst unpack_all.simps) (simp add: rb_read_def rb_at_def)
next
  case (Cons bs bss w ws)
  from Cons(1) obtain t ps where bs: "bs = t # ps" and r: "\<And>pre rest.
     unpack L (Job_value (t AND 7) (uint (drop_bit 3 t))) (rb_at (pre @ ps @ rest) (length pre))
       = Some (Inr (rb_at (pre @ ps @ rest) (length (pre @ ps)), w))" unfolding reads_def by blast
  have "rb_read (rb_at (pre @ concat (bs # bss)) (length pre)) 1 = Some (rb_at (pre @ concat (bs # bss)) (length (pre @ [t])), int (length pre))"
    "bytes_at (rb_buffer (rb_at (pre @ concat (bs # bss)) (length pre))) (int (length pre)) 1 = Inr [t]"
    using bs by (auto simp: rb_read_def rb_at_def bytes_at_def)
  then show ?case using r [of "pre @ [t]" "concat bss"] Cons.IH [of "vs @ [w]" "pre @ bs"] bs
    by (subst unpack_all.simps) simp
qed

lemma unpack_all_total:
  "rb_ok rb \<Longrightarrow> \<exists>r. unpack_all L vs rb = Some r \<and> (\<forall>e. r = Inl e \<longrightarrow> (\<exists>msg. e = Lua_Error msg))"
proof (induction "nat (rb_len rb)" arbitrary: rb vs rule: less_induct)
  case (less rb)
  show ?case
  proof (cases "rb_len rb < 1")
    case True
    then show ?thesis by (subst unpack_all.simps) (simp add: rb_read_def)
  next
    case False
    let ?rb = "rb\<lparr>rb_ptr := rb_ptr rb + 1, rb_len := rb_len rb - 1\<rparr>"
    obtain t where t: "bytes_at (rb_buffer rb) (rb_ptr rb) 1 = Inr [t]"
    proof -
      have "bytes_at (rb_buffer rb) (rb_ptr rb) 1 = Inr (take 1 (drop (nat (rb_ptr rb)) (rb_buffer rb)))"
        using False less.prems by (simp add: bytes_at_def rb_ok_def)
      moreover have "nat (rb_ptr rb) < length (rb_buffer rb)" using False less.prems by (auto simp: rb_ok_def)
      then have "length (take 1 (drop (nat (rb_ptr rb)) (rb_buffer rb))) = Suc 0" by simp
      ultimately show thesis using that by (metis One_nat_def length_Suc_conv length_0_conv)
    qed
    have ok: "rb_ok ?rb" using False less.prems by (simp add: rb_ok_def)
    from unpack_total [OF ok, of L "Job_value (t AND 7) (uint (drop_bit 3 t))"] obtain r where
      r: "unpack L (Job_value (t AND 7) (uint (drop_bit 3 t))) ?rb = Some r" "outcome 0 ?rb r" by auto
    show ?thesis
    proof (cases r)
      case (Inl e)
      then show ?thesis using r t False by (subst unpack_all.simps) (simp add: rb_read_def)
    next
      case (Inr x)
      then obtain rb' v where x: "r = Inr (rb', v)" "rb_ok rb'" "rb_len rb' < rb_len rb" using r(2) by (cases x) auto
      have "nat (rb_len rb') < nat (rb_len rb)" using x False by simp
      from less.hyps [OF this x(2), of "vs @ [v]"] show ?thesis
        using r x t False by (subst unpack_all.simps) (simp add: rb_read_def)
    qed
  qed
qed

lemma pack_errors:
  "pack_one L d v b = Inl e \<Longrightarrow> \<exists>msg. e = Lua_Error msg"
  "wb_elements L d vs b = Inl e \<Longrightarrow> \<exists>msg. e = Lua_Error msg"
  "wb_pairs L d n es b = Inl e \<Longrightarrow> \<exists>msg. e = Lua_Error msg"
proof (induction L d v b and L d vs b and L d n es b arbitrary: e and e and e rule: pack_one_wb_elements_wb_pairs.induct)
  case (1 L d v b)
  from "1.prems" show ?case
    by (subst (asm) pack_one.simps) (auto simp: bindE_def split: if_splits lval.splits sum.splits intro: "1.IH")
qed (auto simp: bindE_def split: if_splits sum.splits)

lemma pack_keeps:
  "pack_one L d v b = Inr b' \<Longrightarrow> wb_ok b \<Longrightarrow> wb_ok b'"
  "wb_elements L d vs b = Inr b' \<Longrightarrow> wb_ok b \<Longrightarrow> wb_ok b'"
  "wb_pairs L d n es b = Inr b' \<Longrightarrow> wb_ok b \<Longrightarrow> wb_ok b'"
proof (induction L d v b and L d vs b and L d n es b arbitrary: b' and b' and b' rule: pack_one_wb_elements_wb_pairs.induct)
  case (1 L d v b)
  have a: "wb_ok (wb_array_size n b)" for n using "1.prems"(2) by (simp add: wb_array_size_def)
  have depth: "\<not> d > MAX_DEPTH" using "1.prems"(1) by (auto simp: pack_one.simps)
  show ?case
  proof (cases v)
    case (Table es)
    with "1.prems"(1) depth obtain b1 where "wb_elements L (d + 1) (array_values L es) (wb_array_size (rawlen L es) b) = Inr b1"
      "wb_pairs L (d + 1) (rawlen L es) es b1 = Inr b'" by (auto simp: pack_one.simps)
    with "1.IH"(1,2) [OF depth Table] a show ?thesis by blast
  next
    case (Metapairs ps)
    with "1.prems"(1) depth have "wb_pairs L (d + 1) 0 (yielded ps) (wb_push [COMBINE_TYPE TYPE_TABLE 0] b) = Inr b'" by (auto simp: pack_one.simps)
    with "1.IH"(3) [OF depth Metapairs] "1.prems"(2) show ?thesis by simp
  qed (use "1.prems" depth in \<open>auto simp: pack_one.simps wb_nil_def wb_boolean_def wb_real_def wb_pointer_def\<close>)
qed (auto simp: wb_nil_def bindE_eq_Inr split: if_splits)

section \<open>Properties\<close>

text \<open>C27: What \<^verbatim>\<open>luaseri_pack\<close> writes, \<^verbatim>\<open>luaseri_unpack\<close> reads back: as many values, the same numbers,
  strings, booleans and addresses, and tables, nested and of any shape, that have the same value under
  every key.\<close>

theorem seri_roundtrip:
  assumes "\<forall>v \<in> set vs. portable L v" "luaseri_pack L vs = Inr bs"
  shows "\<exists>ws. luaseri_unpack L bs = Some (Inr ws) \<and> list_all2 same vs ws"
proof -
  from assms(2) obtain wb where wb: "wb_elements L 0 vs wb_init = Inr wb" "seri (wb_blocks wb) (wb_len wb) = Inr bs"
    by (auto simp: luaseri_pack_def pack_from_def)
  from pack_reads(2) [OF wb(1)] assms(1) obtain bss ws where w: "wb_ok wb" "wb_bytes wb = concat bss"
    "list_all2 (reads L) bss ws" "list_all2 same vs ws" by auto
  have bs: "bs = concat bss" using seri_ok [OF w(1)] wb(2) w(2) by simp
  have "bss = [] \<or> bs \<noteq> []" using w(3) bs by (cases bss) (auto simp: list_all2_Cons1 reads_def)
  then show ?thesis
    using unpack_all_reads [OF w(3), of "[]" "[]"] w(3,4) bs by (auto simp: luaseri_unpack_def rball_init_at)
qed

text \<open>A result, or an error raised into Lua.\<close>

definition fault_free :: "'a res \<Rightarrow> bool" where
  "fault_free r = (case r of Inr _ \<Rightarrow> True | Inl (Lua_Error _) \<Rightarrow> True | Inl _ \<Rightarrow> False)"

lemma fault_free_iff: "fault_free r \<longleftrightarrow> (\<forall>e. r = Inl e \<longrightarrow> (\<exists>msg. e = Lua_Error msg))"
  by (auto simp: fault_free_def split: sum.split fault.split)


text \<open>A string of 4 GB is written as the empty string: its length is cut to a C \<^verbatim>\<open>int\<close>.\<close>

theorem seri_huge_string_lost:
  assumes "length str = 2 ^ 32"
  shows "luaseri_pack L [String str] = luaseri_pack L [String []]"
proof -
  have "wrap32 (int (length str)) = 0" by (simp add: assms wrap32_def)
  then have "wb_string str b = wb_string [] b" for b by (simp add: wb_string_def MAX_COOKIE_def wrap32_def)
  then show ?thesis by (simp add: luaseri_pack_def pack_from_def pack_one.simps)
qed

definition demo_lua :: lua where
  "demo_lua = \<lparr>rawlen = (\<lambda>es. if rawget es (Integer 1) = Lua_nil then 0 else 1), float_key = (\<lambda>d. Some (Number d))\<rparr>"

definition demo_value :: lval where
  "demo_value = Table [(Integer 1, String [104, 105]), (String [120], Table [(Integer 300, Boolean True)])]"

lemma pack_result: "wb_elements L 0 vs wb_init = Inr wb \<Longrightarrow> luaseri_pack L vs = Inr (wb_bytes wb)"
  using seri_ok [OF pack_keeps(2)] by (simp add: luaseri_pack_def pack_from_def)

lemma demo_portable: "portable demo_lua demo_value"
proof -
  have k: "key_ok demo_lua (Integer x)" "key_ok demo_lua (String [120])" for x by (simp_all add: key_ok_def scalar_def)
  have "portable demo_lua (String [104, 105])" "portable demo_lua (Boolean True)" by (auto intro: portable.scalar simp: scalar_def)
  moreover have "rawlen demo_lua es < 2 ^ 31" for es by (simp add: demo_lua_def)
  ultimately show ?thesis unfolding demo_value_def by (intro portable.table) (auto simp: k intro!: portable.table)
qed

theorem seri_roundtrip_witness:
  "\<exists>bs ws. luaseri_pack demo_lua [demo_value, Integer (- 5)] = Inr bs \<and> luaseri_unpack demo_lua bs = Some (Inr ws)
    \<and> list_all2 same [demo_value, Integer (- 5)] ws"
proof -
  have "\<exists>wb. wb_elements demo_lua 0 [demo_value, Integer (- 5)] wb_init = Inr wb"
    by (simp add: demo_value_def pack_one.simps demo_lua_def MAX_DEPTH_def array_values_def rawget_def in_array_def)
  then obtain bs where bs: "luaseri_pack demo_lua [demo_value, Integer (- 5)] = Inr bs" using pack_result by blast
  have "\<forall>v \<in> set [demo_value, Integer (- 5)]. portable demo_lua v"
    using demo_portable by (auto intro: portable.scalar simp: scalar_def)
  from seri_roundtrip [OF this bs] bs show ?thesis by blast
qed

theorem seri_huge_string_lost_witness:
  "luaseri_pack demo_lua [String (replicate (2 ^ 32) 0)] = luaseri_pack demo_lua [String []]"
  by (rule seri_huge_string_lost) (rule length_replicate)

end
