(* ===== verification/Skynet_Log.thy ===== *)
theory Skynet_Log
  imports Skynet_Threads
begin

text \<open>
  \<^verbatim>\<open>skynet-src/skynet_log.c\<close>: the file into which the messages of one service are logged. A file is the
  text written so far; whether it opens, and the text of a time, are arguments. Shown are the line that
  is written for a message, and that a report of the socket thread without data is read beyond its end.
\<close>

section \<open>Operations\<close>

definition fmt_02x :: "u8 \<Rightarrow> string" where
  "fmt_02x b = [digit_lower (unat b div 16), digit_lower (unat b mod 16)]"

text \<open>A block as \<open>sz\<close> bytes; \<open>layout\<close> gives the bytes of a structure in memory.\<close>

definition log_blob :: "(block \<Rightarrow> u8 list) \<Rightarrow> ptr option \<Rightarrow> u64 \<Rightarrow> node \<Rightarrow> string \<Rightarrow> string res" where
  "log_blob layout buffer sz st f =
     (if sz = 0 then Inr f
      else bindE (derefE (Option.bind buffer (mem st))) (\<lambda>b.
        let bs = (case b of Bytes bs \<Rightarrow> bs | _ \<Rightarrow> layout b) in
        if unat sz \<le> length bs then Inr (f @ concat (map fmt_02x (take (unat sz) bs))) else Inl Out_Of_Bounds))"

text \<open>
  \<^verbatim>\<open>memchr\<close> looks at up to \<open>sz\<close> bytes, and \<^verbatim>\<open>%*s\<close> prints up to the next zero byte, with \<open>sz\<close> as the
  smallest width.
\<close>

definition memchr0 :: "u8 list \<Rightarrow> nat \<Rightarrow> nat option res" where
  "memchr0 bs sz =
     (if 0 \<in> set (take sz bs) then Inr (Some (length (takeWhile (\<lambda>b. b \<noteq> 0) bs)))
      else if sz \<le> length bs then Inr None else Inl Out_Of_Bounds)"

definition fmt_width_s :: "nat \<Rightarrow> u8 list \<Rightarrow> string res" where
  "fmt_width_s width bs =
     (if 0 \<in> set bs then
        let s = map (\<lambda>b. char_of (unat b)) (takeWhile (\<lambda>b. b \<noteq> 0) bs) in Inr (replicate (width - length s) (CHR '' '') @ s)
      else Inl Out_Of_Bounds)"

definition log_socket :: "(block \<Rightarrow> u8 list) \<Rightarrow> ptr option \<Rightarrow> u64 \<Rightarrow> node \<Rightarrow> string \<Rightarrow> string res" where
  "log_socket layout message sz st f =
     (case Option.bind message (mem st) of
        Some (Socket_block b) \<Rightarrow>
          let f = f @ ''[socket] '' @ fmt_d (int (sk_type b)) @ '' '' @ fmt_d (sk_id b) @ '' '' @ fmt_d (sk_ud b) @ '' '' in
          bindE (case sk_buffer b of
              None \<Rightarrow>
                let sz = unat (sz - 24) in
                bindE (memchr0 (sk_text b) sz) (\<lambda>eol.
                let sz = (case eol of None \<Rightarrow> sz | Some i \<Rightarrow> i) in
                bindE (fmt_width_s sz (sk_text b)) (\<lambda>s. Inr (f @ ''['' @ s @ '']'')))
            | Some p \<Rightarrow> log_blob layout (Some p) (word_of_int (sk_ud b)) st f) (\<lambda>f.
          Inr (f @ [CHR 0x0A]))
      | _ \<Rightarrow> Inl Null_Deref)"

definition skynet_log_output :: "(block \<Rightarrow> u8 list) \<Rightarrow> u32 \<Rightarrow> nat \<Rightarrow> i32 \<Rightarrow> ptr option \<Rightarrow> u64 \<Rightarrow> node \<Rightarrow> string \<Rightarrow> string res" where
  "skynet_log_output layout source type session buffer sz st f =
     (if type = unat PTYPE_SOCKET then log_socket layout buffer sz st f
      else
        let ti = ucast (skynet_now (TI st)) :: u32;
            f = f @ '':'' @ fmt_08x source @ '' '' @ fmt_d (int type) @ '' '' @ fmt_d (sint session) @ '' '' @ fmt_u (unat ti) @ '' ''
        in bindE (log_blob layout buffer sz st f) (\<lambda>f. Inr (f @ [CHR 0x0A])))"

text \<open>The name is written into \<^verbatim>\<open>sz + 16\<close> characters. The new file, or None for NULL.\<close>

definition skynet_log_open :: "world \<Rightarrow> (string \<Rightarrow> bool) \<Rightarrow> (u64 \<Rightarrow> string) \<Rightarrow> ptr \<Rightarrow> u32 \<Rightarrow> node \<Rightarrow> (node \<times> string option) res" where
  "skynet_log_open W fopen ctime ctx handle st =
     (case skynet_getenv ''logpath'' st of
        None \<Rightarrow> Inr (st, None)
      | Some logpath \<Rightarrow>
          let tmp = logpath @ ''/'' @ fmt_08x handle @ ''.log'' in
          if length tmp < length logpath + 16 then
            if fopen tmp then
              let currenttime = skynet_now (TI st); ti = ucast (skynet_starttime (TI st)) + currenttime div 100 in
              bindE (skynet_error W (Some ctx) (''Open log file '' @ tmp) st) (\<lambda>st.
              Inr (st, Some (''open time: '' @ fmt_u (unat (ucast currenttime :: u32)) @ '' '' @ ctime ti)))
            else bindE (skynet_error W (Some ctx) (''Open log file '' @ tmp @ '' fail'') st) (\<lambda>st. Inr (st, None))
          else Inl Out_Of_Bounds)"

definition skynet_log_close :: "world \<Rightarrow> ptr \<Rightarrow> string \<Rightarrow> u32 \<Rightarrow> node \<Rightarrow> (node \<times> string) res" where
  "skynet_log_close W ctx f handle st =
     bindE (skynet_error W (Some ctx) (''Close log file :'' @ fmt_08x handle) st) (\<lambda>st.
     Inr (st, f @ ''close time: '' @ fmt_u (unat (ucast (skynet_now (TI st)) :: u32)) @ [CHR 0x0A]))"

section \<open>What is written\<close>

text \<open>The name of the file fits into the array.\<close>

lemma number_digits_length: "n < b ^ Suc k \<Longrightarrow> 2 \<le> b \<Longrightarrow> length (number_digits b n) \<le> Suc k"
proof (induction k arbitrary: n)
  case 0
  then show ?case by (simp add: number_digits.simps [of b n])
next
  case (Suc k)
  have "n div b < b ^ Suc k" using Suc.prems by (simp add: less_mult_imp_div_less mult.commute)
  then show ?case using Suc.IH [of "n div b"] Suc.prems(2) by (simp add: number_digits.simps [of b n])
qed

lemma fmt_08x_length: "length (fmt_08x h) = 8"
proof -
  have "unat h < 2 ^ LENGTH(32)" by (rule unsigned_less)
  then have "unat h < 16 ^ Suc 7" by simp
  from number_digits_length [OF this] show ?thesis by (simp add: fmt_08x_def fmt_x_def Let_def)
qed

lemma log_name_fits: "length (logpath @ ''/'' @ fmt_08x handle @ ''.log'') < length logpath + 16"
  by (simp add: fmt_08x_length)

lemma log_socket_stops:
  assumes m: "socket_message_at st sm = Some a" "sm_buffer a = None" "0 \<notin> set (sm_pad a)" and sz: "unat sz = 24 + length (sm_pad a)"
  shows "log_socket layout (Some sm) sz st f = Inl Out_Of_Bounds"
proof -
  from m obtain b where b: "mem st sm = Some (Socket_block b)" "sk_buffer b = None" "sk_text b = sm_pad a"
    by (auto simp: socket_message_at_def Let_def split: option.splits block.splits)
  have "unat (sz - 24) = length (sm_pad a)" using sz by (simp add: unat_sub word_le_nat_alt)
  then show ?thesis using b m(3) by (simp add: log_socket_def memchr0_def fmt_width_s_def)
qed

text \<open>C35: A report of the socket thread that carries no data, as every close of a connection and every
  accepted one, arrives as a message whose text has no zero byte at its end. A service that logs its
  messages reads it as a string, beyond the end of the message.\<close>

theorem socket_log_overreads:
  assumes ok: "node_ok st" and live: "node_live st (ucast (m_opaque result)) = Some p" "ctxs st p = Some c"
    and data: "if padding then 0 \<notin> set (data_string strerror (m_data result)) else m_data result = No_data"
  shows "\<exists>st' sm sz. forward_message W strerror t padding result st = Inr st'
    \<and> waiting st' = (waiting st)(c_queue c := waiting st (c_queue c) @ [\<lparr>msg_source = 0, msg_session = 0, msg_data = Some sm, msg_sz = sz\<rparr>])
    \<and> skynet_log_output layout 0 (unat (drop_bit MESSAGE_TYPE_SHIFT sz)) 0 (Some sm) (sz AND MESSAGE_TYPE_MASK) st' f = Inl Out_Of_Bounds"
proof -
  have d: "\<not> padding \<Longrightarrow> m_data result = No_data \<or> (\<exists>bs. m_data result = Data bs)" using data by simp
  let ?a = "arrives_as strerror t padding result"
  from forward_message_ok(1) [OF ok d live] obtain st' sm sz where m: "forward_message W strerror t padding result st = Inr st'"
    "waiting st' = (waiting st)(c_queue c := waiting st (c_queue c) @ [\<lparr>msg_source = 0, msg_session = 0, msg_data = Some sm, msg_sz = sz\<rparr>])"
    "drop_bit MESSAGE_TYPE_SHIFT sz = 6" "socket_message_at st' sm = Some ?a" "unat (sz AND MESSAGE_TYPE_MASK) = 24 + length (sm_pad ?a)" by blast
  have "sm_buffer ?a = None" "0 \<notin> set (sm_pad ?a)" using data by (auto simp: arrives_as_def dest: in_set_takeD)
  from log_socket_stops [OF m(4) this m(5)]
  have "skynet_log_output layout 0 (unat (drop_bit MESSAGE_TYPE_SHIFT sz)) 0 (Some sm) (sz AND MESSAGE_TYPE_MASK) st' f = Inl Out_Of_Bounds"
    by (simp add: skynet_log_output_def m(3) PTYPE_SOCKET_def)
  with m(1,2) show ?thesis by blast
qed

text \<open>The line for any other message.\<close>

lemma log_output_line:
  assumes "mem st p = Some (Bytes bs)" "unat sz = length bs" "type \<noteq> 6"
  shows "skynet_log_output layout source type session (Some p) sz st f = Inr (f @ '':'' @ fmt_08x source @ '' '' @ fmt_d (int type) @ '' ''
    @ fmt_d (sint session) @ '' '' @ fmt_u (unat (ucast (skynet_now (TI st)) :: u32)) @ '' '' @ concat (map fmt_02x bs) @ [CHR 0x0A])"
  using assms by (auto simp: skynet_log_output_def PTYPE_SOCKET_def log_blob_def Let_def unat_eq_0)

theorem socket_log_overreads_witness:
  "\<exists>st h st' sm sz. context_setup 0 0 node1 = Inr (st, ctx_brk node1)
    \<and> forward_message idle_world (\<lambda>_. []) 3 False \<lparr>m_id = 1, m_opaque = ucast (h :: u32), m_ud = 0, m_data = No_data\<rparr> st = Inr st'
    \<and> skynet_log_output (\<lambda>_. []) 0 (unat (drop_bit MESSAGE_TYPE_SHIFT sz)) 0 (Some sm) (sz AND MESSAGE_TYPE_MASK) st' [] = Inl Out_Of_Bounds"
proof -
  obtain st h c where st: "context_setup 0 0 node1 = Inr (st, ctx_brk node1)" "node_ok st"
    "node_live st h = Some (ctx_brk node1)" "ctxs st (ctx_brk node1) = Some c"
    using node1_service .
  let ?r = "\<lparr>m_id = 1, m_opaque = ucast h, m_ud = 0, m_data = No_data\<rparr>"
  have "node_live st (ucast (m_opaque ?r)) = Some (ctx_brk node1)" using st(3) by (simp add: ucast_back)
  from socket_log_overreads [OF st(2) this st(4), of False "\<lambda>_. []" idle_world 3 "\<lambda>_. []" "[]"] st(1) show ?thesis by auto
qed

end
