(* ===== verification/Harbor_Service.thy ===== *)
theory Harbor_Service
  imports Gate_Service
begin

text \<open>
  The harbor service, \<^verbatim>\<open>service-src/service_harbor.c\<close>: it holds one connection to each other node of
  the cluster, sends the messages for services of other nodes over them, keeps messages for nodes that
  are not connected and for names that are not known yet, and delivers what arrives.

  The state is the record \<open>harbor\<close>. The calls that the service makes are recorded in order in
  \<open>hb_trace\<close>; what \<^verbatim>\<open>skynet_send\<close> answers is an argument. Message data is a list of bytes with its
  size as length, so allocating and freeing it is not part of the model. Queue indices are
  non-negative C \<^verbatim>\<open>int\<close>s and are modelled as \<open>nat\<close>. A text message is followed by a zero byte, as
  \<^verbatim>\<open>skynet_send\<close> copies it.
\<close>

section \<open>Data\<close>

definition HASH_SIZE :: nat where "HASH_SIZE = 4096"
definition HARBOR_QUEUE_SIZE :: nat where "HARBOR_QUEUE_SIZE = 1024"
definition HEADER_COOKIE_LENGTH :: int where "HEADER_COOKIE_LENGTH = 12"
definition REMOTE_MAX :: nat where "REMOTE_MAX = 256"

record remote_message_header =
  rh_source :: u32
  rh_destination :: u32
  rh_session :: u32

record harbor_msg =
  hm_header :: remote_message_header
  hm_buffer :: "u8 list"

record harbor_msg_queue =
  hq_size :: nat
  hq_head :: nat
  hq_tail :: nat
  hq_data :: "harbor_msg list"

record keyvalue =
  kv_key :: "u8 list"
  kv_hash :: u32
  kv_value :: u32
  kv_queue :: "harbor_msg_queue option"

text \<open>The chains of the buckets.\<close>

type_synonym hashmap = "nat \<Rightarrow> keyvalue list"

datatype slave_status = STATUS_WAIT | STATUS_HANDSHAKE | STATUS_HEADER | STATUS_CONTENT | STATUS_DOWN

text \<open>A byte of \<open>sl_recv_buffer\<close> is \<open>None\<close> until it is written.\<close>

record slave =
  sl_fd :: int
  sl_queue :: "harbor_msg_queue option"
  sl_status :: slave_status
  sl_length :: int
  sl_read :: int
  sl_size :: "u8 list"
  sl_recv_buffer :: "u8 option list option"

datatype harbor_call = Send_msg u32 u32 i32 i32 "u8 list" | Close_sock int | Start_sock int
  | Send_sock int "u8 list" | Log_msg "u8 list" | Set_callback | Start_harbor

record harbor =
  hb_id :: int
  hb_slave :: u32
  hb_map :: hashmap
  hb_s :: "slave list"
  hb_trace :: "harbor_call list"

type_synonym answers = "harbor_call list \<Rightarrow> harbor_call \<Rightarrow> int"

definition hcall :: "harbor_call \<Rightarrow> harbor \<Rightarrow> harbor" where
  "hcall a h = h\<lparr>hb_trace := hb_trace h @ [a]\<rparr>"

definition hlog :: "string \<Rightarrow> harbor \<Rightarrow> harbor" where
  "hlog s h = hcall (Log_msg (bytes s)) h"

definition set_slave :: "nat \<Rightarrow> slave \<Rightarrow> harbor \<Rightarrow> harbor" where
  "set_slave i s h = h\<lparr>hb_s := (hb_s h)[i := s]\<rparr>"

text \<open>\<^verbatim>\<open>memcpy(dst + off, src, n)\<close>.\<close>

definition memcpyE :: "'a list \<Rightarrow> int \<Rightarrow> 'a list \<Rightarrow> int \<Rightarrow> 'a list res" where
  "memcpyE dst off src n =
     (if 0 \<le> n \<and> n \<le> int (length src) \<and> 0 \<le> off \<and> off + n \<le> int (length dst)
      then Inr (take (nat off) dst @ take (nat n) src @ drop (nat (off + n)) dst) else Inl Out_Of_Bounds)"

section \<open>Queues of messages\<close>

definition blank_harbor_msg :: harbor_msg where
  "blank_harbor_msg = \<lparr>hm_header = \<lparr>rh_source = 0, rh_destination = 0, rh_session = 0\<rparr>, hm_buffer = []\<rparr>"

definition expand_harbor_queue :: "harbor_msg_queue \<Rightarrow> harbor_msg_queue" where
  "expand_harbor_queue q =
     \<lparr>hq_size = hq_size q * 2, hq_head = 0, hq_tail = hq_size q - 1,
      hq_data = map (\<lambda>i. hq_data q ! ((i + hq_head q) mod hq_size q)) [0..<hq_size q - 1]
        @ replicate (hq_size q + 1) blank_harbor_msg\<rparr>"

definition push_queue_msg :: "harbor_msg_queue \<Rightarrow> harbor_msg \<Rightarrow> harbor_msg_queue res" where
  "push_queue_msg q m =
     (let q = (if (hq_tail q + 1) mod hq_size q = hq_head q then expand_harbor_queue q else q) in
      bindE (updE (hq_data q) (hq_tail q) m) (\<lambda>d.
      Inr (q\<lparr>hq_data := d, hq_tail := (hq_tail q + 1) mod hq_size q\<rparr>)))"

definition push_queue :: "harbor_msg_queue \<Rightarrow> u8 list \<Rightarrow> remote_message_header \<Rightarrow> harbor_msg_queue res" where
  "push_queue q buffer header = push_queue_msg q \<lparr>hm_header = header, hm_buffer = buffer\<rparr>"

definition pop_queue :: "harbor_msg_queue \<Rightarrow> (harbor_msg_queue \<times> harbor_msg option) res" where
  "pop_queue q =
     (if hq_head q = hq_tail q then Inr (q, None)
      else bindE (nthE (hq_data q) (hq_head q)) (\<lambda>slot.
        Inr (q\<lparr>hq_head := (hq_head q + 1) mod hq_size q\<rparr>, Some slot)))"

definition new_queue :: harbor_msg_queue where
  "new_queue = \<lparr>hq_size = HARBOR_QUEUE_SIZE, hq_head = 0, hq_tail = 0,
     hq_data = replicate HARBOR_QUEUE_SIZE blank_harbor_msg\<rparr>"

text \<open>The loop \<^verbatim>\<open>while ((m = pop_queue(queue)) != NULL)\<close> with its body as an argument.\<close>

partial_function (option) pop_loop ::
  "(harbor_msg \<Rightarrow> 's \<Rightarrow> 's res) \<Rightarrow> harbor_msg_queue \<Rightarrow> 's \<Rightarrow> (harbor_msg_queue \<times> 's) res option" where
  "pop_loop body q s =
     (case pop_queue q of
        Inl e \<Rightarrow> Some (Inl e)
      | Inr (q, None) \<Rightarrow> Some (Inr (q, s))
      | Inr (q, Some m) \<Rightarrow> (case body m s of Inl e \<Rightarrow> Some (Inl e) | Inr s \<Rightarrow> pop_loop body q s))"

text \<open>The body frees the message data.\<close>

definition release_queue :: "harbor_msg_queue option \<Rightarrow> unit res" where
  "release_queue queue =
     (case queue of None \<Rightarrow> Inr ()
      | Some q \<Rightarrow> bindE (loopE (pop_loop (\<lambda>m s. Inr s) q ())) (\<lambda>_. Inr ()))"

section \<open>The table of names\<close>

text \<open>A little-endian word in memory.\<close>

definition le_word :: "u8 list \<Rightarrow> nat \<Rightarrow> u32" where
  "le_word bs i = ucast (bs ! i) OR push_bit 8 (ucast (bs ! (i + 1))) OR push_bit 16 (ucast (bs ! (i + 2)))
     OR push_bit 24 (ucast (bs ! (i + 3)))"

definition name_hash :: "u8 list \<Rightarrow> u32" where
  "name_hash gname = le_word gname 0 XOR le_word gname 4 XOR le_word gname 8 XOR le_word gname 12"

definition name_bucket :: "u8 list \<Rightarrow> nat" where
  "name_bucket gname = unat (name_hash gname) mod HASH_SIZE"

text \<open>The text in an array of 16 characters, on which \<^verbatim>\<open>strncmp\<close> compares.\<close>

definition name_text :: "u8 list \<Rightarrow> u8 list" where
  "name_text gname = takeWhile (\<lambda>b. b \<noteq> 0) (take GLOBALNAME_LENGTH gname)"

text \<open>A node is given by its position in the chain of its bucket.\<close>

definition hash_search :: "hashmap \<Rightarrow> u8 list \<Rightarrow> nat option" where
  "hash_search hash gname =
     (let nodes = hash (name_bucket gname) in
      find (\<lambda>i. kv_hash (nodes ! i) = name_hash gname \<and> name_text (kv_key (nodes ! i)) = name_text gname)
        [0..<length nodes])"

definition hash_insert :: "hashmap \<Rightarrow> u8 list \<Rightarrow> hashmap \<times> nat" where
  "hash_insert hash gname =
     (let node = \<lparr>kv_key = gname, kv_hash = name_hash gname, kv_value = 0, kv_queue = None\<rparr>;
          b = name_bucket gname
      in (hash(b := node # hash b), 0))"

definition hash_new :: hashmap where
  "hash_new = (\<lambda>_. [])"

primrec release_nodes :: "keyvalue list \<Rightarrow> unit res" where
  "release_nodes [] = Inr ()"
| "release_nodes (node # nodes) = bindE (release_queue (kv_queue node)) (\<lambda>_. release_nodes nodes)"

definition hash_delete :: "hashmap \<Rightarrow> unit res" where
  "hash_delete hash = fold (\<lambda>i r. bindE r (\<lambda>_. release_nodes (hash i))) [0..<HASH_SIZE] (Inr ())"

text \<open>The node that is found or added, and its new contents.\<close>

definition hash_node :: "hashmap \<Rightarrow> u8 list \<Rightarrow> hashmap \<times> nat" where
  "hash_node hash gname = (case hash_search hash gname of Some i \<Rightarrow> (hash, i) | None \<Rightarrow> hash_insert hash gname)"

definition set_node :: "u8 list \<Rightarrow> nat \<Rightarrow> keyvalue \<Rightarrow> harbor \<Rightarrow> harbor" where
  "set_node gname i node h =
     (let b = name_bucket gname in h\<lparr>hb_map := (hb_map h)(b := (hb_map h b)[i := node])\<rparr>)"

section \<open>The service\<close>

definition close_harbor :: "harbor \<Rightarrow> nat \<Rightarrow> harbor res" where
  "close_harbor h i =
     bindE (nthE (hb_s h) i) (\<lambda>s.
     let h = (if sl_fd s \<noteq> 0 then hcall (Close_sock (sl_fd s)) h else h) in
     bindE (release_queue (sl_queue s)) (\<lambda>_.
     Inr (set_slave i (s\<lparr>sl_status := STATUS_DOWN, sl_queue := None\<rparr>) h)))"

definition report_harbor_down :: "harbor \<Rightarrow> nat \<Rightarrow> harbor" where
  "report_harbor_down h i = hcall (Send_msg 0 (hb_slave h) PTYPE_TEXT 0 (bytes (''D '' @ fmt_d (int i)))) h"

definition slave_zero :: slave where
  "slave_zero = \<lparr>sl_fd = 0, sl_queue = None, sl_status = STATUS_WAIT, sl_length = 0, sl_read = 0,
     sl_size = [0, 0, 0, 0], sl_recv_buffer = None\<rparr>"

definition harbor_create :: harbor where
  "harbor_create = \<lparr>hb_id = 0, hb_slave = 0, hb_map = hash_new, hb_s = replicate REMOTE_MAX slave_zero, hb_trace = []\<rparr>"

text \<open>What \<^verbatim>\<open>harbor_release\<close> frees is not used afterwards.\<close>

definition harbor_release :: "harbor \<Rightarrow> harbor res" where
  "harbor_release h =
     bindE (fold (\<lambda>i r. bindE r (\<lambda>h. bindE (nthE (hb_s h) i) (\<lambda>s.
         if sl_fd s \<noteq> 0 \<and> sl_status s \<noteq> STATUS_DOWN then close_harbor h i else Inr h))) [1..<REMOTE_MAX] (Inr h)) (\<lambda>h.
     bindE (hash_delete (hb_map h)) (\<lambda>_. Inr h))"

definition to_bigendian :: "u32 \<Rightarrow> u8 list" where
  "to_bigendian n = [ucast (drop_bit 24 n AND 0xff), ucast (drop_bit 16 n AND 0xff), ucast (drop_bit 8 n AND 0xff), ucast (n AND 0xff)]"

definition header_to_message :: "remote_message_header \<Rightarrow> u8 list" where
  "header_to_message header = to_bigendian (rh_source header) @ to_bigendian (rh_destination header) @ to_bigendian (rh_session header)"

text \<open>On the bytes of the word in memory.\<close>

definition from_bigendian :: "u8 list \<Rightarrow> u32" where
  "from_bigendian bs = push_bit 24 (ucast (bs ! 0)) OR push_bit 16 (ucast (bs ! 1)) OR push_bit 8 (ucast (bs ! 2)) OR ucast (bs ! 3)"

definition message_to_header :: "u8 list \<Rightarrow> remote_message_header" where
  "message_to_header message = \<lparr>rh_source = from_bigendian (take 4 message),
     rh_destination = from_bigendian (take 4 (drop 4 message)), rh_session = from_bigendian (take 4 (drop 8 message))\<rparr>"

text \<open>Reading memory that has to be written.\<close>

definition written :: "'a option list \<Rightarrow> 'a list res" where
  "written xs = (if None \<in> set xs then Inl Uninit_Read else Inr (map the xs))"

definition forward_local_messsage :: "answers \<Rightarrow> harbor \<Rightarrow> u8 option list \<Rightarrow> int \<Rightarrow> harbor res" where
  "forward_local_messsage ans h msg sz =
     (if HEADER_COOKIE_LENGTH \<le> sz \<and> sz \<le> int (length msg) then
        bindE (written (take 12 (drop (nat (sz - HEADER_COOKIE_LENGTH)) msg))) (\<lambda>cookie.
        bindE (written (take (nat (sz - HEADER_COOKIE_LENGTH)) msg)) (\<lambda>data.
        let header = message_to_header cookie;
            type = drop_bit HANDLE_REMOTE_SHIFT (rh_destination header);
            destination = (rh_destination header AND HANDLE_MASK) OR push_bit HANDLE_REMOTE_SHIFT (word_of_int (hb_id h));
            a = Send_msg (rh_source header) destination (type OR PTYPE_TAG_DONTCOPY) (rh_session header) data;
            r = ans (hb_trace h) a; h = hcall a h in
        Inr (if r < 0 then
          let h = (if type \<noteq> PTYPE_ERROR
            then hcall (Send_msg destination (rh_source header) PTYPE_ERROR (rh_session header) []) h else h) in
          hlog (''Unknown destination :'' @ fmt_x destination @ '' from :'' @ fmt_x (rh_source header) @ '' type(''
            @ fmt_d (sint type) @ '')'') h
        else h)))
      else Inl Out_Of_Bounds)"

definition send_remote :: "int \<Rightarrow> u8 list \<Rightarrow> remote_message_header \<Rightarrow> harbor \<Rightarrow> harbor" where
  "send_remote fd buffer cookie h =
     (let sz_header = length buffer + 12 in
      if sz_header > 2 ^ 32 - 1
      then hlog (''remote message from :'' @ fmt_08x (rh_source cookie) @ '' to :'' @ fmt_08x (rh_destination cookie) @ '' is too large.'') h
      else hcall (Send_sock fd (to_bigendian (of_nat sz_header) @ buffer @ header_to_message cookie)) h)"

definition dispatch_name_queue :: "harbor \<Rightarrow> keyvalue \<Rightarrow> (harbor \<times> keyvalue) res" where
  "dispatch_name_queue h node =
     (let handle = kv_value node; hid = unat (drop_bit HANDLE_REMOTE_SHIFT handle) in
      bindE (nthE (hb_s h) hid) (\<lambda>s.
      if sl_fd s = 0 then
        if sl_status s = STATUS_DOWN then
          Inr (hcall (Log_msg (bytes ''Drop message to '' @ name_text (kv_key node) @ bytes ('' (in harbor '' @ fmt_d (int hid) @ '')''))) h, node)
        else
          bindE (case sl_queue s of
              None \<Rightarrow> Inr (s\<lparr>sl_queue := kv_queue node\<rparr>, node\<lparr>kv_queue := None\<rparr>)
            | Some sq \<Rightarrow> bindE (derefE (kv_queue node)) (\<lambda>q.
                bindE (loopE (pop_loop (\<lambda>m sq. push_queue_msg sq m) q sq)) (\<lambda>(q, sq).
                Inr (s\<lparr>sl_queue := Some sq\<rparr>, node\<lparr>kv_queue := Some q\<rparr>)))) (\<lambda>(s, node).
          let h = set_slave hid s h in
          if hid = unat (drop_bit HANDLE_REMOTE_SHIFT (hb_slave h)) then
            bindE (derefE (sl_queue s)) (\<lambda>sq.
            bindE (loopE (pop_loop (\<lambda>m h. Inr (hcall (Send_msg (rh_source (hm_header m)) handle
                (drop_bit HANDLE_REMOTE_SHIFT (rh_destination (hm_header m)) OR PTYPE_TAG_DONTCOPY)
                (rh_session (hm_header m)) (hm_buffer m)) h)) sq h)) (\<lambda>(sq, h).
            bindE (release_queue (Some sq)) (\<lambda>_.
            Inr (set_slave hid (s\<lparr>sl_queue := None\<rparr>) h, node))))
          else Inr (h, node))
      else
        bindE (derefE (kv_queue node)) (\<lambda>q.
        bindE (loopE (pop_loop (\<lambda>m h. Inr (send_remote (sl_fd s) (hm_buffer m)
            ((hm_header m)\<lparr>rh_destination := rh_destination (hm_header m) OR (handle AND HANDLE_MASK)\<rparr>) h)) q h)) (\<lambda>(q, h).
        Inr (h, node\<lparr>kv_queue := Some q\<rparr>)))))"

definition dispatch_queue :: "harbor \<Rightarrow> nat \<Rightarrow> harbor res" where
  "dispatch_queue h i =
     bindE (nthE (hb_s h) i) (\<lambda>s.
     bindE (assertE (sl_fd s \<noteq> 0)) (\<lambda>_.
     case sl_queue s of None \<Rightarrow> Inr h
     | Some q \<Rightarrow>
         bindE (loopE (pop_loop (\<lambda>m h. Inr (send_remote (sl_fd s) (hm_buffer m) (hm_header m) h)) q h)) (\<lambda>(q, h).
         bindE (release_queue (Some q)) (\<lambda>_.
         Inr (set_slave i (s\<lparr>sl_queue := None\<rparr>) h)))))"

section \<open>Data from the other nodes\<close>

text \<open>
  A pass through the loop of \<^verbatim>\<open>push_socket_data\<close>, with the rest of the buffer and its size, for each
  status; a pass falls through into the next status. A pass returns or goes on with the loop.
\<close>

datatype pass = Return harbor | Loop harbor "u8 list" int

definition content_pass :: "answers \<Rightarrow> harbor \<Rightarrow> nat \<Rightarrow> u8 list \<Rightarrow> int \<Rightarrow> pass res" where
  "content_pass ans h i buffer sz =
     bindE (nthE (hb_s h) i) (\<lambda>s.
     bindE (derefE (sl_recv_buffer s)) (\<lambda>recv.
     let need = sl_length s - sl_read s in
     if sz < need then
       bindE (memcpyE recv (sl_read s) (map Some buffer) sz) (\<lambda>recv.
       Inr (Return (set_slave i (s\<lparr>sl_recv_buffer := Some recv, sl_read := sl_read s + sz\<rparr>) h)))
     else
       bindE (memcpyE recv (sl_read s) (map Some buffer) need) (\<lambda>recv.
       bindE (forward_local_messsage ans h recv (sl_length s)) (\<lambda>h.
       let h = set_slave i (s\<lparr>sl_length := 0, sl_read := 0, sl_recv_buffer := None, sl_status := STATUS_HEADER\<rparr>) h in
       Inr (if sz - need = 0 then Return h else Loop h (drop (nat need) buffer) (sz - need))))))"

definition header_pass :: "answers \<Rightarrow> harbor \<Rightarrow> nat \<Rightarrow> u8 list \<Rightarrow> int \<Rightarrow> pass res" where
  "header_pass ans h i buffer sz =
     bindE (nthE (hb_s h) i) (\<lambda>s.
     let need = 4 - sl_read s in
     if sz < need then
       bindE (memcpyE (sl_size s) (sl_read s) buffer sz) (\<lambda>len.
       Inr (Return (set_slave i (s\<lparr>sl_size := len, sl_read := sl_read s + sz\<rparr>) h)))
     else
       bindE (memcpyE (sl_size s) (sl_read s) buffer need) (\<lambda>len.
       let buffer = drop (nat need) buffer; sz = sz - need; s = s\<lparr>sl_size := len\<rparr>; h = set_slave i s h in
       if len ! 0 \<noteq> 0 then
         bindE (close_harbor (hlog (''Message is too long from harbor '' @ fmt_d (int i)) h) i) (\<lambda>h. Inr (Return h))
       else
         let n = uint (push_bit 16 (ucast (len ! 1)) OR push_bit 8 (ucast (len ! 2)) OR ucast (len ! 3) :: i32);
             h = set_slave i (s\<lparr>sl_length := n, sl_read := 0, sl_recv_buffer := Some (replicate (nat n) None), sl_status := STATUS_CONTENT\<rparr>) h
         in if sz = 0 then Inr (Return h) else content_pass ans h i buffer sz))"

definition handshake_pass :: "answers \<Rightarrow> harbor \<Rightarrow> nat \<Rightarrow> int \<Rightarrow> u8 list \<Rightarrow> int \<Rightarrow> pass res" where
  "handshake_pass ans h i fd buffer sz =
     bindE (nthE buffer 0) (\<lambda>remote_id.
     if unat remote_id \<noteq> i then
       bindE (close_harbor (hlog (''Invalid shakehand id ('' @ fmt_d (int i) @ '') from fd = '' @ fmt_d fd @ '' , harbor = ''
         @ fmt_d (uint remote_id)) h) i) (\<lambda>h. Inr (Return h))
     else
       bindE (nthE (hb_s h) i) (\<lambda>s.
       bindE (dispatch_queue (set_slave i (s\<lparr>sl_status := STATUS_HEADER\<rparr>) h) i) (\<lambda>h.
       if sz - 1 = 0 then Inr (Loop h (drop 1 buffer) 0) else header_pass ans h i (drop 1 buffer) (sz - 1))))"

definition socket_pass :: "answers \<Rightarrow> harbor \<Rightarrow> nat \<Rightarrow> int \<Rightarrow> u8 list \<Rightarrow> int \<Rightarrow> pass res" where
  "socket_pass ans h i fd buffer sz =
     bindE (nthE (hb_s h) i) (\<lambda>s.
     case sl_status s of
       STATUS_HANDSHAKE \<Rightarrow> handshake_pass ans h i fd buffer sz
     | STATUS_HEADER \<Rightarrow> header_pass ans h i buffer sz
     | STATUS_CONTENT \<Rightarrow> content_pass ans h i buffer sz
     | _ \<Rightarrow> Inr (Return h))"

partial_function (option) socket_loop :: "answers \<Rightarrow> harbor \<Rightarrow> nat \<Rightarrow> int \<Rightarrow> u8 list \<Rightarrow> int \<Rightarrow> harbor res option" where
  "socket_loop ans h i fd buffer sz =
     (case socket_pass ans h i fd buffer sz of
        Inl e \<Rightarrow> Some (Inl e)
      | Inr (Return h) \<Rightarrow> Some (Inr h)
      | Inr (Loop h buffer sz) \<Rightarrow> socket_loop ans h i fd buffer sz)"

text \<open>The slot of a connection, or 0.\<close>

definition harbor_id :: "harbor \<Rightarrow> int \<Rightarrow> nat" where
  "harbor_id h fd = (case find (\<lambda>i. sl_fd (hb_s h ! i) = fd) [1..<REMOTE_MAX] of None \<Rightarrow> 0 | Some i \<Rightarrow> i)"

definition push_socket_data :: "answers \<Rightarrow> harbor \<Rightarrow> skynet_socket_message \<Rightarrow> harbor res" where
  "push_socket_data ans h message =
     bindE (assertE (sm_type message = SKYNET_SOCKET_TYPE_DATA)) (\<lambda>_.
     let fd = sint (sm_id message) in
     case find (\<lambda>i. sl_fd (hb_s h ! i) = fd) [1..<REMOTE_MAX] of
       None \<Rightarrow> Inr (hlog (''Invalid socket fd ('' @ fmt_d fd @ '') data'') h)
     | Some i \<Rightarrow> loopE (socket_loop ans h i fd (case sm_buffer message of None \<Rightarrow> [] | Some b \<Rightarrow> b) (sm_ud message)))"

section \<open>Messages to other nodes\<close>

definition update_name :: "harbor \<Rightarrow> u8 list \<Rightarrow> u32 \<Rightarrow> harbor res" where
  "update_name h gname handle =
     (let (hash, i) = hash_node (hb_map h) gname; h = h\<lparr>hb_map := hash\<rparr> in
      bindE (nthE (hash (name_bucket gname)) i) (\<lambda>node.
      let node = node\<lparr>kv_value := handle\<rparr> in
      if kv_queue node \<noteq> None then
        bindE (dispatch_name_queue h node) (\<lambda>(h, node).
        bindE (release_queue (kv_queue node)) (\<lambda>_.
        Inr (set_node gname i (node\<lparr>kv_queue := None\<rparr>) h)))
      else Inr (set_node gname i node h)))"

text \<open>The result 1 keeps the message data from being freed.\<close>

definition remote_send_handle :: "harbor \<Rightarrow> u32 \<Rightarrow> u32 \<Rightarrow> i32 \<Rightarrow> i32 \<Rightarrow> u8 list \<Rightarrow> (harbor \<times> int) res" where
  "remote_send_handle h source destination type session msg =
     (let hid = unat (drop_bit HANDLE_REMOTE_SHIFT destination) in
      if int hid = hb_id h then Inr (hcall (Send_msg source destination (type OR PTYPE_TAG_DONTCOPY) session msg) h, 1)
      else
        bindE (nthE (hb_s h) hid) (\<lambda>s.
        let header = \<lparr>rh_source = source, rh_destination = push_bit HANDLE_REMOTE_SHIFT type OR (destination AND HANDLE_MASK),
              rh_session = session\<rparr> in
        if sl_fd s = 0 \<or> sl_status s = STATUS_HANDSHAKE then
          if sl_status s = STATUS_DOWN then
            Inr (hlog (''Drop message to harbor '' @ fmt_d (int hid) @ '' from '' @ fmt_x source @ '' to '' @ fmt_x destination
                @ '' (session = '' @ fmt_d (sint session) @ '', msgsz = '' @ fmt_d (int (length msg)) @ '')'')
              (hcall (Send_msg destination source PTYPE_ERROR 0 []) h), 0)
          else
            bindE (push_queue (case sl_queue s of None \<Rightarrow> new_queue | Some q \<Rightarrow> q) msg header) (\<lambda>q.
            Inr (set_slave hid (s\<lparr>sl_queue := Some q\<rparr>) h, 1))
        else Inr (send_remote (sl_fd s) msg header h, 0)))"

definition remote_send_name :: "harbor \<Rightarrow> u32 \<Rightarrow> u8 list \<Rightarrow> i32 \<Rightarrow> i32 \<Rightarrow> u8 list \<Rightarrow> (harbor \<times> int) res" where
  "remote_send_name h source gname type session msg =
     (let (hash, i) = hash_node (hb_map h) gname; h = h\<lparr>hb_map := hash\<rparr> in
      bindE (nthE (hash (name_bucket gname)) i) (\<lambda>node.
      if kv_value node = 0 then
        bindE (push_queue (case kv_queue node of None \<Rightarrow> new_queue | Some q \<Rightarrow> q) msg
            \<lparr>rh_source = source, rh_destination = push_bit HANDLE_REMOTE_SHIFT type, rh_session = session\<rparr>) (\<lambda>q.
        Inr (hcall (Send_msg 0 (hb_slave h) PTYPE_TEXT 0 (bytes ''Q '' @ name_text gname)) (set_node gname i (node\<lparr>kv_queue := Some q\<rparr>) h), 1))
      else remote_send_handle h source (kv_value node) type session msg))"

definition handshake :: "harbor \<Rightarrow> nat \<Rightarrow> harbor res" where
  "handshake h i = bindE (nthE (hb_s h) i) (\<lambda>s. Inr (hcall (Send_sock (sl_fd s) [word_of_int (hb_id h)]) h))"

definition command_connect :: "harbor \<Rightarrow> char \<Rightarrow> string \<Rightarrow> harbor res" where
  "command_connect h c arg =
     (let buffer = takeWhile (\<lambda>c. c \<noteq> CHR 0x00) arg;
          (fd, i) = (case scan_int buffer of None \<Rightarrow> (0, 0)
            | Some (fd, r) \<Rightarrow> (case scan_int r of None \<Rightarrow> (fd, 0) | Some (i, _) \<Rightarrow> (fd, i)))
      in if fd = 0 \<or> i \<le> 0 \<or> i \<ge> int REMOTE_MAX then Inr (hlog (''Invalid command '' @ c # '' '' @ buffer) h)
      else
        bindE (nthE (hb_s h) (nat i)) (\<lambda>s.
        if sl_fd s \<noteq> 0 then Inr (hlog (''Harbor '' @ fmt_d i @ '' alreay exist'') h)
        else
          let s = s\<lparr>sl_fd := fd\<rparr>; h = hcall (Start_sock fd) (set_slave (nat i) s h) in
          bindE (handshake h (nat i)) (\<lambda>h.
          if c = CHR ''S'' then Inr (set_slave (nat i) (s\<lparr>sl_status := STATUS_HANDSHAKE\<rparr>) h)
          else dispatch_queue (set_slave (nat i) (s\<lparr>sl_status := STATUS_HEADER\<rparr>) h) (nat i))))"

definition harbor_command :: "harbor \<Rightarrow> string \<Rightarrow> u32 \<Rightarrow> harbor res" where
  "harbor_command h msg source =
     (let s = int (length msg) - 2; text = msg @ [CHR 0x00] in
      if text ! 0 = CHR ''N'' then
        if s \<le> 0 \<or> s \<ge> int GLOBALNAME_LENGTH
        then bindE (str_at text 2) (\<lambda>name. Inr (hlog (''Invalid global name '' @ name) h))
        else update_name h (bytes (drop 2 msg) @ replicate (GLOBALNAME_LENGTH - nat s) 0) source
      else if text ! 0 = CHR ''S'' \<or> text ! 0 = CHR ''A'' then
        if s < 0 then Inl Out_Of_Bounds else command_connect h (text ! 0) (drop 2 msg)
      else bindE (str_at text 0) (\<lambda>command. Inr (hlog (''Unknown command '' @ command) h)))"

text \<open>The message by its type. A remote message has a name, a handle, a type and the data.\<close>

datatype harbor_in = Socket_in skynet_socket_message | Harbor_in string
  | System_in "u8 list" u32 i32 "u8 list" | Other_in i32

definition mainloop :: "answers \<Rightarrow> harbor \<Rightarrow> i32 \<Rightarrow> u32 \<Rightarrow> harbor_in \<Rightarrow> harbor res" where
  "mainloop ans h session source msg =
     (case msg of
        Socket_in message \<Rightarrow>
          let i = harbor_id h (sint (sm_id message)) in
          if sm_type message = SKYNET_SOCKET_TYPE_DATA then push_socket_data ans h message
          else if sm_type message = SKYNET_SOCKET_TYPE_ERROR \<or> sm_type message = SKYNET_SOCKET_TYPE_CLOSE then
            Inr (if i \<noteq> 0 then report_harbor_down h i else hlog (''Unkown fd ('' @ fmt_d (sint (sm_id message)) @ '') closed'') h)
          else if sm_type message = SKYNET_SOCKET_TYPE_CONNECT then Inr h
          else if sm_type message = SKYNET_SOCKET_TYPE_WARNING then
            Inr (if i \<noteq> 0 then hlog (''message havn't send to Harbor ('' @ fmt_d (int i) @ '') reach '' @ fmt_d (sm_ud message) @ '' K'') h else h)
          else Inr (hlog ''recv invalid socket message type 6'' h)
      | Harbor_in text \<Rightarrow> harbor_command h text source
      | System_in gname handle type data \<Rightarrow>
          bindE (if handle = 0 then remote_send_name h source gname type session data
                 else remote_send_handle h source handle type session data) (\<lambda>(h, _). Inr h)
      | Other_in type \<Rightarrow>
          let h = hlog (''recv invalid message from '' @ fmt_x source @ '',  type = '' @ fmt_d (sint type)) h in
          Inr (if session \<noteq> 0 \<and> type \<noteq> PTYPE_ERROR then hcall (Send_msg 0 source PTYPE_ERROR session []) h else h))"

definition harbor_init :: "harbor \<Rightarrow> string \<Rightarrow> harbor \<times> int" where
  "harbor_init h args =
     (let (hid, slave) = (case scan_int args of None \<Rightarrow> (0, 0)
        | Some (i, r) \<Rightarrow> (i, case scan_int r of None \<Rightarrow> 0 | Some _ \<Rightarrow> ucast (strtoul r 10))) in
      if slave = 0 then (h, 1)
      else (hcall Start_harbor (hcall Set_callback (h\<lparr>hb_id := hid, hb_slave := slave\<rparr>)), 0))"

section \<open>The queues are queues\<close>

definition hq_ok :: "harbor_msg_queue \<Rightarrow> bool" where
  "hq_ok q \<longleftrightarrow> length (hq_data q) = hq_size q \<and> 1 < hq_size q \<and> hq_head q < hq_size q \<and> hq_tail q < hq_size q"

definition hq_abs :: "harbor_msg_queue \<Rightarrow> harbor_msg list" where
  "hq_abs q = ring (hq_data q) (hq_head q) (ring_len (hq_size q) (hq_head q) (hq_tail q))"

lemma new_queue_ok [simp]: "hq_ok new_queue" "hq_abs new_queue = []"
  by (simp_all add: hq_ok_def hq_abs_def new_queue_def HARBOR_QUEUE_SIZE_def ring_len_def)

lemma expand_harbor_queue_ok:
  assumes ok: "hq_ok q" and full: "(hq_tail q + 1) mod hq_size q = hq_head q"
  shows "hq_ok (expand_harbor_queue q)" "hq_abs (expand_harbor_queue q) = hq_abs q"
    "(hq_tail (expand_harbor_queue q) + 1) mod hq_size (expand_harbor_queue q) \<noteq> hq_head (expand_harbor_queue q)"
proof -
  let ?n = "hq_size q"
  have "Suc (ring_len ?n (hq_head q) (hq_tail q)) = ?n"
    using ok full by (intro ring_len_full) (auto simp: hq_ok_def wrap_index)
  then have n: "ring_len ?n (hq_head q) (hq_tail q) = ?n - 1" by simp
  have d: "hq_data (expand_harbor_queue q) = hq_abs q @ replicate (?n + 1) blank_harbor_msg"
    using ok unfolding expand_harbor_queue_def hq_abs_def n ring_def by (simp add: hq_ok_def add.commute)
  show "hq_ok (expand_harbor_queue q)" using ok n unfolding hq_ok_def d by (auto simp: expand_harbor_queue_def hq_abs_def)
  have "hq_abs (expand_harbor_queue q) = ring (hq_data (expand_harbor_queue q)) 0 (?n - 1)"
    using ok by (simp add: hq_abs_def expand_harbor_queue_def ring_len_def)
  also have "\<dots> = hq_abs q" unfolding d using ok n
    by (intro nth_equalityI) (auto simp: ring_def nth_append hq_abs_def hq_ok_def)
  finally show "hq_abs (expand_harbor_queue q) = hq_abs q" .
  show "(hq_tail (expand_harbor_queue q) + 1) mod hq_size (expand_harbor_queue q) \<noteq> hq_head (expand_harbor_queue q)"
    using ok by (simp add: expand_harbor_queue_def hq_ok_def)
qed

lemma push_queue_msg_ok:
  assumes "hq_ok q"
  shows "\<exists>q'. push_queue_msg q m = Inr q' \<and> hq_ok q' \<and> hq_abs q' = hq_abs q @ [m]"
proof -
  define p where "p = (if (hq_tail q + 1) mod hq_size q = hq_head q then expand_harbor_queue q else q)"
  have p: "hq_ok p" "hq_abs p = hq_abs q" "(hq_tail p + 1) mod hq_size p \<noteq> hq_head p"
    using assms expand_harbor_queue_ok [OF assms] by (auto simp: p_def)
  define r where "r = p\<lparr>hq_data := (hq_data p)[hq_tail p := m], hq_tail := (hq_tail p + 1) mod hq_size p\<rparr>"
  have push: "push_queue_msg q m = Inr r"
    unfolding push_queue_msg_def p_def [symmetric] Let_def using p(1) by (simp add: r_def hq_ok_def)
  have wrap: "(hq_tail p + 1) mod hq_size p = (if Suc (hq_tail p) \<ge> hq_size p then 0 else Suc (hq_tail p))"
    using p(1) by (simp add: wrap_index hq_ok_def)
  have len: "ring_len (hq_size p) (hq_head p) ((hq_tail p + 1) mod hq_size p) = Suc (ring_len (hq_size p) (hq_head p) (hq_tail p))"
    unfolding wrap using p(1,3) wrap by (intro ring_len_step_tail) (auto simp: hq_ok_def)
  have t: "(hq_head p + ring_len (hq_size p) (hq_head p) (hq_tail p)) mod length (hq_data p) = hq_tail p"
    using p(1) by (simp add: hq_ok_def ring_len_tail)
  have "ring ((hq_data p)[hq_tail p := m]) (hq_head p) (Suc (ring_len (hq_size p) (hq_head p) (hq_tail p))) = hq_abs p @ [m]"
    using ring_snoc [of "hq_head p" "hq_data p" "ring_len (hq_size p) (hq_head p) (hq_tail p)" m] p(1)
    unfolding t by (simp add: hq_ok_def hq_abs_def ring_len_less)
  then have "hq_abs r = hq_abs q @ [m]" using len p(2) by (simp add: r_def hq_abs_def)
  moreover have "hq_ok r" using p(1) by (auto simp: r_def hq_ok_def)
  ultimately show ?thesis using push by blast
qed

lemma pop_queue_ok:
  assumes "hq_ok q"
  shows "\<exists>q' r. pop_queue q = Inr (q', r) \<and> hq_ok q' \<and>
    (case hq_abs q of [] \<Rightarrow> r = None \<and> hq_abs q' = [] | x # xs \<Rightarrow> r = Some x \<and> hq_abs q' = xs)"
proof (cases "hq_head q = hq_tail q")
  case True
  then show ?thesis using assms by (simp add: pop_queue_def hq_abs_def hq_ok_def ring_len_def)
next
  case False
  have wrap: "(hq_head q + 1) mod hq_size q = (if Suc (hq_head q) \<ge> hq_size q then 0 else Suc (hq_head q))"
    using assms by (simp add: wrap_index hq_ok_def)
  have "ring_len (hq_size q) (hq_head q) (hq_tail q) = Suc (ring_len (hq_size q) ((hq_head q + 1) mod hq_size q) (hq_tail q))"
    unfolding wrap using assms False by (intro ring_len_step_head) (auto simp: hq_ok_def)
  moreover have "hq_data q \<noteq> []" using assms by (auto simp: hq_ok_def)
  ultimately have "hq_abs q = hq_data q ! hq_head q # hq_abs (q\<lparr>hq_head := (hq_head q + 1) mod hq_size q\<rparr>)"
    using assms by (simp add: hq_abs_def ring_tl hq_ok_def)
  then show ?thesis using assms False by (auto simp: pop_queue_def hq_ok_def)
qed

interpretation hbq: fifo hq_ok hq_abs push_queue_msg pop_queue
  by unfold_locales (use push_queue_msg_ok pop_queue_ok in auto)

text \<open>
  Emptying a queue handles its messages in order. The state that the body changes is seen through
  \<open>g\<close>; \<open>P\<close> is what the body needs of it.
\<close>

lemma pop_loop_fold:
  assumes "hq_ok q" "P s"
    and body: "\<And>m s. P s \<Longrightarrow> \<exists>s'. body m s = Inr s' \<and> P s' \<and> g s' = f m (g s)"
  shows "\<exists>q' s'. loopE (pop_loop body q s) = Inr (q', s') \<and> hq_ok q' \<and> hq_abs q' = [] \<and> P s' \<and> g s' = fold f (hq_abs q) (g s)"
  using assms(1,2)
proof (induction "hq_abs q" arbitrary: q s)
  case Nil
  with pop_queue_ok [OF Nil.prems(1)] show ?case by (auto simp: pop_loop.simps [of _ q] loopE_def)
next
  case (Cons m ms)
  from pop_queue_ok [OF Cons.prems(1)] obtain q1 where q1: "pop_queue q = Inr (q1, Some m)" "hq_ok q1" "hq_abs q1 = ms"
    using Cons.hyps(2) [symmetric] by auto
  from body [OF Cons.prems(2), of m] obtain s1 where s1: "body m s = Inr s1" "P s1" "g s1 = f m (g s)" by blast
  from Cons.hyps(1) [of q1 s1] q1 s1 Cons.hyps(2) [symmetric] show ?case by (simp add: pop_loop.simps [of _ q])
qed

lemma release_queue_ok [simp]: "(\<And>q. queue = Some q \<Longrightarrow> hq_ok q) \<Longrightarrow> release_queue queue = Inr ()"
  using pop_loop_fold [of _ "\<lambda>_. True" "()" "\<lambda>m s. Inr s" "\<lambda>s. s" "\<lambda>_ s. s"]
  by (fastforce simp: release_queue_def split: option.splits)

end
