(* ===== verification/Harbor_Link.thy ===== *)
theory Harbor_Link
  imports Harbor_Service
begin

text \<open>
  The links between harbors (\<^verbatim>\<open>service-src/service_harbor.c\<close>): what the bytes on a connection mean,
  that reading them in any parts gives this meaning, and that what one harbor sends to a connection
  another one delivers.
\<close>

section \<open>What a link carries\<close>

text \<open>
  A frame is a length of four bytes and a content: data and the twelve bytes of a header. \<open>split_link\<close>
  is the meaning of the bytes that have arrived on a link: the complete contents in order, and how
  the bytes end: with a part of a frame, a length above 24 bits, or a content too short for its header.
\<close>

datatype rx_end = Rest "u8 list" | Too_long | Short

definition frame_len :: "u8 list \<Rightarrow> nat" where
  "frame_len xs = unat (push_bit 16 (ucast (xs ! 1)) OR push_bit 8 (ucast (xs ! 2)) OR ucast (xs ! 3) :: i32)"

function split_link :: "u8 list \<Rightarrow> u8 list list \<times> rx_end" where
  "split_link xs =
     (if length xs < 4 then ([], Rest xs)
      else if xs ! 0 \<noteq> 0 then ([], Too_long)
      else if length xs = 4 \<or> length xs - 4 < frame_len xs then ([], Rest xs)
      else if frame_len xs < 12 then ([], Short)
      else let (cs, e) = split_link (drop (4 + frame_len xs) xs) in (take (frame_len xs) (drop 4 xs) # cs, e))"
  by pat_completeness auto
termination by (relation "measure length") auto

declare split_link.simps [simp del]

text \<open>The calls that delivering a content makes.\<close>

definition link_calls :: "answers \<Rightarrow> int \<Rightarrow> u8 list \<Rightarrow> harbor_call list \<Rightarrow> harbor_call list" where
  "link_calls ans hid c tr =
     (let header = message_to_header (drop (length c - 12) c);
          type = drop_bit HANDLE_REMOTE_SHIFT (rh_destination header);
          destination = (rh_destination header AND HANDLE_MASK) OR push_bit HANDLE_REMOTE_SHIFT (word_of_int hid);
          a = Send_msg (rh_source header) destination (type OR PTYPE_TAG_DONTCOPY) (rh_session header) (take (length c - 12) c)
      in a # (if ans tr a < 0 then
          (if type \<noteq> PTYPE_ERROR then [Send_msg destination (rh_source header) PTYPE_ERROR (rh_session header) []] else [])
          @ [Log_msg (bytes (''Unknown destination :'' @ fmt_x destination @ '' from :'' @ fmt_x (rh_source header) @ '' type(''
            @ fmt_d (sint type) @ '')''))] else []))"

definition deliver :: "answers \<Rightarrow> u8 list \<Rightarrow> harbor \<Rightarrow> harbor" where
  "deliver ans c h = h\<lparr>hb_trace := hb_trace h @ link_calls ans (hb_id h) c (hb_trace h)\<rparr>"

lemma written_Some [simp]: "written (map Some xs) = Inr xs"
  by (auto simp: written_def comp_def)

lemma forward_delivers: "12 \<le> length c \<Longrightarrow> forward_local_messsage ans h (map Some c) (int (length c)) = Inr (deliver ans c h)"
proof -
  assume "12 \<le> length c"
  then have n: "nat (int (length c) - 12) = length c - 12" by simp
  show ?thesis using \<open>12 \<le> length c\<close>
    by (simp add: forward_local_messsage_def HEADER_COOKIE_LENGTH_def n drop_map take_map deliver_def link_calls_def Let_def hlog_def hcall_def)
qed

lemma forward_short: "length c < 12 \<Longrightarrow> forward_local_messsage ans h c (int (length c)) = Inl Out_Of_Bounds"
  by (simp add: forward_local_messsage_def HEADER_COOKIE_LENGTH_def)

lemma harbor_frame [simp]:
  "hb_s (deliver ans c h) = hb_s h" "deliver ans c (set_slave i s h) = set_slave i s (deliver ans c h)"
  "set_slave i s (set_slave i s' h) = set_slave i s h" "hb_s (set_slave i s h) = (hb_s h)[i := s]"
  "hb_s (hcall a h) = hb_s h" "hb_s (hlog t h) = hb_s h"
  "hcall a (set_slave i s h) = set_slave i s (hcall a h)" "hlog t (set_slave i s h) = set_slave i s (hlog t h)"
  "hb_trace (set_slave i s h) = hb_trace h" "hb_id (set_slave i s h) = hb_id h" "hb_id (hcall a h) = hb_id h"
  "hb_trace (hcall a h) = hb_trace h @ [a]" "hb_id (deliver ans c h) = hb_id h" "hb_map (set_slave i s h) = hb_map h"
  "hb_map (hcall a h) = hb_map h" "hb_map (deliver ans c h) = hb_map h" "hb_slave (set_slave i s h) = hb_slave h"
  "hb_slave (hcall a h) = hb_slave h" "hb_slave (deliver ans c h) = hb_slave h"
  by (simp_all add: deliver_def set_slave_def hcall_def hlog_def)

lemma fold_deliver_frame [simp]:
  "hb_s (fold (deliver ans) cs h) = hb_s h" "fold (deliver ans) cs (set_slave i s h) = set_slave i s (fold (deliver ans) cs h)"
  "hb_map (fold (deliver ans) cs h) = hb_map h" "hb_id (fold (deliver ans) cs h) = hb_id h" "hb_slave (fold (deliver ans) cs h) = hb_slave h"
  by (induction cs arbitrary: h) simp_all

text \<open>The slot of a link on which the bytes \<open>p\<close> of an unfinished frame have arrived.\<close>

definition rx :: "slave \<Rightarrow> u8 list \<Rightarrow> bool" where
  "rx s p \<longleftrightarrow> split_link p = ([], Rest p) \<and> length (sl_size s) = 4 \<and>
     (if length p < 4 then sl_status s = STATUS_HEADER \<and> sl_read s = int (length p) \<and> take (length p) (sl_size s) = p
      else sl_status s = STATUS_CONTENT \<and> sl_size s = take 4 p \<and> sl_length s = int (frame_len p) \<and> sl_read s = int (length p - 4)
        \<and> sl_recv_buffer s = Some (map Some (drop 4 p) @ replicate (frame_len p - (length p - 4)) None))"

lemma memcpyE_ok: "n \<le> length src \<Longrightarrow> off + n \<le> length dst \<Longrightarrow>
    memcpyE dst (int off) src (int n) = Inr (take off dst @ take n src @ drop (off + n) dst)"
  by (simp add: memcpyE_def nat_add_distrib)

lemma frame_len_prefix: "4 \<le> length p \<Longrightarrow> frame_len (p @ xs) = frame_len p" "4 \<le> length p \<Longrightarrow> frame_len (take 4 p) = frame_len p"
  by (simp_all add: frame_len_def nth_append)

lemma split_link_Nil [simp]: "split_link [] = ([], Rest [])"
  by (simp add: split_link.simps)

lemma rx_Rest:
  assumes "rx s p" "4 \<le> length p"
  shows "p ! 0 = 0" "length p = 4 \<or> length p - 4 < frame_len p"
  using assms by (auto simp: rx_def split_link.simps [of p] Let_def split: if_splits prod.splits)

lemma split_link_grow:
  assumes "p ! 0 = 0" "length p = 4 \<or> length p - 4 < frame_len p" "4 \<le> length p" "length (p @ bs) - 4 < frame_len p"
  shows "split_link (p @ bs) = ([], Rest (p @ bs))"
proof -
  have "(p @ bs) ! 0 = 0" using assms(1,3) by (auto simp: nth_append)
  then show ?thesis using assms by (subst split_link.simps) (simp add: frame_len_prefix)
qed

lemma content_pass_ok:
  assumes i: "i < length (hb_s h)" "hb_s h ! i = s" and rx: "rx s p" "4 \<le> length p" and bs: "bs \<noteq> []"
  defines "q \<equiv> p @ bs" and "n \<equiv> frame_len p"
  shows "if length q - 4 < n
     then \<exists>s'. content_pass ans h i bs (int (length bs)) = Inr (Return (set_slave i s' h)) \<and> rx s' q \<and> sl_fd s' = sl_fd s \<and> sl_queue s' = sl_queue s
     else if n < 12 then content_pass ans h i bs (int (length bs)) = Inl Out_Of_Bounds
     else \<exists>s'. content_pass ans h i bs (int (length bs)) = Inr (let h' = set_slave i s' (deliver ans (take n (drop 4 q)) h) in
         if drop (4 + n) q = [] then Return h' else Loop h' (drop (4 + n) q) (int (length (drop (4 + n) q))))
       \<and> rx s' [] \<and> sl_fd s' = sl_fd s \<and> sl_queue s' = sl_queue s"
proof -
  let ?got = "length p - 4"
  have s: "sl_length s = int n" "sl_read s = int ?got" "sl_size s = take 4 p" "length (sl_size s) = 4"
    "sl_recv_buffer s = Some (map Some (drop 4 p) @ replicate (n - ?got) None)" "sl_status s = STATUS_CONTENT"
    using rx by (simp_all add: rx_def n_def)
  let ?recv = "map Some (drop 4 p) @ replicate (n - ?got) (None :: u8 option)"
  have le: "?got \<le> n" using rx_Rest [OF rx] by (auto simp: n_def)
  have len: "length ?recv = n" using le rx(2) by simp
  have q: "length q - 4 < n \<longleftrightarrow> length bs < n - ?got" using rx(2) le by (auto simp: q_def)
  have cut: "int (length bs) < int n - int ?got \<longleftrightarrow> length bs < n - ?got" using le by linarith
  show ?thesis
  proof (cases "length bs < n - ?got")
    case True
    let ?s = "s\<lparr>sl_recv_buffer := Some (take ?got ?recv @ map Some bs @ drop (?got + length bs) ?recv), sl_read := int ?got + int (length bs)\<rparr>"
    have "content_pass ans h i bs (int (length bs)) = Inr (Return (set_slave i ?s h))"
      using True i le memcpyE_ok [of "length bs" "map Some bs" ?got ?recv] len
      by (simp add: content_pass_def s cut Let_def)
    moreover have "split_link q = ([], Rest q)" using split_link_grow [OF rx_Rest [OF rx] rx(2)] True q by (simp add: q_def n_def)
    then have "rx ?s q" using rx True s by (auto simp: rx_def q_def n_def frame_len_prefix)
    ultimately have "\<exists>s'. content_pass ans h i bs (int (length bs)) = Inr (Return (set_slave i s' h)) \<and> rx s' q \<and> sl_fd s' = sl_fd s \<and> sl_queue s' = sl_queue s"
      by (intro exI [of _ ?s]) simp
    then show ?thesis using q True by simp
  next
    case False
    let ?need = "n - ?got"
    have need: "int n - int ?got = int ?need" using le by simp
    have copy: "memcpyE ?recv (int ?got) (map Some bs) (int ?need) = Inr (map Some (take n (drop 4 q)))"
      using False le rx(2) len memcpyE_ok [of ?need "map Some bs" ?got ?recv]
      by (simp add: q_def take_map)
    have c: "length (take n (drop 4 q)) = n" using False rx(2) le by (simp add: q_def)
    have rest: "drop ?need bs = drop (4 + n) q" using le rx(2) by (simp add: q_def add.commute)
    have sz: "int (length bs) - int ?need = int (length (drop (4 + n) q))" using False by (simp add: rest [symmetric] of_nat_diff)
    have unf: "content_pass ans h i bs (int (length bs)) = bindE (forward_local_messsage ans h (map Some (take n (drop 4 q))) (int n)) (\<lambda>h.
      let h = set_slave i (s\<lparr>sl_length := 0, sl_read := 0, sl_recv_buffer := None, sl_status := STATUS_HEADER\<rparr>) h in
      Inr (if int (length bs) - int ?need = 0 then Return h else Loop h (drop ?need bs) (int (length bs) - int ?need)))"
      using i False cut by (simp add: content_pass_def s need copy Let_def cong del: if_weak_cong)
    show ?thesis
    proof (cases "n < 12")
      case True
      then have "content_pass ans h i bs (int (length bs)) = Inl Out_Of_Bounds"
        unfolding unf using forward_short [of "map Some (take n (drop 4 q))" ans h] c by simp
      then show ?thesis using q False True by simp
    next
      case long: False
      have "forward_local_messsage ans h (map Some (take n (drop 4 q))) (int n) = Inr (deliver ans (take n (drop 4 q)) h)"
        using forward_delivers [of "take n (drop 4 q)" ans h] long unfolding c by simp
      then show ?thesis unfolding unf sz rest using q False long s(4)
        by (intro if_not_P [THEN iffD2]) (auto simp: rx_def Let_def intro!: exI [of _ "s\<lparr>sl_length := 0, sl_read := 0, sl_recv_buffer := None, sl_status := STATUS_HEADER\<rparr>"])
    qed
  qed
qed

lemma header_pass_ok:
  fixes bs :: "u8 list"
  assumes i: "i < length (hb_s h)" "hb_s h ! i = s" and rx: "rx s p" "length p < 4" and fd: "sl_fd s \<noteq> 0" "sl_queue s = None"
  defines "q \<equiv> p @ bs"
  shows "if length q < 4 then \<exists>s'. header_pass ans h i bs (int (length bs)) = Inr (Return (set_slave i s' h)) \<and> rx s' q \<and> sl_fd s' = sl_fd s \<and> sl_queue s' = None
     else if q ! 0 \<noteq> 0 then \<exists>s'. header_pass ans h i bs (int (length bs)) = Inr (Return (set_slave i s'
         (hcall (Close_sock (sl_fd s)) (hlog (''Message is too long from harbor '' @ fmt_d (int i)) h))))
       \<and> sl_status s' = STATUS_DOWN \<and> sl_fd s' = sl_fd s \<and> sl_queue s' = None
     else \<exists>s'. header_pass ans h i bs (int (length bs)) = (if length q = 4 then Inr (Return (set_slave i s' h))
         else content_pass ans (set_slave i s' h) i (drop 4 q) (int (length (drop 4 q)))) \<and> rx s' (take 4 q)
       \<and> sl_fd s' = sl_fd s \<and> sl_queue s' = None"
proof -
  have s: "sl_status s = STATUS_HEADER" "sl_read s = int (length p)" "take (length p) (sl_size s) = p" "length (sl_size s) = 4"
    using rx by (simp_all add: rx_def)
  have cut: "int (length bs) < 4 - int (length p) \<longleftrightarrow> length q < 4" using rx(2) by (auto simp: q_def)
  show ?thesis
  proof (cases "length q < 4")
    case True
    let ?s = "s\<lparr>sl_size := p @ bs @ drop (length p + length bs) (sl_size s), sl_read := int (length p) + int (length bs)\<rparr>"
    have "header_pass ans h i bs (int (length bs)) = Inr (Return (set_slave i ?s h))"
      using True i cut memcpyE_ok [of "length bs" bs "length p" "sl_size s"] s by (simp add: header_pass_def Let_def q_def)
    moreover have "rx ?s q" using True s by (simp add: rx_def q_def split_link.simps [of "p @ bs"])
    ultimately have "\<exists>s'. header_pass ans h i bs (int (length bs)) = Inr (Return (set_slave i s' h)) \<and> rx s' q \<and> sl_fd s' = sl_fd s \<and> sl_queue s' = None"
      using fd by (intro exI [of _ ?s]) simp
    then show ?thesis using True by simp
  next
    case False
    let ?need = "4 - length p"
    have need: "4 - int (length p) = int ?need" using rx(2) by simp
    have copy: "memcpyE (sl_size s) (int (length p)) bs (int ?need) = Inr (take 4 q)"
      using memcpyE_ok [of ?need bs "length p" "sl_size s"] s rx(2) False by (simp add: q_def)
    have rest: "drop ?need bs = drop 4 q" using rx(2) by (simp add: q_def)
    have sz: "int (length bs) - int ?need = int (length (drop 4 q))" using False rx(2) by (simp add: q_def of_nat_diff)
    let ?u = "s\<lparr>sl_size := take 4 q\<rparr>"
    let ?s = "?u\<lparr>sl_length := int (frame_len q), sl_read := 0, sl_recv_buffer := Some (replicate (frame_len q) None), sl_status := STATUS_CONTENT\<rparr>"
    have fl: "uint (push_bit 16 (ucast (q ! Suc 0)) OR push_bit 8 (ucast (q ! 2)) OR ucast (q ! 3) :: i32) = int (frame_len q)"
      "unat (push_bit 16 (ucast (q ! Suc 0)) OR push_bit 8 (ucast (q ! 2)) OR ucast (q ! 3) :: i32) = frame_len q"
      by (simp_all add: frame_len_def)
    have whole: "length bs = 4 - length p \<longleftrightarrow> length q = 4" using rx(2) by (auto simp: q_def)
    have unf: "header_pass ans h i bs (int (length bs)) = (if q ! 0 \<noteq> 0 then
         bindE (close_harbor (hlog (''Message is too long from harbor '' @ fmt_d (int i)) (set_slave i ?u h)) i) (\<lambda>h. Inr (Return h))
       else if length q = 4 then Inr (Return (set_slave i ?s h))
         else content_pass ans (set_slave i ?s h) i (drop 4 q) (int (length (drop 4 q))))"
      using i False cut by (cases "q ! 0 = 0"; cases "length q = 4") (simp_all add: header_pass_def s need copy rest Let_def fl sz whole cong del: if_weak_cong)
    show ?thesis
    proof (cases "q ! 0 = 0")
      case True
      have "length (take 4 q) = 4" "frame_len (take 4 q) = frame_len q" using False by (auto simp: frame_len_def)
      then have "rx ?s (take 4 q)" using True False s by (auto simp: rx_def split_link.simps [of "take 4 q"])
      then have "\<exists>s'. header_pass ans h i bs (int (length bs)) = (if length q = 4 then Inr (Return (set_slave i s' h))
         else content_pass ans (set_slave i s' h) i (drop 4 q) (int (length (drop 4 q)))) \<and> rx s' (take 4 q)
       \<and> sl_fd s' = sl_fd s \<and> sl_queue s' = None"
        unfolding unf using True fd by (intro exI [of _ ?s]) simp
      then show ?thesis using True False by simp
    next
      case long: False
      have "\<exists>s'. header_pass ans h i bs (int (length bs)) = Inr (Return (set_slave i s'
         (hcall (Close_sock (sl_fd s)) (hlog (''Message is too long from harbor '' @ fmt_d (int i)) h))))
       \<and> sl_status s' = STATUS_DOWN \<and> sl_fd s' = sl_fd s \<and> sl_queue s' = None"
        unfolding unf using long i fd
        by (intro exI [of _ "?u\<lparr>sl_status := STATUS_DOWN, sl_queue := None\<rparr>"]) (simp add: close_harbor_def Let_def release_queue_def)
      then show ?thesis using long False by simp
    qed
  qed
qed

text \<open>A pass through the loop on a link takes one frame at most.\<close>

lemma socket_pass_ok:
  fixes bs :: "u8 list" and ans :: answers and f :: int
  assumes i: "i < length (hb_s h)" "hb_s h ! i = s" and rx: "rx s p" and fd: "sl_fd s \<noteq> 0" "sl_queue s = None"
    and bs: "bs \<noteq> [] \<or> length p < 4"
  defines "q \<equiv> p @ bs" and "out \<equiv> socket_pass ans h i f bs (int (length bs))"
  shows "if length q < 4 \<or> q ! 0 = 0 \<and> (length q = 4 \<or> length q - 4 < frame_len q)
     then \<exists>s'. out = Inr (Return (set_slave i s' h)) \<and> rx s' q \<and> sl_fd s' = sl_fd s \<and> sl_queue s' = None
     else if q ! 0 \<noteq> 0 then \<exists>s'. out = Inr (Return (set_slave i s'
         (hcall (Close_sock (sl_fd s)) (hlog (''Message is too long from harbor '' @ fmt_d (int i)) h))))
       \<and> sl_status s' = STATUS_DOWN \<and> sl_fd s' = sl_fd s \<and> sl_queue s' = None
     else if frame_len q < 12 then out = Inl Out_Of_Bounds
     else \<exists>s'. out = Inr (let h' = set_slave i s' (deliver ans (take (frame_len q) (drop 4 q)) h); r = drop (4 + frame_len q) q in
         if r = [] then Return h' else Loop h' r (int (length r))) \<and> rx s' [] \<and> sl_fd s' = sl_fd s \<and> sl_queue s' = None"
proof (cases "length p < 4")
  case True
  have out: "out = header_pass ans h i bs (int (length bs))" using rx True i by (simp add: out_def socket_pass_def rx_def)
  note H = header_pass_ok [OF i rx True fd, where ans = ans and bs = bs, folded q_def out]
  show ?thesis
  proof (cases "length q \<le> 4 \<or> q ! 0 \<noteq> 0")
    case True
    then show ?thesis using H by (cases "q ! 0 = 0"; cases "length q = 4") (auto split: if_splits)
  next
    case False
    with H obtain s' where s': "out = content_pass ans (set_slave i s' h) i (drop 4 q) (int (length (drop 4 q)))" "rx s' (take 4 q)"
      "sl_fd s' = sl_fd s" "sl_queue s' = None" by (auto split: if_splits)
    have t: "4 \<le> length (take 4 q)" "drop 4 q \<noteq> []" "frame_len (take 4 q) = frame_len q" "take 4 q @ drop 4 q = q"
      using False by (auto simp: frame_len_def)
    note C = content_pass_ok [OF _ _ s'(2) t(1,2), where h = "set_slave i s' h" and i = i and ans = ans, unfolded t(3,4), folded s'(1)]
    show ?thesis using C i False s'(3,4) by (auto split: if_splits simp: Let_def)
  qed
next
  case False
  then have b: "bs \<noteq> []" "4 \<le> length p" using bs by auto
  have out: "out = content_pass ans h i bs (int (length bs))" using rx False i by (simp add: out_def socket_pass_def rx_def)
  have q: "q ! 0 = 0" "4 < length q" "frame_len q = frame_len p"
    using rx_Rest(1) [OF rx b(2)] b by (cases bs; auto simp: q_def nth_append frame_len_prefix)+
  show ?thesis using content_pass_ok [OF i rx b(2,1), where ans = ans, folded q_def out, folded q(3)] q(1,2) fd(2)
    by (auto split: if_splits simp: Let_def)
qed

definition link_result :: "answers \<Rightarrow> nat \<Rightarrow> slave \<Rightarrow> harbor \<Rightarrow> u8 list list \<times> rx_end \<Rightarrow> harbor res \<Rightarrow> bool" where
  "link_result ans i s h r out \<longleftrightarrow> (case snd r of
     Rest q \<Rightarrow> \<exists>s'. out = Inr (set_slave i s' (fold (deliver ans) (fst r) h)) \<and> rx s' q \<and> sl_fd s' = sl_fd s \<and> sl_queue s' = None
   | Too_long \<Rightarrow> \<exists>s'. out = Inr (set_slave i s' (hcall (Close_sock (sl_fd s)) (hlog (''Message is too long from harbor '' @ fmt_d (int i))
        (fold (deliver ans) (fst r) h)))) \<and> sl_status s' = STATUS_DOWN \<and> sl_fd s' = sl_fd s \<and> sl_queue s' = None
   | Short \<Rightarrow> out = Inl Out_Of_Bounds)"

lemma socket_loop_ok:
  assumes i: "i < length (hb_s h)" "hb_s h ! i = s" and rx: "rx s p" and fd: "sl_fd s \<noteq> 0" "sl_queue s = None"
    and bs: "bs \<noteq> [] \<or> length p < 4"
  shows "\<exists>out. socket_loop ans h i f bs (int (length bs)) = Some out \<and> link_result ans i s h (split_link (p @ bs)) out"
  using assms
proof (induction "length (p @ bs)" arbitrary: h s p bs rule: less_induct)
  case less
  let ?q = "p @ bs" and ?out = "socket_pass ans h i f bs (int (length bs))"
  note P = socket_pass_ok [OF less.prems, where ans = ans and f = f]
  show ?case
  proof (cases "4 < length ?q \<and> ?q ! 0 = 0 \<and> 12 \<le> frame_len ?q \<and> \<not> length ?q - 4 < frame_len ?q")
    case False
    then show ?thesis using P
      by (auto simp: socket_loop.simps [of _ h] split_link.simps [of ?q] link_result_def split: if_splits)
  next
    case True
    let ?c = "take (frame_len ?q) (drop 4 ?q)" and ?r = "drop (4 + frame_len ?q) ?q"
    have sp: "split_link ?q = (?c # fst (split_link ?r), snd (split_link ?r))"
      using True by (subst split_link.simps) (auto simp: Let_def split: prod.splits)
    from P True obtain s' where s': "?out = Inr (let h' = set_slave i s' (deliver ans ?c h) in
        if ?r = [] then Return h' else Loop h' ?r (int (length ?r)))" "rx s' []" "sl_fd s' = sl_fd s" "sl_queue s' = None"
      by (auto split: if_splits simp: Let_def)
    show ?thesis
    proof (cases "?r = []")
      case True
      then show ?thesis using s' sp by (auto simp: socket_loop.simps [of _ h] link_result_def Let_def)
    next
      case r: False
      have "\<exists>out. socket_loop ans (set_slave i s' (deliver ans ?c h)) i f ?r (int (length ?r)) = Some out
          \<and> link_result ans i s' (set_slave i s' (deliver ans ?c h)) (split_link ([] @ ?r)) out"
        using less.prems(1,2,4) s' r True by (intro less.hyps) auto
      then obtain out where out: "socket_loop ans (set_slave i s' (deliver ans ?c h)) i f ?r (int (length ?r)) = Some out"
        "link_result ans i s' (set_slave i s' (deliver ans ?c h)) (split_link ?r) out" by auto
      have "socket_loop ans h i f bs (int (length bs)) = Some out"
        unfolding socket_loop.simps [of _ h] s'(1) Let_def if_not_P [OF r] sum.case pass.case by (rule out(1))
      moreover have "link_result ans i s h (split_link ?q) out"
        using out(2) s'(3) unfolding sp link_result_def by (auto split: rx_end.splits)
      ultimately show ?thesis by blast
    qed
  qed
qed

text \<open>What more bytes add.\<close>

lemma split_link_append:
  "split_link (xs @ ys) = (case snd (split_link xs) of
     Rest q \<Rightarrow> (fst (split_link xs) @ fst (split_link (q @ ys)), snd (split_link (q @ ys)))
   | _ \<Rightarrow> split_link xs)"
proof (induction xs rule: split_link.induct)
  case (1 xs)
  show ?case
  proof (cases "length xs < 4 \<or> xs ! 0 = 0 \<and> (length xs = 4 \<or> length xs - 4 < frame_len xs)")
    case True
    then have "split_link xs = ([], Rest xs)" by (auto simp: split_link.simps [of xs])
    then show ?thesis by simp
  next
    case False
    then have n: "(xs @ ys) ! 0 = xs ! 0" "frame_len (xs @ ys) = frame_len xs" "4 \<le> length xs"
      by (auto simp: nth_append frame_len_prefix)
    show ?thesis
    proof (cases "xs ! 0 \<noteq> 0 \<or> frame_len xs < 12")
      case True
      then have "split_link (xs @ ys) = split_link xs"
        using False n by (auto simp: split_link.simps [of xs] split_link.simps [of "xs @ ys"])
      moreover have "\<forall>q. snd (split_link xs) \<noteq> Rest q" using False True by (auto simp: split_link.simps [of xs])
      ultimately show ?thesis by (auto split: rx_end.splits)
    next
      case long: False
      let ?n = "4 + frame_len xs"
      have sx: "split_link xs = (take (frame_len xs) (drop 4 xs) # fst (split_link (drop ?n xs)), snd (split_link (drop ?n xs)))"
        using False long n by (subst split_link.simps) (auto simp: Let_def split: prod.splits)
      have "\<not> length (xs @ ys) - 4 < frame_len (xs @ ys)" "length (xs @ ys) \<noteq> 4" "drop ?n (xs @ ys) = drop ?n xs @ ys"
        "take (frame_len xs) (drop 4 (xs @ ys)) = take (frame_len xs) (drop 4 xs)"
        using False long n by auto
      then have sxy: "split_link (xs @ ys) = (take (frame_len xs) (drop 4 xs) # fst (split_link (drop ?n xs @ ys)), snd (split_link (drop ?n xs @ ys)))"
        using long n by (subst split_link.simps) (simp add: Let_def case_prod_beta)
      have "split_link (drop ?n xs @ ys) = (case snd (split_link (drop ?n xs)) of
         Rest q \<Rightarrow> (fst (split_link (drop ?n xs)) @ fst (split_link (q @ ys)), snd (split_link (q @ ys))) | _ \<Rightarrow> split_link (drop ?n xs))"
        using False long n by (intro 1) auto
      then show ?thesis unfolding sx sxy by (auto split: rx_end.splits)
    qed
  qed
qed

definition frame :: "u8 list \<Rightarrow> u8 list" where
  "frame c = to_bigendian (of_nat (length c)) @ c"

lemma to_bigendian_length [simp]: "length (to_bigendian n) = 4"
  by (simp add: to_bigendian_def)

lemma mask_8: "(0xff :: u32) = mask 8"
  by (simp add: mask_eq_exp_minus_1)

lemma byte_field: "ucast (ucast (drop_bit k n AND 0xff) :: u8) = (drop_bit k n AND 0xff :: u32)"
  unfolding mask_8 by (rule bit_word_eqI) (auto simp: bit_simps)

lemma from_to_bigendian: "from_bigendian (to_bigendian n) = n"
proof -
  have "push_bit 24 (drop_bit 24 n AND 0xff) OR push_bit 16 (drop_bit 16 n AND 0xff) OR push_bit 8 (drop_bit 8 n AND 0xff) OR (n AND 0xff) = n"
  proof (rule bit_word_eqI)
    fix k assume k: "k < LENGTH(32)"
    consider "k < 8" | "8 \<le> k" "k < 16" | "16 \<le> k" "k < 24" | "24 \<le> k" by linarith
    then show "bit (push_bit 24 (drop_bit 24 n AND 0xff) OR push_bit 16 (drop_bit 16 n AND 0xff) OR push_bit 8 (drop_bit 8 n AND 0xff) OR (n AND 0xff)) k = bit n k"
      unfolding mask_8 using k by cases (auto simp: bit_simps)
  qed
  moreover have "ucast (ucast (n AND 0xff) :: u8) = (n AND 0xff :: u32)" using byte_field [of 0 n] by simp
  ultimately show ?thesis by (simp add: from_bigendian_def to_bigendian_def byte_field)
qed

lemma header_to_message_length [simp]: "length (header_to_message cookie) = 12"
  by (simp add: header_to_message_def)

lemma message_header [simp]: "message_to_header (header_to_message cookie) = cookie"
  by (simp add: message_to_header_def header_to_message_def from_to_bigendian)

lemma frame_fields:
  assumes "length c < 2 ^ 24"
  shows "(frame c @ xs) ! 0 = 0" "frame_len (frame c @ xs) = length c"
proof -
  let ?n = "of_nat (length c) :: u32"
  have n: "unat ?n = length c" using assms by (simp add: unat_of_nat take_bit_eq_mod)
  have "drop_bit 24 ?n = 0" using assms n by (simp add: unat_drop_bit_div flip: unat_eq_0)
  then have z: "push_bit 24 (drop_bit 24 ?n AND 0xff) = 0" "ucast (drop_bit 24 ?n AND 0xff) = (0 :: u8)" by simp_all
  show "(frame c @ xs) ! 0 = 0" using z by (simp add: frame_def to_bigendian_def)
  have "from_bigendian (to_bigendian ?n) = push_bit 16 (drop_bit 16 ?n AND 0xff) OR push_bit 8 (drop_bit 8 ?n AND 0xff) OR ucast (ucast (?n AND 0xff) :: u8)"
    using z by (simp add: from_bigendian_def to_bigendian_def byte_field)
  then have "push_bit 16 (drop_bit 16 ?n AND 0xff) OR push_bit 8 (drop_bit 8 ?n AND 0xff) OR ucast (ucast (?n AND 0xff) :: u8) = ?n"
    by (simp add: from_to_bigendian)
  then show "frame_len (frame c @ xs) = length c"
    using n by (simp add: frame_len_def frame_def to_bigendian_def byte_field)
qed

lemma split_link_frame:
  assumes "12 \<le> length c" "length c < 2 ^ 24"
  shows "split_link (frame c @ xs) = (c # fst (split_link xs), snd (split_link xs))"
proof -
  have "drop (4 + length c) (frame c @ xs) = xs" "take (length c) (drop 4 (frame c @ xs)) = c" "length (frame c) = 4 + length c"
    by (simp_all add: frame_def)
  moreover have "c \<noteq> []" using assms(1) by auto
  ultimately show ?thesis using assms frame_fields [OF assms(2)] by (subst split_link.simps) (simp add: Let_def case_prod_beta)
qed

lemma split_link_frames:
  "(\<And>c. c \<in> set cs \<Longrightarrow> 12 \<le> length c \<and> length c < 2 ^ 24) \<Longrightarrow> split_link (concat (map frame cs)) = (cs, Rest [])"
  by (induction cs) (simp_all add: split_link_frame)

section \<open>Reading a link\<close>

definition link_at :: "harbor \<Rightarrow> i32 \<Rightarrow> nat \<Rightarrow> bool" where
  "link_at h f i \<longleftrightarrow> i < length (hb_s h) \<and> find (\<lambda>i. sl_fd (hb_s h ! i) = sint f) [1..<REMOTE_MAX] = Some i"

definition data_message :: "i32 \<Rightarrow> u8 list \<Rightarrow> skynet_socket_message" where
  "data_message f bs = \<lparr>sm_type = SKYNET_SOCKET_TYPE_DATA, sm_id = f, sm_ud = int (length bs), sm_buffer = Some bs, sm_pad = []\<rparr>"

text \<open>The data of a connection arrives in parts.\<close>

fun feed :: "answers \<Rightarrow> harbor \<Rightarrow> i32 \<Rightarrow> u8 list list \<Rightarrow> harbor res" where
  "feed ans h f [] = Inr h"
| "feed ans h f (bs # parts) = bindE (push_socket_data ans h (data_message f bs)) (\<lambda>h. feed ans h f parts)"

lemma link_at_cong:
  assumes "link_at h f i" "hb_s h' = (hb_s h)[i := s']" "sl_fd s' = sl_fd (hb_s h ! i)"
  shows "link_at h' f i"
proof -
  have "(\<lambda>j. sl_fd ((hb_s h)[i := s'] ! j) = sint f) = (\<lambda>j. sl_fd (hb_s h ! j) = sint f)"
    using assms by (intro ext) (auto simp: nth_list_update link_at_def)
  then show ?thesis using assms by (simp add: link_at_def)
qed

lemma link_at_fd: "link_at h f i \<Longrightarrow> sl_fd (hb_s h ! i) = sint f \<and> 1 \<le> i \<and> i < REMOTE_MAX"
  unfolding link_at_def by (auto simp: find_Some_iff)

lemma push_socket_data_loop:
  "link_at h f i \<Longrightarrow> push_socket_data ans h (data_message f bs) = loopE (socket_loop ans h i (sint f) bs (int (length bs)))"
  by (simp add: push_socket_data_def data_message_def link_at_def)

lemma feed_down: "link_at h f i \<Longrightarrow> sl_status (hb_s h ! i) = STATUS_DOWN \<Longrightarrow> feed ans h f parts = Inr h"
proof (induction parts)
  case (Cons bs parts)
  have "push_socket_data ans h (data_message f bs) = Inr h" unfolding push_socket_data_loop [OF Cons.prems(1)]
    using Cons.prems by (simp add: socket_loop.simps [of _ h] socket_pass_def link_at_def loopE_def)
  then show ?case using Cons by simp
qed simp

lemma set_slave_same [simp]: "set_slave i (hb_s h ! i) h = h"
  by (simp add: set_slave_def)

lemma link_feed:
  assumes "link_at h f i" "rx (hb_s h ! i) p" "sint f \<noteq> 0" "sl_queue (hb_s h ! i) = None" "[] \<notin> set parts"
  shows "link_result ans i (hb_s h ! i) h (split_link (p @ concat parts)) (feed ans h f parts)"
  using assms
proof (induction parts arbitrary: h p)
  case Nil
  then show ?case by (auto simp: link_result_def rx_def intro!: exI [of _ "hb_s h ! i"])
next
  case (Cons bs parts)
  let ?s = "hb_s h ! i"
  have i: "i < length (hb_s h)" using Cons.prems(1) by (simp add: link_at_def)
  have fd: "sl_fd ?s \<noteq> 0" using link_at_fd [OF Cons.prems(1)] Cons.prems(3) by simp
  from socket_loop_ok [OF i refl Cons.prems(2) fd Cons.prems(4), where bs = bs and ans = ans and f = "sint f"] Cons.prems(5)
  obtain out where out: "socket_loop ans h i (sint f) bs (int (length bs)) = Some out" "link_result ans i ?s h (split_link (p @ bs)) out" by auto
  have push: "push_socket_data ans h (data_message f bs) = out"
    using push_socket_data_loop [OF Cons.prems(1)] out(1) by (simp add: loopE_def)
  note app = split_link_append [of "p @ bs" "concat parts"]
  show ?case
  proof (cases "snd (split_link (p @ bs))")
    case (Rest q)
    let ?h = "fold (deliver ans) (fst (split_link (p @ bs))) h"
    from out(2) Rest obtain s' where s': "out = Inr (set_slave i s' ?h)" "rx s' q" "sl_fd s' = sl_fd ?s" "sl_queue s' = None"
      by (auto simp: link_result_def)
    have at: "link_at (set_slave i s' ?h) f i" by (rule link_at_cong [OF Cons.prems(1) _ s'(3)]) simp
    have s1: "hb_s (set_slave i s' ?h) ! i = s'" using i by simp
    have "link_result ans i s' (set_slave i s' ?h) (split_link (q @ concat parts)) (feed ans (set_slave i s' ?h) f parts)"
      using Cons.IH [OF at, unfolded s1, OF s'(2) Cons.prems(3) s'(4)] Cons.prems(5) by simp
    then show ?thesis using app Rest s' push by (auto simp: link_result_def split: rx_end.splits)
  next
    case Too_long
    let ?h = "hcall (Close_sock (sl_fd ?s)) (hlog (''Message is too long from harbor '' @ fmt_d (int i)) (fold (deliver ans) (fst (split_link (p @ bs))) h))"
    from out(2) Too_long obtain s' where s': "out = Inr (set_slave i s' ?h)" "sl_status s' = STATUS_DOWN" "sl_fd s' = sl_fd ?s" "sl_queue s' = None"
      by (auto simp: link_result_def)
    have at: "link_at (set_slave i s' ?h) f i" by (rule link_at_cong [OF Cons.prems(1) _ s'(3)]) simp
    have "feed ans (set_slave i s' ?h) f parts = Inr (set_slave i s' ?h)" using feed_down [OF at] s'(2) i by simp
    then show ?thesis using app Too_long s' push by (auto simp: link_result_def)
  next
    case Short
    then show ?thesis using app out(2) push by (simp add: link_result_def)
  qed
qed

section \<open>From harbor to harbor\<close>

definition queued :: "harbor_msg_queue option \<Rightarrow> harbor_msg list" where
  "queued queue = (case queue of None \<Rightarrow> [] | Some q \<Rightarrow> hq_abs q)"

definition queue_ok :: "harbor_msg_queue option \<Rightarrow> bool" where
  "queue_ok queue \<longleftrightarrow> (\<forall>q. queue = Some q \<longrightarrow> hq_ok q)"

definition send_queued :: "int \<Rightarrow> harbor_msg list \<Rightarrow> harbor \<Rightarrow> harbor" where
  "send_queued fd ms h = fold (\<lambda>m. send_remote fd (hm_buffer m) (hm_header m)) ms h"

lemma send_remote_frame [simp]:
  "hb_s (send_remote fd b c h) = hb_s h" "hb_id (send_remote fd b c h) = hb_id h" "hb_map (send_remote fd b c h) = hb_map h"
  "hb_slave (send_remote fd b c h) = hb_slave h" "send_remote fd b c (set_slave i s h) = set_slave i s (send_remote fd b c h)"
  by (simp_all add: send_remote_def Let_def hlog_def)

lemma send_queued_frame [simp]:
  "hb_s (send_queued fd ms h) = hb_s h" "hb_id (send_queued fd ms h) = hb_id h" "hb_map (send_queued fd ms h) = hb_map h"
  "hb_slave (send_queued fd ms h) = hb_slave h" "send_queued fd ms (set_slave i s h) = set_slave i s (send_queued fd ms h)"
  unfolding send_queued_def by (induction ms arbitrary: h) simp_all

lemma release_queue_simps [simp]: "release_queue None = Inr ()" "hq_ok q \<Longrightarrow> release_queue (Some q) = Inr ()"
  by (rule release_queue_ok; simp)+

lemma send_queued_append: "send_queued fd (ms @ ms') h = send_queued fd ms' (send_queued fd ms h)"
  by (simp add: send_queued_def)

lemma dispatch_harbor_queue:
  assumes "i < length (hb_s h)" "hb_s h ! i = s" "sl_fd s \<noteq> 0" "queue_ok (sl_queue s)"
  shows "dispatch_queue h i = Inr (set_slave i (s\<lparr>sl_queue := None\<rparr>) (send_queued (sl_fd s) (queued (sl_queue s)) h))"
proof (cases "sl_queue s")
  case None
  then have e: "s\<lparr>sl_queue := None\<rparr> = s" by simp
  have "set_slave i (s\<lparr>sl_queue := None\<rparr>) h = h" unfolding e using assms(2) set_slave_same by blast
  then show ?thesis using None assms(1-3) by (simp add: dispatch_queue_def queued_def send_queued_def)
next
  case (Some q)
  then have "hq_ok q" using assms(4) by (simp add: queue_ok_def)
  from pop_loop_fold [OF this, of "\<lambda>_. True" h "\<lambda>m h. Inr (send_remote (sl_fd s) (hm_buffer m) (hm_header m) h)" "\<lambda>h. h"
      "\<lambda>m. send_remote (sl_fd s) (hm_buffer m) (hm_header m)"]
  obtain q' where "loopE (pop_loop (\<lambda>m h. Inr (send_remote (sl_fd s) (hm_buffer m) (hm_header m) h)) q h) = Inr (q', send_queued (sl_fd s) (hq_abs q) h)"
    "hq_ok q'" by (auto simp: send_queued_def)
  then show ?thesis using assms Some by (simp add: dispatch_queue_def queued_def)
qed

text \<open>The first byte on a link is the number of the other harbor.\<close>

lemma handshake_step:
  assumes at: "link_at h f i" and st: "sl_status (hb_s h ! i) = STATUS_HANDSHAKE" and q: "queue_ok (sl_queue (hb_s h ! i))" and f: "sint f \<noteq> 0"
  defines "s \<equiv> (hb_s h ! i)\<lparr>sl_status := STATUS_HEADER, sl_queue := None\<rparr>"
  shows "push_socket_data ans h (data_message f (of_nat i # bs)) =
    push_socket_data ans (set_slave i s (send_queued (sint f) (queued (sl_queue (hb_s h ! i))) h)) (data_message f bs)"
proof -
  let ?h = "set_slave i s (send_queued (sint f) (queued (sl_queue (hb_s h ! i))) h)"
  have i: "i < length (hb_s h)" "i < 256" "sl_fd (hb_s h ! i) = sint f"
    using at link_at_fd [OF at] by (auto simp: link_at_def REMOTE_MAX_def)
  have at': "link_at ?h f i" using at by (rule link_at_cong [where s' = s]) (simp_all add: s_def)
  have "unat (of_nat i :: u8) = i" using i(2) by (simp add: unat_of_nat take_bit_eq_mod)
  moreover have "dispatch_queue (set_slave i ((hb_s h ! i)\<lparr>sl_status := STATUS_HEADER\<rparr>) h) i = Inr ?h"
    using dispatch_harbor_queue [of i "set_slave i ((hb_s h ! i)\<lparr>sl_status := STATUS_HEADER\<rparr>) h" "(hb_s h ! i)\<lparr>sl_status := STATUS_HEADER\<rparr>"] i f q
    by (simp add: s_def)
  ultimately have "socket_pass ans h i (sint f) (of_nat i # bs) (int (length (of_nat i # bs))) =
      (if bs = [] then Inr (Loop ?h [] 0) else header_pass ans ?h i bs (int (length bs)))"
    using i st by (simp add: socket_pass_def handshake_pass_def)
  moreover have "header_pass ans ?h i bs (int (length bs)) = socket_pass ans ?h i (sint f) bs (int (length bs))"
    using i by (simp add: socket_pass_def s_def)
  ultimately have "socket_loop ans h i (sint f) (of_nat i # bs) (int (length (of_nat i # bs))) = socket_loop ans ?h i (sint f) bs (int (length bs))"
    by (simp add: socket_loop.simps [of _ h] socket_loop.simps [of _ ?h])
  then show ?thesis unfolding push_socket_data_loop [OF at] push_socket_data_loop [OF at'] by simp
qed

text \<open>The messages delivered to services, and the bytes written to a connection.\<close>

definition deliveries :: "harbor_call list \<Rightarrow> harbor_call list" where
  "deliveries tr = filter (\<lambda>a. case a of Send_msg _ _ _ _ _ \<Rightarrow> True | _ \<Rightarrow> False) tr"

definition sent_bytes :: "int \<Rightarrow> harbor_call list \<Rightarrow> u8 list" where
  "sent_bytes fd tr = concat (map (\<lambda>a. case a of Send_sock f bs \<Rightarrow> if f = fd then bs else [] | _ \<Rightarrow> []) tr)"

lemma trace_parts [simp]: "deliveries (xs @ ys) = deliveries xs @ deliveries ys" "deliveries [] = []"
  "sent_bytes fd (xs @ ys) = sent_bytes fd xs @ sent_bytes fd ys" "sent_bytes fd [] = []"
  by (simp_all add: deliveries_def sent_bytes_def)

definition msg_content :: "harbor_msg \<Rightarrow> u8 list" where
  "msg_content m = hm_buffer m @ header_to_message (hm_header m)"

lemma send_queued_trace:
  "\<exists>calls. hb_trace (send_queued fd ms h) = hb_trace h @ calls \<and> deliveries calls = []
    \<and> ((\<forall>m \<in> set ms. length (msg_content m) < 2 ^ 32) \<longrightarrow> sent_bytes fd calls = concat (map (frame \<circ> msg_content) ms))"
proof (induction ms arbitrary: h)
  case (Cons m ms)
  let ?h = "send_remote fd (hm_buffer m) (hm_header m) h"
  obtain a where a: "hb_trace ?h = hb_trace h @ [a]" "deliveries [a] = []" "length (msg_content m) < 2 ^ 32 \<longrightarrow> sent_bytes fd [a] = frame (msg_content m)"
  proof (cases "length (msg_content m) < 2 ^ 32")
    case True
    then show ?thesis
      by (intro that [of "Send_sock fd (frame (msg_content m))"]) (simp_all add: send_remote_def msg_content_def frame_def hcall_def deliveries_def sent_bytes_def)
  next
    case False
    then show ?thesis
      by (intro that) (auto simp: send_remote_def msg_content_def hlog_def hcall_def deliveries_def)
  qed
  from Cons.IH [of ?h] obtain calls where "hb_trace (send_queued fd ms ?h) = hb_trace ?h @ calls" "deliveries calls = []"
    "(\<forall>m \<in> set ms. length (msg_content m) < 2 ^ 32) \<longrightarrow> sent_bytes fd calls = concat (map (frame \<circ> msg_content) ms)" by blast
  with a have "hb_trace (send_queued fd (m # ms) h) = hb_trace h @ a # calls \<and> deliveries (a # calls) = []
    \<and> ((\<forall>m \<in> set (m # ms). length (msg_content m) < 2 ^ 32) \<longrightarrow> sent_bytes fd (a # calls) = concat (map (frame \<circ> msg_content) (m # ms)))"
    using trace_parts(1) [of "[a]" calls] trace_parts(3) [of fd "[a]" calls] by (simp add: send_queued_def)
  then show ?case by blast
qed (simp add: send_queued_def)

text \<open>Messages that services send to other nodes: source, destination, type, session and data.\<close>

type_synonym outgoing = "u32 \<times> u32 \<times> i32 \<times> i32 \<times> u8 list"

definition out_msg :: "outgoing \<Rightarrow> harbor_msg" where
  "out_msg m = (case m of (source, destination, type, session, data) \<Rightarrow> \<lparr>hm_header = \<lparr>rh_source = source,
     rh_destination = push_bit HANDLE_REMOTE_SHIFT type OR (destination AND HANDLE_MASK), rh_session = session\<rparr>, hm_buffer = data\<rparr>)"

definition out_delivery :: "outgoing \<Rightarrow> harbor_call" where
  "out_delivery m = (case m of (source, destination, type, session, data) \<Rightarrow>
     Send_msg source destination (type OR PTYPE_TAG_DONTCOPY) session data)"

definition out_ok :: "nat \<Rightarrow> outgoing \<Rightarrow> bool" where
  "out_ok i m \<longleftrightarrow> (case m of (source, destination, type, session, data) \<Rightarrow>
     unat (drop_bit HANDLE_REMOTE_SHIFT destination) = i \<and> unat type < 256 \<and> length data + 12 < 2 ^ 24)"

text \<open>A run of the service on messages with their sessions and sources.\<close>

fun run_harbor :: "answers \<Rightarrow> harbor \<Rightarrow> (i32 \<times> u32 \<times> harbor_in) list \<Rightarrow> harbor res" where
  "run_harbor ans h [] = Inr h"
| "run_harbor ans h ((session, source, msg) # ms) = bindE (mainloop ans h session source msg) (\<lambda>h. run_harbor ans h ms)"

definition out_input :: "outgoing \<Rightarrow> i32 \<times> u32 \<times> harbor_in" where
  "out_input m = (case m of (source, destination, type, session, data) \<Rightarrow> (session, source, System_in [] destination type data))"

definition data_input :: "i32 \<Rightarrow> u8 list \<Rightarrow> i32 \<times> u32 \<times> harbor_in" where
  "data_input f bs = (0, 0, Socket_in (data_message f bs))"

lemma run_harbor_append: "run_harbor ans h (xs @ ys) = bindE (run_harbor ans h xs) (\<lambda>h. run_harbor ans h ys)"
proof (induction xs arbitrary: h)
  case (Cons x xs)
  obtain a b m where x: "x = (a, b, m)" by (cases x) auto
  show ?case unfolding x by (cases "mainloop ans h a b m") (simp_all add: Cons.IH)
qed simp

lemma out_input_simps [simp]: "out_input (source, destination, type, session, data) = (session, source, System_in [] destination type data)"
  by (simp add: out_input_def)

lemma mainloop_data: "mainloop ans h session source (Socket_in (data_message f bs)) = push_socket_data ans h (data_message f bs)"
  by (simp add: mainloop_def Let_def data_message_def)

lemma run_harbor_data: "run_harbor ans h (map (data_input f) parts) = feed ans h f parts"
  by (induction parts arbitrary: h) (simp_all add: data_input_def mainloop_data)

text \<open>Before the link is there, messages wait in the slot in order; afterwards they are written.\<close>

lemma out_queued:
  assumes "i < length (hb_s h)" "sl_fd (hb_s h ! i) = 0" "sl_status (hb_s h ! i) = STATUS_WAIT" "queue_ok (sl_queue (hb_s h ! i))"
    and "0 < i" "hb_id h \<noteq> int i" "\<forall>m \<in> set ms. out_ok i m"
  shows "\<exists>q. run_harbor ans h (map out_input ms) = Inr (set_slave i ((hb_s h ! i)\<lparr>sl_queue := q\<rparr>) h)
    \<and> queue_ok q \<and> queued q = queued (sl_queue (hb_s h ! i)) @ map out_msg ms"
  using assms
proof (induction ms arbitrary: h)
  case Nil
  then show ?case by (intro exI [of _ "sl_queue (hb_s h ! i)"]) (simp add: set_slave_same [unfolded set_slave_def] set_slave_def)
next
  case (Cons m ms)
  obtain source destination type session data where m: "m = (source, destination, type, session, data)" by (cases m) auto
  let ?s = "hb_s h ! i"
  let ?q = "case sl_queue ?s of None \<Rightarrow> new_queue | Some q \<Rightarrow> q"
  have d: "unat (drop_bit HANDLE_REMOTE_SHIFT destination) = i" using Cons.prems(7) by (simp add: m out_ok_def)
  then have "destination \<noteq> 0" using Cons.prems(5) by auto
  have "hq_ok ?q" "hq_abs ?q = queued (sl_queue ?s)" using Cons.prems(4) by (auto simp: queue_ok_def queued_def split: option.splits)
  with push_queue_msg_ok [of ?q "out_msg m"] obtain q where q: "push_queue_msg ?q (out_msg m) = Inr q" "hq_ok q"
    "hq_abs q = queued (sl_queue ?s) @ [out_msg m]" by auto
  let ?h = "set_slave i (?s\<lparr>sl_queue := Some q\<rparr>) h"
  have step: "mainloop ans h session source (System_in [] destination type data) = Inr ?h"
    using \<open>destination \<noteq> 0\<close> d Cons.prems(1-3,6) q(1) by (auto simp: mainloop_def remote_send_handle_def push_queue_def out_msg_def m)
  have "\<exists>q'. run_harbor ans ?h (map out_input ms) = Inr (set_slave i ((hb_s ?h ! i)\<lparr>sl_queue := q'\<rparr>) ?h)
    \<and> queue_ok q' \<and> queued q' = queued (sl_queue (hb_s ?h ! i)) @ map out_msg ms"
    using Cons.prems q(2) by (intro Cons.IH) (simp_all add: queue_ok_def)
  then show ?case using Cons.prems(1) q(3) step by (simp add: m queued_def [of "Some q"])
qed

lemma out_sent:
  assumes "i < length (hb_s h)" "sl_fd (hb_s h ! i) = fd" "fd \<noteq> 0" "sl_status (hb_s h ! i) \<noteq> STATUS_HANDSHAKE"
    and "0 < i" "hb_id h \<noteq> int i" "\<forall>m \<in> set ms. out_ok i m"
  shows "run_harbor ans h (map out_input ms) = Inr (send_queued fd (map out_msg ms) h)"
  using assms
proof (induction ms arbitrary: h)
  case (Cons m ms)
  obtain source destination type session data where m: "m = (source, destination, type, session, data)" by (cases m) auto
  have d: "unat (drop_bit HANDLE_REMOTE_SHIFT destination) = i" using Cons.prems(7) by (simp add: m out_ok_def)
  then have "destination \<noteq> 0" using Cons.prems(5) by auto
  let ?h = "send_remote fd (hm_buffer (out_msg m)) (hm_header (out_msg m)) h"
  have "mainloop ans h session source (System_in [] destination type data) = Inr ?h"
    using \<open>destination \<noteq> 0\<close> d Cons.prems(1-4,6) by (auto simp: mainloop_def remote_send_handle_def out_msg_def m)
  moreover have "run_harbor ans ?h (map out_input ms) = Inr (send_queued fd (map out_msg ms) ?h)"
    using Cons.prems by (intro Cons.IH) simp_all
  ultimately show ?case by (simp add: m send_queued_def)
qed (simp add: send_queued_def)

text \<open>The text of a command is read as it was printed.\<close>

lemma scan_int_printed:
  assumes n: "0 \<le> n" "n < 2 ^ 31" and w: "\<forall>c \<in> set w. isspace c" and r: "case r of [] \<Rightarrow> True | c # _ \<Rightarrow> base_digit 10 c = None"
  shows "scan_int (w @ fmt_d n @ r) = Some (n, r)"
proof -
  let ?d = "number_digits 10 (nat n)"
  have d: "\<forall>c \<in> set ?d. base_digit 10 c \<noteq> None" by (intro number_digits_valid) simp_all
  have "base_digit 10 c \<noteq> None \<Longrightarrow> base_digit 16 c \<noteq> None" for c by (simp add: base_digit_def split: option.splits if_splits)
  with d have d16: "\<forall>c \<in> set ?d. base_digit 16 c \<noteq> None" by blast
  obtain c cs where c: "?d = c # cs" by (cases ?d) auto
  then have sp: "\<not> isspace c" "c \<noteq> CHR ''-''" "c \<noteq> CHR ''+''" using hex_not_special [of c] d16 by auto
  have "dropWhile isspace (w @ ?d @ r) = ?d @ r" using w sp(1) c by simp
  moreover have "takeWhile (\<lambda>c. base_digit 10 c \<noteq> None) (?d @ r) = ?d" using d r by (cases r) (auto simp: takeWhile_append)
  moreover have "strtol ?d 10 = n" using n scan_number_digits [of 10 "nat n"]
    by (simp add: strtol_def parse_sign_digits [OF d16] parse_magnitude_def)
  ultimately show ?thesis using n sp c by (simp add: scan_int_def fmt_d_def Let_def)
qed

lemma printed_text: "0 \<le> n \<Longrightarrow> CHR 0x00 \<notin> set (fmt_d n)"
  using number_digits_valid [of 10 "nat n"] by (auto simp: fmt_d_def base_digit_def digit_value_def byte_of_def Let_def)

definition accept_command :: "int \<Rightarrow> nat \<Rightarrow> string" where
  "accept_command fd i = ''A '' @ fmt_d fd @ '' '' @ fmt_d (int i)"

lemma accept_reads:
  assumes "0 < fd" "fd < 2 ^ 31" "0 < i" "i < REMOTE_MAX"
  shows "command_connect h c (fmt_d fd @ '' '' @ fmt_d (int i)) =
    bindE (nthE (hb_s h) i) (\<lambda>s.
      if sl_fd s \<noteq> 0 then Inr (hlog (''Harbor '' @ fmt_d (int i) @ '' alreay exist'') h)
      else
        let s = s\<lparr>sl_fd := fd\<rparr>; h = hcall (Start_sock fd) (set_slave i s h) in
        bindE (handshake h i) (\<lambda>h.
        if c = CHR ''S'' then Inr (set_slave i (s\<lparr>sl_status := STATUS_HANDSHAKE\<rparr>) h)
        else dispatch_queue (set_slave i (s\<lparr>sl_status := STATUS_HEADER\<rparr>) h) i))"
proof -
  let ?t = "fmt_d fd @ '' '' @ fmt_d (int i)"
  have "CHR 0x00 \<notin> set ?t" using printed_text [of fd] printed_text [of "int i"] assms by auto
  then have t: "takeWhile (\<lambda>c. c \<noteq> CHR 0x00) ?t = ?t" unfolding takeWhile_eq_all_conv by blast
  have p: "scan_int ?t = Some (fd, '' '' @ fmt_d (int i))" using scan_int_printed [of fd "[]" "'' '' @ fmt_d (int i)"] assms
    by (simp add: base_digit_def digit_value_def byte_of_def)
  moreover have "scan_int ('' '' @ fmt_d (int i)) = Some (int i, [])" using scan_int_printed [of "int i" "'' ''" "[]"] assms(4)
    by (simp add: isspace_def REMOTE_MAX_def)
  ultimately show ?thesis unfolding command_connect_def Let_def t p using assms by (simp cong del: if_weak_cong)
qed

lemma accept_connects:
  assumes i: "i < length (hb_s h)" "hb_s h ! i = s" "0 < i" "i < REMOTE_MAX" and s: "sl_fd s = 0" "queue_ok (sl_queue s)" and fd: "0 < fd" "fd < 2 ^ 31"
  shows "mainloop ans h session source (Harbor_in (accept_command fd i)) = Inr (set_slave i (s\<lparr>sl_fd := fd, sl_status := STATUS_HEADER, sl_queue := None\<rparr>)
    (send_queued fd (queued (sl_queue s)) (hcall (Send_sock fd [word_of_int (hb_id h)]) (hcall (Start_sock fd) h))))"
proof -
  let ?h = "set_slave i (s\<lparr>sl_fd := fd, sl_status := STATUS_HEADER\<rparr>) (hcall (Send_sock fd [word_of_int (hb_id h)]) (hcall (Start_sock fd) h))"
  have "dispatch_queue ?h i = Inr (set_slave i (s\<lparr>sl_fd := fd, sl_status := STATUS_HEADER, sl_queue := None\<rparr>) (send_queued fd (queued (sl_queue s)) ?h))"
    using dispatch_harbor_queue [of i ?h "s\<lparr>sl_fd := fd, sl_status := STATUS_HEADER\<rparr>"] i s fd by simp
  then have "command_connect h (CHR ''A'') (fmt_d fd @ '' '' @ fmt_d (int i)) = Inr (set_slave i (s\<lparr>sl_fd := fd, sl_status := STATUS_HEADER, sl_queue := None\<rparr>)
    (send_queued fd (queued (sl_queue s)) (hcall (Send_sock fd [word_of_int (hb_id h)]) (hcall (Start_sock fd) h))))"
    using accept_reads [of fd i h "CHR ''A''"] i s fd by (simp add: handshake_def)
  then show ?thesis by (simp add: mainloop_def harbor_command_def accept_command_def)
qed

lemma out_content: "msg_content (out_msg m) = (case m of (source, destination, type, session, data) \<Rightarrow> data @ header_to_message
    \<lparr>rh_source = source, rh_destination = push_bit HANDLE_REMOTE_SHIFT type OR (destination AND HANDLE_MASK), rh_session = session\<rparr>)"
  by (cases m) (simp add: msg_content_def out_msg_def)

lemma out_length: "out_ok i m \<Longrightarrow> 12 \<le> length (msg_content (out_msg m)) \<and> length (msg_content (out_msg m)) < 2 ^ 24"
  by (cases m) (simp add: out_content out_ok_def)

text \<open>The handle and the type come out of the destination field again.\<close>

lemma destination_field:
  fixes type :: u32 and destination :: u32
  assumes "unat type < 256" "unat (drop_bit 24 destination) = i"
  defines "d \<equiv> push_bit 24 type OR (destination AND 0xffffff)"
  shows "drop_bit 24 d = type" "(d AND 0xffffff) OR push_bit 24 (of_nat i) = destination"
proof -
  have m: "(0xffffff :: u32) = mask 24" by (simp add: mask_eq_exp_minus_1)
  have t: "type AND mask 8 = type" using assms(1) by (simp add: word_unat_eq_iff unat_and_mask)
  have tb: "bit type k \<Longrightarrow> k < 8" for k
    using arg_cong [OF t, of "\<lambda>w. bit w k"] by (simp add: bit_simps)
  show "drop_bit 24 d = type"
  proof (rule bit_word_eqI)
    fix k show "bit (drop_bit 24 d) k = bit type k" unfolding d_def m using tb [of k] by (auto simp: bit_simps)
  qed
  have i: "of_nat i = drop_bit 24 destination" using assms(2) by auto
  show "(d AND 0xffffff) OR push_bit 24 (of_nat i) = destination"
  proof (rule bit_word_eqI)
    fix k :: nat assume "k < LENGTH(32)"
    then show "bit ((d AND 0xffffff) OR push_bit 24 (of_nat i)) k = bit destination k"
      unfolding d_def m i by (cases "k < 24") (auto simp: bit_simps)
  qed
qed

lemma link_calls_out:
  assumes "out_ok i m" "0 \<le> ans tr (out_delivery m)"
  shows "link_calls ans (int i) (msg_content (out_msg m)) tr = [out_delivery m]"
proof -
  obtain source destination type session data where m: "m = (source, destination, type, session, data)" by (cases m) auto
  have "drop_bit 24 (push_bit 24 type OR (destination AND 0xffffff)) = type"
    "((push_bit 24 type OR (destination AND 0xffffff)) AND 0xffffff) OR push_bit 24 (of_nat i) = destination"
    using destination_field [of type destination i] assms(1) by (simp_all add: m out_ok_def HANDLE_REMOTE_SHIFT_def)
  then show ?thesis using assms(2)
    by (simp add: link_calls_def out_content m Let_def out_delivery_def HANDLE_REMOTE_SHIFT_def HANDLE_MASK_def)
qed

lemma deliver_out:
  assumes "\<forall>m \<in> set ms. out_ok i m" "\<forall>tr a. 0 \<le> ans tr a" "hb_id h = int i"
  shows "hb_trace (fold (deliver ans) (map (msg_content \<circ> out_msg) ms) h) = hb_trace h @ map out_delivery ms"
  using assms
proof (induction ms arbitrary: h)
  case (Cons m ms)
  have "deliver ans (msg_content (out_msg m)) h = h\<lparr>hb_trace := hb_trace h @ [out_delivery m]\<rparr>"
    using Cons.prems by (simp add: deliver_def link_calls_out)
  then show ?case using Cons.IH [of "h\<lparr>hb_trace := hb_trace h @ [out_delivery m]\<rparr>"] Cons.prems by simp
qed simp

text \<open>A slot that waits for the first byte of the other side.\<close>

definition awaits :: "slave \<Rightarrow> bool" where
  "awaits s \<longleftrightarrow> sl_status s = STATUS_HANDSHAKE \<and> sl_read s = 0 \<and> length (sl_size s) = 4 \<and> queue_ok (sl_queue s)"

lemma feed_handshake:
  assumes at: "link_at h f i" and s: "awaits (hb_s h ! i)" and f: "sint f \<noteq> 0" and parts: "[] \<notin> set parts" "concat parts = of_nat i # bs"
  defines "s \<equiv> (hb_s h ! i)\<lparr>sl_status := STATUS_HEADER, sl_queue := None\<rparr>"
    and "h1 \<equiv> set_slave i ((hb_s h ! i)\<lparr>sl_status := STATUS_HEADER, sl_queue := None\<rparr>) (send_queued (sint f) (queued (sl_queue (hb_s h ! i))) h)"
  shows "link_result ans i s h1 (split_link bs) (feed ans h f parts)"
proof -
  obtain b0 rest where p: "parts = (of_nat i # b0) # rest" "bs = b0 @ concat rest"
    using parts by (cases parts; cases "hd parts") auto
  have st: "sl_status (hb_s h ! i) = STATUS_HANDSHAKE" "queue_ok (sl_queue (hb_s h ! i))" using s by (simp_all add: awaits_def)
  have i: "i < length (hb_s h)" using at by (simp add: link_at_def)
  have at1: "link_at h1 f i" using at by (rule link_at_cong [where s' = s]) (simp_all add: h1_def s_def)
  have s1: "hb_s h1 ! i = s" "rx s []" "sl_queue s = None" using i s by (simp_all add: h1_def s_def rx_def awaits_def)
  have step: "feed ans h f parts = feed ans h1 f (b0 # rest)"
    using handshake_step [OF at st f, of ans b0] by (simp add: p h1_def s_def)
  show ?thesis
  proof (cases "b0 = []")
    case False
    then show ?thesis using link_feed [OF at1, unfolded s1(1), OF s1(2) f s1(3), of "b0 # rest" ans] parts(1) step
      by (simp add: p)
  next
    case True
    have fd: "sl_fd s \<noteq> 0" using link_at_fd [OF at] f by (simp add: s_def)
    have i1: "i < length (hb_s h1)" using at1 by (simp add: link_at_def)
    from socket_loop_ok [OF i1 s1(1) s1(2) fd s1(3), where bs = "[]" and ans = ans and f = "sint f"]
    obtain s2 where s2: "socket_loop ans h1 i (sint f) [] 0 = Some (Inr (set_slave i s2 h1))" "rx s2 []" "sl_fd s2 = sl_fd s" "sl_queue s2 = None"
      by (auto simp: link_result_def)
    let ?h2 = "set_slave i s2 h1"
    have at2: "link_at ?h2 f i" by (rule link_at_cong [OF at1 _ s2(3) [folded s1(1)]]) simp
    have "push_socket_data ans h1 (data_message f []) = Inr ?h2"
      using push_socket_data_loop [OF at1, of ans "[]"] s2(1) by (simp add: loopE_def)
    then have "feed ans h f parts = feed ans ?h2 f rest" using step True by simp
    moreover have "hb_s ?h2 ! i = s2" using i1 by simp
    from link_feed [OF at2, unfolded this, OF s2(2) f s2(4), of rest ans] parts(1)
    have "link_result ans i s2 ?h2 (split_link bs) (feed ans ?h2 f rest)" by (simp add: p True)
    ultimately show ?thesis using s2(3,4) by (auto simp: link_result_def split: rx_end.splits)
  qed
qed

text \<open>C36: A harbor that is told of a new connection to another node writes its number, the messages that
  have waited for the node and all later ones to the connection. However these bytes arrive in parts,
  the other harbor delivers exactly these messages, in order, to the services they were sent to.\<close>

theorem harbor_link_delivers:
  assumes A: "length (hb_s A) = REMOTE_MAX" "hb_id A = int a" "a \<noteq> b" "0 < b" "b < REMOTE_MAX"
      "sl_fd (hb_s A ! b) = 0" "sl_status (hb_s A ! b) = STATUS_WAIT" "sl_queue (hb_s A ! b) = None"
    and B: "hb_id B = int b" "link_at B f a" "awaits (hb_s B ! a)" "sint f \<noteq> 0" "\<forall>tr m. 0 \<le> ansB tr m"
    and fd: "0 < fd" "fd < 2 ^ 31" and ms: "\<forall>m \<in> set (ms @ ms'). out_ok b m"
  shows "\<exists>A' calls. run_harbor ansA A (map out_input ms @ [(session, source, Harbor_in (accept_command fd b))] @ map out_input ms') = Inr A'
    \<and> hb_trace A' = hb_trace A @ calls
    \<and> (\<forall>parts. [] \<notin> set parts \<and> concat parts = sent_bytes fd calls \<longrightarrow>
        (\<exists>B'. run_harbor ansB B (map (data_input f) parts) = Inr B'
          \<and> deliveries (hb_trace B') = deliveries (hb_trace B) @ map out_delivery (ms @ ms')))"
proof -
  let ?s = "hb_s A ! b" and ?all = "map out_msg (ms @ ms')"
  have len: "b < length (hb_s A)" using A by simp
  from out_queued [OF len A(6,7), of ms ansA] A ms obtain q where q: "run_harbor ansA A (map out_input ms) = Inr (set_slave b (?s\<lparr>sl_queue := q\<rparr>) A)"
    "queue_ok q" "queued q = map out_msg ms" by (auto simp: queue_ok_def queued_def)
  let ?A1 = "set_slave b (?s\<lparr>sl_queue := q\<rparr>) A" and ?s2 = "?s\<lparr>sl_fd := fd, sl_status := STATUS_HEADER, sl_queue := None\<rparr>"
  let ?A0 = "hcall (Send_sock fd [word_of_int (int a)]) (hcall (Start_sock fd) A)"
  let ?A2 = "set_slave b ?s2 (send_queued fd (map out_msg ms) ?A0)"
  have con: "mainloop ansA ?A1 session source (Harbor_in (accept_command fd b)) = Inr ?A2"
    using accept_connects [of b ?A1 "?s\<lparr>sl_queue := q\<rparr>" fd ansA session source] len A fd q(2,3) by simp
  have "run_harbor ansA ?A2 (map out_input ms') = Inr (send_queued fd (map out_msg ms') ?A2)"
    using len A fd ms by (intro out_sent [of b]) simp_all
  then have run: "run_harbor ansA A (map out_input ms @ [(session, source, Harbor_in (accept_command fd b))] @ map out_input ms')
      = Inr (set_slave b ?s2 (send_queued fd ?all ?A0))"
    using q(1) con by (simp add: run_harbor_append send_queued_append)
  from send_queued_trace [of fd ?all ?A0] obtain calls where calls: "hb_trace (send_queued fd ?all ?A0) = hb_trace ?A0 @ calls"
    "(\<forall>m \<in> set ?all. length (msg_content m) < 2 ^ 32) \<longrightarrow> sent_bytes fd calls = concat (map (frame \<circ> msg_content) ?all)" by blast
  have ok: "12 \<le> length (msg_content (out_msg m)) \<and> length (msg_content (out_msg m)) < 2 ^ 24" if "m \<in> set (ms @ ms')" for m
    using ms that out_length by blast
  let ?cs = "map (msg_content \<circ> out_msg) (ms @ ms')"
  have "\<forall>m \<in> set ?all. length (msg_content m) < 2 ^ 32" using ok by fastforce
  with calls(2) have bytes: "sent_bytes fd ([Start_sock fd, Send_sock fd [word_of_int (int a)]] @ calls) = of_nat a # concat (map frame ?cs)"
    by (simp add: sent_bytes_def comp_assoc)
  have split: "split_link (concat (map frame ?cs)) = (?cs, Rest [])" using ok by (intro split_link_frames) auto
  have deliver: "\<exists>B'. run_harbor ansB B (map (data_input f) parts) = Inr B' \<and> deliveries (hb_trace B') = deliveries (hb_trace B) @ map out_delivery (ms @ ms')"
    if p: "[] \<notin> set parts" "concat parts = of_nat a # concat (map frame ?cs)" for parts
  proof -
    let ?B1 = "set_slave a ((hb_s B ! a)\<lparr>sl_status := STATUS_HEADER, sl_queue := None\<rparr>) (send_queued (sint f) (queued (sl_queue (hb_s B ! a))) B)"
    from feed_handshake [OF B(2,3,4) p, of ansB] split obtain s' where
      "feed ansB B f parts = Inr (set_slave a s' (fold (deliver ansB) ?cs ?B1))" by (auto simp: link_result_def)
    moreover have "hb_trace (fold (deliver ansB) ?cs ?B1) = hb_trace ?B1 @ map out_delivery (ms @ ms')"
      using ms B by (intro deliver_out) simp_all
    moreover obtain out where "hb_trace ?B1 = hb_trace B @ out" "deliveries out = []"
      using send_queued_trace [of "sint f" "queued (sl_queue (hb_s B ! a))" B] by auto
    moreover have "deliveries (map out_delivery (ms @ ms')) = map out_delivery (ms @ ms')"
      by (simp add: deliveries_def out_delivery_def split: prod.splits)
    ultimately show ?thesis unfolding run_harbor_data by (simp add: deliveries_def)
  qed
  show ?thesis using run calls(1) bytes deliver
    by (intro exI [of _ "set_slave b ?s2 (send_queued fd ?all ?A0)"] exI [of _ "[Start_sock fd, Send_sock fd [word_of_int (int a)]] @ calls"]) simp
qed

text \<open>C37: Reading the data of a link, in any parts, gives the meaning of the bytes: the contents of the
  complete frames are delivered in order; then the slot keeps the bytes of an unfinished frame, or the
  link is closed and reported because a frame is too long, or, for a frame too short for its header, the memory in
  front of it is read. The loop always ends.\<close>

theorem harbor_link_refines:
  assumes "link_at h f i" "rx (hb_s h ! i) p" "sint f \<noteq> 0" "sl_queue (hb_s h ! i) = None" "[] \<notin> set parts"
  shows "link_result ans i (hb_s h ! i) h (split_link (p @ concat parts)) (run_harbor ans h (map (data_input f) parts))"
  unfolding run_harbor_data by (rule link_feed [OF assms])

section \<open>Two harbors\<close>

text \<open>Harbor 1, and harbor 2 after it was told to connect to harbor 1 on socket 7.\<close>

definition harbor1 :: harbor where
  "harbor1 = harbor_create\<lparr>hb_id := 1, hb_slave := 0x01000005\<rparr>"

definition harbor2 :: harbor where
  "harbor2 = set_slave 1 (slave_zero\<lparr>sl_fd := 7, sl_status := STATUS_HANDSHAKE\<rparr>) (harbor_create\<lparr>hb_id := 2, hb_slave := 0x02000005\<rparr>)"

definition greeting :: outgoing where
  "greeting = (0x01000008, 0x02000009, 1, 5, [104, 105])"

lemma two_harbors [simp]: "hb_s harbor1 = replicate 256 slave_zero" "hb_id harbor1 = 1" "hb_id harbor2 = 2"
  "hb_slave harbor1 = 0x01000005" "hb_map harbor1 = hash_new" "hb_map harbor2 = hash_new"
  "hb_s harbor2 = (replicate 256 slave_zero)[1 := slave_zero\<lparr>sl_fd := 7, sl_status := STATUS_HANDSHAKE\<rparr>]"
  by (simp_all add: harbor1_def harbor2_def harbor_create_def REMOTE_MAX_def set_slave_def)

lemma harbor2_link: "link_at harbor2 7 1"
  by (simp add: link_at_def REMOTE_MAX_def upt_conv_Cons)

lemma harbor2_awaits: "awaits (hb_s harbor2 ! 1)"
  by (simp add: awaits_def slave_zero_def queue_ok_def)

lemma greeting_ok: "out_ok 2 greeting"
  by (simp add: out_ok_def greeting_def HANDLE_REMOTE_SHIFT_def unat_drop_bit_div)

theorem harbor_link_delivers_witness:
  "\<exists>A' calls. run_harbor (\<lambda>_ _. 0) harbor1 (map out_input [greeting] @ [(0, 0x01000005, Harbor_in (accept_command 9 2))] @ map out_input [greeting]) = Inr A'
    \<and> hb_trace A' = hb_trace harbor1 @ calls
    \<and> (\<forall>parts. [] \<notin> set parts \<and> concat parts = sent_bytes 9 calls \<longrightarrow>
        (\<exists>B'. run_harbor (\<lambda>_ _. 0) harbor2 (map (data_input 7) parts) = Inr B'
          \<and> deliveries (hb_trace B') = deliveries (hb_trace harbor2) @ map out_delivery ([greeting] @ [greeting])))"
  by (rule harbor_link_delivers [where a = 1 and b = 2])
    (use harbor2_link harbor2_awaits greeting_ok in \<open>simp_all add: REMOTE_MAX_def slave_zero_def\<close>)

theorem harbor_link_refines_witness:
  "\<exists>h. link_at h 7 1 \<and> link_result (\<lambda>_ _. 0) 1 (hb_s h ! 1) h (split_link ([] @ concat [[0, 0], [0, 13] @ replicate 13 5]))
     (run_harbor (\<lambda>_ _. 0) h (map (data_input 7) [[0, 0], [0, 13] @ replicate 13 5]))"
proof -
  let ?h = "set_slave 1 (slave_zero\<lparr>sl_fd := 7, sl_status := STATUS_HEADER\<rparr>) harbor2"
  have at: "link_at ?h 7 1"
    using harbor2_link by (rule link_at_cong [where s' = "slave_zero\<lparr>sl_fd := 7, sl_status := STATUS_HEADER\<rparr>"]) simp_all
  moreover have "link_result (\<lambda>_ _. 0) 1 (hb_s ?h ! 1) ?h (split_link ([] @ concat [[0, 0], [0, 13] @ replicate 13 5]))
     (run_harbor (\<lambda>_ _. 0) ?h (map (data_input 7) [[0, 0], [0, 13] @ replicate 13 5]))"
    by (rule harbor_link_refines [OF at]) (simp_all add: rx_def slave_zero_def)
  ultimately show ?thesis by blast
qed

end
