(* ===== verification/Harbor_Safety.thy ===== *)
theory Harbor_Safety
  imports Harbor_Link
begin

text \<open>
  The harbor service (\<^verbatim>\<open>service-src/service_harbor.c\<close>) as a whole: the invariant of its slots and
  queues, that every message is handled without a fault, and what happens to a link that was closed
  and to messages that wait for a name.
\<close>

section \<open>The invariant\<close>

text \<open>The bytes of an unfinished frame that a slot holds.\<close>

definition pending :: "slave \<Rightarrow> u8 list" where
  "pending s = (if sl_status s = STATUS_CONTENT
     then sl_size s @ (case sl_recv_buffer s of None \<Rightarrow> [] | Some buffer \<Rightarrow> map the (take (nat (sl_read s)) buffer))
     else take (nat (sl_read s)) (sl_size s))"

definition slot_ok :: "slave \<Rightarrow> bool" where
  "slot_ok s \<longleftrightarrow> queue_ok (sl_queue s) \<and> (sl_status s = STATUS_WAIT \<longleftrightarrow> sl_fd s = 0)
     \<and> (case sl_status s of
          STATUS_WAIT \<Rightarrow> sl_read s = 0 \<and> length (sl_size s) = 4
        | STATUS_HANDSHAKE \<Rightarrow> sl_read s = 0 \<and> length (sl_size s) = 4
        | STATUS_DOWN \<Rightarrow> sl_queue s = None
        | _ \<Rightarrow> sl_queue s = None \<and> rx s (pending s))"

definition map_ok :: "hashmap \<Rightarrow> bool" where
  "map_ok hash \<longleftrightarrow> (\<forall>b. \<forall>node \<in> set (hash b). queue_ok (kv_queue node))"

definition harbor_ok :: "harbor \<Rightarrow> bool" where
  "harbor_ok h \<longleftrightarrow> length (hb_s h) = REMOTE_MAX \<and> (\<forall>s \<in> set (hb_s h). slot_ok s) \<and> map_ok (hb_map h)"

lemma queue_ok_simps [simp]: "queue_ok None" "queue_ok (Some q) = hq_ok q"
  by (simp_all add: queue_ok_def)

lemma rx_pending: "rx s p \<Longrightarrow> pending s = p"
  by (cases "length p < 4") (auto simp: rx_def pending_def comp_def)

lemma rx_slot_ok: "rx s p \<Longrightarrow> sl_fd s \<noteq> 0 \<Longrightarrow> sl_queue s = None \<Longrightarrow> slot_ok s"
  using rx_pending [of s p] by (cases "length p < 4") (auto simp: slot_ok_def rx_def)

lemma slot_fd: "slot_ok s \<Longrightarrow> sl_fd s = 0 \<longleftrightarrow> sl_status s = STATUS_WAIT"
  by (auto simp: slot_ok_def)

lemma harbor_okD: "harbor_ok h \<Longrightarrow> i < REMOTE_MAX \<Longrightarrow> slot_ok (hb_s h ! i)" "harbor_ok h \<Longrightarrow> length (hb_s h) = REMOTE_MAX"
  "harbor_ok h \<Longrightarrow> map_ok (hb_map h)"
  by (simp_all add: harbor_ok_def)

lemma harbor_ok_set [simp]: "harbor_ok h \<Longrightarrow> slot_ok s \<Longrightarrow> harbor_ok (set_slave i s h)"
  by (auto simp: harbor_ok_def dest: set_update_subset_insert [THEN subsetD])

lemma harbor_ok_calls [simp]: "harbor_ok (hcall a h) = harbor_ok h" "harbor_ok (hlog t h) = harbor_ok h"
  "harbor_ok (fold (deliver ans) cs h) = harbor_ok h" "harbor_ok (send_remote fd b c h) = harbor_ok h"
  "harbor_ok (send_queued fd ms h) = harbor_ok h" "harbor_ok (report_harbor_down h i) = harbor_ok h"
  by (simp_all add: harbor_ok_def hlog_def report_harbor_down_def)

lemma handle_slot: "unat (drop_bit HANDLE_REMOTE_SHIFT (w :: u32)) < REMOTE_MAX"
proof -
  have "unat w < 2 ^ LENGTH(32)" by (rule unsigned_less)
  then show ?thesis by (simp add: unat_drop_bit_div HANDLE_REMOTE_SHIFT_def REMOTE_MAX_def)
qed

lemma harbor_create_ok: "harbor_ok harbor_create"
  by (simp add: harbor_ok_def harbor_create_def slot_ok_def slave_zero_def map_ok_def hash_new_def)

section \<open>Every message is handled\<close>

text \<open>Reading from a link.\<close>

definition readable :: "harbor \<Rightarrow> nat \<Rightarrow> u8 list \<Rightarrow> bool" where
  "readable h i bs \<longleftrightarrow> bs \<noteq> [] \<and> (let s = hb_s h ! i in
     snd (split_link (if sl_status s = STATUS_HANDSHAKE then tl bs else pending s @ bs)) \<noteq> Short)"

lemma link_result_ok:
  assumes "link_result ans i s h (split_link p) out" "snd (split_link p) \<noteq> Short" "harbor_ok h" "sl_fd s \<noteq> 0"
  shows "\<exists>h'. out = Inr h' \<and> harbor_ok h'"
proof (cases "snd (split_link p)")
  case (Rest q)
  then obtain s' where "out = Inr (set_slave i s' (fold (deliver ans) (fst (split_link p)) h))" "rx s' q" "sl_fd s' = sl_fd s" "sl_queue s' = None"
    using assms(1) by (auto simp: link_result_def)
  then show ?thesis using rx_slot_ok [of s' q] assms(3,4) by simp
next
  case Too_long
  then obtain s' where "out = Inr (set_slave i s' (hcall (Close_sock (sl_fd s)) (hlog (''Message is too long from harbor '' @ fmt_d (int i))
        (fold (deliver ans) (fst (split_link p)) h))))" "sl_status s' = STATUS_DOWN" "sl_fd s' = sl_fd s" "sl_queue s' = None"
    using assms(1) by (auto simp: link_result_def)
  moreover then have "slot_ok s'" using assms(4) by (simp add: slot_ok_def)
  ultimately show ?thesis using assms(3) by simp
qed (use assms(2) in simp)

lemma handshake_refused:
  assumes at: "link_at h f i" and s: "awaits (hb_s h ! i)" and f: "sint f \<noteq> 0" and b: "unat b \<noteq> i" and ok: "harbor_ok h"
  shows "\<exists>h'. push_socket_data ans h (data_message f (b # bs)) = Inr h' \<and> harbor_ok h'"
proof -
  have i: "i < length (hb_s h)" "sl_fd (hb_s h ! i) \<noteq> 0" using at link_at_fd [OF at] f by (simp_all add: link_at_def)
  have "queue_ok (sl_queue (hb_s h ! i))" "sl_status (hb_s h ! i) = STATUS_HANDSHAKE" using s by (simp_all add: awaits_def)
  moreover from this(1) have "release_queue (sl_queue (hb_s h ! i)) = Inr ()" by (cases "sl_queue (hb_s h ! i)") simp_all
  moreover have "slot_ok ((hb_s h ! i)\<lparr>sl_status := STATUS_DOWN, sl_queue := None\<rparr>)" using i(2) by (simp add: slot_ok_def)
  ultimately show ?thesis unfolding push_socket_data_loop [OF at] using i b ok
    by (simp add: socket_loop.simps [of _ h] socket_pass_def handshake_pass_def close_harbor_def Let_def loopE_def)
qed

lemma push_socket_data_ok:
  assumes ok: "harbor_ok h" and at: "link_at h f i" and r: "readable h i bs"
  shows "\<exists>h'. push_socket_data ans h (data_message f bs) = Inr h' \<and> harbor_ok h'"
proof -
  let ?s = "hb_s h ! i"
  have s: "slot_ok ?s" "sl_fd ?s = sint f" using harbor_okD(1) [OF ok] link_at_fd [OF at] by simp_all
  show ?thesis
  proof (cases "sl_status ?s")
    case STATUS_WAIT
    then show ?thesis unfolding push_socket_data_loop [OF at] using ok at
      by (simp add: socket_loop.simps [of _ h] socket_pass_def link_at_def loopE_def)
  next
    case STATUS_HANDSHAKE
    then have f: "sint f \<noteq> 0" and aw: "awaits ?s" using s slot_fd [OF s(1)] by (simp_all add: awaits_def slot_ok_def)
    obtain b bs' where bs: "bs = b # bs'" using r by (cases bs) (auto simp: readable_def)
    show ?thesis
    proof (cases "unat b = i")
      case True
      then have "b = of_nat i" by auto
      then have c: "concat [bs] = of_nat i # bs'" "[] \<notin> set [bs]" by (simp_all add: bs)
      have "slot_ok (?s\<lparr>sl_status := STATUS_HEADER, sl_queue := None\<rparr>)"
        using f aw s(2) by (intro rx_slot_ok [of _ "[]"]) (simp_all add: rx_def awaits_def)
      with ok have "harbor_ok (set_slave i (?s\<lparr>sl_status := STATUS_HEADER, sl_queue := None\<rparr>) (send_queued (sint f) (queued (sl_queue ?s)) h))"
        by simp
      from link_result_ok [OF feed_handshake [OF at aw f c(2,1), of ans] _ this] r STATUS_HANDSHAKE s(2) f show ?thesis
        by (auto simp: readable_def bs)
    qed (use handshake_refused [OF at aw f _ ok] bs in auto)
  next
    case STATUS_DOWN
    then show ?thesis using feed_down [OF at, of ans "[bs]"] ok by simp
  qed (use link_result_ok [OF link_feed [OF at, of "pending ?s" "[bs]" ans]] r s slot_fd [OF s(1)] ok in \<open>auto simp: slot_ok_def readable_def\<close>)
qed

text \<open>Moving or sending the messages that have waited for a name.\<close>

lemma queue_slot_ok: "slot_ok s \<Longrightarrow> queue_ok q \<Longrightarrow> sl_status s = STATUS_WAIT \<or> sl_status s = STATUS_HANDSHAKE \<Longrightarrow> slot_ok (s\<lparr>sl_queue := q\<rparr>)"
  by (auto simp: slot_ok_def)

lemma local_deliver_ok:
  assumes "harbor_ok h" "hq_ok q"
  shows "\<exists>q' h'. loopE (pop_loop (\<lambda>m h. Inr (hcall (call_of m) h)) q h) = Inr (q', h') \<and> hq_ok q' \<and> harbor_ok h' \<and> hb_map h' = hb_map h"
  using pop_loop_fold [OF assms(2), of "\<lambda>h'. harbor_ok h' \<and> hb_map h' = hb_map h" h "\<lambda>m h. Inr (hcall (call_of m) h)" "\<lambda>_. ()" "\<lambda>_ _. ()"] assms(1)
  by auto

lemma remote_deliver_ok:
  assumes "harbor_ok h" "hq_ok q"
  shows "\<exists>q' h'. loopE (pop_loop (\<lambda>m h. Inr (send_remote fd (hm_buffer m) (cookie m) h)) q h) = Inr (q', h') \<and> hq_ok q' \<and> harbor_ok h' \<and> hb_map h' = hb_map h"
  using pop_loop_fold [OF assms(2), of "\<lambda>h'. harbor_ok h' \<and> hb_map h' = hb_map h" h "\<lambda>m h. Inr (send_remote fd (hm_buffer m) (cookie m) h)" "\<lambda>_. ()" "\<lambda>_ _. ()"] assms(1)
  by auto

lemma move_queue_ok:
  assumes "hq_ok q" "hq_ok sq"
  shows "\<exists>q' sq'. loopE (pop_loop (\<lambda>m sq. push_queue_msg sq m) q sq) = Inr (q', sq') \<and> hq_ok q' \<and> hq_ok sq' \<and> hq_abs sq' = hq_abs sq @ hq_abs q"
proof -
  have "\<exists>q' sq'. loopE (pop_loop (\<lambda>m sq. push_queue_msg sq m) q sq) = Inr (q', sq') \<and> hq_ok q' \<and> hq_abs q' = []
      \<and> hq_ok sq' \<and> hq_abs sq' = fold (\<lambda>m ms. ms @ [m]) (hq_abs q) (hq_abs sq)"
    by (rule pop_loop_fold [where P = hq_ok and g = hq_abs, OF assms]) (rule push_queue_msg_ok)
  moreover have "fold (\<lambda>m ms. ms @ [m]) xs ys = ys @ xs" for xs ys :: "harbor_msg list" by (induction xs arbitrary: ys) simp_all
  ultimately show ?thesis by auto
qed

lemma dispatch_name_queue_ok:
  assumes ok: "harbor_ok h" and q: "kv_queue node = Some q" "hq_ok q"
  shows "\<exists>h' node'. dispatch_name_queue h node = Inr (h', node') \<and> harbor_ok h' \<and> queue_ok (kv_queue node') \<and> hb_map h' = hb_map h"
proof -
  define i where "i = unat (drop_bit HANDLE_REMOTE_SHIFT (kv_value node))"
  note hid = i_def [symmetric]
  let ?s = "hb_s h ! i"
  have i: "i < length (hb_s h)" using harbor_okD(2) [OF ok] handle_slot by (simp add: i_def)
  have s: "slot_ok ?s" using harbor_okD(1) [OF ok] handle_slot by (simp add: i_def)
  show ?thesis
  proof (cases "sl_fd ?s = 0")
    case False
    obtain q' h' where "loopE (pop_loop (\<lambda>m h. Inr (send_remote (sl_fd ?s) (hm_buffer m) ((hm_header m)\<lparr>rh_destination := rh_destination (hm_header m)
        OR (kv_value node AND HANDLE_MASK)\<rparr>) h)) q h) = Inr (q', h')" "hq_ok q'" "harbor_ok h'" "hb_map h' = hb_map h"
      using remote_deliver_ok [OF ok q(2), of "sl_fd ?s" "\<lambda>m. (hm_header m)\<lparr>rh_destination := rh_destination (hm_header m) OR (kv_value node AND HANDLE_MASK)\<rparr>"]
      by blast
    then show ?thesis using False i q by (simp add: dispatch_name_queue_def Let_def hid)
  next
    case True
    then have w: "sl_status ?s = STATUS_WAIT" using slot_fd [OF s] by simp
    have moved: "\<exists>sq' node'. (case sl_queue ?s of
              None \<Rightarrow> Inr (?s\<lparr>sl_queue := kv_queue node\<rparr>, node\<lparr>kv_queue := None\<rparr>)
            | Some sq \<Rightarrow> bindE (derefE (kv_queue node)) (\<lambda>q.
                bindE (loopE (pop_loop (\<lambda>m sq. push_queue_msg sq m) q sq)) (\<lambda>(q, sq).
                Inr (?s\<lparr>sl_queue := Some sq\<rparr>, node\<lparr>kv_queue := Some q\<rparr>)))) = Inr (?s\<lparr>sl_queue := Some sq'\<rparr>, node')
        \<and> hq_ok sq' \<and> queue_ok (kv_queue node')"
    proof (cases "sl_queue ?s")
      case (Some sq)
      then have "hq_ok sq" using s by (simp add: slot_ok_def)
      from move_queue_ok [OF q(2) this] Some q show ?thesis by (auto simp: split_def)
    next
      case None
      then show ?thesis using q by (intro exI [of _ q] exI [of _ "node\<lparr>kv_queue := None\<rparr>"]) simp
    qed
    then obtain sq' node' where m: "(case sl_queue ?s of
              None \<Rightarrow> Inr (?s\<lparr>sl_queue := kv_queue node\<rparr>, node\<lparr>kv_queue := None\<rparr>)
            | Some sq \<Rightarrow> bindE (derefE (kv_queue node)) (\<lambda>q.
                bindE (loopE (pop_loop (\<lambda>m sq. push_queue_msg sq m) q sq)) (\<lambda>(q, sq).
                Inr (?s\<lparr>sl_queue := Some sq\<rparr>, node\<lparr>kv_queue := Some q\<rparr>)))) = Inr (?s\<lparr>sl_queue := Some sq'\<rparr>, node')"
      "hq_ok sq'" "queue_ok (kv_queue node')" by blast
    let ?h = "set_slave i (?s\<lparr>sl_queue := Some sq'\<rparr>) h"
    have h: "harbor_ok ?h" using ok m(2) w by (intro harbor_ok_set queue_slot_ok) (simp_all add: s)
    obtain q'' h'' where l: "loopE (pop_loop (\<lambda>m h. Inr (hcall (Send_msg (rh_source (hm_header m)) (kv_value node)
                (drop_bit HANDLE_REMOTE_SHIFT (rh_destination (hm_header m)) OR PTYPE_TAG_DONTCOPY)
                (rh_session (hm_header m)) (hm_buffer m)) h)) sq' ?h) = Inr (q'', h'')" "hq_ok q''" "harbor_ok h''" "hb_map h'' = hb_map h"
      using local_deliver_ok [OF h m(2), of "\<lambda>m. Send_msg (rh_source (hm_header m)) (kv_value node)
                (drop_bit HANDLE_REMOTE_SHIFT (rh_destination (hm_header m)) OR PTYPE_TAG_DONTCOPY) (rh_session (hm_header m)) (hm_buffer m)"] by auto
    have "harbor_ok (set_slave i (?s\<lparr>sl_queue := None\<rparr>) h'')" using l(3) w by (intro harbor_ok_set queue_slot_ok) (simp_all add: s)
    with True w i h l m(3) show ?thesis
      by (cases "unat (drop_bit HANDLE_REMOTE_SHIFT (hb_slave h)) = i") (simp_all add: dispatch_name_queue_def Let_def hid m(1))
  qed
qed

text \<open>The table of names.\<close>

lemma hash_search_less: "hash_search hash gname = Some i \<Longrightarrow> i < length (hash (name_bucket gname))"
  by (auto simp: hash_search_def Let_def find_Some_iff)

lemma map_ok_nth: "map_ok hash \<Longrightarrow> i < length (hash b) \<Longrightarrow> queue_ok (kv_queue (hash b ! i))"
  unfolding map_ok_def using nth_mem by blast

lemma hash_node_ok:
  assumes "map_ok hash" "hash_node hash gname = (hash', i)"
  shows "map_ok hash'" "i < length (hash' (name_bucket gname))"
  using assms by (auto simp: hash_node_def hash_insert_def map_ok_def Let_def dest: hash_search_less split: option.splits if_splits)

lemma harbor_ok_map: "harbor_ok h \<Longrightarrow> map_ok hash \<Longrightarrow> harbor_ok (h\<lparr>hb_map := hash\<rparr>)"
  by (simp add: harbor_ok_def)

lemma harbor_ok_node: "harbor_ok h \<Longrightarrow> queue_ok (kv_queue node) \<Longrightarrow> harbor_ok (set_node gname i node h)"
  by (auto simp: harbor_ok_def set_node_def map_ok_def Let_def dest: set_update_subset_insert [THEN subsetD])

lemma update_name_ok:
  assumes ok: "harbor_ok h"
  shows "\<exists>h'. update_name h gname handle = Inr h' \<and> harbor_ok h'"
proof -
  obtain hash i where n: "hash_node (hb_map h) gname = (hash, i)" by (cases "hash_node (hb_map h) gname") auto
  note m = hash_node_ok [OF harbor_okD(3) [OF ok] n]
  let ?h = "h\<lparr>hb_map := hash\<rparr>" and ?node = "(hash (name_bucket gname) ! i)\<lparr>kv_value := handle\<rparr>"
  have h: "harbor_ok ?h" using ok m(1) by (rule harbor_ok_map)
  have node: "queue_ok (kv_queue ?node)" using map_ok_nth [OF m] by simp
  show ?thesis
  proof (cases "kv_queue ?node")
    case None
    then show ?thesis using n m h by (auto simp: update_name_def intro: harbor_ok_node)
  next
    case (Some q)
    with node have "hq_ok q" by simp
    from dispatch_name_queue_ok [OF h Some this] obtain h' node' where d: "dispatch_name_queue ?h ?node = Inr (h', node')"
      "harbor_ok h'" "queue_ok (kv_queue node')" by blast
    have "release_queue (kv_queue node') = Inr ()" using d(3) by (cases "kv_queue node'") simp_all
    then show ?thesis using n m(2) Some d by (auto simp: update_name_def intro: harbor_ok_node)
  qed
qed

text \<open>Messages to other nodes.\<close>

lemma remote_send_handle_ok:
  assumes ok: "harbor_ok h"
  shows "\<exists>h' r. remote_send_handle h source destination type session msg = Inr (h', r) \<and> harbor_ok h'"
proof -
  let ?i = "unat (drop_bit HANDLE_REMOTE_SHIFT destination)"
  let ?s = "hb_s h ! ?i" and ?q = "case sl_queue (hb_s h ! ?i) of None \<Rightarrow> new_queue | Some q \<Rightarrow> q"
  have i: "?i < length (hb_s h)" using harbor_okD(2) [OF ok] handle_slot by simp
  have s: "slot_ok ?s" using harbor_okD(1) [OF ok] handle_slot by simp
  have "hq_ok ?q" using s by (auto simp: slot_ok_def split: option.splits)
  then obtain q where q: "push_queue ?q msg \<lparr>rh_source = source, rh_destination = push_bit HANDLE_REMOTE_SHIFT type OR (destination AND HANDLE_MASK),
      rh_session = session\<rparr> = Inr q" "hq_ok q"
    unfolding push_queue_def using push_queue_msg_ok by blast
  show ?thesis using i ok q slot_fd [OF s] queue_slot_ok [OF s, of "Some q"] by (auto simp: remote_send_handle_def Let_def)
qed

lemma remote_send_name_ok:
  assumes ok: "harbor_ok h"
  shows "\<exists>h' r. remote_send_name h source gname type session msg = Inr (h', r) \<and> harbor_ok h'"
proof -
  obtain hash i where n: "hash_node (hb_map h) gname = (hash, i)" by (cases "hash_node (hb_map h) gname") auto
  note m = hash_node_ok [OF harbor_okD(3) [OF ok] n]
  let ?h = "h\<lparr>hb_map := hash\<rparr>" and ?node = "hash (name_bucket gname) ! i"
  let ?q = "case kv_queue ?node of None \<Rightarrow> new_queue | Some q \<Rightarrow> q"
  have h: "harbor_ok ?h" using ok m(1) by (rule harbor_ok_map)
  have "queue_ok (kv_queue ?node)" using map_ok_nth [OF m] by simp
  then have "hq_ok ?q" by (cases "kv_queue ?node") simp_all
  then obtain q where q: "push_queue ?q msg \<lparr>rh_source = source, rh_destination = push_bit HANDLE_REMOTE_SHIFT type, rh_session = session\<rparr> = Inr q" "hq_ok q"
    unfolding push_queue_def using push_queue_msg_ok by blast
  from remote_send_handle_ok [OF h, of source "kv_value ?node" type session msg] n m(2) q h show ?thesis
    by (cases "kv_value ?node = 0") (simp_all add: remote_send_name_def Let_def harbor_ok_node)
qed

text \<open>Commands.\<close>

lemma dispatch_queue_keeps:
  assumes ok: "harbor_ok h" and i: "i < REMOTE_MAX" and s: "rx s []" "sl_fd s \<noteq> 0" "queue_ok (sl_queue s)"
  shows "\<exists>h'. dispatch_queue (set_slave i s h) i = Inr h' \<and> harbor_ok h'"
proof -
  have "rx (s\<lparr>sl_queue := None\<rparr>) []" using s(1) by (simp add: rx_def)
  then have "slot_ok (s\<lparr>sl_queue := None\<rparr>)" using s(2) by (intro rx_slot_ok) simp_all
  then show ?thesis using dispatch_harbor_queue [of i "set_slave i s h" s] harbor_okD(2) [OF ok] i s ok by simp
qed

lemma command_connect_ok:
  assumes ok: "harbor_ok h"
  shows "\<exists>h'. command_connect h c arg = Inr h' \<and> harbor_ok h'"
proof -
  define buffer where "buffer = takeWhile (\<lambda>c. c \<noteq> CHR 0x00) arg"
  obtain fd i where p: "(case scan_int buffer of None \<Rightarrow> (0, 0)
            | Some (fd, r) \<Rightarrow> (case scan_int r of None \<Rightarrow> (fd, 0) | Some (i, _) \<Rightarrow> (fd, i))) = (fd, i)" by (meson surj_pair)
  show ?thesis
  proof (cases "fd = 0 \<or> i \<le> 0 \<or> i \<ge> int REMOTE_MAX \<or> sl_fd (hb_s h ! nat i) \<noteq> 0")
    case True
    then show ?thesis unfolding command_connect_def Let_def buffer_def [symmetric] p using ok harbor_okD(2) [OF ok]
      by (cases "fd = 0 \<or> i \<le> 0 \<or> i \<ge> int REMOTE_MAX") auto
  next
    case False
    then have i: "nat i < length (hb_s h)" "nat i < REMOTE_MAX" using harbor_okD(2) [OF ok] by auto
    let ?s = "hb_s h ! nat i"
    have s: "slot_ok ?s" using harbor_okD(1) [OF ok i(2)] .
    have w: "sl_status ?s = STATUS_WAIT" using slot_fd [OF s] False by simp
    let ?h = "hcall (Send_sock fd [word_of_int (hb_id h)]) (hcall (Start_sock fd) h)"
    have "slot_ok (?s\<lparr>sl_fd := fd, sl_status := STATUS_HANDSHAKE\<rparr>)" using s w False by (simp add: slot_ok_def)
    moreover have "rx (?s\<lparr>sl_fd := fd, sl_status := STATUS_HEADER\<rparr>) []" using s w by (simp add: slot_ok_def rx_def)
    with dispatch_queue_keeps [of ?h "nat i" "?s\<lparr>sl_fd := fd, sl_status := STATUS_HEADER\<rparr>"] ok i(2) s False obtain h' where
      "dispatch_queue (set_slave (nat i) (?s\<lparr>sl_fd := fd, sl_status := STATUS_HEADER\<rparr>) ?h) (nat i) = Inr h'" "harbor_ok h'"
      by (auto simp: slot_ok_def)
    ultimately show ?thesis unfolding command_connect_def Let_def buffer_def [symmetric] p using i ok False by (simp add: handshake_def)
  qed
qed

definition in_ok :: "harbor \<Rightarrow> harbor_in \<Rightarrow> bool" where
  "in_ok h msg \<longleftrightarrow> (case msg of
     Socket_in m \<Rightarrow> sm_type m = SKYNET_SOCKET_TYPE_DATA \<longrightarrow> (\<exists>bs. m = data_message (sm_id m) bs \<and>
       (let i = harbor_id h (sint (sm_id m)) in i \<noteq> 0 \<longrightarrow> readable h i bs))
   | Harbor_in cmd \<Rightarrow> cmd \<noteq> [] \<and> cmd ! 0 \<in> {CHR ''N'', CHR ''S'', CHR ''A''} \<longrightarrow> 2 \<le> length cmd
   | System_in gname handle type data \<Rightarrow> handle = 0 \<longrightarrow> length gname = GLOBALNAME_LENGTH
   | Other_in type \<Rightarrow> True)"

lemma str_at_ends: "i \<le> length s \<Longrightarrow> \<exists>t. str_at (s @ [CHR 0x00]) i = Inr t"
  by (simp add: str_at_def)

lemma harbor_command_ok:
  assumes ok: "harbor_ok h" and t: "cmd \<noteq> [] \<and> cmd ! 0 \<in> {CHR ''N'', CHR ''S'', CHR ''A''} \<longrightarrow> 2 \<le> length cmd"
  shows "\<exists>h'. harbor_command h cmd source = Inr h' \<and> harbor_ok h'"
proof (cases cmd)
  case Nil
  then show ?thesis using ok str_at_ends [of 0 "[]"] by (auto simp: harbor_command_def Let_def)
next
  case (Cons c cs)
  obtain t0 where t0: "str_at (cmd @ [CHR 0x00]) 0 = Inr t0" using str_at_ends [of 0 cmd] by auto
  have "(cmd @ [CHR 0x00]) ! 0 = c" "cmd ! 0 = c" by (simp_all add: Cons)
  note c = this
  show ?thesis
  proof (cases "c = CHR ''N''")
    case True
    obtain t2 where t2: "str_at (cmd @ [CHR 0x00]) 2 = Inr t2" using str_at_ends [of 2 cmd] t True by (auto simp: Cons)
    show ?thesis unfolding harbor_command_def Let_def c using True ok t2 update_name_ok [OF ok] by simp
  next
    case False
    show ?thesis
    proof (cases "c = CHR ''S'' \<or> c = CHR ''A''")
      case True
      then have "2 \<le> length cmd" using t c Cons by auto
      then show ?thesis unfolding harbor_command_def Let_def c using True False command_connect_ok [OF ok] by auto
    next
      case other: False
      then show ?thesis unfolding harbor_command_def Let_def c using False t0 ok by auto
    qed
  qed
qed

text \<open>C38: In every state that satisfies the invariant, every message whose frames are long enough for their
  headers and whose commands are two characters or longer is handled: no assertion fails, no NULL is dereferenced,
  nothing is read out of bounds or before it was written, and every loop ends. The invariant holds again.\<close>

theorem harbor_never_faults:
  assumes "harbor_ok h" "in_ok h msg"
  shows "\<exists>h'. mainloop ans h session source msg = Inr h' \<and> harbor_ok h'"
proof (cases msg)
  case (Socket_in m)
  show ?thesis
  proof (cases "sm_type m = SKYNET_SOCKET_TYPE_DATA")
    case False
    then show ?thesis using assms by (auto simp: Socket_in mainloop_def Let_def)
  next
    case True
    then obtain bs where m: "m = data_message (sm_id m) bs" and r: "let i = harbor_id h (sint (sm_id m)) in i \<noteq> 0 \<longrightarrow> readable h i bs"
      using assms(2) by (auto simp: in_ok_def Socket_in)
    have "\<exists>h'. push_socket_data ans h (data_message (sm_id m) bs) = Inr h' \<and> harbor_ok h'"
    proof (cases "find (\<lambda>i. sl_fd (hb_s h ! i) = sint (sm_id m)) [1..<REMOTE_MAX]")
      case None
      then show ?thesis using assms(1) by (simp add: push_socket_data_def data_message_def Let_def)
    next
      case (Some i)
      then have i: "1 \<le> i" "i < REMOTE_MAX" by (auto simp: find_Some_iff)
      then have "link_at h (sm_id m) i" using Some harbor_okD(2) [OF assms(1)] by (simp add: link_at_def)
      then show ?thesis using push_socket_data_ok [OF assms(1)] r i Some by (simp add: harbor_id_def)
    qed
    then show ?thesis using mainloop_data [of ans h session source "sm_id m" bs] m by (simp add: Socket_in)
  qed
next
  case (Harbor_in cmd)
  then show ?thesis using harbor_command_ok [OF assms(1), of cmd source] assms(2) by (simp add: mainloop_def in_ok_def)
next
  case (System_in gname handle type data)
  then show ?thesis using remote_send_handle_ok [OF assms(1), of source handle type session data]
      remote_send_name_ok [OF assms(1), of source gname type session data]
    by (auto simp: mainloop_def)
next
  case (Other_in type)
  then show ?thesis using assms(1) by (simp add: mainloop_def Let_def)
qed

section \<open>Messages to a name\<close>

text \<open>An array with the text of a name, and the node that a message to an unknown name adds.\<close>

definition name_array :: "string \<Rightarrow> u8 list" where
  "name_array nm = bytes nm @ replicate (GLOBALNAME_LENGTH - length nm) 0"

definition name_node :: "u8 list \<Rightarrow> harbor_msg_queue option \<Rightarrow> keyvalue" where
  "name_node gname q = \<lparr>kv_key = gname, kv_hash = name_hash gname, kv_value = 0, kv_queue = q\<rparr>"

definition with_node :: "u8 list \<Rightarrow> keyvalue \<Rightarrow> harbor \<Rightarrow> harbor" where
  "with_node gname node h = h\<lparr>hb_map := (hb_map h)(name_bucket gname := node # hb_map h (name_bucket gname))\<rparr>"

lemma with_node_frame [simp]: "hb_s (with_node gname node h) = hb_s h" "hb_trace (with_node gname node h) = hb_trace h"
  "hb_slave (with_node gname node h) = hb_slave h" "hb_id (with_node gname node h) = hb_id h"
  by (simp_all add: with_node_def)

lemma send_unknown_name:
  assumes "hash_search (hb_map h) gname = None"
  shows "\<exists>q. mainloop ans h session source (System_in gname 0 type data)
      = Inr (hcall (Send_msg 0 (hb_slave h) PTYPE_TEXT 0 (bytes ''Q '' @ name_text gname)) (with_node gname (name_node gname (Some q)) h))
    \<and> hq_ok q \<and> hq_abs q = [\<lparr>hm_header = \<lparr>rh_source = source, rh_destination = push_bit HANDLE_REMOTE_SHIFT type, rh_session = session\<rparr>, hm_buffer = data\<rparr>]"
proof -
  let ?m = "\<lparr>hm_header = \<lparr>rh_source = source, rh_destination = push_bit HANDLE_REMOTE_SHIFT type, rh_session = session\<rparr>, hm_buffer = data\<rparr>"
  from push_queue_msg_ok [of new_queue ?m] obtain q where "push_queue_msg new_queue ?m = Inr q" "hq_ok q" "hq_abs q = [?m]" by auto
  then show ?thesis using assms
    by (intro exI [of _ q]) (simp add: mainloop_def remote_send_name_def hash_node_def hash_insert_def push_queue_def set_node_def with_node_def name_node_def Let_def hcall_def)
qed

lemma hash_search_first: "hash (name_bucket gname) = name_node gname q # nodes \<Longrightarrow> hash_search hash gname = Some 0"
  by (simp add: hash_search_def Let_def upt_conv_Cons name_node_def del: upt_Suc)

text \<open>The name becomes known before the connection, or after it.\<close>

lemma name_array_command:
  assumes "0 < length nm" "length nm < GLOBALNAME_LENGTH"
  shows "mainloop ans h session source (Harbor_in (''N '' @ nm)) = update_name h (name_array nm) source"
  using assms by (simp add: mainloop_def harbor_command_def Let_def name_array_def)

lemma update_waiting_name:
  assumes "hb_map h (name_bucket gname) = name_node gname (Some q) # nodes"
    and "dispatch_name_queue h ((name_node gname (Some q))\<lparr>kv_value := handle\<rparr>) = Inr (h', node')" "queue_ok (kv_queue node')"
  shows "update_name h gname handle = Inr (set_node gname 0 (node'\<lparr>kv_queue := None\<rparr>) h')"
proof -
  have "release_queue (kv_queue node') = Inr ()" using assms(3) by (cases "kv_queue node'") simp_all
  moreover have "h\<lparr>hb_map := hb_map h\<rparr> = h" by simp
  ultimately show ?thesis using assms(1,2) hash_search_first [where hash = "hb_map h", OF assms(1)]
    by (simp add: update_name_def hash_node_def Let_def name_node_def)
qed

lemma dispatch_name_waiting:
  assumes "unat (drop_bit HANDLE_REMOTE_SHIFT (kv_value node)) = i" "i < length (hb_s h)" "hb_s h ! i = s"
    "sl_fd s = 0" "sl_status s = STATUS_WAIT" "sl_queue s = None" "unat (drop_bit HANDLE_REMOTE_SHIFT (hb_slave h)) \<noteq> i"
  shows "dispatch_name_queue h node = Inr (set_slave i (s\<lparr>sl_queue := kv_queue node\<rparr>) h, node\<lparr>kv_queue := None\<rparr>)"
  using assms by (simp add: dispatch_name_queue_def Let_def)

lemma dispatch_name_connected:
  assumes "unat (drop_bit HANDLE_REMOTE_SHIFT (kv_value node)) = i" "i < length (hb_s h)" "sl_fd (hb_s h ! i) = fd" "fd \<noteq> 0"
    and q: "kv_queue node = Some q" "hq_ok q"
  shows "\<exists>q'. dispatch_name_queue h node = Inr (fold (\<lambda>m. send_remote fd (hm_buffer m)
      ((hm_header m)\<lparr>rh_destination := rh_destination (hm_header m) OR (kv_value node AND HANDLE_MASK)\<rparr>)) (hq_abs q) h, node\<lparr>kv_queue := Some q'\<rparr>) \<and> hq_ok q'"
proof -
  let ?send = "\<lambda>m. send_remote fd (hm_buffer m) ((hm_header m)\<lparr>rh_destination := rh_destination (hm_header m) OR (kv_value node AND HANDLE_MASK)\<rparr>)"
  from pop_loop_fold [OF q(2), of "\<lambda>_. True" h "\<lambda>m h. Inr (?send m h)" "\<lambda>h. h" ?send] obtain q' where
    "loopE (pop_loop (\<lambda>m h. Inr (?send m h)) q h) = Inr (q', fold ?send (hq_abs q) h)" "hq_ok q'" by auto
  then show ?thesis using assms by (auto simp: dispatch_name_queue_def Let_def)
qed

lemma set_node_frame [simp]: "hb_trace (set_node gname i node h) = hb_trace h" "hb_s (set_node gname i node h) = hb_s h"
  "hb_id (set_node gname i node h) = hb_id h"
  by (simp_all add: set_node_def Let_def)

lemma send_remote_bytes:
  "length b + 12 < 2 ^ 32 \<Longrightarrow> hb_trace (send_remote fd b c h) = hb_trace h @ [Send_sock fd (frame (b @ header_to_message c))]"
  by (simp add: send_remote_def frame_def)

lemma sent_bytes_Cons [simp]: "sent_bytes fd (a # tr) = (case a of Send_sock f bs \<Rightarrow> if f = fd then bs else [] | _ \<Rightarrow> []) @ sent_bytes fd tr"
  by (simp add: sent_bytes_def)

text \<open>C39: A message to a name that is not known yet waits for the name. If the name becomes known while its node is
  connected, the message is sent to the handle of the name; if it becomes known before the node is connected, the
  message is sent to the handle 0 of the node.\<close>

theorem named_message_loses_handle:
  fixes source handle main :: u32 and type session :: i32 and data :: "u8 list" and fd :: int
  assumes h: "harbor_ok h" "hash_search (hb_map h) (name_array nm) = None" "0 < length nm" "length nm < GLOBALNAME_LENGTH"
    and b: "unat (drop_bit HANDLE_REMOTE_SHIFT handle) = b" "0 < b" "hb_s h ! b = s" "sl_fd s = 0" "sl_queue s = None"
      "unat (drop_bit HANDLE_REMOTE_SHIFT (hb_slave h)) \<noteq> b"
    and fd: "0 < fd" "fd < 2 ^ 31" and data: "length data + 12 < 2 ^ 24"
  defines "send \<equiv> (session, source, System_in (name_array nm) 0 type data)" and "naming \<equiv> (0, handle, Harbor_in (''N '' @ nm))"
    and "connect \<equiv> (0, main, Harbor_in (accept_command fd b))"
    and "msg \<equiv> \<lambda>d. word_of_int (hb_id h) # frame (data @ header_to_message \<lparr>rh_source = source, rh_destination = d, rh_session = session\<rparr>)"
  shows "(\<exists>h' calls. run_harbor ans h [send, connect, naming] = Inr h' \<and> hb_trace h' = hb_trace h @ calls
        \<and> sent_bytes fd calls = msg (push_bit HANDLE_REMOTE_SHIFT type OR (handle AND HANDLE_MASK)))
    \<and> (\<exists>h' calls. run_harbor ans h [send, naming, connect] = Inr h' \<and> hb_trace h' = hb_trace h @ calls
        \<and> sent_bytes fd calls = msg (push_bit HANDLE_REMOTE_SHIFT type))"
proof -
  let ?g = "name_array nm" and ?hd = "\<lambda>d. \<lparr>rh_source = source, rh_destination = d, rh_session = session\<rparr>"
  let ?m = "\<lparr>hm_header = ?hd (push_bit HANDLE_REMOTE_SHIFT type), hm_buffer = data\<rparr>"
  have i: "b < length (hb_s h)" "b < REMOTE_MAX" using handle_slot [of handle] b(1) harbor_okD(2) [OF h(1)] by simp_all
  have w: "sl_status s = STATUS_WAIT" using harbor_okD(1) [OF h(1) i(2)] b(3,4) slot_fd by simp
  from send_unknown_name [OF h(2)] obtain q where q: "mainloop ans h session source (System_in ?g 0 type data)
      = Inr (hcall (Send_msg 0 (hb_slave h) PTYPE_TEXT 0 (bytes ''Q '' @ name_text ?g)) (with_node ?g (name_node ?g (Some q)) h))"
    "hq_ok q" "hq_abs q = [?m]" by blast
  let ?h1 = "hcall (Send_msg 0 (hb_slave h) PTYPE_TEXT 0 (bytes ''Q '' @ name_text ?g)) (with_node ?g (name_node ?g (Some q)) h)"
  let ?node = "(name_node ?g (Some q))\<lparr>kv_value := handle\<rparr>"
  have m1: "hb_map ?h1 (name_bucket ?g) = name_node ?g (Some q) # hb_map h (name_bucket ?g)" by (simp add: with_node_def)
  have fast: "\<exists>h' calls. run_harbor ans h [send, connect, naming] = Inr h' \<and> hb_trace h' = hb_trace h @ calls
        \<and> sent_bytes fd calls = msg (push_bit HANDLE_REMOTE_SHIFT type OR (handle AND HANDLE_MASK))"
  proof -
    let ?h2 = "set_slave b (s\<lparr>sl_fd := fd, sl_status := STATUS_HEADER, sl_queue := None\<rparr>)
      (hcall (Send_sock fd [word_of_int (hb_id h)]) (hcall (Start_sock fd) ?h1))"
    have con: "mainloop ans ?h1 0 main (Harbor_in (accept_command fd b)) = Inr ?h2"
      using accept_connects [of b ?h1 s fd ans 0 main] i b fd by (simp add: queued_def send_queued_def)
    have m2: "hb_map ?h2 (name_bucket ?g) = name_node ?g (Some q) # hb_map h (name_bucket ?g)" using m1 by simp
    from dispatch_name_connected [of ?node b ?h2 fd q] b(1) i fd q(2,3) obtain q' where
      d: "dispatch_name_queue ?h2 ?node = Inr (send_remote fd data (?hd (push_bit HANDLE_REMOTE_SHIFT type OR (handle AND HANDLE_MASK))) ?h2,
        ?node\<lparr>kv_queue := Some q'\<rparr>)" "hq_ok q'" by (auto simp: name_node_def)
    note u = update_waiting_name [OF m2 d(1)]
    have "run_harbor ans h [send, connect, naming] = Inr (set_node ?g 0 (?node\<lparr>kv_queue := Some q', kv_queue := None\<rparr>)
        (send_remote fd data (?hd (push_bit HANDLE_REMOTE_SHIFT type OR (handle AND HANDLE_MASK))) ?h2))"
      using q(1) con u d(2) name_array_command [OF h(3,4), of ans ?h2 0 handle] by (simp add: send_def connect_def naming_def)
    then show ?thesis using data by (simp add: send_remote_bytes msg_def)
  qed
  moreover have "\<exists>h' calls. run_harbor ans h [send, naming, connect] = Inr h' \<and> hb_trace h' = hb_trace h @ calls
        \<and> sent_bytes fd calls = msg (push_bit HANDLE_REMOTE_SHIFT type)"
  proof -
    have d: "dispatch_name_queue ?h1 ?node = Inr (set_slave b (s\<lparr>sl_queue := Some q\<rparr>) ?h1, ?node\<lparr>kv_queue := None\<rparr>)"
      using dispatch_name_waiting [of ?node b ?h1 s] b i w by (simp add: name_node_def)
    let ?h2 = "set_node ?g 0 (?node\<lparr>kv_queue := None, kv_queue := None\<rparr>) (set_slave b (s\<lparr>sl_queue := Some q\<rparr>) ?h1)"
    have nm: "mainloop ans ?h1 0 handle (Harbor_in (''N '' @ nm)) = Inr ?h2"
      using update_waiting_name [OF m1 d] name_array_command [OF h(3,4), of ans ?h1 0 handle] by simp
    have con: "mainloop ans ?h2 0 main (Harbor_in (accept_command fd b)) = Inr (set_slave b (s\<lparr>sl_fd := fd, sl_status := STATUS_HEADER, sl_queue := None\<rparr>)
      (send_queued fd [?m] (hcall (Send_sock fd [word_of_int (hb_id h)]) (hcall (Start_sock fd) ?h2))))"
      using accept_connects [of b ?h2 "s\<lparr>sl_queue := Some q\<rparr>" fd ans 0 main] i b fd q(2,3) by (simp add: queued_def)
    show ?thesis using q(1) nm con data by (simp add: send_def connect_def naming_def send_queued_def send_remote_bytes msg_def)
  qed
  ultimately show ?thesis by blast
qed

text \<open>C40: A link that was closed because of a bad number or a bad frame keeps its socket: messages for the node are still
  written to that socket, without an error for the sender, and a new connection to the node is refused.\<close>

theorem closed_link_is_final:
  assumes "harbor_ok h" "0 < i" "i < REMOTE_MAX" "sl_status (hb_s h ! i) = STATUS_DOWN" "hb_id h \<noteq> int i" "0 < fd" "fd < 2 ^ 31"
    and "unat (drop_bit HANDLE_REMOTE_SHIFT destination) = i"
  shows "mainloop ans h session source (System_in [] destination type data) = Inr (send_remote (sl_fd (hb_s h ! i)) data
      \<lparr>rh_source = source, rh_destination = push_bit HANDLE_REMOTE_SHIFT type OR (destination AND HANDLE_MASK), rh_session = session\<rparr> h)
    \<and> mainloop ans h session source (Harbor_in (accept_command fd i)) = Inr (hlog (''Harbor '' @ fmt_d (int i) @ '' alreay exist'') h)"
proof -
  have i: "i < length (hb_s h)" using harbor_okD(2) [OF assms(1)] assms(3) by simp
  have f: "sl_fd (hb_s h ! i) \<noteq> 0" using harbor_okD(1) [OF assms(1,3)] slot_fd assms(4) by fastforce
  have "destination \<noteq> 0" using assms(2,8) by auto
  then have "mainloop ans h session source (System_in [] destination type data) = Inr (send_remote (sl_fd (hb_s h ! i)) data
      \<lparr>rh_source = source, rh_destination = push_bit HANDLE_REMOTE_SHIFT type OR (destination AND HANDLE_MASK), rh_session = session\<rparr> h)"
    using assms i f by (simp add: mainloop_def remote_send_handle_def)
  moreover have "mainloop ans h session source (Harbor_in (accept_command fd i)) = Inr (hlog (''Harbor '' @ fmt_d (int i) @ '' alreay exist'') h)"
    using accept_reads [of fd i h "CHR ''A''"] assms i f by (simp add: mainloop_def harbor_command_def accept_command_def)
  ultimately show ?thesis by blast
qed

section \<open>Examples\<close>

lemma harbor1_ok: "harbor_ok harbor1"
  using harbor_create_ok by (simp add: harbor_ok_def harbor1_def)

lemma harbor2_ok: "harbor_ok harbor2"
  using harbor1_ok harbor2_awaits by (auto simp: harbor_ok_def REMOTE_MAX_def awaits_def slot_ok_def dest: set_update_subset_insert [THEN subsetD])

theorem harbor_never_faults_witness:
  "in_ok harbor2 (Socket_in (data_message 7 (1 # frame (msg_content (out_msg greeting)))))
   \<and> (\<exists>h'. mainloop (\<lambda>_ _. 0) harbor2 0 0 (Socket_in (data_message 7 (1 # frame (msg_content (out_msg greeting))))) = Inr h' \<and> harbor_ok h')"
proof -
  let ?m = "Socket_in (data_message 7 (1 # frame (msg_content (out_msg greeting))))"
  have "harbor_id harbor2 7 = 1" using harbor2_link by (simp add: link_at_def harbor_id_def)
  moreover have "split_link (frame (msg_content (out_msg greeting))) = ([msg_content (out_msg greeting)], Rest [])"
    using split_link_frames [of "[msg_content (out_msg greeting)]"] out_length [OF greeting_ok] by simp
  ultimately have "in_ok harbor2 ?m" by (simp add: in_ok_def data_message_def readable_def)
  then show ?thesis using harbor_never_faults [OF harbor2_ok, of ?m] by blast
qed

theorem named_message_loses_handle_witness:
  "(\<exists>h' calls. run_harbor (\<lambda>_ _. 0) harbor1 [(5, 0x01000008, System_in (name_array ''db'') 0 1 [104, 105]), (0, 0x01000005, Harbor_in (accept_command 9 2)),
        (0, 0x02000009, Harbor_in (''N '' @ ''db''))] = Inr h' \<and> hb_trace h' = hb_trace harbor1 @ calls
      \<and> sent_bytes 9 calls = 1 # frame ([104, 105] @ header_to_message \<lparr>rh_source = 0x01000008,
          rh_destination = push_bit HANDLE_REMOTE_SHIFT 1 OR (0x02000009 AND HANDLE_MASK), rh_session = 5\<rparr>))
   \<and> (\<exists>h' calls. run_harbor (\<lambda>_ _. 0) harbor1 [(5, 0x01000008, System_in (name_array ''db'') 0 1 [104, 105]),
        (0, 0x02000009, Harbor_in (''N '' @ ''db'')), (0, 0x01000005, Harbor_in (accept_command 9 2))] = Inr h' \<and> hb_trace h' = hb_trace harbor1 @ calls
      \<and> sent_bytes 9 calls = 1 # frame ([104, 105] @ header_to_message \<lparr>rh_source = 0x01000008,
          rh_destination = push_bit HANDLE_REMOTE_SHIFT 1, rh_session = 5\<rparr>))"
  using named_message_loses_handle [where h = harbor1 and nm = "''db''" and handle = "0x02000009" and b = 2 and s = slave_zero and fd = 9
      and data = "[104, 105]" and ans = "\<lambda>_ _. 0" and session = 5 and source = "0x01000008" and type = 1 and main = "0x01000005", OF harbor1_ok]
  by (simp add: hash_search_def hash_new_def slave_zero_def GLOBALNAME_LENGTH_def HANDLE_REMOTE_SHIFT_def unat_drop_bit_div)

theorem closed_link_is_final_witness:
  "\<exists>h. sl_status (hb_s h ! 2) = STATUS_DOWN \<and> mainloop (\<lambda>_ _. 0) h 5 0x01000008 (System_in [] 0x02000009 1 [104, 105]) = Inr (send_remote (sl_fd (hb_s h ! 2)) [104, 105]
      \<lparr>rh_source = 0x01000008, rh_destination = push_bit HANDLE_REMOTE_SHIFT 1 OR (0x02000009 AND HANDLE_MASK), rh_session = 5\<rparr> h)
    \<and> mainloop (\<lambda>_ _. 0) h 5 0x01000008 (Harbor_in (accept_command 9 2)) = Inr (hlog (''Harbor '' @ fmt_d (int 2) @ '' alreay exist'') h)"
proof -
  let ?h = "set_slave 2 (slave_zero\<lparr>sl_fd := 7, sl_status := STATUS_DOWN\<rparr>) harbor1"
  have "harbor_ok ?h" using harbor1_ok by (rule harbor_ok_set) (simp add: slot_ok_def slave_zero_def)
  from closed_link_is_final [OF this, where i = 2 and fd = 9 and destination = "0x02000009" and ans = "\<lambda>_ _. 0" and session = 5
      and source = "0x01000008" and type = 1 and data = "[104, 105]"] show ?thesis
    by (intro exI [of _ ?h]) (simp add: REMOTE_MAX_def HANDLE_REMOTE_SHIFT_def unat_drop_bit_div)
qed

end
