(* ===== verification/Spec2Isabelle.thy ===== *)
theory Spec2Isabelle
  imports Skynet_Locks Skynet_Start Crypt_Des Crypt_Md5 Netpack Hash_Id Data_Buffer Gate_Service Socket_Faults Lua_Seri Skynet_Log Harbor_Safety
begin

text \<open>
  A verification library for skynet, an actor framework in C: a node runs many services, each with
  a queue of messages; a small number of worker threads dispatch the messages, a timer thread sends
  timeouts, a socket thread reports data and connections. The paths below are under \<^verbatim>\<open>src/\<close>.

  \<^bold>\<open>How the program is put together.\<close> A service is a context (\<^verbatim>\<open>skynet_server.c\<close>) that is
  registered under a handle (\<^verbatim>\<open>skynet_handle.c\<close>), runs the code of a module
  (\<^verbatim>\<open>skynet_module.c\<close>) and owns a queue (\<^verbatim>\<open>skynet_mq.c\<close>). Sending puts a message into the
  queue of the destination, or gives it to the harbor service when the handle belongs to another node
  (\<^verbatim>\<open>skynet_harbor.c\<close>). Queues with messages wait in the global queue, from which the workers take
  them. The timer (\<^verbatim>\<open>skynet_timer.c\<close>) pushes a response message when a timeout is due. The gate
  service (\<^verbatim>\<open>service_gate.c\<close>) and the packet splitter for Lua gates (\<^verbatim>\<open>lua-netpack.c\<close>) cut the
  data of the connections into packets and forward them. The harbor service (\<^verbatim>\<open>service_harbor.c\<close>) holds the
  connections to the other nodes. \<^verbatim>\<open>lua-crypt.c\<close> holds the ciphers and
  codecs with which clients log in.

  \<^bold>\<open>Conventions.\<close> Machine integers are words, or \<open>int\<close> with the wrap-around written out
  (\<open>wrap32\<close>) where the code computes with a C \<^verbatim>\<open>int\<close>. Every assertion, NULL dereference, access out
  of range, read of uninitialised memory and error raised into Lua is an \<open>Inl\<close> of the type \<open>'a res\<close>;
  operations return \<open>Inr\<close> with the new state. Where the code keeps records in linked lists or pools
  that alias, the store is explicit (functions on addresses, theory \<open>Linked_Chain\<close>). Loops that end
  are recursive functions with a termination proof. A loop whose end depends on an invariant of the
  state is a \<open>partial_function (option)\<close>; that it ends is then proved (the lookup in the handle table
  and the id table, releasing a queue, the loop of the gate that splits data, the reader of the
  serializer), but for the loops that wait for the system (the socket thread's wait for an event, a
  write that is interrupted). No definition uses fuel. Concurrency is a step relation with any number
  of threads; invariants are proved by rule
  induction over all interleavings.

  \<^bold>\<open>Theories, sources and what is shown.\<close>
  \<^item> \<open>Skynet_Prelude\<close>: machine integers, faults, ring buffers, the locale \<open>fifo\<close> of the queue contract.
    \<open>Linked_Chain\<close>: chains of pointers. \<open>C_Text\<close>: the functions of the C library on strings and
    numbers that the sources call (\<^verbatim>\<open>strtol\<close>, \<^verbatim>\<open>sscanf\<close> words, formats).
  \<^item> \<open>Skynet_Locks\<close> (\<^verbatim>\<open>skynet-src/atomic.h\<close>, \<^verbatim>\<open>rwlock.h\<close>, \<^verbatim>\<open>spinlock.h\<close>): mutual exclusion of
    the locks under every interleaving, and the two writers that the C11 variant admits.
  \<^item> \<open>Message_Queue\<close> (\<^verbatim>\<open>skynet-src/skynet_mq.c\<close>): the growing ring buffer refines a FIFO queue; in
    every interleaving of the workers each queue has one owner and none with messages is forgotten;
    the calls never fault; a marked queue is drained.
  \<^item> \<open>Timer_Wheel\<close> (\<^verbatim>\<open>skynet-src/skynet_timer.c\<close>): the hierarchical wheel fires what a plain list of
    deadlines would fire, over the wrap of the 32-bit clock.
  \<^item> \<open>Handle_Storage\<close> (\<^verbatim>\<open>skynet-src/skynet_handle.c\<close>): the open-addressed table refines a map from
    handles to services, the sorted table of names a map from names; two histories that end in a fault.
  \<^item> \<open>Skynet_Modules\<close> (\<^verbatim>\<open>skynet-src/skynet_module.c\<close>): the search along the path, loading once.
  \<^item> \<open>Skynet_Server\<close>, \<open>Skynet_Commands\<close>, \<open>Skynet_Delivery\<close>, \<open>Skynet_Lifecycle\<close>
    (\<^verbatim>\<open>skynet-src/skynet_server.c\<close>, with \<^verbatim>\<open>skynet_error.c\<close>, \<^verbatim>\<open>skynet_env.c\<close>,
    \<^verbatim>\<open>skynet_monitor.c\<close>, \<^verbatim>\<open>skynet_harbor.c\<close>): the whole node as one record; sending delivers
    one message to one queue, a worker turn handles as many messages as its weight says, timeouts
    arrive, services are created, named, retired and freed by reference count.
  \<^item> \<open>Crypt_Des\<close>, \<open>Crypt_Codec\<close> (\<^verbatim>\<open>lualib-src/lua-crypt.c\<close>), \<open>Crypt_Md5\<close>
    (\<^verbatim>\<open>3rd/lua-md5/md5.c\<close>): decoding undoes encoding, the key exchange agrees, the hash functions
    against their definitions, and inputs that are read out of bounds or wrongly accepted.
  \<^item> \<open>Netpack\<close> (\<^verbatim>\<open>lualib-src/lua-netpack.c\<close>, the loop of \<^verbatim>\<open>lualib/snax/gateserver.lua\<close>):
    however the streams are cut and interleaved, the packets per socket are those of its stream.
  \<^item> \<open>Hash_Id\<close> (\<^verbatim>\<open>service-src/hashid.h\<close>), \<open>Data_Buffer\<close> (\<^verbatim>\<open>service-src/databuffer.h\<close>),
    \<open>Gate_Service\<close> (\<^verbatim>\<open>service-src/service_gate.c\<close>): the id table refines a finite map, the buffers
    over a shared record pool are byte streams, the gate handles every message without a fault and
    forwards the packets in order; two inputs on which it stalls or loses its place.
  \<^item> \<open>Socket_Server\<close> (\<^verbatim>\<open>skynet-src/socket_server.c\<close>, \<^verbatim>\<open>socket_buffer.h\<close>, \<^verbatim>\<open>socket_poll.h\<close>,
    \<^verbatim>\<open>socket_info.h\<close>): every operation. The operating system is a function from the history of system
    calls to the next answer, so a property holds whatever epoll, the connections and the name
    resolution do. \<open>Socket_Handlers\<close> has what each handler keeps, \<open>Socket_Invariant\<close> the invariant of the
    slots, \<open>Socket_Safety\<close> that no round of the thread and no call of a worker fails, under three named
    conditions (\<open>round_ok\<close>: what a request needs when it is handled; \<open>may_reserve\<close>: a free slot;
    \<open>send_ok\<close>: sends on open sockets), and \<open>Socket_Faults\<close> what happens where they do not hold.
  \<^item> \<open>Skynet_Socket\<close> (\<^verbatim>\<open>skynet-src/skynet_socket.c\<close>): a report of the socket server becomes one message
    for the service, or is freed.
  \<^item> \<open>Skynet_Threads\<close>, \<open>Skynet_Start\<close> (\<^verbatim>\<open>skynet-src/skynet_start.c\<close>): the loops of all threads as a
    step relation over the node (a call into another part is one step), sleeping and waking of the
    workers, the end of the process, launching services and start-up.
  \<^item> \<open>Lua_Seri\<close> (\<^verbatim>\<open>lualib-src/lua-seri.c\<close>): values that services send each other come back as they
    were; the reader returns on every input and stays inside the buffer.

  \<^item> \<open>Skynet_Log\<close> (\<^verbatim>\<open>skynet-src/skynet_log.c\<close>): the files into which messages are logged, and the reports
    that are read beyond their end there.
  \<^item> \<open>Harbor_Service\<close>, \<open>Harbor_Link\<close>, \<open>Harbor_Safety\<close> (\<^verbatim>\<open>service-src/service_harbor.c\<close>): the links between
    nodes. Reading a link in any parts refines the meaning of its bytes, what one harbor is given for
    another node the other one delivers in order, every message is handled under the invariant; messages
    to a name that lose their handle, and links that stay closed.

  \<^bold>\<open>Interfaces.\<close> \<open>handle_registry\<close> is interpreted by the handle table, \<open>fifo\<close> by the service queue, the splitter's queue
  and the queues of the harbor, \<open>id_table\<close> by
  \<^verbatim>\<open>hashid\<close>, \<open>byte_stream\<close> by \<^verbatim>\<open>databuffer\<close>; the clients rest on the facts of the
  interpretations.

  \<^bold>\<open>Not modelled.\<close> Reading the configuration and turning into a daemon (\<^verbatim>\<open>skynet_main.c\<close>,
  \<^verbatim>\<open>skynet_daemon.c\<close>); the statistics of the memory hook; the glue that registers C functions with Lua;
  Lua itself, lpeg and jemalloc, which are third-party code. Answers of the operating system, of module
  code and random numbers are arguments of the definitions.
\<close>

end
